(* ===== verification/Sundog_Prelude.thy ===== *)
theory Sundog_Prelude
  imports Main "HOL-Library.Word"
begin

text \<open>
  Shared vocabulary of the development: the machine integers of the Rust sources
  (\<open>u8\<close> to \<open>u64\<close> as words), the saturating and checked arithmetic of
  \<^verbatim>\<open>core::num\<close>, byte strings, the result type of fallible calls, and the decimal and
  hexadecimal number parsing of \<^verbatim>\<open>str::parse\<close> and \<^verbatim>\<open>u64::from_str_radix\<close>.
  The \<^theory_text>\<open>named_theorems\<close> collections carry the component proofs: \<open>sat_simps\<close> turns
  saturating arithmetic into natural-number arithmetic, \<open>unfolds\<close> collects the definitions
  a component's lemmas unfold together.
\<close>

named_theorems sat_simps \<open>saturating and checked word arithmetic, read through \<open>unat\<close>\<close>
named_theorems unfolds \<open>definitions that a component's proofs unfold together\<close>

type_synonym u8 = "8 word"
type_synonym u16 = "16 word"
type_synonym u32 = "32 word"
type_synonym u64 = "64 word"
type_synonym bytes = "u8 list"

section \<open>Saturating and checked arithmetic\<close>

text \<open>\<open>u64::MAX\<close> and \<open>u32::MAX\<close> are the all-ones words.\<close>

abbreviation u64_max :: u64 where "u64_max \<equiv> - 1"
abbreviation u32_max :: u32 where "u32_max \<equiv> - 1"

definition sat_add :: "'a::len word \<Rightarrow> 'a word \<Rightarrow> 'a word" where
  "sat_add a b = (if uint a + uint b < 2 ^ LENGTH('a) then a + b else - 1)"

definition sat_sub :: "'a::len word \<Rightarrow> 'a word \<Rightarrow> 'a word" where
  "sat_sub a b = (if b \<le> a then a - b else 0)"

definition sat_mul :: "'a::len word \<Rightarrow> 'a word \<Rightarrow> 'a word" where
  "sat_mul a b = (if uint a * uint b < 2 ^ LENGTH('a) then a * b else - 1)"

definition checked_add :: "'a::len word \<Rightarrow> 'a word \<Rightarrow> 'a word option" where
  "checked_add a b = (if uint a + uint b < 2 ^ LENGTH('a) then Some (a + b) else None)"

definition checked_sub :: "'a::len word \<Rightarrow> 'a word \<Rightarrow> 'a word option" where
  "checked_sub a b = (if b \<le> a then Some (a - b) else None)"

lemma unat_minus_one_word: "unat (- 1 :: 'a::len word) = 2 ^ LENGTH('a) - 1"
  by (simp add: unsigned_minus_1_eq_mask mask_eq_exp_minus_1)

lemma less_pow_iff_le: "(n::nat) < 2 ^ k \<longleftrightarrow> n \<le> 2 ^ k - 1"
  by (metis One_nat_def Suc_pred less_Suc_eq_le zero_less_numeral zero_less_power)

lemma unat_le_pow: "unat (x :: 'a::len word) \<le> 2 ^ LENGTH('a) - 1"
  by (subst less_pow_iff_le[symmetric]) simp

text \<open>The overflow tests compute on \<open>uint\<close>; the lemmas read them on \<open>unat\<close>.\<close>

lemma uint_add_lt_iff:
  "uint a + uint b < 2 ^ LENGTH('a) \<longleftrightarrow> unat a + unat b < 2 ^ LENGTH('a)"
  for a b :: "'a::len word"
  unfolding uint_nat by (metis of_nat_add of_nat_less_iff of_nat_numeral of_nat_power)

lemma uint_mult_lt_iff:
  "uint a * uint b < 2 ^ LENGTH('a) \<longleftrightarrow> unat a * unat b < 2 ^ LENGTH('a)"
  for a b :: "'a::len word"
  unfolding uint_nat by (metis of_nat_mult of_nat_less_iff of_nat_numeral of_nat_power)

lemma unat_sat_add [sat_simps]:
  "unat (sat_add a b) = min (unat a + unat b) (2 ^ LENGTH('a) - 1)"
  for a b :: "'a::len word"
  by (simp add: sat_add_def uint_add_lt_iff unat_minus_one_word unat_word_ariths less_pow_iff_le min_def)

lemma unat_sat_sub [sat_simps]: "unat (sat_sub a b) = unat a - unat b"
  for a b :: "'a::len word"
  by (auto simp: sat_sub_def unat_sub word_le_nat_alt)

lemma unat_sat_mul [sat_simps]:
  "unat (sat_mul a b) = min (unat a * unat b) (2 ^ LENGTH('a) - 1)"
  for a b :: "'a::len word"
  by (simp add: sat_mul_def uint_mult_lt_iff unat_minus_one_word unat_word_ariths less_pow_iff_le min_def)

lemma unat_max [sat_simps]: "unat (max a b) = max (unat a) (unat b)"
  for a b :: "'a::len word"
  by (auto simp: max_def word_le_nat_alt)

lemma unat_min [sat_simps]: "unat (min a b) = min (unat a) (unat b)"
  for a b :: "'a::len word"
  by (auto simp: min_def word_le_nat_alt)

lemma checked_add_Some_iff:
  "checked_add a b = Some c \<longleftrightarrow> unat a + unat b < 2 ^ LENGTH('a) \<and> c = a + b"
  for a b :: "'a::len word"
  by (auto simp: checked_add_def uint_add_lt_iff)

lemma unat_checked_add: "checked_add a b = Some c \<Longrightarrow> unat c = unat a + unat b"
  for a b :: "'a::len word"
  by (auto simp: checked_add_def uint_add_lt_iff unat_word_ariths split: if_splits)

lemma checked_sub_Some_iff: "checked_sub a b = Some c \<longleftrightarrow> b \<le> a \<and> c = a - b"
  by (auto simp: checked_sub_def)

text \<open>The increment \<open>x + 1\<close> of a word that is not the maximum does not wrap.\<close>

lemma unat_inc: "x \<noteq> - 1 \<Longrightarrow> unat (x + 1) = Suc (unat x)" for x :: "'a::len word"
proof -
  assume "x \<noteq> - 1"
  then have "unat x \<noteq> 2 ^ LENGTH('a) - 1"
    by (metis unat_minus_one_word word_unat_eq_iff)
  then have "Suc (unat x) < 2 ^ LENGTH('a)"
    using unat_le_pow[of x] by linarith
  then show ?thesis by (simp add: unat_word_ariths)
qed

lemma word_less_inc: "x \<noteq> - 1 \<Longrightarrow> x < x + 1" for x :: "'a::len word"
  by (simp add: word_less_nat_alt unat_inc)

lemma unat_not_max: "x \<noteq> - 1 \<Longrightarrow> unat x < 2 ^ LENGTH('a) - 1" for x :: "'a::len word"
  using unat_le_pow[of x] by (metis le_neq_implies_less unat_minus_one_word word_unat_eq_iff)

lemma checked_add_one: "checked_add x 1 = (if x = - 1 then None else Some (x + 1))" for x :: "'a::len word"
proof -
  have "unat x + unat (1 :: 'a word) < 2 ^ LENGTH('a) \<longleftrightarrow> x \<noteq> - 1"
    using unat_not_max[of x] unat_minus_one_word[where 'a = 'a] by auto
  then show ?thesis unfolding checked_add_def uint_add_lt_iff by simp
qed

lemma word_not_max_of_less: "x < y \<Longrightarrow> x \<noteq> - 1" for x y :: "'a::len word"
  using unat_le_pow[of y] by (auto simp: word_less_nat_alt unat_minus_one_word)

text \<open>Saturating addition is a commutative monoid; its value is the capped sum.\<close>

lemma sat_add_commute: "sat_add a b = sat_add b a"
  by (simp add: word_unat_eq_iff sat_simps add.commute)

lemma sat_add_assoc: "sat_add (sat_add a b) c = sat_add a (sat_add b c)"
  by (simp add: word_unat_eq_iff sat_simps)

lemma sat_add_left_commute: "sat_add a (sat_add b c) = sat_add b (sat_add a c)"
  by (metis sat_add_assoc sat_add_commute)

lemmas sat_add_ac = sat_add_assoc sat_add_commute sat_add_left_commute

lemma sat_add_zero [simp]: "sat_add 0 a = a" "sat_add a 0 = a"
  by (simp_all add: word_unat_eq_iff sat_simps min_absorb1[OF unat_le_pow[simplified]])

lemma sat_sub_self [simp]: "sat_sub a a = 0"
  by (simp add: sat_sub_def)

lemma sat_add_ge: "a \<le> sat_add a b"
  using unat_le_pow[of a] by (simp add: word_le_nat_alt sat_simps)

lemma sat_add_mono: "a \<le> a' \<Longrightarrow> b \<le> b' \<Longrightarrow> sat_add a b \<le> sat_add a' b'"
  by (auto simp: word_le_nat_alt sat_simps min_def)

lemma word_max_commute: "max (a :: 'a::len word) b = max b a"
  by (rule max.commute)

section \<open>Capped sums\<close>

text \<open>
  \<open>sat_sum xs\<close> is \<^verbatim>\<open>xs.fold(0, u64::saturating_add)\<close>; read through \<open>unat\<close> it is the sum
  of the list capped at the type's maximum, so the order of the list does not matter.
\<close>

definition sat_sum :: "'a::len word list \<Rightarrow> 'a word" where
  "sat_sum xs = foldl sat_add 0 xs"

lemma foldl_sat_add: "foldl sat_add a xs = sat_add a (sat_sum xs)"
proof (induction xs arbitrary: a)
  case Nil
  then show ?case by (simp add: sat_sum_def)
next
  case (Cons x xs)
  have "foldl sat_add a (x # xs) = sat_add (sat_add a x) (sat_sum xs)"
    by (simp add: Cons.IH)
  moreover have "sat_sum (x # xs) = sat_add x (sat_sum xs)"
    using Cons.IH[of x] by (simp add: sat_sum_def)
  ultimately show ?case by (simp add: sat_add_assoc)
qed

lemma sat_sum_Nil [simp]: "sat_sum [] = 0"
  by (simp add: sat_sum_def)

lemma sat_sum_Cons [simp]: "sat_sum (x # xs) = sat_add x (sat_sum xs)"
  using foldl_sat_add[of x xs] by (simp add: sat_sum_def)

lemma unat_sat_sum [sat_simps]:
  "unat (sat_sum xs) = min (sum_list (map unat xs)) (2 ^ LENGTH('a) - 1)"
  for xs :: "'a::len word list"
  by (induction xs) (auto simp: sat_simps)

section \<open>Options, results and lists\<close>

text \<open>\<open>Option::is_some_and\<close>, \<open>is_none_or\<close>, \<open>map_or\<close> and \<open>filter\<close>.\<close>

definition is_some_and :: "('a \<Rightarrow> bool) \<Rightarrow> 'a option \<Rightarrow> bool" where
  "is_some_and P x = (case x of None \<Rightarrow> False | Some a \<Rightarrow> P a)"

definition is_none_or :: "('a \<Rightarrow> bool) \<Rightarrow> 'a option \<Rightarrow> bool" where
  "is_none_or P x = (case x of None \<Rightarrow> True | Some a \<Rightarrow> P a)"

definition map_or :: "'b \<Rightarrow> ('a \<Rightarrow> 'b) \<Rightarrow> 'a option \<Rightarrow> 'b" where
  "map_or d f x = (case x of None \<Rightarrow> d | Some a \<Rightarrow> f a)"

definition opt_filter :: "bool \<Rightarrow> 'a option \<Rightarrow> 'a option" where
  "opt_filter b x = (if b then x else None)"

lemma is_some_and_simps [simp]: "is_some_and P None = False" "is_some_and P (Some a) = P a"
  by (simp_all add: is_some_and_def)

lemma is_none_or_simps [simp]: "is_none_or P None = True" "is_none_or P (Some a) = P a"
  by (simp_all add: is_none_or_def)

lemma map_or_simps [simp]: "map_or d f None = d" "map_or d f (Some a) = f a"
  by (simp_all add: map_or_def)

lemma opt_filter_simps [simp]: "opt_filter True x = x" "opt_filter False x = None"
  by (simp_all add: opt_filter_def)

lemma is_some_and_iff: "is_some_and P x \<longleftrightarrow> (\<exists>a. x = Some a \<and> P a)"
  by (cases x) auto


section \<open>Number text\<close>

text \<open>
  \<^verbatim>\<open>from_str_radix\<close> and \<^verbatim>\<open>str::parse\<close> of an unsigned integer type of maximum \<open>m\<close>: an
  empty string, a lone sign, a character that is no digit and a value past the maximum are errors;
  a leading \<open>+\<close> is skipped. An invalid digit is reported before an overflow at the same
  position, as the standard library's loop does.
\<close>

datatype parse_int_error = Empty | InvalidDigit | PosOverflow

definition digit_char :: "int \<Rightarrow> char" where
  "digit_char d = char_of (if d < 10 then 48 + d else 87 + d)"

definition to_digit :: "int \<Rightarrow> char \<Rightarrow> int option" where
  "to_digit radix c =
     (let x = of_char c :: int;
          d = (if 48 \<le> x \<and> x \<le> 57 then x - 48
               else if 97 \<le> x \<and> x \<le> 122 then x - 87
               else if 65 \<le> x \<and> x \<le> 90 then x - 55 else radix)
      in if d < radix then Some d else None)"

fun parse_digits :: "int \<Rightarrow> int \<Rightarrow> int \<Rightarrow> string \<Rightarrow> parse_int_error + int" where
  "parse_digits radix m acc [] = Inr acc"
| "parse_digits radix m acc (c # cs) =
     (case to_digit radix c of
        None \<Rightarrow> Inl InvalidDigit
      | Some d \<Rightarrow>
          if acc * radix > m then Inl PosOverflow
          else if acc * radix + d > m then Inl PosOverflow
          else parse_digits radix m (acc * radix + d) cs)"

definition from_str_radix :: "int \<Rightarrow> int \<Rightarrow> string \<Rightarrow> parse_int_error + int" where
  "from_str_radix radix m s =
     (case s of
        [] \<Rightarrow> Inl Empty
      | [c] \<Rightarrow> if c = CHR ''+'' \<or> c = CHR ''-'' then Inl InvalidDigit else parse_digits radix m 0 s
      | c # cs \<Rightarrow> if c = CHR ''+'' then parse_digits radix m 0 cs else parse_digits radix m 0 s)"

fun digits_value :: "int \<Rightarrow> int \<Rightarrow> int list \<Rightarrow> int" where
  "digits_value radix acc [] = acc"
| "digits_value radix acc (d # ds) = digits_value radix (acc * radix + d) ds"

lemma digits_value_append:
  "digits_value r a (xs @ ys) = digits_value r (digits_value r a xs) ys"
  by (induction xs arbitrary: a) auto

lemma digit_char_code:
  assumes "0 \<le> d" and "d < 16"
  shows "(of_char (digit_char d) :: int) = (if d < 10 then 48 + d else 87 + d)"
proof -
  have "(if d < 10 then 48 + d else 87 + d) mod 256 = (if d < 10 then 48 + d else 87 + d)"
    using assms by (intro mod_pos_pos_trivial) auto
  then show ?thesis by (simp add: digit_char_def)
qed

lemma to_digit_digit_char:
  assumes "0 \<le> d" and "d < r" and "r \<le> 16"
  shows "to_digit r (digit_char d) = Some d"
  using assms digit_char_code[of d] by (auto simp: to_digit_def)

lemma digits_value_ge:
  "0 \<le> acc \<Longrightarrow> 1 \<le> r \<Longrightarrow> \<forall>d \<in> set ds. 0 \<le> d \<Longrightarrow> acc \<le> digits_value r acc ds"
proof (induction ds arbitrary: acc)
  case Nil
  then show ?case by simp
next
  case (Cons d ds)
  have "acc * 1 \<le> acc * r"
    using Cons.prems by (intro mult_left_mono) auto
  then have ge: "acc \<le> acc * r + d" and "0 \<le> acc * r + d"
    using Cons.prems by auto
  then show ?case
    using Cons.IH[of "acc * r + d"] Cons.prems by simp
qed

lemma parse_digits_chars:
  assumes "1 \<le> r" and "r \<le> 16" and "\<forall>d \<in> set ds. 0 \<le> d \<and> d < r"
    and "0 \<le> acc" and "digits_value r acc ds \<le> m"
  shows "parse_digits r m acc (map digit_char ds) = Inr (digits_value r acc ds)"
  using assms
proof (induction ds arbitrary: acc)
  case Nil
  then show ?case by simp
next
  case (Cons d ds)
  have nn: "0 \<le> acc * r" using Cons.prems by simp
  have "acc * r + d \<le> digits_value r (acc * r + d) ds"
    using Cons.prems nn by (intro digits_value_ge) auto
  with Cons show ?case by (auto simp: to_digit_digit_char)
qed

lemma digit_char_not_sign:
  assumes "0 \<le> d" and "d < 16"
  shows "digit_char d \<noteq> CHR ''+''" and "digit_char d \<noteq> CHR ''-''"
proof -
  have "(of_char (digit_char d) :: int) \<ge> 48"
    using assms by (auto simp: digit_char_code)
  then show "digit_char d \<noteq> CHR ''+''" and "digit_char d \<noteq> CHR ''-''" by auto
qed

lemma from_str_radix_chars:
  assumes "1 \<le> r" and "r \<le> 16" and "\<forall>d \<in> set ds. 0 \<le> d \<and> d < r"
    and "ds \<noteq> []" and "digits_value r 0 ds \<le> m"
  shows "from_str_radix r m (map digit_char ds) = Inr (digits_value r 0 ds)"
proof -
  obtain d ds' where ds: "ds = d # ds'" using assms(4) by (cases ds) auto
  have "0 \<le> d" "d < 16" using assms by (auto simp: ds)
  then have "from_str_radix r m (map digit_char ds) = parse_digits r m 0 (map digit_char ds)"
    by (cases ds') (auto simp: from_str_radix_def ds digit_char_not_sign)
  then show ?thesis using assms by (simp add: parse_digits_chars)
qed

text \<open>The decimal text of a non-negative number, without padding.\<close>

fun dec_digits :: "nat \<Rightarrow> int list" where
  "dec_digits n = (if n < 10 then [int n] else dec_digits (n div 10) @ [int (n mod 10)])"

declare dec_digits.simps [simp del]

definition show_dec :: "nat \<Rightarrow> string" where
  "show_dec n = map digit_char (dec_digits n)"

lemma dec_digits_value: "digits_value 10 0 (dec_digits n) = int n"
proof (induction n rule: dec_digits.induct)
  case (1 n)
  show ?case
  proof (cases "n < 10")
    case True
    then show ?thesis by (simp add: dec_digits.simps[of n])
  next
    case False
    then have "digits_value 10 0 (dec_digits n) = int (n div 10) * 10 + int (n mod 10)"
      using "1.IH" by (simp add: dec_digits.simps[of n] digits_value_append)
    then show ?thesis by presburger
  qed
qed

lemma dec_digits_range: "d \<in> set (dec_digits n) \<Longrightarrow> 0 \<le> d \<and> d < 10"
proof (induction n rule: dec_digits.induct)
  case (1 n)
  then show ?case by (subst (asm) dec_digits.simps) (auto split: if_splits)
qed

lemma dec_digits_nonempty: "dec_digits n \<noteq> []"
  by (subst dec_digits.simps) simp

lemma parse_show_dec: "int n \<le> m \<Longrightarrow> from_str_radix 10 m (show_dec n) = Inr (int n)"
  unfolding show_dec_def
  using dec_digits_range[of _ n] dec_digits_nonempty[of n] dec_digits_value[of n]
  by (subst from_str_radix_chars) auto

text \<open>The sixteen lower-case hexadecimal digits of \<^verbatim>\<open>{:016x}\<close>.\<close>

definition hex16_digits :: "u64 \<Rightarrow> int list" where
  "hex16_digits x = map (\<lambda>i. uint x div 16 ^ i mod 16) (rev [0..<16])"

definition show_hex16 :: "u64 \<Rightarrow> string" where
  "show_hex16 x = map digit_char (hex16_digits x)"

lemma hex_digits_value:
  "0 \<le> (v :: int) \<Longrightarrow>
     digits_value 16 0 (map (\<lambda>i. v div 16 ^ i mod 16) (rev [k..<k + n])) = v div 16 ^ k mod 16 ^ n"
proof (induction n arbitrary: k)
  case 0
  then show ?case by simp
next
  case (Suc n)
  have split: "rev [k..<k + Suc n] = rev [Suc k..<Suc k + n] @ [k]"
    by (simp add: upt_rec[of k])
  have "digits_value 16 0 (map (\<lambda>i. v div 16 ^ i mod 16) (rev [k..<k + Suc n]))
          = (v div 16 ^ Suc k mod 16 ^ n) * 16 + v div 16 ^ k mod 16"
    unfolding split map_append digits_value_append Suc.IH[OF Suc.prems, of "Suc k"] by simp
  also have "v div 16 ^ Suc k = v div 16 ^ k div 16"
    by (simp add: zdiv_zmult2_eq[symmetric] mult.commute)
  also have "(v div 16 ^ k div 16 mod 16 ^ n) * 16 + v div 16 ^ k mod 16 = v div 16 ^ k mod 16 ^ Suc n"
    by (simp add: zmod_zmult2_eq)
  finally show ?case .
qed

lemma hex16_value: "digits_value 16 0 (hex16_digits x) = uint x"
proof -
  have "uint x < 16 ^ 16"
    using uint_lt2p[of x] by simp
  then show ?thesis
    using hex_digits_value[of "uint x" 0 16] by (simp add: hex16_digits_def)
qed

lemma parse_show_hex16: "from_str_radix 16 (2 ^ 64 - 1) (show_hex16 x) = Inr (uint x)"
proof -
  have "uint x \<le> 2 ^ 64 - 1"
    using uint_lt2p[of x] by simp
  then show ?thesis
    unfolding show_hex16_def
    by (subst from_str_radix_chars) (auto simp: hex16_value, auto simp: hex16_digits_def)
qed

lemma distinct_dedup: "distinct (remdups_adj (sort xs))" for xs :: "'a::linorder list"
proof -
  have "sorted xs \<Longrightarrow> distinct (remdups_adj xs)" for xs :: "'a list"
    by (induction xs rule: remdups_adj.induct) (auto simp: order_le_less)
  then show ?thesis by simp
qed

end
