(* ===== verification/Node_Hlc.thy ===== *)
theory Node_Hlc
  imports Sundog_Prelude
begin

text \<open>
  Node identity (\<^verbatim>\<open>sundog/src/node.rs\<close>) and the hybrid logical clock
  (\<^verbatim>\<open>sundog/src/hlc.rs\<close>). A stamp is \<open>(wall_ms, logical, node)\<close> compared in that field
  order; a clock holds its node and its last stamp. \<open>logical + 1\<close> is the wrapping addition of
  a release build, so the strict-monotonicity theorems carry the bound the code needs.
\<close>

unbundle bit_operations_syntax

section \<open>Node identity\<close>

datatype node_id = NodeId (as_u64: u64)

instantiation node_id :: linorder
begin

definition less_eq_node_id :: "node_id \<Rightarrow> node_id \<Rightarrow> bool" where
  "less_eq_node_id a b \<longleftrightarrow> as_u64 a \<le> as_u64 b"

definition less_node_id :: "node_id \<Rightarrow> node_id \<Rightarrow> bool" where
  "less_node_id a b \<longleftrightarrow> as_u64 a < as_u64 b"

instance
  by standard (auto simp: less_eq_node_id_def less_node_id_def node_id.expand)

end

definition merge_bit :: u64 where
  "merge_bit = push_bit 63 1"

text \<open>\<open>NodeId::random\<close> of one drawn word: the generator itself is the caller's argument.\<close>

definition node_id_random :: "u64 \<Rightarrow> node_id" where
  "node_id_random drawn = NodeId (drawn AND NOT merge_bit)"

definition merge_derived :: "u64 \<Rightarrow> node_id" where
  "merge_derived hash = NodeId (hash OR merge_bit)"

definition is_merge_derived :: "node_id \<Rightarrow> bool" where
  "is_merge_derived n \<longleftrightarrow> as_u64 n AND merge_bit \<noteq> 0"

lemma bit_merge_bit: "bit merge_bit n \<longleftrightarrow> n = 63"
  unfolding merge_bit_def bit_push_bit_iff bit_1_iff by auto

lemma is_merge_derived_bit: "is_merge_derived n \<longleftrightarrow> bit (as_u64 n) 63"
proof -
  have "as_u64 n AND merge_bit \<noteq> 0 \<longleftrightarrow> (\<exists>i. bit (as_u64 n AND merge_bit) i)"
    by (metis bit_0_eq bot_apply bot_bool_def bit_eqI)
  then show ?thesis by (simp add: is_merge_derived_def bit_and_iff bit_merge_bit)
qed

lemma is_merge_derived_merge_derived [simp]: "is_merge_derived (merge_derived h)"
  by (simp add: is_merge_derived_bit merge_derived_def bit_or_iff bit_merge_bit)

lemma not_is_merge_derived_random [simp]: "\<not> is_merge_derived (node_id_random d)"
  by (simp add: is_merge_derived_bit node_id_random_def bit_and_iff bit_not_iff bit_merge_bit)

text \<open>
  \<open>Display\<close> renders sixteen lower-case hexadecimal digits and \<open>FromStr\<close> parses them
  back; a node's name is its hostname, a dash and that text.
\<close>

definition node_id_display :: "node_id \<Rightarrow> string" where
  "node_id_display n = show_hex16 (as_u64 n)"

definition node_id_from_str :: "string \<Rightarrow> parse_int_error + node_id" where
  "node_id_from_str s =
     (case from_str_radix 16 (2 ^ 64 - 1) s of
        Inl e \<Rightarrow> Inl e
      | Inr v \<Rightarrow> Inr (NodeId (word_of_int v)))"

definition node_name_new :: "string \<Rightarrow> node_id \<Rightarrow> string" where
  "node_name_new hostname n = hostname @ ''-'' @ node_id_display n"

lemma node_id_display_length [simp]: "length (node_id_display n) = 16"
  by (simp add: node_id_display_def show_hex16_def hex16_digits_def)

lemma node_id_parse_display: "node_id_from_str (node_id_display n) = Inr n"
  using parse_show_hex16[of "as_u64 n"] by (simp add: node_id_from_str_def node_id_display_def)

lemma node_name_inj: "node_name_new h a = node_name_new h' b \<Longrightarrow> a = b \<and> h = h'"
proof -
  assume eq: "node_name_new h a = node_name_new h' b"
  then have "node_id_display a = node_id_display b"
    unfolding node_name_new_def append_assoc[symmetric]
    by (subst (asm) append_eq_append_conv) auto
  moreover have "node_id_from_str (node_id_display a) = Inr a" for a
    by (rule node_id_parse_display)
  ultimately show ?thesis using eq by (metis Inr_inject append_same_eq node_name_new_def)
qed

section \<open>Stamps\<close>

datatype hlc = Hlc (wall_ms: u64) (logical: u32) (hlc_node: node_id)

instantiation hlc :: linorder
begin

definition less_eq_hlc :: "hlc \<Rightarrow> hlc \<Rightarrow> bool" where
  "less_eq_hlc a b \<longleftrightarrow>
     wall_ms a < wall_ms b \<or> wall_ms a = wall_ms b \<and>
       (logical a < logical b \<or> logical a = logical b \<and> hlc_node a \<le> hlc_node b)"

definition less_hlc :: "hlc \<Rightarrow> hlc \<Rightarrow> bool" where
  "less_hlc a b \<longleftrightarrow>
     wall_ms a < wall_ms b \<or> wall_ms a = wall_ms b \<and>
       (logical a < logical b \<or> logical a = logical b \<and> hlc_node a < hlc_node b)"

instance
  by standard (auto simp: less_eq_hlc_def less_hlc_def hlc.expand)

end

lemma hlc_wall_mono: "a \<le> b \<Longrightarrow> wall_ms a \<le> wall_ms b" for a b :: hlc
  by (auto simp: less_eq_hlc_def)

section \<open>The clock\<close>

record hlc_clock =
  clock_node :: node_id
  clock_last :: hlc

definition hlc_clock_new :: "node_id \<Rightarrow> hlc_clock" where
  "hlc_clock_new n = \<lparr>clock_node = n, clock_last = Hlc 0 0 n\<rparr>"

definition hlc_now :: "hlc_clock \<Rightarrow> u64 \<Rightarrow> hlc_clock \<times> hlc" where
  "hlc_now c physical_now_ms =
     (let last = clock_last c;
          wall = max physical_now_ms (wall_ms last);
          lg = (if wall = wall_ms last then logical last + 1 else 0);
          stamp = Hlc wall lg (clock_node c)
      in (c\<lparr>clock_last := stamp\<rparr>, stamp))"

definition hlc_observe :: "hlc_clock \<Rightarrow> u64 \<Rightarrow> hlc \<Rightarrow> hlc_clock \<times> hlc" where
  "hlc_observe c physical_now_ms remote =
     (let last = clock_last c;
          wall = max (max physical_now_ms (wall_ms last)) (wall_ms remote);
          lg = (if wall = wall_ms last \<and> wall = wall_ms remote
                then max (logical last) (logical remote) + 1
                else if wall = wall_ms last then logical last + 1
                else if wall = wall_ms remote then logical remote + 1
                else 0);
          stamp = Hlc wall lg (clock_node c)
      in (c\<lparr>clock_last := stamp\<rparr>, stamp))"

definition exceeds_skew :: "u64 \<Rightarrow> u64 \<Rightarrow> u64 \<Rightarrow> bool" where
  "exceeds_skew physical_now_ms wall max_skew_ms \<longleftrightarrow> wall > sat_add physical_now_ms max_skew_ms"

definition hlc_observe_bounded :: "hlc_clock \<Rightarrow> u64 \<Rightarrow> hlc \<Rightarrow> u64 \<Rightarrow> hlc_clock \<times> hlc option" where
  "hlc_observe_bounded c physical_now_ms remote max_skew_ms =
     (if exceeds_skew physical_now_ms (wall_ms remote) max_skew_ms then (c, None)
      else case hlc_observe c physical_now_ms remote of (c', stamp) \<Rightarrow> (c', Some stamp))"

definition lead_ms :: "hlc_clock \<Rightarrow> u64 \<Rightarrow> u64" where
  "lead_ms c physical_now_ms = sat_sub (wall_ms (clock_last c)) physical_now_ms"

lemmas clock_unfolds = hlc_now_def hlc_observe_def Let_def


text \<open>
  The two clock rules advance past the last stamp, and the receive rule past the remote one,
  unless the logical counter that has to grow is already at its maximum.
\<close>

definition now_room :: "hlc_clock \<Rightarrow> bool" where
  "now_room c \<longleftrightarrow> logical (clock_last c) \<noteq> u32_max"

lemma hlc_now_gt_last: "now_room c \<Longrightarrow> clock_last c < snd (hlc_now c p)"
  by (auto simp: clock_unfolds now_room_def less_hlc_def max_def not_le word_less_inc)

lemma hlc_now_last [simp]: "clock_last (fst (hlc_now c p)) = snd (hlc_now c p)"
  by (simp add: clock_unfolds)

lemma hlc_now_node [simp]: "clock_node (fst (hlc_now c p)) = clock_node c"
  by (simp add: clock_unfolds)

lemma hlc_now_wall: "wall_ms (snd (hlc_now c p)) = max p (wall_ms (clock_last c))"
  by (simp add: clock_unfolds)

lemma hlc_observe_last [simp]: "clock_last (fst (hlc_observe c p r)) = snd (hlc_observe c p r)"
  by (simp add: clock_unfolds)

lemma hlc_observe_node [simp]: "clock_node (fst (hlc_observe c p r)) = clock_node c"
  by (simp add: clock_unfolds)

lemma hlc_observe_wall:
  "wall_ms (snd (hlc_observe c p r)) = max (max p (wall_ms (clock_last c))) (wall_ms r)"
  by (simp add: clock_unfolds)

lemma logical_max_inc:
  "a \<noteq> u32_max \<Longrightarrow> b \<noteq> u32_max \<Longrightarrow> a < max a b + 1 \<and> b < max a b + 1" for a b :: u32
proof -
  assume "a \<noteq> u32_max" and "b \<noteq> u32_max"
  then have "max a b < max a b + 1"
    by (intro word_less_inc) (auto simp: max_def)
  then show ?thesis by (meson max.cobounded1 max.cobounded2 order.strict_trans1)
qed

lemma hlc_observe_gt:
  assumes "now_room c" and "logical r \<noteq> u32_max"
  shows "clock_last c < snd (hlc_observe c p r)" and "r < snd (hlc_observe c p r)"
  using assms logical_max_inc[of "logical (clock_last c)" "logical r"]
  by (auto simp: clock_unfolds now_room_def less_hlc_def max_def not_le word_less_inc)

lemma observe_logical_bound:
  assumes "now_room c" and "logical r \<noteq> u32_max"
  shows "unat (logical (snd (hlc_observe c p r)))
           \<le> Suc (max (unat (logical (clock_last c))) (unat (logical r)))"
  using assms by (auto simp: clock_unfolds now_room_def unat_inc max_def word_le_nat_alt)

lemma now_logical_bound:
  "now_room c \<Longrightarrow> unat (logical (snd (hlc_now c p))) \<le> Suc (unat (logical (clock_last c)))"
  by (auto simp: clock_unfolds now_room_def unat_inc)

section \<open>Runs of one clock\<close>

text \<open>Every way a node touches its clock, in sequence, with the stamps it hands out.\<close>

datatype clock_event =
    Now u64
  | Observe u64 hlc
  | Observe_Bounded u64 hlc u64

fun clock_step :: "hlc_clock \<Rightarrow> clock_event \<Rightarrow> hlc_clock \<times> hlc option" where
  "clock_step c (Now p) = (case hlc_now c p of (c', s) \<Rightarrow> (c', Some s))"
| "clock_step c (Observe p r) = (case hlc_observe c p r of (c', s) \<Rightarrow> (c', Some s))"
| "clock_step c (Observe_Bounded p r k) = hlc_observe_bounded c p r k"

fun clock_stamps :: "hlc_clock \<Rightarrow> clock_event list \<Rightarrow> hlc list" where
  "clock_stamps c [] = []"
| "clock_stamps c (e # es) =
     (case clock_step c e of (c', s) \<Rightarrow>
        (case s of None \<Rightarrow> [] | Some x \<Rightarrow> [x]) @ clock_stamps c' es)"

fun event_logical :: "clock_event \<Rightarrow> nat" where
  "event_logical (Now p) = 0"
| "event_logical (Observe p r) = unat (logical r)"
| "event_logical (Observe_Bounded p r k) = unat (logical r)"

lemma u32_max_unat: "unat x < 2 ^ 32 - 1 \<Longrightarrow> x \<noteq> u32_max" for x :: u32
  by (auto simp: unat_minus_one_word)

lemma clock_step_eqs:
  "clock_step c (Now p) = (fst (hlc_now c p), Some (snd (hlc_now c p)))"
  "clock_step c (Observe p r) = (fst (hlc_observe c p r), Some (snd (hlc_observe c p r)))"
  "clock_step c (Observe_Bounded p r k) =
     (if exceeds_skew p (wall_ms r) k then (c, None)
      else (fst (hlc_observe c p r), Some (snd (hlc_observe c p r))))"
  by (simp_all add: hlc_observe_bounded_def split: prod.splits)

lemma clock_step_advances:
  assumes "clock_step c e = (c', s)"
    and "unat (logical (clock_last c)) \<le> L" and "event_logical e \<le> L" and "L < 2 ^ 32 - 1"
  shows "unat (logical (clock_last c')) \<le> Suc L"
    and "s = None \<Longrightarrow> c' = c"
    and "s = Some x \<Longrightarrow> clock_last c < x \<and> clock_last c' = x"
proof -
  have room: "now_room c"
    unfolding now_room_def using assms by (intro u32_max_unat) simp
  have obs: "unat (logical (clock_last (fst (hlc_observe c p r)))) \<le> Suc L
               \<and> clock_last c < snd (hlc_observe c p r)" if "unat (logical r) \<le> L" for p r
  proof -
    have r: "logical r \<noteq> u32_max"
      using that assms by (intro u32_max_unat) simp
    show ?thesis
      using observe_logical_bound[OF room r, of p] hlc_observe_gt(1)[OF room r, of p] that assms
      by simp
  qed
  have now: "unat (logical (clock_last (fst (hlc_now c p)))) \<le> Suc L" for p
    using now_logical_bound[OF room, of p] assms by simp
  show "unat (logical (clock_last c')) \<le> Suc L"
    using assms obs now by (cases e) (auto simp: clock_step_eqs simp del: clock_step.simps split: if_splits)
  show "s = None \<Longrightarrow> c' = c"
    using assms by (cases e) (auto simp: clock_step_eqs simp del: clock_step.simps split: if_splits)
  show "s = Some x \<Longrightarrow> clock_last c < x \<and> clock_last c' = x"
    using assms obs hlc_now_gt_last[OF room]
    by (cases e) (auto simp: clock_step_eqs simp del: clock_step.simps split: if_splits)
qed

lemma clock_stamps_increase:
  assumes "unat (logical (clock_last c)) \<le> L" and "\<forall>e \<in> set es. event_logical e \<le> L"
    and "L + length es < 2 ^ 32"
  shows "sorted_wrt (<) (clock_last c # clock_stamps c es)"
  using assms
proof (induction es arbitrary: c L)
  case Nil
  then show ?case by simp
next
  case (Cons e es)
  obtain c' s where step: "clock_step c e = (c', s)" by (cases "clock_step c e")
  have bnd: "unat (logical (clock_last c)) \<le> L" "event_logical e \<le> L" "L < 2 ^ 32 - 1"
    using Cons.prems by auto
  note adv = clock_step_advances[OF step bnd]
  have IH: "sorted_wrt (<) (clock_last c' # clock_stamps c' es)"
    using Cons.prems adv(1) by (intro Cons.IH[of c' "Suc L"]) auto
  show ?case
  proof (cases s)
    case None
    with IH adv(2) step show ?thesis by simp
  next
    case (Some x)
    with IH adv(3) step show ?thesis by (auto intro: order.strict_trans)
  qed
qed

section \<open>Properties\<close>

text \<open>
  C21: a clock's stamps strictly increase through any sequence of local events, receipts and
  bounded receipts, whatever the physical clock reads, as long as the logical counters involved
  stay below their 32-bit limit.
\<close>

theorem hlc_stamps_strictly_increase:
  assumes "unat (logical (clock_last c)) \<le> L" and "\<forall>e \<in> set es. event_logical e \<le> L"
    and "L + length es < 2 ^ 32"
  shows "sorted_wrt (<) (clock_last c # clock_stamps c es)"
  by (rule clock_stamps_increase[OF assms])

theorem hlc_stamps_strictly_increase_witness:
  "sorted_wrt (<) (Hlc 0 0 (NodeId 1) # clock_stamps (hlc_clock_new (NodeId 1))
     [Now 5, Now 3, Observe 4 (Hlc 9 7 (NodeId 2)), Observe_Bounded 4 (Hlc 50 0 (NodeId 2)) 10, Now 0])"
  using hlc_stamps_strictly_increase[of "hlc_clock_new (NodeId 1)" 7
      "[Now 5, Now 3, Observe 4 (Hlc 9 7 (NodeId 2)), Observe_Bounded 4 (Hlc 50 0 (NodeId 2)) 10, Now 0]"]
  by (simp add: hlc_clock_new_def del: clock_stamps.simps sorted_wrt.simps)

text \<open>
  C23: exactly when a stamp fails to increase. In a build without overflow checks the next stamp is above the
  last one if and only if the logical counter has room or the physical clock has moved past the last
  stamp; otherwise it is below it, against the documented strict increase whatever the wall clock
  does. A peer can bring a clock there: a record stamped ahead of the receiver, within the skew bound it
  accepts, with its counter one below the maximum, makes the receiver's next local stamp smaller than
  the one it just took.
\<close>

theorem hlc_now_wraps_backwards:
  "(clock_last c < snd (hlc_now c p) \<longleftrightarrow> logical (clock_last c) \<noteq> u32_max \<or> wall_ms (clock_last c) < p) \<and>
   (\<not> clock_last c < snd (hlc_now c p) \<longrightarrow> snd (hlc_now c p) < clock_last c) \<and>
   (wall_ms (clock_last c) < wall_ms r \<and> p \<le> wall_ms r \<and> \<not> exceeds_skew p (wall_ms r) k \<and> logical r = u32_max - 1 \<and> later \<le> wall_ms r \<longrightarrow>
      (\<exists>x y. clock_stamps c [Observe_Bounded p r k, Now later] = [x, y] \<and> y < x))"
proof -
  let ?l = "clock_last c"
  have up: "?l < snd (hlc_now c p)" if "logical ?l \<noteq> u32_max \<or> wall_ms ?l < p"
  proof (cases "logical ?l = u32_max")
    case True
    then have "wall_ms ?l < p" using that by simp
    then show ?thesis by (auto simp: clock_unfolds less_hlc_def max_def)
  qed (use hlc_now_gt_last[of c p] in \<open>simp add: now_room_def\<close>)
  have full: "u32_max + 1 < u32_max" by (simp add: word_less_nat_alt unat_minus_one_word)
  have down: "snd (hlc_now c p) < ?l" if "logical ?l = u32_max" "\<not> wall_ms ?l < p"
  proof -
    have "max p (wall_ms ?l) = wall_ms ?l" using that(2) by (simp add: max_def not_less)
    then show ?thesis using that(1) full by (simp add: hlc_now_def less_hlc_def Let_def)
  qed
  have peer: "\<exists>x y. clock_stamps c [Observe_Bounded p r k, Now later] = [x, y] \<and> y < x"
    if h: "wall_ms ?l < wall_ms r" "p \<le> wall_ms r" "\<not> exceeds_skew p (wall_ms r) k" "logical r = u32_max - 1" "later \<le> wall_ms r"
  proof -
    have wall: "max (max p (wall_ms ?l)) (wall_ms r) = wall_ms r" using h(1,2) by simp
    have obs: "hlc_observe c p r = (c\<lparr>clock_last := Hlc (wall_ms r) u32_max (clock_node c)\<rparr>, Hlc (wall_ms r) u32_max (clock_node c))"
      using h(1,4) by (auto simp: hlc_observe_def wall Let_def)
    have nxt: "snd (hlc_now (c\<lparr>clock_last := Hlc (wall_ms r) u32_max (clock_node c)\<rparr>) later) < Hlc (wall_ms r) u32_max (clock_node c)"
      using h(5) by (auto simp: clock_unfolds less_hlc_def max_def word_less_nat_alt unat_minus_one_word)
    show ?thesis using nxt by (simp add: hlc_observe_bounded_def h(3) obs split: prod.split) (metis snd_conv)
  qed
  show ?thesis using up down peer less_asym by blast
qed

theorem hlc_now_wraps_backwards_witness:
  "snd (hlc_now \<lparr>clock_node = NodeId 1, clock_last = Hlc 9 u32_max (NodeId 1)\<rparr> 8) < Hlc 9 u32_max (NodeId 1) \<and>
   (\<exists>x y. clock_stamps (hlc_clock_new (NodeId 1)) [Observe_Bounded 4 (Hlc 9 (u32_max - 1) (NodeId 2)) 10, Now 8] = [x, y] \<and> y < x)"
proof -
  let ?c = "\<lparr>clock_node = NodeId 1, clock_last = Hlc 9 u32_max (NodeId 1)\<rparr>"
  let ?r = "Hlc 9 (u32_max - 1) (NodeId 2)"
  have "\<not> exceeds_skew 4 9 10" by (simp add: exceeds_skew_def word_less_nat_alt sat_simps)
  then show ?thesis
    using hlc_now_wraps_backwards[of ?c 8 ?r 10 8] hlc_now_wraps_backwards[of "hlc_clock_new (NodeId 1)" 4 ?r 10 8]
    by (simp add: hlc_clock_new_def del: clock_stamps.simps)
qed

lemma lead_bound:
  assumes "\<not> exceeds_skew p w k"
  shows "sat_sub (max (max p l) w) p \<le> max (sat_sub l p) k"
  using assms unfolding exceeds_skew_def
  by (auto simp: word_le_nat_alt word_less_nat_alt sat_simps max_def not_less)

lemma lead_ms_observe:
  "lead_ms (fst (hlc_observe c p r)) p = sat_sub (max (max p (wall_ms (clock_last c))) (wall_ms r)) p"
  by (simp add: lead_ms_def hlc_observe_wall)

text \<open>
  C22: bounded receipt protects the clock: it leads the physical clock afterwards by no more than
  it did before or than the bound, and a refused stamp leaves it exactly where it was.
\<close>

theorem hlc_observe_bounded_lead:
  "lead_ms (fst (hlc_observe_bounded c p r k)) p \<le> max (lead_ms c p) k \<and>
   (snd (hlc_observe_bounded c p r k) = None \<longleftrightarrow> exceeds_skew p (wall_ms r) k) \<and>
   (snd (hlc_observe_bounded c p r k) = None \<longrightarrow> fst (hlc_observe_bounded c p r k) = c)"
proof (cases "exceeds_skew p (wall_ms r) k")
  case True
  then show ?thesis by (simp add: hlc_observe_bounded_def)
next
  case False
  then have "hlc_observe_bounded c p r k = (fst (hlc_observe c p r), Some (snd (hlc_observe c p r)))"
    by (simp add: hlc_observe_bounded_def split: prod.splits)
  then show ?thesis
    using False lead_bound[OF False, of "wall_ms (clock_last c)"]
    by (simp add: lead_ms_observe) (simp add: lead_ms_def)
qed

theorem hlc_observe_bounded_lead_witness:
  "lead_ms (fst (hlc_observe_bounded (hlc_clock_new (NodeId 1)) 10 (Hlc 90 0 (NodeId 2)) 5)) 10 \<le> 5 \<and>
   snd (hlc_observe_bounded (hlc_clock_new (NodeId 1)) 10 (Hlc 90 0 (NodeId 2)) 5) = None"
proof -
  have "exceeds_skew 10 (wall_ms (Hlc 90 0 (NodeId 2))) 5" by code_simp
  moreover have "max (lead_ms (hlc_clock_new (NodeId 1)) 10) 5 = 5" by code_simp
  ultimately show ?thesis
    using hlc_observe_bounded_lead[of "hlc_clock_new (NodeId 1)" 10 "Hlc 90 0 (NodeId 2)" 5]
    by (metis (no_types))
qed

text \<open>
  The two halves of the id space never meet: an id a node drew for itself is never the id of a
  minted merge version, so no minted stamp equals a stamp a node's clock handed out.
\<close>

theorem minted_stamp_never_a_node_stamp:
  "Hlc w l (merge_derived h) \<noteq> Hlc w' l' (node_id_random d) \<and> is_merge_derived (merge_derived h) \<and>
   \<not> is_merge_derived (node_id_random d)"
  by (metis hlc.inject is_merge_derived_merge_derived not_is_merge_derived_random)

text \<open>
  A node id survives its text form, and a node's name determines both its hostname and its id.
\<close>

theorem node_id_text_roundtrip:
  "node_id_from_str (node_id_display n) = Inr n \<and> (node_name_new h n = node_name_new h' m \<longleftrightarrow> h = h' \<and> n = m)"
  using node_id_parse_display[of n] node_name_inj[of h n h' m] by auto

end
