(* ===== verification/Store_Types.thy ===== *)
theory Store_Types
  imports Node_Hlc
begin

text \<open>
  The value types a shard exchanges with the cluster layer
  (\<^verbatim>\<open>sundog/src/store/types.rs\<close>): the cache modes with the token each gossips, the
  quiescence flag, the two ages the CRDT sweep works with, and the millisecond reading of a
  \<open>Duration\<close> (\<^verbatim>\<open>duration_ms\<close> of \<^verbatim>\<open>sundog/src/store/mod.rs\<close>).
\<close>

section \<open>Modes\<close>

text \<open>The owner count is a \<open>NonZeroU8\<close>; \<open>mode_ok\<close> is that type's invariant.\<close>

datatype mode = Local | Invalidation | Replicated | Distributed u8

definition mode_ok :: "mode \<Rightarrow> bool" where
  "mode_ok m = (case m of Distributed owners \<Rightarrow> owners \<noteq> 0 | _ \<Rightarrow> True)"

definition default_owners :: u8 where
  "default_owners = 2"

definition mode_distributed :: mode where
  "mode_distributed = Distributed default_owners"

fun tombstones_expired_entries :: "mode \<Rightarrow> bool" where
  "tombstones_expired_entries Replicated = True"
| "tombstones_expired_entries (Distributed _) = True"
| "tombstones_expired_entries _ = False"

fun defers_tombstone_gc :: "mode \<Rightarrow> bool" where
  "defers_tombstone_gc Replicated = True"
| "defers_tombstone_gc (Distributed _) = True"
| "defers_tombstone_gc _ = False"

fun folds_retired_writers :: "mode \<Rightarrow> bool" where
  "folds_retired_writers Invalidation = False"
| "folds_retired_writers _ = True"

definition distributed_prefix :: string where
  "distributed_prefix = ''distributed:''"

fun as_token :: "mode \<Rightarrow> string" where
  "as_token Local = ''local''"
| "as_token Invalidation = ''invalidation''"
| "as_token Replicated = ''replicated''"
| "as_token (Distributed owners) = distributed_prefix @ show_dec (unat owners)"

definition strip_prefix :: "string \<Rightarrow> string \<Rightarrow> string option" where
  "strip_prefix p s = (if take (length p) s = p then Some (drop (length p) s) else None)"

definition from_token :: "string \<Rightarrow> mode option" where
  "from_token token =
     (if token = ''local'' then Some Local
      else if token = ''invalidation'' then Some Invalidation
      else if token = ''replicated'' then Some Replicated
      else case strip_prefix distributed_prefix token of
             None \<Rightarrow> None
           | Some n \<Rightarrow>
               (case from_str_radix 10 255 n of
                  Inl _ \<Rightarrow> None
                | Inr v \<Rightarrow> if word_of_int v = (0 :: u8) then None else Some (Distributed (word_of_int v))))"

lemma strip_prefix_append [simp]: "strip_prefix p (p @ s) = Some s"
  by (simp add: strip_prefix_def)

lemma distributed_token_not_fixed:
  "distributed_prefix @ s \<noteq> ''local''" "distributed_prefix @ s \<noteq> ''invalidation''"
  "distributed_prefix @ s \<noteq> ''replicated''"
  by (simp_all add: distributed_prefix_def)

lemma from_token_as_token: "mode_ok m \<Longrightarrow> from_token (as_token m) = Some m"
proof (cases m)
  case (Distributed owners)
  assume ok: "mode_ok m"
  have "unat owners \<le> 255"
    using unat_le_pow[of owners] by simp
  then have "int (unat owners) \<le> 255"
    by linarith
  then have "from_str_radix 10 255 (show_dec (unat owners)) = Inr (int (unat owners))"
    by (rule parse_show_dec)
  then show ?thesis
    using ok by (simp add: Distributed from_token_def distributed_token_not_fixed mode_ok_def)
qed (simp_all add: from_token_def)

lemma from_token_ok: "from_token t = Some m \<Longrightarrow> mode_ok m"
  by (auto simp: from_token_def mode_ok_def split: if_splits option.splits sum.splits)

section \<open>Quiescence and compaction bounds\<close>

datatype quiescence = Settled | Churning

definition quiescence_from_settled :: "bool \<Rightarrow> quiescence" where
  "quiescence_from_settled settled = (if settled then Settled else Churning)"

definition is_settled :: "quiescence \<Rightarrow> bool" where
  "is_settled q \<longleftrightarrow> q = Settled"

text \<open>A \<open>Duration\<close>: whole seconds and the nanoseconds within the last one.\<close>

record duration =
  secs :: u64
  nanos :: u32

definition as_millis :: "duration \<Rightarrow> int" where
  "as_millis d = uint (secs d) * 1000 + uint (nanos d) div 1000000"

definition duration_ms :: "duration \<Rightarrow> u64" where
  "duration_ms d = (if as_millis d < 2 ^ 64 then word_of_int (as_millis d) else u64_max)"

record compaction_bounds =
  retire_after_ms :: u64
  receipt_ttl_ms :: u64

definition compaction_bounds_new :: "duration \<Rightarrow> duration \<Rightarrow> compaction_bounds" where
  "compaction_bounds_new retire_after sweep_period =
     (let ra = duration_ms retire_after;
          period = duration_ms sweep_period;
          three_bounds = sat_mul ra 3;
          two_bounds_two_periods = sat_add (sat_mul ra 2) (sat_mul period 2)
      in \<lparr>retire_after_ms = ra, receipt_ttl_ms = max three_bounds two_bounds_two_periods\<rparr>)"

definition three_bounds :: "u64 \<Rightarrow> compaction_bounds" where
  "three_bounds ra = \<lparr>retire_after_ms = ra, receipt_ttl_ms = sat_mul ra 3\<rparr>"

text \<open>
  A receipt outlives the two-bound age a retirement must reach before it folds, and two more
  sweep periods, whatever the sweep period: the bound the receipt rule relies on.
\<close>

lemma receipt_outlives_fold_age:
  "sat_add (sat_mul (duration_ms ra) 2) (sat_mul (duration_ms p) 2)
     \<le> receipt_ttl_ms (compaction_bounds_new ra p)"
  by (simp add: compaction_bounds_new_def Let_def)

lemma receipt_ge_three_bounds:
  "receipt_ttl_ms (three_bounds (duration_ms ra)) \<le> receipt_ttl_ms (compaction_bounds_new ra p)"
  by (simp add: compaction_bounds_new_def three_bounds_def Let_def)

lemma compaction_bounds_fast_sweep:
  assumes "2 * unat (duration_ms p) \<le> unat (duration_ms ra)"
  shows "compaction_bounds_new ra p = three_bounds (duration_ms ra)"
proof -
  have "sat_add (sat_mul (duration_ms ra) 2) (sat_mul (duration_ms p) 2) \<le> sat_mul (duration_ms ra) 3"
    using assms by (auto simp: word_le_nat_alt sat_simps min_def)
  then show ?thesis
    by (simp add: compaction_bounds_new_def three_bounds_def Let_def max_def)
qed

section \<open>Properties\<close>

text \<open>
  The token a member gossips for a cache mode parses back to that mode, a parsed token always
  names a mode with at least one owner, and no two modes share a token.
\<close>

theorem mode_token_roundtrip:
  assumes "mode_ok m" and "mode_ok m'"
  shows "from_token (as_token m) = Some m \<and> (as_token m = as_token m' \<longleftrightarrow> m = m')
    \<and> (\<forall>t k. from_token t = Some k \<longrightarrow> mode_ok k)"
proof (intro conjI)
  show "from_token (as_token m) = Some m" using assms(1) by (rule from_token_as_token)
  show "as_token m = as_token m' \<longleftrightarrow> m = m'"
    using from_token_as_token[OF assms(1)] from_token_as_token[OF assms(2)] by (metis option.inject)
  show "\<forall>t k. from_token t = Some k \<longrightarrow> mode_ok k" using from_token_ok by blast
qed

theorem mode_token_roundtrip_witness: "from_token (as_token (Distributed 3)) = Some (Distributed 3)"
proof -
  have "mode_ok (Distributed 3)" "mode_ok Local" by (simp_all add: mode_ok_def)
  from mode_token_roundtrip[OF this] show ?thesis by (rule conjunct1)
qed

end
