(* ===== verification/Btree_Map.thy ===== *)
theory Btree_Map
  imports Sundog_Prelude
begin

text \<open>
  The \<^verbatim>\<open>std::collections::BTreeMap\<close> the CRDT types are built on: a strictly key-sorted
  association list behind a type of its own, so two maps with the same content are equal (the
  canonical-encoding property the sources rely on). The operations are the ones the sources use:
  \<open>get\<close>, \<open>insert\<close>, \<open>remove\<close>, \<open>retain\<close>, \<open>contains_key\<close>, the
  \<open>entry(k).and_modify(f).or_insert(v)\<close> idiom, iteration in key order and \<open>collect\<close>.
  The interface \<open>ordered_map\<close> states what a client may rely on; it is interpreted on the
  operations below.
\<close>

section \<open>Sorted association lists\<close>

definition sorted_keys :: "('k::linorder \<times> 'v) list \<Rightarrow> bool" where
  "sorted_keys xs \<longleftrightarrow> sorted_wrt (<) (map fst xs)"

fun al_insert :: "'k::linorder \<Rightarrow> 'v \<Rightarrow> ('k \<times> 'v) list \<Rightarrow> ('k \<times> 'v) list" where
  "al_insert k v [] = [(k, v)]"
| "al_insert k v ((a, b) # xs) =
     (if k < a then (k, v) # (a, b) # xs
      else if k = a then (k, v) # xs else (a, b) # al_insert k v xs)"

lemma sorted_keys_Nil [simp]: "sorted_keys []"
  by (simp add: sorted_keys_def)

lemma sorted_keys_Cons [simp]:
  "sorted_keys ((k, v) # xs) \<longleftrightarrow> (\<forall>a \<in> fst ` set xs. k < a) \<and> sorted_keys xs"
  by (auto simp: sorted_keys_def)

lemma sorted_keys_distinct: "sorted_keys xs \<Longrightarrow> distinct (map fst xs)"
  by (simp add: sorted_keys_def strict_sorted_iff)

lemma fst_set_al_insert [simp]: "fst ` set (al_insert k v xs) = insert k (fst ` set xs)"
  by (induction k v xs rule: al_insert.induct) auto

lemma sorted_keys_al_insert: "sorted_keys xs \<Longrightarrow> sorted_keys (al_insert k v xs)"
  by (induction k v xs rule: al_insert.induct) auto

lemma map_of_al_insert: "map_of (al_insert k v xs) = (map_of xs)(k \<mapsto> v)"
  by (induction k v xs rule: al_insert.induct) (auto simp: fun_eq_iff)

lemma sorted_keys_filter: "sorted_keys xs \<Longrightarrow> sorted_keys (filter P xs)"
  by (induction xs) auto

lemma map_of_filter_keys:
  "sorted_keys xs \<Longrightarrow>
   map_of (filter (\<lambda>(k, v). P k v) xs) k =
     (case map_of xs k of None \<Rightarrow> None | Some v \<Rightarrow> if P k v then Some v else None)"
proof (induction xs)
  case Nil
  then show ?case by simp
next
  case (Cons x xs)
  obtain a b where x: "x = (a, b)" by (cases x)
  have "map_of xs a = None"
    using Cons.prems by (auto simp: x map_of_eq_None_iff)
  with Cons show ?case by (auto simp: x split: option.splits)
qed

lemma sorted_keys_unique:
  assumes "sorted_keys xs" and "sorted_keys ys" and "map_of xs = map_of ys"
  shows "xs = ys"
proof -
  have dom: "set (map fst zs) = dom (map_of zs)" for zs :: "('a \<times> 'b) list"
    by (simp add: dom_map_of_conv_image_fst)
  have rebuild: "zs = map (\<lambda>k. (k, the (map_of zs k))) (map fst zs)"
    if "sorted_keys zs" for zs :: "('a \<times> 'b) list"
    using sorted_keys_distinct[OF that] by (auto intro!: map_idI[symmetric] simp: o_def)
  have "map fst xs = map fst ys"
    using assms dom[of xs] dom[of ys] by (intro strict_sorted_equal) (simp_all add: sorted_keys_def)
  then show ?thesis
    using rebuild[OF assms(1)] rebuild[OF assms(2)] assms(3) by metis
qed

section \<open>The map type\<close>

typedef (overloaded) ('k::linorder, 'v) btree_map = "{xs :: ('k \<times> 'v) list. sorted_keys xs}"
  morphisms bm_entries Bmap
  by (rule exI[of _ "[]"]) simp

setup_lifting type_definition_btree_map

lift_definition bm_empty :: "('k::linorder, 'v) btree_map" is "[]"
  by simp

lift_definition bm_insert :: "'k::linorder \<Rightarrow> 'v \<Rightarrow> ('k, 'v) btree_map \<Rightarrow> ('k, 'v) btree_map"
  is al_insert
  by (rule sorted_keys_al_insert)

lift_definition bm_retain :: "('k::linorder \<Rightarrow> 'v \<Rightarrow> bool) \<Rightarrow> ('k, 'v) btree_map \<Rightarrow> ('k, 'v) btree_map"
  is "\<lambda>P. filter (\<lambda>(k, v). P k v)"
  by (rule sorted_keys_filter)

text \<open>\<open>for v in m.values_mut()\<close> with an update of each value.\<close>

lift_definition bm_map :: "('v \<Rightarrow> 'w) \<Rightarrow> ('k::linorder, 'v) btree_map \<Rightarrow> ('k, 'w) btree_map"
  is "\<lambda>f. map (\<lambda>(k, v). (k, f v))"
  by (simp add: sorted_keys_def case_prod_beta o_def)

definition bm_get :: "('k::linorder, 'v) btree_map \<Rightarrow> 'k \<Rightarrow> 'v option" where
  "bm_get m k = map_of (bm_entries m) k"

definition bm_contains :: "('k::linorder, 'v) btree_map \<Rightarrow> 'k \<Rightarrow> bool" where
  "bm_contains m k \<longleftrightarrow> bm_get m k \<noteq> None"

definition bm_remove :: "'k::linorder \<Rightarrow> ('k, 'v) btree_map \<Rightarrow> ('k, 'v) btree_map" where
  "bm_remove k m = bm_retain (\<lambda>a _. a \<noteq> k) m"

definition bm_keys :: "('k::linorder, 'v) btree_map \<Rightarrow> 'k list" where
  "bm_keys m = map fst (bm_entries m)"

definition bm_values :: "('k::linorder, 'v) btree_map \<Rightarrow> 'v list" where
  "bm_values m = map snd (bm_entries m)"

text \<open>\<open>m.entry(k).and_modify(|x| *x = f(*x)).or_insert(v)\<close>\<close>

definition bm_upsert :: "('v \<Rightarrow> 'v) \<Rightarrow> 'k::linorder \<Rightarrow> 'v \<Rightarrow> ('k, 'v) btree_map \<Rightarrow> ('k, 'v) btree_map" where
  "bm_upsert f k v m = bm_insert k (case bm_get m k of None \<Rightarrow> v | Some x \<Rightarrow> f x) m"

text \<open>
  The loop \<open>for (k, v) in b { a.entry(k).and_modify(|x| *x = f(*x, v)).or_insert(v) }\<close> over a
  clone of \<open>a\<close>.
\<close>

definition bm_merge_with ::
  "('v \<Rightarrow> 'v \<Rightarrow> 'v) \<Rightarrow> ('k::linorder, 'v) btree_map \<Rightarrow> ('k, 'v) btree_map \<Rightarrow> ('k, 'v) btree_map" where
  "bm_merge_with f a b = fold (\<lambda>(k, v). bm_upsert (\<lambda>x. f x v) k v) (bm_entries b) a"

text \<open>\<open>BTreeMap::from([\<dots>])\<close> and \<open>collect()\<close>: later pairs overwrite earlier ones.\<close>

definition bm_of_list :: "('k::linorder \<times> 'v) list \<Rightarrow> ('k, 'v) btree_map" where
  "bm_of_list xs = fold (\<lambda>(k, v). bm_insert k v) xs bm_empty"

lemma sorted_keys_bm_entries [simp]: "sorted_keys (bm_entries m)"
  using bm_entries by auto

lemma bm_get_map [simp]: "bm_get (bm_map f m) k = map_option f (bm_get m k)"
  by (simp add: bm_get_def bm_map.rep_eq map_of_map)

lemma bm_ext: "(\<And>k. bm_get a k = bm_get b k) \<Longrightarrow> a = b"
  by (rule bm_entries_inject[THEN iffD1]) (auto simp: bm_get_def fun_eq_iff intro!: sorted_keys_unique)

lemma bm_eq_iff: "a = b \<longleftrightarrow> (\<forall>k. bm_get a k = bm_get b k)"
  by (auto intro: bm_ext)

text \<open>Equality of maps computes on the entries.\<close>

instantiation btree_map :: (linorder, equal) equal
begin

definition equal_btree_map :: "('a, 'b) btree_map \<Rightarrow> ('a, 'b) btree_map \<Rightarrow> bool" where
  "equal_btree_map a b \<longleftrightarrow> bm_entries a = bm_entries b"

instance
  by standard (simp add: equal_btree_map_def bm_entries_inject)

end

lemma bm_get_empty [simp]: "bm_get bm_empty k = None"
  by (simp add: bm_get_def bm_empty.rep_eq)

lemma bm_get_insert [simp]: "bm_get (bm_insert k v m) a = (if a = k then Some v else bm_get m a)"
  by (simp add: bm_get_def bm_insert.rep_eq map_of_al_insert)

lemma bm_get_retain:
  "bm_get (bm_retain P m) k =
     (case bm_get m k of None \<Rightarrow> None | Some v \<Rightarrow> if P k v then Some v else None)"
  by (simp add: bm_get_def bm_retain.rep_eq map_of_filter_keys)

lemma bm_get_remove [simp]: "bm_get (bm_remove k m) a = (if a = k then None else bm_get m a)"
  by (auto simp: bm_remove_def bm_get_retain split: option.splits)

lemma bm_get_upsert [simp]:
  "bm_get (bm_upsert f k v m) a =
     (if a = k then Some (case bm_get m k of None \<Rightarrow> v | Some x \<Rightarrow> f x) else bm_get m a)"
  by (simp add: bm_upsert_def)

lemma set_bm_keys: "set (bm_keys m) = {k. bm_contains m k}"
  by (auto simp: bm_keys_def bm_contains_def bm_get_def map_of_eq_None_iff)

lemma distinct_bm_keys [simp]: "distinct (bm_keys m)"
  by (simp add: bm_keys_def sorted_keys_distinct)

lemma in_bm_entries_iff: "(k, v) \<in> set (bm_entries m) \<longleftrightarrow> bm_get m k = Some v"
  by (simp add: bm_get_def sorted_keys_distinct)

lemma bm_entries_eq_keys: "bm_entries m = map (\<lambda>k. (k, the (bm_get m k))) (bm_keys m)"
  unfolding bm_keys_def
  by (auto intro!: map_idI[symmetric] simp: o_def in_bm_entries_iff)

lemma bm_values_eq_keys: "bm_values m = map (\<lambda>k. the (bm_get m k)) (bm_keys m)"
  by (subst bm_entries_eq_keys bm_values_def)+ (simp add: bm_values_def o_def)

lemma set_bm_values: "set (bm_values m) = {v. \<exists>k. bm_get m k = Some v}"
  by (force simp: bm_values_def in_bm_entries_iff[symmetric])

lemma bm_get_fold_upsert:
  "distinct (map fst xs) \<Longrightarrow>
   bm_get (fold (\<lambda>(k, v). bm_upsert (\<lambda>x. f x v) k v) xs a) k =
     (case map_of xs k of None \<Rightarrow> bm_get a k
      | Some v \<Rightarrow> Some (case bm_get a k of None \<Rightarrow> v | Some x \<Rightarrow> f x v))"
proof (induction xs arbitrary: a)
  case Nil
  then show ?case by simp
next
  case (Cons y ys)
  obtain k' v' where y: "y = (k', v')" by (cases y)
  have "map_of ys k' = None"
    using Cons.prems by (auto simp: y map_of_eq_None_iff)
  with Cons show ?case by (auto simp: y split: option.splits)
qed

lemma bm_get_merge_with:
  "bm_get (bm_merge_with f a b) k =
     (case bm_get b k of None \<Rightarrow> bm_get a k
      | Some v \<Rightarrow> Some (case bm_get a k of None \<Rightarrow> v | Some x \<Rightarrow> f x v))"
  using bm_get_fold_upsert[of "bm_entries b" f a k]
  by (simp add: bm_merge_with_def sorted_keys_distinct bm_get_def[of b])

lemma bm_get_singleton [simp]: "bm_get (bm_of_list [(k, v)]) a = (if a = k then Some v else None)"
  by (simp add: bm_of_list_def)

lemma bm_get_of_list_empty [simp]: "bm_of_list [] = bm_empty"
  by (simp add: bm_of_list_def)

lemma bm_contains_simps [simp]:
  "\<not> bm_contains bm_empty k"
  "bm_contains (bm_insert k' v m) k \<longleftrightarrow> k = k' \<or> bm_contains m k"
  "bm_contains (bm_remove k' m) k \<longleftrightarrow> k \<noteq> k' \<and> bm_contains m k"
  "bm_contains (bm_upsert f k' v m) k \<longleftrightarrow> k = k' \<or> bm_contains m k"
  by (auto simp: bm_contains_def)

lemma bm_contains_merge_with [simp]:
  "bm_contains (bm_merge_with f a b) k \<longleftrightarrow> bm_contains a k \<or> bm_contains b k"
  by (auto simp: bm_contains_def bm_get_merge_with split: option.splits)

lemma bm_contains_retain [simp]:
  "bm_contains (bm_retain P m) k \<longleftrightarrow> (\<exists>v. bm_get m k = Some v \<and> P k v)"
  by (auto simp: bm_contains_def bm_get_retain split: option.splits)

lemma bm_contains_get: "bm_get m k = Some v \<Longrightarrow> bm_contains m k"
  by (simp add: bm_contains_def)

lemma bm_retain_id: "(\<And>k v. bm_get m k = Some v \<Longrightarrow> P k v) \<Longrightarrow> bm_retain P m = m"
  by (rule bm_ext) (auto simp: bm_get_retain split: option.splits)

lemma bm_merge_with_empty [simp]: "bm_merge_with f a bm_empty = a"
  by (rule bm_ext) (simp add: bm_get_merge_with)

text \<open>Joining two maps pointwise inherits the laws of the pointwise operation.\<close>

lemma bm_merge_with_commute:
  assumes "\<And>x y. f x y = f y x"
  shows "bm_merge_with f a b = bm_merge_with f b a"
  by (rule bm_ext) (auto simp: bm_get_merge_with assms split: option.splits)

lemma bm_merge_with_assoc:
  assumes "\<And>x y z. f (f x y) z = f x (f y z)"
  shows "bm_merge_with f (bm_merge_with f a b) c = bm_merge_with f a (bm_merge_with f b c)"
  by (rule bm_ext) (auto simp: bm_get_merge_with assms split: option.splits)

lemma bm_merge_with_idem:
  assumes "\<And>x. f x x = x"
  shows "bm_merge_with f a a = a"
  by (rule bm_ext) (auto simp: bm_get_merge_with assms split: option.splits)


section \<open>Sums over the values\<close>

definition bm_sum :: "('v \<Rightarrow> nat) \<Rightarrow> ('k::linorder, 'v) btree_map \<Rightarrow> nat" where
  "bm_sum f m = sum_list (map f (bm_values m))"

lemma bm_sum_empty [simp]: "bm_sum f bm_empty = 0"
  by (simp add: bm_sum_def bm_values_def bm_empty.rep_eq)

lemma bm_sum_keys: "bm_sum f m = (\<Sum>k \<in> {k. bm_contains m k}. f (the (bm_get m k)))"
  unfolding bm_sum_def bm_values_eq_keys map_map o_def set_bm_keys[symmetric]
  by (rule sum_list_distinct_conv_sum_set) simp

lemma finite_bm_keys [simp]: "finite {k. bm_contains m k}"
  unfolding set_bm_keys[symmetric] by simp

lemma bm_sum_remove:
  assumes "bm_get m k = Some v"
  shows "bm_sum f m = f v + bm_sum f (bm_remove k m)"
proof -
  have keys: "{a. bm_contains (bm_remove k m) a} = {a. bm_contains m a} - {k}"
    by auto
  have "bm_sum f m = f (the (bm_get m k)) + (\<Sum>a \<in> {a. bm_contains m a} - {k}. f (the (bm_get m a)))"
    unfolding bm_sum_keys using assms by (intro sum.remove) (auto simp: bm_contains_def)
  also have "(\<Sum>a \<in> {a. bm_contains m a} - {k}. f (the (bm_get m a))) = bm_sum f (bm_remove k m)"
    unfolding bm_sum_keys keys by (intro sum.cong) auto
  finally show ?thesis using assms by simp
qed

lemma bm_remove_absent: "bm_get m k = None \<Longrightarrow> bm_remove k m = m"
  by (rule bm_ext) auto

lemma bm_remove_insert_absent: "bm_get m k = None \<Longrightarrow> bm_remove k (bm_insert k v m) = m"
  by (rule bm_ext) auto

lemma bm_sum_insert_new: "bm_get m k = None \<Longrightarrow> bm_sum f (bm_insert k v m) = f v + bm_sum f m"
  using bm_sum_remove[of "bm_insert k v m" k v f] by (simp add: bm_remove_insert_absent)

lemma sum_list_filter_split:
  "sum_list (map f xs) = sum_list (map f (filter P xs)) + (sum_list (map f (filter (\<lambda>x. \<not> P x) xs)) :: nat)"
  by (induction xs) auto

lemma bm_values_retain: "bm_values (bm_retain P m) = map snd (filter (\<lambda>(k, v). P k v) (bm_entries m))"
  by (simp add: bm_values_def bm_retain.rep_eq)

lemma bm_sum_retain_split:
  "bm_sum f m = bm_sum f (bm_retain P m) + bm_sum f (bm_retain (\<lambda>k v. \<not> P k v) m)"
  using sum_list_filter_split[of "f \<circ> snd" "bm_entries m" "\<lambda>(k, v). P k v"]
  by (simp add: bm_sum_def bm_values_def bm_retain.rep_eq case_prod_unfold)

section \<open>Ordered sets\<close>

text \<open>\<open>BTreeSet\<close>: the sorted distinct elements a \<open>collect()\<close> leaves, in iteration order.\<close>

definition btree_set :: "'a::linorder list \<Rightarrow> 'a list" where
  "btree_set xs = sort (remdups xs)"

lemma set_btree_set [simp]: "set (btree_set xs) = set xs"
  by (simp add: btree_set_def)

lemma distinct_btree_set [simp]: "distinct (btree_set xs)"
  by (simp add: btree_set_def)

section \<open>The interface\<close>

text \<open>What a client of the map may rely on, whatever the representation.\<close>

locale ordered_map =
  fixes empty :: 'm and get :: "'m \<Rightarrow> 'k::linorder \<Rightarrow> 'v option"
    and insert :: "'k \<Rightarrow> 'v \<Rightarrow> 'm \<Rightarrow> 'm" and remove :: "'k \<Rightarrow> 'm \<Rightarrow> 'm"
    and retain :: "('k \<Rightarrow> 'v \<Rightarrow> bool) \<Rightarrow> 'm \<Rightarrow> 'm" and entries :: "'m \<Rightarrow> ('k \<times> 'v) list"
  assumes get_empty: "get empty k = None"
    and get_insert: "get (insert k v m) a = (if a = k then Some v else get m a)"
    and get_remove: "get (remove k m) a = (if a = k then None else get m a)"
    and get_retain: "get (retain P m) a = Option.bind (get m a) (\<lambda>v. if P a v then Some v else None)"
    and get_ext: "(\<And>k. get m k = get m' k) \<Longrightarrow> m = m'"
    and entries_sorted: "sorted_wrt (<) (map fst (entries m))"
    and entries_get: "(k, v) \<in> set (entries m) \<longleftrightarrow> get m k = Some v"
begin

lemma insert_remove: "remove k (insert k v m) = remove k m"
  by (rule get_ext) (simp add: get_insert get_remove)

lemma insert_commute: "a \<noteq> b \<Longrightarrow> insert a v (insert b w m) = insert b w (insert a v m)"
  by (rule get_ext) (simp add: get_insert)

lemma remove_is_retain: "remove k m = retain (\<lambda>a _. a \<noteq> k) m"
  by (rule get_ext) (simp add: get_remove get_retain bind_eq_None_conv split: Option.bind_splits)

lemma retain_retain: "retain P (retain Q m) = retain (\<lambda>k v. Q k v \<and> P k v) m"
  by (rule get_ext) (simp add: get_retain split: Option.bind_splits)

lemma entries_inject: "entries m = entries m' \<longleftrightarrow> m = m'"
proof
  assume eq: "entries m = entries m'"
  have "get m k = get m' k" for k
    using entries_get[of k _ m] entries_get[of k _ m'] eq by (metis not_None_eq)
  then show "m = m'" by (rule get_ext)
qed simp

end

interpretation bm: ordered_map bm_empty bm_get bm_insert bm_remove bm_retain bm_entries
proof unfold_locales
  show "sorted_wrt (<) (map fst (bm_entries m))" for m :: "('a, 'b) btree_map"
    using sorted_keys_bm_entries[of m] by (simp add: sorted_keys_def)
qed (auto simp: bm_get_retain in_bm_entries_iff intro: bm_ext split: option.splits)

end
