(* ===== verification/Resolver.thy ===== *)
theory Resolver
  imports Store_Types Btree_Map
begin

text \<open>
  The conflict-resolution contract of \<^verbatim>\<open>sundog/src/store/resolver.rs\<close>. A resolver is a record
  of the trait's six methods; \<open>default_methods\<close> are the trait's default bodies. The
  documented correctness contract is stated as interfaces: \<open>winner_order\<close> (the winner is a
  strict total order on differently versioned records) and \<open>join_on\<close> (a join on a carrier),
  each with what it buys: replicas that apply the same records in any order, with any
  duplication, end with the same content.
\<close>

section \<open>Records and verdicts\<close>

record record_view =
  view_value :: "bytes option"
  view_ver :: hlc
  view_expires :: "u64 option"

datatype winner = A | B

record merged =
  merged_value :: bytes
  merged_expires :: "u64 option"

text \<open>\<open>Option\<close>'s order puts \<open>None\<close> below every \<open>Some\<close>.\<close>

fun later_deadline :: "u64 option \<Rightarrow> u64 option \<Rightarrow> u64 option" where
  "later_deadline None b = b"
| "later_deadline a None = a"
| "later_deadline (Some a) (Some b) = Some (max a b)"

definition exchanges_both_records :: "bool \<Rightarrow> bool \<Rightarrow> bool" where
  "exchanges_both_records merges reads_values \<longleftrightarrow> merges \<or> reads_values"

section \<open>The trait\<close>

datatype writer_id = WriterId (writer_node: node_id) (incarnation: u64)

instantiation writer_id :: linorder
begin

definition less_eq_writer_id :: "writer_id \<Rightarrow> writer_id \<Rightarrow> bool" where
  "less_eq_writer_id a b \<longleftrightarrow>
     writer_node a < writer_node b \<or> writer_node a = writer_node b \<and> incarnation a \<le> incarnation b"

definition less_writer_id :: "writer_id \<Rightarrow> writer_id \<Rightarrow> bool" where
  "less_writer_id a b \<longleftrightarrow>
     writer_node a < writer_node b \<or> writer_node a = writer_node b \<and> incarnation a < incarnation b"

instance
  by standard (auto simp: less_eq_writer_id_def less_writer_id_def writer_id.expand)

end

record conflict_resolver =
  cr_winner :: "bytes \<Rightarrow> record_view \<Rightarrow> record_view \<Rightarrow> winner"
  cr_needs_value_bytes :: bool
  cr_merges :: bool
  cr_merge :: "bytes \<Rightarrow> record_view \<Rightarrow> record_view \<Rightarrow> merged option"
  cr_compact :: "bytes \<Rightarrow> bytes \<Rightarrow> u64 \<Rightarrow> (writer_id \<Rightarrow> bool) \<Rightarrow> quiescence \<Rightarrow> compaction_bounds \<Rightarrow> bytes option"
  cr_settle :: "bytes \<Rightarrow> bytes \<Rightarrow> u64 \<Rightarrow> u64 \<Rightarrow> bytes option"

definition default_methods :: "(bytes \<Rightarrow> record_view \<Rightarrow> record_view \<Rightarrow> winner) \<Rightarrow> conflict_resolver" where
  "default_methods w =
     \<lparr>cr_winner = w, cr_needs_value_bytes = True, cr_merges = False,
      cr_merge = (\<lambda>_ _ _. None), cr_compact = (\<lambda>_ _ _ _ _ _. None), cr_settle = (\<lambda>_ _ _ _. None)\<rparr>"

definition winner_by_version :: "bytes \<Rightarrow> record_view \<Rightarrow> record_view \<Rightarrow> winner" where
  "winner_by_version key a b = (if view_ver b \<le> view_ver a then A else B)"

definition lww_resolver :: conflict_resolver where
  "lww_resolver = (default_methods winner_by_version)\<lparr>cr_needs_value_bytes := False\<rparr>"

text \<open>\<open>receipt_expired\<close> of \<^verbatim>\<open>sundog/src/store/crdt/mod.rs\<close>.\<close>

definition receipt_expired :: "u64 \<Rightarrow> u64 \<Rightarrow> u64 \<Rightarrow> bool" where
  "receipt_expired now_ms stamp_ms ttl_ms \<longleftrightarrow>
     ttl_ms < sat_sub now_ms stamp_ms \<or> ttl_ms < sat_sub stamp_ms now_ms"

lemma receipt_expired_iff:
  "receipt_expired now s ttl \<longleftrightarrow> unat s + unat ttl < unat now \<or> unat now + unat ttl < unat s"
  unfolding receipt_expired_def word_less_nat_alt unat_sat_sub by linarith

section \<open>What a winner promises\<close>

locale winner_order =
  fixes win :: "bytes \<Rightarrow> record_view \<Rightarrow> record_view \<Rightarrow> winner"
  assumes antisym: "view_ver a \<noteq> view_ver b \<Longrightarrow> win k a b = A \<longleftrightarrow> win k b a = B"
    and total_trans:
      "view_ver a \<noteq> view_ver b \<Longrightarrow> view_ver b \<noteq> view_ver c \<Longrightarrow> view_ver a \<noteq> view_ver c \<Longrightarrow>
       win k a b = A \<Longrightarrow> win k b c = A \<Longrightarrow> win k a c = A"
begin

text \<open>A replica's step: an equal version is a redelivery, otherwise the winner stays.\<close>

definition keep :: "bytes \<Rightarrow> record_view \<Rightarrow> record_view \<Rightarrow> record_view" where
  "keep k stored incoming =
     (if view_ver stored = view_ver incoming then stored
      else case win k stored incoming of A \<Rightarrow> stored | B \<Rightarrow> incoming)"

definition top_of :: "bytes \<Rightarrow> record_view set \<Rightarrow> record_view \<Rightarrow> bool" where
  "top_of k S x \<longleftrightarrow> x \<in> S \<and> (\<forall>y \<in> S. view_ver y \<noteq> view_ver x \<longrightarrow> win k x y = A)"

lemma top_of_keep:
  assumes inj: "inj_on view_ver (insert y S)" and top: "top_of k S x"
  shows "top_of k (insert y S) (keep k x y)"
proof (cases "view_ver x = view_ver y")
  case True
  then show ?thesis using top by (auto simp: top_of_def keep_def)
next
  case xy: False
  show ?thesis
  proof (cases "win k x y")
    case A
    then show ?thesis using top xy by (auto simp: top_of_def keep_def)
  next
    case B
    have yx: "win k y x = A" using antisym[of y x k] xy B by auto
    have "win k y z = A" if "z \<in> S" "view_ver z \<noteq> view_ver y" for z
    proof (cases "view_ver z = view_ver x")
      case True
      then have "z = x" using inj that top by (auto simp: top_of_def inj_on_def)
      then show ?thesis using yx by simp
    next
      case False
      then have "win k x z = A" using top that by (auto simp: top_of_def)
      then show ?thesis using total_trans[of y x z k] yx xy False that by auto
    qed
    then show ?thesis using B xy top by (auto simp: top_of_def keep_def)
  qed
qed

lemma top_of_unique:
  assumes "inj_on view_ver S" and "top_of k S x" and "top_of k S y"
  shows "x = y"
proof (rule ccontr)
  assume "x \<noteq> y"
  then have ne: "view_ver x \<noteq> view_ver y"
    using assms by (auto simp: top_of_def inj_on_def)
  then have "win k x y = A" and "win k y x = A"
    using assms by (auto simp: top_of_def)
  then show False using antisym[OF ne] by simp
qed

lemma top_of_fold:
  assumes "inj_on view_ver (S \<union> set ys)" and "top_of k S x"
  shows "top_of k (S \<union> set ys) (foldl (keep k) x ys)"
  using assms
proof (induction ys arbitrary: x S)
  case Nil
  then show ?case by simp
next
  case (Cons y ys)
  have "inj_on view_ver (insert y S)"
    using Cons.prems(1) by (rule inj_on_subset) auto
  then have "top_of k (insert y S) (keep k x y)"
    using Cons.prems(2) by (rule top_of_keep)
  then show ?case
    using Cons.IH[of "insert y S" "keep k x y"] Cons.prems(1) by simp
qed

lemma fold_keep_converges:
  assumes "set (x # xs) = set (y # ys)" and "inj_on view_ver (set (x # xs))"
  shows "foldl (keep k) x xs = foldl (keep k) y ys"
proof -
  have "top_of k ({x} \<union> set xs) (foldl (keep k) x xs)"
    using assms(2) by (intro top_of_fold) (auto simp: top_of_def)
  moreover have "top_of k ({y} \<union> set ys) (foldl (keep k) y ys)"
    using assms by (intro top_of_fold) (auto simp: top_of_def)
  ultimately show ?thesis
    using assms by (intro top_of_unique[of "set (x # xs)"]) simp_all
qed

end

interpretation by_version: winner_order winner_by_version
  by unfold_locales (auto simp: winner_by_version_def split: if_splits)

section \<open>What a merge promises\<close>

locale join_on =
  fixes ok :: "'a \<Rightarrow> bool" and join :: "'a \<Rightarrow> 'a \<Rightarrow> 'a"
  assumes join_ok: "ok x \<Longrightarrow> ok y \<Longrightarrow> ok (join x y)"
    and join_commute: "ok x \<Longrightarrow> ok y \<Longrightarrow> join x y = join y x"
    and join_assoc: "ok x \<Longrightarrow> ok y \<Longrightarrow> ok z \<Longrightarrow> join (join x y) z = join x (join y z)"
    and join_idem: "ok x \<Longrightarrow> join x x = x"
begin

definition below :: "'a \<Rightarrow> 'a \<Rightarrow> bool" where
  "below x y \<longleftrightarrow> join x y = y"

lemma fold_ok: "ok x \<Longrightarrow> \<forall>y \<in> set ys. ok y \<Longrightarrow> ok (foldl join x ys)"
  by (induction ys arbitrary: x) (auto simp: join_ok)

lemma below_join:
  assumes "ok x" "ok y"
  shows "below x (join x y)" and "below y (join x y)"
proof -
  show "below x (join x y)"
    using assms by (simp add: below_def join_assoc[symmetric] join_idem)
  show "below y (join x y)"
    using assms by (metis below_def join_assoc join_commute join_idem)
qed

lemma below_trans: "ok x \<Longrightarrow> ok y \<Longrightarrow> ok z \<Longrightarrow> below x y \<Longrightarrow> below y z \<Longrightarrow> below x z"
  by (metis below_def join_assoc)

lemma below_antisym: "ok x \<Longrightarrow> ok y \<Longrightarrow> below x y \<Longrightarrow> below y x \<Longrightarrow> x = y"
  by (metis below_def join_commute)

lemma below_fold:
  assumes "ok x" "\<forall>y \<in> set ys. ok y" "z \<in> set (x # ys)"
  shows "below z (foldl join x ys)"
  using assms
proof (induction ys arbitrary: x z)
  case Nil
  then show ?case by (simp add: below_def join_idem)
next
  case (Cons y ys)
  let ?r = "foldl join (join x y) ys"
  have ok: "ok x" "ok y" "ok (join x y)" "ok ?r"
    using Cons.prems by (auto simp: join_ok intro!: fold_ok)
  have xy: "below (join x y) ?r"
    using Cons.IH[of "join x y" "join x y"] Cons.prems ok by simp
  show ?case
  proof (cases "z = x \<or> z = y")
    case True
    then show ?thesis
      using xy ok below_join[OF ok(1,2)] below_trans[of z "join x y" ?r] by auto
  next
    case False
    then show ?thesis using Cons.IH[of "join x y"] Cons.prems ok by simp
  qed
qed

lemma fold_least:
  assumes "ok x" "\<forall>y \<in> set ys. ok y" "ok u" "\<forall>y \<in> set (x # ys). below y u"
  shows "below (foldl join x ys) u"
  using assms
proof (induction ys arbitrary: x)
  case Nil
  then show ?case by simp
next
  case (Cons y ys)
  have "below (join x y) u"
    using Cons.prems by (auto simp: below_def join_assoc)
  then show ?case
    using Cons.IH[of "join x y"] Cons.prems by (simp add: join_ok)
qed

lemma fold_converges:
  assumes "set (x # xs) = set (y # ys)" and "\<forall>z \<in> set (x # xs). ok z"
  shows "foldl join x xs = foldl join y ys"
proof -
  have okx: "ok x" "\<forall>z \<in> set xs. ok z" using assms(2) by simp_all
  have oky: "ok y" "\<forall>z \<in> set ys. ok z" using assms by (metis list.set_intros)+
  show ?thesis
    using assms okx oky
    by (intro below_antisym fold_ok fold_least) (auto intro: below_fold simp del: set_simps)
qed

end

text \<open>
  A weaker promise, for a join whose bookkeeping may differ between replicas while what they
  show agrees: every aspect \<open>k\<close> of the state has a rank, and joining takes the maximum.
\<close>

locale ranked_join =
  fixes join :: "'a \<Rightarrow> 'a \<Rightarrow> 'a" and rank :: "'k \<Rightarrow> 'a \<Rightarrow> 'r::linorder"
  assumes rank_join: "rank k (join x y) = max (rank k x) (rank k y)"
begin

lemma rank_fold: "rank k (foldl join x xs) = Max (rank k ` set (x # xs))"
proof (induction xs arbitrary: x)
  case (Cons y ys)
  have "Max (insert (max a b) S) = Max (insert a (insert b S))" if "finite S" for a b :: 'r and S
    using that by (cases "S = {}") (simp_all add: max.assoc)
  then show ?case unfolding foldl_Cons Cons.IH rank_join list.set image_insert by simp
qed simp

lemma rank_fold_converges: "set (x # xs) = set (y # ys) \<Longrightarrow> rank k (foldl join x xs) = rank k (foldl join y ys)"
  by (simp only: rank_fold)

lemma rank_fold_top: "z \<in> set (x # xs) \<Longrightarrow> rank k z \<le> rank k (foldl join x xs)"
  unfolding rank_fold by (rule Max_ge) auto

end

lemma later_deadline_simps [simp]: "later_deadline a None = a" "later_deadline a a = a"
  by (cases a; simp)+

lemma later_deadline_commute: "later_deadline a b = later_deadline b a"
  by (cases a; cases b) (simp_all add: max.commute)

lemma later_deadline_assoc:
  "later_deadline (later_deadline a b) c = later_deadline a (later_deadline b c)"
  by (cases a; cases b; cases c) (simp_all add: max.assoc)

interpretation deadline: join_on "\<lambda>_. True" later_deadline
  by unfold_locales (auto intro: later_deadline_commute later_deadline_assoc)

section \<open>Properties\<close>

text \<open>
  Under last-writer-wins, replicas that see the same versions of a key, in any order and with
  any duplication, keep the same record.
\<close>

theorem lww_any_order_converges:
  assumes "set (x # xs) = set (y # ys)" and "inj_on view_ver (set (x # xs))"
  shows "foldl (winner_order.keep (cr_winner lww_resolver) key) x xs
       = foldl (winner_order.keep (cr_winner lww_resolver) key) y ys"
  using by_version.fold_keep_converges[OF assms] by (simp add: lww_resolver_def default_methods_def)

theorem lww_any_order_converges_witness:
  "foldl (winner_order.keep (cr_winner lww_resolver) [])
       \<lparr>view_value = None, view_ver = Hlc 1 0 (NodeId 1), view_expires = None\<rparr>
       [\<lparr>view_value = Some [1], view_ver = Hlc 2 0 (NodeId 2), view_expires = None\<rparr>]
   = foldl (winner_order.keep (cr_winner lww_resolver) [])
       \<lparr>view_value = Some [1], view_ver = Hlc 2 0 (NodeId 2), view_expires = None\<rparr>
       [\<lparr>view_value = None, view_ver = Hlc 1 0 (NodeId 1), view_expires = None\<rparr>]"
  by (rule lww_any_order_converges) auto

end
