(* ===== verification/Pn_Counter.thy ===== *)
theory Pn_Counter
  imports Resolver
begin

text \<open>
  The PN-counter of \<^verbatim>\<open>sundog/src/store/crdt/pn_counter.rs\<close>: per-writer cumulative totals,
  the two-stage retirement of dead writers, the merge with its fold receipts, and the resolver
  over an arbitrary codec. \<open>pn_ok\<close> is the invariant the sources name: no writer is live and
  retired at once.
\<close>

section \<open>State\<close>

record retired =
  ret_p :: u64
  ret_n :: u64
  ret_since_ms :: u64

record pn_counter =
  pn_p :: "(writer_id, u64) btree_map"
  pn_n :: "(writer_id, u64) btree_map"
  pn_retired :: "(writer_id, retired) btree_map"
  pn_folded_p :: u64
  pn_folded_n :: u64
  pn_folded_at :: "(writer_id, u64) btree_map"

definition pn_default :: pn_counter where
  "pn_default = \<lparr>pn_p = bm_empty, pn_n = bm_empty, pn_retired = bm_empty,
                 pn_folded_p = 0, pn_folded_n = 0, pn_folded_at = bm_empty\<rparr>"

section \<open>Reading and writing\<close>

definition pn_value :: "pn_counter \<Rightarrow> int" where
  "pn_value c =
     (let (retired_p, retired_n) =
            foldl (\<lambda>(p, n) r. (sat_add p (ret_p r), sat_add n (ret_n r))) (0, 0) (bm_values (pn_retired c));
          pos = sat_add (sat_add (foldl sat_add 0 (bm_values (pn_p c))) retired_p) (pn_folded_p c);
          neg = sat_add (sat_add (foldl sat_add 0 (bm_values (pn_n c))) retired_n) (pn_folded_n c)
      in uint pos - uint neg)"

definition local_delta :: "writer_id \<Rightarrow> u64 \<Rightarrow> pn_counter" where
  "local_delta writer cumulative_increment =
     pn_default\<lparr>pn_p := bm_of_list [(writer, cumulative_increment)]\<rparr>"

definition local_decrement :: "writer_id \<Rightarrow> u64 \<Rightarrow> pn_counter" where
  "local_decrement writer cumulative_decrement =
     pn_default\<lparr>pn_n := bm_of_list [(writer, cumulative_decrement)]\<rparr>"

section \<open>Merge\<close>

definition pointwise_max :: "('k::linorder, u64) btree_map \<Rightarrow> ('k, u64) btree_map \<Rightarrow> ('k, u64) btree_map" where
  "pointwise_max a b = bm_merge_with max a b"

definition pointwise_max_excluding ::
  "(writer_id, u64) btree_map \<Rightarrow> (writer_id, u64) btree_map \<Rightarrow> (writer_id, retired) btree_map
     \<Rightarrow> (writer_id, u64) btree_map" where
  "pointwise_max_excluding a b excluding =
     bm_retain (\<lambda>w _. \<not> bm_contains excluding w) (pointwise_max a b)"

text \<open>
  The retired entry of \<open>w\<close> in the union. The last branch of \<open>merged_since\<close> is the
  source's \<open>unreachable!\<close>: \<open>w\<close> is always drawn from one of the two retired maps.
\<close>

definition unwrap_or_zero :: "u64 option \<Rightarrow> u64" where
  "unwrap_or_zero x = map_or 0 (\<lambda>v. v) x"

fun merged_since :: "retired option \<Rightarrow> retired option \<Rightarrow> u64" where
  "merged_since (Some a) (Some b) = min (ret_since_ms a) (ret_since_ms b)"
| "merged_since (Some a) None = ret_since_ms a"
| "merged_since None (Some a) = ret_since_ms a"
| "merged_since None None = 0"

definition merged_retired_entry :: "pn_counter \<Rightarrow> pn_counter \<Rightarrow> writer_id \<Rightarrow> retired" where
  "merged_retired_entry a b w =
     \<lparr>ret_p = max (max (max (map_or 0 ret_p (bm_get (pn_retired a) w)) (map_or 0 ret_p (bm_get (pn_retired b) w)))
                       (unwrap_or_zero (bm_get (pn_p a) w))) (unwrap_or_zero (bm_get (pn_p b) w)),
      ret_n = max (max (max (map_or 0 ret_n (bm_get (pn_retired a) w)) (map_or 0 ret_n (bm_get (pn_retired b) w)))
                       (unwrap_or_zero (bm_get (pn_n a) w))) (unwrap_or_zero (bm_get (pn_n b) w)),
      ret_since_ms = merged_since (bm_get (pn_retired a) w) (bm_get (pn_retired b) w)\<rparr>"

definition merged_retired :: "pn_counter \<Rightarrow> pn_counter \<Rightarrow> (writer_id, retired) btree_map" where
  "merged_retired a b =
     fold (\<lambda>w m. if bm_contains m w then m else bm_insert w (merged_retired_entry a b w) m)
       (bm_keys (pn_retired a) @ bm_keys (pn_retired b)) bm_empty"

definition already_folded :: "pn_counter \<Rightarrow> writer_id \<Rightarrow> bool" where
  "already_folded side w \<longleftrightarrow>
     \<not> bm_contains (pn_retired side) w \<and> \<not> bm_contains (pn_p side) w \<and>
     \<not> bm_contains (pn_n side) w \<and> bm_contains (pn_folded_at side) w"

text \<open>
  The \<open>retired.retain\<close> closure: it credits each side with what only the other has folded
  and keeps the writers neither has.
\<close>

definition credit_step ::
  "pn_counter \<Rightarrow> pn_counter \<Rightarrow> writer_id \<times> retired
     \<Rightarrow> (u64 \<times> u64) \<times> (u64 \<times> u64) \<Rightarrow> (u64 \<times> u64) \<times> (u64 \<times> u64)" where
  "credit_step a b = (\<lambda>(w, r) (credit_self, credit_other).
     let by_self = already_folded a w; by_other = already_folded b w;
         credit_self = (if by_other \<and> \<not> by_self
                        then (sat_add (fst credit_self) (ret_p r), sat_add (snd credit_self) (ret_n r))
                        else credit_self);
         credit_other = (if by_self \<and> \<not> by_other
                         then (sat_add (fst credit_other) (ret_p r), sat_add (snd credit_other) (ret_n r))
                         else credit_other)
     in (credit_self, credit_other))"

definition pn_merge :: "pn_counter \<Rightarrow> pn_counter \<Rightarrow> pn_counter" where
  "pn_merge a b =
     (let union = merged_retired a b;
          (credit_self, credit_other) = fold (credit_step a b) (bm_entries union) ((0, 0), (0, 0));
          retired = bm_retain (\<lambda>w _. \<not> (already_folded a w \<or> already_folded b w)) union;
          bound_self = (sat_add (pn_folded_p a) (fst credit_self), sat_add (pn_folded_n a) (snd credit_self));
          bound_other = (sat_add (pn_folded_p b) (fst credit_other), sat_add (pn_folded_n b) (snd credit_other))
      in \<lparr>pn_p = pointwise_max_excluding (pn_p a) (pn_p b) retired,
          pn_n = pointwise_max_excluding (pn_n a) (pn_n b) retired,
          pn_retired = retired,
          pn_folded_p = max (fst bound_self) (fst bound_other),
          pn_folded_n = max (snd bound_self) (snd bound_other),
          pn_folded_at = bm_merge_with max (pn_folded_at a) (pn_folded_at b)\<rparr>)"

section \<open>Compaction\<close>

definition pn_prune_receipts :: "pn_counter \<Rightarrow> u64 \<Rightarrow> u64 \<Rightarrow> pn_counter option" where
  "pn_prune_receipts c now_ms receipt_ttl =
     (if \<not> list_ex (\<lambda>stamp. receipt_expired now_ms stamp receipt_ttl) (bm_values (pn_folded_at c)) then None
      else Some (c\<lparr>pn_folded_at :=
                    bm_retain (\<lambda>_ stamp. \<not> receipt_expired now_ms stamp receipt_ttl) (pn_folded_at c)\<rparr>))"

definition pn_retire_one :: "u64 \<Rightarrow> writer_id \<Rightarrow> pn_counter \<Rightarrow> pn_counter" where
  "pn_retire_one now_ms w out =
     out\<lparr>pn_p := bm_remove w (pn_p out), pn_n := bm_remove w (pn_n out),
         pn_retired := bm_insert w \<lparr>ret_p = unwrap_or_zero (bm_get (pn_p out) w),
                                    ret_n = unwrap_or_zero (bm_get (pn_n out) w),
                                    ret_since_ms = now_ms\<rparr> (pn_retired out)\<rparr>"

definition pn_candidates :: "pn_counter \<Rightarrow> writer_id list" where
  "pn_candidates c = btree_set (bm_keys (pn_p c) @ bm_keys (pn_n c))"

definition pn_retire_stage :: "u64 \<Rightarrow> (writer_id \<Rightarrow> bool) \<Rightarrow> pn_counter \<Rightarrow> pn_counter \<times> bool" where
  "pn_retire_stage now_ms retire c =
     (let ws = filter retire (pn_candidates c) in (fold (pn_retire_one now_ms) ws c, ws \<noteq> []))"

definition pn_aged :: "u64 \<Rightarrow> u64 \<Rightarrow> retired \<Rightarrow> bool" where
  "pn_aged now_ms double_bound r \<longleftrightarrow> double_bound < sat_sub now_ms (ret_since_ms r)"

definition pn_fold_step ::
  "u64 \<Rightarrow> u64 \<Rightarrow> writer_id \<times> retired
     \<Rightarrow> u64 \<times> u64 \<times> (writer_id, u64) btree_map \<times> bool \<Rightarrow> u64 \<times> u64 \<times> (writer_id, u64) btree_map \<times> bool" where
  "pn_fold_step now_ms double_bound = (\<lambda>(w, r) (fp, fn, fa, aged_any).
     if pn_aged now_ms double_bound r
     then (sat_add fp (ret_p r), sat_add fn (ret_n r), bm_upsert (\<lambda>stamp. max stamp now_ms) w now_ms fa, True)
     else (fp, fn, fa, aged_any))"

definition pn_fold_stage :: "u64 \<Rightarrow> compaction_bounds \<Rightarrow> pn_counter \<Rightarrow> pn_counter \<times> bool" where
  "pn_fold_stage now_ms bounds out =
     (let double_bound = sat_mul (retire_after_ms bounds) 2;
          (out, pruned) = (case pn_prune_receipts out now_ms (receipt_ttl_ms bounds) of
                             None \<Rightarrow> (out, False) | Some p \<Rightarrow> (p, True));
          (fp, fn, fa, aged_any) =
            fold (pn_fold_step now_ms double_bound) (bm_entries (pn_retired out))
              (pn_folded_p out, pn_folded_n out, pn_folded_at out, pruned)
      in (out\<lparr>pn_retired := bm_retain (\<lambda>_ r. \<not> pn_aged now_ms double_bound r) (pn_retired out),
              pn_folded_p := fp, pn_folded_n := fn, pn_folded_at := fa\<rparr>, aged_any))"

definition pn_compact ::
  "pn_counter \<Rightarrow> u64 \<Rightarrow> (writer_id \<Rightarrow> bool) \<Rightarrow> quiescence \<Rightarrow> compaction_bounds \<Rightarrow> pn_counter option" where
  "pn_compact c now_ms retire quiet bounds =
     (let (out, changed) = pn_retire_stage now_ms retire c;
          (out, changed) = (if is_settled quiet
                            then (let (out', aged_any) = pn_fold_stage now_ms bounds out
                                  in (out', changed \<or> aged_any))
                            else (out, changed))
      in if changed then Some out else None)"

section \<open>The codec and the resolver\<close>

text \<open>
  postcard is an argument: \<open>to_vec\<close> may fail, \<open>from_vec\<close> may fail. \<open>pn_decode\<close> adds
  the source's own check that no writer is both live and retired.
\<close>

definition pn_ok :: "pn_counter \<Rightarrow> bool" where
  "pn_ok c \<longleftrightarrow> (\<forall>w. bm_contains (pn_retired c) w \<longrightarrow> \<not> bm_contains (pn_p c) w \<and> \<not> bm_contains (pn_n c) w)"

definition pn_decode :: "(bytes \<Rightarrow> pn_counter option) \<Rightarrow> bytes \<Rightarrow> pn_counter option" where
  "pn_decode from_vec bs =
     (case from_vec bs of
        None \<Rightarrow> None
      | Some c \<Rightarrow>
          if list_ex (bm_contains (pn_retired c)) (bm_keys (pn_p c) @ bm_keys (pn_n c)) then None
          else Some c)"

definition pn_resolver_merge ::
  "(pn_counter \<Rightarrow> bytes option) \<Rightarrow> (bytes \<Rightarrow> pn_counter option) \<Rightarrow> bytes \<Rightarrow> record_view \<Rightarrow> record_view \<Rightarrow> merged option" where
  "pn_resolver_merge to_vec from_vec key a b =
     (case (view_value a, view_value b) of
        (Some av, Some bv) \<Rightarrow>
          (case (pn_decode from_vec av, pn_decode from_vec bv) of
             (Some pa, Some pb) \<Rightarrow>
               (case to_vec (pn_merge pa pb) of
                  None \<Rightarrow> None
                | Some bs \<Rightarrow> Some \<lparr>merged_value = bs,
                                  merged_expires = later_deadline (view_expires a) (view_expires b)\<rparr>)
           | _ \<Rightarrow> None)
      | _ \<Rightarrow> None)"

definition pn_counter_resolver ::
  "(pn_counter \<Rightarrow> bytes option) \<Rightarrow> (bytes \<Rightarrow> pn_counter option) \<Rightarrow> conflict_resolver" where
  "pn_counter_resolver to_vec from_vec =
     (default_methods winner_by_version)\<lparr>
        cr_merges := True,
        cr_merge := pn_resolver_merge to_vec from_vec,
        cr_compact := (\<lambda>key value now_ms retire quiet bounds.
          Option.bind (pn_decode from_vec value) (\<lambda>c.
          Option.bind (pn_compact c now_ms retire quiet bounds) to_vec)),
        cr_settle := (\<lambda>key value now_ms receipt_ttl.
          Option.bind (pn_decode from_vec value) (\<lambda>c.
          Option.bind (pn_prune_receipts c now_ms receipt_ttl) to_vec))\<rparr>"


section \<open>The value is a capped total\<close>

definition pn_total :: "(pn_counter \<Rightarrow> (writer_id, u64) btree_map) \<Rightarrow> (retired \<Rightarrow> u64) \<Rightarrow> (pn_counter \<Rightarrow> u64)
    \<Rightarrow> pn_counter \<Rightarrow> nat" where
  "pn_total live ret folded c =
     bm_sum unat (live c) + bm_sum (\<lambda>r. unat (ret r)) (pn_retired c) + unat (folded c)"

abbreviation pn_increments :: "pn_counter \<Rightarrow> nat" where
  "pn_increments \<equiv> pn_total pn_p ret_p pn_folded_p"

abbreviation pn_decrements :: "pn_counter \<Rightarrow> nat" where
  "pn_decrements \<equiv> pn_total pn_n ret_n pn_folded_n"

definition cap64 :: "nat \<Rightarrow> nat" where
  "cap64 n = min n (2 ^ 64 - 1)"

lemma foldl_pair_sat_add:
  "foldl (\<lambda>(p, n) r. (sat_add p (f r), sat_add n (g r))) (x, y) rs
     = (sat_add x (sat_sum (map f rs)), sat_add y (sat_sum (map g rs)))"
  by (induction rs arbitrary: x y) (simp_all add: sat_add_assoc)

lemma cap64_total:
  "unat (sat_add (sat_add (sat_sum xs) (sat_sum ys)) z)
     = cap64 (sum_list (map unat xs) + sum_list (map unat ys) + unat (z :: u64))"
  by (simp add: sat_simps cap64_def)

lemma pn_value_capped: "pn_value c = int (cap64 (pn_increments c)) - int (cap64 (pn_decrements c))"
proof -
  have "uint (sat_add (sat_add (foldl sat_add 0 xs) (sat_sum (map f rs))) z)
          = int (cap64 (sum_list (map unat xs) + sum_list (map (\<lambda>r. unat (f r)) rs) + unat z))"
    for xs :: "u64 list" and f :: "retired \<Rightarrow> u64" and rs and z :: u64
    using cap64_total[of xs "map f rs" z] by (simp add: uint_nat sat_sum_def o_def)
  then show ?thesis
    by (simp add: pn_value_def foldl_pair_sat_add pn_total_def bm_sum_def)
qed

section \<open>Merge, read back field by field\<close>

lemma bm_get_fold_insert_absent:
  "bm_get (fold (\<lambda>w m. if bm_contains m w then m else bm_insert w (f w) m) ws m) w =
     (if bm_contains m w then bm_get m w else if w \<in> set ws then Some (f w) else None)"
  by (induction ws arbitrary: m) (auto simp: bm_contains_def)

lemma bm_get_merged_retired:
  "bm_get (merged_retired a b) w =
     (if bm_contains (pn_retired a) w \<or> bm_contains (pn_retired b) w
      then Some (merged_retired_entry a b w) else None)"
  unfolding merged_retired_def bm_get_fold_insert_absent by (simp add: set_bm_keys)

definition credit :: "(retired \<Rightarrow> u64) \<Rightarrow> (writer_id \<Rightarrow> bool) \<Rightarrow> (writer_id, retired) btree_map \<Rightarrow> u64" where
  "credit f P m = sat_sum (map f (bm_values (bm_retain (\<lambda>w _. P w) m)))"

lemma fold_credit_step:
  "fold (credit_step a b) xs ((s1, s2), (o1, o2)) =
     ((sat_add s1 (sat_sum (map (ret_p \<circ> snd) (filter (\<lambda>x. already_folded b (fst x) \<and> \<not> already_folded a (fst x)) xs))),
       sat_add s2 (sat_sum (map (ret_n \<circ> snd) (filter (\<lambda>x. already_folded b (fst x) \<and> \<not> already_folded a (fst x)) xs)))),
      (sat_add o1 (sat_sum (map (ret_p \<circ> snd) (filter (\<lambda>x. already_folded a (fst x) \<and> \<not> already_folded b (fst x)) xs))),
       sat_add o2 (sat_sum (map (ret_n \<circ> snd) (filter (\<lambda>x. already_folded a (fst x) \<and> \<not> already_folded b (fst x)) xs)))))"
  by (induction xs arbitrary: s1 s2 o1 o2)
    (auto simp: credit_step_def Let_def sat_add_assoc split: prod.splits)

definition only_folded :: "pn_counter \<Rightarrow> pn_counter \<Rightarrow> writer_id \<Rightarrow> bool" where
  "only_folded a b w \<longleftrightarrow> already_folded a w \<and> \<not> already_folded b w"

lemma fold_credit_entries:
  "fold (credit_step a b) (bm_entries m) ((0, 0), (0, 0)) =
     ((credit ret_p (only_folded b a) m, credit ret_n (only_folded b a) m),
      (credit ret_p (only_folded a b) m, credit ret_n (only_folded a b) m))"
  unfolding fold_credit_step credit_def only_folded_def bm_values_retain
  by (simp add: case_prod_unfold o_def)

lemma pn_merge_fields:
  "pn_retired (pn_merge a b) =
     bm_retain (\<lambda>w _. \<not> (already_folded a w \<or> already_folded b w)) (merged_retired a b)"
  "pn_p (pn_merge a b) = pointwise_max_excluding (pn_p a) (pn_p b) (pn_retired (pn_merge a b))"
  "pn_n (pn_merge a b) = pointwise_max_excluding (pn_n a) (pn_n b) (pn_retired (pn_merge a b))"
  "pn_folded_p (pn_merge a b) =
     max (sat_add (pn_folded_p a) (credit ret_p (only_folded b a) (merged_retired a b)))
         (sat_add (pn_folded_p b) (credit ret_p (only_folded a b) (merged_retired a b)))"
  "pn_folded_n (pn_merge a b) =
     max (sat_add (pn_folded_n a) (credit ret_n (only_folded b a) (merged_retired a b)))
         (sat_add (pn_folded_n b) (credit ret_n (only_folded a b) (merged_retired a b)))"
  "pn_folded_at (pn_merge a b) = bm_merge_with max (pn_folded_at a) (pn_folded_at b)"
  by (simp_all add: pn_merge_def Let_def fold_credit_entries)

lemma bm_get_pointwise_max_excluding:
  "bm_get (pointwise_max_excluding a b ex) w =
     (if bm_contains ex w then None else bm_get (bm_merge_with max a b) w)"
  by (auto simp: pointwise_max_excluding_def pointwise_max_def bm_get_retain split: option.splits)

lemma bm_contains_pointwise_max_excluding [simp]:
  "bm_contains (pointwise_max_excluding a b ex) w \<longleftrightarrow>
     \<not> bm_contains ex w \<and> (bm_contains a w \<or> bm_contains b w)"
  using bm_contains_merge_with[of max a b w]
  by (simp add: bm_contains_def bm_get_pointwise_max_excluding)

lemma bm_contains_merged_retired [simp]:
  "bm_contains (merged_retired a b) w \<longleftrightarrow> bm_contains (pn_retired a) w \<or> bm_contains (pn_retired b) w"
  by (simp add: bm_contains_def bm_get_merged_retired)

section \<open>Merge laws\<close>

lemma merged_since_commute: "merged_since x y = merged_since y x"
  by (cases x; cases y) (simp_all add: min.commute)

lemma merged_retired_entry_commute: "merged_retired_entry a b w = merged_retired_entry b a w"
  unfolding merged_retired_entry_def merged_since_commute[of "bm_get (pn_retired a) w"]
  by (simp add: max.commute max.left_commute max.assoc)

lemma merged_retired_commute: "merged_retired a b = merged_retired b a"
  by (rule bm_ext) (auto simp: bm_get_merged_retired merged_retired_entry_commute)

lemma pointwise_max_excluding_commute: "pointwise_max_excluding a b ex = pointwise_max_excluding b a ex"
  unfolding pointwise_max_excluding_def pointwise_max_def
  by (subst bm_merge_with_commute) (simp_all add: max.commute)

lemma pn_merge_commutes: "pn_merge a b = pn_merge b a"
proof (rule pn_counter.equality)
  show ret: "pn_retired (pn_merge a b) = pn_retired (pn_merge b a)"
    by (simp add: pn_merge_fields merged_retired_commute[of a] disj_commute)
  show "pn_p (pn_merge a b) = pn_p (pn_merge b a)" "pn_n (pn_merge a b) = pn_n (pn_merge b a)"
    using ret by (simp_all only: pn_merge_fields(2,3) pointwise_max_excluding_commute)
qed (simp_all add: pn_merge_fields merged_retired_commute[of a] max.commute bm_merge_with_commute)

lemma pn_ok_merge: "pn_ok (pn_merge a b)"
  by (simp only: pn_ok_def pn_merge_fields(2,3) bm_contains_pointwise_max_excluding) simp

lemma retired_not_already_folded: "bm_contains (pn_retired c) w \<Longrightarrow> \<not> already_folded c w"
  by (simp add: already_folded_def)

lemma credit_none: "(\<And>w. bm_contains m w \<Longrightarrow> \<not> P w) \<Longrightarrow> credit f P m = 0"
proof -
  assume "\<And>w. bm_contains m w \<Longrightarrow> \<not> P w"
  then have "bm_retain (\<lambda>w _. P w) m = bm_empty"
    by (intro bm_ext) (auto simp: bm_get_retain bm_contains_def split: option.splits)
  then show ?thesis by (simp add: credit_def bm_values_def bm_empty.rep_eq)
qed

lemma merged_retired_self:
  assumes "pn_ok a"
  shows "merged_retired a a = pn_retired a"
proof (rule bm_ext)
  fix w
  show "bm_get (merged_retired a a) w = bm_get (pn_retired a) w"
  proof (cases "bm_get (pn_retired a) w")
    case None
    then show ?thesis by (simp add: bm_get_merged_retired bm_contains_def)
  next
    case (Some r)
    then have "bm_get (pn_p a) w = None" "bm_get (pn_n a) w = None"
      using assms by (auto simp: pn_ok_def bm_contains_def)
    with Some show ?thesis
      by (simp add: bm_get_merged_retired bm_contains_def merged_retired_entry_def unwrap_or_zero_def)
  qed
qed

lemma pn_merge_idempotent:
  assumes "pn_ok a"
  shows "pn_merge a a = a"
proof -
  have keep: "bm_retain (\<lambda>w _. \<not> (already_folded a w \<or> already_folded a w)) (pn_retired a) = pn_retired a"
    by (rule bm_retain_id) (auto simp: already_folded_def bm_contains_def)
  have nocredit: "credit f (only_folded a a) m = 0" for f m
    by (rule credit_none) (simp add: only_folded_def)
  have live: "pointwise_max_excluding m m (pn_retired a) = m"
    if "\<And>w. bm_contains (pn_retired a) w \<Longrightarrow> \<not> bm_contains m w" for m
    using that by (intro bm_ext)
      (auto simp: bm_get_pointwise_max_excluding bm_merge_with_idem bm_contains_def)
  have ret: "pn_retired (pn_merge a a) = pn_retired a"
    using keep by (simp add: pn_merge_fields merged_retired_self[OF assms])
  have sides: "pn_p (pn_merge a a) = pn_p a" "pn_n (pn_merge a a) = pn_n a"
    using assms by (simp_all add: pn_merge_fields(2,3) ret live pn_ok_def)
  have at: "pn_folded_at (pn_merge a a) = pn_folded_at a"
    unfolding pn_merge_fields(6) by (rule bm_merge_with_idem) simp
  show ?thesis
    by (intro pn_counter.equality)
      (simp_all add: ret sides at pn_merge_fields(4,5) nocredit)
qed


section \<open>Without retired writers the merge is a join\<close>

definition pn_unretired :: "pn_counter \<Rightarrow> bool" where
  "pn_unretired c \<longleftrightarrow> pn_retired c = bm_empty"

lemma pn_merge_unretired:
  assumes "pn_unretired a" and "pn_unretired b"
  shows "pn_merge a b =
    \<lparr>pn_p = bm_merge_with max (pn_p a) (pn_p b), pn_n = bm_merge_with max (pn_n a) (pn_n b),
     pn_retired = bm_empty, pn_folded_p = max (pn_folded_p a) (pn_folded_p b),
     pn_folded_n = max (pn_folded_n a) (pn_folded_n b),
     pn_folded_at = bm_merge_with max (pn_folded_at a) (pn_folded_at b)\<rparr>"
proof -
  have un: "merged_retired a b = bm_empty"
    using assms by (intro bm_ext) (simp add: bm_get_merged_retired pn_unretired_def)
  have ret: "pn_retired (pn_merge a b) = bm_empty"
    by (rule bm_ext) (simp add: pn_merge_fields un bm_get_retain)
  have "credit f P bm_empty = 0" for f P
    by (rule credit_none) simp
  moreover have "pointwise_max_excluding x y bm_empty = bm_merge_with max x y" for x y
    by (rule bm_ext) (simp add: bm_get_pointwise_max_excluding)
  ultimately show ?thesis
    by (intro pn_counter.equality) (simp_all add: ret un pn_merge_fields(2-6))
qed

interpretation pn_live: join_on pn_unretired pn_merge
proof unfold_locales
  fix x y z :: pn_counter
  assume xyz: "pn_unretired x" "pn_unretired y" "pn_unretired z"
  have ok: "pn_unretired (pn_merge u v)" if "pn_unretired u" "pn_unretired v" for u v
    by (simp add: pn_merge_unretired[OF that]) (simp add: pn_unretired_def)
  have assoc: "bm_merge_with max (bm_merge_with max u v) w = bm_merge_with max u (bm_merge_with max v w)"
    for u v w :: "(writer_id, u64) btree_map"
    by (rule bm_merge_with_assoc) (rule max.assoc)
  have xy: "pn_unretired (pn_merge x y)" and yz: "pn_unretired (pn_merge y z)"
    using ok xyz by blast+
  show "pn_merge (pn_merge x y) z = pn_merge x (pn_merge y z)"
    unfolding pn_merge_unretired[OF xy xyz(3)] pn_merge_unretired[OF xyz(1) yz]
    by (simp add: pn_merge_unretired[OF xyz(1,2)] pn_merge_unretired[OF xyz(2,3)] assoc max.assoc)
next
  fix x y :: pn_counter
  assume "pn_unretired x" "pn_unretired y"
  then show "pn_unretired (pn_merge x y)"
    by (simp add: pn_merge_unretired) (simp add: pn_unretired_def)
  show "pn_merge x y = pn_merge y x"
    by (rule pn_merge_commutes)
  show "pn_merge x x = x"
    using \<open>pn_unretired x\<close> by (intro pn_merge_idempotent) (simp add: pn_ok_def pn_unretired_def)
qed

section \<open>Compaction, stage by stage\<close>

lemma pn_retire_one_fields [simp]:
  "pn_p (pn_retire_one now w c) = bm_remove w (pn_p c)"
  "pn_n (pn_retire_one now w c) = bm_remove w (pn_n c)"
  "pn_folded_p (pn_retire_one now w c) = pn_folded_p c"
  "pn_folded_n (pn_retire_one now w c) = pn_folded_n c"
  "pn_folded_at (pn_retire_one now w c) = pn_folded_at c"
  "pn_retired (pn_retire_one now w c) =
     bm_insert w \<lparr>ret_p = unwrap_or_zero (bm_get (pn_p c) w), ret_n = unwrap_or_zero (bm_get (pn_n c) w),
                  ret_since_ms = now\<rparr> (pn_retired c)"
  by (simp_all add: pn_retire_one_def)

lemma pn_retire_fold_get:
  assumes "distinct ws"
  shows "bm_get (pn_p (fold (pn_retire_one now) ws c)) w = (if w \<in> set ws then None else bm_get (pn_p c) w)"
    and "bm_get (pn_n (fold (pn_retire_one now) ws c)) w = (if w \<in> set ws then None else bm_get (pn_n c) w)"
    and "bm_get (pn_retired (fold (pn_retire_one now) ws c)) w =
      (if w \<in> set ws
       then Some \<lparr>ret_p = unwrap_or_zero (bm_get (pn_p c) w), ret_n = unwrap_or_zero (bm_get (pn_n c) w),
                  ret_since_ms = now\<rparr>
       else bm_get (pn_retired c) w)"
    and "pn_folded_p (fold (pn_retire_one now) ws c) = pn_folded_p c"
    and "pn_folded_n (fold (pn_retire_one now) ws c) = pn_folded_n c"
    and "pn_folded_at (fold (pn_retire_one now) ws c) = pn_folded_at c"
  using assms by (induction ws arbitrary: c) auto

lemma pn_ok_get: "pn_ok c \<longleftrightarrow>
   (\<forall>w r. bm_get (pn_retired c) w = Some r \<longrightarrow> bm_get (pn_p c) w = None \<and> bm_get (pn_n c) w = None)"
  by (auto simp: pn_ok_def bm_contains_def)

lemma bm_sum_take_out:
  "bm_sum unat m = unat (unwrap_or_zero (bm_get m w)) + bm_sum unat (bm_remove w m)"
  by (cases "bm_get m w") (simp_all add: unwrap_or_zero_def bm_remove_absent bm_sum_remove)

lemma pn_total_retire_one:
  assumes "bm_get (pn_retired c) w = None"
  shows "pn_increments (pn_retire_one now w c) = pn_increments c"
    and "pn_decrements (pn_retire_one now w c) = pn_decrements c"
  using assms bm_sum_take_out[of "pn_p c" w] bm_sum_take_out[of "pn_n c" w]
  by (simp_all add: pn_total_def bm_sum_insert_new)

lemma pn_total_retire_fold:
  assumes "distinct ws" and "\<forall>w \<in> set ws. bm_get (pn_retired c) w = None"
  shows "pn_increments (fold (pn_retire_one now) ws c) = pn_increments c
       \<and> pn_decrements (fold (pn_retire_one now) ws c) = pn_decrements c"
  using assms
proof (induction ws arbitrary: c)
  case Nil
  then show ?case by simp
next
  case (Cons a ws)
  have "\<forall>w \<in> set ws. bm_get (pn_retired (pn_retire_one now a c)) w = None"
    using Cons.prems by auto
  then show ?case
    using Cons.IH[of "pn_retire_one now a c"] Cons.prems by (simp add: pn_total_retire_one)
qed

text \<open>The writers stage one moves: live, and accepted by \<open>retire\<close>.\<close>

definition pn_moves :: "(writer_id \<Rightarrow> bool) \<Rightarrow> pn_counter \<Rightarrow> writer_id \<Rightarrow> bool" where
  "pn_moves retire c w \<longleftrightarrow> retire w \<and> (bm_contains (pn_p c) w \<or> bm_contains (pn_n c) w)"

lemma set_pn_moves: "set (filter retire (pn_candidates c)) = {w. pn_moves retire c w}"
  by (auto simp: pn_candidates_def pn_moves_def set_bm_keys)

lemma pn_retire_stage_get:
  assumes "pn_retire_stage now retire c = (out, ch)"
  shows "bm_get (pn_p out) w = (if pn_moves retire c w then None else bm_get (pn_p c) w)"
    and "bm_get (pn_n out) w = (if pn_moves retire c w then None else bm_get (pn_n c) w)"
    and "bm_get (pn_retired out) w =
      (if pn_moves retire c w
       then Some \<lparr>ret_p = unwrap_or_zero (bm_get (pn_p c) w), ret_n = unwrap_or_zero (bm_get (pn_n c) w),
                  ret_since_ms = now\<rparr>
       else bm_get (pn_retired c) w)"
    and "pn_folded_p out = pn_folded_p c" and "pn_folded_n out = pn_folded_n c"
    and "pn_folded_at out = pn_folded_at c"
proof -
  have out: "out = fold (pn_retire_one now) (filter retire (pn_candidates c)) c"
    using assms by (auto simp: pn_retire_stage_def Let_def)
  have dist: "distinct (filter retire (pn_candidates c))"
    by (simp add: pn_candidates_def)
  note g = pn_retire_fold_get[OF dist, of now c, unfolded set_pn_moves mem_Collect_eq]
  show "bm_get (pn_p out) w = (if pn_moves retire c w then None else bm_get (pn_p c) w)"
    "bm_get (pn_n out) w = (if pn_moves retire c w then None else bm_get (pn_n c) w)"
    "bm_get (pn_retired out) w =
      (if pn_moves retire c w
       then Some \<lparr>ret_p = unwrap_or_zero (bm_get (pn_p c) w), ret_n = unwrap_or_zero (bm_get (pn_n c) w),
                  ret_since_ms = now\<rparr>
       else bm_get (pn_retired c) w)"
    "pn_folded_p out = pn_folded_p c" "pn_folded_n out = pn_folded_n c"
    "pn_folded_at out = pn_folded_at c"
    unfolding out by (fact g)+
qed

lemma pn_retire_stage_total:
  assumes "pn_retire_stage now retire c = (out, ch)" and "pn_ok c"
  shows "pn_increments out = pn_increments c" and "pn_decrements out = pn_decrements c"
    and "pn_ok out"
proof -
  have "\<forall>w \<in> set (filter retire (pn_candidates c)). bm_get (pn_retired c) w = None"
    using assms(2) unfolding set_pn_moves by (auto simp: pn_moves_def pn_ok_def bm_contains_def)
  then show "pn_increments out = pn_increments c" "pn_decrements out = pn_decrements c"
    using assms(1) pn_total_retire_fold[of "filter retire (pn_candidates c)" c]
    by (auto simp: pn_retire_stage_def Let_def pn_candidates_def)
  show "pn_ok out"
    using assms(2) pn_retire_stage_get[OF assms(1)] by (auto simp: pn_ok_get)
qed


lemma fold_pn_fold_step:
  "fold (pn_fold_step now db) xs (fp, fn, fa, ag) =
     (sat_add fp (sat_sum (map (ret_p \<circ> snd) (filter (\<lambda>x. pn_aged now db (snd x)) xs))),
      sat_add fn (sat_sum (map (ret_n \<circ> snd) (filter (\<lambda>x. pn_aged now db (snd x)) xs))),
      fold (\<lambda>x. bm_upsert (\<lambda>s. max s now) (fst x) now) (filter (\<lambda>x. pn_aged now db (snd x)) xs) fa,
      ag \<or> (\<exists>x \<in> set xs. pn_aged now db (snd x)))"
  by (induction xs arbitrary: fp fn fa ag) (auto simp: pn_fold_step_def sat_add_assoc)

lemma bm_get_fold_stamp:
  "bm_get (fold (\<lambda>x. bm_upsert (\<lambda>s. max s now) (fst x) now) xs fa) w =
     (if w \<in> fst ` set xs then Some (case bm_get fa w of None \<Rightarrow> now | Some s \<Rightarrow> max s now)
      else bm_get fa w)"
  for now :: u64
  by (induction xs arbitrary: fa) (auto split: option.splits simp: max.assoc)

definition aged_sum :: "(retired \<Rightarrow> u64) \<Rightarrow> u64 \<Rightarrow> u64 \<Rightarrow> (writer_id, retired) btree_map \<Rightarrow> u64" where
  "aged_sum f now db m = sat_sum (map f (bm_values (bm_retain (\<lambda>_ r. pn_aged now db r) m)))"

lemma pn_prune_receipts_fields:
  assumes "pn_prune_receipts c now ttl = Some c'"
  shows "pn_p c' = pn_p c" "pn_n c' = pn_n c" "pn_retired c' = pn_retired c"
    "pn_folded_p c' = pn_folded_p c" "pn_folded_n c' = pn_folded_n c"
    "pn_folded_at c' = bm_retain (\<lambda>_ stamp. \<not> receipt_expired now stamp ttl) (pn_folded_at c)"
  using assms by (auto simp: pn_prune_receipts_def split: if_splits)

text \<open>What stage two leaves, given the doubled bound.\<close>

abbreviation fold_age :: "compaction_bounds \<Rightarrow> u64" where
  "fold_age bounds \<equiv> sat_mul (retire_after_ms bounds) 2"

lemma pn_fold_stage_fields:
  assumes "pn_fold_stage now bounds out = (c', ag)"
  shows "pn_p c' = pn_p out" "pn_n c' = pn_n out"
    "pn_retired c' = bm_retain (\<lambda>_ r. \<not> pn_aged now (fold_age bounds) r) (pn_retired out)"
    "pn_folded_p c' = sat_add (pn_folded_p out) (aged_sum ret_p now (fold_age bounds) (pn_retired out))"
    "pn_folded_n c' = sat_add (pn_folded_n out) (aged_sum ret_n now (fold_age bounds) (pn_retired out))"
    "bm_get (pn_retired out) w = Some r \<Longrightarrow> pn_aged now (fold_age bounds) r \<Longrightarrow> bm_contains (pn_folded_at c') w"
proof -
  let ?aged = "filter (\<lambda>x. pn_aged now (fold_age bounds) (snd x)) (bm_entries (pn_retired out))"
  have sums: "aged_sum f now (fold_age bounds) (pn_retired out) = sat_sum (map (f \<circ> snd) ?aged)" for f
    unfolding aged_sum_def bm_values_retain by (simp add: case_prod_unfold)
  obtain out' pr where pr: "out' = out \<or> pn_prune_receipts out now (receipt_ttl_ms bounds) = Some out'"
    and c': "c' = out'\<lparr>pn_retired := bm_retain (\<lambda>_ r. \<not> pn_aged now (fold_age bounds) r) (pn_retired out'),
        pn_folded_p := sat_add (pn_folded_p out') (sat_sum (map (ret_p \<circ> snd)
           (filter (\<lambda>x. pn_aged now (fold_age bounds) (snd x)) (bm_entries (pn_retired out'))))),
        pn_folded_n := sat_add (pn_folded_n out') (sat_sum (map (ret_n \<circ> snd)
           (filter (\<lambda>x. pn_aged now (fold_age bounds) (snd x)) (bm_entries (pn_retired out'))))),
        pn_folded_at := fold (\<lambda>x. bm_upsert (\<lambda>s. max s now) (fst x) now)
           (filter (\<lambda>x. pn_aged now (fold_age bounds) (snd x)) (bm_entries (pn_retired out'))) (pn_folded_at out')\<rparr>"
    using assms unfolding pn_fold_stage_def Let_def
    by (cases "pn_prune_receipts out now (receipt_ttl_ms bounds)") (auto simp: fold_pn_fold_step)
  have same: "pn_p out' = pn_p out" "pn_n out' = pn_n out" "pn_retired out' = pn_retired out"
    "pn_folded_p out' = pn_folded_p out" "pn_folded_n out' = pn_folded_n out"
    using pr pn_prune_receipts_fields[of out now "receipt_ttl_ms bounds" out'] by auto
  show "pn_p c' = pn_p out" "pn_n c' = pn_n out"
    "pn_retired c' = bm_retain (\<lambda>_ r. \<not> pn_aged now (fold_age bounds) r) (pn_retired out)"
    "pn_folded_p c' = sat_add (pn_folded_p out) (aged_sum ret_p now (fold_age bounds) (pn_retired out))"
    "pn_folded_n c' = sat_add (pn_folded_n out) (aged_sum ret_n now (fold_age bounds) (pn_retired out))"
    by (simp_all add: c' same sums)
  show "bm_get (pn_retired out) w = Some r \<Longrightarrow> pn_aged now (fold_age bounds) r \<Longrightarrow> bm_contains (pn_folded_at c') w"
    by (force simp: c' same bm_contains_def bm_get_fold_stamp in_bm_entries_iff[symmetric])
qed

lemma unat_aged_sum:
  "unat (aged_sum f now db m) = cap64 (bm_sum (\<lambda>r. unat (f r)) (bm_retain (\<lambda>_ r. pn_aged now db r) m))"
  by (simp add: aged_sum_def sat_simps cap64_def bm_sum_def o_def)

lemma cap64_absorb: "cap64 (x + y + min (z + cap64 a) (2 ^ 64 - 1)) = cap64 (x + (y + a) + z)"
  by (auto simp: cap64_def min_def)

lemma pn_fold_stage_total:
  assumes "pn_fold_stage now bounds out = (c', ag)"
  shows "cap64 (pn_increments c') = cap64 (pn_increments out)"
    and "cap64 (pn_decrements c') = cap64 (pn_decrements out)"
proof -
  note f = pn_fold_stage_fields[OF assms]
  have split: "bm_sum (\<lambda>r. unat (g r)) (pn_retired out)
      = bm_sum (\<lambda>r. unat (g r)) (bm_retain (\<lambda>_ r. \<not> pn_aged now (fold_age bounds) r) (pn_retired out))
      + bm_sum (\<lambda>r. unat (g r)) (bm_retain (\<lambda>_ r. pn_aged now (fold_age bounds) r) (pn_retired out))" for g
    using bm_sum_retain_split[of "\<lambda>r. unat (g r)" "pn_retired out" "\<lambda>_ r. \<not> pn_aged now (fold_age bounds) r"]
    by simp
  have sat: "unat (sat_add a b) = min (unat a + unat b) (2 ^ 64 - 1)" for a b :: u64
    using unat_sat_add[of a b] by simp
  show "cap64 (pn_increments c') = cap64 (pn_increments out)"
    "cap64 (pn_decrements c') = cap64 (pn_decrements out)"
    unfolding pn_total_def f split sat unat_aged_sum cap64_absorb by simp_all
qed

lemma pn_compact_cases:
  assumes "pn_compact c now retire quiet bounds = Some c'"
  obtains out ch where "pn_retire_stage now retire c = (out, ch)"
    and "c' = out \<or> (\<exists>ag. pn_fold_stage now bounds out = (c', ag))"
  using assms by (auto simp: pn_compact_def Let_def split: prod.splits if_splits)

lemma pn_compact_exact:
  assumes "pn_ok c" and "pn_compact c now retire quiet bounds = Some c'"
  shows "pn_ok c'" and "pn_value c' = pn_value c"
proof -
  obtain out ch where one: "pn_retire_stage now retire c = (out, ch)"
    and two: "c' = out \<or> (\<exists>ag. pn_fold_stage now bounds out = (c', ag))"
    using pn_compact_cases[OF assms(2)] .
  note t = pn_retire_stage_total[OF one assms(1)]
  show "pn_ok c'"
    using two t(3) by (auto simp: pn_ok_def pn_fold_stage_fields(1-3) bm_contains_def bm_get_retain
        split: option.splits if_splits)
  show "pn_value c' = pn_value c"
    using two t by (auto simp: pn_value_capped pn_fold_stage_total)
qed


section \<open>A compacted counter absorbs its own past\<close>

text \<open>
  Merging a compacted counter with the value it was compacted from changes nothing but the
  receipts: a replica that has folded a writer does not count it a second time when a peer that
  has not folded it yet sends its copy.
\<close>

lemma pn_aged_fresh: "\<not> pn_aged now db \<lparr>ret_p = x, ret_n = y, ret_since_ms = now\<rparr>"
  by (simp add: pn_aged_def)

definition pn_folds_writer :: "pn_counter \<Rightarrow> pn_counter \<Rightarrow> writer_id \<Rightarrow> bool" where
  "pn_folds_writer c c' w \<longleftrightarrow> bm_contains (pn_retired c) w \<and> \<not> bm_contains (pn_retired c') w"

lemma pn_compact_view:
  assumes "pn_ok c" and "pn_compact c now retire quiet bounds = Some c'"
  shows "bm_get (pn_p c') w = (if pn_moves retire c w then None else bm_get (pn_p c) w)"
    and "bm_get (pn_n c') w = (if pn_moves retire c w then None else bm_get (pn_n c) w)"
    and "pn_moves retire c w \<Longrightarrow> bm_get (pn_retired c') w =
           Some \<lparr>ret_p = unwrap_or_zero (bm_get (pn_p c) w), ret_n = unwrap_or_zero (bm_get (pn_n c) w),
                 ret_since_ms = now\<rparr>"
    and "\<not> pn_moves retire c w \<Longrightarrow> bm_contains (pn_retired c') w \<Longrightarrow>
           bm_get (pn_retired c') w = bm_get (pn_retired c) w"
    and "pn_folds_writer c c' w \<Longrightarrow> bm_contains (pn_folded_at c') w"
    and "pn_folded_p c' = sat_add (pn_folded_p c) (credit ret_p (pn_folds_writer c c') (pn_retired c))"
    and "pn_folded_n c' = sat_add (pn_folded_n c) (credit ret_n (pn_folds_writer c c') (pn_retired c))"
proof -
  obtain out ch where one: "pn_retire_stage now retire c = (out, ch)"
    and two: "c' = out \<or> (\<exists>ag. pn_fold_stage now bounds out = (c', ag))"
    using pn_compact_cases[OF assms(2)] .
  note g = pn_retire_stage_get[OF one]
  have moved: "bm_get (pn_retired c) w = None" if "pn_moves retire c w" for w
    using that assms(1) by (auto simp: pn_moves_def pn_ok_def bm_contains_def)
  show "bm_get (pn_p c') w = (if pn_moves retire c w then None else bm_get (pn_p c) w)"
    "bm_get (pn_n c') w = (if pn_moves retire c w then None else bm_get (pn_n c) w)"
    using two g by (auto simp: pn_fold_stage_fields(1,2))
  show "pn_moves retire c w \<Longrightarrow> bm_get (pn_retired c') w =
           Some \<lparr>ret_p = unwrap_or_zero (bm_get (pn_p c) w), ret_n = unwrap_or_zero (bm_get (pn_n c) w),
                 ret_since_ms = now\<rparr>"
    using two g by (auto simp: pn_fold_stage_fields(3) bm_get_retain pn_aged_fresh)
  show "\<not> pn_moves retire c w \<Longrightarrow> bm_contains (pn_retired c') w \<Longrightarrow>
           bm_get (pn_retired c') w = bm_get (pn_retired c) w"
    using two g
    by (auto simp: pn_fold_stage_fields(3) bm_get_retain bm_contains_def split: option.splits if_splits)
  show "bm_contains (pn_folded_at c') w" if folds: "pn_folds_writer c c' w"
  proof -
    obtain r where r: "bm_get (pn_retired c) w = Some r" and gone: "bm_get (pn_retired c') w = None"
      using folds by (auto simp: pn_folds_writer_def bm_contains_def)
    have out: "bm_get (pn_retired out) w = Some r" using g(3)[of w] moved[of w] r by auto
    then obtain ag where ag: "pn_fold_stage now bounds out = (c', ag)" using two gone by auto
    have "pn_aged now (fold_age bounds) r"
      using gone out by (simp add: pn_fold_stage_fields(3)[OF ag] bm_get_retain split: if_splits)
    then show ?thesis using pn_fold_stage_fields(6)[OF ag out] by simp
  qed
  have folded: "credit f (pn_folds_writer c c') (pn_retired c) =
      (if c' = out then 0 else aged_sum f now (fold_age bounds) (pn_retired out))" for f
  proof (cases "c' = out")
    case True
    then show ?thesis
      using g moved by (auto intro!: credit_none simp: pn_folds_writer_def bm_contains_def split: if_splits)
  next
    case False
    then obtain ag where ag: "pn_fold_stage now bounds out = (c', ag)" using two by auto
    have "bm_retain (\<lambda>w _. pn_folds_writer c c' w) (pn_retired c)
        = bm_retain (\<lambda>_ r. pn_aged now (fold_age bounds) r) (pn_retired out)"
      using g(3) moved
      by (intro bm_ext) (auto simp: bm_get_retain pn_folds_writer_def pn_fold_stage_fields(3)[OF ag]
          bm_contains_def pn_aged_fresh split: option.splits if_splits)
    then show ?thesis using False by (simp add: credit_def aged_sum_def)
  qed
  show "pn_folded_p c' = sat_add (pn_folded_p c) (credit ret_p (pn_folds_writer c c') (pn_retired c))"
    "pn_folded_n c' = sat_add (pn_folded_n c) (credit ret_n (pn_folds_writer c c') (pn_retired c))"
    using two g(4,5) by (auto simp: folded pn_fold_stage_fields(4,5))
qed


lemma pn_absorb_union:
  assumes "pn_ok c" and "pn_compact c now retire quiet bounds = Some c'"
  shows "bm_get (merged_retired c' c) w =
           (if pn_moves retire c w then bm_get (pn_retired c') w else bm_get (pn_retired c) w)"
    and "bm_contains (merged_retired c' c) w \<Longrightarrow> \<not> already_folded c w"
    and "bm_contains (merged_retired c' c) w \<Longrightarrow> already_folded c' w \<longleftrightarrow> pn_folds_writer c c' w"
proof -
  note v = pn_compact_view[OF assms]
  have moved: "bm_get (pn_retired c) w = None" if "pn_moves retire c w"
    using that assms(1) by (auto simp: pn_moves_def pn_ok_def bm_contains_def)
  have dead: "bm_get (pn_p c) w = None \<and> bm_get (pn_n c) w = None" if "bm_contains (pn_retired c) w"
    using that assms(1) by (auto simp: pn_ok_def bm_contains_def)
  have kept: "bm_contains (pn_retired c) w" if "\<not> pn_moves retire c w" "bm_contains (pn_retired c') w"
    using v(4)[OF that] that by (simp add: bm_contains_def)
  show union: "bm_get (merged_retired c' c) w =
           (if pn_moves retire c w then bm_get (pn_retired c') w else bm_get (pn_retired c) w)"
  proof (cases "pn_moves retire c w")
    case True
    then show ?thesis
      using v(1-3)[of w] moved
      by (simp add: bm_get_merged_retired bm_contains_def merged_retired_entry_def unwrap_or_zero_def)
  next
    case False
    show ?thesis
    proof (cases "bm_get (pn_retired c) w")
      case None
      then have "bm_get (pn_retired c') w = None"
        using False kept by (cases "bm_get (pn_retired c') w") (auto simp: bm_contains_def)
      then show ?thesis using None False by (simp add: bm_get_merged_retired bm_contains_def)
    next
      case (Some r)
      have "bm_get (pn_retired c') w = None \<or> bm_get (pn_retired c') w = Some r"
        using v(4)[OF False] Some by (cases "bm_get (pn_retired c') w") (auto simp: bm_contains_def)
      then show ?thesis
        using False Some dead v(1,2)[of w]
        by (auto simp: bm_get_merged_retired bm_contains_def merged_retired_entry_def unwrap_or_zero_def)
    qed
  qed
  show "\<not> already_folded c w" if "bm_contains (merged_retired c' c) w"
    using that kept by (auto simp: already_folded_def pn_moves_def)
  show "already_folded c' w \<longleftrightarrow> pn_folds_writer c c' w" if "bm_contains (merged_retired c' c) w"
    using that v(1,2,3,5)[of w] moved dead kept union
    by (auto simp: already_folded_def pn_folds_writer_def bm_contains_def split: if_splits)
qed

lemma pn_merge_absorbs_own_past:
  assumes "pn_ok c" and "pn_compact c now retire quiet bounds = Some c'"
  shows "pn_merge c' c = c'\<lparr>pn_folded_at := bm_merge_with max (pn_folded_at c') (pn_folded_at c)\<rparr>"
proof -
  note v = pn_compact_view[OF assms]
  note u = pn_absorb_union[OF assms]
  have moved: "bm_get (pn_retired c) w = None" if "pn_moves retire c w" for w
    using that assms(1) by (auto simp: pn_moves_def pn_ok_def bm_contains_def)
  have kept: "bm_get (pn_retired c') w = bm_get (pn_retired c) w"
    if "\<not> pn_moves retire c w" "\<not> pn_folds_writer c c' w" for w
    using v(4)[OF that(1)] that(2)
    by (cases "bm_get (pn_retired c') w") (auto simp: pn_folds_writer_def bm_contains_def)
  have ret: "pn_retired (pn_merge c' c) = pn_retired c'"
  proof (rule bm_ext)
    fix w
    show "bm_get (pn_retired (pn_merge c' c)) w = bm_get (pn_retired c') w"
    proof (cases "bm_get (merged_retired c' c) w")
      case None
      moreover have "\<not> pn_folds_writer c c' w"
        using None moved[of w] by (auto simp: u(1) pn_folds_writer_def bm_contains_def split: if_splits)
      ultimately show ?thesis
        using kept[of w] by (auto simp: pn_merge_fields(1) bm_get_retain u(1) split: if_splits)
    next
      case (Some r)
      then have "already_folded c' w \<longleftrightarrow> pn_folds_writer c c' w" "\<not> already_folded c w"
        using u(2,3)[of w] by (simp_all add: bm_contains_def)
      then show ?thesis
        using Some kept[of w] moved[of w]
        by (auto simp: pn_merge_fields(1) bm_get_retain u(1) pn_folds_writer_def bm_contains_def
            split: if_splits)
    qed
  qed
  have none: "credit f (only_folded c c') (merged_retired c' c) = 0" for f
    using u(2) by (intro credit_none) (simp add: only_folded_def)
  have "bm_retain (\<lambda>w _. only_folded c' c w) (merged_retired c' c)
      = bm_retain (\<lambda>w _. pn_folds_writer c c' w) (pn_retired c)"
  proof (rule bm_ext)
    fix w
    have "only_folded c' c w \<longleftrightarrow> pn_folds_writer c c' w" if "bm_contains (merged_retired c' c) w"
      using u(2,3)[OF that] by (simp add: only_folded_def)
    then show "bm_get (bm_retain (\<lambda>w _. only_folded c' c w) (merged_retired c' c)) w
        = bm_get (bm_retain (\<lambda>w _. pn_folds_writer c c' w) (pn_retired c)) w"
      using moved[of w]
      by (auto simp: bm_get_retain u(1) bm_contains_def pn_folds_writer_def split: option.splits)
  qed
  then have folds: "credit f (only_folded c' c) (merged_retired c' c) = credit f (pn_folds_writer c c') (pn_retired c)" for f
    by (simp add: credit_def)
  have dead: "bm_get (pn_p c) w = None \<and> bm_get (pn_n c) w = None" if "bm_contains (pn_retired c') w" "\<not> pn_moves retire c w" for w
    using v(4)[of w] that assms(1) by (auto simp: pn_ok_def bm_contains_def)
  have absorb: "bm_get (pointwise_max_excluding x y (pn_retired c')) w = bm_get x w"
    if "\<And>w. bm_get x w = (if pn_moves retire c w then None else bm_get y w)"
      and "\<And>w. bm_contains (pn_retired c') w \<Longrightarrow> \<not> pn_moves retire c w \<Longrightarrow> bm_get y w = None" for x y :: "(writer_id, u64) btree_map" and w
  proof (cases "pn_moves retire c w")
    case True
    then have "bm_contains (pn_retired c') w" using v(3) by (simp add: bm_contains_def)
    then show ?thesis using that(1)[of w] True by (simp add: bm_get_pointwise_max_excluding)
  next
    case False
    then show ?thesis
      using that(1)[of w] that(2)[of w]
      by (auto simp: bm_get_pointwise_max_excluding bm_get_merge_with split: option.splits)
  qed
  have sides: "pn_p (pn_merge c' c) = pn_p c'" "pn_n (pn_merge c' c) = pn_n c'"
    unfolding pn_merge_fields(2,3) ret
    by (rule bm_ext, rule absorb, use v(1,2) dead in auto)+
  show ?thesis
    by (intro pn_counter.equality)
      (simp_all add: ret sides none folds pn_merge_fields(4-6) v(6,7))
qed

lemma pn_total_folded_at [simp]: "pn_total a b g (c\<lparr>pn_folded_at := m\<rparr>) = pn_total a b g c"
  if "\<And>c m. a (c\<lparr>pn_folded_at := m\<rparr>) = a c" "\<And>c m. g (c\<lparr>pn_folded_at := m\<rparr>) = g c"
  using that by (simp add: pn_total_def)

lemma pn_value_folded_at [simp]: "pn_value (c\<lparr>pn_folded_at := m\<rparr>) = pn_value c"
  by (simp add: pn_value_capped)

definition demo_counter :: pn_counter where
  "demo_counter = pn_merge (local_delta (WriterId (NodeId 1) 0) 30) (local_decrement (WriterId (NodeId 2) 0) 12)"

lemma demo_counter_facts:
  "pn_ok demo_counter" "pn_value demo_counter = 18"
  "\<exists>c'. pn_compact demo_counter 1000 (\<lambda>w. writer_node w = NodeId 1) Settled \<lparr>retire_after_ms = 10, receipt_ttl_ms = 30\<rparr> = Some c'"
proof -
  show "pn_ok demo_counter"
    unfolding demo_counter_def
    by (rule pn_ok_merge)
  show "pn_value demo_counter = 18" by code_simp
  have "pn_compact demo_counter 1000 (\<lambda>w. writer_node w = NodeId 1) Settled \<lparr>retire_after_ms = 10, receipt_ttl_ms = 30\<rparr> \<noteq> None" by code_simp
  then show "\<exists>c'. pn_compact demo_counter 1000 (\<lambda>w. writer_node w = NodeId 1) Settled \<lparr>retire_after_ms = 10, receipt_ttl_ms = 30\<rparr> = Some c'" by simp
qed

section \<open>Properties\<close>

text \<open>
  The merge of two counters does not depend on which side runs it, retired and folded
  writers included.
\<close>

theorem pn_merge_commutative: "pn_merge a b = pn_merge b a"
  by (rule pn_merge_commutes)

text \<open>
  Before any writer is retired the counter is a state-based CRDT: replicas that merge the
  same counters, in any order and with any duplication, end in the same state.
\<close>

theorem pn_state_converges:
  assumes "set (x # xs) = set (y # ys)" and "\<forall>z \<in> set (x # xs). pn_unretired z"
  shows "foldl pn_merge x xs = foldl pn_merge y ys"
  by (rule pn_live.fold_converges[OF assms])

theorem pn_state_converges_witness:
  "foldl pn_merge (local_delta (WriterId (NodeId 1) 0) 3) [local_decrement (WriterId (NodeId 2) 0) 5]
     = foldl pn_merge (local_decrement (WriterId (NodeId 2) 0) 5)
         [local_delta (WriterId (NodeId 1) 0) 3, local_decrement (WriterId (NodeId 2) 0) 5]"
  by (rule pn_state_converges) (auto simp: pn_unretired_def local_delta_def local_decrement_def pn_default_def)

text \<open>
  C20: no writer is live and retired at once: every merge establishes it, compaction and receipt
  pruning keep it, and on such counters merge is idempotent.
\<close>

theorem pn_invariant_kept:
  assumes "pn_ok a"
  shows "pn_ok (pn_merge a b) \<and> pn_merge a a = a \<and>
    (\<forall>now retire quiet bounds c. pn_compact a now retire quiet bounds = Some c \<longrightarrow> pn_ok c) \<and>
    (\<forall>now ttl c. pn_prune_receipts a now ttl = Some c \<longrightarrow> pn_ok c)"
  using assms pn_compact_exact(1)[OF assms] pn_ok_merge[of a b] pn_merge_idempotent[of a]
  by (auto simp: pn_prune_receipts_def pn_ok_def split: if_splits)

theorem pn_invariant_kept_witness:
  "pn_merge (local_delta (WriterId (NodeId 1) 0) 3) (local_delta (WriterId (NodeId 1) 0) 3)
     = local_delta (WriterId (NodeId 1) 0) 3"
proof -
  have ok: "pn_ok (local_delta (WriterId (NodeId 1) 0) 3)"
    by (simp add: pn_ok_def local_delta_def pn_default_def)
  show ?thesis using pn_invariant_kept[OF ok] by blast
qed

text \<open>
  Compaction is exact: retiring and folding writers never changes the counter's value, not
  even at the saturation bounds.
\<close>

theorem pn_compact_keeps_value:
  assumes "pn_ok c" and "pn_compact c now retire quiet bounds = Some c'"
  shows "pn_value c' = pn_value c"
  by (rule pn_compact_exact(2)[OF assms])

theorem pn_compact_keeps_value_witness:
  "\<exists>c'. pn_compact demo_counter 1000 (\<lambda>w. writer_node w = NodeId 1) Settled \<lparr>retire_after_ms = 10, receipt_ttl_ms = 30\<rparr> = Some c' \<and>
     pn_value c' = 18"
  using demo_counter_facts pn_compact_keeps_value by (metis (no_types))

text \<open>
  A replica that has compacted a counter and then merges the uncompacted copy a peer still
  holds counts no writer twice and loses none: its value, and its live and retired totals, are
  what they were.
\<close>

theorem pn_merge_with_own_past:
  assumes "pn_ok c" and "pn_compact c now retire quiet bounds = Some c'"
  shows "pn_value (pn_merge c' c) = pn_value c \<and> pn_p (pn_merge c' c) = pn_p c' \<and>
    pn_n (pn_merge c' c) = pn_n c' \<and> pn_retired (pn_merge c' c) = pn_retired c'"
  using pn_merge_absorbs_own_past[OF assms] pn_compact_exact(2)[OF assms] by simp

theorem pn_merge_with_own_past_witness:
  "\<exists>c'. pn_compact demo_counter 1000 (\<lambda>w. writer_node w = NodeId 1) Settled \<lparr>retire_after_ms = 10, receipt_ttl_ms = 30\<rparr> = Some c' \<and>
     pn_value (pn_merge c' demo_counter) = 18"
  using demo_counter_facts pn_merge_with_own_past by (metis (no_types))

end
