(* ===== verification/Or_Set.thy ===== *)
theory Or_Set
  imports Resolver "HOL-Library.Product_Lexorder"
begin

text \<open>
  The observed-remove set of \<^verbatim>\<open>sundog/src/store/crdt/or_set.rs\<close>: tagged adds, the per-writer
  watermark a remove raises, the two-stage retirement of dead writers, the merge with its
  deadness rule, and the resolver over an arbitrary codec.
\<close>

section \<open>State\<close>

type_synonym tag = "writer_id \<times> u64"

record 'a or_set =
  or_adds :: "(tag, 'a) btree_map"
  or_seen :: "(writer_id, u64) btree_map"
  or_retired :: "(writer_id, u64) btree_map"
  or_folded_at :: "(writer_id, u64) btree_map"

section \<open>Reading, adding and removing\<close>

definition or_iter :: "'a or_set \<Rightarrow> 'a list" where
  "or_iter s = bm_values (or_adds s)"

definition or_contains :: "'a or_set \<Rightarrow> 'a \<Rightarrow> bool" where
  "or_contains s element = list_ex (\<lambda>live. live = element) (or_iter s)"

definition or_add :: "writer_id \<Rightarrow> u64 \<Rightarrow> 'a \<Rightarrow> 'a or_set" where
  "or_add writer seq element =
     \<lparr>or_adds = bm_of_list [((writer, seq), element)], or_seen = bm_empty,
      or_retired = bm_empty, or_folded_at = bm_empty\<rparr>"

definition or_touched :: "'a or_set \<Rightarrow> 'a \<Rightarrow> writer_id list" where
  "or_touched observed element =
     btree_set (map (\<lambda>((writer, _), _). writer) (filter (\<lambda>(_, e). e = element) (bm_entries (or_adds observed))))"

text \<open>One turn of the loop over \<open>observed.adds\<close> in \<open>OrSet::remove\<close>.\<close>

definition or_remove_step ::
  "writer_id list \<Rightarrow> 'a \<Rightarrow> tag \<times> 'a
     \<Rightarrow> (writer_id, u64) btree_map \<times> (tag, 'a) btree_map
     \<Rightarrow> (writer_id, u64) btree_map \<times> (tag, 'a) btree_map" where
  "or_remove_step touched element = (\<lambda>((writer, seq), e) (seen, adds).
     if writer \<notin> set touched then (seen, adds)
     else (bm_upsert (\<lambda>m. max m seq) writer seq seen,
           if e \<noteq> element then bm_insert (writer, seq) e adds else adds))"

definition or_remove :: "'a or_set \<Rightarrow> 'a \<Rightarrow> 'a or_set" where
  "or_remove observed element =
     (let touched = or_touched observed element;
          (seen, adds) = fold (or_remove_step touched element) (bm_entries (or_adds observed)) (bm_empty, bm_empty)
      in \<lparr>or_adds = adds, or_seen = seen, or_retired = bm_empty, or_folded_at = bm_empty\<rparr>)"

section \<open>Merge\<close>

definition or_merge_seen :: "'a or_set \<Rightarrow> 'a or_set \<Rightarrow> (writer_id, u64) btree_map" where
  "or_merge_seen s t =
     fold (\<lambda>w m. bm_insert w (max (map_or 0 (\<lambda>v. v) (bm_get (or_seen s) w))
                                  (map_or 0 (\<lambda>v. v) (bm_get (or_seen t) w))) m)
       (bm_keys (or_seen s) @ bm_keys (or_seen t)) bm_empty"

definition or_dropped_by :: "'a or_set \<Rightarrow> writer_id \<Rightarrow> bool" where
  "or_dropped_by side w \<longleftrightarrow>
     \<not> bm_contains (or_seen side) w \<and> \<not> bm_contains (or_retired side) w \<and> bm_contains (or_folded_at side) w"

text \<open>The \<open>retired.retain\<close> closure's effect on \<open>seen\<close>, entry by entry.\<close>

definition or_drop_step ::
  "'a or_set \<Rightarrow> 'a or_set \<Rightarrow> writer_id \<times> u64 \<Rightarrow> (writer_id, u64) btree_map \<Rightarrow> (writer_id, u64) btree_map" where
  "or_drop_step s t = (\<lambda>(w, _) seen. if or_dropped_by s w \<or> or_dropped_by t w then bm_remove w seen else seen)"

definition or_is_dead_by :: "'a or_set \<Rightarrow> writer_id \<Rightarrow> u64 \<Rightarrow> bool \<Rightarrow> bool" where
  "or_is_dead_by side writer seq in_side_adds \<longleftrightarrow>
     \<not> in_side_adds \<and>
     (bm_contains (or_retired side) writer \<or> bm_contains (or_folded_at side) writer \<or>
      is_some_and (\<lambda>watermark. seq \<le> watermark) (bm_get (or_seen side) writer))"

definition or_keep :: "'a or_set \<Rightarrow> 'a or_set \<Rightarrow> tag \<Rightarrow> bool" where
  "or_keep s t tg =
     (let in_self = bm_contains (or_adds s) tg; in_other = bm_contains (or_adds t) tg
      in if in_self \<and> in_other then True
         else if in_self then \<not> or_is_dead_by t (fst tg) (snd tg) in_other
         else \<not> or_is_dead_by s (fst tg) (snd tg) in_self)"

definition or_merge_adds :: "'a or_set \<Rightarrow> 'a or_set \<Rightarrow> (tag, 'a) btree_map" where
  "or_merge_adds s t =
     fold (\<lambda>(tg, element) adds.
             if bm_contains adds tg then adds
             else if or_keep s t tg then bm_insert tg element adds else adds)
       (bm_entries (or_adds s) @ bm_entries (or_adds t)) bm_empty"

definition or_merge :: "'a or_set \<Rightarrow> 'a or_set \<Rightarrow> 'a or_set" where
  "or_merge s t =
     (let retired = bm_merge_with min (or_retired s) (or_retired t);
          seen = or_merge_seen s t;
          folded_at = bm_merge_with max (or_folded_at s) (or_folded_at t);
          seen = fold (or_drop_step s t) (bm_entries retired) seen;
          retired = bm_retain (\<lambda>w _. \<not> (or_dropped_by s w \<or> or_dropped_by t w)) retired
      in \<lparr>or_adds = or_merge_adds s t, or_seen = seen, or_retired = retired, or_folded_at = folded_at\<rparr>)"

section \<open>Compaction\<close>

definition or_prune_receipts :: "'a or_set \<Rightarrow> u64 \<Rightarrow> u64 \<Rightarrow> 'a or_set option" where
  "or_prune_receipts s now_ms receipt_ttl =
     (if \<not> list_ex (\<lambda>stamp. receipt_expired now_ms stamp receipt_ttl) (bm_values (or_folded_at s)) then None
      else Some (s\<lparr>or_folded_at :=
                    bm_retain (\<lambda>_ stamp. \<not> receipt_expired now_ms stamp receipt_ttl) (or_folded_at s)\<rparr>))"

definition or_writers :: "'a or_set \<Rightarrow> writer_id list" where
  "or_writers s = btree_set (map fst (bm_keys (or_adds s)) @ bm_keys (or_seen s))"

definition or_retire_step ::
  "u64 \<Rightarrow> (writer_id \<Rightarrow> bool) \<Rightarrow> writer_id
     \<Rightarrow> (writer_id, u64) btree_map \<times> bool \<Rightarrow> (writer_id, u64) btree_map \<times> bool" where
  "or_retire_step now_ms retire w = (\<lambda>(retired, changed).
     if retire w \<and> \<not> bm_contains retired w then (bm_insert w now_ms retired, True) else (retired, changed))"

definition or_aged :: "u64 \<Rightarrow> u64 \<Rightarrow> u64 \<Rightarrow> bool" where
  "or_aged now_ms double_bound since_ms \<longleftrightarrow> double_bound < sat_sub now_ms since_ms"

definition or_fold_step ::
  "u64 \<Rightarrow> u64 \<Rightarrow> writer_id \<times> u64
     \<Rightarrow> (writer_id, u64) btree_map \<times> (writer_id, u64) btree_map \<times> bool
     \<Rightarrow> (writer_id, u64) btree_map \<times> (writer_id, u64) btree_map \<times> bool" where
  "or_fold_step now_ms double_bound = (\<lambda>(w, since_ms) (seen, folded_at, aged_any).
     if or_aged now_ms double_bound since_ms
     then (bm_remove w seen, bm_upsert (\<lambda>stamp. max stamp now_ms) w now_ms folded_at, True)
     else (seen, folded_at, aged_any))"

definition or_fold_stage :: "u64 \<Rightarrow> compaction_bounds \<Rightarrow> 'a or_set \<Rightarrow> 'a or_set \<times> bool" where
  "or_fold_stage now_ms bounds out =
     (let double_bound = sat_mul (retire_after_ms bounds) 2;
          (out, aged_any) = (case or_prune_receipts out now_ms (receipt_ttl_ms bounds) of
                               None \<Rightarrow> (out, False) | Some pruned \<Rightarrow> (pruned, True));
          (seen, folded_at, aged_any) =
            fold (or_fold_step now_ms double_bound) (bm_entries (or_retired out))
              (or_seen out, or_folded_at out, aged_any)
      in (out\<lparr>or_retired := bm_retain (\<lambda>_ since_ms. \<not> or_aged now_ms double_bound since_ms) (or_retired out),
              or_seen := seen, or_folded_at := folded_at\<rparr>, aged_any))"

definition or_compact ::
  "'a or_set \<Rightarrow> u64 \<Rightarrow> compaction_bounds \<Rightarrow> (writer_id \<Rightarrow> bool) \<Rightarrow> quiescence \<Rightarrow> 'a or_set option" where
  "or_compact s now_ms bounds retire quiet =
     (let (retired, changed) = fold (or_retire_step now_ms retire) (or_writers s) (or_retired s, False);
          out = s\<lparr>or_retired := retired\<rparr>;
          (out, changed) = (if is_settled quiet
                            then (let (out', aged_any) = or_fold_stage now_ms bounds out
                                  in (out', changed \<or> aged_any))
                            else (out, changed))
      in if changed then Some out else None)"

section \<open>The resolver\<close>

text \<open>postcard is an argument: \<open>to_vec\<close> and \<open>from_vec\<close> may fail.\<close>

definition or_resolver_merge ::
  "('a or_set \<Rightarrow> bytes option) \<Rightarrow> (bytes \<Rightarrow> 'a or_set option) \<Rightarrow> bytes \<Rightarrow> record_view \<Rightarrow> record_view \<Rightarrow> merged option" where
  "or_resolver_merge to_vec from_vec key a b =
     (case (view_value a, view_value b) of
        (Some av, Some bv) \<Rightarrow>
          (case (from_vec av, from_vec bv) of
             (Some sa, Some sb) \<Rightarrow>
               (case to_vec (or_merge sa sb) of
                  None \<Rightarrow> None
                | Some bs \<Rightarrow> Some \<lparr>merged_value = bs,
                                  merged_expires = later_deadline (view_expires a) (view_expires b)\<rparr>)
           | _ \<Rightarrow> None)
      | _ \<Rightarrow> None)"

definition or_set_resolver ::
  "('a or_set \<Rightarrow> bytes option) \<Rightarrow> (bytes \<Rightarrow> 'a or_set option) \<Rightarrow> conflict_resolver" where
  "or_set_resolver to_vec from_vec =
     (default_methods winner_by_version)\<lparr>
        cr_merges := True,
        cr_merge := or_resolver_merge to_vec from_vec,
        cr_compact := (\<lambda>key value now_ms retire quiet bounds.
          Option.bind (from_vec value) (\<lambda>s.
          Option.bind (or_compact s now_ms bounds retire quiet) to_vec)),
        cr_settle := (\<lambda>key value now_ms receipt_ttl.
          Option.bind (from_vec value) (\<lambda>s.
          Option.bind (or_prune_receipts s now_ms receipt_ttl) to_vec))\<rparr>"

section \<open>Merge, read back field by field\<close>

definition or_dead :: "tag \<Rightarrow> 'a or_set \<Rightarrow> bool" where
  "or_dead tg s \<longleftrightarrow> or_is_dead_by s (fst tg) (snd tg) False"

lemma or_dead_iff:
  "or_dead tg s \<longleftrightarrow> bm_contains (or_retired s) (fst tg) \<or> bm_contains (or_folded_at s) (fst tg) \<or>
     (\<exists>m. bm_get (or_seen s) (fst tg) = Some m \<and> snd tg \<le> m)"
  by (auto simp: or_dead_def or_is_dead_by_def is_some_and_def split: option.splits)

lemma or_keep_iff:
  assumes "bm_contains (or_adds s) tg \<or> bm_contains (or_adds t) tg"
  shows "or_keep s t tg \<longleftrightarrow>
    (bm_contains (or_adds s) tg \<or> \<not> or_dead tg s) \<and> (bm_contains (or_adds t) tg \<or> \<not> or_dead tg t)"
  using assms by (auto simp: or_keep_def or_dead_def or_is_dead_by_def)

lemma bm_get_fold_keep:
  "bm_get (fold (\<lambda>(k, v) m. if bm_contains m k then m else if P k then bm_insert k v m else m) xs m) k =
     (case bm_get m k of Some v \<Rightarrow> Some v | None \<Rightarrow> if P k then map_of xs k else None)"
proof (induction xs arbitrary: m)
  case (Cons x xs)
  obtain a v where x: "x = (a, v)" by force
  show ?case unfolding fold_Cons comp_def Cons.IH x
    by (cases "k = a"; cases "bm_get m a") (auto simp: bm_contains_def split: option.splits)
qed (simp split: option.splits)

lemma bm_get_or_merge_adds:
  "bm_get (or_merge_adds s t) tg =
     (if or_keep s t tg
      then case bm_get (or_adds s) tg of Some e \<Rightarrow> Some e | None \<Rightarrow> bm_get (or_adds t) tg else None)"
  unfolding or_merge_adds_def bm_get_fold_keep bm_get_empty
  by (auto simp: map_add_def bm_get_def split: option.splits)

lemma bm_get_fold_insert:
  "bm_get (fold (\<lambda>w m. bm_insert w (f w) m) ws m) w = (if w \<in> set ws then Some (f w) else bm_get m w)"
  by (induction ws arbitrary: m) auto

lemma or_merge_seen_max: "or_merge_seen s t = bm_merge_with max (or_seen s) (or_seen t)"
proof (rule bm_ext)
  show "bm_get (or_merge_seen s t) w = bm_get (bm_merge_with max (or_seen s) (or_seen t)) w" for w
    unfolding or_merge_seen_def bm_get_fold_insert
    by (cases "bm_get (or_seen s) w"; cases "bm_get (or_seen t) w")
      (auto simp: set_bm_keys bm_contains_def bm_get_merge_with map_or_def)
qed

lemma fold_or_drop_step:
  "fold (or_drop_step s t) xs seen =
     bm_retain (\<lambda>w _. \<not> (w \<in> fst ` set xs \<and> (or_dropped_by s w \<or> or_dropped_by t w))) seen"
proof (induction xs arbitrary: seen)
  case Nil
  then show ?case by (simp add: bm_retain_id)
next
  case (Cons x xs)
  show ?case
    unfolding fold_Cons comp_def Cons.IH
    by (rule bm_ext) (auto simp: or_drop_step_def bm_get_retain split: prod.splits option.splits)
qed

definition or_drops :: "'a or_set \<Rightarrow> 'a or_set \<Rightarrow> writer_id \<Rightarrow> bool" where
  "or_drops s t w \<longleftrightarrow> (bm_contains (or_retired s) w \<or> bm_contains (or_retired t) w) \<and>
     (or_dropped_by s w \<or> or_dropped_by t w)"

lemma or_merge_fields:
  "or_adds (or_merge s t) = or_merge_adds s t"
  "or_seen (or_merge s t) = bm_retain (\<lambda>w _. \<not> or_drops s t w) (bm_merge_with max (or_seen s) (or_seen t))"
  "or_retired (or_merge s t) = bm_retain (\<lambda>w _. \<not> or_drops s t w) (bm_merge_with min (or_retired s) (or_retired t))"
  "or_folded_at (or_merge s t) = bm_merge_with max (or_folded_at s) (or_folded_at t)"
proof -
  have keys: "w \<in> fst ` set (bm_entries m) \<longleftrightarrow> bm_contains m w" for w and m :: "(writer_id, u64) btree_map"
    using set_bm_keys[of m] by (auto simp: bm_keys_def)
  show "or_adds (or_merge s t) = or_merge_adds s t"
    "or_folded_at (or_merge s t) = bm_merge_with max (or_folded_at s) (or_folded_at t)"
    by (simp_all add: or_merge_def Let_def)
  show "or_seen (or_merge s t) = bm_retain (\<lambda>w _. \<not> or_drops s t w) (bm_merge_with max (or_seen s) (or_seen t))"
    by (simp add: or_merge_def Let_def or_merge_seen_max fold_or_drop_step keys or_drops_def conj_disj_distribR)
  have "bm_contains (bm_merge_with min (or_retired s) (or_retired t)) w \<Longrightarrow>
      or_dropped_by s w \<or> or_dropped_by t w \<longleftrightarrow> or_drops s t w" for w
    by (simp add: or_drops_def)
  then show "or_retired (or_merge s t) = bm_retain (\<lambda>w _. \<not> or_drops s t w) (bm_merge_with min (or_retired s) (or_retired t))"
    by (intro bm_ext) (auto simp: or_merge_def Let_def bm_get_retain bm_contains_def split: option.splits)
qed

section \<open>The tag lattice\<close>

text \<open>
  What a replica knows of a tag climbs a chain: unknown, added, added and covered by a later
  watermark that spared it, removed. Merging takes the higher of the two, whatever else the
  replicas hold, so the members of the merge do not depend on the order or the number of
  deliveries.
\<close>

definition or_rank :: "tag \<Rightarrow> 'a or_set \<Rightarrow> nat" where
  "or_rank tg s =
     (if bm_contains (or_adds s) tg then (if or_dead tg s then 2 else 1)
      else if or_dead tg s then 3 else 0)"

lemma or_rank_contains: "bm_contains (or_adds s) tg \<longleftrightarrow> or_rank tg s = 1 \<or> or_rank tg s = 2"
  by (simp add: or_rank_def)

lemma or_dead_merge: "or_dead tg (or_merge s t) \<longleftrightarrow> or_dead tg s \<or> or_dead tg t"
proof (cases "or_drops s t (fst tg)")
  case True
  then have "or_dead tg (or_merge s t)" "or_dead tg s \<or> or_dead tg t"
    by (auto simp: or_dead_iff or_merge_fields or_drops_def or_dropped_by_def)
  then show ?thesis by simp
next
  case False
  then show ?thesis
    by (cases "bm_get (or_seen s) (fst tg)"; cases "bm_get (or_seen t) (fst tg)")
      (auto simp: or_dead_iff or_merge_fields bm_get_retain bm_get_merge_with bm_contains_def le_max_iff_disj
        split: option.splits)
qed

lemma or_adds_merge:
  "bm_contains (or_adds (or_merge s t)) tg \<longleftrightarrow>
     (bm_contains (or_adds s) tg \<or> bm_contains (or_adds t) tg) \<and>
     (bm_contains (or_adds s) tg \<or> \<not> or_dead tg s) \<and> (bm_contains (or_adds t) tg \<or> \<not> or_dead tg t)"
proof (cases "bm_contains (or_adds s) tg \<or> bm_contains (or_adds t) tg")
  case True
  then show ?thesis
    using or_keep_iff[OF True]
    by (auto simp: or_merge_fields bm_contains_def bm_get_or_merge_adds split: option.splits)
next
  case False
  then show ?thesis
    by (auto simp: or_merge_fields bm_contains_def bm_get_or_merge_adds)
qed

lemma or_rank_merge: "or_rank tg (or_merge s t) = max (or_rank tg s) (or_rank tg t)"
  by (auto simp: or_rank_def or_adds_merge or_dead_merge)

interpretation or_tags: ranked_join or_merge or_rank
  by unfold_locales (rule or_rank_merge)

section \<open>Merge laws\<close>

text \<open>
  A tag names one add, so replicas agree on its element: \<open>or_agrees elem\<close> says that the adds
  of a set are those the writers made.
\<close>

definition or_agrees :: "(tag \<Rightarrow> 'a) \<Rightarrow> 'a or_set \<Rightarrow> bool" where
  "or_agrees elem s \<longleftrightarrow> (\<forall>tg e. bm_get (or_adds s) tg = Some e \<longrightarrow> e = elem tg)"

lemma or_agrees_get:
  "or_agrees elem s \<Longrightarrow> bm_get (or_adds s) tg = (if bm_contains (or_adds s) tg then Some (elem tg) else None)"
  by (cases tg; cases "bm_get (or_adds s) tg") (auto simp: or_agrees_def bm_contains_def)

lemma or_agrees_merge:
  assumes "or_agrees elem s" and "or_agrees elem t"
  shows "or_agrees elem (or_merge s t)"
  using assms
  by (auto simp: or_agrees_def or_merge_fields bm_get_or_merge_adds split: option.splits if_splits)

lemma or_agrees_adds_eq:
  assumes "or_agrees elem s" and "or_agrees elem t" and "\<And>tg. or_rank tg s = or_rank tg t"
  shows "or_adds s = or_adds t"
proof (rule bm_ext)
  fix tg
  have "bm_contains (or_adds s) tg = bm_contains (or_adds t) tg"
    using assms(3) by (simp add: or_rank_contains)
  then show "bm_get (or_adds s) tg = bm_get (or_adds t) tg"
    by (simp add: or_agrees_get[OF assms(1)] or_agrees_get[OF assms(2)])
qed

lemma or_agrees_fold:
  assumes "\<forall>z \<in> set (x # xs). or_agrees elem z"
  shows "or_agrees elem (foldl or_merge x xs)"
  using assms by (induction xs arbitrary: x) (simp_all add: or_agrees_merge)

lemma or_drops_commute: "or_drops s t = or_drops t s"
  by (auto simp: or_drops_def fun_eq_iff)

lemma or_merge_commute:
  assumes "or_agrees elem s" and "or_agrees elem t"
  shows "or_merge s t = or_merge t s"
proof (rule or_set.equality)
  show "or_adds (or_merge s t) = or_adds (or_merge t s)"
    using assms by (intro or_agrees_adds_eq[of elem] or_agrees_merge) (auto simp: or_rank_merge max.commute)
  show "or_seen (or_merge s t) = or_seen (or_merge t s)"
    unfolding or_merge_fields or_drops_commute[of s] by (subst bm_merge_with_commute) (auto simp: max.commute)
  show "or_retired (or_merge s t) = or_retired (or_merge t s)"
    unfolding or_merge_fields or_drops_commute[of s] by (subst bm_merge_with_commute) (auto simp: min.commute)
  show "or_folded_at (or_merge s t) = or_folded_at (or_merge t s)"
    unfolding or_merge_fields by (rule bm_merge_with_commute) (rule max.commute)
qed simp

lemma or_merge_idem: "or_merge s s = s"
proof (rule or_set.equality)
  have no: "\<not> or_drops s s w" for w by (auto simp: or_drops_def or_dropped_by_def)
  show "or_adds (or_merge s s) = or_adds s"
    unfolding or_merge_fields
    by (rule bm_ext) (auto simp: bm_get_or_merge_adds or_keep_def bm_contains_def split: option.splits)
  show "or_seen (or_merge s s) = or_seen s" "or_retired (or_merge s s) = or_retired s"
    "or_folded_at (or_merge s s) = or_folded_at s"
    unfolding or_merge_fields by (simp_all add: no bm_merge_with_idem bm_retain_id)
qed simp

text \<open>Before any writer is retired the whole state converges, byte for byte.\<close>

definition or_unretired :: "(tag \<Rightarrow> 'a) \<Rightarrow> 'a or_set \<Rightarrow> bool" where
  "or_unretired elem s \<longleftrightarrow> or_agrees elem s \<and> or_retired s = bm_empty"

lemma or_merge_unretired:
  assumes "or_unretired elem s" and "or_unretired elem t"
  shows "or_merge s t = \<lparr>or_adds = or_merge_adds s t, or_seen = bm_merge_with max (or_seen s) (or_seen t),
    or_retired = bm_empty, or_folded_at = bm_merge_with max (or_folded_at s) (or_folded_at t)\<rparr>"
proof -
  have no: "\<not> or_drops s t w" for w using assms by (simp add: or_drops_def or_unretired_def)
  show ?thesis
    using assms by (intro or_set.equality) (simp_all add: or_merge_fields no bm_retain_id or_unretired_def)
qed

lemma or_unretired_merge:
  assumes "or_unretired elem s" and "or_unretired elem t"
  shows "or_unretired elem (or_merge s t)"
proof -
  have "or_retired (or_merge s t) = bm_empty" by (simp add: or_merge_unretired[OF assms])
  then show ?thesis using assms by (simp add: or_unretired_def or_agrees_merge)
qed

interpretation or_live: join_on "or_unretired elem" or_merge for elem :: "tag \<Rightarrow> 'a"
proof unfold_locales
  fix x y z :: "'a or_set"
  assume ok: "or_unretired elem x" "or_unretired elem y" "or_unretired elem z"
  note xy = or_unretired_merge[OF ok(1,2)] and yz = or_unretired_merge[OF ok(2,3)]
  have assoc: "bm_merge_with max (bm_merge_with max u v) w = bm_merge_with max u (bm_merge_with max v w)"
    for u v w :: "(writer_id, u64) btree_map"
    by (rule bm_merge_with_assoc) (rule max.assoc)
  have "or_adds (or_merge (or_merge x y) z) = or_adds (or_merge x (or_merge y z))"
    using ok xy yz
    by (intro or_agrees_adds_eq[of elem] or_agrees_merge) (auto simp: or_rank_merge max.assoc or_unretired_def)
  then show "or_merge (or_merge x y) z = or_merge x (or_merge y z)"
    by (intro or_set.equality)
      (simp_all add: or_merge_unretired[OF xy ok(3)] or_merge_unretired[OF ok(1) yz],
       simp_all add: or_merge_unretired[OF ok(1,2)] or_merge_unretired[OF ok(2,3)] assoc)
qed (auto intro: or_unretired_merge or_merge_commute[of elem] simp: or_merge_idem, auto simp: or_unretired_def intro: or_merge_commute)

section \<open>Removal\<close>

definition or_touches :: "'a or_set \<Rightarrow> 'a \<Rightarrow> writer_id \<Rightarrow> bool" where
  "or_touches s e w \<longleftrightarrow> (\<exists>seq. bm_get (or_adds s) (w, seq) = Some e)"

lemma or_touched_iff: "w \<in> set (or_touched s e) \<longleftrightarrow> or_touches s e w"
  by (force simp: or_touched_def or_touches_def in_bm_entries_iff[symmetric])

lemma fold_or_remove_step_adds:
  assumes "distinct (map fst xs)"
  shows "bm_get (snd (fold (or_remove_step ws e) xs (seen, adds))) tg =
    (case map_of xs tg of Some x \<Rightarrow> if fst tg \<in> set ws \<and> x \<noteq> e then Some x else bm_get adds tg
     | None \<Rightarrow> bm_get adds tg)"
  using assms
proof (induction xs arbitrary: seen adds)
  case (Cons x xs)
  obtain w seq v where x: "x = ((w, seq), v)" by (metis prod.collapse)
  have fresh: "map_of xs (w, seq) = None" using Cons.prems by (simp add: x map_of_eq_None_iff)
  have d: "distinct (map fst xs)" using Cons.prems by simp
  obtain seen' adds' where st: "or_remove_step ws e x (seen, adds) = (seen', adds')" by force
  then have "adds' = (if w \<in> set ws \<and> v \<noteq> e then bm_insert (w, seq) v adds else adds)"
    by (auto simp: x or_remove_step_def split: if_splits)
  then show ?case
    unfolding fold_Cons comp_def st Cons.IH[OF d]
    using fresh by (cases "tg = (w, seq)") (auto simp: x split: option.splits)
qed simp

lemma fold_or_remove_step_seen:
  "((w, seq), v) \<in> set xs \<and> w \<in> set ws \<or> (\<exists>m. bm_get seen w = Some m \<and> seq \<le> m) \<Longrightarrow>
   \<exists>m. bm_get (fst (fold (or_remove_step ws e) xs (seen, adds))) w = Some m \<and> seq \<le> m"
proof (induction xs arbitrary: seen adds)
  case (Cons x xs)
  obtain w' seq' v' where x: "x = ((w', seq'), v')" by (metis prod.collapse)
  obtain seen' adds' where st: "or_remove_step ws e x (seen, adds) = (seen', adds')" by force
  have "((w, seq), v) \<in> set xs \<and> w \<in> set ws \<or> (\<exists>m. bm_get seen' w = Some m \<and> seq \<le> m)"
    using Cons.prems st
    by (auto simp: x or_remove_step_def le_max_iff_disj split: if_splits option.splits)
  from Cons.IH[OF this, of adds'] show ?case by (simp add: st)
qed simp

lemma fold_or_remove_step_untouched:
  "w \<notin> set ws \<Longrightarrow> bm_get (fst (fold (or_remove_step ws e) xs (seen, adds))) w = bm_get seen w"
proof (induction xs arbitrary: seen adds)
  case (Cons x xs)
  obtain w' seq' v' where x: "x = ((w', seq'), v')" by (metis prod.collapse)
  obtain seen' adds' where st: "or_remove_step ws e x (seen, adds) = (seen', adds')" by force
  have "bm_get seen' w = bm_get seen w"
    using Cons.prems st by (auto simp: x or_remove_step_def split: if_splits)
  then show ?case using Cons.IH[OF Cons.prems, of seen' adds'] by (simp add: st)
qed simp

lemma or_remove_adds:
  "bm_get (or_adds (or_remove s e)) tg =
     (case bm_get (or_adds s) tg of Some x \<Rightarrow> if or_touches s e (fst tg) \<and> x \<noteq> e then Some x else None
      | None \<Rightarrow> None)"
  by (simp add: or_remove_def Let_def case_prod_unfold fold_or_remove_step_adds or_touched_iff
      sorted_keys_distinct flip: bm_get_def cong: if_cong split: option.splits)

lemma or_remove_dead:
  "or_touches s e (fst tg) \<Longrightarrow> bm_contains (or_adds s) tg \<Longrightarrow> or_dead tg (or_remove s e)"
  "\<not> or_touches s e (fst tg) \<Longrightarrow> \<not> or_dead tg (or_remove s e)"
proof -
  have eq: "or_dead tg (or_remove s e) \<longleftrightarrow>
    (\<exists>m. bm_get (fst (fold (or_remove_step (or_touched s e) e) (bm_entries (or_adds s)) (bm_empty, bm_empty))) (fst tg)
       = Some m \<and> snd tg \<le> m)"
    by (simp add: or_dead_iff or_remove_def Let_def case_prod_unfold)
  show "or_dead tg (or_remove s e)" if touch: "or_touches s e (fst tg)" and held: "bm_contains (or_adds s) tg"
  proof -
    obtain v where "((fst tg, snd tg), v) \<in> set (bm_entries (or_adds s))"
      using held by (auto simp: in_bm_entries_iff bm_contains_def)
    then show ?thesis unfolding eq using touch by (intro fold_or_remove_step_seen) (auto simp: or_touched_iff)
  qed
  show "\<not> or_touches s e (fst tg) \<Longrightarrow> \<not> or_dead tg (or_remove s e)"
    unfolding eq by (simp add: fold_or_remove_step_untouched or_touched_iff)
qed

text \<open>The remove delta puts every observed tag of the element at the top of its chain.\<close>

lemma or_rank_remove: "bm_get (or_adds s) tg = Some e \<Longrightarrow> or_rank tg (or_remove s e) = 3"
  using or_remove_dead(1)[of s e tg] or_remove_adds[of s e tg]
  by (cases tg) (auto simp: or_rank_def bm_contains_def or_touches_def)

lemma or_merge_remove_adds:
  "bm_get (or_adds (or_merge s (or_remove s e))) tg =
     (case bm_get (or_adds s) tg of Some x \<Rightarrow> if x = e then None else Some x | None \<Rightarrow> None)"
proof (cases "bm_get (or_adds s) tg")
  case None
  then show ?thesis using or_remove_adds[of s e tg]
    by (simp add: or_merge_fields bm_get_or_merge_adds)
next
  case (Some x)
  then have "or_keep s (or_remove s e) tg \<longleftrightarrow> x \<noteq> e"
    using or_keep_iff[of s tg "or_remove s e"] or_remove_adds[of s e tg] or_remove_dead[of s e tg]
    by (cases tg) (auto simp: bm_contains_def or_touches_def)
  then show ?thesis using Some by (simp add: or_merge_fields bm_get_or_merge_adds)
qed

lemma or_contains_iff: "or_contains s x \<longleftrightarrow> (\<exists>tg. bm_get (or_adds s) tg = Some x)"
  by (simp add: or_contains_def or_iter_def list_ex_iff set_bm_values)

section \<open>Compaction\<close>

lemma or_prune_receipts_get:
  assumes "or_prune_receipts s now ttl = Some s'"
  shows "s' = s\<lparr>or_folded_at := or_folded_at s'\<rparr>"
    and "bm_get (or_folded_at s') w =
      (case bm_get (or_folded_at s) w of None \<Rightarrow> None
       | Some stamp \<Rightarrow> if receipt_expired now stamp ttl then None else Some stamp)"
  using assms by (auto simp: or_prune_receipts_def bm_get_retain split: if_splits option.splits)

lemma fold_or_retire_step:
  "bm_contains r w \<Longrightarrow> bm_get (fst (fold (or_retire_step now retire) ws (r, ch))) w = bm_get r w"
proof (induction ws arbitrary: r ch)
  case (Cons v ws)
  obtain r' ch' where st: "or_retire_step now retire v (r, ch) = (r', ch')" by force
  then have "bm_get r' w = bm_get r w" using Cons.prems by (auto simp: or_retire_step_def split: if_splits)
  then show ?case using Cons.IH[of r' ch'] Cons.prems by (simp add: st bm_contains_def)
qed simp

lemma fold_or_fold_step:
  "bm_get (fst (fold (or_fold_step now db) xs (seen, fa, ag))) w =
     (if \<exists>since. (w, since) \<in> set xs \<and> or_aged now db since then None else bm_get seen w)"
  "bm_contains (fst (snd (fold (or_fold_step now db) xs (seen, fa, ag)))) w \<longleftrightarrow>
     (\<exists>since. (w, since) \<in> set xs \<and> or_aged now db since) \<or> bm_contains fa w"
proof (induction xs arbitrary: seen fa ag)
  case (Cons x xs)
  {
    case 1
    obtain seen' fa' ag' where "or_fold_step now db x (seen, fa, ag) = (seen', fa', ag')" by (metis prod.collapse)
    then show ?case using Cons.IH(1)[of seen' fa' ag'] by (auto simp: or_fold_step_def split: prod.splits if_splits)
  next
    case 2
    obtain seen' fa' ag' where "or_fold_step now db x (seen, fa, ag) = (seen', fa', ag')" by (metis prod.collapse)
    then show ?case using Cons.IH(2)[of seen' fa' ag'] by (auto simp: or_fold_step_def split: prod.splits if_splits)
  }
qed simp_all

lemma or_fold_stage_dead:
  assumes "or_fold_stage now bounds s = (s', ag)"
  shows "or_adds s' = or_adds s"
    and "or_dead tg s \<Longrightarrow> or_dead tg s' \<or>
      (\<exists>stamp. bm_get (or_folded_at s) (fst tg) = Some stamp \<and> receipt_expired now stamp (receipt_ttl_ms bounds))"
proof -
  let ?aged = "or_aged now (sat_mul (retire_after_ms bounds) 2)"
  define out where "out = (case or_prune_receipts s now (receipt_ttl_ms bounds) of None \<Rightarrow> s | Some p \<Rightarrow> p)"
  have out: "or_adds out = or_adds s" "or_seen out = or_seen s" "or_retired out = or_retired s"
    using or_prune_receipts_get(1)[of s now "receipt_ttl_ms bounds"]
    by (auto simp: out_def split: option.splits) (metis or_set.simps or_set.surjective or_set.update_convs)+
  have receipts: "bm_contains (or_folded_at s) w \<Longrightarrow> bm_contains (or_folded_at out) w \<or>
      (\<exists>stamp. bm_get (or_folded_at s) w = Some stamp \<and> receipt_expired now stamp (receipt_ttl_ms bounds))" for w
    using or_prune_receipts_get(2)[of s now "receipt_ttl_ms bounds" _ w]
    by (auto simp: out_def bm_contains_def split: option.splits)
  obtain ag0 seen fa ag1 where
    st: "fold (or_fold_step now (sat_mul (retire_after_ms bounds) 2)) (bm_entries (or_retired out))
           (or_seen out, or_folded_at out, ag0) = (seen, fa, ag1)"
    and s': "s' = out\<lparr>or_retired := bm_retain (\<lambda>_ since. \<not> ?aged since) (or_retired out),
                    or_seen := seen, or_folded_at := fa\<rparr>"
    using assms by (auto simp: or_fold_stage_def out_def Let_def split: option.splits prod.splits)
  note f = fold_or_fold_step[of now "sat_mul (retire_after_ms bounds) 2" "bm_entries (or_retired out)"
      "or_seen out" "or_folded_at out" ag0, unfolded st in_bm_entries_iff, simplified]
  show "or_adds s' = or_adds s" by (simp add: s' out)
  show "or_dead tg s' \<or>
      (\<exists>stamp. bm_get (or_folded_at s) (fst tg) = Some stamp \<and> receipt_expired now stamp (receipt_ttl_ms bounds))"
    if "or_dead tg s"
    using that receipts[of "fst tg"] f[of "fst tg"]
    by (auto simp: or_dead_iff s' out bm_contains_def bm_get_retain split: if_splits)
qed

lemma or_compact_dead:
  assumes "or_compact s now bounds retire quiet = Some s'"
  shows "or_adds s' = or_adds s"
    and "or_dead tg s \<Longrightarrow> or_dead tg s' \<or>
      (\<exists>stamp. bm_get (or_folded_at s) (fst tg) = Some stamp \<and> receipt_expired now stamp (receipt_ttl_ms bounds))"
proof -
  obtain r ch where r: "fold (or_retire_step now retire) (or_writers s) (or_retired s, False) = (r, ch)" by force
  let ?out = "s\<lparr>or_retired := r\<rparr>"
  have two: "s' = ?out \<or> (\<exists>ag. or_fold_stage now bounds ?out = (s', ag))"
    using assms by (auto simp: or_compact_def r Let_def split: prod.splits if_splits)
  have "bm_contains (or_retired s) w \<Longrightarrow> bm_contains r w" for w
    using fold_or_retire_step[of "or_retired s" w now retire "or_writers s" False]
    by (simp add: r bm_contains_def)
  then have dead: "or_dead tg s \<Longrightarrow> or_dead tg ?out" by (auto simp: or_dead_iff)
  show "or_adds s' = or_adds s" using two or_fold_stage_dead(1) by force
  show "or_dead tg s' \<or>
      (\<exists>stamp. bm_get (or_folded_at s) (fst tg) = Some stamp \<and> receipt_expired now stamp (receipt_ttl_ms bounds))"
    if "or_dead tg s"
    using two or_fold_stage_dead(2)[of now bounds ?out s' _ tg] dead[OF that] by auto
qed

section \<open>Properties\<close>

text \<open>
  Merging two sets takes, for every tag, the higher of the two replicas' ranks on the chain
  unknown, added, spared, removed, whatever has been retired or folded on either side.
\<close>

theorem or_merge_takes_higher_rank: "or_rank tg (or_merge s t) = max (or_rank tg s) (or_rank tg t)"
  by (rule or_rank_merge)

text \<open>
  C19: replicas that merge the same sets hold the same adds, in whatever order and however often
  the sets arrive, retired and folded writers included.
\<close>

theorem or_members_converge:
  assumes "set (x # xs) = set (y # ys)" and "\<forall>z \<in> set (x # xs). or_agrees elem z"
  shows "or_adds (foldl or_merge x xs) = or_adds (foldl or_merge y ys)"
proof (rule or_agrees_adds_eq)
  show "or_agrees elem (foldl or_merge x xs)" "or_agrees elem (foldl or_merge y ys)"
    by (rule or_agrees_fold, use assms in blast)+
qed (rule or_tags.rank_fold_converges[OF assms(1)])

definition demo_writer :: writer_id where
  "demo_writer = WriterId (NodeId 7) 1"

theorem or_members_converge_witness:
  "or_adds (foldl or_merge (or_add demo_writer 0 True) [or_add demo_writer 1 False, or_add demo_writer 0 True])
     = or_adds (foldl or_merge (or_add demo_writer 1 False) [or_add demo_writer 0 True])"
proof -
  have "or_agrees (\<lambda>tg. snd tg = 0) (or_add w 0 True)" "or_agrees (\<lambda>tg. snd tg = 0) (or_add w 1 False)" for w
    by (simp_all add: or_agrees_def or_add_def)
  then show ?thesis
    by (intro or_members_converge[where elem = "\<lambda>tg. snd tg = 0"]) auto
qed

text \<open>
  Before any writer is retired the whole state converges, watermarks and receipts included,
  so replicas that merged the same sets encode the same bytes.
\<close>

theorem or_state_converges:
  assumes "set (x # xs) = set (y # ys)" and "\<forall>z \<in> set (x # xs). or_unretired elem z"
  shows "foldl or_merge x xs = foldl or_merge y ys"
  by (rule or_live.fold_converges[OF assms])

theorem or_state_converges_witness:
  "foldl or_merge (or_add demo_writer 0 True) [or_remove (or_add demo_writer 0 True) True]
     = foldl or_merge (or_remove (or_add demo_writer 0 True) True) [or_add demo_writer 0 True]"
proof -
  have "or_adds (or_remove (or_add demo_writer 0 True) True) = bm_empty"
    by (rule bm_ext) (simp only: or_remove_adds, simp add: or_add_def)
  then have "or_unretired (\<lambda>_. True) (or_remove (or_add demo_writer 0 True) True)"
    by (simp add: or_unretired_def or_agrees_def) (simp add: or_remove_def Let_def case_prod_unfold)
  moreover have "or_unretired (\<lambda>_. True) (or_add demo_writer 0 True)"
    by (simp add: or_unretired_def or_agrees_def or_add_def)
  ultimately show ?thesis
    by (intro or_state_converges[where elem = "\<lambda>_. True"]) auto
qed

text \<open>
  Merging the delta of an observed remove into the set it observed removes exactly that
  element and leaves every other member.
\<close>

theorem or_observed_remove_exact:
  "or_contains (or_merge s (or_remove s e)) x \<longleftrightarrow> or_contains s x \<and> x \<noteq> e"
proof -
  have "(case g of Some y \<Rightarrow> if y = e then None else Some y | None \<Rightarrow> None) = Some x \<longleftrightarrow> g = Some x \<and> x \<noteq> e" for g
    by (cases g) auto
  then show ?thesis unfolding or_contains_iff or_merge_remove_adds by simp
qed

text \<open>
  A tag a remove observed is never resurrected: no sequence of merges that includes the
  remove's delta, not even with the very copy that still holds the add, contains it.
\<close>

theorem or_removed_tag_never_returns:
  assumes "bm_get (or_adds s) tg = Some e" and "or_remove s e \<in> set (x # xs)"
  shows "\<not> bm_contains (or_adds (foldl or_merge x xs)) tg"
  using or_tags.rank_fold_top[OF assms(2), of tg] or_rank_remove[OF assms(1)]
  by (auto simp: or_rank_contains)

theorem or_removed_tag_never_returns_witness:
  "\<not> bm_contains (or_adds (foldl or_merge (or_add demo_writer 4 True)
       [or_remove (or_add demo_writer 4 True) True, or_add demo_writer 4 True])) (demo_writer, 4)"
  by (rule or_removed_tag_never_returns[where s = "or_add demo_writer 4 True" and e = True])
    (simp_all add: or_add_def)

text \<open>
  Compaction never touches the members, and a tag it knew to be dead stays dead unless the
  receipt of the tag's writer had outlived its lifetime.
\<close>

theorem or_compact_keeps_members:
  assumes "or_compact s now bounds retire quiet = Some s'"
  shows "or_iter s' = or_iter s \<and> (or_dead tg s \<longrightarrow> or_dead tg s' \<or>
      (\<exists>stamp. bm_get (or_folded_at s) (fst tg) = Some stamp \<and> receipt_expired now stamp (receipt_ttl_ms bounds)))"
  using or_compact_dead[OF assms] by (simp add: or_iter_def)

theorem or_compact_keeps_members_witness:
  "\<exists>s'. or_compact (or_add demo_writer 3 True) 50 \<lparr>retire_after_ms = 10, receipt_ttl_ms = 30\<rparr> (\<lambda>_. True) Settled
          = Some s' \<and> or_iter s' = [True]"
proof -
  obtain s' where s': "or_compact (or_add demo_writer 3 True) 50 \<lparr>retire_after_ms = 10, receipt_ttl_ms = 30\<rparr>
      (\<lambda>_. True) Settled = Some s'"
    by (cases "or_compact (or_add demo_writer 3 True) 50 \<lparr>retire_after_ms = 10, receipt_ttl_ms = 30\<rparr> (\<lambda>_. True) Settled")
      (code_simp, simp)
  have "or_iter (or_add demo_writer 3 True) = [True]" by code_simp
  then show ?thesis using or_compact_keeps_members[OF s'] s' by auto
qed

end
