(* ===== verification/Live_Entry.thy ===== *)
theory Live_Entry
  imports Resolver "HOL-Library.List_Lexorder"
begin

text \<open>
  What a shard stores for a key: the record buffer of \<^verbatim>\<open>engine/record.rs\<close>, the flattened
  \<open>Live\<close> entry of \<^verbatim>\<open>engine/mod.rs\<close>, the tombstone, the incoming write, the fingerprint
  and the derived versions of \<^verbatim>\<open>store/mod.rs\<close>, and the hash arithmetic of
  \<^verbatim>\<open>engine/keys.rs\<close>. The functions of the crates the store calls, xxh3 and postcard, are
  the fields of \<open>externs\<close>; \<open>externs_ok\<close> is what the record framing relies on.
\<close>

unbundle bit_operations_syntax

section \<open>The crates the store calls\<close>

record externs =
  xxh3 :: "bytes \<Rightarrow> u64"
  enc_len :: "u32 \<Rightarrow> bytes"
  take_len :: "bytes \<Rightarrow> (u32 \<times> bytes) option"
  enc_hlc :: "hlc \<Rightarrow> bytes"

text \<open>postcard's \<open>take_from_bytes\<close> undoes \<open>to_stdvec\<close> and returns what follows.\<close>

definition externs_ok :: "externs \<Rightarrow> bool" where
  "externs_ok e \<longleftrightarrow> (\<forall>n rest. take_len e (enc_len e n @ rest) = Some (n, rest))"

section \<open>Hash arithmetic\<close>

definition bucket_count :: nat where
  "bucket_count = 1024"

definition part_count :: nat where
  "part_count = 64"

definition hash_key_bytes :: "externs \<Rightarrow> bytes \<Rightarrow> u64" where
  "hash_key_bytes e key_bytes = xxh3 e key_bytes"

definition stripe_index_from_hash :: "u64 \<Rightarrow> nat" where
  "stripe_index_from_hash hash = unat (hash AND (of_nat bucket_count - 1))"

definition part_index_from_hash :: "u64 \<Rightarrow> nat" where
  "part_index_from_hash hash = unat (drop_bit 10 hash AND 63)"

definition digest_slot :: "nat \<Rightarrow> nat \<Rightarrow> nat" where
  "digest_slot bucket part = bucket * part_count + part"

lemma unat_and_mask_less: "unat (h AND (2 ^ n - 1)) < 2 ^ n" for h :: u64
  using take_bit_nat_less_exp[of n "unat h"]
  by (simp add: mask_eq_exp_minus_1[symmetric] take_bit_eq_mask[symmetric] unsigned_take_bit_eq)

lemma stripe_index_lt [simp]: "stripe_index_from_hash h < bucket_count"
  using unat_and_mask_less[of h 10] by (simp add: stripe_index_from_hash_def bucket_count_def)

lemma part_index_lt [simp]: "part_index_from_hash h < part_count"
  using unat_and_mask_less[of "drop_bit 10 h" 6] by (simp add: part_index_from_hash_def part_count_def)

lemma digest_slot_inj:
  "p < part_count \<Longrightarrow> p' < part_count \<Longrightarrow> digest_slot b p = digest_slot b' p' \<longleftrightarrow> b = b' \<and> p = p'"
proof
  assume p: "p < part_count" "p' < part_count" and eq: "digest_slot b p = digest_slot b' p'"
  have "(b * part_count + p) div part_count = b" "(b' * part_count + p') div part_count = b'"
    using p by (simp_all add: part_count_def)
  then show "b = b' \<and> p = p'" using eq by (auto simp: digest_slot_def)
qed simp

lemma digest_slot_lt: "b < bucket_count \<Longrightarrow> p < part_count \<Longrightarrow> digest_slot b p < bucket_count * part_count"
  by (simp add: digest_slot_def bucket_count_def part_count_def)

section \<open>Records\<close>

definition inline_cap :: nat where
  "inline_cap = 22"

datatype record_buf =
    Inline u8 bytes
  | Heap bytes

definition from_slice :: "bytes \<Rightarrow> record_buf" where
  "from_slice bs =
     (if length bs \<le> inline_cap
      then Inline (of_nat (length bs)) (bs @ replicate (inline_cap - length bs) 0)
      else Heap bs)"

fun heap_len :: "record_buf \<Rightarrow> nat" where
  "heap_len (Inline _ _) = 0"
| "heap_len (Heap boxed) = length boxed"

fun as_slice :: "record_buf \<Rightarrow> bytes" where
  "as_slice (Inline len buf) = take (unat len) buf"
| "as_slice (Heap boxed) = boxed"

text \<open>
  A key of \<open>2 ^ 32\<close> bytes or more panics in the source when its record is built; the model wraps the
  length, and every theorem about a built record assumes a shorter key. A record whose length prefix
  does not decode panics too; it is never an output of the engine, and the model returns empty halves.
\<close>

definition build_resident_record :: "externs \<Rightarrow> bytes \<Rightarrow> bytes \<Rightarrow> record_buf" where
  "build_resident_record e key_bytes value_bytes =
     from_slice (enc_len e (of_nat (length key_bytes)) @ key_bytes @ value_bytes)"

definition split_record :: "externs \<Rightarrow> bytes \<Rightarrow> bytes \<times> bytes" where
  "split_record e record =
     (case take_len e record of
        None \<Rightarrow> ([], [])
      | Some (key_len, rest) \<Rightarrow> (take (unat key_len) rest, drop (unat key_len) rest))"

definition record_key :: "externs \<Rightarrow> record_buf \<Rightarrow> bytes" where
  "record_key e record = fst (split_record e (as_slice record))"

definition record_value :: "externs \<Rightarrow> record_buf \<Rightarrow> bytes" where
  "record_value e record = snd (split_record e (as_slice record))"

lemma as_slice_from_slice [simp]: "as_slice (from_slice bs) = bs"
proof (cases "length bs \<le> inline_cap")
  case True
  then have "unat (of_nat (length bs) :: u8) = length bs"
    by (simp add: unat_of_nat inline_cap_def take_bit_nat_eq_self)
  then show ?thesis using True by (simp add: from_slice_def)
qed (simp add: from_slice_def)

lemma split_resident_record:
  assumes "externs_ok e" and "length k < 2 ^ 32"
  shows "split_record e (as_slice (build_resident_record e k v)) = (k, v)"
proof -
  have "unat (of_nat (length k) :: u32) = length k"
    using assms(2) by (simp add: unat_of_nat take_bit_nat_eq_self)
  then show ?thesis
    using assms(1) by (simp add: split_record_def build_resident_record_def externs_ok_def)
qed

lemma record_halves [simp]:
  assumes "externs_ok e" and "length k < 2 ^ 32"
  shows "record_key e (build_resident_record e k v) = k"
    and "record_value e (build_resident_record e k v) = v"
  using split_resident_record[OF assms] by (simp_all add: record_key_def record_value_def)

section \<open>Live entries\<close>

record live =
  lv_record :: record_buf
  lv_wall_ms :: u64
  lv_node :: node_id
  lv_expiry :: u32
  lv_logical :: u32
  lv_weight :: u32
  lv_last_access :: u32

definition live_ver :: "live \<Rightarrow> hlc" where
  "live_ver l = Hlc (lv_wall_ms l) (lv_logical l) (lv_node l)"

definition live_set_ver :: "live \<Rightarrow> hlc \<Rightarrow> live" where
  "live_set_ver l v = l\<lparr>lv_wall_ms := wall_ms v, lv_logical := logical v, lv_node := hlc_node v\<rparr>"

definition touch_stamp :: "u64 \<Rightarrow> u32" where
  "touch_stamp now_ms = ucast now_ms"

definition live_new :: "record_buf \<Rightarrow> hlc \<Rightarrow> u32 \<Rightarrow> u32 \<Rightarrow> u64 \<Rightarrow> live" where
  "live_new r ver expiry weight last_access_ms =
     \<lparr>lv_record = r, lv_wall_ms = wall_ms ver, lv_node = hlc_node ver, lv_expiry = expiry,
      lv_logical = logical ver, lv_weight = weight, lv_last_access = touch_stamp last_access_ms\<rparr>"

definition live_key :: "externs \<Rightarrow> live \<Rightarrow> bytes" where
  "live_key e l = record_key e (lv_record l)"

definition hasher_for :: "externs \<Rightarrow> live \<Rightarrow> u64" where
  "hasher_for e l = xxh3 e (record_key e (lv_record l))"

lemma live_ver_new [simp]: "live_ver (live_new r v x w n) = v"
  by (simp add: live_ver_def live_new_def)

lemma live_ver_set_ver [simp]: "live_ver (live_set_ver l v) = v"
  by (simp add: live_ver_def live_set_ver_def)

text \<open>
  The bytes a live entry is charged for: its 56-byte slot, its 4-byte row and 1 control byte, and
  what its record holds on the heap. \<open>set_record\<close> swaps a record in place and moves the
  shared total, when it is counted, by the difference.
\<close>

definition entry_overhead_bytes :: u64 where
  "entry_overhead_bytes = 56 + 4 + 1"

definition entry_bytes :: "live \<Rightarrow> u64" where
  "entry_bytes l = entry_overhead_bytes + of_nat (heap_len (lv_record l))"

definition set_record :: "live \<Rightarrow> record_buf \<Rightarrow> u64 option \<Rightarrow> live \<times> u64 option" where
  "set_record l r resident_bytes =
     (l\<lparr>lv_record := r\<rparr>,
      map_option (\<lambda>total.
        let old = of_nat (heap_len (lv_record l)); new = of_nat (heap_len r)
        in if old \<le> new then total + (new - old) else total - (old - new)) resident_bytes)"

lemma set_record_exact:
  "set_record l r (Some t) = (l', Some t') \<Longrightarrow> t' - entry_bytes l' = t - entry_bytes l"
  by (auto simp: set_record_def entry_bytes_def Let_def split: if_splits)

section \<open>Tombstones and incoming writes\<close>

record tombstone =
  ts_ver :: hlc
  ts_ttl_deadline :: u64
  ts_max_deadline :: u64
  ts_expired_at :: "u64 option"

datatype 'v incoming =
    Put 'v "u64 option" bytes
  | Tombstone "u64 option"

definition incoming_delete :: "'v incoming" where
  "incoming_delete = Tombstone None"

section \<open>Fingerprints and derived versions\<close>

text \<open>
  \<open>entry_fingerprint\<close> joins the key and the encoded version in a 128-byte stack buffer when
  they fit and on the heap otherwise.
\<close>

definition fingerprint_stack_bytes :: nat where
  "fingerprint_stack_bytes = 128"

definition entry_fingerprint :: "externs \<Rightarrow> bytes \<Rightarrow> hlc \<Rightarrow> u64" where
  "entry_fingerprint e key_bytes ver =
     (let n = length key_bytes; v = enc_hlc e ver; len = n + length v;
          buf = key_bytes @ v @ replicate (fingerprint_stack_bytes - len) 0
      in if n \<le> fingerprint_stack_bytes \<and> len \<le> fingerprint_stack_bytes then xxh3 e (take len buf)
         else xxh3 e (key_bytes @ v))"

lemma entry_fingerprint_paths_agree: "entry_fingerprint e k ver = xxh3 e (k @ enc_hlc e ver)"
  by (simp add: entry_fingerprint_def Let_def)

definition derived_successor :: "hlc \<Rightarrow> u64 \<Rightarrow> hlc" where
  "derived_successor stale content_hash =
     (let (w, l) = (case checked_add (logical stale) 1 of
                      Some l \<Rightarrow> (wall_ms stale, l)
                    | None \<Rightarrow> (sat_add (wall_ms stale) 1, 0))
      in Hlc w l (merge_derived content_hash))"

definition compacted_version :: "externs \<Rightarrow> hlc \<Rightarrow> bytes \<Rightarrow> hlc" where
  "compacted_version e stale compacted = derived_successor stale (xxh3 e compacted)"

definition to_le_bytes :: "nat \<Rightarrow> 'a::len word \<Rightarrow> bytes" where
  "to_le_bytes n w = map (\<lambda>i. ucast (drop_bit (8 * i) w)) [0..<n]"

definition rearmed_version :: "externs \<Rightarrow> hlc \<Rightarrow> u64 option \<Rightarrow> hlc" where
  "rearmed_version e base expires_at_ms =
     (let tail = (case expires_at_ms of
                    None \<Rightarrow> replicate 9 0
                  | Some deadline \<Rightarrow> 1 # to_le_bytes 8 deadline);
          buf = [114] @ to_le_bytes 8 (wall_ms base) @ to_le_bytes 4 (logical base)
                @ to_le_bytes 8 (as_u64 (hlc_node base)) @ tail
      in derived_successor base (xxh3 e buf))"

definition hlc_full :: "hlc \<Rightarrow> bool" where
  "hlc_full v \<longleftrightarrow> wall_ms v = u64_max \<and> logical v = u32_max"

lemma derived_successor_gt:
  assumes "\<not> hlc_full stale"
  shows "stale < derived_successor stale h"
proof (cases "logical stale = u32_max")
  case True
  then have "wall_ms stale \<noteq> u64_max" using assms by (simp add: hlc_full_def)
  then have "wall_ms stale < sat_add (wall_ms stale) 1"
    using unat_not_max[of "wall_ms stale"] by (simp add: word_less_nat_alt unat_sat_add min_def)
  then show ?thesis using True by (simp add: derived_successor_def checked_add_one less_hlc_def)
next
  case False
  then show ?thesis by (simp add: derived_successor_def checked_add_one less_hlc_def word_less_inc)
qed

end
