(* ===== verification/Expiry.thy ===== *)
theory Expiry
  imports Live_Entry
begin

text \<open>
  The time arithmetic of \<^verbatim>\<open>engine/expiry.rs\<close>: the relative expiry encoding with its
  side table, the 32-bit idle stamp, the absence test, the sweep's verdict, the two deadlines of a
  tombstone, the arrival gate and the pause guard. Everything is a pure function of stamps and the
  clock; the theorems say when the compressed forms are exact and which instants replicas agree on.
\<close>

section \<open>The expiry encoding\<close>

definition never_expires :: u32 where
  "never_expires = u32_max"

definition long_ttl_mark :: u32 where
  "long_ttl_mark = u32_max - 1"

definition max_inline_ttl_ms :: u64 where
  "max_inline_ttl_ms = 4294967293"

definition encode_expiry :: "u64 \<Rightarrow> u64 option \<Rightarrow> u32 \<times> u64 option" where
  "encode_expiry wall expires_at_ms =
     (case expires_at_ms of
        None \<Rightarrow> (never_expires, None)
      | Some exp \<Rightarrow>
          (case checked_sub exp wall of
             Some delta \<Rightarrow> if delta \<le> max_inline_ttl_ms then (ucast delta, None) else (long_ttl_mark, Some exp)
           | None \<Rightarrow> (long_ttl_mark, Some exp)))"

definition decode_expiry :: "u64 \<Rightarrow> u32 \<Rightarrow> bytes \<Rightarrow> (bytes, u64) btree_map \<Rightarrow> u64 option" where
  "decode_expiry wall expiry key_bytes long_ttl =
     (if expiry = never_expires then None
      else if expiry = long_ttl_mark then bm_get long_ttl key_bytes
      else Some (wall + ucast expiry))"

section \<open>Idle stamps\<close>

definition max_stamp_lead_ms :: u64 where
  "max_stamp_lead_ms = 86400000"

definition max_tti_ms :: u64 where
  "max_tti_ms = 4294967295 - max_stamp_lead_ms"

definition idle_elapsed_ms :: "u64 \<Rightarrow> u32 \<Rightarrow> u64" where
  "idle_elapsed_ms now_ms last_access_ms =
     (let gap = ucast ((ucast now_ms :: u32) - last_access_ms)
      in if max_tti_ms < gap then 0 else gap)"

definition clamp_tti_ms :: "u64 \<Rightarrow> u64" where
  "clamp_tti_ms tti_ms = min tti_ms max_tti_ms"

datatype lapsed = Hidden | Shown

definition idle_at :: "live \<Rightarrow> u64 option \<Rightarrow> u64 \<Rightarrow> bool" where
  "idle_at l tti_ms now_ms \<longleftrightarrow> is_some_and (\<lambda>tti. tti \<le> idle_elapsed_ms now_ms (lv_last_access l)) tti_ms"

definition live_expires_at :: "live \<Rightarrow> bytes \<Rightarrow> (bytes, u64) btree_map \<Rightarrow> u64 option" where
  "live_expires_at l key_bytes long_ttl = decode_expiry (lv_wall_ms l) (lv_expiry l) key_bytes long_ttl"

definition absent_under ::
  "live \<Rightarrow> bytes \<Rightarrow> (bytes, u64) btree_map \<Rightarrow> u64 option \<Rightarrow> u64 \<Rightarrow> lapsed \<Rightarrow> bool" where
  "absent_under l key_bytes long_ttl tti_ms now_ms lapsed =
     (if lapsed = Hidden
         \<and> is_some_and (\<lambda>exp. exp \<le> now_ms) (decode_expiry (lv_wall_ms l) (lv_expiry l) key_bytes long_ttl)
      then True else idle_at l tti_ms now_ms)"

definition absent_at :: "live \<Rightarrow> bytes \<Rightarrow> (bytes, u64) btree_map \<Rightarrow> u64 option \<Rightarrow> u64 \<Rightarrow> bool" where
  "absent_at l key_bytes long_ttl tti_ms now_ms = absent_under l key_bytes long_ttl tti_ms now_ms Hidden"

datatype lapse = Expired | Idle

definition lapse_cause :: "u64 option \<Rightarrow> u64 \<Rightarrow> lapse" where
  "lapse_cause expires_at_ms now_ms =
     (if is_some_and (\<lambda>exp. exp \<le> now_ms) expires_at_ms then Expired else Idle)"

section \<open>Sweeping and tombstone deadlines\<close>

record tombstone_retention =
  retention_ttl_ms :: u64

datatype sweep_fate = Keep | Drop | Leave_Tombstone

definition sweep_fate :: "bool \<Rightarrow> u64 option \<Rightarrow> u64 \<Rightarrow> bool \<Rightarrow> sweep_fate" where
  "sweep_fate absent expires_at_ms now_ms tombstones_expired =
     (if \<not> absent then Keep
      else if tombstones_expired \<and> is_some_and (\<lambda>exp. exp \<le> now_ms) expires_at_ms then Leave_Tombstone
      else Drop)"

definition tombstone_anchor_ms :: "u64 option \<Rightarrow> u64 \<Rightarrow> u64 \<Rightarrow> u64" where
  "tombstone_anchor_ms expired_at_ms ver_wall_ms now_ms = min (map_or ver_wall_ms (\<lambda>x. x) expired_at_ms) now_ms"

definition deferred_retention_ms :: "bool \<Rightarrow> u64 \<Rightarrow> u64 \<Rightarrow> u64" where
  "deferred_retention_ms expired ttl_ms max_ttl_ms = (if expired then ttl_ms else max_ttl_ms)"

definition tombstone_deadlines :: "u64 \<Rightarrow> u64 \<Rightarrow> u64 \<Rightarrow> u64 \<times> u64" where
  "tombstone_deadlines anchor_ms ttl_ms max_ttl_ms = (sat_add anchor_ms ttl_ms, sat_add anchor_ms max_ttl_ms)"

definition swept_tombstone_deadlines :: "u64 \<Rightarrow> u64 \<Rightarrow> tombstone_retention \<Rightarrow> u64 \<times> u64" where
  "swept_tombstone_deadlines expired_at_ms now_ms retention =
     (let deadline = max (sat_add (tombstone_anchor_ms (Some expired_at_ms) 0 now_ms) (retention_ttl_ms retention)) now_ms
      in (deadline, deadline))"

definition tombstone_lapsed :: "u64 \<Rightarrow> u64 \<Rightarrow> u64 \<Rightarrow> bool \<Rightarrow> bool" where
  "tombstone_lapsed ttl_deadline_ms max_deadline_ms now_ms deferring \<longleftrightarrow>
     (if deferring then max_deadline_ms else ttl_deadline_ms) \<le> now_ms"

definition drops_lapsed_tombstone :: "bool \<Rightarrow> u64 \<times> u64 \<Rightarrow> u64 \<Rightarrow> bool \<Rightarrow> bool" where
  "drops_lapsed_tombstone from_peer deadlines now_ms deferring \<longleftrightarrow>
     from_peer \<and> tombstone_lapsed (fst deadlines) (snd deadlines) now_ms deferring"

section \<open>The pause guard\<close>

definition gc_period_ms :: "u64 \<Rightarrow> u64" where
  "gc_period_ms ttl_ms = max (ttl_ms div 4) 1000"

definition pause_gap_ms :: "u64 \<Rightarrow> u64" where
  "pause_gap_ms ttl_ms = (let period = gc_period_ms ttl_ms in sat_add period (max (period div 4) 1000))"

definition paused_since :: "u64 \<Rightarrow> u64 \<Rightarrow> u64 \<Rightarrow> bool" where
  "paused_since last_gc_ms now_ms ttl_ms \<longleftrightarrow>
     last_gc_ms \<noteq> 0 \<and> pause_gap_ms ttl_ms < sat_sub now_ms last_gc_ms"

definition pause_hold_after :: "u64 \<Rightarrow> bool \<Rightarrow> u64 \<Rightarrow> u64 \<Rightarrow> u64" where
  "pause_hold_after hold_until_ms paused now_ms ttl_ms =
     (if paused then max hold_until_ms (sat_add now_ms ttl_ms) else hold_until_ms)"

definition gc_defer_decision :: "bool \<Rightarrow> bool \<Rightarrow> u64 \<Rightarrow> u64 \<Rightarrow> bool \<times> bool" where
  "gc_defer_decision defer paused hold_until_ms now_ms =
     (let holding = now_ms < hold_until_ms in (defer \<or> paused \<or> holding, paused \<and> \<not> holding))"

definition expiry_tombstone_retention :: "mode \<Rightarrow> bool \<Rightarrow> u64 \<Rightarrow> tombstone_retention option" where
  "expiry_tombstone_retention m resolver_merges tombstone_ttl_ms =
     (if tombstones_expired_entries m \<and> \<not> resolver_merges
      then Some \<lparr>retention_ttl_ms = tombstone_ttl_ms\<rparr> else None)"

section \<open>The encoding is exact\<close>

lemma unat_ucast_inline: "unat x < 2 ^ 32 \<Longrightarrow> unat (ucast x :: u32) = unat x" for x :: u64
  by (simp add: unsigned_ucast_eq take_bit_nat_eq_self)

lemma unat_ucast_up: "unat (ucast y :: u64) = unat y" for y :: u32
proof -
  have "unat y < 2 ^ 64" using unat_le_pow[of y] by simp
  then show ?thesis by (simp add: unsigned_ucast_eq take_bit_nat_eq_self)
qed

lemma inline_delta_not_mark:
  assumes "d \<le> max_inline_ttl_ms"
  shows "(ucast d :: u32) \<noteq> never_expires" "(ucast d :: u32) \<noteq> long_ttl_mark" "ucast (ucast d :: u32) = d"
proof -
  have d: "unat d \<le> 4294967293" using assms by (simp add: word_le_nat_alt max_inline_ttl_ms_def)
  then have u: "unat (ucast d :: u32) = unat d" by (intro unat_ucast_inline) simp
  have marks: "unat never_expires = 4294967295" "unat long_ttl_mark = 4294967294"
    by (simp_all add: never_expires_def long_ttl_mark_def unat_minus_one_word)
  show "(ucast d :: u32) \<noteq> never_expires" using u d marks(1) by auto
  show "(ucast d :: u32) \<noteq> long_ttl_mark" using u d marks(2) by auto
  show "ucast (ucast d :: u32) = d" using u by (simp add: word_unat_eq_iff unat_ucast_up)
qed

lemma decode_encode_expiry:
  assumes "encode_expiry wall x = (expiry, row)"
    and "bm_get tbl k = (case row of Some d \<Rightarrow> Some d | None \<Rightarrow> bm_get tbl k)"
  shows "decode_expiry wall expiry k tbl = x"
proof -
  have "never_expires \<noteq> long_ttl_mark" by (simp add: never_expires_def long_ttl_mark_def)
  then show ?thesis
    using assms
    by (auto simp: encode_expiry_def decode_expiry_def checked_sub_def inline_delta_not_mark
        split: option.splits if_splits)
qed

lemma encode_expiry_row: "encode_expiry wall x = (expiry, row) \<Longrightarrow> row \<noteq> None \<longleftrightarrow> expiry = long_ttl_mark"
proof -
  have "never_expires \<noteq> long_ttl_mark" by (simp add: never_expires_def long_ttl_mark_def)
  then show "encode_expiry wall x = (expiry, row) \<Longrightarrow> row \<noteq> None \<longleftrightarrow> expiry = long_ttl_mark"
    by (auto simp: encode_expiry_def inline_delta_not_mark split: option.splits if_splits)
qed

section \<open>The idle stamp is exact over its ring\<close>

lemma ucast_diff: "(ucast now :: u32) - ucast t = ucast (now - t)" for now t :: u64
proof (transfer, goal_cases)
  case (1 now t)
  have "take_bit 32 (take_bit 64 now - take_bit 64 t)
      = take_bit 32 (take_bit 32 (take_bit 64 now) - take_bit 32 (take_bit 64 t))"
    by (rule take_bit_diff[symmetric])
  then show ?case by (simp add: take_bit_diff)
qed

lemma ucast_diff_nat:
  fixes now t :: u64
  assumes "t \<le> now"
  shows "unat ((ucast now :: u32) - ucast t) = (unat now - unat t) mod 2 ^ 32"
proof -
  have "(ucast now :: u32) - ucast t = ucast (now - t)" by (rule ucast_diff)
  moreover have "unat (now - t) = unat now - unat t" using assms by (simp add: unat_sub)
  ultimately show ?thesis by (simp add: unsigned_ucast_eq take_bit_eq_mod)
qed

lemma unat_max_tti: "unat max_tti_ms = 4208567295"
  by (simp add: max_tti_ms_def max_stamp_lead_ms_def)

lemma idle_elapsed_gap:
  "unat (idle_elapsed_ms now s) =
     (let gap = unat ((ucast now :: u32) - s) in if 4208567295 < gap then 0 else gap)"
  by (simp add: idle_elapsed_ms_def Let_def word_less_nat_alt unat_max_tti unat_ucast_up)

lemma idle_elapsed_exact:
  assumes "t \<le> now" and "now - t \<le> max_tti_ms"
  shows "idle_elapsed_ms now (touch_stamp t) = now - t"
proof -
  have d: "unat (now - t) = unat now - unat t" "unat now - unat t \<le> 4208567295"
    using assms unat_max_tti by (simp_all add: word_le_nat_alt unat_sub)
  then show ?thesis
    by (simp add: word_unat_eq_iff idle_elapsed_gap touch_stamp_def ucast_diff_nat[OF assms(1)] Let_def)
qed

lemma unat_neg: "0 < unat d \<Longrightarrow> unat (- d) = 2 ^ LENGTH('a) - unat d" for d :: "'a::len word"
  using unat_sub_if'[of 0 d] by simp

lemma idle_elapsed_lead:
  assumes "now < t" and "t - now \<le> max_stamp_lead_ms"
  shows "idle_elapsed_ms now (touch_stamp t) = 0"
proof -
  let ?d = "(ucast t :: u32) - ucast now"
  have le: "now \<le> t" using assms(1) by simp
  have d: "unat t - unat now \<le> 86400000" "0 < unat t - unat now"
    using assms by (simp_all add: word_le_nat_alt word_less_nat_alt unat_sub max_stamp_lead_ms_def)
  have u: "unat ?d = unat t - unat now"
    unfolding ucast_diff_nat[OF le] using d(1) by (intro mod_less) simp
  have neg: "unat (- x) = 2 ^ 32 - unat x" if "0 < unat x" for x :: u32
    using unat_neg[OF that] by simp
  have "unat ((ucast now :: u32) - ucast t) = 2 ^ 32 - (unat t - unat now)"
    using neg[of ?d] d(2) unfolding u minus_diff_eq by blast
  moreover have "(4208567295 :: nat) < 2 ^ 32 - k" if "k \<le> 86400000" for k using that by simp
  ultimately have "4208567295 < unat ((ucast now :: u32) - ucast t)" using d(1) by metis
  then show ?thesis
    unfolding word_unat_eq_iff idle_elapsed_gap touch_stamp_def Let_def by simp
qed

section \<open>Tombstone deadlines\<close>

lemma swept_deadlines_outlive_sweep:
  "now \<le> fst (swept_tombstone_deadlines x now r)" "snd (swept_tombstone_deadlines x now r) = fst (swept_tombstone_deadlines x now r)"
  by (simp_all add: swept_tombstone_deadlines_def Let_def)

lemma anchor_agreed:
  assumes "map_or w (\<lambda>x. x) expired \<le> now" and "map_or w (\<lambda>x. x) expired \<le> now'"
  shows "tombstone_anchor_ms expired w now = tombstone_anchor_ms expired w now'"
  using assms by (simp add: tombstone_anchor_ms_def min_absorb1)

lemma tombstone_lapsed_mono:
  "tombstone_lapsed a b now d \<Longrightarrow> now \<le> now' \<Longrightarrow> tombstone_lapsed a b now' d"
  by (auto simp: tombstone_lapsed_def)

section \<open>Properties\<close>

text \<open>
  The 32-bit relative expiry is lossless: storing the encoded field and the side-table row the
  encoding asks for, the decoder returns the very deadline that was written, sentinels, deadlines
  before the write's own stamp and the largest ones included.
\<close>

theorem expiry_encoding_roundtrip:
  "decode_expiry wall (fst (encode_expiry wall x)) k
     (case snd (encode_expiry wall x) of None \<Rightarrow> tbl | Some d \<Rightarrow> bm_insert k d tbl) = x"
  by (rule decode_encode_expiry[OF surjective_pairing]) (auto split: option.splits)

text \<open>
  The truncated idle stamp is exact: a gap up to the time-to-idle ceiling is recovered to the
  millisecond from the low 32 bits, and a stamp up to a day ahead of the reader counts as no idle
  time at all.
\<close>

theorem idle_stamp_exact:
  assumes "t - now \<le> max_stamp_lead_ms \<or> t \<le> now" and "t \<le> now \<longrightarrow> now - t \<le> max_tti_ms"
  shows "idle_elapsed_ms now (touch_stamp t) = (if t \<le> now then now - t else 0)"
  using assms idle_elapsed_exact[of t now] idle_elapsed_lead[of now t] by auto

theorem idle_stamp_exact_witness:
  "idle_elapsed_ms 8589934600 (touch_stamp 8589934590) = 10 \<and> idle_elapsed_ms 5000 (touch_stamp 6000) = 0"
  using idle_stamp_exact[of 8589934590 8589934600] idle_stamp_exact[of 6000 5000]
  by (simp add: max_tti_ms_def max_stamp_lead_ms_def)

end
