(* ===== verification/Wire.thy ===== *)
theory Wire
  imports Live_Entry
begin

text \<open>
  The raw-record frames of \<^verbatim>\<open>sundog/src/wire.rs\<close>: the record-carrying messages, their
  fixed little-endian headers, the encoder and the bounds-checked decoder, the exact frame lengths
  the size guards use, and the snapshot chunking of \<^verbatim>\<open>store/mod.rs\<close>. Control messages
  travel as postcard bytes; their codec is an argument.
\<close>

section \<open>Little-endian integers\<close>

definition from_le_bytes :: "bytes \<Rightarrow> 'a::len word" where
  "from_le_bytes bs = foldr (\<lambda>b acc. ucast b OR push_bit 8 acc) bs 0"

lemma length_to_le_bytes [simp]: "length (to_le_bytes n w) = n"
  by (simp add: to_le_bytes_def)

lemma to_le_bytes_Suc: "to_le_bytes (Suc n) w = ucast w # to_le_bytes n (drop_bit 8 w)"
  by (simp add: to_le_bytes_def upt_conv_Cons map_Suc_upt[symmetric] o_def add.commute del: upt_Suc)

lemma le_bytes_step:
  "ucast (ucast w :: u8) OR push_bit 8 (take_bit (8 * n) (drop_bit 8 w)) = take_bit (8 + 8 * n) w"
  for w :: "'a::len word"
  by (rule bit_word_eqI)
    (auto simp: bit_or_iff bit_push_bit_iff bit_take_bit_iff bit_drop_bit_eq bit_ucast_iff dest: bit_imp_le_length)

lemma from_to_le_bytes: "from_le_bytes (to_le_bytes n w) = take_bit (8 * n) w" for w :: "'a::len word"
proof (induction n arbitrary: w)
  case 0
  then show ?case by (simp add: from_le_bytes_def to_le_bytes_def)
next
  case (Suc n)
  then show ?case
    using le_bytes_step[of w n] by (simp add: to_le_bytes_Suc from_le_bytes_def)
qed

lemma le_bytes_roundtrip [simp]:
  "from_le_bytes (to_le_bytes 2 (w :: u16)) = w"
  "from_le_bytes (to_le_bytes 4 (x :: u32)) = x"
  "from_le_bytes (to_le_bytes 8 (y :: u64)) = y"
  by (simp_all add: from_to_le_bytes take_bit_word_eq_self)

section \<open>UTF-8\<close>

text \<open>The validity test of \<open>str::from_utf8\<close>.\<close>

definition utf8_cont :: "u8 \<Rightarrow> bool" where
  "utf8_cont b \<longleftrightarrow> 128 \<le> b \<and> b < 192"

fun valid_utf8 :: "bytes \<Rightarrow> bool" where
  "valid_utf8 [] = True"
| "valid_utf8 (a # bs) =
     (if a < 128 then valid_utf8 bs
      else if a < 194 then False
      else if a < 224 then
        (case bs of b # r \<Rightarrow> utf8_cont b \<and> valid_utf8 r | [] \<Rightarrow> False)
      else if a < 240 then
        (case bs of b # c # r \<Rightarrow>
           utf8_cont b \<and> utf8_cont c \<and> (a = 224 \<longrightarrow> 160 \<le> b) \<and> (a = 237 \<longrightarrow> b < 160) \<and> valid_utf8 r
         | _ \<Rightarrow> False)
      else if a < 245 then
        (case bs of b # c # d # r \<Rightarrow>
           utf8_cont b \<and> utf8_cont c \<and> utf8_cont d \<and> (a = 240 \<longrightarrow> 144 \<le> b) \<and> (a = 244 \<longrightarrow> b < 144)
           \<and> valid_utf8 r
         | _ \<Rightarrow> False)
      else False)"

section \<open>Messages\<close>

record wire_record =
  wr_key :: bytes
  wr_value :: "bytes option"
  wr_ver :: hlc
  wr_expires :: "u64 option"

datatype 'm msg =
    Replicate bytes wire_record
  | ReplicateBatch bytes "wire_record list"
  | StChunk bytes "wire_record list" bool
  | StBucketChunk bytes "wire_record list" bool
  | ForwardBatch bytes u64 u8 "wire_record list"
  | Control 'm

datatype codec_error =
    FrameTooLarge nat nat
  | Postcard
  | MalformedFrame string

definition max_frame :: nat where
  "max_frame = 4 * 1024 * 1024"

definition frame_kind_postcard :: u8 where "frame_kind_postcard = 0"
definition frame_kind_raw_record :: u8 where "frame_kind_raw_record = 1"

definition raw_kind_replicate :: u8 where "raw_kind_replicate = 0"
definition raw_kind_replicate_batch :: u8 where "raw_kind_replicate_batch = 1"
definition raw_kind_st_chunk :: u8 where "raw_kind_st_chunk = 2"
definition raw_kind_st_bucket_chunk :: u8 where "raw_kind_st_bucket_chunk = 3"
definition raw_kind_forward_batch :: u8 where "raw_kind_forward_batch = 4"

definition record_flag_tombstone :: u8 where "record_flag_tombstone = 1"
definition record_flag_has_expiry :: u8 where "record_flag_has_expiry = 2"

section \<open>Frame lengths\<close>

definition raw_frame_header_len :: nat where "raw_frame_header_len = 1 + 1 + 2 + 4"
definition forward_header_len :: nat where "forward_header_len = 8 + 1"
definition record_header_len :: nat where "record_header_len = 8 + 4 + 8 + 8 + 4 + 4 + 1"

definition replicate_frame_len :: "nat \<Rightarrow> nat \<Rightarrow> nat \<Rightarrow> nat" where
  "replicate_frame_len cache_len key_len value_len =
     1 + raw_frame_header_len + cache_len + record_header_len + key_len + value_len"

definition forward_frame_len :: "nat \<Rightarrow> nat \<Rightarrow> nat \<Rightarrow> nat" where
  "forward_frame_len cache_len key_len value_len =
     replicate_frame_len cache_len key_len value_len + forward_header_len"

definition check_frame_len :: "nat \<Rightarrow> codec_error + unit" where
  "check_frame_len len = (if max_frame < len then Inl (FrameTooLarge len max_frame) else Inr ())"

section \<open>Encoding\<close>

datatype raw_extra = No_Extra | Done bool | Forward u64 u8

definition encode_record :: "wire_record \<Rightarrow> codec_error + bytes" where
  "encode_record rec =
     (if 2 ^ 32 \<le> length (wr_key rec) then Inl (MalformedFrame ''record key exceeds u32::MAX'')
      else if is_some_and (\<lambda>v. 2 ^ 32 \<le> length v) (wr_value rec)
        then Inl (MalformedFrame ''record value exceeds u32::MAX'')
      else
        let (value_len, tombstone_flag) =
              (case wr_value rec of Some v \<Rightarrow> (of_nat (length v) :: u32, 0) | None \<Rightarrow> (0, record_flag_tombstone));
            (expires_at_ms, expiry_flag) =
              (case wr_expires rec of Some ms \<Rightarrow> (ms, record_flag_has_expiry) | None \<Rightarrow> (0, 0))
        in Inr (to_le_bytes 8 (wall_ms (wr_ver rec)) @ to_le_bytes 4 (logical (wr_ver rec))
                @ to_le_bytes 8 (as_u64 (hlc_node (wr_ver rec))) @ to_le_bytes 8 expires_at_ms
                @ to_le_bytes 4 (of_nat (length (wr_key rec)) :: u32) @ to_le_bytes 4 value_len
                @ [tombstone_flag OR expiry_flag]
                @ wr_key rec @ (case wr_value rec of Some v \<Rightarrow> v | None \<Rightarrow> [])))"

fun encode_records :: "wire_record list \<Rightarrow> codec_error + bytes" where
  "encode_records [] = Inr []"
| "encode_records (rec # recs) =
     (case encode_record rec of
        Inl err \<Rightarrow> Inl err
      | Inr b \<Rightarrow> (case encode_records recs of Inl err \<Rightarrow> Inl err | Inr bs \<Rightarrow> Inr (b @ bs)))"

definition encode_raw_frame :: "u8 \<Rightarrow> bytes \<Rightarrow> wire_record list \<Rightarrow> raw_extra \<Rightarrow> codec_error + bytes" where
  "encode_raw_frame kind cache recs extra =
     (if 2 ^ 16 \<le> length cache then Inl (MalformedFrame ''cache name exceeds 64 KiB'')
      else if 2 ^ 32 \<le> length recs then Inl (MalformedFrame ''record count exceeds u32::MAX'')
      else
        let done = (case extra of Done d \<Rightarrow> d | _ \<Rightarrow> False);
            head = [frame_kind_raw_record, kind, if done then 1 else 0]
                   @ to_le_bytes 2 (of_nat (length cache) :: u16) @ to_le_bytes 4 (of_nat (length recs) :: u32)
                   @ cache
                   @ (case extra of Forward view_hash hops \<Rightarrow> to_le_bytes 8 view_hash @ [hops] | _ \<Rightarrow> [])
        in case encode_records recs of
             Inl err \<Rightarrow> Inl err
           | Inr body \<Rightarrow>
               (case check_frame_len (length (head @ body)) of
                  Inl err \<Rightarrow> Inl err
                | Inr _ \<Rightarrow> Inr (head @ body)))"

definition encode_postcard :: "('m \<Rightarrow> bytes option) \<Rightarrow> 'm \<Rightarrow> codec_error + bytes" where
  "encode_postcard to_stdvec m =
     (case to_stdvec m of
        None \<Rightarrow> Inl Postcard
      | Some body \<Rightarrow>
          (case check_frame_len (length (frame_kind_postcard # body)) of
             Inl err \<Rightarrow> Inl err
           | Inr _ \<Rightarrow> Inr (frame_kind_postcard # body)))"

fun encode :: "('m \<Rightarrow> bytes option) \<Rightarrow> 'm msg \<Rightarrow> codec_error + bytes" where
  "encode to_stdvec (Replicate cache rec) = encode_raw_frame raw_kind_replicate cache [rec] No_Extra"
| "encode to_stdvec (ReplicateBatch cache recs) = encode_raw_frame raw_kind_replicate_batch cache recs No_Extra"
| "encode to_stdvec (StChunk cache recs done) = encode_raw_frame raw_kind_st_chunk cache recs (Done done)"
| "encode to_stdvec (StBucketChunk cache recs done) =
     encode_raw_frame raw_kind_st_bucket_chunk cache recs (Done done)"
| "encode to_stdvec (ForwardBatch cache view_hash hops recs) =
     encode_raw_frame raw_kind_forward_batch cache recs (Forward view_hash hops)"
| "encode to_stdvec (Control m) = encode_postcard to_stdvec m"

section \<open>Decoding\<close>

text \<open>\<open>take\<close> slices a range out of the body, or refuses one that runs past its end.\<close>

definition wire_take :: "bytes \<Rightarrow> nat \<Rightarrow> nat \<Rightarrow> codec_error + bytes" where
  "wire_take body offset len =
     (if 2 ^ 64 \<le> offset + len then Inl (MalformedFrame ''record length overflows a frame offset'')
      else if length body < offset + len then Inl (MalformedFrame ''raw-record frame truncated'')
      else Inr (take len (drop offset body)))"

definition field :: "nat \<Rightarrow> nat \<Rightarrow> bytes \<Rightarrow> bytes" where
  "field at n bs = take n (drop at bs)"

text \<open>One turn of the record loop: the record at \<open>offset\<close> and the offset past it.\<close>

definition decode_record :: "bytes \<Rightarrow> nat \<Rightarrow> codec_error + (wire_record \<times> nat)" where
  "decode_record body offset =
     (let h = drop (min offset (length body)) body
      in if length h < record_header_len then Inl (MalformedFrame ''record header truncated'')
         else
           let offset = offset + record_header_len;
               key_len = unat (from_le_bytes (field 28 4 h) :: u32);
               flags = hd (field 36 1 h)
           in case wire_take body offset key_len of
                Inl err \<Rightarrow> Inl err
              | Inr key \<Rightarrow>
                  let offset = offset + key_len;
                      ver = Hlc (from_le_bytes (field 0 8 h)) (from_le_bytes (field 8 4 h))
                              (NodeId (from_le_bytes (field 12 8 h)));
                      expires = (if flags AND record_flag_has_expiry \<noteq> 0
                                 then Some (from_le_bytes (field 20 8 h)) else None)
                  in if flags AND record_flag_tombstone \<noteq> 0
                     then Inr (\<lparr>wr_key = key, wr_value = None, wr_ver = ver, wr_expires = expires\<rparr>, offset)
                     else
                       let value_len = unat (from_le_bytes (field 32 4 h) :: u32)
                       in case wire_take body offset value_len of
                            Inl err \<Rightarrow> Inl err
                          | Inr value \<Rightarrow>
                              Inr (\<lparr>wr_key = key, wr_value = Some value, wr_ver = ver, wr_expires = expires\<rparr>,
                                   offset + value_len))"

fun decode_records :: "nat \<Rightarrow> bytes \<Rightarrow> nat \<Rightarrow> codec_error + wire_record list" where
  "decode_records 0 body offset = Inr []"
| "decode_records (Suc n) body offset =
     (case decode_record body offset of
        Inl err \<Rightarrow> Inl err
      | Inr (rec, offset') \<Rightarrow>
          (case decode_records n body offset' of Inl err \<Rightarrow> Inl err | Inr recs \<Rightarrow> Inr (rec # recs)))"

definition decode_raw_frame :: "bytes \<Rightarrow> codec_error + 'm msg" where
  "decode_raw_frame body =
     (if length body < raw_frame_header_len then Inl (MalformedFrame ''raw frame header truncated'')
      else
        let kind = hd (field 0 1 body); done = hd (field 1 1 body);
            cache_len = unat (from_le_bytes (field 2 2 body) :: u16);
            record_count = unat (from_le_bytes (field 4 4 body) :: u32);
            offset = raw_frame_header_len
        in case wire_take body offset cache_len of
             Inl err \<Rightarrow> Inl err
           | Inr cache \<Rightarrow>
               if \<not> valid_utf8 cache then Inl (MalformedFrame ''cache name is not valid utf-8'')
               else
                 let offset = offset + cache_len;
                     fh = drop (min offset (length body)) body;
                     is_forward = (kind = raw_kind_forward_batch)
                 in if is_forward \<and> length fh < forward_header_len
                    then Inl (MalformedFrame ''forward header truncated'')
                    else
                      let view_hash = from_le_bytes (field 0 8 fh); hops = hd (field 8 1 fh);
                          offset = (if is_forward then offset + forward_header_len else offset)
                      in case decode_records record_count body offset of
                           Inl err \<Rightarrow> Inl err
                         | Inr recs \<Rightarrow>
                             if kind = raw_kind_replicate then
                               (case recs of
                                  [] \<Rightarrow> Inl (MalformedFrame ''Replicate frame carries no record'')
                                | [rec] \<Rightarrow> Inr (Replicate cache rec)
                                | _ \<Rightarrow> Inl (MalformedFrame ''Replicate frame carries more than one record''))
                             else if kind = raw_kind_replicate_batch then Inr (ReplicateBatch cache recs)
                             else if kind = raw_kind_st_chunk then Inr (StChunk cache recs (done \<noteq> 0))
                             else if kind = raw_kind_st_bucket_chunk then Inr (StBucketChunk cache recs (done \<noteq> 0))
                             else if kind = raw_kind_forward_batch then Inr (ForwardBatch cache view_hash hops recs)
                             else Inl (MalformedFrame ''unknown raw-record message kind''))"

definition decode ::
  "(bytes \<Rightarrow> 'm option) \<Rightarrow> (bytes \<Rightarrow> 'm option) \<Rightarrow> bytes \<Rightarrow> codec_error + 'm msg" where
  "decode from_bytes decode_older_hello frame =
     (case check_frame_len (length frame) of
        Inl err \<Rightarrow> Inl err
      | Inr _ \<Rightarrow>
          (case frame of
             [] \<Rightarrow> Inl (MalformedFrame ''empty frame'')
           | kind # body \<Rightarrow>
               if kind = frame_kind_postcard then
                 (case from_bytes body of
                    Some m \<Rightarrow> Inr (Control m)
                  | None \<Rightarrow> (case decode_older_hello body of Some m \<Rightarrow> Inr (Control m) | None \<Rightarrow> Inl Postcard))
               else if kind = frame_kind_raw_record then decode_raw_frame body
               else Inl (MalformedFrame ''unknown frame discriminant'')))"

section \<open>Snapshot chunks\<close>

definition snapshot_chunk_size :: nat where "snapshot_chunk_size = 500"
definition snapshot_chunk_envelope_headroom :: nat where "snapshot_chunk_envelope_headroom = 4 * 1024"

definition chunk_budget :: nat where
  "chunk_budget = max_frame - snapshot_chunk_envelope_headroom"

definition rec_size :: "wire_record \<Rightarrow> nat" where
  "rec_size rec = record_header_len + length (wr_key rec) + map_or 0 length (wr_value rec)"

fun chunk_loop :: "wire_record list \<Rightarrow> wire_record list \<Rightarrow> nat \<Rightarrow> wire_record list list" where
  "chunk_loop [] current current_size = (if current = [] then [] else [current])"
| "chunk_loop (rec # recs) current current_size =
     (if (chunk_budget < current_size + rec_size rec \<or> snapshot_chunk_size \<le> length current) \<and> current \<noteq> []
      then current # chunk_loop recs [rec] (0 + rec_size rec)
      else chunk_loop recs (current @ [rec]) (current_size + rec_size rec))"

definition chunk_records_for_snapshot :: "wire_record list \<Rightarrow> wire_record list list" where
  "chunk_records_for_snapshot records = chunk_loop records [] 0"

section \<open>Frames round-trip\<close>

lemma field_append [simp]:
  "field at n (xs @ ys) =
     (if length xs \<le> at then field (at - length xs) n ys
      else if at + n \<le> length xs then field at n xs else take n (drop at xs @ ys))"
  by (auto simp: field_def)

lemma field_all: "length xs = n \<Longrightarrow> field 0 n xs = xs"
  by (simp add: field_def)

lemma field_le_bytes [simp]: "field 0 n (to_le_bytes n w) = to_le_bytes n w"
  by (simp add: field_all)

lemma field_single [simp]: "field 0 (Suc 0) (x # xs) = [x]"
  by (simp add: field_def)

definition record_header :: "wire_record \<Rightarrow> bytes" where
  "record_header rec =
     to_le_bytes 8 (wall_ms (wr_ver rec)) @ to_le_bytes 4 (logical (wr_ver rec))
     @ to_le_bytes 8 (as_u64 (hlc_node (wr_ver rec)))
     @ to_le_bytes 8 (map_or 0 (\<lambda>x. x) (wr_expires rec))
     @ to_le_bytes 4 (of_nat (length (wr_key rec)) :: u32)
     @ to_le_bytes 4 (of_nat (map_or 0 length (wr_value rec)) :: u32)
     @ [(if wr_value rec = None then record_flag_tombstone else 0)
        OR (if wr_expires rec = None then 0 else record_flag_has_expiry)]"

definition value_bytes :: "wire_record \<Rightarrow> bytes" where
  "value_bytes rec = map_or [] (\<lambda>v. v) (wr_value rec)"

definition record_fits :: "wire_record \<Rightarrow> bool" where
  "record_fits rec \<longleftrightarrow> length (wr_key rec) < 2 ^ 32 \<and> length (value_bytes rec) < 2 ^ 32"

lemma length_record_header: "length (record_header rec) = 37"
  by (simp add: record_header_def)

lemma encode_record_eq:
  "encode_record rec =
     (if \<not> length (wr_key rec) < 2 ^ 32 then Inl (MalformedFrame ''record key exceeds u32::MAX'')
      else if \<not> length (value_bytes rec) < 2 ^ 32 then Inl (MalformedFrame ''record value exceeds u32::MAX'')
      else Inr (record_header rec @ wr_key rec @ value_bytes rec))"
  by (cases "wr_value rec"; cases "wr_expires rec")
    (auto simp: encode_record_def record_header_def value_bytes_def map_or_def is_some_and_def not_less)

lemma encode_record_Inr:
  "encode_record rec = Inr b \<longleftrightarrow> record_fits rec \<and> b = record_header rec @ wr_key rec @ value_bytes rec"
  by (auto simp: encode_record_eq record_fits_def)

lemma header_fields:
  "from_le_bytes (field 0 8 (record_header rec @ r)) = wall_ms (wr_ver rec)"
  "from_le_bytes (field 8 4 (record_header rec @ r)) = logical (wr_ver rec)"
  "from_le_bytes (field 12 8 (record_header rec @ r)) = as_u64 (hlc_node (wr_ver rec))"
  "from_le_bytes (field 20 8 (record_header rec @ r)) = map_or 0 (\<lambda>x. x) (wr_expires rec)"
  "from_le_bytes (field 28 4 (record_header rec @ r)) = (of_nat (length (wr_key rec)) :: u32)"
  "from_le_bytes (field 32 4 (record_header rec @ r)) = (of_nat (map_or 0 length (wr_value rec)) :: u32)"
  by (simp_all add: record_header_def)

lemma header_flags:
  "hd (field 36 (Suc 0) (record_header rec @ r)) AND record_flag_tombstone \<noteq> 0 \<longleftrightarrow> wr_value rec = None"
  "hd (field 36 (Suc 0) (record_header rec @ r)) AND record_flag_has_expiry \<noteq> 0 \<longleftrightarrow> wr_expires rec \<noteq> None"
  by (auto simp: record_header_def record_flag_tombstone_def record_flag_has_expiry_def)

lemma unat_of_nat_u32: "n < 2 ^ 32 \<Longrightarrow> unat (of_nat n :: u32) = n"
  by (simp add: unat_of_nat take_bit_nat_eq_self)

lemma wire_take_mid:
  assumes "offset = length pre" and "length pre + length xs < 2 ^ 64"
  shows "wire_take (pre @ xs @ post) offset (length xs) = Inr xs"
  using assms by (simp add: wire_take_def)

definition record_bytes :: "wire_record \<Rightarrow> bytes" where
  "record_bytes rec = record_header rec @ wr_key rec @ value_bytes rec"

lemma length_record_bytes: "length (record_bytes rec) = 37 + length (wr_key rec) + length (value_bytes rec)"
  by (simp add: record_bytes_def length_record_header)

lemma decode_record_bytes:
  assumes fits: "record_fits rec" and room: "length pre + length (record_bytes rec) < 2 ^ 64"
  shows "decode_record (pre @ record_bytes rec @ post) (length pre)
       = Inr (rec, length pre + length (record_bytes rec))"
proof -
  let ?h = "record_header rec" and ?k = "wr_key rec" and ?v = "value_bytes rec"
  let ?body = "pre @ record_bytes rec @ post"
  have h: "drop (min (length pre) (length ?body)) ?body = ?h @ ?k @ ?v @ post"
    by (simp add: record_bytes_def)
  have k: "wire_take ?body (length pre + record_header_len) (length ?k) = Inr ?k"
    using wire_take_mid[of "length pre + record_header_len" "pre @ ?h" ?k "?v @ post"] room
    by (simp add: record_bytes_def length_record_header record_header_len_def)
  have v: "wire_take ?body (length pre + record_header_len + length ?k) (length ?v) = Inr ?v"
    using wire_take_mid[of "length pre + record_header_len + length ?k" "pre @ ?h @ ?k" ?v post] room
    by (simp add: record_bytes_def length_record_header record_header_len_def)
  have kl: "unat (of_nat (length ?k) :: u32) = length ?k"
    using fits by (intro unat_of_nat_u32) (simp add: record_fits_def)
  have vl: "unat (of_nat (map_or 0 length (wr_value rec)) :: u32) = length ?v"
    using fits by (subst unat_of_nat_u32) (auto simp: record_fits_def value_bytes_def map_or_def split: option.splits)
  have eta: "\<lparr>wr_key = ?k, wr_value = wr_value rec, wr_ver = wr_ver rec, wr_expires = wr_expires rec\<rparr> = rec"
    by simp
  have ver: "Hlc (wall_ms w) (logical w) (NodeId (as_u64 (hlc_node w))) = w" for w by (cases w) simp
  have len: "\<not> length (?h @ ?k @ ?v @ post) < record_header_len"
    by (simp add: length_record_header record_header_len_def)
  show ?thesis
    unfolding decode_record_def Let_def h if_not_P[OF len] One_nat_def header_fields header_flags kl vl k sum.case ver
    using v eta
    by (cases "wr_value rec"; cases "wr_expires rec")
      (auto simp: length_record_bytes record_header_len_def value_bytes_def map_or_def)
qed

lemma encode_records_Inr:
  "encode_records recs = Inr b \<longleftrightarrow> (\<forall>r \<in> set recs. record_fits r) \<and> b = concat (map record_bytes recs)"
  by (induction recs arbitrary: b)
    (auto simp: encode_record_Inr record_bytes_def split: sum.splits, auto simp: encode_record_eq record_fits_def split: if_splits)

lemma decode_records_bytes:
  assumes "\<forall>r \<in> set recs. record_fits r" and "length pre + length (concat (map record_bytes recs)) < 2 ^ 64"
  shows "decode_records (length recs) (pre @ concat (map record_bytes recs)) (length pre) = Inr recs"
  using assms
proof (induction recs arbitrary: pre)
  case (Cons r recs)
  have "decode_record (pre @ record_bytes r @ concat (map record_bytes recs)) (length pre)
      = Inr (r, length pre + length (record_bytes r))"
    using Cons.prems by (intro decode_record_bytes) auto
  moreover have "decode_records (length recs) ((pre @ record_bytes r) @ concat (map record_bytes recs))
      (length (pre @ record_bytes r)) = Inr recs"
    using Cons.prems by (intro Cons.IH) auto
  ultimately show ?case by simp
qed simp

definition extra_bytes :: "raw_extra \<Rightarrow> bytes" where
  "extra_bytes x = (case x of Forward view_hash hops \<Rightarrow> to_le_bytes 8 view_hash @ [hops] | _ \<Rightarrow> [])"

definition done_byte :: "raw_extra \<Rightarrow> u8" where
  "done_byte x = (case x of Done True \<Rightarrow> 1 | _ \<Rightarrow> 0)"

definition frame_head :: "u8 \<Rightarrow> bytes \<Rightarrow> nat \<Rightarrow> raw_extra \<Rightarrow> bytes" where
  "frame_head kind cache n x =
     [kind, done_byte x] @ to_le_bytes 2 (of_nat (length cache) :: u16) @ to_le_bytes 4 (of_nat n :: u32)
     @ cache @ extra_bytes x"

definition frame_body :: "u8 \<Rightarrow> bytes \<Rightarrow> wire_record list \<Rightarrow> raw_extra \<Rightarrow> bytes" where
  "frame_body kind cache recs x = frame_head kind cache (length recs) x @ concat (map record_bytes recs)"

lemma encode_raw_frame_Inr:
  "encode_raw_frame kind cache recs x = Inr f \<longleftrightarrow>
     length cache < 2 ^ 16 \<and> length recs < 2 ^ 32 \<and> (\<forall>r \<in> set recs. record_fits r) \<and>
     f = frame_kind_raw_record # frame_body kind cache recs x \<and> length f \<le> max_frame"
proof -
  have flag: "(if (case x of Done d \<Rightarrow> d | _ \<Rightarrow> False) then 1 else 0) = done_byte x"
    by (cases x) (auto simp: done_byte_def)
  show ?thesis
  proof (cases "encode_records recs")
    case (Inl err)
    then have "\<not> (\<forall>r \<in> set recs. record_fits r)"
      using encode_records_Inr[of recs "concat (map record_bytes recs)"] by auto
    then show ?thesis using Inl by (simp add: encode_raw_frame_def Let_def)
  next
    case (Inr b)
    then have b: "\<forall>r \<in> set recs. record_fits r" "b = concat (map record_bytes recs)"
      by (simp_all add: encode_records_Inr)
    show ?thesis
      using b unfolding encode_raw_frame_def Let_def flag Inr
      by (auto simp: check_frame_len_def frame_body_def frame_head_def extra_bytes_def not_less split: if_splits)
  qed
qed

lemma length_frame_head: "length (frame_head kind cache n x) = 8 + length cache + length (extra_bytes x)"
  by (simp add: frame_head_def)

lemma length_extra_bytes: "length (extra_bytes x) = (case x of Forward _ _ \<Rightarrow> 9 | _ \<Rightarrow> 0)"
  by (simp add: extra_bytes_def split: raw_extra.splits)

lemma unat_of_nat_u16: "n < 2 ^ 16 \<Longrightarrow> unat (of_nat n :: u16) = n"
  by (simp add: unat_of_nat take_bit_nat_eq_self)

lemma frame_fields:
  assumes "length cache < 2 ^ 16" and "n < 2 ^ 32"
  shows "hd (field 0 1 (frame_head kind cache n x @ r)) = kind"
    and "hd (field 1 1 (frame_head kind cache n x @ r)) = done_byte x"
    and "unat (from_le_bytes (field 2 2 (frame_head kind cache n x @ r)) :: u16) = length cache"
    and "unat (from_le_bytes (field 4 4 (frame_head kind cache n x @ r)) :: u32) = n"
proof -
  let ?l = "to_le_bytes 2 (of_nat (length cache) :: u16)" and ?c = "to_le_bytes 4 (of_nat n :: u32)"
  have shape: "frame_head kind cache n x @ r = [kind] @ [done_byte x] @ ?l @ ?c @ cache @ extra_bytes x @ r"
    by (simp add: frame_head_def)
  show "hd (field 0 1 (frame_head kind cache n x @ r)) = kind"
    "hd (field 1 1 (frame_head kind cache n x @ r)) = done_byte x"
    unfolding shape by (simp_all add: field_def)
  have "field 2 2 (frame_head kind cache n x @ r) = ?l" "field 4 4 (frame_head kind cache n x @ r) = ?c"
    unfolding shape by (simp_all add: field_def)
  then show "unat (from_le_bytes (field 2 2 (frame_head kind cache n x @ r)) :: u16) = length cache"
    "unat (from_le_bytes (field 4 4 (frame_head kind cache n x @ r)) :: u32) = n"
    using assms by (simp_all add: unat_of_nat_u16 unat_of_nat_u32)
qed

lemma frame_cache:
  assumes "length cache < 2 ^ 16"
  shows "wire_take (frame_head kind cache n x @ r) raw_frame_header_len (length cache) = Inr cache"
  using wire_take_mid[of 8 "[kind, done_byte x] @ to_le_bytes 2 (of_nat (length cache) :: u16)
      @ to_le_bytes 4 (of_nat n :: u32)" cache "extra_bytes x @ r"] assms
  by (simp add: frame_head_def raw_frame_header_len_def)

lemma frame_forward_header:
  "drop (min (raw_frame_header_len + length cache) (length (frame_head kind cache n x @ r)))
     (frame_head kind cache n x @ r) = extra_bytes x @ r"
proof -
  let ?pre = "[kind, done_byte x] @ to_le_bytes 2 (of_nat (length cache) :: u16) @ to_le_bytes 4 (of_nat n :: u32) @ cache"
  have shape: "frame_head kind cache n x @ r = ?pre @ extra_bytes x @ r" by (simp add: frame_head_def)
  have "drop (min m (length (xs @ ys))) (xs @ ys) = ys" if "length xs = m" for m and xs ys :: bytes
    using that by simp
  then show ?thesis unfolding shape by this (simp add: raw_frame_header_len_def)
qed

lemma decode_raw_frame_bytes:
  assumes "length cache < 2 ^ 16" and "length recs < 2 ^ 32" and "\<forall>r \<in> set recs. record_fits r"
    and "length (frame_body kind cache recs x) < 2 ^ 64" and "valid_utf8 cache"
    and "kind = raw_kind_forward_batch \<longleftrightarrow> (\<exists>v h. x = Forward v h)"
  shows "decode_raw_frame (frame_body kind cache recs x) =
    (if kind = raw_kind_replicate then
       (case recs of
          [] \<Rightarrow> Inl (MalformedFrame ''Replicate frame carries no record'')
        | [rec] \<Rightarrow> Inr (Replicate cache rec)
        | _ \<Rightarrow> Inl (MalformedFrame ''Replicate frame carries more than one record''))
     else if kind = raw_kind_replicate_batch then Inr (ReplicateBatch cache recs)
     else if kind = raw_kind_st_chunk then Inr (StChunk cache recs (done_byte x \<noteq> 0))
     else if kind = raw_kind_st_bucket_chunk then Inr (StBucketChunk cache recs (done_byte x \<noteq> 0))
     else case x of
            Forward v h \<Rightarrow> Inr (ForwardBatch cache v h recs)
          | _ \<Rightarrow> Inl (MalformedFrame ''unknown raw-record message kind''))"
proof -
  let ?hd = "frame_head kind cache (length recs) x" and ?rs = "concat (map record_bytes recs)"
  note fields = frame_fields[OF assms(1,2), of kind x ?rs]
  have long: "\<not> length (?hd @ ?rs) < raw_frame_header_len"
    by (simp add: length_frame_head raw_frame_header_len_def)
  have fh: "\<not> (kind = raw_kind_forward_batch \<and> length (extra_bytes x @ ?rs) < forward_header_len)"
    using assms(6) by (auto simp: forward_header_len_def length_extra_bytes)
  have off: "(if kind = raw_kind_forward_batch then raw_frame_header_len + length cache + forward_header_len
      else raw_frame_header_len + length cache) = length ?hd"
    using assms(6)
    by (auto simp: length_frame_head length_extra_bytes raw_frame_header_len_def forward_header_len_def
        split: raw_extra.splits)
  have recs: "decode_records (length recs) (?hd @ ?rs) (length ?hd) = Inr recs"
    using assms(3,4) by (intro decode_records_bytes) (simp_all add: frame_body_def)
  have fw: "from_le_bytes (field 0 8 (extra_bytes x @ ?rs)) = v \<and> hd (field 8 1 (extra_bytes x @ ?rs)) = h"
    if "x = Forward v h" for v h
    using that by (simp add: extra_bytes_def field_def)
  show ?thesis
    unfolding frame_body_def decode_raw_frame_def Let_def if_not_P[OF long] fields frame_cache[OF assms(1)]
      sum.case frame_forward_header if_not_P[OF fh] off recs
    using assms(5,6) fw by (auto split: raw_extra.splits)
qed

section \<open>Chunks stay within a frame\<close>

definition chunk_ok :: "wire_record list \<Rightarrow> bool" where
  "chunk_ok c \<longleftrightarrow> c \<noteq> [] \<and> length c \<le> snapshot_chunk_size \<and>
     (length c = 1 \<or> sum_list (map rec_size c) \<le> chunk_budget)"

lemma chunk_loop_ok:
  assumes "cur = [] \<or> chunk_ok cur" and "sz = sum_list (map rec_size cur)"
  shows "(\<forall>c \<in> set (chunk_loop recs cur sz). chunk_ok c) \<and> concat (chunk_loop recs cur sz) = cur @ recs"
  using assms
proof (induction recs cur sz rule: chunk_loop.induct)
  case (2 rec recs cur sz)
  show ?case
  proof (cases "(chunk_budget < sz + rec_size rec \<or> snapshot_chunk_size \<le> length cur) \<and> cur \<noteq> []")
    case True
    have "chunk_ok [rec]" by (simp add: chunk_ok_def snapshot_chunk_size_def)
    then show ?thesis using True 2 by simp
  next
    case False
    then have "chunk_ok (cur @ [rec])"
      using 2(3,4) by (auto simp: chunk_ok_def snapshot_chunk_size_def)
    then show ?thesis using 2(2)[OF False] 2(4) unfolding chunk_loop.simps if_not_P[OF False] by simp
  qed
qed auto

lemma rec_size_bytes: "rec_size rec = length (record_bytes rec)"
  by (simp add: rec_size_def length_record_bytes record_header_len_def value_bytes_def map_or_def split: option.splits)

lemma length_frame_of_chunk:
  "length (frame_body kind cache recs x) = 8 + length cache + length (extra_bytes x) + sum_list (map rec_size recs)"
proof -
  have "rec_size = length \<circ> record_bytes" by (auto simp: rec_size_bytes)
  then show ?thesis by (simp add: frame_body_def length_frame_head length_concat)
qed

section \<open>Properties\<close>

text \<open>The cache name is a string, so its bytes are UTF-8: the invariant of the message type.\<close>

fun msg_ok :: "'m msg \<Rightarrow> bool" where
  "msg_ok (Replicate cache rec) = valid_utf8 cache"
| "msg_ok (ReplicateBatch cache recs) = valid_utf8 cache"
| "msg_ok (StChunk cache recs done) = valid_utf8 cache"
| "msg_ok (StBucketChunk cache recs done) = valid_utf8 cache"
| "msg_ok (ForwardBatch cache view_hash hops recs) = valid_utf8 cache"
| "msg_ok (Control m) = True"

lemmas raw_kinds = raw_kind_replicate_def raw_kind_replicate_batch_def raw_kind_st_chunk_def
  raw_kind_st_bucket_chunk_def raw_kind_forward_batch_def

lemma done_byte_simps [simp]: "done_byte (Done d) \<noteq> 0 \<longleftrightarrow> d"
  by (cases d) (simp_all add: done_byte_def)

lemma decode_encoded_raw_frame:
  assumes "encode_raw_frame kind cache recs x = Inr frame" and "valid_utf8 cache"
    and "kind = raw_kind_forward_batch \<longleftrightarrow> (\<exists>v h. x = Forward v h)"
  shows "decode from_bytes older frame = decode_raw_frame (frame_body kind cache recs x)"
    and "length (frame_body kind cache recs x) < 2 ^ 64"
    and "length cache < 2 ^ 16" "length recs < 2 ^ 32" "\<forall>r \<in> set recs. record_fits r"
  using assms
  by (auto simp: encode_raw_frame_Inr decode_def check_frame_len_def frame_kind_raw_record_def
      frame_kind_postcard_def max_frame_def)

lemma decode_encode_raw:
  assumes "encode_raw_frame kind cache recs x = Inr frame" and "valid_utf8 cache"
    and "kind = raw_kind_forward_batch \<longleftrightarrow> (\<exists>v h. x = Forward v h)"
  shows "decode from_bytes older frame =
    (if kind = raw_kind_replicate then
       (case recs of
          [] \<Rightarrow> Inl (MalformedFrame ''Replicate frame carries no record'')
        | [rec] \<Rightarrow> Inr (Replicate cache rec)
        | _ \<Rightarrow> Inl (MalformedFrame ''Replicate frame carries more than one record''))
     else if kind = raw_kind_replicate_batch then Inr (ReplicateBatch cache recs)
     else if kind = raw_kind_st_chunk then Inr (StChunk cache recs (done_byte x \<noteq> 0))
     else if kind = raw_kind_st_bucket_chunk then Inr (StBucketChunk cache recs (done_byte x \<noteq> 0))
     else case x of
            Forward v h \<Rightarrow> Inr (ForwardBatch cache v h recs)
          | _ \<Rightarrow> Inl (MalformedFrame ''unknown raw-record message kind''))"
  unfolding decode_encoded_raw_frame(1)[OF assms]
  using decode_encoded_raw_frame(2-5)[OF assms] assms(2,3) by (intro decode_raw_frame_bytes)

lemma decode_encode:
  assumes "encode to_stdvec m = Inr frame" and "msg_ok m"
    and "\<And>c bs. to_stdvec c = Some bs \<Longrightarrow> from_bytes bs = Some c"
  shows "decode from_bytes older frame = Inr m"
proof (cases m)
  case (Control c)
  then show ?thesis
    using assms(1,3) by (auto simp: encode_postcard_def decode_def check_frame_len_def frame_kind_postcard_def
        split: option.splits if_splits)
next
  case (Replicate cache rec)
  then show ?thesis
    using assms decode_encode_raw[of raw_kind_replicate cache "[rec]" No_Extra frame] by (simp add: raw_kinds)
next
  case (ReplicateBatch cache recs)
  then show ?thesis
    using assms decode_encode_raw[of raw_kind_replicate_batch cache recs No_Extra frame] by (simp add: raw_kinds)
next
  case (StChunk cache recs d)
  then show ?thesis
    using assms decode_encode_raw[of raw_kind_st_chunk cache recs "Done d" frame] by (simp add: raw_kinds)
next
  case (StBucketChunk cache recs d)
  then show ?thesis
    using assms decode_encode_raw[of raw_kind_st_bucket_chunk cache recs "Done d" frame] by (simp add: raw_kinds)
next
  case (ForwardBatch cache v h recs)
  then show ?thesis
    using assms decode_encode_raw[of raw_kind_forward_batch cache recs "Forward v h" frame] by (simp add: raw_kinds)
qed

text \<open>
  C26: every message that encodes decodes back to itself: headers, flags, tombstones, expiries and
  the forward header included. The control messages' codec is only assumed to invert itself.
\<close>

theorem wire_roundtrip:
  assumes "encode to_stdvec m = Inr frame" and "msg_ok m"
    and "\<And>c bs. to_stdvec c = Some bs \<Longrightarrow> from_bytes bs = Some c"
  shows "decode from_bytes older frame = Inr m"
  by (rule decode_encode[OF assms])

text \<open>A concrete instance of the crates' functions, for the witnesses.\<close>

definition demo_externs :: externs where
  "demo_externs =
     \<lparr>xxh3 = (\<lambda>bs. foldl (\<lambda>h b. h * 31 + ucast b) 7 bs),
      enc_len = (\<lambda>n. to_le_bytes 4 n),
      take_len = (\<lambda>bs. if length bs < 4 then None else Some (from_le_bytes (take 4 bs), drop 4 bs)),
      enc_hlc = (\<lambda>v. to_le_bytes 8 (wall_ms v) @ to_le_bytes 4 (logical v) @ to_le_bytes 8 (as_u64 (hlc_node v)))\<rparr>"

lemma demo_externs_ok [simp]: "externs_ok demo_externs"
  by (simp add: externs_ok_def demo_externs_def)

definition demo_record :: wire_record where
  "demo_record = \<lparr>wr_key = [7, 8], wr_value = Some [9], wr_ver = Hlc 300 2 (NodeId 5), wr_expires = Some 70000\<rparr>"

theorem wire_roundtrip_witness:
  "\<exists>frame. encode (\<lambda>c. Some [c]) (ForwardBatch [99] 3 1 [demo_record, demo_record\<lparr>wr_value := None\<rparr>]) = Inr frame \<and>
     decode (\<lambda>bs. if bs = [] then None else Some (hd bs)) (\<lambda>_. None) frame
       = Inr (ForwardBatch [99] 3 1 [demo_record, demo_record\<lparr>wr_value := None\<rparr>])"
proof -
  let ?m = "ForwardBatch [99] 3 1 [demo_record, demo_record\<lparr>wr_value := None\<rparr>]"
  have "\<exists>f. encode_raw_frame raw_kind_forward_batch [99] [demo_record, demo_record\<lparr>wr_value := None\<rparr>] (Forward 3 1) = Inr f"
    by (simp add: encode_raw_frame_Inr record_fits_def demo_record_def value_bytes_def map_or_def max_frame_def
        frame_body_def length_frame_head length_extra_bytes length_record_bytes)
  then obtain frame where f: "encode (\<lambda>c. Some [c]) ?m = Inr frame" by auto
  have "decode (\<lambda>bs. if bs = [] then None else Some (hd bs)) (\<lambda>_. None) frame = Inr ?m"
    by (rule wire_roundtrip[OF f]) (auto simp: )
  then show ?thesis using f by blast
qed

text \<open>
  The length the writers' size guards compute, without encoding, is the exact length of the
  frame: of a lone replicate and of a one-record forward.
\<close>

theorem frame_lengths_exact:
  assumes "encode to_stdvec (Replicate cache rec) = Inr f" and "encode to_stdvec (ForwardBatch cache vh hops [rec]) = Inr g"
  shows "length f = replicate_frame_len (length cache) (length (wr_key rec)) (map_or 0 length (wr_value rec)) \<and>
    length g = forward_frame_len (length cache) (length (wr_key rec)) (map_or 0 length (wr_value rec))"
proof -
  have v: "length (value_bytes rec) = map_or 0 length (wr_value rec)"
    by (simp add: value_bytes_def map_or_def split: option.splits)
  show ?thesis
    using assms
    by (simp add: encode_raw_frame_Inr frame_body_def length_frame_head length_extra_bytes length_record_bytes v
        replicate_frame_len_def forward_frame_len_def raw_frame_header_len_def forward_header_len_def record_header_len_def)
qed

theorem frame_lengths_exact_witness:
  "\<exists>f g. encode (\<lambda>_ :: unit. None) (Replicate [99] demo_record) = Inr f \<and>
     encode (\<lambda>_ :: unit. None) (ForwardBatch [99] 3 1 [demo_record]) = Inr g \<and> length f = 50 \<and> length g = 59"
proof -
  have ex: "\<exists>f. encode_raw_frame k [99] [demo_record] x = Inr f" for k x
    by (cases x) (simp_all add: encode_raw_frame_Inr record_fits_def demo_record_def value_bytes_def map_or_def max_frame_def
        frame_body_def length_frame_head length_extra_bytes length_record_bytes)
  obtain f g where "encode (\<lambda>_ :: unit. None) (Replicate [99] demo_record) = Inr f"
    and "encode (\<lambda>_ :: unit. None) (ForwardBatch [99] 3 1 [demo_record]) = Inr g"
    using ex by fastforce
  with frame_lengths_exact[OF this] show ?thesis
    by (auto simp: demo_record_def map_or_def replicate_frame_len_def forward_frame_len_def raw_frame_header_len_def
        forward_header_len_def record_header_len_def)
qed


text \<open>
  Snapshot chunking loses, reorders and duplicates nothing, never emits an empty chunk or one
  over 500 records, and every chunk of more than one record encodes: its state-transfer frame is
  within the 4 MiB frame limit for any cache name under the reserved headroom.
\<close>

theorem snapshot_chunks_fit:
  assumes "\<forall>r \<in> set records. record_fits r" and "length cache + 9 \<le> snapshot_chunk_envelope_headroom"
  shows "concat (chunk_records_for_snapshot records) = records \<and>
    (\<forall>c \<in> set (chunk_records_for_snapshot records). c \<noteq> [] \<and> length c \<le> snapshot_chunk_size \<and>
       (1 < length c \<longrightarrow> (\<exists>frame. encode to_stdvec (StChunk cache c done) = Inr frame)))"
proof -
  have loop: "\<forall>c \<in> set (chunk_records_for_snapshot records). chunk_ok c"
    "concat (chunk_records_for_snapshot records) = records"
    using chunk_loop_ok[of "[]" 0 records] by (simp_all add: chunk_records_for_snapshot_def)
  have "\<exists>frame. encode to_stdvec (StChunk cache c done) = Inr frame"
    if c: "c \<in> set (chunk_records_for_snapshot records)" "1 < length c" for c
  proof -
    have ok: "length c \<le> 500" "sum_list (map rec_size c) \<le> chunk_budget"
      using loop(1) c by (auto simp: chunk_ok_def snapshot_chunk_size_def)
    have "set c \<subseteq> set records" using loop(2) c(1) by (metis UN_upper set_concat)
    then have fits: "\<forall>r \<in> set c. record_fits r" using assms(1) by auto
    have "Suc (length (frame_body raw_kind_st_chunk cache c (Done done))) \<le> max_frame"
      using ok(2) assms(2)
      by (simp add: length_frame_of_chunk length_extra_bytes chunk_budget_def max_frame_def
          snapshot_chunk_envelope_headroom_def)
    then show ?thesis
      using ok(1) assms(2) fits
      by (simp add: encode_raw_frame_Inr snapshot_chunk_envelope_headroom_def)
  qed
  then show ?thesis using loop by (auto simp: chunk_ok_def)
qed

theorem snapshot_chunks_fit_witness:
  "concat (chunk_records_for_snapshot [demo_record, demo_record]) = [demo_record, demo_record]"
proof -
  have "\<forall>r \<in> set [demo_record, demo_record]. record_fits r"
    by (simp add: record_fits_def demo_record_def value_bytes_def map_or_def)
  moreover have "length [99 :: u8] + 9 \<le> snapshot_chunk_envelope_headroom"
    by (simp add: snapshot_chunk_envelope_headroom_def)
  ultimately show ?thesis by (rule snapshot_chunks_fit[THEN conjunct1])
qed

end
