(* ===== verification/Conflict.thy ===== *)
theory Conflict
  imports Expiry Wire Pn_Counter
begin

text \<open>
  Conflict resolution for a colliding write (\<^verbatim>\<open>engine/merge.rs\<close>): when a side has lapsed,
  what a tombstone decides, which sides fold, the version a merge is stored under, the frame cap,
  and the whole decision \<open>resolve_and_rebind\<close>. The interface \<open>merging_resolver\<close> is what
  the store relies on from a resolver that merges; under it two replicas that exchange their
  records settle on the same record in one round.
\<close>

section \<open>Which side survives\<close>

datatype resolution =
    Incoming_Loses
  | Incoming_Wins
  | Merged_To bytes "u64 option"

definition lapsed_before :: "u64 option \<Rightarrow> hlc \<Rightarrow> bool" where
  "lapsed_before expires_at_ms other_ver \<longleftrightarrow> is_some_and (\<lambda>deadline. deadline \<le> wall_ms other_ver) expires_at_ms"

definition tombstone_resolution :: "hlc \<Rightarrow> hlc \<Rightarrow> bool \<Rightarrow> bool \<Rightarrow> resolution option" where
  "tombstone_resolution sv ver stored_tombstone incoming_tombstone =
     (if stored_tombstone \<or> incoming_tombstone
      then Some (if sv < ver then Incoming_Wins else Incoming_Loses) else None)"

datatype fold = Fold_Both | Fold_Stored | Fold_Incoming | Fold_Winner

definition fold_sides :: "bool \<Rightarrow> hlc \<Rightarrow> u64 option \<Rightarrow> hlc \<Rightarrow> u64 option \<Rightarrow> fold" where
  "fold_sides stored_absent sv stored_expires ver incoming_expires =
     (let stored_dead = (stored_absent \<or> lapsed_before stored_expires ver);
          incoming_dead = lapsed_before incoming_expires sv
      in case (stored_dead, incoming_dead) of
           (False, False) \<Rightarrow> Fold_Both
         | (True, False) \<Rightarrow> Fold_Incoming
         | (False, True) \<Rightarrow> Fold_Stored
         | (True, True) \<Rightarrow> Fold_Winner)"

fun is_tombstone :: "'v incoming \<Rightarrow> bool" where
  "is_tombstone (Tombstone _) = True"
| "is_tombstone (Put _ _ _) = False"

definition winner_resolution :: "winner \<Rightarrow> resolution" where
  "winner_resolution w = (case w of A \<Rightarrow> Incoming_Loses | B \<Rightarrow> Incoming_Wins)"

definition resolve_conflict ::
  "conflict_resolver \<Rightarrow> bytes \<Rightarrow> hlc \<Rightarrow> bytes option \<Rightarrow> u64 option \<Rightarrow> bool \<Rightarrow> bool \<Rightarrow> hlc \<Rightarrow> 'v incoming
     \<Rightarrow> resolution" where
  "resolve_conflict r key_bytes sv stored_encoded stored_expires stored_absent stored_tombstone ver incoming =
     (if sv = ver then Incoming_Loses
      else case tombstone_resolution sv ver stored_tombstone (is_tombstone incoming) of
        Some res \<Rightarrow> res
      | None \<Rightarrow>
          let needs = cr_needs_value_bytes r;
              stored_view = \<lparr>view_value = opt_filter needs stored_encoded, view_ver = sv,
                             view_expires = stored_expires\<rparr>;
              (incoming_encoded, incoming_expires) =
                (case incoming of Put _ x enc \<Rightarrow> (Some enc, x) | Tombstone _ \<Rightarrow> (None, None));
              incoming_view = \<lparr>view_value = opt_filter needs incoming_encoded, view_ver = ver,
                               view_expires = incoming_expires\<rparr>;
              by_winner = winner_resolution (cr_winner r key_bytes stored_view incoming_view)
          in case (if cr_merges r then incoming_encoded else None) of
               None \<Rightarrow> by_winner
             | Some incoming_bytes \<Rightarrow>
                 (case fold_sides stored_absent sv stored_expires ver incoming_expires of
                    Fold_Both \<Rightarrow>
                      (case (if view_value stored_view \<noteq> None \<and> view_value incoming_view \<noteq> None
                             then cr_merge r key_bytes stored_view incoming_view else None) of
                         Some m \<Rightarrow> Merged_To (merged_value m) (merged_expires m)
                       | None \<Rightarrow> by_winner)
                  | Fold_Incoming \<Rightarrow> Merged_To incoming_bytes incoming_expires
                  | Fold_Stored \<Rightarrow>
                      (case view_value stored_view of
                         Some stored_bytes \<Rightarrow> Merged_To stored_bytes stored_expires
                       | None \<Rightarrow> by_winner)
                  | Fold_Winner \<Rightarrow> by_winner))"

section \<open>The version of a merge\<close>

datatype merged_version = No_Op | Store_At hlc

type_synonym content = "bytes \<times> u64 option"

text \<open>The streaming hasher hashes the concatenation of what it is fed.\<close>

definition content_hash :: "externs \<Rightarrow> bytes \<Rightarrow> u64 option \<Rightarrow> u64" where
  "content_hash e bs expires_at_ms =
     (case expires_at_ms of None \<Rightarrow> xxh3 e bs | Some deadline \<Rightarrow> xxh3 e (bs @ to_le_bytes 8 deadline))"

definition mint_stamp :: "hlc \<Rightarrow> hlc \<Rightarrow> node_id \<Rightarrow> hlc" where
  "mint_stamp sv ver node =
     (let base_wall = max (wall_ms sv) (wall_ms ver);
          base_logical = max (logical sv) (logical ver);
          (w, l) = (case (checked_add base_logical 1, checked_add base_wall 1) of
                      (Some l, _) \<Rightarrow> (base_wall, l)
                    | (None, Some w) \<Rightarrow> (w, 0)
                    | (None, None) \<Rightarrow> (u64_max, u32_max))
      in Hlc w l node)"

definition merge_decision :: "hlc \<Rightarrow> hlc \<Rightarrow> bool \<Rightarrow> bool \<Rightarrow> node_id \<Rightarrow> merged_version" where
  "merge_decision sv ver is_stored is_incoming mint_node =
     (if is_stored \<and> is_incoming then (let v = max sv ver in if v = sv then No_Op else Store_At v)
      else if is_incoming \<and> sv < ver then Store_At ver
      else if is_stored \<and> ver < sv then No_Op
      else Store_At (mint_stamp sv ver mint_node))"

definition merge_version :: "externs \<Rightarrow> hlc \<Rightarrow> hlc \<Rightarrow> content option \<Rightarrow> content \<Rightarrow> content \<Rightarrow> merged_version" where
  "merge_version e sv ver stored incoming merged =
     merge_decision sv ver (stored = Some merged) (incoming = merged)
       (merge_derived (content_hash e (fst merged) (snd merged)))"

section \<open>The frame cap\<close>

definition merge_fits :: "nat \<Rightarrow> nat \<Rightarrow> nat \<Rightarrow> bool" where
  "merge_fits merged_len stored_len limit \<longleftrightarrow> merged_len \<le> limit \<or> merged_len \<le> stored_len"

record merge_cap =
  cap_cache_len :: nat
  cap_limit :: nat

definition admits_by :: "merge_cap \<Rightarrow> (nat \<Rightarrow> nat \<Rightarrow> nat \<Rightarrow> nat) \<Rightarrow> nat \<Rightarrow> nat \<Rightarrow> nat option \<Rightarrow> bool" where
  "admits_by cap frame_len key_len merged_len stored_len =
     (let frame = frame_len (cap_cache_len cap) key_len
      in merge_fits (frame merged_len) (map_or 0 frame stored_len) (cap_limit cap))"

definition cap_admits :: "merge_cap \<Rightarrow> nat \<Rightarrow> nat \<Rightarrow> nat option \<Rightarrow> bool" where
  "cap_admits cap = admits_by cap forward_frame_len"

definition admits_contribution :: "merge_cap \<Rightarrow> nat \<Rightarrow> nat \<Rightarrow> nat option \<Rightarrow> bool" where
  "admits_contribution cap = admits_by cap replicate_frame_len"

section \<open>The whole decision\<close>

datatype 'v rebound =
    Lost
  | Rebound_Store hlc "'v incoming"
  | Too_Large nat

definition resolve_and_rebind ::
  "externs \<Rightarrow> (bytes \<Rightarrow> 'v option) \<Rightarrow> conflict_resolver \<Rightarrow> merge_cap option \<Rightarrow> bytes \<Rightarrow> hlc \<Rightarrow> bytes option
     \<Rightarrow> u64 option \<Rightarrow> bool \<Rightarrow> bool \<Rightarrow> hlc \<Rightarrow> 'v incoming \<Rightarrow> 'v rebound" where
  "resolve_and_rebind e from_bytes r cap key_bytes sv stored_encoded stored_expires stored_absent
       stored_tombstone ver incoming =
     (case resolve_conflict r key_bytes sv stored_encoded stored_expires stored_absent stored_tombstone ver incoming of
        Incoming_Loses \<Rightarrow> Lost
      | Incoming_Wins \<Rightarrow> Rebound_Store ver incoming
      | Merged_To value expires_at_ms \<Rightarrow>
          (case incoming of
             Tombstone _ \<Rightarrow> Lost
           | Put _ incoming_expires incoming_encoded \<Rightarrow>
               let result_is_incoming = (value = incoming_encoded \<and> expires_at_ms = incoming_expires);
                   stored = map_option (\<lambda>bs. (bs, stored_expires)) (opt_filter (\<not> stored_absent) stored_encoded)
               in case merge_version e sv ver stored (incoming_encoded, incoming_expires) (value, expires_at_ms) of
                    No_Op \<Rightarrow> Lost
                  | Store_At new_ver \<Rightarrow>
                      if is_some_and (\<lambda>cap.
                           let stored_len = map_option (\<lambda>(bs, _). length bs) stored
                           in \<not> (if result_is_incoming
                                 then admits_contribution cap (length key_bytes) (length value) stored_len
                                 else cap_admits cap (length key_bytes) (length value) stored_len)) cap
                      then Too_Large (length value)
                      else if result_is_incoming then Rebound_Store new_ver incoming
                      else case from_bytes value of
                             None \<Rightarrow> Lost
                           | Some decoded \<Rightarrow> Rebound_Store new_ver (Put decoded expires_at_ms value)))"

section \<open>Stamps\<close>

lemma mint_stamp_commute: "mint_stamp a b n = mint_stamp b a n"
  by (simp add: mint_stamp_def max.commute)

definition mint_room :: "hlc \<Rightarrow> hlc \<Rightarrow> bool" where
  "mint_room sv ver \<longleftrightarrow>
     \<not> (max (wall_ms sv) (wall_ms ver) = u64_max \<and> max (logical sv) (logical ver) = u32_max)"

lemma mint_stamp_gt:
  assumes "mint_room sv ver"
  shows "sv < mint_stamp sv ver n" and "ver < mint_stamp sv ver n"
proof -
  let ?w = "max (wall_ms sv) (wall_ms ver)" and ?l = "max (logical sv) (logical ver)"
  have room: "?l \<noteq> u32_max \<or> ?w \<noteq> u64_max" using assms by (auto simp: mint_room_def)
  have "x < mint_stamp sv ver n" if "wall_ms x \<le> ?w" "logical x \<le> ?l" for x
  proof (cases "?l = u32_max")
    case True
    then have "?w < ?w + 1" using room by (intro word_less_inc) simp
    with that(1) have "wall_ms x < ?w + 1" by (rule order.strict_trans1)
    then show ?thesis using True room by (simp add: mint_stamp_def Let_def checked_add_one less_hlc_def)
  next
    case False
    have "logical x < ?l + 1" using that(2) word_less_inc[OF False] by (rule order.strict_trans1)
    then show ?thesis using False that(1) by (auto simp: mint_stamp_def Let_def checked_add_one less_hlc_def)
  qed
  from this[of sv] this[of ver] show "sv < mint_stamp sv ver n" "ver < mint_stamp sv ver n" by simp_all
qed

lemma merge_decision_gt:
  assumes "merge_decision sv ver is_stored is_incoming n = Store_At v" and "mint_room sv ver"
  shows "sv < v" and "ver \<le> v"
  using assms mint_stamp_gt[OF assms(2), of n]
  by (auto simp: merge_decision_def Let_def max_def split: if_splits)

lemma fold_sides_swap:
  "fold_sides False sv sx ver ix = Fold_Both \<longleftrightarrow> fold_sides False ver ix sv sx = Fold_Both"
  "fold_sides False sv sx ver ix = Fold_Winner \<longleftrightarrow> fold_sides False ver ix sv sx = Fold_Winner"
  "fold_sides False sv sx ver ix = Fold_Stored \<longleftrightarrow> fold_sides False ver ix sv sx = Fold_Incoming"
  by (auto simp: fold_sides_def Let_def split: bool.splits)

section \<open>Two replicas settle in one exchange\<close>

fun settled :: "hlc \<times> content \<Rightarrow> 'v rebound \<Rightarrow> hlc \<times> content" where
  "settled s (Rebound_Store v (Put _ x enc)) = (v, (enc, x))"
| "settled s _ = s"

definition settle_merged :: "externs \<Rightarrow> hlc \<Rightarrow> content \<Rightarrow> hlc \<Rightarrow> content \<Rightarrow> content \<Rightarrow> hlc \<times> content" where
  "settle_merged e sv s ver i m =
     (case merge_version e sv ver (Some s) i m of No_Op \<Rightarrow> (sv, s) | Store_At v \<Rightarrow> (v, m))"

lemma settle_merged_swap: "settle_merged e sv s ver i m = settle_merged e ver i sv s m"
  unfolding settle_merged_def merge_version_def merge_decision_def Let_def mint_stamp_commute[of sv]
  by (cases "s = m"; cases "i = m"; cases sv ver rule: linorder_cases) (auto simp: max_def)

definition side_view :: "hlc \<Rightarrow> content \<Rightarrow> record_view" where
  "side_view v c = \<lparr>view_value = Some (fst c), view_ver = v, view_expires = snd c\<rparr>"

text \<open>A value that a frame of the cache can carry, forwarded or not.\<close>

definition within_cap :: "merge_cap option \<Rightarrow> bytes \<Rightarrow> bytes \<Rightarrow> bool" where
  "within_cap cap k value = is_none_or (\<lambda>c. forward_frame_len (cap_cache_len c) (length k) (length value) \<le> cap_limit c) cap"

lemma within_cap_admits:
  "within_cap (Some c) k value \<Longrightarrow> cap_admits c (length k) (length value) stored \<and> admits_contribution c (length k) (length value) stored"
  by (auto simp: within_cap_def cap_admits_def admits_contribution_def admits_by_def merge_fits_def Let_def forward_frame_len_def)

locale merging_resolver =
  fixes r :: conflict_resolver
  assumes merges: "cr_merges r" and needs_bytes: "cr_needs_value_bytes r"
    and by_version: "cr_winner r = winner_by_version"
    and merge_swap: "cr_merge r k a b = cr_merge r k b a"
begin

definition folded :: "bytes \<Rightarrow> hlc \<Rightarrow> content \<Rightarrow> hlc \<Rightarrow> content \<Rightarrow> content option" where
  "folded k sv s ver i =
     (case fold_sides False sv (snd s) ver (snd i) of
        Fold_Both \<Rightarrow> map_option (\<lambda>m. (merged_value m, merged_expires m)) (cr_merge r k (side_view sv s) (side_view ver i))
      | Fold_Incoming \<Rightarrow> Some i
      | Fold_Stored \<Rightarrow> Some s
      | Fold_Winner \<Rightarrow> None)"

lemma folded_swap: "folded k sv s ver i = folded k ver i sv s"
  using fold_sides_swap[of sv "snd s" ver "snd i"] fold_sides_swap(3)[of ver "snd i" sv "snd s"]
    merge_swap[of k "side_view sv s" "side_view ver i"]
  by (cases "fold_sides False sv (snd s) ver (snd i)"; cases "fold_sides False ver (snd i) sv (snd s)")
    (auto simp: folded_def)

lemma resolve_conflict_folded:
  assumes "sv \<noteq> ver"
  shows "resolve_conflict r k sv (Some (fst s)) (snd s) False False ver (Put w (snd i) (fst i)) =
    (case folded k sv s ver i of
       Some m \<Rightarrow> Merged_To (fst m) (snd m)
     | None \<Rightarrow> if ver \<le> sv then Incoming_Loses else Incoming_Wins)"
  using assms
  by (cases "fold_sides False sv (snd s) ver (snd i)")
    (auto simp: resolve_conflict_def Let_def tombstone_resolution_def folded_def merges needs_bytes by_version
      winner_by_version_def winner_resolution_def side_view_def split: option.splits)

lemma rebind_folded:
  assumes "sv \<noteq> ver" and "\<forall>m. folded k sv s ver i = Some m \<longrightarrow> from_bytes (fst m) \<noteq> None \<and> within_cap cap k (fst m)"
  shows "settled (sv, s)
      (resolve_and_rebind e from_bytes r cap k sv (Some (fst s)) (snd s) False False ver (Put w (snd i) (fst i))) =
    (case folded k sv s ver i of
       Some m \<Rightarrow> settle_merged e sv s ver i m
     | None \<Rightarrow> if ver \<le> sv then (sv, s) else (ver, i))"
proof (cases "folded k sv s ver i")
  case None
  then show ?thesis by (simp add: resolve_and_rebind_def resolve_conflict_folded[OF assms(1)])
next
  case (Some m)
  then obtain d where "from_bytes (fst m) = Some d" using assms(2) by auto
  moreover have "within_cap cap k (fst m)" using assms(2) Some by blast
  ultimately show ?thesis
    using Some
    by (auto simp: resolve_and_rebind_def resolve_conflict_folded[OF assms(1)] settle_merged_def Let_def within_cap_admits
        is_some_and_def prod_eq_iff split: merged_version.splits option.split)
qed

lemma exchange_settles:
  assumes "sv \<noteq> ver" and "\<forall>m. folded k sv s ver i = Some m \<longrightarrow> from_bytes (fst m) \<noteq> None \<and> within_cap cap k (fst m)"
  shows "settled (sv, s)
      (resolve_and_rebind e from_bytes r cap k sv (Some (fst s)) (snd s) False False ver (Put w (snd i) (fst i))) =
    settled (ver, i)
      (resolve_and_rebind e from_bytes r cap k ver (Some (fst i)) (snd i) False False sv (Put w' (snd s) (fst s)))"
proof -
  have "\<forall>m. folded k ver i sv s = Some m \<longrightarrow> from_bytes (fst m) \<noteq> None \<and> within_cap cap k (fst m)" using assms(2) by (simp add: folded_swap)
  with assms show ?thesis
    by (subst (1 2) rebind_folded)
      (auto simp: folded_swap[of k ver i] settle_merged_swap[of e ver i] split: option.splits)
qed

end

lemma pn_resolver_merge_swap: "pn_resolver_merge tv fv k a b = pn_resolver_merge tv fv k b a"
  by (auto simp: pn_resolver_merge_def later_deadline_commute[of "view_expires a"] pn_merge_commutes
      split: option.splits)

interpretation pn_merging: merging_resolver "pn_counter_resolver tv fv" for tv fv
  by unfold_locales
    (auto simp: pn_counter_resolver_def default_methods_def intro: pn_resolver_merge_swap)

section \<open>Properties\<close>

text \<open>
  A collision with a delete on either side is settled by version alone, whatever the resolver
  prefers: the newer record stays, a tie keeps the stored one, and no resolver can revive a deleted
  key or bury a newer value under an older tombstone.
\<close>

theorem tombstone_decides_by_version:
  assumes "stored_tombstone \<or> is_tombstone incoming"
  shows "resolve_and_rebind e from_bytes r cap k sv enc x absent stored_tombstone ver incoming =
    (if sv < ver then Rebound_Store ver incoming else Lost)"
  using assms by (auto simp: resolve_and_rebind_def resolve_conflict_def tombstone_resolution_def)

theorem tombstone_decides_by_version_witness:
  "resolve_and_rebind demo_externs Some lww_resolver None [1] (Hlc 5 0 (NodeId 1)) None None False True
     (Hlc 4 0 (NodeId 2)) (Put [2] None [2]) = Lost"
  using tombstone_decides_by_version[of True "Put [2] None [2]" demo_externs Some lww_resolver None "[1]"
      "Hlc 5 0 (NodeId 1)" None None False "Hlc 4 0 (NodeId 2)"]
  by (simp add: less_hlc_def)

text \<open>
  C24: a version minted for a merge is above both inputs, carrying into the next millisecond when
  the logical counter is full; only where wall clock and counter are both at their maxima is there
  no room left.
\<close>

theorem minted_version_dominates:
  assumes "mint_room sv ver"
  shows "sv < mint_stamp sv ver n \<and> ver < mint_stamp sv ver n"
  using mint_stamp_gt[OF assms] by simp

theorem minted_version_dominates_witness:
  "Hlc 7 u32_max (NodeId 1) < mint_stamp (Hlc 7 u32_max (NodeId 1)) (Hlc 3 9 (NodeId 2)) (NodeId 4)"
  using minted_version_dominates[of "Hlc 7 u32_max (NodeId 1)" "Hlc 3 9 (NodeId 2)" "NodeId 4"]
  by (simp add: mint_room_def max_def)

text \<open>
  C25: two replicas of a counter cache that exchange their records for a key settle on the same
  version, the same bytes and the same deadline, in one round and with no further exchange, whether the
  records fold, one or both had lapsed at the other's stamp, or the codec declines to merge. It is enough
  that both records decode and fit a frame, that what the codec writes it reads back, and that the merged record
  fits a frame; neither record is an expired or a deleted one where it is stored.
\<close>

theorem pn_exchange_settles_in_one_round:
  assumes "sv \<noteq> ver" and "from_vec (fst s) \<noteq> None" and "from_vec (fst i) \<noteq> None"
    and "\<And>c bs. to_vec c = Some bs \<Longrightarrow> from_vec bs = Some c"
    and "within_cap cap k (fst s)" and "within_cap cap k (fst i)"
    and "\<And>m. pn_resolver_merge to_vec from_vec k (side_view sv s) (side_view ver i) = Some m \<Longrightarrow> within_cap cap k (merged_value m)"
  shows "settled (sv, s) (resolve_and_rebind e from_vec (pn_counter_resolver to_vec from_vec) cap k
           sv (Some (fst s)) (snd s) False False ver (Put w (snd i) (fst i))) =
         settled (ver, i) (resolve_and_rebind e from_vec (pn_counter_resolver to_vec from_vec) cap k
           ver (Some (fst i)) (snd i) False False sv (Put w' (snd s) (fst s)))"
proof (rule pn_merging.exchange_settles[OF assms(1)], intro allI impI)
  fix m assume m: "pn_merging.folded to_vec from_vec k sv s ver i = Some m"
  have merged: "from_vec (merged_value x) \<noteq> None" if "pn_resolver_merge to_vec from_vec k (side_view sv s) (side_view ver i) = Some x" for x
    using that assms(4) by (auto simp: pn_resolver_merge_def split: option.splits)
  have "cr_merge (pn_counter_resolver to_vec from_vec) = pn_resolver_merge to_vec from_vec" by (simp add: pn_counter_resolver_def)
  then show "from_vec (fst m) \<noteq> None \<and> within_cap cap k (fst m)"
    using m assms(2,3,5,6,7) merged by (auto simp: pn_merging.folded_def split: fold.splits)
qed

text \<open>A codec of three counters: one increment each by two writers, and their merge.\<close>

definition demo_count :: "u64 \<Rightarrow> pn_counter" where
  "demo_count n = pn_default\<lparr>pn_p := bm_insert (WriterId (NodeId n) 0) n bm_empty\<rparr>"

definition demo_to_vec :: "pn_counter \<Rightarrow> bytes option" where
  "demo_to_vec c = (if c = demo_count 1 then Some [1] else if c = demo_count 2 then Some [2]
     else if c = pn_merge (demo_count 1) (demo_count 2) then Some [3] else None)"

definition demo_from_vec :: "bytes \<Rightarrow> pn_counter option" where
  "demo_from_vec bs = (if bs = [1] then Some (demo_count 1) else if bs = [2] then Some (demo_count 2)
     else if bs = [3] then Some (pn_merge (demo_count 1) (demo_count 2)) else None)"

theorem pn_exchange_settles_in_one_round_witness:
  "settled (Hlc 1 0 (NodeId 1), ([1], None)) (resolve_and_rebind demo_externs demo_from_vec (pn_counter_resolver demo_to_vec demo_from_vec)
       (Some \<lparr>cap_cache_len = 1, cap_limit = 200\<rparr>) [7] (Hlc 1 0 (NodeId 1)) (Some [1]) None False False (Hlc 2 0 (NodeId 2)) (Put (demo_count 2) None [2])) =
   settled (Hlc 2 0 (NodeId 2), ([2], None)) (resolve_and_rebind demo_externs demo_from_vec (pn_counter_resolver demo_to_vec demo_from_vec)
       (Some \<lparr>cap_cache_len = 1, cap_limit = 200\<rparr>) [7] (Hlc 2 0 (NodeId 2)) (Some [2]) None False False (Hlc 1 0 (NodeId 1)) (Put (demo_count 1) None [1]))"
proof -
  let ?cap = "Some \<lparr>cap_cache_len = 1, cap_limit = 200\<rparr>"
  have fits: "within_cap ?cap [7] bs" if "length bs = 1" for bs
    using that by (simp add: within_cap_def forward_frame_len_def replicate_frame_len_def raw_frame_header_len_def record_header_len_def forward_header_len_def)
  have reads: "length bs = 1" "demo_from_vec bs = Some c" if "demo_to_vec c = Some bs" for c bs
    using that by (auto simp: demo_to_vec_def demo_from_vec_def split: if_splits)
  have "length (merged_value m) = 1" if "pn_resolver_merge demo_to_vec demo_from_vec k a b = Some m" for k a b m
    using that reads(1) by (auto simp: pn_resolver_merge_def split: option.splits)
  moreover have "demo_from_vec [1] \<noteq> None" "demo_from_vec [2] \<noteq> None" by (simp_all add: demo_from_vec_def)
  ultimately show ?thesis
    using pn_exchange_settles_in_one_round[where sv = "Hlc 1 0 (NodeId 1)" and ver = "Hlc 2 0 (NodeId 2)" and s = "([1], None)" and i = "([2], None)"
        and to_vec = demo_to_vec and from_vec = demo_from_vec and cap = ?cap and k = "[7]"] reads(2) fits
    by simp
qed

text \<open>
  A merge never grows a record past the frame cap: whatever the decision stores either fits a
  frame under the cap or is no longer than the record it replaces, and a refusal stores nothing.
\<close>

theorem merge_respects_cap:
  assumes "resolve_and_rebind e from_bytes r (Some cap) k sv (Some sb) sx False st ver (Put w ix ib)
           = Rebound_Store v (Put d x enc)"
    and "replicate_frame_len (cap_cache_len cap) (length k) (length ib) \<le> cap_limit cap"
  shows "replicate_frame_len (cap_cache_len cap) (length k) (length enc) \<le> cap_limit cap \<or> length enc \<le> length sb"
  using assms
  by (auto simp: resolve_and_rebind_def Let_def is_some_and_def admits_contribution_def cap_admits_def admits_by_def
      merge_fits_def map_or_def forward_frame_len_def replicate_frame_len_def
      split: resolution.splits merged_version.splits option.splits if_splits)

theorem merge_respects_cap_witness:
  "replicate_frame_len 1 1 (length [5 :: u8]) \<le> 60 \<or> length [5 :: u8] \<le> length [4 :: u8]"
proof -
  have "resolve_and_rebind demo_externs Some lww_resolver (Some \<lparr>cap_cache_len = 1, cap_limit = 60\<rparr>) [1]
      (Hlc 5 0 (NodeId 1)) (Some [4]) None False False (Hlc 6 0 (NodeId 2)) (Put [5] None [5])
    = Rebound_Store (Hlc 6 0 (NodeId 2)) (Put [5] None [5])"
    by (simp add: resolve_and_rebind_def resolve_conflict_def tombstone_resolution_def lww_resolver_def
        default_methods_def winner_by_version_def winner_resolution_def less_eq_hlc_def Let_def)
  from merge_respects_cap[OF this] show ?thesis
    by (simp add: replicate_frame_len_def raw_frame_header_len_def record_header_len_def)
qed

end
