(* ===== verification/Slab.thy ===== *)
theory Slab
  imports Expiry Wire "HOL-Library.Multiset"
begin

text \<open>
  The per-stripe entry store of \<^verbatim>\<open>engine/slab.rs\<close>: a dense arena of live entries behind a
  hash index, with swap-removal. hashbrown's \<open>HashTable\<close> is an argument, \<open>hash_table\<close>;
  \<open>hash_table_ok\<close> states its documented behaviour on the rows it holds. The theorems say that
  the index never loses or misplaces a row, so that a slab behaves as its arena searched by key: the
  \<open>arena\<close> operations the engine theories use.
\<close>

section \<open>The arena\<close>

definition arena_growth :: "nat \<Rightarrow> nat" where
  "arena_growth len = max (len div 4) 4"

definition arena_find :: "externs \<Rightarrow> bytes \<Rightarrow> live list \<Rightarrow> live option" where
  "arena_find e key_bytes xs = List.find (\<lambda>l. live_key e l = key_bytes) xs"

text \<open>\<open>Vec::swap_remove\<close>: the last entry takes the freed slot.\<close>

definition swap_remove :: "nat \<Rightarrow> 'a list \<Rightarrow> 'a list" where
  "swap_remove i xs = (if Suc i = length xs then butlast xs else butlast (xs[i := last xs]))"

fun slot_of :: "('a \<Rightarrow> bool) \<Rightarrow> 'a list \<Rightarrow> nat option" where
  "slot_of P [] = None"
| "slot_of P (x # xs) = (if P x then Some 0 else map_option Suc (slot_of P xs))"

definition arena_remove :: "externs \<Rightarrow> bytes \<Rightarrow> live list \<Rightarrow> (live \<times> live list) option" where
  "arena_remove e key_bytes xs =
     (case slot_of (\<lambda>l. live_key e l = key_bytes) xs of
        None \<Rightarrow> None
      | Some i \<Rightarrow> Some (xs ! i, swap_remove i xs))"

definition arena_insert :: "live \<Rightarrow> live list \<Rightarrow> live list" where
  "arena_insert l xs = xs @ [l]"

lemma length_swap_remove [simp]: "i < length xs \<Longrightarrow> length (swap_remove i xs) = length xs - 1"
  by (auto simp: swap_remove_def)

text \<open>
  \<open>Slab::retain\<close>: an index walks the arena; a kept entry stays, a dropped one is replaced by
  the last and the same slot is looked at again. The entries dropped are returned in the order the
  closure saw them.
\<close>

function arena_retain :: "('a \<Rightarrow> bool) \<Rightarrow> nat \<Rightarrow> 'a list \<Rightarrow> 'a list \<times> 'a list" where
  "arena_retain f i xs =
     (if i < length xs
      then if f (xs ! i) then arena_retain f (Suc i) xs
           else (case arena_retain f i (swap_remove i xs) of (kept, dropped) \<Rightarrow> (kept, xs ! i # dropped))
      else (xs, []))"
  by pat_completeness auto
termination
  by (relation "measure (\<lambda>(f, i, xs). length xs - i)") auto

declare arena_retain.simps [simp del]

section \<open>The slab\<close>

record 't hash_table =
  ht_find :: "'t \<Rightarrow> u64 \<Rightarrow> (u32 \<Rightarrow> bool) \<Rightarrow> u32 option"
  ht_insert_unique :: "'t \<Rightarrow> u64 \<Rightarrow> u32 \<Rightarrow> 't"
  ht_remove :: "'t \<Rightarrow> u64 \<Rightarrow> u32 \<Rightarrow> 't"
  ht_set :: "'t \<Rightarrow> u64 \<Rightarrow> u32 \<Rightarrow> u32 \<Rightarrow> 't"
  ht_rows :: "'t \<Rightarrow> (u64 \<times> u32) set"

definition hash_table_ok :: "'t hash_table \<Rightarrow> bool" where
  "hash_table_ok h \<longleftrightarrow>
     (\<forall>t hash eq i. ht_find h t hash eq = Some i \<longrightarrow> (hash, i) \<in> ht_rows h t \<and> eq i) \<and>
     (\<forall>t hash eq i. ht_find h t hash eq = None \<longrightarrow> (hash, i) \<in> ht_rows h t \<longrightarrow> \<not> eq i) \<and>
     (\<forall>t hash i. ht_rows h (ht_insert_unique h t hash i) = insert (hash, i) (ht_rows h t)) \<and>
     (\<forall>t hash i. (hash, i) \<in> ht_rows h t \<longrightarrow> ht_rows h (ht_remove h t hash i) = ht_rows h t - {(hash, i)}) \<and>
     (\<forall>t hash i j. (hash, i) \<in> ht_rows h t \<longrightarrow>
        ht_rows h (ht_set h t hash i j) = insert (hash, j) (ht_rows h t - {(hash, i)}))"

record 't slab =
  sl_entries :: "live list"
  sl_index :: 't

definition slab_find :: "'t hash_table \<Rightarrow> u64 \<Rightarrow> (live \<Rightarrow> bool) \<Rightarrow> 't slab \<Rightarrow> live option" where
  "slab_find h hash eq s =
     map_option (\<lambda>slot. sl_entries s ! unat slot)
       (ht_find h (sl_index s) hash (\<lambda>i. eq (sl_entries s ! unat i)))"

definition slab_insert_unique :: "'t hash_table \<Rightarrow> u64 \<Rightarrow> live \<Rightarrow> 't slab \<Rightarrow> 't slab" where
  "slab_insert_unique h hash value s =
     s\<lparr>sl_entries := sl_entries s @ [value],
       sl_index := ht_insert_unique h (sl_index s) hash (of_nat (length (sl_entries s)))\<rparr>"

definition slab_remove_at ::
  "'t hash_table \<Rightarrow> (live \<Rightarrow> u64) \<Rightarrow> u64 \<Rightarrow> nat \<Rightarrow> 't slab \<Rightarrow> live \<times> 't slab" where
  "slab_remove_at h hasher hash slot s =
     (let index = ht_remove h (sl_index s) hash (of_nat slot);
          last_slot = length (sl_entries s) - 1;
          removed = sl_entries s ! slot;
          entries = swap_remove slot (sl_entries s);
          index = (if slot \<noteq> last_slot
                   then ht_set h index (hasher (entries ! slot)) (of_nat last_slot) (of_nat slot)
                   else index)
      in (removed, s\<lparr>sl_entries := entries, sl_index := index\<rparr>))"

definition slab_remove ::
  "'t hash_table \<Rightarrow> (live \<Rightarrow> u64) \<Rightarrow> u64 \<Rightarrow> (live \<Rightarrow> bool) \<Rightarrow> 't slab \<Rightarrow> (live \<times> 't slab) option" where
  "slab_remove h hasher hash eq s =
     (case ht_find h (sl_index s) hash (\<lambda>i. eq (sl_entries s ! unat i)) of
        None \<Rightarrow> None
      | Some slot \<Rightarrow> Some (slab_remove_at h hasher hash (unat slot) s))"

function slab_retain ::
  "'t hash_table \<Rightarrow> (live \<Rightarrow> u64) \<Rightarrow> (live \<Rightarrow> bool) \<Rightarrow> nat \<Rightarrow> 't slab \<Rightarrow> 't slab \<times> live list" where
  "slab_retain h hasher f i s =
     (if i < length (sl_entries s)
      then if f (sl_entries s ! i) then slab_retain h hasher f (Suc i) s
           else (case slab_retain h hasher f i (snd (slab_remove_at h hasher (hasher (sl_entries s ! i)) i s)) of
                   (kept, dropped) \<Rightarrow> (kept, sl_entries s ! i # dropped))
      else (s, []))"
  by pat_completeness auto
termination
  by (relation "measure (\<lambda>(h, hasher, f, i, s). length (sl_entries s) - i)")
    (auto simp: slab_remove_at_def Let_def)

declare slab_retain.simps [simp del]

section \<open>Arena lemmas\<close>

lemma slot_of_Some:
  "slot_of P xs = Some i \<Longrightarrow> i < length xs \<and> P (xs ! i) \<and> (\<forall>j < i. \<not> P (xs ! j))"
  by (induction xs arbitrary: i) (auto simp: nth_Cons split: if_splits nat.splits)

lemma slot_of_None: "slot_of P xs = None \<longleftrightarrow> (\<forall>x \<in> set xs. \<not> P x)"
  by (induction xs) auto

lemma swap_remove_eq:
  assumes "i < length xs"
  shows "swap_remove i xs = (if Suc i = length xs then butlast xs else (butlast xs)[i := last xs])"
  using assms by (auto simp: swap_remove_def butlast_list_update)

lemma mset_swap_remove:
  assumes "i < length xs"
  shows "add_mset (xs ! i) (mset (swap_remove i xs)) = mset xs"
proof -
  have ne: "xs \<noteq> []" using assms by auto
  have "mset (butlast xs @ [last xs]) = add_mset (last xs) (mset (butlast xs))" by (simp del: append_butlast_last_id)
  then have xs: "mset xs = add_mset (last xs) (mset (butlast xs))" "xs \<noteq> []" using ne by simp_all
  show ?thesis
  proof (cases "Suc i = length xs")
    case True
    then have "i = length xs - 1" by simp
    then have "xs ! i = last xs" using xs(2) by (simp add: last_conv_nth)
    then show ?thesis using True xs by (simp add: swap_remove_def)
  next
    case False
    then have i: "i < length (butlast xs)" "butlast xs ! i = xs ! i" using assms by (auto simp: nth_butlast)
    then have "xs ! i \<in># mset (butlast xs)" by (metis nth_mem set_mset_mset)
    moreover have "mset ((butlast xs)[i := last xs]) = add_mset (last xs) (mset (butlast xs) - {#xs ! i#})"
      using mset_update[OF i(1), of "last xs"] i(2) by simp
    ultimately have "add_mset (xs ! i) (mset ((butlast xs)[i := last xs])) = add_mset (last xs) (mset (butlast xs))"
      by (simp add: add_mset_commute)
    then show ?thesis using False xs(1) assms by (simp add: swap_remove_eq)
  qed
qed

lemma set_swap_remove: "i < length xs \<Longrightarrow> set (swap_remove i xs) \<subseteq> set xs"
  using mset_swap_remove[of i xs] by (metis set_mset_mset set_mset_add_mset_insert subset_insertI)

lemma arena_remove_Some:
  assumes "arena_remove e k xs = Some (l, ys)"
  shows "live_key e l = k" and "mset xs = add_mset l (mset ys)"
proof -
  obtain i where i: "slot_of (\<lambda>l. live_key e l = k) xs = Some i" "l = xs ! i" "ys = swap_remove i xs"
    using assms by (auto simp: arena_remove_def split: option.splits)
  then show "live_key e l = k" "mset xs = add_mset l (mset ys)"
    using slot_of_Some[OF i(1)] mset_swap_remove[of i xs] by simp_all
qed

lemma arena_remove_None: "arena_remove e k xs = None \<longleftrightarrow> k \<notin> live_key e ` set xs"
  using slot_of_None[of "\<lambda>l. live_key e l = k" xs] by (auto simp: arena_remove_def split: option.splits)

lemma arena_find_None: "arena_find e k xs = None \<longleftrightarrow> k \<notin> live_key e ` set xs"
  by (auto simp: arena_find_def find_None_iff)

lemma arena_find_Some: "arena_find e k xs = Some l \<Longrightarrow> l \<in> set xs \<and> live_key e l = k"
  by (auto simp: arena_find_def find_Some_iff)

lemma arena_find_member:
  assumes "distinct (map (live_key e) xs)" and "l \<in> set xs"
  shows "arena_find e (live_key e l) xs = Some l"
proof (cases "arena_find e (live_key e l) xs")
  case None
  then show ?thesis using arena_find_None[of e "live_key e l" xs] assms(2) by simp
next
  case (Some l')
  then have "l' \<in> set xs" "live_key e l' = live_key e l" using arena_find_Some by blast+
  then have "l' = l" using assms by (simp add: distinct_map inj_on_def)
  then show ?thesis using Some by simp
qed

lemma arena_find_slot: "arena_find e k xs = map_option (\<lambda>i. xs ! i) (slot_of (\<lambda>l. live_key e l = k) xs)"
  by (induction xs) (auto simp: arena_find_def option.map_comp o_def)

lemma arena_remove_find: "arena_remove e k xs = Some (l, ys) \<Longrightarrow> arena_find e k xs = Some l"
  by (auto simp: arena_remove_def arena_find_slot split: option.splits)

lemma nth_swap_remove: "j < i \<Longrightarrow> i < length xs \<Longrightarrow> swap_remove i xs ! j = xs ! j"
  by (auto simp: swap_remove_eq nth_butlast)

lemma arena_retain_from:
  assumes "arena_retain f i xs = (kept, dropped)" and "\<forall>j < i. j < length xs \<longrightarrow> f (xs ! j)"
  shows "mset kept = filter_mset f (mset xs) \<and> mset dropped = filter_mset (\<lambda>x. \<not> f x) (mset xs)"
  using assms
proof (induction f i xs arbitrary: kept dropped rule: arena_retain.induct)
  case (1 f i xs)
  consider (stop) "\<not> i < length xs" | (keep) "i < length xs" "f (xs ! i)" | (drop) "i < length xs" "\<not> f (xs ! i)"
    by blast
  then show ?case
  proof cases
    case stop
    then have "kept = xs" "dropped = []" "\<forall>x \<in># mset xs. f x"
      using 1(3,4) by (auto simp: arena_retain.simps[of f i] in_set_conv_nth)
    then show ?thesis using filter_mset_cong[of "mset xs" "mset xs" f "\<lambda>_. True"] by simp
  next
    case keep
    then show ?thesis
      using 1(1)[OF keep] 1(3,4) by (auto simp: arena_retain.simps[of f i] less_Suc_eq)
  next
    case drop
    obtain d where d: "arena_retain f i (swap_remove i xs) = (kept, d)" "dropped = xs ! i # d"
      using 1(3) drop by (auto simp: arena_retain.simps[of f i xs] split: prod.splits)
    have "\<forall>j < i. j < length (swap_remove i xs) \<longrightarrow> f (swap_remove i xs ! j)"
      using 1(4) drop(1) by (auto simp: nth_swap_remove)
    from 1(2)[OF drop d(1) this] show ?thesis
      using mset_swap_remove[OF drop(1)] drop(2) d(2) by (metis filter_mset_add_mset mset.simps(2))
  qed
qed

lemma arena_retain_mset:
  assumes "arena_retain f 0 xs = (kept, dropped)"
  shows "mset kept = filter_mset f (mset xs)" and "mset dropped = filter_mset (\<lambda>x. \<not> f x) (mset xs)"
  using arena_retain_from[OF assms] by simp_all

section \<open>The slab implements the arena\<close>

definition slab_ok :: "externs \<Rightarrow> 't hash_table \<Rightarrow> 't slab \<Rightarrow> bool" where
  "slab_ok e h s \<longleftrightarrow>
     distinct (map (live_key e) (sl_entries s)) \<and> length (sl_entries s) < 2 ^ 32 \<and>
     ht_rows h (sl_index s) = (\<lambda>i. (hasher_for e (sl_entries s ! i), of_nat i)) ` {..< length (sl_entries s)}"

lemmas ht_find_Some = hash_table_ok_def[THEN iffD1, THEN conjunct1, rule_format]

lemmas ht_find_None = hash_table_ok_def[THEN iffD1, THEN conjunct2, THEN conjunct1, rule_format]

lemmas ht_rows_insert = hash_table_ok_def[THEN iffD1, THEN conjunct2, THEN conjunct2, THEN conjunct1, rule_format]

lemmas ht_rows_remove =
  hash_table_ok_def[THEN iffD1, THEN conjunct2, THEN conjunct2, THEN conjunct2, THEN conjunct1, rule_format]

lemmas ht_rows_set =
  hash_table_ok_def[THEN iffD1, THEN conjunct2, THEN conjunct2, THEN conjunct2, THEN conjunct2, rule_format]

lemma unat_slot: "n < 2 ^ 32 \<Longrightarrow> i \<le> n \<Longrightarrow> unat (of_nat i :: u32) = i"
  by (simp add: unat_of_nat take_bit_nat_eq_self)

lemma slab_lookup:
  assumes ht: "hash_table_ok h" and ok: "slab_ok e h s" and hash: "hash = xxh3 e k"
  shows "ht_find h (sl_index s) hash (\<lambda>i. live_key e (sl_entries s ! unat i) = k)
       = map_option of_nat (slot_of (\<lambda>l. live_key e l = k) (sl_entries s))"
proof -
  let ?xs = "sl_entries s" and ?eq = "\<lambda>i :: u32. live_key e (sl_entries s ! unat i) = k"
  let ?f = "ht_find h (sl_index s) hash ?eq"
  have len: "length ?xs < 2 ^ 32" and dist: "distinct (map (live_key e) ?xs)"
    and rows: "ht_rows h (sl_index s) = (\<lambda>i. (hasher_for e (?xs ! i), of_nat i)) ` {..< length ?xs}"
    using ok by (auto simp: slab_ok_def)
  show ?thesis
  proof (cases ?f)
    case None
    have "live_key e (?xs ! i) \<noteq> k" if "i < length ?xs" for i
    proof
      assume key: "live_key e (?xs ! i) = k"
      then have "(hash, of_nat i) \<in> ht_rows h (sl_index s)"
        using that hash unfolding rows by (auto simp: hasher_for_def live_key_def)
      then have "\<not> ?eq (of_nat i)" using ht_find_None[OF ht None] by simp
      then show False using key that len by (simp add: unat_slot)
    qed
    then have "slot_of (\<lambda>l. live_key e l = k) ?xs = None"
      unfolding slot_of_None by (metis in_set_conv_nth)
    then show ?thesis using None by simp
  next
    case (Some slot)
    then have row: "(hash, slot) \<in> ht_rows h (sl_index s)" and eq: "?eq slot" using ht_find_Some[OF ht Some] by simp_all
    obtain i where i: "i < length ?xs" "slot = of_nat i" using row unfolding rows by auto
    then have key: "live_key e (?xs ! i) = k" using eq len by (simp add: unat_slot)
    then obtain j where j: "slot_of (\<lambda>l. live_key e l = k) ?xs = Some j"
      using i slot_of_None[of "\<lambda>l. live_key e l = k" ?xs] by (cases "slot_of (\<lambda>l. live_key e l = k) ?xs") auto
    have "j < length ?xs" "live_key e (?xs ! j) = k" using slot_of_Some[OF j] by auto
    then have "j = i" using key i dist by (metis length_map nth_eq_iff_index_eq nth_map)
    then show ?thesis using Some j i by simp
  qed
qed

lemma slab_find_arena:
  assumes "hash_table_ok h" and "slab_ok e h s" and "hash = xxh3 e k"
  shows "slab_find h hash (\<lambda>l. live_key e l = k) s = arena_find e k (sl_entries s)"
proof -
  have len: "length (sl_entries s) < 2 ^ 32" using assms(2) by (simp add: slab_ok_def)
  have "unat (of_nat i :: u32) = i" if "slot_of P (sl_entries s) = Some i" for i P
    using slot_of_Some[OF that] len by (simp add: unat_slot)
  then show ?thesis
    unfolding slab_find_def slab_lookup[OF assms] arena_find_slot
    by (cases "slot_of (\<lambda>l. live_key e l = k) (sl_entries s)") auto
qed

lemma slab_insert_ok:
  assumes "hash_table_ok h" and "slab_ok e h s" and "live_key e l \<notin> live_key e ` set (sl_entries s)"
    and "Suc (length (sl_entries s)) < 2 ^ 32"
  shows "slab_ok e h (slab_insert_unique h (hasher_for e l) l s)"
    and "sl_entries (slab_insert_unique h (hasher_for e l) l s) = arena_insert l (sl_entries s)"
proof -
  let ?xs = "sl_entries s"
  have "(\<lambda>i. (hasher_for e ((?xs @ [l]) ! i), of_nat i)) ` {..< Suc (length ?xs)}
      = insert (hasher_for e l, of_nat (length ?xs)) ((\<lambda>i. (hasher_for e (?xs ! i), of_nat i :: u32)) ` {..< length ?xs})"
    by (auto simp: lessThan_Suc nth_append)
  then show "slab_ok e h (slab_insert_unique h (hasher_for e l) l s)"
    using assms by (auto simp: slab_ok_def slab_insert_unique_def ht_rows_insert[OF assms(1)])
  show "sl_entries (slab_insert_unique h (hasher_for e l) l s) = arena_insert l (sl_entries s)"
    by (simp add: slab_insert_unique_def arena_insert_def)
qed

text \<open>The rows, read off a row: a hash and a slot number in range.\<close>

definition rows_of :: "externs \<Rightarrow> live list \<Rightarrow> (u64 \<times> u32) set" where
  "rows_of e xs = {(hash, i). unat i < length xs \<and> hash = hasher_for e (xs ! unat i)}"

lemma rows_of_image:
  assumes "length xs < 2 ^ 32"
  shows "(\<lambda>i. (hasher_for e (xs ! i), of_nat i)) ` {..< length xs} = rows_of e xs"
proof -
  have "unat (of_nat i :: u32) = i" if "i < length xs" for i using assms that by (simp add: unat_slot)
  moreover have "j = of_nat (unat j)" for j :: u32 by simp
  ultimately show ?thesis by (force simp: rows_of_def image_iff)
qed

lemma slab_ok_rows:
  "slab_ok e h s \<longleftrightarrow> distinct (map (live_key e) (sl_entries s)) \<and> length (sl_entries s) < 2 ^ 32 \<and>
     ht_rows h (sl_index s) = rows_of e (sl_entries s)"
  using rows_of_image[of "sl_entries s" e] by (auto simp: slab_ok_def)

lemma swap_remove_snoc:
  "swap_remove (length ys) (ys @ [l]) = ys"
  "slot < length ys \<Longrightarrow> swap_remove slot (ys @ [l]) = ys[slot := l]"
  by (simp_all add: swap_remove_eq)

lemma rows_of_snoc:
  assumes "length ys < 2 ^ 32"
  shows "rows_of e (ys @ [l]) = insert (hasher_for e l, of_nat (length ys)) (rows_of e ys)"
    and "(hash, of_nat (length ys)) \<notin> rows_of e ys"
proof -
  have u: "unat (of_nat (length ys) :: u32) = length ys" using assms by (rule unat_slot) simp
  then show "(hash, of_nat (length ys)) \<notin> rows_of e ys" by (simp add: rows_of_def)
  have eq: "i = of_nat (length ys) \<longleftrightarrow> unat i = length ys" for i :: u32
    using u by (metis word_unat_eq_iff)
  show "rows_of e (ys @ [l]) = insert (hasher_for e l, of_nat (length ys)) (rows_of e ys)"
    by (rule set_eqI) (auto simp: rows_of_def nth_append less_Suc_eq u eq)
qed

lemma rows_of_update:
  assumes "length ys < 2 ^ 32" and "slot < length ys"
  shows "rows_of e (ys[slot := l]) =
    insert (hasher_for e l, of_nat slot) (rows_of e ys - {(hasher_for e (ys ! slot), of_nat slot)})"
proof -
  have u: "unat (of_nat slot :: u32) = slot" using assms by (intro unat_slot[of "length ys"]) simp_all
  have eq: "i = of_nat slot \<longleftrightarrow> unat i = slot" for i :: u32
    using u by (metis word_unat_eq_iff)
  show ?thesis
    by (rule set_eqI) (auto simp: rows_of_def nth_list_update u eq assms(2))
qed

lemma rows_of_row: "slot < length xs \<Longrightarrow> length xs < 2 ^ 32 \<Longrightarrow> (hasher_for e (xs ! slot), of_nat slot) \<in> rows_of e xs"
  using unat_slot[of "length xs" slot] by (simp add: rows_of_def)

lemma slab_remove_at_ok:
  assumes ht: "hash_table_ok h" and ok: "slab_ok e h s" and slot: "slot < length (sl_entries s)"
  shows "slab_ok e h (snd (slab_remove_at h (hasher_for e) (hasher_for e (sl_entries s ! slot)) slot s))"
    and "fst (slab_remove_at h (hasher_for e) (hasher_for e (sl_entries s ! slot)) slot s) = sl_entries s ! slot"
    and "sl_entries (snd (slab_remove_at h (hasher_for e) (hasher_for e (sl_entries s ! slot)) slot s))
      = swap_remove slot (sl_entries s)"
proof -
  let ?xs = "sl_entries s" and ?hash = "hasher_for e (sl_entries s ! slot)"
  let ?s = "snd (slab_remove_at h (hasher_for e) ?hash slot s)"
  have len: "length ?xs < 2 ^ 32" and dist: "distinct (map (live_key e) ?xs)"
    and rows: "ht_rows h (sl_index s) = rows_of e ?xs"
    using ok by (simp_all add: slab_ok_rows)
  show entries: "sl_entries ?s = swap_remove slot ?xs"
    by (simp add: slab_remove_at_def Let_def)
  show "fst (slab_remove_at h (hasher_for e) ?hash slot s) = sl_entries s ! slot"
    by (simp add: slab_remove_at_def Let_def)
  have "mset (map (live_key e) ?xs) = mset (map (live_key e) (?xs ! slot # swap_remove slot ?xs))"
    using mset_swap_remove[OF slot] by (metis mset.simps(2) mset_map)
  then have dist': "distinct (map (live_key e) (swap_remove slot ?xs))"
    using dist by (metis distinct.simps(2) list.simps(9) mset_eq_imp_distinct_iff)
  have row: "(?hash, of_nat slot) \<in> ht_rows h (sl_index s)"
    using slot len by (simp add: rows rows_of_row)
  note gone = ht_rows_remove[OF ht row]
  obtain ys l where xs: "?xs = ys @ [l]" using slot by (cases ?xs rule: rev_cases) auto
  have len': "length ys < 2 ^ 32" using len xs by simp
  have "ht_rows h (sl_index ?s) = rows_of e (swap_remove slot ?xs)"
  proof (cases "slot = length ys")
    case True
    then have "sl_index ?s = ht_remove h (sl_index s) ?hash (of_nat slot)"
      by (simp add: slab_remove_at_def Let_def xs)
    then show ?thesis
      using gone rows_of_snoc(1)[OF len', of e l] rows_of_snoc(2)[OF len', of "hasher_for e l" e] True
      by (simp add: rows xs swap_remove_snoc)
  next
    case False
    then have lt: "slot < length ys" using slot xs by simp
    have idx: "sl_index ?s = ht_set h (ht_remove h (sl_index s) ?hash (of_nat slot))
        (hasher_for e l) (of_nat (length ys)) (of_nat slot)"
      using lt by (simp add: slab_remove_at_def Let_def xs swap_remove_snoc)
    have slots: "of_nat (length ys) \<noteq> (of_nat slot :: u32)"
      using lt len' unat_slot[of "length ys" slot] unat_slot[of "length ys" "length ys"] by auto
    have left: "ht_rows h (ht_remove h (sl_index s) ?hash (of_nat slot)) =
        insert (hasher_for e l, of_nat (length ys)) (rows_of e ys - {(hasher_for e (ys ! slot), of_nat slot)})"
      using gone slots lt by (auto simp: rows xs rows_of_snoc(1)[OF len'] nth_append)
    have "ht_rows h (sl_index ?s) = insert (hasher_for e l, of_nat slot)
        (rows_of e ys - {(hasher_for e (ys ! slot), of_nat slot)})"
      unfolding idx using ht_rows_set[OF ht, of "hasher_for e l" "of_nat (length ys)"
          "ht_remove h (sl_index s) ?hash (of_nat slot)" "of_nat slot"] rows_of_snoc(2)[OF len']
      by (auto simp: left)
    then show ?thesis
      by (simp add: xs swap_remove_snoc(2)[OF lt] rows_of_update[OF len' lt])
  qed
  then show "slab_ok e h ?s"
    using dist' len slot entries by (simp add: slab_ok_rows)
qed

lemma slab_remove_arena:
  assumes "hash_table_ok h" and "slab_ok e h s" and "hash = xxh3 e k"
  shows "case slab_remove h (hasher_for e) hash (\<lambda>l. live_key e l = k) s of
      None \<Rightarrow> arena_remove e k (sl_entries s) = None
    | Some (l, s') \<Rightarrow> slab_ok e h s' \<and> arena_remove e k (sl_entries s) = Some (l, sl_entries s')"
proof (cases "slot_of (\<lambda>l. live_key e l = k) (sl_entries s)")
  case None
  then show ?thesis by (simp add: slab_remove_def slab_lookup[OF assms] arena_remove_def)
next
  case (Some i)
  have len: "length (sl_entries s) < 2 ^ 32" using assms(2) by (simp add: slab_ok_def)
  have i: "i < length (sl_entries s)" "live_key e (sl_entries s ! i) = k" using slot_of_Some[OF Some] by simp_all
  have u: "unat (of_nat i :: u32) = i" using i len by (simp add: unat_slot)
  have hash: "hash = hasher_for e (sl_entries s ! i)" using i assms(3) by (simp add: hasher_for_def live_key_def)
  note at = slab_remove_at_ok[OF assms(1,2) i(1), folded hash]
  have "slab_remove h (hasher_for e) hash (\<lambda>l. live_key e l = k) s = Some (slab_remove_at h (hasher_for e) hash i s)"
    by (simp add: slab_remove_def slab_lookup[OF assms] Some u)
  moreover obtain l s' where rm: "slab_remove_at h (hasher_for e) hash i s = (l, s')" by fastforce
  moreover have "l = sl_entries s ! i" "slab_ok e h s'" "sl_entries s' = swap_remove i (sl_entries s)"
    using at by (simp_all add: rm)
  ultimately show ?thesis
    using Some by (simp add: arena_remove_def)
qed

lemma slab_retain_arena:
  assumes "hash_table_ok h" and "slab_ok e h s"
  shows "slab_ok e h (fst (slab_retain h (hasher_for e) f i s)) \<and>
    (sl_entries (fst (slab_retain h (hasher_for e) f i s)), snd (slab_retain h (hasher_for e) f i s))
      = arena_retain f i (sl_entries s)"
  using assms
proof (induction h "hasher_for e" f i s rule: slab_retain.induct)
  case (1 h f i s)
  consider (stop) "\<not> i < length (sl_entries s)" | (keep) "i < length (sl_entries s)" "f (sl_entries s ! i)"
    | (drop) "i < length (sl_entries s)" "\<not> f (sl_entries s ! i)" by blast
  then show ?case
  proof cases
    case drop
    note at = slab_remove_at_ok[OF 1(3,4) drop(1)]
    let ?s = "snd (slab_remove_at h (hasher_for e) (hasher_for e (sl_entries s ! i)) i s)"
    obtain kept gone where rec: "slab_retain h (hasher_for e) f i ?s = (kept, gone)" by fastforce
    have "slab_ok e h kept" "arena_retain f i (swap_remove i (sl_entries s)) = (sl_entries kept, gone)"
      using 1(2)[OF drop 1(3) at(1)] by (simp_all add: rec at(3))
    moreover have "slab_retain h (hasher_for e) f i s = (kept, sl_entries s ! i # gone)"
      using drop rec by (subst slab_retain.simps) simp
    moreover have "arena_retain f i (sl_entries s) =
        (case arena_retain f i (swap_remove i (sl_entries s)) of (k, d) \<Rightarrow> (k, sl_entries s ! i # d))"
      using drop by (subst arena_retain.simps) simp
    ultimately show ?thesis by simp
  next
    case keep
    have "slab_retain h (hasher_for e) f i s = slab_retain h (hasher_for e) f (Suc i) s"
      "arena_retain f i (sl_entries s) = arena_retain f (Suc i) (sl_entries s)"
      by (subst slab_retain.simps, simp add: keep) (subst arena_retain.simps, simp add: keep)
    then show ?thesis using 1(1)[OF keep 1(3,4)] by simp
  next
    case stop
    have "slab_retain h (hasher_for e) f i s = (s, [])" "arena_retain f i (sl_entries s) = (sl_entries s, [])"
      by (subst slab_retain.simps, simp add: stop) (subst arena_retain.simps, simp add: stop)
    then show ?thesis using 1(4) by simp
  qed
qed

section \<open>Properties\<close>

text \<open>
  A table that holds its rows in a list: the simplest structure with the documented behaviour, on
  which the property below is evaluated.
\<close>

definition list_table :: "(u64 \<times> u32) list hash_table" where
  "list_table =
     \<lparr>ht_find = (\<lambda>t hash eq. map_option snd (List.find (\<lambda>(h, i). h = hash \<and> eq i) t)),
      ht_insert_unique = (\<lambda>t hash i. (hash, i) # t),
      ht_remove = (\<lambda>t hash i. filter (\<lambda>r. r \<noteq> (hash, i)) t),
      ht_set = (\<lambda>t hash i j. (hash, j) # filter (\<lambda>r. r \<noteq> (hash, i)) t),
      ht_rows = set\<rparr>"

lemma list_table_ok: "hash_table_ok list_table"
  by (auto simp: hash_table_ok_def list_table_def find_Some_iff find_None_iff) (metis nth_mem)+

text \<open>
  C27: On a slab whose index agrees with its arena, every operation of \<open>Slab\<close> gives what the
  arena searched by key gives, and leaves the index agreeing with the arena: \<open>find\<close> returns
  the entry with the key, \<open>insert_unique\<close> of a key that is not there appends it,
  \<open>remove\<close> takes the entry with the key out by swap-removal, and \<open>retain\<close> keeps
  exactly the entries its closure accepts and returns the others.
\<close>

theorem slab_implements_arena:
  assumes "hash_table_ok h" and "slab_ok e h s"
    and "live_key e l \<notin> live_key e ` set (sl_entries s)" and "Suc (length (sl_entries s)) < 2 ^ 32"
  shows "slab_find h (xxh3 e k) (\<lambda>l. live_key e l = k) s = arena_find e k (sl_entries s) \<and>
    (let t = slab_insert_unique h (hasher_for e l) l s in
       slab_ok e h t \<and> sl_entries t = arena_insert l (sl_entries s)) \<and>
    (case slab_remove h (hasher_for e) (xxh3 e k) (\<lambda>l. live_key e l = k) s of
       None \<Rightarrow> arena_remove e k (sl_entries s) = None
     | Some (r, t) \<Rightarrow> slab_ok e h t \<and> arena_remove e k (sl_entries s) = Some (r, sl_entries t)) \<and>
    (case slab_retain h (hasher_for e) f 0 s of
       (t, dropped) \<Rightarrow> slab_ok e h t \<and> mset (sl_entries t) = filter_mset f (mset (sl_entries s)) \<and>
         mset dropped = filter_mset (\<lambda>l. \<not> f l) (mset (sl_entries s)))"
proof -
  have "case slab_retain h (hasher_for e) f 0 s of
       (t, dropped) \<Rightarrow> slab_ok e h t \<and> mset (sl_entries t) = filter_mset f (mset (sl_entries s)) \<and>
         mset dropped = filter_mset (\<lambda>l. \<not> f l) (mset (sl_entries s))"
    using slab_retain_arena[OF assms(1,2), of f 0]
    by (cases "slab_retain h (hasher_for e) f 0 s") (auto dest: arena_retain_mset[OF sym])
  then show ?thesis
    using slab_find_arena[OF assms(1,2) refl] slab_insert_ok[OF assms] slab_remove_arena[OF assms(1,2) refl]
    by (simp add: Let_def)
qed

text \<open>The slab of one entry under the key \<open>[7]\<close>, and another entry to insert.\<close>

definition demo_live :: "bytes \<Rightarrow> live" where
  "demo_live k = live_new (build_resident_record demo_externs k [1, 2]) (Hlc 300 2 (NodeId 5)) 0 1 400"

definition demo_slab :: "(u64 \<times> u32) list slab" where
  "demo_slab = slab_insert_unique list_table (hasher_for demo_externs (demo_live [7])) (demo_live [7])
     \<lparr>sl_entries = [], sl_index = []\<rparr>"

lemma live_key_demo: "length k < 2 ^ 32 \<Longrightarrow> live_key demo_externs (demo_live k) = k"
  by (simp add: demo_live_def live_key_def live_new_def)

lemma demo_slab_ok: "slab_ok demo_externs list_table demo_slab" "sl_entries demo_slab = [demo_live [7]]"
proof -
  have "slab_ok demo_externs list_table \<lparr>sl_entries = [], sl_index = []\<rparr>"
    by (simp add: slab_ok_def list_table_def)
  from slab_insert_ok[OF list_table_ok this]
  show "slab_ok demo_externs list_table demo_slab" "sl_entries demo_slab = [demo_live [7]]"
    by (simp_all add: demo_slab_def arena_insert_def)
qed

theorem slab_implements_arena_witness:
  "slab_find list_table (xxh3 demo_externs [7]) (\<lambda>l. live_key demo_externs l = [7]) demo_slab = Some (demo_live [7]) \<and>
   sl_entries (slab_insert_unique list_table (hasher_for demo_externs (demo_live [8])) (demo_live [8]) demo_slab)
     = [demo_live [7], demo_live [8]]"
proof -
  have "live_key demo_externs (demo_live [8]) \<notin> live_key demo_externs ` set (sl_entries demo_slab)"
    "Suc (length (sl_entries demo_slab)) < 2 ^ 32"
    by (simp_all add: demo_slab_ok(2) live_key_demo)
  from slab_implements_arena[OF list_table_ok demo_slab_ok(1) this, of "[7]" "\<lambda>_. True"] show ?thesis
    by (simp add: Let_def demo_slab_ok(2) arena_insert_def arena_find_def live_key_demo)
qed

end
