(* ===== verification/Engine_State.thy ===== *)
theory Engine_State
  imports Conflict Slab
begin

text \<open>
  The state of \<^verbatim>\<open>engine/mod.rs\<close>: 1024 stripes of live entries, tombstones and loads in
  flight, and the counters kept beside them: a digest per stripe and part, the total weight and the
  number of live entries. Each stripe's slab is its arena, which theory \<open>Slab\<close> shows is
  enough. The model is the build without the \<open>spill\<close> feature. An operation is one step: its
  lock holds and counter updates happen together.

  \<open>engine_ok\<close> is the invariant every operation keeps: each key is in its own stripe, live or
  tombstoned and not both; the side table of long deadlines has exactly the rows the live entries
  need; the next-expiry bound is a lower bound; and the counters are exact, the digest of a part
  being the XOR of the fingerprints of what the part holds.
\<close>

section \<open>Stripes\<close>

text \<open>
  The handle of a load. In the source it is shared between the stripe's map, the loader and the
  waiters; the model keeps one value in the map and hands copies out, so an operation that finishes
  or invalidates a load writes the entry of the map and returns the handle it leaves to the caller.
\<close>

record 'v inflight =
  if_done :: bool
  if_error :: "string option"
  if_value :: "'v option"
  if_invalidated :: bool
  if_absent :: bool

definition inflight_new :: "'v inflight" where
  "inflight_new = \<lparr>if_done = False, if_error = None, if_value = None, if_invalidated = False, if_absent = False\<rparr>"

definition inflight_finish :: "'v inflight \<Rightarrow> 'v inflight" where
  "inflight_finish i = i\<lparr>if_done := True\<rparr>"

record 'v stripe =
  st_live :: "live list"
  st_tombstones :: "(bytes, tombstone) btree_map"
  st_inflight :: "(bytes, 'v inflight) btree_map"
  st_long_ttl :: "(bytes, u64) btree_map"
  st_next_expiry :: u64

definition stripe_new :: "'v stripe" where
  "stripe_new = \<lparr>st_live = [], st_tombstones = bm_empty, st_inflight = bm_empty, st_long_ttl = bm_empty,
     st_next_expiry = u64_max\<rparr>"

text \<open>Marking the load in flight for a key, if there is one, as invalidated.\<close>

definition invalidate_inflight :: "bytes \<Rightarrow> 'v stripe \<Rightarrow> 'v stripe" where
  "invalidate_inflight key_bytes s =
     (case bm_get (st_inflight s) key_bytes of
        None \<Rightarrow> s
      | Some i \<Rightarrow> s\<lparr>st_inflight := bm_insert key_bytes (i\<lparr>if_invalidated := True\<rparr>) (st_inflight s)\<rparr>)"

record removed_live =
  rl_weight :: u32
  rl_ver :: hlc

definition remove_live :: "externs \<Rightarrow> bytes \<Rightarrow> 'v stripe \<Rightarrow> (removed_live \<times> 'v stripe) option" where
  "remove_live e key_bytes s =
     (case arena_remove e key_bytes (st_live s) of
        None \<Rightarrow> None
      | Some (removed, rest) \<Rightarrow>
          Some (\<lparr>rl_weight = lv_weight removed, rl_ver = live_ver removed\<rparr>,
                s\<lparr>st_live := rest, st_long_ttl := bm_remove key_bytes (st_long_ttl s)\<rparr>))"

section \<open>The keys a batch wrote\<close>

record written =
  wt_hashes :: "u64 list"
  wt_ignored :: u64

definition written_default :: written where
  "written_default = \<lparr>wt_hashes = [], wt_ignored = 0\<rparr>"

definition written_contains :: "written \<Rightarrow> u64 \<Rightarrow> bool" where
  "written_contains w hash \<longleftrightarrow> hash \<in> set (wt_hashes w)"

definition written_insert :: "u64 \<Rightarrow> written \<Rightarrow> written" where
  "written_insert hash w = (if written_contains w hash then w else w\<lparr>wt_hashes := hash # wt_hashes w\<rparr>)"

definition written_of :: "u64 \<Rightarrow> written" where
  "written_of hash = written_insert hash written_default"

definition written_is_empty :: "written \<Rightarrow> bool" where
  "written_is_empty w \<longleftrightarrow> wt_hashes w = []"

definition written_clear :: "written \<Rightarrow> written" where
  "written_clear w = w\<lparr>wt_hashes := []\<rparr>"

definition written_holds :: "externs \<Rightarrow> written \<Rightarrow> live \<Rightarrow> bool" where
  "written_holds e w l \<longleftrightarrow> wt_hashes w \<noteq> [] \<and> written_contains w (hash_key_bytes e (record_key e (lv_record l)))"

section \<open>The engine\<close>

record ('k, 'v) engine =
  eg_stripes :: "nat \<Rightarrow> 'v stripe"
  eg_digest :: "nat \<Rightarrow> u64"
  eg_total_weight :: u64
  eg_live_count :: u64
  eg_max_capacity :: u64
  eg_tti_ms :: "u64 option"
  eg_weigher :: "('k \<Rightarrow> 'v \<Rightarrow> u32) option"
  eg_evict_cursor :: u64
  eg_prefold_enabled :: bool
  eg_merge_cap_limit :: nat
  eg_merge_cap_cache_len :: nat
  eg_compact_cursor :: u64
  eg_gc_deferring :: bool
  eg_last_gc_ms :: u64
  eg_pause_hold_until_ms :: u64
  eg_pause_guard :: bool

definition usize_max :: nat where
  "usize_max = 2 ^ 64 - 1"

definition engine_new :: "u64 \<Rightarrow> duration option \<Rightarrow> ('k \<Rightarrow> 'v \<Rightarrow> u32) option \<Rightarrow> ('k, 'v) engine" where
  "engine_new max_capacity tti weigher =
     \<lparr>eg_stripes = (\<lambda>_. stripe_new), eg_digest = (\<lambda>_. 0), eg_total_weight = 0, eg_live_count = 0,
      eg_max_capacity = max_capacity, eg_tti_ms = map_option (\<lambda>d. clamp_tti_ms (duration_ms d)) tti, eg_weigher = weigher,
      eg_evict_cursor = 0x9E3779B97F4A7C15, eg_prefold_enabled = True, eg_merge_cap_limit = usize_max,
      eg_merge_cap_cache_len = 0, eg_compact_cursor = 0, eg_gc_deferring = False, eg_last_gc_ms = 0,
      eg_pause_hold_until_ms = 0, eg_pause_guard = False\<rparr>"

definition is_absent :: "('k, 'v) engine \<Rightarrow> live \<Rightarrow> bytes \<Rightarrow> (bytes, u64) btree_map \<Rightarrow> u64 \<Rightarrow> bool" where
  "is_absent g l key_bytes long_ttl now_ms = absent_at l key_bytes long_ttl (eg_tti_ms g) now_ms"

definition tracks_last_access :: "('k, 'v) engine \<Rightarrow> bool" where
  "tracks_last_access g \<longleftrightarrow> eg_tti_ms g \<noteq> None \<or> eg_max_capacity g \<noteq> u64_max"

definition touch :: "('k, 'v) engine \<Rightarrow> u64 \<Rightarrow> live \<Rightarrow> live" where
  "touch g now_ms l = (if tracks_last_access g then l\<lparr>lv_last_access := touch_stamp now_ms\<rparr> else l)"

definition tombstone_count :: "('k, 'v) engine \<Rightarrow> u64" where
  "tombstone_count g =
     sat_sum (map (\<lambda>b. let n = length (bm_entries (st_tombstones (eg_stripes g b)))
                       in if n < 2 ^ 64 then of_nat n else u64_max) [0..<bucket_count])"

definition starting_gc_deferred :: "bool \<Rightarrow> ('k, 'v) engine \<Rightarrow> ('k, 'v) engine" where
  "starting_gc_deferred deferred g = g\<lparr>eg_gc_deferring := deferred\<rparr>"

definition guarding_pauses :: "bool \<Rightarrow> ('k, 'v) engine \<Rightarrow> ('k, 'v) engine" where
  "guarding_pauses on g = g\<lparr>eg_pause_guard := on\<rparr>"

definition deferring_at :: "('k, 'v) engine \<Rightarrow> u64 \<Rightarrow> u64 \<Rightarrow> bool" where
  "deferring_at g now_ms tombstone_ttl_ms =
     (if \<not> eg_pause_guard g then eg_gc_deferring g
      else fst (gc_defer_decision (eg_gc_deferring g) (paused_since (eg_last_gc_ms g) now_ms tombstone_ttl_ms)
                  (eg_pause_hold_until_ms g) now_ms))"

definition set_prefold_enabled :: "bool \<Rightarrow> ('k, 'v) engine \<Rightarrow> ('k, 'v) engine" where
  "set_prefold_enabled enabled g = g\<lparr>eg_prefold_enabled := enabled\<rparr>"

definition set_merge_cap :: "nat \<Rightarrow> nat \<Rightarrow> ('k, 'v) engine \<Rightarrow> ('k, 'v) engine" where
  "set_merge_cap cache_len limit g = g\<lparr>eg_merge_cap_cache_len := cache_len, eg_merge_cap_limit := limit\<rparr>"

definition engine_merge_cap :: "('k, 'v) engine \<Rightarrow> merge_cap option" where
  "engine_merge_cap g =
     (if eg_merge_cap_limit g \<noteq> usize_max
      then Some \<lparr>cap_cache_len = eg_merge_cap_cache_len g, cap_limit = eg_merge_cap_limit g\<rparr> else None)"

definition account_removed ::
  "externs \<Rightarrow> nat \<Rightarrow> nat \<Rightarrow> bytes \<Rightarrow> removed_live \<Rightarrow> bool \<Rightarrow> ('k, 'v) engine \<Rightarrow> ('k, 'v) engine" where
  "account_removed e bucket part key_bytes removed keep_count g =
     (let slot = digest_slot bucket part
      in g\<lparr>eg_digest := (eg_digest g)(slot := eg_digest g slot XOR entry_fingerprint e key_bytes (rl_ver removed)),
           eg_total_weight := eg_total_weight g - ucast (rl_weight removed),
           eg_live_count := (if keep_count then eg_live_count g else eg_live_count g - 1)\<rparr>)"

section \<open>What a stripe holds\<close>

text \<open>The key and version of every record, live or deleted: what a digest sums up.\<close>

definition live_item :: "externs \<Rightarrow> live \<Rightarrow> bytes \<times> hlc" where
  "live_item e l = (live_key e l, live_ver l)"

definition tombstone_item :: "bytes \<times> tombstone \<Rightarrow> bytes \<times> hlc" where
  "tombstone_item kt = (fst kt, ts_ver (snd kt))"

definition held :: "externs \<Rightarrow> 'v stripe \<Rightarrow> (bytes \<times> hlc) multiset" where
  "held e s = image_mset (live_item e) (mset (st_live s)) + image_mset tombstone_item (mset (bm_entries (st_tombstones s)))"

definition stripe_weight :: "'v stripe \<Rightarrow> u64" where
  "stripe_weight s = sum_mset (image_mset (\<lambda>l. ucast (lv_weight l)) (mset (st_live s)))"

definition stripe_count :: "'v stripe \<Rightarrow> u64" where
  "stripe_count s = of_nat (length (st_live s))"

definition key_part :: "externs \<Rightarrow> bytes \<Rightarrow> nat" where
  "key_part e k = part_index_from_hash (hash_key_bytes e k)"

definition key_bucket :: "externs \<Rightarrow> bytes \<Rightarrow> nat" where
  "key_bucket e k = stripe_index_from_hash (hash_key_bytes e k)"

lemma key_part_lt [simp]: "key_part e k < part_count"
  by (simp add: key_part_def)

lemma key_bucket_lt [simp]: "key_bucket e k < bucket_count"
  by (simp add: key_bucket_def)

definition item_part :: "externs \<Rightarrow> nat \<Rightarrow> bytes \<times> hlc \<Rightarrow> u64" where
  "item_part e p i = (if key_part e (fst i) = p then entry_fingerprint e (fst i) (snd i) else 0)"

definition held_digest :: "externs \<Rightarrow> nat \<Rightarrow> (bytes \<times> hlc) multiset \<Rightarrow> u64" where
  "held_digest e p M = fold_mset (XOR) 0 (image_mset (item_part e p) M)"

lemma comp_fun_commute_xor: "comp_fun_commute ((XOR) :: u64 \<Rightarrow> u64 \<Rightarrow> u64)"
  by unfold_locales (simp add: fun_eq_iff xor.left_commute)

lemma held_digest_empty [simp]: "held_digest e p {#} = 0"
  by (simp add: held_digest_def)

lemma held_digest_add [simp]: "held_digest e p (add_mset i M) = item_part e p i XOR held_digest e p M"
  by (simp add: held_digest_def comp_fun_commute.fold_mset_add_mset[OF comp_fun_commute_xor])

lemma held_digest_union: "held_digest e p (M + N) = held_digest e p M XOR held_digest e p N"
  by (induction M) (simp_all add: xor.assoc)

section \<open>The invariant\<close>

definition live_keys :: "externs \<Rightarrow> 'v stripe \<Rightarrow> bytes set" where
  "live_keys e s = live_key e ` set (st_live s)"

definition stripe_ok :: "externs \<Rightarrow> nat \<Rightarrow> 'v stripe \<Rightarrow> bool" where
  "stripe_ok e b s \<longleftrightarrow>
     distinct (map (live_key e) (st_live s)) \<and>
     (\<forall>k \<in> live_keys e s. key_bucket e k = b \<and> length k < 2 ^ 32 \<and> bm_get (st_tombstones s) k = None) \<and>
     (\<forall>k. bm_get (st_tombstones s) k \<noteq> None \<longrightarrow> key_bucket e k = b) \<and>
     (\<forall>l \<in> set (st_live s). lv_expiry l = long_ttl_mark \<longrightarrow> bm_get (st_long_ttl s) (live_key e l) \<noteq> None) \<and>
     (\<forall>k. bm_get (st_long_ttl s) k \<noteq> None \<longrightarrow>
        (\<exists>l \<in> set (st_live s). live_key e l = k \<and> lv_expiry l = long_ttl_mark)) \<and>
     (\<forall>l \<in> set (st_live s). is_none_or (\<lambda>d. st_next_expiry s \<le> d) (live_expires_at l (live_key e l) (st_long_ttl s)))"

definition engine_ok :: "externs \<Rightarrow> ('k, 'v) engine \<Rightarrow> bool" where
  "engine_ok e g \<longleftrightarrow>
     (\<forall>b < bucket_count. stripe_ok e b (eg_stripes g b)) \<and>
     (\<forall>b < bucket_count. \<forall>p < part_count.
        eg_digest g (digest_slot b p) = held_digest e p (held e (eg_stripes g b))) \<and>
     eg_total_weight g = (\<Sum>b < bucket_count. stripe_weight (eg_stripes g b)) \<and>
     eg_live_count g = (\<Sum>b < bucket_count. stripe_count (eg_stripes g b))"

lemma stripe_new_ok [simp]: "stripe_ok e b stripe_new"
  by (simp add: stripe_ok_def stripe_new_def live_keys_def)

lemma bm_entries_empty [simp]: "bm_entries bm_empty = []"
  by (rule bm_empty.rep_eq)

lemma stripe_new_sums [simp]: "held e stripe_new = {#}" "stripe_weight stripe_new = 0" "stripe_count stripe_new = 0"
  by (simp_all add: held_def stripe_weight_def stripe_count_def stripe_new_def)

lemma engine_new_ok: "engine_ok e (engine_new cap tti w)"
  by (simp add: engine_ok_def engine_new_def)

section \<open>Moving the counters with a stripe\<close>

lemma bm_entries_retain: "bm_entries (bm_retain P m) = filter (\<lambda>(k, v). P k v) (bm_entries m)"
  by (rule bm_retain.rep_eq)

lemma mset_bm_entries_remove:
  assumes "bm_get m k = Some v"
  shows "mset (bm_entries m) = add_mset (k, v) (mset (bm_entries (bm_remove k m)))"
proof -
  have d: "distinct (bm_entries m)"
    using sorted_keys_distinct[OF sorted_keys_bm_entries[of m]] by (simp add: distinct_map)
  have "x \<in> set (bm_entries m) \<longleftrightarrow> x \<in> set ((k, v) # bm_entries (bm_remove k m))" for x
    using assms by (cases x) (auto simp: in_bm_entries_iff)
  moreover have "distinct ((k, v) # bm_entries (bm_remove k m))"
    using d by (auto simp: bm_remove_def bm_entries_retain)
  ultimately show ?thesis
    using d by (metis mset.simps(2) set_eq_iff_mset_eq_distinct subsetI subset_antisym)
qed

lemma bm_remove_insert: "bm_remove k (bm_insert k v m) = bm_remove k m"
  by (rule bm_ext) simp

lemma mset_bm_entries_insert: "mset (bm_entries (bm_insert k v m)) = add_mset (k, v) (mset (bm_entries (bm_remove k m)))"
  using mset_bm_entries_remove[of "bm_insert k v m" k v] by (simp add: bm_remove_insert)

text \<open>
  What an operation on one key of stripe \<open>b\<close> and part \<open>p\<close> must do to the digest of that
  part, the total weight and the count so that they stay exact.
\<close>

definition balanced ::
  "externs \<Rightarrow> nat \<Rightarrow> 'v stripe \<times> u64 \<times> u64 \<times> u64 \<Rightarrow> 'v stripe \<times> u64 \<times> u64 \<times> u64 \<Rightarrow> bool" where
  "balanced e p x y \<longleftrightarrow>
     (case x of (s, d, w, n) \<Rightarrow> case y of (s', d', w', n') \<Rightarrow>
        d' XOR held_digest e p (held e s') = d XOR held_digest e p (held e s) \<and>
        (\<forall>q. q \<noteq> p \<longrightarrow> held_digest e q (held e s') = held_digest e q (held e s)) \<and>
        w' - stripe_weight s' = w - stripe_weight s \<and> n' - stripe_count s' = n - stripe_count s)"

lemma balanced_refl [simp]: "balanced e p x x"
  by (auto simp: balanced_def)

lemma balanced_trans: "balanced e p x y \<Longrightarrow> balanced e p y z \<Longrightarrow> balanced e p x z"
  by (auto simp: balanced_def)

lemma sum_stripes_update:
  assumes "b < bucket_count"
  shows "(\<Sum>i < bucket_count. f ((\<sigma>(b := s)) i)) = (\<Sum>i < bucket_count. f (\<sigma> i)) - f (\<sigma> b) + (f s :: u64)"
proof -
  have split: "(\<Sum>i < bucket_count. f (\<tau> i)) = f (\<tau> b) + (\<Sum>i \<in> {..< bucket_count} - {b}. f (\<tau> i))" for \<tau>
    using assms by (intro sum.remove) simp_all
  have "(\<Sum>i \<in> {..< bucket_count} - {b}. f ((\<sigma>(b := s)) i)) = (\<Sum>i \<in> {..< bucket_count} - {b}. f (\<sigma> i))"
    by (intro sum.cong) simp_all
  then show ?thesis using split[of \<sigma>] split[of "\<sigma>(b := s)"] by simp
qed

lemma xor_zero_eq: "a XOR x = 0 \<Longrightarrow> a = x" for a x :: u64
proof -
  assume "a XOR x = 0"
  then have "(a XOR x) XOR x = x" by simp
  then show "a = x" by (simp add: xor.assoc)
qed

text \<open>Replacing one stripe, with the counters moved to match.\<close>

lemma engine_ok_stripe:
  assumes ok: "engine_ok e g" and b: "b < bucket_count" and s: "stripe_ok e b s'"
    and stripes: "eg_stripes g' = (eg_stripes g)(b := s')"
    and digest: "\<And>p. p < part_count \<Longrightarrow> eg_digest g (digest_slot b p) = held_digest e p (held e (eg_stripes g b)) \<Longrightarrow>
      eg_digest g' (digest_slot b p) = held_digest e p (held e s')"
    and others: "\<And>b' p. b' \<noteq> b \<Longrightarrow> p < part_count \<Longrightarrow> eg_digest g' (digest_slot b' p) = eg_digest g (digest_slot b' p)"
    and weight: "eg_total_weight g' - stripe_weight s' = eg_total_weight g - stripe_weight (eg_stripes g b)"
    and count: "eg_live_count g' - stripe_count s' = eg_live_count g - stripe_count (eg_stripes g b)"
  shows "engine_ok e g'"
proof -
  have "eg_total_weight g' = eg_total_weight g - stripe_weight (eg_stripes g b) + stripe_weight s'"
    using weight by (metis diff_add_cancel)
  moreover have "eg_live_count g' = eg_live_count g - stripe_count (eg_stripes g b) + stripe_count s'"
    using count by (metis diff_add_cancel)
  ultimately have sums: "eg_total_weight g' = (\<Sum>b < bucket_count. stripe_weight (eg_stripes g' b))"
    "eg_live_count g' = (\<Sum>b < bucket_count. stripe_count (eg_stripes g' b))"
    using ok unfolding stripes sum_stripes_update[OF b] by (simp_all add: engine_ok_def)
  have "eg_digest g' (digest_slot b' p) = held_digest e p (held e (eg_stripes g' b'))"
    if "b' < bucket_count" "p < part_count" for b' p
    using that ok digest[of p] others[of b' p] by (cases "b' = b") (simp_all add: stripes engine_ok_def)
  with sums show ?thesis using ok s by (simp add: engine_ok_def stripes)
qed

lemma engine_ok_balanced:
  assumes ok: "engine_ok e g" and b: "b < bucket_count" and p: "p < part_count" and s: "stripe_ok e b s'"
    and bal: "balanced e p
      (eg_stripes g b, eg_digest g (digest_slot b p), eg_total_weight g, eg_live_count g) (s', d, w, n)"
    and g': "eg_stripes g' = (eg_stripes g)(b := s')" "eg_digest g' = (eg_digest g)(digest_slot b p := d)"
      "eg_total_weight g' = w" "eg_live_count g' = n"
  shows "engine_ok e g'"
proof (rule engine_ok_stripe[OF ok b s g'(1)])
  show "eg_digest g' (digest_slot b q) = held_digest e q (held e s')"
    if "q < part_count" "eg_digest g (digest_slot b q) = held_digest e q (held e (eg_stripes g b))" for q
  proof (cases "q = p")
    case True
    then show ?thesis
      using bal that(2) by (auto simp: balanced_def g' intro: xor_zero_eq)
  next
    case False
    then show ?thesis using bal that p by (simp add: balanced_def g' digest_slot_inj)
  qed
qed (use bal p in \<open>simp_all add: balanced_def g' digest_slot_inj\<close>)

section \<open>Taking an entry out, putting one in\<close>

lemma stripe_okD:
  assumes "stripe_ok e b s"
  shows "distinct (map (live_key e) (st_live s))"
    and "k \<in> live_keys e s \<Longrightarrow> key_bucket e k = b \<and> length k < 2 ^ 32 \<and> bm_get (st_tombstones s) k = None"
    and "bm_get (st_tombstones s) k = Some t \<Longrightarrow> key_bucket e k = b"
    and "l \<in> set (st_live s) \<Longrightarrow> lv_expiry l = long_ttl_mark \<Longrightarrow> bm_get (st_long_ttl s) (live_key e l) \<noteq> None"
    and "bm_get (st_long_ttl s) k \<noteq> None \<Longrightarrow> \<exists>l \<in> set (st_live s). live_key e l = k \<and> lv_expiry l = long_ttl_mark"
    and "l \<in> set (st_live s) \<Longrightarrow>
      is_none_or (\<lambda>d. st_next_expiry s \<le> d) (live_expires_at l (live_key e l) (st_long_ttl s))"
  using assms by (auto simp: stripe_ok_def)

lemma remove_live_None: "remove_live e k s = None \<longleftrightarrow> k \<notin> live_keys e s"
  using arena_remove_None[of e k "st_live s"] by (auto simp: remove_live_def live_keys_def split: option.splits)

lemma remove_live_Some:
  assumes "remove_live e k s = Some (r, s')"
  obtains l where "arena_find e k (st_live s) = Some l" and "live_key e l = k" and "rl_ver r = live_ver l"
    and "rl_weight r = lv_weight l" and "mset (st_live s) = add_mset l (mset (st_live s'))"
    and "s' = s\<lparr>st_live := st_live s', st_long_ttl := bm_remove k (st_long_ttl s)\<rparr>"
  using assms arena_remove_Some[of e k "st_live s"] arena_remove_find[of e k "st_live s"]
  by (fastforce simp: remove_live_def split: option.splits)

lemma remove_live_same:
  assumes "remove_live e k s = Some (r, s')"
  shows "st_tombstones s' = st_tombstones s" and "st_inflight s' = st_inflight s"
    and "st_long_ttl s' = bm_remove k (st_long_ttl s)" and "st_next_expiry s' = st_next_expiry s"
  using assms by (auto simp: remove_live_def split: option.splits)

lemma remove_live_sums:
  assumes "remove_live e k s = Some (r, s')"
  shows "held e s = add_mset (k, rl_ver r) (held e s')"
    and "stripe_weight s = ucast (rl_weight r) + stripe_weight s'"
    and "stripe_count s = 1 + stripe_count s'"
proof -
  obtain l where l: "live_key e l = k" "rl_ver r = live_ver l" "rl_weight r = lv_weight l"
    "mset (st_live s) = add_mset l (mset (st_live s'))"
    "s' = s\<lparr>st_live := st_live s', st_long_ttl := bm_remove k (st_long_ttl s)\<rparr>"
    using assms by (rule remove_live_Some)
  have "st_tombstones s' = st_tombstones s" by (subst l(5)) simp
  moreover have "length (st_live s) = Suc (length (st_live s'))"
    using arg_cong[OF l(4), of size] by simp
  ultimately show "held e s = add_mset (k, rl_ver r) (held e s')"
    "stripe_weight s = ucast (rl_weight r) + stripe_weight s'" "stripe_count s = 1 + stripe_count s'"
    using l(1-4) by (simp_all add: held_def stripe_weight_def stripe_count_def live_item_def)
qed

lemma remove_live_ok:
  assumes ok: "stripe_ok e b s" and rm: "remove_live e k s = Some (r, s')"
  shows "stripe_ok e b s'" and "k \<notin> live_keys e s'" and "bm_get (st_long_ttl s') k = None"
    and "k \<in> live_keys e s"
proof -
  obtain l where l: "live_key e l = k" "mset (st_live s) = add_mset l (mset (st_live s'))"
    "s' = s\<lparr>st_live := st_live s', st_long_ttl := bm_remove k (st_long_ttl s)\<rparr>"
    using rm by (rule remove_live_Some)
  have same: "st_tombstones s' = st_tombstones s" "st_long_ttl s' = bm_remove k (st_long_ttl s)"
    "st_next_expiry s' = st_next_expiry s" by (subst l(3), simp)+
  have set: "set (st_live s) = insert l (set (st_live s'))" using arg_cong[OF l(2), of set_mset] by simp
  have "mset (map (live_key e) (st_live s)) = mset (map (live_key e) (l # st_live s'))"
    using l(2) by simp
  then have "distinct (map (live_key e) (l # st_live s'))"
    using stripe_okD(1)[OF ok] by (metis mset_eq_imp_distinct_iff)
  then have dist: "distinct (map (live_key e) (st_live s'))" and k: "k \<notin> live_key e ` set (st_live s')"
    using l(1) by (auto simp del: set_map simp: set_map[symmetric])
  then show "k \<notin> live_keys e s'" by (simp add: live_keys_def)
  show "bm_get (st_long_ttl s') k = None" by (simp add: same)
  show "k \<in> live_keys e s" using l(1) by (simp add: live_keys_def set)
  have exp: "live_expires_at x (live_key e x) (st_long_ttl s') = live_expires_at x (live_key e x) (st_long_ttl s)"
    if "x \<in> set (st_live s')" for x
    using that k by (auto simp: live_expires_at_def decode_expiry_def same)
  have rows: "\<exists>x \<in> set (st_live s'). live_key e x = a \<and> lv_expiry x = long_ttl_mark"
    if "bm_get (st_long_ttl s') a \<noteq> None" for a
    using that stripe_okD(5)[OF ok, of a] l(1) by (auto simp: same set split: if_splits)
  show "stripe_ok e b s'"
    unfolding stripe_ok_def
  proof (intro conjI ballI allI impI)
    fix x assume x: "x \<in> set (st_live s')"
    show "is_none_or (\<lambda>d. st_next_expiry s' \<le> d) (live_expires_at x (live_key e x) (st_long_ttl s'))"
      using stripe_okD(6)[OF ok, of x] x by (simp add: exp[OF x] same(3) set)
    show "bm_get (st_long_ttl s') (live_key e x) \<noteq> None" if "lv_expiry x = long_ttl_mark"
      using stripe_okD(4)[OF ok, of x] x that k by (auto simp: same set)
  qed (use dist rows stripe_okD(2)[OF ok] stripe_okD(3)[OF ok] in \<open>auto simp: same set live_keys_def\<close>)
qed

text \<open>Putting in an entry for a key the stripe does not hold.\<close>

lemma insert_live_sums:
  assumes "st_live s' = arena_insert l (st_live s)" and "st_tombstones s' = st_tombstones s"
  shows "held e s' = add_mset (live_key e l, live_ver l) (held e s)"
    and "stripe_weight s' = ucast (lv_weight l) + stripe_weight s"
    and "stripe_count s' = 1 + stripe_count s"
  using assms by (simp_all add: held_def stripe_weight_def stripe_count_def arena_insert_def live_item_def)

lemma insert_live_expires:
  assumes "encode_expiry (lv_wall_ms l) x = (lv_expiry l, row)"
    and "tbl' = (case row of None \<Rightarrow> tbl | Some d \<Rightarrow> bm_insert (live_key e l) d tbl)"
  shows "live_expires_at l (live_key e l) tbl' = x"
    and "a \<noteq> live_key e l \<Longrightarrow> live_expires_at y a tbl' = live_expires_at y a tbl"
  using assms(2) decode_encode_expiry[OF assms(1), of tbl' "live_key e l"]
  by (auto simp: live_expires_at_def decode_expiry_def split: option.splits)

lemma insert_live_ok:
  assumes ok: "stripe_ok e b s" and fresh: "live_key e l \<notin> live_keys e s"
    and clear: "bm_get (st_tombstones s) (live_key e l) = None"
    and key: "key_bucket e (live_key e l) = b" "length (live_key e l) < 2 ^ 32"
    and enc: "encode_expiry (lv_wall_ms l) x = (lv_expiry l, row)"
    and s': "st_live s' = arena_insert l (st_live s)" "st_tombstones s' = st_tombstones s"
      "st_long_ttl s' = (case row of None \<Rightarrow> st_long_ttl s | Some d \<Rightarrow> bm_insert (live_key e l) d (st_long_ttl s))"
      "st_next_expiry s' = (case x of None \<Rightarrow> st_next_expiry s | Some exp \<Rightarrow> min (st_next_expiry s) exp)"
  shows "stripe_ok e b s'"
proof -
  note exp = insert_live_expires[OF enc s'(3)]
  have set: "set (st_live s') = insert l (set (st_live s))" by (auto simp: s' arena_insert_def)
  have next_le: "st_next_expiry s' \<le> st_next_expiry s" by (simp add: s' split: option.split)
  have row_iff: "row \<noteq> None \<longleftrightarrow> lv_expiry l = long_ttl_mark" by (rule encode_expiry_row[OF enc])
  have neq: "live_key e y \<noteq> live_key e l" if "y \<in> set (st_live s)" for y
    using fresh imageI[OF that, of "live_key e"] by (metis live_keys_def)
  show ?thesis
    unfolding stripe_ok_def
  proof (intro conjI ballI allI impI)
    show "distinct (map (live_key e) (st_live s'))"
      using stripe_okD(1)[OF ok] fresh by (simp add: s' arena_insert_def live_keys_def)
    fix y assume y: "y \<in> set (st_live s')"
    show "is_none_or (\<lambda>d. st_next_expiry s' \<le> d) (live_expires_at y (live_key e y) (st_long_ttl s'))"
    proof (cases "y \<in> set (st_live s)")
      case True
      have "is_none_or (\<lambda>d. st_next_expiry s' \<le> d) (live_expires_at y (live_key e y) (st_long_ttl s))"
        using stripe_okD(6)[OF ok True] next_le
        by (cases "live_expires_at y (live_key e y) (st_long_ttl s)") auto
      then show ?thesis by (simp add: exp(2)[OF neq[OF True]])
    next
      case False
      then have "y = l" using y set by simp
      then show ?thesis using exp(1) s'(4) by (cases x) auto
    qed
    show "bm_get (st_long_ttl s') (live_key e y) \<noteq> None" if "lv_expiry y = long_ttl_mark"
      using y that row_iff stripe_okD(4)[OF ok, of y] by (auto simp: set s'(3) split: option.split)
  next
    fix k assume "bm_get (st_long_ttl s') k \<noteq> None"
    then show "\<exists>y \<in> set (st_live s'). live_key e y = k \<and> lv_expiry y = long_ttl_mark"
      using row_iff stripe_okD(5)[OF ok, of k] by (auto simp: set s'(3) split: option.splits if_splits)
  qed (use key clear stripe_okD(2)[OF ok] stripe_okD(3)[OF ok] in \<open>auto simp: s'(2) set live_keys_def\<close>)
qed

section \<open>The record of a key\<close>

text \<open>
  What the engine holds for a key, as the rest of the program sees it: the version, value and
  deadline of a live entry, or the tombstone.
\<close>

datatype cell = Cell_Live hlc bytes "u64 option" | Cell_Tombstone tombstone

definition live_cell :: "externs \<Rightarrow> (bytes, u64) btree_map \<Rightarrow> live \<Rightarrow> cell" where
  "live_cell e tbl l = Cell_Live (live_ver l) (record_value e (lv_record l)) (live_expires_at l (live_key e l) tbl)"

definition cell_at :: "externs \<Rightarrow> 'v stripe \<Rightarrow> bytes \<Rightarrow> cell option" where
  "cell_at e s k =
     (case bm_get (st_tombstones s) k of
        Some t \<Rightarrow> Some (Cell_Tombstone t)
      | None \<Rightarrow> map_option (live_cell e (st_long_ttl s)) (arena_find e k (st_live s)))"

fun cell_ver :: "cell \<Rightarrow> hlc" where
  "cell_ver (Cell_Live v _ _) = v"
| "cell_ver (Cell_Tombstone t) = ts_ver t"

lemma arena_find_iff:
  assumes "distinct (map (live_key e) xs)"
  shows "arena_find e k xs = Some l \<longleftrightarrow> l \<in> set xs \<and> live_key e l = k"
  using arena_find_member[OF assms] arena_find_Some[of e k xs l] by auto

lemma arena_find_cong:
  assumes "distinct (map (live_key e) xs)" and "distinct (map (live_key e) ys)"
    and "\<And>l. live_key e l = k \<Longrightarrow> l \<in> set xs \<longleftrightarrow> l \<in> set ys"
  shows "arena_find e k xs = arena_find e k ys"
  using arena_find_iff[OF assms(1)] arena_find_iff[OF assms(2)] assms(3) by (metis option.exhaust)

lemma arena_find_insert:
  "arena_find e k (arena_insert l xs) =
     (case arena_find e k xs of Some y \<Rightarrow> Some y | None \<Rightarrow> if live_key e l = k then Some l else None)"
  by (induction xs) (auto simp: arena_find_def arena_insert_def)

lemma arena_find_keys: "arena_find e k (st_live s) = None \<longleftrightarrow> k \<notin> live_keys e s"
  by (simp add: arena_find_None live_keys_def)

lemma cell_at_remove_live:
  assumes ok: "stripe_ok e b s" and rm: "remove_live e k s = Some (r, s')"
  shows "cell_at e s' = (cell_at e s)(k := None)"
proof
  fix a
  obtain l where l: "live_key e l = k" "mset (st_live s) = add_mset l (mset (st_live s'))"
    "s' = s\<lparr>st_live := st_live s', st_long_ttl := bm_remove k (st_long_ttl s)\<rparr>"
    using rm by (rule remove_live_Some)
  have same: "st_tombstones s' = st_tombstones s" "st_long_ttl s' = bm_remove k (st_long_ttl s)"
    by (subst l(3), simp)+
  have set: "set (st_live s) = insert l (set (st_live s'))" using arg_cong[OF l(2), of set_mset] by simp
  note ok' = remove_live_ok[OF ok rm]
  show "cell_at e s' a = ((cell_at e s)(k := None)) a"
  proof (cases "a = k")
    case True
    have "bm_get (st_tombstones s) k = None" using stripe_okD(2)[OF ok ok'(4)] by simp
    then show ?thesis using True ok'(2) by (simp add: cell_at_def same arena_find_keys[THEN iffD2])
  next
    case False
    have "arena_find e a (st_live s') = arena_find e a (st_live s)"
      using False l(1) by (intro arena_find_cong stripe_okD(1)[OF ok'(1)] stripe_okD(1)[OF ok]) (auto simp: set)
    moreover have "live_cell e (st_long_ttl s') x = live_cell e (st_long_ttl s) x" if "live_key e x = a" for x
      using that False by (simp add: live_cell_def live_expires_at_def decode_expiry_def same)
    ultimately show ?thesis
      using False arena_find_Some[of e a "st_live s"]
      by (cases "arena_find e a (st_live s)") (simp_all add: cell_at_def same split: option.split)
  qed
qed

lemma cell_at_insert_live:
  assumes fresh: "live_key e l \<notin> live_keys e s" and clear: "bm_get (st_tombstones s) (live_key e l) = None"
    and enc: "encode_expiry (lv_wall_ms l) x = (lv_expiry l, row)"
    and s': "st_live s' = arena_insert l (st_live s)" "st_tombstones s' = st_tombstones s"
      "st_long_ttl s' = (case row of None \<Rightarrow> st_long_ttl s | Some d \<Rightarrow> bm_insert (live_key e l) d (st_long_ttl s))"
  shows "cell_at e s' = (cell_at e s)(live_key e l \<mapsto> Cell_Live (live_ver l) (record_value e (lv_record l)) x)"
proof
  fix a
  note exp = insert_live_expires[OF enc s'(3)]
  have find: "arena_find e a (st_live s') = (if a = live_key e l then Some l else arena_find e a (st_live s))"
    using fresh arena_find_keys[of e "live_key e l" s] by (auto simp: s' arena_find_insert split: option.split)
  show "cell_at e s' a = ((cell_at e s)(live_key e l \<mapsto> Cell_Live (live_ver l) (record_value e (lv_record l)) x)) a"
  proof (cases "a = live_key e l")
    case True
    then show ?thesis using clear find by (simp add: cell_at_def s'(2) live_cell_def exp(1))
  next
    case False
    have "live_cell e (st_long_ttl s') y = live_cell e (st_long_ttl s) y" if "live_key e y = a" for y
      using that False by (simp add: live_cell_def exp(2))
    then show ?thesis
      using False arena_find_Some[of e a "st_live s"]
      by (cases "arena_find e a (st_live s)") (simp_all add: cell_at_def s'(2) find split: option.split)
  qed
qed

end
