(* ===== verification/Engine_Apply.thy ===== *)
theory Engine_Apply
  imports Engine_State
begin

text \<open>
  The versioned write of \<^verbatim>\<open>engine/apply.rs\<close>: \<open>apply_locked\<close> with its gates, its put and
  tombstone halves and the fingerprint swap. It works on one stripe and on the counters the source
  borrows into \<open>ApplyCtx\<close>, here the record \<open>apply_cells\<close>. Decoding a merged value with
  postcard is an argument. The lemmas say that a write keeps the stripe invariant and moves the
  counters exactly, and what it does to the record of its key and of every other key.
\<close>

section \<open>Arrival\<close>

datatype apply_scope = Any | HeldOnly

datatype arrival = Local | Peer

definition is_peer :: "arrival \<Rightarrow> bool" where
  "is_peer a \<longleftrightarrow> a = Peer"

record arrival_rule =
  ar_from_peer :: bool
  ar_deferring :: bool
  ar_ttl_ms :: u64
  ar_max_ttl_ms :: u64
  ar_now_ms :: u64

definition rule_deadlines :: "arrival_rule \<Rightarrow> 'v incoming \<Rightarrow> hlc \<Rightarrow> (u64 \<times> u64) option" where
  "rule_deadlines rule incoming ver =
     (case incoming of
        Put _ _ _ \<Rightarrow> None
      | Tombstone expired_at_ms \<Rightarrow>
          Some (tombstone_deadlines (tombstone_anchor_ms expired_at_ms (wall_ms ver) (ar_now_ms rule)) (ar_ttl_ms rule)
                  (deferred_retention_ms (expired_at_ms \<noteq> None) (ar_ttl_ms rule) (ar_max_ttl_ms rule))))"

definition rule_ignores :: "arrival_rule \<Rightarrow> (u64 \<times> u64) option \<Rightarrow> bool" where
  "rule_ignores rule deadlines \<longleftrightarrow>
     is_some_and (\<lambda>d. drops_lapsed_tombstone (ar_from_peer rule) d (ar_now_ms rule) (ar_deferring rule)) deadlines"

section \<open>The context of a write\<close>

record 'k entry_key =
  ek_hash :: u64
  ek_key :: 'k
  ek_bytes :: bytes

record ('k, 'v) apply_ctx =
  ac_weigher :: "('k \<Rightarrow> 'v \<Rightarrow> u32) option"
  ac_tti_ms :: "u64 option"
  ac_resolver :: conflict_resolver
  ac_merge_cap :: "merge_cap option"
  ac_ttl_ms :: u64
  ac_max_ttl_ms :: u64
  ac_deferring :: bool
  ac_now_ms :: u64
  ac_from_peer :: bool
  ac_held_only :: bool

text \<open>The atomics a write moves: the digest of the key's part, the totals and the ignored count.\<close>

record apply_cells =
  cl_digest :: u64
  cl_weight :: u64
  cl_live :: u64
  cl_ignored :: u64

definition ctx_rule :: "('k, 'v) apply_ctx \<Rightarrow> arrival_rule" where
  "ctx_rule ctx =
     \<lparr>ar_from_peer = ac_from_peer ctx, ar_deferring = ac_deferring ctx, ar_ttl_ms = ac_ttl_ms ctx,
      ar_max_ttl_ms = ac_max_ttl_ms ctx, ar_now_ms = ac_now_ms ctx\<rparr>"

datatype ('k, 'v) apply_outcome =
    Rejected
  | Out_Put 'k 'v bool hlc
  | Out_Tombstoned 'k hlc
  | Out_TooLarge bytes nat

fun outcome_too_large :: "('k, 'v) apply_outcome \<Rightarrow> nat option" where
  "outcome_too_large (Out_TooLarge _ n) = Some n"
| "outcome_too_large _ = None"

fun outcome_key :: "('k, 'v) apply_outcome \<Rightarrow> 'k option" where
  "outcome_key (Out_Put key _ _ _) = Some key"
| "outcome_key (Out_Tombstoned key _) = Some key"
| "outcome_key _ = None"

fun outcome_version :: "('k, 'v) apply_outcome \<Rightarrow> hlc option" where
  "outcome_version (Out_Put _ _ _ version) = Some version"
| "outcome_version (Out_Tombstoned _ version) = Some version"
| "outcome_version _ = None"

fun is_out_put :: "('k, 'v) apply_outcome \<Rightarrow> bool" where
  "is_out_put (Out_Put _ _ _ _) = True"
| "is_out_put _ = False"

section \<open>The write\<close>

record stored_live =
  sv_ver :: hlc
  sv_encoded :: "bytes option"
  sv_expires :: "u64 option"
  sv_visible :: bool

definition read_stored_live ::
  "externs \<Rightarrow> 'v stripe \<Rightarrow> ('k, 'v) apply_ctx \<Rightarrow> bytes \<Rightarrow> stored_live option" where
  "read_stored_live e s ctx key_bytes =
     (case arena_find e key_bytes (st_live s) of
        None \<Rightarrow> None
      | Some l \<Rightarrow>
          let visible = (\<not> absent_at l key_bytes (st_long_ttl s) (ac_tti_ms ctx) (ac_now_ms ctx))
          in Some \<lparr>sv_ver = live_ver l, sv_encoded = Some (record_value e (lv_record l)),
                   sv_expires = decode_expiry (lv_wall_ms l) (lv_expiry l) key_bytes (st_long_ttl s),
                   sv_visible = visible\<rparr>)"

definition swap_fingerprint ::
  "externs \<Rightarrow> bytes \<Rightarrow> hlc \<Rightarrow> tombstone option \<Rightarrow> hlc option \<Rightarrow> 'v stripe \<times> apply_cells \<Rightarrow> 'v stripe \<times> apply_cells" where
  "swap_fingerprint e key_bytes ver prior_tombstone stored_ver sc =
     (let (s, c) = sc;
          (s, c) = (case prior_tombstone of
                      Some t \<Rightarrow>
                        (s\<lparr>st_tombstones := bm_remove key_bytes (st_tombstones s)\<rparr>,
                         c\<lparr>cl_digest := cl_digest c XOR entry_fingerprint e key_bytes (ts_ver t)\<rparr>)
                    | None \<Rightarrow>
                        (case stored_ver of
                           Some sv \<Rightarrow> (s, c\<lparr>cl_digest := cl_digest c XOR entry_fingerprint e key_bytes sv\<rparr>)
                         | None \<Rightarrow> (s, c)))
      in (s, c\<lparr>cl_digest := cl_digest c XOR entry_fingerprint e key_bytes ver\<rparr>))"

text \<open>The held-only gate: whether the write is refused, and the stripe with its load marked.\<close>

definition reject_unheld ::
  "bytes \<Rightarrow> hlc option \<Rightarrow> hlc \<Rightarrow> 'v incoming \<Rightarrow> bool \<Rightarrow> 'v stripe \<Rightarrow> bool \<times> 'v stripe" where
  "reject_unheld key_bytes stored_ver ver incoming holds s =
     (if holds \<and> \<not> is_tombstone incoming then (False, s)
      else (True, if is_none_or (\<lambda>sv. sv < ver) stored_ver then invalidate_inflight key_bytes s else s))"

definition apply_put ::
  "externs \<Rightarrow> ('k, 'v) apply_ctx \<Rightarrow> 'k entry_key \<Rightarrow> hlc \<Rightarrow> 'v \<Rightarrow> u64 option \<Rightarrow> bytes \<Rightarrow> bool \<Rightarrow> bool
     \<Rightarrow> 'v stripe \<times> apply_cells \<Rightarrow> ('k, 'v) apply_outcome \<times> 'v stripe \<times> apply_cells" where
  "apply_put e ctx entry ver value expires_at_ms encoded had_live was_visible sc =
     (let (s, c) = sc; key_bytes = ek_bytes entry;
          weight = (case ac_weigher ctx of None \<Rightarrow> 1 | Some w \<Rightarrow> w (ek_key entry) value);
          (old_weight, s) = (case (if had_live then remove_live e key_bytes s else None) of
                               Some (r, s') \<Rightarrow> (Some (rl_weight r), s')
                             | None \<Rightarrow> (None, s));
          (expiry, long_ttl_value) = encode_expiry (wall_ms ver) expires_at_ms;
          s = s\<lparr>st_long_ttl := (case long_ttl_value of
                                 Some deadline \<Rightarrow> bm_insert key_bytes deadline (st_long_ttl s)
                               | None \<Rightarrow> st_long_ttl s),
                st_live := arena_insert
                  (live_new (build_resident_record e key_bytes encoded) ver expiry weight (ac_now_ms ctx)) (st_live s),
                st_next_expiry := (case expires_at_ms of
                                     Some exp \<Rightarrow> min (st_next_expiry s) exp
                                   | None \<Rightarrow> st_next_expiry s)\<rparr>;
          c = c\<lparr>cl_weight := cl_weight c + ucast weight\<rparr>;
          c = (case old_weight of
                 Some ow \<Rightarrow> c\<lparr>cl_weight := cl_weight c - ucast ow\<rparr>
               | None \<Rightarrow> c\<lparr>cl_live := cl_live c + 1\<rparr>)
      in (Out_Put (ek_key entry) value (\<not> was_visible) ver, s, c))"

definition apply_tombstone ::
  "externs \<Rightarrow> 'k entry_key \<Rightarrow> tombstone \<Rightarrow> bool \<Rightarrow> 'v stripe \<times> apply_cells
     \<Rightarrow> ('k, 'v) apply_outcome \<times> 'v stripe \<times> apply_cells" where
  "apply_tombstone e entry t had_live sc =
     (let (s, c) = sc; key_bytes = ek_bytes entry;
          (s, c) = (case (if had_live then remove_live e key_bytes s else None) of
                      Some (r, s') \<Rightarrow>
                        (s', c\<lparr>cl_weight := cl_weight c - ucast (rl_weight r), cl_live := cl_live c - 1\<rparr>)
                    | None \<Rightarrow> (s, c))
      in (Out_Tombstoned (ek_key entry) (ts_ver t),
          s\<lparr>st_tombstones := bm_insert key_bytes t (st_tombstones s)\<rparr>, c))"

text \<open>What a write that won stores: the tail of \<open>apply_locked\<close>.\<close>

definition apply_winner ::
  "externs \<Rightarrow> ('k, 'v) apply_ctx \<Rightarrow> 'k entry_key \<Rightarrow> (u64 \<times> u64) option \<Rightarrow> tombstone option \<Rightarrow> stored_live option
     \<Rightarrow> hlc option \<Rightarrow> hlc \<Rightarrow> 'v incoming \<Rightarrow> 'v stripe \<times> apply_cells
     \<Rightarrow> ('k, 'v) apply_outcome \<times> 'v stripe \<times> apply_cells" where
  "apply_winner e ctx entry deadlines prior_tombstone stored stored_ver ver incoming sc =
     (let had_live = (prior_tombstone = None \<and> stored_ver \<noteq> None);
          was_visible = is_some_and sv_visible stored;
          sc = swap_fingerprint e (ek_bytes entry) ver prior_tombstone stored_ver sc
      in case incoming of
           Put value expires_at_ms encoded \<Rightarrow>
             apply_put e ctx entry ver value expires_at_ms encoded had_live was_visible sc
         | Tombstone expired_at_ms \<Rightarrow>
             let (ttl_deadline, max_deadline) = (case deadlines of Some d \<Rightarrow> d | None \<Rightarrow> (0, 0))
             in apply_tombstone e entry
                  \<lparr>ts_ver = ver, ts_ttl_deadline = ttl_deadline, ts_max_deadline = max_deadline,
                   ts_expired_at = expired_at_ms\<rparr> had_live sc)"

definition apply_locked ::
  "externs \<Rightarrow> (bytes \<Rightarrow> 'v option) \<Rightarrow> ('k, 'v) apply_ctx \<Rightarrow> 'k entry_key \<Rightarrow> hlc \<Rightarrow> 'v incoming
     \<Rightarrow> 'v stripe \<times> apply_cells \<Rightarrow> ('k, 'v) apply_outcome \<times> 'v stripe \<times> apply_cells" where
  "apply_locked e dec ctx entry ver incoming sc =
     (let (s, c) = sc; rule = ctx_rule ctx; deadlines = rule_deadlines rule incoming ver
      in if rule_ignores rule deadlines then (Rejected, s, c\<lparr>cl_ignored := cl_ignored c + 1\<rparr>)
         else
           let key_bytes = ek_bytes entry;
               prior_tombstone = bm_get (st_tombstones s) key_bytes;
               stored = (if prior_tombstone = None then read_stored_live e s ctx key_bytes else None);
               stored_ver = (case prior_tombstone of Some t \<Rightarrow> Some (ts_ver t) | None \<Rightarrow> map_option sv_ver stored);
               (refused, s) = (if ac_held_only ctx
                               then reject_unheld key_bytes stored_ver ver incoming (is_some_and sv_visible stored) s
                               else (False, s))
           in if refused then (Rejected, s, c)
              else case stored_ver of
                None \<Rightarrow> apply_winner e ctx entry deadlines prior_tombstone stored stored_ver ver incoming (s, c)
              | Some sv \<Rightarrow>
                  (case resolve_and_rebind e dec (ac_resolver ctx) (ac_merge_cap ctx) key_bytes sv
                          (Option.bind stored sv_encoded) (Option.bind stored sv_expires)
                          (is_some_and (\<lambda>x. \<not> sv_visible x) stored) (prior_tombstone \<noteq> None) ver incoming of
                     Lost \<Rightarrow> (Rejected, s, c)
                   | Too_Large n \<Rightarrow> (Out_TooLarge key_bytes n, s, c)
                   | Rebound_Store new_ver new_incoming \<Rightarrow>
                       apply_winner e ctx entry deadlines prior_tombstone stored stored_ver new_ver new_incoming (s, c)))"

section \<open>Tombstones in and out of a stripe\<close>

lemma remove_tombstone_sums:
  assumes "bm_get (st_tombstones s) k = Some t"
  shows "held e s = add_mset (k, ts_ver t) (held e (s\<lparr>st_tombstones := bm_remove k (st_tombstones s)\<rparr>))"
  using mset_bm_entries_remove[OF assms] by (simp add: held_def tombstone_item_def)

lemma insert_tombstone_sums:
  assumes "bm_get (st_tombstones s) k = None"
  shows "held e (s\<lparr>st_tombstones := bm_insert k t (st_tombstones s)\<rparr>) = add_mset (k, ts_ver t) (held e s)"
  using assms by (simp add: held_def mset_bm_entries_insert bm_remove_absent tombstone_item_def)

lemma stripe_sums_tombstones [simp]:
  "stripe_weight (s\<lparr>st_tombstones := x\<rparr>) = stripe_weight s" "stripe_count (s\<lparr>st_tombstones := x\<rparr>) = stripe_count s"
  "live_keys e (s\<lparr>st_tombstones := x\<rparr>) = live_keys e s"
  by (simp_all add: stripe_weight_def stripe_count_def live_keys_def)

lemma remove_tombstone_ok: "stripe_ok e b s \<Longrightarrow> stripe_ok e b (s\<lparr>st_tombstones := bm_remove k (st_tombstones s)\<rparr>)"
  by (auto simp: stripe_ok_def)

lemma insert_tombstone_ok:
  "stripe_ok e b s \<Longrightarrow> k \<notin> live_keys e s \<Longrightarrow> key_bucket e k = b \<Longrightarrow>
   stripe_ok e b (s\<lparr>st_tombstones := bm_insert k t (st_tombstones s)\<rparr>)"
  unfolding stripe_ok_def by (simp, blast)

lemma cell_at_remove_tombstone:
  "bm_get (st_tombstones s) k = Some t \<Longrightarrow> k \<notin> live_keys e s \<Longrightarrow>
   cell_at e (s\<lparr>st_tombstones := bm_remove k (st_tombstones s)\<rparr>) = (cell_at e s)(k := None)"
  by (auto simp: cell_at_def fun_eq_iff arena_find_keys split: option.split)

lemma cell_at_insert_tombstone:
  "cell_at e (s\<lparr>st_tombstones := bm_insert k t (st_tombstones s)\<rparr>) = (cell_at e s)(k \<mapsto> Cell_Tombstone t)"
  by (auto simp: cell_at_def fun_eq_iff split: option.split)

lemma stripe_inflight_irrelevant [simp]:
  "held e (s\<lparr>st_inflight := x\<rparr>) = held e s" "stripe_weight (s\<lparr>st_inflight := x\<rparr>) = stripe_weight s"
  "stripe_count (s\<lparr>st_inflight := x\<rparr>) = stripe_count s" "cell_at e (s\<lparr>st_inflight := x\<rparr>) = cell_at e s"
  "stripe_ok e b (s\<lparr>st_inflight := x\<rparr>) = stripe_ok e b s" "live_keys e (s\<lparr>st_inflight := x\<rparr>) = live_keys e s"
  by (simp_all add: held_def stripe_weight_def stripe_count_def cell_at_def fun_eq_iff stripe_ok_def live_keys_def split: option.split)

lemma invalidate_inflight_irrelevant [simp]:
  "held e (invalidate_inflight k s) = held e s" "stripe_weight (invalidate_inflight k s) = stripe_weight s"
  "stripe_count (invalidate_inflight k s) = stripe_count s" "cell_at e (invalidate_inflight k s) = cell_at e s"
  "stripe_ok e b (invalidate_inflight k s) = stripe_ok e b s" "live_keys e (invalidate_inflight k s) = live_keys e s"
  "st_tombstones (invalidate_inflight k s) = st_tombstones s" "st_live (invalidate_inflight k s) = st_live s"
  by (simp_all add: invalidate_inflight_def split: option.split)

section \<open>The winner is stored exactly\<close>

definition entry_ok :: "externs \<Rightarrow> nat \<Rightarrow> 'k entry_key \<Rightarrow> bool" where
  "entry_ok e b entry \<longleftrightarrow>
     externs_ok e \<and> ek_hash entry = hash_key_bytes e (ek_bytes entry) \<and> key_bucket e (ek_bytes entry) = b \<and>
     length (ek_bytes entry) < 2 ^ 32"

text \<open>
  After the displaced record is out, the stripe holds nothing for the key: \<open>cleared\<close> says so
  and relates the rest to the stripe before.
\<close>

definition cleared :: "externs \<Rightarrow> nat \<Rightarrow> bytes \<Rightarrow> 'v stripe \<Rightarrow> 'v stripe \<Rightarrow> bool" where
  "cleared e b k s s' \<longleftrightarrow>
     stripe_ok e b s' \<and> k \<notin> live_keys e s' \<and> bm_get (st_tombstones s') k = None \<and>
     cell_at e s' = (cell_at e s)(k := None)"

lemma cell_at_absent: "bm_get (st_tombstones s) k = None \<Longrightarrow> k \<notin> live_keys e s \<Longrightarrow> cell_at e s k = None"
  using arena_find_keys[of e k s] by (simp add: cell_at_def)

lemma live_key_resident: "entry_ok e b entry \<Longrightarrow>
  live_key e (live_new (build_resident_record e (ek_bytes entry) enc) v x w n) = ek_bytes entry"
  by (simp add: entry_ok_def live_key_def live_new_def)

lemma record_value_resident: "entry_ok e b entry \<Longrightarrow>
  record_value e (lv_record (live_new (build_resident_record e (ek_bytes entry) enc) v x w n)) = enc"
  by (simp add: entry_ok_def live_new_def)

lemma put_into_cleared:
  assumes entry: "entry_ok e b entry" and clear: "cleared e b (ek_bytes entry) s0 s"
    and enc: "encode_expiry (wall_ms ver) x = (expiry, row)"
    and l: "l = live_new (build_resident_record e (ek_bytes entry) encoded) ver expiry weight now"
    and s': "s' = s\<lparr>st_long_ttl := (case row of Some d \<Rightarrow> bm_insert (ek_bytes entry) d (st_long_ttl s) | None \<Rightarrow> st_long_ttl s),
      st_live := arena_insert l (st_live s),
      st_next_expiry := (case x of Some exp \<Rightarrow> min (st_next_expiry s) exp | None \<Rightarrow> st_next_expiry s)\<rparr>"
  shows "stripe_ok e b s'" and "held e s' = add_mset (ek_bytes entry, ver) (held e s)"
    and "stripe_weight s' = ucast weight + stripe_weight s" and "stripe_count s' = 1 + stripe_count s"
    and "cell_at e s' = (cell_at e s0)(ek_bytes entry \<mapsto> Cell_Live ver encoded x)"
proof -
  have key: "live_key e l = ek_bytes entry" "record_value e (lv_record l) = encoded" "live_ver l = ver"
    "lv_wall_ms l = wall_ms ver" "lv_expiry l = expiry" "lv_weight l = weight"
    using live_key_resident[OF entry] record_value_resident[OF entry]
    by (simp_all add: l) (simp_all add: live_new_def)
  have ok: "stripe_ok e b s" and fresh: "live_key e l \<notin> live_keys e s"
    and none: "bm_get (st_tombstones s) (live_key e l) = None"
    and cells: "cell_at e s = (cell_at e s0)(ek_bytes entry := None)"
    using clear by (simp_all add: cleared_def key)
  have enc': "encode_expiry (lv_wall_ms l) x = (lv_expiry l, row)" using enc by (simp add: key)
  have parts: "st_live s' = arena_insert l (st_live s)" "st_tombstones s' = st_tombstones s"
    "st_long_ttl s' = (case row of None \<Rightarrow> st_long_ttl s | Some d \<Rightarrow> bm_insert (live_key e l) d (st_long_ttl s))"
    "st_next_expiry s' = (case x of None \<Rightarrow> st_next_expiry s | Some exp \<Rightarrow> min (st_next_expiry s) exp)"
    by (simp_all add: s' key(1) split: option.split)
  show "stripe_ok e b s'"
    using entry by (intro insert_live_ok[OF ok fresh none _ _ enc' parts]) (simp_all add: key entry_ok_def)
  show "held e s' = add_mset (ek_bytes entry, ver) (held e s)" "stripe_weight s' = ucast weight + stripe_weight s"
    "stripe_count s' = 1 + stripe_count s"
    using insert_live_sums(1)[OF parts(1,2), of e] insert_live_sums(2,3)[OF parts(1,2)] by (simp_all add: key)
  show "cell_at e s' = (cell_at e s0)(ek_bytes entry \<mapsto> Cell_Live ver encoded x)"
    using cell_at_insert_live[OF fresh none enc' parts(1-3)] by (simp add: key cells)
qed

text \<open>What the write displaces: nothing, a tombstone, or a live entry.\<close>

lemma stored_live_keys:
  "read_stored_live e s ctx k = None \<longleftrightarrow> k \<notin> live_keys e s"
  using arena_find_keys[of e k s] by (auto simp: read_stored_live_def Let_def split: option.split)

lemma item_part_key: "item_part e (key_part e k) (k, v) = entry_fingerprint e k v"
  by (simp add: item_part_def)

lemma item_part_other: "q \<noteq> key_part e k \<Longrightarrow> item_part e q (k, v) = 0"
  by (simp add: item_part_def)

lemma xor_left_self [simp]: "a XOR (a XOR h) = h" for a h :: u64
  by (simp add: xor.assoc[symmetric])

lemma xor_swap: "((d XOR a) XOR b) XOR (b XOR h) = d XOR (a XOR h)" for a b d h :: u64
  by (simp add: xor.assoc)

lemma xor_add: "(d XOR b) XOR (b XOR h) = d XOR h" for b d h :: u64
  by (simp add: xor.assoc)

lemma balanced_replace:
  assumes "held e s = add_mset (k, old) M" and "held e s' = add_mset (k, new) M"
    and "d' = (d XOR entry_fingerprint e k old) XOR entry_fingerprint e k new"
    and "w' - stripe_weight s' = w - stripe_weight s" and "n' - stripe_count s' = n - stripe_count s"
  shows "balanced e (key_part e k) (s, d, w, n) (s', d', w', n')"
  using assms by (simp add: balanced_def item_part_key item_part_other xor_swap)

lemma balanced_add:
  assumes "held e s' = add_mset (k, new) (held e s)"
    and "d' = d XOR entry_fingerprint e k new"
    and "w' - stripe_weight s' = w - stripe_weight s" and "n' - stripe_count s' = n - stripe_count s"
  shows "balanced e (key_part e k) (s, d, w, n) (s', d', w', n')"
  using assms by (simp add: balanced_def item_part_key item_part_other xor_add)

lemma balanced_drop:
  assumes "held e s = add_mset (k, old) (held e s')"
    and "d' = d XOR entry_fingerprint e k old"
    and "w' - stripe_weight s' = w - stripe_weight s" and "n' - stripe_count s' = n - stripe_count s"
  shows "balanced e (key_part e k) (s, d, w, n) (s', d', w', n')"
  using assms by (simp add: balanced_def item_part_key item_part_other xor.assoc)

abbreviation stripe_tally :: "'v stripe \<Rightarrow> apply_cells \<Rightarrow> 'v stripe \<times> u64 \<times> u64 \<times> u64" where
  "stripe_tally s c \<equiv> (s, cl_digest c, cl_weight c, cl_live c)"

text \<open>The record a winning write leaves behind.\<close>

fun written_cell :: "hlc \<Rightarrow> (u64 \<times> u64) option \<Rightarrow> 'v incoming \<Rightarrow> cell" where
  "written_cell ver deadlines (Put _ x encoded) = Cell_Live ver encoded x"
| "written_cell ver deadlines (Tombstone expired_at) =
     (case deadlines of
        Some (ttl, mx) \<Rightarrow> Cell_Tombstone \<lparr>ts_ver = ver, ts_ttl_deadline = ttl, ts_max_deadline = mx, ts_expired_at = expired_at\<rparr>
      | None \<Rightarrow> Cell_Tombstone \<lparr>ts_ver = ver, ts_ttl_deadline = 0, ts_max_deadline = 0, ts_expired_at = expired_at\<rparr>)"

definition stored_version :: "externs \<Rightarrow> 'v stripe \<Rightarrow> bytes \<Rightarrow> hlc option" where
  "stored_version e s k = map_option cell_ver (cell_at e s k)"

lemma cleared_remove_live:
  assumes "stripe_ok e b s" and "remove_live e k s = Some (r, s')"
  shows "cleared e b k s s'"
proof -
  have "st_tombstones s' = st_tombstones s"
    using remove_live_same[OF assms(2)] by simp
  then show ?thesis
    using remove_live_ok[OF assms] cell_at_remove_live[OF assms] stripe_okD(2)[OF assms(1)] by (simp add: cleared_def)
qed

lemma cleared_remove_tombstone:
  assumes "stripe_ok e b s" and "bm_get (st_tombstones s) k = Some t"
  shows "cleared e b k s (s\<lparr>st_tombstones := bm_remove k (st_tombstones s)\<rparr>)"
proof -
  have "k \<notin> live_keys e s" using stripe_okD(2)[OF assms(1), of k] assms(2) by auto
  then show ?thesis
    using remove_tombstone_ok[OF assms(1)] cell_at_remove_tombstone[OF assms(2)] by (simp add: cleared_def)
qed

lemma cleared_absent:
  assumes "stripe_ok e b s" and "bm_get (st_tombstones s) k = None" and "k \<notin> live_keys e s"
  shows "cleared e b k s s"
  using assms cell_at_absent[OF assms(2,3)] by (simp add: cleared_def fun_upd_idem)

text \<open>The put half, with \<open>s1\<close> the stripe once the live entry it displaces, if any, is out.\<close>

lemma apply_put_exact:
  assumes entry: "entry_ok e b entry" and clear: "cleared e b (ek_bytes entry) s0 s1"
    and out: "if had_live then remove_live e (ek_bytes entry) s = Some (r, s1) else s1 = s"
    and ap: "apply_put e ctx entry ver value x encoded had_live vis (s, c) = (out, s', c')"
  shows "stripe_ok e b s'" and "held e s' = add_mset (ek_bytes entry, ver) (held e s1)"
    and "cl_weight c' - stripe_weight s' = cl_weight c - stripe_weight s"
    and "cl_live c' - stripe_count s' = cl_live c - stripe_count s"
    and "cell_at e s' = (cell_at e s0)(ek_bytes entry \<mapsto> Cell_Live ver encoded x)"
    and "cl_digest c' = cl_digest c" and "cl_ignored c' = cl_ignored c"
    and "out = Out_Put (ek_key entry) value (\<not> vis) ver"
proof -
  obtain expiry row where enc: "encode_expiry (wall_ms ver) x = (expiry, row)" by fastforce
  define weight where "weight = (case ac_weigher ctx of None \<Rightarrow> 1 | Some w \<Rightarrow> w (ek_key entry) value)"
  define l where "l = live_new (build_resident_record e (ek_bytes entry) encoded) ver expiry weight (ac_now_ms ctx)"
  have s': "s' = s1\<lparr>st_long_ttl := (case row of Some d \<Rightarrow> bm_insert (ek_bytes entry) d (st_long_ttl s1) | None \<Rightarrow> st_long_ttl s1),
      st_live := arena_insert l (st_live s1),
      st_next_expiry := (case x of Some exp \<Rightarrow> min (st_next_expiry s1) exp | None \<Rightarrow> st_next_expiry s1)\<rparr>"
    and cells: "cl_digest c' = cl_digest c" "cl_ignored c' = cl_ignored c"
      "cl_weight c' = (if had_live then cl_weight c + ucast weight - ucast (rl_weight r) else cl_weight c + ucast weight)"
      "cl_live c' = (if had_live then cl_live c else cl_live c + 1)"
    and res: "out = Out_Put (ek_key entry) value (\<not> vis) ver"
    using ap out enc by (auto simp: apply_put_def Let_def l_def weight_def[symmetric] split: if_splits)
  note put = put_into_cleared[OF entry clear enc l_def s']
  show "stripe_ok e b s'" "held e s' = add_mset (ek_bytes entry, ver) (held e s1)"
    "cell_at e s' = (cell_at e s0)(ek_bytes entry \<mapsto> Cell_Live ver encoded x)"
    by (rule put)+
  show "cl_digest c' = cl_digest c" "cl_ignored c' = cl_ignored c" "out = Out_Put (ek_key entry) value (\<not> vis) ver"
    by (rule cells res)+
  show "cl_weight c' - stripe_weight s' = cl_weight c - stripe_weight s"
    "cl_live c' - stripe_count s' = cl_live c - stripe_count s"
    using out remove_live_sums[of e "ek_bytes entry" s r s1] by (auto simp: cells put(3,4) split: if_splits)
qed

lemma apply_tombstone_exact:
  assumes entry: "entry_ok e b entry" and clear: "cleared e b (ek_bytes entry) s0 s1"
    and out: "if had_live then remove_live e (ek_bytes entry) s = Some (r, s1) else s1 = s"
    and ap: "apply_tombstone e entry t had_live (s, c) = (out, s', c')"
  shows "stripe_ok e b s'" and "held e s' = add_mset (ek_bytes entry, ts_ver t) (held e s1)"
    and "cl_weight c' - stripe_weight s' = cl_weight c - stripe_weight s"
    and "cl_live c' - stripe_count s' = cl_live c - stripe_count s"
    and "cell_at e s' = (cell_at e s0)(ek_bytes entry \<mapsto> Cell_Tombstone t)"
    and "cl_digest c' = cl_digest c" and "cl_ignored c' = cl_ignored c"
    and "out = Out_Tombstoned (ek_key entry) (ts_ver t)"
proof -
  have s': "s' = s1\<lparr>st_tombstones := bm_insert (ek_bytes entry) t (st_tombstones s1)\<rparr>"
    and cells: "cl_digest c' = cl_digest c" "cl_ignored c' = cl_ignored c"
      "cl_weight c' = (if had_live then cl_weight c - ucast (rl_weight r) else cl_weight c)"
      "cl_live c' = (if had_live then cl_live c - 1 else cl_live c)"
    and res: "out = Out_Tombstoned (ek_key entry) (ts_ver t)"
    using ap out by (auto simp: apply_tombstone_def Let_def split: if_splits)
  have clear': "stripe_ok e b s1" "ek_bytes entry \<notin> live_keys e s1" "bm_get (st_tombstones s1) (ek_bytes entry) = None"
    "cell_at e s1 = (cell_at e s0)(ek_bytes entry := None)"
    using clear by (simp_all add: cleared_def)
  show "stripe_ok e b s'" "held e s' = add_mset (ek_bytes entry, ts_ver t) (held e s1)"
    "cell_at e s' = (cell_at e s0)(ek_bytes entry \<mapsto> Cell_Tombstone t)"
    using clear' entry
    by (simp_all add: s' insert_tombstone_ok insert_tombstone_sums cell_at_insert_tombstone entry_ok_def)
  show "cl_digest c' = cl_digest c" "cl_ignored c' = cl_ignored c" "out = Out_Tombstoned (ek_key entry) (ts_ver t)"
    by (rule cells res)+
  show "cl_weight c' - stripe_weight s' = cl_weight c - stripe_weight s"
    "cl_live c' - stripe_count s' = cl_live c - stripe_count s"
    using out remove_live_sums[of e "ek_bytes entry" s r s1] by (auto simp: cells s' split: if_splits)
qed

lemma swap_fingerprint_exact:
  assumes ok: "stripe_ok e b s"
    and prior: "prior = bm_get (st_tombstones s) k"
    and stored: "stored = (if prior = None then read_stored_live e s ctx k else None)"
    and sv: "stored_ver = (case prior of Some t \<Rightarrow> Some (ts_ver t) | None \<Rightarrow> map_option sv_ver stored)"
    and sw: "swap_fingerprint e k ver prior stored_ver (s, c) = (s2, c2)"
  obtains r s1 where "cleared e b k s s1"
    and "if prior = None \<and> stored_ver \<noteq> None then remove_live e k s2 = Some (r, s1) else s1 = s2"
    and "stripe_weight s2 = stripe_weight s" and "stripe_count s2 = stripe_count s"
    and "cl_weight c2 = cl_weight c" and "cl_live c2 = cl_live c" and "cl_ignored c2 = cl_ignored c"
    and "\<And>s' w n. held e s' = add_mset (k, ver) (held e s1) \<Longrightarrow>
      w - stripe_weight s' = cl_weight c - stripe_weight s \<Longrightarrow> n - stripe_count s' = cl_live c - stripe_count s \<Longrightarrow>
      balanced e (key_part e k) (stripe_tally s c) (s', cl_digest c2, w, n)"
proof (cases prior)
  case (Some t)
  then have eqs: "s2 = s\<lparr>st_tombstones := bm_remove k (st_tombstones s)\<rparr>"
    "c2 = c\<lparr>cl_digest := (cl_digest c XOR entry_fingerprint e k (ts_ver t)) XOR entry_fingerprint e k ver\<rparr>"
    using sw by (simp_all add: swap_fingerprint_def)
  have t: "bm_get (st_tombstones s) k = Some t" using prior Some by simp
  show thesis
  proof (rule that[of s2])
    show "cleared e b k s s2" using cleared_remove_tombstone[OF ok t] by (simp add: eqs)
    show "balanced e (key_part e k) (stripe_tally s c) (s', cl_digest c2, w, n)"
      if "held e s' = add_mset (k, ver) (held e s2)" "w - stripe_weight s' = cl_weight c - stripe_weight s"
        "n - stripe_count s' = cl_live c - stripe_count s" for s' w n
      using remove_tombstone_sums[OF t, of e] by (intro balanced_replace[OF _ that(1) _ that(2,3)]) (simp_all add: eqs)
  qed (simp_all add: eqs Some)
next
  case None
  note prior_none = this
  have c2: "s2 = s" "c2 = c\<lparr>cl_digest := (case stored_ver of Some v \<Rightarrow> cl_digest c XOR entry_fingerprint e k v
      | None \<Rightarrow> cl_digest c) XOR entry_fingerprint e k ver\<rparr>"
    using sw None by (auto simp: swap_fingerprint_def split: option.splits)
  show thesis
  proof (cases stored)
    case None
    then have "k \<notin> live_keys e s" using stored prior_none by (simp add: stored_live_keys)
    then have clear: "cleared e b k s s" using prior prior_none ok by (simp add: cleared_absent)
    have nov: "stored_ver = None" using sv prior_none None by simp
    show thesis
    proof (rule that[OF clear])
      show "balanced e (key_part e k) (stripe_tally s c) (s', cl_digest c2, w, n)"
        if "held e s' = add_mset (k, ver) (held e s)" "w - stripe_weight s' = cl_weight c - stripe_weight s"
          "n - stripe_count s' = cl_live c - stripe_count s" for s' w n
        by (intro balanced_add[OF that(1) _ that(2,3)]) (simp add: c2 nov)
    qed (simp_all add: c2 nov)
  next
    case (Some x)
    then obtain l where l: "arena_find e k (st_live s) = Some l" "sv_ver x = live_ver l"
      using stored prior_none by (auto simp: read_stored_live_def Let_def split: option.splits)
    then obtain r s1 where rm: "remove_live e k s = Some (r, s1)"
      using arena_find_keys[of e k s] remove_live_None[of e k s] by (cases "remove_live e k s") auto
    obtain l' where "arena_find e k (st_live s) = Some l'" "rl_ver r = live_ver l'" using rm by (rule remove_live_Some)
    then have held: "held e s = add_mset (k, sv_ver x) (held e s1)" using remove_live_sums(1)[OF rm] l by simp
    have v: "stored_ver = Some (sv_ver x)" using sv prior_none Some by simp
    show thesis
    proof (rule that[OF cleared_remove_live[OF ok rm]])
      show "balanced e (key_part e k) (stripe_tally s c) (s', cl_digest c2, w, n)"
        if "held e s' = add_mset (k, ver) (held e s1)" "w - stripe_weight s' = cl_weight c - stripe_weight s"
          "n - stripe_count s' = cl_live c - stripe_count s" for s' w n
        by (intro balanced_replace[OF held that(1) _ that(2,3)]) (simp add: c2 v)
    qed (use rm in \<open>simp_all add: c2 v prior_none\<close>)
  qed
qed

lemma apply_winner_exact:
  assumes ok: "stripe_ok e b s" and entry: "entry_ok e b entry"
    and prior: "prior = bm_get (st_tombstones s) (ek_bytes entry)"
    and stored: "stored = (if prior = None then read_stored_live e s ctx (ek_bytes entry) else None)"
    and sv: "stored_ver = (case prior of Some t \<Rightarrow> Some (ts_ver t) | None \<Rightarrow> map_option sv_ver stored)"
    and ap: "apply_winner e ctx entry deadlines prior stored stored_ver ver incoming (s, c) = (out, s', c')"
  shows "stripe_ok e b s'" and "balanced e (key_part e (ek_bytes entry)) (stripe_tally s c) (stripe_tally s' c')"
    and "cell_at e s' = (cell_at e s)(ek_bytes entry \<mapsto> written_cell ver deadlines incoming)"
    and "outcome_version out = Some ver" and "cl_ignored c' = cl_ignored c"
    and "is_out_put out \<longleftrightarrow> \<not> is_tombstone incoming"
proof -
  obtain s2 c2 where sw: "swap_fingerprint e (ek_bytes entry) ver prior stored_ver (s, c) = (s2, c2)" by fastforce
  obtain r s1 where clear: "cleared e b (ek_bytes entry) s s1"
    and out: "if prior = None \<and> stored_ver \<noteq> None then remove_live e (ek_bytes entry) s2 = Some (r, s1) else s1 = s2"
    and eq: "stripe_weight s2 = stripe_weight s" "stripe_count s2 = stripe_count s" "cl_weight c2 = cl_weight c"
      "cl_live c2 = cl_live c" "cl_ignored c2 = cl_ignored c"
    and bal: "\<And>s' w n. held e s' = add_mset (ek_bytes entry, ver) (held e s1) \<Longrightarrow>
      w - stripe_weight s' = cl_weight c - stripe_weight s \<Longrightarrow> n - stripe_count s' = cl_live c - stripe_count s \<Longrightarrow>
      balanced e (key_part e (ek_bytes entry)) (stripe_tally s c) (s', cl_digest c2, w, n)"
    by (rule swap_fingerprint_exact[OF ok prior stored sv sw]) (rule that, assumption+)
  have "stripe_ok e b s' \<and> balanced e (key_part e (ek_bytes entry)) (stripe_tally s c) (stripe_tally s' c') \<and>
    cell_at e s' = (cell_at e s)(ek_bytes entry \<mapsto> written_cell ver deadlines incoming) \<and>
    outcome_version out = Some ver \<and> cl_ignored c' = cl_ignored c \<and> (is_out_put out \<longleftrightarrow> \<not> is_tombstone incoming)"
  proof (cases incoming)
    case (Put v x encoded)
    then have "apply_put e ctx entry ver v x encoded (prior = None \<and> stored_ver \<noteq> None)
        (is_some_and sv_visible stored) (s2, c2) = (out, s', c')"
      using ap by (simp add: apply_winner_def sw Let_def)
    note put = apply_put_exact[OF entry clear out this]
    show ?thesis using put bal[OF put(2)] by (simp add: eq Put)
  next
    case (Tombstone expired)
    obtain t where t: "written_cell ver deadlines incoming = Cell_Tombstone t" "ts_ver t = ver"
      "apply_tombstone e entry t (prior = None \<and> stored_ver \<noteq> None) (s2, c2) = (out, s', c')"
      using ap Tombstone by (auto simp: apply_winner_def sw Let_def split: option.splits prod.splits)
    note tmb = apply_tombstone_exact[OF entry clear out t(3)]
    show ?thesis using tmb bal[OF tmb(2)[unfolded t(2)]] by (simp add: eq Tombstone t(2)) (simp add: t(1)[unfolded Tombstone, symmetric])
  qed
  then show "stripe_ok e b s'" "balanced e (key_part e (ek_bytes entry)) (stripe_tally s c) (stripe_tally s' c')"
    "cell_at e s' = (cell_at e s)(ek_bytes entry \<mapsto> written_cell ver deadlines incoming)"
    "outcome_version out = Some ver" "cl_ignored c' = cl_ignored c" "is_out_put out \<longleftrightarrow> \<not> is_tombstone incoming"
    by blast+
qed

section \<open>A write keeps the stripe exact\<close>

lemma stored_version_read:
  assumes "stored = (if bm_get (st_tombstones s) k = None then read_stored_live e s ctx k else None)"
  shows "(case bm_get (st_tombstones s) k of Some t \<Rightarrow> Some (ts_ver t) | None \<Rightarrow> map_option sv_ver stored)
    = stored_version e s k"
  using assms
  by (auto simp: stored_version_def cell_at_def read_stored_live_def live_cell_def Let_def split: option.splits)

text \<open>
  The four ways \<open>apply_locked\<close> ends: ignored as lapsed, refused by the held-only gate, lost or
  too large in the collision, or stored, at its own version where nothing was stored and at the
  version the collision settled otherwise.
\<close>

definition collision ::
  "externs \<Rightarrow> (bytes \<Rightarrow> 'v option) \<Rightarrow> ('k, 'v) apply_ctx \<Rightarrow> bytes \<Rightarrow> 'v stripe \<Rightarrow> hlc \<Rightarrow> hlc \<Rightarrow> 'v incoming \<Rightarrow> 'v rebound" where
  "collision e dec ctx k s sv ver incoming =
     (let stored = (if bm_get (st_tombstones s) k = None then read_stored_live e s ctx k else None)
      in resolve_and_rebind e dec (ac_resolver ctx) (ac_merge_cap ctx) k sv
           (Option.bind stored sv_encoded) (Option.bind stored sv_expires)
           (is_some_and (\<lambda>x. \<not> sv_visible x) stored) (bm_get (st_tombstones s) k \<noteq> None) ver incoming)"

definition lapsed_on_arrival :: "('k, 'v) apply_ctx \<Rightarrow> 'v incoming \<Rightarrow> hlc \<Rightarrow> bool" where
  "lapsed_on_arrival ctx incoming ver \<longleftrightarrow>
     rule_ignores (ctx_rule ctx) (rule_deadlines (ctx_rule ctx) incoming ver)"

lemma apply_locked_cases:
  fixes incoming :: "'v incoming"
  assumes ap: "apply_locked e dec ctx entry ver incoming (s, c) = (out, s', c')"
  defines "k \<equiv> ek_bytes entry"
  obtains (ignored) "lapsed_on_arrival ctx incoming ver" "out = Rejected" "s' = s" "c' = c\<lparr>cl_ignored := cl_ignored c + 1\<rparr>"
  | (unheld) "ac_held_only ctx" "out = Rejected" "c' = c" "s' = s \<or> s' = invalidate_inflight k s"
  | (lost) sv where "stored_version e s k = Some sv" "collision e dec ctx k s sv ver incoming = Lost"
      "out = Rejected" "s' = s" "c' = c"
  | (too_large) sv n where "stored_version e s k = Some sv" "collision e dec ctx k s sv ver incoming = Too_Large n"
      "out = Out_TooLarge k n" "s' = s" "c' = c"
  | (stored) prior st new_ver new_incoming where "\<not> lapsed_on_arrival ctx incoming ver"
      "prior = bm_get (st_tombstones s) k"
      "st = (if prior = None then read_stored_live e s ctx k else None)"
      "apply_winner e ctx entry (rule_deadlines (ctx_rule ctx) incoming ver) prior st (stored_version e s k)
         new_ver new_incoming (s, c) = (out, s', c')"
      "case stored_version e s k of None \<Rightarrow> (new_ver, new_incoming) = (ver, incoming)
       | Some sv \<Rightarrow> collision e dec ctx k s sv ver incoming = Rebound_Store new_ver new_incoming"
proof (cases "lapsed_on_arrival ctx incoming ver")
  case True
  then show thesis using ap ignored by (simp add: apply_locked_def lapsed_on_arrival_def Let_def)
next
  case False
  define prior where "prior = bm_get (st_tombstones s) k"
  define st where "st = (if prior = None then read_stored_live e s ctx k else None)"
  have sv: "(case prior of Some t \<Rightarrow> Some (ts_ver t) | None \<Rightarrow> map_option sv_ver st) = stored_version e s k"
    unfolding prior_def st_def by (rule stored_version_read) simp
  define gate where "gate = (if ac_held_only ctx
    then reject_unheld k (stored_version e s k) ver incoming (is_some_and sv_visible st) s else (False, s))"
  have eq: "apply_locked e dec ctx entry ver incoming (s, c) =
      (case gate of (refused, s1) \<Rightarrow>
         if refused then (Rejected, s1, c)
         else case stored_version e s k of
           None \<Rightarrow> apply_winner e ctx entry (rule_deadlines (ctx_rule ctx) incoming ver) prior st (stored_version e s k) ver incoming (s1, c)
         | Some v \<Rightarrow> (case collision e dec ctx k s v ver incoming of
              Lost \<Rightarrow> (Rejected, s1, c)
            | Too_Large n \<Rightarrow> (Out_TooLarge k n, s1, c)
            | Rebound_Store new_ver new_incoming \<Rightarrow>
                apply_winner e ctx entry (rule_deadlines (ctx_rule ctx) incoming ver) prior st (stored_version e s k)
                  new_ver new_incoming (s1, c)))"
    using False unfolding apply_locked_def lapsed_on_arrival_def Let_def gate_def st_def prior_def
      sv[symmetric, unfolded st_def prior_def k_def] k_def collision_def
    by (simp only: if_False prod.case)
  show thesis
  proof (cases "fst gate")
    case True
    then have held: "ac_held_only ctx" "gate = (True, snd gate)" by (auto simp: gate_def prod_eq_iff split: if_splits)
    then have s1: "snd gate = s \<or> snd gate = invalidate_inflight k s" by (auto simp: gate_def reject_unheld_def split: if_splits)
    have "(out, s', c') = (Rejected, snd gate, c)" using ap unfolding eq by (subst (asm) held(2)) simp
    then show thesis using unheld[OF held(1)] s1 by simp
  next
    case False
    then have gate: "gate = (False, s)" by (auto simp: gate_def reject_unheld_def split: if_splits)
    note body = ap[unfolded eq gate prod.case if_False]
    show thesis
    proof (cases "stored_version e s k")
      case None
      then show thesis
        using body stored[OF \<open>\<not> lapsed_on_arrival ctx incoming ver\<close> prior_def st_def, of ver incoming] by simp
    next
      case (Some v)
      show thesis
      proof (cases "collision e dec ctx k s v ver incoming")
        case Lost
        then show thesis using body Some lost[OF Some Lost] by simp
      next
        case (Rebound_Store new_ver new_incoming)
        then show thesis
          using body Some stored[OF \<open>\<not> lapsed_on_arrival ctx incoming ver\<close> prior_def st_def, of new_ver new_incoming] by simp
      next
        case (Too_Large n)
        then show thesis using body Some too_large[OF Some Too_Large] by simp
      qed
    qed
  qed
qed

text \<open>Whatever the outcome, the invariant and the counters hold and no other key is touched.\<close>

lemma apply_locked_exact:
  assumes ok: "stripe_ok e b s" and entry: "entry_ok e b entry"
    and ap: "apply_locked e dec ctx entry ver incoming (s, c) = (out, s', c')"
  shows "stripe_ok e b s'" and "balanced e (key_part e (ek_bytes entry)) (stripe_tally s c) (stripe_tally s' c')"
    and "k \<noteq> ek_bytes entry \<Longrightarrow> cell_at e s' k = cell_at e s k"
    and "outcome_version out = None \<Longrightarrow> cell_at e s' = cell_at e s"
    and "outcome_version out = Some v \<Longrightarrow> stored_version e s' (ek_bytes entry) = Some v"
proof -
  have "stripe_ok e b s' \<and> balanced e (key_part e (ek_bytes entry)) (stripe_tally s c) (stripe_tally s' c') \<and>
    (k \<noteq> ek_bytes entry \<longrightarrow> cell_at e s' k = cell_at e s k) \<and>
    (outcome_version out = None \<longrightarrow> cell_at e s' = cell_at e s) \<and>
    (outcome_version out = Some v \<longrightarrow> stored_version e s' (ek_bytes entry) = Some v)"
    using ap
  proof (cases rule: apply_locked_cases)
    case (stored prior st new_ver new_incoming)
    note sv = stored_version_read[OF stored(3)[unfolded stored(2)], folded stored(2)]
    note win = apply_winner_exact[OF ok entry stored(2,3) sv[symmetric] stored(4)]
    have "cell_ver (written_cell new_ver (rule_deadlines (ctx_rule ctx) incoming ver) new_incoming) = new_ver"
      by (cases new_incoming) (auto split: option.split)
    then show ?thesis using win by (auto simp: stored_version_def)
  qed (use ok in \<open>auto simp: balanced_def\<close>)
  then show "stripe_ok e b s'" "balanced e (key_part e (ek_bytes entry)) (stripe_tally s c) (stripe_tally s' c')"
    "k \<noteq> ek_bytes entry \<Longrightarrow> cell_at e s' k = cell_at e s k"
    "outcome_version out = None \<Longrightarrow> cell_at e s' = cell_at e s"
    "outcome_version out = Some v \<Longrightarrow> stored_version e s' (ek_bytes entry) = Some v"
    by blast+
qed

end
