(* ===== verification/Prefold.thy ===== *)
theory Prefold
  imports Engine_Apply
begin

text \<open>
  The pre-fold of a batch (\<^verbatim>\<open>engine/prefold.rs\<close>): grouping the puts of a key into runs,
  seeding a run from the stored record, folding it into one survivor, and the plan that says what
  each entry of the run becomes. A \<open>HashMap\<close> keyed by the key bytes is a sorted map here; runs
  of different keys touch different slots, so their order does not matter. The panics of the
  source on a slot used twice are the \<open>None\<close> branches of \<open>prefold_run\<close>, which leave the
  slots as they are; \<open>group_prefold_runs\<close> partitions the batch, so they are not reached.
\<close>

section \<open>Batches\<close>

type_synonym ('k, 'v) batch_entry = "'k entry_key \<times> hlc \<times> 'v incoming"

datatype ('k, 'v) slot =
    Apply "('k, 'v) batch_entry"
  | Absorbed
  | Refused bytes nat

fun into_entry :: "('k, 'v) slot \<Rightarrow> ('k, 'v) apply_outcome + ('k, 'v) batch_entry" where
  "into_entry (Apply entry) = Inr entry"
| "into_entry Absorbed = Inl Rejected"
| "into_entry (Refused key_bytes n) = Inl (Out_TooLarge key_bytes n)"

fun slot_entry :: "('k, 'v) slot \<Rightarrow> ('k, 'v) batch_entry option" where
  "slot_entry (Apply entry) = Some entry"
| "slot_entry _ = None"

section \<open>Folding a run\<close>

record 'v folded_run =
  fr_ver :: hlc
  fr_incoming :: "'v incoming"
  fr_refused :: "(nat \<times> nat) list"
  fr_remaining :: "(hlc \<times> 'v incoming) list"

fun reaches_deadline :: "'v incoming \<Rightarrow> u64 \<Rightarrow> bool" where
  "reaches_deadline (Put _ (Some deadline) _) now_ms \<longleftrightarrow> deadline \<le> now_ms"
| "reaches_deadline _ _ \<longleftrightarrow> False"

fun incoming_content :: "'v incoming \<Rightarrow> bytes option \<times> u64 option" where
  "incoming_content (Put _ expires encoded) = (Some encoded, expires)"
| "incoming_content (Tombstone _) = (None, None)"

fun fold_run_loop ::
  "externs \<Rightarrow> (bytes \<Rightarrow> 'v option) \<Rightarrow> conflict_resolver \<Rightarrow> merge_cap option \<Rightarrow> bytes \<Rightarrow> bool \<Rightarrow> u64
     \<Rightarrow> hlc \<Rightarrow> 'v incoming \<Rightarrow> bool \<Rightarrow> (nat \<times> nat) list \<Rightarrow> nat \<Rightarrow> (hlc \<times> 'v incoming) list \<Rightarrow> 'v folded_run" where
  "fold_run_loop e dec r cap key_bytes carries_stored now_ms acc_ver acc acc_absent refused step [] =
     \<lparr>fr_ver = acc_ver, fr_incoming = acc, fr_refused = refused, fr_remaining = []\<rparr>"
| "fold_run_loop e dec r cap key_bytes carries_stored now_ms acc_ver acc acc_absent refused step ((ver, incoming) # rest) =
     (let (stored_encoded, stored_expires) = incoming_content acc
      in if carries_stored
            \<and> fold_sides acc_absent acc_ver stored_expires ver (snd (incoming_content incoming)) \<noteq> Fold_Both
         then \<lparr>fr_ver = acc_ver, fr_incoming = acc, fr_refused = refused, fr_remaining = (ver, incoming) # rest\<rparr>
         else case resolve_and_rebind e dec r cap key_bytes acc_ver stored_encoded stored_expires acc_absent
                     (is_tombstone acc) ver incoming of
           Rebound_Store new_ver new_incoming \<Rightarrow>
             fold_run_loop e dec r cap key_bytes carries_stored now_ms new_ver new_incoming
               (reaches_deadline new_incoming now_ms) refused (Suc step) rest
         | Lost \<Rightarrow>
             fold_run_loop e dec r cap key_bytes carries_stored now_ms acc_ver acc acc_absent refused (Suc step) rest
         | Too_Large n \<Rightarrow>
             fold_run_loop e dec r cap key_bytes carries_stored now_ms acc_ver acc acc_absent
               (refused @ [(step, n)]) (Suc step) rest)"

definition fold_run ::
  "externs \<Rightarrow> (bytes \<Rightarrow> 'v option) \<Rightarrow> conflict_resolver \<Rightarrow> merge_cap option \<Rightarrow> bytes \<Rightarrow> hlc \<Rightarrow> 'v incoming \<Rightarrow> bool
     \<Rightarrow> bool \<Rightarrow> u64 \<Rightarrow> (hlc \<times> 'v incoming) list \<Rightarrow> 'v folded_run" where
  "fold_run e dec r cap key_bytes seed_ver seed_incoming seed_absent carries_stored now_ms rest =
     fold_run_loop e dec r cap key_bytes carries_stored now_ms seed_ver seed_incoming seed_absent [] 0 rest"

section \<open>Grouping\<close>

text \<open>The loop over one key's indices: the run being built and whether a tombstone has passed.\<close>

fun split_runs :: "('k, 'v) batch_entry list \<Rightarrow> nat list \<Rightarrow> nat list \<Rightarrow> bool \<Rightarrow> nat list list" where
  "split_runs entries [] current past = (if current \<noteq> [] then [current] else [])"
| "split_runs entries (idx # indices) current past =
     (if past then [idx] # split_runs entries indices current past
      else if is_tombstone (snd (snd (entries ! idx)))
        then (if current \<noteq> [] then [current] else []) @ [idx] # split_runs entries indices [] True
      else split_runs entries indices (current @ [idx]) past)"

definition group_by_key :: "('k, 'v) batch_entry list \<Rightarrow> (bytes, nat list) btree_map" where
  "group_by_key entries =
     fold (\<lambda>i m. bm_upsert (\<lambda>is. is @ [i]) (ek_bytes (fst (entries ! i))) [i] m) [0..<length entries] bm_empty"

definition group_prefold_runs :: "('k, 'v) batch_entry list \<Rightarrow> nat list list" where
  "group_prefold_runs entries =
     concat (map (\<lambda>indices. split_runs entries indices [] False) (bm_values (group_by_key entries)))"

section \<open>Seeds\<close>

datatype prefold_seed =
    Vacant
  | Stored hlc bytes "u64 option" bool
  | Sequential

definition peek_stored_seed :: "externs \<Rightarrow> 'v stripe \<Rightarrow> bytes \<Rightarrow> u64 option \<Rightarrow> u64 \<Rightarrow> prefold_seed" where
  "peek_stored_seed e s key_bytes tti_ms now_ms =
     (if bm_contains (st_tombstones s) key_bytes then Sequential
      else case arena_find e key_bytes (st_live s) of
        None \<Rightarrow> Vacant
      | Some l \<Rightarrow>
          Stored (live_ver l) (record_value e (lv_record l))
            (decode_expiry (lv_wall_ms l) (lv_expiry l) key_bytes (st_long_ttl s))
            (absent_at l key_bytes (st_long_ttl s) tti_ms now_ms))"

definition peek_prefold_seeds ::
  "externs \<Rightarrow> 'v stripe \<Rightarrow> ('k, 'v) batch_entry list \<Rightarrow> nat list list \<Rightarrow> u64 option \<Rightarrow> u64
     \<Rightarrow> (bytes, prefold_seed) btree_map" where
  "peek_prefold_seeds e s entries runs tti_ms now_ms =
     fold (\<lambda>run seeds.
       if length run < 2 then seeds
       else let key_bytes = ek_bytes (fst (entries ! hd run))
            in if bm_contains seeds key_bytes then seeds
               else bm_insert key_bytes (peek_stored_seed e s key_bytes tti_ms now_ms) seeds) runs bm_empty"

section \<open>The plan of a run\<close>

datatype run_slot = Run_Absorbed | Run_Survivor | Run_Refused nat | Run_Unconsumed

definition last_absorbed :: "run_slot list \<Rightarrow> nat option" where
  "last_absorbed plan =
     (case filter (\<lambda>i. plan ! i = Run_Absorbed) [0..<length plan] of [] \<Rightarrow> None | is \<Rightarrow> Some (last is))"

definition plan_run :: "nat \<Rightarrow> nat \<Rightarrow> nat \<Rightarrow> (nat \<times> nat) list \<Rightarrow> run_slot list" where
  "plan_run len consumed first_step refused =
     (let plan = replicate consumed Run_Absorbed @ replicate (len - consumed) Run_Unconsumed;
          plan = fold (\<lambda>(step, n) plan. plan[step + first_step := Run_Refused n]) refused plan
      in case last_absorbed (take consumed plan) of
           Some last_pos \<Rightarrow> plan[last_pos := Run_Survivor]
         | None \<Rightarrow> plan)"

fun assign_run ::
  "hlc \<times> 'v incoming \<Rightarrow> (hlc \<times> 'v incoming) list \<Rightarrow> (nat \<times> 'k entry_key \<times> run_slot) list
     \<Rightarrow> ('k, 'v) slot list \<Rightarrow> ('k, 'v) slot list" where
  "assign_run survivor remaining [] slots = slots"
| "assign_run survivor remaining ((idx, entry, planned) # plan) slots =
     (case planned of
        Run_Absorbed \<Rightarrow> assign_run survivor remaining plan slots
      | Run_Survivor \<Rightarrow> assign_run survivor remaining plan (slots[idx := Apply (entry, survivor)])
      | Run_Refused n \<Rightarrow> assign_run survivor remaining plan (slots[idx := Refused (ek_bytes entry) n])
      | Run_Unconsumed \<Rightarrow>
          (case remaining of
             [] \<Rightarrow> assign_run survivor [] plan slots
           | next # remaining \<Rightarrow> assign_run survivor remaining plan (slots[idx := Apply (entry, next)])))"

section \<open>The batch\<close>

definition prefold_run ::
  "externs \<Rightarrow> (bytes \<Rightarrow> 'v option) \<Rightarrow> conflict_resolver \<Rightarrow> merge_cap option \<Rightarrow> (bytes, prefold_seed) btree_map \<Rightarrow> u64
     \<Rightarrow> nat list \<Rightarrow> ('k, 'v) slot list \<Rightarrow> ('k, 'v) slot list" where
  "prefold_run e dec r cap seeds now_ms run slots =
     (if length run < 2 then slots
      else case those (map (\<lambda>idx. slot_entry (slots ! idx)) run) of
        None \<Rightarrow> slots
      | Some taken \<Rightarrow>
          let key_bytes = ek_bytes (fst (hd taken));
              versioned = map snd taken;
              fold_it = (\<lambda>first_step folded.
                let consumed = length run - length (fr_remaining folded);
                    plan = plan_run (length run) consumed first_step (fr_refused folded);
                    emptied = fold (\<lambda>idx sl. sl[idx := Absorbed]) run slots
                in assign_run (fr_ver folded, fr_incoming folded) (fr_remaining folded)
                     (zip run (zip (map fst taken) plan)) emptied);
              unseeded = fold_it 1
                (fold_run e dec r cap key_bytes (fst (hd versioned)) (snd (hd versioned))
                   (reaches_deadline (snd (hd versioned)) now_ms) False now_ms (tl versioned))
          in case bm_get seeds key_bytes of
               Some Sequential \<Rightarrow> slots
             | Some (Stored sv encoded expires_at_ms absent) \<Rightarrow>
                 (case dec encoded of
                    None \<Rightarrow> slots
                  | Some v \<Rightarrow>
                      fold_it 0 (fold_run e dec r cap key_bytes sv (Put v expires_at_ms encoded) absent (\<not> absent)
                                   now_ms versioned))
             | Some Vacant \<Rightarrow> unseeded
             | None \<Rightarrow> unseeded)"

definition prefold_batch ::
  "externs \<Rightarrow> (bytes \<Rightarrow> 'v option) \<Rightarrow> ('k, 'v) batch_entry list \<Rightarrow> nat list list \<Rightarrow> conflict_resolver
     \<Rightarrow> merge_cap option \<Rightarrow> (bytes, prefold_seed) btree_map \<Rightarrow> u64 \<Rightarrow> ('k, 'v) slot list" where
  "prefold_batch e dec entries runs r cap seeds now_ms =
     fold (prefold_run e dec r cap seeds now_ms) runs (map Apply entries)"

section \<open>Every slot keeps its key\<close>

text \<open>A slot that still applies an entry applies it under the key of its own index.\<close>

definition keeps_key :: "('k, 'v) batch_entry \<Rightarrow> ('k, 'v) slot \<Rightarrow> bool" where
  "keeps_key en sl \<longleftrightarrow> is_none_or (\<lambda>x. fst x = fst en) (slot_entry sl)"

definition slot_keys_kept :: "('k, 'v) batch_entry list \<Rightarrow> ('k, 'v) slot list \<Rightarrow> bool" where
  "slot_keys_kept entries slots \<longleftrightarrow>
     length slots = length entries \<and> (\<forall>i < length entries. keeps_key (entries ! i) (slots ! i))"

lemma keeps_key_simps [simp]:
  "keeps_key en (Apply x) \<longleftrightarrow> fst x = fst en" "keeps_key en Absorbed" "keeps_key en (Refused k n)"
  by (simp_all add: keeps_key_def)

lemma slot_keys_kept_update:
  assumes "slot_keys_kept entries slots" and "i < length entries \<Longrightarrow> keeps_key (entries ! i) x"
  shows "slot_keys_kept entries (slots[i := x])"
  unfolding slot_keys_kept_def
proof (intro conjI allI impI)
  show "length (slots[i := x]) = length entries" using assms(1) by (simp add: slot_keys_kept_def)
  fix j assume "j < length entries"
  then show "keeps_key (entries ! j) (slots[i := x] ! j)"
    using assms by (cases "i = j") (simp_all add: slot_keys_kept_def)
qed

lemma slot_keys_kept_emptied:
  "slot_keys_kept entries slots \<Longrightarrow> slot_keys_kept entries (fold (\<lambda>idx sl. sl[idx := Absorbed]) run slots)"
  by (induction run arbitrary: slots) (simp_all add: slot_keys_kept_update)

lemma assign_run_keys:
  assumes "slot_keys_kept entries slots"
    and "\<forall>(idx, entry, planned) \<in> set plan. idx < length entries \<longrightarrow> entry = fst (entries ! idx)"
  shows "slot_keys_kept entries (assign_run survivor remaining plan slots)"
  using assms
proof (induction survivor remaining plan slots rule: assign_run.induct)
  case (2 survivor remaining idx entry planned plan slots)
  have rest: "\<forall>(idx, entry, planned) \<in> set plan. idx < length entries \<longrightarrow> entry = fst (entries ! idx)"
    and upd: "slot_keys_kept entries (slots[idx := Apply (entry, y)])"
      "slot_keys_kept entries (slots[idx := Refused (ek_bytes entry) n])" for y n
    using 2(7) by (simp_all add: slot_keys_kept_update[OF 2(6)])
  show ?case
  proof (cases planned)
    case Run_Absorbed
    then show ?thesis using 2(1)[OF Run_Absorbed 2(6) rest] by simp
  next
    case Run_Survivor
    then show ?thesis using 2(2)[OF Run_Survivor upd(1) rest] by simp
  next
    case (Run_Refused n)
    then show ?thesis using 2(3)[OF Run_Refused upd(2) rest] by simp
  next
    case Run_Unconsumed
    show ?thesis
    proof (cases remaining)
      case Nil
      then show ?thesis using 2(4)[OF Run_Unconsumed Nil 2(6) rest] Run_Unconsumed by simp
    next
      case (Cons x xs)
      then show ?thesis using 2(5)[OF Run_Unconsumed Cons upd(1) rest] Run_Unconsumed by simp
    qed
  qed
qed simp

lemma those_Some: "those (map f xs) = Some ys \<Longrightarrow> length ys = length xs \<and> (\<forall>i < length xs. f (xs ! i) = Some (ys ! i))"
proof (induction xs arbitrary: ys)
  case (Cons x xs)
  then show ?case by (auto simp: nth_Cons split: option.splits nat.splits)
qed simp

lemma prefold_run_keys:
  assumes kept: "slot_keys_kept entries slots"
  shows "slot_keys_kept entries (prefold_run e dec r cap seeds now run slots)"
proof (cases "length run < 2 \<or> those (map (\<lambda>idx. slot_entry (slots ! idx)) run) = None")
  case True
  then show ?thesis using kept by (auto simp: prefold_run_def)
next
  case False
  then obtain taken where taken: "those (map (\<lambda>idx. slot_entry (slots ! idx)) run) = Some taken" by auto
  note th = those_Some[OF taken]
  have own: "entry = fst (entries ! idx)"
    if mem: "(idx, entry, planned) \<in> set (zip run (zip (map fst taken) plan))" and lt: "idx < length entries" for idx entry planned plan
  proof -
    obtain j where j: "j < length run" "idx = run ! j" "entry = fst (taken ! j)"
      using mem th by (auto simp: in_set_zip)
    then have "slot_entry (slots ! idx) = Some (taken ! j)" using th by simp
    then have "slots ! idx = Apply (taken ! j)" by (cases "slots ! idx") auto
    then show ?thesis using kept lt j by (auto simp: slot_keys_kept_def)
  qed
  have "slot_keys_kept entries (assign_run survivor remaining (zip run (zip (map fst taken) plan))
      (fold (\<lambda>idx sl. sl[idx := Absorbed]) run slots))" for survivor remaining plan
  proof (rule assign_run_keys[OF slot_keys_kept_emptied[OF kept]])
    show "\<forall>(idx, entry, planned) \<in> set (zip run (zip (map fst taken) plan)). idx < length entries \<longrightarrow> entry = fst (entries ! idx)"
    proof (intro ballI)
      fix x assume x: "x \<in> set (zip run (zip (map fst taken) plan))"
      obtain idx entry planned where "x = (idx, entry, planned)" by (cases x)
      then show "case x of (idx, entry, planned) \<Rightarrow> idx < length entries \<longrightarrow> entry = fst (entries ! idx)"
        using own[of idx entry planned plan] x by simp
    qed
  qed
  then show ?thesis
    using False kept by (simp add: prefold_run_def taken Let_def split: option.split prefold_seed.split)
qed

lemma prefold_batch_keys: "slot_keys_kept entries (prefold_batch e dec entries runs r cap seeds now)"
proof -
  have "slot_keys_kept entries (fold (prefold_run e dec r cap seeds now) runs slots)"
    if "slot_keys_kept entries slots" for slots
    using that by (induction runs arbitrary: slots) (auto intro: prefold_run_keys)
  moreover have "slot_keys_kept entries (map Apply entries)" by (simp add: slot_keys_kept_def)
  ultimately show ?thesis by (simp add: prefold_batch_def)
qed

end
