(* ===== verification/Engine_Evict.thy ===== *)
theory Engine_Evict
  imports Engine_Apply
begin

text \<open>
  Capacity eviction (\<^verbatim>\<open>engine/evict.rs\<close>): the sampled victims, the batch and the scan, and
  the loop that evicts until the total weight is within the limit. Without a spill tier no victim
  is refused and no weight is pending, so a victim is removed or has vanished. The ties of
  \<open>sort_unstable_by_key\<close> come out in some order; the model takes the stable one, and no theorem
  rests on it. The loop is a total function: its termination proof is that every turn takes an
  entry out, clears the written set, or ends the pass that follows a scan.
\<close>

section \<open>Decisions\<close>

definition eviction_sample :: nat where "eviction_sample = 8"
definition eviction_batch_sample :: nat where "eviction_batch_sample = 32"
definition eviction_batch :: nat where "eviction_batch = 8"

definition defer_to_flusher :: "bool \<Rightarrow> u64 \<Rightarrow> u64 \<Rightarrow> u64 \<Rightarrow> bool" where
  "defer_to_flusher refused total_weight pending_spill_weight limit \<longleftrightarrow>
     0 < pending_spill_weight \<and> (refused \<or> total_weight \<le> limit)"

definition deficit_once_still_over_capacity :: "u64 \<Rightarrow> u64 \<Rightarrow> u64 \<Rightarrow> u64" where
  "deficit_once_still_over_capacity current limit deficit = (if current \<le> limit then 0 else deficit)"

fun batch_size_loop :: "u64 \<Rightarrow> u64 \<Rightarrow> nat \<Rightarrow> u32 list \<Rightarrow> nat option" where
  "batch_size_loop over_by sofar evicted [] = None"
| "batch_size_loop over_by sofar evicted (weight # ws) =
     (if over_by \<le> sofar then Some evicted else batch_size_loop over_by (sofar + ucast weight) (Suc evicted) ws)"

definition eviction_batch_size :: "u64 \<Rightarrow> u32 list \<Rightarrow> nat" where
  "eviction_batch_size over_by sampled_weights =
     (let cap = min eviction_batch ((length sampled_weights + 1) div 2)
      in case batch_size_loop over_by 0 0 (take cap sampled_weights) of Some evicted \<Rightarrow> evicted | None \<Rightarrow> cap)"

record evict_outcome =
  eo_removed_weight :: u64
  eo_deficit :: u64
  eo_refused :: bool

definition evict_outcome_default :: evict_outcome where
  "evict_outcome_default = \<lparr>eo_removed_weight = 0, eo_deficit = 0, eo_refused = False\<rparr>"

definition made_no_progress :: "evict_outcome \<Rightarrow> bool" where
  "made_no_progress o1 \<longleftrightarrow> eo_removed_weight o1 = 0"

datatype victim_outcome = Removed u32 | Vanished

definition is_spill_candidate :: "live \<Rightarrow> bool" where
  "is_spill_candidate l \<longleftrightarrow> 0 < lv_weight l"

definition pending_spill_weight_or_zero :: "('k, 'v) engine \<Rightarrow> u64" where
  "pending_spill_weight_or_zero g = 0"

section \<open>Sampling\<close>

definition next_random :: "('k, 'v) engine \<Rightarrow> u64 \<times> ('k, 'v) engine" where
  "next_random g =
     (let x = eg_evict_cursor g;
          x = x XOR push_bit 13 x;
          x = x XOR drop_bit 7 x;
          x = x XOR push_bit 17 x
      in (x, g\<lparr>eg_evict_cursor := x\<rparr>))"

definition next_pseudo_random_bucket :: "('k, 'v) engine \<Rightarrow> nat \<times> ('k, 'v) engine" where
  "next_pseudo_random_bucket g = (let (x, g) = next_random g in (stripe_index_from_hash x, g))"

definition sample_offset :: "nat \<Rightarrow> ('k, 'v) engine \<Rightarrow> nat \<times> ('k, 'v) engine" where
  "sample_offset len g =
     (if len = 0 then (0, g) else let (x, g) = next_random g in (unat (x mod of_nat len), g))"

definition sample_window :: "externs \<Rightarrow> u64 \<Rightarrow> written \<Rightarrow> nat \<Rightarrow> nat \<Rightarrow> live list \<Rightarrow> live list" where
  "sample_window e max_capacity w offset sample_size xs =
     filter is_spill_candidate
       (take sample_size
         (filter (\<lambda>l. \<not> is_spill_candidate l \<or> max_capacity < ucast (lv_weight l) \<or> \<not> written_holds e w l)
           (drop offset xs @ take offset xs)))"

definition sample_candidates ::
  "externs \<Rightarrow> nat \<Rightarrow> nat \<Rightarrow> written \<Rightarrow> ('k, 'v) engine \<Rightarrow> live list \<times> ('k, 'v) engine" where
  "sample_candidates e bucket sample_size w g =
     (let xs = st_live (eg_stripes g bucket); (offset, g) = sample_offset (length xs) g
      in (sample_window e (eg_max_capacity g) w offset sample_size xs, g))"

text \<open>\<open>Iterator::max_by_key\<close>: the last of the greatest.\<close>

fun max_by_key :: "('a \<Rightarrow> 'b::linorder) \<Rightarrow> 'a list \<Rightarrow> 'a option" where
  "max_by_key f [] = None"
| "max_by_key f (x # xs) =
     (case max_by_key f xs of None \<Rightarrow> Some x | Some y \<Rightarrow> if f x \<le> f y then Some y else Some x)"

section \<open>One lock hold\<close>

definition evict_victim_locked ::
  "externs \<Rightarrow> nat \<Rightarrow> bytes \<Rightarrow> ('k, 'v) engine \<Rightarrow> victim_outcome \<times> ('k, 'v) engine" where
  "evict_victim_locked e bucket victim_bytes g =
     (let hash = hash_key_bytes e victim_bytes; s = eg_stripes g bucket
      in case arena_remove e victim_bytes (st_live s) of
           None \<Rightarrow> (Vanished, g)
         | Some (removed, rest) \<Rightarrow>
             let slot = digest_slot bucket (part_index_from_hash hash)
             in (Removed (lv_weight removed),
                 g\<lparr>eg_stripes := (eg_stripes g)(bucket :=
                      s\<lparr>st_live := rest, st_long_ttl := bm_remove victim_bytes (st_long_ttl s)\<rparr>),
                   eg_digest := (eg_digest g)(slot :=
                      eg_digest g slot XOR entry_fingerprint e (record_key e (lv_record removed)) (live_ver removed))\<rparr>))"

definition evict_one_sampled ::
  "externs \<Rightarrow> nat \<Rightarrow> written \<Rightarrow> u64 \<Rightarrow> ('k, 'v) engine \<Rightarrow> evict_outcome \<times> ('k, 'v) engine" where
  "evict_one_sampled e bucket w now_ms g =
     (let (sampled, g) = sample_candidates e bucket eviction_sample w g
      in case max_by_key (\<lambda>l. idle_elapsed_ms now_ms (lv_last_access l)) sampled of
           None \<Rightarrow> (evict_outcome_default, g)
         | Some l \<Rightarrow>
             (case evict_victim_locked e bucket (live_key e l) g of
                (Removed weight, g) \<Rightarrow>
                  (\<lparr>eo_removed_weight = ucast weight, eo_deficit = 0, eo_refused = False\<rparr>,
                   g\<lparr>eg_total_weight := eg_total_weight g - ucast weight, eg_live_count := eg_live_count g - 1\<rparr>)
              | (Vanished, g) \<Rightarrow> (evict_outcome_default, g)))"

fun evict_one_scanning ::
  "externs \<Rightarrow> nat list \<Rightarrow> written \<Rightarrow> u64 \<Rightarrow> ('k, 'v) engine \<Rightarrow> (nat \<times> evict_outcome) option \<times> ('k, 'v) engine" where
  "evict_one_scanning e [] w now_ms g = (None, g)"
| "evict_one_scanning e (candidate # candidates) w now_ms g =
     (let (outcome, g) = evict_one_sampled e candidate w now_ms g;
          refused_while_busy = (eo_refused outcome \<and> 0 < pending_spill_weight_or_zero g)
      in if \<not> made_no_progress outcome \<or> 0 < eo_deficit outcome \<or> refused_while_busy
         then (Some (candidate, outcome), g)
         else evict_one_scanning e candidates w now_ms g)"

text \<open>The stripes a scan visits from a bucket on, wrapping around once.\<close>

definition scan_order :: "nat \<Rightarrow> nat list" where
  "scan_order bucket = map (\<lambda>step. (bucket + step) mod bucket_count) [0..<bucket_count]"

fun evict_victims :: "externs \<Rightarrow> nat \<Rightarrow> bytes list \<Rightarrow> u64 \<Rightarrow> u64 \<Rightarrow> ('k, 'v) engine \<Rightarrow> u64 \<times> u64 \<times> ('k, 'v) engine" where
  "evict_victims e bucket [] removed_weight removed_count g = (removed_weight, removed_count, g)"
| "evict_victims e bucket (key_bytes # keys) removed_weight removed_count g =
     (case evict_victim_locked e bucket key_bytes g of
        (Removed weight, g) \<Rightarrow> evict_victims e bucket keys (removed_weight + ucast weight) (removed_count + 1) g
      | (Vanished, g) \<Rightarrow> evict_victims e bucket keys removed_weight removed_count g)"

definition evict_batch_sampled ::
  "externs \<Rightarrow> nat \<Rightarrow> u64 \<Rightarrow> written \<Rightarrow> bool \<Rightarrow> u64 \<Rightarrow> ('k, 'v) engine \<Rightarrow> evict_outcome \<times> ('k, 'v) engine" where
  "evict_batch_sampled e bucket over_by w only_if_dense now_ms g =
     (let (candidates, g) = sample_candidates e bucket eviction_batch_sample w g;
          sampled = map (\<lambda>l. (live_key e l, idle_elapsed_ms now_ms (lv_last_access l), lv_weight l)) candidates
      in if sampled = [] \<or> (only_if_dense \<and> length sampled < eviction_sample) then (evict_outcome_default, g)
         else
           let sampled = sort_key (\<lambda>(_, idle, _). NOT idle) sampled;
               weights = map (\<lambda>(_, _, weight). weight) sampled;
               victims = eviction_batch_size over_by weights;
               (removed_weight, removed_count, g) =
                 evict_victims e bucket (map fst (take victims sampled)) 0 0 g;
               g = (if 0 < removed_weight then g\<lparr>eg_total_weight := eg_total_weight g - removed_weight\<rparr> else g);
               g = (if 0 < removed_count then g\<lparr>eg_live_count := eg_live_count g - removed_count\<rparr> else g)
           in (\<lparr>eo_removed_weight = removed_weight, eo_deficit = 0, eo_refused = False\<rparr>, g))"

section \<open>What one lock hold changes\<close>

text \<open>
  Between two engines with the same settings: the second holds nothing the first does not, and the
  same tombstones and loads in flight. Eviction is such a step whatever it evicts.
\<close>

definition settings :: "('k, 'v) engine \<Rightarrow> ('k, 'v) engine" where
  "settings g = g\<lparr>eg_stripes := (\<lambda>_. stripe_new), eg_digest := (\<lambda>_. 0), eg_total_weight := 0, eg_live_count := 0,
     eg_evict_cursor := 0\<rparr>"

definition stripe_evicted :: "'v stripe \<Rightarrow> 'v stripe \<Rightarrow> bool" where
  "stripe_evicted s s' \<longleftrightarrow> st_tombstones s' = st_tombstones s \<and> st_inflight s' = st_inflight s \<and>
     set (st_live s') \<subseteq> set (st_live s)"

definition only_evicted :: "('k, 'v) engine \<Rightarrow> ('k, 'v) engine \<Rightarrow> bool" where
  "only_evicted g g' \<longleftrightarrow>
     settings g' = settings g \<and> (\<forall>b. stripe_evicted (eg_stripes g b) (eg_stripes g' b))"

lemma settings_simps [simp]:
  "settings (g\<lparr>eg_stripes := a\<rparr>) = settings g" "settings (g\<lparr>eg_digest := b\<rparr>) = settings g"
  "settings (g\<lparr>eg_total_weight := x\<rparr>) = settings g" "settings (g\<lparr>eg_live_count := y\<rparr>) = settings g"
  "settings (g\<lparr>eg_evict_cursor := z\<rparr>) = settings g"
  by (simp_all add: settings_def)

lemma settings_eq: "settings g' = settings g \<Longrightarrow>
  eg_max_capacity g' = eg_max_capacity g \<and> eg_tti_ms g' = eg_tti_ms g \<and> eg_weigher g' = eg_weigher g"
  by (cases g; cases g') (simp add: settings_def)

lemma stripe_evicted_refl [simp]: "stripe_evicted s s"
  by (simp add: stripe_evicted_def)

lemma only_evicted_refl [simp]: "only_evicted g g"
  by (simp add: only_evicted_def)

lemma only_evicted_trans: "only_evicted g g' \<Longrightarrow> only_evicted g' g'' \<Longrightarrow> only_evicted g g''"
  by (auto simp: only_evicted_def stripe_evicted_def)

lemma only_evicted_counters [simp]:
  "only_evicted g (g'\<lparr>eg_total_weight := x\<rparr>) = only_evicted g g'"
  "only_evicted g (g'\<lparr>eg_live_count := y\<rparr>) = only_evicted g g'"
  "only_evicted g (g'\<lparr>eg_evict_cursor := z\<rparr>) = only_evicted g g'"
  by (simp_all add: only_evicted_def)

lemma only_evicted_capacity: "only_evicted g g' \<Longrightarrow> eg_max_capacity g' = eg_max_capacity g"
  using settings_eq by (auto simp: only_evicted_def)

lemma remove_live_shrinks:
  assumes "remove_live e k s = Some (r, s')"
  shows "stripe_evicted s s'" and "length (st_live s) = Suc (length (st_live s'))"
proof -
  obtain l where l: "mset (st_live s) = add_mset l (mset (st_live s'))" using assms by (rule remove_live_Some)
  show "stripe_evicted s s'"
    using remove_live_same[OF assms] arg_cong[OF l, of set_mset] by (auto simp: stripe_evicted_def)
  show "length (st_live s) = Suc (length (st_live s'))" using arg_cong[OF l, of size] by simp
qed

definition entries_in :: "nat set \<Rightarrow> ('k, 'v) engine \<Rightarrow> nat" where
  "entries_in I g = (\<Sum>b \<in> I. length (st_live (eg_stripes g b)))"

lemma entries_in_counters [simp]:
  "entries_in I (g\<lparr>eg_total_weight := x\<rparr>) = entries_in I g" "entries_in I (g\<lparr>eg_live_count := y\<rparr>) = entries_in I g"
  "entries_in I (g\<lparr>eg_evict_cursor := z\<rparr>) = entries_in I g"
  by (simp_all add: entries_in_def)

lemma evict_victim_remove:
  "evict_victim_locked e b k g =
     (case remove_live e k (eg_stripes g b) of
        None \<Rightarrow> (Vanished, g)
      | Some (r, s') \<Rightarrow>
          (Removed (rl_weight r),
           g\<lparr>eg_stripes := (eg_stripes g)(b := s'),
             eg_digest := (eg_digest g)(digest_slot b (key_part e k) :=
               eg_digest g (digest_slot b (key_part e k)) XOR entry_fingerprint e k (rl_ver r))\<rparr>))"
proof (cases "arena_remove e k (st_live (eg_stripes g b))")
  case None
  then show ?thesis by (simp add: evict_victim_locked_def remove_live_def Let_def)
next
  case (Some x)
  then obtain l rest where x: "x = (l, rest)" "arena_remove e k (st_live (eg_stripes g b)) = Some (l, rest)" by (cases x) auto
  then have "record_key e (lv_record l) = k" using arena_remove_Some(1) live_key_def by metis
  then show ?thesis using x by (simp add: evict_victim_locked_def remove_live_def Let_def key_part_def)
qed

lemma evict_victim_step:
  assumes "evict_victim_locked e b k g = (out, g')"
  shows "only_evicted g g'"
    and "out = Vanished \<longleftrightarrow> k \<notin> live_keys e (eg_stripes g b)" and "out = Vanished \<Longrightarrow> g' = g"
    and "out = Removed w \<Longrightarrow> finite I \<Longrightarrow> b \<in> I \<Longrightarrow> entries_in I g = Suc (entries_in I g')"
    and "entries_in I g' \<le> entries_in I g"
proof -
  have *: "only_evicted g g' \<and> (out = Vanished \<longleftrightarrow> k \<notin> live_keys e (eg_stripes g b)) \<and> (out = Vanished \<longrightarrow> g' = g) \<and>
    (\<forall>c. length (st_live (eg_stripes g c)) =
       (if c = b \<and> out \<noteq> Vanished then Suc (length (st_live (eg_stripes g' c))) else length (st_live (eg_stripes g' c))))"
  proof (cases "remove_live e k (eg_stripes g b)")
    case None
    then show ?thesis using assms remove_live_None[of e k "eg_stripes g b"] by (simp add: evict_victim_remove)
  next
    case (Some x)
    then obtain r s' where rm: "remove_live e k (eg_stripes g b) = Some (r, s')" by (cases x) auto
    then show ?thesis
      using assms remove_live_None[of e k "eg_stripes g b"] remove_live_shrinks[OF rm]
      by (auto simp: evict_victim_remove only_evicted_def)
  qed
  then show "only_evicted g g'" "out = Vanished \<longleftrightarrow> k \<notin> live_keys e (eg_stripes g b)" "out = Vanished \<Longrightarrow> g' = g"
    by simp_all
  have len: "length (st_live (eg_stripes g c)) =
    (if c = b \<and> out \<noteq> Vanished then Suc (length (st_live (eg_stripes g' c))) else length (st_live (eg_stripes g' c)))" for c
    using * by blast
  show "entries_in I g = Suc (entries_in I g')" if "out = Removed w" "finite I" "b \<in> I"
    using that by (simp add: entries_in_def len sum.remove[of I b])
  show "entries_in I g' \<le> entries_in I g"
    unfolding entries_in_def len by (intro sum_mono) simp
qed

text \<open>The counters after a removal, once its weight and count are folded in.\<close>

lemma evict_victim_ok:
  assumes ok: "engine_ok e (g\<lparr>eg_total_weight := w0, eg_live_count := n0\<rparr>)" and b: "b < bucket_count"
    and ev: "evict_victim_locked e b k g = (Removed w, g')"
  shows "engine_ok e (g'\<lparr>eg_total_weight := w0 - ucast w, eg_live_count := n0 - 1\<rparr>)"
proof -
  obtain r s' where rm: "remove_live e k (eg_stripes g b) = Some (r, s')" and w: "w = rl_weight r"
    and g': "g' = g\<lparr>eg_stripes := (eg_stripes g)(b := s'),
             eg_digest := (eg_digest g)(digest_slot b (key_part e k) :=
               eg_digest g (digest_slot b (key_part e k)) XOR entry_fingerprint e k (rl_ver r))\<rparr>"
    using ev by (auto simp: evict_victim_remove split: option.splits)
  have sok: "stripe_ok e b (eg_stripes g b)" using ok b by (simp add: engine_ok_def)
  have "balanced e (key_part e k) (eg_stripes g b, eg_digest g (digest_slot b (key_part e k)), w0, n0)
    (s', eg_digest g (digest_slot b (key_part e k)) XOR entry_fingerprint e k (rl_ver r), w0 - ucast w, n0 - 1)"
    using remove_live_sums[OF rm] by (intro balanced_drop) (simp_all add: w)
  then show ?thesis
    by (intro engine_ok_balanced[OF ok b key_part_lt[of e k] remove_live_ok(1)[OF sok rm]]) (simp_all add: g')
qed

section \<open>Sampling and the passes\<close>

lemma next_random_cursor: "\<exists>c. next_random g = (c, g\<lparr>eg_evict_cursor := c\<rparr>)"
  by (simp add: next_random_def Let_def)

lemma sample_candidates_window:
  obtains offset c where
    "sample_candidates e b n w g = (sample_window e (eg_max_capacity g) w offset n (st_live (eg_stripes g b)), g\<lparr>eg_evict_cursor := c\<rparr>)"
proof -
  let ?len = "length (st_live (eg_stripes g b))"
  obtain c where c: "next_random g = (c, g\<lparr>eg_evict_cursor := c\<rparr>)" using next_random_cursor by blast
  show thesis
  proof (cases "?len = 0")
    case True
    then show thesis
      using that[of 0 "eg_evict_cursor g"] by (simp add: sample_candidates_def sample_offset_def Let_def)
  next
    case False
    then show thesis
      using that[of "unat (c mod of_nat ?len)" c] by (simp add: sample_candidates_def sample_offset_def Let_def c)
  qed
qed

lemma set_sample_window: "l \<in> set (sample_window e cap w offset n xs) \<Longrightarrow> l \<in> set xs \<and> is_spill_candidate l"
  unfolding sample_window_def
  by (auto dest!: in_set_takeD dest: in_set_dropD in_set_takeD)

lemma max_by_key_None [simp]: "max_by_key f xs = None \<longleftrightarrow> xs = []"
  by (cases xs) (auto split: option.split)

lemma max_by_key_in: "max_by_key f xs = Some y \<Longrightarrow> y \<in> set xs"
  by (induction xs arbitrary: y) (auto split: option.splits if_splits)

lemma ucast_weight_zero [simp]: "(ucast w :: u64) = 0 \<longleftrightarrow> w = 0" for w :: u32
  using unat_ucast_up[of w] by (metis unat_eq_zero)

lemma engine_ok_cursor [simp]:
  "engine_ok e (g\<lparr>eg_evict_cursor := c\<rparr>) = engine_ok e g"
  "engine_ok e (g\<lparr>eg_evict_cursor := c, eg_total_weight := eg_total_weight g, eg_live_count := eg_live_count g\<rparr>) = engine_ok e g"
  by (simp_all add: engine_ok_def)

lemma evict_one_sampled_step:
  assumes ev: "evict_one_sampled e b w now g = (out, g')"
  shows "only_evicted g g'" and "entries_in I g' \<le> entries_in I g"
    and "\<not> made_no_progress out \<Longrightarrow> finite I \<Longrightarrow> b \<in> I \<Longrightarrow> entries_in I g' < entries_in I g"
    and "engine_ok e g \<Longrightarrow> b < bucket_count \<Longrightarrow> engine_ok e g'"
    and "eo_deficit out = 0" and "\<not> eo_refused out"
    and "made_no_progress out \<Longrightarrow> stripe_ok e b (eg_stripes g b) \<Longrightarrow> (\<exists>c. g' = g\<lparr>eg_evict_cursor := c\<rparr>) \<and>
      (\<exists>offset. sample_window e (eg_max_capacity g) w offset eviction_sample (st_live (eg_stripes g b)) = [])"
proof -
  let ?key = "\<lambda>l. idle_elapsed_ms now (lv_last_access l)"
  obtain offset c where sc: "sample_candidates e b eviction_sample w g =
      (sample_window e (eg_max_capacity g) w offset eviction_sample (st_live (eg_stripes g b)), g\<lparr>eg_evict_cursor := c\<rparr>)"
    (is "_ = (?win, ?g)") by (rule sample_candidates_window)
  have "only_evicted g g' \<and> entries_in I g' \<le> entries_in I g \<and>
    (\<not> made_no_progress out \<longrightarrow> finite I \<longrightarrow> b \<in> I \<longrightarrow> entries_in I g' < entries_in I g) \<and>
    (engine_ok e g \<longrightarrow> b < bucket_count \<longrightarrow> engine_ok e g') \<and> eo_deficit out = 0 \<and> \<not> eo_refused out \<and>
    (made_no_progress out \<longrightarrow> stripe_ok e b (eg_stripes g b) \<longrightarrow> (\<exists>c. g' = g\<lparr>eg_evict_cursor := c\<rparr>) \<and> ?win = [])"
  proof (cases "max_by_key ?key ?win")
    case None
    then have "out = evict_outcome_default" "g' = ?g" "?win = []"
      using ev by (simp_all add: evict_one_sampled_def sc)
    then show ?thesis by (auto simp: evict_outcome_default_def made_no_progress_def engine_ok_def)
  next
    case (Some l)
    then have l: "l \<in> set (st_live (eg_stripes g b))" "0 < lv_weight l"
      using max_by_key_in[OF Some] set_sample_window[of l] by (auto simp: is_spill_candidate_def)
    obtain vo g1 where v: "evict_victim_locked e b (live_key e l) ?g = (vo, g1)" by fastforce
    note step = evict_victim_step[OF v]
    have "vo \<noteq> Vanished" using step(2) l(1) by (simp add: live_keys_def)
    then obtain wt where wt: "vo = Removed wt" by (cases vo) auto
    have eqs: "out = \<lparr>eo_removed_weight = ucast wt, eo_deficit = 0, eo_refused = False\<rparr>"
      "g' = g1\<lparr>eg_total_weight := eg_total_weight g1 - ucast wt, eg_live_count := eg_live_count g1 - 1\<rparr>"
      using ev Some v wt by (simp_all add: evict_one_sampled_def sc)
    have same: "eg_total_weight g1 = eg_total_weight g" "eg_live_count g1 = eg_live_count g"
      using v by (auto simp: evict_victim_remove split: option.splits)
    have "engine_ok e g'" if "engine_ok e g" "b < bucket_count"
    proof -
      have "engine_ok e (?g\<lparr>eg_total_weight := eg_total_weight g, eg_live_count := eg_live_count g\<rparr>)"
        using that(1) by (simp add: engine_ok_def)
      from evict_victim_ok[OF this that(2) v[unfolded wt]] show ?thesis by (simp add: eqs same)
    qed
    moreover have "entries_in I g' < entries_in I g" if "finite I" "b \<in> I"
      using step(4)[OF wt that] by (simp add: eqs)
    moreover have "made_no_progress out \<Longrightarrow> wt = 0" by (simp add: eqs made_no_progress_def)
    moreover have "wt \<noteq> 0" if ok: "stripe_ok e b (eg_stripes g b)"
    proof -
      obtain r s' where rm: "remove_live e (live_key e l) (eg_stripes g b) = Some (r, s')" "wt = rl_weight r"
        using v wt by (auto simp: evict_victim_remove split: option.splits)
      obtain l' where "arena_find e (live_key e l) (st_live (eg_stripes g b)) = Some l'" "rl_weight r = lv_weight l'"
        using rm(1) by (rule remove_live_Some)
      then show ?thesis using l arena_find_member[OF stripe_okD(1)[OF ok] l(1)] rm(2) by auto
    qed
    ultimately show ?thesis using step(1,5) eqs by (auto simp: only_evicted_trans[of g ?g])
  qed
  then show "only_evicted g g'" "entries_in I g' \<le> entries_in I g"
    "\<not> made_no_progress out \<Longrightarrow> finite I \<Longrightarrow> b \<in> I \<Longrightarrow> entries_in I g' < entries_in I g"
    "engine_ok e g \<Longrightarrow> b < bucket_count \<Longrightarrow> engine_ok e g'" "eo_deficit out = 0" "\<not> eo_refused out"
    "made_no_progress out \<Longrightarrow> stripe_ok e b (eg_stripes g b) \<Longrightarrow> (\<exists>c. g' = g\<lparr>eg_evict_cursor := c\<rparr>) \<and>
      (\<exists>offset. sample_window e (eg_max_capacity g) w offset eviction_sample (st_live (eg_stripes g b)) = [])"
    by blast+
qed

lemma evict_one_scanning_step:
  assumes "evict_one_scanning e bs w now g = (found, g')"
  shows "only_evicted g g'" and "entries_in I g' \<le> entries_in I g"
    and "found = Some (b, out) \<Longrightarrow> finite I \<Longrightarrow> set bs \<subseteq> I \<Longrightarrow> entries_in I g' < entries_in I g"
    and "found = Some (b, out) \<Longrightarrow> b \<in> set bs \<and> \<not> made_no_progress out \<and> eo_deficit out = 0"
    and "engine_ok e g \<Longrightarrow> set bs \<subseteq> {..< bucket_count} \<Longrightarrow> engine_ok e g'"
proof -
  have "only_evicted g g' \<and> entries_in I g' \<le> entries_in I g \<and>
    (found = Some (b, out) \<longrightarrow> finite I \<longrightarrow> set bs \<subseteq> I \<longrightarrow> entries_in I g' < entries_in I g) \<and>
    (found = Some (b, out) \<longrightarrow> b \<in> set bs \<and> \<not> made_no_progress out \<and> eo_deficit out = 0) \<and>
    (engine_ok e g \<longrightarrow> set bs \<subseteq> {..< bucket_count} \<longrightarrow> engine_ok e g')"
    using assms
  proof (induction bs arbitrary: g)
    case (Cons c bs)
    obtain o1 g1 where ev: "evict_one_sampled e c w now g = (o1, g1)" by fastforce
    note step = evict_one_sampled_step[OF ev]
    show ?case
    proof (cases "made_no_progress o1")
      case True
      then have rest: "evict_one_scanning e bs w now g1 = (found, g')" using Cons.prems step(5,6) by (simp add: ev)
      show ?thesis
        using Cons.IH[OF rest] step(1,4) step(2)[of I]
        by (auto intro: only_evicted_trans le_trans less_le_trans)
    next
      case False
      then have "found = Some (c, o1)" "g' = g1" using Cons.prems by (simp_all add: ev)
      then show ?thesis using step False by auto
    qed
  qed simp
  then show "only_evicted g g'" "entries_in I g' \<le> entries_in I g"
    "found = Some (b, out) \<Longrightarrow> finite I \<Longrightarrow> set bs \<subseteq> I \<Longrightarrow> entries_in I g' < entries_in I g"
    "found = Some (b, out) \<Longrightarrow> b \<in> set bs \<and> \<not> made_no_progress out \<and> eo_deficit out = 0"
    "engine_ok e g \<Longrightarrow> set bs \<subseteq> {..< bucket_count} \<Longrightarrow> engine_ok e g'"
    by blast+
qed

text \<open>A scan that found nothing saw an empty window in every stripe it visited.\<close>

lemma evict_one_scanning_None:
  assumes "evict_one_scanning e bs w now g = (None, g')" and "engine_ok e g" and "set bs \<subseteq> {..< bucket_count}"
  shows "eg_stripes g' = eg_stripes g \<and> eg_total_weight g' = eg_total_weight g \<and> (\<forall>b \<in> set bs.
    \<exists>offset. sample_window e (eg_max_capacity g) w offset eviction_sample (st_live (eg_stripes g b)) = [])"
  using assms
proof (induction bs arbitrary: g)
  case (Cons c bs)
  obtain o1 g1 where ev: "evict_one_sampled e c w now g = (o1, g1)" by fastforce
  note step = evict_one_sampled_step[OF ev]
  have no: "made_no_progress o1" and rest: "evict_one_scanning e bs w now g1 = (None, g')"
    using Cons.prems(1) step(5,6) by (auto simp: ev split: if_splits)
  have "stripe_ok e c (eg_stripes g c)" using Cons.prems(2,3) by (simp add: engine_ok_def)
  from step(7)[OF no this] obtain cur offset where g1: "g1 = g\<lparr>eg_evict_cursor := cur\<rparr>"
    and win: "sample_window e (eg_max_capacity g) w offset eviction_sample (st_live (eg_stripes g c)) = []" by blast
  have "engine_ok e g1" using Cons.prems(2) by (simp add: g1 engine_ok_def)
  from Cons.IH[OF rest this] Cons.prems(3) win show ?case by (auto simp: g1)
qed simp

lemma scan_order_lt: "set (scan_order b) \<subseteq> {..< bucket_count}"
  by (auto simp: scan_order_def bucket_count_def)

lemma scan_order_all: "b < bucket_count \<Longrightarrow> {..< bucket_count} \<subseteq> set (scan_order b)"
proof
  fix c assume b: "b < bucket_count" and c: "c \<in> {..< bucket_count}"
  define d where "d = (if b \<le> c then c - b else c + bucket_count - b)"
  have "d < bucket_count" "(b + d) mod bucket_count = c" using b c by (auto simp: d_def)
  then show "c \<in> set (scan_order b)" by (force simp: scan_order_def)
qed

lemma evict_victims_step:
  assumes "evict_victims e b ks w n g = (w', n', g')"
  shows "only_evicted g g'" and "entries_in I g' \<le> entries_in I g"
    and "w' \<noteq> w \<Longrightarrow> finite I \<Longrightarrow> b \<in> I \<Longrightarrow> entries_in I g' < entries_in I g"
    and "b < bucket_count \<Longrightarrow> engine_ok e (g\<lparr>eg_total_weight := t - w, eg_live_count := m - n\<rparr>) \<Longrightarrow>
      engine_ok e (g'\<lparr>eg_total_weight := t - w', eg_live_count := m - n'\<rparr>)"
    and "eg_total_weight g' = eg_total_weight g" and "eg_live_count g' = eg_live_count g"
proof -
  have "only_evicted g g' \<and> entries_in I g' \<le> entries_in I g \<and>
    (w' \<noteq> w \<longrightarrow> finite I \<longrightarrow> b \<in> I \<longrightarrow> entries_in I g' < entries_in I g) \<and>
    (b < bucket_count \<longrightarrow> engine_ok e (g\<lparr>eg_total_weight := t - w, eg_live_count := m - n\<rparr>) \<longrightarrow>
      engine_ok e (g'\<lparr>eg_total_weight := t - w', eg_live_count := m - n'\<rparr>)) \<and>
    eg_total_weight g' = eg_total_weight g \<and> eg_live_count g' = eg_live_count g"
    using assms
  proof (induction ks arbitrary: w n g)
    case (Cons k ks)
    obtain vo g1 where ev: "evict_victim_locked e b k g = (vo, g1)" by fastforce
    note step = evict_victim_step[OF ev]
    show ?case
    proof (cases vo)
      case Vanished
      then show ?thesis using Cons.IH[of w n g] Cons.prems step(3) by (simp add: ev)
    next
      case (Removed wt)
      then have rest: "evict_victims e b ks (w + ucast wt) (n + 1) g1 = (w', n', g')" using Cons.prems by (simp add: ev)
      have "eg_total_weight g1 = eg_total_weight g" "eg_live_count g1 = eg_live_count g"
        using ev by (auto simp: evict_victim_remove split: option.splits)
      moreover have "engine_ok e (g1\<lparr>eg_total_weight := t - (w + ucast wt), eg_live_count := m - (n + 1)\<rparr>)"
        if "b < bucket_count" "engine_ok e (g\<lparr>eg_total_weight := t - w, eg_live_count := m - n\<rparr>)"
        using evict_victim_ok[OF that(2,1) ev[unfolded Removed]] by (simp add: diff_diff_add)
      moreover have "entries_in I g' < entries_in I g" if "finite I" "b \<in> I"
        using step(4)[OF Removed that] Cons.IH[OF rest] by linarith
      ultimately show ?thesis
        using Cons.IH[OF rest] step(1) step(5)[of I] by (auto intro: only_evicted_trans le_trans)
    qed
  qed simp
  then show "only_evicted g g'" "entries_in I g' \<le> entries_in I g"
    "w' \<noteq> w \<Longrightarrow> finite I \<Longrightarrow> b \<in> I \<Longrightarrow> entries_in I g' < entries_in I g"
    "b < bucket_count \<Longrightarrow> engine_ok e (g\<lparr>eg_total_weight := t - w, eg_live_count := m - n\<rparr>) \<Longrightarrow>
      engine_ok e (g'\<lparr>eg_total_weight := t - w', eg_live_count := m - n'\<rparr>)"
    "eg_total_weight g' = eg_total_weight g" "eg_live_count g' = eg_live_count g"
    by blast+
qed

lemma evict_batch_step:
  assumes ev: "evict_batch_sampled e b over w dense now g = (out, g')"
  shows "only_evicted g g'" and "entries_in I g' \<le> entries_in I g"
    and "\<not> made_no_progress out \<Longrightarrow> finite I \<Longrightarrow> b \<in> I \<Longrightarrow> entries_in I g' < entries_in I g"
    and "engine_ok e g \<Longrightarrow> b < bucket_count \<Longrightarrow> engine_ok e g'"
    and "eo_deficit out = 0" and "\<not> eo_refused out"
proof -
  obtain win c where sc: "sample_candidates e b eviction_batch_sample w g = (win, g\<lparr>eg_evict_cursor := c\<rparr>)"
    by (rule sample_candidates_window)
  have "only_evicted g g' \<and> entries_in I g' \<le> entries_in I g \<and>
    (\<not> made_no_progress out \<longrightarrow> finite I \<longrightarrow> b \<in> I \<longrightarrow> entries_in I g' < entries_in I g) \<and>
    (engine_ok e g \<longrightarrow> b < bucket_count \<longrightarrow> engine_ok e g') \<and> eo_deficit out = 0 \<and> \<not> eo_refused out"
  proof (cases "win = [] \<or> (dense \<and> length win < eviction_sample)")
    case True
    then have "out = evict_outcome_default" "g' = g\<lparr>eg_evict_cursor := c\<rparr>"
      using ev by (auto simp: evict_batch_sampled_def sc Let_def)
    then show ?thesis by (simp add: evict_outcome_default_def made_no_progress_def engine_ok_def)
  next
    case False
    define sampled where "sampled = sort_key (\<lambda>(_, idle, _). NOT idle)
      (map (\<lambda>l. (live_key e l, idle_elapsed_ms now (lv_last_access l), lv_weight l)) win)"
    define ks where "ks = map fst (take (eviction_batch_size over (map (\<lambda>(_, _, weight). weight) sampled)) sampled)"
    obtain rw rn g1 where vs: "evict_victims e b ks 0 0 (g\<lparr>eg_evict_cursor := c\<rparr>) = (rw, rn, g1)" by (metis prod_cases3)
    have out: "out = \<lparr>eo_removed_weight = rw, eo_deficit = 0, eo_refused = False\<rparr>"
      and g': "g' = (let g = (if 0 < rw then g1\<lparr>eg_total_weight := eg_total_weight g1 - rw\<rparr> else g1)
        in if 0 < rn then g\<lparr>eg_live_count := eg_live_count g - rn\<rparr> else g)"
      using ev False vs[unfolded ks_def sampled_def] by (auto simp: evict_batch_sampled_def sc Let_def)
    note step = evict_victims_step[OF vs]
    have g'': "g' = g1\<lparr>eg_total_weight := eg_total_weight g - rw, eg_live_count := eg_live_count g - rn\<rparr>"
    proof -
      have "0 < x \<longleftrightarrow> x \<noteq> 0" for x :: u64 by (simp add: word_neq_0_conv)
      then show ?thesis using step(5,6) by (simp add: g' Let_def)
    qed
    have "engine_ok e g'" if "engine_ok e g" "b < bucket_count"
      unfolding g'' using step(4)[OF that(2), where t = "eg_total_weight g" and m = "eg_live_count g"] that(1) by simp
    moreover have "only_evicted g g1"
      using only_evicted_trans[OF _ step(1), of g] by simp
    ultimately show ?thesis
      using step(2)[of I] step(3)[of I] by (simp add: out g'' made_no_progress_def)
  qed
  then show "only_evicted g g'" "entries_in I g' \<le> entries_in I g"
    "\<not> made_no_progress out \<Longrightarrow> finite I \<Longrightarrow> b \<in> I \<Longrightarrow> entries_in I g' < entries_in I g"
    "engine_ok e g \<Longrightarrow> b < bucket_count \<Longrightarrow> engine_ok e g'" "eo_deficit out = 0" "\<not> eo_refused out"
    by blast+
qed

section \<open>The loop\<close>

text \<open>
  Each turn of the loop below takes an entry out of one of the stripes the loop can reach, or clears the written set,
  or ends the one pass that follows a scan.
\<close>

definition loop_stripes :: "nat \<Rightarrow> nat \<Rightarrow> nat set" where
  "loop_stripes start bucket = {start, bucket} \<union> {..< bucket_count}"

definition loop_measure :: "nat \<Rightarrow> nat \<Rightarrow> bool \<Rightarrow> written \<Rightarrow> ('k, 'v) engine \<Rightarrow> nat" where
  "loop_measure start bucket after_scan w g =
     4 * entries_in (loop_stripes start bucket) g + (if written_is_empty w then 0 else 2) + (if after_scan then 1 else 0)"

lemma loop_stripes_simps [simp]: "finite (loop_stripes s b)" "b \<in> loop_stripes s b" "set (scan_order c) \<subseteq> loop_stripes s b"
  using scan_order_lt[of c] by (auto simp: loop_stripes_def)

lemma entries_loop_mono:
  assumes "b' = start \<or> b' < bucket_count"
  shows "entries_in (loop_stripes start b') g \<le> entries_in (loop_stripes start b) g"
  unfolding entries_in_def using assms by (intro sum_mono2) (auto simp: loop_stripes_def)

lemma written_clear_empty [simp]: "written_is_empty (written_clear w)"
  by (simp add: written_is_empty_def written_clear_def)

lemma next_bucket_lt:
  assumes "next_pseudo_random_bucket g = (b, g')"
  shows "b < bucket_count" and "\<exists>c. g' = g\<lparr>eg_evict_cursor := c\<rparr>"
  using assms by (auto simp: next_pseudo_random_bucket_def next_random_def Let_def)

lemma loop_measure_cleared:
  assumes "(out, g1) = evict_batch_sampled e b over w dense now g" and "(found, g2) = evict_one_scanning e (scan_order b) w now g1"
    and "\<not> written_is_empty w"
  shows "loop_measure start start after_scan (written_clear w) g2 < loop_measure start b after_scan w g"
  using evict_batch_step(2)[OF assms(1)[symmetric], of "loop_stripes start b"]
    evict_one_scanning_step(2)[OF assms(2)[symmetric], of "loop_stripes start b"]
    entries_loop_mono[of start start g2 b] assms(3)
  by (simp add: loop_measure_def)

lemma loop_measure_scanned:
  assumes "(out, g1) = evict_batch_sampled e b over w dense now g"
    and "(Some (found, out'), g2) = evict_one_scanning e (scan_order b) w now g1"
  shows "loop_measure start found True w g2 < loop_measure start b after_scan w g"
proof -
  note scan = evict_one_scanning_step[OF assms(2)[symmetric]]
  have "found < bucket_count" using scan(4)[OF refl] scan_order_lt[of b] by auto
  then show ?thesis
    using evict_batch_step(2)[OF assms(1)[symmetric], of "loop_stripes start b"]
      scan(3)[OF refl, of "loop_stripes start b"] entries_loop_mono[of found start g2 b]
    by (simp add: loop_measure_def)
qed

lemma loop_measure_batch:
  assumes "(out, g1) = evict_batch_sampled e b over w dense now g" and "(b', g2) = next_pseudo_random_bucket g1"
    and "\<not> (made_no_progress out \<and> \<not> after_scan)"
  shows "loop_measure start b' False w g2 < loop_measure start b after_scan w g"
proof -
  obtain c where c: "g2 = g1\<lparr>eg_evict_cursor := c\<rparr>" "b' < bucket_count" using next_bucket_lt[OF assms(2)[symmetric]] by blast
  note step = evict_batch_step[OF assms(1)[symmetric]]
  show ?thesis
    using step(2)[of "loop_stripes start b"] step(3)[of "loop_stripes start b"] entries_loop_mono[of b' start g1 b] c assms(3)
    by (cases "made_no_progress out") (simp_all add: loop_measure_def)
qed

function evict_loop ::
  "externs \<Rightarrow> u64 \<Rightarrow> nat \<Rightarrow> u64 \<Rightarrow> nat \<Rightarrow> bool \<Rightarrow> u64 \<Rightarrow> written \<Rightarrow> ('k, 'v) engine
     \<Rightarrow> u64 \<times> u64 \<times> written \<times> ('k, 'v) engine" where
  "evict_loop e limit start now_ms bucket after_scan freed w g =
     (let current = sat_add (eg_total_weight g) (pending_spill_weight_or_zero g)
      in if current \<le> limit then (0, freed, w, g)
         else case evict_batch_sampled e bucket (current - limit) w after_scan now_ms g of (batch, g1) \<Rightarrow>
           let freed = freed + eo_removed_weight batch
           in if 0 < eo_deficit batch
              then (deficit_once_still_over_capacity
                      (sat_add (eg_total_weight g1) (pending_spill_weight_or_zero g1)) limit (eo_deficit batch), freed, w, g1)
              else if made_no_progress batch \<and> \<not> after_scan then
                if defer_to_flusher (eo_refused batch) (eg_total_weight g1) (pending_spill_weight_or_zero g1) limit
                then (0, freed, w, g1)
                else (case evict_one_scanning e (scan_order bucket) w now_ms g1 of
                   (None, g2) \<Rightarrow>
                     if \<not> written_is_empty w
                     then evict_loop e limit start now_ms start after_scan freed (written_clear w) g2
                     else (0, freed, w, g2)
                 | (Some (found, outcome), g2) \<Rightarrow>
                     if 0 < eo_deficit outcome then (eo_deficit outcome, freed + eo_removed_weight outcome, w, g2)
                     else if made_no_progress outcome then (0, freed, w, g2)
                     else evict_loop e limit start now_ms found True (freed + eo_removed_weight outcome) w g2)
              else (case next_pseudo_random_bucket g1 of (next_bucket, g2) \<Rightarrow>
                      evict_loop e limit start now_ms next_bucket False freed w g2))"
  by pat_completeness auto

termination
  by (relation "measure (\<lambda>(e, limit, start, now_ms, bucket, after_scan, freed, w, g). loop_measure start bucket after_scan w g)")
    (auto simp only: wf_measure in_measure split intro: loop_measure_cleared loop_measure_scanned loop_measure_batch)

declare evict_loop.simps [simp del]

definition evict_down_to_freeing ::
  "externs \<Rightarrow> u64 \<Rightarrow> nat \<Rightarrow> written \<Rightarrow> u64 \<Rightarrow> ('k, 'v) engine \<Rightarrow> u64 \<times> u64 \<times> written \<times> ('k, 'v) engine" where
  "evict_down_to_freeing e limit start_bucket w now_ms g =
     (if eg_max_capacity g = u64_max then (0, 0, w, g)
      else evict_loop e limit start_bucket now_ms start_bucket False 0 w g)"

definition enforce_capacity_with_reservation ::
  "externs \<Rightarrow> nat \<Rightarrow> written \<Rightarrow> u64 \<Rightarrow> ('k, 'v) engine \<Rightarrow> u64 \<times> written \<times> ('k, 'v) engine" where
  "enforce_capacity_with_reservation e start_bucket w now_ms g =
     (case evict_down_to_freeing e (eg_max_capacity g) start_bucket w now_ms g of (deficit, _, w, g) \<Rightarrow> (deficit, w, g))"

definition enforce_capacity :: "externs \<Rightarrow> nat \<Rightarrow> written \<Rightarrow> u64 \<Rightarrow> ('k, 'v) engine \<Rightarrow> written \<times> ('k, 'v) engine" where
  "enforce_capacity e start_bucket w now_ms g = snd (enforce_capacity_with_reservation e start_bucket w now_ms g)"

section \<open>The loop ends within the limit\<close>

definition weights_positive :: "('k, 'v) engine \<Rightarrow> bool" where
  "weights_positive g \<longleftrightarrow> (\<forall>b < bucket_count. \<forall>l \<in> set (st_live (eg_stripes g b)). is_spill_candidate l)"

lemma weights_positive_evicted: "only_evicted g g' \<Longrightarrow> weights_positive g \<Longrightarrow> weights_positive g'"
  by (auto simp: weights_positive_def only_evicted_def stripe_evicted_def)

lemma empty_window:
  assumes "sample_window e cap w offset eviction_sample xs = []" and "written_is_empty w"
    and "\<forall>l \<in> set xs. is_spill_candidate l"
  shows "xs = []"
proof -
  let ?ys = "drop offset xs @ take offset xs"
  have "filter (\<lambda>l. \<not> is_spill_candidate l \<or> cap < ucast (lv_weight l) \<or> \<not> written_holds e w l) ?ys = ?ys"
    using assms(2) by (simp add: written_holds_def written_is_empty_def)
  moreover have "filter is_spill_candidate (take eviction_sample ?ys) = take eviction_sample ?ys"
  proof -
    have "\<forall>l \<in> set ?ys. is_spill_candidate l" using assms(3) by (auto dest: in_set_dropD in_set_takeD)
    then show ?thesis by (auto simp only: filter_id_conv dest!: in_set_takeD)
  qed
  ultimately have "take eviction_sample ?ys = []" using assms(1) by (simp add: sample_window_def)
  then have "length ?ys = 0" by (metis eviction_sample_def list.size(3) take_eq_Nil zero_neq_numeral)
  then show ?thesis by (auto simp: min_def split: if_splits)
qed

lemma scan_exhausted:
  assumes scan: "evict_one_scanning e (scan_order b) w now g = (None, g')" and ok: "engine_ok e g" and b: "b < bucket_count"
    and w: "written_is_empty w" and pos: "weights_positive g"
  shows "eg_total_weight g' = 0"
proof -
  note none = evict_one_scanning_None[OF scan ok scan_order_lt]
  have "st_live (eg_stripes g c) = []" if "c < bucket_count" for c
  proof -
    have "c \<in> set (scan_order b)" using scan_order_all[OF b] that by auto
    then obtain offset where "sample_window e (eg_max_capacity g) w offset eviction_sample (st_live (eg_stripes g c)) = []"
      using none by blast
    moreover have "\<forall>l \<in> set (st_live (eg_stripes g c)). is_spill_candidate l" using pos that by (simp add: weights_positive_def)
    ultimately show ?thesis using empty_window w by blast
  qed
  then have "stripe_weight (eg_stripes g c) = 0" if "c < bucket_count" for c
    using that by (simp add: stripe_weight_def)
  then show ?thesis using none ok by (simp add: engine_ok_def)
qed

lemma evict_loop_sound:
  assumes "engine_ok e g" and "start < bucket_count" and "bucket < bucket_count"
    and "evict_loop e limit start now bucket after_scan freed w g = (deficit, freed', w', g')"
  shows "engine_ok e g' \<and> only_evicted g g' \<and> deficit = 0 \<and> (weights_positive g \<longrightarrow> eg_total_weight g' \<le> limit)"
  using assms
proof (induction e limit start now bucket after_scan freed w g rule: evict_loop.induct)
  case (1 e limit start now bucket after_scan freed w g)
  let ?cur = "sat_add (eg_total_weight g) (pending_spill_weight_or_zero g)"
  have pending: "pending_spill_weight_or_zero x = 0" for x :: "('a, 'b) engine" by (simp add: pending_spill_weight_or_zero_def)
  show ?case
  proof (cases "?cur \<le> limit")
    case True
    then show ?thesis using "1.prems" by (subst (asm) evict_loop.simps) (simp add: pending)
  next
    case over: False
    obtain batch g1 where bt: "(batch, g1) = evict_batch_sampled e bucket (?cur - limit) w after_scan now g"
      by (metis surj_pair)
    note step = evict_batch_step[OF bt[symmetric]]
    have ok1: "engine_ok e g1" using step(4) "1.prems" by blast
    have nodef: "\<not> 0 < eo_deficit batch" using step(5) by simp
    note turn = "1.prems"(4)[unfolded evict_loop.simps[of e limit start now bucket after_scan freed w g] Let_def
        if_not_P[OF over] bt[symmetric] prod.case if_not_P[OF nodef]]
    show ?thesis
    proof (cases "made_no_progress batch \<and> \<not> after_scan")
      case idle: True
      have nodefer: "\<not> defer_to_flusher (eo_refused batch) (eg_total_weight g1) (pending_spill_weight_or_zero g1) limit"
        by (simp add: defer_to_flusher_def pending)
      obtain found g2 where sc: "(found, g2) = evict_one_scanning e (scan_order bucket) w now g1" by (metis surj_pair)
      note scan = evict_one_scanning_step[OF sc[symmetric]]
      note turn = turn[unfolded if_P[OF idle] if_not_P[OF nodefer] sc[symmetric] prod.case]
      have ok2: "engine_ok e g2" by (rule scan(5)[OF ok1 scan_order_lt])
      have ev2: "only_evicted g g2" using step(1) scan(1) by (rule only_evicted_trans)
      show ?thesis
      proof (cases found)
        case None
        show ?thesis
        proof (cases "written_is_empty w")
          case True
          then have "(deficit, freed', w', g') = (0, freed + eo_removed_weight batch, w, g2)"
            using turn None by simp
          moreover have "eg_total_weight g2 \<le> limit" if "weights_positive g"
            using scan_exhausted[OF sc[symmetric, unfolded None] ok1 "1.prems"(3) True] weights_positive_evicted[OF step(1) that] by simp
          ultimately show ?thesis using ok2 ev2 by simp
        next
          case False
          then have rest: "evict_loop e limit start now start after_scan (freed + eo_removed_weight batch) (written_clear w) g2
              = (deficit, freed', w', g')"
            using turn None by simp
          show ?thesis
            using "1.IH"(1)[OF refl over bt refl nodef idle nodefer sc None False ok2 "1.prems"(2,2) rest] ev2
            by (auto intro: only_evicted_trans weights_positive_evicted)
        qed
      next
        case (Some x)
        obtain b out where x: "x = (b, out)" by (cases x)
        have out: "b < bucket_count" "\<not> made_no_progress out" "\<not> 0 < eo_deficit out"
          using scan(4)[of b out] scan_order_lt[of bucket] by (auto simp: Some x)
        have rest: "evict_loop e limit start now b True (freed + eo_removed_weight batch + eo_removed_weight out) w g2
            = (deficit, freed', w', g')"
          using turn out(2,3) by (simp add: Some x)
        show ?thesis
          using "1.IH"(2)[OF refl over bt refl nodef idle nodefer sc Some x[symmetric] out(3,2) ok2 "1.prems"(2) out(1) rest] ev2
          by (auto intro: only_evicted_trans weights_positive_evicted)
      qed
    next
      case moved: False
      obtain b' g2 where nx: "(b', g2) = next_pseudo_random_bucket g1" by (metis surj_pair)
      then obtain c where c: "g2 = g1\<lparr>eg_evict_cursor := c\<rparr>" "b' < bucket_count" using next_bucket_lt[OF nx[symmetric]] by blast
      have rest: "evict_loop e limit start now b' False (freed + eo_removed_weight batch) w g2 = (deficit, freed', w', g')"
        using turn[unfolded if_not_P[OF moved] nx[symmetric] prod.case] .
      have "engine_ok e g2" "only_evicted g g2" using ok1 step(1) by (simp_all add: c)
      then show ?thesis
        using "1.IH"(3)[OF refl over bt refl nodef moved nx _ "1.prems"(2) c(2) rest]
        by (auto intro: only_evicted_trans weights_positive_evicted)
    qed
  qed
qed

lemma enforce_capacity_sound:
  assumes "engine_ok e g" and "start < bucket_count"
    and "enforce_capacity_with_reservation e start w now g = (deficit, w', g')"
  shows "engine_ok e g'" and "only_evicted g g'" and "deficit = 0"
    and "weights_positive g \<Longrightarrow> eg_max_capacity g \<noteq> u64_max \<Longrightarrow> eg_total_weight g' \<le> eg_max_capacity g"
proof -
  have "engine_ok e g' \<and> only_evicted g g' \<and> deficit = 0 \<and>
    (weights_positive g \<longrightarrow> eg_max_capacity g \<noteq> u64_max \<longrightarrow> eg_total_weight g' \<le> eg_max_capacity g)"
  proof (cases "eg_max_capacity g = u64_max")
    case True
    then show ?thesis using assms by (simp add: enforce_capacity_with_reservation_def evict_down_to_freeing_def)
  next
    case False
    obtain d f w1 g1 where ev: "evict_loop e (eg_max_capacity g) start now start False 0 w g = (d, f, w1, g1)" by (metis prod_cases4)
    then have "deficit = d" "g' = g1"
      using assms(3) False by (simp_all add: enforce_capacity_with_reservation_def evict_down_to_freeing_def)
    then show ?thesis using evict_loop_sound[OF assms(1,2,2) ev] by simp
  qed
  then show "engine_ok e g'" "only_evicted g g'" "deficit = 0"
    "weights_positive g \<Longrightarrow> eg_max_capacity g \<noteq> u64_max \<Longrightarrow> eg_total_weight g' \<le> eg_max_capacity g"
    by blast+
qed

end
