(* ===== verification/Engine_Batch.thy ===== *)
theory Engine_Batch
  imports Prefold Engine_Evict
begin

text \<open>
  Batches of writes (\<open>Engine::apply_many_in\<close> and \<open>apply_if_current\<close> of
  \<^verbatim>\<open>engine/apply.rs\<close>): the pre-fold, the loop over the slots under the stripe lock, and the
  eviction that follows a batch that stored something. They keep the engine invariant, and leave the
  total weight within the capacity.
\<close>

section \<open>One write on the engine\<close>

definition run_apply ::
  "externs \<Rightarrow> (bytes \<Rightarrow> 'v option) \<Rightarrow> ('k, 'v) apply_ctx \<Rightarrow> nat \<Rightarrow> ('k, 'v) batch_entry
     \<Rightarrow> ('k, 'v) engine \<times> u64 \<Rightarrow> ('k, 'v) apply_outcome \<times> ('k, 'v) engine \<times> u64" where
  "run_apply e dec ctx bucket en gi =
     (let (g, ignored) = gi; (entry, ver, incoming) = en;
          slot = digest_slot bucket (part_index_from_hash (ek_hash entry))
      in case apply_locked e dec ctx entry ver incoming
                (eg_stripes g bucket,
                 \<lparr>cl_digest = eg_digest g slot, cl_weight = eg_total_weight g, cl_live = eg_live_count g,
                  cl_ignored = ignored\<rparr>) of
           (out, s', c') \<Rightarrow>
             (out,
              g\<lparr>eg_stripes := (eg_stripes g)(bucket := s'), eg_digest := (eg_digest g)(slot := cl_digest c'),
                eg_total_weight := cl_weight c', eg_live_count := cl_live c'\<rparr>,
              cl_ignored c'))"

section \<open>The batch\<close>

fun apply_slots ::
  "externs \<Rightarrow> (bytes \<Rightarrow> 'v option) \<Rightarrow> ('k, 'v) apply_ctx \<Rightarrow> nat \<Rightarrow> ('k, 'v) slot list
     \<Rightarrow> ('k, 'v) engine \<times> u64 \<times> written \<times> bool \<Rightarrow> ('k, 'v) apply_outcome list \<times> ('k, 'v) engine \<times> u64 \<times> written \<times> bool" where
  "apply_slots e dec ctx bucket [] st = ([], st)"
| "apply_slots e dec ctx bucket (sl # slots) (g, ignored, w, wrote) =
     (case into_entry sl of
        Inl out \<Rightarrow> (case apply_slots e dec ctx bucket slots (g, ignored, w, wrote) of (outs, st) \<Rightarrow> (out # outs, st))
      | Inr en \<Rightarrow>
          (case run_apply e dec ctx bucket en (g, ignored) of (out, g', ignored') \<Rightarrow>
             let w' = (if is_out_put out \<and> eg_max_capacity g \<noteq> u64_max then written_insert (ek_hash (fst en)) w else w)
             in case apply_slots e dec ctx bucket slots (g', ignored', w', wrote \<or> is_out_put out) of
                  (outs, st) \<Rightarrow> (out # outs, st)))"

definition prefold_slots ::
  "externs \<Rightarrow> (bytes \<Rightarrow> 'v option) \<Rightarrow> nat \<Rightarrow> ('k, 'v) batch_entry list \<Rightarrow> conflict_resolver \<Rightarrow> merge_cap option \<Rightarrow> u64
     \<Rightarrow> ('k, 'v) engine \<Rightarrow> ('k, 'v) slot list" where
  "prefold_slots e dec bucket entries r cap now_ms g =
     (let runs = group_prefold_runs entries;
          seeds = peek_prefold_seeds e (eg_stripes g bucket) entries runs (eg_tti_ms g) now_ms
      in prefold_batch e dec entries runs r cap seeds now_ms)"

definition batch_ctx ::
  "('k, 'v) engine \<Rightarrow> conflict_resolver \<Rightarrow> merge_cap option \<Rightarrow> u64 \<Rightarrow> u64 \<Rightarrow> u64 \<Rightarrow> bool \<Rightarrow> bool \<Rightarrow> ('k, 'v) apply_ctx" where
  "batch_ctx g r cap ttl_ms max_ttl_ms now_ms from_peer held_only =
     \<lparr>ac_weigher = eg_weigher g, ac_tti_ms = eg_tti_ms g, ac_resolver = r, ac_merge_cap = cap, ac_ttl_ms = ttl_ms,
      ac_max_ttl_ms = max_ttl_ms, ac_deferring = deferring_at g now_ms ttl_ms, ac_now_ms = now_ms,
      ac_from_peer = from_peer, ac_held_only = held_only\<rparr>"

definition apply_many_in ::
  "externs \<Rightarrow> (bytes \<Rightarrow> 'v option) \<Rightarrow> apply_scope \<Rightarrow> arrival \<Rightarrow> nat \<Rightarrow> ('k, 'v) batch_entry list \<Rightarrow> conflict_resolver
     \<Rightarrow> u64 \<Rightarrow> u64 \<Rightarrow> u64 \<Rightarrow> written \<Rightarrow> ('k, 'v) engine
     \<Rightarrow> ('k, 'v) apply_outcome list \<times> u64 \<times> written \<times> ('k, 'v) engine" where
  "apply_many_in e dec scope arrival bucket entries r ttl_ms max_ttl_ms now_ms w g =
     (let held_only = (scope = HeldOnly);
          merge_cap = (if cr_merges r then engine_merge_cap g else None);
          ctx = batch_ctx g r merge_cap ttl_ms max_ttl_ms now_ms (is_peer arrival) held_only;
          prefold = (cr_merges r \<and> \<not> held_only \<and> eg_prefold_enabled g);
          slots = (if prefold then prefold_slots e dec bucket entries r merge_cap now_ms g else map Apply entries)
      in case apply_slots e dec ctx bucket slots (g, 0, w, False) of
           (outcomes, g, ignored, w, wrote) \<Rightarrow>
             let w = w\<lparr>wt_ignored := wt_ignored w + ignored\<rparr>
             in if wrote
                then (case enforce_capacity_with_reservation e bucket w now_ms g of
                        (deficit, w, g) \<Rightarrow> (outcomes, deficit, w, g))
                else (outcomes, 0, w, g))"

definition apply_many ::
  "externs \<Rightarrow> (bytes \<Rightarrow> 'v option) \<Rightarrow> arrival \<Rightarrow> nat \<Rightarrow> ('k, 'v) batch_entry list \<Rightarrow> conflict_resolver
     \<Rightarrow> u64 \<Rightarrow> u64 \<Rightarrow> u64 \<Rightarrow> ('k, 'v) engine \<Rightarrow> ('k, 'v) apply_outcome list \<times> ('k, 'v) engine" where
  "apply_many e dec arrival bucket entries r ttl_ms max_ttl_ms now_ms g =
     (case apply_many_in e dec Any arrival bucket entries r ttl_ms max_ttl_ms now_ms written_default g of
        (outcomes, _, _, g) \<Rightarrow> (outcomes, g))"

definition apply_if_current ::
  "externs \<Rightarrow> (bytes \<Rightarrow> 'v option) \<Rightarrow> ('k, 'v) batch_entry \<Rightarrow> hlc \<Rightarrow> conflict_resolver \<Rightarrow> u64 \<Rightarrow> u64 \<Rightarrow> u64
     \<Rightarrow> ('k, 'v) engine \<Rightarrow> ('k, 'v) apply_outcome option \<times> ('k, 'v) engine" where
  "apply_if_current e dec en expected r ttl_ms max_ttl_ms now_ms g =
     (let hash = ek_hash (fst en); key_bytes = ek_bytes (fst en); bucket = stripe_index_from_hash hash;
          s = eg_stripes g bucket
      in case arena_find e key_bytes (st_live s) of
           None \<Rightarrow> (None, g)
         | Some l \<Rightarrow>
             if live_ver l \<noteq> expected \<or> is_absent g l key_bytes (st_long_ttl s) now_ms then (None, g)
             else
               let ctx = batch_ctx g r (engine_merge_cap g) ttl_ms max_ttl_ms now_ms False False
               in case run_apply e dec ctx bucket en (g, 0) of
                    (out, g, _) \<Rightarrow>
                      if is_out_put out
                      then (Some out, snd (enforce_capacity e bucket (written_of hash) now_ms g))
                      else (Some out, g))"

section \<open>The invariant\<close>

definition weigh :: "('k, 'v) apply_ctx \<Rightarrow> 'k \<Rightarrow> 'v \<Rightarrow> u32" where
  "weigh ctx key v = (case ac_weigher ctx of None \<Rightarrow> 1 | Some w \<Rightarrow> w key v)"

lemma remove_live_subset: "remove_live e k s = Some (r, s') \<Longrightarrow> set (st_live s') \<subseteq> set (st_live s)"
  by (auto dest!: remove_live_shrinks(1) simp: stripe_evicted_def)

lemma apply_put_live:
  assumes "apply_put e ctx entry ver v x enc had vis (s, c) = (out, s', c')"
  shows "set (st_live s') \<subseteq> set (st_live s) \<union> {l. lv_weight l = weigh ctx (ek_key entry) v}"
proof -
  obtain ow s1 where out: "(case (if had then remove_live e (ek_bytes entry) s else None) of
      Some (r, s') \<Rightarrow> (Some (rl_weight r), s') | None \<Rightarrow> (None, s)) = (ow, s1)" by fastforce
  have sub: "set (st_live s1) \<subseteq> set (st_live s)"
  proof (cases "if had then remove_live e (ek_bytes entry) s else None")
    case (Some rs)
    then show ?thesis
      using out remove_live_subset[of e "ek_bytes entry" s "fst rs" "snd rs"] by (cases rs) (auto split: if_splits)
  qed (use out in simp)
  have "\<exists>l. st_live s' = arena_insert l (st_live s1) \<and> lv_weight l = weigh ctx (ek_key entry) v"
    using assms unfolding apply_put_def Let_def prod.case out
    by (auto simp: weigh_def live_new_def split: prod.splits)
  then show ?thesis using sub by (auto simp: arena_insert_def)
qed

lemma apply_tombstone_live:
  assumes "apply_tombstone e entry t had (s, c) = (out, s', c')"
  shows "set (st_live s') \<subseteq> set (st_live s)"
  using assms remove_live_subset[of e "ek_bytes entry" s]
  by (auto simp: apply_tombstone_def Let_def split: prod.splits option.splits if_splits)

lemma apply_winner_live:
  assumes "apply_winner e ctx entry dl prior stored sv ver incoming (s, c) = (out, s', c')"
  shows "set (st_live s') \<subseteq> set (st_live s) \<union> {l. \<exists>key v. lv_weight l = weigh ctx key v}"
proof -
  obtain s2 c2 where sw: "swap_fingerprint e (ek_bytes entry) ver prior sv (s, c) = (s2, c2)" by fastforce
  then have live: "st_live s2 = st_live s" by (auto simp: swap_fingerprint_def split: option.splits)
  show ?thesis
  proof (cases incoming)
    case (Put v x enc)
    then have "apply_put e ctx entry ver v x enc (prior = None \<and> sv \<noteq> None) (is_some_and sv_visible stored) (s2, c2) = (out, s', c')"
      using assms by (simp add: apply_winner_def sw Let_def)
    from apply_put_live[OF this] live show ?thesis by auto
  next
    case (Tombstone x)
    then obtain t where "apply_tombstone e entry t (prior = None \<and> sv \<noteq> None) (s2, c2) = (out, s', c')"
      using assms by (auto simp: apply_winner_def sw Let_def split: option.splits prod.splits)
    from apply_tombstone_live[OF this] live show ?thesis by auto
  qed
qed

lemma apply_locked_live:
  assumes "apply_locked e dec ctx entry ver incoming (s, c) = (out, s', c')"
  shows "set (st_live s') \<subseteq> set (st_live s) \<union> {l. \<exists>key v. lv_weight l = weigh ctx key v}"
  using assms
proof (cases rule: apply_locked_cases)
  case (stored prior st new_ver new_incoming)
  then show ?thesis by (intro apply_winner_live)
qed auto

definition weigher_positive :: "('k \<Rightarrow> 'v \<Rightarrow> u32) option \<Rightarrow> bool" where
  "weigher_positive w \<longleftrightarrow> is_none_or (\<lambda>f. \<forall>key v. 0 < f key v) w"

text \<open>The invariant of every reachable engine: exact counters, and evictable entries under a positive weigher.\<close>

definition engine_inv :: "externs \<Rightarrow> ('k, 'v) engine \<Rightarrow> bool" where
  "engine_inv e g \<longleftrightarrow> engine_ok e g \<and> (weigher_positive (eg_weigher g) \<longrightarrow> weights_positive g)"

lemma engine_inv_evicted: "engine_inv e g \<Longrightarrow> engine_ok e g' \<Longrightarrow> only_evicted g g' \<Longrightarrow> engine_inv e g'"
  using weights_positive_evicted[of g g'] settings_eq[of g' g] by (auto simp: engine_inv_def only_evicted_def)

lemma run_apply_ok:
  assumes inv: "engine_inv e g" and b: "b < bucket_count" and en: "entry_ok e b (fst en)"
    and w: "ac_weigher ctx = eg_weigher g"
    and run: "run_apply e dec ctx b en (g, ign) = (out, g', ign')"
  shows "engine_inv e g'" and "settings g' = settings g"
    and "c \<noteq> b \<Longrightarrow> eg_stripes g' c = eg_stripes g c"
proof -
  have ok: "engine_ok e g" using inv by (simp add: engine_inv_def)
  obtain entry ver incoming where en': "en = (entry, ver, incoming)" by (cases en)
  let ?slot = "digest_slot b (key_part e (ek_bytes entry))"
  let ?c = "\<lparr>cl_digest = eg_digest g ?slot, cl_weight = eg_total_weight g, cl_live = eg_live_count g, cl_ignored = ign\<rparr>"
  have part: "part_index_from_hash (ek_hash entry) = key_part e (ek_bytes entry)"
    using en by (simp add: en' entry_ok_def key_part_def)
  obtain s' c' where ap: "apply_locked e dec ctx entry ver incoming (eg_stripes g b, ?c) = (out, s', c')"
    and g': "g' = g\<lparr>eg_stripes := (eg_stripes g)(b := s'), eg_digest := (eg_digest g)(?slot := cl_digest c'),
        eg_total_weight := cl_weight c', eg_live_count := cl_live c'\<rparr>"
    using run by (auto simp: run_apply_def en' part Let_def split: prod.splits)
  have sok: "stripe_ok e b (eg_stripes g b)" using ok b by (simp add: engine_ok_def)
  have entry: "entry_ok e b entry" using en by (simp add: en')
  note exact = apply_locked_exact[OF sok entry ap]
  have ok': "engine_ok e g'"
    using exact(2) by (intro engine_ok_balanced[OF ok b key_part_lt exact(1)]) (simp_all add: g')
  show "settings g' = settings g" by (simp add: g')
  show "eg_stripes g' c = eg_stripes g c" if "c \<noteq> b" using that by (simp add: g')
  have "weights_positive g'" if pos: "weigher_positive (eg_weigher g)"
  proof -
    have wp: "weights_positive g" using inv pos by (simp add: engine_inv_def)
    have "0 < weigh ctx key v" for key v
      using pos w by (cases "eg_weigher g") (simp_all add: weigh_def weigher_positive_def)
    then have "is_spill_candidate l" if "l \<in> set (st_live s')" for l
      using apply_locked_live[OF ap] that wp b by (auto simp: is_spill_candidate_def weights_positive_def)
    then show ?thesis using wp by (simp add: weights_positive_def g')
  qed
  then show "engine_inv e g'" using ok' by (simp add: engine_inv_def g')
qed

lemma batch_ctx_weigher [simp]: "ac_weigher (batch_ctx g r cap ttl mttl now peer ho) = eg_weigher g"
  by (simp add: batch_ctx_def)

lemma apply_slots_ok:
  assumes "apply_slots e dec ctx b slots (g, ign, w, wrote) = (outs, g', ign', w', wrote')"
    and "engine_inv e g" and "b < bucket_count" and "ac_weigher ctx = eg_weigher g"
    and "\<forall>sl \<in> set slots. is_none_or (\<lambda>en. entry_ok e b (fst en)) (slot_entry sl)"
  shows "engine_inv e g'" and "settings g' = settings g" and "\<And>c. c \<noteq> b \<Longrightarrow> eg_stripes g' c = eg_stripes g c"
    and "wrote' \<longleftrightarrow> wrote \<or> (\<exists>out \<in> set outs. is_out_put out)" and "length outs = length slots"
proof -
  have "engine_inv e g' \<and> settings g' = settings g \<and> (\<forall>c. c \<noteq> b \<longrightarrow> eg_stripes g' c = eg_stripes g c) \<and>
    (wrote' \<longleftrightarrow> wrote \<or> (\<exists>out \<in> set outs. is_out_put out)) \<and> length outs = length slots"
    using assms
  proof (induction slots arbitrary: g ign w wrote outs)
    case (Cons sl slots)
    show ?case
    proof (cases sl)
      case (Apply en)
      obtain out g1 ign1 where run: "run_apply e dec ctx b en (g, ign) = (out, g1, ign1)" by (metis prod_cases3)
      have en: "entry_ok e b (fst en)" using Cons.prems(5) Apply by simp
      note step = run_apply_ok[OF Cons.prems(2,3) en Cons.prems(4) run]
      obtain outs1 w1 where rest: "apply_slots e dec ctx b slots (g1, ign1, w1, wrote \<or> is_out_put out) = (outs1, g', ign', w', wrote')"
        and outs: "outs = out # outs1"
        using Cons.prems(1) Apply by (auto simp: run Let_def split: prod.splits)
      have "ac_weigher ctx = eg_weigher g1" using step(2) settings_eq[of g1 g] Cons.prems(4) by simp
      from Cons.IH[OF rest step(1) Cons.prems(3) this] Cons.prems(5) step show ?thesis by (auto simp: outs)
    next
      case Absorbed
      then obtain outs1 where rest: "apply_slots e dec ctx b slots (g, ign, w, wrote) = (outs1, g', ign', w', wrote')"
        and outs: "outs = Rejected # outs1"
        using Cons.prems(1) by (auto split: prod.splits)
      from Cons.IH[OF rest Cons.prems(2-4)] Cons.prems(5) show ?thesis by (auto simp: outs)
    next
      case (Refused k n)
      then obtain outs1 where rest: "apply_slots e dec ctx b slots (g, ign, w, wrote) = (outs1, g', ign', w', wrote')"
        and outs: "outs = Out_TooLarge k n # outs1"
        using Cons.prems(1) by (auto split: prod.splits)
      from Cons.IH[OF rest Cons.prems(2-4)] Cons.prems(5) show ?thesis by (auto simp: outs)
    qed
  qed simp
  then show "engine_inv e g'" "settings g' = settings g" "\<And>c. c \<noteq> b \<Longrightarrow> eg_stripes g' c = eg_stripes g c"
    "wrote' \<longleftrightarrow> wrote \<or> (\<exists>out \<in> set outs. is_out_put out)" "length outs = length slots"
    by blast+
qed

lemma batch_slots_ok:
  assumes "\<forall>en \<in> set entries. entry_ok e b (fst en)"
    and "slots = (if prefold then prefold_slots e dec b' entries r cap now g else map Apply entries)"
  shows "\<forall>sl \<in> set slots. is_none_or (\<lambda>en. entry_ok e b (fst en)) (slot_entry sl)" and "length slots = length entries"
proof -
  have kept: "slot_keys_kept entries slots"
    using assms(2) by (cases prefold) (simp_all add: prefold_slots_def prefold_batch_keys Let_def slot_keys_kept_def[of _ "map _ _"])
  then show "length slots = length entries" by (simp add: slot_keys_kept_def)
  show "\<forall>sl \<in> set slots. is_none_or (\<lambda>en. entry_ok e b (fst en)) (slot_entry sl)"
  proof
    fix sl assume "sl \<in> set slots"
    then obtain i where i: "i < length entries" "slots ! i = sl" using kept by (auto simp: in_set_conv_nth slot_keys_kept_def)
    then have "keeps_key (entries ! i) sl" "entry_ok e b (fst (entries ! i))" using kept assms(1) by (auto simp: slot_keys_kept_def)
    then show "is_none_or (\<lambda>en. entry_ok e b (fst en)) (slot_entry sl)" by (cases "slot_entry sl") (simp_all add: keeps_key_def)
  qed
qed

lemma apply_many_in_sound:
  assumes inv: "engine_inv e g" and b: "b < bucket_count" and entries: "\<forall>en \<in> set entries. entry_ok e b (fst en)"
    and run: "apply_many_in e dec scope arr b entries r ttl max_ttl now w g = (outs, deficit, w', g')"
  shows "engine_inv e g'" and "settings g' = settings g" and "deficit = 0" and "length outs = length entries"
    and "weigher_positive (eg_weigher g) \<Longrightarrow> eg_max_capacity g \<noteq> u64_max \<Longrightarrow> out \<in> set outs \<Longrightarrow> is_out_put out \<Longrightarrow>
      eg_total_weight g' \<le> eg_max_capacity g"
proof -
  define cap where "cap = (if cr_merges r then engine_merge_cap g else None)"
  define ctx where "ctx = batch_ctx g r cap ttl max_ttl now (is_peer arr) (scope = HeldOnly)"
  define slots where "slots = (if cr_merges r \<and> scope \<noteq> HeldOnly \<and> eg_prefold_enabled g
    then prefold_slots e dec b entries r cap now g else map Apply entries)"
  note slots_ok = batch_slots_ok[OF entries slots_def]
  obtain g1 ign w1 wrote where sl: "apply_slots e dec ctx b slots (g, 0, w, False) = (outs, g1, ign, w1, wrote)"
    and rest: "(if wrote
      then (case enforce_capacity_with_reservation e b (w1\<lparr>wt_ignored := wt_ignored w1 + ign\<rparr>) now g1 of
              (deficit, w, g) \<Rightarrow> (outs, deficit, w, g))
      else (outs, 0, w1\<lparr>wt_ignored := wt_ignored w1 + ign\<rparr>, g1)) = (outs, deficit, w', g')"
  proof -
    obtain o1 g1 ign w1 wrote where sl: "apply_slots e dec ctx b slots (g, 0, w, False) = (o1, g1, ign, w1, wrote)"
      by (metis prod_cases5)
    have "(if wrote
      then (case enforce_capacity_with_reservation e b (w1\<lparr>wt_ignored := wt_ignored w1 + ign\<rparr>) now g1 of
              (deficit, w, g) \<Rightarrow> (o1, deficit, w, g))
      else (o1, 0, w1\<lparr>wt_ignored := wt_ignored w1 + ign\<rparr>, g1)) = (outs, deficit, w', g')"
      using run unfolding apply_many_in_def Let_def cap_def[symmetric] ctx_def[symmetric] slots_def[symmetric] sl prod.case .
    moreover from this have "o1 = outs" by (auto split: if_splits prod.splits)
    ultimately show thesis using that[of g1 ign w1 wrote] sl by (simp only:)
  qed
  have cw: "ac_weigher ctx = eg_weigher g" by (simp add: ctx_def)
  note applied = apply_slots_ok[OF sl inv b cw slots_ok(1)]
  have ok1: "engine_ok e g1" using applied(1) by (simp add: engine_inv_def)
  have "engine_inv e g' \<and> settings g' = settings g \<and> deficit = 0 \<and>
    (weigher_positive (eg_weigher g) \<longrightarrow> eg_max_capacity g \<noteq> u64_max \<longrightarrow> wrote \<longrightarrow> eg_total_weight g' \<le> eg_max_capacity g)"
  proof (cases wrote)
    case True
    then have enf: "enforce_capacity_with_reservation e b (w1\<lparr>wt_ignored := wt_ignored w1 + ign\<rparr>) now g1 = (deficit, w', g')"
      using rest by (auto split: prod.splits)
    note bound = enforce_capacity_sound[OF ok1 b enf]
    have "engine_inv e g'" by (rule engine_inv_evicted[OF applied(1) bound(1,2)])
    moreover have "settings g' = settings g" using bound(2) applied(2) by (simp add: only_evicted_def)
    moreover have "eg_max_capacity g1 = eg_max_capacity g" "eg_weigher g1 = eg_weigher g" using settings_eq[OF applied(2)] by simp_all
    moreover have "weigher_positive (eg_weigher g1) \<Longrightarrow> weights_positive g1" using applied(1) by (simp add: engine_inv_def)
    ultimately show ?thesis using bound(3,4) by simp
  next
    case False
    then show ?thesis using rest applied by simp
  qed
  then show "engine_inv e g'" "settings g' = settings g" "deficit = 0" "length outs = length entries"
    "weigher_positive (eg_weigher g) \<Longrightarrow> eg_max_capacity g \<noteq> u64_max \<Longrightarrow> out \<in> set outs \<Longrightarrow> is_out_put out \<Longrightarrow>
      eg_total_weight g' \<le> eg_max_capacity g"
    using applied(4,5) slots_ok(2) by auto
qed

lemma apply_if_current_ok:
  assumes inv: "engine_inv e g" and en: "entry_ok e (stripe_index_from_hash (ek_hash (fst en))) (fst en)"
    and run: "apply_if_current e dec en expected r ttl max_ttl now g = (out, g')"
  shows "engine_inv e g'" and "settings g' = settings g"
proof -
  define b where "b = stripe_index_from_hash (ek_hash (fst en))"
  have b: "b < bucket_count" by (simp add: b_def)
  define ctx where "ctx = batch_ctx g r (engine_merge_cap g) ttl max_ttl now False False"
  obtain o1 g1 ign where r1: "run_apply e dec ctx b en (g, 0) = (o1, g1, ign)" by (metis prod_cases3)
  have cw: "ac_weigher ctx = eg_weigher g" by (simp add: ctx_def)
  note step = run_apply_ok[OF inv b en[folded b_def] cw r1]
  obtain w2 g2 where enf: "enforce_capacity e b (written_of (ek_hash (fst en))) now g1 = (w2, g2)" by fastforce
  then obtain d where "enforce_capacity_with_reservation e b (written_of (ek_hash (fst en))) now g1 = (d, w2, g2)"
    by (metis enforce_capacity_def prod.collapse)
  note bound = enforce_capacity_sound[OF _ b this]
  have cases: "g' = g \<or> g' = g1 \<or> g' = g2"
    using run unfolding apply_if_current_def Let_def b_def[symmetric] ctx_def[symmetric] r1
    by (auto simp: enf split: option.splits if_splits)
  have "engine_ok e g1" using step(1) by (simp add: engine_inv_def)
  then have "engine_inv e g2" "settings g2 = settings g"
    using engine_inv_evicted[OF step(1)] bound(1,2) step(2) by (auto simp: only_evicted_def)
  then show "engine_inv e g'" "settings g' = settings g" using cases step(1,2) inv by auto
qed

end
