(* ===== verification/Part.thy ===== *)
theory Part
  imports Live_Entry
begin

text \<open>
  Parts (\<^verbatim>\<open>store/part.rs\<close>): the 16-bit part id, the bit set of parts and the mask of one
  bucket's parts. The bit set is shown to implement a set: the laws are the locale \<open>set_impl\<close>,
  whose client lemmas carry the callers that collect parts, and the loop of \<open>iter\<close> over each
  word's lowest set bit lists the members in order.
\<close>

unbundle bit_operations_syntax

section \<open>Part ids\<close>

definition part_space :: nat where
  "part_space = bucket_count * part_count"

datatype part_id = Part_Id (part_raw: u16)

record bucket_part =
  bp_bucket :: u16
  bp_part :: u8

definition part_from_hash :: "u64 \<Rightarrow> part_id" where
  "part_from_hash hash = Part_Id (ucast (hash AND 0xFFFF))"

definition part_of_key :: "externs \<Rightarrow> bytes \<Rightarrow> part_id" where
  "part_of_key e key_bytes = part_from_hash (hash_key_bytes e key_bytes)"

definition part_new :: "u16 \<Rightarrow> u8 \<Rightarrow> part_id" where
  "part_new bucket part = Part_Id ((bucket AND 0x3FF) OR push_bit 10 (ucast (part AND 0x3F)))"

definition part_from_index :: "nat \<Rightarrow> part_id" where
  "part_from_index index = Part_Id (of_nat (index AND 0xFFFF))"

definition part_bucket :: "part_id \<Rightarrow> u16" where
  "part_bucket p = part_raw p AND 0x3FF"

definition part_part :: "part_id \<Rightarrow> u8" where
  "part_part p = ucast (drop_bit 10 (part_raw p))"

definition part_index :: "part_id \<Rightarrow> nat" where
  "part_index p = unat (part_raw p)"

definition part_bucket_part :: "part_id \<Rightarrow> bucket_part" where
  "part_bucket_part p = \<lparr>bp_bucket = part_bucket p, bp_part = part_part p\<rparr>"

definition part_of_bucket_part :: "bucket_part \<Rightarrow> part_id" where
  "part_of_bucket_part bp = part_new (bp_bucket bp) (bp_part bp)"

definition part_all :: "part_id list" where
  "part_all = map part_from_index [0..<part_space]"

definition part_of_bucket :: "u16 \<Rightarrow> part_id list" where
  "part_of_bucket bucket = map (\<lambda>part. part_new bucket (of_nat part)) [0..<part_count]"

definition part_display :: "part_id \<Rightarrow> string" where
  "part_display p = show_dec (unat (part_bucket p)) @ ''.'' @ show_dec (unat (part_part p))"

section \<open>The bit set\<close>

record part_set =
  ps_bits :: "u64 list"
  ps_len :: nat

definition part_set_new :: part_set where
  "part_set_new = \<lparr>ps_bits = replicate (part_space div 64) 0, ps_len = 0\<rparr>"

definition part_set_slot :: "part_id \<Rightarrow> nat \<times> u64" where
  "part_set_slot p = (part_index p div 64, push_bit (part_index p mod 64) 1)"

definition part_set_insert :: "part_id \<Rightarrow> part_set \<Rightarrow> bool \<times> part_set" where
  "part_set_insert p ps =
     (let (word, b) = part_set_slot p; fresh = (ps_bits ps ! word AND b = 0)
      in (fresh, if fresh
                 then ps\<lparr>ps_bits := (ps_bits ps)[word := ps_bits ps ! word OR b], ps_len := ps_len ps + 1\<rparr>
                 else ps))"

definition part_set_remove :: "part_id \<Rightarrow> part_set \<Rightarrow> bool \<times> part_set" where
  "part_set_remove p ps =
     (let (word, b) = part_set_slot p; present = (ps_bits ps ! word AND b \<noteq> 0)
      in (present, if present
                   then ps\<lparr>ps_bits := (ps_bits ps)[word := ps_bits ps ! word AND NOT b], ps_len := ps_len ps - 1\<rparr>
                   else ps))"

definition part_set_contains :: "part_set \<Rightarrow> part_id \<Rightarrow> bool" where
  "part_set_contains ps p = (let (word, b) = part_set_slot p in ps_bits ps ! word AND b \<noteq> 0)"

definition part_set_is_empty :: "part_set \<Rightarrow> bool" where
  "part_set_is_empty ps \<longleftrightarrow> ps_len ps = 0"

definition part_set_clear :: "part_set \<Rightarrow> part_set" where
  "part_set_clear ps = ps\<lparr>ps_bits := map (\<lambda>_. 0) (ps_bits ps), ps_len := 0\<rparr>"

definition trailing_zeros :: "u64 \<Rightarrow> nat" where
  "trailing_zeros w = length (takeWhile (\<lambda>n. \<not> bit w n) [0..<64])"

lemma and_dec_less: "w \<noteq> 0 \<Longrightarrow> unat (w AND (w - 1)) < unat w" for w :: u64
proof -
  assume "w \<noteq> 0"
  have "unat (w AND (w - 1)) \<le> unat (w - 1)" by (simp add: word_and_le1 flip: word_le_nat_alt)
  also have "\<dots> < unat w" using \<open>w \<noteq> 0\<close> by (metis measure_unat)
  finally show ?thesis .
qed

text \<open>The closure \<open>iter\<close> unrolls: the lowest set bit of the rest, then the rest without it.\<close>

function word_bits :: "u64 \<Rightarrow> nat list" where
  "word_bits rest = (if rest = 0 then [] else trailing_zeros rest # word_bits (rest AND (rest - 1)))"
  by auto

termination
  by (relation "measure unat") (simp_all add: and_dec_less)

declare word_bits.simps [simp del]

definition part_set_iter :: "part_set \<Rightarrow> part_id list" where
  "part_set_iter ps =
     concat (map (\<lambda>(word_idx, word). map (\<lambda>b. part_from_index (word_idx * 64 + b)) (word_bits word))
               (enumerate 0 (ps_bits ps)))"

definition part_set_extend :: "part_id list \<Rightarrow> part_set \<Rightarrow> part_set" where
  "part_set_extend ps s = fold (\<lambda>p s. snd (part_set_insert p s)) ps s"

definition part_set_from_iter :: "part_id list \<Rightarrow> part_set" where
  "part_set_from_iter ps = part_set_extend ps part_set_new"

section \<open>Masks of one bucket's parts\<close>

datatype part_mask = Part_Mask (mask_bits: u64)

definition mask_all :: part_mask where
  "mask_all = Part_Mask (- 1)"

definition mask_default :: part_mask where
  "mask_default = Part_Mask 0"

definition mask_insert :: "u8 \<Rightarrow> part_mask \<Rightarrow> part_mask" where
  "mask_insert part m = (if unat part < 64 then Part_Mask (mask_bits m OR push_bit (unat part) 1) else m)"

definition mask_contains :: "part_mask \<Rightarrow> u8 \<Rightarrow> bool" where
  "mask_contains m part \<longleftrightarrow> unat part < 64 \<and> drop_bit (unat part) (mask_bits m) AND 1 = 1"

definition mask_parts :: "part_mask \<Rightarrow> u8 list" where
  "mask_parts m = filter (mask_contains m) (map of_nat [0..<part_count])"

definition mask_fold :: "part_mask \<Rightarrow> u64 list \<Rightarrow> u64" where
  "mask_fold m part_digests =
     foldl (XOR) 0 (List.map_filter (\<lambda>part. if unat part < length part_digests then Some (part_digests ! unat part) else None)
                      (mask_parts m))"

definition mask_from_iter :: "u8 list \<Rightarrow> part_mask" where
  "mask_from_iter ps = fold mask_insert ps mask_default"

section \<open>Ids name their bucket and part\<close>

lemma part_eq_iff: "p = q \<longleftrightarrow> part_raw p = part_raw q"
  by (cases p, cases q) simp

lemma bit_and_small: "bit (x AND 0x3FF) n \<longleftrightarrow> bit x n \<and> n < 10" "bit (x AND 0x3F) n \<longleftrightarrow> bit x n \<and> n < 6"
  "bit (x AND 0xFFFF) n \<longleftrightarrow> bit x n \<and> n < 16" for x :: "'a::len word"
proof -
  have m: "(0x3FF :: 'a word) = mask 10" "(0x3F :: 'a word) = mask 6" "(0xFFFF :: 'a word) = mask 16"
    by (simp_all add: mask_eq_exp_minus_1)
  show "bit (x AND 0x3FF) n \<longleftrightarrow> bit x n \<and> n < 10" "bit (x AND 0x3F) n \<longleftrightarrow> bit x n \<and> n < 6"
    "bit (x AND 0xFFFF) n \<longleftrightarrow> bit x n \<and> n < 16"
    unfolding m by (auto simp only: bit_and_iff bit_mask_iff possible_bit_word dest: bit_imp_le_length)
qed

lemmas part_bits = bit_and_small bit_or_iff bit_push_bit_iff bit_drop_bit_eq bit_unsigned_iff

lemma part_new_split: "part_new (part_bucket p) (part_part p) = p"
  unfolding part_eq_iff part_new_def part_bucket_def part_part_def
  by (rule bit_word_eqI) (auto simp: part_bits)

lemma part_bucket_new: "part_bucket (part_new b q) = b AND 0x3FF"
  unfolding part_new_def part_bucket_def by (rule bit_word_eqI) (auto simp: part_bits)

lemma part_part_new: "part_part (part_new b q) = q AND 0x3F"
  unfolding part_new_def part_part_def by (rule bit_word_eqI) (auto simp: part_bits dest: bit_imp_le_length)

lemma unat_ucast_ge: "LENGTH('a) \<le> LENGTH('b) \<Longrightarrow> unat (ucast (x :: 'a::len word) :: 'b::len word) = unat x"
  by (simp add: unsigned_ucast_eq take_bit_nat_eq_self_iff order_less_le_trans[OF unsigned_less])

lemma part_bucket_from_hash: "unat (part_bucket (part_from_hash h)) = stripe_index_from_hash h"
proof -
  have "ucast (part_bucket (part_from_hash h)) = h AND 0x3FF"
    unfolding part_bucket_def part_from_hash_def by (rule bit_word_eqI) (auto simp: part_bits)
  then have "unat (ucast (part_bucket (part_from_hash h)) :: u64) = unat (h AND 0x3FF)" by simp
  then show ?thesis by (simp add: stripe_index_from_hash_def bucket_count_def unat_ucast_ge)
qed

lemma part_part_from_hash: "unat (part_part (part_from_hash h)) = part_index_from_hash h"
proof -
  have "ucast (part_part (part_from_hash h)) = drop_bit 10 h AND 0x3F"
    unfolding part_part_def part_from_hash_def by (rule bit_word_eqI) (auto simp: part_bits)
  then have "unat (ucast (part_part (part_from_hash h)) :: u64) = unat (drop_bit 10 h AND 0x3F)" by simp
  then show ?thesis by (simp add: part_index_from_hash_def unat_ucast_ge)
qed

lemma part_index_bound: "part_index p < part_space"
  using unsigned_less[of "part_raw p"] by (simp add: part_index_def part_space_def bucket_count_def part_count_def)

lemma nat_and_16: "n < 65536 \<Longrightarrow> n AND 0xFFFF = n" for n :: nat
  using take_bit_eq_mask[of 16 n] by (simp add: mask_eq_exp_minus_1 take_bit_nat_eq_self)

lemma part_index_from_index: "n < part_space \<Longrightarrow> part_index (part_from_index n) = n"
  by (simp add: part_index_def part_from_index_def part_space_def bucket_count_def part_count_def nat_and_16 unat_of_nat)

lemma part_from_index_index: "part_from_index (part_index p) = p"
  using part_index_from_index[OF part_index_bound[of p]] by (simp add: part_eq_iff part_index_def word_unat_eq_iff)

lemma part_index_inj: "part_index p = part_index q \<longleftrightarrow> p = q"
  by (metis part_from_index_index)

lemma part_bucket_lt: "unat (part_bucket p) < bucket_count"
proof -
  have "part_bucket p = part_bucket (part_from_hash (ucast (part_raw p)))"
    unfolding part_bucket_def part_from_hash_def by (rule bit_word_eqI) (auto simp: part_bits)
  then show ?thesis by (simp add: part_bucket_from_hash)
qed

lemma part_part_lt: "unat (part_part p) < part_count"
proof -
  have "part_part p = part_part (part_from_hash (ucast (part_raw p)))"
    unfolding part_part_def part_from_hash_def by (rule bit_word_eqI) (auto simp: part_bits dest: bit_imp_le_length)
  then show ?thesis by (simp add: part_part_from_hash)
qed

lemma small_bucket: "unat b < bucket_count \<Longrightarrow> b AND 0x3FF = b" for b :: u16
proof -
  assume "unat b < bucket_count"
  then have "take_bit 10 b = b" by (simp add: bucket_count_def word_unat_eq_iff unsigned_take_bit_eq take_bit_nat_eq_self_iff)
  then show ?thesis by (simp add: take_bit_eq_mask mask_eq_exp_minus_1)
qed

section \<open>The words of the set\<close>

lemma clear_lowest_bit:
  fixes w :: u64
  assumes "w \<noteq> 0"
  defines "t \<equiv> trailing_zeros w"
  shows "t < 64" and "bit w t" and "n < t \<Longrightarrow> \<not> bit w n" and "bit (w AND (w - 1)) n \<longleftrightarrow> bit w n \<and> n \<noteq> t"
proof -
  obtain m where "bit w m" using assms(1) by (auto simp: bit_eq_iff)
  moreover from this have "m < 64" using bit_imp_le_length[of w m] by simp
  ultimately have "\<exists>x \<in> set [0..<64]. bit w x" by auto
  then have "length (takeWhile (\<lambda>n. \<not> bit w n) [0..<64]) < length [0..<64]"
    by (metis (no_types, lifting) length_takeWhile_le nat_less_le set_takeWhileD takeWhile_eq_take take_all_iff order_refl)
  then show lt: "t < 64" by (simp add: t_def trailing_zeros_def)
  from nth_length_takeWhile[of "\<lambda>n. \<not> bit w n" "[0..<64]"] show bt: "bit w t" using lt by (simp add: t_def trailing_zeros_def)
  have low: "\<not> bit w n" if "n < t" for n
    using that lt takeWhile_nth[of n "\<lambda>n. \<not> bit w n" "[0..<64]"] set_takeWhileD[of n "\<lambda>n. \<not> bit w n" "[0..<64]"]
      nth_mem[of n "takeWhile (\<lambda>n. \<not> bit w n) [0..<64]"] by (simp add: t_def trailing_zeros_def)
  then show "n < t \<Longrightarrow> \<not> bit w n" .
  define k where "k = drop_bit (Suc t) w"
  have bk: "bit (push_bit (Suc t) k) n \<longleftrightarrow> t < n \<and> bit w n" for n
    using bit_imp_le_length[of w n] by (auto simp: k_def bit_push_bit_iff bit_drop_bit_eq simp del: push_bit_Suc)
  have bp: "bit (2 ^ t :: u64) n \<longleftrightarrow> n = t" for n using lt by (auto simp: bit_exp_iff)
  have "w = push_bit (Suc t) k OR 2 ^ t"
    by (rule bit_word_eqI, unfold bit_or_iff bk bp) (metis low bt linorder_neqE_nat)
  also have "\<dots> = push_bit (Suc t) k + 2 ^ t"
    by (rule disjunctive_add_eq_or[symmetric], rule bit_word_eqI, unfold bit_and_iff bk bp) auto
  finally have "w - 1 = push_bit (Suc t) k + mask t" by (simp add: mask_eq_exp_minus_1 del: push_bit_Suc)
  also have "\<dots> = push_bit (Suc t) k OR mask t"
    by (rule disjunctive_add_eq_or, rule bit_word_eqI, unfold bit_and_iff bk bit_mask_iff) auto
  finally have dec: "bit (w - 1) n \<longleftrightarrow> n < 64 \<and> (n < t \<or> n > t \<and> bit w n)" for n
    using lt bit_imp_le_length[of w n] by (auto simp: bit_or_iff bk bit_mask_iff simp del: push_bit_Suc)
  have "bit w n \<Longrightarrow> n < 64" using bit_imp_le_length[of w n] by simp
  then show "bit (w AND (w - 1)) n \<longleftrightarrow> bit w n \<and> n \<noteq> t"
    unfolding bit_and_iff dec using low[of n] by (meson linorder_neqE_nat less_irrefl)
qed

lemma filter_upt_least:
  assumes "t < m" and "P t" and "\<And>n. n < t \<Longrightarrow> \<not> P n"
  shows "filter P [0..<m] = t # filter (\<lambda>n. P n \<and> n \<noteq> t) [0..<m]"
proof -
  have split: "[0..<m] = [0..<t] @ t # [Suc t..<m]" using assms(1) using upt_add_eq_append[of 0 t "m - t"] by (simp add: upt_conv_Cons)
  have "filter P [0..<t] = []" "filter (\<lambda>n. P n \<and> n \<noteq> t) [0..<t] = []" using assms(3) by (auto simp: filter_empty_conv)
  moreover have "filter P [Suc t..<m] = filter (\<lambda>n. P n \<and> n \<noteq> t) [Suc t..<m]" by (rule filter_cong) auto
  ultimately show ?thesis using assms(2) by (simp add: split)
qed

lemma word_bits_filter: "word_bits w = filter (bit w) [0..<64]"
proof (induction w rule: word_bits.induct)
  case (1 w)
  show ?case
  proof (cases "w = 0")
    case False
    note low = clear_lowest_bit[OF False]
    have "filter (bit w) [0..<64] = trailing_zeros w # filter (\<lambda>n. bit w n \<and> n \<noteq> trailing_zeros w) [0..<64]"
      by (rule filter_upt_least[where P = "bit w", OF low(1-3)])
    then show ?thesis using 1[OF False] False by (subst word_bits.simps) (simp add: low(4))
  qed (simp add: word_bits.simps)
qed

section \<open>The set laws\<close>

text \<open>
  What the callers of a part set rely on: membership after an insertion and a removal, the length,
  and an iterator that lists the members once each. The members stand for the abstract set.
\<close>

locale set_impl =
  fixes ok :: "'s \<Rightarrow> bool" and members :: "'s \<Rightarrow> 'a set" and empty_set :: 's
    and ins :: "'a \<Rightarrow> 's \<Rightarrow> bool \<times> 's" and del :: "'a \<Rightarrow> 's \<Rightarrow> bool \<times> 's" and iter :: "'s \<Rightarrow> 'a list"
  assumes empty_ok: "ok empty_set" "members empty_set = {}"
    and ins_ok: "ok s \<Longrightarrow> ok (snd (ins a s))" "ok s \<Longrightarrow> members (snd (ins a s)) = insert a (members s)"
    and ins_fresh: "ok s \<Longrightarrow> fst (ins a s) \<longleftrightarrow> a \<notin> members s"
    and del_ok: "ok s \<Longrightarrow> ok (snd (del a s))" "ok s \<Longrightarrow> members (snd (del a s)) = members s - {a}"
    and del_present: "ok s \<Longrightarrow> fst (del a s) \<longleftrightarrow> a \<in> members s"
    and iter_members: "ok s \<Longrightarrow> set (iter s) = members s" "ok s \<Longrightarrow> distinct (iter s)"
begin

definition extend :: "'a list \<Rightarrow> 's \<Rightarrow> 's" where
  "extend as s = fold (\<lambda>a s. snd (ins a s)) as s"

lemma extend_ok: "ok s \<Longrightarrow> ok (extend as s) \<and> members (extend as s) = set as \<union> members s"
  unfolding extend_def by (induction as arbitrary: s) (simp_all add: ins_ok)

lemma iter_extend: "set (iter (extend as empty_set)) = set as" and "distinct (iter (extend as empty_set))"
  using extend_ok[OF empty_ok(1), of as] by (simp_all add: iter_members empty_ok(2))

lemma iter_count: "ok s \<Longrightarrow> length (iter s) = card (members s)"
  using distinct_card[OF iter_members(2)[of s]] by (simp add: iter_members(1))

end

definition part_members :: "part_set \<Rightarrow> part_id set" where
  "part_members ps = {p. part_set_contains ps p}"

definition part_set_ok :: "part_set \<Rightarrow> bool" where
  "part_set_ok ps \<longleftrightarrow> length (ps_bits ps) = part_space div 64 \<and> ps_len ps = card (part_members ps)"

definition in_words :: "u64 list \<Rightarrow> nat \<Rightarrow> bool" where
  "in_words ws i \<longleftrightarrow> bit (ws ! (i div 64)) (i mod 64)"

lemma and_single_bit: "w AND push_bit n 1 = 0 \<longleftrightarrow> \<not> bit w n" for w :: u64
  by (simp add: and_exp_eq_0_iff_not_bit)

lemma contains_iff: "part_set_contains ps p \<longleftrightarrow> in_words (ps_bits ps) (part_index p)"
  by (simp add: part_set_contains_def part_set_slot_def and_single_bit in_words_def del: push_bit_of_1)

lemma finite_parts: "finite (S :: part_id set)"
  by (rule finite_imageD[of part_index]) (auto simp: inj_on_def part_index_inj intro: finite_subset[of _ "{..<part_space}"] part_index_bound)

lemma in_words_update:
  assumes "i < 64 * length ws" "j < 64 * length ws"
  shows "in_words (ws[i div 64 := ws ! (i div 64) OR push_bit (i mod 64) 1]) j \<longleftrightarrow> j = i \<or> in_words ws j"
    and "in_words (ws[i div 64 := ws ! (i div 64) AND NOT (push_bit (i mod 64) 1)]) j \<longleftrightarrow> j \<noteq> i \<and> in_words ws j"
proof -
  have len: "i div 64 < length ws" "j div 64 < length ws" using assms by (simp_all add: less_mult_imp_div_less mult.commute)
  have pb: "bit (push_bit m 1 :: u64) n \<longleftrightarrow> n = m" if "m < 64" for m n using that by (auto simp: bit_exp_iff)
  have eq: "j = i \<longleftrightarrow> j div 64 = i div 64 \<and> j mod 64 = i mod 64" by (metis div_mult_mod_eq)
  show "in_words (ws[i div 64 := ws ! (i div 64) OR push_bit (i mod 64) 1]) j \<longleftrightarrow> j = i \<or> in_words ws j"
    "in_words (ws[i div 64 := ws ! (i div 64) AND NOT (push_bit (i mod 64) 1)]) j \<longleftrightarrow> j \<noteq> i \<and> in_words ws j"
    unfolding eq in_words_def using len
    by (cases "j div 64 = i div 64"; auto simp: bit_or_iff bit_and_iff bit_not_iff pb simp del: push_bit_of_1)+
qed

lemma members_index: "length (ps_bits ps) = part_space div 64 \<Longrightarrow> part_index p < 64 * length (ps_bits ps)"
  using part_index_bound[of p] by (simp add: part_space_def bucket_count_def part_count_def)

lemma part_set_insert_ok:
  assumes "part_set_ok ps"
  shows "part_set_ok (snd (part_set_insert p ps))" and "part_members (snd (part_set_insert p ps)) = insert p (part_members ps)"
    and "fst (part_set_insert p ps) \<longleftrightarrow> p \<notin> part_members ps"
proof -
  have len: "length (ps_bits ps) = part_space div 64" using assms by (simp add: part_set_ok_def)
  show fresh: "fst (part_set_insert p ps) \<longleftrightarrow> p \<notin> part_members ps"
    by (simp add: part_set_insert_def part_set_slot_def part_members_def contains_iff in_words_def and_single_bit Let_def del: push_bit_of_1)
  show mem: "part_members (snd (part_set_insert p ps)) = insert p (part_members ps)"
  proof (cases "p \<in> part_members ps")
    case True
    then show ?thesis using fresh by (auto simp: part_set_insert_def part_set_slot_def Let_def)
  next
    case False
    then have "ps_bits (snd (part_set_insert p ps)) =
        (ps_bits ps)[part_index p div 64 := ps_bits ps ! (part_index p div 64) OR push_bit (part_index p mod 64) 1]"
      using fresh by (simp add: part_set_insert_def part_set_slot_def Let_def del: push_bit_of_1 split: if_splits)
    then show ?thesis
      using in_words_update(1)[OF members_index[OF len] members_index[OF len]]
      by (auto simp: part_members_def contains_iff part_index_inj)
  qed
  have "length (ps_bits (snd (part_set_insert p ps))) = length (ps_bits ps)"
    "ps_len (snd (part_set_insert p ps)) = ps_len ps + (if fst (part_set_insert p ps) then 1 else 0)"
    by (simp_all add: part_set_insert_def part_set_slot_def Let_def)
  then show "part_set_ok (snd (part_set_insert p ps))"
    using assms fresh mem by (simp add: part_set_ok_def finite_parts insert_absorb)
qed

lemma part_set_remove_ok:
  assumes "part_set_ok ps"
  shows "part_set_ok (snd (part_set_remove p ps))" and "part_members (snd (part_set_remove p ps)) = part_members ps - {p}"
    and "fst (part_set_remove p ps) \<longleftrightarrow> p \<in> part_members ps"
proof -
  have len: "length (ps_bits ps) = part_space div 64" using assms by (simp add: part_set_ok_def)
  show present: "fst (part_set_remove p ps) \<longleftrightarrow> p \<in> part_members ps"
    by (simp add: part_set_remove_def part_set_slot_def part_members_def contains_iff in_words_def and_single_bit Let_def del: push_bit_of_1)
  show mem: "part_members (snd (part_set_remove p ps)) = part_members ps - {p}"
  proof (cases "p \<in> part_members ps")
    case False
    then show ?thesis using present by (auto simp: part_set_remove_def part_set_slot_def Let_def)
  next
    case True
    then have "ps_bits (snd (part_set_remove p ps)) =
        (ps_bits ps)[part_index p div 64 := ps_bits ps ! (part_index p div 64) AND NOT (push_bit (part_index p mod 64) 1)]"
      using present by (simp add: part_set_remove_def part_set_slot_def Let_def del: push_bit_of_1 split: if_splits)
    then show ?thesis
      using in_words_update(2)[OF members_index[OF len] members_index[OF len]]
      by (auto simp: part_members_def contains_iff part_index_inj)
  qed
  have "length (ps_bits (snd (part_set_remove p ps))) = length (ps_bits ps)"
    "ps_len (snd (part_set_remove p ps)) = ps_len ps - (if fst (part_set_remove p ps) then 1 else 0)"
    by (simp_all add: part_set_remove_def part_set_slot_def Let_def)
  then show "part_set_ok (snd (part_set_remove p ps))"
    using assms present mem by (simp add: part_set_ok_def finite_parts)
qed

lemma words_in_order:
  "concat (map (\<lambda>(i, w). map (\<lambda>b. i * 64 + b) (filter (bit w) [0..<64])) (enumerate k ws)) =
   filter (\<lambda>i. bit (ws ! (i div 64 - k)) (i mod 64)) [k * 64..<(k + length ws) * 64]" for ws :: "u64 list"
proof (induction ws arbitrary: k)
  case (Cons w ws)
  have split: "[k * 64..<(k + length (w # ws)) * 64] = map (\<lambda>b. k * 64 + b) [0..<64] @ [Suc k * 64..<(Suc k + length ws) * 64]"
    using upt_add_eq_append[of "k * 64" "Suc k * 64" "length ws * 64"] map_add_upt[of "k * 64" 64]
    by (simp add: algebra_simps)
  have "filter (\<lambda>i. bit ((w # ws) ! (i div 64 - k)) (i mod 64)) (map (\<lambda>b. k * 64 + b) [0..<64]) =
      map (\<lambda>b. k * 64 + b) (filter (bit w) [0..<64])"
    unfolding filter_map comp_def by (rule arg_cong[of _ _ "map _"], rule filter_cong) simp_all
  moreover have "filter (\<lambda>i. bit ((w # ws) ! (i div 64 - k)) (i mod 64)) [Suc k * 64..<(Suc k + length ws) * 64] =
      filter (\<lambda>i. bit (ws ! (i div 64 - Suc k)) (i mod 64)) [Suc k * 64..<(Suc k + length ws) * 64]"
    by (rule filter_cong) (auto simp: nth_Cons' Suc_le_eq div_le_mono2 dest!: div_le_mono[of "Suc k * 64" _ 64])
  ultimately show ?case using Cons.IH[of "Suc k"] unfolding split by simp
qed simp

lemma part_set_iter_filter:
  assumes "length (ps_bits ps) = part_space div 64"
  shows "part_set_iter ps = map part_from_index (filter (in_words (ps_bits ps)) [0..<part_space])"
proof -
  have "part_set_iter ps =
      map part_from_index (concat (map (\<lambda>(i, w). map (\<lambda>b. i * 64 + b) (filter (bit w) [0..<64])) (enumerate 0 (ps_bits ps))))"
    by (simp add: part_set_iter_def word_bits_filter map_concat comp_def case_prod_unfold)
  also have "\<dots> = map part_from_index (filter (in_words (ps_bits ps)) [0..<part_space])"
    using assms by (simp add: words_in_order in_words_def[abs_def] part_space_def bucket_count_def part_count_def)
  finally show ?thesis .
qed

lemma part_set_iter_sorted:
  assumes "part_set_ok ps"
  shows "sorted_wrt (<) (map part_index (part_set_iter ps))"
proof -
  have "map part_index (part_set_iter ps) = filter (in_words (ps_bits ps)) [0..<part_space]"
    using assms unfolding part_set_ok_def
    by (simp add: part_set_iter_filter comp_def) (rule map_idI, simp add: part_index_from_index)
  then show ?thesis by (simp add: sorted_wrt_filter)
qed

lemma part_set_iter_members:
  assumes "part_set_ok ps"
  shows "set (part_set_iter ps) = part_members ps" and "distinct (part_set_iter ps)"
proof -
  have len: "length (ps_bits ps) = part_space div 64" using assms by (simp add: part_set_ok_def)
  have "p \<in> set (part_set_iter ps) \<longleftrightarrow> p \<in> part_members ps" for p
  proof -
    have "p \<in> set (part_set_iter ps) \<longleftrightarrow> (\<exists>i < part_space. in_words (ps_bits ps) i \<and> p = part_from_index i)"
      by (auto simp: part_set_iter_filter[OF len])
    also have "\<dots> \<longleftrightarrow> in_words (ps_bits ps) (part_index p)"
      by (metis part_from_index_index part_index_from_index part_index_bound)
    finally show ?thesis by (simp add: part_members_def contains_iff)
  qed
  then show "set (part_set_iter ps) = part_members ps" by blast
  show "distinct (part_set_iter ps)"
    by (auto simp: part_set_iter_filter[OF len] distinct_map inj_on_def) (metis part_index_from_index)
qed

interpretation parts: set_impl part_set_ok part_members part_set_new part_set_insert part_set_remove part_set_iter
proof unfold_locales
  show "part_set_ok part_set_new" and "part_members part_set_new = {}"
    using part_index_bound
    by (auto simp: part_set_ok_def part_members_def contains_iff in_words_def part_set_new_def part_space_def
        bucket_count_def part_count_def less_mult_imp_div_less)
qed (simp_all add: part_set_insert_ok part_set_remove_ok part_set_iter_members)

section \<open>Masks\<close>

lemma mask_contains_bit: "mask_contains m part \<longleftrightarrow> unat part < 64 \<and> bit (mask_bits m) (unat part)"
  by (simp add: mask_contains_def and_one_eq odd_iff_mod_2_eq_one[symmetric] bit_iff_odd_drop_bit mod2_eq_if)

lemma mask_contains_insert:
  "mask_contains (mask_insert q m) part \<longleftrightarrow> part = q \<and> unat q < 64 \<or> mask_contains m part"
proof -
  have "bit (push_bit (unat q) 1 :: u64) (unat part) \<longleftrightarrow> part = q" if "unat q < 64"
    using that by (auto simp: bit_exp_iff word_unat_eq_iff)
  then show ?thesis by (auto simp: mask_contains_bit mask_insert_def bit_or_iff simp del: push_bit_of_1)
qed

lemma mask_contains_from_iter: "mask_contains (mask_from_iter ps) part \<longleftrightarrow> part \<in> set ps \<and> unat part < 64"
proof -
  have "mask_contains (fold mask_insert ps m) part \<longleftrightarrow> part \<in> set ps \<and> unat part < 64 \<or> mask_contains m part" for m
    by (induction ps arbitrary: m) (auto simp: mask_contains_insert)
  then show ?thesis by (simp add: mask_from_iter_def mask_default_def mask_contains_bit)
qed

section \<open>Properties\<close>

text \<open>
  Collecting parts into a bit set and iterating it lists exactly the parts given, once each and in
  index order, and the set's length counts them: the word-and-bit representation and the loop over
  lowest set bits implement a set.
\<close>

theorem part_set_lists_parts:
  "set (part_set_iter (part_set_from_iter ps)) = set ps \<and>
   sorted_wrt (<) (map part_index (part_set_iter (part_set_from_iter ps))) \<and>
   ps_len (part_set_from_iter ps) = card (set ps)"
proof -
  have eq: "part_set_from_iter ps = parts.extend ps part_set_new"
    by (simp add: part_set_from_iter_def part_set_extend_def parts.extend_def)
  have ok: "part_set_ok (part_set_from_iter ps)" "part_members (part_set_from_iter ps) = set ps"
    using parts.extend_ok[OF parts.empty_ok(1), of ps] by (simp_all add: eq parts.empty_ok(2))
  then show ?thesis using parts.iter_members(1) part_set_iter_sorted by (simp add: part_set_ok_def)
qed

text \<open>
  A part id names one bucket and one part and nothing else does: splitting an id and rebuilding it
  gives the id back, and the part of a key lies in the stripe and the digest slot the engine files that
  key under.
\<close>

lemma part_id_roundtrip:
  "part_of_bucket_part (part_bucket_part p) = p \<and>
   unat (part_bucket (part_of_key e k)) = stripe_index_from_hash (hash_key_bytes e k) \<and>
   unat (part_part (part_of_key e k)) = part_index_from_hash (hash_key_bytes e k)"
  by (simp add: part_of_bucket_part_def part_bucket_part_def part_new_split part_of_key_def
      part_bucket_from_hash part_part_from_hash)

end
