(* ===== verification/Engine_Removal.thy ===== *)
theory Engine_Removal
  imports Engine_Batch Part
begin

text \<open>
  Removal on \<open>Engine\<close> (\<^verbatim>\<open>engine/removal.rs\<close>): peer and local invalidation, the
  release of buckets and parts, and the listing of the parts held. \<open>release_parts\<close> walks a
  \<open>HashMap\<close> of masks, whose order is unspecified: the order is an argument. The lemmas show
  that every removal keeps the engine invariant, and that a release removes the records of its parts
  and no other.
\<close>

section \<open>Invalidation\<close>

definition invalidate :: "externs \<Rightarrow> bytes \<Rightarrow> u64 \<Rightarrow> hlc \<Rightarrow> ('k, 'v) engine \<Rightarrow> hlc option \<times> ('k, 'v) engine" where
  "invalidate e key_bytes hash ver g =
     (let bucket = stripe_index_from_hash hash; s = eg_stripes g bucket;
          prior_tombstone = bm_get (st_tombstones s) key_bytes;
          stored_ver = (case prior_tombstone of
                          Some t \<Rightarrow> Some (ts_ver t)
                        | None \<Rightarrow> map_option live_ver (arena_find e key_bytes (st_live s)))
      in if is_some_and (\<lambda>sv. ver \<le> sv) stored_ver then (None, g)
         else
           let s = invalidate_inflight key_bytes s;
               g = g\<lparr>eg_stripes := (eg_stripes g)(bucket := s)\<rparr>;
               had_live = (prior_tombstone = None \<and> stored_ver \<noteq> None)
           in if \<not> had_live then (None, g)
              else case remove_live e key_bytes s of
                None \<Rightarrow> (None, g)
              | Some (removed, s) \<Rightarrow>
                  let part = part_index_from_hash hash
                  in (Some (rl_ver removed),
                      account_removed e bucket part key_bytes removed False (g\<lparr>eg_stripes := (eg_stripes g)(bucket := s)\<rparr>)))"

definition invalidate_local :: "externs \<Rightarrow> bytes \<Rightarrow> u64 \<Rightarrow> ('k, 'v) engine \<Rightarrow> ('k, 'v) engine" where
  "invalidate_local e key_bytes hash g =
     (let bucket = stripe_index_from_hash hash;
          s = invalidate_inflight key_bytes (eg_stripes g bucket);
          g = g\<lparr>eg_stripes := (eg_stripes g)(bucket := s)\<rparr>
      in case remove_live e key_bytes s of
           None \<Rightarrow> g
         | Some (removed, s) \<Rightarrow>
             account_removed e bucket (part_index_from_hash hash) key_bytes removed False
               (g\<lparr>eg_stripes := (eg_stripes g)(bucket := s)\<rparr>))"

section \<open>Release\<close>

definition usize_to_u64 :: "nat \<Rightarrow> u64" where
  "usize_to_u64 n = (if n < 2 ^ 64 then of_nat n else u64_max)"

text \<open>The counters after a stripe lost live entries of that total weight and count.\<close>

definition account_dropped :: "live list \<Rightarrow> ('k, 'v) engine \<Rightarrow> ('k, 'v) engine" where
  "account_dropped dropped g =
     (let removed_weight = sum_list (map (\<lambda>l. ucast (lv_weight l)) dropped); removed_live = of_nat (length dropped)
      in g\<lparr>eg_total_weight := (if 0 < removed_weight then eg_total_weight g - removed_weight else eg_total_weight g),
           eg_live_count := (if 0 < removed_live then eg_live_count g - removed_live else eg_live_count g)\<rparr>)"

definition clear_digests :: "nat \<Rightarrow> (nat \<Rightarrow> bool) \<Rightarrow> (nat \<Rightarrow> u64) \<Rightarrow> nat \<Rightarrow> u64" where
  "clear_digests bucket named digest =
     fold (\<lambda>part digest. if named part then digest(digest_slot bucket part := 0) else digest) [0..<part_count] digest"

definition release_bucket :: "nat \<Rightarrow> ('k, 'v) engine \<Rightarrow> u64 \<times> u64 \<times> ('k, 'v) engine" where
  "release_bucket bucket g =
     (let s = eg_stripes g bucket; dropped = st_live s; removed_tombstones = length (bm_entries (st_tombstones s));
          s = s\<lparr>st_live := [], st_tombstones := bm_empty, st_long_ttl := bm_empty, st_next_expiry := u64_max\<rparr>;
          g = g\<lparr>eg_stripes := (eg_stripes g)(bucket := s), eg_digest := clear_digests bucket (\<lambda>_. True) (eg_digest g)\<rparr>
      in (of_nat (length dropped), usize_to_u64 removed_tombstones, account_dropped dropped g))"

fun release_buckets :: "u16 list \<Rightarrow> u64 \<times> ('k, 'v) engine \<Rightarrow> u64 \<times> ('k, 'v) engine" where
  "release_buckets [] st = st"
| "release_buckets (bucket # buckets) (removed_total, g) =
     (if bucket_count \<le> unat bucket then release_buckets buckets (removed_total, g)
      else case release_bucket (unat bucket) g of
             (removed_live, removed_tombstones, g) \<Rightarrow>
               release_buckets buckets (sat_add (sat_add removed_total removed_live) removed_tombstones, g))"

definition part_masks :: "part_id list \<Rightarrow> (u16, u64) btree_map" where
  "part_masks parts =
     fold (\<lambda>p m. bm_insert (part_bucket p) (map_or 0 id (bm_get m (part_bucket p)) OR push_bit (unat (part_part p)) 1) m)
       parts bm_empty"

definition released :: "externs \<Rightarrow> u64 \<Rightarrow> bytes \<Rightarrow> bool" where
  "released e pm key \<longleftrightarrow> pm AND push_bit (part_index_from_hash (hash_key_bytes e key)) 1 \<noteq> 0"

definition release_mask :: "externs \<Rightarrow> nat \<Rightarrow> u64 \<Rightarrow> ('k, 'v) engine \<Rightarrow> u64 \<times> u64 \<times> ('k, 'v) engine" where
  "release_mask e bucket pm g =
     (let s = eg_stripes g bucket;
          (kept, dropped) = arena_retain (\<lambda>l. \<not> released e pm (live_key e l)) 0 (st_live s);
          tombstones = bm_retain (\<lambda>key _. \<not> released e pm key) (st_tombstones s);
          removed_tombstones = length (bm_entries (st_tombstones s)) - length (bm_entries tombstones);
          s = s\<lparr>st_live := kept, st_tombstones := tombstones,
                st_long_ttl := bm_retain (\<lambda>key _. \<not> released e pm key) (st_long_ttl s)\<rparr>;
          g = g\<lparr>eg_stripes := (eg_stripes g)(bucket := s),
                eg_digest := clear_digests bucket (\<lambda>part. pm AND push_bit part 1 \<noteq> 0) (eg_digest g)\<rparr>
      in (of_nat (length dropped), usize_to_u64 removed_tombstones, account_dropped dropped g))"

fun release_masks :: "externs \<Rightarrow> (u16 \<times> u64) list \<Rightarrow> u64 \<times> ('k, 'v) engine \<Rightarrow> u64 \<times> ('k, 'v) engine" where
  "release_masks e [] st = st"
| "release_masks e ((bucket, pm) # masks) (removed_total, g) =
     (if pm = u64_max
      then (case release_buckets [bucket] (0, g) of
              (removed, g) \<Rightarrow> release_masks e masks (sat_add removed_total removed, g))
      else (case release_mask e (unat bucket) pm g of
              (removed_live, removed_tombstones, g) \<Rightarrow>
                release_masks e masks (sat_add (sat_add removed_total removed_live) removed_tombstones, g)))"

definition release_parts ::
  "externs \<Rightarrow> ((u16 \<times> u64) list \<Rightarrow> (u16 \<times> u64) list) \<Rightarrow> part_id list \<Rightarrow> ('k, 'v) engine \<Rightarrow> u64 \<times> ('k, 'v) engine" where
  "release_parts e order parts g = release_masks e (order (bm_entries (part_masks parts))) (0, g)"

definition held_parts :: "externs \<Rightarrow> ('k, 'v) engine \<Rightarrow> part_id list" where
  "held_parts e g =
     part_set_iter
       (fold (\<lambda>b ps.
          let s = eg_stripes g b
          in if length (st_live s) = 0 \<and> bm_entries (st_tombstones s) = [] then ps
             else part_set_extend (map (\<lambda>l. part_from_hash (hash_key_bytes e (live_key e l))) (st_live s) @
                                   map (\<lambda>key. part_from_hash (hash_key_bytes e key)) (bm_keys (st_tombstones s))) ps)
        [0..<bucket_count] part_set_new)"

section \<open>A stripe that loses some of its entries\<close>

lemma stripe_ok_filtered:
  assumes ok: "stripe_ok e b s" and live: "mset (st_live s') = filter_mset P (mset (st_live s))"
    and tombs: "\<And>k t. bm_get (st_tombstones s') k = Some t \<Longrightarrow> key_bucket e k = b \<and> k \<notin> live_keys e s'"
    and long: "\<And>k. bm_get (st_long_ttl s') k = (if k \<in> live_keys e s' then bm_get (st_long_ttl s) k else None)"
    and expiry: "\<And>l. l \<in> set (st_live s') \<Longrightarrow>
      is_none_or (\<lambda>d. st_next_expiry s' \<le> d) (live_expires_at l (live_key e l) (st_long_ttl s))"
  shows "stripe_ok e b s'"
proof -
  have set: "set (st_live s') = {l \<in> set (st_live s). P l}" using arg_cong[OF live, of set_mset] by simp
  have "mset (map (live_key e) (st_live s')) = mset (map (live_key e) (filter P (st_live s)))" by (simp add: live)
  then have dist: "distinct (map (live_key e) (st_live s'))"
    using distinct_map_filter[OF stripe_okD(1)[OF ok], of P] by (metis mset_eq_imp_distinct_iff)
  have keys: "live_keys e s' \<subseteq> live_keys e s" by (auto simp: live_keys_def set)
  have exp: "live_expires_at l (live_key e l) (st_long_ttl s') = live_expires_at l (live_key e l) (st_long_ttl s)"
    if "l \<in> set (st_live s')" for l
    using that by (auto simp: live_expires_at_def decode_expiry_def long live_keys_def)
  have rows: "\<exists>l \<in> set (st_live s'). live_key e l = k \<and> lv_expiry l = long_ttl_mark"
    if row: "bm_get (st_long_ttl s') k \<noteq> None" for k
  proof -
    have k: "k \<in> live_keys e s'" "bm_get (st_long_ttl s) k \<noteq> None" using row by (auto simp: long split: if_splits)
    obtain l where l: "l \<in> set (st_live s)" "live_key e l = k" "lv_expiry l = long_ttl_mark" using stripe_okD(5)[OF ok k(2)] by auto
    obtain l' where l': "l' \<in> set (st_live s')" "live_key e l' = k" using k(1) by (auto simp: live_keys_def)
    have "l' = l" using l(1,2) l' stripe_okD(1)[OF ok] by (auto simp: set distinct_map dest: inj_onD)
    then show ?thesis using l l' by auto
  qed
  show ?thesis
    unfolding stripe_ok_def
  proof (intro conjI ballI allI impI)
    show "distinct (map (live_key e) (st_live s'))" by (rule dist)
    show "key_bucket e k = b" "length k < 2 ^ 32" if "k \<in> live_keys e s'" for k
      using that keys stripe_okD(2)[OF ok] by auto
    show "bm_get (st_tombstones s') k = None" if "k \<in> live_keys e s'" for k
      using that tombs by (cases "bm_get (st_tombstones s') k") auto
    show "key_bucket e k = b" if "bm_get (st_tombstones s') k \<noteq> None" for k using that tombs by auto
    show "bm_get (st_long_ttl s') (live_key e l) \<noteq> None" if "l \<in> set (st_live s')" "lv_expiry l = long_ttl_mark" for l
      using that stripe_okD(4)[OF ok, of l] by (auto simp: long live_keys_def set)
    show "\<exists>l \<in> set (st_live s'). live_key e l = k \<and> lv_expiry l = long_ttl_mark" if "bm_get (st_long_ttl s') k \<noteq> None" for k
      using that by (rule rows)
    show "is_none_or (\<lambda>d. st_next_expiry s' \<le> d) (live_expires_at l (live_key e l) (st_long_ttl s'))"
      if "l \<in> set (st_live s')" for l
      using expiry[OF that] by (simp add: exp[OF that])
  qed
qed

lemma account_dropped_counters:
  "eg_total_weight (account_dropped ls g) = eg_total_weight g - sum_list (map (\<lambda>l. ucast (lv_weight l)) ls)"
  "eg_live_count (account_dropped ls g) = eg_live_count g - of_nat (length ls)"
  "eg_stripes (account_dropped ls g) = eg_stripes g" "eg_digest (account_dropped ls g) = eg_digest g"
  "settings (account_dropped ls g) = settings g" "eg_weigher (account_dropped ls g) = eg_weigher g"
  by (simp_all add: account_dropped_def Let_def word_gt_0)

lemma clear_digests_eq:
  "clear_digests b named digest i =
     (if \<exists>p < part_count. named p \<and> i = digest_slot b p then 0 else digest i)"
proof -
  have "fold (\<lambda>part digest. if named part then digest(digest_slot b part := 0) else digest) ps digest i =
      (if \<exists>p \<in> set ps. named p \<and> i = digest_slot b p then 0 else digest i)" for ps
    by (induction ps arbitrary: digest) auto
  then show ?thesis by (auto simp: clear_digests_def)
qed

lemma retained_sums:
  fixes xs :: "live list"
  assumes "arena_retain P 0 xs = (kept, dropped)"
  shows "mset kept = filter_mset P (mset xs)" and "mset dropped = filter_mset (\<lambda>x. \<not> P x) (mset xs)"
  using arena_retain_mset[OF assms] by simp_all

section \<open>The records of an engine\<close>

definition engine_cell :: "externs \<Rightarrow> ('k, 'v) engine \<Rightarrow> bytes \<Rightarrow> cell option" where
  "engine_cell e g k = cell_at e (eg_stripes g (key_bucket e k)) k"

lemma engine_inv_shrunk:
  assumes "engine_inv e g" and "engine_ok e g'" and "eg_weigher g' = eg_weigher g"
    and "\<And>b. b < bucket_count \<Longrightarrow> set (st_live (eg_stripes g' b)) \<subseteq> set (st_live (eg_stripes g b))"
  shows "engine_inv e g'"
  using assms by (fastforce simp: engine_inv_def weights_positive_def)

section \<open>Invalidation keeps the invariant\<close>

lemma remove_accounted:
  assumes ok: "engine_ok e g" and b: "b < bucket_count" and rm: "remove_live e k (eg_stripes g b) = Some (r, s')"
  shows "engine_ok e (account_removed e b (key_part e k) k r False (g\<lparr>eg_stripes := (eg_stripes g)(b := s')\<rparr>))"
proof -
  have sok: "stripe_ok e b (eg_stripes g b)" using ok b by (simp add: engine_ok_def)
  have "balanced e (key_part e k)
    (eg_stripes g b, eg_digest g (digest_slot b (key_part e k)), eg_total_weight g, eg_live_count g)
    (s', eg_digest g (digest_slot b (key_part e k)) XOR entry_fingerprint e k (rl_ver r),
     eg_total_weight g - ucast (rl_weight r), eg_live_count g - 1)"
    using remove_live_sums[OF rm] by (intro balanced_drop) simp_all
  then show ?thesis
    by (intro engine_ok_balanced[OF ok b key_part_lt[of e k] remove_live_ok(1)[OF sok rm]])
      (simp_all add: account_removed_def Let_def)
qed

lemma engine_ok_same_stripe:
  assumes ok: "engine_ok e g" and b: "b < bucket_count" and s: "stripe_ok e b s'"
    and "held e s' = held e (eg_stripes g b)" "stripe_weight s' = stripe_weight (eg_stripes g b)"
      "stripe_count s' = stripe_count (eg_stripes g b)"
  shows "engine_ok e (g\<lparr>eg_stripes := (eg_stripes g)(b := s')\<rparr>)"
  using assms by (intro engine_ok_stripe[OF ok b s]) simp_all

lemma invalidate_inflight_inv:
  assumes "engine_inv e g" and b: "b < bucket_count"
  shows "engine_inv e (g\<lparr>eg_stripes := (eg_stripes g)(b := invalidate_inflight k (eg_stripes g b))\<rparr>)"
proof -
  have ok: "engine_ok e g" "stripe_ok e b (eg_stripes g b)" using assms by (simp_all add: engine_inv_def engine_ok_def)
  then have "engine_ok e (g\<lparr>eg_stripes := (eg_stripes g)(b := invalidate_inflight k (eg_stripes g b))\<rparr>)"
    using b by (intro engine_ok_same_stripe) simp_all
  then show ?thesis by (rule engine_inv_shrunk[OF assms(1)]) simp_all
qed

lemma remove_accounted_inv:
  assumes inv: "engine_inv e g" and b: "b < bucket_count" and rm: "remove_live e k (eg_stripes g b) = Some (r, s')"
  shows "engine_inv e (account_removed e b (key_part e k) k r False (g\<lparr>eg_stripes := (eg_stripes g)(b := s')\<rparr>))"
proof (rule engine_inv_shrunk[OF inv])
  show "engine_ok e (account_removed e b (key_part e k) k r False (g\<lparr>eg_stripes := (eg_stripes g)(b := s')\<rparr>))"
    using inv by (intro remove_accounted[OF _ b rm]) (simp add: engine_inv_def)
qed (use remove_live_subset[OF rm] in \<open>auto simp: account_removed_def Let_def\<close>)

lemma invalidate_inv:
  assumes inv: "engine_inv e g" and hash: "hash = hash_key_bytes e k"
  shows "engine_inv e (snd (invalidate e k hash ver g))" and "engine_inv e (invalidate_local e k hash g)"
proof -
  define b where "b = stripe_index_from_hash hash"
  have b: "b < bucket_count" by (simp add: b_def)
  have p: "part_index_from_hash hash = key_part e k" by (simp add: hash key_part_def)
  define g1 where "g1 = g\<lparr>eg_stripes := (eg_stripes g)(b := invalidate_inflight k (eg_stripes g b))\<rparr>"
  have g1: "engine_inv e g1" "eg_stripes g1 b = invalidate_inflight k (eg_stripes g b)"
    using invalidate_inflight_inv[OF inv b] by (simp_all add: g1_def)
  have rm: "engine_inv e (account_removed e b (key_part e k) k r False (g1\<lparr>eg_stripes := (eg_stripes g1)(b := s')\<rparr>))"
    if "remove_live e k (invalidate_inflight k (eg_stripes g b)) = Some (r, s')" for r s'
    using that by (intro remove_accounted_inv[OF g1(1) b]) (simp add: g1(2))
  show "engine_inv e (snd (invalidate e k hash ver g))" "engine_inv e (invalidate_local e k hash g)"
    unfolding invalidate_def invalidate_local_def Let_def b_def[symmetric] p g1_def[symmetric]
    using inv g1 rm by (auto split: option.split)
qed

section \<open>Release keeps the invariant and removes exactly its parts\<close>

lemma held_digest_parts:
  "held_digest e p {#i \<in># M. \<not> Q (key_part e (fst i))#} = (if Q p then 0 else held_digest e p M)"
  by (induction M) (auto simp: item_part_def)

text \<open>What \<open>release_bucket\<close> and \<open>release_mask\<close> do to a stripe, for the parts \<open>Q\<close>.\<close>

definition stripe_released :: "externs \<Rightarrow> (nat \<Rightarrow> bool) \<Rightarrow> 'v stripe \<Rightarrow> live list \<Rightarrow> 'v stripe \<Rightarrow> bool" where
  "stripe_released e Q s dropped s' \<longleftrightarrow>
     mset (st_live s') = {#l \<in># mset (st_live s). \<not> Q (key_part e (live_key e l))#} \<and>
     mset dropped = {#l \<in># mset (st_live s). Q (key_part e (live_key e l))#} \<and>
     st_tombstones s' = bm_retain (\<lambda>k _. \<not> Q (key_part e k)) (st_tombstones s) \<and>
     st_long_ttl s' = bm_retain (\<lambda>k _. \<not> Q (key_part e k)) (st_long_ttl s) \<and>
     (st_next_expiry s' = st_next_expiry s \<or> st_live s' = [])"

lemma bm_get_retain_keys: "bm_get (bm_retain (\<lambda>k _. P k) m) k = (if P k then bm_get m k else None)"
  by (auto simp: bm_get_retain split: option.split)

lemma stripe_released_live:
  assumes "stripe_released e Q s dropped s'"
  shows "set (st_live s') = {l \<in> set (st_live s). \<not> Q (key_part e (live_key e l))}"
    and "live_keys e s' = {k \<in> live_keys e s. \<not> Q (key_part e k)}"
proof -
  have "mset (st_live s') = {#l \<in># mset (st_live s). \<not> Q (key_part e (live_key e l))#}"
    using assms by (simp add: stripe_released_def)
  from arg_cong[OF this, of set_mset]
  show "set (st_live s') = {l \<in> set (st_live s). \<not> Q (key_part e (live_key e l))}" by simp
  then show "live_keys e s' = {k \<in> live_keys e s. \<not> Q (key_part e k)}" by (auto simp: live_keys_def)
qed

lemma stripe_released_ok:
  assumes ok: "stripe_ok e b s" and rel: "stripe_released e Q s dropped s'"
  shows "stripe_ok e b s'"
proof (rule stripe_ok_filtered[OF ok])
  show "mset (st_live s') = filter_mset (\<lambda>l. \<not> Q (key_part e (live_key e l))) (mset (st_live s))"
    using rel by (simp add: stripe_released_def)
  show "key_bucket e k = b \<and> k \<notin> live_keys e s'" if "bm_get (st_tombstones s') k = Some t" for k t
    using that rel stripe_okD(3)[OF ok, of k t] stripe_okD(2)[OF ok, of k]
    by (auto simp: stripe_released_def stripe_released_live(2)[OF rel] bm_get_retain_keys split: if_splits)
  show "bm_get (st_long_ttl s') k = (if k \<in> live_keys e s' then bm_get (st_long_ttl s) k else None)" for k
  proof (cases "bm_get (st_long_ttl s) k")
    case (Some d)
    then have "k \<in> live_keys e s" using stripe_okD(5)[OF ok, of k] by (auto simp: live_keys_def)
    then show ?thesis using rel Some by (simp add: stripe_released_live(2)[OF rel] stripe_released_def bm_get_retain_keys)
  qed (use rel in \<open>simp add: stripe_released_def bm_get_retain_keys\<close>)
  show "is_none_or (\<lambda>d. st_next_expiry s' \<le> d) (live_expires_at l (live_key e l) (st_long_ttl s))" if "l \<in> set (st_live s')" for l
    using that rel stripe_okD(6)[OF ok, of l] stripe_released_live(1)[OF rel] by (auto simp: stripe_released_def)
qed

lemma stripe_released_sums:
  assumes rel: "stripe_released e Q s dropped s'"
  shows "held e s' = {#i \<in># held e s. \<not> Q (key_part e (fst i))#}"
    and "stripe_weight s = sum_list (map (\<lambda>l. ucast (lv_weight l)) dropped) + stripe_weight s'"
    and "stripe_count s = of_nat (length dropped) + stripe_count s'"
proof -
  let ?P = "\<lambda>l. Q (key_part e (live_key e l))"
  have live: "mset (st_live s') = {#l \<in># mset (st_live s). \<not> ?P l#}" and drop: "mset dropped = {#l \<in># mset (st_live s). ?P l#}"
    and tombs: "st_tombstones s' = bm_retain (\<lambda>k _. \<not> Q (key_part e k)) (st_tombstones s)"
    using rel by (simp_all add: stripe_released_def)
  have "image_mset (live_item e) (mset (st_live s')) =
      {#i \<in># image_mset (live_item e) (mset (st_live s)). \<not> Q (key_part e (fst i))#}"
    by (simp add: live filter_mset_image_mset live_item_def comp_def)
  moreover have "image_mset tombstone_item (mset (bm_entries (st_tombstones s'))) =
      {#i \<in># image_mset tombstone_item (mset (bm_entries (st_tombstones s))). \<not> Q (key_part e (fst i))#}"
    by (simp add: tombs bm_entries_retain filter_mset_image_mset tombstone_item_def comp_def case_prod_unfold)
  ultimately show "held e s' = {#i \<in># held e s. \<not> Q (key_part e (fst i))#}" by (simp add: held_def)
  have split: "mset (st_live s) = mset dropped + mset (st_live s')" by (simp add: live drop multiset_partition[symmetric])
  then have "stripe_weight s = sum_mset (image_mset (\<lambda>l. ucast (lv_weight l)) (mset dropped)) + stripe_weight s'"
    by (simp add: stripe_weight_def)
  then show "stripe_weight s = sum_list (map (\<lambda>l. ucast (lv_weight l)) dropped) + stripe_weight s'"
    by (simp flip: sum_mset_sum_list)
  have "length (st_live s) = length dropped + length (st_live s')" using arg_cong[OF split, of size] by simp
  then show "stripe_count s = of_nat (length dropped) + stripe_count s'" by (simp add: stripe_count_def)
qed

lemma stripe_released_cell:
  assumes ok: "stripe_ok e b s" and rel: "stripe_released e Q s dropped s'"
  shows "cell_at e s' k = (if Q (key_part e k) then None else cell_at e s k)"
proof (cases "Q (key_part e k)")
  case True
  then have "k \<notin> live_keys e s'" "bm_get (st_tombstones s') k = None"
    using rel by (simp_all add: stripe_released_live(2)[OF rel] stripe_released_def bm_get_retain_keys)
  then show ?thesis using True by (simp add: cell_at_def arena_find_keys[THEN iffD2])
next
  case False
  have "arena_find e k (st_live s') = arena_find e k (st_live s)"
    using False stripe_released_live(1)[OF rel]
    by (intro arena_find_cong stripe_okD(1)[OF stripe_released_ok[OF ok rel]] stripe_okD(1)[OF ok]) auto
  moreover have "live_cell e (st_long_ttl s') l = live_cell e (st_long_ttl s) l" if "live_key e l = k" for l
    using that rel False by (auto simp: live_cell_def live_expires_at_def decode_expiry_def stripe_released_def bm_get_retain_keys)
  ultimately show ?thesis
    using False rel arena_find_Some[of e k "st_live s"]
    by (cases "arena_find e k (st_live s)") (auto simp: cell_at_def stripe_released_def bm_get_retain_keys split: option.split)
qed

lemma release_step:
  assumes inv: "engine_inv e g" and b: "b < bucket_count"
    and rel: "stripe_released e Q (eg_stripes g b) dropped s'"
    and g': "g' = account_dropped dropped
      (g\<lparr>eg_stripes := (eg_stripes g)(b := s'), eg_digest := clear_digests b Q (eg_digest g)\<rparr>)"
  shows "engine_inv e g'" and "settings g' = settings g"
    and "engine_cell e g' k = (if key_bucket e k = b \<and> Q (key_part e k) then None else engine_cell e g k)"
proof -
  have ok: "engine_ok e g" and sok: "stripe_ok e b (eg_stripes g b)" using inv b by (simp_all add: engine_inv_def engine_ok_def)
  note eqs = g' account_dropped_counters
  have "engine_ok e g'"
  proof (rule engine_ok_stripe[OF ok b stripe_released_ok[OF sok rel]])
    show "eg_digest g' (digest_slot b p) = held_digest e p (held e s')"
      if "p < part_count" "eg_digest g (digest_slot b p) = held_digest e p (held e (eg_stripes g b))" for p
      using that by (auto simp: eqs clear_digests_eq stripe_released_sums(1)[OF rel] held_digest_parts digest_slot_inj)
    show "eg_digest g' (digest_slot b' p) = eg_digest g (digest_slot b' p)" if "b' \<noteq> b" "p < part_count" for b' p
      using that by (auto simp: eqs clear_digests_eq digest_slot_inj)
  qed (use stripe_released_sums(2,3)[OF rel] in \<open>simp_all add: eqs\<close>)
  then show "engine_inv e g'"
    by (rule engine_inv_shrunk[OF inv]) (auto simp: eqs stripe_released_live(1)[OF rel])
  show "settings g' = settings g" by (simp add: eqs)
  show "engine_cell e g' k = (if key_bucket e k = b \<and> Q (key_part e k) then None else engine_cell e g k)"
    using stripe_released_cell[OF sok rel, of k] by (auto simp: engine_cell_def eqs)
qed

lemma bm_retain_none: "bm_retain (\<lambda>_ _. False) m = bm_empty"
  by (rule bm_ext) (simp add: bm_get_retain_keys)

lemma release_bucket_step:
  assumes "engine_inv e g" and "b < bucket_count" and "release_bucket b g = (n, m, g')"
  shows "engine_inv e g'" and "settings g' = settings g"
    and "engine_cell e g' k = (if key_bucket e k = b then None else engine_cell e g k)"
proof -
  let ?s = "(eg_stripes g b)\<lparr>st_live := [], st_tombstones := bm_empty, st_long_ttl := bm_empty, st_next_expiry := u64_max\<rparr>"
  have rel: "stripe_released e (\<lambda>_. True) (eg_stripes g b) (st_live (eg_stripes g b)) ?s"
    by (simp add: stripe_released_def bm_retain_none)
  have g': "g' = account_dropped (st_live (eg_stripes g b))
      (g\<lparr>eg_stripes := (eg_stripes g)(b := ?s), eg_digest := clear_digests b (\<lambda>_. True) (eg_digest g)\<rparr>)"
    using assms(3) by (simp add: release_bucket_def Let_def)
  show "engine_inv e g'" "settings g' = settings g"
    "engine_cell e g' k = (if key_bucket e k = b then None else engine_cell e g k)"
    using release_step[OF assms(1,2) rel g'] by simp_all
qed

lemma release_mask_step:
  assumes "engine_inv e g" and "b < bucket_count" and "release_mask e b pm g = (n, m, g')"
  shows "engine_inv e g'" and "settings g' = settings g"
    and "engine_cell e g' k = (if key_bucket e k = b \<and> bit pm (key_part e k) then None else engine_cell e g k)"
proof -
  have one: "pm AND push_bit p 1 \<noteq> 0 \<longleftrightarrow> bit pm p" for p by (simp add: and_exp_eq_0_iff_not_bit)
  have relk: "released e pm key \<longleftrightarrow> bit pm (key_part e key)" for key unfolding released_def one key_part_def ..
  obtain kept dropped where ret: "arena_retain (\<lambda>l. \<not> released e pm (live_key e l)) 0 (st_live (eg_stripes g b)) = (kept, dropped)"
    by fastforce
  define s' where "s' = (eg_stripes g b)\<lparr>st_live := kept,
      st_tombstones := bm_retain (\<lambda>key _. \<not> released e pm key) (st_tombstones (eg_stripes g b)),
      st_long_ttl := bm_retain (\<lambda>key _. \<not> released e pm key) (st_long_ttl (eg_stripes g b))\<rparr>"
  have rel: "stripe_released e (bit pm) (eg_stripes g b) dropped s'"
    using arena_retain_mset[OF ret] by (simp add: stripe_released_def s'_def relk)
  have g': "g' = account_dropped dropped
      (g\<lparr>eg_stripes := (eg_stripes g)(b := s'), eg_digest := clear_digests b (bit pm) (eg_digest g)\<rparr>)"
    using assms(3) unfolding release_mask_def Let_def ret prod.case one s'_def[symmetric] by simp
  show "engine_inv e g'" "settings g' = settings g"
    "engine_cell e g' k = (if key_bucket e k = b \<and> bit pm (key_part e k) then None else engine_cell e g k)"
    using release_step[OF assms(1,2) rel g'] by simp_all
qed

lemma release_buckets_step:
  assumes "release_buckets bs (n, g) = (n', g')" and "engine_inv e g"
  shows "engine_inv e g'" and "settings g' = settings g"
    and "engine_cell e g' k = (if key_bucket e k \<in> unat ` set bs then None else engine_cell e g k)"
proof -
  have "engine_inv e g' \<and> settings g' = settings g \<and>
    engine_cell e g' k = (if key_bucket e k \<in> unat ` set bs then None else engine_cell e g k)"
    using assms
  proof (induction bs arbitrary: n g)
    case (Cons b bs)
    show ?case
    proof (cases "bucket_count \<le> unat b")
      case True
      then have "key_bucket e k \<noteq> unat b" using key_bucket_lt[of e k] by linarith
      then show ?thesis using Cons True by simp
    next
      case False
      obtain l m g1 where r: "release_bucket (unat b) g = (l, m, g1)" by (metis prod_cases3)
      note step = release_bucket_step[OF Cons.prems(2) _ r]
      have rest: "release_buckets bs (sat_add (sat_add n l) m, g1) = (n', g')" using Cons.prems(1) False by (simp add: r)
      from Cons.IH[OF rest] step False show ?thesis by auto
    qed
  qed simp
  then show "engine_inv e g'" "settings g' = settings g"
    "engine_cell e g' k = (if key_bucket e k \<in> unat ` set bs then None else engine_cell e g k)" by blast+
qed

lemma release_masks_step:
  assumes "release_masks e ms (n, g) = (n', g')" and "engine_inv e g" and "\<forall>(b, pm) \<in> set ms. unat b < bucket_count"
  shows "engine_inv e g'" and "settings g' = settings g"
    and "engine_cell e g' k =
      (if \<exists>(b, pm) \<in> set ms. key_bucket e k = unat b \<and> bit pm (key_part e k) then None else engine_cell e g k)"
proof -
  have "engine_inv e g' \<and> settings g' = settings g \<and> engine_cell e g' k =
      (if \<exists>(b, pm) \<in> set ms. key_bucket e k = unat b \<and> bit pm (key_part e k) then None else engine_cell e g k)"
    using assms
  proof (induction ms arbitrary: n g)
    case (Cons bm ms)
    obtain b pm where bm: "bm = (b, pm)" by (cases bm)
    have b: "unat b < bucket_count" and ms: "\<forall>(b, pm) \<in> set ms. unat b < bucket_count" using Cons.prems(3) by (simp_all add: bm)
    obtain n1 g1 where rest: "release_masks e ms (n1, g1) = (n', g')" and step: "engine_inv e g1" "settings g1 = settings g"
      "engine_cell e g1 k = (if key_bucket e k = unat b \<and> bit pm (key_part e k) then None else engine_cell e g k)"
    proof (cases "pm = u64_max")
      case True
      obtain r g1 where r: "release_buckets [b] (0, g) = (r, g1)" by fastforce
      have "bit pm (key_part e k)" using key_part_lt[of e k] by (simp add: True part_count_def)
      with release_buckets_step[OF r Cons.prems(2)] that[of "sat_add n r" g1] show thesis
        using Cons.prems(1) True r by (auto simp: bm)
    next
      case False
      obtain l m g1 where r: "release_mask e (unat b) pm g = (l, m, g1)" by (metis prod_cases3)
      with release_mask_step[OF Cons.prems(2) b r] that[of "sat_add (sat_add n l) m" g1] show thesis
        using Cons.prems(1) False by (auto simp: bm)
    qed
    from Cons.IH[OF rest step(1) ms] step(2,3) show ?case by (auto simp: bm)
  qed simp
  then show "engine_inv e g'" "settings g' = settings g" "engine_cell e g' k =
      (if \<exists>(b, pm) \<in> set ms. key_bucket e k = unat b \<and> bit pm (key_part e k) then None else engine_cell e g k)" by blast+
qed

lemma part_masks_bits:
  "bit (map_or 0 id (bm_get (part_masks parts) b)) q \<longleftrightarrow> (\<exists>p \<in> set parts. part_bucket p = b \<and> unat (part_part p) = q)"
proof -
  let ?add = "\<lambda>p m. bm_insert (part_bucket p) (map_or 0 id (bm_get m (part_bucket p)) OR push_bit (unat (part_part p)) 1) m"
  have lt: "unat (part_part p) < 64" for p
  proof -
    have "unat (part_raw p) < 2 ^ 16" using unsigned_less[of "part_raw p"] by simp
    then have "unat (drop_bit 10 (part_raw p)) < 64"
      unfolding unsigned_drop_bit_eq by (simp add: drop_bit_eq_div less_mult_imp_div_less take_bit_nat_eq_self)
    then show ?thesis by (simp add: part_part_def unsigned_ucast_eq take_bit_nat_eq_self)
  qed
  have pb: "bit (push_bit (unat (part_part p)) 1 :: u64) q \<longleftrightarrow> unat (part_part p) = q" for p
    using lt[of p] by (auto simp: bit_exp_iff)
  have "bit (map_or 0 id (bm_get (fold ?add parts m) b)) q \<longleftrightarrow>
      bit (map_or 0 id (bm_get m b)) q \<or> (\<exists>p \<in> set parts. part_bucket p = b \<and> unat (part_part p) = q)"
    for m :: "(u16, u64) btree_map"
    by (induction parts arbitrary: m) (auto simp: bit_or_iff pb simp del: push_bit_of_1)
  then show ?thesis by (simp add: part_masks_def)
qed

lemma part_masks_buckets:
  assumes "bm_get (part_masks parts) b = Some pm"
  shows "unat b < bucket_count"
proof -
  define add where "add = (\<lambda>p m. bm_insert (part_bucket p)
    (map_or 0 id (bm_get m (part_bucket p)) OR push_bit (unat (part_part p)) 1 :: u64) m)"
  have add: "bm_get (add p m) b = Some pm \<Longrightarrow> unat b < bucket_count \<or> bm_get m b = Some pm" for p m
    using part_bucket_lt[of p] by (auto simp: add_def split: if_splits)
  have "bm_get (fold add parts m) b = Some pm \<Longrightarrow> unat b < bucket_count \<or> bm_get m b = Some pm" for m
    using add by (induction parts arbitrary: m) auto
  from this[of bm_empty] show ?thesis using assms unfolding part_masks_def add_def by auto
qed

lemma part_of_key_iff:
  "part_bucket p = part_bucket (part_of_key e k) \<and> part_part p = part_part (part_of_key e k) \<longleftrightarrow> p = part_of_key e k"
  by (metis part_new_split)

lemma release_parts_exact:
  assumes order: "\<And>xs. mset (order xs) = mset xs" and inv: "engine_inv e g"
    and run: "release_parts e order parts g = (n, g')"
  shows "engine_inv e g'" and "settings g' = settings g"
    and "engine_cell e g' k = (if part_of_key e k \<in> set parts then None else engine_cell e g k)"
proof -
  have set: "set (order (bm_entries (part_masks parts))) = set (bm_entries (part_masks parts))"
    by (metis order set_mset_mset)
  have lt: "\<forall>(b, pm) \<in> set (order (bm_entries (part_masks parts))). unat b < bucket_count"
    unfolding set using part_masks_buckets by (auto simp: in_bm_entries_iff)
  have "(\<exists>(b, pm) \<in> set (bm_entries (part_masks parts)). key_bucket e k = unat b \<and> bit pm (key_part e k)) \<longleftrightarrow>
      bit (map_or 0 id (bm_get (part_masks parts) (part_bucket (part_of_key e k)))) (key_part e k)"
  proof -
    have "key_bucket e k = unat b \<longleftrightarrow> b = part_bucket (part_of_key e k)" for b
      using part_bucket_from_hash[of "hash_key_bytes e k"] by (auto simp: key_bucket_def part_of_key_def word_unat_eq_iff)
    then show ?thesis
      by (cases "bm_get (part_masks parts) (part_bucket (part_of_key e k))") (auto simp: in_bm_entries_iff Bex_def)
  qed
  also have "\<dots> \<longleftrightarrow> part_of_key e k \<in> set parts"
    unfolding part_masks_bits using part_part_from_hash[of "hash_key_bytes e k"] part_of_key_iff[of _ e k]
    by (auto simp: key_part_def part_of_key_def word_unat_eq_iff)
  finally have named: "(\<exists>(b, pm) \<in> set (order (bm_entries (part_masks parts))). key_bucket e k = unat b \<and> bit pm (key_part e k)) \<longleftrightarrow>
      part_of_key e k \<in> set parts" unfolding set .
  note step = release_masks_step[OF run[unfolded release_parts_def] inv lt]
  show "engine_inv e g'" "settings g' = settings g" using step(1,2) by blast+
  show "engine_cell e g' k = (if part_of_key e k \<in> set parts then None else engine_cell e g k)"
    using step(3)[of k] unfolding named .
qed

lemma cell_at_held: "cell_at e s k \<noteq> None \<longleftrightarrow> k \<in> live_keys e s \<or> bm_get (st_tombstones s) k \<noteq> None"
  using arena_find_keys[of e k s] by (cases "bm_get (st_tombstones s) k") (auto simp: cell_at_def)

lemma held_parts_exact:
  assumes ok: "engine_ok e g"
  shows "set (held_parts e g) = {part_of_key e k | k. engine_cell e g k \<noteq> None}"
    and "sorted_wrt (<) (map part_index (held_parts e g))"
proof -
  let ?items = "\<lambda>b. map (\<lambda>l. part_from_hash (hash_key_bytes e (live_key e l))) (st_live (eg_stripes g b)) @
    map (\<lambda>key. part_from_hash (hash_key_bytes e key)) (bm_keys (st_tombstones (eg_stripes g b)))"
  let ?step = "\<lambda>b ps. let s = eg_stripes g b
      in if length (st_live s) = 0 \<and> bm_entries (st_tombstones s) = [] then ps
         else part_set_extend (map (\<lambda>l. part_from_hash (hash_key_bytes e (live_key e l))) (st_live s) @
                               map (\<lambda>key. part_from_hash (hash_key_bytes e key)) (bm_keys (st_tombstones s))) ps"
  have step: "?step b = parts.extend (?items b)" for b
    by (rule ext) (auto simp: Let_def parts.extend_def part_set_extend_def bm_keys_def)
  have fold: "part_set_ok ps \<Longrightarrow> part_set_ok (fold ?step bs ps) \<and>
      part_members (fold ?step bs ps) = (\<Union>b \<in> set bs. set (?items b)) \<union> part_members ps" for bs ps
    unfolding step by (induction bs arbitrary: ps) (simp_all add: parts.extend_ok Un_assoc Un_left_commute)
  have mem: "part_set_ok (fold ?step [0..<bucket_count] part_set_new)"
    "part_members (fold ?step [0..<bucket_count] part_set_new) = (\<Union>b < bucket_count. set (?items b))"
    using fold[OF parts.empty_ok(1), of "[0..<bucket_count]"] by (auto simp: parts.empty_ok(2) atLeast_upt)
  have items: "set (?items b) = part_of_key e ` {k. cell_at e (eg_stripes g b) k \<noteq> None}" for b
  proof -
    have "{k. cell_at e (eg_stripes g b) k \<noteq> None} = live_keys e (eg_stripes g b) \<union> set (bm_keys (st_tombstones (eg_stripes g b)))"
      by (simp only: cell_at_held set_bm_keys bm_contains_def) blast
    then show ?thesis by (simp only: image_Un live_keys_def) (auto simp: part_of_key_def)
  qed
  have "(\<Union>b < bucket_count. set (?items b)) = {part_of_key e k | k. engine_cell e g k \<noteq> None}"
  proof -
    have own: "key_bucket e k = b" if "b < bucket_count" "cell_at e (eg_stripes g b) k \<noteq> None" for b k
    proof -
      have sok: "stripe_ok e b (eg_stripes g b)" using that(1) ok by (simp add: engine_ok_def)
      show ?thesis using that(2)[unfolded cell_at_held] stripe_okD(2)[OF sok, of k] stripe_okD(3)[OF sok, of k] by blast
    qed
    show ?thesis unfolding items engine_cell_def using own key_bucket_lt[of e] by (fastforce simp del: not_None_eq)
  qed
  then show "set (held_parts e g) = {part_of_key e k | k. engine_cell e g k \<noteq> None}"
    unfolding held_parts_def parts.iter_members(1)[OF mem(1)] mem(2) .
  show "sorted_wrt (<) (map part_index (held_parts e g))"
    unfolding held_parts_def by (rule part_set_iter_sorted[OF mem(1)])
qed

end
