(* ===== verification/Engine_Housekeeping.thy ===== *)
theory Engine_Housekeeping
  imports Engine_Removal
begin

text \<open>
  Housekeeping on \<open>Engine\<close> (\<^verbatim>\<open>engine/housekeeping.rs\<close>): tombstone collection
  with the pause guard, the expiry sweep, and the compaction scan and replacement. The lemmas show
  that each keeps the engine invariant, that collection drops exactly the lapsed tombstones, and that
  the sweep, although it skips stripes whose next expiry is not due, removes exactly the entries that
  lapsed. The spare capacity of a slab is not part of the model, so the shrinking at the end of a scan,
  which moves no entry, does not appear in \<open>compact\<close>.
\<close>

section \<open>Tombstone collection\<close>

text \<open>Taking the records \<open>items\<close> of stripe \<open>b\<close> out of its digests, one \<open>fetch_xor\<close> each.\<close>

definition digest_xor :: "externs \<Rightarrow> nat \<Rightarrow> (bytes \<times> hlc) list \<Rightarrow> (nat \<Rightarrow> u64) \<Rightarrow> nat \<Rightarrow> u64" where
  "digest_xor e b items digest =
     fold (\<lambda>(key_bytes, ver) d.
        let slot = digest_slot b (part_index_from_hash (hash_key_bytes e key_bytes))
        in d(slot := d slot XOR entry_fingerprint e key_bytes ver)) items digest"

definition gc_collects :: "bool \<Rightarrow> u64 \<Rightarrow> tombstone \<Rightarrow> bool" where
  "gc_collects defer now_ms t \<longleftrightarrow>
     (let past_ttl = ts_ttl_deadline t \<le> now_ms; past_max = ts_max_deadline t \<le> now_ms
      in past_ttl \<and> (\<not> defer \<or> past_max))"

definition gc_stripe :: "externs \<Rightarrow> bool \<Rightarrow> u64 \<Rightarrow> nat \<Rightarrow> ('k, 'v) engine \<Rightarrow> ('k, 'v) engine" where
  "gc_stripe e defer now_ms idx g =
     (let s = eg_stripes g idx;
          collected = filter (\<lambda>(_, t). gc_collects defer now_ms t) (bm_entries (st_tombstones s));
          s = s\<lparr>st_tombstones := bm_retain (\<lambda>_ t. \<not> gc_collects defer now_ms t) (st_tombstones s)\<rparr>
      in g\<lparr>eg_stripes := (eg_stripes g)(idx := s),
           eg_digest := digest_xor e idx (map (\<lambda>(key_bytes, t). (key_bytes, ts_ver t)) collected) (eg_digest g)\<rparr>)"

definition gc_decide :: "bool \<Rightarrow> u64 \<Rightarrow> u64 \<Rightarrow> ('k, 'v) engine \<Rightarrow> bool \<times> u64 option \<times> ('k, 'v) engine" where
  "gc_decide defer now_ms tombstone_ttl_ms g =
     (if eg_pause_guard g
      then let prior = eg_last_gc_ms g; paused = paused_since prior now_ms tombstone_ttl_ms;
               hold = eg_pause_hold_until_ms g; (effective, entered) = gc_defer_decision defer paused hold now_ms
           in (effective, opt_filter entered (Some (sat_sub now_ms prior)),
               g\<lparr>eg_pause_hold_until_ms := pause_hold_after hold paused now_ms tombstone_ttl_ms,
                 eg_gc_deferring := effective, eg_last_gc_ms := max now_ms 1\<rparr>)
      else (defer, None, g\<lparr>eg_gc_deferring := defer\<rparr>))"

definition gc_tombstones :: "externs \<Rightarrow> bool \<Rightarrow> u64 \<Rightarrow> u64 \<Rightarrow> ('k, 'v) engine \<Rightarrow> u64 option \<times> ('k, 'v) engine" where
  "gc_tombstones e defer now_ms tombstone_ttl_ms g =
     (case gc_decide defer now_ms tombstone_ttl_ms g of
        (defer, entered_hold_gap, g) \<Rightarrow> (entered_hold_gap, fold (gc_stripe e defer now_ms) [0..<bucket_count] g))"

section \<open>The expiry sweep\<close>

definition entry_fate :: "externs \<Rightarrow> bool \<Rightarrow> u64 \<Rightarrow> ('k, 'v) engine \<Rightarrow> (bytes, u64) btree_map \<Rightarrow> live \<Rightarrow> sweep_fate" where
  "entry_fate e tombstones_expired now_ms g long_ttl l =
     (let key_bytes = live_key e l
      in sweep_fate (is_absent g l key_bytes long_ttl now_ms)
           (decode_expiry (lv_wall_ms l) (lv_expiry l) key_bytes long_ttl) now_ms tombstones_expired)"

definition swept_tombstone :: "u64 \<Rightarrow> tombstone_retention \<Rightarrow> hlc \<Rightarrow> u64 \<Rightarrow> tombstone" where
  "swept_tombstone now_ms retention ver lapsed_at =
     (let (ttl_deadline, max_deadline) = swept_tombstone_deadlines lapsed_at now_ms retention
      in \<lparr>ts_ver = ver, ts_ttl_deadline = ttl_deadline, ts_max_deadline = max_deadline, ts_expired_at = Some lapsed_at\<rparr>)"

definition sweep_stripe ::
  "externs \<Rightarrow> u64 \<Rightarrow> tombstone_retention option \<Rightarrow> nat \<Rightarrow> ('k, 'v) engine \<Rightarrow> ('k, 'v) engine" where
  "sweep_stripe e now_ms expiry_tombstones idx g =
     (let s = eg_stripes g idx;
          expires = (\<lambda>l. decode_expiry (lv_wall_ms l) (lv_expiry l) (live_key e l) (st_long_ttl s));
          fate = entry_fate e (expiry_tombstones \<noteq> None) now_ms g (st_long_ttl s);
          (kept, dropped) = arena_retain (\<lambda>l. fate l = Keep) 0 (st_live s);
          new_next = foldl min u64_max (List.map_filter expires kept);
          expired = List.map_filter (\<lambda>l. case (fate l, expires l) of
                      (Leave_Tombstone, Some lapsed_at) \<Rightarrow> Some (live_key e l, live_ver l, lapsed_at)
                    | _ \<Rightarrow> None) dropped;
          traceless = filter (\<lambda>l. \<not> (fate l = Leave_Tombstone \<and> expires l \<noteq> None)) dropped;
          cleared_long_ttl = map (live_key e) (filter (\<lambda>l. lv_expiry l = long_ttl_mark) dropped);
          tombstones = (case expiry_tombstones of
                          None \<Rightarrow> st_tombstones s
                        | Some retention \<Rightarrow>
                            fold (\<lambda>(key_bytes, ver, lapsed_at) m. bm_insert key_bytes (swept_tombstone now_ms retention ver lapsed_at) m)
                              expired (st_tombstones s));
          s = s\<lparr>st_live := kept, st_long_ttl := fold bm_remove cleared_long_ttl (st_long_ttl s),
                st_tombstones := tombstones, st_next_expiry := new_next\<rparr>
      in account_dropped dropped
           (g\<lparr>eg_stripes := (eg_stripes g)(idx := s),
              eg_digest := digest_xor e idx (map (live_item e) traceless) (eg_digest g)\<rparr>))"

definition sweep :: "externs \<Rightarrow> u64 \<Rightarrow> tombstone_retention option \<Rightarrow> ('k, 'v) engine \<Rightarrow> ('k, 'v) engine" where
  "sweep e now_ms expiry_tombstones g =
     fold (\<lambda>idx g.
        if \<not> st_next_expiry (eg_stripes g idx) \<le> now_ms \<and> eg_tti_ms g = None then g
        else sweep_stripe e now_ms expiry_tombstones idx g) [0..<bucket_count] g"

section \<open>Compaction\<close>

record 'k compact_candidate =
  cc_key :: 'k
  cc_key_bytes :: bytes
  cc_stale_ver :: hlc
  cc_new_encoded :: bytes

record compact_refusal =
  cf_key_bytes :: bytes
  cf_size :: nat

record 'k compact_scan =
  cs_candidates :: "'k compact_candidate list"
  cs_refused :: "compact_refusal list"
  cs_stripes_visited :: nat

record ('k, 'v) compact_replace =
  cp_key :: 'k
  cp_key_bytes :: bytes
  cp_hash :: u64
  cp_expected_ver :: hlc
  cp_new_ver :: hlc
  cp_value :: 'v
  cp_encoded :: bytes

definition should_shrink_stripe :: "nat \<Rightarrow> nat \<Rightarrow> bool" where
  "should_shrink_stripe len capacity \<longleftrightarrow> 0 < capacity \<and> len \<le> capacity div 8"

text \<open>One entry of the scan: a candidate, a refusal or nothing. Decoding a key is an argument.\<close>

definition compact_entry ::
  "externs \<Rightarrow> (bytes \<Rightarrow> 'k) \<Rightarrow> (bytes \<Rightarrow> bytes \<Rightarrow> bytes option) \<Rightarrow> merge_cap option \<Rightarrow> live
     \<Rightarrow> ('k compact_candidate + compact_refusal) option" where
  "compact_entry e decode_key compact_value cap l =
     (let encoded = record_value e (lv_record l); key_bytes = live_key e l
      in case compact_value key_bytes encoded of
           None \<Rightarrow> None
         | Some new_encoded \<Rightarrow>
             if is_some_and (\<lambda>cap. \<not> cap_admits cap (length key_bytes) (length new_encoded) (Some (length encoded))) cap
             then Some (Inr \<lparr>cf_key_bytes = key_bytes, cf_size = length new_encoded\<rparr>)
             else Some (Inl \<lparr>cc_key = decode_key key_bytes, cc_key_bytes = key_bytes, cc_stale_ver = live_ver l,
                             cc_new_encoded = new_encoded\<rparr>))"

text \<open>The stripes still to visit are the fuel: the loop ends after each was visited once.\<close>

fun compact_loop ::
  "(live \<Rightarrow> ('k compact_candidate + compact_refusal) option) \<Rightarrow> nat \<Rightarrow> nat \<Rightarrow> nat \<Rightarrow> nat \<Rightarrow> nat \<Rightarrow> nat
     \<Rightarrow> ('k compact_candidate + compact_refusal) list \<Rightarrow> ('k, 'v) engine
     \<Rightarrow> ('k compact_candidate + compact_refusal) list \<times> nat \<times> nat" where
  "compact_loop entry max_entries start 0 examined visited next_start out g = (out, visited, next_start)"
| "compact_loop entry max_entries start (Suc left) examined visited next_start out g =
     (let idx = (start + visited) mod bucket_count; visited = visited + 1; next_start = (idx + 1) mod bucket_count;
          lives = st_live (eg_stripes g idx); examined = examined + length lives;
          out = out @ List.map_filter entry lives
      in if max_entries \<le> examined then (out, visited, next_start)
         else compact_loop entry max_entries start left examined visited next_start out g)"

definition compact ::
  "externs \<Rightarrow> (bytes \<Rightarrow> 'k) \<Rightarrow> conflict_resolver \<Rightarrow> u64 \<Rightarrow> (writer_id \<Rightarrow> bool) \<Rightarrow> quiescence \<Rightarrow> compaction_bounds \<Rightarrow> nat
     \<Rightarrow> ('k, 'v) engine \<Rightarrow> 'k compact_scan \<times> ('k, 'v) engine" where
  "compact e decode_key r now_ms retire quiet bounds max_entries g =
     (if max_entries = 0 then (\<lparr>cs_candidates = [], cs_refused = [], cs_stripes_visited = 0\<rparr>, g)
      else
        let start = stripe_index_from_hash (eg_compact_cursor g);
            entry = compact_entry e decode_key (\<lambda>key encoded. cr_compact r key encoded now_ms retire quiet bounds) (engine_merge_cap g)
        in case compact_loop entry max_entries start bucket_count 0 0 start [] g of
             (out, visited, next_start) \<Rightarrow>
               (\<lparr>cs_candidates = List.map_filter (case_sum Some (\<lambda>_. None)) out,
                 cs_refused = List.map_filter (case_sum (\<lambda>_. None) Some) out, cs_stripes_visited = visited\<rparr>,
                g\<lparr>eg_compact_cursor := of_nat next_start\<rparr>))"

definition compact_replace_if_current ::
  "externs \<Rightarrow> ('k, 'v) compact_replace \<Rightarrow> ('k, 'v) engine \<Rightarrow> bool \<times> ('k, 'v) engine" where
  "compact_replace_if_current e replace g =
     (let key_bytes = cp_key_bytes replace; hash = cp_hash replace; expected_ver = cp_expected_ver replace;
          new_ver = cp_new_ver replace; bucket = stripe_index_from_hash hash; part = part_index_from_hash hash;
          s = eg_stripes g bucket
      in case slot_of (\<lambda>l. live_key e l = key_bytes) (st_live s) of
           None \<Rightarrow> (False, g)
         | Some i \<Rightarrow>
             let l = st_live s ! i
             in if live_ver l \<noteq> expected_ver then (False, g)
                else
                  let new_weight = map_or 1 (\<lambda>w. w (cp_key replace) (cp_value replace)) (eg_weigher g);
                      old_weight = lv_weight l;
                      abs_expiry = decode_expiry (lv_wall_ms l) (lv_expiry l) key_bytes (st_long_ttl s);
                      (expiry, long_ttl_value) = encode_expiry (wall_ms new_ver) abs_expiry;
                      rec = build_resident_record e (live_key e l) (cp_encoded replace);
                      l = (live_set_ver ((fst (set_record l rec None))\<lparr>lv_weight := new_weight\<rparr>) new_ver)\<lparr>lv_expiry := expiry\<rparr>;
                      s = s\<lparr>st_live := (st_live s)[i := l],
                            st_long_ttl := (case long_ttl_value of
                                              Some deadline \<Rightarrow> bm_insert key_bytes deadline (st_long_ttl s)
                                            | None \<Rightarrow> bm_remove key_bytes (st_long_ttl s))\<rparr>;
                      slot = digest_slot bucket part
                  in (True,
                      g\<lparr>eg_stripes := (eg_stripes g)(bucket := s),
                        eg_digest := (eg_digest g)(slot := eg_digest g slot XOR
                          (entry_fingerprint e key_bytes expected_ver XOR entry_fingerprint e key_bytes new_ver)),
                        eg_total_weight := eg_total_weight g + ucast new_weight - ucast old_weight\<rparr>))"

section \<open>Walking the stripes\<close>

lemma fold_stripes:
  assumes "distinct bs" and "set bs \<subseteq> {..< bucket_count}" and "I g"
    and step: "\<And>b g. b < bucket_count \<Longrightarrow> I g \<Longrightarrow>
      I (f b g) \<and> R b (eg_stripes g b) (eg_stripes (f b g) b) \<and> (\<forall>c. c \<noteq> b \<longrightarrow> eg_stripes (f b g) c = eg_stripes g c)"
  shows "I (fold f bs g) \<and>
    (\<forall>c. if c \<in> set bs then R c (eg_stripes g c) (eg_stripes (fold f bs g) c) else eg_stripes (fold f bs g) c = eg_stripes g c)"
  using assms(1-3)
proof (induction bs arbitrary: g)
  case (Cons b bs)
  have b: "b < bucket_count" "b \<notin> set bs" and bs: "distinct bs" "set bs \<subseteq> {..< bucket_count}" using Cons.prems by auto
  note one = step[OF b(1) Cons.prems(3)]
  note rest = Cons.IH[OF bs conjunct1[OF one]]
  show ?case
  proof (intro conjI allI)
    show "I (fold f (b # bs) g)" using rest by simp
    fix c show "if c \<in> set (b # bs) then R c (eg_stripes g c) (eg_stripes (fold f (b # bs) g) c)
        else eg_stripes (fold f (b # bs) g) c = eg_stripes g c"
    proof (cases "c = b")
      case True
      then show ?thesis using one spec[OF conjunct2[OF rest], of b] b(2) by simp
    next
      case False
      then show ?thesis using one spec[OF conjunct2[OF rest], of c] by (auto split: if_splits)
    qed
  qed
qed simp

lemma digest_xor_slot:
  assumes "p < part_count"
  shows "digest_xor e b items d (digest_slot b' p) =
    (if b' = b then d (digest_slot b p) XOR held_digest e p (mset items) else d (digest_slot b' p))"
proof (induction items arbitrary: d)
  case (Cons i items)
  obtain k v where i: "i = (k, v)" by (cases i)
  have k: "key_part e k < part_count" by simp
  have "digest_xor e b (i # items) d =
      digest_xor e b items (d(digest_slot b (key_part e k) := d (digest_slot b (key_part e k)) XOR entry_fingerprint e k v))"
    by (simp add: digest_xor_def i key_part_def Let_def)
  then show ?case using k assms by (simp add: Cons.IH i digest_slot_inj item_part_def xor.assoc del: key_part_lt)
qed (simp add: digest_xor_def)

lemma engine_ok_items:
  assumes ok: "engine_ok e g" and b: "b < bucket_count" and s: "stripe_ok e b s'"
    and stripes: "eg_stripes g' = (eg_stripes g)(b := s')" and digest: "eg_digest g' = digest_xor e b items (eg_digest g)"
    and held: "held e (eg_stripes g b) = mset items + held e s'"
    and weight: "eg_total_weight g' - stripe_weight s' = eg_total_weight g - stripe_weight (eg_stripes g b)"
    and count: "eg_live_count g' - stripe_count s' = eg_live_count g - stripe_count (eg_stripes g b)"
  shows "engine_ok e g'"
proof (rule engine_ok_stripe[OF ok b s stripes _ _ weight count])
  show "eg_digest g' (digest_slot b p) = held_digest e p (held e s')"
    if "p < part_count" "eg_digest g (digest_slot b p) = held_digest e p (held e (eg_stripes g b))" for p
    using that by (simp add: digest digest_xor_slot held held_digest_union xor.commute xor.left_commute)
qed (simp add: digest digest_xor_slot)

section \<open>Collection\<close>

lemma gc_stripe_step:
  assumes inv: "engine_inv e g" and b: "b < bucket_count"
  shows "engine_inv e (gc_stripe e df now b g)" and "c \<noteq> b \<Longrightarrow> eg_stripes (gc_stripe e df now b g) c = eg_stripes g c"
    and "cell_at e (eg_stripes (gc_stripe e df now b g) b) k =
      (case cell_at e (eg_stripes g b) k of
         Some (Cell_Tombstone t) \<Rightarrow> if gc_collects df now t then None else Some (Cell_Tombstone t)
       | x \<Rightarrow> x)"
proof -
  let ?s = "eg_stripes g b" and ?C = "gc_collects df now"
  define s' where "s' = ?s\<lparr>st_tombstones := bm_retain (\<lambda>_ t. \<not> ?C t) (st_tombstones ?s)\<rparr>"
  define items where "items = map (\<lambda>(key_bytes, t). (key_bytes, ts_ver t)) (filter (\<lambda>(_, t). ?C t) (bm_entries (st_tombstones ?s)))"
  have g': "gc_stripe e df now b g =
      g\<lparr>eg_stripes := (eg_stripes g)(b := s'), eg_digest := digest_xor e b items (eg_digest g)\<rparr>"
    by (simp add: gc_stripe_def s'_def items_def Let_def)
  have ok: "engine_ok e g" "stripe_ok e b ?s" using inv b by (simp_all add: engine_inv_def engine_ok_def)
  have get: "bm_get (st_tombstones s') k = Some t \<longleftrightarrow> bm_get (st_tombstones ?s) k = Some t \<and> \<not> ?C t" for k t
    by (auto simp: s'_def bm_get_retain split: option.split)
  have same: "st_live s' = st_live ?s" "st_long_ttl s' = st_long_ttl ?s" "st_next_expiry s' = st_next_expiry ?s"
    "live_keys e s' = live_keys e ?s" "stripe_weight s' = stripe_weight ?s" "stripe_count s' = stripe_count ?s"
    by (simp_all add: s'_def)
  have sok: "stripe_ok e b s'"
    unfolding stripe_ok_def same
  proof (intro conjI)
    show "\<forall>k \<in> live_keys e ?s. key_bucket e k = b \<and> length k < 2 ^ 32 \<and> bm_get (st_tombstones s') k = None"
      using stripe_okD(2)[OF ok(2)] get by (metis option.distinct(1) option.exhaust)
    show "\<forall>k. bm_get (st_tombstones s') k \<noteq> None \<longrightarrow> key_bucket e k = b"
      using stripe_okD(3)[OF ok(2)] get by blast
  qed (use ok(2) in \<open>simp_all add: stripe_ok_def\<close>)
  have "mset (bm_entries (st_tombstones ?s)) =
      mset (filter (\<lambda>(_, t). ?C t) (bm_entries (st_tombstones ?s))) + mset (bm_entries (st_tombstones s'))"
    by (simp add: s'_def bm_entries_retain case_prod_unfold multiset_partition[symmetric])
  from arg_cong[OF this, of "image_mset tombstone_item"] have held: "held e ?s = mset items + held e s'"
    by (simp add: held_def same(1) items_def tombstone_item_def[abs_def] case_prod_unfold)
  have "engine_ok e (gc_stripe e df now b g)"
    by (rule engine_ok_items[OF ok(1) b sok _ _ held]) (simp_all add: g' same)
  then show "engine_inv e (gc_stripe e df now b g)"
    by (rule engine_inv_shrunk[OF inv]) (auto simp: g' same)
  show "c \<noteq> b \<Longrightarrow> eg_stripes (gc_stripe e df now b g) c = eg_stripes g c" by (simp add: g')
  show "cell_at e (eg_stripes (gc_stripe e df now b g) b) k =
      (case cell_at e ?s k of
         Some (Cell_Tombstone t) \<Rightarrow> if ?C t then None else Some (Cell_Tombstone t) | x \<Rightarrow> x)"
  proof (cases "bm_get (st_tombstones ?s) k")
    case (Some t)
    have "arena_find e k (st_live ?s) = None"
      using Some stripe_okD(2)[OF ok(2), of k] arena_find_keys[of e k ?s] by auto
    then show ?thesis using Some get[of k] by (auto simp: g' cell_at_def same(1) s'_def bm_get_retain)
  next
    case None
    then show ?thesis
      by (simp add: g' cell_at_def s'_def bm_get_retain live_cell_def split: option.split)
  qed
qed

lemma engine_inv_clock [simp]:
  "engine_inv e (g\<lparr>eg_gc_deferring := a\<rparr>) = engine_inv e g" "engine_inv e (g\<lparr>eg_last_gc_ms := x\<rparr>) = engine_inv e g"
  "engine_inv e (g\<lparr>eg_pause_hold_until_ms := y\<rparr>) = engine_inv e g" "engine_inv e (g\<lparr>eg_compact_cursor := z\<rparr>) = engine_inv e g"
  by (simp_all add: engine_inv_def engine_ok_def weights_positive_def)

lemma gc_decide_same:
  assumes "gc_decide defer now ttl g = (d, gap, g1)"
  shows "engine_inv e g1 = engine_inv e g" and "eg_stripes g1 = eg_stripes g"
    and "eg_max_capacity g1 = eg_max_capacity g" and "eg_tti_ms g1 = eg_tti_ms g" and "eg_weigher g1 = eg_weigher g"
proof -
  have "\<exists>a x y. g1 = g\<lparr>eg_pause_hold_until_ms := y, eg_gc_deferring := a, eg_last_gc_ms := x\<rparr>"
  proof (cases "eg_pause_guard g")
    case True
    then show ?thesis using assms by (auto simp: gc_decide_def Let_def split: prod.splits)
  next
    case False
    then have "g1 = g\<lparr>eg_pause_hold_until_ms := eg_pause_hold_until_ms g, eg_gc_deferring := defer, eg_last_gc_ms := eg_last_gc_ms g\<rparr>"
      using assms by (auto simp: gc_decide_def)
    then show ?thesis by blast
  qed
  then show "engine_inv e g1 = engine_inv e g" "eg_stripes g1 = eg_stripes g"
    "eg_max_capacity g1 = eg_max_capacity g" "eg_tti_ms g1 = eg_tti_ms g" "eg_weigher g1 = eg_weigher g" by auto
qed

lemma gc_tombstones_exact:
  assumes inv: "engine_inv e g" and run: "gc_tombstones e defer now ttl g = (gap, g')"
  shows "engine_inv e g'"
    and "engine_cell e g' k =
      (case engine_cell e g k of
         Some (Cell_Tombstone t) \<Rightarrow>
           if gc_collects (fst (gc_decide defer now ttl g)) now t then None else Some (Cell_Tombstone t)
       | x \<Rightarrow> x)"
    and "eg_max_capacity g' = eg_max_capacity g" and "eg_weigher g' = eg_weigher g" and "eg_tti_ms g' = eg_tti_ms g"
proof -
  obtain d gap' g1 where dec: "gc_decide defer now ttl g = (d, gap', g1)" by (metis prod_cases3)
  note same = gc_decide_same[OF dec]
  have g': "g' = fold (gc_stripe e d now) [0..<bucket_count] g1" using run by (simp add: gc_tombstones_def dec)
  define I where "I = (\<lambda>g :: ('a, 'b) engine. engine_inv e g \<and> eg_max_capacity g = eg_max_capacity g1 \<and>
    eg_weigher g = eg_weigher g1 \<and> eg_tti_ms g = eg_tti_ms g1)"
  define R where "R = (\<lambda>(b :: nat) (s :: 'b stripe) (s' :: 'b stripe). \<forall>k. cell_at e s' k = (case cell_at e s k of
         Some (Cell_Tombstone t) \<Rightarrow> if gc_collects d now t then None else Some (Cell_Tombstone t) | x \<Rightarrow> x))"
  have walk: "I g' \<and> (\<forall>c. if c \<in> set [0..<bucket_count] then R c (eg_stripes g1 c) (eg_stripes g' c)
      else eg_stripes g' c = eg_stripes g1 c)"
    unfolding g'
  proof (rule fold_stripes)
    show "I g1" using inv by (simp add: I_def same)
    fix b and g :: "('a, 'b) engine" assume "b < bucket_count" "I g"
    then show "I (gc_stripe e d now b g) \<and> R b (eg_stripes g b) (eg_stripes (gc_stripe e d now b g) b) \<and>
        (\<forall>c. c \<noteq> b \<longrightarrow> eg_stripes (gc_stripe e d now b g) c = eg_stripes g c)"
      using gc_stripe_step[where e = e and g = g and b = b and df = d and now = now] by (auto simp: I_def R_def gc_stripe_def Let_def)
  qed auto
  then show "engine_inv e g'" "eg_max_capacity g' = eg_max_capacity g" "eg_weigher g' = eg_weigher g" "eg_tti_ms g' = eg_tti_ms g"
    by (simp_all add: I_def same)
  have "R (key_bucket e k) (eg_stripes g (key_bucket e k)) (eg_stripes g' (key_bucket e k))"
    using spec[OF conjunct2[OF walk], of "key_bucket e k"] by (simp add: same)
  then show "engine_cell e g' k =
      (case engine_cell e g k of
         Some (Cell_Tombstone t) \<Rightarrow>
           if gc_collects (fst (gc_decide defer now ttl g)) now t then None else Some (Cell_Tombstone t)
       | x \<Rightarrow> x)"
    unfolding R_def engine_cell_def dec fst_conv by blast
qed

section \<open>The sweep\<close>

lemma bm_fold_insert_fresh:
  assumes "distinct (map fst rows)" and "\<And>k. k \<in> fst ` set rows \<Longrightarrow> bm_get m k = None"
  shows "mset (bm_entries (fold (\<lambda>(k, v) m. bm_insert k v m) rows m)) = mset rows + mset (bm_entries m)"
    and "bm_get (fold (\<lambda>(k, v) m. bm_insert k v m) rows m) a = (case map_of rows a of Some v \<Rightarrow> Some v | None \<Rightarrow> bm_get m a)"
proof -
  have "mset (bm_entries (fold (\<lambda>(k, v) m. bm_insert k v m) rows m)) = mset rows + mset (bm_entries m) \<and>
    bm_get (fold (\<lambda>(k, v) m. bm_insert k v m) rows m) a = (case map_of rows a of Some v \<Rightarrow> Some v | None \<Rightarrow> bm_get m a)"
    using assms
  proof (induction rows arbitrary: m)
    case (Cons r rows)
    obtain k v where r: "r = (k, v)" by (cases r)
    have fresh: "\<And>a. a \<in> fst ` set rows \<Longrightarrow> bm_get (bm_insert k v m) a = None" "k \<notin> fst ` set rows" "distinct (map fst rows)"
      using Cons.prems by (auto simp: r)
    note IH = Cons.IH[OF fresh(3,1)]
    have "bm_get m k = None" using Cons.prems(2)[of k] by (simp add: r)
    then have "mset (bm_entries (bm_insert k v m)) = add_mset (k, v) (mset (bm_entries m))"
      by (simp add: mset_bm_entries_insert bm_remove_absent)
    moreover have "map_of rows k = None" using fresh(2) by (simp add: map_of_eq_None_iff)
    ultimately show ?case using IH by (cases "a = k") (simp_all add: r split: option.split)
  qed simp
  then show "mset (bm_entries (fold (\<lambda>(k, v) m. bm_insert k v m) rows m)) = mset rows + mset (bm_entries m)"
    "bm_get (fold (\<lambda>(k, v) m. bm_insert k v m) rows m) a = (case map_of rows a of Some v \<Rightarrow> Some v | None \<Rightarrow> bm_get m a)"
    by blast+
qed

lemma bm_get_fold_remove: "bm_get (fold bm_remove ks m) k = (if k \<in> set ks then None else bm_get m k)"
  by (induction ks arbitrary: m) auto

lemma foldl_min_le: "foldl min z xs \<le> z" "x \<in> set xs \<Longrightarrow> foldl min z xs \<le> x" for z :: "'a::linorder"
proof -
  have le: "foldl min z xs \<le> z" for z :: 'a and xs by (induction xs arbitrary: z) (auto intro: order_trans[OF _ min.cobounded1])
  then show "foldl min z xs \<le> z" .
  show "x \<in> set xs \<Longrightarrow> foldl min z xs \<le> x"
    by (induction xs arbitrary: z) (auto intro: order_trans[OF le min.cobounded2])
qed

lemma in_map_filter: "y \<in> set (List.map_filter f xs) \<longleftrightarrow> (\<exists>x \<in> set xs. f x = Some y)"
  by (induction xs) (auto simp: map_filter_simps split: option.split)

text \<open>What a sweep makes of the record of a key.\<close>

definition swept_cell ::
  "externs \<Rightarrow> u64 option \<Rightarrow> u64 \<Rightarrow> tombstone_retention option \<Rightarrow> 'v stripe \<Rightarrow> bytes \<Rightarrow> cell option" where
  "swept_cell e tti now_ms retention s k =
     (case arena_find e k (st_live s) of
        None \<Rightarrow> cell_at e s k
      | Some l \<Rightarrow>
          if \<not> absent_at l k (st_long_ttl s) tti now_ms then cell_at e s k
          else case (retention, live_expires_at l k (st_long_ttl s)) of
                 (Some r, Some d) \<Rightarrow> if d \<le> now_ms then Some (Cell_Tombstone (swept_tombstone now_ms r (live_ver l) d)) else None
               | _ \<Rightarrow> None)"

text \<open>
  The swept stripe, with its fates read off: the entries kept, the rows of tombstones left and the
  entries that leave no trace.
\<close>

definition swept_row :: "externs \<Rightarrow> u64 \<Rightarrow> tombstone_retention \<Rightarrow> (bytes, u64) btree_map \<Rightarrow> live \<Rightarrow> bytes \<times> tombstone" where
  "swept_row e now_ms retention tbl l =
     (live_key e l, swept_tombstone now_ms retention (live_ver l) (the (live_expires_at l (live_key e l) tbl)))"

definition leaves_tombstone :: "externs \<Rightarrow> u64 \<Rightarrow> tombstone_retention option \<Rightarrow> (bytes, u64) btree_map \<Rightarrow> live \<Rightarrow> bool" where
  "leaves_tombstone e now_ms retention tbl l \<longleftrightarrow>
     retention \<noteq> None \<and> is_some_and (\<lambda>d. d \<le> now_ms) (live_expires_at l (live_key e l) tbl)"

lemma leaves_tombstone_absent:
  "leaves_tombstone e now r tbl l \<Longrightarrow> absent_at l (live_key e l) tbl tti now"
  by (auto simp: leaves_tombstone_def absent_at_def absent_under_def live_expires_at_def)

lemma entry_fate_cases:
  "entry_fate e (r \<noteq> None) now g tbl l =
     (if \<not> absent_at l (live_key e l) tbl (eg_tti_ms g) now then Keep
      else if leaves_tombstone e now r tbl l then Leave_Tombstone else Drop)"
  by (simp add: entry_fate_def sweep_fate_def is_absent_def leaves_tombstone_def live_expires_at_def)

lemma map_filter_some: "(\<And>x. x \<in> set xs \<Longrightarrow> f x = (if P x then Some (h x) else None)) \<Longrightarrow> List.map_filter f xs = map h (filter P xs)"
  by (induction xs) (simp_all add: map_filter_simps)

lemma sweep_stripe_eq:
  assumes ret: "arena_retain (\<lambda>l. \<not> absent_at l (live_key e l) (st_long_ttl s) (eg_tti_ms g) now) 0 (st_live s) = (kept, dropped)"
    and s: "s = eg_stripes g b" and lt_def: "lt = leaves_tombstone e now retention (st_long_ttl s)"
  shows "sweep_stripe e now retention b g = account_dropped dropped
    (g\<lparr>eg_stripes := (eg_stripes g)(b := s\<lparr>st_live := kept,
         st_long_ttl := fold bm_remove (map (live_key e) (filter (\<lambda>l. lv_expiry l = long_ttl_mark) dropped)) (st_long_ttl s),
         st_tombstones := fold (\<lambda>(k, t) m. bm_insert k t m)
           (map (swept_row e now (the retention) (st_long_ttl s)) (filter lt dropped)) (st_tombstones s),
         st_next_expiry := foldl min u64_max
           (List.map_filter (\<lambda>l. live_expires_at l (live_key e l) (st_long_ttl s)) kept)\<rparr>),
       eg_digest := digest_xor e b (map (live_item e) (filter (\<lambda>l. \<not> lt l) dropped)) (eg_digest g)\<rparr>)"
proof -
  let ?tbl = "st_long_ttl s"
  have fate: "entry_fate e (retention \<noteq> None) now g ?tbl l = Keep \<longleftrightarrow> \<not> absent_at l (live_key e l) ?tbl (eg_tti_ms g) now" for l
    unfolding entry_fate_cases by simp
  have gone: "absent_at l (live_key e l) ?tbl (eg_tti_ms g) now" if "l \<in> set dropped" for l
    using arg_cong[OF arena_retain_mset(2)[OF ret], of set_mset] that by auto
  have lt: "entry_fate e (retention \<noteq> None) now g ?tbl l = Leave_Tombstone \<longleftrightarrow> lt l" for l
    using leaves_tombstone_absent[of e now retention ?tbl l "eg_tti_ms g"] unfolding entry_fate_cases lt_def by simp
  have some: "\<exists>d. live_expires_at l (live_key e l) ?tbl = Some d" if "lt l" for l
    using that by (auto simp: lt_def leaves_tombstone_def is_some_and_iff)
  have expired: "List.map_filter (\<lambda>l. case (entry_fate e (retention \<noteq> None) now g ?tbl l, live_expires_at l (live_key e l) ?tbl) of
        (Leave_Tombstone, Some lapsed_at) \<Rightarrow> Some (live_key e l, live_ver l, lapsed_at) | _ \<Rightarrow> None) dropped =
      map (\<lambda>l. (live_key e l, live_ver l, the (live_expires_at l (live_key e l) ?tbl))) (filter lt dropped)"
  proof (rule map_filter_some)
    fix l show "(case (entry_fate e (retention \<noteq> None) now g ?tbl l, live_expires_at l (live_key e l) ?tbl) of
        (Leave_Tombstone, Some lapsed_at) \<Rightarrow> Some (live_key e l, live_ver l, lapsed_at) | _ \<Rightarrow> None) =
      (if lt l then Some (live_key e l, live_ver l, the (live_expires_at l (live_key e l) ?tbl)) else None)"
      using some[of l] lt[of l] by (auto split: sweep_fate.split option.split)
  qed
  have traceless: "filter (\<lambda>l. \<not> (entry_fate e (retention \<noteq> None) now g ?tbl l = Leave_Tombstone \<and>
      live_expires_at l (live_key e l) ?tbl \<noteq> None)) dropped = filter (\<lambda>l. \<not> lt l) dropped"
    using some lt by (intro filter_cong) fastforce+
  have tombs: "(case retention of None \<Rightarrow> st_tombstones s
      | Some r \<Rightarrow> fold (\<lambda>(key_bytes, ver, lapsed_at) m. bm_insert key_bytes (swept_tombstone now r ver lapsed_at) m)
          (map (\<lambda>l. (live_key e l, live_ver l, the (live_expires_at l (live_key e l) ?tbl))) (filter lt dropped)) (st_tombstones s)) =
    fold (\<lambda>(k, t) m. bm_insert k t m) (map (swept_row e now (the retention) ?tbl) (filter lt dropped)) (st_tombstones s)"
  proof (cases retention)
    case None
    then have "filter lt dropped = []" by (simp add: lt_def leaves_tombstone_def)
    then show ?thesis by (simp add: None)
  qed (simp add: fold_map comp_def swept_row_def)
  show ?thesis
    unfolding sweep_stripe_def Let_def s[symmetric] fate ret prod.case expired[unfolded live_expires_at_def prod.case]
      traceless[unfolded live_expires_at_def] live_expires_at_def tombs[unfolded live_expires_at_def] ..
qed

lemma sweep_stripe_step:
  assumes inv: "engine_inv e g" and b: "b < bucket_count"
  shows "engine_inv e (sweep_stripe e now retention b g)" and "settings (sweep_stripe e now retention b g) = settings g"
    and "c \<noteq> b \<Longrightarrow> eg_stripes (sweep_stripe e now retention b g) c = eg_stripes g c"
    and "cell_at e (eg_stripes (sweep_stripe e now retention b g) b) k =
      swept_cell e (eg_tti_ms g) now retention (eg_stripes g b) k"
proof -
  define s where "s = eg_stripes g b"
  let ?tbl = "st_long_ttl s"
  define P where "P = (\<lambda>l. \<not> absent_at l (live_key e l) ?tbl (eg_tti_ms g) now)"
  define lt where "lt = leaves_tombstone e now retention ?tbl"
  obtain kept dropped where ret: "arena_retain P 0 (st_live s) = (kept, dropped)" by fastforce
  define rows where "rows = map (swept_row e now (the retention) ?tbl) (filter lt dropped)"
  define s' where "s' = s\<lparr>st_live := kept,
         st_long_ttl := fold bm_remove (map (live_key e) (filter (\<lambda>l. lv_expiry l = long_ttl_mark) dropped)) ?tbl,
         st_tombstones := fold (\<lambda>(k, t) m. bm_insert k t m) rows (st_tombstones s),
         st_next_expiry := foldl min u64_max (List.map_filter (\<lambda>l. live_expires_at l (live_key e l) ?tbl) kept)\<rparr>"
  have g': "sweep_stripe e now retention b g = account_dropped dropped
      (g\<lparr>eg_stripes := (eg_stripes g)(b := s'),
         eg_digest := digest_xor e b (map (live_item e) (filter (\<lambda>l. \<not> lt l) dropped)) (eg_digest g)\<rparr>)"
    unfolding s'_def rows_def by (rule sweep_stripe_eq[OF ret[unfolded P_def] s_def lt_def])
  have ok: "engine_ok e g" "stripe_ok e b s" using inv b by (simp_all add: engine_inv_def engine_ok_def s_def)
  note ms = arena_retain_mset[OF ret]
  have kept: "set kept = {l \<in> set (st_live s). P l}" and gone: "set dropped = {l \<in> set (st_live s). \<not> P l}"
    using arg_cong[OF ms(1), of set_mset] arg_cong[OF ms(2), of set_mset] by simp_all
  have key_inj: "l = l'" if "l \<in> set (st_live s)" "l' \<in> set (st_live s)" "live_key e l = live_key e l'" for l l'
    using that stripe_okD(1)[OF ok(2)] by (auto simp: distinct_map dest: inj_onD)
  have "mset (map (live_key e) dropped) = mset (map (live_key e) (filter (\<lambda>l. \<not> P l) (st_live s)))" by (simp add: ms)
  then have "distinct (map (live_key e) dropped)"
    using distinct_map_filter[OF stripe_okD(1)[OF ok(2)]] by (metis mset_eq_imp_distinct_iff)
  then have rows: "distinct (map fst rows)"
    unfolding rows_def map_map by (simp add: comp_def swept_row_def distinct_map_filter)
  have fresh: "bm_get (st_tombstones s) k = None" if "k \<in> fst ` set rows" for k
    using that stripe_okD(2)[OF ok(2), of k] gone by (auto simp: rows_def swept_row_def live_keys_def)
  note tombs = bm_fold_insert_fresh[OF rows fresh]
  have st': "st_live s' = kept" "live_keys e s' = live_key e ` set kept" by (simp_all add: s'_def live_keys_def)
  have sok: "stripe_ok e b s'"
  proof (rule stripe_ok_filtered[OF ok(2)])
    show "mset (st_live s') = filter_mset P (mset (st_live s))" by (simp add: st' ms)
    show "key_bucket e k = b \<and> k \<notin> live_keys e s'" if t: "bm_get (st_tombstones s') k = Some t" for k t
    proof (cases "map_of rows k")
      case None
      then have "bm_get (st_tombstones s) k = Some t" using t by (simp add: s'_def tombs(2))
      then show ?thesis using stripe_okD(2)[OF ok(2), of k] stripe_okD(3)[OF ok(2), of k t] kept by (auto simp: st' live_keys_def)
    next
      case (Some x)
      then obtain l where l: "l \<in> set dropped" "live_key e l = k"
        by (auto simp: rows_def swept_row_def dest!: map_of_SomeD)
      then have here: "l \<in> set (st_live s)" "\<not> P l" using gone by auto
      then have "key_bucket e k = b" using stripe_okD(2)[OF ok(2), of k] l(2) by (auto simp: live_keys_def)
      moreover have "k \<notin> live_keys e s'"
      proof
        assume "k \<in> live_keys e s'"
        then obtain l' where "l' \<in> set (st_live s)" "P l'" "live_key e l' = k" using kept by (auto simp: st')
        then show False using key_inj[of l l'] here l(2) by simp
      qed
      ultimately show ?thesis by simp
    qed
    show "bm_get (st_long_ttl s') k = (if k \<in> live_keys e s' then bm_get ?tbl k else None)" for k
    proof (cases "bm_get ?tbl k")
      case (Some d)
      then obtain l where l: "l \<in> set (st_live s)" "live_key e l = k" "lv_expiry l = long_ttl_mark"
        using stripe_okD(5)[OF ok(2), of k] by auto
      then have "k \<in> live_keys e s' \<longleftrightarrow> P l" using kept key_inj by (auto simp: st')
      moreover have "k \<in> live_key e ` {l \<in> set dropped. lv_expiry l = long_ttl_mark} \<longleftrightarrow> \<not> P l"
        using l gone key_inj by auto
      ultimately show ?thesis by (simp add: s'_def bm_get_fold_remove)
    qed (simp add: s'_def bm_get_fold_remove)
    show "is_none_or (\<lambda>d. st_next_expiry s' \<le> d) (live_expires_at l (live_key e l) ?tbl)" if "l \<in> set (st_live s')" for l
      using that foldl_min_le(2)[of _ "List.map_filter (\<lambda>l. live_expires_at l (live_key e l) ?tbl) kept"]
      by (cases "live_expires_at l (live_key e l) ?tbl") (auto simp: s'_def in_map_filter)
  qed
  have drop: "mset (st_live s) = mset dropped + mset kept"
    unfolding ms by (metis add.commute multiset_partition)
  have part: "mset dropped = mset (filter (\<lambda>l. \<not> lt l) dropped) + mset (filter lt dropped)"
    unfolding mset_filter by (metis add.commute multiset_partition)
  have rows_items: "image_mset tombstone_item (mset rows) = image_mset (live_item e) (mset (filter lt dropped))"
    by (simp add: rows_def image_mset.compositionality comp_def tombstone_item_def swept_row_def live_item_def[abs_def]
        swept_tombstone_def swept_tombstone_deadlines_def Let_def)
  have held: "held e s = mset (map (live_item e) (filter (\<lambda>l. \<not> lt l) dropped)) + held e s'"
    unfolding held_def st' drop
    by (simp add: tombs(1) s'_def rows_items arg_cong[OF part, of "image_mset (live_item e)", unfolded image_mset_union mset_filter])
  have weight: "stripe_weight s = sum_list (map (\<lambda>l. ucast (lv_weight l)) dropped) + stripe_weight s'"
    using drop by (simp add: stripe_weight_def st' flip: sum_mset_sum_list)
  have count: "stripe_count s = of_nat (length dropped) + stripe_count s'"
    using arg_cong[OF drop, of size] by (simp add: stripe_count_def st')
  have "engine_ok e (sweep_stripe e now retention b g)"
    using weight count by (intro engine_ok_items[OF ok(1) b sok _ _ held[unfolded s_def]])
      (simp_all add: g' account_dropped_counters s_def)
  then show "engine_inv e (sweep_stripe e now retention b g)"
    using kept by (intro engine_inv_shrunk[OF inv]) (auto simp: g' account_dropped_counters st' s_def)
  show "settings (sweep_stripe e now retention b g) = settings g" by (simp add: g' account_dropped_counters)
  show "c \<noteq> b \<Longrightarrow> eg_stripes (sweep_stripe e now retention b g) c = eg_stripes g c"
    by (simp add: g' account_dropped_counters)
  show "cell_at e (eg_stripes (sweep_stripe e now retention b g) b) k = swept_cell e (eg_tti_ms g) now retention (eg_stripes g b) k"
  proof -
    have map_of: "map_of rows k = Some t \<longleftrightarrow> (\<exists>l \<in> set dropped. lt l \<and> live_key e l = k \<and>
        t = swept_tombstone now (the retention) (live_ver l) (the (live_expires_at l k ?tbl)))" for t
      using rows by (auto simp: map_of_eq_Some_iff rows_def swept_row_def)
    have no_row: "map_of rows k = None" if "\<not> (\<exists>l \<in> set dropped. lt l \<and> live_key e l = k)"
      using map_of that by (cases "map_of rows k") auto
    have cell: "cell_at e s' k = (case map_of rows k of Some t \<Rightarrow> Some (Cell_Tombstone t)
        | None \<Rightarrow> case bm_get (st_tombstones s) k of Some t \<Rightarrow> Some (Cell_Tombstone t)
        | None \<Rightarrow> map_option (live_cell e (st_long_ttl s')) (arena_find e k kept))"
      by (simp add: cell_at_def st' s'_def tombs(2) split: option.split)
    have "cell_at e s' k = swept_cell e (eg_tti_ms g) now retention s k"
    proof (cases "arena_find e k (st_live s)")
      case None
      then have "k \<notin> live_keys e s" by (simp add: arena_find_keys)
      then have "map_of rows k = None" using gone by (intro no_row) (auto simp: live_keys_def)
      moreover have "arena_find e k kept = None"
        using \<open>k \<notin> live_keys e s\<close> kept arena_find_keys[of e k s'] by (auto simp: st' live_keys_def)
      ultimately show ?thesis using None by (simp add: cell swept_cell_def cell_at_def[of e s] split: option.split)
    next
      case (Some l)
      then have l: "l \<in> set (st_live s)" "live_key e l = k" using arena_find_Some[of e k "st_live s" l] by auto
      then have tomb: "bm_get (st_tombstones s) k = None" using stripe_okD(2)[OF ok(2), of k] by (auto simp: live_keys_def)
      show ?thesis
      proof (cases "P l")
        case True
        then have "arena_find e k kept = Some l"
          using l kept arena_find_iff[OF stripe_okD(1)[OF sok], of k l] by (simp add: st')
        moreover have "map_of rows k = None"
          using l True gone key_inj[of l] by (intro no_row) blast
        moreover have "live_cell e (st_long_ttl s') l = live_cell e ?tbl l"
        proof -
          have "k \<notin> live_key e ` {l \<in> set dropped. lv_expiry l = long_ttl_mark}" using l True gone key_inj by blast
          then show ?thesis using l(2) by (simp add: live_cell_def live_expires_at_def decode_expiry_def s'_def bm_get_fold_remove)
        qed
        moreover have "\<not> absent_at l k ?tbl (eg_tti_ms g) now" using True l(2) by (simp add: P_def)
        ultimately show ?thesis using Some tomb by (simp add: cell swept_cell_def cell_at_def[of e s])
      next
        case False
        then have "arena_find e k kept = None"
          using l kept key_inj arena_find_keys[of e k s'] by (auto simp: st')
        moreover have abs: "absent_at l k ?tbl (eg_tti_ms g) now" using False l(2) by (simp add: P_def)
        moreover have "map_of rows k = (if lt l then Some (swept_tombstone now (the retention) (live_ver l) (the (live_expires_at l k ?tbl))) else None)"
        proof (cases "lt l")
          case True
          then show ?thesis using map_of l False gone by auto
        next
          case no: False
          have "map_of rows k = None" using key_inj[of l] l no gone by (intro no_row) blast
          then show ?thesis using no by simp
        qed
        moreover have "lt l \<longleftrightarrow> retention \<noteq> None \<and> (\<exists>d. live_expires_at l k ?tbl = Some d \<and> d \<le> now)"
          using l(2) by (simp add: lt_def leaves_tombstone_def is_some_and_iff)
        ultimately show ?thesis using Some tomb by (auto simp: cell swept_cell_def split: option.splits)
      qed
    qed
    then show ?thesis by (simp add: g' account_dropped_counters s_def)
  qed
qed

lemma sweep_exact:
  assumes inv: "engine_inv e g"
  shows "engine_inv e (sweep e now retention g)" and "settings (sweep e now retention g) = settings g"
    and "engine_cell e (sweep e now retention g) k =
      swept_cell e (eg_tti_ms g) now retention (eg_stripes g (key_bucket e k)) k"
proof -
  let ?f = "\<lambda>idx g. if \<not> st_next_expiry (eg_stripes g idx) \<le> now \<and> eg_tti_ms g = None then g
        else sweep_stripe e now retention idx g"
  define I where "I = (\<lambda>g' :: ('a, 'b) engine. engine_inv e g' \<and> settings g' = settings g)"
  define R where "R = (\<lambda>(b :: nat) (s :: 'b stripe) (s' :: 'b stripe). \<forall>k. cell_at e s' k = swept_cell e (eg_tti_ms g) now retention s k)"
  have walk: "I (fold ?f [0..<bucket_count] g) \<and> (\<forall>c. if c \<in> set [0..<bucket_count]
      then R c (eg_stripes g c) (eg_stripes (fold ?f [0..<bucket_count] g) c)
      else eg_stripes (fold ?f [0..<bucket_count] g) c = eg_stripes g c)"
  proof (rule fold_stripes)
    show "I g" using inv by (simp add: I_def)
    fix b and g' :: "('a, 'b) engine" assume b: "b < bucket_count" and I: "I g'"
    have tti: "eg_tti_ms g' = eg_tti_ms g" using I settings_eq[of g' g] by (simp add: I_def)
    show "I (?f b g') \<and> R b (eg_stripes g' b) (eg_stripes (?f b g') b) \<and> (\<forall>c. c \<noteq> b \<longrightarrow> eg_stripes (?f b g') c = eg_stripes g' c)"
    proof (cases "\<not> st_next_expiry (eg_stripes g' b) \<le> now \<and> eg_tti_ms g' = None")
      case True
      have sok: "stripe_ok e b (eg_stripes g' b)" using I b by (simp add: I_def engine_inv_def engine_ok_def)
      have "\<not> absent_at l k (st_long_ttl (eg_stripes g' b)) None now"
        if "arena_find e k (st_live (eg_stripes g' b)) = Some l" for k l
        using that True stripe_okD(6)[OF sok, of l] arena_find_Some[of e k "st_live (eg_stripes g' b)" l]
        by (cases "live_expires_at l k (st_long_ttl (eg_stripes g' b))")
          (auto simp: absent_at_def absent_under_def idle_at_def live_expires_at_def)
      then have "R b (eg_stripes g' b) (eg_stripes g' b)"
        using True tti by (auto simp: R_def swept_cell_def split: option.split)
      then show ?thesis using True I by simp
    next
      case False
      then show ?thesis
        using sweep_stripe_step[of e g' b] I b tti by (auto simp: I_def R_def)
    qed
  qed auto
  then show "engine_inv e (sweep e now retention g)" "settings (sweep e now retention g) = settings g"
    by (simp_all add: I_def sweep_def)
  show "engine_cell e (sweep e now retention g) k = swept_cell e (eg_tti_ms g) now retention (eg_stripes g (key_bucket e k)) k"
    using spec[OF conjunct2[OF walk], of "key_bucket e k"] by (simp add: R_def engine_cell_def sweep_def)
qed

section \<open>Compaction keeps the invariant\<close>

lemma stripe_ok_perm:
  assumes "mset (st_live s') = mset (st_live s)" and "st_tombstones s' = st_tombstones s" "st_long_ttl s' = st_long_ttl s"
    and "st_next_expiry s' = st_next_expiry s"
  shows "stripe_ok e b s' = stripe_ok e b s" and "held e s' = held e s" and "stripe_weight s' = stripe_weight s"
    and "stripe_count s' = stripe_count s" and "stripe_ok e b s \<Longrightarrow> cell_at e s' = cell_at e s"
proof -
  have set: "set (st_live s') = set (st_live s)" using arg_cong[OF assms(1), of set_mset] by simp
  have "mset (map (live_key e) (st_live s')) = mset (map (live_key e) (st_live s))" by (simp add: assms(1))
  then have "distinct (map (live_key e) (st_live s')) = distinct (map (live_key e) (st_live s))"
    by (rule mset_eq_imp_distinct_iff)
  then show ok: "stripe_ok e b s' = stripe_ok e b s" by (simp add: stripe_ok_def live_keys_def set assms(2-4))
  show "held e s' = held e s" "stripe_weight s' = stripe_weight s" by (simp_all add: held_def stripe_weight_def assms)
  show "stripe_count s' = stripe_count s" using arg_cong[OF assms(1), of size] by (simp add: stripe_count_def)
  show "cell_at e s' = cell_at e s" if "stripe_ok e b s"
  proof
    fix k
    have "arena_find e k (st_live s') = arena_find e k (st_live s)"
      using that ok by (intro arena_find_cong) (auto simp: set stripe_ok_def)
    then show "cell_at e s' k = cell_at e s k" by (simp add: cell_at_def assms(2,3) split: option.split)
  qed
qed

text \<open>
  An entry replaced in place, its deadline kept: the stripe is the one that loses the old entry and
  gains the new one, up to the order of the arena.
\<close>

lemma replace_live:
  assumes ok: "stripe_ok e b s" and ext: "externs_ok e"
    and i: "slot_of (\<lambda>l. live_key e l = k) (st_live s) = Some i" and old: "l = st_live s ! i"
    and enc: "encode_expiry (wall_ms ver) (live_expires_at l k (st_long_ttl s)) = (expiry, row)"
    and new: "live_key e l' = k" "record_value e (lv_record l') = encoded" "live_ver l' = ver" "lv_wall_ms l' = wall_ms ver"
      "lv_expiry l' = expiry"
    and s': "s' = s\<lparr>st_live := (st_live s)[i := l'],
      st_long_ttl := (case row of Some d \<Rightarrow> bm_insert k d (st_long_ttl s) | None \<Rightarrow> bm_remove k (st_long_ttl s))\<rparr>"
  shows "stripe_ok e b s'" and "stripe_weight s' = stripe_weight s - ucast (lv_weight l) + ucast (lv_weight l')"
    and "stripe_count s' = stripe_count s"
    and "\<exists>M. held e s = add_mset (k, live_ver l) M \<and> held e s' = add_mset (k, ver) M"
    and "cell_at e s' = (cell_at e s)(k \<mapsto> Cell_Live ver encoded (live_expires_at l k (st_long_ttl s)))"
proof -
  have lt: "i < length (st_live s)" "live_key e l = k" using slot_of_Some[OF i] by (simp_all add: old)
  obtain r s1 where rm: "remove_live e k s = Some (r, s1)"
    using remove_live_None[of e k s] lt old by (cases "remove_live e k s") (auto simp: live_keys_def)
  then have s1: "s1 = s\<lparr>st_live := swap_remove i (st_live s), st_long_ttl := bm_remove k (st_long_ttl s)\<rparr>"
    and r: "rl_ver r = live_ver l" "rl_weight r = lv_weight l"
    using i by (auto simp: remove_live_def arena_remove_def old split: option.splits)
  note rok = remove_live_ok[OF ok rm]
  let ?x = "live_expires_at l k (st_long_ttl s)"
  have kk: "key_bucket e k = b" "length k < 2 ^ 32" "bm_get (st_tombstones s) k = None" using stripe_okD(2)[OF ok rok(4)] by auto
  define s2 where "s2 = s1\<lparr>st_live := arena_insert l' (st_live s1),
    st_long_ttl := (case row of None \<Rightarrow> st_long_ttl s1 | Some d \<Rightarrow> bm_insert k d (st_long_ttl s1))\<rparr>"
  have nx: "st_next_expiry s2 = (case ?x of None \<Rightarrow> st_next_expiry s1 | Some exp \<Rightarrow> min (st_next_expiry s1) exp)"
    using stripe_okD(6)[OF ok nth_mem[OF lt(1), folded old]] lt(2) by (auto simp: s2_def s1 min_def split: option.split)
  have clear: "bm_get (st_tombstones s1) k = None" using kk(3) by (simp add: s1)
  have sub: "st_live s2 = arena_insert l' (st_live s1)" "st_tombstones s2 = st_tombstones s1"
    "st_long_ttl s2 = (case row of None \<Rightarrow> st_long_ttl s1 | Some d \<Rightarrow> bm_insert k d (st_long_ttl s1))" by (simp_all add: s2_def)
  have enc': "encode_expiry (lv_wall_ms l') ?x = (lv_expiry l', row)" by (simp add: new enc)
  have s2: "stripe_ok e b s2"
    by (rule insert_live_ok[OF rok(1) rok(2)[folded new(1)] clear[folded new(1)] kk(1,2)[folded new(1)] enc'])
      (simp_all only: sub new(1) nx)
  have cell2: "cell_at e s2 = (cell_at e s1)(k \<mapsto> Cell_Live ver encoded ?x)"
    using cell_at_insert_live[OF rok(2)[folded new(1)] clear[folded new(1)] enc' sub(1,2)] by (simp only: sub(3) new simp_thms)
  have "mset (st_live s') = mset (st_live s2)"
    using lt(1) arg_cong[OF mset_swap_remove[OF lt(1)], of "\<lambda>M. M - {#st_live s ! i#}"]
    by (simp add: s' s2_def s1 arena_insert_def mset_update)
  have "st_long_ttl s' = st_long_ttl s2" by (auto simp: s' s2_def s1 intro!: bm_ext split: option.split)
  have same: "st_tombstones s' = st_tombstones s2" "st_next_expiry s' = st_next_expiry s2" by (simp_all add: s' s2_def s1)
  note perm = stripe_ok_perm[OF \<open>mset (st_live s') = mset (st_live s2)\<close> same(1) \<open>st_long_ttl s' = st_long_ttl s2\<close> same(2)]
  show "stripe_ok e b s'" using perm(1) s2 by simp
  note ins = insert_live_sums(1)[OF sub(1,2), of e, unfolded new] insert_live_sums(2,3)[OF sub(1,2)]
  note sums = remove_live_sums[OF rm]
  show "stripe_weight s' = stripe_weight s - ucast (lv_weight l) + ucast (lv_weight l')" "stripe_count s' = stripe_count s"
    using ins(2,3) sums(2,3) perm(3,4) by (simp_all add: r)
  show "\<exists>M. held e s = add_mset (k, live_ver l) M \<and> held e s' = add_mset (k, ver) M"
    using ins(1) sums(1) perm(2) by (auto simp: r)
  show "cell_at e s' = (cell_at e s)(k \<mapsto> Cell_Live ver encoded ?x)"
    using perm(5)[OF s2] cell2 cell_at_remove_live[OF ok rm] by simp
qed

lemma compact_replace_exact:
  assumes inv: "engine_inv e g" and ext: "externs_ok e" and hash: "cp_hash rp = hash_key_bytes e (cp_key_bytes rp)"
    and run: "compact_replace_if_current e rp g = (replaced, g')"
  shows "engine_inv e g'" and "settings g' = settings g"
    and "replaced \<Longrightarrow> \<exists>enc x. engine_cell e g (cp_key_bytes rp) = Some (Cell_Live (cp_expected_ver rp) enc x) \<and>
      engine_cell e g' = (engine_cell e g)(cp_key_bytes rp \<mapsto> Cell_Live (cp_new_ver rp) (cp_encoded rp) x)"
    and "\<not> replaced \<Longrightarrow> g' = g"
proof -
  let ?k = "cp_key_bytes rp" and ?b = "key_bucket e (cp_key_bytes rp)"
  have ix: "stripe_index_from_hash (cp_hash rp) = ?b" "part_index_from_hash (cp_hash rp) = key_part e ?k"
    by (simp_all add: hash key_bucket_def key_part_def)
  have ok: "engine_ok e g" "stripe_ok e ?b (eg_stripes g ?b)" using inv by (simp_all add: engine_inv_def engine_ok_def)
  have "engine_inv e g' \<and> settings g' = settings g \<and> (\<not> replaced \<longrightarrow> g' = g) \<and>
    (replaced \<longrightarrow> (\<exists>enc x. engine_cell e g ?k = Some (Cell_Live (cp_expected_ver rp) enc x) \<and>
      engine_cell e g' = (engine_cell e g)(?k \<mapsto> Cell_Live (cp_new_ver rp) (cp_encoded rp) x)))"
  proof (cases replaced)
    case False
    then have "g' = g" using run by (auto simp: compact_replace_if_current_def Let_def split: option.splits if_splits prod.splits)
    then show ?thesis using False inv by simp
  next
    case True
    define s where "s = eg_stripes g ?b"
    obtain i where i: "slot_of (\<lambda>l. live_key e l = ?k) (st_live s) = Some i" and cur: "live_ver (st_live s ! i) = cp_expected_ver rp"
      using run True unfolding compact_replace_if_current_def Let_def ix s_def[symmetric] by (auto split: option.splits if_splits)
    define l where "l = st_live s ! i"
    obtain expiry row where enc: "encode_expiry (wall_ms (cp_new_ver rp)) (live_expires_at l ?k (st_long_ttl s)) = (expiry, row)"
      by fastforce
    define w where "w = map_or 1 (\<lambda>w. w (cp_key rp) (cp_value rp)) (eg_weigher g)"
    define l' where "l' = (live_set_ver ((fst (set_record l (build_resident_record e (live_key e l) (cp_encoded rp)) None))\<lparr>lv_weight := w\<rparr>)
      (cp_new_ver rp))\<lparr>lv_expiry := expiry\<rparr>"
    define s' where "s' = s\<lparr>st_live := (st_live s)[i := l'], st_long_ttl :=
      (case row of Some d \<Rightarrow> bm_insert ?k d (st_long_ttl s) | None \<Rightarrow> bm_remove ?k (st_long_ttl s))\<rparr>"
    let ?slot = "digest_slot ?b (key_part e ?k)"
    have g': "g' = g\<lparr>eg_stripes := (eg_stripes g)(?b := s'), eg_digest := (eg_digest g)(?slot := eg_digest g ?slot XOR
        (entry_fingerprint e ?k (cp_expected_ver rp) XOR entry_fingerprint e ?k (cp_new_ver rp))),
        eg_total_weight := eg_total_weight g + ucast w - ucast (lv_weight l)\<rparr>"
      using run True i cur enc unfolding compact_replace_if_current_def Let_def ix s_def[symmetric]
      by (simp add: l_def[symmetric] w_def[symmetric] live_expires_at_def l'_def s'_def)
    have old: "i < length (st_live s)" "live_key e l = ?k" using slot_of_Some[OF i] by (simp_all add: l_def)
    have "?k \<in> live_keys e s" unfolding live_keys_def old(2)[symmetric] l_def by (intro imageI nth_mem old(1))
    then have len: "length ?k < 2 ^ 32" and clear: "bm_get (st_tombstones s) ?k = None"
      using stripe_okD(2)[OF ok(2)[folded s_def], of ?k] by blast+
    have new: "live_key e l' = ?k" "record_value e (lv_record l') = cp_encoded rp" "live_ver l' = cp_new_ver rp"
      "lv_wall_ms l' = wall_ms (cp_new_ver rp)" "lv_expiry l' = expiry" "lv_weight l' = w"
      using ext len old(2)[unfolded live_key_def] by (simp_all add: l'_def live_key_def set_record_def live_set_ver_def live_ver_def)
    note rep = replace_live[OF ok(2)[folded s_def] ext i l_def enc new(1-5) s'_def]
    obtain M where M: "held e s = add_mset (?k, live_ver l) M" "held e s' = add_mset (?k, cp_new_ver rp) M" using rep(4) by auto
    have "balanced e (key_part e ?k) (eg_stripes g ?b, eg_digest g ?slot, eg_total_weight g, eg_live_count g)
        (s', eg_digest g ?slot XOR (entry_fingerprint e ?k (cp_expected_ver rp) XOR entry_fingerprint e ?k (cp_new_ver rp)),
         eg_total_weight g + ucast w - ucast (lv_weight l), eg_live_count g)"
      using M rep(2,3) cur unfolding s_def[symmetric]
      by (intro balanced_replace[where M = M]) (simp_all add: xor.assoc l_def new(6))
    then have ok': "engine_ok e g'"
      by (intro engine_ok_balanced[OF ok(1) key_bucket_lt key_part_lt rep(1)]) (simp_all add: g')
    have pos: "0 < w" if "weigher_positive (eg_weigher g)"
      using that by (cases "eg_weigher g") (simp_all add: w_def weigher_positive_def)
    have "weights_positive g'" if "weigher_positive (eg_weigher g)"
    proof -
      have wp: "weights_positive g" using inv that by (simp add: engine_inv_def)
      have "is_spill_candidate x" if x: "x \<in> set (st_live s')" for x
      proof (cases "x = l'")
        case True
        then show ?thesis using pos[OF \<open>weigher_positive (eg_weigher g)\<close>] by (simp add: is_spill_candidate_def new(6))
      next
        case False
        then have "x \<in> set (st_live s)" using x set_update_subset_insert[of "st_live s" i l'] by (auto simp: s'_def)
        then show ?thesis using wp key_bucket_lt[of e ?k] by (fastforce simp: weights_positive_def s_def simp del: key_bucket_lt)
      qed
      then show ?thesis using wp by (simp add: weights_positive_def g')
    qed
    then have "engine_inv e g'" using ok' by (simp add: engine_inv_def g')
    moreover have "engine_cell e g ?k = Some (Cell_Live (cp_expected_ver rp) (record_value e (lv_record l)) (live_expires_at l ?k (st_long_ttl s)))"
    proof -
      have "arena_find e ?k (st_live s) = Some l" using i arena_find_slot[of e ?k "st_live s"] by (simp add: l_def)
      then show ?thesis using clear cur old(2) by (simp add: engine_cell_def cell_at_def live_cell_def s_def[symmetric] l_def[symmetric])
    qed
    moreover have "engine_cell e g' = (engine_cell e g)(?k \<mapsto> Cell_Live (cp_new_ver rp) (cp_encoded rp) (live_expires_at l ?k (st_long_ttl s)))"
      using rep(5) by (auto simp: engine_cell_def g' fun_eq_iff s_def)
    ultimately show ?thesis using True by (auto simp: g')
  qed
  then show "engine_inv e g'" "settings g' = settings g" "\<not> replaced \<Longrightarrow> g' = g"
    "replaced \<Longrightarrow> \<exists>enc x. engine_cell e g (cp_key_bytes rp) = Some (Cell_Live (cp_expected_ver rp) enc x) \<and>
      engine_cell e g' = (engine_cell e g)(cp_key_bytes rp \<mapsto> Cell_Live (cp_new_ver rp) (cp_encoded rp) x)"
    by blast+
qed

lemma compact_frame:
  assumes "compact e dk r now retire quiet bounds n g = (scan, g')"
  shows "engine_inv e g' = engine_inv e g" and "engine_cell e g' = engine_cell e g"
    and "eg_max_capacity g' = eg_max_capacity g" and "eg_weigher g' = eg_weigher g" and "eg_tti_ms g' = eg_tti_ms g"
proof -
  have "\<exists>c. g' = g\<lparr>eg_compact_cursor := c\<rparr>"
  proof (cases "n = 0")
    case True
    then have "g' = g\<lparr>eg_compact_cursor := eg_compact_cursor g\<rparr>" using assms by (simp add: compact_def)
    then show ?thesis ..
  qed (use assms in \<open>auto simp: compact_def Let_def split: prod.splits\<close>)
  then show "engine_inv e g' = engine_inv e g" "engine_cell e g' = engine_cell e g"
    "eg_max_capacity g' = eg_max_capacity g" "eg_weigher g' = eg_weigher g" "eg_tti_ms g' = eg_tti_ms g"
    by (auto simp: engine_cell_def fun_eq_iff)
qed

end
