(* ===== verification/Engine_Read.thy ===== *)
theory Engine_Read
  imports Engine_Removal
begin

text \<open>
  Reads on \<open>Engine\<close>: the point reads of \<^verbatim>\<open>engine/read.rs\<close> and the anti-entropy
  listings, digests and snapshot of \<^verbatim>\<open>engine/serve.rs\<close>. Encoding a key and decoding a
  key or a value are arguments. A read that counts as an access stamps the entry it returns: the
  lemmas show that this leaves the invariant and every record as they were, that a read returns what
  the record of its key holds, that the part listing agrees with the bucket listing and that the
  digests are those of the records held.
\<close>

section \<open>Point reads\<close>

text \<open>The entry a read finds, and the engine with that entry stamped.\<close>

definition visible_entry :: "externs \<Rightarrow> bytes \<Rightarrow> u64 \<Rightarrow> u64 \<Rightarrow> ('k, 'v) engine \<Rightarrow> live option" where
  "visible_entry e key_bytes hash now_ms g =
     (let s = eg_stripes g (stripe_index_from_hash hash)
      in case arena_find e key_bytes (st_live s) of
           None \<Rightarrow> None
         | Some l \<Rightarrow> if is_absent g l key_bytes (st_long_ttl s) now_ms then None else Some l)"

definition touch_entry :: "externs \<Rightarrow> bytes \<Rightarrow> u64 \<Rightarrow> u64 \<Rightarrow> ('k, 'v) engine \<Rightarrow> ('k, 'v) engine" where
  "touch_entry e key_bytes hash now_ms g =
     (let bucket = stripe_index_from_hash hash; s = eg_stripes g bucket
      in case slot_of (\<lambda>l. live_key e l = key_bytes) (st_live s) of
           None \<Rightarrow> g
         | Some i \<Rightarrow>
             g\<lparr>eg_stripes := (eg_stripes g)(bucket := s\<lparr>st_live := (st_live s)[i := touch g now_ms (st_live s ! i)]\<rparr>)\<rparr>)"

definition get_by_bytes ::
  "externs \<Rightarrow> (bytes \<Rightarrow> 'v) \<Rightarrow> bytes \<Rightarrow> u64 \<Rightarrow> u64 \<Rightarrow> ('k, 'v) engine \<Rightarrow> 'v option \<times> ('k, 'v) engine" where
  "get_by_bytes e decode_value key_bytes hash now_ms g =
     (case visible_entry e key_bytes hash now_ms g of
        None \<Rightarrow> (None, g)
      | Some l \<Rightarrow> (Some (decode_value (record_value e (lv_record l))), touch_entry e key_bytes hash now_ms g))"

definition get ::
  "externs \<Rightarrow> ('k \<Rightarrow> bytes option) \<Rightarrow> (bytes \<Rightarrow> 'v) \<Rightarrow> 'k \<Rightarrow> u64 \<Rightarrow> ('k, 'v) engine \<Rightarrow> 'v option \<times> ('k, 'v) engine" where
  "get e encode_key decode_value key now_ms g =
     (case encode_key key of
        None \<Rightarrow> (None, g)
      | Some key_bytes \<Rightarrow> get_by_bytes e decode_value key_bytes (hash_key_bytes e key_bytes) now_ms g)"

definition get_with_lifetime ::
  "externs \<Rightarrow> (bytes \<Rightarrow> 'v) \<Rightarrow> bytes \<Rightarrow> u64 \<Rightarrow> u64 \<Rightarrow> ('k, 'v) engine \<Rightarrow> ('v \<times> hlc \<times> u64 option) option \<times> ('k, 'v) engine" where
  "get_with_lifetime e decode_value key_bytes hash now_ms g =
     (case visible_entry e key_bytes hash now_ms g of
        None \<Rightarrow> (None, g)
      | Some l \<Rightarrow>
          (Some (decode_value (record_value e (lv_record l)), live_ver l,
                 decode_expiry (lv_wall_ms l) (lv_expiry l) key_bytes (st_long_ttl (eg_stripes g (stripe_index_from_hash hash)))),
           touch_entry e key_bytes hash now_ms g))"

definition lifetime_of :: "externs \<Rightarrow> bytes \<Rightarrow> u64 \<Rightarrow> u64 \<Rightarrow> ('k, 'v) engine \<Rightarrow> (hlc \<times> u64 option) option" where
  "lifetime_of e key_bytes hash now_ms g =
     map_option (\<lambda>l. (live_ver l,
         decode_expiry (lv_wall_ms l) (lv_expiry l) key_bytes (st_long_ttl (eg_stripes g (stripe_index_from_hash hash)))))
       (visible_entry e key_bytes hash now_ms g)"

datatype local_record =
    Rec_Absent
  | Rec_Tombstone hlc
  | Rec_Live hlc "u64 option" bool
  | Rec_Lapsed hlc "u64 option" lapse

definition inspect :: "externs \<Rightarrow> bytes \<Rightarrow> u64 \<Rightarrow> ('k, 'v) engine \<Rightarrow> local_record" where
  "inspect e key_bytes now_ms g =
     (let hash = hash_key_bytes e key_bytes; s = eg_stripes g (stripe_index_from_hash hash)
      in case bm_get (st_tombstones s) key_bytes of
           Some t \<Rightarrow> Rec_Tombstone (ts_ver t)
         | None \<Rightarrow>
             (case arena_find e key_bytes (st_live s) of
                None \<Rightarrow> Rec_Absent
              | Some l \<Rightarrow>
                  let version = live_ver l; expires_at_ms = decode_expiry (lv_wall_ms l) (lv_expiry l) key_bytes (st_long_ttl s)
                  in if is_absent g l key_bytes (st_long_ttl s) now_ms
                     then Rec_Lapsed version expires_at_ms (lapse_cause expires_at_ms now_ms)
                     else Rec_Live version expires_at_ms False))"

definition contains_key ::
  "externs \<Rightarrow> ('k \<Rightarrow> bytes option) \<Rightarrow> 'k \<Rightarrow> u64 \<Rightarrow> ('k, 'v) engine \<Rightarrow> bool \<times> ('k, 'v) engine" where
  "contains_key e encode_key key now_ms g =
     (case encode_key key of
        None \<Rightarrow> (False, g)
      | Some key_bytes \<Rightarrow>
          let hash = hash_key_bytes e key_bytes
          in case visible_entry e key_bytes hash now_ms g of
               None \<Rightarrow> (False, g)
             | Some _ \<Rightarrow> (True, touch_entry e key_bytes hash now_ms g))"

definition visible_lives :: "externs \<Rightarrow> u64 \<Rightarrow> ('k, 'v) engine \<Rightarrow> nat \<Rightarrow> live list" where
  "visible_lives e now_ms g b =
     (let s = eg_stripes g b in filter (\<lambda>l. \<not> is_absent g l (live_key e l) (st_long_ttl s) now_ms) (st_live s))"

definition keys :: "externs \<Rightarrow> (bytes \<Rightarrow> 'k) \<Rightarrow> u64 \<Rightarrow> ('k, 'v) engine \<Rightarrow> 'k list" where
  "keys e decode_key now_ms g =
     concat (map (\<lambda>b. map (\<lambda>l. decode_key (live_key e l)) (visible_lives e now_ms g b)) [0..<bucket_count])"

definition record_scoped :: "externs \<Rightarrow> bytes \<Rightarrow> u64 \<Rightarrow> lapsed \<Rightarrow> ('k, 'v) engine \<Rightarrow> wire_record option" where
  "record_scoped e key_bytes now_ms lapsed g =
     (let hash = hash_key_bytes e key_bytes; s = eg_stripes g (stripe_index_from_hash hash)
      in case bm_get (st_tombstones s) key_bytes of
           Some t \<Rightarrow> Some \<lparr>wr_key = key_bytes, wr_value = None, wr_ver = ts_ver t, wr_expires = ts_expired_at t\<rparr>
         | None \<Rightarrow>
             (case arena_find e key_bytes (st_live s) of
                None \<Rightarrow> None
              | Some l \<Rightarrow>
                  if absent_under l key_bytes (st_long_ttl s) (eg_tti_ms g) now_ms lapsed then None
                  else Some \<lparr>wr_key = key_bytes, wr_value = Some (record_value e (lv_record l)), wr_ver = live_ver l,
                             wr_expires = decode_expiry (lv_wall_ms l) (lv_expiry l) key_bytes (st_long_ttl s)\<rparr>))"

definition record_for :: "externs \<Rightarrow> bytes \<Rightarrow> u64 \<Rightarrow> ('k, 'v) engine \<Rightarrow> wire_record option" where
  "record_for e key_bytes now_ms g = record_scoped e key_bytes now_ms Hidden g"

definition written_record_for :: "externs \<Rightarrow> bytes \<Rightarrow> u64 \<Rightarrow> ('k, 'v) engine \<Rightarrow> wire_record option" where
  "written_record_for e key_bytes now_ms g = record_scoped e key_bytes now_ms Shown g"

datatype ttl = Never | Remaining u64

text \<open>The remaining lifetime in milliseconds: the source wraps it in a \<open>Duration\<close>.\<close>

definition ttl_of :: "externs \<Rightarrow> bytes \<Rightarrow> u64 \<Rightarrow> u64 \<Rightarrow> ('k, 'v) engine \<Rightarrow> ttl option" where
  "ttl_of e key_bytes hash now_ms g =
     map_option (\<lambda>l. case decode_expiry (lv_wall_ms l) (lv_expiry l) key_bytes
                            (st_long_ttl (eg_stripes g (stripe_index_from_hash hash))) of
                       None \<Rightarrow> Never
                     | Some deadline \<Rightarrow> Remaining (sat_sub deadline now_ms))
       (visible_entry e key_bytes hash now_ms g)"

section \<open>Anti-entropy serving\<close>

type_synonym key_version = "bytes \<times> hlc"

definition stripe_listing :: "externs \<Rightarrow> u64 \<Rightarrow> ('k, 'v) engine \<Rightarrow> nat \<Rightarrow> key_version list" where
  "stripe_listing e now_ms g b =
     map (\<lambda>l. (live_key e l, live_ver l)) (visible_lives e now_ms g b) @
     map (\<lambda>(key_bytes, t). (key_bytes, ts_ver t)) (bm_entries (st_tombstones (eg_stripes g b)))"

definition collect_buckets :: "externs \<Rightarrow> u16 list \<Rightarrow> u64 \<Rightarrow> ('k, 'v) engine \<Rightarrow> (u16 \<times> key_version list) list" where
  "collect_buckets e wanted now_ms g =
     map (\<lambda>bucket. (bucket, stripe_listing e now_ms g (unat bucket))) (filter (\<lambda>bucket. unat bucket < bucket_count) wanted)"

definition parts_by_bucket :: "bucket_part list \<Rightarrow> (u16, u8 list) btree_map" where
  "parts_by_bucket wanted =
     fold (\<lambda>bp m.
        if bucket_count \<le> unat (bp_bucket bp) \<or> part_count \<le> unat (bp_part bp) then m
        else bm_insert (bp_bucket bp) (map_or [] (\<lambda>x. x) (bm_get m (bp_bucket bp)) @ [bp_part bp]) m) wanted bm_empty"

text \<open>The slot of each part among the sorted, deduplicated parts; \<open>usize::MAX\<close> for a part not asked for.\<close>

definition part_slots :: "u8 list \<Rightarrow> nat \<Rightarrow> nat" where
  "part_slots parts = fold (\<lambda>(slot, part) f. f(unat part := slot)) (enumerate 0 parts) (\<lambda>_. usize_max)"

definition route_entry :: "externs \<Rightarrow> (nat \<Rightarrow> nat) \<Rightarrow> key_version \<Rightarrow> key_version list list \<Rightarrow> key_version list list" where
  "route_entry e slots kv per_part =
     (let slot = slots (part_index_from_hash (hash_key_bytes e (fst kv)))
      in if slot \<noteq> usize_max then per_part[slot := per_part ! slot @ [kv]] else per_part)"

definition collect_parts :: "externs \<Rightarrow> bucket_part list \<Rightarrow> u64 \<Rightarrow> ('k, 'v) engine \<Rightarrow> (bucket_part \<times> key_version list) list" where
  "collect_parts e wanted now_ms g =
     concat (map (\<lambda>(bucket, parts).
       let parts = remdups_adj (sort parts); slots = part_slots parts;
           per_part = fold (route_entry e slots) (stripe_listing e now_ms g (unat bucket)) (replicate (length parts) [])
       in map (\<lambda>(part, entries). (\<lparr>bp_bucket = bucket, bp_part = part\<rparr>, entries)) (zip parts per_part))
       (bm_entries (parts_by_bucket wanted)))"

definition digests :: "('k, 'v) engine \<Rightarrow> (u16 \<times> u64) list" where
  "digests g =
     map (\<lambda>bucket. (of_nat bucket, foldl (\<lambda>acc part. acc XOR eg_digest g (digest_slot bucket part)) 0 [0..<part_count]))
       [0..<bucket_count]"

definition bucket_len :: "u16 \<Rightarrow> ('k, 'v) engine \<Rightarrow> nat" where
  "bucket_len bucket g =
     (if bucket_count \<le> unat bucket then 0
      else let s = eg_stripes g (unat bucket) in length (st_live s) + length (bm_entries (st_tombstones s)))"

definition part_digests :: "u16 \<Rightarrow> ('k, 'v) engine \<Rightarrow> u64 list" where
  "part_digests bucket g =
     (if bucket_count \<le> unat bucket then []
      else map (\<lambda>part. eg_digest g (digest_slot (unat bucket) part)) [0..<part_count])"

definition snapshot_records :: "externs \<Rightarrow> u64 \<Rightarrow> ('k, 'v) engine \<Rightarrow> wire_record list" where
  "snapshot_records e now_ms g =
     concat (map (\<lambda>b.
       let s = eg_stripes g b
       in map (\<lambda>l. \<lparr>wr_key = live_key e l, wr_value = Some (record_value e (lv_record l)), wr_ver = live_ver l,
                    wr_expires = decode_expiry (lv_wall_ms l) (lv_expiry l) (live_key e l) (st_long_ttl s)\<rparr>)
            (visible_lives e now_ms g b) @
          map (\<lambda>(key_bytes, t). \<lparr>wr_key = key_bytes, wr_value = None, wr_ver = ts_ver t, wr_expires = ts_expired_at t\<rparr>)
            (bm_entries (st_tombstones s))) [0..<bucket_count])"

section \<open>An access changes no record\<close>

definition unstamped :: "live \<Rightarrow> live" where
  "unstamped l = l\<lparr>lv_last_access := 0\<rparr>"

lemma unstamped_same [simp]:
  "live_key e (unstamped l) = live_key e l" "live_ver (unstamped l) = live_ver l" "lv_weight (unstamped l) = lv_weight l"
  "lv_expiry (unstamped l) = lv_expiry l" "lv_wall_ms (unstamped l) = lv_wall_ms l" "lv_record (unstamped l) = lv_record l"
  "live_item e (unstamped l) = live_item e l" "live_expires_at (unstamped l) k tbl = live_expires_at l k tbl"
  "live_cell e tbl (unstamped l) = live_cell e tbl l" "is_spill_candidate (unstamped l) = is_spill_candidate l"
  by (simp_all add: unstamped_def live_key_def live_ver_def live_item_def live_expires_at_def live_cell_def is_spill_candidate_def)

lemma unstamped_touch [simp]: "unstamped (touch g now l) = unstamped l"
  by (simp add: unstamped_def touch_def)

lemma arena_find_unstamped: "arena_find e k (map unstamped xs) = map_option unstamped (arena_find e k xs)"
  by (induction xs) (auto simp: arena_find_def)

lemma stripe_unstamped:
  "stripe_ok e b (s\<lparr>st_live := map unstamped (st_live s)\<rparr>) = stripe_ok e b s"
  "held e (s\<lparr>st_live := map unstamped (st_live s)\<rparr>) = held e s"
  "stripe_weight (s\<lparr>st_live := map unstamped (st_live s)\<rparr>) = stripe_weight s"
  "stripe_count (s\<lparr>st_live := map unstamped (st_live s)\<rparr>) = stripe_count s"
  "cell_at e (s\<lparr>st_live := map unstamped (st_live s)\<rparr>) = cell_at e s"
proof -
  have [simp]: "live_key e \<circ> unstamped = live_key e" "live_item e \<circ> unstamped = live_item e" for e by (simp_all add: fun_eq_iff)
  show "stripe_ok e b (s\<lparr>st_live := map unstamped (st_live s)\<rparr>) = stripe_ok e b s"
    by (simp add: stripe_ok_def live_keys_def image_image)
  show "held e (s\<lparr>st_live := map unstamped (st_live s)\<rparr>) = held e s"
    "stripe_weight (s\<lparr>st_live := map unstamped (st_live s)\<rparr>) = stripe_weight s"
    "stripe_count (s\<lparr>st_live := map unstamped (st_live s)\<rparr>) = stripe_count s"
    by (simp_all add: held_def stripe_weight_def stripe_count_def image_mset.compositionality comp_def)
  show "cell_at e (s\<lparr>st_live := map unstamped (st_live s)\<rparr>) = cell_at e s"
    by (simp add: fun_eq_iff cell_at_def arena_find_unstamped option.map_comp comp_def split: option.split)
qed

lemma touched_stripe:
  assumes "map unstamped (st_live s') = map unstamped (st_live s)" and "s' = s\<lparr>st_live := st_live s'\<rparr>"
  shows "stripe_ok e b s' = stripe_ok e b s" and "held e s' = held e s" and "stripe_weight s' = stripe_weight s"
    and "stripe_count s' = stripe_count s" and "cell_at e s' = cell_at e s"
    and "(\<forall>l \<in> set (st_live s'). is_spill_candidate l) = (\<forall>l \<in> set (st_live s). is_spill_candidate l)"
proof -
  have "s'\<lparr>st_live := map unstamped (st_live s')\<rparr> = s\<lparr>st_live := map unstamped (st_live s)\<rparr>"
    unfolding assms(1) by (subst assms(2)) simp
  with stripe_unstamped[where s = s'] stripe_unstamped[where s = s]
  show "stripe_ok e b s' = stripe_ok e b s" "held e s' = held e s" "stripe_weight s' = stripe_weight s"
    "stripe_count s' = stripe_count s" "cell_at e s' = cell_at e s"
    by metis+
  have "(\<forall>l \<in> set xs. is_spill_candidate l) = (\<forall>l \<in> set (map unstamped xs). is_spill_candidate l)" for xs by simp
  then show "(\<forall>l \<in> set (st_live s'). is_spill_candidate l) = (\<forall>l \<in> set (st_live s). is_spill_candidate l)"
    by (metis assms(1))
qed

lemma touch_entry_same:
  assumes inv: "engine_inv e g"
  shows "engine_inv e (touch_entry e k hash now g)" and "engine_cell e (touch_entry e k hash now g) = engine_cell e g"
    and "settings (touch_entry e k hash now g) = settings g"
proof -
  define b where "b = stripe_index_from_hash hash"
  have b: "b < bucket_count" by (simp add: b_def)
  have "engine_inv e (touch_entry e k hash now g) \<and> engine_cell e (touch_entry e k hash now g) = engine_cell e g \<and>
    settings (touch_entry e k hash now g) = settings g"
  proof (cases "slot_of (\<lambda>l. live_key e l = k) (st_live (eg_stripes g b))")
    case None
    then show ?thesis using inv by (simp add: touch_entry_def b_def Let_def)
  next
    case (Some i)
    let ?xs = "st_live (eg_stripes g b)"
    define s' where "s' = (eg_stripes g b)\<lparr>st_live := ?xs[i := touch g now (?xs ! i)]\<rparr>"
    have g': "touch_entry e k hash now g = g\<lparr>eg_stripes := (eg_stripes g)(b := s')\<rparr>"
      using Some by (simp add: touch_entry_def b_def[symmetric] Let_def s'_def)
    have i: "i < length ?xs" using slot_of_Some[OF Some] by simp
    have un: "map unstamped (st_live s') = map unstamped ?xs" using i by (simp add: s'_def map_update list_update_same_conv)
    have "s' = (eg_stripes g b)\<lparr>st_live := st_live s'\<rparr>" by (simp add: s'_def)
    note same = touched_stripe[OF un this]
    have ok: "engine_ok e g" "stripe_ok e b (eg_stripes g b)" using inv b by (simp_all add: engine_inv_def engine_ok_def)
    have "engine_ok e (touch_entry e k hash now g)"
      unfolding g' using ok b by (intro engine_ok_same_stripe) (simp_all add: same)
    moreover have "weights_positive (touch_entry e k hash now g) = weights_positive g"
      using same(6) b by (simp add: weights_positive_def g') metis
    ultimately have "engine_inv e (touch_entry e k hash now g)" using inv by (simp add: engine_inv_def) (simp add: g')
    then show ?thesis by (auto simp: g' engine_cell_def fun_eq_iff same(5))
  qed
  then show "engine_inv e (touch_entry e k hash now g)" "engine_cell e (touch_entry e k hash now g) = engine_cell e g"
    "settings (touch_entry e k hash now g) = settings g" by blast+
qed

lemma read_touches:
  "snd (get_by_bytes e dec k hash now g) \<in> {g, touch_entry e k hash now g}"
  "snd (get e ek dec key now g) = g \<or> (\<exists>k hash. snd (get e ek dec key now g) = touch_entry e k hash now g)"
  "snd (get_with_lifetime e dec k hash now g) \<in> {g, touch_entry e k hash now g}"
  "snd (contains_key e ek key now g) = g \<or> (\<exists>k hash. snd (contains_key e ek key now g) = touch_entry e k hash now g)"
  by (auto simp: get_by_bytes_def get_def get_with_lifetime_def contains_key_def Let_def split: option.split)

lemma read_inv:
  assumes "engine_inv e g"
  shows "engine_inv e (snd (get_by_bytes e dec k hash now g))" "engine_inv e (snd (get e ek dec key now g))"
    "engine_inv e (snd (get_with_lifetime e dec k hash now g))" "engine_inv e (snd (contains_key e ek key now g))"
  using read_touches[where e = e and g = g] touch_entry_same(1)[OF assms] assms by (metis insertE singletonD)+

lemma read_cells:
  assumes "engine_inv e g"
  shows "engine_cell e (snd (get_by_bytes e dec k hash now g)) = engine_cell e g"
  using read_touches(1)[of e dec k hash now g] touch_entry_same(2)[OF assms] by auto

section \<open>What a read returns\<close>

lemma get_cell:
  assumes ok: "engine_ok e g" and hash: "hash = hash_key_bytes e k"
  shows "fst (get_by_bytes e dec k hash now g) =
    (case engine_cell e g k of
       Some (Cell_Live _ encoded _) \<Rightarrow> if visible_entry e k hash now g = None then None else Some (dec encoded)
     | _ \<Rightarrow> None)"
    and "lifetime_of e k hash now g =
    (case engine_cell e g k of
       Some (Cell_Live ver _ expires) \<Rightarrow> if visible_entry e k hash now g = None then None else Some (ver, expires)
     | _ \<Rightarrow> None)"
    and "engine_cell e g k = Some (Cell_Live ver encoded expires) \<Longrightarrow> eg_tti_ms g = None \<Longrightarrow>
      visible_entry e k hash now g = None \<longleftrightarrow> is_some_and (\<lambda>d. d \<le> now) expires"
proof -
  let ?s = "eg_stripes g (key_bucket e k)"
  have b: "stripe_index_from_hash hash = key_bucket e k" by (simp add: hash key_bucket_def)
  have sok: "stripe_ok e (key_bucket e k) ?s" using ok by (simp add: engine_ok_def)
  have cases: "(bm_get (st_tombstones ?s) k \<noteq> None \<and> arena_find e k (st_live ?s) = None) \<or>
      bm_get (st_tombstones ?s) k = None"
    using stripe_okD(2)[OF sok, of k] arena_find_keys[of e k ?s] by (cases "k \<in> live_keys e ?s") auto
  show "fst (get_by_bytes e dec k hash now g) =
    (case engine_cell e g k of
       Some (Cell_Live _ encoded _) \<Rightarrow> if visible_entry e k hash now g = None then None else Some (dec encoded)
     | _ \<Rightarrow> None)"
    using cases by (auto simp: get_by_bytes_def engine_cell_def cell_at_def live_cell_def visible_entry_def b Let_def split: option.splits)
  show "lifetime_of e k hash now g =
    (case engine_cell e g k of
       Some (Cell_Live ver _ expires) \<Rightarrow> if visible_entry e k hash now g = None then None else Some (ver, expires)
     | _ \<Rightarrow> None)"
    using cases arena_find_Some[of e k "st_live ?s"]
    by (auto simp: lifetime_of_def engine_cell_def cell_at_def live_cell_def visible_entry_def b live_expires_at_def Let_def split: option.splits)
  show "visible_entry e k hash now g = None \<longleftrightarrow> is_some_and (\<lambda>d. d \<le> now) expires"
    if "engine_cell e g k = Some (Cell_Live ver encoded expires)" "eg_tti_ms g = None"
    using that arena_find_Some[of e k "st_live ?s"]
    by (auto simp: engine_cell_def cell_at_def live_cell_def visible_entry_def b live_expires_at_def Let_def is_absent_def
        absent_at_def absent_under_def idle_at_def split: option.splits)
qed

section \<open>The part listing is the bucket listing, split\<close>

lemma part_slots_fold:
  fixes parts :: "u8 list"
  shows "p \<notin> unat ` set parts \<Longrightarrow> fold (\<lambda>(slot, part) f. f(unat part := slot)) (enumerate n parts) f p = f p"
    and "distinct parts \<Longrightarrow> j < length parts \<Longrightarrow>
      fold (\<lambda>(slot, part) f. f(unat part := slot)) (enumerate n parts) f (unat (parts ! j)) = n + j"
proof -
  have absent: "p \<notin> unat ` set parts \<Longrightarrow> fold (\<lambda>(slot, part) f. f(unat part := slot)) (enumerate n parts) f p = f p"
    for n and f :: "nat \<Rightarrow> nat" and p and parts :: "u8 list"
    by (induction parts arbitrary: n f) auto
  then show "p \<notin> unat ` set parts \<Longrightarrow> fold (\<lambda>(slot, part) f. f(unat part := slot)) (enumerate n parts) f p = f p" .
  show "distinct parts \<Longrightarrow> j < length parts \<Longrightarrow>
      fold (\<lambda>(slot, part) f. f(unat part := slot)) (enumerate n parts) f (unat (parts ! j)) = n + j"
  proof (induction parts arbitrary: n f j)
    case (Cons q parts)
    show ?case
    proof (cases j)
      case 0
      have "unat q \<notin> unat ` set parts" using Cons.prems(1) by (auto simp flip: word_unat_eq_iff)
      from absent[OF this, of "Suc n" "f(unat q := n)"] show ?thesis by (simp add: 0 del: fun_upd_apply) simp
    next
      case (Suc i)
      then show ?thesis using Cons.IH[of i "Suc n" "f(unat q := n)"] Cons.prems by (simp del: fun_upd_apply)
    qed
  qed simp
qed

lemma part_slots_nth: "distinct parts \<Longrightarrow> j < length parts \<Longrightarrow> part_slots parts (unat (parts ! j)) = j"
  using part_slots_fold(2)[of parts j 0] by (simp add: part_slots_def)

lemma part_slots_absent: "p \<notin> unat ` set parts \<Longrightarrow> part_slots parts p = usize_max"
  using part_slots_fold(1)[of p parts 0] by (simp add: part_slots_def)

lemma route_entries:
  assumes "j < length pp" and "\<And>p. slots p = usize_max \<or> slots p < length pp" and "length pp < usize_max"
  shows "fold (route_entry e slots) kvs pp ! j = pp ! j @ filter (\<lambda>kv. slots (key_part e (fst kv)) = j) kvs \<and>
    length (fold (route_entry e slots) kvs pp) = length pp"
  using assms
proof (induction kvs arbitrary: pp)
  case (Cons kv kvs)
  define pp' where "pp' = route_entry e slots kv pp"
  have len: "length pp' = length pp" by (simp add: pp'_def route_entry_def Let_def)
  have nth: "pp' ! j = pp ! j @ (if slots (key_part e (fst kv)) = j then [kv] else [])"
    using Cons.prems by (auto simp: pp'_def route_entry_def Let_def key_part_def nth_list_update)
  show ?case using Cons.IH[of pp'] Cons.prems nth len by (simp add: pp'_def)
qed simp

lemma collect_bucket_parts:
  fixes parts :: "u8 list"
  assumes parts: "distinct parts" "\<forall>p \<in> set parts. unat p < part_count"
  shows "zip parts (fold (route_entry e (part_slots parts)) kvs (replicate (length parts) [])) =
    map (\<lambda>p. (p, filter (\<lambda>kv. key_part e (fst kv) = unat p) kvs)) parts"
proof (rule nth_equalityI)
  let ?r = "fold (route_entry e (part_slots parts)) kvs (replicate (length parts) [])"
  have inj: "inj_on unat (set parts)" by (simp add: inj_on_def word_unat_eq_iff)
  have "card (unat ` set parts) \<le> card {..<part_count}" using parts(2) by (intro card_mono) auto
  then have small: "length parts < usize_max"
    using distinct_card[OF parts(1)] card_image[OF inj] by (simp add: part_count_def usize_max_def)
  have slots: "part_slots parts p = usize_max \<or> part_slots parts p < length (replicate (length parts) ([] :: key_version list))" for p
  proof (cases "p \<in> unat ` set parts")
    case True
    then obtain j where "j < length parts" "unat (parts ! j) = p" by (auto simp: in_set_conv_nth)
    then show ?thesis using part_slots_nth[OF parts(1)] by auto
  qed (simp add: part_slots_absent)
  have route: "?r ! j = filter (\<lambda>kv. part_slots parts (key_part e (fst kv)) = j) kvs" "length ?r = length parts"
    if "j < length parts" for j
    using route_entries[of j "replicate (length parts) []" "part_slots parts" e kvs, OF _ slots] that small by auto
  have hit: "part_slots parts q = j \<longleftrightarrow> q = unat (parts ! j)" if j: "j < length parts" for q j
  proof
    assume eq: "part_slots parts q = j"
    show "q = unat (parts ! j)"
    proof (cases "q \<in> unat ` set parts")
      case True
      then obtain i where i: "i < length parts" "unat (parts ! i) = q" by (auto simp: in_set_conv_nth)
      then show ?thesis using part_slots_nth[OF parts(1) i(1)] eq by auto
    next
      case False
      then show ?thesis using part_slots_absent eq j small by simp
    qed
  qed (use part_slots_nth[OF parts(1) j] in simp)
  show "length (zip parts ?r) = length (map (\<lambda>p. (p, filter (\<lambda>kv. key_part e (fst kv) = unat p) kvs)) parts)"
    using route(2)[of 0] by (cases parts) auto
  fix j assume "j < length (zip parts ?r)"
  then have j: "j < length parts" by simp
  show "zip parts ?r ! j = map (\<lambda>p. (p, filter (\<lambda>kv. key_part e (fst kv) = unat p) kvs)) parts ! j"
    using j route[OF j] by (simp add: hit[OF j])
qed

definition in_range :: "bucket_part \<Rightarrow> bool" where
  "in_range bp \<longleftrightarrow> unat (bp_bucket bp) < bucket_count \<and> unat (bp_part bp) < part_count"

lemma parts_by_bucket_get:
  "set (map_or [] (\<lambda>x. x) (bm_get (parts_by_bucket wanted) b)) = {bp_part bp | bp. bp \<in> set wanted \<and> in_range bp \<and> bp_bucket bp = b}"
proof -
  define add where "add = (\<lambda>(bp :: bucket_part) m. if bucket_count \<le> unat (bp_bucket bp) \<or> part_count \<le> unat (bp_part bp) then m
        else bm_insert (bp_bucket bp) (map_or [] (\<lambda>x. x) (bm_get m (bp_bucket bp)) @ [bp_part bp]) m)"
  have add: "set (map_or [] (\<lambda>x. x) (bm_get (add bp m) b)) =
      set (map_or [] (\<lambda>x. x) (bm_get m b)) \<union> (if in_range bp \<and> bp_bucket bp = b then {bp_part bp} else {})" for bp m
    by (auto simp: in_range_def add_def)
  have "set (map_or [] (\<lambda>x. x) (bm_get (fold add wanted m) b)) =
      set (map_or [] (\<lambda>x. x) (bm_get m b)) \<union> {bp_part bp | bp. bp \<in> set wanted \<and> in_range bp \<and> bp_bucket bp = b}" for m
  proof (induction wanted arbitrary: m)
    case (Cons bp wanted)
    show ?case unfolding fold_Cons comp_apply Cons.IH add by auto
  qed simp
  from this[of bm_empty] show ?thesis unfolding parts_by_bucket_def add_def by simp
qed

lemma collect_parts_listing:
  "set (collect_parts e wanted now g) =
     {(bp, filter (\<lambda>kv. key_part e (fst kv) = unat (bp_part bp)) (stripe_listing e now g (unat (bp_bucket bp)))) | bp.
        bp \<in> set wanted \<and> in_range bp}"
proof -
  let ?L = "\<lambda>bp. filter (\<lambda>kv. key_part e (fst kv) = unat (bp_part bp)) (stripe_listing e now g (unat (bp_bucket bp)))"
  let ?one = "\<lambda>(bucket, parts).
       let parts = remdups_adj (sort parts); slots = part_slots parts;
           per_part = fold (route_entry e slots) (stripe_listing e now g (unat bucket)) (replicate (length parts) [])
       in map (\<lambda>(part, entries). (\<lparr>bp_bucket = bucket, bp_part = part\<rparr>, entries)) (zip parts per_part)"
  have rows: "set parts = {bp_part bp | bp. bp \<in> set wanted \<and> in_range bp \<and> bp_bucket bp = bucket}"
    if "(bucket, parts) \<in> set (bm_entries (parts_by_bucket wanted))" for bucket parts
    using that parts_by_bucket_get[of wanted bucket] by (simp add: in_bm_entries_iff)
  have one: "set (?one (bucket, parts)) = {(bp, ?L bp) | bp. bp \<in> set wanted \<and> in_range bp \<and> bp_bucket bp = bucket}"
    if row: "(bucket, parts) \<in> set (bm_entries (parts_by_bucket wanted))" for bucket parts
  proof -
    define ps where "ps = remdups_adj (sort parts)"
    have ps: "distinct ps" "set ps = set parts" by (simp_all add: ps_def distinct_dedup)
    have "\<forall>p \<in> set ps. unat p < part_count" using rows[OF row] ps(2) by (auto simp: in_range_def)
    note zip = collect_bucket_parts[OF ps(1) this, of e "stripe_listing e now g (unat bucket)"]
    have "set (?one (bucket, parts)) = (\<lambda>p. let bp = \<lparr>bp_bucket = bucket, bp_part = p\<rparr> in (bp, ?L bp)) ` set parts"
      unfolding prod.case Let_def ps_def[symmetric] zip ps(2)[symmetric] by auto
    also have "\<dots> = {(bp, ?L bp) | bp. bp \<in> set wanted \<and> in_range bp \<and> bp_bucket bp = bucket}"
    proof -
      have eta: "\<lparr>bp_bucket = bp_bucket bp, bp_part = bp_part bp\<rparr> = bp" for bp :: bucket_part by simp
      show ?thesis unfolding rows[OF row] Let_def by (auto simp: image_iff) (metis eta)+
    qed
    finally show ?thesis .
  qed
  have "set (collect_parts e wanted now g) = (\<Union>r \<in> set (bm_entries (parts_by_bucket wanted)). set (?one r))"
    by (simp add: collect_parts_def)
  also have "\<dots> = {(bp, ?L bp) | bp. bp \<in> set wanted \<and> in_range bp}"
  proof (intro set_eqI iffI)
    fix x assume "x \<in> (\<Union>r \<in> set (bm_entries (parts_by_bucket wanted)). set (?one r))"
    then obtain r where r: "r \<in> set (bm_entries (parts_by_bucket wanted))" "x \<in> set (?one r)" by (rule UN_E)
    obtain bucket parts where "r = (bucket, parts)" by (cases r)
    note row = r[unfolded this]
    from row(2) show "x \<in> {(bp, ?L bp) | bp. bp \<in> set wanted \<and> in_range bp}" unfolding one[OF row(1)] by blast
  next
    fix x assume "x \<in> {(bp, ?L bp) | bp. bp \<in> set wanted \<and> in_range bp}"
    then obtain bp where bp: "bp \<in> set wanted" "in_range bp" "x = (bp, ?L bp)" by auto
    then have "bp_part bp \<in> set (map_or [] (\<lambda>x. x) (bm_get (parts_by_bucket wanted) (bp_bucket bp)))"
      unfolding parts_by_bucket_get by auto
    then obtain parts where "bm_get (parts_by_bucket wanted) (bp_bucket bp) = Some parts"
      by (cases "bm_get (parts_by_bucket wanted) (bp_bucket bp)") auto
    then have row: "(bp_bucket bp, parts) \<in> set (bm_entries (parts_by_bucket wanted))" by (simp add: in_bm_entries_iff)
    have "x \<in> set (?one (bp_bucket bp, parts))" unfolding one[OF row] using bp by auto
    then show "x \<in> (\<Union>r \<in> set (bm_entries (parts_by_bucket wanted)). set (?one r))" using row by blast
  qed
  finally show ?thesis .
qed

section \<open>Digests are those of the records held\<close>

definition held_xor :: "externs \<Rightarrow> (bytes \<times> hlc) multiset \<Rightarrow> u64" where
  "held_xor e M = fold_mset (XOR) 0 (image_mset (\<lambda>i. entry_fingerprint e (fst i) (snd i)) M)"

lemma held_xor_simps [simp]:
  "held_xor e {#} = 0" "held_xor e (add_mset i M) = entry_fingerprint e (fst i) (snd i) XOR held_xor e M"
  by (simp_all add: held_xor_def comp_fun_commute.fold_mset_add_mset[OF comp_fun_commute_xor])

lemma foldl_xor: "foldl (\<lambda>acc p. acc XOR f p) (a :: u64) ps = a XOR foldl (\<lambda>acc p. acc XOR f p) 0 ps"
proof (induction ps arbitrary: a)
  case (Cons p ps)
  show ?case using Cons.IH[of "a XOR f p"] Cons.IH[of "0 XOR f p"] by (simp add: xor.assoc)
qed simp

lemma foldl_xor_distrib:
  "foldl (\<lambda>acc p. acc XOR (f p XOR h p)) (0 :: u64) ps = foldl (\<lambda>acc p. acc XOR f p) 0 ps XOR foldl (\<lambda>acc p. acc XOR h p) 0 ps"
proof (induction ps)
  case (Cons p ps)
  show ?case
    using Cons.IH foldl_xor[of "\<lambda>p. f p XOR h p" "f p XOR h p" ps] foldl_xor[of f "f p" ps] foldl_xor[of h "h p" ps]
    by (simp add: xor.assoc xor.left_commute)
qed simp

lemma foldl_xor_single:
  assumes "distinct ps"
  shows "foldl (\<lambda>acc p. acc XOR (if p = q then x else 0)) (0 :: u64) ps = (if q \<in> set ps then x else 0)"
  using assms
proof (induction ps)
  case (Cons p ps)
  then show ?case using foldl_xor[of "\<lambda>p. if p = q then x else 0" "if p = q then x else 0" ps] by auto
qed simp

lemma digest_of_parts: "foldl (\<lambda>acc p. acc XOR held_digest e p M) 0 [0..<part_count] = held_xor e M"
proof (induction M)
  case empty
  show ?case using foldl_xor_single[of "[0..<part_count]" part_count 0] by simp
next
  case (add i M)
  have "(\<lambda>p. item_part e p i) = (\<lambda>p. if p = key_part e (fst i) then entry_fingerprint e (fst i) (snd i) else 0)"
    by (auto simp: item_part_def fun_eq_iff)
  then have "foldl (\<lambda>acc p. acc XOR item_part e p i) 0 [0..<part_count] = entry_fingerprint e (fst i) (snd i)"
    using foldl_xor_single[of "[0..<part_count]" "key_part e (fst i)"] by (simp add: fun_eq_iff)
  then show ?case using add foldl_xor_distrib[of "\<lambda>p. item_part e p i" "\<lambda>p. held_digest e p M"] by simp
qed

lemma digests_held:
  assumes "engine_ok e g"
  shows "digests g = map (\<lambda>b. (of_nat b, held_xor e (held e (eg_stripes g b)))) [0..<bucket_count]"
proof -
  have "foldl (\<lambda>acc p. acc XOR eg_digest g (digest_slot b p)) 0 [0..<part_count] =
      foldl (\<lambda>acc p. acc XOR held_digest e p (held e (eg_stripes g b))) 0 [0..<part_count]" if "b < bucket_count" for b
    using assms that by (intro foldl_cong) (auto simp: engine_ok_def)
  then show ?thesis by (simp add: digests_def digest_of_parts)
qed

lemma held_versions:
  assumes ok: "stripe_ok e b s"
  shows "held e s = mset_set {(k, cell_ver c) | k c. cell_at e s k = Some c}"
proof -
  let ?lv = "map (live_item e) (st_live s)" and ?ts = "map tombstone_item (bm_entries (st_tombstones s))"
  have keys: "map fst ?lv = map (live_key e) (st_live s)" "map fst ?ts = bm_keys (st_tombstones s)"
    by (simp_all add: live_item_def tombstone_item_def bm_keys_def)
  have "distinct (map fst (?lv @ ?ts))"
    using stripe_okD(1)[OF ok] stripe_okD(2)[OF ok] unfolding map_append keys
    by (auto simp: set_bm_keys bm_contains_def live_keys_def)
  then have "distinct (?lv @ ?ts)" by (simp only: distinct_map)
  then have "held e s = mset_set (set (?lv @ ?ts))" by (simp only: mset_set_set held_def) simp
  also have "set (?lv @ ?ts) = {(k, cell_ver c) | k c. cell_at e s k = Some c}"
  proof (intro set_eqI iffI)
    fix x assume "x \<in> set (?lv @ ?ts)"
    then consider (live) l where "l \<in> set (st_live s)" "x = live_item e l"
      | (tomb) k t where "(k, t) \<in> set (bm_entries (st_tombstones s))" "x = (k, ts_ver t)" by (auto simp: tombstone_item_def)
    then show "x \<in> {(k, cell_ver c) | k c. cell_at e s k = Some c}"
    proof cases
      case live
      then have "arena_find e (live_key e l) (st_live s) = Some l" "bm_get (st_tombstones s) (live_key e l) = None"
        using arena_find_iff[OF stripe_okD(1)[OF ok]] stripe_okD(2)[OF ok] by (auto simp: live_keys_def)
      then show ?thesis using live by (auto simp: cell_at_def live_cell_def live_item_def)
    next
      case tomb
      then show ?thesis by (auto simp: in_bm_entries_iff cell_at_def)
    qed
  next
    fix x assume "x \<in> {(k, cell_ver c) | k c. cell_at e s k = Some c}"
    then obtain k c where x: "x = (k, cell_ver c)" "cell_at e s k = Some c" by auto
    show "x \<in> set (?lv @ ?ts)"
    proof (cases "bm_get (st_tombstones s) k")
      case None
      then obtain l where "arena_find e k (st_live s) = Some l" "c = live_cell e (st_long_ttl s) l" using x(2) by (auto simp: cell_at_def)
      then have "l \<in> set (st_live s)" "x = live_item e l"
        using arena_find_Some[of e k "st_live s" l] x(1) by (auto simp: live_cell_def live_item_def)
      then show ?thesis by simp
    next
      case (Some t)
      then have "(k, t) \<in> set (bm_entries (st_tombstones s))" "x = tombstone_item (k, t)"
        using x by (auto simp: cell_at_def in_bm_entries_iff tombstone_item_def)
      then show ?thesis by simp
    qed
  qed
  finally show ?thesis .
qed

text \<open>Engines that hold the same versions have the same digests.\<close>

lemma digests_agree:
  assumes "engine_ok e g" and "engine_ok e g'"
    and "\<And>k. map_option cell_ver (engine_cell e g k) = map_option cell_ver (engine_cell e g' k)"
  shows "digests g = digests g'" and "part_digests b g = part_digests b g'"
proof -
  have "held e (eg_stripes g b) = held e (eg_stripes g' b)" if b: "b < bucket_count" for b
  proof -
    have sok: "stripe_ok e b (eg_stripes g b)" "stripe_ok e b (eg_stripes g' b)" using assms(1,2) b by (auto simp: engine_ok_def)
    have "map_option cell_ver (cell_at e (eg_stripes g b) k) = map_option cell_ver (cell_at e (eg_stripes g' b) k)" for k
    proof (cases "key_bucket e k = b")
      case True
      then show ?thesis using assms(3)[of k] by (simp add: engine_cell_def)
    next
      case False
      then have "cell_at e (eg_stripes g b) k = None" "cell_at e (eg_stripes g' b) k = None"
        using sok cell_at_held[of e "eg_stripes g b" k] cell_at_held[of e "eg_stripes g' b" k]
          stripe_okD(2,3)[of e b "eg_stripes g b" k] stripe_okD(2,3)[of e b "eg_stripes g' b" k]
        by fastforce+
      then show ?thesis by simp
    qed
    then have "{(k, cell_ver c) | k c. cell_at e (eg_stripes g b) k = Some c} =
        {(k, cell_ver c) | k c. cell_at e (eg_stripes g' b) k = Some c}"
    proof -
      have "{(k, cell_ver c) | k c. f k = Some c} = {(k, v). map_option cell_ver (f k) = Some v}" for f :: "bytes \<Rightarrow> cell option" by auto
      then show ?thesis using \<open>\<And>k. map_option cell_ver (cell_at e (eg_stripes g b) k) = map_option cell_ver (cell_at e (eg_stripes g' b) k)\<close> by (simp only:)
    qed
    then show ?thesis using held_versions[OF sok(1)] held_versions[OF sok(2)] by simp
  qed
  then show "digests g = digests g'" unfolding digests_held[OF assms(1)] digests_held[OF assms(2)] by simp
  show "part_digests b g = part_digests b g'"
    using \<open>\<And>b. b < bucket_count \<Longrightarrow> held e (eg_stripes g b) = held e (eg_stripes g' b)\<close> assms(1,2)
    by (simp add: part_digests_def engine_ok_def)
qed

end
