(* ===== verification/Engine_Loads.thy ===== *)
theory Engine_Loads
  imports Engine_Read
begin

text \<open>
  Loads in flight (\<^verbatim>\<open>engine/inflight.rs\<close>): joining or owning a load, and the ways it
  ends. The in-flight map holds the shared handle of each key's load; an owner's operation takes the
  handle it holds and returns it as the operation leaves it. A key has at most one registered handle
  and only its owner takes it out, so the handle an owner holds is the registered one until then;
  where a lemma needs this, it is a hypothesis. The lemmas show that every operation keeps the engine
  invariant, and that a fill installs nothing when an invalidation, a write or a removal at least as
  new landed while the loader ran.
\<close>

datatype fill_outcome = Installed bool | Superseded | Invalidated

datatype 'v join_outcome = Hit 'v | Join "'v inflight" | Owner "'v inflight"

record ('k, 'v) fresh_load =
  fl_key :: 'k
  fl_key_bytes :: bytes
  fl_hash :: u64
  fl_ver :: hlc
  fl_value :: 'v
  fl_encoded :: bytes
  fl_expires :: "u64 option"

definition fill_supersedes :: "hlc option \<Rightarrow> hlc \<Rightarrow> bool" where
  "fill_supersedes existing fill \<longleftrightarrow> is_none_or (\<lambda>current. current < fill) existing"

definition put_stripe :: "nat \<Rightarrow> 'v stripe \<Rightarrow> ('k, 'v) engine \<Rightarrow> ('k, 'v) engine" where
  "put_stripe b s g = g\<lparr>eg_stripes := (eg_stripes g)(b := s)\<rparr>"

definition begin_refresh :: "bytes \<Rightarrow> u64 \<Rightarrow> ('k, 'v) engine \<Rightarrow> 'v inflight option \<times> ('k, 'v) engine" where
  "begin_refresh key_bytes hash g =
     (let b = stripe_index_from_hash hash; s = eg_stripes g b
      in if bm_contains (st_inflight s) key_bytes then (None, g)
         else (Some inflight_new, put_stripe b (s\<lparr>st_inflight := bm_insert key_bytes inflight_new (st_inflight s)\<rparr>) g))"

definition miss_or_join ::
  "externs \<Rightarrow> (bytes \<Rightarrow> 'v) \<Rightarrow> bytes \<Rightarrow> u64 \<Rightarrow> u64 \<Rightarrow> ('k, 'v) engine \<Rightarrow> 'v join_outcome \<times> ('k, 'v) engine" where
  "miss_or_join e decode_value key_bytes hash now_ms g =
     (let b = stripe_index_from_hash hash; s = eg_stripes g b
      in case visible_entry e key_bytes hash now_ms g of
           Some l \<Rightarrow> (Hit (decode_value (record_value e (lv_record l))), touch_entry e key_bytes hash now_ms g)
         | None \<Rightarrow>
             (case bm_get (st_inflight s) key_bytes of
                Some existing \<Rightarrow> (Join existing, g)
              | None \<Rightarrow>
                  (Owner inflight_new,
                   put_stripe b (s\<lparr>st_inflight := bm_insert key_bytes inflight_new (st_inflight s)\<rparr>) g)))"

definition finish_inflight :: "bytes \<Rightarrow> u64 \<Rightarrow> ('k, 'v) engine \<Rightarrow> ('k, 'v) engine" where
  "finish_inflight key_bytes hash g =
     (let b = stripe_index_from_hash hash; s = eg_stripes g b
      in put_stripe b (s\<lparr>st_inflight := bm_remove key_bytes (st_inflight s)\<rparr>) g)"

text \<open>A \<open>OnceLock\<close> keeps the first value set.\<close>

definition set_once :: "'a \<Rightarrow> 'a option \<Rightarrow> 'a option" where
  "set_once x cell = (case cell of None \<Rightarrow> Some x | Some y \<Rightarrow> Some y)"

definition install_fill :: "externs \<Rightarrow> ('k, 'v) fresh_load \<Rightarrow> u64 \<Rightarrow> ('k, 'v) engine \<Rightarrow> bool \<times> ('k, 'v) engine" where
  "install_fill e write now_ms g =
     (let key_bytes = fl_key_bytes write; hash = fl_hash write; ver = fl_ver write;
          b = stripe_index_from_hash hash; part = part_index_from_hash hash; slot = digest_slot b part;
          s = eg_stripes g b;
          (had_live, g) = (case bm_get (st_tombstones s) key_bytes of
              Some t \<Rightarrow>
                (False, (put_stripe b (s\<lparr>st_tombstones := bm_remove key_bytes (st_tombstones s)\<rparr>) g)
                          \<lparr>eg_digest := (eg_digest g)(slot := eg_digest g slot XOR entry_fingerprint e key_bytes (ts_ver t))\<rparr>)
            | None \<Rightarrow>
                (case remove_live e key_bytes s of
                   Some (removed, s) \<Rightarrow> (True, account_removed e b part key_bytes removed True (put_stripe b s g))
                 | None \<Rightarrow> (False, g)));
          s = eg_stripes g b;
          weight = map_or 1 (\<lambda>w. w (fl_key write) (fl_value write)) (eg_weigher g);
          (expiry, long_ttl_value) = encode_expiry (wall_ms ver) (fl_expires write);
          s = s\<lparr>st_long_ttl := (case long_ttl_value of
                                 Some deadline \<Rightarrow> bm_insert key_bytes deadline (st_long_ttl s)
                               | None \<Rightarrow> st_long_ttl s),
                st_live := arena_insert (live_new (build_resident_record e key_bytes (fl_encoded write)) ver expiry weight now_ms) (st_live s),
                st_next_expiry := (case fl_expires write of
                                     Some exp \<Rightarrow> min (st_next_expiry s) exp
                                   | None \<Rightarrow> st_next_expiry s)\<rparr>
      in (had_live,
          (put_stripe b s g)
            \<lparr>eg_live_count := (if had_live then eg_live_count g else eg_live_count g + 1),
             eg_digest := (eg_digest g)(slot := eg_digest g slot XOR entry_fingerprint e key_bytes ver),
             eg_total_weight := eg_total_weight g + ucast weight\<rparr>))"

definition complete_fresh_load ::
  "externs \<Rightarrow> ('k, 'v) fresh_load \<Rightarrow> u64 \<Rightarrow> 'v inflight \<Rightarrow> ('k, 'v) engine \<Rightarrow> fill_outcome \<times> 'v inflight \<times> ('k, 'v) engine" where
  "complete_fresh_load e write now_ms inflight g =
     (let key_bytes = fl_key_bytes write; hash = fl_hash write; b = stripe_index_from_hash hash;
          g = finish_inflight key_bytes hash g; s = eg_stripes g b
      in if if_invalidated inflight
         then (Invalidated, inflight_finish (inflight\<lparr>if_value := set_once (fl_value write) (if_value inflight)\<rparr>), g)
         else
           let existing = (case bm_get (st_tombstones s) key_bytes of
                             Some t \<Rightarrow> Some (ts_ver t)
                           | None \<Rightarrow> map_option live_ver (arena_find e key_bytes (st_live s)))
           in if \<not> fill_supersedes existing (fl_ver write) then (Superseded, inflight_finish inflight, g)
              else case install_fill e write now_ms g of
                (had_live, g) \<Rightarrow>
                  (Installed had_live, inflight_finish inflight, snd (enforce_capacity e b (written_of hash) now_ms g)))"

definition fail_inflight ::
  "bytes \<Rightarrow> u64 \<Rightarrow> string \<Rightarrow> 'v inflight \<Rightarrow> ('k, 'v) engine \<Rightarrow> 'v inflight \<times> ('k, 'v) engine" where
  "fail_inflight key_bytes hash err inflight g =
     (inflight_finish (inflight\<lparr>if_error := set_once err (if_error inflight)\<rparr>), finish_inflight key_bytes hash g)"

definition finish_absent :: "bytes \<Rightarrow> u64 \<Rightarrow> 'v inflight \<Rightarrow> ('k, 'v) engine \<Rightarrow> 'v inflight \<times> ('k, 'v) engine" where
  "finish_absent key_bytes hash inflight g = (inflight_finish (inflight\<lparr>if_absent := True\<rparr>), finish_inflight key_bytes hash g)"

definition abandon_inflight :: "bytes \<Rightarrow> u64 \<Rightarrow> 'v inflight \<Rightarrow> ('k, 'v) engine \<Rightarrow> 'v inflight \<times> ('k, 'v) engine" where
  "abandon_inflight key_bytes hash inflight g = (inflight_finish inflight, finish_inflight key_bytes hash g)"

text \<open>The drop of an \<open>InflightGuard\<close>: nothing once the fill was completed.\<close>

definition guard_drop :: "bool \<Rightarrow> bytes \<Rightarrow> u64 \<Rightarrow> 'v inflight \<Rightarrow> ('k, 'v) engine \<Rightarrow> 'v inflight \<times> ('k, 'v) engine" where
  "guard_drop completed key_bytes hash inflight g =
     (if \<not> completed then (inflight_finish inflight, finish_inflight key_bytes hash g) else (inflight, g))"

definition finish_uncached ::
  "bytes \<Rightarrow> u64 \<Rightarrow> 'v \<Rightarrow> 'v inflight \<Rightarrow> ('k, 'v) engine \<Rightarrow> 'v inflight \<times> ('k, 'v) engine" where
  "finish_uncached key_bytes hash v inflight g =
     (inflight_finish (inflight\<lparr>if_value := set_once v (if_value inflight)\<rparr>), finish_inflight key_bytes hash g)"

section \<open>The in-flight map is beside the records\<close>

lemma put_inflight_same:
  assumes inv: "engine_inv e g" and b: "b < bucket_count"
  shows "engine_inv e (put_stripe b ((eg_stripes g b)\<lparr>st_inflight := x\<rparr>) g)"
    and "engine_cell e (put_stripe b ((eg_stripes g b)\<lparr>st_inflight := x\<rparr>) g) = engine_cell e g"
    and "settings (put_stripe b s g) = settings g"
proof -
  have ok: "engine_ok e g" "stripe_ok e b (eg_stripes g b)" using inv b by (simp_all add: engine_inv_def engine_ok_def)
  have "engine_ok e (put_stripe b ((eg_stripes g b)\<lparr>st_inflight := x\<rparr>) g)"
    unfolding put_stripe_def using ok b by (intro engine_ok_same_stripe) simp_all
  then show "engine_inv e (put_stripe b ((eg_stripes g b)\<lparr>st_inflight := x\<rparr>) g)"
    by (rule engine_inv_shrunk[OF inv]) (simp_all add: put_stripe_def)
  show "engine_cell e (put_stripe b ((eg_stripes g b)\<lparr>st_inflight := x\<rparr>) g) = engine_cell e g"
    by (auto simp: engine_cell_def put_stripe_def fun_eq_iff)
  show "settings (put_stripe b s g) = settings g" by (simp add: put_stripe_def)
qed

lemma finish_inflight_same:
  assumes "engine_inv e g"
  shows "engine_inv e (finish_inflight k hash g)" and "engine_cell e (finish_inflight k hash g) = engine_cell e g"
    and "settings (finish_inflight k hash g) = settings g"
  using put_inflight_same[OF assms stripe_index_lt[of hash]] by (simp_all add: finish_inflight_def Let_def)

lemma begin_refresh_same:
  assumes "engine_inv e g"
  shows "engine_inv e (snd (begin_refresh k hash g))" and "engine_cell e (snd (begin_refresh k hash g)) = engine_cell e g"
    and "settings (snd (begin_refresh k hash g)) = settings g"
  using assms put_inflight_same[OF assms stripe_index_lt[of hash]] by (auto simp: begin_refresh_def Let_def)

lemma miss_or_join_same:
  assumes "engine_inv e g"
  shows "engine_inv e (snd (miss_or_join e dec k hash now g))"
    and "engine_cell e (snd (miss_or_join e dec k hash now g)) = engine_cell e g"
    and "settings (snd (miss_or_join e dec k hash now g)) = settings g"
  using assms put_inflight_same[OF assms stripe_index_lt[of hash]] touch_entry_same[OF assms]
  by (auto simp: miss_or_join_def Let_def split: option.split)

section \<open>Installing a fill\<close>

definition fill_entry :: "('k, 'v) fresh_load \<Rightarrow> 'k entry_key" where
  "fill_entry write = \<lparr>ek_hash = fl_hash write, ek_key = fl_key write, ek_bytes = fl_key_bytes write\<rparr>"

text \<open>
  Taking out what the key holds: the stripe cleared of it, and the counters off by exactly what came
  out, except that a live entry about to be replaced stays counted.
\<close>

lemma fill_clears:
  assumes ok: "stripe_ok e b s" and s: "s = eg_stripes g b"
    and out: "(had, g1) = (case bm_get (st_tombstones s) k of
        Some t \<Rightarrow> (False, (put_stripe b (s\<lparr>st_tombstones := bm_remove k (st_tombstones s)\<rparr>) g)
            \<lparr>eg_digest := (eg_digest g)(slot := eg_digest g slot XOR entry_fingerprint e k (ts_ver t))\<rparr>)
      | None \<Rightarrow> (case remove_live e k s of
          Some (removed, s) \<Rightarrow> (True, account_removed e b p k removed True (put_stripe b s g))
        | None \<Rightarrow> (False, g)))" and slot: "slot = digest_slot b p" and p: "p = key_part e k"
  obtains s1 d1 w1 where "cleared e b k s s1" and "st_live s1 = st_live s \<or> set (st_live s1) \<subseteq> set (st_live s)"
    and "g1 = g\<lparr>eg_stripes := (eg_stripes g)(b := s1), eg_digest := (eg_digest g)(slot := d1), eg_total_weight := w1\<rparr>"
    and "\<And>s' ver w. held e s' = add_mset (k, ver) (held e s1) \<Longrightarrow> stripe_weight s' = w + stripe_weight s1 \<Longrightarrow>
      stripe_count s' = 1 + stripe_count s1 \<Longrightarrow>
      balanced e p (s, eg_digest g slot, eg_total_weight g, eg_live_count g)
        (s', d1 XOR entry_fingerprint e k ver, w1 + w, if had then eg_live_count g else eg_live_count g + 1)"
proof (cases "bm_get (st_tombstones s) k")
  case (Some t)
  let ?s1 = "s\<lparr>st_tombstones := bm_remove k (st_tombstones s)\<rparr>"
  show thesis
  proof (rule that[OF cleared_remove_tombstone[OF ok Some], of "eg_total_weight g" "eg_digest g slot XOR entry_fingerprint e k (ts_ver t)"])
    show "balanced e p (s, eg_digest g slot, eg_total_weight g, eg_live_count g)
        (s', (eg_digest g slot XOR entry_fingerprint e k (ts_ver t)) XOR entry_fingerprint e k ver, eg_total_weight g + w,
         if had then eg_live_count g else eg_live_count g + 1)"
      if "held e s' = add_mset (k, ver) (held e ?s1)" "stripe_weight s' = w + stripe_weight ?s1"
        "stripe_count s' = 1 + stripe_count ?s1" for s' ver w
      unfolding p using remove_tombstone_sums[OF Some, of e] that out Some
      by (intro balanced_replace[OF _ that(1)]) simp_all
  qed (use out Some in \<open>simp_all add: put_stripe_def slot\<close>)
next
  case none: None
  show thesis
  proof (cases "remove_live e k s")
    case None
    then have "k \<notin> live_keys e s" by (simp add: remove_live_None)
    then have clear: "cleared e b k s s" using ok none by (simp add: cleared_absent)
    show thesis
    proof (rule that[OF clear, of "eg_total_weight g" "eg_digest g slot"])
      show "balanced e p (s, eg_digest g slot, eg_total_weight g, eg_live_count g)
        (s', eg_digest g slot XOR entry_fingerprint e k ver, eg_total_weight g + w,
         if had then eg_live_count g else eg_live_count g + 1)"
        if "held e s' = add_mset (k, ver) (held e s)" "stripe_weight s' = w + stripe_weight s"
          "stripe_count s' = 1 + stripe_count s" for s' ver w
        unfolding p using that out none None by (intro balanced_add[OF that(1)]) simp_all
    qed (use out none None s in simp_all)
  next
    case (Some rs)
    obtain r s1 where rs: "rs = (r, s1)" by (cases rs)
    note rm = Some[unfolded rs]
    note sums = remove_live_sums[OF rm]
    show thesis
    proof (rule that[OF cleared_remove_live[OF ok rm], of "eg_total_weight g - ucast (rl_weight r)"
          "eg_digest g slot XOR entry_fingerprint e k (rl_ver r)"])
      show "balanced e p (s, eg_digest g slot, eg_total_weight g, eg_live_count g)
        (s', (eg_digest g slot XOR entry_fingerprint e k (rl_ver r)) XOR entry_fingerprint e k ver,
         eg_total_weight g - ucast (rl_weight r) + w, if had then eg_live_count g else eg_live_count g + 1)"
        if "held e s' = add_mset (k, ver) (held e s1)" "stripe_weight s' = w + stripe_weight s1"
          "stripe_count s' = 1 + stripe_count s1" for s' ver w
        unfolding p using that out none rm sums by (intro balanced_replace[OF sums(1) that(1)]) simp_all
    qed (use out none rm remove_live_subset[OF rm] in \<open>simp_all add: account_removed_def put_stripe_def slot Let_def\<close>)
  qed
qed

lemma install_fill_exact:
  assumes inv: "engine_inv e g" and entry: "entry_ok e b (fill_entry wr)" and b: "b = stripe_index_from_hash (fl_hash wr)"
    and run: "install_fill e wr now g = (had, g')"
  shows "engine_inv e g'" and "settings g' = settings g"
    and "engine_cell e g' = (engine_cell e g)(fl_key_bytes wr \<mapsto> Cell_Live (fl_ver wr) (fl_encoded wr) (fl_expires wr))"
proof -
  define s where "s = eg_stripes g b"
  define k where "k = fl_key_bytes wr"
  define p where "p = key_part e k"
  have bl: "b < bucket_count" by (simp add: b)
  have ix: "part_index_from_hash (fl_hash wr) = p" "key_bucket e k = b"
    using entry by (simp_all add: entry_ok_def fill_entry_def p_def k_def key_part_def)
  have ok: "engine_ok e g" "stripe_ok e b s" using inv bl by (simp_all add: engine_inv_def engine_ok_def s_def)
  define pre where "pre = (case bm_get (st_tombstones s) k of
        Some t \<Rightarrow> (False, (put_stripe b (s\<lparr>st_tombstones := bm_remove k (st_tombstones s)\<rparr>) g)
            \<lparr>eg_digest := (eg_digest g)(digest_slot b p := eg_digest g (digest_slot b p) XOR entry_fingerprint e k (ts_ver t))\<rparr>)
      | None \<Rightarrow> (case remove_live e k s of
          Some (removed, s) \<Rightarrow> (True, account_removed e b p k removed True (put_stripe b s g))
        | None \<Rightarrow> (False, g)))"
  obtain h g1 where pre: "pre = (h, g1)" by fastforce
  obtain s1 d1 w1 where s1: "cleared e b k s s1" "st_live s1 = st_live s \<or> set (st_live s1) \<subseteq> set (st_live s)"
    and g1: "g1 = g\<lparr>eg_stripes := (eg_stripes g)(b := s1), eg_digest := (eg_digest g)(digest_slot b p := d1), eg_total_weight := w1\<rparr>"
    and bal: "\<And>s' ver w. held e s' = add_mset (k, ver) (held e s1) \<Longrightarrow> stripe_weight s' = w + stripe_weight s1 \<Longrightarrow>
      stripe_count s' = 1 + stripe_count s1 \<Longrightarrow>
      balanced e p (s, eg_digest g (digest_slot b p), eg_total_weight g, eg_live_count g)
        (s', d1 XOR entry_fingerprint e k ver, w1 + w, if h then eg_live_count g else eg_live_count g + 1)"
    by (rule fill_clears[OF ok(2) s_def pre[symmetric, unfolded pre_def] refl p_def]) (rule that, assumption+)
  obtain expiry row where enc: "encode_expiry (wall_ms (fl_ver wr)) (fl_expires wr) = (expiry, row)" by fastforce
  define weight where "weight = map_or 1 (\<lambda>w. w (fl_key wr) (fl_value wr)) (eg_weigher g)"
  define l where "l = live_new (build_resident_record e (ek_bytes (fill_entry wr)) (fl_encoded wr)) (fl_ver wr) expiry weight now"
  define s' where "s' = s1\<lparr>st_long_ttl := (case row of Some d \<Rightarrow> bm_insert (ek_bytes (fill_entry wr)) d (st_long_ttl s1) | None \<Rightarrow> st_long_ttl s1),
      st_live := arena_insert l (st_live s1),
      st_next_expiry := (case fl_expires wr of Some exp \<Rightarrow> min (st_next_expiry s1) exp | None \<Rightarrow> st_next_expiry s1)\<rparr>"
  have g1s: "eg_stripes g1 b = s1" "eg_live_count g1 = eg_live_count g" "eg_weigher g1 = eg_weigher g" by (simp_all add: g1)
  have ek: "ek_bytes (fill_entry wr) = k" by (simp add: fill_entry_def k_def)
  note put = put_into_cleared[OF entry s1(1)[folded ek] enc l_def s'_def]
  have g': "g' = g\<lparr>eg_stripes := (eg_stripes g)(b := s'),
      eg_digest := (eg_digest g)(digest_slot b p := d1 XOR entry_fingerprint e k (fl_ver wr)),
      eg_total_weight := w1 + ucast weight, eg_live_count := (if h then eg_live_count g else eg_live_count g + 1)\<rparr>"
    using run unfolding install_fill_def Let_def b[symmetric] ix k_def[symmetric] s_def[symmetric] pre_def[symmetric] pre prod.case enc
      l_def s'_def ek g1s weight_def[symmetric]
    by (auto simp: g1 put_stripe_def)
  have "engine_ok e g'"
    using bal[OF put(2)[unfolded ek] put(3,4)]
    by (intro engine_ok_balanced[OF ok(1) bl _ put(1), of p]) (simp_all add: g' p_def s_def)
  moreover have "weights_positive g'" if pos: "weigher_positive (eg_weigher g)"
  proof -
    have wp: "weights_positive g" using inv pos by (simp add: engine_inv_def)
    have "0 < weight" using pos by (cases "eg_weigher g") (simp_all add: weight_def weigher_positive_def)
    then have "is_spill_candidate x" if "x \<in> set (st_live s')" for x
      using that s1(2) wp bl by (auto simp: s'_def arena_insert_def l_def live_new_def is_spill_candidate_def weights_positive_def s_def)
    then show ?thesis using wp by (simp add: weights_positive_def g')
  qed
  ultimately show "engine_inv e g'" by (simp add: engine_inv_def g')
  show "settings g' = settings g" by (simp add: g')
  show "engine_cell e g' = (engine_cell e g)(fl_key_bytes wr \<mapsto> Cell_Live (fl_ver wr) (fl_encoded wr) (fl_expires wr))"
    using put(5) ix(2) by (auto simp: engine_cell_def fun_eq_iff g' s_def ek k_def)
qed

text \<open>
  Completing a load: an invalidated or superseded fill leaves every record as it was; otherwise the
  key holds the fill before eviction runs, and eviction only takes live entries out.
\<close>

definition stored_ver :: "externs \<Rightarrow> ('k, 'v) engine \<Rightarrow> bytes \<Rightarrow> hlc option" where
  "stored_ver e g k = map_option cell_ver (engine_cell e g k)"

lemma existing_version:
  "(case bm_get (st_tombstones (eg_stripes g (key_bucket e k))) k of Some t \<Rightarrow> Some (ts_ver t)
    | None \<Rightarrow> map_option live_ver (arena_find e k (st_live (eg_stripes g (key_bucket e k))))) = stored_ver e g k"
  by (simp add: stored_ver_def engine_cell_def cell_at_def live_cell_def option.map_comp comp_def split: option.split)

lemma complete_fresh_load_cases:
  assumes inv: "engine_inv e g" and entry: "entry_ok e b (fill_entry wr)" and b: "b = stripe_index_from_hash (fl_hash wr)"
    and run: "complete_fresh_load e wr now ifl g = (out, ifl', g')"
  shows "engine_inv e g'" and "settings g' = settings g"
    and "if_invalidated ifl \<Longrightarrow> out = Invalidated \<and> engine_cell e g' = engine_cell e g"
    and "\<not> if_invalidated ifl \<Longrightarrow> \<not> fill_supersedes (stored_ver e g (fl_key_bytes wr)) (fl_ver wr) \<Longrightarrow>
      out = Superseded \<and> engine_cell e g' = engine_cell e g"
    and "\<not> if_invalidated ifl \<Longrightarrow> fill_supersedes (stored_ver e g (fl_key_bytes wr)) (fl_ver wr) \<Longrightarrow>
      (\<exists>had g1. out = Installed had \<and> only_evicted g1 g' \<and> engine_inv e g1 \<and>
        engine_cell e g1 = (engine_cell e g)(fl_key_bytes wr \<mapsto> Cell_Live (fl_ver wr) (fl_encoded wr) (fl_expires wr)))"
    and "if_done ifl'"
proof -
  let ?k = "fl_key_bytes wr"
  define g0 where "g0 = finish_inflight ?k (fl_hash wr) g"
  have kb: "key_bucket e ?k = b" using entry by (simp add: entry_ok_def fill_entry_def)
  note fin = finish_inflight_same[OF inv, of ?k "fl_hash wr", folded g0_def]
  have ver: "stored_ver e g0 ?k = stored_ver e g ?k" by (simp add: stored_ver_def fin(2))
  obtain had g1 where ins: "install_fill e wr now g0 = (had, g1)" by fastforce
  note inst = install_fill_exact[OF fin(1) entry b ins]
  obtain w2 g2 where enf: "enforce_capacity e b (written_of (fl_hash wr)) now g1 = (w2, g2)" by fastforce
  then obtain d where "enforce_capacity_with_reservation e b (written_of (fl_hash wr)) now g1 = (d, w2, g2)"
    by (metis enforce_capacity_def prod.collapse)
  moreover have "engine_ok e g1" using inst(1) by (simp add: engine_inv_def)
  ultimately have bound: "engine_ok e g2" "only_evicted g1 g2" using enforce_capacity_sound[OF _ _ , of e g1 b] b by auto
  have inv2: "engine_inv e g2" "settings g2 = settings g"
    using engine_inv_evicted[OF inst(1) bound] bound(2) inst(2) fin(3) by (simp_all add: only_evicted_def)
  have res: "(out, ifl', g') = (if if_invalidated ifl
      then (Invalidated, inflight_finish (ifl\<lparr>if_value := set_once (fl_value wr) (if_value ifl)\<rparr>), g0)
      else if \<not> fill_supersedes (stored_ver e g ?k) (fl_ver wr) then (Superseded, inflight_finish ifl, g0)
      else (Installed had, inflight_finish ifl, g2))"
    using run unfolding complete_fresh_load_def Let_def g0_def[symmetric] b[symmetric] kb[symmetric] existing_version
    unfolding ver ins prod.case unfolding kb enf snd_conv by (simp only:)
  show "engine_inv e g'" "settings g' = settings g" using res inv2 fin by (auto split: if_splits)
  show "if_done ifl'" using res by (auto simp: inflight_finish_def split: if_splits)
  show "if_invalidated ifl \<Longrightarrow> out = Invalidated \<and> engine_cell e g' = engine_cell e g" using res fin(2) by simp
  show "\<not> if_invalidated ifl \<Longrightarrow> \<not> fill_supersedes (stored_ver e g ?k) (fl_ver wr) \<Longrightarrow>
      out = Superseded \<and> engine_cell e g' = engine_cell e g" using res fin(2) by simp
  show "\<not> if_invalidated ifl \<Longrightarrow> fill_supersedes (stored_ver e g ?k) (fl_ver wr) \<Longrightarrow>
      (\<exists>had g1. out = Installed had \<and> only_evicted g1 g' \<and> engine_inv e g1 \<and>
        engine_cell e g1 = (engine_cell e g)(?k \<mapsto> Cell_Live (fl_ver wr) (fl_encoded wr) (fl_expires wr)))"
    using res inst bound(2) fin(2) by auto
qed

text \<open>
  An invalidation marks the registered handle: a removal, an invalidation or a local
  invalidation of the key, before the owner's load ends.
\<close>

definition registered :: "externs \<Rightarrow> ('k, 'v) engine \<Rightarrow> bytes \<Rightarrow> 'v inflight option" where
  "registered e g k = bm_get (st_inflight (eg_stripes g (key_bucket e k))) k"

lemma invalidate_inflight_registered:
  "bm_get (st_inflight (invalidate_inflight k s)) k = map_option (\<lambda>i. i\<lparr>if_invalidated := True\<rparr>) (bm_get (st_inflight s) k)"
  by (simp add: invalidate_inflight_def split: option.split)

lemma invalidate_marks:
  assumes hash: "hash = hash_key_bytes e k"
  shows "registered e (invalidate_local e k hash g) k = map_option (\<lambda>i. i\<lparr>if_invalidated := True\<rparr>) (registered e g k)"
    and "is_none_or (\<lambda>v. v < ver) (stored_ver e g k) \<Longrightarrow>
      registered e (snd (invalidate e k hash ver g)) k = map_option (\<lambda>i. i\<lparr>if_invalidated := True\<rparr>) (registered e g k)"
proof -
  have b: "stripe_index_from_hash hash = key_bucket e k" by (simp add: hash key_bucket_def)
  have rm: "bm_get (st_inflight s') k = map_option (\<lambda>i. i\<lparr>if_invalidated := True\<rparr>) (bm_get (st_inflight s) k)"
    if "remove_live e k (invalidate_inflight k s) = Some (r, s')" for r and s s' :: "'d stripe"
    using remove_live_same(2)[OF that] by (simp add: invalidate_inflight_registered)
  show "registered e (invalidate_local e k hash g) k = map_option (\<lambda>i. i\<lparr>if_invalidated := True\<rparr>) (registered e g k)"
    by (auto simp: invalidate_local_def Let_def b registered_def account_removed_def invalidate_inflight_registered
        remove_live_same(2) split: option.split)
  show "registered e (snd (invalidate e k hash ver g)) k = map_option (\<lambda>i. i\<lparr>if_invalidated := True\<rparr>) (registered e g k)"
    if "is_none_or (\<lambda>v. v < ver) (stored_ver e g k)"
  proof -
    have "\<not> is_some_and (\<lambda>sv. ver \<le> sv) (stored_ver e g k)" using that by (cases "stored_ver e g k") auto
    then show ?thesis
      unfolding invalidate_def Let_def b existing_version
      by (auto simp: registered_def account_removed_def Let_def invalidate_inflight_registered remove_live_same(2) split: option.split)
  qed
qed

end
