(* ===== verification/Replica.thy ===== *)
theory Replica
  imports Engine_Read
begin

text \<open>
  Replicas under last-writer-wins. A replica is an engine that the deliveries of a history run
  through \<open>apply_many\<close>; the abstract specification is a map of registers, each keeping the
  newest write of its key. The engine refines it, the pre-fold, the gates, the collision and the
  fingerprints included, so replicas that saw the same writes, in any order, in any batches and any
  number of times, hold the same records and the same digests.
\<close>

section \<open>Registers\<close>

type_synonym content_core = "(bytes \<times> u64 option) + u64 option"
type_synonym registers = "bytes \<Rightarrow> (hlc \<times> content_core) option"

fun cell_core :: "cell \<Rightarrow> hlc \<times> content_core" where
  "cell_core (Cell_Live v encoded expires) = (v, Inl (encoded, expires))"
| "cell_core (Cell_Tombstone t) = (ts_ver t, Inr (ts_expired_at t))"

fun incoming_core :: "'v incoming \<Rightarrow> content_core" where
  "incoming_core (Put _ expires encoded) = Inl (encoded, expires)"
| "incoming_core (Tombstone expired) = Inr expired"

definition registers_of :: "externs \<Rightarrow> ('k, 'v) engine \<Rightarrow> registers" where
  "registers_of e g k = map_option cell_core (engine_cell e g k)"

definition lww_put :: "bytes \<times> hlc \<times> content_core \<Rightarrow> registers \<Rightarrow> registers" where
  "lww_put w m =
     (case w of (k, ver, c) \<Rightarrow> if is_none_or (\<lambda>old. fst old < ver) (m k) then m(k \<mapsto> (ver, c)) else m)"

definition write_of :: "('k, 'v) batch_entry \<Rightarrow> bytes \<times> hlc \<times> content_core" where
  "write_of en = (ek_bytes (fst en), fst (snd en), incoming_core (snd (snd en)))"

section \<open>Deliveries\<close>

record ('k, 'v) delivery =
  dl_arrival :: arrival
  dl_bucket :: nat
  dl_entries :: "('k, 'v) batch_entry list"
  dl_ttl_ms :: u64
  dl_max_ttl_ms :: u64
  dl_now_ms :: u64

definition deliver ::
  "externs \<Rightarrow> (bytes \<Rightarrow> 'v option) \<Rightarrow> ('k, 'v) delivery \<Rightarrow> ('k, 'v) engine \<Rightarrow> ('k, 'v) engine" where
  "deliver e dec d g =
     snd (apply_many e dec (dl_arrival d) (dl_bucket d) (dl_entries d) lww_resolver (dl_ttl_ms d) (dl_max_ttl_ms d) (dl_now_ms d) g)"

text \<open>
  A delivery in time: its entries belong to its bucket, and no tombstone a peer sends arrives past
  the deadlines this replica gives it, deferring or not.
\<close>

definition in_time :: "('k, 'v) delivery \<Rightarrow> ('k, 'v) batch_entry \<Rightarrow> bool" where
  "in_time d en \<longleftrightarrow>
     (\<forall>deferring. \<not> rule_ignores
        \<lparr>ar_from_peer = is_peer (dl_arrival d), ar_deferring = deferring, ar_ttl_ms = dl_ttl_ms d,
         ar_max_ttl_ms = dl_max_ttl_ms d, ar_now_ms = dl_now_ms d\<rparr>
        (rule_deadlines
           \<lparr>ar_from_peer = is_peer (dl_arrival d), ar_deferring = deferring, ar_ttl_ms = dl_ttl_ms d,
            ar_max_ttl_ms = dl_max_ttl_ms d, ar_now_ms = dl_now_ms d\<rparr> (snd (snd en)) (fst (snd en))))"

definition delivery_ok :: "externs \<Rightarrow> ('k, 'v) delivery \<Rightarrow> bool" where
  "delivery_ok e d \<longleftrightarrow>
     dl_bucket d < bucket_count \<and> (\<forall>en \<in> set (dl_entries d). entry_ok e (dl_bucket d) (fst en) \<and> in_time d en)"

definition replica_run ::
  "externs \<Rightarrow> (bytes \<Rightarrow> 'v option) \<Rightarrow> ('k, 'v) delivery list \<Rightarrow> ('k, 'v) engine \<Rightarrow> ('k, 'v) engine" where
  "replica_run e dec ds g = fold (deliver e dec) ds g"

definition history_writes :: "('k, 'v) delivery list \<Rightarrow> (bytes \<times> hlc \<times> content_core) list" where
  "history_writes ds = concat (map (\<lambda>d. map write_of (dl_entries d)) ds)"

section \<open>One write under last-writer-wins\<close>

lemma lww_resolve:
  "resolve_and_rebind e dec lww_resolver cap k sv enc x absent tomb ver incoming =
     (if sv < ver then Rebound_Store ver incoming else Lost)"
  by (cases incoming) (auto simp: resolve_and_rebind_def resolve_conflict_def lww_resolver_def default_methods_def
      winner_by_version_def tombstone_resolution_def winner_resolution_def split: option.splits)

lemma lww_collision:
  "ac_resolver ctx = lww_resolver \<Longrightarrow>
   collision e dec ctx k s sv ver incoming = (if sv < ver then Rebound_Store ver incoming else Lost)"
  by (simp add: collision_def lww_resolve Let_def)

lemma apply_locked_lww:
  assumes ok: "stripe_ok e b s" and entry: "entry_ok e b entry" and ctx: "ac_resolver ctx = lww_resolver" "\<not> ac_held_only ctx"
    and time: "\<not> lapsed_on_arrival ctx incoming ver"
    and ap: "apply_locked e dec ctx entry ver incoming (s, c) = (out, s', c')"
  shows "cell_at e s' = (if is_none_or (\<lambda>v. v < ver) (stored_version e s (ek_bytes entry))
    then (cell_at e s)(ek_bytes entry \<mapsto> written_cell ver (rule_deadlines (ctx_rule ctx) incoming ver) incoming) else cell_at e s)"
  using ap
proof (cases rule: apply_locked_cases)
  case (stored prior st new_ver new_incoming)
  note sv = stored_version_read[OF stored(3)[unfolded stored(2)], folded stored(2)]
  have "new_ver = ver \<and> new_incoming = incoming \<and> is_none_or (\<lambda>v. v < ver) (stored_version e s (ek_bytes entry))"
    using stored(5) by (cases "stored_version e s (ek_bytes entry)") (auto simp: lww_collision[OF ctx(1)] split: if_splits)
  then show ?thesis using apply_winner_exact(3)[OF ok entry stored(2,3) sv[symmetric] stored(4)] by simp
qed (use ctx time in \<open>auto simp: lww_collision split: if_splits\<close>)

lemma written_core: "cell_core (written_cell ver dl incoming) = (ver, incoming_core incoming)"
  by (cases incoming) (auto split: option.split)

lemma fst_cell_core: "fst (cell_core c) = cell_ver c"
  by (cases c) simp_all

lemma run_apply_lww:
  assumes inv: "engine_inv e g" and b: "b < bucket_count" and en: "entry_ok e b (fst en)"
    and ctx: "ac_resolver ctx = lww_resolver" "\<not> ac_held_only ctx" and time: "\<not> lapsed_on_arrival ctx (snd (snd en)) (fst (snd en))"
    and run: "run_apply e dec ctx b en (g, ign) = (out, g', ign')"
  shows "registers_of e g' = lww_put (write_of en) (registers_of e g)"
proof -
  obtain entry ver incoming where en': "en = (entry, ver, incoming)" by (cases en)
  let ?k = "ek_bytes entry"
  have kb: "key_bucket e ?k = b" and entry: "entry_ok e b entry" using en by (simp_all add: en' entry_ok_def)
  obtain c s' c' where ap: "apply_locked e dec ctx entry ver incoming (eg_stripes g b, c) = (out, s', c')"
    and g': "eg_stripes g' = (eg_stripes g)(b := s')"
    using run by (auto simp: run_apply_def en' Let_def split: prod.splits)
  have sok: "stripe_ok e b (eg_stripes g b)" using inv b by (simp add: engine_inv_def engine_ok_def)
  note cells = apply_locked_lww[OF sok entry ctx time[unfolded en' snd_conv fst_conv] ap]
  have old: "stored_version e (eg_stripes g b) ?k = map_option fst (registers_of e g ?k)"
    by (simp add: stored_version_def registers_of_def engine_cell_def kb option.map_comp comp_def fst_cell_core)
  have gate: "is_none_or (\<lambda>v. v < ver) (stored_version e (eg_stripes g b) ?k) \<longleftrightarrow>
      is_none_or (\<lambda>x. fst x < ver) (registers_of e g ?k)"
    unfolding old by (cases "registers_of e g ?k") simp_all
  show ?thesis
  proof
    fix a
    have "registers_of e g' a = map_option cell_core (if key_bucket e a = b then cell_at e s' a else engine_cell e g a)"
      by (simp add: registers_of_def engine_cell_def g')
    then show "registers_of e g' a = lww_put (write_of en) (registers_of e g) a"
      using cells gate kb by (auto simp: lww_put_def write_of_def en' registers_of_def engine_cell_def written_core)
  qed
qed

section \<open>A delivery is its writes, one after the other\<close>

lemma in_time_ctx:
  "in_time d en \<Longrightarrow>
   \<not> lapsed_on_arrival (batch_ctx g r cap (dl_ttl_ms d) (dl_max_ttl_ms d) (dl_now_ms d) (is_peer (dl_arrival d)) ho)
       (snd (snd en)) (fst (snd en))"
  by (simp add: in_time_def lapsed_on_arrival_def ctx_rule_def batch_ctx_def)

lemma apply_slots_lww:
  assumes "apply_slots e dec ctx b (map Apply ens) (g, ign, w, wrote) = (outs, g', ign', w', wrote')"
    and "engine_inv e g" and "b < bucket_count" and "ac_weigher ctx = eg_weigher g"
    and "\<forall>en \<in> set ens. entry_ok e b (fst en) \<and> \<not> lapsed_on_arrival ctx (snd (snd en)) (fst (snd en))"
    and "ac_resolver ctx = lww_resolver" "\<not> ac_held_only ctx"
  shows "registers_of e g' = fold lww_put (map write_of ens) (registers_of e g)"
  using assms
proof (induction ens arbitrary: g ign w wrote outs)
  case (Cons en ens)
  obtain out g1 ign1 where run: "run_apply e dec ctx b en (g, ign) = (out, g1, ign1)" by (metis prod_cases3)
  have en: "entry_ok e b (fst en)" "\<not> lapsed_on_arrival ctx (snd (snd en)) (fst (snd en))" using Cons.prems(5) by simp_all
  note step = run_apply_ok[OF Cons.prems(2,3) en(1) Cons.prems(4) run]
  note reg = run_apply_lww[OF Cons.prems(2,3) en(1) Cons.prems(6,7) en(2) run]
  obtain outs1 w1 where rest: "apply_slots e dec ctx b (map Apply ens) (g1, ign1, w1, wrote \<or> is_out_put out) = (outs1, g', ign', w', wrote')"
    using Cons.prems(1) by (auto simp: run Let_def split: prod.splits)
  have "ac_weigher ctx = eg_weigher g1" using step(2) settings_eq[of g1 g] Cons.prems(4) by simp
  from Cons.IH[OF rest step(1) Cons.prems(3) this] Cons.prems(5-7) show ?case by (simp add: reg)
qed simp

lemma lww_batch:
  assumes inv: "engine_inv e g" and b: "b < bucket_count" and cap: "eg_max_capacity g = u64_max"
    and entries: "\<forall>en \<in> set ens. entry_ok e b (fst en)"
    and time: "\<And>en ho r cap. en \<in> set ens \<Longrightarrow>
      \<not> lapsed_on_arrival (batch_ctx g r cap ttl max_ttl now (is_peer arr) ho) (snd (snd en)) (fst (snd en))"
    and run: "apply_many_in e dec Any arr b ens lww_resolver ttl max_ttl now w g = (outs, deficit, w', g')"
  shows "engine_inv e g'" and "settings g' = settings g"
    and "registers_of e g' = fold lww_put (map write_of ens) (registers_of e g)"
proof -
  note sound = apply_many_in_sound[OF inv b entries run]
  show "engine_inv e g'" "settings g' = settings g" by (fact sound)+
  define ctx where "ctx = batch_ctx g lww_resolver None ttl max_ttl now (is_peer arr) False"
  obtain outs1 g1 ign w1 wrote where sl: "apply_slots e dec ctx b (map Apply ens) (g, 0, w, False) = (outs1, g1, ign, w1, wrote)"
    by (metis prod_cases5)
  have slots: "\<forall>sl \<in> set (map Apply ens). is_none_or (\<lambda>en. entry_ok e b (fst en)) (slot_entry sl)" using entries by simp
  have cw: "ac_weigher ctx = eg_weigher g" by (simp add: ctx_def)
  have "eg_max_capacity g1 = u64_max"
    using apply_slots_ok(2)[OF sl inv b cw slots] settings_eq[of g1 g] cap by simp
  then have "g' = g1"
    using run sl by (auto simp: apply_many_in_def lww_resolver_def default_methods_def Let_def ctx_def[unfolded lww_resolver_def default_methods_def]
        enforce_capacity_with_reservation_def evict_down_to_freeing_def split: if_splits)
  moreover have "registers_of e g1 = fold lww_put (map write_of ens) (registers_of e g)"
    using time entries by (intro apply_slots_lww[OF sl inv b cw]) (auto simp: ctx_def, auto simp: batch_ctx_def)
  ultimately show "registers_of e g' = fold lww_put (map write_of ens) (registers_of e g)" by simp
qed

lemma deliver_refines:
  assumes inv: "engine_inv e g" and ok: "delivery_ok e d" and cap: "eg_max_capacity g = u64_max"
  shows "engine_inv e (deliver e dec d g)" and "eg_max_capacity (deliver e dec d g) = u64_max"
    and "registers_of e (deliver e dec d g) = fold lww_put (map write_of (dl_entries d)) (registers_of e g)"
proof -
  have b: "dl_bucket d < bucket_count" and entries: "\<forall>en \<in> set (dl_entries d). entry_ok e (dl_bucket d) (fst en)"
    and time: "\<forall>en \<in> set (dl_entries d). in_time d en"
    using ok by (auto simp: delivery_ok_def)
  obtain outs deficit w' g' where run: "apply_many_in e dec Any (dl_arrival d) (dl_bucket d) (dl_entries d) lww_resolver
      (dl_ttl_ms d) (dl_max_ttl_ms d) (dl_now_ms d) written_default g = (outs, deficit, w', g')" by (metis prod_cases4)
  have g': "deliver e dec d g = g'" by (simp add: deliver_def apply_many_def run)
  note batch = lww_batch[OF inv b cap entries in_time_ctx[OF time[rule_format]] run]
  show "engine_inv e (deliver e dec d g)" by (simp only: g' batch(1))
  show "eg_max_capacity (deliver e dec d g) = u64_max" using settings_eq[OF batch(2)] cap by (simp add: g')
  show "registers_of e (deliver e dec d g) = fold lww_put (map write_of (dl_entries d)) (registers_of e g)" by (simp only: g' batch(3))
qed

lemma replica_refines:
  assumes "engine_inv e g" and "\<forall>d \<in> set ds. delivery_ok e d" and "eg_max_capacity g = u64_max"
  shows "engine_inv e (replica_run e dec ds g)"
    and "registers_of e (replica_run e dec ds g) = fold lww_put (history_writes ds) (registers_of e g)"
proof -
  have "engine_inv e (replica_run e dec ds g) \<and>
    registers_of e (replica_run e dec ds g) = fold lww_put (history_writes ds) (registers_of e g)"
    using assms
  proof (induction ds arbitrary: g)
    case (Cons d ds)
    have d: "delivery_ok e d" "\<forall>d \<in> set ds. delivery_ok e d" using Cons.prems(2) by simp_all
    note step = deliver_refines[OF Cons.prems(1) d(1) Cons.prems(3), of dec]
    show ?case using Cons.IH[OF step(1) d(2) step(2)] step(3) by (simp add: replica_run_def history_writes_def)
  qed (simp add: replica_run_def history_writes_def)
  then show "engine_inv e (replica_run e dec ds g)"
    "registers_of e (replica_run e dec ds g) = fold lww_put (history_writes ds) (registers_of e g)" by blast+
qed

section \<open>Registers converge\<close>

lemma lww_fold_max:
  "fold lww_put ws m k = Some (v, c) \<Longrightarrow> m k = Some (v, c) \<or> (k, v, c) \<in> set ws"
  "(k, v, c) \<in> set ws \<or> m k = Some (v, c) \<Longrightarrow> \<exists>v' c'. fold lww_put ws m k = Some (v', c') \<and> v \<le> v'"
proof -
  have origin: "fold lww_put ws m k = Some (v, c) \<Longrightarrow> m k = Some (v, c) \<or> (k, v, c) \<in> set ws" for m v c
  proof (induction ws arbitrary: m)
    case (Cons w ws)
    obtain k' v' c' where w: "w = (k', v', c')" by (cases w)
    have "lww_put w m k = Some (v, c) \<or> (k, v, c) \<in> set ws" using Cons.IH Cons.prems by simp
    then show ?case by (auto simp: w lww_put_def split: if_splits)
  qed simp
  then show "fold lww_put ws m k = Some (v, c) \<Longrightarrow> m k = Some (v, c) \<or> (k, v, c) \<in> set ws" .
  have keeps: "\<exists>v' c'. lww_put w m k = Some (v', c') \<and> v \<le> v'" if "m k = Some (v, c)" for w m v c
    using that by (cases w) (auto simp: lww_put_def less_imp_le)
  have put: "\<exists>v' c'. lww_put (k, v, c) m k = Some (v', c') \<and> v \<le> v'" for m v c
    by (cases "m k") (auto simp: lww_put_def not_less)
  show "(k, v, c) \<in> set ws \<or> m k = Some (v, c) \<Longrightarrow> \<exists>v' c'. fold lww_put ws m k = Some (v', c') \<and> v \<le> v'"
  proof (induction ws arbitrary: m v c)
    case (Cons w ws)
    show ?case
    proof (cases "(k, v, c) \<in> set ws")
      case True
      then show ?thesis using Cons.IH[of v c "lww_put w m"] by simp
    next
      case False
      then have "w = (k, v, c) \<or> m k = Some (v, c)" using Cons.prems by auto
      then obtain v1 c1 where "lww_put w m k = Some (v1, c1)" "v \<le> v1" using put[of v c m] keeps[of m v c w] by auto
      then show ?thesis using Cons.IH[of v1 c1 "lww_put w m"] by (auto intro: order_trans)
    qed
  qed auto
qed

text \<open>One version of a key is one write: what the clock's stamps give.\<close>

definition well_stamped :: "(bytes \<times> hlc \<times> content_core) list \<Rightarrow> bool" where
  "well_stamped ws \<longleftrightarrow> (\<forall>(k, v, c) \<in> set ws. \<forall>(k', v', c') \<in> set ws. k = k' \<longrightarrow> v = v' \<longrightarrow> c = c')"

lemma lww_converges:
  assumes stamped: "well_stamped ws" and same: "set ws = set ws'"
  shows "fold lww_put ws Map.empty = fold lww_put ws' Map.empty"
proof
  fix k
  have unique: "c = c'" if "(k, v, c) \<in> set ws" "(k, v, c') \<in> set ws" for v c c'
    using stamped that by (auto simp: well_stamped_def)
  show "fold lww_put ws Map.empty k = fold lww_put ws' Map.empty k"
  proof (cases "fold lww_put ws Map.empty k")
    case None
    then have "(k, v, c) \<notin> set ws'" for v c using lww_fold_max(2)[of k v c ws Map.empty] same by auto
    then show ?thesis using None lww_fold_max(1)[of ws' Map.empty k] by (cases "fold lww_put ws' Map.empty k") auto
  next
    case (Some x)
    obtain v c where x: "x = (v, c)" by (cases x)
    have "(k, v, c) \<in> set ws" using lww_fold_max(1)[OF Some[unfolded x]] by simp
    then obtain v' c' where other: "fold lww_put ws' Map.empty k = Some (v', c')" "v \<le> v'"
      using lww_fold_max(2)[of k v c ws' Map.empty] same by auto
    then have in': "(k, v', c') \<in> set ws" using lww_fold_max(1)[OF other(1)] same by simp
    then have "v' \<le> v" using lww_fold_max(2)[of k v' c' ws Map.empty] Some x by auto
    then have "v' = v" using other(2) by simp
    then show ?thesis using unique[OF \<open>(k, v, c) \<in> set ws\<close>] in' other(1) Some x by simp
  qed
qed

lemma registers_new: "registers_of e (engine_new cap tti w) = Map.empty"
  by (simp add: fun_eq_iff registers_of_def engine_cell_def engine_new_def cell_at_def stripe_new_def arena_find_def)

lemma engine_new_inv: "engine_inv e (engine_new cap tti w)"
  using engine_new_ok by (auto simp: engine_inv_def weights_positive_def engine_new_def stripe_new_def)

lemma engine_new_capacity: "eg_max_capacity (engine_new cap tti w) = cap"
  by (simp add: engine_new_def)

section \<open>Properties\<close>

text \<open>Two writes of the key \<open>[7]\<close>, a put and a later delete, as local and peer deliveries.\<close>

definition demo_entry :: "u8 \<Rightarrow> bytes entry_key" where
  "demo_entry k = \<lparr>ek_hash = hash_key_bytes demo_externs [k], ek_key = [k], ek_bytes = [k]\<rparr>"

definition demo_put :: "(bytes, bytes) batch_entry" where
  "demo_put = (demo_entry 7, Hlc 100 0 (NodeId 1), Put [42] (Some 900) [42])"

definition demo_delete :: "(bytes, bytes) batch_entry" where
  "demo_delete = (demo_entry 7, Hlc 150 0 (NodeId 2), Tombstone None)"

definition demo_delivery :: "arrival \<Rightarrow> (bytes, bytes) batch_entry list \<Rightarrow> (bytes, bytes) delivery" where
  "demo_delivery arr ens =
     \<lparr>dl_arrival = arr, dl_bucket = key_bucket demo_externs [7], dl_entries = ens, dl_ttl_ms = 1000, dl_max_ttl_ms = 4000,
      dl_now_ms = 200\<rparr>"

lemma demo_delivery_ok:
  "set ens \<subseteq> {demo_put, demo_delete} \<Longrightarrow> delivery_ok demo_externs (demo_delivery arr ens)"
  using demo_externs_ok
  by (auto simp: delivery_ok_def demo_delivery_def demo_put_def demo_delete_def demo_entry_def entry_ok_def in_time_def
      rule_ignores_def rule_deadlines_def drops_lapsed_tombstone_def tombstone_lapsed_def tombstone_deadlines_def
      tombstone_anchor_ms_def deferred_retention_ms_def sat_add_def)

text \<open>
  C3: an engine of unbounded capacity that starts empty and takes a history of deliveries under
  last-writer-wins holds, for every key, exactly the newest write of the history: batching, the gates,
  the collision rule, the slab and the digest upkeep implement one register per key.
\<close>

theorem replica_refines_registers:
  assumes "\<forall>d \<in> set ds. delivery_ok e d"
  shows "registers_of e (replica_run e dec ds (engine_new u64_max tti w)) = fold lww_put (history_writes ds) Map.empty"
  unfolding replica_refines(2)[OF engine_new_inv assms engine_new_capacity] registers_new ..

theorem replica_refines_registers_witness:
  "registers_of demo_externs
     (replica_run demo_externs Some [demo_delivery Local [demo_put], demo_delivery Peer [demo_delete]] (engine_new u64_max None None))
   = fold lww_put (history_writes [demo_delivery Local [demo_put], demo_delivery Peer [demo_delete]]) Map.empty"
  by (rule replica_refines_registers) (simp add: demo_delivery_ok)

text \<open>
  C2: replicas that received the same writes converge: whatever the order, the batching, the
  duplicates, the arrival paths and the clocks of the deliveries, they hold the same records and their
  bucket and part digests are equal, so an anti-entropy round finds nothing to exchange.
\<close>

theorem replicas_converge:
  assumes "\<forall>d \<in> set ds. delivery_ok e d" and "\<forall>d \<in> set ds'. delivery_ok e d"
    and "well_stamped (history_writes ds)" and "set (history_writes ds) = set (history_writes ds')"
  shows "registers_of e (replica_run e dec ds (engine_new u64_max tti w))
           = registers_of e (replica_run e dec' ds' (engine_new u64_max tti' w')) \<and>
         digests (replica_run e dec ds (engine_new u64_max tti w))
           = digests (replica_run e dec' ds' (engine_new u64_max tti' w')) \<and>
         part_digests b (replica_run e dec ds (engine_new u64_max tti w))
           = part_digests b (replica_run e dec' ds' (engine_new u64_max tti' w'))"
proof -
  let ?g = "replica_run e dec ds (engine_new u64_max tti w)" and ?g' = "replica_run e dec' ds' (engine_new u64_max tti' w')"
  note left = replica_refines[OF engine_new_inv assms(1) engine_new_capacity, of dec tti w]
  note right = replica_refines[OF engine_new_inv assms(2) engine_new_capacity, of dec' tti' w']
  have reg: "registers_of e ?g = registers_of e ?g'"
    using left(2) right(2) lww_converges[OF assms(3,4)] by (simp add: registers_new)
  have ver: "map_option cell_ver (engine_cell e g k) = map_option fst (registers_of e g k)" for g :: "('x, 'y) engine" and k
    by (simp add: registers_of_def option.map_comp comp_def fst_cell_core)
  have "digests ?g = digests ?g'" "part_digests b ?g = part_digests b ?g'"
    using left(1) right(1) by (auto intro!: digests_agree[of e] simp: engine_inv_def ver reg)
  with reg show ?thesis by simp
qed

theorem replicas_converge_witness:
  "digests (replica_run demo_externs Some [demo_delivery Local [demo_put], demo_delivery Peer [demo_delete, demo_put]] (engine_new u64_max None None))
   = digests (replica_run demo_externs Some [demo_delivery Peer [demo_delete], demo_delivery Peer [demo_put]] (engine_new u64_max None None))"
  by (rule replicas_converge[THEN conjunct2, THEN conjunct1])
    (auto simp: demo_delivery_ok, auto simp: well_stamped_def history_writes_def demo_delivery_def write_of_def demo_put_def demo_delete_def)

end
