(* ===== verification/Engine_Reach.thy ===== *)
theory Engine_Reach
  imports Engine_Housekeeping Engine_Loads Replica
begin

text \<open>
  The engine as a state machine: \<open>engine_step\<close> is one call of any operation that changes an
  engine, with what its caller guarantees, and \<open>reachable\<close> its closure from a new engine. The
  invariant holds in every reachable engine, and the capacity after every batch that stored something.
\<close>

section \<open>Steps\<close>

definition entry_of :: "externs \<Rightarrow> bytes \<Rightarrow> 'k \<Rightarrow> 'k entry_key" where
  "entry_of e k key = \<lparr>ek_hash = hash_key_bytes e k, ek_key = key, ek_bytes = k\<rparr>"

inductive engine_step :: "externs \<Rightarrow> ('k, 'v) engine \<Rightarrow> ('k, 'v) engine \<Rightarrow> bool" for e where
  batch: "b < bucket_count \<Longrightarrow> \<forall>en \<in> set entries. entry_ok e b (fst en) \<Longrightarrow>
    apply_many_in e dec scope arr b entries r ttl max_ttl now w g = (outs, deficit, w', g') \<Longrightarrow> engine_step e g g'"
| if_current: "entry_ok e (stripe_index_from_hash (ek_hash (fst en))) (fst en) \<Longrightarrow>
    apply_if_current e dec en expected r ttl max_ttl now g = (out, g') \<Longrightarrow> engine_step e g g'"
| peer_invalidate: "engine_step e g (snd (invalidate e k (hash_key_bytes e k) ver g))"
| local_invalidate: "engine_step e g (invalidate_local e k (hash_key_bytes e k) g)"
| release_whole: "release_buckets bs (0, g) = (n, g') \<Longrightarrow> engine_step e g g'"
| release_some: "\<forall>xs. mset (order xs) = mset xs \<Longrightarrow> release_parts e order ps g = (n, g') \<Longrightarrow> engine_step e g g'"
| collect: "gc_tombstones e defer now ttl g = (gap, g') \<Longrightarrow> engine_step e g g'"
| expire: "engine_step e g (sweep e now retention g)"
| scan: "compact e dk r now retire quiet bounds n g = (found, g') \<Longrightarrow> engine_step e g g'"
| replace: "externs_ok e \<Longrightarrow> cp_hash rp = hash_key_bytes e (cp_key_bytes rp) \<Longrightarrow>
    compact_replace_if_current e rp g = (replaced, g') \<Longrightarrow> engine_step e g g'"
| read: "engine_step e g (snd (get e ek dv key now g))"
| read_lifetime: "engine_step e g (snd (get_with_lifetime e dv k hash now g))"
| contains: "engine_step e g (snd (contains_key e ek key now g))"
| refresh: "engine_step e g (snd (begin_refresh k hash g))"
| join: "engine_step e g (snd (miss_or_join e dv k hash now g))"
| fill: "entry_ok e (stripe_index_from_hash (fl_hash wr)) (fill_entry wr) \<Longrightarrow>
    complete_fresh_load e wr now ifl g = (out, ifl', g') \<Longrightarrow> engine_step e g g'"
| end_load: "engine_step e g (finish_inflight k hash g)"
| prefolding: "engine_step e g (set_prefold_enabled on g)"
| capping: "engine_step e g (set_merge_cap len limit g)"
| deferring: "engine_step e g (starting_gc_deferred on g)"
| guarding: "engine_step e g (guarding_pauses on g)"

inductive reachable :: "externs \<Rightarrow> ('k, 'v) engine \<Rightarrow> bool" for e where
  start: "reachable e (engine_new cap tti weigher)"
| step: "reachable e g \<Longrightarrow> engine_step e g g' \<Longrightarrow> reachable e g'"

section \<open>Every step keeps the invariant\<close>

lemma engine_inv_switches [simp]:
  "engine_inv e (set_prefold_enabled on g) = engine_inv e g" "engine_inv e (set_merge_cap len limit g) = engine_inv e g"
  "engine_inv e (starting_gc_deferred on g) = engine_inv e g" "engine_inv e (guarding_pauses on g) = engine_inv e g"
  by (simp_all add: set_prefold_enabled_def set_merge_cap_def starting_gc_deferred_def guarding_pauses_def
      engine_inv_def engine_ok_def weights_positive_def)

lemmas step_keeps =
  apply_many_in_sound(1) apply_if_current_ok(1) invalidate_inv[OF _ refl] release_buckets_step(1) gc_tombstones_exact(1)
  sweep_exact(1) compact_replace_exact(1) begin_refresh_same(1) miss_or_join_same(1) finish_inflight_same(1) read_inv

lemma engine_step_inv: "engine_step e g g' \<Longrightarrow> engine_inv e g \<Longrightarrow> engine_inv e g'"
proof (induction rule: engine_step.induct)
  case (release_some order ps g n g')
  then show ?case using release_parts_exact(1)[of order e g ps n g'] by blast
next
  case (scan dk r now retire quiet bounds n g found g')
  then show ?case using compact_frame(1) by blast
next
  case (fill wr now ifl g out ifl' g')
  then show ?case using complete_fresh_load_cases(1)[OF _ _ refl] by blast
qed (auto intro: step_keeps)

lemma reachable_inv: "reachable e g \<Longrightarrow> engine_inv e g"
  by (induction rule: reachable.induct) (auto intro: engine_new_inv engine_step_inv)

section \<open>Properties\<close>

text \<open>
  C1: in every reachable engine the invariant holds: each key is stored in its own stripe, live or
  tombstoned and never both; the long-deadline table has exactly the rows the entries need and the
  next-expiry bound never passes a deadline; and the counters are exact, whatever sequence of writes,
  merges, removals, releases, collections, sweeps, compactions, reads and loads ran: the total weight,
  the live count and, for each of the 65536 parts, the XOR of the fingerprints of what it holds.
\<close>

theorem reachable_engine_exact: "reachable e g \<Longrightarrow> engine_ok e g"
  using reachable_inv by (auto simp: engine_inv_def)

theorem reachable_engine_exact_witness:
  "engine_ok demo_externs (sweep demo_externs 950 (Some \<lparr>retention_ttl_ms = 5\<rparr>)
     (deliver demo_externs Some (demo_delivery Local [demo_put]) (engine_new 40 None None)))"
proof -
  let ?g = "engine_new 40 None None :: (bytes, bytes) engine"
  let ?d = "demo_delivery Local [demo_put]"
  obtain outs d w g' where run: "apply_many_in demo_externs Some Any (dl_arrival ?d) (dl_bucket ?d) (dl_entries ?d) lww_resolver
      (dl_ttl_ms ?d) (dl_max_ttl_ms ?d) (dl_now_ms ?d) written_default ?g = (outs, d, w, g')" by (metis prod_cases4)
  have ok: "delivery_ok demo_externs ?d" by (rule demo_delivery_ok) simp
  have "engine_step demo_externs ?g g'" using ok by (intro engine_step.batch[OF _ _ run]) (auto simp: delivery_ok_def)
  moreover have "g' = deliver demo_externs Some ?d ?g" by (simp add: deliver_def apply_many_def run)
  ultimately have "reachable demo_externs (deliver demo_externs Some ?d ?g)" using reachable.start reachable.step by metis
  then have "reachable demo_externs (sweep demo_externs 950 (Some \<lparr>retention_ttl_ms = 5\<rparr>) (deliver demo_externs Some ?d ?g))"
    using engine_step.expire reachable.step by metis
  then show ?thesis by (rule reachable_engine_exact)
qed

end
