(* ===== verification/Engine_Contract.thy ===== *)
theory Engine_Contract
  imports Engine_Reach
begin

text \<open>
  What the engine promises its callers, operation by operation: the bound on the total weight, what
  collection, the sweep and a release do to each record, what the listings report, and when a loaded
  value may be installed.
\<close>

section \<open>An engine with one entry\<close>

lemma put_absent_stored:
  assumes inv: "engine_inv e g" and b: "b < bucket_count" and en: "entry_ok e b (fst en)"
    and put: "\<not> is_tombstone (snd (snd en))" and absent: "engine_cell e g (ek_bytes (fst en)) = None" and r: "\<not> cr_merges r"
    and run: "apply_many_in e dec Any arr b [en] r ttl max_ttl now w g = (outs, deficit, w', g')"
  shows "\<exists>out. outs = [out] \<and> is_out_put out"
proof -
  obtain entry ver incoming where en': "en = (entry, ver, incoming)" by (cases en)
  define ctx where "ctx = batch_ctx g r None ttl max_ttl now (is_peer arr) False"
  obtain out g1 ign1 where ra: "run_apply e dec ctx b en (g, 0) = (out, g1, ign1)" by (metis prod_cases3)
  have outs: "outs = [out]"
    using run r by (auto simp: apply_many_in_def Let_def ctx_def[symmetric] ra split: prod.splits if_splits)
  obtain c s' c' where ap: "apply_locked e dec ctx entry ver incoming (eg_stripes g b, c) = (out, s', c')"
    using ra by (auto simp: run_apply_def en' Let_def split: prod.splits)
  have entry: "entry_ok e b entry" and kb: "key_bucket e (ek_bytes entry) = b" using en by (simp_all add: en' entry_ok_def)
  have none: "stored_version e (eg_stripes g b) (ek_bytes entry) = None"
    using absent by (simp add: stored_version_def engine_cell_def en' kb)
  have sok: "stripe_ok e b (eg_stripes g b)" using inv b by (simp add: engine_inv_def engine_ok_def)
  have live: "\<not> lapsed_on_arrival ctx incoming ver"
    using put by (cases incoming) (simp_all add: en' lapsed_on_arrival_def rule_deadlines_def rule_ignores_def)
  from ap have "is_out_put out"
  proof (cases rule: apply_locked_cases)
    case (stored prior st new_ver new_incoming)
    note sv = stored_version_read[OF stored(3)[unfolded stored(2)], folded stored(2)]
    have "new_incoming = incoming" using stored(5) none by simp
    then show ?thesis using apply_winner_exact(6)[OF sok entry stored(2,3) sv[symmetric] stored(4)] put by (simp add: en')
  qed (use live none in \<open>simp_all add: ctx_def batch_ctx_def\<close>)
  then show ?thesis using outs by blast
qed

definition demo_engine :: "u64 \<Rightarrow> (bytes, bytes) engine" where
  "demo_engine cap = deliver demo_externs Some (demo_delivery Local [demo_put]) (engine_new cap None None)"

lemma demo_deliver_step:
  assumes "set ens \<subseteq> {demo_put, demo_delete}"
  shows "engine_step demo_externs g (deliver demo_externs Some (demo_delivery arr ens) g)"
proof -
  let ?d = "demo_delivery arr ens"
  obtain outs d w g' where run: "apply_many_in demo_externs Some Any (dl_arrival ?d) (dl_bucket ?d) (dl_entries ?d) lww_resolver
      (dl_ttl_ms ?d) (dl_max_ttl_ms ?d) (dl_now_ms ?d) written_default g = (outs, d, w, g')" by (metis prod_cases4)
  have ok: "delivery_ok demo_externs ?d" by (rule demo_delivery_ok[OF assms])
  have "engine_step demo_externs g g'" using ok by (intro engine_step.batch[OF _ _ run]) (auto simp: delivery_ok_def)
  moreover have "g' = deliver demo_externs Some ?d g" by (simp add: deliver_def apply_many_def run)
  ultimately show ?thesis by simp
qed

lemma demo_reachable: "reachable demo_externs (demo_engine cap)"
  unfolding demo_engine_def by (rule reachable.step[OF reachable.start demo_deliver_step]) simp

lemma demo_cell: "engine_cell demo_externs (demo_engine u64_max) [7] = Some (Cell_Live (Hlc 100 0 (NodeId 1)) [42] (Some 900))"
proof -
  let ?d = "demo_delivery Local [demo_put]"
  have "registers_of demo_externs (replica_run demo_externs Some [?d] (engine_new u64_max None None)) =
      fold lww_put (history_writes [?d]) Map.empty"
    using replica_refines(2)[of demo_externs "engine_new u64_max None None" "[?d]" Some] demo_delivery_ok[of "[demo_put]" Local]
    by (simp add: engine_new_inv engine_new_capacity registers_new)
  then have "registers_of demo_externs (demo_engine u64_max) [7] = Some (Hlc 100 0 (NodeId 1), Inl ([42], Some 900))"
    by (simp add: demo_engine_def replica_run_def history_writes_def demo_delivery_def demo_put_def write_of_def demo_entry_def lww_put_def)
  then obtain c where c: "engine_cell demo_externs (demo_engine u64_max) [7] = Some c" "cell_core c = (Hlc 100 0 (NodeId 1), Inl ([42], Some 900))"
    by (auto simp: registers_of_def)
  then show ?thesis by (cases c) simp_all
qed

lemma demo_settings: "eg_tti_ms (demo_engine cap) = None"
proof -
  let ?d = "demo_delivery Local [demo_put]" and ?g = "engine_new cap None None :: (bytes, bytes) engine"
  have ok: "delivery_ok demo_externs ?d" by (rule demo_delivery_ok) simp
  obtain outs d w g' where run: "apply_many_in demo_externs Some Any (dl_arrival ?d) (dl_bucket ?d) (dl_entries ?d) lww_resolver
      (dl_ttl_ms ?d) (dl_max_ttl_ms ?d) (dl_now_ms ?d) written_default ?g = (outs, d, w, g')" by (metis prod_cases4)
  have "settings g' = settings ?g"
    using ok by (intro apply_many_in_sound(2)[OF engine_new_inv _ _ run]) (auto simp: delivery_ok_def)
  then have "eg_tti_ms (settings g') = eg_tti_ms (settings ?g)" by simp
  moreover have "demo_engine cap = g'" by (simp add: demo_engine_def deliver_def apply_many_def run)
  ultimately show ?thesis by (simp add: settings_def engine_new_def)
qed

section \<open>Capacity\<close>

text \<open>
  C11: the capacity is a bound, and enforcing it ends: after a batch that stored something, in a
  bounded cache whose weigher gives every entry a positive weight, eviction has brought the total
  weight down to the capacity, leaving no deficit, whatever the batch, the resolver, the sampling
  cursor and the state before.
\<close>

theorem batch_within_capacity:
  assumes "reachable e g" and "b < bucket_count" and "\<forall>en \<in> set entries. entry_ok e b (fst en)"
    and "apply_many_in e dec scope arr b entries r ttl max_ttl now w g = (outs, deficit, w', g')"
    and "weigher_positive (eg_weigher g)" and "eg_max_capacity g \<noteq> u64_max" and "out \<in> set outs" and "is_out_put out"
  shows "eg_total_weight g' \<le> eg_max_capacity g \<and> deficit = 0"
  using apply_many_in_sound(3,5)[OF reachable_inv[OF assms(1)] assms(2-4)] assms(5-8) by blast

theorem batch_within_capacity_witness:
  "\<exists>outs w' g'. apply_many_in demo_externs Some Any Local (key_bucket demo_externs [7]) [demo_put] lww_resolver 1000 4000 200
       written_default (engine_new 1 None None) = (outs, 0, w', g') \<and> eg_total_weight g' \<le> 1"
proof -
  let ?g = "engine_new 1 None None :: (bytes, bytes) engine"
  obtain outs d w' g' where run: "apply_many_in demo_externs Some Any Local (key_bucket demo_externs [7]) [demo_put] lww_resolver
      1000 4000 200 written_default ?g = (outs, d, w', g')" by (metis prod_cases4)
  have en: "entry_ok demo_externs (key_bucket demo_externs [7]) (fst demo_put)"
    by (simp add: entry_ok_def demo_put_def demo_entry_def)
  have cell: "engine_cell demo_externs ?g (ek_bytes (fst demo_put)) = None"
    using fun_cong[OF registers_new[of demo_externs 1 None None]] by (simp add: registers_of_def)
  have "\<exists>out. outs = [out] \<and> is_out_put out"
    by (rule put_absent_stored[OF engine_new_inv key_bucket_lt en _ cell _ run])
      (simp_all add: demo_put_def lww_resolver_def default_methods_def)
  then obtain out where out: "out \<in> set outs" "is_out_put out" by auto
  have "eg_total_weight g' \<le> eg_max_capacity ?g \<and> d = 0"
    by (rule batch_within_capacity[OF reachable.start key_bucket_lt _ run _ _ out])
      (simp_all add: en engine_new_def weigher_positive_def)
  then show ?thesis using run by (auto simp: engine_new_capacity)
qed

section \<open>Expiry and collection\<close>

lemma swept_live:
  assumes cell: "cell_at e s k = Some (Cell_Live v enc x)"
  shows "is_some_and (\<lambda>d. d \<le> now) x \<Longrightarrow>
      swept_cell e tti now (Some r) s k = Some (Cell_Tombstone (swept_tombstone now r v (the x)))"
    and "\<not> is_some_and (\<lambda>d. d \<le> now) x \<Longrightarrow> swept_cell e None now r' s k = Some (Cell_Live v enc x)"
proof -
  have none: "bm_get (st_tombstones s) k = None" using cell by (cases "bm_get (st_tombstones s) k") (simp_all add: cell_at_def)
  obtain l where l: "arena_find e k (st_live s) = Some l" "live_ver l = v" "live_expires_at l (live_key e l) (st_long_ttl s) = x"
    using cell none by (auto simp: cell_at_def live_cell_def)
  have key: "live_key e l = k" using arena_find_Some[OF l(1)] by simp
  show "is_some_and (\<lambda>d. d \<le> now) x \<Longrightarrow>
      swept_cell e tti now (Some r) s k = Some (Cell_Tombstone (swept_tombstone now r v (the x)))"
    using l key by (auto simp: swept_cell_def absent_at_def absent_under_def live_expires_at_def is_some_and_iff)
  show "\<not> is_some_and (\<lambda>d. d \<le> now) x \<Longrightarrow> swept_cell e None now r' s k = Some (Cell_Live v enc x)"
    using l key cell by (auto simp: swept_cell_def absent_at_def absent_under_def idle_at_def live_expires_at_def)
qed

lemma swept_version:
  assumes ok: "stripe_ok e b s" and ret: "retention \<noteq> None"
  shows "map_option cell_ver (swept_cell e None now retention s k) = map_option cell_ver (cell_at e s k)"
proof (cases "cell_at e s k")
  case None
  then have "arena_find e k (st_live s) = None" by (auto simp: cell_at_def split: option.splits)
  then show ?thesis using None by (simp add: swept_cell_def)
next
  case (Some c)
  show ?thesis
  proof (cases c)
    case (Cell_Live v enc x)
    obtain r where r: "retention = Some r" using ret by auto
    have cell: "cell_at e s k = Some (Cell_Live v enc x)" using Some Cell_Live by simp
    show ?thesis
      using swept_live(1)[OF cell, of now None r] swept_live(2)[OF cell, of now retention]
      by (cases "is_some_and (\<lambda>d. d \<le> now) x") (simp_all add: cell r swept_tombstone_def swept_tombstone_deadlines_def Let_def)
  next
    case (Cell_Tombstone t)
    then have "bm_get (st_tombstones s) k \<noteq> None" using Some by (auto simp: cell_at_def live_cell_def split: option.splits)
    then have "arena_find e k (st_live s) = None" using stripe_okD(2)[OF ok, of k] arena_find_keys[of e k s] by auto
    then show ?thesis by (simp add: swept_cell_def)
  qed
qed

text \<open>
  C12: the sweep removes exactly what lapsed, although it only visits stripes whose next-expiry bound
  is due: a record a read still returns stays, an entry past its deadline becomes a tombstone at the
  entry's own version when the cache keeps expiry tombstones and disappears otherwise, and an idle
  entry disappears. With expiry tombstones and no idle timeout the digests do not change at all.
\<close>

theorem sweep_removes_lapsed:
  assumes "reachable e g"
  shows "engine_cell e (sweep e now retention g) k = swept_cell e (eg_tti_ms g) now retention (eg_stripes g (key_bucket e k)) k \<and>
    (retention \<noteq> None \<and> eg_tti_ms g = None \<longrightarrow> digests (sweep e now retention g) = digests g)"
proof -
  note inv = reachable_inv[OF assms]
  note sw = sweep_exact[OF inv, of now retention]
  have ok: "engine_ok e g" "engine_ok e (sweep e now retention g)" using inv sw(1) by (simp_all add: engine_inv_def)
  have "digests (sweep e now retention g) = digests g" if "retention \<noteq> None" "eg_tti_ms g = None"
  proof (rule digests_agree(1)[OF ok(2,1)])
    fix k
    have "stripe_ok e (key_bucket e k) (eg_stripes g (key_bucket e k))" using ok(1) by (simp add: engine_ok_def)
    from swept_version[OF this that(1)]
    show "map_option cell_ver (engine_cell e (sweep e now retention g) k) = map_option cell_ver (engine_cell e g k)"
      unfolding sw(3) that(2) by (simp add: engine_cell_def)
  qed
  then show ?thesis using sw(3) by blast
qed

theorem sweep_removes_lapsed_witness:
  "engine_cell demo_externs (sweep demo_externs 950 (Some \<lparr>retention_ttl_ms = 5\<rparr>) (demo_engine u64_max)) [7] =
     Some (Cell_Tombstone \<lparr>ts_ver = Hlc 100 0 (NodeId 1), ts_ttl_deadline = 950, ts_max_deadline = 950, ts_expired_at = Some 900\<rparr>)"
proof -
  have cell: "cell_at demo_externs (eg_stripes (demo_engine u64_max) (key_bucket demo_externs [7])) [7] =
      Some (Cell_Live (Hlc 100 0 (NodeId 1)) [42] (Some 900))" using demo_cell by (simp add: engine_cell_def)
  have "is_some_and (\<lambda>d. d \<le> 950) (Some (900 :: u64))" by simp
  from sweep_removes_lapsed[OF demo_reachable, THEN conjunct1, of 950 "Some \<lparr>retention_ttl_ms = 5\<rparr>" u64_max "[7]"]
    swept_live(1)[OF cell this]
  show ?thesis
    by (simp add: swept_tombstone_def swept_tombstone_deadlines_def tombstone_anchor_ms_def sat_add_def Let_def)
qed

text \<open>
  C13: collection drops exactly the tombstones past their deadline: the time-to-live deadline, or the
  deferred one while collection defers, which the pause guard decides. It touches no live entry and no
  other tombstone.
\<close>

theorem gc_collects_lapsed_tombstones:
  assumes "reachable e g" and "gc_tombstones e defer now ttl g = (gap, g')"
  shows "engine_cell e g' k =
    (case engine_cell e g k of
       Some (Cell_Tombstone t) \<Rightarrow>
         if ts_ttl_deadline t \<le> now \<and>
            (\<not> (defer \<or> eg_pause_guard g \<and> (paused_since (eg_last_gc_ms g) now ttl \<or> now < eg_pause_hold_until_ms g))
             \<or> ts_max_deadline t \<le> now)
         then None else Some (Cell_Tombstone t)
     | x \<Rightarrow> x)"
proof -
  have dec: "fst (gc_decide defer now ttl g) \<longleftrightarrow>
      defer \<or> eg_pause_guard g \<and> (paused_since (eg_last_gc_ms g) now ttl \<or> now < eg_pause_hold_until_ms g)"
    by (auto simp: gc_decide_def gc_defer_decision_def Let_def)
  show ?thesis
    unfolding gc_tombstones_exact(2)[OF reachable_inv[OF assms(1)] assms(2)] gc_collects_def Let_def dec ..
qed

theorem gc_collects_lapsed_tombstones_witness:
  "engine_cell demo_externs (snd (gc_tombstones demo_externs True 1000 5
      (sweep demo_externs 950 (Some \<lparr>retention_ttl_ms = 5\<rparr>) (demo_engine u64_max)))) [7] = None"
proof -
  let ?g = "sweep demo_externs 950 (Some \<lparr>retention_ttl_ms = 5\<rparr>) (demo_engine u64_max)"
  obtain gap g' where run: "gc_tombstones demo_externs True 1000 5 ?g = (gap, g')" by fastforce
  have reach: "reachable demo_externs ?g" by (rule reachable.step[OF demo_reachable engine_step.expire])
  have cell: "cell_at demo_externs (eg_stripes (demo_engine u64_max) (key_bucket demo_externs [7])) [7] =
      Some (Cell_Live (Hlc 100 0 (NodeId 1)) [42] (Some 900))" using demo_cell by (simp add: engine_cell_def)
  have "engine_cell demo_externs ?g [7] =
      Some (Cell_Tombstone (swept_tombstone 950 \<lparr>retention_ttl_ms = 5\<rparr> (Hlc 100 0 (NodeId 1)) 900))"
    unfolding sweep_exact(3)[OF reachable_inv[OF demo_reachable]] using swept_live(1)[OF cell] by simp
  then have "engine_cell demo_externs g' [7] = None"
    unfolding gc_collects_lapsed_tombstones[OF reach run]
    by (simp add: swept_tombstone_def swept_tombstone_deadlines_def tombstone_anchor_ms_def sat_add_def Let_def)
  then show ?thesis by (simp add: run)
qed

section \<open>Releases and listings\<close>

text \<open>
  C15: a release drops exactly the parts it is given, records and tombstones alike, and afterwards
  the node holds exactly the other parts it held: this is what makes a handed-off part disappear from
  the old owner without touching a part it still owns.
\<close>

theorem release_drops_the_parts:
  assumes "reachable e g" and "\<forall>xs. mset (order xs) = mset xs" and "release_parts e order parts g = (n, g')"
  shows "engine_cell e g' k = (if part_of_key e k \<in> set parts then None else engine_cell e g k) \<and>
    set (held_parts e g') = set (held_parts e g) - set parts"
proof -
  note rel = release_parts_exact[OF assms(2)[rule_format] reachable_inv[OF assms(1)] assms(3)]
  have "engine_ok e g" "engine_ok e g'" using reachable_inv[OF assms(1)] rel(1) by (simp_all add: engine_inv_def)
  then show ?thesis by (auto simp: held_parts_exact(1) rel(3) split: if_splits)
qed

theorem release_drops_the_parts_witness:
  "set (held_parts demo_externs (snd (release_parts demo_externs rev [part_of_key demo_externs [7], Part_Id 3] (demo_engine u64_max)))) =
     set (held_parts demo_externs (demo_engine u64_max)) - {part_of_key demo_externs [7], Part_Id 3} \<and>
   engine_cell demo_externs (snd (release_parts demo_externs rev [part_of_key demo_externs [7], Part_Id 3] (demo_engine u64_max))) [7] = None"
proof -
  obtain n g' where run: "release_parts demo_externs rev [part_of_key demo_externs [7], Part_Id 3] (demo_engine u64_max) = (n, g')"
    by fastforce
  show ?thesis using release_drops_the_parts[OF demo_reachable _ run, of "[7]"] by (simp add: run)
qed

text \<open>
  The listing of parts agrees with the listing of whole buckets: for every part asked for that is
  in range, once however often it is asked for, it gives the entries of its bucket's listing that
  belong to the part, in the same order, although it goes over each bucket once and routes each entry
  through a table of slots.
\<close>

theorem parts_listing_filters_buckets:
  "set (collect_parts e wanted now g) =
     {(bp, filter (\<lambda>kv. part_index_from_hash (hash_key_bytes e (fst kv)) = unat (bp_part bp)) listing) | bp listing.
        bp \<in> set wanted \<and> unat (bp_part bp) < part_count \<and> (bp_bucket bp, listing) \<in> set (collect_buckets e [bp_bucket bp] now g)}"
  unfolding collect_parts_listing by (auto simp: collect_buckets_def in_range_def key_part_def)

section \<open>Reads and loads\<close>

text \<open>
  A read returns what is stored and changes no record: with no idle timeout, the value of the
  live record while its deadline is not past, nothing for a tombstone, an expired or an absent key.
\<close>

theorem read_returns_the_record:
  assumes "reachable e g" and "eg_tti_ms g = None"
  shows "fst (get_by_bytes e dec k (hash_key_bytes e k) now g) =
      (case engine_cell e g k of
         Some (Cell_Live ver encoded expires) \<Rightarrow> if is_some_and (\<lambda>d. d \<le> now) expires then None else Some (dec encoded)
       | _ \<Rightarrow> None) \<and>
    engine_cell e (snd (get_by_bytes e dec k (hash_key_bytes e k) now g)) = engine_cell e g"
proof -
  note inv = reachable_inv[OF assms(1)]
  have ok: "engine_ok e g" using inv by (simp add: engine_inv_def)
  show ?thesis
    using get_cell(1)[OF ok refl, of dec k now] get_cell(3)[OF ok refl _ assms(2)] read_cells[OF inv]
    by (auto split: option.split cell.split)
qed

theorem read_returns_the_record_witness:
  "fst (get_by_bytes demo_externs id [7] (hash_key_bytes demo_externs [7]) 500 (demo_engine u64_max)) = Some [42] \<and>
   fst (get_by_bytes demo_externs id [7] (hash_key_bytes demo_externs [7]) 900 (demo_engine u64_max)) = None"
proof -
  from read_returns_the_record[OF demo_reachable demo_settings, of id "[7]"] show ?thesis by (simp add: demo_cell)
qed

text \<open>
  C14: a load never overwrites what happened while it ran: when the key was invalidated, or holds a
  record or a tombstone at least as new as the version the load was started with, completing it leaves
  every record as it was and reports so. Otherwise the key holds exactly the loaded record before
  eviction runs. Either way the waiters are released.
\<close>

theorem load_never_overwrites:
  assumes "reachable e g" and "entry_ok e (stripe_index_from_hash (fl_hash wr)) (fill_entry wr)"
    and "complete_fresh_load e wr now ifl g = (out, ifl', g')"
  shows "if_done ifl' \<and>
    (if if_invalidated ifl then out = Invalidated \<and> engine_cell e g' = engine_cell e g
     else if is_some_and (\<lambda>c. fl_ver wr \<le> cell_ver c) (engine_cell e g (fl_key_bytes wr))
     then out = Superseded \<and> engine_cell e g' = engine_cell e g
     else \<exists>had g1. out = Installed had \<and> only_evicted g1 g' \<and>
       engine_cell e g1 = (engine_cell e g)(fl_key_bytes wr \<mapsto> Cell_Live (fl_ver wr) (fl_encoded wr) (fl_expires wr)))"
proof -
  note load = complete_fresh_load_cases[OF reachable_inv[OF assms(1)] assms(2) refl assms(3)]
  have "fill_supersedes (stored_ver e g (fl_key_bytes wr)) (fl_ver wr) \<longleftrightarrow>
      \<not> is_some_and (\<lambda>c. fl_ver wr \<le> cell_ver c) (engine_cell e g (fl_key_bytes wr))"
    by (cases "engine_cell e g (fl_key_bytes wr)") (auto simp: fill_supersedes_def stored_ver_def)
  then show ?thesis using load(3-6) by auto
qed

theorem load_never_overwrites_witness:
  "fst (complete_fresh_load demo_externs
      \<lparr>fl_key = [7], fl_key_bytes = [7], fl_hash = hash_key_bytes demo_externs [7], fl_ver = Hlc 90 0 (NodeId 2), fl_value = [1],
       fl_encoded = [1], fl_expires = None\<rparr> 300 inflight_new (demo_engine u64_max)) = Superseded"
    (is "fst (complete_fresh_load _ ?w _ _ _) = _")
proof -
  obtain out ifl' g' where run: "complete_fresh_load demo_externs ?w 300 inflight_new (demo_engine u64_max) = (out, ifl', g')"
    by (metis prod_cases3)
  have "entry_ok demo_externs (stripe_index_from_hash (fl_hash ?w)) (fill_entry ?w)"
    by (simp add: entry_ok_def fill_entry_def key_bucket_def)
  from load_never_overwrites[OF demo_reachable this run] show ?thesis
    unfolding run by (simp add: demo_cell inflight_new_def less_eq_hlc_def)
qed

section \<open>Compaction\<close>

text \<open>
  Replacing a compacted value is conditional: it happens only to a live record still at the
  version the scan saw, keeps that record's deadline, and touches no other record; a record that moved
  on is left alone, and with it the whole engine.
\<close>

theorem compact_replaces_only_current:
  assumes "reachable e g" and "externs_ok e" and "cp_hash rp = hash_key_bytes e (cp_key_bytes rp)"
    and "compact_replace_if_current e rp g = (replaced, g')"
  shows "if replaced
    then \<exists>enc x. engine_cell e g (cp_key_bytes rp) = Some (Cell_Live (cp_expected_ver rp) enc x) \<and>
      engine_cell e g' = (engine_cell e g)(cp_key_bytes rp \<mapsto> Cell_Live (cp_new_ver rp) (cp_encoded rp) x)
    else g' = g"
  using compact_replace_exact(3,4)[OF reachable_inv[OF assms(1)] assms(2-4)] by simp

theorem compact_replaces_only_current_witness:
  "compact_replace_if_current demo_externs
      \<lparr>cp_key = [7], cp_key_bytes = [7], cp_hash = hash_key_bytes demo_externs [7], cp_expected_ver = Hlc 90 0 (NodeId 1),
       cp_new_ver = Hlc 100 1 (NodeId 1), cp_value = [9], cp_encoded = [9]\<rparr> (demo_engine u64_max) = (False, demo_engine u64_max)"
    (is "compact_replace_if_current _ ?r _ = _")
proof -
  obtain replaced g' where run: "compact_replace_if_current demo_externs ?r (demo_engine u64_max) = (replaced, g')" by fastforce
  have "\<not> replaced"
    using compact_replaces_only_current[OF demo_reachable demo_externs_ok _ run] by (auto simp: demo_cell split: if_splits)
  then show ?thesis
    using compact_replaces_only_current[OF demo_reachable demo_externs_ok _ run] run by simp
qed

end
