(* ===== verification/Skew_Hold.thy ===== *)
theory Skew_Hold
  imports Btree_Map Wire "HOL-Library.Product_Lexorder"
begin

text \<open>
  The hold of \<^verbatim>\<open>sundog/src/store/skew_hold.rs\<close>: the forwarded writes an owner refused because
  its clock runs too far behind their stamp, parked in due order until its clock is within the
  bound. The map by due time, the index by key, the byte count and the caps are kept as in the
  source; lengths and byte counts are naturals, the arrival number is the 64-bit word it is.

  The lemmas show that the two indexes and the byte count never drift apart, that the caps are
  never passed, that a release takes exactly the records whose stamp the clock has caught up
  with, and that a hold that keeps one version per key keeps the highest.
\<close>

section \<open>Bounds and due times\<close>

definition skew_hold_max_records :: nat where
  "skew_hold_max_records = 16384"

definition skew_hold_max_bytes :: nat where
  "skew_hold_max_bytes = 32 * 1024 * 1024"

definition skew_hold_max_horizon_ms :: u64 where
  "skew_hold_max_horizon_ms = 24 * 60 * 60 * 1000"

text \<open>\<open>SKEW_RELEASE_POLL\<close> is one second, in milliseconds.\<close>

definition skew_release_poll :: u64 where
  "skew_release_poll = 1000"

definition held_record_overhead :: nat where
  "held_record_overhead = 64"

definition skew_due_ms :: "u64 \<Rightarrow> u64 \<Rightarrow> u64" where
  "skew_due_ms wall max_skew_ms = sat_sub wall max_skew_ms"

definition skew_hold_horizon_ms :: "u64 \<Rightarrow> u64" where
  "skew_hold_horizon_ms tombstone_max_ttl_ms = min tombstone_max_ttl_ms skew_hold_max_horizon_ms"

definition beyond_horizon :: "u64 \<Rightarrow> u64 \<Rightarrow> u64 \<Rightarrow> bool" where
  "beyond_horizon due_ms now_ms horizon_ms \<longleftrightarrow> sat_sub due_ms now_ms > horizon_ms"

definition skew_hold_wait :: "u64 option \<Rightarrow> u64 \<Rightarrow> u64 option" where
  "skew_hold_wait next_due_ms now_ms =
     map_option (\<lambda>due_ms. min (max (sat_sub due_ms now_ms) 1) skew_release_poll) next_due_ms"

datatype hold_outcome = Held | Duplicate | Superseded | Full | Closed

section \<open>The hold\<close>

type_synonym hold_slot = "u64 \<times> u64"

record skew_hold =
  sh_entries :: "(hold_slot, wire_record) btree_map"
  sh_by_key :: "bytes \<Rightarrow> (hold_slot \<times> hlc) list option"
  sh_seq :: u64
  sh_bytes :: nat
  sh_max_records :: nat
  sh_max_bytes :: nat
  sh_closed :: bool

definition held_size :: "wire_record \<Rightarrow> nat" where
  "held_size rec = length (wr_key rec) + map_or 0 length (wr_value rec) + held_record_overhead"

definition skew_hold_new :: "nat \<Rightarrow> nat \<Rightarrow> skew_hold" where
  "skew_hold_new max_records max_bytes =
     \<lparr>sh_entries = bm_empty, sh_by_key = Map.empty, sh_seq = 0, sh_bytes = 0,
      sh_max_records = max_records, sh_max_bytes = max_bytes, sh_closed = False\<rparr>"

definition held_for_key :: "bytes \<Rightarrow> skew_hold \<Rightarrow> (hold_slot \<times> hlc) list" where
  "held_for_key k h = map_or [] id (sh_by_key h k)"

definition fits :: "hold_slot list \<Rightarrow> nat \<Rightarrow> skew_hold \<Rightarrow> bool" where
  "fits evict sz h \<longleftrightarrow>
     (let freed = sum_list (map held_size (List.map_filter (bm_get (sh_entries h)) evict))
      in length (bm_entries (sh_entries h)) - length evict < sh_max_records h \<and>
         sh_bytes h - freed + sz \<le> sh_max_bytes h)"

definition hold_remove :: "hold_slot \<Rightarrow> skew_hold \<Rightarrow> wire_record option \<times> skew_hold" where
  "hold_remove slot h =
     (case bm_get (sh_entries h) slot of
        None \<Rightarrow> (None, h)
      | Some rec \<Rightarrow>
          let by_key =
            (case sh_by_key h (wr_key rec) of
               None \<Rightarrow> sh_by_key h
             | Some hk \<Rightarrow>
                 let kept = filter (\<lambda>(held_slot, _). held_slot \<noteq> slot) hk
                 in if kept = [] then (sh_by_key h)(wr_key rec := None)
                    else (sh_by_key h)(wr_key rec := Some kept))
          in (Some rec, h\<lparr>sh_entries := bm_remove slot (sh_entries h), sh_bytes := sh_bytes h - held_size rec,
                          sh_by_key := by_key\<rparr>))"

definition hold_insert :: "wire_record \<Rightarrow> u64 \<Rightarrow> skew_hold \<Rightarrow> skew_hold" where
  "hold_insert rec max_skew_ms h =
     (let slot = (skew_due_ms (wall_ms (wr_ver rec)) max_skew_ms, sh_seq h)
      in h\<lparr>sh_seq := sh_seq h + 1, sh_bytes := sh_bytes h + held_size rec,
           sh_by_key := (sh_by_key h)(wr_key rec := Some (held_for_key (wr_key rec) h @ [(slot, wr_ver rec)])),
           sh_entries := bm_insert slot rec (sh_entries h)\<rparr>)"

definition hold :: "wire_record \<Rightarrow> u64 \<Rightarrow> bool \<Rightarrow> skew_hold \<Rightarrow> hold_outcome \<times> skew_hold" where
  "hold rec max_skew_ms keep_every_version h =
     (if sh_closed h then (Closed, h)
      else let sz = held_size rec;
               hk = held_for_key (wr_key rec) h
           in if list_ex (\<lambda>(_, ver). ver = wr_ver rec) hk then (Duplicate, h)
              else if \<not> keep_every_version \<and> list_ex (\<lambda>(_, ver). ver > wr_ver rec) hk then (Superseded, h)
              else let evict = (if keep_every_version then [] else map fst hk)
                   in if \<not> fits evict sz h then (Full, h)
                      else (Held, hold_insert rec max_skew_ms (foldl (\<lambda>h slot. snd (hold_remove slot h)) h evict)))"

text \<open>\<open>range(..=(now_ms, u64::MAX))\<close> in key order, then each record removed in turn.\<close>

fun remove_slots :: "hold_slot list \<Rightarrow> skew_hold \<Rightarrow> wire_record list \<times> skew_hold" where
  "remove_slots [] h = ([], h)"
| "remove_slots (slot # slots) h =
     (case hold_remove slot h of
        (rec, h) \<Rightarrow> case remove_slots slots h of (recs, h) \<Rightarrow> ((case rec of None \<Rightarrow> recs | Some r \<Rightarrow> r # recs), h))"

definition take_due :: "u64 \<Rightarrow> skew_hold \<Rightarrow> wire_record list \<times> skew_hold" where
  "take_due now_ms h = remove_slots (filter (\<lambda>slot. slot \<le> (now_ms, u64_max)) (bm_keys (sh_entries h))) h"

definition hold_close :: "skew_hold \<Rightarrow> wire_record list \<times> skew_hold" where
  "hold_close h =
     (bm_values (sh_entries h),
      h\<lparr>sh_closed := True, sh_by_key := Map.empty, sh_bytes := 0, sh_entries := bm_empty\<rparr>)"

definition next_due_ms :: "skew_hold \<Rightarrow> u64 option" where
  "next_due_ms h = (case bm_keys (sh_entries h) of [] \<Rightarrow> None | (due_ms, _) # _ \<Rightarrow> Some due_ms)"

definition hold_len :: "skew_hold \<Rightarrow> nat" where
  "hold_len h = length (bm_entries (sh_entries h))"

section \<open>The invariant\<close>

text \<open>
  \<open>max_skew_ms\<close> and \<open>keep\<close> are the shard's bound and whether its resolver merges, the same for
  every call.
\<close>

definition index_ok :: "skew_hold \<Rightarrow> bool" where
  "index_ok h \<longleftrightarrow> (\<forall>k. sh_by_key h k \<noteq> Some [] \<and> distinct (map fst (held_for_key k h)) \<and>
     (\<forall>s v. (s, v) \<in> set (held_for_key k h) \<longleftrightarrow>
        (\<exists>r. bm_get (sh_entries h) s = Some r \<and> wr_key r = k \<and> wr_ver r = v)))"

definition hold_ok :: "u64 \<Rightarrow> bool \<Rightarrow> skew_hold \<Rightarrow> bool" where
  "hold_ok max_skew_ms keep h \<longleftrightarrow> index_ok h \<and> sh_bytes h = bm_sum held_size (sh_entries h) \<and>
     hold_len h \<le> sh_max_records h \<and> sh_bytes h \<le> sh_max_bytes h \<and>
     (\<forall>s r. bm_get (sh_entries h) s = Some r \<longrightarrow>
        fst s = skew_due_ms (wall_ms (wr_ver r)) max_skew_ms \<and> snd s < sh_seq h) \<and>
     (\<forall>k. distinct (map snd (held_for_key k h)) \<and> (\<not> keep \<longrightarrow> length (held_for_key k h) \<le> 1)) \<and>
     (sh_closed h \<longrightarrow> sh_entries h = bm_empty)"

lemma skew_due_iff: "skew_due_ms w s \<le> now_ms \<longleftrightarrow> \<not> exceeds_skew now_ms w s"
  using unat_le_pow[of w]
  by (auto simp: skew_due_ms_def exceeds_skew_def word_le_nat_alt word_less_nat_alt sat_simps)

lemma hold_len_sum: "hold_len h = bm_sum (\<lambda>_. 1) (sh_entries h)"
  by (simp add: hold_len_def bm_sum_def bm_values_def o_def sum_list_triv)

lemma held_for_key_upd [simp]:
  "held_for_key k (h\<lparr>sh_entries := m\<rparr>) = held_for_key k h"
  "held_for_key k (h\<lparr>sh_bytes := b\<rparr>) = held_for_key k h"
  "held_for_key k (h\<lparr>sh_seq := s\<rparr>) = held_for_key k h"
  by (simp_all add: held_for_key_def)

lemma hold_new_ok: "hold_ok max_skew_ms keep (skew_hold_new n b)"
  by (simp add: hold_ok_def index_ok_def skew_hold_new_def hold_len_sum held_for_key_def)

text \<open>Removing one record: both indexes lose it and the byte count goes down by its size.\<close>

lemma hold_remove_None: "bm_get (sh_entries h) s = None \<Longrightarrow> hold_remove s h = (None, h)"
  by (simp add: hold_remove_def)

lemma hold_remove_Some:
  assumes "index_ok h" "bm_get (sh_entries h) s = Some r"
  shows "fst (hold_remove s h) = Some r"
    "sh_entries (snd (hold_remove s h)) = bm_remove s (sh_entries h)"
    "sh_bytes (snd (hold_remove s h)) = sh_bytes h - held_size r"
    "held_for_key k (snd (hold_remove s h)) = filter (\<lambda>(t, _). t \<noteq> s) (held_for_key k h)"
    "sh_by_key h k \<noteq> Some [] \<Longrightarrow> sh_by_key (snd (hold_remove s h)) k \<noteq> Some []"
    "sh_seq (snd (hold_remove s h)) = sh_seq h" "sh_closed (snd (hold_remove s h)) = sh_closed h"
    "sh_max_records (snd (hold_remove s h)) = sh_max_records h" "sh_max_bytes (snd (hold_remove s h)) = sh_max_bytes h"
proof -
  have in_idx: "(s, wr_ver r) \<in> set (held_for_key (wr_key r) h)"
    using assms unfolding index_ok_def by blast
  then obtain xs where xs: "sh_by_key h (wr_key r) = Some xs"
    by (cases "sh_by_key h (wr_key r)") (auto simp: held_for_key_def)
  have other: "filter (\<lambda>(t, _). t \<noteq> s) (held_for_key k h) = held_for_key k h" if "k \<noteq> wr_key r"
  proof -
    have "t \<noteq> s" if "(t, v) \<in> set (held_for_key k h)" for t v
      using assms that \<open>k \<noteq> wr_key r\<close> unfolding index_ok_def by (metis option.inject)
    then show ?thesis by (auto simp: filter_id_conv)
  qed
  show "held_for_key k (snd (hold_remove s h)) = filter (\<lambda>(t, _). t \<noteq> s) (held_for_key k h)"
    using other assms(2) xs by (auto simp: hold_remove_def Let_def held_for_key_def)
  show "sh_by_key h k \<noteq> Some [] \<Longrightarrow> sh_by_key (snd (hold_remove s h)) k \<noteq> Some []"
    using assms(2) xs by (auto simp: hold_remove_def Let_def)
qed (use assms in \<open>simp_all add: hold_remove_def Let_def\<close>)

lemma bm_sum_remove_le: "bm_sum f (bm_remove s m) \<le> bm_sum f m"
  using bm_sum_remove[of m s] bm_remove_absent[of m s] by (cases "bm_get m s") auto

lemma hold_remove_ok:
  assumes "hold_ok max_skew_ms keep h"
  shows "hold_ok max_skew_ms keep (snd (hold_remove s h))"
proof (cases "bm_get (sh_entries h) s")
  case None
  then show ?thesis using assms by (simp add: hold_remove_None)
next
  case (Some r)
  have idx: "index_ok h" using assms by (simp add: hold_ok_def)
  note rm = hold_remove_Some[OF idx Some]
  have "index_ok (snd (hold_remove s h))"
    using idx rm(5) unfolding index_ok_def rm(2,4) by (auto simp: distinct_map_filter)
  moreover have "sh_bytes h - held_size r = bm_sum held_size (bm_remove s (sh_entries h))"
    using assms bm_sum_remove[OF Some, of held_size] by (simp add: hold_ok_def)
  moreover have "hold_len (snd (hold_remove s h)) \<le> sh_max_records h"
    using assms bm_sum_remove_le[of "\<lambda>_. 1" s "sh_entries h"] unfolding hold_len_sum rm(2) by (simp add: hold_ok_def hold_len_sum)
  moreover have "length (filter P (held_for_key k h)) \<le> 1" if "length (held_for_key k h) \<le> 1" for k P
    using that length_filter_le le_trans by blast
  moreover have "bm_remove s bm_empty = (bm_empty :: (hold_slot, wire_record) btree_map)" by (rule bm_ext) simp
  ultimately show ?thesis
    using assms unfolding hold_ok_def rm(2,3,4,6-9)
    by (auto simp: distinct_map_filter)
qed


text \<open>What a call leaves alone.\<close>

definition same_limits :: "skew_hold \<Rightarrow> skew_hold \<Rightarrow> bool" where
  "same_limits h h' \<longleftrightarrow> sh_seq h' = sh_seq h \<and> sh_closed h' = sh_closed h \<and>
     sh_max_records h' = sh_max_records h \<and> sh_max_bytes h' = sh_max_bytes h"

lemma remove_slots_Cons:
  assumes "hold_ok max_skew_ms keep h" "bm_get (sh_entries h) s = Some r"
  shows "remove_slots (s # slots) h =
    (r # fst (remove_slots slots (snd (hold_remove s h))), snd (remove_slots slots (snd (hold_remove s h))))"
proof -
  have "index_ok h" using assms(1) by (simp add: hold_ok_def)
  from hold_remove_Some(1)[OF this assms(2)] show ?thesis
    by (simp add: case_prod_unfold)
qed

lemma remove_slots_spec:
  assumes "hold_ok max_skew_ms keep h" "distinct slots" "\<forall>s\<in>set slots. bm_contains (sh_entries h) s"
  shows "fst (remove_slots slots h) = map (\<lambda>s. the (bm_get (sh_entries h) s)) slots \<and>
    sh_entries (snd (remove_slots slots h)) = bm_retain (\<lambda>s _. s \<notin> set slots) (sh_entries h) \<and>
    sh_bytes (snd (remove_slots slots h)) + sum_list (map (\<lambda>s. held_size (the (bm_get (sh_entries h) s))) slots) = sh_bytes h \<and>
    hold_len (snd (remove_slots slots h)) + length slots = hold_len h \<and>
    (\<forall>k. held_for_key k (snd (remove_slots slots h)) = filter (\<lambda>(t, _). t \<notin> set slots) (held_for_key k h)) \<and>
    same_limits h (snd (remove_slots slots h)) \<and> hold_ok max_skew_ms keep (snd (remove_slots slots h))"
  using assms
proof (induction slots arbitrary: h)
  case Nil
  then show ?case by (simp add: bm_retain_id same_limits_def)
next
  case (Cons s slots)
  obtain r where r: "bm_get (sh_entries h) s = Some r" using Cons.prems(3) by (auto simp: bm_contains_def)
  have idx: "index_ok h" using Cons.prems(1) by (simp add: hold_ok_def)
  note rm = hold_remove_Some[OF idx r] and ok = hold_remove_ok[OF Cons.prems(1), of s]
  let ?h = "snd (hold_remove s h)"
  have keep: "bm_get (bm_remove s (sh_entries h)) t = bm_get (sh_entries h) t" if "t \<in> set slots" for t
    using that Cons.prems(2) by auto
  have IH: "fst (remove_slots slots ?h) = map (\<lambda>s. the (bm_get (sh_entries h) s)) slots"
    "sh_entries (snd (remove_slots slots ?h)) = bm_retain (\<lambda>s _. s \<notin> set slots) (bm_remove s (sh_entries h))"
    "sh_bytes (snd (remove_slots slots ?h)) + sum_list (map (\<lambda>s. held_size (the (bm_get (sh_entries h) s))) slots) = sh_bytes ?h"
    "hold_len (snd (remove_slots slots ?h)) + length slots = hold_len ?h"
    "\<forall>k. held_for_key k (snd (remove_slots slots ?h)) = filter (\<lambda>(t, _). t \<notin> set slots) (held_for_key k ?h)"
    "same_limits ?h (snd (remove_slots slots ?h))" "hold_ok max_skew_ms keep (snd (remove_slots slots ?h))"
    using Cons.IH[OF ok] Cons.prems(2,3) keep unfolding rm(2)
    by (auto simp: bm_contains_def cong: map_cong)
  have "held_size r \<le> sh_bytes h" "hold_len h = Suc (hold_len ?h)"
    using Cons.prems(1) bm_sum_remove[OF r, of held_size] bm_sum_remove[OF r, of "\<lambda>_. 1"]
    by (simp_all add: hold_ok_def hold_len_sum rm(2))
  moreover have "bm_retain (\<lambda>s _. s \<notin> set slots) (bm_remove s (sh_entries h))
    = bm_retain (\<lambda>t _. t \<notin> set (s # slots)) (sh_entries h)"
    by (rule bm_ext) (auto simp: bm_get_retain split: option.splits)
  moreover have "filter (\<lambda>(t, _). t \<notin> set slots) (filter (\<lambda>(t, _). t \<noteq> s) (held_for_key k h))
    = filter (\<lambda>(t, _). t \<notin> set (s # slots)) (held_for_key k h)" for k
    by (auto simp: filter_filter intro!: filter_cong)
  ultimately show ?case
    using IH r rm(3,6-9) unfolding remove_slots_Cons[OF Cons.prems(1) r] by (simp add: rm(4) same_limits_def)
qed

lemma foldl_remove_slots: "foldl (\<lambda>h slot. snd (hold_remove slot h)) h slots = snd (remove_slots slots h)"
  by (induction slots arbitrary: h) (simp_all add: case_prod_unfold)

section \<open>Holding a record\<close>

lemma fresh_slot: "hold_ok max_skew_ms keep h \<Longrightarrow> bm_get (sh_entries h) (d, sh_seq h) = None"
  unfolding hold_ok_def by (metis less_irrefl not_None_eq snd_conv)

lemma held_for_key_insert:
  "held_for_key k (hold_insert rec max_skew_ms h) =
     (if k = wr_key rec then held_for_key k h @ [((skew_due_ms (wall_ms (wr_ver rec)) max_skew_ms, sh_seq h), wr_ver rec)]
      else held_for_key k h)"
  by (simp add: hold_insert_def Let_def held_for_key_def)

lemma hold_insert_fields:
  "sh_entries (hold_insert rec max_skew_ms h) =
     bm_insert (skew_due_ms (wall_ms (wr_ver rec)) max_skew_ms, sh_seq h) rec (sh_entries h)"
  "sh_bytes (hold_insert rec max_skew_ms h) = sh_bytes h + held_size rec"
  "sh_seq (hold_insert rec max_skew_ms h) = sh_seq h + 1"
  "sh_closed (hold_insert rec max_skew_ms h) = sh_closed h"
  "sh_max_records (hold_insert rec max_skew_ms h) = sh_max_records h"
  "sh_max_bytes (hold_insert rec max_skew_ms h) = sh_max_bytes h"
  by (simp_all add: hold_insert_def Let_def)

lemma index_ok_insert:
  assumes "hold_ok max_skew_ms keep h"
  shows "index_ok (hold_insert rec max_skew_ms h)"
proof -
  let ?s = "(skew_due_ms (wall_ms (wr_ver rec)) max_skew_ms, sh_seq h)"
  have idx: "index_ok h" using assms by (simp add: hold_ok_def)
  have fresh: "bm_get (sh_entries h) ?s = None" by (rule fresh_slot[OF assms])
  then have "\<forall>v k. (?s, v) \<notin> set (held_for_key k h)" using idx unfolding index_ok_def by (metis option.distinct(1))
  moreover have "sh_by_key (hold_insert rec max_skew_ms h) k \<noteq> Some []" for k
    using idx by (simp add: hold_insert_def Let_def index_ok_def)
  ultimately show ?thesis
    using idx fresh unfolding index_ok_def held_for_key_insert hold_insert_fields
    by (force split: if_splits)
qed

lemma hold_insert_ok:
  assumes "hold_ok max_skew_ms keep h" "sh_seq h \<noteq> - 1" "\<not> sh_closed h"
    and "\<forall>(_, v) \<in> set (held_for_key (wr_key rec) h). v \<noteq> wr_ver rec" "\<not> keep \<Longrightarrow> held_for_key (wr_key rec) h = []"
    and "hold_len h < sh_max_records h" "sh_bytes h + held_size rec \<le> sh_max_bytes h"
  shows "hold_ok max_skew_ms keep (hold_insert rec max_skew_ms h)"
proof -
  let ?s = "(skew_due_ms (wall_ms (wr_ver rec)) max_skew_ms, sh_seq h)"
  have fresh: "bm_get (sh_entries h) ?s = None" by (rule fresh_slot[OF assms(1)])
  have "hold_len (hold_insert rec max_skew_ms h) = Suc (hold_len h)"
    unfolding hold_len_sum hold_insert_fields using bm_sum_insert_new[OF fresh, of "\<lambda>_. 1"] by simp
  moreover have "sh_bytes h + held_size rec = bm_sum held_size (bm_insert ?s rec (sh_entries h))"
    using bm_sum_insert_new[OF fresh, of held_size] assms(1) by (simp add: hold_ok_def)
  moreover have "snd s < sh_seq h + 1" if "bm_get (sh_entries h) s = Some r" for s r
    using assms(1,2) that word_less_inc[of "sh_seq h"] unfolding hold_ok_def by (meson less_trans)
  moreover have "wr_ver rec \<notin> snd ` set (held_for_key (wr_key rec) h)" using assms(4) by auto
  ultimately show ?thesis
    using assms(1,3,5,6,7) index_ok_insert[OF assms(1)] word_less_inc[OF assms(2)]
    unfolding hold_ok_def hold_insert_fields held_for_key_insert
    by (auto split: if_splits)
qed


text \<open>The records a hold gives up for a newer one of the same key, and what is left then.\<close>

definition given_up :: "bool \<Rightarrow> wire_record \<Rightarrow> skew_hold \<Rightarrow> hold_slot list" where
  "given_up keep rec h = (if keep then [] else map fst (held_for_key (wr_key rec) h))"

lemma given_up_held:
  assumes "hold_ok max_skew_ms keep' h"
  shows "distinct (given_up keep rec h)" "\<forall>s\<in>set (given_up keep rec h). bm_contains (sh_entries h) s"
proof -
  have idx: "index_ok h" using assms by (simp add: hold_ok_def)
  then show "distinct (given_up keep rec h)" by (simp add: given_up_def index_ok_def)
  show "\<forall>s\<in>set (given_up keep rec h). bm_contains (sh_entries h) s"
  proof
    fix s assume "s \<in> set (given_up keep rec h)"
    then obtain v where "(s, v) \<in> set (held_for_key (wr_key rec) h)" by (auto simp: given_up_def split: if_splits)
    then obtain r where "bm_get (sh_entries h) s = Some r" using idx unfolding index_ok_def by blast
    then show "bm_contains (sh_entries h) s" by (rule bm_contains_get)
  qed
qed

lemma map_filter_all_Some:
  "\<forall>s\<in>set xs. f s \<noteq> None \<Longrightarrow> List.map_filter f xs = map (\<lambda>s. the (f s)) xs"
  by (induction xs) (auto simp: List.map_filter_simps)

lemma fits_iff:
  assumes "hold_ok max_skew_ms keep h"
  shows "fits (given_up keep rec h) sz h \<longleftrightarrow>
    hold_len (snd (remove_slots (given_up keep rec h) h)) < sh_max_records h \<and>
    sh_bytes (snd (remove_slots (given_up keep rec h) h)) + sz \<le> sh_max_bytes h"
proof -
  note held = given_up_held[OF assms, of keep rec]
  have "List.map_filter (bm_get (sh_entries h)) (given_up keep rec h)
    = map (\<lambda>s. the (bm_get (sh_entries h) s)) (given_up keep rec h)"
    by (rule map_filter_all_Some) (use held(2) in \<open>simp add: bm_contains_def\<close>)
  then have freed: "sum_list (map held_size (List.map_filter (bm_get (sh_entries h)) (given_up keep rec h)))
    = sum_list (map (\<lambda>s. held_size (the (bm_get (sh_entries h) s))) (given_up keep rec h))" by (simp add: o_def)
  from remove_slots_spec[OF assms held]
  have "sh_bytes h = sh_bytes (snd (remove_slots (given_up keep rec h) h))
      + sum_list (map (\<lambda>s. held_size (the (bm_get (sh_entries h) s))) (given_up keep rec h))"
    "hold_len h = hold_len (snd (remove_slots (given_up keep rec h) h)) + length (given_up keep rec h)" by simp_all
  then show ?thesis unfolding fits_def Let_def freed hold_len_def[symmetric] by simp
qed

lemma hold_unfold:
  "hold rec max_skew_ms keep h =
     (if sh_closed h then (Closed, h)
      else if wr_ver rec \<in> snd ` set (held_for_key (wr_key rec) h) then (Duplicate, h)
      else if \<not> keep \<and> (\<exists>v \<in> snd ` set (held_for_key (wr_key rec) h). wr_ver rec < v) then (Superseded, h)
      else if \<not> fits (given_up keep rec h) (held_size rec) h then (Full, h)
      else (Held, hold_insert rec max_skew_ms (snd (remove_slots (given_up keep rec h) h))))"
  unfolding hold_def Let_def foldl_remove_slots given_up_def list_ex_iff
  by (auto simp: image_iff case_prod_unfold)

lemma filter_given_up:
  "\<not> keep \<Longrightarrow> filter (\<lambda>(t, _). t \<notin> set (given_up keep rec h)) (held_for_key (wr_key rec) h) = []"
  by (force simp: given_up_def filter_empty_conv)

lemma hold_refused: "fst (hold rec max_skew_ms keep h) \<noteq> Held \<Longrightarrow> snd (hold rec max_skew_ms keep h) = h"
  by (auto simp: hold_unfold)

lemma hold_accepted:
  assumes "fst (hold rec max_skew_ms keep h) = Held"
  shows "snd (hold rec max_skew_ms keep h) = hold_insert rec max_skew_ms (snd (remove_slots (given_up keep rec h) h))"
    "\<not> sh_closed h" "wr_ver rec \<notin> snd ` set (held_for_key (wr_key rec) h)"
    "fits (given_up keep rec h) (held_size rec) h"
    "keep \<or> (\<forall>v \<in> snd ` set (held_for_key (wr_key rec) h). \<not> wr_ver rec < v)"
proof -
  let ?g = "\<not> sh_closed h \<and> wr_ver rec \<notin> snd ` set (held_for_key (wr_key rec) h) \<and>
    fits (given_up keep rec h) (held_size rec) h \<and> (keep \<or> (\<forall>v \<in> snd ` set (held_for_key (wr_key rec) h). \<not> wr_ver rec < v))"
  have g: ?g using assms unfolding hold_unfold by (auto split: if_splits)
  then show "\<not> sh_closed h" "wr_ver rec \<notin> snd ` set (held_for_key (wr_key rec) h)"
    "fits (given_up keep rec h) (held_size rec) h"
    "keep \<or> (\<forall>v \<in> snd ` set (held_for_key (wr_key rec) h). \<not> wr_ver rec < v)" by blast+
  show "snd (hold rec max_skew_ms keep h) = hold_insert rec max_skew_ms (snd (remove_slots (given_up keep rec h) h))"
    using g unfolding hold_unfold by auto
qed

lemma hold_step_ok:
  assumes "hold_ok max_skew_ms keep h" "sh_seq h \<noteq> - 1"
  shows "hold_ok max_skew_ms keep (snd (hold rec max_skew_ms keep h))"
proof (cases "fst (hold rec max_skew_ms keep h) = Held")
  case False
  then show ?thesis using assms(1) hold_refused by simp
next
  case True
  let ?h = "snd (remove_slots (given_up keep rec h) h)"
  note eq = hold_accepted(1)[OF True] and g = hold_accepted(2-4)[OF True]
  note sp = remove_slots_spec[OF assms(1) given_up_held[OF assms(1), of keep rec]]
  show ?thesis
    unfolding eq
  proof (rule hold_insert_ok)
    show "hold_ok max_skew_ms keep ?h" using sp by blast
    show "sh_seq ?h \<noteq> - 1" "\<not> sh_closed ?h" using sp assms(2) g(1) by (simp_all add: same_limits_def)
    show "\<forall>(_, v)\<in>set (held_for_key (wr_key rec) ?h). v \<noteq> wr_ver rec" using sp g(2) by (auto simp: image_iff)
    show "held_for_key (wr_key rec) ?h = []" if "\<not> keep" using sp filter_given_up[OF that] by simp
    show "hold_len ?h < sh_max_records ?h" "sh_bytes ?h + held_size rec \<le> sh_max_bytes ?h"
      using g(3) fits_iff[OF assms(1), of rec "held_size rec"] sp by (simp_all add: same_limits_def)
  qed
qed

section \<open>Taking the due records\<close>

lemma le_slot_max: "slot \<le> (now_ms, u64_max) \<longleftrightarrow> fst slot \<le> now_ms" for slot :: hold_slot
  by (cases slot) (auto simp: less_eq_prod_def)

lemma sorted_due: "sorted (map fst (bm_keys m))" for m :: "(hold_slot, wire_record) btree_map"
proof -
  have "sorted_wrt (<) (bm_keys m)" using sorted_keys_bm_entries[of m] by (simp add: bm_keys_def sorted_keys_def)
  then have "sorted_wrt (\<lambda>a b. fst a \<le> fst b) (bm_keys m)"
    by (rule sorted_wrt_mono_rel[rotated]) (auto simp: less_prod_def)
  then show ?thesis by (simp add: sorted_map)
qed

lemma take_due_spec:
  assumes "hold_ok max_skew_ms keep h"
  shows "fst (take_due now_ms h) = map snd (filter (\<lambda>(s, _). fst s \<le> now_ms) (bm_entries (sh_entries h)))"
    "sh_entries (snd (take_due now_ms h)) = bm_retain (\<lambda>s _. \<not> fst s \<le> now_ms) (sh_entries h)"
    "same_limits h (snd (take_due now_ms h))" "hold_ok max_skew_ms keep (snd (take_due now_ms h))"
proof -
  let ?due = "filter (\<lambda>s. fst s \<le> now_ms) (bm_keys (sh_entries h))"
  have due: "distinct ?due" "\<forall>s\<in>set ?due. bm_contains (sh_entries h) s"
    by (simp_all add: set_bm_keys)
  note sp = remove_slots_spec[OF assms due]
  have td: "take_due now_ms h = remove_slots ?due h" unfolding take_due_def le_slot_max ..
  have "map snd (filter (\<lambda>(s, _). fst s \<le> now_ms) (bm_entries (sh_entries h)))
    = map (\<lambda>s. the (bm_get (sh_entries h) s)) ?due"
    by (subst bm_entries_eq_keys) (simp add: filter_map o_def case_prod_unfold)
  then show "fst (take_due now_ms h) = map snd (filter (\<lambda>(s, _). fst s \<le> now_ms) (bm_entries (sh_entries h)))"
    using sp td by simp
  have "bm_retain (\<lambda>s _. s \<notin> set ?due) (sh_entries h) = bm_retain (\<lambda>s _. \<not> fst s \<le> now_ms) (sh_entries h)"
    by (rule bm_ext) (auto simp: bm_get_retain set_bm_keys bm_contains_def split: option.splits)
  then show "sh_entries (snd (take_due now_ms h)) = bm_retain (\<lambda>s _. \<not> fst s \<le> now_ms) (sh_entries h)"
    using sp td by simp
  show "same_limits h (snd (take_due now_ms h))" "hold_ok max_skew_ms keep (snd (take_due now_ms h))"
    using sp td by simp_all
qed

lemma hold_close_ok: "hold_ok max_skew_ms keep h \<Longrightarrow> hold_ok max_skew_ms keep (snd (hold_close h))"
  by (simp add: hold_ok_def hold_close_def index_ok_def held_for_key_def hold_len_sum)


section \<open>Runs of the hold\<close>

datatype hold_op = OpHold wire_record | OpTakeDue u64 | OpClose

fun hold_op_step :: "u64 \<Rightarrow> bool \<Rightarrow> hold_op \<Rightarrow> skew_hold \<Rightarrow> skew_hold" where
  "hold_op_step max_skew_ms keep (OpHold rec) h = snd (hold rec max_skew_ms keep h)"
| "hold_op_step max_skew_ms keep (OpTakeDue now_ms) h = snd (take_due now_ms h)"
| "hold_op_step max_skew_ms keep OpClose h = snd (hold_close h)"

definition hold_run :: "u64 \<Rightarrow> bool \<Rightarrow> skew_hold \<Rightarrow> hold_op list \<Rightarrow> skew_hold" where
  "hold_run max_skew_ms keep h ops = foldl (\<lambda>h op. hold_op_step max_skew_ms keep op h) h ops"

lemma hold_limits:
  assumes "hold_ok max_skew_ms keep h"
  shows "sh_seq (snd (hold rec max_skew_ms keep h)) \<in> {sh_seq h, sh_seq h + 1}"
    "sh_max_records (snd (hold rec max_skew_ms keep h)) = sh_max_records h"
    "sh_max_bytes (snd (hold rec max_skew_ms keep h)) = sh_max_bytes h"
    "sh_closed (snd (hold rec max_skew_ms keep h)) = sh_closed h"
proof -
  have "same_limits h (snd (remove_slots (given_up keep rec h) h))"
    using remove_slots_spec[OF assms given_up_held[OF assms, of keep rec]] by blast
  then show "sh_seq (snd (hold rec max_skew_ms keep h)) \<in> {sh_seq h, sh_seq h + 1}"
    "sh_max_records (snd (hold rec max_skew_ms keep h)) = sh_max_records h"
    "sh_max_bytes (snd (hold rec max_skew_ms keep h)) = sh_max_bytes h"
    "sh_closed (snd (hold rec max_skew_ms keep h)) = sh_closed h"
    using hold_refused[of rec max_skew_ms keep h] hold_accepted(1)[of rec max_skew_ms keep h]
    by (cases "fst (hold rec max_skew_ms keep h) = Held"; simp add: hold_insert_fields same_limits_def)+
qed

lemma hold_op_step_ok:
  assumes "hold_ok max_skew_ms keep h" "unat (sh_seq h) < 2 ^ 64 - 1"
  shows "hold_ok max_skew_ms keep (hold_op_step max_skew_ms keep op h)"
    "unat (sh_seq (hold_op_step max_skew_ms keep op h)) \<le> Suc (unat (sh_seq h))"
    "sh_max_records (hold_op_step max_skew_ms keep op h) = sh_max_records h"
    "sh_max_bytes (hold_op_step max_skew_ms keep op h) = sh_max_bytes h"
proof -
  have seq: "sh_seq h \<noteq> - 1" using assms(2) unat_minus_one_word[where 'a = 64] by auto
  show "hold_ok max_skew_ms keep (hold_op_step max_skew_ms keep op h)"
    using hold_step_ok[OF assms(1) seq] take_due_spec(4)[OF assms(1)] hold_close_ok[OF assms(1)] by (cases op) auto
  show "unat (sh_seq (hold_op_step max_skew_ms keep op h)) \<le> Suc (unat (sh_seq h))"
  proof (cases op)
    case (OpHold rec)
    then show ?thesis using hold_limits(1)[OF assms(1), of rec] unat_inc[OF seq] by auto
  qed (use take_due_spec(3)[OF assms(1)] in \<open>simp_all add: same_limits_def hold_close_def\<close>)
  show "sh_max_records (hold_op_step max_skew_ms keep op h) = sh_max_records h"
    "sh_max_bytes (hold_op_step max_skew_ms keep op h) = sh_max_bytes h"
    using hold_limits(2,3)[OF assms(1)] take_due_spec(3)[OF assms(1)]
    by (cases op; simp add: same_limits_def hold_close_def)+
qed

lemma hold_run_ok:
  assumes "hold_ok max_skew_ms keep h" "unat (sh_seq h) + length ops < 2 ^ 64"
  shows "hold_ok max_skew_ms keep (hold_run max_skew_ms keep h ops) \<and>
    sh_max_records (hold_run max_skew_ms keep h ops) = sh_max_records h \<and>
    sh_max_bytes (hold_run max_skew_ms keep h ops) = sh_max_bytes h"
  using assms
proof (induction ops arbitrary: h)
  case Nil
  then show ?case by (simp add: hold_run_def)
next
  case (Cons op ops)
  have lt: "unat (sh_seq h) < 2 ^ 64 - 1" using Cons.prems(2) by simp
  note st = hold_op_step_ok[OF Cons.prems(1) lt, of op]
  have "unat (sh_seq (hold_op_step max_skew_ms keep op h)) + length ops < 2 ^ 64"
    using st(2) Cons.prems(2) by simp
  from Cons.IH[OF st(1) this] st(3,4) show ?case by (simp add: hold_run_def)
qed

section \<open>Properties\<close>

text \<open>
  C35: the hold stays within its caps and its two indexes agree. After fewer than \<open>2^64\<close> holds,
  releases and closes, in any order, at most \<open>max_records\<close> records of at most \<open>max_bytes\<close> bytes
  are held, the byte count is the sum of the held records' sizes, the index by key lists
  exactly the held records of that key with no version twice, and unless the resolver merges
  at most one record per key is held.
\<close>

theorem skew_hold_bounded:
  assumes "length ops < 2 ^ 64"
  shows "let h = hold_run max_skew_ms keep (skew_hold_new max_records max_bytes) ops in
    hold_len h \<le> max_records \<and> sh_bytes h \<le> max_bytes \<and> sh_bytes h = bm_sum held_size (sh_entries h) \<and>
    (\<forall>k s v. (s, v) \<in> set (held_for_key k h) \<longleftrightarrow>
       (\<exists>r. bm_get (sh_entries h) s = Some r \<and> wr_key r = k \<and> wr_ver r = v)) \<and>
    (\<forall>k. distinct (map snd (held_for_key k h)) \<and> (\<not> keep \<longrightarrow> length (held_for_key k h) \<le> 1))"
proof -
  let ?h = "hold_run max_skew_ms keep (skew_hold_new max_records max_bytes) ops"
  have "hold_ok max_skew_ms keep ?h" "sh_max_records ?h = max_records" "sh_max_bytes ?h = max_bytes"
    using hold_run_ok[OF hold_new_ok[of max_skew_ms keep max_records max_bytes], of ops] assms
    by (simp_all add: skew_hold_new_def)
  then show ?thesis by (simp add: Let_def hold_ok_def index_ok_def)
qed

definition demo_forward :: "u64 \<Rightarrow> wire_record" where
  "demo_forward w = \<lparr>wr_key = [7], wr_value = Some [1, 2], wr_ver = Hlc w 0 (NodeId 3), wr_expires = None\<rparr>"

theorem skew_hold_bounded_witness:
  "let h = hold_run 100 False (skew_hold_new 8 1000) [OpHold (demo_forward 900), OpHold (demo_forward 950), OpTakeDue 800] in
    hold_len h \<le> 8 \<and> length (held_for_key [7] h) \<le> 1"
  using skew_hold_bounded[of "[OpHold (demo_forward 900), OpHold (demo_forward 950), OpTakeDue 800]" 100 False 8 1000]
  by (simp add: Let_def)

text \<open>
  C33: a release takes exactly the records the clock has caught up with. \<open>take_due\<close> returns the
  held records whose stamp no longer exceeds the bound, earliest due first and in arrival order
  within a due time, and keeps exactly the others.
\<close>

theorem take_due_exact:
  assumes "hold_ok max_skew_ms keep h"
  shows "fst (take_due now_ms h) =
      map snd (filter (\<lambda>(_, r). \<not> exceeds_skew now_ms (wall_ms (wr_ver r)) max_skew_ms) (bm_entries (sh_entries h))) \<and>
    bm_entries (sh_entries (snd (take_due now_ms h))) =
      filter (\<lambda>(_, r). exceeds_skew now_ms (wall_ms (wr_ver r)) max_skew_ms) (bm_entries (sh_entries h)) \<and>
    sorted (map (\<lambda>r. skew_due_ms (wall_ms (wr_ver r)) max_skew_ms) (fst (take_due now_ms h))) \<and>
    hold_ok max_skew_ms keep (snd (take_due now_ms h))"
proof -
  have due: "fst s = skew_due_ms (wall_ms (wr_ver r)) max_skew_ms" if "(s, r) \<in> set (bm_entries (sh_entries h))" for s r
    using assms that unfolding in_bm_entries_iff hold_ok_def by blast
  then have dec: "fst s \<le> now_ms \<longleftrightarrow> \<not> exceeds_skew now_ms (wall_ms (wr_ver r)) max_skew_ms"
    if "(s, r) \<in> set (bm_entries (sh_entries h))" for s r
    using that skew_due_iff by metis
  have "filter (\<lambda>(s, _). fst s \<le> now_ms) (bm_entries (sh_entries h))
    = filter (\<lambda>(_, r). \<not> exceeds_skew now_ms (wall_ms (wr_ver r)) max_skew_ms) (bm_entries (sh_entries h))"
    "filter (\<lambda>(s, _). \<not> fst s \<le> now_ms) (bm_entries (sh_entries h))
    = filter (\<lambda>(_, r). exceeds_skew now_ms (wall_ms (wr_ver r)) max_skew_ms) (bm_entries (sh_entries h))"
    using dec by (auto intro!: filter_cong)
  moreover have "map (\<lambda>r. skew_due_ms (wall_ms (wr_ver r)) max_skew_ms) (fst (take_due now_ms h))
    = map fst (filter (\<lambda>s. fst s \<le> now_ms) (bm_keys (sh_entries h)))"
    unfolding take_due_spec(1)[OF assms] bm_keys_def
    using due by (auto simp: filter_map o_def case_prod_unfold)
  moreover have "sorted (map fst (filter (\<lambda>s. fst s \<le> now_ms) (bm_keys (sh_entries h))))"
    using sorted_due[of "sh_entries h"] by (rule sorted_filter)
  ultimately show ?thesis
    using take_due_spec[OF assms, of now_ms] by (simp add: bm_retain.rep_eq)
qed


lemma take_due_exact_demo_ok: "hold_ok 100 True (hold_run 100 True (skew_hold_new 8 1000) [OpHold (demo_forward 900)])"
  using hold_run_ok[OF hold_new_ok[of 100 True 8 1000], of "[OpHold (demo_forward 900)]"] by (simp add: skew_hold_new_def)

theorem take_due_exact_witness:
  "hold_ok 100 True (snd (take_due 800 (hold_run 100 True (skew_hold_new 8 1000) [OpHold (demo_forward 900)])))"
  using take_due_exact[OF take_due_exact_demo_ok, of 800] by blast

text \<open>The versions held for a key.\<close>

definition held_versions :: "bytes \<Rightarrow> skew_hold \<Rightarrow> hlc set" where
  "held_versions k h = snd ` set (held_for_key k h)"

lemma held_versions_after:
  assumes "hold_ok max_skew_ms False h" "\<not> sh_closed h"
    and "hold_len h < sh_max_records h" "sh_bytes h + held_size rec \<le> sh_max_bytes h"
  shows "held_versions k (snd (hold rec max_skew_ms False h)) =
    (if k \<noteq> wr_key rec \<or> (\<exists>v\<in>held_versions k h. wr_ver rec \<le> v) then held_versions k h else {wr_ver rec})"
    "hold_len (snd (hold rec max_skew_ms False h)) \<le> Suc (hold_len h)"
    "sh_bytes (snd (hold rec max_skew_ms False h)) \<le> sh_bytes h + held_size rec"
proof -
  let ?h = "snd (remove_slots (given_up False rec h) h)"
  note sp = remove_slots_spec[OF assms(1) given_up_held[OF assms(1), of False rec]]
  have fit: "fits (given_up False rec h) (held_size rec) h"
    unfolding fits_iff[OF assms(1)] using sp assms(3,4) by linarith
  have none: "held_for_key (wr_key rec) ?h = []" using sp filter_given_up[of False rec h] by simp
  have other: "held_for_key k ?h = held_for_key k h" if "k \<noteq> wr_key rec"
  proof -
    have idx: "index_ok h" using assms(1) by (simp add: hold_ok_def)
    have "t \<notin> set (given_up False rec h)" if "(t, v) \<in> set (held_for_key k h)" for t v
      using idx that \<open>k \<noteq> wr_key rec\<close> unfolding index_ok_def given_up_def by force
    then show ?thesis using sp by (auto simp: filter_id_conv)
  qed
  have out: "snd (hold rec max_skew_ms False h) =
    (if \<exists>v\<in>held_versions (wr_key rec) h. wr_ver rec \<le> v then h else hold_insert rec max_skew_ms ?h)"
    unfolding hold_unfold held_versions_def using assms(2) fit by (auto simp: le_less)
  show "held_versions k (snd (hold rec max_skew_ms False h)) =
    (if k \<noteq> wr_key rec \<or> (\<exists>v\<in>held_versions k h. wr_ver rec \<le> v) then held_versions k h else {wr_ver rec})"
    unfolding out using none other by (auto simp: held_versions_def held_for_key_insert)
  have "hold_len (hold_insert rec max_skew_ms ?h) \<le> Suc (hold_len ?h)"
    unfolding hold_len_sum hold_insert_fields
    using bm_sum_insert_new[OF fresh_slot[of max_skew_ms False ?h], of "\<lambda>_. 1"] sp by simp
  then show "hold_len (snd (hold rec max_skew_ms False h)) \<le> Suc (hold_len h)"
    "sh_bytes (snd (hold rec max_skew_ms False h)) \<le> sh_bytes h + held_size rec"
    unfolding out using sp by (simp_all add: hold_insert_fields)
qed

lemma held_versions_run:
  assumes "length recs < 2 ^ 64" "length recs \<le> max_records" "sum_list (map held_size recs) \<le> max_bytes"
  shows "let h = hold_run max_skew_ms False (skew_hold_new max_records max_bytes) (map OpHold recs) in
    \<not> sh_closed h \<and> hold_len h \<le> length recs \<and> sh_bytes h \<le> sum_list (map held_size recs) \<and>
    (\<forall>k. held_versions k h = (let vs = wr_ver ` {r \<in> set recs. wr_key r = k} in if vs = {} then {} else {Max vs}))"
  using assms
proof (induction recs rule: rev_induct)
  case Nil
  then show ?case by (simp add: hold_run_def skew_hold_new_def held_versions_def held_for_key_def hold_len_sum)
next
  case (snoc rec recs)
  let ?h = "hold_run max_skew_ms False (skew_hold_new max_records max_bytes) (map OpHold recs)"
  have ok: "hold_ok max_skew_ms False ?h" "sh_max_records ?h = max_records" "sh_max_bytes ?h = max_bytes"
    using hold_run_ok[OF hold_new_ok[of max_skew_ms False max_records max_bytes], of "map OpHold recs"] snoc.prems(1)
    by (simp_all add: skew_hold_new_def)
  have IH: "\<not> sh_closed ?h" "hold_len ?h \<le> length recs" "sh_bytes ?h \<le> sum_list (map held_size recs)"
    and vs: "held_versions k ?h = (let vs = wr_ver ` {r \<in> set recs. wr_key r = k} in if vs = {} then {} else {Max vs})" for k
    using snoc.IH snoc.prems unfolding Let_def by simp_all
  have run: "hold_run max_skew_ms False (skew_hold_new max_records max_bytes) (map OpHold (recs @ [rec]))
    = snd (hold rec max_skew_ms False ?h)" by (simp add: hold_run_def)
  have room: "hold_len ?h < sh_max_records ?h" "sh_bytes ?h + held_size rec \<le> sh_max_bytes ?h"
    using IH ok snoc.prems by simp_all
  note after = held_versions_after[OF ok(1) IH(1) room]
  have "held_versions k (snd (hold rec max_skew_ms False ?h))
    = (let vs = wr_ver ` {r \<in> set (recs @ [rec]). wr_key r = k} in if vs = {} then {} else {Max vs})" for k
  proof -
    define old where "old = {r \<in> set recs. wr_key r = k}"
    have grow: "{r \<in> set (recs @ [rec]). wr_key r = k} = (if wr_key rec = k then insert rec old else old)"
      by (auto simp: old_def)
    have "finite old" by (simp add: old_def)
    then show ?thesis
      unfolding after(1) vs grow Let_def old_def[symmetric] by (cases "old = {}") (auto simp: max_def)
  qed
  then show ?case
    unfolding run Let_def using after(2,3) IH(2,3) hold_limits(4)[OF ok(1), of rec] IH(1) by simp
qed

text \<open>
  A hold that keeps one version per key keeps the newest. After any sequence of forwarded
  writes that fits the caps, the version held for a key is the highest offered for it,
  whatever order they arrived in.
\<close>

theorem newest_forward_held:
  assumes "length recs < 2 ^ 64" "length recs \<le> max_records" "sum_list (map held_size recs) \<le> max_bytes"
    and "rec \<in> set recs"
  shows "map snd (held_for_key (wr_key rec) (hold_run max_skew_ms False (skew_hold_new max_records max_bytes) (map OpHold recs)))
    = [Max (wr_ver ` {r \<in> set recs. wr_key r = wr_key rec})]"
proof -
  let ?h = "hold_run max_skew_ms False (skew_hold_new max_records max_bytes) (map OpHold recs)"
  have "hold_ok max_skew_ms False ?h"
    using hold_run_ok[OF hold_new_ok[of max_skew_ms False max_records max_bytes], of "map OpHold recs"] assms(1)
    by (simp add: skew_hold_new_def)
  then have "length (held_for_key (wr_key rec) ?h) \<le> 1" by (simp add: hold_ok_def)
  moreover have "held_versions (wr_key rec) ?h = {Max (wr_ver ` {r \<in> set recs. wr_key r = wr_key rec})}"
    using held_versions_run[OF assms(1-3), of max_skew_ms] assms(4) by (auto simp: Let_def)
  ultimately show ?thesis
    unfolding held_versions_def by (cases "held_for_key (wr_key rec) ?h") auto
qed

theorem newest_forward_held_witness:
  "map snd (held_for_key [7] (hold_run 100 False (skew_hold_new 8 1000) (map OpHold [demo_forward 950, demo_forward 900])))
    = [Hlc 950 0 (NodeId 3)]"
proof -
  have "{r \<in> set [demo_forward 950, demo_forward 900]. wr_key r = [7]} = {demo_forward 950, demo_forward 900}"
    by (auto simp: demo_forward_def)
  then have "Max (wr_ver ` {r \<in> set [demo_forward 950, demo_forward 900]. wr_key r = [7]}) = Hlc 950 0 (NodeId 3)"
    by (simp add: demo_forward_def max_def less_eq_hlc_def)
  moreover have "wr_key (demo_forward 950) = [7]" by (simp add: demo_forward_def)
  ultimately show ?thesis
    using newest_forward_held[of "[demo_forward 950, demo_forward 900]" 8 1000 "demo_forward 950" 100]
    by (simp add: held_size_def held_record_overhead_def) (simp add: demo_forward_def)
qed

end
