(* ===== verification/Ranking.thy ===== *)
theory Ranking
  imports Part "HOL-Library.Multiset"
begin

text \<open>
  The bounded selection behind ownership (\<^verbatim>\<open>ownership.rs\<close>): \<open>select_top\<close>, an
  insertion sort that never keeps more than \<open>k\<close> items, and \<open>carried_top\<close>, which refreshes a
  selection when the candidates change. The locale \<open>ranking\<close> is what they rely on of the order
  they are given; in it the selection is the first \<open>k\<close> of the sorted input, and a carried
  selection is the selection among all the candidates.
\<close>

section \<open>Selection\<close>

text \<open>
  The inner loop: \<open>sift_front le n tops\<close> moves the item at \<open>n\<close> toward the front while the item
  before it is ordered after it.
\<close>

fun sift_front :: "('a \<Rightarrow> 'a \<Rightarrow> bool) \<Rightarrow> nat \<Rightarrow> 'a list \<Rightarrow> 'a list" where
  "sift_front le 0 tops = tops"
| "sift_front le (Suc n) tops =
     (if le (tops ! n) (tops ! Suc n) then tops else sift_front le n (tops[n := tops ! Suc n, Suc n := tops ! n]))"

definition select_top :: "('a \<Rightarrow> 'a \<Rightarrow> bool) \<Rightarrow> nat \<Rightarrow> 'a list \<Rightarrow> 'a list" where
  "select_top le k items = fold (\<lambda>item tops. take k (sift_front le (length tops) (tops @ [item]))) items []"

definition carried_top :: "('a \<Rightarrow> 'a \<Rightarrow> bool) \<Rightarrow> nat \<Rightarrow> ('a \<Rightarrow> bool) \<Rightarrow> 'a list \<Rightarrow> 'a list \<Rightarrow> 'a list option" where
  "carried_top le k stays kept joined = (if list_all stays kept then Some (select_top le k (kept @ joined)) else None)"

section \<open>Total orders\<close>

locale ranking =
  fixes le :: "'a \<Rightarrow> 'a \<Rightarrow> bool"
  assumes total: "le x y \<or> le y x"
    and trans: "le x y \<Longrightarrow> le y z \<Longrightarrow> le x z"
    and antisym: "le x y \<Longrightarrow> le y x \<Longrightarrow> x = y"
begin

definition place :: "'a \<Rightarrow> 'a list \<Rightarrow> 'a list" where
  "place x xs = takeWhile (\<lambda>y. le y x) xs @ x # dropWhile (\<lambda>y. le y x) xs"

definition arrange :: "'a list \<Rightarrow> 'a list" where
  "arrange xs = fold place xs []"

lemma place_simps: "place x [] = [x]" "place x (y # ys) = (if le y x then y # place x ys else x # y # ys)"
  by (simp_all add: place_def)

lemma mset_place: "mset (place x xs) = add_mset x (mset xs)"
  by (induction xs) (simp_all add: place_simps)

lemma set_place: "set (place x xs) = insert x (set xs)"
  by (metis mset_place set_mset_mset set_mset_add_mset_insert)

lemma sorted_place: "sorted_wrt le xs \<Longrightarrow> sorted_wrt le (place x xs)"
proof (induction xs)
  case (Cons y ys)
  then show ?case using total[of x y] trans[of x y] by (auto simp: place_simps set_place)
qed (simp add: place_simps)

lemma sorted_fold_place: "sorted_wrt le xs \<Longrightarrow> sorted_wrt le (fold place ys xs)"
  by (induction ys arbitrary: xs) (simp_all add: sorted_place)

lemma mset_fold_place: "mset (fold place ys xs) = mset ys + mset xs"
  by (induction ys arbitrary: xs) (simp_all add: mset_place)

lemma arrange_sorted: "sorted_wrt le (arrange xs)" and mset_arrange: "mset (arrange xs) = mset xs"
  by (simp_all add: arrange_def sorted_fold_place mset_fold_place)

lemma length_arrange: "length (arrange xs) = length xs" and set_arrange: "set (arrange xs) = set xs"
  by (metis mset_arrange size_mset, metis mset_arrange set_mset_mset)

lemma sorted_unique: "sorted_wrt le xs \<Longrightarrow> sorted_wrt le ys \<Longrightarrow> mset xs = mset ys \<Longrightarrow> xs = ys"
proof (induction xs arbitrary: ys)
  case (Cons x xs)
  then obtain y zs where ys: "ys = y # zs" by (cases ys) auto
  have "set (x # xs) = set (y # zs)" using Cons.prems(3) ys by (metis set_mset_mset)
  then have "x = y" using Cons.prems(1,2) antisym[of x y] unfolding ys by (metis list.set_intros(1) set_ConsD sorted_wrt.simps(2))
  then show ?case using Cons ys by simp
qed simp

lemma arrange_cong: "mset xs = mset ys \<Longrightarrow> arrange xs = arrange ys"
  by (rule sorted_unique) (simp_all add: arrange_sorted mset_arrange)

section \<open>The selection is a prefix of the sorted input\<close>

lemma sift_place: "sorted_wrt le xs \<Longrightarrow> sift_front le (length xs) (xs @ x # ys) = place x xs @ ys"
proof (induction xs arbitrary: ys rule: rev_induct)
  case (snoc z zs)
  show ?case
  proof (cases "le z x")
    case True
    have "le y x" if "y \<in> set zs" for y using snoc.prems that trans[OF _ True] by (simp add: sorted_wrt_append)
    then have "takeWhile (\<lambda>y. le y x) (zs @ [z]) = zs @ [z]" using True by (simp add: takeWhile_eq_all_conv)
    moreover from this have "dropWhile (\<lambda>y. le y x) (zs @ [z]) = []"
      by (metis append_eq_conv_conj append_self_conv takeWhile_dropWhile_id)
    ultimately show ?thesis using True by (simp add: place_def nth_append)
  next
    case False
    have "sift_front le (length (zs @ [z])) ((zs @ [z]) @ x # ys) = sift_front le (length zs) (zs @ x # z # ys)"
      using False by (simp add: nth_append list_update_append)
    also have "\<dots> = place x zs @ z # ys" using snoc by (simp add: sorted_wrt_append)
    also have "\<dots> = place x (zs @ [z]) @ ys" using False by (auto simp: place_def takeWhile_tail dropWhile_append takeWhile_append)
    finally show ?thesis .
  qed
qed (simp add: place_simps)

lemma take_place: "take k (place x (take k xs)) = take k (place x xs)"
proof (induction xs arbitrary: k)
  case (Cons y ys)
  then show ?case by (cases k) (simp_all add: place_simps take_Cons')
qed simp

lemma select_step: "sorted_wrt le xs \<Longrightarrow>
  fold (\<lambda>item tops. take k (sift_front le (length tops) (tops @ [item]))) items (take k xs) = take k (fold place items xs)"
proof (induction items arbitrary: xs)
  case (Cons x items)
  have "sift_front le (length (take k xs)) (take k xs @ [x]) = place x (take k xs)"
    using sift_place[of "take k xs" x "[]"] Cons.prems by (simp add: sorted_wrt_take)
  then show ?case using Cons.IH[OF sorted_place[OF Cons.prems]] by (simp add: take_place)
qed simp

lemma select_top_arrange: "select_top le k items = take k (arrange items)"
  using select_step[of "[]" k items] by (simp add: select_top_def arrange_def)

section \<open>Carrying a selection over\<close>

lemma place_outranked:
  assumes sorted: "sorted_wrt le xs" and kept: "K \<subseteq># mset xs" "k \<le> size K" and after: "\<forall>y \<in># K. le y x"
  shows "take k (place x xs) = take k xs"
proof -
  let ?P = "\<lambda>y. le y x"
  have "takeWhile ?P xs = filter ?P xs"
    using sorted
  proof (induction xs)
    case (Cons y ys)
    then show ?case using trans[of y _ x] by (force simp: filter_empty_conv eq_commute[of "[]"])
  qed simp
  moreover have "size K \<le> size (filter_mset ?P (mset xs))"
  proof -
    have "filter_mset ?P K = K" using after by (auto simp: filter_mset_eq_conv)
    then show ?thesis using size_mset_mono[OF multiset_filter_mono[OF kept(1), of ?P]] by simp
  qed
  ultimately have "k \<le> length (takeWhile ?P xs)" using kept(2) by (metis mset_filter order_trans size_mset)
  then show ?thesis
    using takeWhile_dropWhile_id[of ?P xs] unfolding place_def
    by (metis (no_types, lifting) append_Nil2 diff_is_0_eq take0 take_append)
qed

lemma fold_outranked:
  assumes "sorted_wrt le xs" and "K \<subseteq># mset xs" and "k \<le> size K" and "\<forall>x \<in> set rs. \<forall>y \<in># K. le y x"
  shows "take k (fold place rs xs) = take k xs"
  using assms
proof (induction rs arbitrary: xs)
  case (Cons r rs)
  have "K \<subseteq># mset (place r xs)" using Cons.prems(2) by (simp add: mset_place subset_mset.le_add_diff mset_subset_eq_add_right subset_mset.trans)
  then have "take k (fold place rs (place r xs)) = take k (place r xs)"
    using Cons sorted_place by simp
  then show ?case using place_outranked[OF Cons.prems(1-3), of r] Cons.prems(4) by simp
qed simp

lemma carried_arrange:
  assumes kept: "kept = take k (arrange old)" "length kept = k"
    and new: "mset new = mset (kept @ joined) + mset rs" and rs: "set rs \<subseteq> set (drop k (arrange old))"
  shows "take k (arrange (kept @ joined)) = take k (arrange new)"
proof -
  have "sorted_wrt le (take k (arrange old) @ drop k (arrange old))" using arrange_sorted[of old] by simp
  then have after: "\<forall>x \<in> set rs. \<forall>y \<in># mset kept. le y x" using rs kept(1) unfolding sorted_wrt_append by auto
  have "mset kept \<subseteq># mset (arrange (kept @ joined))" by (simp add: mset_arrange)
  from fold_outranked[OF arrange_sorted this _ after, of k] kept(2)
  have "take k (fold place rs (arrange (kept @ joined))) = take k (arrange (kept @ joined))" by simp
  moreover have "fold place rs (arrange (kept @ joined)) = arrange ((kept @ joined) @ rs)" by (simp add: arrange_def)
  moreover have "arrange ((kept @ joined) @ rs) = arrange new" by (rule arrange_cong) (use new in simp)
  ultimately show ?thesis by simp
qed

end

end
