(* ===== verification/Ownership.thy ===== *)
theory Ownership
  imports Ranking Wire
begin

text \<open>
  Ownership of a distributed cache's parts (\<^verbatim>\<open>ownership.rs\<close>): the rendezvous scores, the
  nodes eligible to own, the granularity a cluster can use, and the \<open>OwnershipView\<close> with its two
  constructions, from scratch and from the previous view. A view is a value, so the tracker's channel
  holds one. \<open>NonZeroU8\<close> is a \<open>u8\<close> with \<open>k \<noteq> 0\<close> as a hypothesis. The socket addresses of
  a peer are carried as text; nothing here reads them. The lemmas show that building a view from the
  previous one gives the view built from scratch, that nodes which see the same eligible set agree on
  the owners of every part, and that a join only moves parts to the newcomer.
\<close>

section \<open>Scores and rank order\<close>

definition rendezvous_score :: "externs \<Rightarrow> node_id \<Rightarrow> u16 \<Rightarrow> u64" where
  "rendezvous_score e node bucket = xxh3 e (to_le_bytes 8 (as_u64 node) @ to_le_bytes 2 bucket)"

text \<open>\<open>rank_order(a, b).is_le()\<close>: the higher score first, ties to the lower node.\<close>

definition rank_le :: "u64 \<times> node_id \<Rightarrow> u64 \<times> node_id \<Rightarrow> bool" where
  "rank_le a b \<longleftrightarrow> fst b < fst a \<or> fst a = fst b \<and> snd a \<le> snd b"

interpretation rank: ranking rank_le
  by unfold_locales (auto simp: rank_le_def prod_eq_iff)

section \<open>Protocols, peers and granularity\<close>

definition protocol_version :: u16 where
  "protocol_version = 9"

definition protocol_distributed :: u16 where
  "protocol_distributed = 3"

definition protocol_part_ownership :: u16 where
  "protocol_part_ownership = 5"

definition peer_supports :: "u16 \<Rightarrow> u16 \<Rightarrow> bool" where
  "peer_supports peer_protocol since \<longleftrightarrow> since \<le> peer_protocol"

record peer =
  pr_node :: node_id
  pr_name :: string
  pr_gossip_addr :: string
  pr_data_addr :: string
  pr_incarnation :: u64
  pr_protocol :: u16

type_synonym cache_modes = "node_id \<Rightarrow> (string \<Rightarrow> mode option) option"

datatype granularity = By_Bucket | By_Part

definition for_members :: "u16 list \<Rightarrow> granularity" where
  "for_members protocols = (if list_all (\<lambda>p. peer_supports p protocol_part_ownership) protocols then By_Part else By_Bucket)"

definition for_protocols :: "u16 list \<Rightarrow> granularity" where
  "for_protocols peer_protocols =
     (if peer_supports protocol_version protocol_part_ownership then for_members peer_protocols else By_Bucket)"

definition ownership_granularity :: "node_id \<Rightarrow> peer list \<Rightarrow> node_id list \<Rightarrow> granularity" where
  "ownership_granularity self_node peers eligible =
     for_protocols (map (\<lambda>node. map_or 0 pr_protocol (List.find (\<lambda>p. pr_node p = node) peers))
                     (filter (\<lambda>node. node \<noteq> self_node) eligible))"

definition eligible_peers :: "peer list \<Rightarrow> cache_modes \<Rightarrow> string \<Rightarrow> u8 \<Rightarrow> node_id list" where
  "eligible_peers peers modes cache k =
     map pr_node (filter (\<lambda>p. is_some_and (\<lambda>m. case m of Distributed owners \<Rightarrow> owners = k | _ \<Rightarrow> False)
                                (Option.bind (modes (pr_node p)) (\<lambda>caches. caches cache)))
                    (filter (\<lambda>p. protocol_distributed \<le> pr_protocol p) peers))"

definition eligible_owners :: "node_id \<Rightarrow> peer list \<Rightarrow> cache_modes \<Rightarrow> string \<Rightarrow> u8 \<Rightarrow> node_id list" where
  "eligible_owners self_node peers modes cache k =
     (let eligible = eligible_peers peers modes cache k
      in if self_node \<in> set eligible then eligible else eligible @ [self_node])"

section \<open>View hashes\<close>

definition view_hash :: "externs \<Rightarrow> node_id list \<Rightarrow> u64" where
  "view_hash e eligible = xxh3 e (concat (map (\<lambda>n. to_le_bytes 8 (as_u64 n)) (remdups_adj (sort eligible))))"

definition part_view_marker :: bytes where
  "part_view_marker = [0x70, 0x61, 0x72, 0x74, 0x2D, 0x6F, 0x77, 0x6E, 0x65, 0x72, 0x73, 0x68, 0x69, 0x70]"

definition view_hash_at :: "externs \<Rightarrow> node_id list \<Rightarrow> granularity \<Rightarrow> u64" where
  "view_hash_at e eligible g =
     (case g of
        By_Bucket \<Rightarrow> view_hash e eligible
      | By_Part \<Rightarrow>
          xxh3 e (concat (map (\<lambda>n. to_le_bytes 8 (as_u64 n)) (remdups_adj (sort eligible))) @ part_view_marker))"

section \<open>Units and wire ids\<close>

definition unit_count :: "granularity \<Rightarrow> nat" where
  "unit_count g = (case g of By_Bucket \<Rightarrow> bucket_count | By_Part \<Rightarrow> part_space)"

definition units :: "granularity \<Rightarrow> u16 list" where
  "units g = take (unit_count g) (map of_nat [0..<2 ^ 16])"

definition wire_ids :: "granularity \<Rightarrow> part_id list \<Rightarrow> u16 list" where
  "wire_ids g parts = remdups_adj (sort (map (\<lambda>p. case g of By_Bucket \<Rightarrow> part_bucket p | By_Part \<Rightarrow> part_raw p) parts))"

definition parts_of_wire_id :: "granularity \<Rightarrow> u16 \<Rightarrow> part_id list" where
  "parts_of_wire_id g i = (case g of By_Bucket \<Rightarrow> part_of_bucket i | By_Part \<Rightarrow> [Part_Id i])"

section \<open>Views\<close>

record ownership_view =
  ov_view_hash :: u64
  ov_self_node :: node_id
  ov_eligible :: "node_id list"
  ov_k :: u8
  ov_granularity :: granularity
  ov_owners :: "node_id list"
  ov_stride :: nat
  ov_owned :: part_set
  ov_owns_in_bucket :: "bool list"
  ov_co_owners :: "node_id list"

definition with_self :: "node_id \<Rightarrow> node_id list \<Rightarrow> node_id list" where
  "with_self self_node eligible = remdups_adj (sort (eligible @ [self_node]))"

definition scored :: "externs \<Rightarrow> u16 \<Rightarrow> node_id \<Rightarrow> u64 \<times> node_id" where
  "scored e u node = (rendezvous_score e node u, node)"

definition top_by_score :: "externs \<Rightarrow> node_id list \<Rightarrow> u16 \<Rightarrow> nat \<Rightarrow> (u64 \<times> node_id) list" where
  "top_by_score e eligible raw k = select_top rank_le k (map (scored e raw) eligible)"

text \<open>\<open>chunks_exact\<close> of a slice; it panics for a chunk of no items, which a stride never is.\<close>

fun chunks_exact :: "nat \<Rightarrow> 'a list \<Rightarrow> 'a list list" where
  "chunks_exact n xs = (if n = 0 \<or> length xs < n then [] else take n xs # chunks_exact n (drop n xs))"

declare chunks_exact.simps [simp del]

definition note_owned :: "granularity \<Rightarrow> node_id \<Rightarrow> u16 \<times> node_id list \<Rightarrow> part_set \<times> bool list \<times> node_id list
    \<Rightarrow> part_set \<times> bool list \<times> node_id list" where
  "note_owned g self_node ranked_unit acc =
     (let (u, ranked) = ranked_unit; (owned, in_bucket, co) = acc
      in if self_node \<in> set ranked
         then (part_set_extend (parts_of_wire_id g u) owned,
               fold (\<lambda>p bs. bs[unat (part_bucket p) := True]) (parts_of_wire_id g u) in_bucket,
               co @ filter (\<lambda>node. node \<noteq> self_node) ranked)
         else acc)"

definition from_owners :: "externs \<Rightarrow> node_id \<Rightarrow> node_id list \<Rightarrow> u8 \<Rightarrow> granularity \<Rightarrow> node_id list \<Rightarrow> ownership_view" where
  "from_owners e self_node eligible k g owners =
     (let stride = min (unat k) (length eligible);
          (owned, in_bucket, co) = fold (note_owned g self_node) (zip (units g) (chunks_exact stride owners))
                                     (part_set_new, replicate bucket_count False, [])
      in \<lparr>ov_view_hash = view_hash_at e eligible g, ov_self_node = self_node, ov_eligible = eligible, ov_k = k,
          ov_granularity = g, ov_owners = owners, ov_stride = stride, ov_owned = owned, ov_owns_in_bucket = in_bucket,
          ov_co_owners = btree_set co\<rparr>)"

definition compute_at :: "externs \<Rightarrow> node_id \<Rightarrow> node_id list \<Rightarrow> u8 \<Rightarrow> granularity \<Rightarrow> ownership_view" where
  "compute_at e self_node eligible k g =
     (let eligible = with_self self_node eligible; stride = min (unat k) (length eligible)
      in from_owners e self_node eligible k g
           (concat (map (\<lambda>u. map snd (top_by_score e eligible u stride)) (units g))))"

definition compute :: "externs \<Rightarrow> node_id \<Rightarrow> node_id list \<Rightarrow> u8 \<Rightarrow> ownership_view" where
  "compute e self_node eligible k = compute_at e self_node eligible k By_Bucket"

text \<open>
  One unit of \<open>successor\<close>. Both binary searches are in lists \<open>with_self\<close> sorted, so they find
  exactly the members.
\<close>

definition carry_unit :: "externs \<Rightarrow> node_id list \<Rightarrow> node_id list \<Rightarrow> nat \<Rightarrow> u16 \<times> node_id list \<Rightarrow> node_id list" where
  "carry_unit e eligible joined stride ranked_unit =
     (let (u, previous) = ranked_unit; stays = (\<lambda>node. node \<in> set eligible)
      in if joined = [] \<and> list_all stays previous then previous
         else let candidates = map (scored e u) (previous @ joined);
                  (kept, newcomers) = (take stride candidates, drop stride candidates)
              in map snd (case carried_top rank_le stride (\<lambda>(_, node). stays node) kept newcomers of
                            Some tops \<Rightarrow> tops
                          | None \<Rightarrow> top_by_score e eligible u stride))"

definition successor :: "externs \<Rightarrow> ownership_view \<Rightarrow> node_id list \<Rightarrow> u8 \<Rightarrow> granularity \<Rightarrow> ownership_view" where
  "successor e v eligible k g =
     (let eligible = with_self (ov_self_node v) eligible; stride = min (unat k) (length eligible)
      in if (k, g, stride) \<noteq> (ov_k v, ov_granularity v, ov_stride v) then compute_at e (ov_self_node v) eligible k g
         else let joined = filter (\<lambda>node. node \<notin> set (ov_eligible v)) eligible
              in from_owners e (ov_self_node v) eligible k g
                   (concat (map (carry_unit e eligible joined stride) (zip (units g) (chunks_exact stride (ov_owners v))))))"

definition owns :: "ownership_view \<Rightarrow> part_id \<Rightarrow> bool" where
  "owns v p = part_set_contains (ov_owned v) p"

definition owns_any_in_bucket :: "ownership_view \<Rightarrow> u16 \<Rightarrow> bool" where
  "owns_any_in_bucket v bucket \<longleftrightarrow> unat bucket < length (ov_owns_in_bucket v) \<and> ov_owns_in_bucket v ! unat bucket"

definition owners_of :: "ownership_view \<Rightarrow> part_id \<Rightarrow> node_id list" where
  "owners_of v p =
     (let u = (case ov_granularity v of By_Bucket \<Rightarrow> unat (part_bucket p) | By_Part \<Rightarrow> part_index p);
          start = u * ov_stride v
      in if start + ov_stride v \<le> length (ov_owners v) then take (ov_stride v) (drop start (ov_owners v)) else [])"

definition widened :: "externs \<Rightarrow> ownership_view \<Rightarrow> node_id list \<Rightarrow> ownership_view option" where
  "widened e v returning =
     (let eligible = remdups_adj (sort (ov_eligible v @ returning))
      in if length eligible \<noteq> length (ov_eligible v) then Some (successor e v eligible (ov_k v) (ov_granularity v)) else None)"

definition co_owners_with :: "externs \<Rightarrow> ownership_view \<Rightarrow> node_id list \<Rightarrow> node_id list" where
  "co_owners_with e v returning = map_or (ov_co_owners v) ov_co_owners (widened e v returning)"

definition owned_parts :: "ownership_view \<Rightarrow> part_id list" where
  "owned_parts v = part_set_iter (ov_owned v)"

definition owned_part_count :: "ownership_view \<Rightarrow> nat" where
  "owned_part_count v = ps_len (ov_owned v)"

definition shared_owned_parts :: "ownership_view \<Rightarrow> node_id \<Rightarrow> part_id list" where
  "shared_owned_parts v peer_node = filter (\<lambda>p. peer_node \<in> set (owners_of v p)) (owned_parts v)"

definition ownership_diff :: "ownership_view \<Rightarrow> ownership_view \<Rightarrow> part_id list \<times> part_id list" where
  "ownership_diff old new = (filter (\<lambda>p. \<not> owns old p) (owned_parts new), filter (\<lambda>p. \<not> owns new p) (owned_parts old))"

definition compute_view :: "externs \<Rightarrow> node_id \<Rightarrow> peer list \<Rightarrow> cache_modes \<Rightarrow> string \<Rightarrow> u8 \<Rightarrow> ownership_view" where
  "compute_view e self_node peers modes cache k =
     (let eligible = eligible_owners self_node peers modes cache k
      in compute_at e self_node eligible k (ownership_granularity self_node peers eligible))"

section \<open>Eligible lists and rankings\<close>

lemma dedup_sort: "remdups_adj (sort xs) = sorted_list_of_set (set xs)"
  by (rule sorted_distinct_set_unique) (simp_all add: distinct_dedup)

lemma with_self_eq: "with_self n el = sorted_list_of_set (insert n (set el))"
  by (simp add: with_self_def dedup_sort)

lemma with_self_facts [simp]:
  "distinct (with_self n el)" "set (with_self n el) = insert n (set el)" "with_self n (with_self n el) = with_self n el"
  "length (with_self n el) = card (insert n (set el))"
  unfolding with_self_eq by (simp_all only: set_sorted_list_of_set distinct_sorted_list_of_set length_sorted_list_of_set finite_insert
      finite_set List.finite_set insert_absorb2 simp_thms insert_iff)

lemma stride_pos: "k \<noteq> 0 \<Longrightarrow> 0 < min (unat k) (length (with_self n el))" for k :: u8
  by (simp add: card_gt_0_iff unat_gt_0)

definition ranked :: "externs \<Rightarrow> node_id list \<Rightarrow> nat \<Rightarrow> u16 \<Rightarrow> node_id list" where
  "ranked e eligible k u = map snd (top_by_score e eligible u k)"

lemma ranked_arrange: "ranked e el k u = map snd (take k (rank.arrange (map (scored e u) el)))"
  by (simp add: ranked_def top_by_score_def rank.select_top_arrange)

lemma snd_scored [simp]: "snd (scored e u n) = n" "map snd (map (scored e u) ns) = ns"
  by (simp_all add: scored_def o_def)

lemma scored_inj: "inj (scored e u)"
  by (auto simp: inj_def scored_def)

lemma map_scored_snd: "set xs \<subseteq> range (scored e u) \<Longrightarrow> map (scored e u) (map snd xs) = xs"
  by (induction xs) auto

lemma length_ranked [simp]: "length (ranked e el k u) = min k (length el)"
  by (simp add: ranked_arrange rank.length_arrange)

lemma scored_ranked: "map (scored e u) (ranked e el k u) = take k (rank.arrange (map (scored e u) el))"
  unfolding ranked_arrange by (rule map_scored_snd) (auto dest!: in_set_takeD simp: rank.set_arrange)

lemma set_ranked: "set (ranked e el k u) \<subseteq> set el"
  by (auto simp: ranked_arrange rank.set_arrange scored_def dest!: in_set_takeD)

lemma distinct_ranked: "distinct el \<Longrightarrow> distinct (ranked e el k u)"
proof -
  assume "distinct el"
  then have "distinct (map (scored e u) el)" by (simp add: distinct_map inj_on_subset[OF scored_inj])
  then have "distinct (rank.arrange (map (scored e u) el))" by (metis mset_eq_imp_distinct_iff rank.mset_arrange)
  then have "distinct (map (scored e u) (ranked e el k u))" by (simp add: scored_ranked)
  then show ?thesis by (simp add: distinct_map)
qed

lemma ranked_cong: "set el = set el' \<Longrightarrow> distinct el \<Longrightarrow> distinct el' \<Longrightarrow> ranked e el k u = ranked e el' k u"
  unfolding ranked_arrange by (rule arg_cong[of _ _ "\<lambda>xs. map snd (take k xs)"], rule rank.arrange_cong)
    (metis mset_map set_eq_iff_mset_eq_distinct)

lemma carried_ranked:
  assumes old: "distinct old" and new: "distinct new" and len: "k \<le> length old" and stay: "set (ranked e old k u) \<subseteq> set new"
  shows "map snd (take k (rank.arrange (map (scored e u) (ranked e old k u @ filter (\<lambda>n. n \<notin> set old) new)))) = ranked e new k u"
proof -
  let ?S = "scored e u" and ?kept = "ranked e old k u" and ?joined = "filter (\<lambda>n. n \<notin> set old) new"
  let ?rest = "filter (\<lambda>n. n \<in> set old \<and> n \<notin> set (ranked e old k u)) new"
  have "set (?kept @ ?joined @ ?rest) = set new" using stay by auto
  moreover have "distinct (?kept @ ?joined @ ?rest)"
    using distinct_ranked[OF old, of e k u] new set_ranked[of e old k u] by auto
  ultimately have "mset new = mset (?kept @ ?joined @ ?rest)" using new by (metis set_eq_iff_mset_eq_distinct)
  from arg_cong[OF this, of "image_mset ?S"]
  have split: "mset (map ?S new) = mset (map ?S ?kept @ map ?S ?joined) + mset (map ?S ?rest)" by simp
  have rest: "set (map ?S ?rest) \<subseteq> set (drop k (rank.arrange (map ?S old)))"
  proof
    fix x assume "x \<in> set (map ?S ?rest)"
    then obtain n where n: "x = ?S n" "n \<in> set old" "n \<notin> set ?kept" by auto
    have "x \<in> set (take k (rank.arrange (map ?S old)) @ drop k (rank.arrange (map ?S old)))"
      using n(1,2) by (simp add: rank.set_arrange)
    moreover have "x \<notin> set (take k (rank.arrange (map ?S old)))"
      using n(1,3) unfolding scored_ranked[symmetric] by (auto dest: injD[OF scored_inj])
    ultimately show "x \<in> set (drop k (rank.arrange (map ?S old)))" unfolding set_append by blast
  qed
  have "length (map ?S ?kept) = k" using len by simp
  from rank.carried_arrange[OF scored_ranked this split rest] show ?thesis by (simp add: ranked_arrange)
qed

lemma carry_unit_exact:
  assumes old: "distinct old" and new: "distinct new" and len: "k \<le> length old"
  shows "carry_unit e new (filter (\<lambda>n. n \<notin> set old) new) k (u, ranked e old k u) = ranked e new k u"
proof -
  let ?joined = "filter (\<lambda>n. n \<notin> set old) new" and ?kept = "ranked e old k u" and ?S = "scored e u"
  have split: "take k (map ?S (?kept @ ?joined)) = map ?S ?kept" "drop k (map ?S (?kept @ ?joined)) = map ?S ?joined"
    using len by simp_all
  have stays: "list_all (\<lambda>(_, n). n \<in> set new) (map ?S ?kept) \<longleftrightarrow> list_all (\<lambda>n. n \<in> set new) ?kept"
    by (simp add: list_all_iff scored_def)
  show ?thesis
  proof (cases "set ?kept \<subseteq> set new")
    case True
    note carried = carried_ranked[OF old new len True]
    have all: "list_all (\<lambda>n. n \<in> set new) ?kept" using True by (auto simp: list_all_iff)
    show ?thesis
    proof (cases "?joined = []")
      case True
      have "rank.arrange (map ?S ?kept) = map ?S ?kept"
        by (rule rank.sorted_unique)
          (simp_all add: rank.arrange_sorted rank.mset_arrange scored_ranked sorted_wrt_take[OF rank.arrange_sorted])
      moreover have "take k (map ?S ?kept) = map ?S ?kept" by simp
      ultimately have "?kept = ranked e new k u" using carried True by (simp del: length_map map_map)
      then show ?thesis using True all by (simp add: carry_unit_def)
    next
      case False
      then show ?thesis
        using carried[unfolded map_append] all
        by (simp add: carry_unit_def split stays carried_top_def rank.select_top_arrange del: map_append map_map)
    qed
  next
    case False
    then have "\<not> list_all (\<lambda>n. n \<in> set new) ?kept" by (auto simp: list_all_iff)
    then show ?thesis by (auto simp: carry_unit_def split stays carried_top_def ranked_def[of e new] simp del: map_append)
  qed
qed

section \<open>The flat list of owners\<close>

lemma chunks_exact_concat: "0 < n \<Longrightarrow> \<forall>xs \<in> set xss. length xs = n \<Longrightarrow> chunks_exact n (concat xss) = xss"
proof (induction xss)
  case (Cons xs xss)
  then show ?case by (subst chunks_exact.simps) simp
qed (simp add: chunks_exact.simps)

lemma slice_concat: "\<forall>xs \<in> set xss. length xs = n \<Longrightarrow> i < length xss \<Longrightarrow> take n (drop (i * n) (concat xss)) = xss ! i"
proof (induction xss arbitrary: i)
  case (Cons xs xss)
  then show ?case by (cases i) simp_all
qed simp

lemma length_concat_const: "\<forall>xs \<in> set xss. length xs = n \<Longrightarrow> length (concat xss) = length xss * n"
  by (induction xss) simp_all

section \<open>Computed views\<close>

definition unit_of :: "granularity \<Rightarrow> part_id \<Rightarrow> u16" where
  "unit_of g p = (case g of By_Bucket \<Rightarrow> part_bucket p | By_Part \<Rightarrow> part_raw p)"

lemma unit_count_le: "unit_count g \<le> 2 ^ 16"
  by (simp add: unit_count_def bucket_count_def part_count_def part_space_def split: granularity.split)

lemma length_units [simp]: "length (units g) = unit_count g"
  using unit_count_le[of g] by (simp add: units_def)

lemma nth_units: "i < unit_count g \<Longrightarrow> units g ! i = of_nat i"
  using unit_count_le[of g] by (simp add: units_def)

lemma unit_of_lt: "unat (unit_of g p) < unit_count g"
  using part_bucket_lt[of p] part_index_bound[of p] by (cases g) (simp_all add: unit_of_def unit_count_def part_index_def)

lemma set_units: "set (units g) = {u. unat u < unit_count g}"
proof -
  have "set (units g) = of_nat ` {..<unit_count g}"
    using unit_count_le[of g] by (simp add: units_def take_map atLeast_upt)
  also have "\<dots> = {u. unat u < unit_count g}"
  proof (intro equalityI subsetI)
    fix u :: u16 assume "u \<in> {u. unat u < unit_count g}"
    then show "u \<in> of_nat ` {..<unit_count g}" by (intro image_eqI[of _ _ "unat u"]) simp_all
  qed (use unit_count_le[of g] in \<open>auto simp: unat_of_nat\<close>)
  finally show ?thesis .
qed

lemma parts_of_unit: "u \<in> set (units g) \<Longrightarrow> p \<in> set (parts_of_wire_id g u) \<longleftrightarrow> u = unit_of g p"
proof (cases g)
  case By_Bucket
  assume "u \<in> set (units g)"
  then have u: "u AND 0x3FF = u" by (intro small_bucket) (simp add: set_units unit_count_def By_Bucket)
  have "p = part_new u (of_nat (unat (part_part p)))" if "u = part_bucket p" using part_new_split[of p] that by simp
  then have "u = part_bucket p \<Longrightarrow> p \<in> set (part_of_bucket u)" using part_part_lt[of p] by (force simp: part_of_bucket_def)
  moreover have "p \<in> set (part_of_bucket u) \<Longrightarrow> u = part_bucket p" using u by (auto simp: part_of_bucket_def part_bucket_new)
  ultimately show ?thesis by (auto simp: By_Bucket parts_of_wire_id_def unit_of_def)
qed (cases p, auto simp: parts_of_wire_id_def unit_of_def)

lemma unit_of_surj: "u \<in> set (units g) \<Longrightarrow> \<exists>p. unit_of g p = u"
  using parts_of_unit[of u g] by (cases g) (fastforce simp: parts_of_wire_id_def part_of_bucket_def part_count_def)+

lemma note_owned_step:
  "note_owned g n (u, ranked_nodes) (owned, bs, co) =
     (if n \<in> set ranked_nodes
      then (part_set_extend (parts_of_wire_id g u) owned,
            fold (\<lambda>p bs. bs[unat (part_bucket p) := True]) (parts_of_wire_id g u) bs, co @ filter (\<lambda>m. m \<noteq> n) ranked_nodes)
      else (owned, bs, co))"
  by (simp add: note_owned_def)

lemma fold_note_owned:
  assumes "part_set_ok owned" and "set us \<subseteq> set (units g)" and "length bs = bucket_count"
    and "fold (note_owned g n) (map (\<lambda>u. (u, r u)) us) (owned, bs, co) = (owned', bs', co')"
  shows "part_set_ok owned' \<and> part_members owned' = part_members owned \<union> {p. unit_of g p \<in> set us \<and> n \<in> set (r (unit_of g p))} \<and>
    length bs' = bucket_count \<and>
    (\<forall>b < bucket_count. bs' ! b \<longleftrightarrow> bs ! b \<or> (\<exists>p. unat (part_bucket p) = b \<and> unit_of g p \<in> set us \<and> n \<in> set (r (unit_of g p)))) \<and>
    set co' = set co \<union> {m. m \<noteq> n \<and> (\<exists>u \<in> set us. {n, m} \<subseteq> set (r u))}"
  using assms
proof (induction us arbitrary: owned bs co)
  case (Cons u us)
  have u: "p \<in> set (parts_of_wire_id g u) \<longleftrightarrow> u = unit_of g p" for p using parts_of_unit Cons.prems(2) by simp
  show ?case
  proof (cases "n \<in> set (r u)")
    case False
    then have "fold (note_owned g n) (map (\<lambda>u. (u, r u)) us) (owned, bs, co) = (owned', bs', co')"
      using Cons.prems(4) by (simp add: note_owned_step)
    from Cons.IH[OF Cons.prems(1) _ Cons.prems(3) this] Cons.prems(2) False show ?thesis by auto
  next
    case True
    let ?bs = "fold (\<lambda>p bs. bs[unat (part_bucket p) := True]) (parts_of_wire_id g u) bs"
    have bits: "length (fold (\<lambda>p bs. bs[unat (part_bucket p) := True]) ps xs) = length xs \<and>
        (\<forall>b < length xs. fold (\<lambda>p bs. bs[unat (part_bucket p) := True]) ps xs ! b \<longleftrightarrow> xs ! b \<or> (\<exists>p \<in> set ps. unat (part_bucket p) = b))"
      for ps xs
    proof (induction ps arbitrary: xs)
      case (Cons a ps)
      have "b < length xs \<Longrightarrow> xs[unat (part_bucket a) := True] ! b \<longleftrightarrow> xs ! b \<or> unat (part_bucket a) = b" for b
        by (cases "unat (part_bucket a) = b") simp_all
      then show ?case using Cons[of "xs[unat (part_bucket a) := True]"] by auto
    qed simp
    have ext: "part_set_ok (part_set_extend (parts_of_wire_id g u) owned)"
      "part_members (part_set_extend (parts_of_wire_id g u) owned) = {p. u = unit_of g p} \<union> part_members owned"
      using parts.extend_ok[OF Cons.prems(1), of "parts_of_wire_id g u"] u
      by (auto simp: parts.extend_def part_set_extend_def)
    have "fold (note_owned g n) (map (\<lambda>u. (u, r u)) us)
        (part_set_extend (parts_of_wire_id g u) owned, ?bs, co @ filter (\<lambda>m. m \<noteq> n) (r u)) = (owned', bs', co')"
      using Cons.prems(4) True by (simp add: note_owned_step)
    note rest = Cons.IH[OF ext(1) _ _ this, unfolded ext(2)]
    have bex: "(\<exists>p \<in> set (parts_of_wire_id g u). Q p) \<longleftrightarrow> (\<exists>p. u = unit_of g p \<and> Q p)" for Q using u by blast
    have len: "length ?bs = bucket_count" and bs: "\<forall>b < bucket_count. ?bs ! b \<longleftrightarrow> bs ! b \<or> (\<exists>p. u = unit_of g p \<and> unat (part_bucket p) = b)"
      using bits[of "parts_of_wire_id g u" bs] Cons.prems(3) unfolding bex by simp_all
    have us: "set us \<subseteq> set (units g)" using Cons.prems(2) by simp
    have *: "(\<exists>p. unat (part_bucket p) = b \<and> unit_of g p \<in> set (u # us) \<and> n \<in> set (r (unit_of g p))) \<longleftrightarrow>
        (\<exists>p. u = unit_of g p \<and> unat (part_bucket p) = b) \<or>
        (\<exists>p. unat (part_bucket p) = b \<and> unit_of g p \<in> set us \<and> n \<in> set (r (unit_of g p)))" for b using True by auto
    show ?thesis
      using rest[OF us len] True bs unfolding * by auto
  qed
qed simp

definition computed :: "externs \<Rightarrow> ownership_view \<Rightarrow> bool" where
  "computed e v \<longleftrightarrow> ov_k v \<noteq> 0 \<and> (\<exists>el. v = compute_at e (ov_self_node v) el (ov_k v) (ov_granularity v))"

lemma compute_at_fields [simp]:
  "ov_self_node (compute_at e n el k g) = n" "ov_eligible (compute_at e n el k g) = with_self n el" "ov_k (compute_at e n el k g) = k"
  "ov_granularity (compute_at e n el k g) = g" "ov_stride (compute_at e n el k g) = min (unat k) (card (insert n (set el)))"
  "ov_view_hash (compute_at e n el k g) = view_hash_at e (with_self n el) g"
  by (simp_all add: compute_at_def from_owners_def Let_def case_prod_beta)

lemma compute_at_owners:
  "ov_owners (compute_at e n el k g) = concat (map (ranked e (with_self n el) (ov_stride (compute_at e n el k g))) (units g))"
  by (simp add: compute_at_def from_owners_def Let_def case_prod_beta ranked_def[abs_def])

lemma ranked_lengths: "\<forall>xs \<in> set (map (ranked e (with_self n el) (min (unat k) (card (insert n (set el))))) us).
    length xs = min (unat k) (card (insert n (set el)))"
  by simp

lemma ranked_chunks:
  assumes "k \<noteq> (0 :: u8)"
  shows "zip (units g) (chunks_exact (min (unat k) (card (insert n (set el))))
      (concat (map (ranked e (with_self n el) (min (unat k) (card (insert n (set el))))) (units g)))) =
    map (\<lambda>u. (u, ranked e (with_self n el) (min (unat k) (card (insert n (set el)))) u)) (units g)"
  using stride_pos[OF assms, of n el] chunks_exact_concat[OF _ ranked_lengths, of k n el e "units g"] by (simp add: zip_map2 zip_same_conv_map)

lemma compute_at_owned:
  assumes k: "k \<noteq> 0"
  shows "part_set_ok (ov_owned (compute_at e n el k g))"
    and "owns (compute_at e n el k g) p \<longleftrightarrow> n \<in> set (ranked e (with_self n el) (ov_stride (compute_at e n el k g)) (unit_of g p))"
    and "set (ov_co_owners (compute_at e n el k g)) =
      {m. m \<noteq> n \<and> (\<exists>p. {n, m} \<subseteq> set (ranked e (with_self n el) (ov_stride (compute_at e n el k g)) (unit_of g p)))}"
    and "owns_any_in_bucket (compute_at e n el k g) b \<longleftrightarrow> (\<exists>p. part_bucket p = b \<and> owns (compute_at e n el k g) p)"
proof -
  let ?st = "min (unat k) (card (insert n (set el)))" and ?v = "compute_at e n el k g"
  let ?r = "ranked e (with_self n el) ?st"
  obtain owned bs co where run: "fold (note_owned g n) (map (\<lambda>u. (u, ?r u)) (units g)) (part_set_new, replicate bucket_count False, []) =
      (owned, bs, co)" by (metis prod_cases3)
  have f: "ov_owned ?v = owned" "ov_owns_in_bucket ?v = bs" "ov_co_owners ?v = btree_set co"
    using run ranked_chunks[OF k, of g n el e]
    by (simp_all add: compute_at_def from_owners_def Let_def ranked_def[abs_def])
  note spec = fold_note_owned[OF parts.empty_ok(1) subset_refl _ run, unfolded parts.empty_ok(2)]
  have mem: "unit_of g p \<in> set (units g)" for p by (simp add: set_units unit_of_lt)
  show "part_set_ok (ov_owned ?v)" using spec f by simp
  have owns: "owns ?v p \<longleftrightarrow> n \<in> set (?r (unit_of g p))" for p
  proof -
    have "owns ?v p \<longleftrightarrow> p \<in> part_members owned" by (simp add: owns_def f part_members_def)
    then show ?thesis using spec mem by simp
  qed
  then show "owns ?v p \<longleftrightarrow> n \<in> set (ranked e (with_self n el) (ov_stride ?v) (unit_of g p))" by simp
  have "(\<exists>u \<in> set (units g). P u) \<longleftrightarrow> (\<exists>p. P (unit_of g p))" for P using unit_of_surj[of _ g] mem by metis
  then show "set (ov_co_owners ?v) = {m. m \<noteq> n \<and> (\<exists>p. {n, m} \<subseteq> set (ranked e (with_self n el) (ov_stride ?v) (unit_of g p)))}"
    using spec f by simp
  have "owns_any_in_bucket ?v b \<longleftrightarrow> unat b < bucket_count \<and> (\<exists>p. unat (part_bucket p) = unat b \<and> owns ?v p)"
    using spec mem unfolding owns_any_in_bucket_def f owns by (cases "unat b < bucket_count") simp_all
  then show "owns_any_in_bucket ?v b \<longleftrightarrow> (\<exists>p. part_bucket p = b \<and> owns ?v p)"
    using part_bucket_lt by (metis word_unat_eq_iff)
qed

lemma owners_of_ranked:
  assumes "k \<noteq> 0"
  shows "owners_of (compute_at e n el k g) p = ranked e (with_self n el) (ov_stride (compute_at e n el k g)) (unit_of g p)"
proof -
  let ?st = "min (unat k) (card (insert n (set el)))"
  let ?i = "unat (unit_of g p)" and ?xss = "map (ranked e (with_self n el) ?st) (units g)"
  have i: "?i < length ?xss" using unit_of_lt[of g p] by simp
  have "?i * ?st + ?st \<le> length ?xss * ?st" using i by (metis Suc_leI mult_Suc mult_le_mono1 add.commute)
  then have fits: "?i * ?st + ?st \<le> length (concat ?xss)" using length_concat_const[OF ranked_lengths] by metis
  have "take ?st (drop (?i * ?st) (concat ?xss)) = ?xss ! ?i" by (rule slice_concat[OF ranked_lengths i])
  also have "\<dots> = ranked e (with_self n el) ?st (unit_of g p)" using i by (simp add: nth_units)
  finally have slice: "take ?st (drop (?i * ?st) (concat ?xss)) = ranked e (with_self n el) ?st (unit_of g p)" .
  have "(case g of By_Bucket \<Rightarrow> unat (part_bucket p) | By_Part \<Rightarrow> part_index p) = ?i"
    by (simp add: unit_of_def part_index_def split: granularity.split)
  then show ?thesis using fits slice by (simp add: owners_of_def compute_at_owners Let_def)
qed

lemma successor_compute:
  assumes v: "computed e v" and k: "k \<noteq> 0"
  shows "successor e v el k g = compute_at e (ov_self_node v) el k g"
proof -
  let ?n = "ov_self_node v"
  obtain el0 where el0: "v = compute_at e ?n el0 (ov_k v) (ov_granularity v)" using v by (auto simp: computed_def)
  define old where "old = with_self ?n el0"
  define new where "new = with_self ?n el"
  define st where "st = min (unat k) (length new)"
  show ?thesis
  proof (cases "(k, g, st) = (ov_k v, ov_granularity v, ov_stride v)")
    case False
    then show ?thesis by (simp add: successor_def Let_def st_def new_def compute_at_def[of e ?n "with_self ?n el"] compute_at_def[of e ?n el])
  next
    case True
    have eq: "ov_k v = k" "ov_granularity v = g" "ov_stride v = st" using True by simp_all
    have stv: "ov_stride v = min (unat k) (card (insert ?n (set el0)))" "ov_eligible v = old"
      using arg_cong[OF el0, of ov_stride] arg_cong[OF el0, of ov_eligible] by (simp_all add: old_def eq)
    have owners: "ov_owners v = concat (map (ranked e old st) (units g))"
      using arg_cong[OF el0, of ov_owners] compute_at_owners[of e ?n el0 "ov_k v" "ov_granularity v"] el0 eq(3)
      by (simp add: old_def eq(1,2) stv(1)[unfolded eq(3), symmetric])
    have chunks: "zip (units g) (chunks_exact st (ov_owners v)) = map (\<lambda>u. (u, ranked e old st u)) (units g)"
      unfolding owners using ranked_chunks[OF k, of g ?n el0 e] stv(1) eq(3) by (simp add: old_def)
    have len: "st \<le> length old" using stv(1) eq(3) by (simp add: old_def)
    have "carry_unit e new (filter (\<lambda>m. m \<notin> set old) new) st (u, ranked e old st u) = ranked e new st u" for u
      by (rule carry_unit_exact[OF _ _ len]) (simp_all add: old_def new_def)
    then have "successor e v el k g = from_owners e ?n new k g (concat (map (ranked e new st) (units g)))"
      using True chunks unfolding successor_def Let_def new_def[symmetric] st_def[symmetric] stv(2) by (simp add: o_def)
    then show ?thesis by (simp add: compute_at_def Let_def new_def st_def ranked_def[abs_def])
  qed
qed

lemma computed_compute: "k \<noteq> 0 \<Longrightarrow> computed e (compute_at e n el k g)"
  by (auto simp: computed_def)

lemma computed_successor: "computed e v \<Longrightarrow> k \<noteq> 0 \<Longrightarrow> computed e (successor e v el k g)"
  by (simp add: successor_compute computed_compute)

lemma join_ranked:
  assumes old: "distinct old" and k: "k \<le> length old" and new: "distinct new" "set new = insert m (set old)"
  shows "set (ranked e new k u) \<subseteq> insert m (set (ranked e old k u))"
    and "m \<notin> set (ranked e new k u) \<Longrightarrow> ranked e new k u = ranked e old k u"
proof -
  let ?kept = "ranked e old k u" and ?joined = "filter (\<lambda>n. n \<notin> set old) new"
  have stay: "set ?kept \<subseteq> set new" using set_ranked[of e old k u] new(2) by blast
  note carried = carried_ranked[OF old new(1) k stay, symmetric]
  have "set (ranked e new k u) \<subseteq> set (?kept @ ?joined)"
    unfolding carried by (auto dest!: in_set_takeD simp: rank.set_arrange scored_def)
  then show sub: "set (ranked e new k u) \<subseteq> insert m (set ?kept)" using new(2) by auto
  assume absent: "m \<notin> set (ranked e new k u)"
  have len: "length (ranked e new k u) = length ?kept"
    using k new distinct_card[OF new(1)] distinct_card[OF old] card_insert_le[of "set old" m] by simp
  have d: "distinct (ranked e new k u)" "distinct ?kept" using distinct_ranked old new(1) by blast+
  have "set (ranked e new k u) = set ?kept"
    using sub absent len distinct_card[OF d(1)] distinct_card[OF d(2)] by (intro card_subset_eq) auto
  then have "mset (map (scored e u) (ranked e new k u)) = mset (map (scored e u) ?kept)" using d by (metis mset_map set_eq_iff_mset_eq_distinct)
  then have "map (scored e u) (ranked e new k u) = map (scored e u) ?kept"
    by (rule rank.sorted_unique[rotated 2]) (simp_all add: scored_ranked sorted_wrt_take[OF rank.arrange_sorted])
  then show "ranked e new k u = ?kept" using scored_inj by (simp add: inj_map_eq_map)
qed

lemma ranked_all: "distinct el \<Longrightarrow> length el \<le> k \<Longrightarrow> set (ranked e el k u) = set el"
  using distinct_card[OF distinct_ranked, of el e k u] distinct_card[of el] by (intro card_subset_eq set_ranked) simp_all

section \<open>Properties\<close>

text \<open>
  C28: carrying a view over is exact: along any sequence of changes of the eligible nodes, of the
  number of owners and of the granularity, the view built step by step from its predecessor is the
  view computed from scratch, owner lists, owned parts, co-owners and hash alike, although a step ranks
  only the previous owners and the newcomers of a unit that kept its owners.
\<close>

theorem successor_equals_compute:
  assumes "k0 \<noteq> 0" and "\<forall>(el, k, g) \<in> set changes. k \<noteq> 0"
  shows "fold (\<lambda>(el, k, g) v. successor e v el k g) changes (compute_at e n el0 k0 g0) =
    (case rev changes of [] \<Rightarrow> compute_at e n el0 k0 g0 | (el, k, g) # _ \<Rightarrow> compute_at e n el k g)"
  using assms(2)
proof (induction changes rule: rev_induct)
  case (snoc c changes)
  obtain el k g where c: "c = (el, k, g)" by (cases c)
  let ?v = "fold (\<lambda>(el, k, g) v. successor e v el k g) changes (compute_at e n el0 k0 g0)"
  have "computed e ?v \<and> ov_self_node ?v = n"
    using snoc assms(1) computed_compute by (auto simp: c split: list.split)
  then show ?case using successor_compute[of e ?v k el g] snoc.prems by (simp add: c)
qed simp

theorem successor_equals_compute_witness:
  "successor demo_externs (successor demo_externs (compute_at demo_externs (NodeId 1) [NodeId 2] 2 By_Part) [NodeId 2, NodeId 3] 2 By_Part)
     [NodeId 3] 2 By_Part = compute_at demo_externs (NodeId 1) [NodeId 3] 2 By_Part"
  using successor_equals_compute[of 2 "[([NodeId 2, NodeId 3], 2, By_Part), ([NodeId 3], 2, By_Part)]" demo_externs "NodeId 1" "[NodeId 2]" By_Part]
  by simp

text \<open>
  C29: nodes that see the same eligible nodes agree: whichever node computes its view and in whatever
  order, with whatever repetition, gossip listed the others, every part has the same owners in the same
  order, as many distinct eligible nodes as asked for or all there are, and a node's set of owned parts
  holds exactly the parts that list it.
\<close>

theorem views_agree_on_owners:
  assumes "k \<noteq> 0" and "insert n (set el) = insert m (set el')"
  shows "owners_of (compute_at e n el k g) p = owners_of (compute_at e m el' k g) p \<and>
    length (owners_of (compute_at e n el k g) p) = min (unat k) (card (insert n (set el))) \<and>
    distinct (owners_of (compute_at e n el k g) p) \<and> set (owners_of (compute_at e n el k g) p) \<subseteq> insert n (set el) \<and>
    (owns (compute_at e n el k g) p \<longleftrightarrow> n \<in> set (owners_of (compute_at e n el k g) p))"
proof -
  let ?st = "min (unat k) (card (insert n (set el)))"
  have o: "owners_of (compute_at e n el k g) p = ranked e (with_self n el) ?st (unit_of g p)"
    "owners_of (compute_at e m el' k g) p = ranked e (with_self m el') ?st (unit_of g p)"
    unfolding owners_of_ranked[OF assms(1)] using assms(2) by simp_all
  have "ranked e (with_self n el) ?st (unit_of g p) = ranked e (with_self m el') ?st (unit_of g p)"
    by (rule ranked_cong) (simp_all add: assms(2))
  then show ?thesis
    using set_ranked[of e "with_self n el" ?st "unit_of g p"] compute_at_owned(2)[OF assms(1), of e n el g p]
    unfolding o by (simp add: distinct_ranked assms(2))
qed

theorem views_agree_on_owners_witness:
  "owners_of (compute_at demo_externs (NodeId 1) [NodeId 2, NodeId 3, NodeId 2] 2 By_Part) (Part_Id 77) =
     owners_of (compute_at demo_externs (NodeId 3) [NodeId 1, NodeId 2] 2 By_Part) (Part_Id 77) \<and>
   length (owners_of (compute_at demo_externs (NodeId 1) [NodeId 2, NodeId 3, NodeId 2] 2 By_Part) (Part_Id 77)) = 2"
proof -
  have "card {NodeId 1, NodeId 2, NodeId 3, NodeId 2} = 3" by (simp add: card_insert_if)
  then show ?thesis
    using views_agree_on_owners[of 2 "NodeId 1" "[NodeId 2, NodeId 3, NodeId 2]" "NodeId 3" "[NodeId 1, NodeId 2]" demo_externs By_Part "Part_Id 77"]
    by (auto simp: insert_commute)
qed

text \<open>
  C30: a join moves parts to the newcomer only: when one node joins, a part whose owners change has
  the newcomer among them, and no node that did not own the part before owns it now, the newcomer apart.
\<close>

theorem join_moves_parts_to_newcomer:
  assumes "k \<noteq> 0"
  shows "set (owners_of (compute_at e n (m # el) k g) p) \<subseteq> insert m (set (owners_of (compute_at e n el k g) p)) \<and>
    (m \<in> set (owners_of (compute_at e n (m # el) k g) p) \<or>
     owners_of (compute_at e n (m # el) k g) p = owners_of (compute_at e n el k g) p)"
proof -
  let ?u = "unit_of g p" and ?old = "with_self n el" and ?new = "with_self n (m # el)"
  have o: "owners_of (compute_at e n el k g) p = ranked e ?old (min (unat k) (length ?old)) ?u"
    "owners_of (compute_at e n (m # el) k g) p = ranked e ?new (min (unat k) (length ?new)) ?u"
    unfolding owners_of_ranked[OF assms] by simp_all
  have new: "set ?new = insert m (set ?old)" by auto
  consider "m \<in> set ?old" | "m \<notin> set ?old" "unat k \<le> length ?old" | "m \<notin> set ?old" "length ?old < unat k" by linarith
  then show ?thesis
  proof cases
    case 1
    then have "insert n (set (m # el)) = insert n (set el)" by auto
    then have "?new = ?old" unfolding with_self_eq by (rule arg_cong)
    then show ?thesis unfolding o by auto
  next
    case 2
    have "length ?old \<le> length ?new" using new by (metis card_insert_le distinct_card with_self_facts(1))
    then show ?thesis
      using 2 join_ranked[OF _ _ _ new, of "unat k" e ?u] unfolding o by (auto simp del: with_self_facts(4))
  next
    case 3
    have "length ?new = Suc (length ?old)" using new 3(1) by (metis List.finite_set card_insert_disjoint distinct_card with_self_facts(1))
    then show ?thesis
      using 3 ranked_all[of ?old "length ?old" e ?u] ranked_all[of ?new "length ?new" e ?u] new
      unfolding o by (simp del: with_self_facts(4))
  qed
qed

theorem join_moves_parts_to_newcomer_witness:
  "set (owners_of (compute_at demo_externs (NodeId 1) [NodeId 3, NodeId 2] 2 By_Bucket) (Part_Id 9)) \<subseteq>
     insert (NodeId 3) (set (owners_of (compute_at demo_externs (NodeId 1) [NodeId 2] 2 By_Bucket) (Part_Id 9)))"
  using join_moves_parts_to_newcomer[of 2 demo_externs "NodeId 1" "NodeId 3" "[NodeId 2]" By_Bucket "Part_Id 9"] by simp

end
