(* ===== verification/Absence.thy ===== *)
theory Absence
  imports Ownership Expiry Btree_Map
begin

text \<open>
  Partition-aware tombstone retention: \<^verbatim>\<open>sundog/src/cluster/absence.rs\<close> and the decisions of
  the collection task in \<^verbatim>\<open>sundog/src/cluster.rs\<close>. The tracker keeps one record per member; an
  \<open>Instant\<close> and a \<open>Duration\<close> are naturals in nanoseconds, and each call takes the instant it
  reads the clock at as an argument. The member map is listed in key order where the source
  walks a \<open>HashMap\<close>.

  The lemmas show that the marks agree with the history of the live sets, that a member that
  dropped out without saying so holds collection back until it has been away for the cap or
  back for the settling time, and that forgetting a member changes no later answer.
\<close>

section \<open>Member records\<close>

type_synonym instant = nat
type_synonym duration = nat

text \<open>\<open>Duration::MAX\<close> in nanoseconds.\<close>

definition duration_max :: duration where
  "duration_max = (2 ^ 64 - 1) * 1000000000 + 999999999"

record live_flags =
  lf_departing :: bool

record member_record =
  mr_flags :: live_flags
  mr_absent_since :: "instant option"
  mr_gone_since :: "instant option"
  mr_known_since :: "instant option"
  mr_present_since :: "instant option"
  mr_returned_since :: "instant option"
  mr_back_since :: "instant option"

definition member_default :: member_record where
  "member_default = \<lparr>mr_flags = \<lparr>lf_departing = False\<rparr>, mr_absent_since = None, mr_gone_since = None, mr_known_since = None,
     mr_present_since = None, mr_returned_since = None, mr_back_since = None\<rparr>"

definition member_is_empty :: "member_record \<Rightarrow> bool" where
  "member_is_empty r \<longleftrightarrow> mr_absent_since r = None \<and> mr_gone_since r = None \<and> mr_known_since r = None \<and>
     mr_present_since r = None \<and> mr_returned_since r = None \<and> mr_back_since r = None"

definition older_than :: "instant \<Rightarrow> instant option \<Rightarrow> duration \<Rightarrow> bool" where
  "older_than now since horizon \<longleftrightarrow> is_some_and (\<lambda>since. now - since > horizon) since"

definition forgotten :: "instant \<Rightarrow> duration \<Rightarrow> duration \<Rightarrow> member_record \<Rightarrow> member_record" where
  "forgotten now gone back r =
     (let r = (if older_than now (mr_gone_since r) gone then r\<lparr>mr_gone_since := None, mr_known_since := None\<rparr> else r)
      in if older_than now (mr_back_since r) back then r\<lparr>mr_back_since := None\<rparr> else r)"

record forget_policy =
  fp_gone :: duration
  fp_back :: duration
  fp_every :: duration

definition forget_policy_new :: "duration \<Rightarrow> duration \<Rightarrow> duration \<Rightarrow> forget_policy" where
  "forget_policy_new receipt_lifetime transfer_budget gc_period =
     \<lparr>fp_gone = receipt_lifetime, fp_back = max receipt_lifetime transfer_budget, fp_every = gc_period div 2\<rparr>"

definition forget_policy_default :: forget_policy where
  "forget_policy_default = \<lparr>fp_gone = duration_max, fp_back = duration_max, fp_every = duration_max\<rparr>"

definition members_shrink_floor :: nat where
  "members_shrink_floor = 256"

definition members_oversized :: "nat \<Rightarrow> nat \<Rightarrow> bool" where
  "members_oversized len capacity \<longleftrightarrow> capacity \<ge> members_shrink_floor \<and> len \<le> capacity div 4"

definition forget_is_due :: "instant option \<Rightarrow> instant \<Rightarrow> duration \<Rightarrow> bool" where
  "forget_is_due forgot_at now every \<longleftrightarrow> is_none_or (\<lambda>at. now - at \<ge> every) forgot_at"

section \<open>The tracker\<close>

type_synonym live_set = "(node_id, live_flags) btree_map"

record absence_tracker =
  at_members :: "(node_id, member_record) btree_map"
  at_forgot_at :: "instant option"
  at_policy :: forget_policy

definition tracker_new :: "forget_policy \<Rightarrow> absence_tracker" where
  "tracker_new policy = \<lparr>at_members = bm_empty, at_forgot_at = None, at_policy = policy\<rparr>"

definition absence_forget :: "instant \<Rightarrow> duration \<Rightarrow> duration \<Rightarrow> absence_tracker \<Rightarrow> absence_tracker" where
  "absence_forget now gone back s =
     s\<lparr>at_members := bm_retain (\<lambda>_ r. \<not> member_is_empty r) (bm_map (forgotten now gone back) (at_members s))\<rparr>"

definition counts_as_absent :: "bool \<Rightarrow> bool" where
  "counts_as_absent departed_gracefully = (\<not> departed_gracefully)"

definition get_or_insert :: "'a option \<Rightarrow> 'a \<Rightarrow> 'a option" where
  "get_or_insert x a = (case x of None \<Rightarrow> Some a | Some _ \<Rightarrow> x)"

definition mark_departed :: "instant \<Rightarrow> member_record \<Rightarrow> member_record" where
  "mark_departed now r =
     (let r = (if counts_as_absent (lf_departing (mr_flags r)) then r\<lparr>mr_absent_since := get_or_insert (mr_absent_since r) now\<rparr> else r)
      in r\<lparr>mr_gone_since := get_or_insert (mr_gone_since r) now, mr_present_since := None\<rparr>)"

definition mark_live :: "instant \<Rightarrow> live_flags \<Rightarrow> member_record \<Rightarrow> member_record" where
  "mark_live now flags r =
     (let r = (if mr_absent_since r \<noteq> None then r\<lparr>mr_absent_since := None, mr_returned_since := Some now, mr_back_since := Some now\<rparr> else r)
      in r\<lparr>mr_gone_since := None, mr_present_since := get_or_insert (mr_present_since r) now,
           mr_known_since := get_or_insert (mr_known_since r) now, mr_flags := flags\<rparr>)"

definition departed_members :: "live_set \<Rightarrow> absence_tracker \<Rightarrow> node_id list" where
  "departed_members live s =
     map fst (filter (\<lambda>(node, r). mr_present_since r \<noteq> None \<and> \<not> bm_contains live node) (bm_entries (at_members s)))"

definition observe :: "instant \<Rightarrow> live_set \<Rightarrow> absence_tracker \<Rightarrow> absence_tracker" where
  "observe now live s =
     (let members = fold (\<lambda>node m. case bm_get m node of None \<Rightarrow> m | Some r \<Rightarrow> bm_insert node (mark_departed now r) m)
                      (departed_members live s) (at_members s)
      in s\<lparr>at_members := fold (\<lambda>(node, flags) m. bm_insert node (mark_live now flags (map_or member_default (\<lambda>r. r) (bm_get m node))) m)
                           (bm_entries live) members\<rparr>)"

definition prune_gone_older_than :: "instant \<Rightarrow> duration \<Rightarrow> absence_tracker \<Rightarrow> absence_tracker" where
  "prune_gone_older_than now horizon s = absence_forget now horizon duration_max s"

definition forget_departed :: "instant \<Rightarrow> absence_tracker \<Rightarrow> absence_tracker" where
  "forget_departed now s =
     (if \<not> forget_is_due (at_forgot_at s) now (fp_every (at_policy s)) then s
      else absence_forget now (fp_gone (at_policy s)) (fp_back (at_policy s)) (s\<lparr>at_forgot_at := Some now\<rparr>))"

definition aged :: "instant \<Rightarrow> instant option \<Rightarrow> duration \<Rightarrow> bool" where
  "aged now since bound \<longleftrightarrow> is_some_and (\<lambda>since. now - since \<ge> bound) since"

definition age_marks :: "instant \<Rightarrow> duration \<Rightarrow> duration \<Rightarrow> member_record \<Rightarrow> member_record" where
  "age_marks now hard_cap settle r =
     (let r = (if aged now (mr_absent_since r) hard_cap then r\<lparr>mr_absent_since := None\<rparr> else r)
      in if aged now (mr_returned_since r) settle then r\<lparr>mr_returned_since := None\<rparr> else r)"

definition holding_gc :: "instant \<Rightarrow> duration \<Rightarrow> duration \<Rightarrow> absence_tracker \<Rightarrow> node_id list \<times> absence_tracker" where
  "holding_gc now hard_cap settle s =
     (let members = bm_retain (\<lambda>_ r. \<not> member_is_empty r) (bm_map (age_marks now hard_cap settle) (at_members s))
      in (map fst (filter (\<lambda>(_, r). mr_absent_since r \<noteq> None \<or> mr_returned_since r \<noteq> None) (bm_entries members)),
          s\<lparr>at_members := members\<rparr>))"

definition away_within :: "instant \<Rightarrow> duration \<Rightarrow> absence_tracker \<Rightarrow> node_id list" where
  "away_within now bound s =
     (let recent = is_some_and (\<lambda>since. now - since < bound)
      in map fst (filter (\<lambda>(_, r). recent (mr_absent_since r) \<or> recent (mr_back_since r)) (bm_entries (at_members s))))"

definition gone_longer_than :: "instant \<Rightarrow> duration \<Rightarrow> absence_tracker \<Rightarrow> node_id list" where
  "gone_longer_than now retire_after s =
     map fst (filter (\<lambda>(_, r). is_some_and (\<lambda>since. now - since \<ge> retire_after) (mr_gone_since r)) (bm_entries (at_members s)))"

definition present_since :: "node_id \<Rightarrow> absence_tracker \<Rightarrow> instant option" where
  "present_since node s = Option.bind (bm_get (at_members s) node) mr_present_since"

definition gone_since :: "node_id \<Rightarrow> absence_tracker \<Rightarrow> instant option" where
  "gone_since node s = Option.bind (bm_get (at_members s) node) mr_gone_since"

definition known_since :: "node_id \<Rightarrow> absence_tracker \<Rightarrow> instant option" where
  "known_since node s = Option.bind (bm_get (at_members s) node) mr_known_since"

definition defers_for :: "externs \<Rightarrow> mode \<Rightarrow> node_id list \<Rightarrow> ownership_view option \<Rightarrow> bool" where
  "defers_for e mode holders ownership =
     (case mode of
        Replicated \<Rightarrow> holders \<noteq> []
      | Distributed _ \<Rightarrow>
          (case ownership of
             None \<Rightarrow> False
           | Some view \<Rightarrow>
               if holders = [] then False
               else let co_owners = co_owners_with e view holders in list_ex (\<lambda>node. node \<in> set co_owners) holders)
      | _ \<Rightarrow> False)"

definition should_defer_gc ::
  "externs \<Rightarrow> instant \<Rightarrow> mode \<Rightarrow> duration \<Rightarrow> duration \<Rightarrow> ownership_view option \<Rightarrow> absence_tracker \<Rightarrow> bool \<times> absence_tracker" where
  "should_defer_gc e now mode hard_cap settle ownership s =
     (case holding_gc now hard_cap settle s of (holders, s) \<Rightarrow> (defers_for e mode holders ownership, s))"

section \<open>The collection task\<close>

definition until_next_grid_tick :: "u64 \<Rightarrow> u64 \<Rightarrow> u64" where
  "until_next_grid_tick now_ms period_ms = (let period_ms = max period_ms 1 in period_ms - now_ms mod period_ms)"

definition gc_defers :: "mode \<Rightarrow> bool \<Rightarrow> duration \<Rightarrow> duration \<Rightarrow> bool" where
  "gc_defers mode absent_defers uptime settle \<longleftrightarrow> defers_tombstone_gc mode \<and> (absent_defers \<or> uptime < settle)"

text \<open>
  One turn of \<open>tombstone_gc_task\<close>: forget, decide, and the flag \<open>gc_tombstones\<close> is called with.
  \<open>settle\<close> is the \<open>tombstone_ttl\<close> and \<open>hard_cap\<close> the \<open>tombstone_max_ttl\<close>.
\<close>

definition gc_turn ::
  "externs \<Rightarrow> instant \<Rightarrow> instant \<Rightarrow> mode \<Rightarrow> duration \<Rightarrow> duration \<Rightarrow> ownership_view option \<Rightarrow> absence_tracker \<Rightarrow> bool \<times> absence_tracker" where
  "gc_turn e started now mode tombstone_ttl tombstone_max_ttl view s =
     (case should_defer_gc e now mode tombstone_max_ttl tombstone_ttl view (forget_departed now s) of
        (absent_defers, s) \<Rightarrow> (gc_defers mode absent_defers (now - started) tombstone_ttl, s))"

section \<open>The operations on one record\<close>

lemma member_default_empty [simp]: "member_is_empty member_default"
  by (simp add: member_is_empty_def member_default_def)

lemma get_or_insert_simps [simp]: "get_or_insert None a = Some a" "get_or_insert (Some b) a = Some b"
  by (simp_all add: get_or_insert_def)

lemma mark_departed_simps [simp]:
  "mr_absent_since (mark_departed now r) = (if lf_departing (mr_flags r) then mr_absent_since r else get_or_insert (mr_absent_since r) now)"
  "mr_gone_since (mark_departed now r) = get_or_insert (mr_gone_since r) now"
  "mr_present_since (mark_departed now r) = None" "mr_known_since (mark_departed now r) = mr_known_since r"
  "mr_returned_since (mark_departed now r) = mr_returned_since r" "mr_back_since (mark_departed now r) = mr_back_since r"
  "mr_flags (mark_departed now r) = mr_flags r"
  by (simp_all add: mark_departed_def Let_def counts_as_absent_def)

lemma mark_live_simps [simp]:
  "mr_absent_since (mark_live now f r) = None" "mr_gone_since (mark_live now f r) = None"
  "mr_present_since (mark_live now f r) = get_or_insert (mr_present_since r) now"
  "mr_known_since (mark_live now f r) = get_or_insert (mr_known_since r) now"
  "mr_returned_since (mark_live now f r) = (if mr_absent_since r = None then mr_returned_since r else Some now)"
  "mr_back_since (mark_live now f r) = (if mr_absent_since r = None then mr_back_since r else Some now)"
  "mr_flags (mark_live now f r) = f"
  by (simp_all add: mark_live_def Let_def)

lemma forgotten_simps [simp]:
  "mr_absent_since (forgotten now g b r) = mr_absent_since r" "mr_returned_since (forgotten now g b r) = mr_returned_since r"
  "mr_present_since (forgotten now g b r) = mr_present_since r" "mr_flags (forgotten now g b r) = mr_flags r"
  "mr_gone_since (forgotten now g b r) = (if older_than now (mr_gone_since r) g then None else mr_gone_since r)"
  "mr_known_since (forgotten now g b r) = (if older_than now (mr_gone_since r) g then None else mr_known_since r)"
  "mr_back_since (forgotten now g b r) = (if older_than now (mr_back_since r) b then None else mr_back_since r)"
  by (simp_all add: forgotten_def Let_def)

lemma age_marks_simps [simp]:
  "mr_absent_since (age_marks now c t r) = (if aged now (mr_absent_since r) c then None else mr_absent_since r)"
  "mr_returned_since (age_marks now c t r) = (if aged now (mr_returned_since r) t then None else mr_returned_since r)"
  "mr_present_since (age_marks now c t r) = mr_present_since r" "mr_gone_since (age_marks now c t r) = mr_gone_since r"
  "mr_known_since (age_marks now c t r) = mr_known_since r" "mr_back_since (age_marks now c t r) = mr_back_since r"
  "mr_flags (age_marks now c t r) = mr_flags r"
  by (simp_all add: age_marks_def Let_def)

text \<open>
  A member the tracker has no record of reads as the empty record: dropping an empty record
  changes nothing a reader sees.
\<close>

definition member :: "absence_tracker \<Rightarrow> node_id \<Rightarrow> member_record" where
  "member s n = map_or member_default (\<lambda>r. r) (bm_get (at_members s) n)"

definition marks :: "member_record \<Rightarrow> instant option list" where
  "marks r = [mr_absent_since r, mr_gone_since r, mr_known_since r, mr_present_since r, mr_returned_since r, mr_back_since r]"

lemma marks_empty: "member_is_empty r \<Longrightarrow> marks r = marks member_default"
  by (simp add: member_is_empty_def marks_def member_default_def)

lemma retain_map_member:
  assumes "at_members s' = bm_retain (\<lambda>_ r. \<not> member_is_empty r) (bm_map f (at_members s))" "marks (f member_default) = marks member_default"
  shows "marks (member s' n) = marks (f (member s n))"
    "bm_get (at_members s') n = Some r \<Longrightarrow> member s' n = f (member s n)"
  using assms marks_empty[of "f (the (bm_get (at_members s) n))"]
  by (auto simp: member_def bm_get_retain split: option.splits if_splits)

lemma marks_member_simps:
  assumes "marks r = marks r'"
  shows "mr_absent_since r = mr_absent_since r'" "mr_gone_since r = mr_gone_since r'" "mr_known_since r = mr_known_since r'"
    "mr_present_since r = mr_present_since r'" "mr_returned_since r = mr_returned_since r'" "mr_back_since r = mr_back_since r'"
  using assms by (simp_all add: marks_def)

lemma in_listed_members:
  assumes "\<not> P member_default"
  shows "n \<in> set (map fst (filter (\<lambda>(_, r). P r) (bm_entries (at_members s)))) \<longleftrightarrow> P (member s n)"
proof -
  have "n \<in> set (map fst (filter (\<lambda>(_, r). P r) (bm_entries (at_members s)))) \<longleftrightarrow> (\<exists>r. bm_get (at_members s) n = Some r \<and> P r)"
    by (auto simp: in_bm_entries_iff image_iff case_prod_unfold)
  then show ?thesis using assms by (cases "bm_get (at_members s) n") (simp_all add: member_def)
qed

section \<open>One snapshot\<close>

lemma fold_mark_departed:
  "bm_get (fold (\<lambda>node m. case bm_get m node of None \<Rightarrow> m | Some r \<Rightarrow> bm_insert node (f r) m) ns m) n =
     (if distinct ns then (if n \<in> set ns then map_option f (bm_get m n) else bm_get m n)
      else bm_get (fold (\<lambda>node m. case bm_get m node of None \<Rightarrow> m | Some r \<Rightarrow> bm_insert node (f r) m) ns m) n)"
proof (cases "distinct ns")
  case True
  then show ?thesis
  proof (induction ns arbitrary: m)
    case (Cons a ns)
    then show ?case by (auto split: option.splits)
  qed simp
qed simp

lemma fold_mark_live:
  assumes "distinct (map fst xs)"
  shows "bm_get (fold (\<lambda>(node, flags) m. bm_insert node (g flags (map_or d (\<lambda>r. r) (bm_get m node))) m) xs m) n =
     (case map_of xs n of None \<Rightarrow> bm_get m n | Some flags \<Rightarrow> Some (g flags (map_or d (\<lambda>r. r) (bm_get m n))))"
  using assms
proof (induction xs arbitrary: m)
  case (Cons x xs)
  obtain a b where x: "x = (a, b)" by (cases x)
  have "map_of xs a = None" using Cons.prems by (simp add: x map_of_eq_None_iff)
  with Cons show ?case by (cases "n = a") (simp_all add: x split: option.split)
qed simp

lemma in_departed_members:
  "n \<in> set (departed_members live s) \<longleftrightarrow> mr_present_since (member s n) \<noteq> None \<and> \<not> bm_contains live n"
proof -
  have "n \<in> set (departed_members live s) \<longleftrightarrow> (\<exists>r. bm_get (at_members s) n = Some r \<and> mr_present_since r \<noteq> None) \<and> \<not> bm_contains live n"
    unfolding departed_members_def
    by (auto simp: in_bm_entries_iff image_iff case_prod_unfold)
  then show ?thesis by (cases "bm_get (at_members s) n") (simp_all add: member_def member_default_def)
qed

lemma distinct_departed_members: "distinct (departed_members live s)"
  unfolding departed_members_def using sorted_keys_distinct[OF sorted_keys_bm_entries] by (rule distinct_map_filter)

lemma member_observe:
  "member (observe now live s) n =
     (case bm_get live n of
        Some flags \<Rightarrow> mark_live now flags (member s n)
      | None \<Rightarrow> if mr_present_since (member s n) \<noteq> None then mark_departed now (member s n) else member s n)"
proof -
  let ?dep = "fold (\<lambda>node m. case bm_get m node of None \<Rightarrow> m | Some r \<Rightarrow> bm_insert node (mark_departed now r) m)
    (departed_members live s) (at_members s)"
  have dep: "bm_get ?dep n = (if n \<in> set (departed_members live s) then map_option (mark_departed now) (bm_get (at_members s) n)
      else bm_get (at_members s) n)"
    using fold_mark_departed[of "mark_departed now" "departed_members live s" "at_members s" n] distinct_departed_members by simp
  have "bm_get (at_members (observe now live s)) n =
    (case bm_get live n of None \<Rightarrow> bm_get ?dep n
     | Some flags \<Rightarrow> Some (mark_live now flags (map_or member_default (\<lambda>r. r) (bm_get ?dep n))))"
    unfolding observe_def Let_def
    using fold_mark_live[OF sorted_keys_distinct[OF sorted_keys_bm_entries], of "mark_live now" member_default live ?dep n]
    by (simp add: bm_get_def[of live])
  then show ?thesis
    unfolding member_def[of "observe now live s"] dep in_departed_members
    by (cases "bm_get (at_members s) n") (auto simp: member_def bm_contains_def member_default_def split: option.splits)
qed

lemma at_policy_simps [simp]:
  "at_policy (observe now live s) = at_policy s" "at_policy (absence_forget now g b s) = at_policy s"
  "at_policy (forget_departed now s) = at_policy s" "at_policy (snd (holding_gc now c t s)) = at_policy s"
  by (simp_all add: observe_def absence_forget_def forget_departed_def holding_gc_def Let_def)

lemma default_marks [simp]:
  "marks (forgotten now g b member_default) = marks member_default"
  "marks (age_marks now c t member_default) = marks member_default"
  by (simp_all add: marks_def member_default_def older_than_def aged_def)

lemma member_forget: "marks (member (absence_forget now g b s) n) = marks (forgotten now g b (member s n))"
  by (rule retain_map_member) (simp_all add: absence_forget_def)

lemma member_holding_gc: "marks (member (snd (holding_gc now c t s)) n) = marks (age_marks now c t (member s n))"
  by (rule retain_map_member) (simp_all add: holding_gc_def Let_def)

lemma in_holding_gc:
  "n \<in> set (fst (holding_gc now c t s)) \<longleftrightarrow>
     (\<exists>since. mr_absent_since (member s n) = Some since \<and> now - since < c) \<or>
     (\<exists>since. mr_returned_since (member s n) = Some since \<and> now - since < t)"
proof -
  let ?s = "snd (holding_gc now c t s)"
  have "fst (holding_gc now c t s) =
    map fst (filter (\<lambda>(_, r). mr_absent_since r \<noteq> None \<or> mr_returned_since r \<noteq> None) (bm_entries (at_members ?s)))"
    by (simp add: holding_gc_def Let_def)
  then have "n \<in> set (fst (holding_gc now c t s)) \<longleftrightarrow> mr_absent_since (member ?s n) \<noteq> None \<or> mr_returned_since (member ?s n) \<noteq> None"
    using in_listed_members[of "\<lambda>r. mr_absent_since r \<noteq> None \<or> mr_returned_since r \<noteq> None" n ?s] by (simp add: member_default_def)
  then show ?thesis
    unfolding marks_member_simps[OF member_holding_gc] by (auto simp: aged_def is_some_and_iff not_le)
qed

lemma in_away_within:
  "n \<in> set (away_within now bound s) \<longleftrightarrow>
     (\<exists>since. mr_absent_since (member s n) = Some since \<and> now - since < bound) \<or>
     (\<exists>since. mr_back_since (member s n) = Some since \<and> now - since < bound)"
  unfolding away_within_def Let_def
  by (subst in_listed_members) (auto simp: member_default_def is_some_and_iff)

lemma in_gone_longer_than:
  "n \<in> set (gone_longer_than now d s) \<longleftrightarrow> (\<exists>since. mr_gone_since (member s n) = Some since \<and> d \<le> now - since)"
  unfolding gone_longer_than_def by (subst in_listed_members) (auto simp: member_default_def is_some_and_iff)


section \<open>Histories\<close>

datatype absence_op = Observe instant live_set | HoldingGc instant | ForgetDeparted instant | PruneGone instant duration

fun op_time :: "absence_op \<Rightarrow> instant" where
  "op_time (Observe now _) = now"
| "op_time (HoldingGc now) = now"
| "op_time (ForgetDeparted now) = now"
| "op_time (PruneGone now _) = now"

text \<open>The cap and the settling time are the cache's, the same on every turn.\<close>

fun absence_step :: "duration \<Rightarrow> duration \<Rightarrow> absence_op \<Rightarrow> absence_tracker \<Rightarrow> absence_tracker" where
  "absence_step c t (Observe now live) s = observe now live s"
| "absence_step c t (HoldingGc now) s = snd (holding_gc now c t s)"
| "absence_step c t (ForgetDeparted now) s = forget_departed now s"
| "absence_step c t (PruneGone now horizon) s = prune_gone_older_than now horizon s"

definition absence_run :: "duration \<Rightarrow> duration \<Rightarrow> absence_op list \<Rightarrow> absence_tracker \<Rightarrow> absence_tracker" where
  "absence_run c t ops s = fold (absence_step c t) ops s"

definition sees_live :: "node_id \<Rightarrow> absence_op \<Rightarrow> bool" where
  "sees_live n op = (case op of Observe _ live \<Rightarrow> bm_contains live n | _ \<Rightarrow> False)"

lemma member_forget_departed:
  "mr_absent_since (member (forget_departed now s) n) = mr_absent_since (member s n)"
  "mr_returned_since (member (forget_departed now s) n) = mr_returned_since (member s n)"
  "mr_present_since (member (forget_departed now s) n) = mr_present_since (member s n)"
proof -
  have "member (absence_forget now g b (s\<lparr>at_forgot_at := f\<rparr>)) n = member (absence_forget now g b s) n" for g b f
    by (simp add: member_def absence_forget_def)
  then show "mr_absent_since (member (forget_departed now s) n) = mr_absent_since (member s n)"
    "mr_returned_since (member (forget_departed now s) n) = mr_returned_since (member s n)"
    "mr_present_since (member (forget_departed now s) n) = mr_present_since (member s n)"
    using marks_member_simps[OF member_forget] by (simp_all add: forget_departed_def)
qed

text \<open>A member marked absent stays marked until it is seen live or the cap has passed.\<close>

lemma step_keeps_absent:
  assumes "mr_absent_since (member s n) = Some since" "\<not> sees_live n op" "since \<le> op_time op" "op_time op < since + c"
  shows "mr_absent_since (member (absence_step c t op s) n) = Some since"
proof (cases op)
  case (Observe now live)
  then show ?thesis using assms by (auto simp: member_observe sees_live_def bm_contains_def split: option.splits)
next
  case (HoldingGc now)
  then show ?thesis
    using assms marks_member_simps(1)[OF member_holding_gc, of now c t s n] by (auto simp: aged_def)
next
  case (ForgetDeparted now)
  then show ?thesis using assms by (simp add: member_forget_departed)
next
  case (PruneGone now horizon)
  then show ?thesis using assms marks_member_simps(1)[OF member_forget] by (simp add: prune_gone_older_than_def)
qed

lemma run_keeps_absent:
  assumes "mr_absent_since (member s n) = Some since" "\<forall>op\<in>set ops. \<not> sees_live n op \<and> since \<le> op_time op \<and> op_time op < since + c"
  shows "mr_absent_since (member (absence_run c t ops s) n) = Some since"
  using assms by (induction ops arbitrary: s) (simp_all add: absence_run_def step_keeps_absent)

text \<open>A mark of a return only moves forward until the settling time has passed.\<close>

lemma step_keeps_returned:
  assumes "mr_returned_since (member s n) = Some since" "since \<le> op_time op" "op_time op < since + t"
  shows "\<exists>since'. mr_returned_since (member (absence_step c t op s) n) = Some since' \<and> since \<le> since' \<and> since' \<le> op_time op"
proof (cases op)
  case (Observe now live)
  then show ?thesis using assms by (auto simp: member_observe split: option.splits)
next
  case (HoldingGc now)
  then show ?thesis
    using assms marks_member_simps(5)[OF member_holding_gc, of now c t s n] by (auto simp: aged_def)
next
  case (ForgetDeparted now)
  then show ?thesis using assms by (simp add: member_forget_departed)
next
  case (PruneGone now horizon)
  then show ?thesis using assms marks_member_simps(5)[OF member_forget] by (simp add: prune_gone_older_than_def)
qed

lemma run_keeps_returned:
  assumes "mr_returned_since (member s n) = Some since" "sorted (since # map op_time ops)" "\<forall>op\<in>set ops. op_time op < since + t"
  shows "\<exists>since'. mr_returned_since (member (absence_run c t ops s) n) = Some since' \<and> since \<le> since'"
  using assms
proof (induction ops arbitrary: s since)
  case Nil
  then show ?case by (simp add: absence_run_def)
next
  case (Cons op ops)
  obtain since' where s': "mr_returned_since (member (absence_step c t op s) n) = Some since'" "since \<le> since'" "since' \<le> op_time op"
    using step_keeps_returned[of s n since op t c] Cons.prems by auto
  from Cons.IH[OF s'(1)] Cons.prems(2,3) s'(2,3) obtain since'' where
    "mr_returned_since (member (absence_run c t ops (absence_step c t op s)) n) = Some since''" "since' \<le> since''"
    by (fastforce simp: le_less_trans)
  with s'(2) show ?case by (auto simp: absence_run_def)
qed

section \<open>Properties\<close>

text \<open>
  C36: a member that dropped out without announcing it holds tombstone collection back. Once a
  live set misses a member that was live and had not gossiped a departure, whatever live sets,
  collection turns, forgetting passes and prunings follow, a replicated cache defers at every
  turn less than the cap after the drop while the member stays away, and at every turn less
  than the settling time after it is seen live again within the cap, even if it drops again.
\<close>

theorem crashed_member_defers_gc:
  assumes "mr_present_since (member s n) \<noteq> None" "mr_absent_since (member s n) = None" "\<not> lf_departing (mr_flags (member s n))"
    and "\<not> bm_contains live n" "sorted (t1 # map op_time ops @ [now])"
    and "(\<forall>op\<in>set ops. \<not> sees_live n op) \<and> now < t1 + c \<or>
      (\<exists>ops1 t2 live2 ops2. ops = ops1 @ Observe t2 live2 # ops2 \<and> (\<forall>op\<in>set ops1. \<not> sees_live n op) \<and>
         bm_contains live2 n \<and> t2 < t1 + c \<and> now < t2 + t)"
  shows "fst (should_defer_gc e now Replicated c t view (absence_run c t (Observe t1 live # ops) s))"
proof -
  let ?s1 = "observe t1 live s"
  have gone: "mr_absent_since (member ?s1 n) = Some t1"
    using assms(1-4) by (auto simp: member_observe bm_contains_def)
  have "n \<in> set (fst (holding_gc now c t (absence_run c t ops ?s1)))"
    using assms(6)
  proof
    assume away: "(\<forall>op\<in>set ops. \<not> sees_live n op) \<and> now < t1 + c"
    have "\<forall>op\<in>set ops. t1 \<le> op_time op \<and> op_time op < t1 + c" "t1 \<le> now" using assms(5) away by (fastforce simp: sorted_append)+
    then have "mr_absent_since (member (absence_run c t ops ?s1) n) = Some t1"
      using away by (intro run_keeps_absent[OF gone]) blast
    then show ?thesis using away \<open>t1 \<le> now\<close> unfolding in_holding_gc by auto
  next
    assume "\<exists>ops1 t2 live2 ops2. ops = ops1 @ Observe t2 live2 # ops2 \<and> (\<forall>op\<in>set ops1. \<not> sees_live n op) \<and>
      bm_contains live2 n \<and> t2 < t1 + c \<and> now < t2 + t"
    then obtain ops1 t2 live2 ops2 where ops: "ops = ops1 @ Observe t2 live2 # ops2" "\<forall>op\<in>set ops1. \<not> sees_live n op"
      "bm_contains live2 n" "t2 < t1 + c" "now < t2 + t" by blast
    let ?s2 = "absence_run c t ops1 ?s1"
    have "\<forall>op\<in>set ops1. t1 \<le> op_time op \<and> op_time op < t1 + c" using assms(5) ops(1,4) by (fastforce simp: sorted_append)
    then have "mr_absent_since (member ?s2 n) = Some t1"
      using ops(2) by (intro run_keeps_absent[OF gone]) blast
    then have ret: "mr_returned_since (member (observe t2 live2 ?s2) n) = Some t2"
      using ops(3) by (auto simp: member_observe bm_contains_def)
    have "\<forall>op\<in>set ops2. op_time op < t2 + t" "sorted (t2 # map op_time ops2)" "t2 \<le> now"
      using assms(5) ops(1,5) by (fastforce simp: sorted_append)+
    from run_keeps_returned[OF ret this(2,1), of c] obtain since where
      "mr_returned_since (member (absence_run c t ops2 (observe t2 live2 ?s2)) n) = Some since" "t2 \<le> since" by blast
    moreover have "absence_run c t ops ?s1 = absence_run c t ops2 (observe t2 live2 ?s2)"
      by (simp add: absence_run_def ops(1))
    ultimately show ?thesis unfolding in_holding_gc using ops(5) \<open>t2 \<le> now\<close> by auto
  qed
  then show ?thesis
    by (auto simp: should_defer_gc_def absence_run_def defers_for_def case_prod_unfold)
qed


definition demo_live :: "u64 list \<Rightarrow> live_set" where
  "demo_live ns = bm_of_list (map (\<lambda>n. (NodeId n, \<lparr>lf_departing = False\<rparr>)) ns)"

theorem crashed_member_defers_gc_witness:
  "fst (should_defer_gc demo_externs 25 Replicated 100 10 None
    (absence_run 100 10 [Observe 5 (demo_live []), HoldingGc 7, Observe 20 (demo_live [3])]
      (observe 0 (demo_live [3]) (tracker_new forget_policy_default))))"
proof (rule crashed_member_defers_gc[where n = "NodeId 3"])
  let ?s = "observe 0 (demo_live [3]) (tracker_new forget_policy_default)"
  have m: "member ?s (NodeId 3) = mark_live 0 \<lparr>lf_departing = False\<rparr> member_default"
    by (simp add: member_observe demo_live_def) (simp add: member_def tracker_new_def)
  show "mr_present_since (member ?s (NodeId 3)) \<noteq> None" "mr_absent_since (member ?s (NodeId 3)) = None"
    "\<not> lf_departing (mr_flags (member ?s (NodeId 3)))" unfolding m by (simp_all add: member_default_def)
  show "\<not> bm_contains (demo_live []) (NodeId 3)" by (simp add: demo_live_def)
  show "sorted (5 # map op_time [HoldingGc 7, Observe 20 (demo_live [3])] @ [25])" by simp
  have "[HoldingGc 7, Observe 20 (demo_live [3])] = [HoldingGc 7] @ Observe 20 (demo_live [3]) # []" by simp
  moreover have "bm_contains (demo_live [3]) (NodeId 3)" by (simp add: demo_live_def bm_contains_def)
  ultimately show "(\<forall>op\<in>set [HoldingGc 7, Observe 20 (demo_live [3])]. \<not> sees_live (NodeId 3) op) \<and> 25 < 5 + (100 :: nat) \<or>
    (\<exists>ops1 t2 live2 ops2. [HoldingGc 7, Observe 20 (demo_live [3])] = ops1 @ Observe t2 live2 # ops2 \<and>
      (\<forall>op\<in>set ops1. \<not> sees_live (NodeId 3) op) \<and> bm_contains live2 (NodeId 3) \<and> t2 < 5 + 100 \<and> 25 < t2 + 10)"
    by (intro disjI2 exI[of _ "[HoldingGc 7]"] exI[of _ 20] exI[of _ "demo_live [3]"] exI[of _ "[]"]) (simp add: sees_live_def)
qed

text \<open>
  The history of live sets a tracker was shown, newest first, and the runs of it a member was
  live or away in.
\<close>

type_synonym live_history = "(instant \<times> live_set) list"

definition shown :: "forget_policy \<Rightarrow> live_history \<Rightarrow> absence_tracker" where
  "shown policy h = fold (\<lambda>(now, live). observe now live) (rev h) (tracker_new policy)"

definition live_at :: "node_id \<Rightarrow> instant \<times> live_set \<Rightarrow> bool" where
  "live_at n snap = bm_contains (snd snap) n"

definition run_start :: "(instant \<times> live_set \<Rightarrow> bool) \<Rightarrow> live_history \<Rightarrow> instant option" where
  "run_start P h = (if takeWhile P h = [] then None else Some (fst (last (takeWhile P h))))"

lemma run_start_simps [simp]:
  "run_start P [] = None"
  "run_start P (a # h) = (if P a then (case run_start P h of None \<Rightarrow> Some (fst a) | Some t \<Rightarrow> Some t) else None)"
  by (simp_all add: run_start_def)

lemma shown_Cons: "shown policy ((now, live) # h) = observe now live (shown policy h)"
  by (simp add: shown_def)

lemma tracker_matches_history:
  "let r = member (shown policy h) n; seen = dropWhile (\<lambda>s. \<not> live_at n s) h in
     mr_present_since r = run_start (live_at n) h \<and>
     mr_gone_since r = (if seen = [] then None else run_start (\<lambda>s. \<not> live_at n s) h) \<and>
     mr_absent_since r = (if seen = [] \<or> lf_departing (the (bm_get (snd (hd seen)) n)) then None else run_start (\<lambda>s. \<not> live_at n s) h) \<and>
     mr_known_since r = (if seen = [] then None else Some (fst (last (filter (live_at n) h)))) \<and>
     (seen \<noteq> [] \<longrightarrow> mr_flags r = the (bm_get (snd (hd seen)) n))"
proof (induction h)
  case Nil
  then show ?case by (simp add: shown_def member_def tracker_new_def member_default_def)
next
  case (Cons a h)
  obtain now live where a: "a = (now, live)" by (cases a)
  show ?case
  proof (cases "bm_get live n")
    case (Some f)
    then have l: "live_at n a" by (simp add: a live_at_def bm_contains_def)
    have "filter (live_at n) h = [] \<longleftrightarrow> dropWhile (\<lambda>s. \<not> live_at n s) h = []"
      by (auto simp: filter_empty_conv dropWhile_eq_Nil_conv)
    with Cons.IH l Some show ?thesis
      by (simp add: a shown_Cons member_observe Let_def split: option.split)
  next
    case None
    then have l: "\<not> live_at n a" by (simp add: a live_at_def bm_contains_def)
    show ?thesis
    proof (cases "dropWhile (\<lambda>s. \<not> live_at n s) h = []")
      case True
      then have "run_start (live_at n) h = None" by (cases h) (auto simp: dropWhile_eq_Nil_conv split: if_splits)
      with Cons.IH l None True show ?thesis by (simp add: a shown_Cons member_observe Let_def)
    next
      case seen: False
      show ?thesis
      proof (cases "run_start (live_at n) h")
        case away: None
        with seen have "run_start (\<lambda>s. \<not> live_at n s) h \<noteq> None"
          by (cases h) (auto split: option.splits if_splits)
        then obtain t where "run_start (\<lambda>s. \<not> live_at n s) h = Some t" by blast
        with Cons.IH l None seen away show ?thesis by (auto simp: a shown_Cons member_observe Let_def)
      next
        case (Some t)
        then have "run_start (\<lambda>s. \<not> live_at n s) h = None" by (cases h) (auto split: if_splits)
        with Cons.IH l None seen Some show ?thesis by (auto simp: a shown_Cons member_observe Let_def)
      qed
    qed
  qed
qed


text \<open>
  The tracker's marks are what the history of live sets says. After any history, a member's
  presence starts where its current run of live sets does, it is gone since the first live set
  that missed it after the last that had it, that departure counts as an absence unless the
  last flags seen announced it, and it is known since the first live set that had it.
\<close>

theorem marks_follow_history:
  "present_since n (shown policy h) = run_start (live_at n) h \<and>
   gone_since n (shown policy h) =
     (if \<exists>s\<in>set h. live_at n s then run_start (\<lambda>s. \<not> live_at n s) h else None) \<and>
   known_since n (shown policy h) =
     (if \<exists>s\<in>set h. live_at n s then Some (fst (last (filter (live_at n) h))) else None) \<and>
   (n \<in> set (away_within now bound (shown policy h)) \<longleftrightarrow>
     (\<exists>since. run_start (\<lambda>s. \<not> live_at n s) h = Some since \<and> now - since < bound \<and> (\<exists>s\<in>set h. live_at n s) \<and>
        \<not> lf_departing (the (bm_get (snd (hd (dropWhile (\<lambda>s. \<not> live_at n s) h))) n))) \<or>
     (\<exists>since. mr_back_since (member (shown policy h) n) = Some since \<and> now - since < bound))"
proof -
  have get: "Option.bind (bm_get (at_members s) n) f = f (member s n)" if "f member_default = None" for f :: "member_record \<Rightarrow> instant option" and s
    using that by (cases "bm_get (at_members s) n") (simp_all add: member_def)
  have "(dropWhile (\<lambda>s. \<not> live_at n s) h = []) = (\<not> (\<exists>s\<in>set h. live_at n s))" by (simp add: dropWhile_eq_Nil_conv)
  with tracker_matches_history[of policy h n] show ?thesis
    unfolding Let_def in_away_within present_since_def gone_since_def known_since_def
    by (auto simp: get member_default_def)
qed

text \<open>
  Forgetting departed members changes no later answer. After a forgetting pass, at any later
  instant, the members that hold collection back are the same, the members away within any
  bound up to the policy's are the same, and the members gone at least so long differ only by
  members gone longer than the receipt lifetime.
\<close>

theorem forgetting_is_invisible:
  assumes "now \<le> later" "bound \<le> fp_back (at_policy s)"
  shows "set (fst (holding_gc later c t (forget_departed now s))) = set (fst (holding_gc later c t s)) \<and>
    set (away_within later bound (forget_departed now s)) = set (away_within later bound s) \<and>
    set (gone_longer_than later d (forget_departed now s)) =
      {n \<in> set (gone_longer_than later d s). forget_is_due (at_forgot_at s) now (fp_every (at_policy s)) \<longrightarrow>
         \<not> older_than now (gone_since n s) (fp_gone (at_policy s))}"
proof -
  have gone: "gone_since n s = mr_gone_since (member s n)" for n
    by (cases "bm_get (at_members s) n") (simp_all add: gone_since_def member_def member_default_def)
  have same: "member (absence_forget now g b (s\<lparr>at_forgot_at := f\<rparr>)) n = member (absence_forget now g b s) n" for g b f n
    by (simp add: member_def absence_forget_def)
  have marks: "mr_back_since (member (forget_departed now s) n) =
      (if forget_is_due (at_forgot_at s) now (fp_every (at_policy s)) \<and> older_than now (mr_back_since (member s n)) (fp_back (at_policy s))
       then None else mr_back_since (member s n))"
    "mr_gone_since (member (forget_departed now s) n) =
      (if forget_is_due (at_forgot_at s) now (fp_every (at_policy s)) \<and> older_than now (mr_gone_since (member s n)) (fp_gone (at_policy s))
       then None else mr_gone_since (member s n))" for n
    using marks_member_simps[OF member_forget] by (simp_all add: forget_departed_def same)
  have stale: "\<not> later - since < bound" if "older_than now (Some since) (fp_back (at_policy s))" for since
    using that assms by (simp add: older_than_def)
  have "n \<in> set (fst (holding_gc later c t (forget_departed now s))) \<longleftrightarrow> n \<in> set (fst (holding_gc later c t s))" for n
    by (simp add: in_holding_gc member_forget_departed)
  moreover have "n \<in> set (away_within later bound (forget_departed now s)) \<longleftrightarrow> n \<in> set (away_within later bound s)" for n
    unfolding in_away_within member_forget_departed marks using stale by auto
  moreover have "n \<in> set (gone_longer_than later d (forget_departed now s)) \<longleftrightarrow> n \<in> set (gone_longer_than later d s) \<and>
      (forget_is_due (at_forgot_at s) now (fp_every (at_policy s)) \<longrightarrow> \<not> older_than now (gone_since n s) (fp_gone (at_policy s)))" for n
    unfolding in_gone_longer_than marks gone by (auto simp: older_than_def)
  ultimately show ?thesis by blast
qed

theorem forgetting_is_invisible_witness:
  "set (away_within 900 100 (forget_departed 800 (tracker_new (forget_policy_new 50 100 10)))) =
   set (away_within 900 100 (tracker_new (forget_policy_new 50 100 10)))"
  using forgetting_is_invisible[of 800 900 100 "tracker_new (forget_policy_new 50 100 10)"]
  by (simp add: tracker_new_def forget_policy_new_def)

text \<open>
  A distributed cache defers exactly for the members that would co-own one of its parts.
  With the view a node computed from its eligible nodes, collection defers for some holders
  exactly when one of them owns a part together with this node in the view in which every
  holder is eligible again.
\<close>

theorem distributed_defers_for_co_owners:
  assumes "k \<noteq> 0"
  shows "defers_for e (Distributed k) holders (Some (compute_at e n el k g)) \<longleftrightarrow>
    (\<exists>h\<in>set holders. h \<noteq> n \<and> (\<exists>p. {n, h} \<subseteq> set (owners_of (compute_at e n (el @ holders) k g) p)))"
proof -
  let ?v = "compute_at e n el k g" and ?w = "compute_at e n (el @ holders) k g"
  have elig: "ov_eligible ?v = with_self n el" by simp
  have co: "set (ov_co_owners (compute_at e n xs k g)) = {m. m \<noteq> n \<and> (\<exists>p. {n, m} \<subseteq> set (owners_of (compute_at e n xs k g) p))}" for xs
    unfolding owners_of_ranked[OF assms] by (rule compute_at_owned(3)[OF assms])
  have wide: "owners_of (compute_at e n xs k g) p = owners_of ?w p" if "insert n (set xs) = insert n (set (el @ holders))" for xs p
    unfolding owners_of_ranked[OF assms] compute_at_fields that by (rule ranked_cong) (use that in simp_all)
  have set: "set (remdups_adj (sort (with_self n el @ holders))) = insert n (set (el @ holders))"
    by auto
  have "set (co_owners_with e ?v holders) = {m. m \<noteq> n \<and> (\<exists>p. {n, m} \<subseteq> set (owners_of ?w p))}"
  proof (cases "widened e ?v holders")
    case (Some w)
    then have "w = successor e ?v (remdups_adj (sort (with_self n el @ holders))) k g"
      by (auto simp: widened_def Let_def split: if_splits)
    then have "w = compute_at e n (remdups_adj (sort (with_self n el @ holders))) k g"
      using successor_compute[OF computed_compute[OF assms] assms, of e n el g] by simp
    then have "set (co_owners_with e ?v holders) = set (ov_co_owners (compute_at e n (remdups_adj (sort (with_self n el @ holders))) k g))"
      using Some by (simp add: co_owners_with_def)
    moreover have "insert n (set (remdups_adj (sort (with_self n el @ holders)))) = insert n (set (el @ holders))"
      unfolding set by simp
    ultimately show ?thesis unfolding co wide[OF \<open>insert n _ = _\<close>] by blast
  next
    case None
    then have "length (remdups_adj (sort (with_self n el @ holders))) = length (with_self n el)"
      by (simp add: widened_def Let_def elig split: if_splits)
    then have "card (insert n (set (el @ holders))) = card (insert n (set el))"
      using distinct_card[OF distinct_dedup[of "with_self n el @ holders"]] set by simp
    then have "insert n (set el) = insert n (set (el @ holders))"
      by (intro card_subset_eq) auto
    moreover have "set (co_owners_with e ?v holders) = set (ov_co_owners ?v)" using None by (simp add: co_owners_with_def)
    ultimately show ?thesis unfolding co using wide[of el] by simp
  qed
  then show ?thesis by (auto simp: defers_for_def list_ex_iff Let_def)
qed


theorem distributed_defers_for_co_owners_witness:
  "defers_for demo_externs (Distributed 2) [NodeId 3] (Some (compute_at demo_externs (NodeId 1) [NodeId 2] 2 By_Part)) \<longleftrightarrow>
    (\<exists>p. {NodeId 1, NodeId 3} \<subseteq> set (owners_of (compute_at demo_externs (NodeId 1) [NodeId 2, NodeId 3] 2 By_Part) p))"
  using distributed_defers_for_co_owners[of 2 demo_externs "[NodeId 3]" "NodeId 1" "[NodeId 2]" By_Part] by simp

text \<open>The next tick lies on the grid of multiples of the period, strictly later and within one period.\<close>

lemma next_tick_on_grid:
  "(unat now_ms + unat (until_next_grid_tick now_ms p)) mod unat (max p 1) = 0 \<and>
   0 < unat (until_next_grid_tick now_ms p) \<and> unat (until_next_grid_tick now_ms p) \<le> unat (max p 1)"
proof -
  define q where "q = unat (max p 1)"
  have q: "0 < q" by (simp add: q_def sat_simps)
  have mod: "unat (now_ms mod max p 1) = unat now_ms mod q" by (simp add: q_def unat_mod)
  then have "now_ms mod max p 1 \<le> max p 1" using q by (simp add: word_le_nat_alt q_def less_imp_le)
  then have wait: "unat (until_next_grid_tick now_ms p) = q - unat now_ms mod q"
    by (simp add: until_next_grid_tick_def Let_def unat_sub mod) (simp add: q_def)
  have lt: "unat now_ms mod q < q" using q by simp
  have "unat now_ms + (q - unat now_ms mod q) = q * (unat now_ms div q) + q"
    using mult_div_mod_eq[of q "unat now_ms"] lt by linarith
  then show ?thesis unfolding wait q_def[symmetric] using lt by simp
qed

end
