(* ===== verification/Sketch.thy ===== *)
theory Sketch
  imports Wire
begin

text \<open>
  The invertible Bloom lookup table of \<^verbatim>\<open>sundog/src/sketch.rs\<close>, with which anti-entropy
  reconciles a large bucket without listing it. A cell is a sum of signed elements, so cells
  form a commutative group: \<open>insert\<close> adds an element to its three cells, \<open>subtract\<close> is the
  group's difference and \<open>peel\<close> takes one element out at a time. The loop of \<open>peel\<close> is a
  \<^theory_text>\<open>partial_function\<close>, so that a run that does not end is \<^term>\<open>None\<close>.

  The positive theorem is about the difference of two honest sketches: the loop ends, and it
  decodes exactly the two set differences unless some elements overlap in every cell they
  touch. The negative one is about a sketch off the wire that no set of elements has: there
  the loop need not end.
\<close>

section \<open>Cells and elements\<close>

definition iblt_partitions :: nat where
  "iblt_partitions = 3"

definition partition_salts :: "u64 list" where
  "partition_salts = [0x9E3779B97F4A7C15, 0xC2B2AE3D27D4EB4F, 0x165667B19E3779F9]"

definition mix :: "externs \<Rightarrow> u64 \<Rightarrow> nat \<Rightarrow> u64" where
  "mix e placement_hash p = xxh3 e (to_le_bytes 8 (placement_hash XOR partition_salts ! p))"

definition check :: "externs \<Rightarrow> u64 \<Rightarrow> u64 \<Rightarrow> u32 \<Rightarrow> u64 \<Rightarrow> u64" where
  "check e key_hash wall lgc node =
     xxh3 e (to_le_bytes 8 key_hash @ to_le_bytes 8 wall @ to_le_bytes 4 lgc @ to_le_bytes 8 node)"

definition cell_index :: "nat \<Rightarrow> u64 \<Rightarrow> nat \<Rightarrow> nat" where
  "cell_index p mixed partition_len = p * partition_len + unat mixed mod partition_len"

text \<open>\<open>count\<close> is an \<^verbatim>\<open>i32\<close> with wrapping addition; \<open>- 1\<close> is the all-ones word.\<close>

datatype iblt_cell = Cell
  (cell_count: u32) (key_sum: u64) (wall_sum: u64) (logical_sum: u32) (node_sum: u64) (check_sum: u64)

datatype elem = Elem (el_key_hash: u64) (el_ver: hlc)

definition cell_default :: iblt_cell where
  "cell_default = Cell 0 0 0 0 0 0"

definition is_zero :: "iblt_cell \<Rightarrow> bool" where
  "is_zero c \<longleftrightarrow> cell_count c = 0 \<and> key_sum c = 0 \<and> wall_sum c = 0 \<and> logical_sum c = 0 \<and>
     node_sum c = 0 \<and> check_sum c = 0"

definition is_pure_and_valid :: "externs \<Rightarrow> iblt_cell \<Rightarrow> bool" where
  "is_pure_and_valid e c \<longleftrightarrow> (cell_count c = 1 \<or> cell_count c = - 1) \<and>
     check_sum c = check e (key_sum c) (wall_sum c) (logical_sum c) (node_sum c)"

definition claimed_elem :: "iblt_cell \<Rightarrow> elem" where
  "claimed_elem c = Elem (key_sum c) (Hlc (wall_sum c) (logical_sum c) (NodeId (node_sum c)))"

record decoded =
  only_left :: "elem list"
  only_right :: "elem list"

datatype undecodable = Undecodable

section \<open>The sketch and its operations\<close>

record iblt =
  ib_cells :: "iblt_cell list"
  ib_partition_len :: nat

definition iblt_new :: "nat \<Rightarrow> iblt" where
  "iblt_new cells =
     (let partition_len = max (cells div iblt_partitions) 1
      in \<lparr>ib_cells = replicate (partition_len * iblt_partitions) cell_default, ib_partition_len = partition_len\<rparr>)"

definition from_cells :: "iblt_cell list \<Rightarrow> iblt" where
  "from_cells cells = \<lparr>ib_cells = cells, ib_partition_len = length cells div iblt_partitions\<rparr>"

definition is_well_formed :: "iblt \<Rightarrow> bool" where
  "is_well_formed s \<longleftrightarrow> 0 < ib_partition_len s \<and> length (ib_cells s) = ib_partition_len s * iblt_partitions"

definition into_cells :: "iblt \<Rightarrow> iblt_cell list" where
  "into_cells s = ib_cells s"

definition locations :: "externs \<Rightarrow> nat \<Rightarrow> u64 \<Rightarrow> nat list" where
  "locations e partition_len placement_hash =
     map (\<lambda>p. cell_index p (mix e placement_hash p) partition_len) [0..<iblt_partitions]"

definition fold_in :: "u64 \<Rightarrow> hlc \<Rightarrow> u32 \<Rightarrow> u64 \<Rightarrow> iblt_cell \<Rightarrow> iblt_cell" where
  "fold_in key_hash ver sign c cell =
     Cell (cell_count cell + sign) (key_sum cell XOR key_hash) (wall_sum cell XOR wall_ms ver)
       (logical_sum cell XOR logical ver) (node_sum cell XOR as_u64 (hlc_node ver)) (check_sum cell XOR c)"

definition iblt_apply :: "externs \<Rightarrow> u64 \<Rightarrow> hlc \<Rightarrow> u32 \<Rightarrow> iblt \<Rightarrow> iblt" where
  "iblt_apply e key_hash ver sign s =
     (if \<not> is_well_formed s then s
      else let c = check e key_hash (wall_ms ver) (logical ver) (as_u64 (hlc_node ver))
           in s\<lparr>ib_cells := foldl (\<lambda>cells idx. cells[idx := fold_in key_hash ver sign c (cells ! idx)])
                  (ib_cells s) (locations e (ib_partition_len s) c)\<rparr>)"

definition iblt_insert :: "externs \<Rightarrow> u64 \<Rightarrow> hlc \<Rightarrow> iblt \<Rightarrow> iblt" where
  "iblt_insert e key_hash ver s = iblt_apply e key_hash ver 1 s"

definition cell_subtract :: "iblt_cell \<Rightarrow> iblt_cell \<Rightarrow> iblt_cell" where
  "cell_subtract a b =
     Cell (cell_count a - cell_count b) (key_sum a XOR key_sum b) (wall_sum a XOR wall_sum b)
       (logical_sum a XOR logical_sum b) (node_sum a XOR node_sum b) (check_sum a XOR check_sum b)"

definition iblt_subtract :: "iblt \<Rightarrow> iblt \<Rightarrow> undecodable + iblt" where
  "iblt_subtract s t =
     (if \<not> is_well_formed s \<or> length (ib_cells s) \<noteq> length (ib_cells t) then Inl Undecodable
      else Inr \<lparr>ib_cells = map (\<lambda>(a, b). cell_subtract a b) (zip (ib_cells s) (ib_cells t)),
                ib_partition_len = ib_partition_len s\<rparr>)"

text \<open>
  One target of the inner loop of \<open>peel\<close>: the element \<open>x\<close> leaves the cell, and the cell is
  queued when it is pure now.
\<close>

definition take_out :: "elem \<Rightarrow> u32 \<Rightarrow> u64 \<Rightarrow> iblt_cell \<Rightarrow> iblt_cell" where
  "take_out x sign placement_hash c =
     Cell (cell_count c - sign) (key_sum c XOR el_key_hash x) (wall_sum c XOR wall_ms (el_ver x))
       (logical_sum c XOR logical (el_ver x)) (node_sum c XOR as_u64 (hlc_node (el_ver x)))
       (check_sum c XOR placement_hash)"

definition peel_target ::
  "externs \<Rightarrow> elem \<Rightarrow> u32 \<Rightarrow> u64 \<Rightarrow> iblt_cell list \<times> nat list \<Rightarrow> nat \<Rightarrow> iblt_cell list \<times> nat list" where
  "peel_target e x sign placement_hash st target =
     (let cells = (fst st)[target := take_out x sign placement_hash (fst st ! target)]
      in (cells, if is_pure_and_valid e (cells ! target) then snd st @ [target] else snd st))"

partial_function (option) peel_loop ::
  "externs \<Rightarrow> nat \<Rightarrow> iblt_cell list \<Rightarrow> nat list \<Rightarrow> elem list \<Rightarrow> elem list \<Rightarrow> (iblt_cell list \<times> elem list \<times> elem list) option" where
  "peel_loop e partition_len cells queue left right =
     (case queue of
        [] \<Rightarrow> Some (cells, left, right)
      | idx # queue \<Rightarrow>
          let cell = cells ! idx
          in if \<not> is_pure_and_valid e cell then peel_loop e partition_len cells queue left right
             else let x = claimed_elem cell;
                      sign = cell_count cell;
                      placement_hash = check_sum cell;
                      st = foldl (peel_target e x sign placement_hash) (cells, queue)
                             (locations e partition_len placement_hash)
                  in if sign = 1 then peel_loop e partition_len (fst st) (snd st) (left @ [x]) right
                     else peel_loop e partition_len (fst st) (snd st) left (right @ [x]))"

definition peel :: "externs \<Rightarrow> iblt \<Rightarrow> (undecodable + decoded) option" where
  "peel e s =
     (if \<not> is_well_formed s then Some (Inl Undecodable)
      else case peel_loop e (ib_partition_len s) (ib_cells s)
                  (filter (\<lambda>idx. is_pure_and_valid e (ib_cells s ! idx)) [0..<length (ib_cells s)]) [] [] of
             None \<Rightarrow> None
           | Some (cells, left, right) \<Rightarrow>
               Some (if list_all is_zero cells then Inr \<lparr>only_left = left, only_right = right\<rparr>
                     else Inl Undecodable))"

section \<open>Cells as a group\<close>

instantiation iblt_cell :: ab_group_add
begin

definition zero_iblt_cell :: iblt_cell where
  "zero_iblt_cell = cell_default"

definition plus_iblt_cell :: "iblt_cell \<Rightarrow> iblt_cell \<Rightarrow> iblt_cell" where
  "plus_iblt_cell a b =
     Cell (cell_count a + cell_count b) (key_sum a XOR key_sum b) (wall_sum a XOR wall_sum b)
       (logical_sum a XOR logical_sum b) (node_sum a XOR node_sum b) (check_sum a XOR check_sum b)"

definition uminus_iblt_cell :: "iblt_cell \<Rightarrow> iblt_cell" where
  "uminus_iblt_cell a = Cell (- cell_count a) (key_sum a) (wall_sum a) (logical_sum a) (node_sum a) (check_sum a)"

definition minus_iblt_cell :: "iblt_cell \<Rightarrow> iblt_cell \<Rightarrow> iblt_cell" where
  "minus_iblt_cell a b = cell_subtract a b"

instance
  by standard
    (auto simp: zero_iblt_cell_def plus_iblt_cell_def uminus_iblt_cell_def minus_iblt_cell_def cell_subtract_def cell_default_def
      ac_simps xor.assoc xor.commute xor.left_commute intro!: iblt_cell.expand)

end

lemma is_zero_iff: "is_zero c \<longleftrightarrow> c = 0"
  by (cases c) (auto simp: is_zero_def zero_iblt_cell_def cell_default_def)

text \<open>The cell that holds one element with a sign, and nothing else.\<close>

definition elem_check :: "externs \<Rightarrow> elem \<Rightarrow> u64" where
  "elem_check e x =
     check e (el_key_hash x) (wall_ms (el_ver x)) (logical (el_ver x)) (as_u64 (hlc_node (el_ver x)))"

definition elem_cell :: "externs \<Rightarrow> elem \<Rightarrow> iblt_cell" where
  "elem_cell e x = Cell 1 (el_key_hash x) (wall_ms (el_ver x)) (logical (el_ver x))
     (as_u64 (hlc_node (el_ver x))) (elem_check e x)"

lemma claimed_elem_cell [simp]:
  "claimed_elem (elem_cell e x) = x" "claimed_elem (- elem_cell e x) = x"
  by (cases x; cases "el_ver x"; simp add: claimed_elem_def elem_cell_def uminus_iblt_cell_def)+

lemma pure_elem_cell [simp]:
  "is_pure_and_valid e (elem_cell e x)" "is_pure_and_valid e (- elem_cell e x)"
  by (simp_all add: is_pure_and_valid_def elem_cell_def uminus_iblt_cell_def elem_check_def)

lemma check_sum_elem_cell [simp]:
  "check_sum (elem_cell e x) = elem_check e x" "check_sum (- elem_cell e x) = elem_check e x"
  "cell_count (elem_cell e x) = 1" "cell_count (- elem_cell e x) = - 1"
  by (simp_all add: elem_cell_def uminus_iblt_cell_def)

lemma not_pure_zero [simp]: "\<not> is_pure_and_valid e 0"
  by (simp add: is_pure_and_valid_def zero_iblt_cell_def cell_default_def)

lemma fold_in_eq:
  "fold_in (el_key_hash x) (el_ver x) 1 (elem_check e x) c = c + elem_cell e x"
  by (simp add: fold_in_def plus_iblt_cell_def elem_cell_def)

text \<open>A pure cell is taken out of its targets by subtracting it from each of them.\<close>

lemma take_out_eq: "take_out (claimed_elem c) (cell_count c) (check_sum c) d = d - c"
  by (simp add: take_out_def claimed_elem_def minus_iblt_cell_def cell_subtract_def)


section \<open>Placement\<close>

lemma locations_eq:
  "locations e n h = [cell_index 0 (mix e h 0) n, cell_index 1 (mix e h 1) n, cell_index 2 (mix e h 2) n]"
  by (simp add: locations_def iblt_partitions_def upt_rec numeral_2_eq_2)

lemma cell_index_bounds:
  "0 < n \<Longrightarrow> p * n \<le> cell_index p m n" "0 < n \<Longrightarrow> cell_index p m n < p * n + n"
  by (simp_all add: cell_index_def)

lemma locations_distinct: "0 < n \<Longrightarrow> distinct (locations e n h)"
  using cell_index_bounds[of n 0 "mix e h 0"] cell_index_bounds[of n 1 "mix e h 1"]
    cell_index_bounds[of n 2 "mix e h 2"] by (simp add: locations_eq)

lemma locations_bound: "0 < n \<Longrightarrow> i \<in> set (locations e n h) \<Longrightarrow> i < n * iblt_partitions"
  using cell_index_bounds[of n 0 "mix e h 0"] cell_index_bounds[of n 1 "mix e h 1"]
    cell_index_bounds[of n 2 "mix e h 2"] by (auto simp: locations_eq iblt_partitions_def)

abbreviation elem_locs :: "externs \<Rightarrow> nat \<Rightarrow> elem \<Rightarrow> nat list" where
  "elem_locs e n x \<equiv> locations e n (elem_check e x)"

text \<open>Updating each of a list of distinct cells once.\<close>

lemma foldl_update_cells:
  assumes "distinct ts" and "\<forall>t\<in>set ts. t < length cells"
  shows "foldl (\<lambda>cells t. cells[t := f (cells ! t)]) cells ts
       = map (\<lambda>i. if i \<in> set ts then f (cells ! i) else cells ! i) [0..<length cells]"
  using assms
proof (induction ts arbitrary: cells)
  case Nil
  then show ?case by (simp add: map_nth)
next
  case (Cons t ts)
  then show ?case by (auto intro!: nth_equalityI simp: nth_list_update)
qed

text \<open>
  Peeling a pure cell out of its locations: the queue grows by the locations that are pure
  afterwards, in order.
\<close>

lemma foldl_peel_target:
  assumes "distinct ts" and "\<forall>t\<in>set ts. t < length cells"
  shows "foldl (peel_target e (claimed_elem c) (cell_count c) (check_sum c)) (cells, queue) ts
       = (map (\<lambda>i. if i \<in> set ts then cells ! i - c else cells ! i) [0..<length cells],
          queue @ filter (\<lambda>t. is_pure_and_valid e (cells ! t - c)) ts)"
  using assms
proof (induction ts arbitrary: cells queue)
  case Nil
  then show ?case by (simp add: map_nth)
next
  case (Cons t ts)
  have step: "peel_target e (claimed_elem c) (cell_count c) (check_sum c) (cells, queue) t
    = (cells[t := cells ! t - c],
       if is_pure_and_valid e (cells ! t - c) then queue @ [t] else queue)"
    using Cons.prems by (simp add: peel_target_def take_out_eq)
  have rest: "filter (\<lambda>s. is_pure_and_valid e (cells[t := cells ! t - c] ! s - c)) ts
    = filter (\<lambda>s. is_pure_and_valid e (cells ! s - c)) ts"
    using Cons.prems by (intro filter_cong refl) (metis distinct.simps(2) nth_list_update_neq)
  have upd: "map (\<lambda>i. if i \<in> set ts then cells[t := cells ! t - c] ! i - c else cells[t := cells ! t - c] ! i) [0..<length cells]
    = map (\<lambda>i. if i \<in> set (t # ts) then cells ! i - c else cells ! i) [0..<length cells]"
    using Cons.prems by (auto simp: nth_list_update)
  have "foldl (peel_target e (claimed_elem c) (cell_count c) (check_sum c)) (cells[t := cells ! t - c], q) ts
    = (map (\<lambda>i. if i \<in> set (t # ts) then cells ! i - c else cells ! i) [0..<length cells],
       q @ filter (\<lambda>s. is_pure_and_valid e (cells ! s - c)) ts)" for q
    using Cons.IH[of "cells[t := cells ! t - c]" q] Cons.prems unfolding rest length_list_update upd by simp
  then show ?case unfolding foldl_Cons step by simp
qed

section \<open>Honest sketches\<close>

text \<open>
  The elements of \<open>D\<close> a cell holds, and the sum a cell is: an element that came from the right
  side counts negatively.
\<close>

definition holders :: "externs \<Rightarrow> nat \<Rightarrow> elem set \<Rightarrow> nat \<Rightarrow> elem set" where
  "holders e n D i = {x \<in> D. i \<in> set (elem_locs e n x)}"

definition signed_cell :: "externs \<Rightarrow> elem set \<Rightarrow> elem \<Rightarrow> iblt_cell" where
  "signed_cell e right x = (if x \<in> right then - elem_cell e x else elem_cell e x)"

abbreviation net :: "externs \<Rightarrow> elem set \<Rightarrow> elem set \<Rightarrow> iblt_cell" where
  "net e right D \<equiv> sum (signed_cell e right) D"

definition represents :: "externs \<Rightarrow> nat \<Rightarrow> elem set \<Rightarrow> elem set \<Rightarrow> iblt_cell list \<Rightarrow> bool" where
  "represents e n right D cells \<longleftrightarrow> length cells = n * iblt_partitions \<and>
     (\<forall>i < n * iblt_partitions. cells ! i = net e right (holders e n D i))"

text \<open>
  The checksum tells a real element from an accidental combination: among the elements of \<open>D\<close>,
  no sum of several is taken for one, and none cancels.
\<close>

definition no_accident :: "externs \<Rightarrow> elem set \<Rightarrow> elem set \<Rightarrow> bool" where
  "no_accident e right D \<longleftrightarrow> (\<forall>D'\<in>Pow D.
     (is_pure_and_valid e (net e right D') \<longrightarrow> card D' = 1) \<and> (net e right D' = 0 \<longrightarrow> D' = {}))"

text \<open>A set of elements stalls the peel when each of them shares each of its cells with another.\<close>

definition stalls :: "externs \<Rightarrow> nat \<Rightarrow> elem set \<Rightarrow> bool" where
  "stalls e n D \<longleftrightarrow> (\<forall>x\<in>D. \<forall>i\<in>set (elem_locs e n x). \<exists>y\<in>D. y \<noteq> x \<and> i \<in> set (elem_locs e n y))"

lemma holders_subset: "holders e n D i \<subseteq> D"
  by (auto simp: holders_def)

lemma finite_holders: "finite D \<Longrightarrow> finite (holders e n D i)"
  by (rule finite_subset[OF holders_subset])

lemma holders_remove: "holders e n (D - {x}) i = holders e n D i - {x}"
  by (auto simp: holders_def)

lemma signed_cell_simps [simp]:
  "is_pure_and_valid e (signed_cell e right x)" "claimed_elem (signed_cell e right x) = x"
  "check_sum (signed_cell e right x) = elem_check e x"
  "cell_count (signed_cell e right x) = 1 \<longleftrightarrow> x \<notin> right"
  by (simp_all add: signed_cell_def)

text \<open>A pure cell of an honest sketch holds one element, and is that element's cell.\<close>

lemma pure_cell_single:
  assumes "no_accident e right D0" "D \<subseteq> D0" "represents e n right D cells" "i < n * iblt_partitions"
    and "is_pure_and_valid e (cells ! i)"
  obtains x where "holders e n D i = {x}" "cells ! i = signed_cell e right x" "x \<in> D" "i \<in> set (elem_locs e n x)"
proof -
  have "cells ! i = net e right (holders e n D i)" using assms by (simp add: represents_def)
  moreover have "holders e n D i \<in> Pow D0" using holders_subset assms(2) by blast
  ultimately have "card (holders e n D i) = 1"
    using assms(1,5) unfolding no_accident_def by metis
  then obtain x where x: "holders e n D i = {x}" by (meson card_1_singletonE)
  then have "x \<in> D" "i \<in> set (elem_locs e n x)" by (auto simp: holders_def)
  with x that \<open>cells ! i = _\<close> show thesis by simp
qed

lemma represents_remove:
  assumes "finite D" "x \<in> D" "represents e n right D cells"
  shows "represents e n right (D - {x})
    (map (\<lambda>i. if i \<in> set (elem_locs e n x) then cells ! i - signed_cell e right x else cells ! i) [0..<length cells])"
proof -
  have "net e right (holders e n (D - {x}) i) =
    (if i \<in> set (elem_locs e n x) then net e right (holders e n D i) - signed_cell e right x
     else net e right (holders e n D i))" for i
    unfolding holders_remove using assms(2) finite_holders[OF assms(1), of e n i]
    by (auto simp: sum_diff1 holders_def)
  then show ?thesis using assms(3) by (simp add: represents_def)
qed


section \<open>The loop on an honest difference\<close>

text \<open>One turn of the loop, with what runs after it as a parameter.\<close>

definition peel_turn ::
  "externs \<Rightarrow> nat \<Rightarrow> (iblt_cell list \<Rightarrow> nat list \<Rightarrow> elem list \<Rightarrow> elem list \<Rightarrow> (iblt_cell list \<times> elem list \<times> elem list) option) \<Rightarrow>
   iblt_cell list \<Rightarrow> nat list \<Rightarrow> elem list \<Rightarrow> elem list \<Rightarrow> (iblt_cell list \<times> elem list \<times> elem list) option" where
  "peel_turn e partition_len k cells queue left right =
     (case queue of
        [] \<Rightarrow> Some (cells, left, right)
      | idx # queue \<Rightarrow>
          let cell = cells ! idx
          in if \<not> is_pure_and_valid e cell then k cells queue left right
             else let x = claimed_elem cell;
                      sign = cell_count cell;
                      placement_hash = check_sum cell;
                      st = foldl (peel_target e x sign placement_hash) (cells, queue)
                             (locations e partition_len placement_hash)
                  in if sign = 1 then k (fst st) (snd st) (left @ [x]) right
                     else k (fst st) (snd st) left (right @ [x]))"

lemma peel_loop_turn: "peel_loop e n cells queue left right = peel_turn e n (peel_loop e n) cells queue left right"
  unfolding peel_turn_def by (rule peel_loop.simps)

lemma peel_loop_ends_induct:
  assumes "peel_loop e n cells queue left right = Some r"
    and "\<And>k cells queue left right r.
      (\<And>cells queue left right r. k cells queue left right = Some r \<Longrightarrow> P cells queue) \<Longrightarrow>
      peel_turn e n k cells queue left right = Some r \<Longrightarrow> P cells queue"
  shows "P cells queue"
proof -
  have "e = e \<and> n = n \<longrightarrow> P cells queue"
  proof (rule peel_loop.raw_induct[OF _ assms(1), of "\<lambda>e' n' cells queue left right r. e' = e \<and> n' = n \<longrightarrow> P cells queue"],
      intro impI, elim conjE)
    fix f e' n' cells queue left right r
    assume ih: "\<And>e' n' cells queue left right y. f e' n' cells queue left right = Some y \<Longrightarrow> e' = e \<and> n' = n \<longrightarrow> P cells queue"
      and body: "(case queue of [] \<Rightarrow> Some (cells, left, right)
        | idx # queue \<Rightarrow> let cell = cells ! idx
            in if \<not> is_pure_and_valid e' cell then f e' n' cells queue left right
               else let x = claimed_elem cell; sign = cell_count cell; placement_hash = check_sum cell;
                        st = foldl (peel_target e' x sign placement_hash) (cells, queue) (locations e' n' placement_hash)
                    in if sign = 1 then f e' n' (fst st) (snd st) (left @ [x]) right
                       else f e' n' (fst st) (snd st) left (right @ [x])) = Some r"
      and eqs: "e' = e" "n' = n"
    show "P cells queue"
    proof (rule assms(2))
      show "peel_turn e n (f e n) cells queue left right = Some r"
        using body unfolding eqs peel_turn_def .
      show "P cells queue" if "f e n cells queue left right = Some r" for cells queue left right r
        using ih[OF that] by simp
    qed
  qed
  then show ?thesis by simp
qed

lemma peel_turn_Nil: "peel_turn e n k cells [] left right = Some (cells, left, right)"
  by (simp add: peel_turn_def)

lemma peel_turn_skip:
  "\<not> is_pure_and_valid e (cells ! i) \<Longrightarrow> peel_turn e n k cells (i # queue) left right = k cells queue left right"
  by (simp add: peel_turn_def)

lemma peel_turn_step:
  assumes "0 < n" "length cells = n * iblt_partitions" "cells ! i = signed_cell e R x"
  shows "peel_turn e n k cells (i # queue) left right =
    k (map (\<lambda>j. if j \<in> set (elem_locs e n x) then cells ! j - signed_cell e R x else cells ! j) [0..<length cells])
      (queue @ filter (\<lambda>t. is_pure_and_valid e (cells ! t - signed_cell e R x)) (elem_locs e n x))
      (if x \<in> R then left else left @ [x]) (if x \<in> R then right @ [x] else right)"
proof -
  have fold: "foldl (peel_target e x (cell_count (signed_cell e R x)) (elem_check e x)) (cells, queue) (elem_locs e n x)
    = (map (\<lambda>j. if j \<in> set (elem_locs e n x) then cells ! j - signed_cell e R x else cells ! j) [0..<length cells],
       queue @ filter (\<lambda>t. is_pure_and_valid e (cells ! t - signed_cell e R x)) (elem_locs e n x))"
    using foldl_peel_target[OF locations_distinct[OF assms(1)], of e "elem_check e x" cells e "signed_cell e R x" queue]
      locations_bound[OF assms(1)] assms(2) by simp
  show ?thesis by (simp add: peel_turn_def assms(3) fold Let_def)
qed

lemmas peel_loop_Nil = trans[OF peel_loop_turn peel_turn_Nil]
lemmas peel_loop_skip = trans[OF peel_loop_turn peel_turn_skip]
lemmas peel_loop_step = trans[OF peel_loop_turn peel_turn_step]

text \<open>What a run of the loop has done: the elements it took out, by side, and the ones it left.\<close>

definition peeled :: "elem set \<Rightarrow> elem set \<Rightarrow> elem set \<Rightarrow> elem list \<Rightarrow> elem list \<Rightarrow> bool" where
  "peeled R D D' ls rs \<longleftrightarrow> D' \<subseteq> D \<and> distinct ls \<and> distinct rs \<and> set ls = D - D' - R \<and> set rs = (D - D') \<inter> R"

definition queue_ok :: "externs \<Rightarrow> nat \<Rightarrow> iblt_cell list \<Rightarrow> nat list \<Rightarrow> bool" where
  "queue_ok e n cells queue \<longleftrightarrow> (\<forall>i\<in>set queue. i < n * iblt_partitions) \<and>
     (\<forall>i < n * iblt_partitions. is_pure_and_valid e (cells ! i) \<longrightarrow> i \<in> set queue)"

lemma peeled_first:
  assumes "x \<in> D" "peeled R (D - {x}) D' ls rs"
  shows "peeled R D D' (if x \<in> R then ls else x # ls) (if x \<in> R then x # rs else rs)"
  using assms by (auto simp: peeled_def)

lemma queue_ok_step:
  assumes "0 < n" "queue_ok e n cells (i # queue)" "i \<in> set ts" "\<forall>t\<in>set ts. t < n * iblt_partitions"
    and "length cells = n * iblt_partitions"
  shows "queue_ok e n (map (\<lambda>j. if j \<in> set ts then cells ! j - c else cells ! j) [0..<length cells])
    (queue @ filter (\<lambda>t. is_pure_and_valid e (cells ! t - c)) ts)"
  using assms by (auto simp: queue_ok_def)

text \<open>The loop ends, with the elements that are left in its cells and no pure cell among them.\<close>

definition peel_ends ::
  "externs \<Rightarrow> nat \<Rightarrow> elem set \<Rightarrow> elem set \<Rightarrow> iblt_cell list \<Rightarrow> nat list \<Rightarrow> elem list \<Rightarrow> elem list \<Rightarrow> bool" where
  "peel_ends e n R D cells queue left right \<longleftrightarrow>
     (\<exists>cells' D' ls rs. peel_loop e n cells queue left right = Some (cells', left @ ls, right @ rs) \<and>
        peeled R D D' ls rs \<and> represents e n R D' cells' \<and> queue_ok e n cells' [] \<and>
        (\<forall>C. C \<subseteq> D \<and> stalls e n C \<longrightarrow> C \<subseteq> D'))"

lemma stall_avoids_pure:
  assumes "holders e n D i = {x}" "i \<in> set (elem_locs e n x)" "C \<subseteq> D" "stalls e n C"
  shows "x \<notin> C"
proof
  assume "x \<in> C"
  then obtain y where "y \<in> C" "y \<noteq> x" "i \<in> set (elem_locs e n y)"
    using assms(2,4) unfolding stalls_def by blast
  then have "y \<in> holders e n D i" using assms(3) by (auto simp: holders_def)
  with assms(1) \<open>y \<noteq> x\<close> show False by blast
qed

lemma peel_ends_step:
  assumes "0 < n" "length cells = n * iblt_partitions"
    and "holders e n D i = {x}" "cells ! i = signed_cell e R x" "x \<in> D" "i \<in> set (elem_locs e n x)"
    and "peel_ends e n R (D - {x})
      (map (\<lambda>j. if j \<in> set (elem_locs e n x) then cells ! j - signed_cell e R x else cells ! j) [0..<length cells])
      (queue @ filter (\<lambda>t. is_pure_and_valid e (cells ! t - signed_cell e R x)) (elem_locs e n x))
      (if x \<in> R then left else left @ [x]) (if x \<in> R then right @ [x] else right)"
  shows "peel_ends e n R D cells (i # queue) left right"
proof -
  obtain cells' D' ls rs where run: "peel_loop e n cells (i # queue) left right
      = Some (cells', (if x \<in> R then left else left @ [x]) @ ls, (if x \<in> R then right @ [x] else right) @ rs)"
    and pl: "peeled R (D - {x}) D' ls rs" and rest: "represents e n R D' cells'" "queue_ok e n cells' []"
    and core: "\<forall>C. C \<subseteq> D - {x} \<and> stalls e n C \<longrightarrow> C \<subseteq> D'"
    using assms(7) unfolding peel_ends_def peel_loop_step[OF assms(1,2,4), symmetric] by (elim exE conjE)
  have "C \<subseteq> D'" if "C \<subseteq> D" "stalls e n C" for C
    using core stall_avoids_pure[OF assms(3,6) that] that by blast
  moreover have "peel_loop e n cells (i # queue) left right
    = Some (cells', left @ (if x \<in> R then ls else x # ls), right @ (if x \<in> R then x # rs else rs))"
    using run by simp
  ultimately show ?thesis
    unfolding peel_ends_def using peeled_first[OF assms(5) pl] rest by metis
qed

lemma peel_loop_honest:
  assumes "0 < n" "no_accident e R D0" "finite D0"
  shows "D \<subseteq> D0 \<Longrightarrow> represents e n R D cells \<Longrightarrow> queue_ok e n cells queue \<Longrightarrow> peel_ends e n R D cells queue left right"
proof (induction "4 * card D + length queue" arbitrary: D cells queue left right rule: less_induct)
  case (less D queue cells left right)
  have fin: "finite D" using less.prems(1) assms(3) by (rule finite_subset)
  have len: "length cells = n * iblt_partitions" using less.prems(2) by (simp add: represents_def)
  show ?case
  proof (cases queue)
    case Nil
    with less.prems(2,3) show ?thesis
      unfolding peel_ends_def peeled_def peel_loop_Nil
      by (intro exI[of _ cells] exI[of _ D] exI[of _ "[]"]) (simp add: peel_loop_Nil)
  next
    case (Cons i q)
    show ?thesis
    proof (cases "is_pure_and_valid e (cells ! i)")
      case False
      have "queue_ok e n cells q"
        using less.prems(3) Cons False by (auto simp: queue_ok_def)
      then have "peel_ends e n R D cells q left right" using Cons less.prems by (intro less.hyps) auto
      then show ?thesis
        unfolding Cons peel_ends_def peel_loop_skip[OF False] .
    next
      case True
      have i: "i < n * iblt_partitions" using less.prems(3) Cons by (simp add: queue_ok_def)
      obtain x where x: "holders e n D i = {x}" "cells ! i = signed_cell e R x" "x \<in> D" "i \<in> set (elem_locs e n x)"
        using pure_cell_single[OF assms(2) less.prems(1,2) i True] .
      have qok: "queue_ok e n
        (map (\<lambda>j. if j \<in> set (elem_locs e n x) then cells ! j - signed_cell e R x else cells ! j) [0..<length cells])
        (q @ filter (\<lambda>t. is_pure_and_valid e (cells ! t - signed_cell e R x)) (elem_locs e n x))"
        using queue_ok_step[OF assms(1) less.prems(3)[unfolded Cons] x(4) _ len] locations_bound[OF assms(1)] by blast
      have "card D = Suc (card (D - {x}))" using fin x(3) by (metis card_Suc_Diff1)
      then have "4 * card (D - {x}) + length (q @ filter (\<lambda>t. is_pure_and_valid e (cells ! t - signed_cell e R x)) (elem_locs e n x))
        < 4 * card D + length queue"
        using Cons length_filter_le[of "\<lambda>t. is_pure_and_valid e (cells ! t - signed_cell e R x)" "elem_locs e n x"]
        by (simp add: locations_eq)
      then show ?thesis
        unfolding Cons using less.prems(1)
        by (intro peel_ends_step[OF assms(1) len x] less.hyps represents_remove[OF fin x(3) less.prems(2)] qok) (auto simp: Cons)
    qed
  qed
qed


section \<open>Decoding a difference\<close>

text \<open>The sketch a side builds of its bucket, by one insertion per element.\<close>

definition sketch_of :: "externs \<Rightarrow> nat \<Rightarrow> elem list \<Rightarrow> iblt" where
  "sketch_of e cells xs = foldl (\<lambda>s x. iblt_insert e (el_key_hash x) (el_ver x) s) (iblt_new cells) xs"

abbreviation sketch_len :: "nat \<Rightarrow> nat" where
  "sketch_len cells \<equiv> max (cells div iblt_partitions) 1"

definition honest :: "externs \<Rightarrow> nat \<Rightarrow> elem set \<Rightarrow> iblt \<Rightarrow> bool" where
  "honest e n D s \<longleftrightarrow> 0 < n \<and> ib_partition_len s = n \<and> represents e n {} D (ib_cells s)"

lemma honest_well_formed: "honest e n D s \<Longrightarrow> is_well_formed s"
  by (simp add: honest_def is_well_formed_def represents_def)

lemma honest_new: "honest e (sketch_len cells) {} (iblt_new cells)"
  by (simp add: honest_def iblt_new_def represents_def holders_def Let_def zero_iblt_cell_def)

lemma honest_insert:
  assumes "honest e n D s" "x \<notin> D" "finite D"
  shows "honest e n (insert x D) (iblt_insert e (el_key_hash x) (el_ver x) s)"
proof -
  have n: "0 < n" "ib_partition_len s = n" and rep: "represents e n {} D (ib_cells s)"
    using assms(1) by (simp_all add: honest_def)
  have len: "length (ib_cells s) = n * iblt_partitions" using rep by (simp add: represents_def)
  have cells: "ib_cells (iblt_insert e (el_key_hash x) (el_ver x) s)
    = map (\<lambda>i. if i \<in> set (elem_locs e n x) then ib_cells s ! i + elem_cell e x else ib_cells s ! i)
        [0..<length (ib_cells s)]"
    using honest_well_formed[OF assms(1)]
      foldl_update_cells[OF locations_distinct[OF n(1)], of e "elem_check e x" "ib_cells s" "\<lambda>c. c + elem_cell e x"]
      locations_bound[OF n(1)] len
    by (simp add: iblt_insert_def iblt_apply_def Let_def fold_in_eq n(2) elem_check_def[symmetric])
  have plen: "ib_partition_len (iblt_insert e (el_key_hash x) (el_ver x) s) = n"
    by (simp add: iblt_insert_def iblt_apply_def Let_def n(2))
  have "net e {} (holders e n (insert x D) i) =
    (if i \<in> set (elem_locs e n x) then net e {} (holders e n D i) + elem_cell e x else net e {} (holders e n D i))" for i
  proof -
    have "holders e n (insert x D) i
        = (if i \<in> set (elem_locs e n x) then insert x (holders e n D i) else holders e n D i)"
      by (auto simp: holders_def)
    moreover have "x \<notin> holders e n D i" using assms(2) by (simp add: holders_def)
    ultimately show ?thesis
      using finite_holders[OF assms(3), of e n i] by (simp add: signed_cell_def add.commute)
  qed
  then show ?thesis
    using rep len by (simp add: honest_def n(1) plen cells represents_def)
qed

lemma honest_sketch: "distinct xs \<Longrightarrow> honest e (sketch_len cells) (set xs) (sketch_of e cells xs)"
proof (induction xs rule: rev_induct)
  case Nil
  then show ?case using honest_new by (simp add: sketch_of_def)
next
  case (snoc x xs)
  then show ?case using honest_insert[of e _ "set xs" _ x] by (simp add: sketch_of_def)
qed

text \<open>Subtraction leaves the elements on one side only, those of the right side negative.\<close>

lemma net_difference:
  assumes "finite S" "finite T"
  shows "net e {} S - net e {} T = net e T ((S - T) \<union> (T - S))"
proof -
  have "net e {} S = net e {} (S - T) + net e {} (S \<inter> T)" "net e {} T = net e {} (T - S) + net e {} (S \<inter> T)"
    using sum.Int_Diff[OF assms(1), of "signed_cell e {}" T] sum.Int_Diff[OF assms(2), of "signed_cell e {}" S]
    by (simp_all add: Int_commute add.commute)
  moreover have "net e T (S - T) = net e {} (S - T)"
    by (rule sum.cong) (auto simp: signed_cell_def)
  moreover have "net e T (T - S) = - net e {} (T - S)"
    unfolding sum_negf[symmetric] by (rule sum.cong) (auto simp: signed_cell_def)
  moreover have "net e T ((S - T) \<union> (T - S)) = net e T (S - T) + net e T (T - S)"
    using assms by (intro sum.union_disjoint) auto
  ultimately show ?thesis by simp
qed

lemma subtract_honest:
  assumes "honest e n S s" "honest e n T t" "finite S" "finite T"
  obtains d where "iblt_subtract s t = Inr d" "ib_partition_len d = n" "is_well_formed d"
    "represents e n T ((S - T) \<union> (T - S)) (ib_cells d)"
proof -
  let ?d = "\<lparr>ib_cells = map (\<lambda>(a, b). cell_subtract a b) (zip (ib_cells s) (ib_cells t)), ib_partition_len = n\<rparr>"
  have "holders e n ((S - T) \<union> (T - S)) i
      = (holders e n S i - holders e n T i) \<union> (holders e n T i - holders e n S i)" for i
    by (auto simp: holders_def)
  moreover have "net e (holders e n T i) D = net e T D" if "D \<subseteq> (holders e n S i - holders e n T i) \<union> (holders e n T i - holders e n S i)" for D i
    using that by (intro sum.cong) (auto simp: signed_cell_def holders_def)
  ultimately have "net e {} (holders e n S i) - net e {} (holders e n T i) = net e T (holders e n ((S - T) \<union> (T - S)) i)" for i
    using net_difference[OF finite_holders[OF assms(3)] finite_holders[OF assms(4)], of e e n i e n i] by simp
  then have "represents e n T ((S - T) \<union> (T - S)) (ib_cells ?d)"
    using assms(1,2) by (simp add: honest_def represents_def minus_iblt_cell_def[symmetric])
  with that[of ?d] assms(1,2) honest_well_formed[OF assms(1)] show thesis
    by (simp add: iblt_subtract_def honest_def represents_def is_well_formed_def)
qed


lemma no_pure_cell_stalls:
  assumes "represents e n R D cells" "queue_ok e n cells []" "0 < n"
  shows "stalls e n D"
  unfolding stalls_def
proof (intro ballI)
  fix x i assume x: "x \<in> D" and i: "i \<in> set (elem_locs e n x)"
  have lt: "i < n * iblt_partitions" by (rule locations_bound[OF assms(3) i])
  show "\<exists>y\<in>D. y \<noteq> x \<and> i \<in> set (elem_locs e n y)"
  proof (rule ccontr)
    assume "\<not> ?thesis"
    then have "holders e n D i = {x}" using x i by (auto simp: holders_def)
    then have "cells ! i = signed_cell e R x" using assms(1) lt by (simp add: represents_def)
    with assms(2) lt show False by (auto simp: queue_ok_def)
  qed
qed

lemma all_zero_iff_empty:
  assumes "represents e n R D cells" "no_accident e R D" "0 < n"
  shows "list_all is_zero cells \<longleftrightarrow> D = {}"
proof
  assume "D = {}"
  then show "list_all is_zero cells"
    using assms(1) by (simp add: represents_def holders_def is_zero_iff list_all_length)
next
  assume zero: "list_all is_zero cells"
  show "D = {}"
  proof (rule ccontr)
    assume "D \<noteq> {}"
    then obtain x where x: "x \<in> D" by blast
    obtain i where i: "i \<in> set (elem_locs e n x)" by (auto simp: locations_eq)
    have "cells ! i = net e R (holders e n D i)" "cells ! i = 0"
      using assms(1) zero locations_bound[OF assms(3) i] by (auto simp: represents_def list_all_length is_zero_iff)
    then have "holders e n D i = {}"
      using assms(2) holders_subset[of e n D i] unfolding no_accident_def by (metis PowI)
    with x i show False by (auto simp: holders_def)
  qed
qed

lemma no_accident_mono: "no_accident e R D \<Longrightarrow> D' \<subseteq> D \<Longrightarrow> no_accident e R D'"
  unfolding no_accident_def by blast

lemma peel_honest:
  assumes "is_well_formed d" "ib_partition_len d = n" "represents e n R D (ib_cells d)"
    and "finite D" "no_accident e R D"
  shows "\<exists>r. peel e d = Some r \<and>
    (case r of Inl _ \<Rightarrow> True
     | Inr x \<Rightarrow> distinct (only_left x) \<and> distinct (only_right x) \<and> set (only_left x) = D - R \<and> set (only_right x) = D \<inter> R) \<and>
    (r = Inl Undecodable \<longleftrightarrow> (\<exists>C. C \<noteq> {} \<and> C \<subseteq> D \<and> stalls e n C))"
proof -
  have n: "0 < n" using assms(1,2) by (simp add: is_well_formed_def)
  have len: "length (ib_cells d) = n * iblt_partitions" using assms(3) by (simp add: represents_def)
  let ?q = "filter (\<lambda>idx. is_pure_and_valid e (ib_cells d ! idx)) [0..<length (ib_cells d)]"
  have "peel_ends e n R D (ib_cells d) ?q [] []"
    using peel_loop_honest[OF n assms(5,4) subset_refl assms(3)] len by (simp add: queue_ok_def)
  then obtain cells D' ls rs where run: "peel_loop e n (ib_cells d) ?q [] [] = Some (cells, ls, rs)"
    and pl: "peeled R D D' ls rs" and rep: "represents e n R D' cells" and qok: "queue_ok e n cells []"
    and core: "\<forall>C. C \<subseteq> D \<and> stalls e n C \<longrightarrow> C \<subseteq> D'" unfolding peel_ends_def by auto
  have sub: "D' \<subseteq> D" using pl by (simp add: peeled_def)
  have "list_all is_zero cells \<longleftrightarrow> D' = {}"
    by (rule all_zero_iff_empty[OF rep no_accident_mono[OF assms(5) sub] n])
  then have res: "peel e d = Some (if D' = {} then Inr \<lparr>only_left = ls, only_right = rs\<rparr> else Inl Undecodable)"
    using assms(1,2) run by (simp add: peel_def)
  have "D' \<noteq> {} \<longleftrightarrow> (\<exists>C. C \<noteq> {} \<and> C \<subseteq> D \<and> stalls e n C)"
    using core sub no_pure_cell_stalls[OF rep qok n] by blast
  with res pl show ?thesis by (auto simp: peeled_def)
qed

section \<open>An inconsistent sketch\<close>

text \<open>
  A sketch that holds an element in one of its three cells only. The loop takes the element out
  of all three, which plants it with the opposite sign in the other two, and taking it out of
  one of those restores the first cell: the states repeat.
\<close>

definition vec :: "nat \<Rightarrow> (nat \<Rightarrow> iblt_cell) \<Rightarrow> iblt_cell list" where
  "vec n f = map f [0..<n]"

lemma vec_simps [simp]: "length (vec n f) = n" "i < n \<Longrightarrow> vec n f ! i = f i"
  by (simp_all add: vec_def)

definition lone_cell :: "externs \<Rightarrow> nat \<Rightarrow> elem \<Rightarrow> iblt_cell list" where
  "lone_cell e n x = vec (n * iblt_partitions) (\<lambda>i. if i = elem_locs e n x ! 0 then elem_cell e x else 0)"

definition twin_cells :: "externs \<Rightarrow> nat \<Rightarrow> elem \<Rightarrow> iblt_cell list" where
  "twin_cells e n x = vec (n * iblt_partitions)
     (\<lambda>i. if i = elem_locs e n x ! 1 \<or> i = elem_locs e n x ! 2 then - elem_cell e x else 0)"

lemma elem_locs_obtain:
  assumes "0 < n"
  obtains a b c where "elem_locs e n x = [a, b, c]" "a \<noteq> b" "a \<noteq> c" "b \<noteq> c"
    "a < n * iblt_partitions" "b < n * iblt_partitions" "c < n * iblt_partitions"
proof -
  obtain a b c where abc: "elem_locs e n x = [a, b, c]" by (simp add: locations_eq)
  with locations_distinct[OF assms, of e "elem_check e x"] locations_bound[OF assms, of _ e "elem_check e x"] that
  show thesis by simp
qed

lemma peel_lone_step:
  assumes "0 < n"
  shows "peel_turn e n k (lone_cell e n x) [elem_locs e n x ! 0] left right =
    k (twin_cells e n x) [elem_locs e n x ! 1, elem_locs e n x ! 2] (left @ [x]) right"
proof -
  obtain a b c where abc: "elem_locs e n x = [a, b, c]" "a \<noteq> b" "a \<noteq> c" "b \<noteq> c"
    "a < n * iblt_partitions" "b < n * iblt_partitions" "c < n * iblt_partitions"
    using elem_locs_obtain[OF assms] .
  have cells: "map (\<lambda>j. if j \<in> set (elem_locs e n x) then lone_cell e n x ! j - signed_cell e {} x else lone_cell e n x ! j)
      [0..<length (lone_cell e n x)] = twin_cells e n x"
    using abc by (auto simp: lone_cell_def twin_cells_def signed_cell_def intro!: nth_equalityI)
  have queue: "filter (\<lambda>t. is_pure_and_valid e (lone_cell e n x ! t - signed_cell e {} x)) (elem_locs e n x) = [b, c]"
    using abc by (simp add: lone_cell_def signed_cell_def)
  have len: "length (lone_cell e n x) = n * iblt_partitions" by (simp add: lone_cell_def)
  have at: "lone_cell e n x ! a = signed_cell e {} x" using abc by (simp add: lone_cell_def signed_cell_def)
  show ?thesis
    using peel_turn_step[OF assms len at, of k "[]" left right, unfolded cells queue] abc by simp
qed

lemma peel_twin_step:
  assumes "0 < n"
  shows "peel_turn e n k (twin_cells e n x) [elem_locs e n x ! 1, elem_locs e n x ! 2] left right =
    k (lone_cell e n x) [elem_locs e n x ! 2, elem_locs e n x ! 0] left (right @ [x])"
proof -
  obtain a b c where abc: "elem_locs e n x = [a, b, c]" "a \<noteq> b" "a \<noteq> c" "b \<noteq> c"
    "a < n * iblt_partitions" "b < n * iblt_partitions" "c < n * iblt_partitions"
    using elem_locs_obtain[OF assms] .
  have cells: "map (\<lambda>j. if j \<in> set (elem_locs e n x) then twin_cells e n x ! j - signed_cell e {x} x else twin_cells e n x ! j)
      [0..<length (twin_cells e n x)] = lone_cell e n x"
    using abc by (auto simp: lone_cell_def twin_cells_def signed_cell_def intro!: nth_equalityI)
  have queue: "filter (\<lambda>t. is_pure_and_valid e (twin_cells e n x ! t - signed_cell e {x} x)) (elem_locs e n x) = [a]"
    using abc by (simp add: twin_cells_def signed_cell_def)
  have len: "length (twin_cells e n x) = n * iblt_partitions" by (simp add: twin_cells_def)
  have at: "twin_cells e n x ! b = signed_cell e {x} x" using abc by (simp add: twin_cells_def signed_cell_def)
  show ?thesis
    using peel_turn_step[OF assms len at, of k "[c]" left right, unfolded cells queue] abc by simp
qed


lemma peel_lone_skip:
  assumes "0 < n"
  shows "peel_turn e n k (lone_cell e n x) [elem_locs e n x ! 2, elem_locs e n x ! 0] left right =
    k (lone_cell e n x) [elem_locs e n x ! 0] left right"
proof -
  obtain a b c where abc: "elem_locs e n x = [a, b, c]" "a \<noteq> b" "a \<noteq> c" "b \<noteq> c"
    "a < n * iblt_partitions" "b < n * iblt_partitions" "c < n * iblt_partitions"
    using elem_locs_obtain[OF assms] .
  then show ?thesis by (intro peel_turn_skip) (simp add: lone_cell_def)
qed

text \<open>
  The three states the loop goes around, and that a run that reaches one of them does not
  end: the induction on a terminating run.
\<close>

definition on_cycle :: "externs \<Rightarrow> nat \<Rightarrow> elem \<Rightarrow> iblt_cell list \<Rightarrow> nat list \<Rightarrow> bool" where
  "on_cycle e n x cells queue \<longleftrightarrow>
     cells = lone_cell e n x \<and> queue = [elem_locs e n x ! 0] \<or>
     cells = twin_cells e n x \<and> queue = [elem_locs e n x ! 1, elem_locs e n x ! 2] \<or>
     cells = lone_cell e n x \<and> queue = [elem_locs e n x ! 2, elem_locs e n x ! 0]"


lemma cycle_never_ends:
  assumes "0 < n" "on_cycle e n x cells queue"
  shows "peel_loop e n cells queue left right = None"
proof (rule ccontr)
  assume "peel_loop e n cells queue left right \<noteq> None"
  then obtain r where "peel_loop e n cells queue left right = Some r" by blast
  then have "\<not> on_cycle e n x cells queue"
  proof (rule peel_loop_ends_induct)
    fix k cells queue left right r
    assume ih: "\<And>cells queue left right r. k cells queue left right = Some r \<Longrightarrow> \<not> on_cycle e n x cells queue"
      and run: "peel_turn e n k cells queue left right = Some r"
    show "\<not> on_cycle e n x cells queue"
    proof
      assume "on_cycle e n x cells queue"
      then consider "cells = lone_cell e n x" "queue = [elem_locs e n x ! 0]"
        | "cells = twin_cells e n x" "queue = [elem_locs e n x ! 1, elem_locs e n x ! 2]"
        | "cells = lone_cell e n x" "queue = [elem_locs e n x ! 2, elem_locs e n x ! 0]"
        unfolding on_cycle_def by blast
      then obtain cells' queue' l' r' where "k cells' queue' l' r' = Some r" "on_cycle e n x cells' queue'"
        using run peel_lone_step[OF assms(1)] peel_twin_step[OF assms(1)] peel_lone_skip[OF assms(1)]
        unfolding on_cycle_def by cases metis+
      with ih show False by blast
    qed
  qed
  with assms(2) show False by blast
qed

lemma lone_sketch_never_ends:
  assumes "0 < n"
  shows "peel e \<lparr>ib_cells = lone_cell e n x, ib_partition_len = n\<rparr> = None"
proof -
  obtain a b c where abc: "elem_locs e n x = [a, b, c]" "a \<noteq> b" "a \<noteq> c" "b \<noteq> c"
    "a < n * iblt_partitions" "b < n * iblt_partitions" "c < n * iblt_partitions"
    using elem_locs_obtain[OF assms] .
  have "filter (\<lambda>i. i = a) [0..<n * iblt_partitions] = [a]"
  proof -
    have "[0..<n * iblt_partitions] = [0..<a] @ a # [Suc a..<n * iblt_partitions]"
      using abc(5) upt_add_eq_append[of 0 a "n * iblt_partitions - a"] by (simp add: upt_conv_Cons)
    then show ?thesis by (simp add: filter_empty_conv)
  qed
  moreover have "filter (\<lambda>i. is_pure_and_valid e (lone_cell e n x ! i)) [0..<n * iblt_partitions]
    = filter (\<lambda>i. i = a) [0..<n * iblt_partitions]"
    using abc by (intro filter_cong) (auto simp: lone_cell_def)
  ultimately have "on_cycle e n x (lone_cell e n x)
    (filter (\<lambda>i. is_pure_and_valid e (lone_cell e n x ! i)) [0..<length (lone_cell e n x)])"
    using abc by (simp add: on_cycle_def lone_cell_def)
  from cycle_never_ends[OF assms this, of "[]" "[]"] show ?thesis
    using assms by (simp add: peel_def is_well_formed_def lone_cell_def)
qed


section \<open>Properties\<close>

text \<open>
  C33: the difference of two honest sketches decodes exactly, or not at all. The loop of
  \<open>peel\<close> always ends; when it answers \<open>Ok\<close>, \<open>only_left\<close> and \<open>only_right\<close> list each element on
  one side only exactly once; and it answers \<open>Undecodable\<close> exactly when some of the differing
  elements share every cell they touch, for two buckets and a sketch of any size, provided the
  checksums tell the differing elements' combinations apart.
\<close>

theorem peel_decodes_difference:
  assumes "distinct ss" "distinct ts"
    and "no_accident e (set ts) ((set ss - set ts) \<union> (set ts - set ss))"
  shows "\<exists>d r. iblt_subtract (sketch_of e cells ss) (sketch_of e cells ts) = Inr d \<and> peel e d = Some r \<and>
    (case r of Inl _ \<Rightarrow> True
     | Inr x \<Rightarrow> distinct (only_left x) \<and> distinct (only_right x) \<and>
                set (only_left x) = set ss - set ts \<and> set (only_right x) = set ts - set ss) \<and>
    (r = Inl Undecodable \<longleftrightarrow>
       (\<exists>C. C \<noteq> {} \<and> C \<subseteq> (set ss - set ts) \<union> (set ts - set ss) \<and> stalls e (sketch_len cells) C))"
proof -
  obtain d where d: "iblt_subtract (sketch_of e cells ss) (sketch_of e cells ts) = Inr d"
    "ib_partition_len d = sketch_len cells" "is_well_formed d"
    "represents e (sketch_len cells) (set ts) ((set ss - set ts) \<union> (set ts - set ss)) (ib_cells d)"
    using subtract_honest[OF honest_sketch[OF assms(1)] honest_sketch[OF assms(2)]] by blast
  have sides: "(set ss - set ts) \<union> (set ts - set ss) - set ts = set ss - set ts"
    "((set ss - set ts) \<union> (set ts - set ss)) \<inter> set ts = set ts - set ss" by blast+
  show ?thesis
    using peel_honest[OF d(3,2,4) _ assms(3)] d(1) unfolding sides by blast
qed

lemma no_accident_pair:
  assumes "x \<notin> R" "y \<in> R"
  shows "no_accident e R {x, y}"
proof -
  have "x \<noteq> y" using assms by blast
  have "elem_cell e x \<noteq> 0" for x
    by (simp add: elem_cell_def zero_iblt_cell_def cell_default_def)
  moreover have "elem_cell e x \<noteq> elem_cell e y"
    using \<open>x \<noteq> y\<close> claimed_elem_cell(1) by metis
  moreover have "cell_count (elem_cell e x - elem_cell e y) = 0"
    by (simp add: elem_cell_def minus_iblt_cell_def cell_subtract_def)
  moreover have "cell_count 0 = 0" by (simp add: zero_iblt_cell_def cell_default_def)
  ultimately show ?thesis
    using assms \<open>x \<noteq> y\<close> by (auto simp: no_accident_def Pow_insert signed_cell_def is_pure_and_valid_def)
qed

definition demo_elem :: "u64 \<Rightarrow> elem" where
  "demo_elem k = Elem k (Hlc 5 0 (NodeId 1))"

theorem peel_decodes_difference_witness:
  "\<exists>d r. iblt_subtract (sketch_of demo_externs 9 [demo_elem 1, demo_elem 2]) (sketch_of demo_externs 9 [demo_elem 2, demo_elem 3]) = Inr d \<and>
    peel demo_externs d = Some r"
proof -
  have "(set [demo_elem 1, demo_elem 2] - set [demo_elem 2, demo_elem 3]) \<union> (set [demo_elem 2, demo_elem 3] - set [demo_elem 1, demo_elem 2])
    = {demo_elem 1, demo_elem 3}" by (auto simp: demo_elem_def)
  moreover have "no_accident demo_externs (set [demo_elem 2, demo_elem 3]) {demo_elem 1, demo_elem 3}"
    by (rule no_accident_pair) (auto simp: demo_elem_def)
  ultimately show ?thesis
    using peel_decodes_difference[of "[demo_elem 1, demo_elem 2]" "[demo_elem 2, demo_elem 3]" demo_externs 9]
    by (auto simp: demo_elem_def)
qed

text \<open>
  C34: a sketch off the wire can keep \<open>peel\<close> from returning. Whatever elements a node holds and
  whatever the size of the sketch, there are cells of the right shape whose difference with the
  node's own sketch is accepted by \<open>subtract\<close> and never finishes peeling.
\<close>

theorem wire_sketch_can_stop_peel:
  assumes "distinct ss" "iblt_partitions \<le> cells" "iblt_partitions dvd cells"
  shows "\<exists>wire d. length wire = cells \<and> iblt_subtract (sketch_of e cells ss) (from_cells wire) = Inr d \<and> peel e d = None"
proof -
  let ?n = "sketch_len cells" and ?own = "ib_cells (sketch_of e cells ss)"
  define lone where "lone = lone_cell e ?n (Elem 0 (Hlc 0 0 (NodeId 0)))"
  define wire where "wire = map (\<lambda>(a, b). a - b) (zip ?own lone)"
  have n: "cells = ?n * iblt_partitions" "0 < ?n"
    using assms(2,3) by (auto simp: iblt_partitions_def)
  have own: "is_well_formed (sketch_of e cells ss)" "length ?own = cells" "ib_partition_len (sketch_of e cells ss) = ?n"
    using honest_sketch[OF assms(1), of e cells] honest_well_formed[OF honest_sketch[OF assms(1), of e cells]] n(1)
    by (auto simp: honest_def represents_def)
  have lone: "length lone = cells" using n(1) by (simp add: lone_def lone_cell_def)
  have diff: "map (\<lambda>(a, b). cell_subtract a b) (zip ?own wire) = lone"
    using own(2) lone by (intro nth_equalityI) (simp_all add: wire_def minus_iblt_cell_def[symmetric])
  have "length wire = cells" using own lone by (simp add: wire_def)
  moreover from this have "iblt_subtract (sketch_of e cells ss) (from_cells wire) = Inr \<lparr>ib_cells = lone, ib_partition_len = ?n\<rparr>"
    using own by (simp add: iblt_subtract_def from_cells_def diff)
  ultimately show ?thesis using lone_sketch_never_ends[OF n(2)] unfolding lone_def by blast
qed

theorem wire_sketch_can_stop_peel_witness:
  "\<exists>wire d. length wire = 240 \<and>
    iblt_subtract (sketch_of demo_externs 240 [demo_elem 1]) (from_cells wire) = Inr d \<and> peel demo_externs d = None"
  using wire_sketch_can_stop_peel[of "[demo_elem 1]" 240 demo_externs] by (simp add: iblt_partitions_def)

end
