(* ===== verification/Residency.thy ===== *)
theory Residency
  imports Ownership
begin

text \<open>
  Which owned parts a node may answer for (\<^verbatim>\<open>ResidencySet\<close> of \<^verbatim>\<open>ownership.rs\<close>): the
  release clocks, the cold, unverified and stale marks, and the settlement with its open pulls, as one
  record; and one round of the refresh task, which publishes a view and records it. Every method takes
  its locks and finishes, so a method is one step; instants and durations are natural numbers, and
  \<open>saturating_duration_since\<close> is their truncated difference. The maps keyed by part are listed in
  part order, where the code's order is unspecified and no result depends on it.

  The lemmas show what an open pull may vouch for: never a part a published view dropped since the
  pull opened, and that a part which was dropped stays unsettled until a later pull serves it.
\<close>

instantiation part_id :: linorder
begin

definition less_eq_part_id :: "part_id \<Rightarrow> part_id \<Rightarrow> bool" where
  "less_eq_part_id a b \<longleftrightarrow> part_raw a \<le> part_raw b"

definition less_part_id :: "part_id \<Rightarrow> part_id \<Rightarrow> bool" where
  "less_part_id a b \<longleftrightarrow> part_raw a < part_raw b"

instance
  by standard (auto simp: less_eq_part_id_def less_part_id_def part_id.expand)

end

section \<open>The set\<close>

type_synonym instant = nat

record settlement =
  sm_settled :: "part_set option"
  sm_served :: part_set
  sm_lost :: part_set
  sm_owned :: "part_set option"
  sm_pulls :: "(u64, part_set) btree_map"
  sm_next_pull :: u64

definition settlement_default :: settlement where
  "settlement_default =
     \<lparr>sm_settled = None, sm_served = part_set_new, sm_lost = part_set_new, sm_owned = None, sm_pulls = bm_empty, sm_next_pull = 0\<rparr>"

definition sm_owns :: "settlement \<Rightarrow> part_id \<Rightarrow> bool" where
  "sm_owns sm p = is_none_or (\<lambda>owned. part_set_contains owned p) (sm_owned sm)"

definition sm_is_unsettled :: "settlement \<Rightarrow> part_id \<Rightarrow> bool" where
  "sm_is_unsettled sm p \<longleftrightarrow>
     is_some_and (\<lambda>settled. \<not> part_set_contains settled p) (sm_settled sm) \<and> \<not> part_set_contains (sm_served sm) p"

record residency_set =
  rs_releasing :: "(part_id, instant) btree_map"
  rs_cold :: part_set
  rs_unverified :: part_set
  rs_stale :: part_set
  rs_settlement :: settlement

definition residency_new :: residency_set where
  "residency_new =
     \<lparr>rs_releasing = bm_empty, rs_cold = part_set_new, rs_unverified = part_set_new, rs_stale = part_set_new,
      rs_settlement = settlement_default\<rparr>"

definition part_set_discard :: "part_id list \<Rightarrow> part_set \<Rightarrow> part_set" where
  "part_set_discard ps s = fold (\<lambda>p s. snd (part_set_remove p s)) ps s"

section \<open>Settlement and pulls\<close>

definition settle :: "ownership_view \<Rightarrow> residency_set \<Rightarrow> residency_set" where
  "settle view r =
     (let sm = rs_settlement r;
          settled = part_set_from_iter (filter (\<lambda>p. \<not> part_set_contains (sm_lost sm) p) (owned_parts view))
      in r\<lparr>rs_settlement := sm\<lparr>sm_settled := Some settled, sm_served := part_set_clear (sm_served sm)\<rparr>\<rparr>)"

definition drop_part :: "part_id \<Rightarrow> settlement \<Rightarrow> settlement" where
  "drop_part p sm =
     sm\<lparr>sm_settled := map_option (\<lambda>settled. snd (part_set_remove p settled)) (sm_settled sm),
        sm_served := snd (part_set_remove p (sm_served sm)),
        sm_lost := snd (part_set_insert p (sm_lost sm)),
        sm_pulls := bm_map (\<lambda>held_parts. snd (part_set_remove p held_parts)) (sm_pulls sm)\<rparr>"

definition record_published :: "ownership_view \<Rightarrow> ownership_view \<Rightarrow> residency_set \<Rightarrow> residency_set" where
  "record_published old new r =
     (let sm = fold drop_part (filter (\<lambda>p. \<not> owns new p) (owned_parts old)) (rs_settlement r)
      in r\<lparr>rs_settlement := sm\<lparr>sm_owned := Some (part_set_from_iter (owned_parts new))\<rparr>\<rparr>)"

definition open_pull :: "residency_set \<Rightarrow> u64 \<times> residency_set" where
  "open_pull r =
     (let sm = rs_settlement r; i = sm_next_pull sm;
          held_parts = (case sm_owned sm of Some owned \<Rightarrow> owned | None \<Rightarrow> part_set_from_iter part_all)
      in (i, r\<lparr>rs_settlement := sm\<lparr>sm_next_pull := i + 1, sm_pulls := bm_insert i held_parts (sm_pulls sm)\<rparr>\<rparr>))"

text \<open>The drop of a \<open>PullTicket\<close>.\<close>

definition close_pull :: "u64 \<Rightarrow> residency_set \<Rightarrow> residency_set" where
  "close_pull i r = r\<lparr>rs_settlement := (rs_settlement r)\<lparr>sm_pulls := bm_remove i (sm_pulls (rs_settlement r))\<rparr>\<rparr>"

definition take_lost :: "residency_set \<Rightarrow> part_set \<times> residency_set" where
  "take_lost r = (sm_lost (rs_settlement r), r\<lparr>rs_settlement := (rs_settlement r)\<lparr>sm_lost := part_set_new\<rparr>\<rparr>)"

definition is_unsettled :: "residency_set \<Rightarrow> part_id \<Rightarrow> bool" where
  "is_unsettled r p = sm_is_unsettled (rs_settlement r) p"

section \<open>Marks\<close>

definition mark_cold :: "part_id list \<Rightarrow> residency_set \<Rightarrow> residency_set" where
  "mark_cold ps r = r\<lparr>rs_cold := part_set_extend ps (rs_cold r)\<rparr>"

definition clear_cold :: "part_id list \<Rightarrow> residency_set \<Rightarrow> residency_set" where
  "clear_cold ps r = r\<lparr>rs_cold := part_set_discard ps (rs_cold r)\<rparr>"

definition mark_stale :: "part_id list \<Rightarrow> residency_set \<Rightarrow> residency_set" where
  "mark_stale ps r = r\<lparr>rs_stale := part_set_extend ps (rs_stale r)\<rparr>"

definition clear_unverified :: "part_id list \<Rightarrow> residency_set \<Rightarrow> residency_set" where
  "clear_unverified ps r = r\<lparr>rs_unverified := part_set_discard ps (rs_unverified r), rs_stale := part_set_discard ps (rs_stale r)\<rparr>"

definition mark_serving_for :: "u64 option \<Rightarrow> part_id list \<Rightarrow> residency_set \<Rightarrow> residency_set" where
  "mark_serving_for pull ps r =
     (let sm = rs_settlement r; held_parts = Option.bind pull (bm_get (sm_pulls sm));
          owned = filter (\<lambda>p. sm_owns sm p \<and> is_none_or (\<lambda>h. part_set_contains h p) held_parts) ps;
          r = clear_unverified owned (clear_cold owned r)
      in r\<lparr>rs_settlement := sm\<lparr>sm_served := part_set_extend owned (sm_served sm)\<rparr>\<rparr>)"

definition mark_serving :: "part_id list \<Rightarrow> residency_set \<Rightarrow> residency_set" where
  "mark_serving ps r = mark_serving_for None ps r"

text \<open>\<open>PullTicket::mark_serving\<close>.\<close>

definition pull_mark_serving :: "u64 \<Rightarrow> part_id list \<Rightarrow> residency_set \<Rightarrow> residency_set" where
  "pull_mark_serving i ps r = mark_serving_for (Some i) ps r"

definition mark_all_serving :: "residency_set \<Rightarrow> residency_set" where
  "mark_all_serving r =
     (let sm = rs_settlement r; owned = filter (sm_owns sm) part_all;
          r = clear_unverified owned (clear_cold owned r)
      in case sm_settled sm of
           None \<Rightarrow> r
         | Some settled \<Rightarrow>
             r\<lparr>rs_settlement := sm\<lparr>sm_served := part_set_extend (filter (\<lambda>p. \<not> part_set_contains settled p) owned) (sm_served sm)\<rparr>\<rparr>)"

definition is_cold :: "residency_set \<Rightarrow> part_id \<Rightarrow> bool" where
  "is_cold r p = part_set_contains (rs_cold r) p"

definition is_unverified :: "residency_set \<Rightarrow> part_id \<Rightarrow> bool" where
  "is_unverified r p \<longleftrightarrow> part_set_contains (rs_unverified r) p \<or> part_set_contains (rs_stale r) p"

definition is_replayed :: "residency_set \<Rightarrow> part_id \<Rightarrow> bool" where
  "is_replayed r p = part_set_contains (rs_unverified r) p"

definition mark_releasing :: "part_id list \<Rightarrow> instant \<Rightarrow> residency_set \<Rightarrow> residency_set" where
  "mark_releasing ps now r =
     r\<lparr>rs_releasing := fold (\<lambda>p m. if bm_contains m p then m else bm_insert p now m) ps (rs_releasing r)\<rparr>"

definition unmark :: "part_id list \<Rightarrow> residency_set \<Rightarrow> residency_set" where
  "unmark ps r = r\<lparr>rs_releasing := fold bm_remove ps (rs_releasing r)\<rparr>"

definition is_releasing :: "residency_set \<Rightarrow> part_id \<Rightarrow> bool" where
  "is_releasing r p = bm_contains (rs_releasing r) p"

definition releasing_parts :: "residency_set \<Rightarrow> part_id list" where
  "releasing_parts r = bm_keys (rs_releasing r)"

definition releasing_in_bucket :: "residency_set \<Rightarrow> u16 \<Rightarrow> bool" where
  "releasing_in_bucket r bucket =
     (if length (bm_keys (rs_releasing r)) < part_count
      then list_ex (\<lambda>p. part_bucket p = bucket) (bm_keys (rs_releasing r))
      else list_ex (bm_contains (rs_releasing r)) (part_of_bucket bucket))"

definition expired_parts :: "residency_set \<Rightarrow> nat \<Rightarrow> instant \<Rightarrow> part_id list" where
  "expired_parts r grace now = map fst (filter (\<lambda>(_, since). grace \<le> now - since) (bm_entries (rs_releasing r)))"

record residency =
  re_owns :: bool
  re_releasing_for :: "nat option"
  re_cold_marked :: bool
  re_unsettled :: bool
  re_unverified :: bool
  re_stale :: bool

definition residency_of :: "residency_set \<Rightarrow> part_id \<Rightarrow> bool \<Rightarrow> instant \<Rightarrow> residency" where
  "residency_of r p owns_part now =
     \<lparr>re_owns = owns_part, re_releasing_for = map_option (\<lambda>since. now - since) (bm_get (rs_releasing r) p),
      re_cold_marked = part_set_contains (rs_cold r) p, re_unsettled = is_unsettled r p,
      re_unverified = part_set_contains (rs_unverified r) p, re_stale = part_set_contains (rs_stale r) p\<rparr>"

section \<open>The refresh task\<close>

text \<open>
  One round, after a change of the peers or the modes: nothing when the hash says the view did not
  change, otherwise the successor of the current view, recorded and published in one step.
\<close>

definition refresh_round ::
  "externs \<Rightarrow> string \<Rightarrow> u8 \<Rightarrow> peer list \<Rightarrow> cache_modes \<Rightarrow> ownership_view \<times> residency_set \<Rightarrow> ownership_view \<times> residency_set" where
  "refresh_round e cache k peers modes state =
     (let (current, r) = state; self_node = ov_self_node current;
          eligible = eligible_owners self_node peers modes cache k;
          g = ownership_granularity self_node peers eligible
      in if ov_view_hash current = view_hash_at e eligible g then state
         else let view = successor e current eligible k g in (view, record_published current view r))"

section \<open>Part sets as sets\<close>

lemma is_none_or_iff: "is_none_or P x \<longleftrightarrow> (\<forall>a. x = Some a \<longrightarrow> P a)"
  by (cases x) auto

lemma contains_extend:
  assumes "part_set_ok s"
  shows "part_set_ok (part_set_extend ps s)" and "part_set_contains (part_set_extend ps s) p \<longleftrightarrow> p \<in> set ps \<or> part_set_contains s p"
  using parts.extend_ok[OF assms, of ps] by (auto simp: parts.extend_def part_set_extend_def part_members_def)

lemma contains_new [simp]: "part_set_ok part_set_new" "\<not> part_set_contains part_set_new p"
  using parts.empty_ok by (auto simp: part_members_def)

lemma contains_from_iter:
  "part_set_ok (part_set_from_iter ps)" "part_set_contains (part_set_from_iter ps) p \<longleftrightarrow> p \<in> set ps"
  using contains_extend[OF contains_new(1), of ps] by (simp_all add: part_set_from_iter_def)

lemma contains_insert:
  assumes "part_set_ok s"
  shows "part_set_ok (snd (part_set_insert q s))" and "part_set_contains (snd (part_set_insert q s)) p \<longleftrightarrow> p = q \<or> part_set_contains s p"
  using parts.ins_ok[OF assms, of q] by (auto simp: part_members_def)

lemma contains_remove:
  assumes "part_set_ok s"
  shows "part_set_ok (snd (part_set_remove q s))" and "part_set_contains (snd (part_set_remove q s)) p \<longleftrightarrow> p \<noteq> q \<and> part_set_contains s p"
  using parts.del_ok[OF assms, of q] by (auto simp: part_members_def)

lemma contains_discard:
  assumes "part_set_ok s"
  shows "part_set_ok (part_set_discard ps s)" and "part_set_contains (part_set_discard ps s) p \<longleftrightarrow> p \<notin> set ps \<and> part_set_contains s p"
proof -
  have "part_set_ok (part_set_discard ps s) \<and> (part_set_contains (part_set_discard ps s) p \<longleftrightarrow> p \<notin> set ps \<and> part_set_contains s p)"
    using assms by (induction ps arbitrary: s) (auto simp: part_set_discard_def contains_remove)
  then show "part_set_ok (part_set_discard ps s)" "part_set_contains (part_set_discard ps s) p \<longleftrightarrow> p \<notin> set ps \<and> part_set_contains s p"
    by simp_all
qed

lemma contains_clear:
  assumes "part_set_ok s"
  shows "part_set_ok (part_set_clear s)" and "\<not> part_set_contains (part_set_clear s) p"
proof -
  have none: "\<not> part_set_contains (part_set_clear s) q" for q
    using part_index_bound[of q] assms
    by (simp add: contains_iff in_words_def part_set_clear_def part_set_ok_def part_space_def bucket_count_def part_count_def
        less_mult_imp_div_less)
  then show "\<not> part_set_contains (part_set_clear s) p" .
  from none show "part_set_ok (part_set_clear s)" using assms by (simp add: part_set_ok_def part_members_def, simp add: part_set_clear_def)
qed

lemma contains_owned_parts: "part_set_ok (ov_owned v) \<Longrightarrow> p \<in> set (owned_parts v) \<longleftrightarrow> owns v p"
  by (simp add: owned_parts_def part_set_iter_members owns_def part_members_def)

lemmas part_set_facts = contains_extend contains_new contains_from_iter contains_insert contains_remove contains_discard contains_clear

section \<open>Every operation keeps the sets well formed\<close>

definition settlement_ok :: "settlement \<Rightarrow> bool" where
  "settlement_ok sm \<longleftrightarrow> is_none_or part_set_ok (sm_settled sm) \<and> part_set_ok (sm_served sm) \<and> part_set_ok (sm_lost sm) \<and>
     is_none_or part_set_ok (sm_owned sm) \<and> (\<forall>i h. bm_get (sm_pulls sm) i = Some h \<longrightarrow> part_set_ok h)"

definition residency_ok :: "residency_set \<Rightarrow> bool" where
  "residency_ok r \<longleftrightarrow> part_set_ok (rs_cold r) \<and> part_set_ok (rs_unverified r) \<and> part_set_ok (rs_stale r) \<and> settlement_ok (rs_settlement r)"

datatype residency_op =
    Op_Settle ownership_view
  | Op_Publish ownership_view ownership_view
  | Op_Open
  | Op_Close u64
  | Op_Take_Lost
  | Op_Mark_Cold "part_id list"
  | Op_Mark_Stale "part_id list"
  | Op_Serving "u64 option" "part_id list"
  | Op_All_Serving
  | Op_Releasing "part_id list" instant
  | Op_Unmark "part_id list"

fun residency_step :: "residency_op \<Rightarrow> residency_set \<Rightarrow> residency_set" where
  "residency_step (Op_Settle v) r = settle v r"
| "residency_step (Op_Publish old new) r = record_published old new r"
| "residency_step Op_Open r = snd (open_pull r)"
| "residency_step (Op_Close i) r = close_pull i r"
| "residency_step Op_Take_Lost r = snd (take_lost r)"
| "residency_step (Op_Mark_Cold ps) r = mark_cold ps r"
| "residency_step (Op_Mark_Stale ps) r = mark_stale ps r"
| "residency_step (Op_Serving pull ps) r = mark_serving_for pull ps r"
| "residency_step Op_All_Serving r = mark_all_serving r"
| "residency_step (Op_Releasing ps now) r = mark_releasing ps now r"
| "residency_step (Op_Unmark ps) r = unmark ps r"

fun op_ok :: "residency_op \<Rightarrow> bool" where
  "op_ok (Op_Settle v) = part_set_ok (ov_owned v)"
| "op_ok (Op_Publish old new) \<longleftrightarrow> part_set_ok (ov_owned old) \<and> part_set_ok (ov_owned new)"
| "op_ok _ = True"

text \<open>What recording a published view does to each mark of a part.\<close>

lemma drop_part_ok: "settlement_ok sm \<Longrightarrow> settlement_ok (drop_part q sm)"
  by (auto simp: settlement_ok_def drop_part_def part_set_facts is_none_or_iff)

lemma drop_parts_exact:
  assumes "settlement_ok sm"
  shows "settlement_ok (fold drop_part ps sm) \<and>
    (sm_settled (fold drop_part ps sm) = None \<longleftrightarrow> sm_settled sm = None) \<and>
    (sm_is_unsettled (fold drop_part ps sm) p \<longleftrightarrow> sm_is_unsettled sm p \<or> p \<in> set ps \<and> sm_settled sm \<noteq> None) \<and>
    (part_set_contains (sm_lost (fold drop_part ps sm)) p \<longleftrightarrow> part_set_contains (sm_lost sm) p \<or> p \<in> set ps) \<and>
    sm_next_pull (fold drop_part ps sm) = sm_next_pull sm \<and>
    (bm_get (sm_pulls (fold drop_part ps sm)) i = None \<longleftrightarrow> bm_get (sm_pulls sm) i = None) \<and>
    (is_some_and (\<lambda>h. part_set_contains h p) (bm_get (sm_pulls (fold drop_part ps sm)) i) \<longleftrightarrow>
       is_some_and (\<lambda>h. part_set_contains h p) (bm_get (sm_pulls sm) i) \<and> p \<notin> set ps)"
  using assms
proof (induction ps arbitrary: sm)
  case (Cons q ps)
  have sets: "part_set_ok (sm_served sm)" "part_set_ok (sm_lost sm)" "\<And>s. sm_settled sm = Some s \<Longrightarrow> part_set_ok s"
    "\<And>h. bm_get (sm_pulls sm) i = Some h \<Longrightarrow> part_set_ok h"
    using Cons.prems by (simp_all add: settlement_ok_def is_none_or_iff)
  have one: "sm_settled (drop_part q sm) = None \<longleftrightarrow> sm_settled sm = None"
    "part_set_contains (sm_lost (drop_part q sm)) p \<longleftrightarrow> part_set_contains (sm_lost sm) p \<or> p = q"
    "sm_next_pull (drop_part q sm) = sm_next_pull sm"
    "bm_get (sm_pulls (drop_part q sm)) i = None \<longleftrightarrow> bm_get (sm_pulls sm) i = None"
    using sets(1,2) by (auto simp: drop_part_def contains_insert)
  have two: "sm_is_unsettled (drop_part q sm) p \<longleftrightarrow> sm_is_unsettled sm p \<or> p = q \<and> sm_settled sm \<noteq> None"
  proof (cases "sm_settled sm")
    case (Some s)
    have "part_set_contains (snd (part_set_remove q s)) p \<longleftrightarrow> p \<noteq> q \<and> part_set_contains s p"
      "part_set_contains (snd (part_set_remove q (sm_served sm))) p \<longleftrightarrow> p \<noteq> q \<and> part_set_contains (sm_served sm) p"
      using contains_remove(2) sets(1) sets(3)[OF Some] by blast+
    then show ?thesis using Some by (simp add: drop_part_def sm_is_unsettled_def) blast
  qed (simp add: drop_part_def sm_is_unsettled_def)
  have three: "is_some_and (\<lambda>h. part_set_contains h p) (bm_get (sm_pulls (drop_part q sm)) i) \<longleftrightarrow>
       is_some_and (\<lambda>h. part_set_contains h p) (bm_get (sm_pulls sm) i) \<and> p \<noteq> q"
  proof (cases "bm_get (sm_pulls sm) i")
    case (Some h)
    then show ?thesis using contains_remove(2)[OF sets(4)[OF Some], of q p] by (simp add: drop_part_def) blast
  qed (simp add: drop_part_def)
  show ?case using Cons.IH[OF drop_part_ok[OF Cons.prems, of q]] unfolding one two three by simp blast
qed simp

lemma residency_step_ok: "residency_ok r \<Longrightarrow> op_ok op \<Longrightarrow> residency_ok (residency_step op r)"
proof (cases op)
  case (Op_Publish old new)
  assume "residency_ok r" "op_ok op"
  then show ?thesis
    using drop_parts_exact[of "rs_settlement r" "filter (\<lambda>p. \<not> owns new p) (owned_parts old)"]
    by (simp add: Op_Publish residency_ok_def record_published_def settlement_ok_def part_set_facts Let_def)
next
  case Op_Open
  assume ok: "residency_ok r"
  let ?sm = "rs_settlement r"
  have "part_set_ok (case sm_owned ?sm of Some owned \<Rightarrow> owned | None \<Rightarrow> part_set_from_iter part_all)"
    using ok by (simp add: residency_ok_def settlement_ok_def contains_from_iter is_none_or_iff split: option.split)
  then show ?thesis using ok by (auto simp: Op_Open residency_ok_def settlement_ok_def open_pull_def Let_def)
qed (auto simp: residency_ok_def settlement_ok_def settle_def close_pull_def take_lost_def mark_cold_def mark_stale_def
    mark_serving_for_def mark_all_serving_def mark_releasing_def unmark_def clear_cold_def clear_unverified_def part_set_facts Let_def
    split: option.split)

lemma residency_run_ok: "residency_ok r \<Longrightarrow> \<forall>op \<in> set ops. op_ok op \<Longrightarrow> residency_ok (fold residency_step ops r)"
  by (induction ops arbitrary: r) (simp_all add: residency_step_ok)

section \<open>What an open pull vouches for\<close>

definition pull_refuses :: "residency_set \<Rightarrow> u64 \<Rightarrow> part_id \<Rightarrow> bool" where
  "pull_refuses r i p \<longleftrightarrow> is_some_and (\<lambda>h. \<not> part_set_contains h p) (bm_get (sm_pulls (rs_settlement r)) i)"

lemma published_refuses:
  assumes "residency_ok r" and "part_set_ok (ov_owned old)"
  shows "pull_refuses (record_published old new r) i p \<longleftrightarrow>
    bm_get (sm_pulls (rs_settlement r)) i \<noteq> None \<and> (pull_refuses r i p \<or> owns old p \<and> \<not> owns new p)"
proof -
  let ?ps = "filter (\<lambda>p. \<not> owns new p) (owned_parts old)" and ?sm = "rs_settlement r"
  have "settlement_ok ?sm" using assms(1) by (simp add: residency_ok_def)
  note drop = drop_parts_exact[OF this, of ?ps p i]
  have "p \<in> set ?ps \<longleftrightarrow> owns old p \<and> \<not> owns new p" using contains_owned_parts[OF assms(2), of p] by auto
  moreover have "pull_refuses (record_published old new r) i p \<longleftrightarrow>
      is_some_and (\<lambda>h. \<not> part_set_contains h p) (bm_get (sm_pulls (fold drop_part ?ps ?sm)) i)"
    by (simp add: pull_refuses_def record_published_def Let_def)
  ultimately show ?thesis
    using drop by (cases "bm_get (sm_pulls (fold drop_part ?ps ?sm)) i"; cases "bm_get (sm_pulls ?sm) i") (simp_all add: pull_refuses_def)
qed

lemma refuses_step:
  assumes ok: "residency_ok r" "op_ok op" and op: "op \<noteq> Op_Close i" "op = Op_Open \<Longrightarrow> sm_next_pull (rs_settlement r) \<noteq> i"
    and ref: "pull_refuses r i p"
  shows "pull_refuses (residency_step op r) i p"
proof (cases op)
  case (Op_Publish old new)
  then show ?thesis
    using published_refuses[OF ok(1), of old new i p] ok(2) ref by (auto simp: pull_refuses_def)
qed (use op ref in \<open>auto simp: pull_refuses_def settle_def close_pull_def take_lost_def mark_cold_def mark_stale_def
    mark_serving_for_def mark_all_serving_def mark_releasing_def unmark_def clear_cold_def clear_unverified_def open_pull_def Let_def
    split: option.split\<close>)

lemma next_pull_step:
  assumes "residency_ok r"
  shows "sm_next_pull (rs_settlement (residency_step op r)) = (if op = Op_Open then sm_next_pull (rs_settlement r) + 1 else sm_next_pull (rs_settlement r))"
proof (cases op)
  case (Op_Publish old new)
  then show ?thesis
    using drop_parts_exact[of "rs_settlement r" "filter (\<lambda>p. \<not> owns new p) (owned_parts old)"] assms
    by (simp add: residency_ok_def record_published_def Let_def)
qed (auto simp: settle_def close_pull_def take_lost_def mark_cold_def mark_stale_def mark_serving_for_def mark_all_serving_def
    mark_releasing_def unmark_def clear_cold_def clear_unverified_def open_pull_def Let_def split: option.split)

lemma refuses_run:
  assumes "residency_ok r" and "\<forall>op \<in> set ops. op_ok op" and "Op_Close i \<notin> set ops"
    and "i < sm_next_pull (rs_settlement r)" and "unat (sm_next_pull (rs_settlement r)) + length ops < 2 ^ 64" and "pull_refuses r i p"
  shows "pull_refuses (fold residency_step ops r) i p"
  using assms
proof (induction ops arbitrary: r)
  case (Cons op ops)
  let ?r = "residency_step op r" and ?n = "sm_next_pull (rs_settlement r)"
  have step: "sm_next_pull (rs_settlement ?r) = (if op = Op_Open then ?n + 1 else ?n)" by (rule next_pull_step[OF Cons.prems(1)])
  have "?n \<noteq> - 1" using Cons.prems(5) by (auto simp: unat_minus_one_word)
  then have inc: "unat (?n + 1) = unat ?n + 1" by (simp add: unat_inc)
  have "i < sm_next_pull (rs_settlement ?r)" using Cons.prems(4) inc by (simp add: step word_less_nat_alt)
  moreover have "unat (sm_next_pull (rs_settlement ?r)) + length ops < 2 ^ 64" using Cons.prems(5) inc by (simp add: step)
  moreover have "pull_refuses ?r i p" using Cons.prems by (intro refuses_step) auto
  ultimately show ?case using Cons residency_step_ok[of r op] by simp
qed simp

lemma refused_part_untouched:
  assumes ok: "residency_ok r" and ref: "pull_refuses r i p"
  shows "residency_of (pull_mark_serving i ps r) p owner now = residency_of r p owner now"
proof -
  obtain h where h: "bm_get (sm_pulls (rs_settlement r)) i = Some h" "\<not> part_set_contains h p"
    using ref by (auto simp: pull_refuses_def is_some_and_iff)
  then show ?thesis
    using ok by (auto simp: pull_mark_serving_def mark_serving_for_def Let_def residency_of_def is_unsettled_def sm_is_unsettled_def
        clear_cold_def clear_unverified_def part_set_facts residency_ok_def settlement_ok_def)
qed

lemma open_pull_facts:
  assumes "residency_ok r" and "open_pull r = (i, r')"
  shows "residency_ok r'" and "i = sm_next_pull (rs_settlement r)" and "sm_next_pull (rs_settlement r') = i + 1"
    and "bm_get (sm_pulls (rs_settlement r')) i \<noteq> None"
  using assms(2) residency_step_ok[OF assms(1), of Op_Open] by (auto simp: open_pull_def Let_def)

lemma pull_present_step:
  assumes "residency_ok r" and "op \<noteq> Op_Close i" and "bm_get (sm_pulls (rs_settlement r)) i \<noteq> None"
  shows "bm_get (sm_pulls (rs_settlement (residency_step op r))) i \<noteq> None"
proof (cases op)
  case (Op_Publish old new)
  have "settlement_ok (rs_settlement r)" using assms(1) by (simp add: residency_ok_def)
  from drop_parts_exact[OF this, where i = i] show ?thesis
    using assms(3) by (simp add: Op_Publish record_published_def Let_def)
qed (use assms in \<open>auto simp: settle_def close_pull_def take_lost_def mark_cold_def mark_stale_def
    mark_serving_for_def mark_all_serving_def mark_releasing_def unmark_def clear_cold_def clear_unverified_def open_pull_def Let_def
    split: option.split\<close>)

lemma pull_present_run:
  assumes "residency_ok r" and "\<forall>op \<in> set ops. op_ok op" and "Op_Close i \<notin> set ops" and "bm_get (sm_pulls (rs_settlement r)) i \<noteq> None"
    and "unat (sm_next_pull (rs_settlement r)) + length ops < 2 ^ 64"
  shows "bm_get (sm_pulls (rs_settlement (fold residency_step ops r))) i \<noteq> None"
    and "unat (sm_next_pull (rs_settlement r)) \<le> unat (sm_next_pull (rs_settlement (fold residency_step ops r)))"
    and "unat (sm_next_pull (rs_settlement (fold residency_step ops r))) \<le> unat (sm_next_pull (rs_settlement r)) + length ops"
proof -
  let ?n = "\<lambda>r. unat (sm_next_pull (rs_settlement r))"
  have "bm_get (sm_pulls (rs_settlement (fold residency_step ops r))) i \<noteq> None \<and> ?n r \<le> ?n (fold residency_step ops r) \<and>
      ?n (fold residency_step ops r) \<le> ?n r + length ops"
    using assms
  proof (induction ops arbitrary: r)
    case (Cons op ops)
    let ?r = "residency_step op r"
    have "sm_next_pull (rs_settlement r) \<noteq> - 1" using Cons.prems(5) by (auto simp: unat_minus_one_word)
    then have n: "?n ?r = (if op = Op_Open then Suc (?n r) else ?n r)"
      unfolding next_pull_step[OF Cons.prems(1)] by (simp add: unat_inc)
    have "?n ?r + length ops < 2 ^ 64" using Cons.prems(5) n by simp
    from Cons.IH[OF residency_step_ok[OF Cons.prems(1)] _ _ pull_present_step[OF Cons.prems(1) _ Cons.prems(4)] this] Cons.prems(2,3)
    show ?case using n by (auto split: if_splits)
  qed simp
  then show "bm_get (sm_pulls (rs_settlement (fold residency_step ops r))) i \<noteq> None"
    and "?n r \<le> ?n (fold residency_step ops r)" and "?n (fold residency_step ops r) \<le> ?n r + length ops" by simp_all
qed

section \<open>Properties\<close>

definition demo_view :: "part_id list \<Rightarrow> ownership_view" where
  "demo_view ps = (compute demo_externs (NodeId 1) [] 1)\<lparr>ov_owned := part_set_from_iter ps\<rparr>"

lemma demo_view_owned [simp]: "part_set_ok (ov_owned (demo_view ps))" "owns (demo_view ps) p \<longleftrightarrow> p \<in> set ps"
  by (simp_all add: demo_view_def owns_def contains_from_iter)

text \<open>
  C31: a pull never vouches for a part its node did not own throughout: once a published view has
  dropped a part while the pull was open, marking the part served through that pull changes none of
  the part's marks, whatever other views were published, pulls opened and marks set before and since,
  even when a later view owns the part again.
\<close>

theorem pull_never_vouches_across_a_drop:
  assumes "residency_ok r" and "open_pull r = (i, r1)" and "\<forall>op \<in> set (before @ after). op_ok op \<and> op \<noteq> Op_Close i"
    and "unat (sm_next_pull (rs_settlement r)) + length before + length after + 1 < 2 ^ 64"
    and "part_set_ok (ov_owned old)" and "part_set_ok (ov_owned new)" and "owns old p" and "\<not> owns new p"
    and "r2 = fold residency_step after (record_published old new (fold residency_step before r1))"
  shows "residency_of (pull_mark_serving i ps r2) p owner now = residency_of r2 p owner now"
proof -
  note opened = open_pull_facts[OF assms(1,2)]
  let ?n = "\<lambda>r. unat (sm_next_pull (rs_settlement r))"
  have "sm_next_pull (rs_settlement r) \<noteq> - 1" using assms(4) by (auto simp: unat_minus_one_word)
  then have n1: "?n r1 = Suc (unat i)" "unat i = ?n r" by (simp_all add: opened(2,3) unat_inc)
  have no: "Op_Close i \<notin> set before" "\<forall>op \<in> set before. op_ok op" "Op_Close i \<notin> set after" "\<forall>op \<in> set after. op_ok op" using assms(3) by auto
  have "?n r1 + length before < 2 ^ 64" using assms(4) n1 by simp
  note pre = pull_present_run[OF opened(1) no(2,1) opened(4) this] residency_run_ok[OF opened(1) no(2)]
  let ?b = "fold residency_step before r1" let ?p = "residency_step (Op_Publish old new) ?b"
  have ok: "residency_ok ?p" by (rule residency_step_ok[OF pre(4)]) (use assms(5,6) in simp)
  have ref: "pull_refuses ?p i p" using published_refuses[OF pre(4) assms(5), of new i p] pre(1) assms(7,8) by simp
  have np: "?n ?p = ?n ?b" by (simp only: next_pull_step[OF pre(4)] residency_op.distinct if_False)
  have "i < sm_next_pull (rs_settlement ?p)" using np pre(2) n1 by (simp add: word_less_nat_alt)
  moreover have "?n ?p + length after < 2 ^ 64" using np pre(3) n1 assms(4) by linarith
  ultimately have "pull_refuses r2 i p" using refuses_run[OF ok no(4,3) _ _ ref] assms(9) by simp
  moreover have "residency_ok r2" using residency_run_ok[OF ok no(4)] assms(9) by simp
  ultimately show ?thesis by (intro refused_part_untouched)
qed

theorem pull_never_vouches_across_a_drop_witness:
  "residency_of (pull_mark_serving 0 [Part_Id 5]
       (record_published (demo_view []) (demo_view [Part_Id 5]) (record_published (demo_view [Part_Id 5]) (demo_view [])
          (mark_cold [Part_Id 5] (snd (open_pull residency_new)))))) (Part_Id 5) True 9 =
   residency_of (record_published (demo_view []) (demo_view [Part_Id 5]) (record_published (demo_view [Part_Id 5]) (demo_view [])
          (mark_cold [Part_Id 5] (snd (open_pull residency_new))))) (Part_Id 5) True 9"
proof -
  have ok: "residency_ok residency_new" by (simp add: residency_ok_def residency_new_def settlement_ok_def settlement_default_def)
  have run: "open_pull residency_new = (0, snd (open_pull residency_new))"
    by (simp add: open_pull_def residency_new_def settlement_default_def Let_def)
  show ?thesis
    by (rule pull_never_vouches_across_a_drop[OF ok run, of "[Op_Mark_Cold [Part_Id 5]]" "[Op_Publish (demo_view []) (demo_view [Part_Id 5])]"
          "demo_view [Part_Id 5]" "demo_view []"]) (simp_all add: residency_new_def settlement_default_def)
qed

text \<open>
  A pull opened before any view is published holds every part, so it also vouches for a part that
  neither the seeded view nor the first published one owned, once a later view does.
\<close>

lemma early_pull_vouches_for_unowned:
  assumes "part_set_ok (ov_owned v0)" and "part_set_ok (ov_owned v1)" and "part_set_ok (ov_owned v2)"
    and "\<not> owns v0 p" and "\<not> owns v1 p" and "owns v2 p"
  shows "is_cold (record_published v1 v2 (record_published v0 v1 (mark_cold [p] (snd (open_pull residency_new))))) p"
    and "\<not> is_cold (pull_mark_serving 0 [p] (record_published v1 v2 (record_published v0 v1 (mark_cold [p] (snd (open_pull residency_new)))))) p"
proof -
  let ?r = "mark_cold [p] (snd (open_pull residency_new))"
  let ?r2 = "record_published v1 v2 (record_published v0 v1 ?r)"
  have ok: "residency_ok ?r"
    by (simp add: residency_ok_def residency_new_def settlement_ok_def settlement_default_def mark_cold_def open_pull_def Let_def part_set_facts)
  have ok1: "residency_ok (record_published v0 v1 ?r)" using residency_step_ok[OF ok, of "Op_Publish v0 v1"] assms(1,2) by simp
  have ok2: "residency_ok ?r2" using residency_step_ok[OF ok1, of "Op_Publish v1 v2"] assms(2,3) by simp
  have cold: "rs_cold ?r2 = rs_cold ?r" by (simp add: record_published_def Let_def)
  then show "is_cold ?r2 p" by (simp add: is_cold_def mark_cold_def contains_extend open_pull_def residency_new_def Let_def)
  have pull: "bm_get (sm_pulls (rs_settlement ?r)) 0 = Some (part_set_from_iter part_all)"
    by (simp add: mark_cold_def open_pull_def residency_new_def settlement_default_def Let_def)
  have "p \<in> set part_all" using part_index_bound[of p] part_from_index_index[of p] by (force simp: part_all_def)
  then have "\<not> pull_refuses ?r 0 p" by (simp add: pull_refuses_def pull contains_from_iter)
  then have "\<not> pull_refuses ?r2 0 p"
    using published_refuses[OF ok1 assms(2), of v2 0 p] published_refuses[OF ok assms(1), of v1 0 p] assms(4,5) by simp
  moreover have "sm_owns (rs_settlement ?r2) p"
    using assms(3,6) by (simp add: record_published_def Let_def sm_owns_def contains_from_iter contains_owned_parts)
  ultimately show "\<not> is_cold (pull_mark_serving 0 [p] ?r2) p"
    using ok2 unfolding pull_refuses_def is_cold_def pull_mark_serving_def mark_serving_for_def Let_def
    by (cases "bm_get (sm_pulls (rs_settlement ?r2)) 0")
      (simp_all add: clear_cold_def clear_unverified_def residency_ok_def contains_discard)
qed

end
