(* ===== verification/Verdict.thy ===== *)
theory Verdict
  imports Residency Engine_Read
begin

text \<open>
  The read decisions of a distributed fetch (\<^verbatim>\<open>verdict.rs\<close>, with the types of
  \<^verbatim>\<open>explain.rs\<close>): what the local copy of a part makes of a read, what a node answers a peer's
  fetch, what an owner's reply amounts to and where a fetch takes its answer. The io error kinds the
  code tells apart have a constructor each; the others keep the text of their kind. The lemmas tie the
  decisions to the residency marks: a part that was lost and regained is not answered for until a pull
  served it.
\<close>

section \<open>Residency\<close>

definition residency_cold :: "residency \<Rightarrow> bool" where
  "residency_cold r \<longleftrightarrow> re_cold_marked r \<or> re_unsettled r \<and> re_owns r"

definition implicitly_cold :: "residency \<Rightarrow> bool" where
  "implicitly_cold r \<longleftrightarrow> \<not> re_cold_marked r \<and> re_unsettled r \<and> re_owns r"

definition distrusted :: "residency \<Rightarrow> bool" where
  "distrusted r \<longleftrightarrow> re_unverified r \<or> re_stale r"

definition resident :: "residency \<Rightarrow> bool" where
  "resident r \<longleftrightarrow> re_owns r \<or> re_releasing_for r \<noteq> None"

section \<open>Verdicts\<close>

datatype local_read = Read_Hit | Read_Miss | Read_NotOwner | Read_Distrusted | Read_ColdMiss

definition read_answers :: "local_read \<Rightarrow> bool" where
  "read_answers v \<longleftrightarrow> v = Read_Hit \<or> v = Read_Miss"

datatype serve_verdict = Serve_Record | Serve_Stale | Serve_Miss | Decline_Distrusted | Decline_Cold

definition is_live :: "local_record \<Rightarrow> bool" where
  "is_live l = (case l of Rec_Live _ _ _ \<Rightarrow> True | _ \<Rightarrow> False)"

definition is_held :: "local_record \<Rightarrow> bool" where
  "is_held l = (case l of Rec_Live _ _ _ \<Rightarrow> True | Rec_Tombstone _ \<Rightarrow> True | _ \<Rightarrow> False)"

definition local_verdict :: "residency \<Rightarrow> bool \<Rightarrow> local_read" where
  "local_verdict r live =
     (if \<not> re_owns r then Read_NotOwner
      else if distrusted r then Read_Distrusted
      else if live then Read_Hit
      else if residency_cold r then Read_ColdMiss
      else Read_Miss)"

definition reads_local :: "residency \<Rightarrow> bool" where
  "reads_local r = read_answers (local_verdict r True)"

record serve_inputs =
  si_distrusted :: bool
  si_served :: bool
  si_views_match :: bool
  si_cold :: bool

definition fetch_serve_verdict :: "serve_inputs \<Rightarrow> serve_verdict" where
  "fetch_serve_verdict i =
     (if si_distrusted i then Decline_Distrusted
      else if si_served i then Serve_Record
      else if \<not> si_views_match i then Serve_Stale
      else if si_cold i then Decline_Cold
      else Serve_Miss)"

definition serves_peers :: "residency \<Rightarrow> local_record \<Rightarrow> serve_verdict" where
  "serves_peers r l =
     fetch_serve_verdict \<lparr>si_distrusted = distrusted r, si_served = resident r \<and> is_held l, si_views_match = True,
                          si_cold = residency_cold r\<rparr>"

section \<open>Probes\<close>

datatype reads = Reads_Value | Reads_Deleted | Reads_Expired | Reads_Undecodable

datatype io_kind = Io_NotFound | Io_Unsupported | Io_TimedOut | Io_Other string

datatype unreached = NotAMember | ProtocolTooOld | Probe_TimedOut | Probe_Io io_kind | Probe_Codec

record probed_record =
  pb_version :: hlc
  pb_expires_at_ms :: "u64 option"
  pb_reads :: reads

datatype probe_answer = Probe_Held probed_record | Probe_Miss | Probe_StaleView u64 | Probe_Declined | Probe_Unreached unreached

definition probe_answers :: "probe_answer \<Rightarrow> bool" where
  "probe_answers a = (case a of Probe_Held _ \<Rightarrow> True | Probe_Miss \<Rightarrow> True | _ \<Rightarrow> False)"

record owner_probe =
  op_node :: node_id
  op_answer :: probe_answer

datatype read_source = Source_Local bool | Source_Owner node_id bool | Source_Unavailable

definition returns_value :: "read_source \<Rightarrow> bool" where
  "returns_value s = (case s of Source_Local hit \<Rightarrow> hit | Source_Owner _ hit \<Rightarrow> hit | Source_Unavailable \<Rightarrow> False)"

definition dead_record :: "wire_record \<Rightarrow> u64 \<Rightarrow> reads option" where
  "dead_record rec now_ms =
     (if wr_value rec = None then Some Reads_Deleted
      else if is_some_and (\<lambda>expires. expires \<le> now_ms) (wr_expires rec) then Some Reads_Expired
      else None)"

datatype fetch_outcome = Found "wire_record option" | Fetch_Stale u64 | Fetch_Declined

datatype fetch_error = Err_Io io_kind | Err_Postcard | Err_MalformedFrame | Err_FrameTooLarge

definition classify_probe :: "(fetch_error + fetch_outcome) option \<Rightarrow> (wire_record \<Rightarrow> reads) \<Rightarrow> probe_answer" where
  "classify_probe reply reads_of =
     (case reply of
        None \<Rightarrow> Probe_Unreached Probe_TimedOut
      | Some (Inr (Found (Some rec))) \<Rightarrow>
          Probe_Held \<lparr>pb_version = wr_ver rec, pb_expires_at_ms = wr_expires rec, pb_reads = reads_of rec\<rparr>
      | Some (Inr (Found None)) \<Rightarrow> Probe_Miss
      | Some (Inr (Fetch_Stale h)) \<Rightarrow> Probe_StaleView h
      | Some (Inr Fetch_Declined) \<Rightarrow> Probe_Declined
      | Some (Inl (Err_Io kind)) \<Rightarrow>
          Probe_Unreached (case kind of
            Io_NotFound \<Rightarrow> NotAMember | Io_Unsupported \<Rightarrow> ProtocolTooOld | Io_TimedOut \<Rightarrow> Probe_TimedOut | _ \<Rightarrow> Probe_Io kind)
      | Some (Inl _) \<Rightarrow> Probe_Unreached Probe_Codec)"

fun first_answer :: "owner_probe list \<Rightarrow> read_source option" where
  "first_answer [] = None"
| "first_answer (probe # probes) =
     (case op_answer probe of
        Probe_Held rec \<Rightarrow> Some (Source_Owner (op_node probe) (pb_reads rec = Reads_Value))
      | Probe_Miss \<Rightarrow> Some (Source_Owner (op_node probe) False)
      | _ \<Rightarrow> first_answer probes)"

definition read_source_of :: "local_read \<Rightarrow> owner_probe list \<Rightarrow> read_source" where
  "read_source_of local probes =
     (case local of
        Read_Hit \<Rightarrow> Source_Local True
      | Read_Miss \<Rightarrow> Source_Local False
      | _ \<Rightarrow> (case first_answer probes of Some s \<Rightarrow> s | None \<Rightarrow> Source_Unavailable))"

section \<open>A dropped part stays unsettled\<close>

fun serves_part :: "part_id \<Rightarrow> residency_op \<Rightarrow> bool" where
  "serves_part p (Op_Serving pull ps) \<longleftrightarrow> p \<in> set ps"
| "serves_part p Op_All_Serving = True"
| "serves_part p _ = False"

fun is_settle :: "residency_op \<Rightarrow> bool" where
  "is_settle (Op_Settle v) = True"
| "is_settle _ = False"

definition awaits_pull :: "residency_set \<Rightarrow> part_id \<Rightarrow> bool" where
  "awaits_pull r p \<longleftrightarrow> sm_settled (rs_settlement r) \<noteq> None \<and> is_unsettled r p"

lemma awaits_pull_published:
  assumes "residency_ok r" and "part_set_ok (ov_owned old)"
  shows "awaits_pull (record_published old new r) p \<longleftrightarrow>
      sm_settled (rs_settlement r) \<noteq> None \<and> (is_unsettled r p \<or> owns old p \<and> \<not> owns new p)"
    and "part_set_contains (sm_lost (rs_settlement (record_published old new r))) p \<longleftrightarrow>
      part_set_contains (sm_lost (rs_settlement r)) p \<or> owns old p \<and> \<not> owns new p"
proof -
  let ?ps = "filter (\<lambda>p. \<not> owns new p) (owned_parts old)" and ?sm = "rs_settlement r"
  have "settlement_ok ?sm" using assms(1) by (simp add: residency_ok_def)
  note drop = drop_parts_exact[OF this, of ?ps p]
  have mem: "p \<in> set ?ps \<longleftrightarrow> owns old p \<and> \<not> owns new p" using contains_owned_parts[OF assms(2), of p] by auto
  have "sm_is_unsettled (sm\<lparr>sm_owned := x\<rparr>) p = sm_is_unsettled sm p" for sm x by (simp add: sm_is_unsettled_def)
  then show "awaits_pull (record_published old new r) p \<longleftrightarrow>
      sm_settled (rs_settlement r) \<noteq> None \<and> (is_unsettled r p \<or> owns old p \<and> \<not> owns new p)"
    using drop mem by (auto simp: awaits_pull_def is_unsettled_def record_published_def Let_def)
  show "part_set_contains (sm_lost (rs_settlement (record_published old new r))) p \<longleftrightarrow>
      part_set_contains (sm_lost (rs_settlement r)) p \<or> owns old p \<and> \<not> owns new p"
    using drop mem by (auto simp: record_published_def Let_def)
qed

lemma awaits_pull_step:
  assumes ok: "residency_ok r" "op_ok op" and op: "\<not> serves_part p op"
    and settle: "is_settle op \<Longrightarrow> part_set_contains (sm_lost (rs_settlement r)) p" and "awaits_pull r p"
  shows "awaits_pull (residency_step op r) p"
proof (cases op)
  case (Op_Publish old new)
  then show ?thesis using awaits_pull_published(1)[OF ok(1), of old new p] assms(2,5) by (auto simp: awaits_pull_def)
next
  case (Op_Settle v)
  then show ?thesis
    using settle ok by (auto simp: awaits_pull_def is_unsettled_def sm_is_unsettled_def settle_def Let_def contains_from_iter contains_clear
        residency_ok_def settlement_ok_def)
qed (use ok op assms(5) in \<open>auto simp: awaits_pull_def is_unsettled_def sm_is_unsettled_def close_pull_def take_lost_def mark_cold_def
    mark_stale_def mark_serving_for_def mark_releasing_def unmark_def clear_cold_def clear_unverified_def open_pull_def Let_def
    residency_ok_def settlement_ok_def contains_extend\<close>)

lemma lost_step:
  assumes "residency_ok r" and "op_ok op" and "op \<noteq> Op_Take_Lost" and "part_set_contains (sm_lost (rs_settlement r)) p"
  shows "part_set_contains (sm_lost (rs_settlement (residency_step op r))) p"
proof (cases op)
  case (Op_Publish old new)
  then show ?thesis using awaits_pull_published(2)[OF assms(1), of old new p] assms(2,4) by simp
qed (use assms in \<open>auto simp: settle_def close_pull_def mark_cold_def mark_stale_def mark_serving_for_def mark_all_serving_def
    mark_releasing_def unmark_def clear_cold_def clear_unverified_def open_pull_def Let_def split: option.split\<close>)

lemma awaits_pull_lost_run:
  assumes "residency_ok r" and "\<forall>op \<in> set ops. op_ok op \<and> \<not> serves_part p op \<and> op \<noteq> Op_Take_Lost"
    and "awaits_pull r p" and "part_set_contains (sm_lost (rs_settlement r)) p"
  shows "awaits_pull (fold residency_step ops r) p"
  using assms by (induction ops arbitrary: r) (simp_all add: awaits_pull_step lost_step residency_step_ok)

lemma awaits_pull_run:
  assumes "residency_ok r" and "\<forall>op \<in> set ops. op_ok op \<and> \<not> serves_part p op \<and> \<not> is_settle op" and "awaits_pull r p"
  shows "awaits_pull (fold residency_step ops r) p"
  using assms by (induction ops arbitrary: r) (auto intro: awaits_pull_step residency_step_ok)

section \<open>Properties\<close>

text \<open>
  C32: a node never answers a miss from a part it lost and regained before pulling it again. Once a
  settled node's published view dropped a part, then, whatever views are published, pulls opened and
  parts settled before the rebalance takes the lost parts, and whatever happens short of a settle or a
  serving mark for the part afterwards, a read that finds nothing asks the other owners instead of
  answering \<open>None\<close>, and a peer's fetch that finds nothing is declined.
\<close>

theorem regained_part_answers_no_miss:
  assumes "residency_ok r" and "sm_settled (rs_settlement r) \<noteq> None" and "part_set_ok (ov_owned old)" and "part_set_ok (ov_owned new)"
    and "owns old p" and "\<not> owns new p"
    and "\<forall>op \<in> set until_taken. op_ok op \<and> \<not> serves_part p op \<and> op \<noteq> Op_Take_Lost"
    and "\<forall>op \<in> set afterwards. op_ok op \<and> \<not> serves_part p op \<and> \<not> is_settle op"
    and "r' = fold residency_step (until_taken @ afterwards) (record_published old new r)"
  shows "local_verdict (residency_of r' p True now) False \<noteq> Read_Miss \<and>
    serves_peers (residency_of r' p True now) Rec_Absent \<noteq> Serve_Miss"
proof -
  let ?r1 = "record_published old new r" and ?r2 = "fold residency_step until_taken (record_published old new r)"
  have ok1: "residency_ok ?r1" using residency_step_ok[OF assms(1), of "Op_Publish old new"] assms(3,4) by simp
  have "awaits_pull ?r1 p" "part_set_contains (sm_lost (rs_settlement ?r1)) p"
    using awaits_pull_published[OF assms(1,3), of new p] assms(2,5,6) by simp_all
  then have "awaits_pull ?r2 p" using awaits_pull_lost_run[OF ok1 assms(7)] by blast
  moreover have "residency_ok ?r2" using residency_run_ok[OF ok1] assms(7) by blast
  ultimately have "awaits_pull r' p" using awaits_pull_run[OF _ assms(8)] assms(9) by simp
  then show ?thesis
    by (auto simp: awaits_pull_def residency_of_def local_verdict_def serves_peers_def fetch_serve_verdict_def residency_cold_def)
qed

theorem regained_part_answers_no_miss_witness:
  "local_verdict (residency_of (record_published (demo_view []) (demo_view [Part_Id 5])
       (record_published (demo_view [Part_Id 5]) (demo_view []) (settle (demo_view [Part_Id 5]) residency_new))) (Part_Id 5) True 9) False \<noteq> Read_Miss"
proof -
  have ok: "residency_ok residency_new" by (simp add: residency_ok_def residency_new_def settlement_ok_def settlement_default_def)
  have ok1: "residency_ok (settle (demo_view [Part_Id 5]) residency_new)" using residency_step_ok[OF ok, of "Op_Settle (demo_view [Part_Id 5])"] by simp
  from regained_part_answers_no_miss[OF ok1, of "demo_view [Part_Id 5]" "demo_view []" "Part_Id 5" "[]"
      "[Op_Publish (demo_view []) (demo_view [Part_Id 5])]"]
  show ?thesis by (simp add: settle_def Let_def)
qed

end
