(* ===== verification/Anti_Entropy.thy ===== *)
theory Anti_Entropy
  imports Sketch Verdict Engine_Read
begin

text \<open>
  The decisions of an anti-entropy round: \<^verbatim>\<open>sundog/src/cluster/anti_entropy.rs\<close>. A round compares
  digests with one peer, classifies every mismatched bucket into keys to push, keys or key
  hashes to pull and buckets to list again, and then moves the records. This theory holds the
  choice of the peer and the classification; \<^verbatim>\<open>Ae_Repair\<close> holds the transfers.

  What the shard reads and what the peer answers are arguments: a record of the shard's listing
  functions and a record of the two requests the classification makes. The counters and logs are
  left out. A step that peels a sketch off the wire is \<^term>\<open>None\<close> when the peel does not end.
\<close>

section \<open>Choosing a peer\<close>

definition max_streaming_skips :: u32 where
  "max_streaming_skips = 3"

definition should_skip_round :: "bool \<Rightarrow> u32 \<Rightarrow> bool" where
  "should_skip_round streaming skipped_so_far \<longleftrightarrow> streaming \<and> skipped_so_far < max_streaming_skips"

definition forget_departed_skips :: "node_id list \<Rightarrow> (node_id, u32) btree_map \<Rightarrow> (node_id, u32) btree_map" where
  "forget_departed_skips live skipped = bm_retain (\<lambda>peer _. peer \<in> set live) skipped"

text \<open>\<open>pick\<close> is the random choice of the \<^verbatim>\<open>rand\<close> crate: \<^term>\<open>None\<close> of an empty list, a member otherwise.\<close>

definition choose_peer ::
  "(node_id list \<Rightarrow> node_id option) \<Rightarrow> node_id list \<Rightarrow> node_id list \<Rightarrow> (node_id \<times> bool \<times> node_id list) option" where
  "choose_peer pick dirty live =
     (case pick dirty of
        Some p \<Rightarrow> Some (p, True, filter (\<lambda>other. other \<noteq> p) dirty)
      | None \<Rightarrow> map_option (\<lambda>p. (p, False, [])) (pick live))"

text \<open>
  One turn of \<open>scheduler_task\<close> after its sleep: the peer a round runs against, if any, the skip
  counts it keeps and the peers marked dirty again. \<open>ae_filter\<close> is the shard's
  \<open>ae_peer_filter\<close>.
\<close>

definition scheduler_turn ::
  "(node_id list \<Rightarrow> node_id option) \<Rightarrow> (node_id list \<Rightarrow> node_id list \<Rightarrow> node_id list \<times> node_id list) \<Rightarrow> (node_id \<Rightarrow> bool) \<Rightarrow>
   node_id list \<Rightarrow> node_id list \<Rightarrow> (node_id, u32) btree_map \<Rightarrow> node_id option \<times> (node_id, u32) btree_map \<times> node_id list" where
  "scheduler_turn pick ae_filter streaming live dirty skipped =
     (let skipped = forget_departed_skips live skipped; (dirty, live) = ae_filter dirty live
      in case choose_peer pick dirty live of
           None \<Rightarrow> (None, skipped, [])
         | Some (p, was_dirty, give_back) \<Rightarrow>
             let skips = map_or 0 (\<lambda>n. n) (bm_get skipped p)
             in if should_skip_round (streaming p) skips
                then (None, bm_insert p (skips + 1) skipped, give_back @ (if was_dirty then [p] else []))
                else (Some p, bm_insert p 0 skipped, give_back))"

section \<open>Replies and plans\<close>

datatype ae_mismatch =
    Mis_Bucket u16 "key_version list"
  | Mis_Sketch u16 "iblt_cell list"
  | Mis_PartDigests u16 "u64 list"

fun mismatch_bucket :: "ae_mismatch \<Rightarrow> u16" where
  "mismatch_bucket (Mis_Bucket b _) = b"
| "mismatch_bucket (Mis_Sketch b _) = b"
| "mismatch_bucket (Mis_PartDigests b _) = b"

datatype ae_part_reply =
    Part_Listing u16 u8 "key_version list"
  | Part_Sketch u16 u8 "iblt_cell list"

fun reply_bucket :: "ae_part_reply \<Rightarrow> u16" where
  "reply_bucket (Part_Listing b _ _) = b"
| "reply_bucket (Part_Sketch b _ _) = b"

fun reply_part :: "ae_part_reply \<Rightarrow> u8" where
  "reply_part (Part_Listing _ p _) = p"
| "reply_part (Part_Sketch _ p _) = p"

record repair_plan =
  rp_in_scope :: "(u16 \<Rightarrow> part_mask option) option"
  rp_push_keys :: "bytes list"
  rp_pull_keys :: "bytes list"
  rp_pull_hashes :: "(u16 \<times> u64 list) list"
  rp_undecodable :: "u16 list"

definition repair_plan_default :: repair_plan where
  "repair_plan_default = \<lparr>rp_in_scope = None, rp_push_keys = [], rp_pull_keys = [], rp_pull_hashes = [], rp_undecodable = []\<rparr>"

definition repairable :: "repair_plan \<Rightarrow> u16 \<Rightarrow> part_mask" where
  "repairable plan bucket = map_or mask_all (\<lambda>scope. map_or mask_default (\<lambda>m. m) (scope bucket)) (rp_in_scope plan)"

definition pull_by_hash :: "u16 \<Rightarrow> u64 list \<Rightarrow> repair_plan \<Rightarrow> repair_plan" where
  "pull_by_hash bucket hashes plan =
     (if hashes = [] then plan else plan\<lparr>rp_pull_hashes := rp_pull_hashes plan @ [(bucket, hashes)]\<rparr>)"

definition mark_undecodable :: "u16 \<Rightarrow> repair_plan \<Rightarrow> repair_plan" where
  "mark_undecodable bucket plan = plan\<lparr>rp_undecodable := rp_undecodable plan @ [bucket]\<rparr>"

section \<open>Classifying versions\<close>

definition classify_versions :: "hlc option \<Rightarrow> hlc option \<Rightarrow> bool \<Rightarrow> bool \<times> bool" where
  "classify_versions own peer_ver both_ways =
     (case (own, peer_ver) of
        (Some l, Some p) \<Rightarrow> if l \<noteq> p then (l > p \<or> both_ways, l < p \<or> both_ways) else (False, False)
      | (None, None) \<Rightarrow> (False, False)
      | (Some _, None) \<Rightarrow> (True, False)
      | (None, Some _) \<Rightarrow> (False, True))"

text \<open>Collecting pairs into a \<open>HashMap\<close>: a later pair overwrites an earlier one.\<close>

definition hash_map_of :: "('a \<times> 'b) list \<Rightarrow> 'a \<Rightarrow> 'b option" where
  "hash_map_of xs = map_of (rev xs)"

definition diff_bucket ::
  "key_version list \<Rightarrow> key_version list \<Rightarrow> bool \<Rightarrow> bytes list \<times> bytes list \<Rightarrow> bytes list \<times> bytes list" where
  "diff_bucket local_entries peer_entries both_ways acc =
     (let by_key = hash_map_of peer_entries;
          decide = (\<lambda>(key, ver). classify_versions (Some ver) (by_key key) both_ways)
      in (fst acc @ map fst (filter (\<lambda>kv. fst (decide kv)) local_entries),
          snd acc @ map fst (filter (\<lambda>kv. snd (decide kv)) local_entries) @
            map fst (filter (\<lambda>(key, _). key \<notin> set (map fst local_entries)) peer_entries)))"

definition diff_decoded ::
  "externs \<Rightarrow> key_version list \<Rightarrow> decoded \<Rightarrow> bool \<Rightarrow> bytes list \<times> u64 list \<Rightarrow> bytes list \<times> u64 list" where
  "diff_decoded e local_entries d both_ways acc =
     (let by_hash = hash_map_of (map (\<lambda>(key, _). (xxh3 e key, key)) local_entries);
          local_only = hash_map_of (map (\<lambda>x. (el_key_hash x, el_ver x)) (only_left d));
          remote_only = hash_map_of (map (\<lambda>x. (el_key_hash x, el_ver x)) (only_right d));
          decide = (\<lambda>x. classify_versions (Some (el_ver x)) (remote_only (el_key_hash x)) both_ways)
      in (fst acc @ List.map_filter (\<lambda>x. if fst (decide x) then by_hash (el_key_hash x) else None) (only_left d),
          snd acc @ map el_key_hash (filter (\<lambda>x. snd (decide x)) (only_left d)) @
            map el_key_hash (filter (\<lambda>x. local_only (el_key_hash x) = None) (only_right d))))"

definition mismatched_parts :: "u64 list \<Rightarrow> u64 list \<Rightarrow> u8 list" where
  "mismatched_parts own remote =
     (let at = (\<lambda>xs i. if i < length xs then xs ! i else 0)
      in map of_nat (filter (\<lambda>i. i < 256) (filter (\<lambda>i. at own i \<noteq> at remote i) [0..<max (length own) (length remote)])))"

section \<open>Classifying replies\<close>

text \<open>The sketch a node builds of its own entries, the shape of the received one.\<close>

definition entry_elem :: "externs \<Rightarrow> key_version \<Rightarrow> elem" where
  "entry_elem e kv = Elem (xxh3 e (fst kv)) (snd kv)"

definition peel_sketch_into ::
  "externs \<Rightarrow> u16 \<Rightarrow> iblt_cell list \<Rightarrow> key_version list \<Rightarrow> bool \<Rightarrow> repair_plan \<Rightarrow> (bool \<times> repair_plan) option" where
  "peel_sketch_into e bucket cells local_entries both_ways plan =
     (let local_sketch = foldl (\<lambda>s (key, ver). iblt_insert e (xxh3 e key) ver s) (iblt_new (length cells)) local_entries
      in case (case iblt_subtract local_sketch (from_cells cells) of Inl err \<Rightarrow> Some (Inl err) | Inr d \<Rightarrow> peel e d) of
           None \<Rightarrow> None
         | Some (Inl _) \<Rightarrow> Some (False, plan)
         | Some (Inr d) \<Rightarrow>
             (case diff_decoded e local_entries d both_ways (rp_push_keys plan, []) of
                (push_keys, hashes) \<Rightarrow> Some (True, pull_by_hash bucket hashes (plan\<lparr>rp_push_keys := push_keys\<rparr>))))"

text \<open>\<open>handle_sketch_mismatch\<close> and \<open>handle_part_sketch_mismatch\<close> differ by the counter only.\<close>

definition handle_sketch_mismatch ::
  "externs \<Rightarrow> u16 \<Rightarrow> iblt_cell list \<Rightarrow> key_version list \<Rightarrow> bool \<Rightarrow> repair_plan \<Rightarrow> repair_plan option" where
  "handle_sketch_mismatch e bucket cells local_entries both_ways plan =
     map_option (\<lambda>(ok, plan). if ok then plan else mark_undecodable bucket plan)
       (peel_sketch_into e bucket cells local_entries both_ways plan)"

definition classify_bucket_size :: nat where
  "classify_bucket_size = 64"

function chunk_mismatches :: "'a list \<Rightarrow> nat \<Rightarrow> 'a list list" where
  "chunk_mismatches xs n =
     (if xs = [] then [] else let m = max n 1 in take m xs # chunk_mismatches (drop m xs) n)"
  by auto
termination by (relation "measure (\<lambda>(xs, _). length xs)") (auto simp: Let_def)

declare chunk_mismatches.simps [simp del]

record ae_shard =
  as_entries_for_buckets :: "u16 list \<Rightarrow> (u16 \<times> key_version list) list"
  as_entries_for_parts :: "bucket_part list \<Rightarrow> (bucket_part \<times> key_version list) list"
  as_part_digests :: "u16 list \<Rightarrow> (u16 \<times> u64 list) list"
  as_ownership_view :: "ownership_view option"

record ae_mesh =
  am_ae_parts :: "(u16 \<times> u8) list \<Rightarrow> fetch_error + ae_part_reply list"
  am_ae_entries :: "u16 list \<Rightarrow> fetch_error + (u16 \<times> key_version list) list"

definition listed :: "(u16 \<Rightarrow> key_version list option) \<Rightarrow> u16 \<Rightarrow> key_version list" where
  "listed by_bucket bucket = map_or [] (\<lambda>xs. xs) (by_bucket bucket)"

definition diff_into :: "key_version list \<Rightarrow> key_version list \<Rightarrow> bool \<Rightarrow> repair_plan \<Rightarrow> repair_plan" where
  "diff_into local_entries peer_entries both_ways plan =
     (case diff_bucket local_entries peer_entries both_ways (rp_push_keys plan, rp_pull_keys plan) of
        (push, pull) \<Rightarrow> plan\<lparr>rp_push_keys := push, rp_pull_keys := pull\<rparr>)"

fun classify_bucket_mismatch ::
  "externs \<Rightarrow> (u16 \<Rightarrow> key_version list option) \<Rightarrow> bool \<Rightarrow> ae_mismatch \<Rightarrow> repair_plan \<Rightarrow> repair_plan option" where
  "classify_bucket_mismatch e by_bucket both_ways (Mis_Bucket bucket peer_entries) plan =
     Some (diff_into (listed by_bucket bucket) peer_entries both_ways plan)"
| "classify_bucket_mismatch e by_bucket both_ways (Mis_Sketch bucket cells) plan =
     handle_sketch_mismatch e bucket cells (listed by_bucket bucket) both_ways plan"
| "classify_bucket_mismatch e by_bucket both_ways (Mis_PartDigests _ _) plan = Some plan"

text \<open>A loop over a list whose body can fail to return.\<close>

fun fold_opt :: "('a \<Rightarrow> 'b \<Rightarrow> 'b option) \<Rightarrow> 'a list \<Rightarrow> 'b \<Rightarrow> 'b option" where
  "fold_opt f [] b = Some b"
| "fold_opt f (x # xs) b = Option.bind (f x b) (fold_opt f xs)"

definition classify_bucket_mismatches ::
  "externs \<Rightarrow> ae_shard \<Rightarrow> ae_mismatch list \<Rightarrow> bool \<Rightarrow> repair_plan \<Rightarrow> repair_plan option" where
  "classify_bucket_mismatches e shard mismatches both_ways plan =
     fold_opt (\<lambda>chunk plan.
        let by_bucket = hash_map_of (as_entries_for_buckets shard (map mismatch_bucket chunk))
        in fold_opt (classify_bucket_mismatch e by_bucket both_ways) chunk plan)
       (chunk_mismatches mismatches classify_bucket_size) plan"

text \<open>The replies for parts, gathered into a plan per bucket.\<close>

definition gather_part_reply ::
  "externs \<Rightarrow> (bucket_part \<Rightarrow> key_version list option) \<Rightarrow> bool \<Rightarrow> ae_part_reply \<Rightarrow> (u16, repair_plan) btree_map \<Rightarrow>
   (u16, repair_plan) btree_map option" where
  "gather_part_reply e by_part both_ways reply gathered =
     (let slot = map_or repair_plan_default (\<lambda>p. p) (bm_get gathered (reply_bucket reply));
          entries = map_or [] (\<lambda>xs. xs) (by_part \<lparr>bp_bucket = reply_bucket reply, bp_part = reply_part reply\<rparr>)
      in map_option (\<lambda>slot. bm_insert (reply_bucket reply) slot gathered)
           (case reply of
              Part_Listing _ _ peer_entries \<Rightarrow> Some (diff_into entries peer_entries both_ways slot)
            | Part_Sketch bucket _ cells \<Rightarrow> handle_sketch_mismatch e bucket cells entries both_ways slot))"

definition settle_bucket :: "u16 \<times> repair_plan \<Rightarrow> repair_plan \<Rightarrow> repair_plan" where
  "settle_bucket bp plan =
     (case bp of (bucket, parts) \<Rightarrow>
        if rp_undecodable parts \<noteq> [] then mark_undecodable bucket plan
        else plan\<lparr>rp_push_keys := rp_push_keys plan @ rp_push_keys parts, rp_pull_keys := rp_pull_keys plan @ rp_pull_keys parts,
                  rp_pull_hashes := rp_pull_hashes plan @ rp_pull_hashes parts\<rparr>)"

definition settle_bucket_parts :: "(u16, repair_plan) btree_map \<Rightarrow> repair_plan \<Rightarrow> repair_plan" where
  "settle_bucket_parts gathered plan = fold settle_bucket (bm_entries gathered) plan"

definition classify_part_replies ::
  "externs \<Rightarrow> ae_shard \<Rightarrow> ae_part_reply list \<Rightarrow> bool \<Rightarrow> repair_plan \<Rightarrow> repair_plan option" where
  "classify_part_replies e shard replies both_ways plan =
     (if replies = [] then Some plan
      else let wanted = map (\<lambda>reply. \<lparr>bp_bucket = reply_bucket reply, bp_part = reply_part reply\<rparr>) replies;
               by_part = hash_map_of (as_entries_for_parts shard wanted)
           in map_option (\<lambda>gathered. settle_bucket_parts gathered plan)
                (fold_opt (gather_part_reply e by_part both_ways) replies bm_empty))"

definition wanted_parts :: "(u16 \<Rightarrow> u64 list option) \<Rightarrow> repair_plan \<Rightarrow> ae_mismatch list \<Rightarrow> (u16 \<times> u8) list" where
  "wanted_parts own plan mismatches =
     concat (map (\<lambda>mis. case mis of
        Mis_PartDigests bucket remote \<Rightarrow>
          map (\<lambda>part. (bucket, part))
            (filter (mask_contains (repairable plan bucket)) (mismatched_parts (map_or [] (\<lambda>xs. xs) (own bucket)) remote))
      | _ \<Rightarrow> []) mismatches)"

definition classify_part_digest_chunk ::
  "externs \<Rightarrow> ae_mesh \<Rightarrow> ae_shard \<Rightarrow> ae_mismatch list \<Rightarrow> bool \<Rightarrow> repair_plan \<Rightarrow> (bool \<times> repair_plan) option" where
  "classify_part_digest_chunk e mesh shard mismatches both_ways plan =
     (let own = hash_map_of (as_part_digests shard (map mismatch_bucket mismatches));
          wanted = wanted_parts own plan mismatches
      in if wanted = [] then Some (True, plan)
         else case am_ae_parts mesh wanted of
                Inr replies \<Rightarrow> map_option (\<lambda>plan. (True, plan)) (classify_part_replies e shard replies both_ways plan)
              | Inl _ \<Rightarrow> Some (False, plan))"

fun classify_part_chunks ::
  "externs \<Rightarrow> ae_mesh \<Rightarrow> ae_shard \<Rightarrow> bool \<Rightarrow> ae_mismatch list list \<Rightarrow> repair_plan \<Rightarrow> (bool \<times> repair_plan) option" where
  "classify_part_chunks e mesh shard both_ways [] plan = Some (True, plan)"
| "classify_part_chunks e mesh shard both_ways (chunk # chunks) plan =
     (case classify_part_digest_chunk e mesh shard chunk both_ways plan of
        None \<Rightarrow> None
      | Some (ok, plan) \<Rightarrow> if ok then classify_part_chunks e mesh shard both_ways chunks plan else Some (False, plan))"

definition classify_part_digest_mismatches ::
  "externs \<Rightarrow> ae_mesh \<Rightarrow> ae_shard \<Rightarrow> ae_mismatch list \<Rightarrow> bool \<Rightarrow> repair_plan \<Rightarrow> (bool \<times> repair_plan) option" where
  "classify_part_digest_mismatches e mesh shard mismatches both_ways plan =
     classify_part_chunks e mesh shard both_ways (chunk_mismatches mismatches classify_bucket_size) plan"

text \<open>The fallback listing of every bucket whose sketch did not decode.\<close>

definition list_undecodable :: "ae_mesh \<Rightarrow> ae_shard \<Rightarrow> bool \<Rightarrow> repair_plan \<Rightarrow> bool \<times> repair_plan" where
  "list_undecodable mesh shard both_ways plan =
     (if rp_undecodable plan = [] then (True, plan)
      else let asked = rp_undecodable plan; plan = plan\<lparr>rp_undecodable := []\<rparr>
           in case am_ae_entries mesh asked of
                Inr fallback \<Rightarrow>
                  let by_bucket = hash_map_of (as_entries_for_buckets shard (map fst fallback))
                  in (True, fold (\<lambda>(bucket, peer_entries). diff_into (listed by_bucket bucket) peer_entries both_ways) fallback plan)
              | Inl _ \<Rightarrow> (False, plan))"

definition retain_peer_owned_pushes :: "externs \<Rightarrow> ownership_view option \<Rightarrow> node_id \<Rightarrow> bytes list \<Rightarrow> bytes list" where
  "retain_peer_owned_pushes e view p push_keys =
     (case view of None \<Rightarrow> push_keys | Some v \<Rightarrow> filter (\<lambda>key. p \<in> set (owners_of v (part_of_key e key))) push_keys)"

definition retain_owned_pulls ::
  "externs \<Rightarrow> ownership_view option \<Rightarrow> bytes list \<times> (u16 \<times> u64 list) list \<Rightarrow> bytes list \<times> (u16 \<times> u64 list) list" where
  "retain_owned_pulls e view pulls =
     (case view of
        None \<Rightarrow> pulls
      | Some v \<Rightarrow>
          (filter (\<lambda>key. owns v (part_of_key e key)) (fst pulls),
           filter (\<lambda>(_, hashes). hashes \<noteq> [])
             (map (\<lambda>(bucket, hashes). (bucket, filter (\<lambda>hash. owns v (part_from_hash hash)) hashes)) (snd pulls))))"

text \<open>\<open>reconcile_mismatches\<close> up to the transfers: the plan, and whether every request was answered.\<close>

definition plan_repairs ::
  "externs \<Rightarrow> ae_mesh \<Rightarrow> ae_shard \<Rightarrow> node_id \<Rightarrow> ae_mismatch list \<Rightarrow> (u16 \<Rightarrow> part_mask option) option \<Rightarrow> bool \<Rightarrow>
   (bool \<times> repair_plan) option" where
  "plan_repairs e mesh shard p mismatched in_scope both_ways =
     (let (by_parts, by_buckets) = partition (\<lambda>m. case m of Mis_PartDigests _ _ \<Rightarrow> True | _ \<Rightarrow> False) mismatched
      in Option.bind (classify_bucket_mismatches e shard by_buckets both_ways (repair_plan_default\<lparr>rp_in_scope := in_scope\<rparr>)) (\<lambda>plan.
         map_option (\<lambda>(complete, plan).
           let (listed_all, plan) = list_undecodable mesh shard both_ways plan;
               (pull_keys, pull_hashes) = retain_owned_pulls e (as_ownership_view shard) (rp_pull_keys plan, rp_pull_hashes plan)
           in (complete \<and> listed_all,
               plan\<lparr>rp_pull_keys := pull_keys, rp_pull_hashes := pull_hashes,
                    rp_push_keys := retain_peer_owned_pushes e (as_ownership_view shard) p (rp_push_keys plan)\<rparr>))
           (classify_part_digest_mismatches e mesh shard by_parts both_ways plan)))"

definition matched_parts :: "part_id list \<Rightarrow> (u16 \<times> part_mask) list \<Rightarrow> u16 list \<Rightarrow> part_id list" where
  "matched_parts requested covered named_mismatched =
     filter (\<lambda>part. part \<in> set requested)
       (concat (map (\<lambda>(bucket, mk). map (part_new bucket) (mask_parts mk))
          (filter (\<lambda>(bucket, _). bucket \<notin> set named_mismatched) covered)))"


section \<open>Differences\<close>

lemma hash_map_of_Some: "distinct (map fst xs) \<Longrightarrow> hash_map_of xs k = Some v \<longleftrightarrow> (k, v) \<in> set xs"
  unfolding hash_map_of_def by (subst map_of_eq_Some_iff) (simp_all add: rev_map[symmetric])

lemma hash_map_of_None: "hash_map_of xs k = None \<longleftrightarrow> k \<notin> fst ` set xs"
  by (simp add: hash_map_of_def map_of_eq_None_iff)

lemma classify_eq [simp]:
  "classify_versions (Some l) None b = (True, False)" "classify_versions (Some l) (Some l) b = (False, False)"
  "classify_versions None (Some p) b = (False, True)" "classify_versions None None b = (False, False)"
  "l \<noteq> p \<Longrightarrow> classify_versions (Some l) (Some p) b = (l > p \<or> b, l < p \<or> b)"
  by (simp_all add: classify_versions_def)

text \<open>A bucket's listing as a map from key to version.\<close>

definition listing :: "key_version list \<Rightarrow> bytes \<Rightarrow> hlc option" where
  "listing entries = hash_map_of entries"

lemma listing_Some: "distinct (map fst xs) \<Longrightarrow> listing xs k = Some v \<longleftrightarrow> (k, v) \<in> set xs"
  by (simp add: listing_def hash_map_of_Some)

lemma listing_None: "listing xs k = None \<longleftrightarrow> k \<notin> fst ` set xs"
  by (simp add: listing_def hash_map_of_None)

lemma diff_bucket_sets:
  assumes "distinct (map fst L)" "distinct (map fst P)"
  shows "set (fst (diff_bucket L P both acc)) = set (fst acc) \<union> {k. fst (classify_versions (listing L k) (listing P k) both)}"
    "set (snd (diff_bucket L P both acc)) = set (snd acc) \<union> {k. snd (classify_versions (listing L k) (listing P k) both)}"
proof -
  have sel: "k \<in> set (map fst (filter (\<lambda>kv. Q (classify_versions (Some (snd kv)) (listing P (fst kv)) both)) L)) \<longleftrightarrow>
    listing L k \<noteq> None \<and> Q (classify_versions (listing L k) (listing P k) both)" for k Q
  proof
    assume "k \<in> set (map fst (filter (\<lambda>kv. Q (classify_versions (Some (snd kv)) (listing P (fst kv)) both)) L))"
    then obtain v where "(k, v) \<in> set L" "Q (classify_versions (Some v) (listing P k) both)" by auto
    moreover from this(1) have "listing L k = Some v" using listing_Some[OF assms(1)] by blast
    ultimately show "listing L k \<noteq> None \<and> Q (classify_versions (listing L k) (listing P k) both)" by simp
  next
    assume "listing L k \<noteq> None \<and> Q (classify_versions (listing L k) (listing P k) both)"
    then obtain v where "listing L k = Some v" "Q (classify_versions (Some v) (listing P k) both)" by fastforce
    then have "(k, v) \<in> set L" "Q (classify_versions (Some v) (listing P k) both)" using listing_Some[OF assms(1)] by blast+
    then show "k \<in> set (map fst (filter (\<lambda>kv. Q (classify_versions (Some (snd kv)) (listing P (fst kv)) both)) L))" by force
  qed
  have rem: "k \<in> set (map fst (filter (\<lambda>(key, _). key \<notin> set (map fst L)) P)) \<longleftrightarrow> listing L k = None \<and> listing P k \<noteq> None" for k
    by (force simp: listing_None)
  have none: "classify_versions None q both = (False, q \<noteq> None)" for q by (cases q) simp_all
  have "fst (diff_bucket L P both acc) = fst acc @ map fst (filter (\<lambda>kv. fst (classify_versions (Some (snd kv)) (listing P (fst kv)) both)) L)"
    "snd (diff_bucket L P both acc) = snd acc @ map fst (filter (\<lambda>kv. snd (classify_versions (Some (snd kv)) (listing P (fst kv)) both)) L) @
      map fst (filter (\<lambda>(key, _). key \<notin> set (map fst L)) P)"
    by (simp_all add: diff_bucket_def Let_def case_prod_unfold listing_def)
  then have "k \<in> set (fst (diff_bucket L P both acc)) \<longleftrightarrow> k \<in> set (fst acc) \<or> fst (classify_versions (listing L k) (listing P k) both)"
    "k \<in> set (snd (diff_bucket L P both acc)) \<longleftrightarrow> k \<in> set (snd acc) \<or> snd (classify_versions (listing L k) (listing P k) both)" for k
    using sel[of k fst] sel[of k snd] rem[of k] none[of "listing P k"] by (cases "listing L k"; auto)+
  then show "set (fst (diff_bucket L P both acc)) = set (fst acc) \<union> {k. fst (classify_versions (listing L k) (listing P k) both)}"
    "set (snd (diff_bucket L P both acc)) = set (snd acc) \<union> {k. snd (classify_versions (listing L k) (listing P k) both)}" by blast+
qed


text \<open>
  The elements of two listings: when the hash tells the keys apart, an element stands for one
  entry.
\<close>

definition keys_apart :: "externs \<Rightarrow> key_version list \<Rightarrow> key_version list \<Rightarrow> bool" where
  "keys_apart e L P \<longleftrightarrow> distinct (map fst L) \<and> distinct (map fst P) \<and> inj_on (xxh3 e) (fst ` set L \<union> fst ` set P)"

lemma keys_apart_hash:
  "keys_apart e L P \<Longrightarrow> (k, v) \<in> set L \<union> set P \<Longrightarrow> (k', v') \<in> set L \<union> set P \<Longrightarrow> xxh3 e k = xxh3 e k' \<Longrightarrow> k = k'"
  unfolding keys_apart_def inj_on_def by (metis Un_iff fst_conv image_eqI)

lemma distinct_elems:
  assumes "distinct (map fst L)" "inj_on (xxh3 e) (fst ` set L)"
  shows "distinct (map (entry_elem e) L)" "distinct (map (xxh3 e \<circ> fst) L)"
proof -
  show d: "distinct (map (xxh3 e \<circ> fst) L)"
    using assms by (simp add: distinct_map comp_inj_on)
  have "distinct (map el_key_hash (map (entry_elem e) L))"
    using d by (simp add: o_def entry_elem_def)
  then show "distinct (map (entry_elem e) L)" by (simp only: distinct_map)
qed

lemma elem_in_elems:
  assumes "keys_apart e L P" "(k, v) \<in> set L \<union> set P" "X = L \<or> X = P"
  shows "entry_elem e (k, v) \<in> entry_elem e ` set X \<longleftrightarrow> (k, v) \<in> set X"
proof
  assume "entry_elem e (k, v) \<in> entry_elem e ` set X"
  then obtain k' where k': "(k', v) \<in> set X" "xxh3 e k = xxh3 e k'" by (auto simp: entry_elem_def)
  then have "k = k'" using keys_apart_hash[OF assms(1,2), of k' v] assms(3) by blast
  with k'(1) show "(k, v) \<in> set X" by simp
qed simp

lemma option_unless:
  assumes "\<And>w. x = Some w \<longleftrightarrow> y = Some w \<and> \<not> Q w"
  shows "x = (case y of None \<Rightarrow> None | Some w \<Rightarrow> if Q w then None else Some w)"
proof (cases y)
  case None
  then show ?thesis using assms[of "the x"] by (cases x) simp_all
next
  case (Some a)
  then show ?thesis using assms[of a] assms[of "the x"] by (cases x) (simp_all split: if_split_asm)
qed

lemma elem_map:
  assumes "keys_apart e L P" "X = L \<or> X = P" "Y = L \<or> Y = P" "set xs = entry_elem e ` set X - entry_elem e ` set Y" "distinct xs"
    and "(k, v) \<in> set L \<union> set P"
  shows "hash_map_of (map (\<lambda>x. (el_key_hash x, el_ver x)) xs) (xxh3 e k) =
    (case listing X k of None \<Rightarrow> None | Some w \<Rightarrow> if (k, w) \<in> set Y then None else Some w)"
proof -
  have dX: "distinct (map fst X)" using assms(1,2) by (auto simp: keys_apart_def)
  have in_xs: "Elem (xxh3 e k) w \<in> set xs \<longleftrightarrow> (k, w) \<in> set X \<and> (k, w) \<notin> set Y" for w
  proof
    assume x: "Elem (xxh3 e k) w \<in> set xs"
    then obtain k' where k': "(k', w) \<in> set X" "xxh3 e k = xxh3 e k'" unfolding assms(4) by (auto simp: entry_elem_def)
    then have "k = k'" using keys_apart_hash[OF assms(1) assms(6)] assms(2) by blast
    then show "(k, w) \<in> set X \<and> (k, w) \<notin> set Y" using k' x unfolding assms(4) by (force simp: entry_elem_def)
  next
    assume w: "(k, w) \<in> set X \<and> (k, w) \<notin> set Y"
    then have "entry_elem e (k, w) \<notin> entry_elem e ` set Y" using elem_in_elems[OF assms(1) _ assms(3)] assms(2) by blast
    then show "Elem (xxh3 e k) w \<in> set xs" using w unfolding assms(4) by (force simp: entry_elem_def)
  qed
  have dist: "distinct (map fst (map (\<lambda>x. (el_key_hash x, el_ver x)) xs))"
  proof -
    have "inj_on el_key_hash (set xs)"
    proof (rule inj_onI)
      fix x y assume "x \<in> set xs" "y \<in> set xs" "el_key_hash x = el_key_hash y"
      then obtain k1 v1 k2 v2 where a: "x = entry_elem e (k1, v1)" "(k1, v1) \<in> set X" and b: "y = entry_elem e (k2, v2)" "(k2, v2) \<in> set X"
        unfolding assms(4) by auto
      then have "k1 = k2" using keys_apart_hash[OF assms(1), of k1 v1 k2 v2] assms(2) \<open>el_key_hash x = _\<close> by (auto simp: entry_elem_def)
      then have "v1 = v2" using a(2) b(2) dX by (meson eq_key_imp_eq_value)
      with a b \<open>k1 = k2\<close> show "x = y" by simp
    qed
    then show ?thesis using assms(5) by (simp add: distinct_map o_def)
  qed
  have "hash_map_of (map (\<lambda>x. (el_key_hash x, el_ver x)) xs) (xxh3 e k) = Some w \<longleftrightarrow> (k, w) \<in> set X \<and> (k, w) \<notin> set Y" for w
    unfolding hash_map_of_Some[OF dist] in_xs[symmetric] by (force simp: image_iff)
  then show ?thesis
    unfolding listing_Some[OF dX, symmetric] by (rule option_unless)
qed


lemma in_filter_map: "y \<in> set (List.map_filter f xs) \<longleftrightarrow> (\<exists>x\<in>set xs. f x = Some y)"
  by (induction xs) (auto simp: List.map_filter_simps split: option.splits)

lemma in_map_filtered: "y \<in> set (map f (filter Q xs)) \<longleftrightarrow> (\<exists>x\<in>set xs. Q x \<and> y = f x)"
  by auto

lemma image_minus: "(\<And>a. a \<in> A' \<Longrightarrow> f a \<in> f ` B' \<longleftrightarrow> a \<in> B') \<Longrightarrow> f ` A' - f ` B' = f ` (A' - B')"
  by auto

lemma if_Some_iff: "(if b then y else None) = Some k \<longleftrightarrow> b \<and> y = Some k"
  by simp

lemma classify_None: "classify_versions None q both = (False, q \<noteq> None)"
  by (cases q) simp_all

text \<open>What a decoded difference of two listings is, and what the lookups in it find.\<close>

definition decodes :: "externs \<Rightarrow> key_version list \<Rightarrow> key_version list \<Rightarrow> decoded \<Rightarrow> bool" where
  "decodes e L P d \<longleftrightarrow> distinct (only_left d) \<and> distinct (only_right d) \<and>
     set (only_left d) = entry_elem e ` set L - entry_elem e ` set P \<and>
     set (only_right d) = entry_elem e ` set P - entry_elem e ` set L"

abbreviation remote_versions :: "decoded \<Rightarrow> u64 \<Rightarrow> hlc option" where
  "remote_versions d \<equiv> hash_map_of (map (\<lambda>x. (el_key_hash x, el_ver x)) (only_right d))"

abbreviation local_versions :: "decoded \<Rightarrow> u64 \<Rightarrow> hlc option" where
  "local_versions d \<equiv> hash_map_of (map (\<lambda>x. (el_key_hash x, el_ver x)) (only_left d))"

lemma decoded_sides:
  assumes "keys_apart e L P" "decodes e L P d"
  shows "set (only_left d) = entry_elem e ` (set L - set P)" "set (only_right d) = entry_elem e ` (set P - set L)"
proof -
  show "set (only_left d) = entry_elem e ` (set L - set P)"
    unfolding assms(2)[unfolded decodes_def, THEN conjunct2, THEN conjunct2, THEN conjunct1]
    by (rule image_minus) (use elem_in_elems[OF assms(1) _ disjI2[OF refl]] in force)
  show "set (only_right d) = entry_elem e ` (set P - set L)"
    unfolding assms(2)[unfolded decodes_def, THEN conjunct2, THEN conjunct2, THEN conjunct2]
    by (rule image_minus) (use elem_in_elems[OF assms(1) _ disjI1[OF refl]] in force)
qed

lemma lookup_by_hash:
  assumes "keys_apart e L P" "(k, v) \<in> set L"
  shows "hash_map_of (map (\<lambda>(key, _). (xxh3 e key, key)) L) (xxh3 e k) = Some k"
proof -
  have "distinct (map fst (map (\<lambda>(key, _). (xxh3 e key, key)) L))"
    using distinct_elems(2)[of L e] assms(1) by (simp add: o_def case_prod_unfold keys_apart_def inj_on_Un)
  from hash_map_of_Some[OF this] assms(2) show ?thesis by force
qed

lemma remote_lookup:
  assumes "keys_apart e L P" "decodes e L P d" "(k, v) \<in> set L" "(k, v) \<notin> set P"
  shows "remote_versions d (xxh3 e k) = listing P k"
proof -
  have dL: "distinct (map fst L)" and dP: "distinct (map fst P)" using assms(1) by (simp_all add: keys_apart_def)
  have eq: "remote_versions d (xxh3 e k) = (case listing P k of None \<Rightarrow> None | Some w \<Rightarrow> if (k, w) \<in> set L then None else Some w)"
    by (rule elem_map[OF assms(1) disjI2[OF refl] disjI1[OF refl]]) (use assms(2,3) in \<open>auto simp: decodes_def\<close>)
  show ?thesis
  proof (cases "listing P k")
    case (Some w)
    then have "(k, w) \<in> set P" using listing_Some[OF dP] by blast
    then have "(k, w) \<notin> set L" using assms(3,4) eq_key_imp_eq_value[OF dL] by metis
    then show ?thesis using eq Some by simp
  qed (use eq in simp)
qed

lemma local_lookup:
  assumes "keys_apart e L P" "decodes e L P d" "(k, v) \<in> set P" "(k, v) \<notin> set L"
  shows "local_versions d (xxh3 e k) = None \<longleftrightarrow> listing L k = None"
proof -
  have dL: "distinct (map fst L)" and dP: "distinct (map fst P)" using assms(1) by (simp_all add: keys_apart_def)
  have eq: "local_versions d (xxh3 e k) = (case listing L k of None \<Rightarrow> None | Some w \<Rightarrow> if (k, w) \<in> set P then None else Some w)"
    by (rule elem_map[OF assms(1) disjI1[OF refl] disjI2[OF refl]]) (use assms(2,3) in \<open>auto simp: decodes_def\<close>)
  show ?thesis
  proof (cases "listing L k")
    case (Some w)
    then have "(k, w) \<in> set L" using listing_Some[OF dL] by blast
    then have "(k, w) \<notin> set P" using assms(3,4) eq_key_imp_eq_value[OF dP] by metis
    then show ?thesis using eq Some by simp
  qed (use eq in simp)
qed

text \<open>An entry both sides list alike is classified as nothing to do; the others as in the listing.\<close>

lemma classify_decoded:
  assumes "keys_apart e L P" "decodes e L P d" "\<not> Q (False, False)" "listing L k = Some v"
  shows "Q (classify_versions (listing L k) (listing P k) both) \<longleftrightarrow>
    (\<exists>v. (k, v) \<in> set L \<and> (k, v) \<notin> set P \<and> Q (classify_versions (Some v) (remote_versions d (xxh3 e k)) both))"
proof -
  have dL: "distinct (map fst L)" and dP: "distinct (map fst P)" using assms(1) by (simp_all add: keys_apart_def)
  have v: "(k, v) \<in> set L" using assms(4) listing_Some[OF dL] by blast
  then have uniq: "w = v" if "(k, w) \<in> set L" for w using that eq_key_imp_eq_value[OF dL] by metis
  have rhs: "(\<exists>w. (k, w) \<in> set L \<and> (k, w) \<notin> set P \<and> R w) \<longleftrightarrow> (k, v) \<notin> set P \<and> R v" for R
    using v uniq by blast
  show ?thesis
  proof (cases "(k, v) \<in> set P")
    case True
    then have "listing P k = Some v" using listing_Some[OF dP] by blast
    then show ?thesis using True assms(3,4) unfolding rhs by simp
  next
    case False
    then show ?thesis using remote_lookup[OF assms(1,2) v] assms(4) unfolding rhs by simp
  qed
qed

lemma diff_decoded_pushes:
  assumes "keys_apart e L P" "decodes e L P d"
  shows "k \<in> set (fst (diff_decoded e L d both ([], []))) \<longleftrightarrow> fst (classify_versions (listing L k) (listing P k) both)"
proof -
  have dL: "distinct (map fst L)" using assms(1) by (simp add: keys_apart_def)
  have "k \<in> set (fst (diff_decoded e L d both ([], []))) \<longleftrightarrow>
    (\<exists>x\<in>set (only_left d). fst (classify_versions (Some (el_ver x)) (remote_versions d (el_key_hash x)) both) \<and>
       hash_map_of (map (\<lambda>(key, _). (xxh3 e key, key)) L) (el_key_hash x) = Some k)"
    by (simp add: diff_decoded_def Let_def in_filter_map if_Some_iff)
  also have "\<dots> \<longleftrightarrow> (\<exists>kv\<in>set L - set P. fst (classify_versions (Some (snd kv)) (remote_versions d (xxh3 e (fst kv))) both) \<and> fst kv = k)"
    unfolding decoded_sides(1)[OF assms] using lookup_by_hash[OF assms(1)] by (force simp: entry_elem_def)
  also have "\<dots> \<longleftrightarrow> (\<exists>v. (k, v) \<in> set L \<and> (k, v) \<notin> set P \<and> fst (classify_versions (Some v) (remote_versions d (xxh3 e k)) both))"
    by (simp add: Bex_def split_paired_Ex)
  also have "\<dots> \<longleftrightarrow> fst (classify_versions (listing L k) (listing P k) both)"
  proof (cases "listing L k")
    case None
    then have "\<forall>v. (k, v) \<notin> set L" using listing_Some[OF dL, of k] by auto
    then show ?thesis using None by (simp add: classify_None)
  qed (use classify_decoded[OF assms, of fst] in simp)
  finally show ?thesis .
qed

lemma diff_decoded_pulls:
  assumes "keys_apart e L P" "decodes e L P d"
  shows "h \<in> set (snd (diff_decoded e L d both ([], []))) \<longleftrightarrow>
    (\<exists>k. h = xxh3 e k \<and> snd (classify_versions (listing L k) (listing P k) both))"
proof -
  have dL: "distinct (map fst L)" and dP: "distinct (map fst P)" using assms(1) by (simp_all add: keys_apart_def)
  have "h \<in> set (snd (diff_decoded e L d both ([], []))) \<longleftrightarrow>
    (\<exists>kv\<in>set L - set P. snd (classify_versions (Some (snd kv)) (remote_versions d (xxh3 e (fst kv))) both) \<and> h = xxh3 e (fst kv)) \<or>
    (\<exists>kv\<in>set P - set L. local_versions d (xxh3 e (fst kv)) = None \<and> h = xxh3 e (fst kv))"
    by (simp add: diff_decoded_def Let_def in_map_filtered decoded_sides[OF assms] entry_elem_def del: set_map set_filter)
  also have "\<dots> \<longleftrightarrow> (\<exists>k. h = xxh3 e k \<and>
    ((\<exists>v. (k, v) \<in> set L \<and> (k, v) \<notin> set P \<and> snd (classify_versions (Some v) (remote_versions d (xxh3 e k)) both)) \<or>
     (\<exists>v. (k, v) \<in> set P \<and> (k, v) \<notin> set L \<and> listing L k = None)))"
    by (simp add: Bex_def split_paired_Ex local_lookup[OF assms] cong: conj_cong) blast
  also have "\<dots> \<longleftrightarrow> (\<exists>k. h = xxh3 e k \<and> snd (classify_versions (listing L k) (listing P k) both))"
  proof (intro ex_cong1 conj_cong refl)
    fix k
    show "((\<exists>v. (k, v) \<in> set L \<and> (k, v) \<notin> set P \<and> snd (classify_versions (Some v) (remote_versions d (xxh3 e k)) both)) \<or>
      (\<exists>v. (k, v) \<in> set P \<and> (k, v) \<notin> set L \<and> listing L k = None)) \<longleftrightarrow>
      snd (classify_versions (listing L k) (listing P k) both)"
    proof (cases "listing L k")
      case None
      then have "\<forall>v. (k, v) \<notin> set L" using listing_Some[OF dL, of k] by auto
      moreover have "listing P k \<noteq> None \<longleftrightarrow> (\<exists>v. (k, v) \<in> set P)" unfolding not_None_eq listing_Some[OF dP] ..
      ultimately show ?thesis using None by (simp add: classify_None)
    next
      case (Some v)
      then show ?thesis using classify_decoded[OF assms, of snd] by simp
    qed
  qed
  finally show ?thesis .
qed


section \<open>A sketch off the wire\<close>

lemma local_sketch_eq:
  "foldl (\<lambda>s (key, ver). iblt_insert e (xxh3 e key) ver s) (iblt_new n) L = sketch_of e n (map (entry_elem e) L)"
proof -
  have "foldl (\<lambda>s (key, ver). iblt_insert e (xxh3 e key) ver s) s0 L
    = foldl (\<lambda>s x. iblt_insert e (el_key_hash x) (el_ver x) s) s0 (map (entry_elem e) L)" for s0
    by (induction L arbitrary: s0) (auto simp: entry_elem_def)
  then show ?thesis by (simp add: sketch_of_def)
qed

lemma sketch_of_rounded: "sketch_of e (sketch_len n * iblt_partitions) xs = sketch_of e n xs"
  by (simp add: sketch_of_def iblt_new_def Let_def iblt_partitions_def)

lemma cells_wire_roundtrip:
  assumes "honest e n D s"
  shows "from_cells (into_cells s) = s" "length (into_cells s) = n * iblt_partitions"
  using assms by (cases s, auto simp: from_cells_def into_cells_def honest_def represents_def iblt_partitions_def)

lemma diff_decoded_acc:
  "diff_decoded e L d both acc = (fst acc @ fst (diff_decoded e L d both ([], [])), snd acc @ snd (diff_decoded e L d both ([], [])))"
  by (simp add: diff_decoded_def Let_def)

text \<open>
  C37: reconciling through a sketch does what the listing would. When the peer's sketch of its
  entries arrives, of any size, the classification either returns the same keys to push as the
  listing gives and the hashes of exactly the keys the listing would pull, or leaves the plan
  as it is for the bucket to be listed, and it does the latter exactly when some differing
  entries share all their cells; for hashes that tell the keys and the combinations apart.
\<close>

theorem sketch_agrees_with_listing:
  assumes "keys_apart e L P"
    and "no_accident e (entry_elem e ` set P)
      ((entry_elem e ` set L - entry_elem e ` set P) \<union> (entry_elem e ` set P - entry_elem e ` set L))"
  shows "\<exists>ok ps hs. peel_sketch_into e b (into_cells (sketch_of e n (map (entry_elem e) P))) L both plan =
      Some (ok, if ok then pull_by_hash b hs (plan\<lparr>rp_push_keys := rp_push_keys plan @ ps\<rparr>) else plan) \<and>
    (ok \<longrightarrow> set ps = set (fst (diff_bucket L P both ([], []))) \<and> set hs = xxh3 e ` set (snd (diff_bucket L P both ([], [])))) \<and>
    (\<not> ok \<longleftrightarrow> (\<exists>C. C \<noteq> {} \<and> C \<subseteq> (entry_elem e ` set L - entry_elem e ` set P) \<union> (entry_elem e ` set P - entry_elem e ` set L) \<and>
       stalls e (sketch_len n) C))"
proof -
  have dL: "distinct (map fst L)" and dP: "distinct (map fst P)" using assms(1) by (simp_all add: keys_apart_def)
  have el: "distinct (map (entry_elem e) L)" "distinct (map (entry_elem e) P)"
    using assms(1) by (auto intro!: distinct_elems(1) simp: keys_apart_def inj_on_Un)
  let ?EL = "entry_elem e ` set L" and ?EP = "entry_elem e ` set P"
  let ?wire = "into_cells (sketch_of e n (map (entry_elem e) P))"
  note hon = honest_sketch[OF el(1), of e n, simplified] honest_sketch[OF el(2), of e n, simplified]
  have own: "foldl (\<lambda>s (key, ver). iblt_insert e (xxh3 e key) ver s) (iblt_new (length ?wire)) L = sketch_of e n (map (entry_elem e) L)"
    unfolding local_sketch_eq cells_wire_roundtrip(2)[OF honest_sketch[OF el(2)]] by (rule sketch_of_rounded)
  obtain d where d: "iblt_subtract (sketch_of e n (map (entry_elem e) L)) (sketch_of e n (map (entry_elem e) P)) = Inr d"
    "ib_partition_len d = sketch_len n" "is_well_formed d" "represents e (sketch_len n) ?EP ((?EL - ?EP) \<union> (?EP - ?EL)) (ib_cells d)"
    using subtract_honest[OF honest_sketch[OF el(1), of e n] honest_sketch[OF el(2), of e n]] by auto
  obtain r where r: "peel e d = Some r" "case r of Inl _ \<Rightarrow> True | Inr x \<Rightarrow> decodes e L P x"
    "r = Inl Undecodable \<longleftrightarrow> (\<exists>C. C \<noteq> {} \<and> C \<subseteq> (?EL - ?EP) \<union> (?EP - ?EL) \<and> stalls e (sketch_len n) C)"
  proof -
    have sides: "((?EL - ?EP) \<union> (?EP - ?EL)) - ?EP = ?EL - ?EP" "((?EL - ?EP) \<union> (?EP - ?EL)) \<inter> ?EP = ?EP - ?EL" by blast+
    have "finite ((?EL - ?EP) \<union> (?EP - ?EL))" by simp
    from peel_honest[OF d(3,2,4) this assms(2), unfolded sides] that[unfolded decodes_def] show thesis by (elim exE conjE) 
  qed
  show ?thesis
  proof (cases r)
    case (Inl u)
    then show ?thesis
      using r own d(1) cells_wire_roundtrip(1)[OF honest_sketch[OF el(2)], of e n]
      by (intro exI[of _ False]) (cases u, simp add: peel_sketch_into_def)
  next
    case (Inr x)
    have res: "peel_sketch_into e b ?wire L both plan = Some (True, pull_by_hash b (snd (diff_decoded e L x both ([], [])))
        (plan\<lparr>rp_push_keys := rp_push_keys plan @ fst (diff_decoded e L x both ([], []))\<rparr>))"
      using r(1) Inr own d(1) cells_wire_roundtrip(1)[OF honest_sketch[OF el(2)], of e n] diff_decoded_acc[of e L x both "(rp_push_keys plan, [])"]
      by (simp add: peel_sketch_into_def)
    have dec: "decodes e L P x" using r(2) Inr by simp
    have sets: "set (fst (diff_decoded e L x both ([], []))) = set (fst (diff_bucket L P both ([], [])))"
      "set (snd (diff_decoded e L x both ([], []))) = xxh3 e ` set (snd (diff_bucket L P both ([], [])))"
      using diff_decoded_pushes[OF assms(1) dec] diff_decoded_pulls[OF assms(1) dec] unfolding diff_bucket_sets[OF dL dP] by auto
    have core: "\<not> (\<exists>C. C \<noteq> {} \<and> C \<subseteq> (?EL - ?EP) \<union> (?EP - ?EL) \<and> stalls e (sketch_len n) C)" using r(3) Inr by simp
    show ?thesis
      by (rule exI[of _ True], rule exI[of _ "fst (diff_decoded e L x both ([], []))"],
          rule exI[of _ "snd (diff_decoded e L x both ([], []))"]) (simp only: res sets core if_True simp_thms)
  qed
qed


lemma keys_apart_demo: "keys_apart demo_externs [([1], Hlc 5 0 (NodeId 1))] [([1], Hlc 6 0 (NodeId 1))]"
  by (simp add: keys_apart_def)

theorem sketch_agrees_with_listing_witness:
  "\<exists>ok plan. peel_sketch_into demo_externs 4 (into_cells (sketch_of demo_externs 30 [entry_elem demo_externs ([1], Hlc 6 0 (NodeId 1))]))
    [([1], Hlc 5 0 (NodeId 1))] True repair_plan_default = Some (ok, plan)"
proof -
  have "entry_elem demo_externs ` set [([1], Hlc 5 0 (NodeId 1))] - entry_elem demo_externs ` set [([1], Hlc 6 0 (NodeId 1))] \<union>
    (entry_elem demo_externs ` set [([1], Hlc 6 0 (NodeId 1))] - entry_elem demo_externs ` set [([1], Hlc 5 0 (NodeId 1))])
    = {entry_elem demo_externs ([1], Hlc 5 0 (NodeId 1)), entry_elem demo_externs ([1], Hlc 6 0 (NodeId 1))}"
    by (auto simp: entry_elem_def)
  then have "no_accident demo_externs (entry_elem demo_externs ` set [([1], Hlc 6 0 (NodeId 1))])
    (entry_elem demo_externs ` set [([1], Hlc 5 0 (NodeId 1))] - entry_elem demo_externs ` set [([1], Hlc 6 0 (NodeId 1))] \<union>
    (entry_elem demo_externs ` set [([1], Hlc 6 0 (NodeId 1))] - entry_elem demo_externs ` set [([1], Hlc 5 0 (NodeId 1))]))"
    by (simp only:) (rule no_accident_pair, simp_all add: entry_elem_def)
  from sketch_agrees_with_listing[OF keys_apart_demo this, of 4 30 True repair_plan_default]
  show ?thesis by auto
qed

section \<open>Skipping a streaming peer\<close>

record turn_input =
  ti_pick :: "node_id list \<Rightarrow> node_id option"
  ti_filter :: "node_id list \<Rightarrow> node_id list \<Rightarrow> node_id list \<times> node_id list"
  ti_streaming :: "node_id \<Rightarrow> bool"
  ti_live :: "node_id list"
  ti_dirty :: "node_id list"

definition run_turn :: "turn_input \<Rightarrow> (node_id, u32) btree_map \<Rightarrow> node_id option \<times> (node_id, u32) btree_map \<times> node_id list" where
  "run_turn t = scheduler_turn (ti_pick t) (ti_filter t) (ti_streaming t) (ti_live t) (ti_dirty t)"

fun run_turns :: "turn_input list \<Rightarrow> (node_id, u32) btree_map \<Rightarrow> node_id option list" where
  "run_turns [] skipped = []"
| "run_turns (t # ts) skipped = (case run_turn t skipped of (target, skipped, _) \<Rightarrow> target # run_turns ts skipped)"

definition picks :: "node_id \<Rightarrow> turn_input \<Rightarrow> bool" where
  "picks p t \<longleftrightarrow> map_option fst (case ti_filter t (ti_dirty t) (ti_live t) of (d, l) \<Rightarrow> choose_peer (ti_pick t) d l) = Some p"

definition skips_of :: "node_id \<Rightarrow> (node_id, u32) btree_map \<Rightarrow> u32" where
  "skips_of p skipped = map_or 0 (\<lambda>n. n) (bm_get skipped p)"

lemma run_turn_skips:
  assumes "p \<in> set (ti_live t)" "fst (run_turn t skipped) \<noteq> Some p"
  shows "skips_of p (fst (snd (run_turn t skipped))) = (if picks p t then skips_of p skipped + 1 else skips_of p skipped)"
    "picks p t \<Longrightarrow> skips_of p skipped < 3"
proof -
  obtain d l where dl: "ti_filter t (ti_dirty t) (ti_live t) = (d, l)" by (cases "ti_filter t (ti_dirty t) (ti_live t)")
  have kept: "bm_get (forget_departed_skips (ti_live t) skipped) p = bm_get skipped p"
    using assms(1) by (simp add: forget_departed_skips_def bm_get_retain split: option.split)
  have "skips_of p (fst (snd (run_turn t skipped))) = (if picks p t then skips_of p skipped + 1 else skips_of p skipped) \<and>
    (picks p t \<longrightarrow> skips_of p skipped < 3)"
    using assms(2) kept
    by (auto simp: run_turn_def scheduler_turn_def dl picks_def skips_of_def should_skip_round_def max_streaming_skips_def Let_def
        split: option.splits prod.splits if_splits)
  then show "skips_of p (fst (snd (run_turn t skipped))) = (if picks p t then skips_of p skipped + 1 else skips_of p skipped)"
    "picks p t \<Longrightarrow> skips_of p skipped < 3" by blast+
qed

lemma skipped_picks_bounded:
  assumes "\<forall>t\<in>set ts. p \<in> set (ti_live t)" "Some p \<notin> set (run_turns ts skipped)" "skips_of p skipped \<le> 3"
  shows "unat (skips_of p skipped) + length (filter (picks p) ts) \<le> 3"
  using assms
proof (induction ts arbitrary: skipped)
  case Nil
  then show ?case by (simp add: word_le_nat_alt)
next
  case (Cons t ts)
  obtain target skipped' give where run: "run_turn t skipped = (target, skipped', give)" by (metis prod_cases3)
  have nt: "fst (run_turn t skipped) \<noteq> Some p" "Some p \<notin> set (run_turns ts skipped')"
    using Cons.prems(2) by (auto simp: run)
  note st = run_turn_skips[OF _ nt(1)]
  show ?case
  proof (cases "picks p t")
    case True
    then have lt: "skips_of p skipped < 3" and up: "skips_of p skipped' = skips_of p skipped + 1"
      using st Cons.prems(1) by (simp_all add: run)
    then have "skips_of p skipped \<noteq> - 1" using word_not_max_of_less by blast
    then have un: "unat (skips_of p skipped') = Suc (unat (skips_of p skipped))" unfolding up by (rule unat_inc)
    then have "skips_of p skipped' \<le> 3" using lt by (simp add: word_le_nat_alt word_less_nat_alt)
    from Cons.IH[OF _ nt(2) this] Cons.prems(1) True un show ?thesis by simp
  next
    case False
    then show ?thesis using st(1) Cons.IH[OF _ nt(2)] Cons.prems by (simp add: run)
  qed
qed

text \<open>
  Traffic in motion never starves a peer of anti-entropy. Over any sequence of scheduler
  turns in which a peer stays live, at whatever turns it is picked and however the other peers
  are interleaved, a round runs against it by the fourth time it is picked.
\<close>

theorem streaming_peer_not_starved:
  assumes "\<forall>t\<in>set ts. p \<in> set (ti_live t)" "3 < length (filter (picks p) ts)"
  shows "Some p \<in> set (run_turns ts skipped)"
proof (cases "skips_of p skipped \<le> 3")
  case True
  then show ?thesis using skipped_picks_bounded[OF assms(1) _ True] assms(2) by force
next
  case False
  show ?thesis
  proof (rule ccontr)
    assume none: "Some p \<notin> set (run_turns ts skipped)"
    have "length (filter (picks p) ts) = 0"
      using assms(1) none False
    proof (induction ts arbitrary: skipped)
      case (Cons t ts)
      obtain target skipped' give where run: "run_turn t skipped = (target, skipped', give)" by (metis prod_cases3)
      have nt: "fst (run_turn t skipped) \<noteq> Some p" "Some p \<notin> set (run_turns ts skipped')"
        using Cons.prems(2) by (auto simp: run)
      note st = run_turn_skips[OF _ nt(1)]
      have "\<not> picks p t" using st(2) Cons.prems(1,3) by (auto simp: not_le)
      then show ?case using st(1) Cons.IH[OF _ nt(2)] Cons.prems by (simp add: run)
    qed simp
    with assms(2) show False by simp
  qed
qed


definition demo_turn :: turn_input where
  "demo_turn = \<lparr>ti_pick = (\<lambda>ns. case ns of [] \<Rightarrow> None | n # _ \<Rightarrow> Some n), ti_filter = (\<lambda>d l. (d, l)), ti_streaming = (\<lambda>_. True),
     ti_live = [NodeId 2], ti_dirty = []\<rparr>"

theorem streaming_peer_not_starved_witness:
  "Some (NodeId 2) \<in> set (run_turns [demo_turn, demo_turn, demo_turn, demo_turn] bm_empty)"
  by (rule streaming_peer_not_starved) (simp_all add: demo_turn_def picks_def choose_peer_def)

section \<open>Parts that differ\<close>

lemma mismatched_parts_iff:
  assumes "length own = part_count" "length remote = part_count" "p < part_count"
  shows "of_nat p \<in> set (mismatched_parts own remote) \<longleftrightarrow> own ! p \<noteq> remote ! p"
proof -
  have inj: "(of_nat i :: u8) = of_nat p \<longleftrightarrow> i = p" if "i < part_count" for i
    using that assms(3) by (auto simp: part_count_def word_unat_eq_iff unat_of_nat)
  have "set (mismatched_parts own remote) = of_nat ` {i. i < part_count \<and> own ! i \<noteq> remote ! i}"
    using assms(1,2) by (auto simp: mismatched_parts_def Let_def part_count_def)
  then have "of_nat p \<in> set (mismatched_parts own remote) \<longleftrightarrow> (\<exists>i < part_count. (of_nat i :: u8) = of_nat p \<and> own ! i \<noteq> remote ! i)"
    by (auto simp: image_iff)
  then show ?thesis using inj assms(3) by blast
qed

text \<open>
  An index one side lacks reads as an empty part, so it is named only when the other side's
  digest is not zero.
\<close>

lemma lacking_index_reads_as_empty:
  "mismatched_parts [7, 0] [7] = [] \<and> mismatched_parts [7, 9] [7] = [1]"
  by code_simp

text \<open>A part counts as matched only when it was asked for, compared, and its bucket was not named.\<close>

lemma mask_parts_iff: "q \<in> set (mask_parts mk) \<longleftrightarrow> mask_contains mk q \<and> unat q < part_count"
proof -
  have "(\<exists>i < part_count. q = of_nat i) \<longleftrightarrow> unat q < part_count"
    by (auto simp: part_count_def unat_of_nat intro: exI[of _ "unat q"])
  then show ?thesis by (auto simp: mask_parts_def)
qed

lemma small_part: "unat q < part_count \<Longrightarrow> q AND 0x3F = q" for q :: u8
proof -
  assume "unat q < part_count"
  then have "take_bit 6 q = q" by (simp add: part_count_def word_unat_eq_iff unsigned_take_bit_eq take_bit_nat_eq_self_iff)
  then show ?thesis by (simp add: take_bit_eq_mask mask_numeral)
qed

lemma matched_parts_iff:
  assumes "\<forall>(b, _) \<in> set covered. unat b < bucket_count"
  shows "p \<in> set (matched_parts requested covered named) \<longleftrightarrow>
    p \<in> set requested \<and> part_bucket p \<notin> set named \<and> (\<exists>mk. (part_bucket p, mk) \<in> set covered \<and> mask_contains mk (part_part p))"
proof
  assume "p \<in> set (matched_parts requested covered named)"
  then obtain b mk q where *: "p \<in> set requested" "(b, mk) \<in> set covered" "b \<notin> set named" "q \<in> set (mask_parts mk)" "p = part_new b q"
    by (auto simp: matched_parts_def)
  have "part_bucket p = b" using *(2,5) assms small_bucket by (fastforce simp: part_bucket_new)
  moreover have "part_part p = q" using *(4,5) unfolding mask_parts_iff by (simp add: part_part_new small_part)
  ultimately show "p \<in> set requested \<and> part_bucket p \<notin> set named \<and> (\<exists>mk. (part_bucket p, mk) \<in> set covered \<and> mask_contains mk (part_part p))"
    using * unfolding mask_parts_iff by blast
next
  assume *: "p \<in> set requested \<and> part_bucket p \<notin> set named \<and> (\<exists>mk. (part_bucket p, mk) \<in> set covered \<and> mask_contains mk (part_part p))"
  then obtain mk where mk: "(part_bucket p, mk) \<in> set covered" "mask_contains mk (part_part p)" by blast
  have "part_part p \<in> set (mask_parts mk)" using mk(2) part_part_lt by (simp add: mask_parts_iff)
  then show "p \<in> set (matched_parts requested covered named)"
    using * mk(1) part_new_split[of p] by (force simp: matched_parts_def)
qed

end
