(* ===== verification/Ae_Repair.thy ===== *)
theory Ae_Repair
  imports Anti_Entropy
begin

text \<open>
  The transfers of an anti-entropy round, the second half of
  \<^verbatim>\<open>sundog/src/cluster/anti_entropy.rs\<close>: pulls in batches whose size follows how fast the peer
  answers, pushes in batches of a fixed size, and the order of the two. The peer is an argument:
  \<open>answer\<close> gives the reply to the request made as the \<open>n\<close>-th of the round and how long it took.
  The shard is its state with \<open>apply\<close>, the application of pulled records, and \<open>records_for\<close>. The
  loop over one source is a \<^theory_text>\<open>partial_function\<close>, so that it is proved, not assumed, to end.
\<close>

section \<open>Batches and limits\<close>

definition repair_batch :: nat where
  "repair_batch = 4096"

definition repair_batch_key_bytes :: nat where
  "repair_batch_key_bytes = 512 * 1024"

fun pull_batch_loop :: "nat \<Rightarrow> nat \<Rightarrow> nat \<Rightarrow> nat \<Rightarrow> bytes list \<Rightarrow> nat" where
  "pull_batch_loop max_keys max_bytes index bs [] = index"
| "pull_batch_loop max_keys max_bytes index bs (key # ks) =
     (if index > 0 \<and> (index \<ge> max_keys \<or> bs + length key > max_bytes) then index
      else pull_batch_loop max_keys max_bytes (Suc index) (bs + length key) ks)"

definition pull_batch_len :: "bytes list \<Rightarrow> nat \<Rightarrow> nat \<Rightarrow> nat" where
  "pull_batch_len ks max_keys max_bytes = pull_batch_loop max_keys max_bytes 0 0 ks"

definition max_consecutive_pull_failures :: u32 where
  "max_consecutive_pull_failures = 2"

definition pull_gives_up :: "u32 \<Rightarrow> bool" where
  "pull_gives_up consecutive_failures \<longleftrightarrow> consecutive_failures \<ge> max_consecutive_pull_failures"

datatype pull_outcome = Pull_TimedOut | Pull_Failed | Pull_Answered bool

definition next_pull_limit :: "nat \<Rightarrow> pull_outcome \<Rightarrow> nat" where
  "next_pull_limit limit outcome =
     (case outcome of
        Pull_TimedOut \<Rightarrow> max (limit div 2) 1
      | Pull_Answered True \<Rightarrow> min (limit * 2) repair_batch
      | _ \<Rightarrow> limit)"

definition pull_timed_out :: "fetch_error \<Rightarrow> bool" where
  "pull_timed_out err \<longleftrightarrow> err = Err_Io Io_TimedOut"

definition pull_was_quick :: "nat \<Rightarrow> nat \<Rightarrow> bool" where
  "pull_was_quick elapsed timeout \<longleftrightarrow> elapsed \<le> timeout div 4"

definition pull_outcome_of :: "fetch_error + 'a \<Rightarrow> nat \<Rightarrow> nat \<Rightarrow> pull_outcome" where
  "pull_outcome_of reply elapsed timeout =
     (case reply of
        Inr _ \<Rightarrow> Pull_Answered (pull_was_quick elapsed timeout)
      | Inl err \<Rightarrow> if pull_timed_out err then Pull_TimedOut else Pull_Failed)"

record pull_step =
  ps_limit :: nat
  ps_consumed :: bool

definition pull_step_of :: "nat \<Rightarrow> nat \<Rightarrow> pull_outcome \<Rightarrow> pull_step" where
  "pull_step_of limit sent outcome =
     (let timed_out = outcome = Pull_TimedOut
      in \<lparr>ps_limit = next_pull_limit (if timed_out then min limit sent else limit) outcome,
          ps_consumed = (\<not> (timed_out \<and> sent > 1))\<rparr>)"

datatype pull_source = Src_Keys "bytes list" | Src_Hashes u16 "u64 list"

fun source_len :: "pull_source \<Rightarrow> nat" where
  "source_len (Src_Keys ks) = length ks"
| "source_len (Src_Hashes _ hs) = length hs"

fun batch_len :: "pull_source \<Rightarrow> nat \<Rightarrow> nat \<Rightarrow> nat" where
  "batch_len (Src_Keys ks) done_so_far limit = pull_batch_len (drop done_so_far ks) limit repair_batch_key_bytes"
| "batch_len (Src_Hashes _ hs) done_so_far limit = min (length hs - done_so_far) limit"

datatype pull_request = Pull_Keys "bytes list" | Pull_Hashes u16 "u64 list"

fun request_of :: "pull_source \<Rightarrow> nat \<Rightarrow> nat \<Rightarrow> pull_request" where
  "request_of (Src_Keys ks) done_so_far n = Pull_Keys (take n (drop done_so_far ks))"
| "request_of (Src_Hashes bucket hs) done_so_far n = Pull_Hashes bucket (take n (drop done_so_far hs))"

section \<open>The pull loop\<close>

record tally =
  ta_repaired :: u64
  ta_bytes_moved :: u64

definition wire_record_len :: "nat \<Rightarrow> wire_record \<Rightarrow> u64" where
  "wire_record_len cache_len rec =
     of_nat (replicate_frame_len cache_len (length (wr_key rec)) (map_or 0 length (wr_value rec)))"

definition tally_add :: "nat \<Rightarrow> wire_record list \<Rightarrow> tally \<Rightarrow> tally" where
  "tally_add cache_len recs t =
     t\<lparr>ta_repaired := ta_repaired t + of_nat (length recs),
       ta_bytes_moved := ta_bytes_moved t + sum_list (map (wire_record_len cache_len) recs)\<rparr>"

text \<open>What the loop carries: the shard, the records pulled by key, whether all was answered, the run of failures, the limit, the limit the mesh keeps for the peer and cache, the tally and the number of requests made.\<close>

record 's pull_state =
  pl_shard :: 's
  pl_pulled :: "bytes \<Rightarrow> hlc option"
  pl_complete :: bool
  pl_failures :: u32
  pl_limit :: nat
  pl_kept :: "nat option"
  pl_tally :: tally
  pl_asked :: nat

text \<open>\<open>pe_known\<close> says whether the mesh knows the peer: it keeps no limit for one it does not.\<close>

record 's pull_env =
  pe_known :: bool
  pe_answer :: "nat \<Rightarrow> pull_request \<Rightarrow> (fetch_error + wire_record list) \<times> nat"
  pe_apply :: "wire_record list \<Rightarrow> 's \<Rightarrow> 's"
  pe_timeout :: nat
  pe_cache_len :: nat

definition take_reply :: "'s pull_env \<Rightarrow> fetch_error + wire_record list \<Rightarrow> 's pull_state \<Rightarrow> 's pull_state" where
  "take_reply env reply st =
     (case reply of
        Inr recs \<Rightarrow>
          st\<lparr>pl_failures := 0, pl_tally := tally_add (pe_cache_len env) recs (pl_tally st),
             pl_pulled := fold (\<lambda>rec m. m(wr_key rec \<mapsto> wr_ver rec)) recs (pl_pulled st),
             pl_shard := pe_apply env recs (pl_shard st)\<rparr>
      | Inl _ \<Rightarrow> st\<lparr>pl_complete := False, pl_failures := pl_failures st + 1\<rparr>)"

text \<open>\<open>note_pull_limit\<close> without its log lines: \<open>Mesh::set_pull_limit\<close>.\<close>

definition note_pull_limit :: "bool \<Rightarrow> nat \<Rightarrow> nat option \<Rightarrow> nat option" where
  "note_pull_limit known new kept = (if known then Some new else kept)"

definition note_step :: "'s pull_env \<Rightarrow> nat \<Rightarrow> 's pull_state \<Rightarrow> 's pull_state" where
  "note_step env limit st =
     (if limit \<noteq> pl_limit st
      then st\<lparr>pl_kept := note_pull_limit (pe_known env) limit (pl_kept st), pl_limit := limit\<rparr>
      else st)"

definition pull_turn :: "'s pull_env \<Rightarrow> pull_source \<Rightarrow> nat \<Rightarrow> 's pull_state \<Rightarrow> nat \<times> 's pull_state" where
  "pull_turn env source done_so_far st =
     (let sent = batch_len source done_so_far (pl_limit st);
          (reply, elapsed) = pe_answer env (pl_asked st) (request_of source done_so_far sent);
          step = pull_step_of (pl_limit st) sent (pull_outcome_of reply elapsed (pe_timeout env));
          st = take_reply env reply (st\<lparr>pl_asked := Suc (pl_asked st)\<rparr>)
      in (if ps_consumed step then done_so_far + sent else done_so_far, note_step env (ps_limit step) st))"

text \<open>The flag says that the loop ran out of entries, not of patience.\<close>

partial_function (option) pull_source_loop ::
  "'s pull_env \<Rightarrow> pull_source \<Rightarrow> nat \<Rightarrow> 's pull_state \<Rightarrow> (bool \<times> 's pull_state) option" where
  "pull_source_loop env source done_so_far st =
     (if \<not> done_so_far < source_len source then Some (True, st)
      else case pull_turn env source done_so_far st of
             (done_so_far, st) \<Rightarrow>
               if pull_gives_up (pl_failures st) then Some (False, st)
               else pull_source_loop env source done_so_far st)"

fun pull_sources :: "'s pull_env \<Rightarrow> pull_source list \<Rightarrow> 's pull_state \<Rightarrow> 's pull_state option" where
  "pull_sources env [] st = Some st"
| "pull_sources env (source # sources) st =
     (case pull_source_loop env source 0 st of
        None \<Rightarrow> None
      | Some (ran_out, st) \<Rightarrow> if ran_out then pull_sources env sources st else Some st)"

text \<open>\<open>kept_limit\<close> is \<open>Mesh::pull_limit\<close> for the peer and cache; \<open>pl_kept\<close> is what the mesh keeps after.\<close>

definition pull_repairs ::
  "'s pull_env \<Rightarrow> nat option \<Rightarrow> bytes list \<Rightarrow> (u16 \<times> u64 list) list \<Rightarrow> nat \<Rightarrow> tally \<Rightarrow> 's \<Rightarrow> 's pull_state option" where
  "pull_repairs env kept_limit pull_keys pull_hashes asked t shard =
     pull_sources env (Src_Keys pull_keys # map (\<lambda>(bucket, hs). Src_Hashes bucket hs) pull_hashes)
       \<lparr>pl_shard = shard, pl_pulled = Map.empty, pl_complete = True, pl_failures = 0,
        pl_limit = map_or repair_batch (\<lambda>l. l) kept_limit, pl_kept = kept_limit, pl_tally = t, pl_asked = asked\<rparr>"

section \<open>Pushes\<close>

definition push_needed :: "hlc \<Rightarrow> hlc option \<Rightarrow> bool" where
  "push_needed own pulled \<longleftrightarrow> pulled \<noteq> Some own"

text \<open>
  The records of one push batch: \<open>records_for\<close> reads the shard, \<open>framed\<close> is its
  \<open>skip_unframeable\<close>, \<open>send\<close> hands them to the peer's outbox and says whether it took them.
\<close>

definition push_batch :: "(bytes list \<Rightarrow> wire_record list) \<Rightarrow> (wire_record list \<Rightarrow> wire_record list) \<Rightarrow> (bytes \<Rightarrow> hlc option) \<Rightarrow> bytes list \<Rightarrow> wire_record list" where
  "push_batch records_for framed pulled batch =
     filter (\<lambda>rec. push_needed (wr_ver rec) (pulled (wr_key rec))) (framed (records_for batch))"

definition push_repairs ::
  "nat \<Rightarrow> (bytes list \<Rightarrow> wire_record list) \<Rightarrow> (wire_record list \<Rightarrow> wire_record list) \<Rightarrow> (wire_record list \<Rightarrow> bool) \<Rightarrow> bytes list \<Rightarrow> (bytes \<Rightarrow> hlc option) \<Rightarrow> tally \<Rightarrow>
   wire_record list list \<times> bool \<times> tally" where
  "push_repairs cache_len records_for framed send push_keys pulled t =
     foldl (\<lambda>(sent, enqueued, t) batch.
        let recs = push_batch records_for framed pulled batch
        in (sent @ [recs], enqueued \<and> send recs, tally_add cache_len recs t))
       ([], True, t) (chunk_mismatches push_keys repair_batch)"

text \<open>\<open>apply_repairs\<close>: with a resolver that merges or reads values the pulls come first.\<close>

definition apply_repairs ::
  "'s pull_env \<Rightarrow> nat option \<Rightarrow> ('s \<Rightarrow> bytes list \<Rightarrow> wire_record list) \<Rightarrow>
   ('s \<Rightarrow> wire_record list \<Rightarrow> wire_record list) \<Rightarrow> (wire_record list \<Rightarrow> bool) \<Rightarrow>
   bytes list \<Rightarrow> bytes list \<Rightarrow> (u16 \<times> u64 list) list \<Rightarrow> bool \<Rightarrow> 's \<Rightarrow> (wire_record list list \<times> bool \<times> u64 \<times> nat option \<times> 's) option" where
  "apply_repairs env kept_limit records_for framed send push_keys pull_keys pull_hashes both_ways shard =
     (let t0 = \<lparr>ta_repaired = 0, ta_bytes_moved = 0\<rparr>
      in if both_ways then
           map_option (\<lambda>st.
             let (sent, pushed_all, t) = push_repairs (pe_cache_len env) (records_for (pl_shard st)) (framed (pl_shard st)) send push_keys (pl_pulled st) (pl_tally st)
             in (sent, pl_complete st \<and> pushed_all, ta_bytes_moved t, pl_kept st, pl_shard st))
             (pull_repairs env kept_limit pull_keys pull_hashes 0 t0 shard)
         else
           (case push_repairs (pe_cache_len env) (records_for shard) (framed shard) send push_keys Map.empty t0 of
              (sent, pushed_all, t) \<Rightarrow>
                map_option (\<lambda>st. (sent, pushed_all \<and> pl_complete st, ta_bytes_moved (pl_tally st), pl_kept st, pl_shard st))
                  (pull_repairs env kept_limit pull_keys pull_hashes 0 t shard)))"

section \<open>Batches cover the entries\<close>

text \<open>The limits the mesh may keep for a peer.\<close>

definition kept_ok :: "nat option \<Rightarrow> bool" where
  "kept_ok = is_none_or (\<lambda>l. 0 < l \<and> l \<le> repair_batch)"

lemma pull_batch_loop_bounds:
  "index \<le> pull_batch_loop mk mb index bs ks" "pull_batch_loop mk mb index bs ks \<le> index + length ks"
  by (induction mk mb index bs ks rule: pull_batch_loop.induct) auto

lemma pull_batch_len_bounds:
  "ks \<noteq> [] \<Longrightarrow> 0 < pull_batch_len ks mk mb" "pull_batch_len ks mk mb \<le> length ks"
  using pull_batch_loop_bounds(1)[of 1 mk mb "length (hd ks)" "tl ks"] pull_batch_loop_bounds(2)[of mk mb 0 0 ks]
  by (cases ks; simp add: pull_batch_len_def)+

lemma pull_batch_loop_within: "index \<le> max 1 mk \<Longrightarrow> pull_batch_loop mk mb index bs ks \<le> max 1 mk"
  by (induction mk mb index bs ks rule: pull_batch_loop.induct) (auto simp: max_def split: if_splits)

lemma batch_len_bounds:
  assumes "done_so_far < source_len source" "0 < limit"
  shows "0 < batch_len source done_so_far limit" "done_so_far + batch_len source done_so_far limit \<le> source_len source"
    "batch_len source done_so_far limit \<le> limit"
proof -
  have "0 < batch_len source done_so_far limit \<and> done_so_far + batch_len source done_so_far limit \<le> source_len source \<and>
    batch_len source done_so_far limit \<le> limit"
  proof (cases source)
    case (Src_Keys ks)
    have "drop done_so_far ks \<noteq> []" using assms(1) Src_Keys by simp
    then show ?thesis
      using pull_batch_len_bounds[of "drop done_so_far ks" limit repair_batch_key_bytes] assms Src_Keys
        pull_batch_loop_within[of 0 limit repair_batch_key_bytes 0 "drop done_so_far ks"]
      by (auto simp: pull_batch_len_def)
  qed (use assms in auto)
  then show "0 < batch_len source done_so_far limit" "done_so_far + batch_len source done_so_far limit \<le> source_len source"
    "batch_len source done_so_far limit \<le> limit" by blast+
qed

text \<open>The entries a source holds and a request asks for.\<close>

fun source_entries :: "pull_source \<Rightarrow> (bytes + u16 \<times> u64) list" where
  "source_entries (Src_Keys ks) = map Inl ks"
| "source_entries (Src_Hashes b hs) = map (\<lambda>h. Inr (b, h)) hs"

fun request_entries :: "pull_request \<Rightarrow> (bytes + u16 \<times> u64) list" where
  "request_entries (Pull_Keys ks) = map Inl ks"
| "request_entries (Pull_Hashes b hs) = map (\<lambda>h. Inr (b, h)) hs"

lemma length_source_entries [simp]: "length (source_entries source) = source_len source"
  by (cases source) simp_all

lemma request_of_entries: "request_entries (request_of source d n) = take n (drop d (source_entries source))"
  by (cases source) (simp_all add: take_map drop_map)

section \<open>One request\<close>

lemma next_pull_limit_pos: "0 < limit \<Longrightarrow> 0 < next_pull_limit limit outcome"
  by (auto simp: next_pull_limit_def repair_batch_def split: pull_outcome.split bool.split)

lemma next_pull_limit_le: "limit \<le> repair_batch \<Longrightarrow> next_pull_limit limit outcome \<le> repair_batch"
  by (auto simp: next_pull_limit_def repair_batch_def split: pull_outcome.split bool.split)

definition pull_ok :: "'s pull_state \<Rightarrow> bool" where
  "pull_ok st \<longleftrightarrow> 0 < pl_limit st \<and> pl_limit st \<le> repair_batch \<and> kept_ok (pl_kept st) \<and> unat (pl_failures st) < 2"

lemma note_step_simps [simp]:
  "pl_shard (note_step env l st) = pl_shard st" "pl_pulled (note_step env l st) = pl_pulled st"
  "pl_complete (note_step env l st) = pl_complete st" "pl_failures (note_step env l st) = pl_failures st"
  "pl_limit (note_step env l st) = l" "pl_tally (note_step env l st) = pl_tally st" "pl_asked (note_step env l st) = pl_asked st"
  by (simp_all add: note_step_def)

text \<open>
  What a turn does when the peer answers, and when it does not: an answered request is done and
  applied; a failed one is done too unless it timed out with several entries, and the run of
  failures grows.
\<close>

lemma pull_turn_cases:
  assumes "pull_ok st" "d < source_len source" "pull_turn env source d st = (d', st')"
  obtains
    (answered) recs sent where "fst (pe_answer env (pl_asked st) (request_of source d sent)) = Inr recs" "0 < sent"
      "sent \<le> pl_limit st" "d + sent \<le> source_len source" "d' = d + sent"
      "pl_shard st' = pe_apply env recs (pl_shard st)" "pl_complete st' = pl_complete st" "pl_failures st' = 0"
      "pl_asked st' = Suc (pl_asked st)" "pull_ok st'"
  | (failed) "pl_complete st' = False" "pl_failures st' = pl_failures st + 1" "pl_shard st' = pl_shard st"
      "d \<le> d'" "d' \<le> source_len source" "pl_asked st' = Suc (pl_asked st)" "0 < pl_limit st'" "pl_limit st' \<le> repair_batch" "kept_ok (pl_kept st')"
proof -
  define sent where "sent = batch_len source d (pl_limit st)"
  have lim: "0 < pl_limit st" "pl_limit st \<le> repair_batch" and kept: "kept_ok (pl_kept st)" using assms(1) by (simp_all add: pull_ok_def)
  have sent: "0 < sent" "d + sent \<le> source_len source" "sent \<le> pl_limit st"
    unfolding sent_def using batch_len_bounds[OF assms(2) lim(1)] by blast+
  obtain reply elapsed where ans: "pe_answer env (pl_asked st) (request_of source d sent) = (reply, elapsed)" by force
  define step where "step = pull_step_of (pl_limit st) sent (pull_outcome_of reply elapsed (pe_timeout env))"
  have d': "d' = (if ps_consumed step then d + sent else d)"
    and st': "st' = note_step env (ps_limit step) (take_reply env reply (st\<lparr>pl_asked := Suc (pl_asked st)\<rparr>))"
    using assms(3) ans by (simp_all add: pull_turn_def Let_def sent_def[symmetric] step_def)
  have limit: "0 < ps_limit step" "ps_limit step \<le> repair_batch"
    unfolding step_def pull_step_of_def Let_def using next_pull_limit_pos next_pull_limit_le sent(1,3) lim by simp_all
  have noted: "0 < pl_limit (note_step env (ps_limit step) s)" "pl_limit (note_step env (ps_limit step) s) \<le> repair_batch"
    "kept_ok (pl_kept (note_step env (ps_limit step) s))" if "pl_kept s = pl_kept st" for s
    using limit kept that by (auto simp: note_step_def note_pull_limit_def kept_ok_def)
  show thesis
  proof (cases reply)
    case (Inr recs)
    then have "ps_consumed step" by (simp add: step_def pull_step_of_def pull_outcome_of_def)
    with Inr ans sent limit d' st' show thesis
      by (intro answered[of sent recs]) (simp_all add: take_reply_def pull_ok_def noted)
  next
    case (Inl err)
    with sent limit d' st' show thesis by (intro failed) (simp_all add: take_reply_def noted)
  qed
qed

section \<open>The loop ends and covers its source\<close>

text \<open>The requests an answered run made: each applied in turn, together all of the entries.\<close>

definition pulled_by :: "'s pull_env \<Rightarrow> (bytes + u16 \<times> u64) list \<Rightarrow> nat \<times> 's \<Rightarrow> nat \<times> 's \<Rightarrow> bool" where
  "pulled_by env entries from to \<longleftrightarrow>
     (\<exists>rs recss. concat (map request_entries rs) = entries \<and> length recss = length rs \<and> fst to = fst from + length rs \<and>
        (\<forall>i < length rs. fst (pe_answer env (fst from + i) (rs ! i)) = Inr (recss ! i) \<and> length (request_entries (rs ! i)) \<le> repair_batch) \<and>
        snd to = fold (pe_apply env) recss (snd from))"

lemma pulled_by_Nil: "pulled_by env [] from from"
  unfolding pulled_by_def by (intro exI[of _ "[]"]) simp

lemma pulled_by_one:
  assumes "fst (pe_answer env n r) = Inr recs" "length (request_entries r) \<le> repair_batch"
  shows "pulled_by env (request_entries r) (n, s) (Suc n, pe_apply env recs s)"
  unfolding pulled_by_def by (intro exI[of _ "[r]"] exI[of _ "[recs]"]) (use assms in simp)

lemma pulled_by_append:
  assumes "pulled_by env xs a b" "pulled_by env ys b c"
  shows "pulled_by env (xs @ ys) a c"
proof -
  obtain rs recss where r: "concat (map request_entries rs) = xs" "length recss = length rs" "fst b = fst a + length rs"
    "\<forall>i < length rs. fst (pe_answer env (fst a + i) (rs ! i)) = Inr (recss ! i) \<and> length (request_entries (rs ! i)) \<le> repair_batch"
    "snd b = fold (pe_apply env) recss (snd a)" using assms(1) unfolding pulled_by_def by blast
  obtain qs qecss where q: "concat (map request_entries qs) = ys" "length qecss = length qs" "fst c = fst b + length qs"
    "\<forall>i < length qs. fst (pe_answer env (fst b + i) (qs ! i)) = Inr (qecss ! i) \<and> length (request_entries (qs ! i)) \<le> repair_batch"
    "snd c = fold (pe_apply env) qecss (snd b)" using assms(2) unfolding pulled_by_def by blast
  have "fst (pe_answer env (fst a + i) ((rs @ qs) ! i)) = Inr ((recss @ qecss) ! i) \<and> length (request_entries ((rs @ qs) ! i)) \<le> repair_batch"
    if "i < length (rs @ qs)" for i
  proof (cases "i < length rs")
    case True
    then show ?thesis using r(2,4) by (simp add: nth_append)
  next
    case False
    then show ?thesis using r(2,3) q(4)[rule_format, of "i - length rs"] that by (simp add: nth_append)
  qed
  then show ?thesis
    unfolding pulled_by_def
    by (intro exI[of _ "rs @ qs"] exI[of _ "recss @ qecss"]) (use r q in simp)
qed

lemma pull_source_loop_ends:
  assumes "pull_ok st" "d \<le> source_len source"
  shows "\<exists>ran_out st'. pull_source_loop env source d st = Some (ran_out, st') \<and>
    0 < pl_limit st' \<and> pl_limit st' \<le> repair_batch \<and> kept_ok (pl_kept st') \<and> (ran_out \<longrightarrow> pull_ok st') \<and> (pl_complete st' \<longrightarrow> pl_complete st \<and> ran_out \<and>
      pulled_by env (drop d (source_entries source)) (pl_asked st, pl_shard st) (pl_asked st', pl_shard st'))"
  using assms
proof (induction "(source_len source - d, 2 - unat (pl_failures st))" arbitrary: d st
    rule: wf_induct_rule[OF wf_lex_prod[OF wf_less_than wf_less_than]])
  case (1 d st)
  have lim: "0 < pl_limit st" "pl_limit st \<le> repair_batch" "kept_ok (pl_kept st)" using "1.prems"(1) by (simp_all add: pull_ok_def)
  show ?case
  proof (cases "d < source_len source")
    case False
    then have "drop d (source_entries source) = []" by simp
    moreover have "pull_source_loop env source d st = Some (True, st)" by (subst pull_source_loop.simps) (simp add: False)
    ultimately show ?thesis using lim "1.prems"(1) pulled_by_Nil by metis
  next
    case True
    obtain d' st' where turn: "pull_turn env source d st = (d', st')" by force
    have unfold: "pull_source_loop env source d st =
      (if pull_gives_up (pl_failures st') then Some (False, st') else pull_source_loop env source d' st')"
      by (subst pull_source_loop.simps) (simp add: True turn)
    from "1.prems"(1) True turn show ?thesis
    proof (cases rule: pull_turn_cases)
      case (answered recs sent)
      have go: "\<not> pull_gives_up (pl_failures st')" by (simp add: answered pull_gives_up_def max_consecutive_pull_failures_def)
      have shrinks: "source_len source - d' < source_len source - d" using answered(2,4,5) by linarith
      have smaller: "((source_len source - d', 2 - unat (pl_failures st')), source_len source - d, 2 - unat (pl_failures st)) \<in> less_than <*lex*> less_than"
        using shrinks by simp
      have le: "d' \<le> source_len source" using answered(4,5) by simp
      from "1.hyps"[OF smaller answered(10) le] obtain ran_out st'' where loop: "pull_source_loop env source d' st' = Some (ran_out, st'')"
        "0 < pl_limit st''" "pl_limit st'' \<le> repair_batch" "kept_ok (pl_kept st'')" "ran_out \<longrightarrow> pull_ok st''"
        "pl_complete st'' \<longrightarrow> pl_complete st' \<and> ran_out \<and>
          pulled_by env (drop d' (source_entries source)) (pl_asked st', pl_shard st') (pl_asked st'', pl_shard st'')" by blast
      have first: "pulled_by env (take sent (drop d (source_entries source))) (pl_asked st, pl_shard st) (pl_asked st', pl_shard st')"
        using pulled_by_one[OF answered(1), of "pl_shard st"] answered(2,3,4) lim(2) unfolding request_of_entries
        by (simp add: answered(6,9))
      have split: "take sent (drop d (source_entries source)) @ drop d' (source_entries source) = drop d (source_entries source)"
        using append_take_drop_id[of sent "drop d (source_entries source)"] by (simp add: answered(5) add.commute)
      have "pl_complete st'' \<longrightarrow> pl_complete st \<and> ran_out \<and>
          pulled_by env (drop d (source_entries source)) (pl_asked st, pl_shard st) (pl_asked st'', pl_shard st'')"
        using loop(6) pulled_by_append[OF first, of "drop d' (source_entries source)"] unfolding split answered(7) by blast
      moreover have "pull_source_loop env source d st = Some (ran_out, st'')" using loop(1) go unfold by simp
      ultimately show ?thesis using loop(2,3,4,5) by blast
    next
      case failed
      show ?thesis
      proof (cases "pull_gives_up (pl_failures st')")
        case True
        then have "pull_source_loop env source d st = Some (False, st')" using unfold by simp
        with failed(1,7,8,9) show ?thesis by blast
      next
        case go: False
        have f: "unat (pl_failures st') = Suc (unat (pl_failures st))"
          using "1.prems"(1) unfolding failed(2) pull_ok_def by (simp add: unat_word_ariths)
        then have ok: "pull_ok st'"
          using go failed(7,8,9) by (simp add: pull_ok_def pull_gives_up_def max_consecutive_pull_failures_def word_le_nat_alt)
        have smaller: "((source_len source - d', 2 - unat (pl_failures st')), source_len source - d, 2 - unat (pl_failures st)) \<in> less_than <*lex*> less_than"
          using f failed(4) ok by (auto simp: pull_ok_def)
        from "1.hyps"[OF smaller ok failed(5)] failed(1) show ?thesis unfolding unfold if_not_P[OF go] by blast
      qed
    qed
  qed
qed

lemma pull_sources_end:
  assumes "pull_ok st"
  shows "\<exists>st'. pull_sources env sources st = Some st' \<and> 0 < pl_limit st' \<and> pl_limit st' \<le> repair_batch \<and> kept_ok (pl_kept st') \<and> (pl_complete st' \<longrightarrow> pl_complete st \<and>
    pulled_by env (concat (map source_entries sources)) (pl_asked st, pl_shard st) (pl_asked st', pl_shard st'))"
  using assms
proof (induction sources arbitrary: st)
  case Nil
  then show ?case by (simp add: pulled_by_Nil pull_ok_def)
next
  case (Cons source sources)
  obtain ran_out st1 where loop: "pull_source_loop env source 0 st = Some (ran_out, st1)"
    "0 < pl_limit st1" "pl_limit st1 \<le> repair_batch" "kept_ok (pl_kept st1)" "ran_out \<longrightarrow> pull_ok st1"
    "pl_complete st1 \<longrightarrow> pl_complete st \<and> ran_out \<and>
      pulled_by env (source_entries source) (pl_asked st, pl_shard st) (pl_asked st1, pl_shard st1)"
    using pull_source_loop_ends[OF Cons.prems, of 0 source env] by auto
  show ?case
  proof (cases ran_out)
    case True
    with Cons.IH[of st1] loop show ?thesis by (auto intro: pulled_by_append)
  next
    case False
    with loop show ?thesis by auto
  qed
qed

section \<open>Properties\<close>

text \<open>
  C38: the pulls of a round always end, and when they report that every request was answered they
  moved everything. Whatever the peer answers and however long it takes, starting from any limit
  the loop has kept, pulling stops; the limit, and the one the mesh
  keeps for the next round, stays between one and the batch size; and if all
  was answered, the requests made, none larger than a batch, ask together for exactly the keys
  and hashes of the plan in order, and the shard has applied the answer to each.
\<close>

theorem pulls_end_and_cover:
  assumes "is_none_or (\<lambda>l. 0 < l \<and> l \<le> repair_batch) kept_limit"
  shows "\<exists>st. pull_repairs env kept_limit pull_keys pull_hashes asked t shard = Some st \<and>
    0 < pl_limit st \<and> pl_limit st \<le> repair_batch \<and> is_none_or (\<lambda>l. 0 < l \<and> l \<le> repair_batch) (pl_kept st) \<and>
    (pl_complete st \<longrightarrow>
       (\<exists>rs recss. concat (map request_entries rs) = map Inl pull_keys @ concat (map (\<lambda>(b, hs). map (\<lambda>h. Inr (b, h)) hs) pull_hashes) \<and>
          length recss = length rs \<and>
          (\<forall>i < length rs. fst (pe_answer env (asked + i) (rs ! i)) = Inr (recss ! i) \<and> length (request_entries (rs ! i)) \<le> repair_batch) \<and>
          pl_shard st = fold (pe_apply env) recss shard))"
proof -
  let ?st = "\<lparr>pl_shard = shard, pl_pulled = Map.empty, pl_complete = True, pl_failures = 0,
    pl_limit = map_or repair_batch (\<lambda>l. l) kept_limit, pl_kept = kept_limit, pl_tally = t, pl_asked = asked\<rparr>"
  let ?sources = "Src_Keys pull_keys # map (\<lambda>(bucket, hs). Src_Hashes bucket hs) pull_hashes"
  have ok: "pull_ok ?st" using assms by (cases kept_limit) (simp_all add: pull_ok_def kept_ok_def repair_batch_def)
  have entries: "concat (map source_entries ?sources) = map Inl pull_keys @ concat (map (\<lambda>(b, hs). map (\<lambda>h. Inr (b, h)) hs) pull_hashes)"
    by (simp add: o_def case_prod_unfold)
  from pull_sources_end[OF ok, of env ?sources] show ?thesis
    unfolding pull_repairs_def entries pulled_by_def kept_ok_def by auto
qed

text \<open>Witness: three keys and two hashes against a peer that answers each request with nothing, from a kept limit of two.\<close>

theorem pulls_end_and_cover_witness:
  "let env = \<lparr>pe_known = True, pe_answer = \<lambda>_ _. (Inr [], 0), pe_apply = \<lambda>recs (n :: nat). Suc n, pe_timeout = 1000, pe_cache_len = 1\<rparr>
   in is_none_or (\<lambda>l. 0 < l \<and> l \<le> repair_batch) (Some 2) \<and>
      (\<exists>st. pull_repairs env (Some 2) [[1], [2], [3]] [(0, [7, 8])] 0 \<lparr>ta_repaired = 0, ta_bytes_moved = 0\<rparr> 0 = Some st \<and>
         0 < pl_limit st \<and> pl_limit st \<le> repair_batch)"
  using pulls_end_and_cover[where kept_limit = "Some 2" and asked = 0 and shard = "0::nat" and pull_keys = "[[1], [2], [3]]"
      and pull_hashes = "[(0, [7, 8])]" and t = "\<lparr>ta_repaired = 0, ta_bytes_moved = 0\<rparr>"
      and env = "\<lparr>pe_known = True, pe_answer = \<lambda>_ _. (Inr [], 0), pe_apply = \<lambda>recs (n :: nat). Suc n, pe_timeout = 1000, pe_cache_len = 1\<rparr>"]
  unfolding Let_def by (simp add: repair_batch_def) blast

end
