(* ===== verification/Fan_Out.thy ===== *)
theory Fan_Out
  imports Wire
begin

text \<open>
  The fan-out queue of a shard and the decisions around it
  (\<^verbatim>\<open>sundog/src/store/fan_out.rs\<close>): the backlog of local writes with its seal and close, the
  newest write of each key of a drained burst, and the split of a burst into the records still stored
  and the writes whose entry departed. The notifications a waiter parks on carry no data and are left
  out; a drain is one step, as the lock makes it.
\<close>

section \<open>The queue\<close>

record 'a fan_out_queue =
  fq_pending :: "'a list"
  fq_accepting :: bool
  fq_closed :: bool

definition fan_out_queue_new :: "bool \<Rightarrow> 'a fan_out_queue" where
  "fan_out_queue_new accepting = \<lparr>fq_pending = [], fq_accepting = accepting, fq_closed = False\<rparr>"

definition queue_seal :: "'a fan_out_queue \<Rightarrow> 'a fan_out_queue" where
  "queue_seal q = q\<lparr>fq_closed := True\<rparr>"

definition queue_close :: "'a fan_out_queue \<Rightarrow> 'a fan_out_queue" where
  "queue_close q = q\<lparr>fq_accepting := False, fq_closed := True, fq_pending := []\<rparr>"

definition queue_is_open :: "'a fan_out_queue \<Rightarrow> bool" where
  "queue_is_open q \<longleftrightarrow> \<not> fq_closed q"

definition queue_push :: "'a \<Rightarrow> 'a fan_out_queue \<Rightarrow> bool \<times> 'a fan_out_queue" where
  "queue_push key q =
     (if \<not> queue_is_open q then (False, q)
      else if \<not> fq_accepting q then (True, q)
      else (True, q\<lparr>fq_pending := fq_pending q @ [key]\<rparr>))"

definition queue_extend :: "'a list \<Rightarrow> 'a fan_out_queue \<Rightarrow> bool \<times> 'a fan_out_queue" where
  "queue_extend ks q =
     (if \<not> queue_is_open q then (False, q)
      else if \<not> fq_accepting q then (True, q)
      else (True, q\<lparr>fq_pending := fq_pending q @ ks\<rparr>))"

definition queue_drain :: "'a fan_out_queue \<Rightarrow> 'a list \<times> 'a fan_out_queue" where
  "queue_drain q = (fq_pending q, q\<lparr>fq_pending := []\<rparr>)"

definition queue_len :: "'a fan_out_queue \<Rightarrow> nat" where
  "queue_len q = length (fq_pending q)"

definition fan_out_over_capacity :: "nat \<Rightarrow> nat \<Rightarrow> bool" where
  "fan_out_over_capacity pending_len capacity \<longleftrightarrow> pending_len \<ge> capacity"

section \<open>Items and bursts\<close>

datatype 'k fan_out_item = Applied 'k hlc | Forwarded wire_record

record fan_out_records =
  fr_records :: "wire_record list"
  fr_departed :: "wire_record list"

fun newest_step :: "'k \<times> hlc \<Rightarrow> ('k \<Rightarrow> nat option) \<times> ('k \<times> hlc) list \<Rightarrow> ('k \<Rightarrow> nat option) \<times> ('k \<times> hlc) list" where
  "newest_step (key, ver) (slot, out) =
     (case slot key of
        Some at \<Rightarrow> (slot, out[at := (fst (out ! at), max (snd (out ! at)) ver)])
      | None \<Rightarrow> (slot(key \<mapsto> length out), out @ [(key, ver)]))"

definition newest_per_key :: "('k \<times> hlc) list \<Rightarrow> ('k \<times> hlc) list" where
  "newest_per_key items = snd (fold newest_step items (Map.empty, []))"

definition written_versions :: "(bytes \<times> hlc) list \<Rightarrow> bytes \<Rightarrow> hlc option" where
  "written_versions writes =
     fold (\<lambda>(key, ver) m. m(key \<mapsto> map_or ver (\<lambda>queued. max queued ver) (m key))) writes Map.empty"

fun departed_step ::
  "(bytes \<Rightarrow> hlc option) \<Rightarrow> (bytes \<Rightarrow> hlc option) \<Rightarrow> bytes \<times> hlc \<Rightarrow> bytes set \<times> wire_record list \<Rightarrow> bytes set \<times> wire_record list" where
  "departed_step written covered (key, ver) (seen, departed) =
     (if covered key \<noteq> None then (seen, departed)
      else if key \<in> seen then (seen, departed)
      else (insert key seen,
            departed @ [\<lparr>wr_key = key, wr_value = None, wr_ver = the (written key), wr_expires = None\<rparr>]))"

definition older_refill :: "(bytes \<Rightarrow> hlc option) \<Rightarrow> bool \<Rightarrow> wire_record \<Rightarrow> bool" where
  "older_refill written version_ordered rec \<longleftrightarrow>
     version_ordered \<and> is_some_and (\<lambda>queued. wr_ver rec < queued) (written (wr_key rec))"

fun fetched_step ::
  "(wire_record \<Rightarrow> bool) \<Rightarrow> wire_record \<Rightarrow> (bytes \<Rightarrow> hlc option) \<times> wire_record list \<Rightarrow> (bytes \<Rightarrow> hlc option) \<times> wire_record list" where
  "fetched_step skip rec (covered, records) =
     (if skip rec then (covered, records) else (covered(wr_key rec \<mapsto> wr_ver rec), records @ [rec]))"

definition partition_writes :: "(bytes \<times> hlc) list \<Rightarrow> wire_record list \<Rightarrow> bool \<Rightarrow> fan_out_records" where
  "partition_writes writes fetched version_ordered =
     (let written = written_versions writes;
          (covered, records) =
            fold (fetched_step (older_refill written version_ordered)) fetched (Map.empty, []);
          (seen, departed) = fold (departed_step written covered) writes ({}, [])
      in \<lparr>fr_records = records, fr_departed = departed\<rparr>)"

section \<open>Routes\<close>

definition fill_fans_out :: "mode \<Rightarrow> bool" where
  "fill_fans_out m \<longleftrightarrow> m \<noteq> Invalidation"

datatype fill_route = Install | Uncached bool

definition fill_route :: "bool \<Rightarrow> bool \<Rightarrow> fill_route" where
  "fill_route owns_it at_ceiling =
     (if \<not> owns_it then Uncached False else if at_ceiling then Uncached True else Install)"

datatype read_through_route = Read_Local | OwnersFirst

definition read_through_route :: "mode \<Rightarrow> bool \<Rightarrow> read_through_route" where
  "read_through_route m owns_it = (case m of Distributed _ \<Rightarrow> if \<not> owns_it then OwnersFirst else Read_Local | _ \<Rightarrow> Read_Local)"

definition fan_out_ships_values :: "mode \<Rightarrow> bool \<Rightarrow> bool" where
  "fan_out_ships_values m merges \<longleftrightarrow> merges \<or> m \<noteq> Invalidation"

section \<open>The newest write of each key\<close>

lemma map_or_max: "map_or ver (\<lambda>queued. max queued ver) x = (case x of None \<Rightarrow> ver | Some v \<Rightarrow> max v ver)"
  by (cases x) simp_all

definition versions_of :: "('k \<times> hlc) list \<Rightarrow> 'k \<Rightarrow> hlc set" where
  "versions_of items k = {v. (k, v) \<in> set items}"

lemma versions_of_Nil [simp]: "versions_of [] k = {}"
  and versions_of_snoc: "versions_of (items @ [(k', v)]) k = (if k = k' then insert v (versions_of items k) else versions_of items k)"
  and versions_of_empty: "versions_of items k = {} \<longleftrightarrow> k \<notin> fst ` set items"
  by (auto simp: versions_of_def) force

lemma finite_versions [simp]: "finite (versions_of items k)"
proof -
  have "versions_of items k \<subseteq> snd ` set items" by (force simp: versions_of_def)
  then show ?thesis by (rule finite_subset) simp
qed

lemma written_versions_Max:
  "written_versions writes k = (if k \<in> fst ` set writes then Some (Max (versions_of writes k)) else None)"
proof (induction writes rule: rev_induct)
  case Nil
  then show ?case by (simp add: written_versions_def)
next
  case (snoc w writes)
  obtain k' v where w: "w = (k', v)" by (cases w)
  have step: "written_versions (writes @ [(k', v)]) = (written_versions writes)(k' \<mapsto> map_or v (\<lambda>queued. max queued v) (written_versions writes k'))"
    by (simp add: written_versions_def)
  show ?case
  proof (cases "k = k'")
    case True
    show ?thesis
    proof (cases "k \<in> fst ` set writes")
      case True
      then have "versions_of writes k \<noteq> {}" by (simp add: versions_of_empty)
      with True \<open>k = k'\<close> snoc.IH show ?thesis by (simp add: step w versions_of_snoc map_or_max max.commute)
    next
      case False
      then have "versions_of writes k = {}" by (simp add: versions_of_empty)
      with False \<open>k = k'\<close> snoc.IH show ?thesis by (simp add: step w versions_of_snoc)
    qed
  next
    case False
    then show ?thesis using snoc.IH by (auto simp: step w versions_of_snoc)
  qed
qed

definition newest_inv :: "('k \<times> hlc) list \<Rightarrow> ('k \<Rightarrow> nat option) \<times> ('k \<times> hlc) list \<Rightarrow> bool" where
  "newest_inv items st \<longleftrightarrow> (case st of (slot, out) \<Rightarrow>
     map fst out = rev (remdups (rev (map fst items))) \<and>
     (\<forall>k i. slot k = Some i \<longleftrightarrow> i < length out \<and> fst (out ! i) = k) \<and>
     (\<forall>i < length out. snd (out ! i) = Max (versions_of items (fst (out ! i)))))"

lemma newest_inv_step:
  assumes inv: "newest_inv items (slot, out)"
  shows "newest_inv (items @ [(k, v)]) (newest_step (k, v) (slot, out))"
proof -
  have names: "map fst out = rev (remdups (rev (map fst items)))"
    and slots: "\<And>k i. slot k = Some i \<longleftrightarrow> i < length out \<and> fst (out ! i) = k"
    and vers: "\<And>i. i < length out \<Longrightarrow> snd (out ! i) = Max (versions_of items (fst (out ! i)))"
    using inv by (auto simp: newest_inv_def)
  have seen: "set (map fst out) = fst ` set items" by (simp add: names)
  have dist: "distinct (map fst out)" by (simp add: names)
  show ?thesis
  proof (cases "slot k")
    case None
    then have differs: "fst (out ! i) \<noteq> k" if "i < length out" for i using slots[of k i] that by simp
    then have fresh: "k \<notin> set (map fst out)" by (metis in_set_conv_nth length_map nth_map)
    then have "k \<notin> fst ` set items" using seen by simp
    then have none: "versions_of items k = {}" by (simp add: versions_of_empty)
    show ?thesis
      using None differs names slots vers fresh seen none
      by (auto simp: newest_inv_def nth_append versions_of_snoc less_Suc_eq)
  next
    case (Some i)
    then have i: "i < length out" "fst (out ! i) = k" using slots by blast+
    then have old: "k \<in> fst ` set items" using seen by (metis nth_map nth_mem length_map)
    then have some: "versions_of items k \<noteq> {}" by (simp add: versions_of_empty)
    have other: "fst (out ! j) = k \<longleftrightarrow> j = i" if "j < length out" for j
      using dist i that nth_eq_iff_index_eq[of "map fst out" j i] by auto
    let ?out = "out[i := (k, max (Max (versions_of items k)) v)]"
    have st: "newest_step (k, v) (slot, out) = (slot, ?out)" using Some i vers[OF i(1)] by simp
    have keys: "map fst ?out = map fst out" using i list_update_id[of "map fst out" i] by (simp add: map_update)
    then have same: "fst (?out ! j) = fst (out ! j)" if "j < length out" for j using that by (metis length_list_update nth_map)
    have "map fst ?out = rev (remdups (rev (map fst (items @ [(k, v)]))))" using old by (simp add: keys names)
    moreover have "slot k' = Some j \<longleftrightarrow> j < length ?out \<and> fst (?out ! j) = k'" for k' j using slots[of k' j] same[of j] by auto
    moreover have "snd (?out ! j) = Max (versions_of (items @ [(k, v)]) (fst (?out ! j)))" if "j < length ?out" for j
    proof (cases "j = i")
      case True
      with i some show ?thesis by (simp add: versions_of_snoc max.commute)
    next
      case False
      with that other[of j] vers[of j] show ?thesis by (simp add: versions_of_snoc)
    qed
    ultimately show ?thesis unfolding st newest_inv_def by simp
  qed
qed

lemma newest_inv_fold: "newest_inv items (fold newest_step items (Map.empty, []))"
proof (induction items rule: rev_induct)
  case Nil
  then show ?case by (simp add: newest_inv_def)
next
  case (snoc w items)
  obtain slot out where "fold newest_step items (Map.empty, []) = (slot, out)" by force
  then show ?case using newest_inv_step[of items slot out "fst w" "snd w"] snoc by simp
qed

section \<open>The split of a burst\<close>

lemma fetched_fold:
  "fold (fetched_step skip) fetched (c, rs) = (c', rs') \<Longrightarrow>
   rs' = rs @ filter (\<lambda>rec. \<not> skip rec) fetched \<and>
   (\<forall>k. c' k \<noteq> None \<longleftrightarrow> c k \<noteq> None \<or> k \<in> wr_key ` set (filter (\<lambda>rec. \<not> skip rec) fetched))"
proof (induction fetched arbitrary: c rs)
  case (Cons rec fetched)
  show ?case
  proof (cases "skip rec")
    case True
    with Cons.prems Cons.IH[of c rs] show ?thesis by simp
  next
    case False
    with Cons.prems have rest: "fold (fetched_step skip) fetched (c(wr_key rec \<mapsto> wr_ver rec), rs @ [rec]) = (c', rs')" by simp
    show ?thesis using Cons.IH[OF rest] False by auto
  qed
qed simp

definition carrier :: "(bytes \<Rightarrow> hlc option) \<Rightarrow> bytes \<Rightarrow> wire_record" where
  "carrier written key = \<lparr>wr_key = key, wr_value = None, wr_ver = the (written key), wr_expires = None\<rparr>"

lemma departed_fold:
  "fold (departed_step written covered) writes ({}, []) =
     (let ks = rev (remdups (rev (filter (\<lambda>k. covered k = None) (map fst writes)))) in (set ks, map (carrier written) ks))"
proof (induction writes rule: rev_induct)
  case (snoc w writes)
  then show ?case by (cases w) (auto simp: Let_def carrier_def)
qed simp

lemma partition_writes_eq:
  "partition_writes writes fetched ordered =
     (let kept = filter (\<lambda>rec. \<not> older_refill (written_versions writes) ordered rec) fetched
      in \<lparr>fr_records = kept,
          fr_departed = map (carrier (written_versions writes))
            (rev (remdups (rev (filter (\<lambda>k. k \<notin> wr_key ` set kept) (map fst writes)))))\<rparr>)"
proof -
  obtain c rs where f: "fold (fetched_step (older_refill (written_versions writes) ordered)) fetched (Map.empty, []) = (c, rs)" by force
  from fetched_fold[OF this] have r: "rs = filter (\<lambda>rec. \<not> older_refill (written_versions writes) ordered rec) fetched"
    and c': "\<And>k. c k \<noteq> None \<longleftrightarrow> k \<in> wr_key ` set rs" by simp_all
  have c: "c k = None \<longleftrightarrow> k \<notin> wr_key ` set rs" for k using c'[of k] by blast
  show ?thesis by (simp add: partition_writes_def f departed_fold Let_def c r)
qed

section \<open>Properties\<close>

text \<open>
  No drained write is lost and none is sent twice. For every write of a burst, either a record
  of its key is sent that is, for a version-ordered resolver, at least as new as every write queued
  for the key, or exactly one departed carrier goes out for it, at the newest version queued and with
  no value. The records sent are those fetched less the older refills, in order, and no key goes out
  both ways.
\<close>

theorem burst_split_exact:
  "let out = partition_writes writes fetched ordered in
     fr_records out = filter (\<lambda>rec. \<not> (ordered \<and> (\<exists>v. (wr_key rec, v) \<in> set writes \<and> wr_ver rec < v))) fetched \<and>
     distinct (map wr_key (fr_departed out)) \<and>
     set (map wr_key (fr_departed out)) = fst ` set writes - wr_key ` set (fr_records out) \<and>
     (\<forall>d \<in> set (fr_departed out). wr_value d = None \<and> (wr_key d, wr_ver d) \<in> set writes \<and>
        (\<forall>v. (wr_key d, v) \<in> set writes \<longrightarrow> v \<le> wr_ver d))"
proof -
  have newer: "is_some_and (\<lambda>queued. x < queued) (written_versions writes k) \<longleftrightarrow> (\<exists>v. (k, v) \<in> set writes \<and> x < v)" for k x
  proof (cases "k \<in> fst ` set writes")
    case True
    then have "versions_of writes k \<noteq> {}" by (simp add: versions_of_empty)
    then show ?thesis using True by (simp add: written_versions_Max Max_gr_iff) (simp add: versions_of_def)
  next
    case False
    then show ?thesis by (force simp: written_versions_Max)
  qed
  have carried: "wr_value (carrier (written_versions writes) k) = None \<and> (k, wr_ver (carrier (written_versions writes) k)) \<in> set writes \<and>
      (\<forall>v. (k, v) \<in> set writes \<longrightarrow> v \<le> wr_ver (carrier (written_versions writes) k))" if "k \<in> fst ` set writes" for k
  proof -
    have "versions_of writes k \<noteq> {}" using that by (simp add: versions_of_empty)
    then have "Max (versions_of writes k) \<in> versions_of writes k" by (rule Max_in[OF finite_versions])
    moreover have "v \<le> Max (versions_of writes k)" if "(k, v) \<in> set writes" for v
      using that by (intro Max_ge finite_versions) (simp add: versions_of_def)
    ultimately show ?thesis using that by (simp add: carrier_def written_versions_Max versions_of_def)
  qed
  have key: "wr_key (carrier w k) = k" for w k by (simp add: carrier_def)
  show ?thesis
    unfolding partition_writes_eq Let_def older_refill_def newer
    using carried by (auto simp: key comp_def)
qed

definition demo_writes :: "(bytes \<times> hlc) list" where
  "demo_writes = [([1], Hlc 5 0 (NodeId 1)), ([2], Hlc 6 0 (NodeId 1)), ([1], Hlc 7 0 (NodeId 1))]"

definition demo_refill :: wire_record where
  "demo_refill = \<lparr>wr_key = [1], wr_value = Some [9], wr_ver = Hlc 5 0 (NodeId 1), wr_expires = None\<rparr>"

theorem burst_split_exact_witness:
  "fr_records (partition_writes demo_writes [demo_refill] True) = [] \<and>
   set (map wr_key (fr_departed (partition_writes demo_writes [demo_refill] True))) = {[1], [2]}"
proof -
  have "(wr_key demo_refill, Hlc 7 0 (NodeId 1)) \<in> set demo_writes" "wr_ver demo_refill < Hlc 7 0 (NodeId 1)"
    by (simp_all add: demo_refill_def demo_writes_def less_hlc_def)
  then have "filter (\<lambda>rec. \<not> (True \<and> (\<exists>v. (wr_key rec, v) \<in> set demo_writes \<and> wr_ver rec < v))) [demo_refill] = []" by auto
  moreover have "fst ` set demo_writes = {[1], [2]}" by (auto simp: demo_writes_def)
  ultimately show ?thesis using burst_split_exact[of demo_writes "[demo_refill]" True] by (simp add: Let_def)
qed

text \<open>
  Of a burst that wrote keys several times the newest write of each key goes out once, in the
  order the keys were first written.
\<close>

theorem newest_per_key_exact:
  "map fst (newest_per_key items) = rev (remdups (rev (map fst items))) \<and>
   (\<forall>(k, v) \<in> set (newest_per_key items). (k, v) \<in> set items \<and> (\<forall>v'. (k, v') \<in> set items \<longrightarrow> v' \<le> v))"
proof -
  obtain slot out where f: "fold newest_step items (Map.empty, []) = (slot, out)" by force
  then have inv: "newest_inv items (slot, out)" using newest_inv_fold[of items] by simp
  have names: "map fst out = rev (remdups (rev (map fst items)))" using inv by (simp add: newest_inv_def)
  have "(k, v) \<in> set items \<and> (\<forall>v'. (k, v') \<in> set items \<longrightarrow> v' \<le> v)" if "(k, v) \<in> set out" for k v
  proof -
    have v: "v = Max (versions_of items k)" using that inv by (auto simp: newest_inv_def in_set_conv_nth)
    have "k \<in> set (map fst out)" using that by force
    then have "k \<in> fst ` set items" by (simp add: names)
    then have "v \<in> versions_of items k" unfolding v by (intro Max_in) (simp_all add: versions_of_empty)
    moreover have "v' \<le> v" if "(k, v') \<in> set items" for v' unfolding v
      using that by (intro Max_ge finite_versions) (simp add: versions_of_def)
    ultimately show ?thesis by (simp add: versions_of_def)
  qed
  then show ?thesis using names by (auto simp: newest_per_key_def f)
qed

text \<open>The calls on a queue, with what the callers were told and what the drains took.\<close>

datatype 'a queue_call = Q_Push 'a | Q_Extend "'a list" | Q_Drain | Q_Seal

fun queue_calls_run :: "'a queue_call list \<Rightarrow> 'a fan_out_queue \<Rightarrow> 'a list \<times> 'a list \<times> 'a fan_out_queue" where
  "queue_calls_run [] q = ([], [], q)"
| "queue_calls_run (c # cs) q =
     (case c of
        Q_Push x \<Rightarrow> (case queue_push x q of (took, q) \<Rightarrow> case queue_calls_run cs q of (acc, out, q) \<Rightarrow> ((if took then [x] else []) @ acc, out, q))
      | Q_Extend xs \<Rightarrow> (case queue_extend xs q of (took, q) \<Rightarrow> case queue_calls_run cs q of (acc, out, q) \<Rightarrow> ((if took then xs else []) @ acc, out, q))
      | Q_Drain \<Rightarrow> (case queue_drain q of (xs, q) \<Rightarrow> case queue_calls_run cs q of (acc, out, q) \<Rightarrow> (acc, xs @ out, q))
      | Q_Seal \<Rightarrow> queue_calls_run cs (queue_seal q))"

text \<open>
  The queue loses nothing it said yes to. Whatever pushes, drains and seals come in whatever
  order, what the drains took followed by what is left is exactly what was there before and what was
  accepted since, in order; and after a seal nothing is accepted, so a drain after it is the last one
  needed.
\<close>

theorem queue_keeps_accepted:
  assumes "fq_accepting q" and "queue_calls_run cs q = (accepted, drained, q')"
  shows "drained @ fq_pending q' = fq_pending q @ accepted \<and> (fq_closed q \<longrightarrow> accepted = [] \<and> fq_closed q')"
  using assms
proof (induction cs arbitrary: q accepted drained)
  case (Cons c cs)
  show ?case
  proof (cases c)
    case (Q_Push x)
    with Cons.prems Cons.IH[of "snd (queue_push x q)"] show ?thesis
      by (auto simp: queue_push_def queue_is_open_def split: prod.splits if_splits)
  next
    case (Q_Extend xs)
    with Cons.prems Cons.IH[of "snd (queue_extend xs q)"] show ?thesis
      by (auto simp: queue_extend_def queue_is_open_def split: prod.splits if_splits)
  next
    case Q_Drain
    with Cons.prems Cons.IH[of "snd (queue_drain q)"] show ?thesis by (auto simp: queue_drain_def split: prod.splits)
  next
    case Q_Seal
    with Cons.prems Cons.IH[of "queue_seal q"] show ?thesis by (auto simp: queue_seal_def split: prod.splits)
  qed
qed simp

theorem queue_keeps_accepted_witness:
  "queue_calls_run [Q_Push (1::nat), Q_Drain, Q_Push 2, Q_Seal, Q_Push 3] (fan_out_queue_new True) = ([1, 2], [1], queue_seal (fan_out_queue_new True\<lparr>fq_pending := [2]\<rparr>)) \<and>
   [1] @ [2] = fq_pending (fan_out_queue_new True) @ [1::nat, 2]"
  using queue_keeps_accepted[of "fan_out_queue_new True" "[Q_Push (1::nat), Q_Drain, Q_Push 2, Q_Seal, Q_Push 3]"]
  by (simp add: fan_out_queue_new_def queue_push_def queue_is_open_def queue_drain_def queue_seal_def)

end
