(* ===== verification/Shard_State.thy ===== *)
theory Shard_State
  imports Fan_Out Skew_Hold Verdict Engine_Reach "HOL-Library.AList"
begin

text \<open>
  A shard (\<^verbatim>\<open>sundog/src/store/mod.rs\<close> and \<^verbatim>\<open>shard_build.rs\<close>): one cache's engine with its
  clock, its fan-out queue, its skew hold, its pending merge folds, and in distributed mode its
  ownership view and residency set; with the clock operations every path shares and the discard of a
  pending fold.

  The shard's wall clock is the field \<open>sd_now\<close>, so the readings within one call agree and time
  passes between calls. A call is one step: the locks order the calls that touch the same data. The
  change events are the list of those sent. The engine's count of resident bytes is the field
  \<open>sd_resident_bytes\<close>, whatever it reads. Postcard is the \<open>codec\<close> argument.
\<close>

section \<open>Types\<close>

record ('k, 'v) codec =
  cd_encode_key :: "'k \<Rightarrow> bytes option"
  cd_decode_key :: "bytes \<Rightarrow> 'k option"
  cd_encode_value :: "'v \<Rightarrow> bytes option"
  cd_decode_value :: "bytes \<Rightarrow> 'v option"

text \<open>
  The variants of \<open>CacheError\<close> in its order, without the name of the cache, which is the shard's;
  a boxed source error is its message. The operations of a shard return \<open>ValueTooLarge\<close>,
  \<open>OverMemoryCeiling\<close>, \<open>Err_Loader\<close>, \<open>Err_Codec\<close> and \<open>Err_Closed\<close>; the others come from opening a cache,
  warm-up and remote reads.
\<close>

datatype cache_error =
    ValueTooLarge nat nat
  | OverMemoryCeiling u64 u64
  | Err_Mode_Mismatch mode mode
  | Err_Replicated_With_Local_Eviction
  | Err_Already_Open
  | Err_Loader string
  | Err_No_Loader
  | Err_Invalid_Load_Config string
  | Err_Codec
  | Err_State_Transfer node_id string
  | Err_Invalid_Spill_Config string
  | Err_Spill_Unavailable string
  | Err_Too_Few_Owners u8
  | Err_Tombstone_Ttl_Inside_Release_Window nat nat
  | Err_Zero_State_Transfer_Budget
  | Err_Fetch_Unavailable
  | Err_Closed
  | Err_Merge_Window_Requires_Merging_Resolver

datatype origin = From_Local | From_Remote node_id

datatype ('k, 'v) event = Created 'k 'v origin | Updated 'k 'v origin | Removed 'k origin

record 'v pending_merge =
  pm_key_bytes :: bytes
  pm_value :: 'v
  pm_encoded :: bytes
  pm_expires :: "u64 option"
  pm_ver :: hlc
  pm_deadline_key :: "u64 \<times> u64"

text \<open>\<open>pg_entries\<close> is the hash map, its rows in whatever order it iterates them.\<close>

record ('k, 'v) pending_merge_stripe =
  pg_entries :: "('k \<times> 'v pending_merge) list"
  pg_by_deadline :: "(u64 \<times> u64, 'k) btree_map"
  pg_next_seq :: u64

definition pending_stripe_new :: "('k, 'v) pending_merge_stripe" where
  "pending_stripe_new = \<lparr>pg_entries = [], pg_by_deadline = bm_empty, pg_next_seq = 0\<rparr>"

definition pending_remove :: "'k \<Rightarrow> ('k, 'v) pending_merge_stripe \<Rightarrow> 'v pending_merge option \<times> ('k, 'v) pending_merge_stripe" where
  "pending_remove key s =
     (case map_of (pg_entries s) key of
        None \<Rightarrow> (None, s)
      | Some entry \<Rightarrow>
          (Some entry, s\<lparr>pg_entries := AList.delete key (pg_entries s),
                         pg_by_deadline := bm_remove (pm_deadline_key entry) (pg_by_deadline s)\<rparr>))"

record ('k, 'v) shard =
  sd_name :: bytes
  sd_mode :: mode
  sd_engine :: "('k, 'v) engine"
  sd_events :: "('k, 'v) event list"
  sd_receivers :: nat
  sd_fan_out :: "'k fan_out_item fan_out_queue"
  sd_clock :: hlc_clock
  sd_now :: u64
  sd_ttl :: "duration option"
  sd_tombstone_ttl_ms :: u64
  sd_tombstone_max_ttl_ms :: u64
  sd_max_clock_skew_ms :: "u64 option"
  sd_skew_hold :: skew_hold
  sd_raw_resolver :: conflict_resolver
  sd_crdt_bounds :: compaction_bounds
  sd_max_frame :: nat
  sd_max_resident_bytes :: u64
  sd_resident_bytes :: "u64 option"
  sd_merge_window :: duration
  sd_pending_merges :: "nat \<Rightarrow> ('k, 'v) pending_merge_stripe"
  sd_pending_merge_count :: nat
  sd_merge_seq :: u64
  sd_ownership :: "ownership_view option"
  sd_residency :: "residency_set option"

section \<open>Construction\<close>

text \<open>\<open>Shard::new\<close> with the settings a cluster's configuration gives it.\<close>

record shard_config =
  sc_ttl :: "duration option"
  sc_tombstone_ttl_ms :: u64
  sc_tombstone_max_ttl_ms :: u64
  sc_max_clock_skew_ms :: "u64 option"
  sc_crdt_bounds :: compaction_bounds
  sc_max_frame :: nat
  sc_merge_window :: duration

definition shard_new ::
  "bytes \<Rightarrow> mode \<Rightarrow> node_id \<Rightarrow> u64 \<Rightarrow> duration option \<Rightarrow> ('k \<Rightarrow> 'v \<Rightarrow> u32) option \<Rightarrow> conflict_resolver \<Rightarrow> shard_config
     \<Rightarrow> u64 \<Rightarrow> ('k, 'v) shard" where
  "shard_new name m node max_capacity tti weigher resolver cfg now =
     \<lparr>sd_name = name, sd_mode = m,
      sd_engine = set_merge_cap (length name) (sc_max_frame cfg)
        (guarding_pauses (defers_tombstone_gc m) (starting_gc_deferred (defers_tombstone_gc m) (engine_new max_capacity tti weigher))),
      sd_events = [], sd_receivers = 0, sd_fan_out = fan_out_queue_new (m \<noteq> mode.Local),
      sd_clock = hlc_clock_new node, sd_now = now, sd_ttl = sc_ttl cfg,
      sd_tombstone_ttl_ms = sc_tombstone_ttl_ms cfg, sd_tombstone_max_ttl_ms = sc_tombstone_max_ttl_ms cfg,
      sd_max_clock_skew_ms = sc_max_clock_skew_ms cfg,
      sd_skew_hold = skew_hold_new skew_hold_max_records skew_hold_max_bytes,
      sd_raw_resolver = resolver, sd_crdt_bounds = sc_crdt_bounds cfg, sd_max_frame = sc_max_frame cfg,
      sd_max_resident_bytes = u64_max, sd_resident_bytes = None, sd_merge_window = sc_merge_window cfg,
      sd_pending_merges = (\<lambda>_. pending_stripe_new), sd_pending_merge_count = 0, sd_merge_seq = 0,
      sd_ownership = None, sd_residency = None\<rparr>"

definition with_ownership :: "ownership_view \<Rightarrow> residency_set \<Rightarrow> ('k, 'v) shard \<Rightarrow> ('k, 'v) shard" where
  "with_ownership view residency sd = sd\<lparr>sd_ownership := Some view, sd_residency := Some residency\<rparr>"

text \<open>\<open>SettlingResolver\<close>, and \<open>rebuild_resolver\<close>: which resolver every decision runs through.\<close>

definition settling_merge :: "conflict_resolver \<Rightarrow> compaction_bounds \<Rightarrow> u64 \<Rightarrow> bytes \<Rightarrow> record_view \<Rightarrow> record_view \<Rightarrow> merged option" where
  "settling_merge inner bounds now_ms key a b =
     (case cr_merge inner key a b of
        None \<Rightarrow> None
      | Some m \<Rightarrow>
          (case cr_settle inner key (merged_value m) now_ms (receipt_ttl_ms bounds) of
             Some v \<Rightarrow> Some (m\<lparr>merged_value := v\<rparr>)
           | None \<Rightarrow> Some m))"

definition settling_resolver :: "conflict_resolver \<Rightarrow> compaction_bounds \<Rightarrow> u64 \<Rightarrow> conflict_resolver" where
  "settling_resolver inner bounds now_ms = inner\<lparr>cr_merge := settling_merge inner bounds now_ms\<rparr>"

definition sd_resolver :: "('k, 'v) shard \<Rightarrow> conflict_resolver" where
  "sd_resolver sd =
     (if cr_merges (sd_raw_resolver sd) then settling_resolver (sd_raw_resolver sd) (sd_crdt_bounds sd) (sd_now sd)
      else sd_raw_resolver sd)"

section \<open>The clock\<close>

definition stamp_local :: "('k, 'v) shard \<Rightarrow> hlc \<times> ('k, 'v) shard" where
  "stamp_local sd = (case hlc_now (sd_clock sd) (sd_now sd) of (clock, stamp) \<Rightarrow> (stamp, sd\<lparr>sd_clock := clock\<rparr>))"

definition observe_remote :: "hlc \<Rightarrow> ('k, 'v) shard \<Rightarrow> bool \<times> ('k, 'v) shard" where
  "observe_remote remote sd =
     (case sd_max_clock_skew_ms sd of
        Some max_skew_ms \<Rightarrow>
          (case hlc_observe_bounded (sd_clock sd) (sd_now sd) remote max_skew_ms of
             (clock, seen) \<Rightarrow> (seen \<noteq> None, sd\<lparr>sd_clock := clock\<rparr>))
      | None \<Rightarrow> (True, sd\<lparr>sd_clock := fst (hlc_observe (sd_clock sd) (sd_now sd) remote)\<rparr>))"

definition observe_derived :: "hlc \<Rightarrow> ('k, 'v) shard \<Rightarrow> ('k, 'v) shard" where
  "observe_derived derived sd = sd\<lparr>sd_clock := fst (hlc_observe (sd_clock sd) (sd_now sd) derived)\<rparr>"

definition expiry_for :: "u64 \<Rightarrow> duration option \<Rightarrow> ('k, 'v) shard \<Rightarrow> u64 option" where
  "expiry_for stamp_wall_ms ttl sd =
     (let base = (if cr_merges (sd_resolver sd) then max (sd_now sd) stamp_wall_ms else sd_now sd)
      in map_option (\<lambda>d. sat_add base (duration_ms d)) (case ttl of Some d \<Rightarrow> Some d | None \<Rightarrow> sd_ttl sd))"

definition expiry_tombstones :: "('k, 'v) shard \<Rightarrow> tombstone_retention option" where
  "expiry_tombstones sd = expiry_tombstone_retention (sd_mode sd) (cr_merges (sd_resolver sd)) (sd_tombstone_ttl_ms sd)"

section \<open>Ownership, events and pending folds\<close>

definition owns_key :: "externs \<Rightarrow> bytes \<Rightarrow> ('k, 'v) shard \<Rightarrow> bool" where
  "owns_key e key_bytes sd = is_none_or (\<lambda>view. owns view (part_of_key e key_bytes)) (sd_ownership sd)"

definition send_event :: "('k, 'v) event \<Rightarrow> ('k, 'v) shard \<Rightarrow> ('k, 'v) shard" where
  "send_event ev sd = (if 0 < sd_receivers sd then sd\<lparr>sd_events := sd_events sd @ [ev]\<rparr> else sd)"

definition push_fan_out :: "'k fan_out_item \<Rightarrow> ('k, 'v) shard \<Rightarrow> bool \<times> ('k, 'v) shard" where
  "push_fan_out item sd = (case queue_push item (sd_fan_out sd) of (took, q) \<Rightarrow> (took, sd\<lparr>sd_fan_out := q\<rparr>))"

definition extend_fan_out :: "'k fan_out_item list \<Rightarrow> ('k, 'v) shard \<Rightarrow> bool \<times> ('k, 'v) shard" where
  "extend_fan_out items sd = (case queue_extend items (sd_fan_out sd) of (took, q) \<Rightarrow> (took, sd\<lparr>sd_fan_out := q\<rparr>))"

definition has_pending_merges :: "('k, 'v) shard \<Rightarrow> bool" where
  "has_pending_merges sd \<longleftrightarrow> sd_pending_merge_count sd \<noteq> 0"

definition pending_merge_superseded :: "hlc \<Rightarrow> hlc \<Rightarrow> bool" where
  "pending_merge_superseded pending_ver tombstone_ver \<longleftrightarrow> pending_ver < tombstone_ver"

definition take_pending_merge_if ::
  "'k \<Rightarrow> u64 \<Rightarrow> (hlc \<Rightarrow> bool) \<Rightarrow> ('k, 'v) shard \<Rightarrow> 'v pending_merge option \<times> ('k, 'v) shard" where
  "take_pending_merge_if key hash superseded sd =
     (let i = stripe_index_from_hash hash; stripe = sd_pending_merges sd i
      in case map_of (pg_entries stripe) key of
           None \<Rightarrow> (None, sd)
         | Some entry \<Rightarrow>
             if \<not> superseded (pm_ver entry) then (None, sd)
             else case pending_remove key stripe of
                    (taken, stripe) \<Rightarrow>
                      (taken, sd\<lparr>sd_pending_merges := (sd_pending_merges sd)(i := stripe),
                                 sd_pending_merge_count := sd_pending_merge_count sd - 1\<rparr>))"

definition discard_pending_merge :: "externs \<Rightarrow> 'k \<Rightarrow> bytes \<Rightarrow> ('k, 'v) shard \<Rightarrow> ('k, 'v) shard" where
  "discard_pending_merge e key key_bytes sd =
     (if \<not> has_pending_merges sd then sd
      else snd (take_pending_merge_if key (hash_key_bytes e key_bytes) (\<lambda>_. True) sd))"

definition discard_pending_merge_before :: "externs \<Rightarrow> ('k, 'v) codec \<Rightarrow> 'k \<Rightarrow> hlc \<Rightarrow> ('k, 'v) shard \<Rightarrow> ('k, 'v) shard" where
  "discard_pending_merge_before e cd key tombstone_ver sd =
     (if \<not> has_pending_merges sd then sd
      else case cd_encode_key cd key of
             None \<Rightarrow> sd
           | Some key_bytes \<Rightarrow>
               snd (take_pending_merge_if key (hash_key_bytes e key_bytes)
                 (\<lambda>pending_ver. pending_merge_superseded pending_ver tombstone_ver) sd))"

end
