(* ===== verification/Shard_Write.thy ===== *)
theory Shard_Write
  imports Shard_State
begin

text \<open>
  The write path of a shard (\<^verbatim>\<open>sundog/src/store/shard_write.rs\<close>): single and bulk inserts and
  removes, the split into writes this node applies and writes it forwards to the owners, the apply of
  a group stripe by stripe, and what an outcome sends to the fan-out queue and to the subscribers. The
  wait for fan-out room changes nothing and is left out; without the \<open>spill\<close> feature a batch reserves
  nothing and has no deficit to retry.
\<close>

section \<open>Outcomes\<close>

definition at_ceiling :: "('k, 'v) shard \<Rightarrow> u64 option" where
  "at_ceiling sd =
     (case sd_resident_bytes sd of
        None \<Rightarrow> None
      | Some resident_bytes \<Rightarrow> if sd_max_resident_bytes sd \<le> resident_bytes then Some resident_bytes else None)"

definition check_ceiling :: "('k, 'v) shard \<Rightarrow> cache_error + unit" where
  "check_ceiling sd =
     (case at_ceiling sd of None \<Rightarrow> Inr () | Some resident_bytes \<Rightarrow> Inl (OverMemoryCeiling resident_bytes (sd_max_resident_bytes sd)))"

definition merge_too_large :: "nat \<Rightarrow> ('k, 'v) shard \<Rightarrow> cache_error" where
  "merge_too_large sz sd = ValueTooLarge sz (sd_max_frame sd)"

definition handle_apply_outcome ::
  "externs \<Rightarrow> ('k, 'v) codec \<Rightarrow> ('k, 'v) apply_outcome \<Rightarrow> origin \<Rightarrow> bool \<Rightarrow> ('k, 'v) shard \<Rightarrow> ('k, 'v) shard" where
  "handle_apply_outcome e cd outcome origin notify_fan_out sd =
     (case outcome of
        Rejected \<Rightarrow> sd
      | Out_TooLarge _ _ \<Rightarrow> sd
      | Out_Put key v created version \<Rightarrow>
          let sd = (if notify_fan_out \<and> origin = From_Local then snd (push_fan_out (Applied key version) sd) else sd)
          in send_event (if created then Created key v origin else Updated key v origin) sd
      | Out_Tombstoned key version \<Rightarrow>
          let sd = (if origin \<noteq> From_Local then discard_pending_merge_before e cd key version sd else sd);
              sd = (if notify_fan_out \<and> origin = From_Local then snd (push_fan_out (Applied key version) sd) else sd)
          in send_event (Removed key origin) sd)"

section \<open>One write\<close>

definition shard_apply ::
  "externs \<Rightarrow> ('k, 'v) codec \<Rightarrow> 'k \<Rightarrow> bytes \<Rightarrow> hlc \<Rightarrow> 'v incoming \<Rightarrow> origin \<Rightarrow> ('k, 'v) shard \<Rightarrow> (cache_error + unit) \<times> ('k, 'v) shard" where
  "shard_apply e cd key key_bytes ver incoming origin sd =
     (let hash = hash_key_bytes e key_bytes; bucket = stripe_index_from_hash hash
      in case apply_many e (cd_decode_value cd) arrival.Local bucket [(\<lparr>ek_hash = hash, ek_key = key, ek_bytes = key_bytes\<rparr>, ver, incoming)]
                (sd_resolver sd) (sd_tombstone_ttl_ms sd) (sd_tombstone_max_ttl_ms sd) (sd_now sd) (sd_engine sd) of
           (outcomes, g) \<Rightarrow>
             let outcome = last outcomes;
                 sd = handle_apply_outcome e cd outcome origin True (sd\<lparr>sd_engine := g\<rparr>)
             in (map_or (Inr ()) (\<lambda>sz. Inl (merge_too_large sz sd)) (outcome_too_large outcome), sd))"

definition forward_write ::
  "'k \<Rightarrow> bytes \<Rightarrow> 'v incoming \<Rightarrow> hlc \<Rightarrow> ('k, 'v) shard \<Rightarrow> wire_record \<times> ('k, 'v) shard" where
  "forward_write key key_bytes incoming ver sd =
     (case incoming of
        Put v expires_at_ms encoded \<Rightarrow>
          (\<lparr>wr_key = key_bytes, wr_value = Some encoded, wr_ver = ver, wr_expires = expires_at_ms\<rparr>,
           send_event (Created key v From_Local) sd)
      | Tombstone _ \<Rightarrow>
          (\<lparr>wr_key = key_bytes, wr_value = None, wr_ver = ver, wr_expires = None\<rparr>,
           send_event (Removed key From_Local) sd))"

definition apply_or_forward ::
  "externs \<Rightarrow> ('k, 'v) codec \<Rightarrow> 'k \<Rightarrow> bytes \<Rightarrow> hlc \<Rightarrow> 'v incoming \<Rightarrow> ('k, 'v) shard \<Rightarrow> (cache_error + unit) \<times> ('k, 'v) shard" where
  "apply_or_forward e cd key key_bytes ver incoming sd =
     (if \<not> owns_key e key_bytes sd then
        case forward_write key key_bytes incoming ver sd of
          (rec, sd) \<Rightarrow>
            (case push_fan_out (Forwarded rec) sd of
               (took, sd) \<Rightarrow> (if took then Inr () else Inl Err_Closed, sd))
      else shard_apply e cd key key_bytes ver incoming From_Local sd)"

definition insert_expiring ::
  "externs \<Rightarrow> ('k, 'v) codec \<Rightarrow> 'k \<Rightarrow> 'v \<Rightarrow> duration option \<Rightarrow> ('k, 'v) shard \<Rightarrow> (cache_error + unit) \<times> ('k, 'v) shard" where
  "insert_expiring e cd key v ttl sd =
     (case check_ceiling sd of
        Inl err \<Rightarrow> (Inl err, sd)
      | Inr _ \<Rightarrow>
          (case (cd_encode_key cd key, cd_encode_value cd v) of
             (Some key_bytes, Some encoded) \<Rightarrow>
               (case stamp_local sd of
                  (ver, sd) \<Rightarrow>
                    let expires_at_ms = expiry_for (wall_ms ver) ttl sd
                    in if sd_max_frame sd < replicate_frame_len (length (sd_name sd)) (length key_bytes) (length encoded)
                       then (Inl (ValueTooLarge (length encoded) (sd_max_frame sd)), sd)
                       else apply_or_forward e cd key key_bytes ver (Put v expires_at_ms encoded) sd)
           | _ \<Rightarrow> (Inl Err_Codec, sd)))"

definition remove_sync :: "externs \<Rightarrow> ('k, 'v) codec \<Rightarrow> 'k \<Rightarrow> ('k, 'v) shard \<Rightarrow> (cache_error + unit) \<times> ('k, 'v) shard" where
  "remove_sync e cd key sd =
     (case cd_encode_key cd key of
        None \<Rightarrow> (Inl Err_Codec, sd)
      | Some key_bytes \<Rightarrow>
          (case stamp_local (discard_pending_merge e key key_bytes sd) of
             (ver, sd) \<Rightarrow> apply_or_forward e cd key key_bytes ver incoming_delete sd))"

section \<open>Many writes\<close>

type_synonym ('k, 'v) prepared = "u64 \<times> 'k \<times> bytes \<times> hlc \<times> 'v incoming"

definition partition_owned :: "('k, 'v) prepared list \<Rightarrow> ('k, 'v) shard \<Rightarrow> ('k, 'v) prepared list \<times> ('k, 'v) prepared list" where
  "partition_owned prepared sd =
     (case sd_ownership sd of
        Some view \<Rightarrow> partition (\<lambda>(hash, _). owns view (part_from_hash hash)) prepared
      | None \<Rightarrow> (prepared, []))"

definition replicate_batch_count :: nat where
  "replicate_batch_count = 4096"

text \<open>The loop of \<open>forward_prepared\<close>: \<open>landed\<close> is handed over whenever it fills a batch, and at the end.\<close>

fun forward_loop ::
  "wire_record list \<Rightarrow> ('k, 'v) prepared list \<Rightarrow> ('k, 'v) shard \<Rightarrow> bool \<times> ('k, 'v) shard" where
  "forward_loop landed [] sd = extend_fan_out (map Forwarded landed) sd"
| "forward_loop landed ((_, key, key_bytes, ver, incoming) # entries) sd =
     (case forward_write key key_bytes incoming ver sd of
        (rec, sd) \<Rightarrow>
          let landed = landed @ [rec]
          in if replicate_batch_count \<le> length landed
             then (case extend_fan_out (map Forwarded landed) sd of
                     (took, sd) \<Rightarrow> if took then forward_loop [] entries sd else (False, sd))
             else forward_loop landed entries sd)"

definition forward_prepared :: "('k, 'v) prepared list \<Rightarrow> ('k, 'v) shard \<Rightarrow> bool \<times> ('k, 'v) shard" where
  "forward_prepared prepared sd = (if prepared = [] then (True, sd) else forward_loop [] prepared sd)"

definition hand_off_bulk :: "('k \<times> hlc) list \<Rightarrow> bool \<Rightarrow> ('k, 'v) shard \<Rightarrow> ('k \<times> hlc) list \<times> ('k, 'v) shard" where
  "hand_off_bulk landed flush sd =
     (if landed = [] \<or> \<not> flush \<and> length landed < replicate_batch_count then (landed, sd)
      else ([], snd (extend_fan_out (map (\<lambda>(key, ver). Applied key ver) landed) sd)))"

fun first_refusal_loop :: "(nat \<Rightarrow> (nat \<times> nat) option) \<Rightarrow> (nat \<Rightarrow> nat) \<Rightarrow> nat list \<Rightarrow> nat option" where
  "first_refusal_loop first seen [] = None"
| "first_refusal_loop first seen (stripe # stripes) =
     (if is_some_and (\<lambda>(refused, _). refused = seen stripe) (first stripe) then map_option snd (first stripe)
      else first_refusal_loop first (seen(stripe := Suc (seen stripe))) stripes)"

definition first_refusal_in_call_order :: "nat list \<Rightarrow> (nat \<times> nat \<times> nat) list \<Rightarrow> nat option" where
  "first_refusal_in_call_order stripe_of first_refused =
     (if first_refused = [] then None
      else first_refusal_loop (map_of (rev (map (\<lambda>(stripe, index, sz). (stripe, (index, sz))) first_refused))) (\<lambda>_. 0) stripe_of)"

text \<open>The outcomes of one stripe's group: the keys that landed, the group's first refusal and the events.\<close>

fun group_outcomes ::
  "externs \<Rightarrow> ('k, 'v) codec \<Rightarrow> nat \<Rightarrow> nat \<Rightarrow> ('k, 'v) apply_outcome list \<Rightarrow> ('k \<times> hlc) list \<times> (nat \<times> nat \<times> nat) list \<times> ('k, 'v) shard
     \<Rightarrow> ('k \<times> hlc) list \<times> (nat \<times> nat \<times> nat) list \<times> ('k, 'v) shard" where
  "group_outcomes e cd bucket index [] st = st"
| "group_outcomes e cd bucket index (outcome # outcomes) (applied, refused, sd) =
     (let applied = (case (outcome_key outcome, outcome_version outcome) of (Some key, Some ver) \<Rightarrow> applied @ [(key, ver)] | _ \<Rightarrow> applied);
          refused = (case outcome_too_large outcome of
                       Some sz \<Rightarrow> if refused = [] \<or> fst (last refused) \<noteq> bucket then refused @ [(bucket, index, sz)] else refused
                     | None \<Rightarrow> refused)
      in group_outcomes e cd bucket (Suc index) outcomes (applied, refused, handle_apply_outcome e cd outcome From_Local False sd))"

fun apply_groups ::
  "externs \<Rightarrow> ('k, 'v) codec \<Rightarrow> nat list \<Rightarrow> (nat \<Rightarrow> ('k, 'v) batch_entry list) \<Rightarrow> ('k \<times> hlc) list \<times> (nat \<times> nat \<times> nat) list \<times> written \<times> ('k, 'v) shard
     \<Rightarrow> ('k \<times> hlc) list \<times> (nat \<times> nat \<times> nat) list \<times> written \<times> ('k, 'v) shard" where
  "apply_groups e cd [] by_stripe st = st"
| "apply_groups e cd (bucket # buckets) by_stripe (applied, refused, w, sd) =
     (if by_stripe bucket = [] then apply_groups e cd buckets by_stripe (applied, refused, w, sd)
      else case apply_many_in e (cd_decode_value cd) Any arrival.Local bucket (by_stripe bucket) (sd_resolver sd)
                  (sd_tombstone_ttl_ms sd) (sd_tombstone_max_ttl_ms sd) (sd_now sd) w (sd_engine sd) of
             (outcomes, _, w, g) \<Rightarrow>
               (case group_outcomes e cd bucket 0 outcomes (applied, refused, sd\<lparr>sd_engine := g\<rparr>) of
                  (applied, refused, sd) \<Rightarrow>
                    (case hand_off_bulk applied False sd of
                       (applied, sd) \<Rightarrow> apply_groups e cd buckets by_stripe (applied, refused, w, sd))))"

definition to_batch_entry :: "('k, 'v) prepared \<Rightarrow> ('k, 'v) batch_entry" where
  "to_batch_entry p = (case p of (hash, key, key_bytes, ver, incoming) \<Rightarrow> (\<lparr>ek_hash = hash, ek_key = key, ek_bytes = key_bytes\<rparr>, ver, incoming))"

definition by_stripe :: "('k, 'v) batch_entry list \<Rightarrow> nat \<Rightarrow> ('k, 'v) batch_entry list" where
  "by_stripe entries bucket = filter (\<lambda>en. stripe_index_from_hash (ek_hash (fst en)) = bucket) entries"

definition apply_grouped ::
  "externs \<Rightarrow> ('k, 'v) codec \<Rightarrow> ('k, 'v) prepared list \<Rightarrow> ('k, 'v) shard \<Rightarrow> (cache_error + unit) \<times> ('k, 'v) shard" where
  "apply_grouped e cd prepared sd =
     (let entries = map to_batch_entry prepared;
          stripe_of = map (\<lambda>en. stripe_index_from_hash (ek_hash (fst en))) entries
      in case apply_groups e cd [0..<bucket_count] (by_stripe entries) ([], [], written_default, sd) of
           (applied, refused, w, sd) \<Rightarrow>
             (case hand_off_bulk applied True sd of
                (_, sd) \<Rightarrow>
                  (map_or (Inr ()) (\<lambda>sz. Inl (merge_too_large sz sd)) (first_refusal_in_call_order stripe_of refused), sd)))"

text \<open>The loop that prepares a bulk insert: it stops at the first entry that fails and keeps those before it.\<close>

fun prepare_inserts ::
  "externs \<Rightarrow> ('k, 'v) codec \<Rightarrow> duration option \<Rightarrow> ('k \<times> 'v) list \<Rightarrow> ('k, 'v) shard
     \<Rightarrow> ('k, 'v) prepared list \<times> cache_error option \<times> ('k, 'v) shard" where
  "prepare_inserts e cd ttl [] sd = ([], None, sd)"
| "prepare_inserts e cd ttl ((key, v) # entries) sd =
     (case (cd_encode_key cd key, cd_encode_value cd v) of
        (Some key_bytes, Some encoded) \<Rightarrow>
          (case stamp_local sd of
             (ver, sd) \<Rightarrow>
               let expires_at_ms = expiry_for (wall_ms ver) ttl sd
               in if sd_max_frame sd < replicate_frame_len (length (sd_name sd)) (length key_bytes) (length encoded)
                  then ([], Some (ValueTooLarge (length encoded) (sd_max_frame sd)), sd)
                  else (case prepare_inserts e cd ttl entries sd of
                          (prepared, failure, sd) \<Rightarrow>
                            ((hash_key_bytes e key_bytes, key, key_bytes, ver, Put v expires_at_ms encoded) # prepared, failure, sd)))
      | _ \<Rightarrow> ([], Some Err_Codec, sd))"

definition insert_many_expiring ::
  "externs \<Rightarrow> ('k, 'v) codec \<Rightarrow> ('k \<times> 'v) list \<Rightarrow> duration option \<Rightarrow> ('k, 'v) shard \<Rightarrow> (cache_error + unit) \<times> ('k, 'v) shard" where
  "insert_many_expiring e cd entries ttl sd =
     (case check_ceiling sd of
        Inl err \<Rightarrow> (Inl err, sd)
      | Inr _ \<Rightarrow>
          (case prepare_inserts e cd ttl entries sd of
             (prepared, failure, sd) \<Rightarrow>
               (case partition_owned prepared sd of
                  (owned, forwarded) \<Rightarrow>
                    (case forward_prepared forwarded sd of
                       (sent, sd) \<Rightarrow>
                         if \<not> sent then (Inl Err_Closed, sd)
                         else (case apply_grouped e cd owned sd of
                                 (applied, sd) \<Rightarrow> (case failure of Some err \<Rightarrow> Inl err | None \<Rightarrow> applied, sd))))))"

text \<open>The loop that prepares a bulk remove; a key that does not encode ends the call there.\<close>

fun prepare_removes ::
  "externs \<Rightarrow> ('k, 'v) codec \<Rightarrow> 'k list \<Rightarrow> ('k, 'v) shard \<Rightarrow> (('k, 'v) prepared list) option \<times> ('k, 'v) shard" where
  "prepare_removes e cd [] sd = (Some [], sd)"
| "prepare_removes e cd (key # ks) sd =
     (case cd_encode_key cd key of
        None \<Rightarrow> (None, sd)
      | Some key_bytes \<Rightarrow>
          (case stamp_local (discard_pending_merge e key key_bytes sd) of
             (ver, sd) \<Rightarrow>
               (case prepare_removes e cd ks sd of
                  (prepared, sd) \<Rightarrow>
                    (map_option (\<lambda>ps. (hash_key_bytes e key_bytes, key, key_bytes, ver, incoming_delete) # ps) prepared, sd))))"

definition remove_many :: "externs \<Rightarrow> ('k, 'v) codec \<Rightarrow> 'k list \<Rightarrow> ('k, 'v) shard \<Rightarrow> (cache_error + unit) \<times> ('k, 'v) shard" where
  "remove_many e cd ks sd =
     (case prepare_removes e cd ks sd of
        (None, sd) \<Rightarrow> (Inl Err_Codec, sd)
      | (Some prepared, sd) \<Rightarrow>
          (case partition_owned prepared sd of
             (owned, forwarded) \<Rightarrow>
               (case forward_prepared forwarded sd of
                  (sent, sd) \<Rightarrow> if \<not> sent then (Inl Err_Closed, sd) else apply_grouped e cd owned sd)))"

definition shard_invalidate_local :: "externs \<Rightarrow> ('k, 'v) codec \<Rightarrow> 'k \<Rightarrow> ('k, 'v) shard \<Rightarrow> ('k, 'v) shard" where
  "shard_invalidate_local e cd key sd =
     (case cd_encode_key cd key of
        None \<Rightarrow> sd
      | Some key_bytes \<Rightarrow> sd\<lparr>sd_engine := invalidate_local e key_bytes (hash_key_bytes e key_bytes) (sd_engine sd)\<rparr>)"

end
