(* ===== verification/Shard_Merge.thy ===== *)
theory Shard_Merge
  imports Shard_Write
begin

text \<open>
  The merge path of a shard (\<^verbatim>\<open>sundog/src/store/shard_merge.rs\<close>): merges that apply at once,
  merges that fold into a pending value until their window closes, the flush of what is due or of
  everything, and \<open>clear\<close>. A hash map iterates its rows in an order of its own: \<open>ord\<close> is that order
  where a call visits a whole stripe.
\<close>

section \<open>Windows and frames\<close>

definition merge_deadline_ms :: "u64 \<Rightarrow> duration \<Rightarrow> u64" where
  "merge_deadline_ms started_at_ms window = sat_add started_at_ms (duration_ms window)"

definition merge_window_elapsed :: "u64 \<Rightarrow> u64 \<Rightarrow> bool" where
  "merge_window_elapsed now_ms deadline_ms \<longleftrightarrow> deadline_ms \<le> now_ms"

definition folded_pending_ver :: "hlc \<Rightarrow> hlc \<Rightarrow> hlc" where
  "folded_pending_ver pending_ver call_ver = max pending_ver call_ver"

definition window_is_zero :: "duration \<Rightarrow> bool" where
  "window_is_zero d \<longleftrightarrow> secs d = 0 \<and> nanos d = 0"

definition check_value_frame :: "nat \<Rightarrow> nat \<Rightarrow> ('k, 'v) shard \<Rightarrow> cache_error + unit" where
  "check_value_frame key_len value_len sd =
     (if sd_max_frame sd < replicate_frame_len (length (sd_name sd)) key_len value_len
      then Inl (ValueTooLarge value_len (sd_max_frame sd)) else Inr ())"

definition shard_merge_cap :: "('k, 'v) shard \<Rightarrow> merge_cap" where
  "shard_merge_cap sd = \<lparr>cap_cache_len = length (sd_name sd), cap_limit = sd_max_frame sd\<rparr>"

definition draw_merge_seq :: "('k, 'v) shard \<Rightarrow> u64 \<times> ('k, 'v) shard" where
  "draw_merge_seq sd = (sd_merge_seq sd + 1, sd\<lparr>sd_merge_seq := sd_merge_seq sd + 1\<rparr>)"

section \<open>Folding\<close>

record 'v contribution =
  ct_key_bytes :: bytes
  ct_value :: 'v
  ct_encoded :: bytes
  ct_ver :: hlc
  ct_expires :: "u64 option"

definition pending_view :: "'v pending_merge \<Rightarrow> record_view" where
  "pending_view p = \<lparr>view_value = Some (pm_encoded p), view_ver = pm_ver p, view_expires = pm_expires p\<rparr>"

definition contribution_view :: "'v contribution \<Rightarrow> record_view" where
  "contribution_view c = \<lparr>view_value = Some (ct_encoded c), view_ver = ct_ver c, view_expires = ct_expires c\<rparr>"

definition take_contribution :: "'v contribution \<Rightarrow> 'v pending_merge \<Rightarrow> 'v pending_merge" where
  "take_contribution c p =
     p\<lparr>pm_value := ct_value c, pm_encoded := ct_encoded c, pm_expires := ct_expires c,
       pm_ver := folded_pending_ver (pm_ver p) (ct_ver c)\<rparr>"

definition fold_into_occupied_merge ::
  "('k, 'v) codec \<Rightarrow> 'v contribution \<Rightarrow> 'v pending_merge \<Rightarrow> ('k, 'v) shard \<Rightarrow> cache_error + 'v pending_merge" where
  "fold_into_occupied_merge cd c p sd =
     (let r = sd_resolver sd; a = pending_view p; b = contribution_view c;
          fold = (if cr_merges r then fold_sides False (pm_ver p) (pm_expires p) (ct_ver c) (ct_expires c) else Fold_Winner);
          merged = (if fold = Fold_Both then cr_merge r (ct_key_bytes c) a b else None)
      in case (fold, merged) of
           (_, Some m) \<Rightarrow>
             if \<not> (merged_value m = ct_encoded c \<and> merged_expires m = ct_expires c) \<and>
                \<not> cap_admits (shard_merge_cap sd) (length (ct_key_bytes c)) (length (merged_value m)) (Some (length (pm_encoded p)))
             then Inl (merge_too_large (length (merged_value m)) sd)
             else (case cd_decode_value cd (merged_value m) of
                     None \<Rightarrow> Inl Err_Codec
                   | Some v \<Rightarrow>
                       Inr (p\<lparr>pm_value := v, pm_encoded := merged_value m, pm_expires := merged_expires m,
                              pm_ver := folded_pending_ver (pm_ver p) (ct_ver c)\<rparr>))
         | (Fold_Stored, None) \<Rightarrow> Inr p
         | (Fold_Incoming, None) \<Rightarrow> Inr (take_contribution c p)
         | (_, None) \<Rightarrow>
             (case cr_winner r (ct_key_bytes c) a b of B \<Rightarrow> Inr (take_contribution c p) | A \<Rightarrow> Inr p))"

definition fold_pending ::
  "externs \<Rightarrow> ('k, 'v) codec \<Rightarrow> 'k \<Rightarrow> 'v contribution \<Rightarrow> ('k, 'v) shard \<Rightarrow> (cache_error + unit) \<times> ('k, 'v) shard" where
  "fold_pending e cd key c sd =
     (let i = stripe_index_from_hash (hash_key_bytes e (ct_key_bytes c)); stripe = sd_pending_merges sd i
      in case map_of (pg_entries stripe) key of
           Some p \<Rightarrow>
             (case fold_into_occupied_merge cd c p sd of
                Inl err \<Rightarrow> (Inl err, sd)
              | Inr p \<Rightarrow>
                  (Inr (), sd\<lparr>sd_pending_merges := (sd_pending_merges sd)(i := stripe\<lparr>pg_entries := AList.update key p (pg_entries stripe)\<rparr>)\<rparr>))
         | None \<Rightarrow>
             let row = (merge_deadline_ms (sd_now sd) (sd_merge_window sd), pg_next_seq stripe);
                 p = \<lparr>pm_key_bytes = ct_key_bytes c, pm_value = ct_value c, pm_encoded = ct_encoded c,
                      pm_expires = ct_expires c, pm_ver = ct_ver c, pm_deadline_key = row\<rparr>
             in (Inr (), sd\<lparr>sd_pending_merges := (sd_pending_merges sd)
                     (i := stripe\<lparr>pg_entries := AList.update key p (pg_entries stripe), pg_next_seq := pg_next_seq stripe + 1,
                                  pg_by_deadline := bm_insert row key (pg_by_deadline stripe)\<rparr>),
                   sd_pending_merge_count := sd_pending_merge_count sd + 1\<rparr>))"

section \<open>Merging\<close>

text \<open>The tail both entry points share once the value is built: the frame, the stamp, then the apply or the fold.\<close>

definition merge_contribution ::
  "externs \<Rightarrow> ('k, 'v) codec \<Rightarrow> 'k \<Rightarrow> bytes \<Rightarrow> 'v \<Rightarrow> duration option \<Rightarrow> ('k, 'v) shard \<Rightarrow> (cache_error + unit) \<times> ('k, 'v) shard" where
  "merge_contribution e cd key key_bytes v ttl sd =
     (case cd_encode_value cd v of
        None \<Rightarrow> (Inl Err_Codec, sd)
      | Some encoded \<Rightarrow>
          (case check_value_frame (length key_bytes) (length encoded) sd of
             Inl err \<Rightarrow> (Inl err, sd)
           | Inr _ \<Rightarrow>
               (case stamp_local sd of
                  (ver, sd) \<Rightarrow>
                    let expires_at_ms = expiry_for (wall_ms ver) ttl sd
                    in if window_is_zero (sd_merge_window sd)
                       then apply_or_forward e cd key key_bytes ver (Put v expires_at_ms encoded) sd
                       else fold_pending e cd key
                              \<lparr>ct_key_bytes = key_bytes, ct_value = v, ct_encoded = encoded, ct_ver = ver, ct_expires = expires_at_ms\<rparr> sd)))"

definition merge_expiring ::
  "externs \<Rightarrow> ('k, 'v) codec \<Rightarrow> 'k \<Rightarrow> 'v \<Rightarrow> duration option \<Rightarrow> ('k, 'v) shard \<Rightarrow> (cache_error + unit) \<times> ('k, 'v) shard" where
  "merge_expiring e cd key v ttl sd =
     (case check_ceiling sd of
        Inl err \<Rightarrow> (Inl err, sd)
      | Inr _ \<Rightarrow>
          (case cd_encode_key cd key of
             None \<Rightarrow> (Inl Err_Codec, sd)
           | Some key_bytes \<Rightarrow> merge_contribution e cd key key_bytes v ttl sd))"

definition merge_sequenced_expiring ::
  "externs \<Rightarrow> ('k, 'v) codec \<Rightarrow> 'k \<Rightarrow> writer_id \<Rightarrow> (writer_id \<Rightarrow> u64 \<Rightarrow> 'v) \<Rightarrow> duration option \<Rightarrow> ('k, 'v) shard
     \<Rightarrow> (cache_error + unit) \<times> ('k, 'v) shard" where
  "merge_sequenced_expiring e cd key writer build ttl sd =
     (case check_ceiling sd of
        Inl err \<Rightarrow> (Inl err, sd)
      | Inr _ \<Rightarrow>
          (case cd_encode_key cd key of
             None \<Rightarrow> (Inl Err_Codec, sd)
           | Some key_bytes \<Rightarrow>
               (case draw_merge_seq sd of (seq, sd) \<Rightarrow> merge_contribution e cd key key_bytes (build writer seq) ttl sd)))"

section \<open>Flushing\<close>

definition flush_one_pending_merge ::
  "externs \<Rightarrow> ('k, 'v) codec \<Rightarrow> 'k \<Rightarrow> 'v pending_merge \<Rightarrow> ('k, 'v) shard \<Rightarrow> ('k, 'v) shard" where
  "flush_one_pending_merge e cd key p sd =
     snd (apply_or_forward e cd key (pm_key_bytes p) (pm_ver p) (Put (pm_value p) (pm_expires p) (pm_encoded p)) sd)"

definition flush_pending_merge_before ::
  "externs \<Rightarrow> ('k, 'v) codec \<Rightarrow> 'k \<Rightarrow> u64 \<Rightarrow> hlc \<Rightarrow> ('k, 'v) shard \<Rightarrow> ('k, 'v) shard" where
  "flush_pending_merge_before e cd key hash ver sd =
     (if \<not> has_pending_merges sd then sd
      else case take_pending_merge_if key hash (\<lambda>pending_ver. pending_merge_superseded pending_ver ver) sd of
             (None, sd) \<Rightarrow> sd
           | (Some p, sd) \<Rightarrow> flush_one_pending_merge e cd key p sd)"

text \<open>The rows of \<open>by_deadline\<close> that are due, in order, and what is left.\<close>

definition drain_due_deadlines :: "(u64 \<times> u64, 'k) btree_map \<Rightarrow> u64 \<Rightarrow> 'k list \<times> (u64 \<times> u64, 'k) btree_map" where
  "drain_due_deadlines by_deadline now_ms =
     (let due = takeWhile (\<lambda>((deadline_ms, _), _). merge_window_elapsed now_ms deadline_ms) (bm_entries by_deadline)
      in (map snd due, fold (\<lambda>(row, _). bm_remove row) due by_deadline))"

fun take_entries :: "'k list \<Rightarrow> ('k \<times> 'v pending_merge) list \<Rightarrow> ('k \<times> 'v pending_merge) list \<times> ('k \<times> 'v pending_merge) list" where
  "take_entries [] entries = ([], entries)"
| "take_entries (key # ks) entries =
     (case map_of entries key of
        None \<Rightarrow> take_entries ks entries
      | Some p \<Rightarrow> (case take_entries ks (AList.delete key entries) of (took, entries) \<Rightarrow> ((key, p) # took, entries)))"

definition due_of :: "u64 \<Rightarrow> ('k, 'v) pending_merge_stripe \<Rightarrow> ('k \<times> 'v pending_merge) list \<times> ('k, 'v) pending_merge_stripe" where
  "due_of now_ms stripe =
     (case drain_due_deadlines (pg_by_deadline stripe) now_ms of
        (ks, rows) \<Rightarrow>
          (case take_entries ks (pg_entries stripe) of
             (due, entries) \<Rightarrow> (due, stripe\<lparr>pg_by_deadline := rows, pg_entries := entries\<rparr>)))"

definition all_of ::
  "(('k \<times> 'v pending_merge) list \<Rightarrow> ('k \<times> 'v pending_merge) list) \<Rightarrow> ('k, 'v) pending_merge_stripe
     \<Rightarrow> ('k \<times> 'v pending_merge) list \<times> ('k, 'v) pending_merge_stripe" where
  "all_of ord stripe = (ord (pg_entries stripe), stripe\<lparr>pg_by_deadline := bm_empty, pg_entries := []\<rparr>)"

definition flush_stripe ::
  "externs \<Rightarrow> ('k, 'v) codec \<Rightarrow> (('k, 'v) pending_merge_stripe \<Rightarrow> ('k \<times> 'v pending_merge) list \<times> ('k, 'v) pending_merge_stripe) \<Rightarrow> nat
     \<Rightarrow> ('k, 'v) shard \<Rightarrow> ('k, 'v) shard" where
  "flush_stripe e cd select i sd =
     (case select (sd_pending_merges sd i) of
        (due, stripe) \<Rightarrow>
          fold (\<lambda>(key, p). flush_one_pending_merge e cd key p) due
            (sd\<lparr>sd_pending_merges := (sd_pending_merges sd)(i := stripe),
                sd_pending_merge_count := sd_pending_merge_count sd - length due\<rparr>))"

definition flush_due_pending_merges :: "externs \<Rightarrow> ('k, 'v) codec \<Rightarrow> u64 \<Rightarrow> ('k, 'v) shard \<Rightarrow> ('k, 'v) shard" where
  "flush_due_pending_merges e cd now_ms sd = fold (flush_stripe e cd (due_of now_ms)) [0..<bucket_count] sd"

definition flush_all_pending_merges ::
  "externs \<Rightarrow> ('k, 'v) codec \<Rightarrow> (('k \<times> 'v pending_merge) list \<Rightarrow> ('k \<times> 'v pending_merge) list) \<Rightarrow> ('k, 'v) shard \<Rightarrow> ('k, 'v) shard" where
  "flush_all_pending_merges e cd ord sd = fold (flush_stripe e cd (all_of ord)) [0..<bucket_count] sd"

definition next_pending_merge_deadline_ms :: "('k, 'v) shard \<Rightarrow> u64 option" where
  "next_pending_merge_deadline_ms sd =
     (let firsts = List.map_filter (\<lambda>i.
            case bm_keys (pg_by_deadline (sd_pending_merges sd i)) of [] \<Rightarrow> None | (deadline_ms, _) # _ \<Rightarrow> Some deadline_ms) [0..<bucket_count]
      in if firsts = [] then None else Some (Min (set firsts)))"

section \<open>Clearing\<close>

definition split_pending_for_clear :: "('k \<times> bool) list \<Rightarrow> 'k list \<times> 'k list" where
  "split_pending_for_clear pending = (map fst (filter snd pending), map fst (filter (\<lambda>p. \<not> snd p) pending))"

definition clear_stripe ::
  "externs \<Rightarrow> (('k \<times> 'v pending_merge) list \<Rightarrow> ('k \<times> 'v pending_merge) list) \<Rightarrow> nat
     \<Rightarrow> 'k list \<times> ('k \<times> 'v pending_merge) list \<times> ('k, 'v) shard \<Rightarrow> 'k list \<times> ('k \<times> 'v pending_merge) list \<times> ('k, 'v) shard" where
  "clear_stripe e ord i st =
     (case st of (ks, forwarded, sd) \<Rightarrow>
        let stripe = sd_pending_merges sd i;
            (kept, flush) = split_pending_for_clear (map (\<lambda>(key, p). (key, owns_key e (pm_key_bytes p) sd)) (ord (pg_entries stripe)));
            (took, stripe) = fold (\<lambda>key (took, stripe).
               case pending_remove key stripe of (None, stripe) \<Rightarrow> (took, stripe) | (Some p, stripe) \<Rightarrow> (took @ [(key, p)], stripe))
               flush ([], stripe)
        in (ks @ kept, forwarded @ took,
            sd\<lparr>sd_pending_merges := (sd_pending_merges sd)(i := stripe), sd_pending_merge_count := sd_pending_merge_count sd - length took\<rparr>))"

definition shard_keys :: "externs \<Rightarrow> ('k, 'v) codec \<Rightarrow> ('k, 'v) shard \<Rightarrow> 'k list" where
  "shard_keys e cd sd = keys e (\<lambda>bs. the (cd_decode_key cd bs)) (sd_now sd) (sd_engine sd)"

definition keys_to_clear ::
  "externs \<Rightarrow> ('k, 'v) codec \<Rightarrow> (('k \<times> 'v pending_merge) list \<Rightarrow> ('k \<times> 'v pending_merge) list) \<Rightarrow> ('k, 'v) shard \<Rightarrow> 'k list \<times> ('k, 'v) shard" where
  "keys_to_clear e cd ord sd =
     (let (ks, forwarded, sd) = (if has_pending_merges sd then fold (clear_stripe e ord) [0..<bucket_count] ([], [], sd) else ([], [], sd));
          sd = fold (\<lambda>(key, p). flush_one_pending_merge e cd key p) forwarded sd
      in (ks @ filter (\<lambda>key. key \<notin> set ks) (shard_keys e cd sd), sd))"

definition shard_clear ::
  "externs \<Rightarrow> ('k, 'v) codec \<Rightarrow> (('k \<times> 'v pending_merge) list \<Rightarrow> ('k \<times> 'v pending_merge) list) \<Rightarrow> ('k, 'v) shard
     \<Rightarrow> (cache_error + unit) \<times> ('k, 'v) shard" where
  "shard_clear e cd ord sd = (case keys_to_clear e cd ord sd of (ks, sd) \<Rightarrow> remove_many e cd ks sd)"

end
