(* ===== verification/Shard_Inbound.thy ===== *)
theory Shard_Inbound
  imports Shard_Merge
begin

text \<open>
  What reaches a shard from its peers (the inbound half of \<^verbatim>\<open>sundog/src/store/shard_serve.rs\<close>,
  with \<^verbatim>\<open>shard_skew.rs\<close> and the warning rule of \<^verbatim>\<open>shard_ignored.rs\<close>): the guard that lets in
  only records of parts the current view owns, the records a releasing node sends on, the apply of a
  batch stripe by stripe, invalidations, the hold of forwarded writes stamped too far ahead with its
  release, and the seal before a close.
\<close>

section \<open>The guard\<close>

definition inbound_scope :: "mode \<Rightarrow> apply_scope" where
  "inbound_scope m = (case m of Invalidation \<Rightarrow> HeldOnly | _ \<Rightarrow> Any)"

datatype inbound = In_Replicated | In_Forwarded nat

definition inbound_held :: "inbound \<Rightarrow> nat" where
  "inbound_held i = (case i of In_Replicated \<Rightarrow> 0 | In_Forwarded held_n \<Rightarrow> held_n)"

definition redirect_to_owners :: "wire_record list \<Rightarrow> ('k, 'v) shard \<Rightarrow> ('k, 'v) shard" where
  "redirect_to_owners redirected sd =
     (if redirected = [] then sd else snd (extend_fan_out (map Forwarded redirected) sd))"

definition guard_inbound ::
  "externs \<Rightarrow> wire_record list \<Rightarrow> nat \<Rightarrow> ('k, 'v) shard \<Rightarrow> wire_record list \<times> nat \<times> ('k, 'v) shard" where
  "guard_inbound e recs held_n sd =
     (case sd_ownership sd of
        None \<Rightarrow> (recs, held_n, sd)
      | Some view \<Rightarrow>
          let owned_rec = (\<lambda>rec. owns view (part_of_key e (wr_key rec)));
              owned = filter owned_rec recs;
              held_owned = length (filter owned_rec (take held_n recs));
              (redirected, dropped) = partition (\<lambda>rec.
                 is_some_and (\<lambda>r. is_releasing r (part_of_key e (wr_key rec))) (sd_residency sd)) (filter (\<lambda>rec. \<not> owned_rec rec) recs)
          in (owned, held_owned, redirect_to_owners redirected sd))"

section \<open>The skew hold\<close>

definition holds_skewed_forwards :: "('k, 'v) shard \<Rightarrow> bool" where
  "holds_skewed_forwards sd \<longleftrightarrow> sd_max_clock_skew_ms sd \<noteq> None \<and> sd_ownership sd \<noteq> None"

definition hold_skewed :: "wire_record \<Rightarrow> ('k, 'v) shard \<Rightarrow> ('k, 'v) shard" where
  "hold_skewed rec sd =
     (case (sd_max_clock_skew_ms sd, sd_ownership sd) of
        (Some max_skew_ms, Some _) \<Rightarrow>
          if beyond_horizon (skew_due_ms (wall_ms (wr_ver rec)) max_skew_ms) (sd_now sd) (skew_hold_horizon_ms (sd_tombstone_max_ttl_ms sd))
          then sd
          else sd\<lparr>sd_skew_hold := snd (hold rec max_skew_ms (cr_merges (sd_resolver sd)) (sd_skew_hold sd))\<rparr>
      | _ \<Rightarrow> sd)"

definition next_skew_wait :: "('k, 'v) shard \<Rightarrow> u64 option" where
  "next_skew_wait sd = skew_hold_wait (next_due_ms (sd_skew_hold sd)) (sd_now sd)"

section \<open>Invalidations\<close>

definition invalidate_key ::
  "externs \<Rightarrow> ('k, 'v) codec \<Rightarrow> bytes \<Rightarrow> hlc \<Rightarrow> bool \<Rightarrow> ('k, 'v) shard \<Rightarrow> ('k, 'v) shard" where
  "invalidate_key e cd key ver tombstone sd =
     (case observe_remote ver sd of
        (accepted, sd) \<Rightarrow>
          if \<not> accepted then sd
          else (case cd_decode_key cd key of
                  None \<Rightarrow> sd
                | Some decoded_key \<Rightarrow>
                    let hash = hash_key_bytes e key;
                        sd = (if tombstone then discard_pending_merge_before e cd decoded_key ver sd
                              else flush_pending_merge_before e cd decoded_key hash ver sd)
                    in case invalidate e key hash ver (sd_engine sd) of
                         (dropped, g) \<Rightarrow>
                           let sd = sd\<lparr>sd_engine := g\<rparr>
                           in if dropped \<noteq> None then send_event (Removed decoded_key (From_Remote (hlc_node ver))) sd else sd))"

section \<open>The apply of a batch\<close>

definition decode_incoming :: "('k, 'v) codec \<Rightarrow> bytes option \<Rightarrow> u64 option \<Rightarrow> 'v incoming option" where
  "decode_incoming cd bs expires_at_ms =
     (case bs of
        None \<Rightarrow> Some (Tombstone expires_at_ms)
      | Some vb \<Rightarrow> map_option (\<lambda>v. Put v expires_at_ms vb) (cd_decode_value cd vb))"

type_synonym ('k, 'v) remote_entry = "('k, 'v) batch_entry \<times> origin"

fun decode_inbound ::
  "externs \<Rightarrow> ('k, 'v) codec \<Rightarrow> nat \<Rightarrow> nat \<Rightarrow> wire_record list \<Rightarrow> ('k, 'v) shard \<Rightarrow> ('k, 'v) remote_entry list \<times> ('k, 'v) shard" where
  "decode_inbound e cd held_n i [] sd = ([], sd)"
| "decode_inbound e cd held_n i (rec # recs) sd =
     (case observe_remote (wr_ver rec) sd of
        (accepted, sd) \<Rightarrow>
          if \<not> accepted then decode_inbound e cd held_n (Suc i) recs (if i < held_n then hold_skewed rec sd else sd)
          else (case (cd_decode_key cd (wr_key rec), decode_incoming cd (wr_value rec) (wr_expires rec)) of
                  (Some key, Some incoming) \<Rightarrow>
                    (case decode_inbound e cd held_n (Suc i) recs sd of
                       (decoded, sd) \<Rightarrow>
                         (((\<lparr>ek_hash = hash_key_bytes e (wr_key rec), ek_key = key, ek_bytes = wr_key rec\<rparr>, wr_ver rec, incoming),
                           From_Remote (hlc_node (wr_ver rec))) # decoded, sd))
                | _ \<Rightarrow> decode_inbound e cd held_n (Suc i) recs sd))"

definition remote_stripe :: "('k, 'v) remote_entry list \<Rightarrow> nat \<Rightarrow> ('k, 'v) remote_entry list" where
  "remote_stripe decoded bucket = filter (\<lambda>(en, _). stripe_index_from_hash (ek_hash (fst en)) = bucket) decoded"

definition remote_outcomes ::
  "externs \<Rightarrow> ('k, 'v) codec \<Rightarrow> (('k, 'v) apply_outcome \<times> origin) list \<Rightarrow> ('k, 'v) shard \<Rightarrow> ('k, 'v) shard" where
  "remote_outcomes e cd outs sd = fold (\<lambda>(outcome, origin). handle_apply_outcome e cd outcome origin True) outs sd"

fun apply_remote_groups ::
  "externs \<Rightarrow> ('k, 'v) codec \<Rightarrow> apply_scope \<Rightarrow> nat list \<Rightarrow> (nat \<Rightarrow> ('k, 'v) remote_entry list) \<Rightarrow> written \<times> ('k, 'v) shard
     \<Rightarrow> written \<times> ('k, 'v) shard" where
  "apply_remote_groups e cd scope [] groups st = st"
| "apply_remote_groups e cd scope (bucket # buckets) groups (w, sd) =
     (if groups bucket = [] then apply_remote_groups e cd scope buckets groups (w, sd)
      else case apply_many_in e (cd_decode_value cd) scope Peer bucket (map fst (groups bucket)) (sd_resolver sd)
                  (sd_tombstone_ttl_ms sd) (sd_tombstone_max_ttl_ms sd) (sd_now sd) w (sd_engine sd) of
             (outcomes, _, w, g) \<Rightarrow>
               apply_remote_groups e cd scope buckets groups
                 (w, remote_outcomes e cd (zip outcomes (map snd (groups bucket))) (sd\<lparr>sd_engine := g\<rparr>)))"

definition apply_inbound ::
  "externs \<Rightarrow> ('k, 'v) codec \<Rightarrow> wire_record list \<Rightarrow> inbound \<Rightarrow> ('k, 'v) shard \<Rightarrow> ('k, 'v) shard" where
  "apply_inbound e cd recs inb sd =
     (case guard_inbound e recs (inbound_held inb) sd of
        (recs, held_n, sd) \<Rightarrow>
          let scope = inbound_scope (sd_mode sd);
              (recs, removals, held_n) = (case scope of
                 HeldOnly \<Rightarrow> (filter (\<lambda>rec. wr_value rec \<noteq> None) recs, filter (\<lambda>rec. wr_value rec = None) recs, 0)
               | Any \<Rightarrow> (recs, [], held_n));
              sd = fold (\<lambda>rec. invalidate_key e cd (wr_key rec) (wr_ver rec) True) removals sd
          in case decode_inbound e cd held_n 0 recs sd of
               (decoded, sd) \<Rightarrow>
                 snd (apply_remote_groups e cd scope [0..<bucket_count] (remote_stripe decoded) (written_default, sd)))"

definition apply_remote_batch :: "externs \<Rightarrow> ('k, 'v) codec \<Rightarrow> wire_record list \<Rightarrow> ('k, 'v) shard \<Rightarrow> ('k, 'v) shard" where
  "apply_remote_batch e cd recs sd = apply_inbound e cd recs In_Replicated sd"

definition apply_forwarded_batch :: "externs \<Rightarrow> ('k, 'v) codec \<Rightarrow> wire_record list \<Rightarrow> ('k, 'v) shard \<Rightarrow> ('k, 'v) shard" where
  "apply_forwarded_batch e cd recs sd = apply_inbound e cd recs (In_Forwarded (length recs)) sd"

definition apply_forward_run ::
  "externs \<Rightarrow> ('k, 'v) codec \<Rightarrow> wire_record list \<Rightarrow> wire_record list \<Rightarrow> ('k, 'v) shard \<Rightarrow> ('k, 'v) shard" where
  "apply_forward_run e cd held_n kept sd = apply_inbound e cd (held_n @ kept) (In_Forwarded (length held_n)) sd"

section \<open>Release, hand-off and seal\<close>

definition release_due_skewed :: "externs \<Rightarrow> ('k, 'v) codec \<Rightarrow> ('k, 'v) shard \<Rightarrow> ('k, 'v) shard" where
  "release_due_skewed e cd sd =
     (case take_due (sd_now sd) (sd_skew_hold sd) of
        (due, h) \<Rightarrow>
          if due = [] then sd\<lparr>sd_skew_hold := h\<rparr>
          else let sd = sd\<lparr>sd_skew_hold := h\<rparr>
               in case sd_ownership sd of
                    None \<Rightarrow> sd
                  | Some view \<Rightarrow>
                      let (owned, unowned) = partition (\<lambda>rec. owns view (part_of_key e (wr_key rec))) due;
                          sd = redirect_to_owners unowned sd
                      in if owned = [] then sd else apply_inbound e cd owned (In_Forwarded (length owned)) sd)"

definition hand_off_skew_hold :: "('k, 'v) shard \<Rightarrow> ('k, 'v) shard" where
  "hand_off_skew_hold sd =
     (case hold_close (sd_skew_hold sd) of
        (handed, h) \<Rightarrow>
          let sd = sd\<lparr>sd_skew_hold := h\<rparr>
          in if handed = [] then sd else snd (extend_fan_out (map Forwarded handed) sd))"

definition seal_for_close ::
  "externs \<Rightarrow> ('k, 'v) codec \<Rightarrow> (('k \<times> 'v pending_merge) list \<Rightarrow> ('k \<times> 'v pending_merge) list) \<Rightarrow> ('k, 'v) shard \<Rightarrow> ('k, 'v) shard" where
  "seal_for_close e cd ord sd =
     (let sd = hand_off_skew_hold (flush_all_pending_merges e cd ord sd)
      in sd\<lparr>sd_fan_out := queue_seal (sd_fan_out sd)\<rparr>)"

definition ignored_forward_warn_spacing_ms :: u64 where
  "ignored_forward_warn_spacing_ms = 60000"

definition ignored_forward_warn_due :: "u64 option \<Rightarrow> u64 \<Rightarrow> bool" where
  "ignored_forward_warn_due last_warn_ms now_ms =
     is_none_or (\<lambda>last_ms. now_ms < last_ms \<or> ignored_forward_warn_spacing_ms \<le> now_ms - last_ms) last_warn_ms"

end
