(* ===== verification/Shard_Serve.thy ===== *)
theory Shard_Serve
  imports Shard_Inbound
begin

text \<open>
  What a shard serves its peers (the outbound half of \<^verbatim>\<open>sundog/src/store/shard_serve.rs\<close>, with the
  scopes of \<^verbatim>\<open>shard_ops.rs\<close> and the frame limit of \<^verbatim>\<open>shard_oversize.rs\<close>): digests, listings and
  records gated by what is resident, the scope of a round with one peer, the records a drained burst
  sends, the snapshot, and one pass of compaction.
\<close>

section \<open>Scopes\<close>

record masked_digest =
  md_bucket :: u16
  md_mask :: part_mask
  md_digest :: u64

datatype scope = Scope_Buckets "(u16 \<times> u64) list" | Scope_Parts "masked_digest list"

record scoped_digests =
  sg_view_hash :: u64
  sg_scope :: scope

fun coverage :: "scope \<Rightarrow> (u16 \<times> part_mask) list" where
  "coverage (Scope_Buckets ids) = map (\<lambda>(bucket, _). (bucket, mask_all)) ids"
| "coverage (Scope_Parts masked) = map (\<lambda>m. (md_bucket m, md_mask m)) masked"

fun scope_retain :: "(u16 \<Rightarrow> part_mask \<Rightarrow> bool) \<Rightarrow> scope \<Rightarrow> scope" where
  "scope_retain keep (Scope_Buckets ids) = Scope_Buckets (filter (\<lambda>(bucket, _). keep bucket mask_all) ids)"
| "scope_retain keep (Scope_Parts masked) = Scope_Parts (filter (\<lambda>m. keep (md_bucket m) (md_mask m)) masked)"

section \<open>What is resident\<close>

definition residency_check :: "('k, 'v) shard \<Rightarrow> (ownership_view \<times> residency_set) option" where
  "residency_check sd =
     (case (sd_ownership sd, sd_residency sd) of (Some view, Some residency) \<Rightarrow> Some (view, residency) | _ \<Rightarrow> None)"

definition is_resident_part :: "ownership_view \<times> residency_set \<Rightarrow> part_id \<Rightarrow> bool" where
  "is_resident_part residency p = (case residency of (view, res) \<Rightarrow> owns view p \<or> is_releasing res p)"

definition is_resident_bucket :: "ownership_view \<times> residency_set \<Rightarrow> u16 \<Rightarrow> bool" where
  "is_resident_bucket residency bucket = (case residency of (view, res) \<Rightarrow> owns_any_in_bucket view bucket \<or> releasing_in_bucket res bucket)"

definition resident_bucket_mask :: "ownership_view \<times> residency_set \<Rightarrow> bool list" where
  "resident_bucket_mask residency =
     (case residency of (view, res) \<Rightarrow>
        fold (\<lambda>p m. m[unat (part_bucket p) := True]) (releasing_parts res) (ov_owns_in_bucket view))"

definition is_cold_part :: "part_id \<Rightarrow> ('k, 'v) shard \<Rightarrow> bool" where
  "is_cold_part p sd =
     is_some_and (\<lambda>r. is_cold r p \<or> is_unsettled r p \<and> is_some_and (\<lambda>view. owns view p) (sd_ownership sd)) (sd_residency sd)"

definition is_unverified_part :: "part_id \<Rightarrow> ('k, 'v) shard \<Rightarrow> bool" where
  "is_unverified_part p sd = is_some_and (\<lambda>r. is_unverified r p) (sd_residency sd)"

definition is_cold_bucket :: "u16 \<Rightarrow> ('k, 'v) shard \<Rightarrow> bool" where
  "is_cold_bucket bucket sd = list_ex (\<lambda>p. is_cold_part p sd) (part_of_bucket bucket)"

definition is_unverified_bucket :: "u16 \<Rightarrow> ('k, 'v) shard \<Rightarrow> bool" where
  "is_unverified_bucket bucket sd = list_ex (\<lambda>p. is_unverified_part p sd) (part_of_bucket bucket)"

section \<open>Digests and the scope of a round\<close>

definition peer_scope :: "ownership_view \<times> residency_set \<Rightarrow> node_id \<Rightarrow> part_id list" where
  "peer_scope residency peer_node =
     (case residency of (view, res) \<Rightarrow>
        remdups_adj (sort (shared_owned_parts view peer_node @ filter (\<lambda>p. peer_node \<in> set (owners_of view p)) (releasing_parts res))))"

definition bucket_digests_for :: "ownership_view \<times> residency_set \<Rightarrow> node_id \<Rightarrow> ('k, 'v) shard \<Rightarrow> (u16 \<times> u64) list" where
  "bucket_digests_for residency peer_node sd =
     (let scope = part_bucket ` set (peer_scope residency peer_node)
      in filter (\<lambda>(bucket, _). bucket \<in> scope) (digests (sd_engine sd)))"

definition part_scope_masks :: "part_id list \<Rightarrow> (u16, part_mask) btree_map" where
  "part_scope_masks parts =
     fold (\<lambda>p m. bm_insert (part_bucket p) (mask_insert (part_part p) (map_or mask_default (\<lambda>x. x) (bm_get m (part_bucket p)))) m) parts bm_empty"

definition masked_digests :: "part_id list \<Rightarrow> ('k, 'v) shard \<Rightarrow> masked_digest list" where
  "masked_digests parts sd =
     map (\<lambda>(bucket, m). \<lparr>md_bucket = bucket, md_mask = m, md_digest = mask_fold m (part_digests bucket (sd_engine sd))\<rparr>)
       (bm_entries (part_scope_masks parts))"

definition shard_digests :: "('k, 'v) shard \<Rightarrow> (u16 \<times> u64) list" where
  "shard_digests sd =
     (case residency_check sd of
        Some residency \<Rightarrow>
          filter (\<lambda>(bucket, _). resident_bucket_mask residency ! (unat bucket mod bucket_count)) (digests (sd_engine sd))
      | None \<Rightarrow> digests (sd_engine sd))"

definition ae_digests_for :: "node_id \<Rightarrow> ('k, 'v) shard \<Rightarrow> (u16 \<times> u64) list" where
  "ae_digests_for peer_node sd =
     (case residency_check sd of
        None \<Rightarrow> shard_digests sd
      | Some residency \<Rightarrow> bucket_digests_for residency peer_node sd)"

definition ae_scoped_digests_for :: "node_id \<Rightarrow> ('k, 'v) shard \<Rightarrow> scoped_digests option" where
  "ae_scoped_digests_for peer_node sd =
     map_option (\<lambda>residency.
       \<lparr>sg_view_hash = ov_view_hash (fst residency),
        sg_scope = (case ov_granularity (fst residency) of
           By_Bucket \<Rightarrow> Scope_Buckets (bucket_digests_for residency peer_node sd)
         | By_Part \<Rightarrow> Scope_Parts (masked_digests (peer_scope residency peer_node) sd))\<rparr>) (residency_check sd)"

definition ae_peer_filter :: "node_id list \<Rightarrow> node_id list \<Rightarrow> ('k, 'v) shard \<Rightarrow> node_id list \<times> node_id list" where
  "ae_peer_filter dirty live_nodes sd =
     (case (sd_ownership sd, sd_residency sd) of
        (Some view, Some residency) \<Rightarrow>
          let cohort = set (ov_co_owners view) \<union> (\<Union>p \<in> set (releasing_parts residency). set (owners_of view p))
          in (filter (\<lambda>n. n \<in> cohort) dirty, filter (\<lambda>n. n \<in> cohort) live_nodes)
      | _ \<Rightarrow> (dirty, live_nodes))"

definition ae_exchanges_both :: "('k, 'v) shard \<Rightarrow> bool" where
  "ae_exchanges_both sd = exchanges_both_records (cr_merges (sd_resolver sd)) (cr_needs_value_bytes (sd_resolver sd))"

section \<open>Listings\<close>

definition dedup_sorted :: "('a \<Rightarrow> 'b::linorder) \<Rightarrow> 'a list \<Rightarrow> 'a list" where
  "dedup_sorted by items = remdups_adj (sort_key by items)"

definition gated :: "bool list option \<Rightarrow> u16 \<Rightarrow> 'r \<Rightarrow> 'r \<Rightarrow> u16 \<times> 'r" where
  "gated m bucket computed_value absent =
     (let resident_here = is_none_or (\<lambda>m. unat bucket < length m \<and> m ! unat bucket) m
      in (bucket, if resident_here then computed_value else absent))"

definition gated_map :: "u16 list \<Rightarrow> (u16 \<Rightarrow> 'r) \<Rightarrow> 'r \<Rightarrow> ('k, 'v) shard \<Rightarrow> (u16 \<times> 'r) list" where
  "gated_map buckets f absent sd =
     (let m = map_option resident_bucket_mask (residency_check sd)
      in map (\<lambda>b. gated m b (f b) absent) (dedup_sorted (\<lambda>b. b) buckets))"

definition resident_backfill ::
  "('a \<Rightarrow> 'b::linorder) \<Rightarrow> 'a list \<Rightarrow> (ownership_view \<times> residency_set \<Rightarrow> 'a \<Rightarrow> bool) \<Rightarrow> ('a list \<Rightarrow> ('a \<times> key_version list) list)
     \<Rightarrow> ('k, 'v) shard \<Rightarrow> ('a \<times> key_version list) list" where
  "resident_backfill by wanted is_resident query sd =
     (let wanted = dedup_sorted by wanted
      in case residency_check sd of
           Some residency \<Rightarrow>
             let (held_here, unresident) = partition (is_resident residency) wanted
             in sort_key (\<lambda>(t, _). by t) (query held_here @ map (\<lambda>t. (t, [])) unresident)
         | None \<Rightarrow> query wanted)"

definition bucket_entries :: "externs \<Rightarrow> u16 \<Rightarrow> ('k, 'v) shard \<Rightarrow> key_version list" where
  "bucket_entries e bucket sd =
     (if is_some_and (\<lambda>residency. \<not> is_resident_bucket residency bucket) (residency_check sd) then []
      else map_or [] snd (if collect_buckets e [bucket] (sd_now sd) (sd_engine sd) = [] then None
                          else Some (last (collect_buckets e [bucket] (sd_now sd) (sd_engine sd)))))"

definition entries_for_buckets :: "externs \<Rightarrow> u16 list \<Rightarrow> ('k, 'v) shard \<Rightarrow> (u16 \<times> key_version list) list" where
  "entries_for_buckets e buckets sd =
     resident_backfill (\<lambda>b. b) buckets is_resident_bucket (\<lambda>wanted. collect_buckets e wanted (sd_now sd) (sd_engine sd)) sd"

definition entries_for_parts :: "externs \<Rightarrow> bucket_part list \<Rightarrow> ('k, 'v) shard \<Rightarrow> (bucket_part \<times> key_version list) list" where
  "entries_for_parts e parts sd =
     resident_backfill (\<lambda>bp. (bp_bucket bp, bp_part bp)) parts (\<lambda>residency bp. is_resident_part residency (part_of_bucket_part bp))
       (\<lambda>wanted. collect_parts e wanted (sd_now sd) (sd_engine sd)) sd"

definition bucket_lens :: "u16 list \<Rightarrow> ('k, 'v) shard \<Rightarrow> (u16 \<times> nat) list" where
  "bucket_lens buckets sd = gated_map buckets (\<lambda>b. bucket_len b (sd_engine sd)) 0 sd"

definition shard_part_digests :: "u16 list \<Rightarrow> ('k, 'v) shard \<Rightarrow> (u16 \<times> u64 list) list" where
  "shard_part_digests buckets sd = gated_map buckets (\<lambda>b. part_digests b (sd_engine sd)) [] sd"

definition held_buckets :: "('k, 'v) shard \<Rightarrow> u16 list" where
  "held_buckets sd = filter (\<lambda>b. 0 < bucket_len b (sd_engine sd)) (map of_nat [0..<bucket_count])"

definition shard_held_parts :: "externs \<Rightarrow> ('k, 'v) shard \<Rightarrow> part_id list" where
  "shard_held_parts e sd = held_parts e (sd_engine sd)"

section \<open>Records\<close>

definition records_for :: "externs \<Rightarrow> bytes list \<Rightarrow> ('k, 'v) shard \<Rightarrow> wire_record list" where
  "records_for e ks sd =
     (let ks = (case residency_check sd of
                  Some residency \<Rightarrow> filter (\<lambda>k. is_resident_part residency (part_of_key e k)) ks
                | None \<Rightarrow> ks)
      in List.map_filter (\<lambda>k. record_for e k (sd_now sd) (sd_engine sd)) ks)"

definition records_for_typed :: "externs \<Rightarrow> ('k, 'v) codec \<Rightarrow> 'k list \<Rightarrow> ('k, 'v) shard \<Rightarrow> wire_record list" where
  "records_for_typed e cd ks sd =
     List.map_filter (\<lambda>key. case cd_encode_key cd key of
        None \<Rightarrow> None | Some key_bytes \<Rightarrow> record_for e key_bytes (sd_now sd) (sd_engine sd)) ks"

definition written_records :: "externs \<Rightarrow> bytes list \<Rightarrow> ('k, 'v) shard \<Rightarrow> wire_record list" where
  "written_records e ks sd = List.map_filter (\<lambda>k. written_record_for e k (sd_now sd) (sd_engine sd)) ks"

definition shard_fan_out_records :: "externs \<Rightarrow> ('k, 'v) codec \<Rightarrow> ('k \<times> hlc) list \<Rightarrow> ('k, 'v) shard \<Rightarrow> fan_out_records" where
  "shard_fan_out_records e cd writes sd =
     (let queued = List.map_filter (\<lambda>(key, ver). map_option (\<lambda>kb. (kb, ver)) (cd_encode_key cd key)) writes
      in partition_writes queued (written_records e (map fst queued) sd) (\<not> ae_exchanges_both sd))"

fun split_step :: "nat \<Rightarrow> wire_record \<Rightarrow> wire_record list \<times> (nat \<times> bytes) option \<Rightarrow> wire_record list \<times> (nat \<times> bytes) option" where
  "split_step cache_len rec (kept, largest) =
     (let len = replicate_frame_len cache_len (length (wr_key rec)) (map_or 0 length (wr_value rec))
      in if len \<le> max_frame then (kept @ [rec], largest)
         else (kept, if is_none_or (\<lambda>(h, _). h < len) largest then Some (len, wr_key rec) else largest))"

definition split_unframeable :: "nat \<Rightarrow> wire_record list \<Rightarrow> wire_record list \<times> (nat \<times> bytes) option" where
  "split_unframeable cache_len records = fold (split_step cache_len) records ([], None)"

definition skip_unframeable :: "wire_record list \<Rightarrow> ('k, 'v) shard \<Rightarrow> wire_record list" where
  "skip_unframeable records sd = fst (split_unframeable (length (sd_name sd)) records)"

definition snapshot_chunks :: "externs \<Rightarrow> ('k, 'v) shard \<Rightarrow> wire_record list list" where
  "snapshot_chunks e sd =
     (let records = snapshot_records e (sd_now sd) (sd_engine sd);
          records = (case residency_check sd of
             Some residency \<Rightarrow> filter (\<lambda>rec. is_resident_part residency (part_of_key e (wr_key rec))) records
           | None \<Rightarrow> records)
      in chunk_records_for_snapshot (skip_unframeable records sd))"

section \<open>Housekeeping\<close>

definition shard_gc_tombstones :: "externs \<Rightarrow> bool \<Rightarrow> ('k, 'v) shard \<Rightarrow> u64 option \<times> ('k, 'v) shard" where
  "shard_gc_tombstones e defer_gc sd =
     (case gc_tombstones e defer_gc (sd_now sd) (sd_tombstone_ttl_ms sd) (sd_engine sd) of
        (gap, g) \<Rightarrow> (gap, sd\<lparr>sd_engine := g\<rparr>))"

definition run_pending_tasks :: "externs \<Rightarrow> ('k, 'v) shard \<Rightarrow> ('k, 'v) shard" where
  "run_pending_tasks e sd = sd\<lparr>sd_engine := sweep e (sd_now sd) (expiry_tombstones sd) (sd_engine sd)\<rparr>"

definition entry_count :: "externs \<Rightarrow> ('k, 'v) shard \<Rightarrow> u64 \<times> ('k, 'v) shard" where
  "entry_count e sd = (let sd = run_pending_tasks e sd in (eg_live_count (sd_engine sd), sd))"

definition compact_candidate_apply ::
  "externs \<Rightarrow> ('k, 'v) codec \<Rightarrow> 'k compact_candidate \<Rightarrow> nat \<times> ('k, 'v) shard \<Rightarrow> nat \<times> ('k, 'v) shard" where
  "compact_candidate_apply e cd c st =
     (case st of (compacted, sd) \<Rightarrow>
        if \<not> owns_key e (cc_key_bytes c) sd then (compacted, sd)
        else (case cd_decode_value cd (cc_new_encoded c) of
                None \<Rightarrow> (compacted, sd)
              | Some v \<Rightarrow>
                  let new_ver = compacted_version e (cc_stale_ver c) (cc_new_encoded c);
                      sd = observe_derived new_ver sd
                  in case compact_replace_if_current e
                            \<lparr>cp_key = cc_key c, cp_key_bytes = cc_key_bytes c, cp_hash = hash_key_bytes e (cc_key_bytes c),
                             cp_expected_ver = cc_stale_ver c, cp_new_ver = new_ver, cp_value = v, cp_encoded = cc_new_encoded c\<rparr>
                            (sd_engine sd) of
                       (replaced, g) \<Rightarrow> (if replaced then Suc compacted else compacted, sd\<lparr>sd_engine := g\<rparr>)))"

text \<open>The records compacted and the stripes visited; the writers the resolver asked about are its own to report.\<close>

definition compact_pass ::
  "externs \<Rightarrow> ('k, 'v) codec \<Rightarrow> u64 \<Rightarrow> (writer_id \<Rightarrow> bool) \<Rightarrow> quiescence \<Rightarrow> compaction_bounds \<Rightarrow> nat \<Rightarrow> ('k, 'v) shard
     \<Rightarrow> nat \<times> nat \<times> ('k, 'v) shard" where
  "compact_pass e cd now_ms retire quiet bounds max_entries sd =
     (if \<not> cr_merges (sd_resolver sd) then (0, bucket_count, sd)
      else let quiet = (if folds_retired_writers (sd_mode sd) then quiet else Churning)
           in case compact e (\<lambda>bs. the (cd_decode_key cd bs)) (sd_resolver sd) now_ms retire quiet bounds max_entries (sd_engine sd) of
                (scan, g) \<Rightarrow>
                  (case fold (compact_candidate_apply e cd) (cs_candidates scan) (0, sd\<lparr>sd_engine := g\<rparr>) of
                     (compacted, sd) \<Rightarrow> (compacted, cs_stripes_visited scan, sd)))"

end
