(* ===== verification/Shard_Read.thy ===== *)
theory Shard_Read
  imports Shard_Serve
begin

text \<open>
  The read path of a shard: point reads and the store of a loaded value
  (\<^verbatim>\<open>sundog/src/store/shard_read.rs\<close>, with the deadline of a fill from \<^verbatim>\<open>load.rs\<close>), refresh-ahead
  (\<^verbatim>\<open>refresh.rs\<close>) and the re-arming of a lifetime (\<^verbatim>\<open>shard_rearm.rs\<close>). The hit and miss counters
  and the timing sample are metrics. The queue of refresh requests is a list with the capacity of the
  channel; the loader's answer is an argument.
\<close>

section \<open>Fills\<close>

datatype fill_expiry = Loaded | Copied "u64 option"

record 'v fill =
  fi_value :: 'v
  fi_expiry :: fill_expiry

datatype fill_deadline = Store_Until "u64 option" | Lapsed

definition fill_deadline :: "fill_expiry \<Rightarrow> u64 option \<Rightarrow> u64 \<Rightarrow> fill_deadline" where
  "fill_deadline expiry own now_ms =
     (case expiry of
        Loaded \<Rightarrow> Store_Until own
      | Copied at \<Rightarrow> if is_some_and (\<lambda>t. t \<le> now_ms) at then Lapsed else Store_Until at)"

definition store_loaded ::
  "externs \<Rightarrow> ('k, 'v) codec \<Rightarrow> 'k \<Rightarrow> bytes \<Rightarrow> u64 \<Rightarrow> hlc \<Rightarrow> 'v inflight \<Rightarrow> 'v fill \<Rightarrow> ('k, 'v) shard
     \<Rightarrow> bool \<times> 'v inflight \<times> ('k, 'v) shard" where
  "store_loaded e cd key key_bytes hash ver ifl f sd =
     (case fill_deadline (fi_expiry f) (expiry_for (wall_ms ver) None sd) (sd_now sd) of
        Lapsed \<Rightarrow>
          (case finish_uncached key_bytes hash (fi_value f) ifl (sd_engine sd) of (ifl, g) \<Rightarrow> (False, ifl, sd\<lparr>sd_engine := g\<rparr>))
      | Store_Until expires_at_ms \<Rightarrow>
          (case fill_route (owns_key e key_bytes sd) (at_ceiling sd \<noteq> None) of
             Uncached _ \<Rightarrow>
               (case finish_uncached key_bytes hash (fi_value f) ifl (sd_engine sd) of (ifl, g) \<Rightarrow> (False, ifl, sd\<lparr>sd_engine := g\<rparr>))
           | Install \<Rightarrow>
               (case complete_fresh_load e
                       \<lparr>fl_key = key, fl_key_bytes = key_bytes, fl_hash = hash, fl_ver = ver, fl_value = fi_value f,
                        fl_encoded = the (cd_encode_value cd (fi_value f)), fl_expires = expires_at_ms\<rparr> (sd_now sd) ifl (sd_engine sd) of
                  (out, ifl, g) \<Rightarrow>
                    let sd = sd\<lparr>sd_engine := g\<rparr>
                    in case out of
                         Installed had_live \<Rightarrow>
                           let sd = (if fill_fans_out (sd_mode sd) then snd (push_fan_out (Applied key ver) sd) else sd)
                           in (True, ifl, send_event (if had_live then Updated key (fi_value f) From_Local else Created key (fi_value f) From_Local) sd)
                       | _ \<Rightarrow> (False, ifl, sd))))"

section \<open>Residency of a read\<close>

definition residency_only :: "bool \<Rightarrow> residency" where
  "residency_only owns_part =
     \<lparr>re_owns = owns_part, re_releasing_for = None, re_cold_marked = False, re_unsettled = False, re_unverified = False, re_stale = False\<rparr>"

definition shard_residency_of :: "ownership_view \<Rightarrow> part_id \<Rightarrow> instant \<Rightarrow> ('k, 'v) shard \<Rightarrow> residency" where
  "shard_residency_of view p at sd =
     (case sd_residency sd of None \<Rightarrow> residency_only (owns view p) | Some r \<Rightarrow> residency_of r p (owns view p) at)"

definition current_residency :: "part_id \<Rightarrow> instant \<Rightarrow> ('k, 'v) shard \<Rightarrow> residency" where
  "current_residency p at sd =
     (case sd_ownership sd of None \<Rightarrow> residency_only True | Some view \<Rightarrow> shard_residency_of view p at sd)"

definition shard_local_record :: "externs \<Rightarrow> bytes \<Rightarrow> ('k, 'v) shard \<Rightarrow> u64 \<times> local_record" where
  "shard_local_record e key_bytes sd = (sd_now sd, inspect e key_bytes (sd_now sd) (sd_engine sd))"

definition read_through_route_of :: "externs \<Rightarrow> ('k, 'v) codec \<Rightarrow> 'k \<Rightarrow> ('k, 'v) shard \<Rightarrow> cache_error + read_through_route" where
  "read_through_route_of e cd key sd =
     (if sd_ownership sd = None then Inr (read_through_route (sd_mode sd) True)
      else case cd_encode_key cd key of
             None \<Rightarrow> Inl Err_Codec
           | Some key_bytes \<Rightarrow> Inr (read_through_route (sd_mode sd) (owns_key e key_bytes sd)))"

section \<open>Refresh-ahead\<close>

definition refresh_retry_ms :: u64 where "refresh_retry_ms = 1000"
definition refresh_queue :: nat where "refresh_queue = 4096"
definition seen_stripes :: nat where "seen_stripes = 64"
definition seen_stripe_cap :: nat where "seen_stripe_cap = 4096"

record 'k refresh_request =
  rq_key :: 'k
  rq_key_bytes :: bytes
  rq_ver :: hlc
  rq_hinted :: bool

record 'k refresh =
  rf_permille :: u64
  rf_requests :: "'k refresh_request list option"
  rf_seen :: "nat \<Rightarrow> (bytes \<times> hlc \<times> u64) list"

definition refresh_new :: "u64 \<Rightarrow> 'k refresh" where
  "refresh_new permille = \<lparr>rf_permille = permille, rf_requests = None, rf_seen = (\<lambda>_. [])\<rparr>"

definition seen_stripe :: "u64 \<Rightarrow> nat" where
  "seen_stripe hash = unat hash mod seen_stripes"

definition refresh_claim :: "bytes \<Rightarrow> u64 \<Rightarrow> hlc \<Rightarrow> u64 \<Rightarrow> 'k refresh \<Rightarrow> bool \<times> 'k refresh" where
  "refresh_claim key_bytes hash ver now_ms rf =
     (let seen = rf_seen rf (seen_stripe hash)
      in if is_some_and (\<lambda>(asked, retry_at). asked = ver \<and> now_ms < retry_at) (map_of seen key_bytes) then (False, rf)
         else let seen = (if seen_stripe_cap \<le> length seen then [] else seen)
              in (True, rf\<lparr>rf_seen := (rf_seen rf)(seen_stripe hash := AList.update key_bytes (ver, u64_max) seen)\<rparr>))"

definition refresh_release :: "bytes \<Rightarrow> u64 \<Rightarrow> u64 \<Rightarrow> 'k refresh \<Rightarrow> 'k refresh" where
  "refresh_release key_bytes hash retry_at rf =
     (let seen = rf_seen rf (seen_stripe hash)
      in case map_of seen key_bytes of
           None \<Rightarrow> rf
         | Some (asked, _) \<Rightarrow> rf\<lparr>rf_seen := (rf_seen rf)(seen_stripe hash := AList.update key_bytes (asked, retry_at) seen)\<rparr>)"

text \<open>The products are 128 bits wide in the source, so they never wrap: naturals.\<close>

definition refresh_due :: "u64 \<Rightarrow> u64 \<Rightarrow> u64 option \<Rightarrow> u64 \<Rightarrow> bool" where
  "refresh_due now_ms written_ms expires_at_ms permille =
     (case expires_at_ms of
        None \<Rightarrow> False
      | Some at \<Rightarrow>
          now_ms < at \<and> unat (sat_sub at written_ms) * unat permille \<le> unat (sat_sub now_ms written_ms) * 1000)"

definition send_request :: "bytes \<Rightarrow> u64 \<Rightarrow> 'k refresh_request \<Rightarrow> 'k refresh \<Rightarrow> 'k refresh" where
  "send_request key_bytes hash request rf =
     (case rf_requests rf of
        None \<Rightarrow> rf
      | Some queue \<Rightarrow>
          if length queue < refresh_queue then rf\<lparr>rf_requests := Some (queue @ [request])\<rparr> else refresh_release key_bytes hash 0 rf)"

definition note_read :: "'k \<Rightarrow> bytes \<Rightarrow> u64 \<Rightarrow> hlc \<Rightarrow> u64 option \<Rightarrow> u64 \<Rightarrow> 'k refresh option \<Rightarrow> 'k refresh option" where
  "note_read key key_bytes hash ver expires_at_ms now_ms refresh =
     map_option (\<lambda>rf.
       if \<not> refresh_due now_ms (wall_ms ver) expires_at_ms (rf_permille rf) \<or> rf_requests rf = None then rf
       else case refresh_claim key_bytes hash ver now_ms rf of
              (claimed, rf) \<Rightarrow>
                if \<not> claimed then rf
                else send_request key_bytes hash \<lparr>rq_key = key, rq_key_bytes = key_bytes, rq_ver = ver, rq_hinted = False\<rparr> rf) refresh"

definition read_resident ::
  "externs \<Rightarrow> ('k, 'v) codec \<Rightarrow> 'k \<Rightarrow> bytes \<Rightarrow> u64 \<Rightarrow> 'k refresh option \<times> ('k, 'v) shard \<Rightarrow> 'v option \<times> 'k refresh option \<times> ('k, 'v) shard" where
  "read_resident e cd key key_bytes hash st =
     (case st of (refresh, sd) \<Rightarrow>
        if refresh = None then
          (case get_by_bytes e (\<lambda>bs. the (cd_decode_value cd bs)) key_bytes hash (sd_now sd) (sd_engine sd) of
             (v, g) \<Rightarrow> (v, refresh, sd\<lparr>sd_engine := g\<rparr>))
        else
          (case get_with_lifetime e (\<lambda>bs. the (cd_decode_value cd bs)) key_bytes hash (sd_now sd) (sd_engine sd) of
             (None, g) \<Rightarrow> (None, refresh, sd\<lparr>sd_engine := g\<rparr>)
           | (Some (v, ver, expires_at_ms), g) \<Rightarrow>
               (Some v, note_read key key_bytes hash ver expires_at_ms (sd_now sd) refresh, sd\<lparr>sd_engine := g\<rparr>)))"

definition shard_get ::
  "externs \<Rightarrow> ('k, 'v) codec \<Rightarrow> 'k \<Rightarrow> 'k refresh option \<times> ('k, 'v) shard \<Rightarrow> 'v option \<times> 'k refresh option \<times> ('k, 'v) shard" where
  "shard_get e cd key st =
     (case cd_encode_key cd key of
        None \<Rightarrow> (None, st)
      | Some key_bytes \<Rightarrow> read_resident e cd key key_bytes (hash_key_bytes e key_bytes) st)"

definition take_refresh_hint :: "externs \<Rightarrow> ('k, 'v) codec \<Rightarrow> bytes \<Rightarrow> hlc \<Rightarrow> 'k refresh option \<times> ('k, 'v) shard \<Rightarrow> 'k refresh option" where
  "take_refresh_hint e cd key_bytes ver st =
     (case st of (refresh, sd) \<Rightarrow>
        map_option (\<lambda>rf.
          if rf_requests rf = None then rf
          else case cd_decode_key cd key_bytes of
                 None \<Rightarrow> rf
               | Some key \<Rightarrow>
                   let hash = hash_key_bytes e key_bytes
                   in case lifetime_of e key_bytes hash (sd_now sd) (sd_engine sd) of
                        None \<Rightarrow> rf
                      | Some (stored, _) \<Rightarrow>
                          if ver < stored then rf
                          else case refresh_claim key_bytes hash stored (sd_now sd) rf of
                                 (claimed, rf) \<Rightarrow>
                                   if \<not> claimed then rf
                                   else send_request key_bytes hash \<lparr>rq_key = key, rq_key_bytes = key_bytes, rq_ver = stored, rq_hinted = True\<rparr> rf) refresh)"

section \<open>Re-arming\<close>

datatype lifetime = For duration | Default_Lifetime | Unbounded

datatype local_rearm = Rearmed | Rearm_Absent | NotHeld

definition deadline_for :: "u64 \<Rightarrow> lifetime \<Rightarrow> ('k, 'v) shard \<Rightarrow> u64 option" where
  "deadline_for base_wall_ms lifetime sd =
     (case lifetime of
        For ttl \<Rightarrow> expiry_for base_wall_ms (Some ttl) sd
      | Default_Lifetime \<Rightarrow> expiry_for base_wall_ms None sd
      | Unbounded \<Rightarrow> None)"

definition rearm_local ::
  "externs \<Rightarrow> ('k, 'v) codec \<Rightarrow> 'k \<Rightarrow> lifetime \<Rightarrow> instant \<Rightarrow> ('k, 'v) shard \<Rightarrow> (cache_error + local_rearm) \<times> ('k, 'v) shard" where
  "rearm_local e cd key lifetime at sd =
     (case cd_encode_key cd key of
        None \<Rightarrow> (Inl Err_Codec, sd)
      | Some key_bytes \<Rightarrow>
          let hash = hash_key_bytes e key_bytes; residency = current_residency (part_of_key e key_bytes) at sd
          in if \<not> reads_local residency then (Inr NotHeld, sd)
             else (case record_for e key_bytes (sd_now sd) (sd_engine sd) of
                     Some rec \<Rightarrow>
                       (case wr_value rec of
                          Some encoded \<Rightarrow>
                            (case cd_decode_value cd encoded of
                               None \<Rightarrow> (Inl Err_Codec, sd)
                             | Some v \<Rightarrow>
                                 let base_ver = wr_ver rec;
                                     expires_at_ms = deadline_for (wall_ms base_ver) lifetime sd;
                                     ver = rearmed_version e base_ver expires_at_ms
                                 in case apply_if_current e (cd_decode_value cd)
                                           (\<lparr>ek_hash = hash, ek_key = key, ek_bytes = key_bytes\<rparr>, ver, Put v expires_at_ms encoded)
                                           base_ver (sd_resolver sd) (sd_tombstone_ttl_ms sd) (sd_tombstone_max_ttl_ms sd) (sd_now sd) (sd_engine sd) of
                                      (applied, g) \<Rightarrow>
                                        let sd = sd\<lparr>sd_engine := g\<rparr>
                                        in (Inr Rearmed,
                                            case applied of
                                              None \<Rightarrow> sd
                                            | Some outcome \<Rightarrow> handle_apply_outcome e cd outcome From_Local True (observe_derived ver sd)))
                        | None \<Rightarrow> (Inr (if local_verdict residency False = Read_Miss then Rearm_Absent else NotHeld), sd))
                   | None \<Rightarrow> (Inr (if local_verdict residency False = Read_Miss then Rearm_Absent else NotHeld), sd)))"

definition forward_rearm ::
  "externs \<Rightarrow> ('k, 'v) codec \<Rightarrow> 'k \<Rightarrow> wire_record \<Rightarrow> lifetime \<Rightarrow> ('k, 'v) shard \<Rightarrow> (cache_error + bool) \<times> ('k, 'v) shard" where
  "forward_rearm e cd key base lifetime sd =
     (case wr_value base of
        None \<Rightarrow> (Inr False, sd)
      | Some encoded \<Rightarrow>
          if is_some_and (\<lambda>deadline. deadline \<le> sd_now sd) (wr_expires base) then (Inr False, sd)
          else (case (cd_encode_key cd key, cd_decode_value cd encoded) of
                  (Some key_bytes, Some v) \<Rightarrow>
                    let expires_at_ms = deadline_for (wall_ms (wr_ver base)) lifetime sd;
                        ver = rearmed_version e (wr_ver base) expires_at_ms
                    in (case apply_or_forward e cd key key_bytes ver (Put v expires_at_ms encoded) sd of
                          (Inl err, sd) \<Rightarrow> (Inl err, sd)
                        | (Inr _, sd) \<Rightarrow> (Inr True, sd))
                | _ \<Rightarrow> (Inl Err_Codec, sd)))"

end
