(* ===== verification/Shard_Contract.thy ===== *)
theory Shard_Contract
  imports Shard_Read
begin

text \<open>
  What the shard layer promises.
\<close>

section \<open>One write under last-writer-wins\<close>

definition landed :: "'k entry_key \<Rightarrow> hlc \<Rightarrow> 'v incoming \<Rightarrow> bool \<Rightarrow> ('k, 'v) apply_outcome" where
  "landed entry ver incoming created =
     (case incoming of Put v _ _ \<Rightarrow> Out_Put (ek_key entry) v created ver | Tombstone _ \<Rightarrow> Out_Tombstoned (ek_key entry) ver)"

lemma apply_winner_outcome:
  assumes "apply_winner e ctx entry dl prior st sv ver incoming (s, c) = (out, s', c')"
  shows "\<exists>created. out = landed entry ver incoming created"
  using assms by (auto simp: apply_winner_def apply_put_def apply_tombstone_def landed_def Let_def
      split: incoming.splits option.splits prod.splits if_splits)

lemma apply_locked_lww_outcome:
  assumes ctx: "ac_resolver ctx = lww_resolver" "\<not> ac_held_only ctx" and time: "\<not> lapsed_on_arrival ctx incoming ver"
    and ap: "apply_locked e dec ctx entry ver incoming (s, c) = (out, s', c')"
  shows "if is_none_or (\<lambda>v. v < ver) (stored_version e s (ek_bytes entry)) then \<exists>created. out = landed entry ver incoming created
    else out = Rejected"
  using ap
proof (cases rule: apply_locked_cases)
  case (stored prior st new_ver new_incoming)
  have "new_ver = ver \<and> new_incoming = incoming \<and> is_none_or (\<lambda>v. v < ver) (stored_version e s (ek_bytes entry))"
    using stored(5) by (cases "stored_version e s (ek_bytes entry)") (auto simp: lww_collision[OF ctx(1)] split: if_splits)
  then show ?thesis using apply_winner_outcome[OF stored(4)] by simp
qed (use ctx time in \<open>auto simp: lww_collision split: if_splits\<close>)

lemma run_apply_lww_outcome:
  assumes en: "entry_ok e b (fst en)" and ctx: "ac_resolver ctx = lww_resolver" "\<not> ac_held_only ctx"
    and time: "\<not> lapsed_on_arrival ctx (snd (snd en)) (fst (snd en))"
    and run: "run_apply e dec ctx b en (g, ign) = (out, g', ign')"
  shows "if is_none_or (\<lambda>old. fst old < fst (snd en)) (registers_of e g (ek_bytes (fst en)))
    then \<exists>created. out = landed (fst en) (fst (snd en)) (snd (snd en)) created else out = Rejected"
proof -
  obtain entry ver incoming where en': "en = (entry, ver, incoming)" by (cases en)
  have kb: "key_bucket e (ek_bytes entry) = b" using en by (simp add: en' entry_ok_def)
  obtain c s' c' where ap: "apply_locked e dec ctx entry ver incoming (eg_stripes g b, c) = (out, s', c')"
    using run by (auto simp: run_apply_def en' Let_def split: prod.splits)
  have old: "stored_version e (eg_stripes g b) (ek_bytes entry) = map_option fst (registers_of e g (ek_bytes entry))"
    by (simp add: stored_version_def registers_of_def engine_cell_def kb option.map_comp comp_def fst_cell_core)
  have "is_none_or (\<lambda>v. v < ver) (stored_version e (eg_stripes g b) (ek_bytes entry)) \<longleftrightarrow>
      is_none_or (\<lambda>x. fst x < ver) (registers_of e g (ek_bytes entry))"
    unfolding old by (cases "registers_of e g (ek_bytes entry)") simp_all
  then show ?thesis using apply_locked_lww_outcome[OF ctx time[unfolded en' snd_conv fst_conv] ap] by (simp add: en')
qed

section \<open>What the bookkeeping leaves alone\<close>

text \<open>A shard without its events, its queue and its pending folds.\<close>

definition core :: "('k, 'v) shard \<Rightarrow> ('k, 'v) shard" where
  "core sd = sd\<lparr>sd_events := [], sd_fan_out := fan_out_queue_new True, sd_pending_merges := (\<lambda>_. pending_stripe_new),
     sd_pending_merge_count := 0\<rparr>"

lemma core_eq: "core a = core b \<Longrightarrow>
  sd_engine a = sd_engine b \<and> sd_clock a = sd_clock b \<and> sd_now a = sd_now b \<and> sd_raw_resolver a = sd_raw_resolver b \<and>
  sd_crdt_bounds a = sd_crdt_bounds b \<and> sd_ownership a = sd_ownership b \<and> sd_residency a = sd_residency b \<and>
  sd_tombstone_ttl_ms a = sd_tombstone_ttl_ms b \<and> sd_tombstone_max_ttl_ms a = sd_tombstone_max_ttl_ms b \<and>
  sd_max_clock_skew_ms a = sd_max_clock_skew_ms b \<and> sd_skew_hold a = sd_skew_hold b \<and> sd_mode a = sd_mode b \<and>
  sd_name a = sd_name b \<and> sd_max_frame a = sd_max_frame b \<and> sd_ttl a = sd_ttl b \<and> sd_merge_window a = sd_merge_window b \<and>
  sd_resident_bytes a = sd_resident_bytes b \<and> sd_max_resident_bytes a = sd_max_resident_bytes b \<and> sd_receivers a = sd_receivers b"
  by (cases a; cases b) (simp add: core_def)

lemma core_bookkeeping [simp]:
  "core (send_event ev sd) = core sd" "core (snd (push_fan_out item sd)) = core sd" "core (snd (extend_fan_out items sd)) = core sd"
  "core (snd (take_pending_merge_if key hash P sd)) = core sd"
  by (simp_all add: core_def send_event_def push_fan_out_def extend_fan_out_def take_pending_merge_if_def Let_def
      split: option.split prod.split)

lemma core_discards [simp]:
  "core (discard_pending_merge e key kb sd) = core sd" "core (discard_pending_merge_before e cd key ver sd) = core sd"
  "core (redirect_to_owners recs sd) = core sd"
  by (simp_all add: discard_pending_merge_def discard_pending_merge_before_def redirect_to_owners_def split: option.split)

lemma core_outcome [simp]: "core (handle_apply_outcome e cd out orig notify sd) = core sd"
  by (auto simp: handle_apply_outcome_def Let_def split: apply_outcome.split)

lemma core_engine: "core a = core b \<Longrightarrow> core (a\<lparr>sd_engine := g\<rparr>) = core (b\<lparr>sd_engine := g\<rparr>)"
  by (cases a; cases b) (simp add: core_def)

lemma core_update: "core a = core b \<Longrightarrow> core (a\<lparr>sd_clock := c, sd_engine := g\<rparr>) = core (b\<lparr>sd_clock := c, sd_engine := g\<rparr>)"
  by (cases a; cases b) (simp add: core_def)

lemma core_resolver: "core a = core b \<Longrightarrow> sd_resolver a = sd_resolver b"
  using core_eq[of a b] by (simp add: sd_resolver_def)

lemma sd_resolver_lww: "sd_raw_resolver sd = lww_resolver \<Longrightarrow> sd_resolver sd = lww_resolver"
  by (simp add: sd_resolver_def lww_resolver_def default_methods_def)

section \<open>A local write lands\<close>

text \<open>
  A last-writer-wins shard of unbounded capacity whose clock has seen every version it stores.
\<close>

definition lww_shard :: "externs \<Rightarrow> ('k, 'v) shard \<Rightarrow> bool" where
  "lww_shard e sd \<longleftrightarrow>
     engine_inv e (sd_engine sd) \<and> eg_max_capacity (sd_engine sd) = u64_max \<and> sd_raw_resolver sd = lww_resolver \<and>
     (\<forall>k x. registers_of e (sd_engine sd) k = Some x \<longrightarrow> fst x \<le> clock_last (sd_clock sd))"

lemma lww_shard_core: "core a = core b \<Longrightarrow> lww_shard e a = lww_shard e b"
  using core_eq[of a b] by (simp add: lww_shard_def)

text \<open>What the engine is to a reader: a map from keys to encoded values.\<close>

definition contents :: "externs \<Rightarrow> ('k, 'v) shard \<Rightarrow> bytes \<Rightarrow> (bytes \<times> u64 option) option" where
  "contents e sd k = (case registers_of e (sd_engine sd) k of Some (_, Inl x) \<Rightarrow> Some x | _ \<Rightarrow> None)"

lemma shard_apply_lww:
  assumes inv: "engine_inv e (sd_engine sd)" and cap: "eg_max_capacity (sd_engine sd) = u64_max" and res: "sd_raw_resolver sd = lww_resolver"
    and key: "externs_ok e" "length kb < 2 ^ 32" and newer: "is_none_or (\<lambda>old. fst old < ver) (registers_of e (sd_engine sd) kb)"
    and ap: "shard_apply e cd key kb ver incoming From_Local sd = (r, sd')"
  obtains g where "r = Inr ()" "engine_inv e g" "settings g = settings (sd_engine sd)"
    "registers_of e g = (registers_of e (sd_engine sd))(kb \<mapsto> (ver, incoming_core incoming))"
    "core sd' = core (sd\<lparr>sd_engine := g\<rparr>)" "sd_fan_out sd' = snd (queue_push (Applied key ver) (sd_fan_out sd))"
proof -
  let ?en = "(entry_of e kb key, ver, incoming)" and ?b = "stripe_index_from_hash (hash_key_bytes e kb)" and ?g = "sd_engine sd"
  obtain outs deficit w g where run: "apply_many_in e (cd_decode_value cd) Any arrival.Local ?b [?en] lww_resolver
      (sd_tombstone_ttl_ms sd) (sd_tombstone_max_ttl_ms sd) (sd_now sd) written_default ?g = (outs, deficit, w, g)" by (metis prod_cases4)
  have b: "?b < bucket_count" by simp
  have en: "\<forall>en \<in> set [?en]. entry_ok e ?b (fst en)" using key by (simp add: entry_of_def entry_ok_def key_bucket_def)
  have time: "\<not> lapsed_on_arrival (batch_ctx ?g r cap ttl max_ttl now (is_peer arrival.Local) ho) (snd (snd en)) (fst (snd en))"
    for r cap ttl max_ttl now ho and en :: "('a, 'b) batch_entry"
    by (auto simp: lapsed_on_arrival_def ctx_rule_def batch_ctx_def rule_ignores_def drops_lapsed_tombstone_def is_some_and_iff is_peer_def)
  note batch = lww_batch[OF inv b cap en time run]
  have out: "\<exists>created. outs = [landed (entry_of e kb key) ver incoming created]"
  proof -
    define ctx where "ctx = batch_ctx ?g lww_resolver None (sd_tombstone_ttl_ms sd) (sd_tombstone_max_ttl_ms sd) (sd_now sd) (is_peer arrival.Local) False"
    obtain o1 g1 i1 where ra: "run_apply e (cd_decode_value cd) ctx ?b ?en (?g, 0) = (o1, g1, i1)" by (metis prod_cases3)
    have "outs = [o1]" using run ra
      by (auto simp: apply_many_in_def lww_resolver_def default_methods_def Let_def ctx_def split: if_splits prod.splits)
    moreover have "\<exists>created. o1 = landed (entry_of e kb key) ver incoming created"
    proof -
      have c: "ac_resolver ctx = lww_resolver" "\<not> ac_held_only ctx" by (simp_all add: ctx_def batch_ctx_def)
      have t: "\<not> lapsed_on_arrival ctx (snd (snd ?en)) (fst (snd ?en))" unfolding ctx_def by (rule time)
      have e: "entry_ok e ?b (fst ?en)" using en by simp
      show ?thesis using run_apply_lww_outcome[OF e c t ra] newer by (simp add: entry_of_def)
    qed
    ultimately show ?thesis by blast
  qed
  then obtain created where outs: "outs = [landed (entry_of e kb key) ver incoming created]" by blast
  have sd': "sd' = handle_apply_outcome e cd (landed (entry_of e kb key) ver incoming created) From_Local True (sd\<lparr>sd_engine := g\<rparr>)"
    and r: "r = Inr ()"
    using ap run outs by (auto simp: shard_apply_def Let_def apply_many_def sd_resolver_lww[OF res] entry_of_def landed_def split: incoming.splits)
  have newer': "lww_put (write_of ?en) (registers_of e ?g) = (registers_of e ?g)(kb \<mapsto> (ver, incoming_core incoming))"
    using newer by (simp add: lww_put_def write_of_def entry_of_def)
  show thesis
  proof (rule that[OF r batch(1,2)])
    show "registers_of e g = (registers_of e ?g)(kb \<mapsto> (ver, incoming_core incoming))" using batch(3) newer' by simp
    show "core sd' = core (sd\<lparr>sd_engine := g\<rparr>)" by (simp add: sd')
    show "sd_fan_out sd' = snd (queue_push (Applied key ver) (sd_fan_out sd))"
      by (auto simp: sd' handle_apply_outcome_def landed_def entry_of_def send_event_def push_fan_out_def Let_def split: incoming.splits prod.splits)
  qed
qed

lemma stamp_local_facts:
  assumes "stamp_local sd = (ver, sd1)" and "now_room (sd_clock sd)"
  obtains c where "sd1 = sd\<lparr>sd_clock := c\<rparr>" "clock_last c = ver" "clock_last (sd_clock sd) < ver"
    "unat (logical ver) \<le> Suc (unat (logical (clock_last (sd_clock sd))))"
proof -
  note now = hlc_now_gt_last[OF assms(2), of "sd_now sd"] now_logical_bound[OF assms(2), of "sd_now sd"] hlc_now_last[of "sd_clock sd" "sd_now sd"]
  show thesis using assms(1) now by (intro that[of "fst (hlc_now (sd_clock sd) (sd_now sd))"]) (auto simp: stamp_local_def split: prod.splits)
qed

text \<open>A write at a stamp the clock just drew, of a key this node owns.\<close>

lemma fresh_write_lands:
  assumes sd: "lww_shard e sd" and key: "externs_ok e" "length kb < 2 ^ 32" and room: "now_room (sd_clock sd)"
    and stamp: "stamp_local sd = (ver, sd1)" and own: "owns_key e kb sd"
    and ap: "apply_or_forward e cd key kb ver incoming sd1 = (r, sd')"
  shows "r = Inr () \<and> lww_shard e sd' \<and> clock_last (sd_clock sd') = ver \<and> clock_last (sd_clock sd) < ver \<and>
    unat (logical ver) \<le> Suc (unat (logical (clock_last (sd_clock sd)))) \<and>
    settings (sd_engine sd') = settings (sd_engine sd) \<and>
    registers_of e (sd_engine sd') = (registers_of e (sd_engine sd))(kb \<mapsto> (ver, incoming_core incoming)) \<and>
    core sd' = core (sd\<lparr>sd_clock := sd_clock sd', sd_engine := sd_engine sd'\<rparr>) \<and>
    sd_fan_out sd' = snd (queue_push (Applied key ver) (sd_fan_out sd))"
proof -
  obtain c where c: "sd1 = sd\<lparr>sd_clock := c\<rparr>" "clock_last c = ver" "clock_last (sd_clock sd) < ver"
    "unat (logical ver) \<le> Suc (unat (logical (clock_last (sd_clock sd))))"
    using stamp_local_facts[OF stamp room] by blast
  have sh: "engine_inv e (sd_engine sd)" "eg_max_capacity (sd_engine sd) = u64_max" "sd_raw_resolver sd = lww_resolver"
    "\<And>k x. registers_of e (sd_engine sd) k = Some x \<Longrightarrow> fst x \<le> clock_last (sd_clock sd)"
    using sd unfolding lww_shard_def by blast+
  have newer: "is_none_or (\<lambda>old. fst old < ver) (registers_of e (sd_engine sd) kb)"
    using sh(4)[of kb] c(3) by (cases "registers_of e (sd_engine sd) kb") (auto intro: le_less_trans)
  have ap1: "shard_apply e cd key kb ver incoming From_Local sd1 = (r, sd')"
    using ap own by (simp add: apply_or_forward_def owns_key_def c(1))
  obtain g where g: "r = Inr ()" "engine_inv e g" "settings g = settings (sd_engine sd)"
    "registers_of e g = (registers_of e (sd_engine sd))(kb \<mapsto> (ver, incoming_core incoming))"
    "core sd' = core (sd1\<lparr>sd_engine := g\<rparr>)" "sd_fan_out sd' = snd (queue_push (Applied key ver) (sd_fan_out sd))"
    by (rule shard_apply_lww[OF _ _ _ key _ ap1]) (use sh newer in \<open>auto simp: c(1)\<close>)
  note same = core_eq[OF g(5)]
  have eng: "sd_engine sd' = g" and clk: "sd_clock sd' = c" and raw: "sd_raw_resolver sd' = lww_resolver"
    using same sh(3) by (simp_all add: c(1))
  have cov: "fst x \<le> ver" if "registers_of e g k = Some x" for k x
    using that sh(4)[of k x] c(3) by (auto simp: g(4) split: if_splits)
  have "lww_shard e sd'" using g(2) settings_eq[OF g(3)] sh(2) raw cov by (simp add: lww_shard_def eng clk c(2))
  moreover have "core sd' = core (sd\<lparr>sd_clock := sd_clock sd', sd_engine := sd_engine sd'\<rparr>)" unfolding g(5) eng clk c(1) by simp
  ultimately show ?thesis using g c by (simp add: eng clk)
qed

section \<open>A shard's local calls implement a map\<close>

datatype ('k, 'v) local_op = L_Insert 'k 'v "duration option" | L_Remove 'k

fun local_call :: "externs \<Rightarrow> ('k, 'v) codec \<Rightarrow> ('k, 'v) local_op \<Rightarrow> ('k, 'v) shard \<Rightarrow> (cache_error + unit) \<times> ('k, 'v) shard" where
  "local_call e cd (L_Insert key v ttl) sd = insert_expiring e cd key v ttl sd"
| "local_call e cd (L_Remove key) sd = remove_sync e cd key sd"

fun local_key :: "('k, 'v) local_op \<Rightarrow> 'k" where
  "local_key (L_Insert key _ _) = key"
| "local_key (L_Remove key) = key"

text \<open>The calls of a history, each at the time it is made, with what they return.\<close>

fun local_run ::
  "externs \<Rightarrow> ('k, 'v) codec \<Rightarrow> (u64 \<times> ('k, 'v) local_op) list \<Rightarrow> ('k, 'v) shard \<Rightarrow> (cache_error + unit) list \<times> ('k, 'v) shard" where
  "local_run e cd [] sd = ([], sd)"
| "local_run e cd ((now, op) # h) sd =
     (case local_call e cd op (sd\<lparr>sd_now := now\<rparr>) of
        (r, sd) \<Rightarrow> (case local_run e cd h sd of (rs, sd) \<Rightarrow> (r # rs, sd)))"

text \<open>The specification: a map from key bytes to the encoded value and its deadline.\<close>

fun spec_op ::
  "('k, 'v) codec \<Rightarrow> duration option \<Rightarrow> u64 \<times> ('k, 'v) local_op \<Rightarrow> (bytes \<Rightarrow> (bytes \<times> u64 option) option)
     \<Rightarrow> bytes \<Rightarrow> (bytes \<times> u64 option) option" where
  "spec_op cd dflt (now, L_Insert key v ttl) m =
     m(the (cd_encode_key cd key) \<mapsto>
         (the (cd_encode_value cd v), map_option (\<lambda>d. sat_add now (duration_ms d)) (case ttl of Some d \<Rightarrow> Some d | None \<Rightarrow> dflt)))"
| "spec_op cd dflt (now, L_Remove key) m = m(the (cd_encode_key cd key) := None)"

text \<open>A call that can succeed here: its key and value encode, the frame fits, and this node owns the key.\<close>

fun value_fits :: "('k, 'v) codec \<Rightarrow> bytes \<Rightarrow> ('k, 'v) local_op \<Rightarrow> ('k, 'v) shard \<Rightarrow> bool" where
  "value_fits cd kb (L_Insert key v ttl) sd \<longleftrightarrow>
     (\<exists>enc. cd_encode_value cd v = Some enc \<and> replicate_frame_len (length (sd_name sd)) (length kb) (length enc) \<le> sd_max_frame sd)"
| "value_fits cd kb (L_Remove key) sd \<longleftrightarrow> True"

definition op_ok :: "externs \<Rightarrow> ('k, 'v) codec \<Rightarrow> ('k, 'v) shard \<Rightarrow> ('k, 'v) local_op \<Rightarrow> bool" where
  "op_ok e cd sd op \<longleftrightarrow>
     (\<exists>kb. cd_encode_key cd (local_key op) = Some kb \<and> length kb < 2 ^ 32 \<and> owns_key e kb sd \<and> value_fits cd kb op sd)"

lemma fan_out_discard [simp]: "sd_fan_out (discard_pending_merge e key kb sd) = sd_fan_out sd"
  by (simp add: discard_pending_merge_def take_pending_merge_if_def Let_def split: option.split prod.split)

text \<open>How one call that can succeed moves the shard: the new version, the map and the queue.\<close>

definition moved :: "externs \<Rightarrow> ('k, 'v) codec \<Rightarrow> u64 \<times> ('k, 'v) local_op \<Rightarrow> ('k, 'v) shard \<Rightarrow> ('k, 'v) shard \<Rightarrow> bool" where
  "moved e cd call sd sd' \<longleftrightarrow>
     lww_shard e sd' \<and> clock_last (sd_clock sd) < clock_last (sd_clock sd') \<and>
     unat (logical (clock_last (sd_clock sd'))) \<le> Suc (unat (logical (clock_last (sd_clock sd)))) \<and>
     eg_tti_ms (sd_engine sd') = eg_tti_ms (sd_engine sd) \<and>
     contents e sd' = spec_op cd (sd_ttl sd) call (contents e sd) \<and>
     (\<exists>kb c. cd_encode_key cd (local_key (snd call)) = Some kb \<and>
        registers_of e (sd_engine sd') = (registers_of e (sd_engine sd))(kb \<mapsto> (clock_last (sd_clock sd'), c))) \<and>
     (\<exists>c g n. core sd' = core (sd\<lparr>sd_now := n, sd_clock := c, sd_engine := g\<rparr>)) \<and>
     sd_fan_out sd' = snd (queue_push (Applied (local_key (snd call)) (clock_last (sd_clock sd'))) (sd_fan_out sd))"

lemma core_reads:
  assumes "core a = core (b\<lparr>sd_now := n, sd_clock := c, sd_engine := g\<rparr>)"
  shows "op_ok e cd a op = op_ok e cd b op" and "at_ceiling a = at_ceiling b" and "sd_ttl a = sd_ttl b"
proof -
  note same = core_eq[OF assms]
  show "at_ceiling a = at_ceiling b" "sd_ttl a = sd_ttl b" using same by (simp_all add: at_ceiling_def cong: option.case_cong)
  have "owns_key e kb a = owns_key e kb b" "value_fits cd kb op a = value_fits cd kb op b" for kb
    using same by (simp add: owns_key_def) (cases op, use same in simp_all)
  then show "op_ok e cd a op = op_ok e cd b op" by (simp add: op_ok_def)
qed

lemma at_ceiling_now [simp]: "at_ceiling (sd\<lparr>sd_now := now\<rparr>) = at_ceiling sd"
  by (simp add: at_ceiling_def cong: option.case_cong)

lemma local_call_moves:
  assumes sd: "lww_shard e sd" "externs_ok e" "at_ceiling sd = None" "op_ok e cd sd op" and room: "now_room (sd_clock sd)"
  shows "fst (local_call e cd op (sd\<lparr>sd_now := now\<rparr>)) = Inr () \<and> moved e cd (now, op) sd (snd (local_call e cd op (sd\<lparr>sd_now := now\<rparr>)))"
proof -
  obtain kb where kb: "cd_encode_key cd (local_key op) = Some kb" "length kb < 2 ^ 32" "owns_key e kb sd" "value_fits cd kb op sd"
    using sd(4) by (auto simp: op_ok_def)
  define sd0 where "sd0 = (case op of L_Insert _ _ _ \<Rightarrow> sd\<lparr>sd_now := now\<rparr> | L_Remove key \<Rightarrow> discard_pending_merge e key kb (sd\<lparr>sd_now := now\<rparr>))"
  have c0: "core sd0 = core (sd\<lparr>sd_now := now\<rparr>)" by (simp add: sd0_def split: local_op.split)
  note same = core_eq[OF c0]
  have q0: "sd_fan_out sd0 = sd_fan_out sd" by (simp add: sd0_def split: local_op.split)
  have ok0: "lww_shard e sd0" "now_room (sd_clock sd0)" "owns_key e kb sd0"
    using sd(1) room kb(3) same by (simp_all add: lww_shard_def owns_key_def)
  obtain ver sd1 where st: "stamp_local sd0 = (ver, sd1)" by fastforce
  define inc where "inc = (case op of
      L_Insert _ v ttl \<Rightarrow> Put v (expiry_for (wall_ms ver) ttl sd1) (the (cd_encode_value cd v)) | L_Remove _ \<Rightarrow> incoming_delete)"
  obtain r sd' where ap: "apply_or_forward e cd (local_key op) kb ver inc sd1 = (r, sd')" by fastforce
  note lands = fresh_write_lands[OF ok0(1) sd(2) kb(2) ok0(2) st ok0(3) ap]
  have sd1: "sd_name sd1 = sd_name sd" "sd_max_frame sd1 = sd_max_frame sd" "sd_raw_resolver sd1 = sd_raw_resolver sd"
    "sd_now sd1 = now" "sd_ttl sd1 = sd_ttl sd"
    using st same by (auto simp: stamp_local_def split: prod.splits)
  have lww: "sd_raw_resolver sd = lww_resolver" using sd(1) by (simp add: lww_shard_def)
  have call: "local_call e cd op (sd\<lparr>sd_now := now\<rparr>) = (r, sd')"
  proof (cases op)
    case (L_Insert key v ttl)
    then show ?thesis using kb sd(3) st ap
      by (auto simp: insert_expiring_def check_ceiling_def inc_def sd0_def sd1 Let_def)
  next
    case (L_Remove key)
    then show ?thesis using kb(1) st ap by (simp add: remove_sync_def inc_def sd0_def)
  qed
  have regs: "registers_of e (sd_engine sd') = (registers_of e (sd_engine sd))(kb \<mapsto> (ver, incoming_core inc))" using lands same by simp
  have "contents e sd' = spec_op cd (sd_ttl sd) (now, op) (contents e sd)"
  proof -
    have "cr_merges (sd_resolver sd1) = False" using sd_resolver_lww[of sd1] sd1(3) lww by (simp add: lww_resolver_def default_methods_def)
    then have exp: "expiry_for w ttl sd1 = map_option (\<lambda>d. sat_add now (duration_ms d)) (case ttl of Some d \<Rightarrow> Some d | None \<Rightarrow> sd_ttl sd)" for w ttl
      by (simp add: expiry_for_def sd1(4,5) cong: option.case_cong)
    then show ?thesis using kb(1) regs by (cases op) (auto simp: fun_eq_iff contents_def inc_def exp incoming_delete_def)
  qed
  moreover have "core sd' = core (sd\<lparr>sd_now := now, sd_clock := sd_clock sd', sd_engine := sd_engine sd'\<rparr>)"
    using lands core_update[OF c0] by simp
  ultimately show ?thesis
    using lands same q0 settings_eq[of "sd_engine sd'" "sd_engine sd"] kb(1) regs unfolding call fst_conv snd_conv moved_def by auto
qed

lemma local_run_refines:
  assumes "lww_shard e sd" "externs_ok e" "at_ceiling sd = None" "\<forall>(now, op) \<in> set h. op_ok e cd sd op"
    and "unat (logical (clock_last (sd_clock sd))) + length h < 2 ^ 32"
    and "local_run e cd h sd = (rs, sd')"
  shows "(\<forall>r \<in> set rs. r = Inr ()) \<and> lww_shard e sd' \<and> eg_tti_ms (sd_engine sd') = eg_tti_ms (sd_engine sd) \<and>
    contents e sd' = fold (spec_op cd (sd_ttl sd)) h (contents e sd) \<and>
    (\<exists>vers. length vers = length h \<and> sorted_wrt (<) (clock_last (sd_clock sd) # vers) \<and>
       sd_fan_out sd' = fold (\<lambda>item q. snd (queue_push item q)) (map2 (\<lambda>(_, op) v. Applied (local_key op) v) h vers) (sd_fan_out sd))"
  using assms
proof (induction h arbitrary: sd rs)
  case (Cons call h)
  obtain now op where call: "call = (now, op)" by fastforce
  obtain r sd1 where c: "local_call e cd op (sd\<lparr>sd_now := now\<rparr>) = (r, sd1)" by fastforce
  obtain rs1 where run: "local_run e cd h sd1 = (rs1, sd')" and rs: "rs = r # rs1"
    using Cons.prems(6) by (auto simp: call c split: prod.splits)
  have room: "now_room (sd_clock sd)" using Cons.prems(5) u32_max_unat by (simp add: now_room_def)
  have "op_ok e cd sd op" using Cons.prems(4) by (simp add: call)
  note step = local_call_moves[OF Cons.prems(1-3) this room, of now, unfolded c fst_conv snd_conv moved_def]
  obtain cl g n where core: "core sd1 = core (sd\<lparr>sd_now := n, sd_clock := cl, sd_engine := g\<rparr>)" using step by blast
  note same = core_reads[OF core]
  have "\<forall>(now, op) \<in> set h. op_ok e cd sd1 op" using Cons.prems(4) by (auto simp: same(1))
  moreover have "unat (logical (clock_last (sd_clock sd1))) + length h < 2 ^ 32" using step Cons.prems(5) by simp
  ultimately have IH: "(\<forall>r \<in> set rs1. r = Inr ()) \<and> lww_shard e sd' \<and> eg_tti_ms (sd_engine sd') = eg_tti_ms (sd_engine sd1) \<and>
    contents e sd' = fold (spec_op cd (sd_ttl sd1)) h (contents e sd1) \<and>
    (\<exists>vers. length vers = length h \<and> sorted_wrt (<) (clock_last (sd_clock sd1) # vers) \<and>
       sd_fan_out sd' = fold (\<lambda>item q. snd (queue_push item q)) (map2 (\<lambda>(_, op) v. Applied (local_key op) v) h vers) (sd_fan_out sd1))"
    using Cons.IH[OF _ Cons.prems(2) _ _ _ run] step same(2) Cons.prems(3) by simp
  then obtain vers where vers: "length vers = length h" "sorted_wrt (<) (clock_last (sd_clock sd1) # vers)"
    "sd_fan_out sd' = fold (\<lambda>item q. snd (queue_push item q)) (map2 (\<lambda>(_, op) v. Applied (local_key op) v) h vers) (sd_fan_out sd1)"
    by blast
  show ?case
  proof (intro conjI exI[of _ "clock_last (sd_clock sd1) # vers"])
    show "sorted_wrt (<) (clock_last (sd_clock sd) # clock_last (sd_clock sd1) # vers)"
      using vers(2) step by (auto intro: less_trans)
  qed (use IH step vers same(3) in \<open>auto simp: rs call\<close>)
qed simp

lemma contents_cell:
  "contents e sd k = (case engine_cell e (sd_engine sd) k of Some (Cell_Live _ enc exp) \<Rightarrow> Some (enc, exp) | _ \<Rightarrow> None)"
  by (auto simp: contents_def registers_of_def split: option.split cell.split)

lemma shard_get_contents:
  assumes inv: "engine_inv e (sd_engine sd)" and tti: "eg_tti_ms (sd_engine sd) = None" and kb: "cd_encode_key cd key = Some kb"
  shows "fst (shard_get e cd key (None, sd)) =
    (case contents e sd kb of Some (enc, exp) \<Rightarrow> if is_some_and (\<lambda>t. t \<le> sd_now sd) exp then None else Some (the (cd_decode_value cd enc)) | None \<Rightarrow> None)"
proof -
  have ok: "engine_ok e (sd_engine sd)" using inv by (simp add: engine_inv_def)
  note cell = get_cell[OF ok refl]
  have "fst (shard_get e cd key (None, sd)) = fst (get_by_bytes e (\<lambda>bs. the (cd_decode_value cd bs)) kb (hash_key_bytes e kb) (sd_now sd) (sd_engine sd))"
    by (simp add: shard_get_def kb read_resident_def split: prod.split)
  then show ?thesis
    using cell(1)[where dec = "\<lambda>bs. the (cd_decode_value cd bs)" and k = kb and now = "sd_now sd"]
      cell(3)[where k = kb and now = "sd_now sd", OF _ tti]
    by (auto simp: contents_cell split: option.split cell.split)
qed

lemma shard_new_lww: "lww_shard e (shard_new name m node u64_max tti weigher lww_resolver cfg now)"
proof -
  have "registers_of e (sd_engine (shard_new name m node u64_max tti weigher lww_resolver cfg now)) = Map.empty"
    using registers_new[of e u64_max tti weigher]
    by (simp add: shard_new_def set_merge_cap_def guarding_pauses_def starting_gc_deferred_def fun_eq_iff registers_of_def engine_cell_def)
  moreover have "engine_inv e (sd_engine (shard_new name m node u64_max tti weigher lww_resolver cfg now))"
    by (simp add: shard_new_def engine_new_inv)
  ultimately show ?thesis
    by (simp add: lww_shard_def) (simp add: shard_new_def set_merge_cap_def guarding_pauses_def starting_gc_deferred_def engine_new_def)
qed

text \<open>
  C4: the local calls of a last-writer-wins shard implement a map. From any shard whose clock covers
  what it stores, and for any calls that fit a frame, on owned keys, at any times and while the
  clock's counter has room, every insert and remove is accepted, the map of keys to values is the one
  the same calls give a plain map, every read of it afterwards returns the last value written unless
  that was removed or has expired, and every write is queued for the peers, in order and at strictly
  increasing versions.
\<close>

theorem shard_refines_map:
  assumes "lww_shard e sd" "externs_ok e" "at_ceiling sd = None" "eg_tti_ms (sd_engine sd) = None"
    and "\<forall>(now, op) \<in> set h. op_ok e cd sd op" and "unat (logical (clock_last (sd_clock sd))) + length h < 2 ^ 32"
    and "local_run e cd h sd = (rs, sd')" and "cd_encode_key cd key = Some kb"
  shows "(\<forall>r \<in> set rs. r = Inr ()) \<and> lww_shard e sd' \<and>
    contents e sd' = fold (spec_op cd (sd_ttl sd)) h (contents e sd) \<and>
    fst (shard_get e cd key (None, sd'\<lparr>sd_now := now\<rparr>)) =
      (case fold (spec_op cd (sd_ttl sd)) h (contents e sd) kb of
         Some (enc, exp) \<Rightarrow> if is_some_and (\<lambda>t. t \<le> now) exp then None else Some (the (cd_decode_value cd enc)) | None \<Rightarrow> None) \<and>
    (\<exists>vers. length vers = length h \<and> sorted_wrt (<) (clock_last (sd_clock sd) # vers) \<and>
       sd_fan_out sd' = fold (\<lambda>item q. snd (queue_push item q)) (map2 (\<lambda>(_, op) v. Applied (local_key op) v) h vers) (sd_fan_out sd))"
proof -
  note run = local_run_refines[OF assms(1,2,3,5,6,7)]
  have "engine_inv e (sd_engine (sd'\<lparr>sd_now := now\<rparr>))" "eg_tti_ms (sd_engine (sd'\<lparr>sd_now := now\<rparr>)) = None"
    using run assms(4) by (simp_all add: lww_shard_def)
  note got = shard_get_contents[OF this assms(8)]
  have "contents e (sd'\<lparr>sd_now := now\<rparr>) = fold (spec_op cd (sd_ttl sd)) h (contents e sd)" using run by (simp add: contents_def[abs_def])
  with got run show ?thesis by (simp cong: option.case_cong if_cong)
qed

text \<open>A shard of byte strings, with the identity as its codec.\<close>

definition demo_codec :: "(bytes, bytes) codec" where
  "demo_codec = \<lparr>cd_encode_key = Some, cd_decode_key = Some, cd_encode_value = Some, cd_decode_value = Some\<rparr>"

definition demo_config :: shard_config where
  "demo_config = \<lparr>sc_ttl = None, sc_tombstone_ttl_ms = 1000, sc_tombstone_max_ttl_ms = 4000, sc_max_clock_skew_ms = None,
     sc_crdt_bounds = \<lparr>retire_after_ms = 5000, receipt_ttl_ms = 1000\<rparr>, sc_max_frame = 1000, sc_merge_window = \<lparr>secs = 0, nanos = 0\<rparr>\<rparr>"

definition demo_shard :: "node_id \<Rightarrow> (bytes, bytes) shard" where
  "demo_shard node = shard_new [97] Replicated node u64_max None None lww_resolver demo_config 100"

definition demo_calls :: "(u64 \<times> (bytes, bytes) local_op) list" where
  "demo_calls = [(100, L_Insert [7] [1] None), (101, L_Insert [8] [2] (Some \<lparr>secs = 1, nanos = 0\<rparr>)), (99, L_Insert [7] [3] None), (102, L_Remove [8])]"

lemma demo_shard_facts:
  "lww_shard demo_externs (demo_shard node)" "at_ceiling (demo_shard node) = None" "eg_tti_ms (sd_engine (demo_shard node)) = None"
  "op_ok demo_externs demo_codec (demo_shard node) (L_Insert [a] [b] ttl)" "op_ok demo_externs demo_codec (demo_shard node) (L_Remove [a])"
  "clock_last (sd_clock (demo_shard node)) = Hlc 0 0 node" "sd_ttl (demo_shard node) = None" "contents e (demo_shard node) = Map.empty"
proof -
  show "lww_shard demo_externs (demo_shard node)" by (simp add: demo_shard_def shard_new_lww)
  show "contents e (demo_shard node) = Map.empty"
    by (simp add: contents_cell demo_shard_def shard_new_def set_merge_cap_def guarding_pauses_def starting_gc_deferred_def fun_eq_iff
        engine_cell_def engine_new_def cell_at_def stripe_new_def arena_find_def)
qed (simp_all add: demo_shard_def shard_new_def at_ceiling_def set_merge_cap_def guarding_pauses_def starting_gc_deferred_def engine_new_def
    op_ok_def demo_codec_def owns_key_def replicate_frame_len_def raw_frame_header_len_def record_header_len_def demo_config_def hlc_clock_new_def)

theorem shard_refines_map_witness:
  "fst (shard_get demo_externs demo_codec [7]
      (None, (snd (local_run demo_externs demo_codec demo_calls (demo_shard (NodeId 1))))\<lparr>sd_now := 500\<rparr>)) = Some [3]"
proof -
  let ?sd = "demo_shard (NodeId 1)"
  obtain rs sd' where run: "local_run demo_externs demo_codec demo_calls ?sd = (rs, sd')" by fastforce
  have ok: "\<forall>(now, op) \<in> set demo_calls. op_ok demo_externs demo_codec ?sd op" by (simp add: demo_calls_def demo_shard_facts)
  have len: "unat (logical (clock_last (sd_clock ?sd))) + length demo_calls < 2 ^ 32" by (simp add: demo_shard_facts demo_calls_def)
  have key: "cd_encode_key demo_codec [7] = Some [7]" by (simp add: demo_codec_def)
  have spec: "fold (spec_op demo_codec None) demo_calls Map.empty [7] = Some ([3], None)" by (simp add: demo_calls_def demo_codec_def)
  have "fst (shard_get demo_externs demo_codec [7] (None, sd'\<lparr>sd_now := 500\<rparr>)) = Some [3]"
    using shard_refines_map[OF demo_shard_facts(1) demo_externs_ok demo_shard_facts(2,3) ok len run key, of 500]
    by (simp add: demo_shard_facts spec) (simp add: demo_codec_def)
  then show ?thesis by (simp add: run)
qed

section \<open>A batch from a peer\<close>

text \<open>What of a record reaches the engine: its stamp is within the skew bound, and its key and value decode.\<close>

definition within_skew :: "('k, 'v) shard \<Rightarrow> wire_record \<Rightarrow> bool" where
  "within_skew sd rec \<longleftrightarrow> is_none_or (\<lambda>k. \<not> exceeds_skew (sd_now sd) (wall_ms (wr_ver rec)) k) (sd_max_clock_skew_ms sd)"

definition decodes :: "('k, 'v) codec \<Rightarrow> wire_record \<Rightarrow> bool" where
  "decodes cd rec \<longleftrightarrow> cd_decode_key cd (wr_key rec) \<noteq> None \<and> is_none_or (\<lambda>vb. cd_decode_value cd vb \<noteq> None) (wr_value rec)"

definition rec_write :: "wire_record \<Rightarrow> bytes \<times> hlc \<times> content_core" where
  "rec_write rec = (wr_key rec, wr_ver rec, case wr_value rec of Some vb \<Rightarrow> Inl (vb, wr_expires rec) | None \<Rightarrow> Inr (wr_expires rec))"

lemma observe_remote_eq:
  "observe_remote ver sd =
     (if is_none_or (\<lambda>k. \<not> exceeds_skew (sd_now sd) (wall_ms ver) k) (sd_max_clock_skew_ms sd)
      then (True, sd\<lparr>sd_clock := fst (hlc_observe (sd_clock sd) (sd_now sd) ver)\<rparr>) else (False, sd))"
  by (auto simp: observe_remote_def hlc_observe_bounded_def split: option.split prod.split)

text \<open>Only the clock and the hold differ.\<close>

definition skewed_into :: "('k, 'v) shard \<Rightarrow> ('k, 'v) shard \<Rightarrow> bool" where
  "skewed_into sd sd' \<longleftrightarrow> sd'\<lparr>sd_clock := sd_clock sd, sd_skew_hold := sd_skew_hold sd\<rparr> = sd"

lemma skewed_into_basic [simp]: "skewed_into sd sd" "skewed_into sd (sd\<lparr>sd_clock := c\<rparr>)" "skewed_into sd (hold_skewed rec sd)"
  "sd_clock (hold_skewed rec sd) = sd_clock sd"
  by (simp_all add: skewed_into_def hold_skewed_def split: option.split)

lemma skewed_into_trans: "skewed_into a b \<Longrightarrow> skewed_into b c \<Longrightarrow> skewed_into a c"
  unfolding skewed_into_def by (cases a; cases b; cases c) simp

lemma skewed_into_eq:
  assumes "skewed_into a b"
  shows "sd_now b = sd_now a" "sd_max_clock_skew_ms b = sd_max_clock_skew_ms a" "sd_engine b = sd_engine a" "sd_raw_resolver b = sd_raw_resolver a"
    "sd_ownership b = sd_ownership a" "sd_tombstone_ttl_ms b = sd_tombstone_ttl_ms a" "sd_tombstone_max_ttl_ms b = sd_tombstone_max_ttl_ms a"
    "sd_mode b = sd_mode a" "sd_fan_out b = sd_fan_out a"
  using assms unfolding skewed_into_def by (cases a; cases b; simp)+

lemma within_skew_into: "skewed_into a b \<Longrightarrow> within_skew b = within_skew a"
  by (simp add: within_skew_def fun_eq_iff skewed_into_eq)

lemma decode_inbound_exact:
  assumes "decode_inbound e cd hn i recs sd = (decoded, sd')"
    and "\<forall>rec \<in> set recs. length (wr_key rec) < 2 ^ 32 \<and> unat (logical (wr_ver rec)) \<le> L" and "externs_ok e"
    and "unat (logical (clock_last (sd_clock sd))) \<le> L" and "L + length recs < 2 ^ 32"
  shows "map (write_of \<circ> fst) decoded = map rec_write (filter (\<lambda>rec. within_skew sd rec \<and> decodes cd rec) recs) \<and>
    (\<forall>(en, _) \<in> set decoded. entry_ok e (stripe_index_from_hash (ek_hash (fst en))) (fst en)) \<and>
    skewed_into sd sd' \<and> clock_last (sd_clock sd) \<le> clock_last (sd_clock sd') \<and>
    unat (logical (clock_last (sd_clock sd'))) \<le> L + length recs \<and>
    (\<forall>rec \<in> set recs. within_skew sd rec \<longrightarrow> wr_ver rec \<le> clock_last (sd_clock sd'))"
  using assms
proof (induction recs arbitrary: i sd L decoded)
  case Nil
  then show ?case by simp
next
  case (Cons rec recs)
  let ?w = "clock_last (sd_clock sd)"
  obtain acc sd1 where ob: "observe_remote (wr_ver rec) sd = (acc, sd1)" by fastforce
  have L: "unat (logical (wr_ver rec)) \<le> L" "length (wr_key rec) < 2 ^ 32" "L < 2 ^ 32 - 1" using Cons.prems by auto
  have room: "now_room (sd_clock sd)" "logical (wr_ver rec) \<noteq> u32_max"
    using L Cons.prems(4) u32_max_unat by (auto simp: now_room_def)
  note gt = hlc_observe_gt[OF room, of "sd_now sd"] observe_logical_bound[OF room, of "sd_now sd"]
  define sd2 where "sd2 = (if acc then sd1 else if i < hn then hold_skewed rec sd1 else sd1)"
  have acc: "acc = within_skew sd rec" and sk: "skewed_into sd sd2" and le: "?w \<le> clock_last (sd_clock sd2)"
    and seen: "acc \<Longrightarrow> wr_ver rec \<le> clock_last (sd_clock sd2)"
    and lg: "unat (logical (clock_last (sd_clock sd2))) \<le> Suc L"
    using ob gt L(1) Cons.prems(4) by (auto simp: sd2_def observe_remote_eq within_skew_def split: if_splits)
  obtain dec2 where rest: "decode_inbound e cd hn (Suc i) recs sd2 = (dec2, sd')"
    and d: "decoded = (if acc \<and> decodes cd rec then ((\<lparr>ek_hash = hash_key_bytes e (wr_key rec), ek_key = the (cd_decode_key cd (wr_key rec)),
        ek_bytes = wr_key rec\<rparr>, wr_ver rec, the (decode_incoming cd (wr_value rec) (wr_expires rec))), From_Remote (hlc_node (wr_ver rec))) # dec2 else dec2)"
    using Cons.prems(1) ob by (auto simp: sd2_def decodes_def decode_incoming_def split: prod.splits option.splits if_splits)
  have prems: "\<forall>rec \<in> set recs. length (wr_key rec) < 2 ^ 32 \<and> unat (logical (wr_ver rec)) \<le> Suc L" "Suc L + length recs < 2 ^ 32"
    using Cons.prems(2,5) by auto
  note IH = Cons.IH[OF rest prems(1) Cons.prems(3) lg prems(2), unfolded within_skew_into[OF sk]]
  have wr: "write_of (\<lparr>ek_hash = hsh, ek_key = key, ek_bytes = wr_key rec\<rparr>, wr_ver rec, the (decode_incoming cd (wr_value rec) (wr_expires rec))) = rec_write rec"
    if "decodes cd rec" for hsh and key :: 'a
    using that by (auto simp: write_of_def rec_write_def decode_incoming_def decodes_def split: option.splits)
  have ok: "entry_ok e (stripe_index_from_hash (hash_key_bytes e (wr_key rec))) \<lparr>ek_hash = hash_key_bytes e (wr_key rec), ek_key = key, ek_bytes = wr_key rec\<rparr>"
    for key :: 'a using L(2) Cons.prems(3) by (simp add: entry_ok_def key_bucket_def)
  show ?case using IH wr ok acc seen le skewed_into_trans[OF sk] by (auto simp: d intro: order_trans)
qed

lemma lww_put_key: "lww_put w m k = (if fst w = k then lww_put w m' k else m' k)" if "m k = m' k"
  using that by (cases w) (auto simp: lww_put_def)

lemma fold_lww_key: "m k = m' k \<Longrightarrow> fold lww_put ws m k = fold lww_put (filter (\<lambda>w. fst w = k) ws) m' k"
proof (induction ws arbitrary: m m')
  case (Cons w ws)
  note put = lww_put_key[of m k m' w, OF Cons.prems]
  show ?case
  proof (cases "fst w = k")
    case True
    then show ?thesis using Cons.IH[of "lww_put w m" "lww_put w m'"] put by simp
  next
    case False
    then show ?thesis using Cons.IH[of "lww_put w m" m'] put by simp
  qed
qed simp

text \<open>Applying the writes bucket by bucket is applying them in order.\<close>

lemma fold_lww_buckets:
  assumes "distinct bs" and "\<forall>w \<in> set ws. bucket (fst w) \<in> set bs"
  shows "fold (\<lambda>b. fold lww_put (filter (\<lambda>w. bucket (fst w) = b) ws)) bs m = fold lww_put ws m"
proof
  fix k
  let ?ks = "filter (\<lambda>w. fst w = k) ws" and ?at = "\<lambda>b. filter (\<lambda>w. bucket (fst w) = b) ws"
  have one: "fold lww_put (?at b) m k = (if bucket k = b then fold lww_put ?ks m k else m k)" for m b
  proof -
    have "filter (\<lambda>w. fst w = k) (?at b) = (if bucket k = b then ?ks else [])" by (induction ws) auto
    then show ?thesis using fold_lww_key[of m k m "?at b"] by simp
  qed
  have later: "bucket k \<notin> set bs \<Longrightarrow> fold (\<lambda>b. fold lww_put (?at b)) bs m k = m k" for bs m
    by (induction bs arbitrary: m) (simp_all add: one)
  have split: "fold (\<lambda>b. fold lww_put (?at b)) bs m k = (if bucket k \<in> set bs then fold lww_put ?ks m k else m k)" for m
    using assms(1)
  proof (induction bs arbitrary: m)
    case (Cons b bs)
    have same: "fold lww_put ?ks (fold lww_put (?at b) m) k = fold lww_put ?ks m k" if "bucket k \<noteq> b"
      using fold_lww_key[of "fold lww_put (?at b) m" k m ?ks] one[of b m] that by simp
    show ?case
    proof (cases "bucket k = b")
      case True
      then show ?thesis using Cons.prems later[of bs "fold lww_put (?at b) m"] one[of b m] by simp
    next
      case False
      then show ?thesis using Cons.IH[of "fold lww_put (?at b) m"] Cons.prems same one[of b m] by simp
    qed
  qed simp
  have absent: "bucket k \<notin> set bs \<Longrightarrow> ?ks = []" using assms(2) by (auto simp: filter_empty_conv)
  show "fold (\<lambda>b. fold lww_put (?at b)) bs m k = fold lww_put ws m k"
    using split[of m] fold_lww_key[of m k m ws] absent by (cases "bucket k \<in> set bs") simp_all
qed

text \<open>A tombstone that arrives before the deadlines this shard gives it.\<close>

definition arrives_in_time :: "('k, 'v) shard \<Rightarrow> wire_record \<Rightarrow> bool" where
  "arrives_in_time sd rec \<longleftrightarrow> (wr_value rec = None \<longrightarrow>
     (let anchor = tombstone_anchor_ms (wr_expires rec) (wall_ms (wr_ver rec)) (sd_now sd); ttl = sd_tombstone_ttl_ms sd
      in sd_now sd < sat_add anchor ttl \<and>
         sd_now sd < sat_add anchor (deferred_retention_ms (wr_expires rec \<noteq> None) ttl (sd_tombstone_max_ttl_ms sd))))"

lemma in_time_not_lapsed:
  assumes w: "write_of en = rec_write rec" and t: "arrives_in_time sd rec"
  shows "\<not> lapsed_on_arrival (batch_ctx g r cap (sd_tombstone_ttl_ms sd) (sd_tombstone_max_ttl_ms sd) (sd_now sd) from_peer ho) (snd (snd en)) (fst (snd en))"
proof (cases "snd (snd en)")
  case (Put v x enc)
  then show ?thesis by (simp add: lapsed_on_arrival_def rule_deadlines_def rule_ignores_def)
next
  case (Tombstone x)
  then have "wr_value rec = None" "wr_expires rec = x" "fst (snd en) = wr_ver rec"
    using w by (auto simp: write_of_def rec_write_def split: option.splits)
  then show ?thesis using t Tombstone
    by (auto simp: arrives_in_time_def Let_def lapsed_on_arrival_def rule_deadlines_def rule_ignores_def ctx_rule_def batch_ctx_def
        drops_lapsed_tombstone_def tombstone_lapsed_def tombstone_deadlines_def not_le split: if_splits)
qed

lemma core_remote_outcomes [simp]: "core (remote_outcomes e cd outs sd) = core sd"
  by (induction outs arbitrary: sd) (auto simp: remote_outcomes_def)

lemma stripe_writes:
  assumes "\<forall>(en, _) \<in> set decoded. entry_ok e (stripe_index_from_hash (ek_hash (fst en))) (fst en)"
  shows "map (write_of \<circ> fst) (remote_stripe decoded b) = filter (\<lambda>w. key_bucket e (fst w) = b) (map (write_of \<circ> fst) decoded)"
  using assms by (induction decoded) (auto simp: remote_stripe_def entry_ok_def write_of_def)

lemma remote_groups_lww:
  fixes decoded :: "('k, 'v) remote_entry list"
  defines "ws \<equiv> map (write_of \<circ> fst) decoded"
  assumes "apply_remote_groups e cd Any bs (remote_stripe decoded) (w, sd) = (w', sd')"
    and "engine_inv e (sd_engine sd)" and "eg_max_capacity (sd_engine sd) = u64_max" and "sd_raw_resolver sd = lww_resolver"
    and "\<forall>(en, _) \<in> set decoded. entry_ok e (stripe_index_from_hash (ek_hash (fst en))) (fst en) \<and>
      (\<exists>rec. write_of en = rec_write rec \<and> arrives_in_time sd rec)"
    and "\<forall>b \<in> set bs. b < bucket_count"
  shows "engine_inv e (sd_engine sd') \<and> settings (sd_engine sd') = settings (sd_engine sd) \<and>
    core sd' = core (sd\<lparr>sd_engine := sd_engine sd'\<rparr>) \<and>
    registers_of e (sd_engine sd') =
      fold (\<lambda>b. fold lww_put (filter (\<lambda>w. key_bucket e (fst w) = b) ws)) bs (registers_of e (sd_engine sd))"
  using assms(2-)
proof (induction bs arbitrary: w sd)
  case (Cons b bs)
  have entries: "\<forall>(en, _) \<in> set decoded. entry_ok e (stripe_index_from_hash (ek_hash (fst en))) (fst en)" using Cons.prems(5) by auto
  note ws = stripe_writes[OF entries, of b, folded ws_def]
  show ?case
  proof (cases "remote_stripe decoded b = []")
    case True
    then have "filter (\<lambda>w. key_bucket e (fst w) = b) ws = []" using ws by simp
    then show ?thesis using Cons True by simp
  next
    case False
    obtain outs deficit w1 g where run: "apply_many_in e (cd_decode_value cd) Any Peer b (map fst (remote_stripe decoded b)) lww_resolver
        (sd_tombstone_ttl_ms sd) (sd_tombstone_max_ttl_ms sd) (sd_now sd) w (sd_engine sd) = (outs, deficit, w1, g)" by (metis prod_cases4)
    define sd1 where "sd1 = remote_outcomes e cd (zip outs (map snd (remote_stripe decoded b))) (sd\<lparr>sd_engine := g\<rparr>)"
    have rest: "apply_remote_groups e cd Any bs (remote_stripe decoded) (w1, sd1) = (w', sd')"
      using Cons.prems(1) False run by (simp add: sd1_def sd_resolver_lww[OF Cons.prems(4)])
    have b: "b < bucket_count" using Cons.prems(6) by simp
    have ok: "\<forall>en \<in> set (map fst (remote_stripe decoded b)). entry_ok e b (fst en)" using entries by (auto simp: remote_stripe_def)
    have time: "\<not> lapsed_on_arrival (batch_ctx (sd_engine sd) r cap (sd_tombstone_ttl_ms sd) (sd_tombstone_max_ttl_ms sd) (sd_now sd) (is_peer Peer) ho)
        (snd (snd en)) (fst (snd en))" if "en \<in> set (map fst (remote_stripe decoded b))" for en r cap ho
      using that Cons.prems(5) in_time_not_lapsed[of en _ sd] by (fastforce simp: remote_stripe_def)
    note batch = lww_batch[OF Cons.prems(2) b Cons.prems(3) ok time run]
    have c1: "core sd1 = core (sd\<lparr>sd_engine := g\<rparr>)" by (simp add: sd1_def)
    note same = core_eq[OF c1]
    have cap: "eg_max_capacity (sd_engine sd1) = u64_max" using settings_eq[OF batch(2)] Cons.prems(3) same by simp
    have later: "arrives_in_time sd1 rec = arrives_in_time sd rec" for rec using same by (simp add: arrives_in_time_def)
    have "engine_inv e (sd_engine sd') \<and> settings (sd_engine sd') = settings (sd_engine sd1) \<and>
      core sd' = core (sd1\<lparr>sd_engine := sd_engine sd'\<rparr>) \<and>
      registers_of e (sd_engine sd') =
        fold (\<lambda>b. fold lww_put (filter (\<lambda>w. key_bucket e (fst w) = b) ws)) bs (registers_of e (sd_engine sd1))"
      using Cons.IH[OF rest _ cap] batch(1) same Cons.prems(4,5,6) by (simp add: later)
    moreover have "core (sd1\<lparr>sd_engine := sd_engine sd'\<rparr>) = core (sd\<lparr>sd_engine := sd_engine sd'\<rparr>)" using core_engine[OF c1] by simp
    ultimately show ?thesis using batch(2,3) same ws by simp
  qed
qed simp

text \<open>The records of a batch that a shard applies: of parts it owns now, within the skew bound, and decodable.\<close>

definition owned_record :: "externs \<Rightarrow> ('k, 'v) shard \<Rightarrow> wire_record \<Rightarrow> bool" where
  "owned_record e sd rec \<longleftrightarrow> owns_key e (wr_key rec) sd"

definition admitted :: "externs \<Rightarrow> ('k, 'v) codec \<Rightarrow> ('k, 'v) shard \<Rightarrow> wire_record \<Rightarrow> bool" where
  "admitted e cd sd rec \<longleftrightarrow> owned_record e sd rec \<and> within_skew sd rec \<and> decodes cd rec"

lemma guard_inbound_keeps:
  assumes "guard_inbound e recs hn sd = (kept, hn', sd1)"
  shows "kept = filter (owned_record e sd) recs" and "core sd1 = core sd"
  using assms
  by (auto simp: guard_inbound_def owned_record_def owns_key_def Let_def intro!: filter_cong split: option.splits prod.splits)

lemma fold_lww_covered:
  assumes "fold lww_put ws m k = Some x" and "\<And>x. m k = Some x \<Longrightarrow> fst x \<le> t" and "\<And>w. w \<in> set ws \<Longrightarrow> fst (snd w) \<le> t"
  shows "fst x \<le> t"
proof -
  obtain v c where x: "x = (v, c)" by fastforce
  have "m k = Some (v, c) \<or> (k, v, c) \<in> set ws" using lww_fold_max(1) assms(1)[unfolded x] by blast
  then show ?thesis using assms(2,3) by (force simp: x)
qed

text \<open>What a batch leaves alone: the terms on which records are admitted.\<close>

definition same_terms :: "('k, 'v) shard \<Rightarrow> ('k, 'v) shard \<Rightarrow> bool" where
  "same_terms a b \<longleftrightarrow> sd_now b = sd_now a \<and> sd_ownership b = sd_ownership a \<and> sd_max_clock_skew_ms b = sd_max_clock_skew_ms a \<and>
     sd_tombstone_ttl_ms b = sd_tombstone_ttl_ms a \<and> sd_tombstone_max_ttl_ms b = sd_tombstone_max_ttl_ms a \<and> sd_mode b = sd_mode a"

lemma same_terms_eq:
  assumes "same_terms a b"
  shows "admitted e cd b = admitted e cd a" "arrives_in_time b = arrives_in_time a" "sd_mode b = sd_mode a" "owns_key e k b = owns_key e k a"
  using assms by (simp_all add: same_terms_def admitted_def[abs_def] owned_record_def owns_key_def within_skew_def arrives_in_time_def[abs_def])

lemma apply_inbound_lww:
  assumes sd: "lww_shard e sd" and ext: "externs_ok e" and mode: "sd_mode sd \<noteq> Invalidation"
    and recs: "\<forall>rec \<in> set recs. length (wr_key rec) < 2 ^ 32 \<and> unat (logical (wr_ver rec)) \<le> L \<and> arrives_in_time sd rec"
    and room: "unat (logical (clock_last (sd_clock sd))) \<le> L" "L + length recs < 2 ^ 32"
  shows "lww_shard e (apply_inbound e cd recs inb sd) \<and>
    registers_of e (sd_engine (apply_inbound e cd recs inb sd)) =
      fold lww_put (map rec_write (filter (admitted e cd sd) recs)) (registers_of e (sd_engine sd)) \<and>
    same_terms sd (apply_inbound e cd recs inb sd) \<and>
    unat (logical (clock_last (sd_clock (apply_inbound e cd recs inb sd)))) \<le> L + length recs"
proof -
  obtain kept hn' sd1 where guard: "guard_inbound e recs (inbound_held inb) sd = (kept, hn', sd1)" by (metis prod_cases3)
  note kept = guard_inbound_keeps[OF guard]
  note same1 = core_eq[OF kept(2)]
  obtain decoded sd2 where dec: "decode_inbound e cd hn' 0 kept sd1 = (decoded, sd2)" by fastforce
  have k: "\<forall>rec \<in> set kept. length (wr_key rec) < 2 ^ 32 \<and> unat (logical (wr_ver rec)) \<le> L" "L + length kept < 2 ^ 32"
    using recs room(2) le_less_trans[OF add_left_mono[OF length_filter_le]] by (auto simp: kept(1))
  have d: "map (write_of \<circ> fst) decoded = map rec_write (filter (\<lambda>rec. within_skew sd1 rec \<and> decodes cd rec) kept)"
    "\<forall>(en, _) \<in> set decoded. entry_ok e (stripe_index_from_hash (ek_hash (fst en))) (fst en)"
    "skewed_into sd1 sd2" "clock_last (sd_clock sd1) \<le> clock_last (sd_clock sd2)"
    "\<And>rec. rec \<in> set kept \<Longrightarrow> within_skew sd1 rec \<Longrightarrow> wr_ver rec \<le> clock_last (sd_clock sd2)"
    "unat (logical (clock_last (sd_clock sd2))) \<le> L + length kept"
    using decode_inbound_exact[OF dec k(1) ext _ k(2)] room(1) same1 by auto
  note same2 = skewed_into_eq[OF d(3)]
  obtain w' sd3 where gr: "apply_remote_groups e cd Any [0..<bucket_count] (remote_stripe decoded) (written_default, sd2) = (w', sd3)" by fastforce
  have out: "apply_inbound e cd recs inb sd = sd3"
    using guard dec gr mode same1 by (auto simp: apply_inbound_def inbound_scope_def split: mode.splits)
  have ws: "within_skew sd1 = within_skew sd" using same1 by (simp add: within_skew_def fun_eq_iff)
  have writes: "map (write_of \<circ> fst) decoded = map rec_write (filter (admitted e cd sd) recs)"
    unfolding d(1) kept(1) ws by (simp add: admitted_def conj_ac cong: filter_cong)
  have time2: "arrives_in_time sd2 rec = arrives_in_time sd rec" for rec using same1 same2 by (simp add: arrives_in_time_def)
  have en: "\<forall>(en, _) \<in> set decoded. entry_ok e (stripe_index_from_hash (ek_hash (fst en))) (fst en) \<and>
      (\<exists>rec. write_of en = rec_write rec \<and> arrives_in_time sd2 rec)"
  proof clarify
    fix a b c r assume in_dec: "((a, b, c), r) \<in> set decoded"
    then have "write_of (a, b, c) \<in> set (map (write_of \<circ> fst) decoded)" by force
    then obtain rec where "rec \<in> set recs" "write_of (a, b, c) = rec_write rec" by (auto simp: writes)
    then show "entry_ok e (stripe_index_from_hash (ek_hash (fst (a, b, c)))) (fst (a, b, c)) \<and>
        (\<exists>rec. write_of (a, b, c) = rec_write rec \<and> arrives_in_time sd2 rec)"
      using d(2) in_dec recs by (auto simp: time2)
  qed
  have sh: "engine_inv e (sd_engine sd)" "eg_max_capacity (sd_engine sd) = u64_max" "sd_raw_resolver sd = lww_resolver"
    "\<And>k x. registers_of e (sd_engine sd) k = Some x \<Longrightarrow> fst x \<le> clock_last (sd_clock sd)"
    using sd unfolding lww_shard_def by blast+
  have grp: "engine_inv e (sd_engine sd3) \<and> settings (sd_engine sd3) = settings (sd_engine sd2) \<and>
    core sd3 = core (sd2\<lparr>sd_engine := sd_engine sd3\<rparr>) \<and>
    registers_of e (sd_engine sd3) = fold (\<lambda>b. fold lww_put (filter (\<lambda>w. key_bucket e (fst w) = b) (map (write_of \<circ> fst) decoded)))
      [0..<bucket_count] (registers_of e (sd_engine sd2))"
    using sh same1 same2 by (intro remote_groups_lww[OF gr _ _ _ en]) simp_all
  have "registers_of e (sd_engine sd3) = fold lww_put (map (write_of \<circ> fst) decoded) (registers_of e (sd_engine sd2))"
    using grp fold_lww_buckets[of "[0..<bucket_count]" "map (write_of \<circ> fst) decoded" "key_bucket e"] by simp
  then have reg: "registers_of e (sd_engine sd3) = fold lww_put (map rec_write (filter (admitted e cd sd) recs)) (registers_of e (sd_engine sd))"
    using same1 same2 by (simp add: writes)
  have clk: "sd_clock sd3 = sd_clock sd2" "sd_raw_resolver sd3 = lww_resolver" using core_eq[of sd3 "sd2\<lparr>sd_engine := sd_engine sd3\<rparr>"] grp same1 same2 sh by simp_all
  have cover: "fst x \<le> clock_last (sd_clock sd3)" if "registers_of e (sd_engine sd3) kk = Some x" for kk x
    using that[unfolded reg]
  proof (rule fold_lww_covered)
    show "fst y \<le> clock_last (sd_clock sd3)" if "registers_of e (sd_engine sd) kk = Some y" for y
      using sh(4)[OF that] d(4) same1 by (auto simp: clk intro: order_trans)
    show "fst (snd w) \<le> clock_last (sd_clock sd3)" if "w \<in> set (map rec_write (filter (admitted e cd sd) recs))" for w
      using that d(5) by (auto simp: clk kept(1) ws admitted_def rec_write_def)
  qed
  have "lww_shard e sd3" using grp clk cover settings_eq[of "sd_engine sd3" "sd_engine sd2"] sh(2) same1 same2 by (auto simp: lww_shard_def)
  moreover have "same_terms sd sd3" using core_eq[of sd3 "sd2\<lparr>sd_engine := sd_engine sd3\<rparr>"] grp same1 same2 by (simp add: same_terms_def)
  moreover have "unat (logical (clock_last (sd_clock sd3))) \<le> L + length recs"
    using d(6) length_filter_le[of "owned_record e sd" recs] unfolding clk kept(1) by linarith
  ultimately show ?thesis using reg by (simp add: out)
qed

lemma fan_out_remote [simp]: "orig \<noteq> From_Local \<Longrightarrow> sd_fan_out (handle_apply_outcome e cd out orig notify sd) = sd_fan_out sd"
  by (auto simp: handle_apply_outcome_def discard_pending_merge_before_def take_pending_merge_if_def send_event_def Let_def
      split: apply_outcome.split option.split prod.split)

lemma fan_out_remote_outcomes:
  "\<forall>(_, orig) \<in> set outs. orig \<noteq> From_Local \<Longrightarrow> sd_fan_out (remote_outcomes e cd outs sd) = sd_fan_out sd"
  by (induction outs arbitrary: sd) (auto simp: remote_outcomes_def)

lemma decoded_origins:
  "decode_inbound e cd hn i recs sd = (decoded, sd') \<Longrightarrow> \<forall>(_, orig) \<in> set decoded. orig \<noteq> From_Local"
  by (induction recs arbitrary: i sd decoded) (fastforce split: prod.splits if_splits option.splits)+

lemma decode_skewed: "decode_inbound e cd hn i recs sd = (decoded, sd') \<Longrightarrow> skewed_into sd sd'"
proof (induction recs arbitrary: i sd decoded)
  case (Cons rec recs)
  obtain acc sd1 where ob: "observe_remote (wr_ver rec) sd = (acc, sd1)" by fastforce
  define sd2 where "sd2 = (if acc then sd1 else if i < hn then hold_skewed rec sd1 else sd1)"
  have "skewed_into sd sd2" using ob by (auto simp: sd2_def observe_remote_eq split: if_splits)
  moreover obtain dec2 where "decode_inbound e cd hn (Suc i) recs sd2 = (dec2, sd')"
    using Cons.prems ob by (auto simp: sd2_def split: prod.splits option.splits if_splits)
  ultimately show ?case using Cons.IH skewed_into_trans by blast
qed simp

lemma fan_out_remote_groups:
  assumes "\<forall>b. \<forall>(_, orig) \<in> set (groups b). orig \<noteq> From_Local"
  shows "sd_fan_out (snd (apply_remote_groups e cd scope bs groups (w, sd))) = sd_fan_out sd"
proof (induction bs arbitrary: w sd)
  case (Cons b bs)
  have "\<forall>(_, orig) \<in> set (zip outs (map snd (groups b))). orig \<noteq> From_Local" for outs :: "('a, 'b) apply_outcome list"
    using assms by (fastforce dest: set_zip_rightD)
  then show ?case using Cons by (simp add: fan_out_remote_outcomes split: prod.split)
qed simp

definition redirected :: "externs \<Rightarrow> ('k, 'v) shard \<Rightarrow> wire_record list \<Rightarrow> wire_record list" where
  "redirected e sd recs =
     filter (\<lambda>rec. \<not> owned_record e sd rec \<and> is_some_and (\<lambda>r. is_releasing r (part_of_key e (wr_key rec))) (sd_residency sd)) recs"

lemma guard_inbound_redirects:
  assumes "guard_inbound e recs hn sd = (kept, hn', sd1)"
  shows "sd_fan_out sd1 = (if redirected e sd recs = [] then sd_fan_out sd else snd (queue_extend (map Forwarded (redirected e sd recs)) (sd_fan_out sd)))"
proof (cases "sd_ownership sd")
  case None
  then show ?thesis using assms by (simp add: guard_inbound_def redirected_def owned_record_def owns_key_def)
next
  case (Some view)
  have "filter (\<lambda>rec. is_some_and (\<lambda>r. is_releasing r (part_of_key e (wr_key rec))) (sd_residency sd))
      (filter (\<lambda>rec. \<not> owns view (part_of_key e (wr_key rec))) recs) = redirected e sd recs"
    by (simp add: redirected_def owned_record_def owns_key_def Some conj_commute)
  then show ?thesis using assms Some
    by (auto simp: guard_inbound_def redirect_to_owners_def extend_fan_out_def Let_def split: prod.splits)
qed

text \<open>
  C5: what a batch from a peer does to a last-writer-wins shard. Its registers become those that the
  admitted records write, in the order of the batch: a record is admitted when the current view owns
  its part, its stamp is within the skew bound and it decodes. The skew hold, the clock and the
  stripes change nothing about it, the clock still covers every version stored, a key of a part this
  node does not own keeps its record, and of the records refused for ownership exactly those of parts
  being released go back to the queue for their owners.
\<close>

theorem inbound_refines_registers:
  assumes "lww_shard e sd" and "externs_ok e" and "sd_mode sd \<noteq> Invalidation"
    and "\<forall>rec \<in> set recs. length (wr_key rec) < 2 ^ 32 \<and> unat (logical (wr_ver rec)) \<le> L \<and> arrives_in_time sd rec"
    and "unat (logical (clock_last (sd_clock sd))) \<le> L" and "L + length recs < 2 ^ 32"
  shows "let sd' = apply_inbound e cd recs inb sd in
    lww_shard e sd' \<and>
    registers_of e (sd_engine sd') = fold lww_put (map rec_write (filter (admitted e cd sd) recs)) (registers_of e (sd_engine sd)) \<and>
    (\<not> owns_key e k sd \<longrightarrow> registers_of e (sd_engine sd') k = registers_of e (sd_engine sd) k) \<and>
    sd_fan_out sd' = (if redirected e sd recs = [] then sd_fan_out sd else snd (queue_extend (map Forwarded (redirected e sd recs)) (sd_fan_out sd)))"
proof -
  note ref = apply_inbound_lww[OF assms(1-6), of cd inb]
  have "filter (\<lambda>w. fst w = k) (map rec_write (filter (admitted e cd sd) recs)) = []" if "\<not> owns_key e k sd"
    using that by (auto simp: filter_empty_conv admitted_def owned_record_def rec_write_def)
  then have unowned: "\<not> owns_key e k sd \<longrightarrow> registers_of e (sd_engine (apply_inbound e cd recs inb sd)) k = registers_of e (sd_engine sd) k"
    using ref fold_lww_key[of "registers_of e (sd_engine sd)" k "registers_of e (sd_engine sd)" "map rec_write (filter (admitted e cd sd) recs)"]
    by simp
  obtain kept hn' sd1 where guard: "guard_inbound e recs (inbound_held inb) sd = (kept, hn', sd1)" by (metis prod_cases3)
  obtain decoded sd2 where dec: "decode_inbound e cd hn' 0 kept sd1 = (decoded, sd2)" by fastforce
  have mode: "sd_mode sd1 \<noteq> Invalidation" using core_eq[OF guard_inbound_keeps(2)[OF guard]] assms(3) by simp
  have out: "apply_inbound e cd recs inb sd = snd (apply_remote_groups e cd Any [0..<bucket_count] (remote_stripe decoded) (written_default, sd2))"
    using guard dec mode by (auto simp: apply_inbound_def inbound_scope_def split: mode.splits)
  have "sd_fan_out (apply_inbound e cd recs inb sd) = sd_fan_out sd2"
    unfolding out by (rule fan_out_remote_groups) (use decoded_origins[OF dec] in \<open>auto simp: remote_stripe_def\<close>)
  moreover have "sd_fan_out sd2 = sd_fan_out sd1" using skewed_into_eq(9)[OF decode_skewed[OF dec]] .
  ultimately show ?thesis using ref unowned guard_inbound_redirects[OF guard] by (simp add: Let_def)
qed

text \<open>Two versions of one key and a record of another.\<close>

definition demo_recs :: "wire_record list" where
  "demo_recs = [\<lparr>wr_key = [7], wr_value = Some [1], wr_ver = Hlc 90 0 (NodeId 2), wr_expires = None\<rparr>,
     \<lparr>wr_key = [8], wr_value = Some [5], wr_ver = Hlc 80 0 (NodeId 2), wr_expires = Some 900\<rparr>,
     \<lparr>wr_key = [7], wr_value = Some [2], wr_ver = Hlc 95 1 (NodeId 2), wr_expires = None\<rparr>]"

theorem inbound_refines_registers_witness:
  "registers_of demo_externs (sd_engine (apply_inbound demo_externs demo_codec demo_recs In_Replicated (demo_shard (NodeId 1)))) =
     fold lww_put (map rec_write demo_recs) Map.empty"
proof -
  let ?sd = "demo_shard (NodeId 1)"
  have recs: "\<forall>rec \<in> set demo_recs. length (wr_key rec) < 2 ^ 32 \<and> unat (logical (wr_ver rec)) \<le> 1 \<and> arrives_in_time ?sd rec"
    by (simp add: demo_recs_def arrives_in_time_def)
  have mode: "sd_mode ?sd \<noteq> Invalidation" by (simp add: demo_shard_def shard_new_def)
  have len: "unat (logical (clock_last (sd_clock ?sd))) \<le> 1" "1 + length demo_recs < 2 ^ 32" by (simp_all add: demo_shard_facts demo_recs_def)
  have all: "filter (admitted demo_externs demo_codec ?sd) demo_recs = demo_recs"
    by (simp add: demo_recs_def admitted_def owned_record_def owns_key_def within_skew_def decodes_def demo_shard_def shard_new_def demo_codec_def demo_config_def)
  have none: "registers_of demo_externs (sd_engine ?sd) = Map.empty"
    by (simp add: demo_shard_def shard_new_def set_merge_cap_def guarding_pauses_def starting_gc_deferred_def fun_eq_iff registers_of_def
        engine_cell_def engine_new_def cell_at_def stripe_new_def arena_find_def)
  show ?thesis
    using inbound_refines_registers[OF demo_shard_facts(1) demo_externs_ok mode recs len, of demo_codec In_Replicated]
    by (simp add: Let_def all none)
qed

end
