(* ===== verification/Shard_Pending.thy ===== *)
theory Shard_Pending
  imports Shard_Contract
begin

text \<open>
  Pending merge folds. A stripe keeps them in a hash map and indexes their deadlines in an ordered
  one; the lemmas show that every operation keeps the two in step, that a flush takes exactly the
  folds whose window has closed, and that a seal before a close applies or forwards every one.
\<close>

section \<open>One stripe\<close>

definition indexed :: "('k \<Rightarrow> 'v pending_merge option) \<Rightarrow> (u64 \<times> u64, 'k) btree_map \<Rightarrow> u64 \<Rightarrow> bool" where
  "indexed m rows seq \<longleftrightarrow>
     (\<forall>row key. bm_get rows row = Some key \<longleftrightarrow> (\<exists>p. m key = Some p \<and> pm_deadline_key p = row)) \<and>
     (\<forall>key p. m key = Some p \<longrightarrow> unat (snd (pm_deadline_key p)) < unat seq)"

definition pg_ok :: "('k, 'v) pending_merge_stripe \<Rightarrow> bool" where
  "pg_ok s \<longleftrightarrow> distinct (map fst (pg_entries s)) \<and> indexed (map_of (pg_entries s)) (pg_by_deadline s) (pg_next_seq s)"

lemma indexedI:
  assumes "\<And>row key. bm_get rows row = Some key \<Longrightarrow> \<exists>p. m key = Some p \<and> pm_deadline_key p = row"
    and "\<And>key p. m key = Some p \<Longrightarrow> bm_get rows (pm_deadline_key p) = Some key"
    and "\<And>key p. m key = Some p \<Longrightarrow> unat (snd (pm_deadline_key p)) < unat seq"
  shows "indexed m rows seq"
  unfolding indexed_def using assms by blast

lemma indexedD:
  assumes "indexed m rows seq"
  shows "bm_get rows row = Some key \<Longrightarrow> \<exists>p. m key = Some p \<and> pm_deadline_key p = row"
    and "m key = Some p \<Longrightarrow> bm_get rows (pm_deadline_key p) = Some key"
    and "m key = Some p \<Longrightarrow> unat (snd (pm_deadline_key p)) < unat seq"
  using assms unfolding indexed_def by blast+

lemma indexed_insert:
  assumes idx: "indexed m rows seq" and "m key = None" and room: "seq \<noteq> u64_max" and p: "pm_deadline_key p = (d, seq)"
  shows "indexed (m(key \<mapsto> p)) (bm_insert (d, seq) key rows) (seq + 1)"
proof -
  have nxt: "unat (seq + 1) = Suc (unat seq)" using room by (simp add: unat_inc)
  have other: "pm_deadline_key q \<noteq> (d, seq)" if "m k = Some q" for k q using indexedD(3)[OF idx that] by auto
  show ?thesis
  proof (rule indexedI)
    fix row k assume "bm_get (bm_insert (d, seq) key rows) row = Some k"
    then show "\<exists>q. (m(key \<mapsto> p)) k = Some q \<and> pm_deadline_key q = row"
      using indexedD(1)[OF idx, of row k] assms(2) p by (auto split: if_splits)
  next
    fix k q assume "(m(key \<mapsto> p)) k = Some q"
    then show "bm_get (bm_insert (d, seq) key rows) (pm_deadline_key q) = Some k" "unat (snd (pm_deadline_key q)) < unat (seq + 1)"
      using indexedD(2,3)[OF idx, of k q] other[of k q] p by (auto simp: nxt split: if_splits)
  qed
qed

lemma indexed_refold:
  assumes idx: "indexed m rows seq" and "m key = Some p" and "pm_deadline_key p' = pm_deadline_key p"
  shows "indexed (m(key \<mapsto> p')) rows seq"
proof (rule indexedI)
  fix row k assume "bm_get rows row = Some k"
  then show "\<exists>q. (m(key \<mapsto> p')) k = Some q \<and> pm_deadline_key q = row" using indexedD(1)[OF idx, of row k] assms(2,3) by auto
next
  fix k q assume "(m(key \<mapsto> p')) k = Some q"
  then show "bm_get rows (pm_deadline_key q) = Some k" "unat (snd (pm_deadline_key q)) < unat seq"
    using indexedD(2,3)[OF idx, of k q] indexedD(2,3)[OF idx assms(2)] assms(3) by (auto split: if_splits)
qed

text \<open>Keys taken out together with their rows.\<close>

lemma indexed_drop:
  assumes idx: "indexed m rows seq"
    and rows: "\<And>row. bm_get rows' row = (case bm_get rows row of Some k \<Rightarrow> if k \<in> gone then None else Some k | None \<Rightarrow> None)"
    and m': "m' = (\<lambda>k. if k \<in> gone then None else m k)"
  shows "indexed m' rows' seq"
proof (rule indexedI)
  fix row k assume "bm_get rows' row = Some k"
  then have "bm_get rows row = Some k" "k \<notin> gone" unfolding rows by (auto split: option.splits if_splits)
  then show "\<exists>p. m' k = Some p \<and> pm_deadline_key p = row" using indexedD(1)[OF idx] by (simp add: m')
next
  fix k p assume "m' k = Some p"
  then have "m k = Some p" "k \<notin> gone" by (auto simp: m' split: if_splits)
  then show "bm_get rows' (pm_deadline_key p) = Some k" "unat (snd (pm_deadline_key p)) < unat seq"
    using indexedD(2,3)[OF idx] by (auto simp: rows)
qed

lemma pg_new_ok [simp]: "pg_ok pending_stripe_new"
  by (simp add: pg_ok_def indexed_def pending_stripe_new_def)

lemma pg_insert_ok:
  assumes "pg_ok s" and "map_of (pg_entries s) key = None" and "pg_next_seq s \<noteq> u64_max" and "pm_deadline_key p = (d, pg_next_seq s)"
  shows "pg_ok (s\<lparr>pg_entries := AList.update key p (pg_entries s), pg_next_seq := pg_next_seq s + 1,
    pg_by_deadline := bm_insert (d, pg_next_seq s) key (pg_by_deadline s)\<rparr>)"
  using assms indexed_insert[of "map_of (pg_entries s)" _ _ key p d] by (simp add: pg_ok_def distinct_update update_conv'[abs_def] fun_upd_def)

lemma pg_refold_ok:
  "pg_ok s \<Longrightarrow> map_of (pg_entries s) key = Some p \<Longrightarrow> pm_deadline_key p' = pm_deadline_key p \<Longrightarrow>
   pg_ok (s\<lparr>pg_entries := AList.update key p' (pg_entries s)\<rparr>)"
  using indexed_refold[of "map_of (pg_entries s)" _ _ key p p'] by (auto simp: pg_ok_def distinct_update update_conv')

lemma delete_filter: "AList.delete k xs = filter (\<lambda>x. fst x \<noteq> k) xs"
  by (auto simp: AList.delete_eq intro!: filter_cong)

lemma length_delete: "distinct (map fst xs) \<Longrightarrow> map_of xs k = Some v \<Longrightarrow> Suc (length (AList.delete k xs)) = length xs"
proof (induction xs)
  case (Cons x xs)
  then show ?case by (cases x) (auto split: if_splits simp: delete_id)
qed simp

lemma pending_remove_exact:
  assumes ok: "pg_ok s" and rm: "pending_remove key s = (taken, s')"
  shows "pg_ok s' \<and> taken = map_of (pg_entries s) key \<and>
    length (pg_entries s) = length (pg_entries s') + (if taken = None then 0 else 1) \<and>
    set (pg_entries s') = {x \<in> set (pg_entries s). fst x \<noteq> key} \<and> pg_next_seq s' = pg_next_seq s"
proof (cases "map_of (pg_entries s) key")
  case None
  then have "s' = s" "taken = None" using rm by (simp_all add: pending_remove_def)
  moreover have "{x \<in> set (pg_entries s). fst x \<noteq> key} = set (pg_entries s)" using None by (auto simp: map_of_eq_None_iff)
  ultimately show ?thesis using ok None by simp
next
  case (Some p)
  have d: "distinct (map fst (pg_entries s))" and idx: "indexed (map_of (pg_entries s)) (pg_by_deadline s) (pg_next_seq s)"
    using ok by (auto simp: pg_ok_def)
  have s': "s' = s\<lparr>pg_entries := AList.delete key (pg_entries s), pg_by_deadline := bm_remove (pm_deadline_key p) (pg_by_deadline s)\<rparr>"
    and t: "taken = Some p" using rm Some by (simp_all add: pending_remove_def)
  have "indexed (map_of (AList.delete key (pg_entries s))) (bm_remove (pm_deadline_key p) (pg_by_deadline s)) (pg_next_seq s)"
  proof (rule indexed_drop[OF idx, where gone = "{key}"])
    fix row
    have "bm_get (pg_by_deadline s) row = Some key \<longleftrightarrow> row = pm_deadline_key p"
      using indexedD(1)[OF idx, of row key] indexedD(2)[OF idx Some] Some by auto
    then show "bm_get (bm_remove (pm_deadline_key p) (pg_by_deadline s)) row =
        (case bm_get (pg_by_deadline s) row of Some k \<Rightarrow> if k \<in> {key} then None else Some k | None \<Rightarrow> None)"
      by (auto split: option.split)
  qed (auto simp: delete_conv')
  moreover have "set (AList.delete key (pg_entries s)) = {x \<in> set (pg_entries s). fst x \<noteq> key}" by (simp add: delete_filter)
  ultimately show ?thesis using Some d length_delete[OF d Some] by (simp add: s' t pg_ok_def distinct_delete)
qed

text \<open>The rows whose window has closed are a prefix of the index.\<close>

lemma take_entries_exact:
  assumes "distinct (map fst xs)" and "distinct ks" and "\<forall>k \<in> set ks. map_of xs k \<noteq> None"
  shows "take_entries ks xs = (map (\<lambda>k. (k, the (map_of xs k))) ks, filter (\<lambda>x. fst x \<notin> set ks) xs)"
  using assms
proof (induction ks arbitrary: xs)
  case (Cons k ks)
  obtain p where p: "map_of xs k = Some p" using Cons.prems(3) by auto
  have "take_entries ks (AList.delete k xs) =
      (map (\<lambda>k'. (k', the (map_of (AList.delete k xs) k'))) ks, filter (\<lambda>x. fst x \<notin> set ks) (AList.delete k xs))"
    using Cons.prems by (intro Cons.IH) (auto simp: distinct_delete delete_conv')
  moreover have "map (\<lambda>k'. (k', the (map_of (AList.delete k xs) k'))) ks = map (\<lambda>k'. (k', the (map_of xs k'))) ks"
    using Cons.prems(2) by (auto simp: delete_conv')
  ultimately show ?case using p by (simp add: delete_filter conj_commute)
qed simp

lemma fold_remove_get:
  "bm_get (fold (\<lambda>(row, _). bm_remove row) rs m) row = (if row \<in> fst ` set rs then None else bm_get m row)"
  by (induction rs arbitrary: m) (auto split: if_splits)

lemma takeWhile_sorted: "sorted (map f xs) \<Longrightarrow> takeWhile (\<lambda>x. f x \<le> (t :: 'b :: linorder)) xs = filter (\<lambda>x. f x \<le> t) xs"
proof (induction xs)
  case (Cons x xs)
  then have "\<not> f x \<le> t \<Longrightarrow> filter (\<lambda>x. f x \<le> t) xs = []" by (auto simp: filter_empty_conv intro: order_trans)
  with Cons show ?case by simp
qed simp

lemma map_of_filter_fst: "map_of (filter (\<lambda>x. fst x \<notin> S) xs) k = (if k \<in> S then None else map_of xs k)"
  by (induction xs) auto

definition is_due :: "u64 \<Rightarrow> 'k \<times> 'v pending_merge \<Rightarrow> bool" where
  "is_due now x \<longleftrightarrow> fst (pm_deadline_key (snd x)) \<le> now"

lemma due_of_exact:
  assumes ok: "pg_ok s" and due: "due_of now s = (due, s')"
  shows "pg_ok s' \<and> set due = {x \<in> set (pg_entries s). is_due now x} \<and> pg_entries s' = filter (\<lambda>x. \<not> is_due now x) (pg_entries s) \<and>
    sorted (map (pm_deadline_key \<circ> snd) due) \<and> distinct (map fst due) \<and> pg_next_seq s' = pg_next_seq s"
proof -
  let ?es = "pg_entries s" and ?rows = "pg_by_deadline s"
  have d: "distinct (map fst ?es)" and idx: "indexed (map_of ?es) ?rows (pg_next_seq s)" using ok by (auto simp: pg_ok_def)
  define rs where "rs = filter (\<lambda>r. fst (fst r) \<le> now) (bm_entries ?rows)"
  have sorted: "sorted_wrt (<) (map fst (bm_entries ?rows))" using sorted_keys_bm_entries[of ?rows] by (simp add: sorted_keys_def)
  have "sorted (map (fst \<circ> fst) (bm_entries ?rows))"
    using sorted by (simp add: sorted_wrt_map) (rule sorted_wrt_mono_rel[rotated], assumption, auto simp: less_prod_def)
  then have tw: "takeWhile (\<lambda>((deadline_ms, _), _). merge_window_elapsed now deadline_ms) (bm_entries ?rows) = rs"
    using takeWhile_sorted[of "fst \<circ> fst" "bm_entries ?rows" now] by (simp add: rs_def merge_window_elapsed_def case_prod_beta')
  have rowkey: "(row, k) \<in> set rs \<longleftrightarrow> (\<exists>p. map_of ?es k = Some p \<and> pm_deadline_key p = row \<and> fst row \<le> now)" for row k
    unfolding rs_def using indexedD(1)[OF idx, of row k] indexedD(2)[OF idx] by (auto simp: in_bm_entries_iff)
  have dist: "distinct (map snd rs)"
  proof -
    have "distinct (map fst (bm_entries ?rows))" by (rule sorted_keys_distinct) simp
    then have "distinct rs" by (simp add: rs_def distinct_map)
    moreover have "inj_on snd (set rs)" by (auto simp: inj_on_def rowkey)
    ultimately show ?thesis by (simp add: distinct_map)
  qed
  have keys: "\<forall>k \<in> set (map snd rs). map_of ?es k \<noteq> None" using rowkey by fastforce
  have dk: "k \<in> snd ` set rs \<longleftrightarrow> is_due now (k, p)" if "(k, p) \<in> set ?es" for k p
  proof -
    have "map_of ?es k = Some p" using that d by simp
    then have "(\<exists>row. (row, k) \<in> set rs) \<longleftrightarrow> is_due now (k, p)" unfolding rowkey is_due_def by auto
    moreover have "k \<in> snd ` set rs \<longleftrightarrow> (\<exists>row. (row, k) \<in> set rs)" by force
    ultimately show ?thesis by simp
  qed
  have out: "due = map (\<lambda>k. (k, the (map_of ?es k))) (map snd rs)"
    "s' = s\<lparr>pg_by_deadline := fold (\<lambda>(row, _). bm_remove row) rs ?rows, pg_entries := filter (\<lambda>x. fst x \<notin> set (map snd rs)) ?es\<rparr>"
    using due take_entries_exact[OF d dist keys] by (simp_all add: due_of_def drain_due_deadlines_def tw Let_def)
  have es': "filter (\<lambda>x. fst x \<notin> set (map snd rs)) ?es = filter (\<lambda>x. \<not> is_due now x) ?es"
  proof (rule filter_cong[OF refl])
    fix x assume "x \<in> set ?es"
    then show "fst x \<notin> set (map snd rs) \<longleftrightarrow> \<not> is_due now x" using dk[of "fst x" "snd x"] by simp
  qed
  have idx': "indexed (map_of (filter (\<lambda>x. fst x \<notin> set (map snd rs)) ?es)) (fold (\<lambda>(row, _). bm_remove row) rs ?rows) (pg_next_seq s)"
  proof (rule indexed_drop[OF idx, where gone = "set (map snd rs)"])
    fix row
    have "row \<in> fst ` set rs \<longleftrightarrow> (\<exists>k. (row, k) \<in> set rs)" by force
    moreover have "(row, k) \<in> set rs \<longleftrightarrow> bm_get ?rows row = Some k \<and> k \<in> set (map snd rs)" for k
    proof
      assume in_rs: "(row, k) \<in> set rs"
      then have "bm_get ?rows row = Some k" by (simp add: rs_def in_bm_entries_iff)
      moreover have "k \<in> set (map snd rs)" using imageI[OF in_rs, of snd] by simp
      ultimately show "bm_get ?rows row = Some k \<and> k \<in> set (map snd rs)" ..
    next
      assume "bm_get ?rows row = Some k \<and> k \<in> set (map snd rs)"
      then obtain row' p where "bm_get ?rows row = Some k" "(row', k) \<in> set rs" by auto
      then show "(row, k) \<in> set rs" using rowkey[of row' k] rowkey[of row k] indexedD(1)[OF idx, of row k] by auto
    qed
    ultimately show "bm_get (fold (\<lambda>(row, _). bm_remove row) rs ?rows) row =
        (case bm_get ?rows row of Some k \<Rightarrow> if k \<in> set (map snd rs) then None else Some k | None \<Rightarrow> None)"
      unfolding fold_remove_get by (auto split: option.split)
  qed (auto simp: fun_eq_iff map_of_filter_fst)
  have in_due: "x \<in> set due \<longleftrightarrow> x \<in> set ?es \<and> is_due now x" for x
  proof -
    obtain k p where x: "x = (k, p)" by fastforce
    have "x \<in> set due \<longleftrightarrow> k \<in> snd ` set rs \<and> map_of ?es k = Some p" using keys by (force simp: out x)
    also have "\<dots> \<longleftrightarrow> x \<in> set ?es \<and> is_due now x" using d dk[of k p] by (auto simp: x)
    finally show ?thesis .
  qed
  have "map (pm_deadline_key \<circ> snd) due = map fst rs" using rowkey by (auto simp: out)
  moreover have "sorted (map fst rs)" using strict_sorted_imp_sorted[OF sorted] by (simp add: rs_def sorted_filter)
  moreover have "map fst due = map snd rs" by (simp add: out comp_def)
  ultimately show ?thesis using idx' d es' dist in_due by (auto simp: out(2) pg_ok_def distinct_map_filter)
qed

section \<open>Flushes of a shard\<close>

definition with_pending :: "(nat \<Rightarrow> ('k, 'v) pending_merge_stripe) \<Rightarrow> nat \<Rightarrow> ('k, 'v) shard \<Rightarrow> ('k, 'v) shard" where
  "with_pending pm n sd = sd\<lparr>sd_pending_merges := pm, sd_pending_merge_count := n\<rparr>"

lemma with_pending_simps [simp]:
  "sd_pending_merges (with_pending pm n sd) = pm" "sd_pending_merge_count (with_pending pm n sd) = n"
  "with_pending pm n (with_pending pm' n' sd) = with_pending pm n sd"
  "with_pending (sd_pending_merges sd) (sd_pending_merge_count sd) sd = sd"
  "sd_engine (with_pending pm n sd) = sd_engine sd" "sd_fan_out (with_pending pm n sd) = sd_fan_out sd"
  "owns_key e kb (with_pending pm n sd) = owns_key e kb sd" "sd_skew_hold (with_pending pm n sd) = sd_skew_hold sd"
  "sd_now (with_pending pm n sd) = sd_now sd" "sd_resolver (with_pending pm n sd) = sd_resolver sd"
  "sd_tombstone_ttl_ms (with_pending pm n sd) = sd_tombstone_ttl_ms sd" "sd_tombstone_max_ttl_ms (with_pending pm n sd) = sd_tombstone_max_ttl_ms sd"
  "(with_pending pm n sd)\<lparr>sd_engine := g\<rparr> = with_pending pm n (sd\<lparr>sd_engine := g\<rparr>)"
  by (simp_all add: with_pending_def owns_key_def sd_resolver_def)

lemma with_pending_steps [simp]:
  "send_event ev (with_pending pm n sd) = with_pending pm n (send_event ev sd)"
  "push_fan_out item (with_pending pm n sd) = (fst (push_fan_out item sd), with_pending pm n (snd (push_fan_out item sd)))"
  by (simp_all add: with_pending_def send_event_def push_fan_out_def split: prod.split)

lemma with_pending_outcome [simp]:
  "handle_apply_outcome e cd out From_Local notify (with_pending pm n sd) = with_pending pm n (handle_apply_outcome e cd out From_Local notify sd)"
  by (simp add: handle_apply_outcome_def Let_def split: apply_outcome.split)

lemma with_pending_apply [simp]:
  "snd (apply_or_forward e cd key kb ver incoming (with_pending pm n sd)) = with_pending pm n (snd (apply_or_forward e cd key kb ver incoming sd))"
  by (simp add: apply_or_forward_def shard_apply_def forward_write_def Let_def split: prod.split incoming.split)

lemma with_pending_flush [simp]:
  "flush_one_pending_merge e cd key p (with_pending pm n sd) = with_pending pm n (flush_one_pending_merge e cd key p sd)"
  by (simp add: flush_one_pending_merge_def)

definition flush_list :: "externs \<Rightarrow> ('k, 'v) codec \<Rightarrow> ('k \<times> 'v pending_merge) list \<Rightarrow> ('k, 'v) shard \<Rightarrow> ('k, 'v) shard" where
  "flush_list e cd folds sd = fold (\<lambda>(key, p). flush_one_pending_merge e cd key p) folds sd"

lemma flush_list_with_pending [simp]: "flush_list e cd folds (with_pending pm n sd) = with_pending pm n (flush_list e cd folds sd)"
  by (induction folds arbitrary: sd) (auto simp: flush_list_def)

lemma flush_list_append: "flush_list e cd (xs @ ys) sd = flush_list e cd ys (flush_list e cd xs sd)"
  by (simp add: flush_list_def)

lemma flush_list_pending [simp]:
  "sd_pending_merges (flush_list e cd folds sd) = sd_pending_merges sd" "sd_pending_merge_count (flush_list e cd folds sd) = sd_pending_merge_count sd"
proof -
  have "flush_list e cd folds (with_pending (sd_pending_merges sd) (sd_pending_merge_count sd) sd) =
      with_pending (sd_pending_merges sd) (sd_pending_merge_count sd) (flush_list e cd folds sd)" by (rule flush_list_with_pending)
  then have "flush_list e cd folds sd = with_pending (sd_pending_merges sd) (sd_pending_merge_count sd) (flush_list e cd folds sd)" by simp
  then show "sd_pending_merges (flush_list e cd folds sd) = sd_pending_merges sd" "sd_pending_merge_count (flush_list e cd folds sd) = sd_pending_merge_count sd"
    by (metis with_pending_simps(1)) (metis \<open>flush_list e cd folds sd = with_pending _ _ _\<close> with_pending_simps(2))
qed

lemma flush_stripe_eq:
  "flush_stripe e cd select i sd =
     with_pending ((sd_pending_merges sd)(i := snd (select (sd_pending_merges sd i)))) (sd_pending_merge_count sd - length (fst (select (sd_pending_merges sd i))))
       (flush_list e cd (fst (select (sd_pending_merges sd i))) sd)"
proof -
  have "sd\<lparr>sd_pending_merges := pm, sd_pending_merge_count := n\<rparr> = with_pending pm n sd" for pm n by (simp add: with_pending_def)
  then show ?thesis by (simp add: flush_stripe_def flush_list_def[symmetric] split: prod.split)
qed

lemma flush_stripes_eq:
  assumes "distinct is"
  shows "fold (flush_stripe e cd select) is sd =
    with_pending (\<lambda>i. if i \<in> set is then snd (select (sd_pending_merges sd i)) else sd_pending_merges sd i)
      (sd_pending_merge_count sd - (\<Sum>i\<leftarrow>is. length (fst (select (sd_pending_merges sd i)))))
      (flush_list e cd (concat (map (\<lambda>i. fst (select (sd_pending_merges sd i))) is)) sd)"
  using assms
proof (induction "is" arbitrary: sd)
  case Nil
  show ?case using with_pending_simps(4)[of sd] by (simp add: flush_list_def)
next
  case (Cons i "is")
  let ?pm = "sd_pending_merges sd" and ?sel = "\<lambda>j. fst (select (sd_pending_merges sd j))"
  define sd1 where "sd1 = flush_stripe e cd select i sd"
  have sd1: "sd1 = with_pending (?pm(i := snd (select (?pm i)))) (sd_pending_merge_count sd - length (?sel i)) (flush_list e cd (?sel i) sd)"
    unfolding sd1_def by (rule flush_stripe_eq)
  have pm1: "sd_pending_merges sd1 j = ?pm j" if "j \<in> set is" for j using that Cons.prems by (auto simp: sd1)
  have lists: "map (\<lambda>j. fst (select (sd_pending_merges sd1 j))) is = map ?sel is"
    "map (\<lambda>j. length (fst (select (sd_pending_merges sd1 j)))) is = map (\<lambda>j. length (?sel j)) is" using pm1 by auto
  have pms: "(\<lambda>j. if j \<in> set is then snd (select (sd_pending_merges sd1 j)) else sd_pending_merges sd1 j) =
      (\<lambda>j. if j \<in> set (i # is) then snd (select (?pm j)) else ?pm j)" using pm1 by (auto simp: fun_eq_iff) (auto simp: sd1)
  have "fold (flush_stripe e cd select) (i # is) sd = fold (flush_stripe e cd select) is sd1" by (simp add: sd1_def)
  also have "\<dots> = with_pending (\<lambda>j. if j \<in> set is then snd (select (sd_pending_merges sd1 j)) else sd_pending_merges sd1 j)
      (sd_pending_merge_count sd1 - (\<Sum>j\<leftarrow>is. length (fst (select (sd_pending_merges sd1 j)))))
      (flush_list e cd (concat (map (\<lambda>j. fst (select (sd_pending_merges sd1 j))) is)) sd1)"
    using Cons.prems by (intro Cons.IH) simp
  also have "\<dots> = with_pending (\<lambda>j. if j \<in> set (i # is) then snd (select (?pm j)) else ?pm j)
      (sd_pending_merge_count sd - (\<Sum>j\<leftarrow>i # is. length (?sel j))) (flush_list e cd (concat (map ?sel (i # is))) sd)"
    unfolding lists pms by (simp add: sd1 flush_list_append)
  finally show ?case .
qed

definition pending_ok :: "('k, 'v) shard \<Rightarrow> bool" where
  "pending_ok sd \<longleftrightarrow> (\<forall>i. pg_ok (sd_pending_merges sd i)) \<and>
     sd_pending_merge_count sd = (\<Sum>i\<leftarrow>[0..<bucket_count]. length (pg_entries (sd_pending_merges sd i)))"

text \<open>The folds that are due, stripe by stripe, each stripe's in the order of its deadlines.\<close>

definition due_folds :: "u64 \<Rightarrow> ('k, 'v) shard \<Rightarrow> ('k \<times> 'v pending_merge) list" where
  "due_folds now sd = concat (map (\<lambda>i. fst (due_of now (sd_pending_merges sd i))) [0..<bucket_count])"

lemma due_length:
  assumes "pg_ok s"
  shows "length (fst (due_of now s)) + length (pg_entries (snd (due_of now s))) = length (pg_entries s)"
proof -
  obtain due s' where d: "due_of now s = (due, s')" by fastforce
  note ex = due_of_exact[OF assms d]
  have "distinct (pg_entries s)" using assms by (simp add: pg_ok_def distinct_map)
  moreover have "distinct due" using ex by (simp add: distinct_map)
  ultimately have "length due = length (filter (is_due now) (pg_entries s))"
    using ex by (metis distinct_card distinct_filter set_filter)
  then show ?thesis using ex by (simp add: d sum_length_filter_compl)
qed

lemma guarded_lengths:
  "(\<Sum>i\<leftarrow>[0..<n]. length (pg_entries (if i < n then f i else h i))) = (\<Sum>i\<leftarrow>[0..<n]. length (pg_entries (f i)))"
  by (intro arg_cong[where f = sum_list] map_cong) auto

lemma flush_due_eq:
  assumes "pending_ok sd"
  shows "flush_due_pending_merges e cd now sd =
      with_pending (\<lambda>i. if i < bucket_count then snd (due_of now (sd_pending_merges sd i)) else sd_pending_merges sd i)
        (sd_pending_merge_count sd - length (due_folds now sd)) (flush_list e cd (due_folds now sd) sd)"
    and "pending_ok (flush_due_pending_merges e cd now sd)"
proof -
  have len: "length (due_folds now sd) = (\<Sum>i\<leftarrow>[0..<bucket_count]. length (fst (due_of now (sd_pending_merges sd i))))"
    by (simp add: due_folds_def length_concat comp_def)
  show eq: "flush_due_pending_merges e cd now sd =
      with_pending (\<lambda>i. if i < bucket_count then snd (due_of now (sd_pending_merges sd i)) else sd_pending_merges sd i)
        (sd_pending_merge_count sd - length (due_folds now sd)) (flush_list e cd (due_folds now sd) sd)"
    unfolding flush_due_pending_merges_def len by (subst flush_stripes_eq) (simp_all add: due_folds_def)
  have ok: "pg_ok (sd_pending_merges sd i)" for i using assms by (simp add: pending_ok_def)
  have "pg_ok (snd (due_of now (sd_pending_merges sd i)))" for i using due_of_exact[OF ok[of i]] by (metis prod.collapse)
  moreover have "(\<Sum>i\<leftarrow>[0..<bucket_count]. length (pg_entries (sd_pending_merges sd i))) =
      (\<Sum>i\<leftarrow>[0..<bucket_count]. length (fst (due_of now (sd_pending_merges sd i)))) +
      (\<Sum>i\<leftarrow>[0..<bucket_count]. length (pg_entries (snd (due_of now (sd_pending_merges sd i)))))"
    by (simp add: sum_list_addf[symmetric] due_length[OF ok])
  ultimately show "pending_ok (flush_due_pending_merges e cd now sd)"
    unfolding eq using ok assms by (simp add: pending_ok_def len guarded_lengths)
qed

section \<open>Merges\<close>

lemma fold_keeps_row: "fold_into_occupied_merge cd c p sd = Inr p' \<Longrightarrow> pm_deadline_key p' = pm_deadline_key p"
  by (auto simp: fold_into_occupied_merge_def take_contribution_def Let_def split: option.splits if_splits fold.splits winner.splits)

lemma sum_list_update_one:
  "i < n \<Longrightarrow> (\<Sum>j\<leftarrow>[0..<n]. f ((h(i := x)) j)) + f (h i) = (\<Sum>j\<leftarrow>[0..<n]. f (h j)) + (f x :: nat)"
  by (induction n) (auto simp: less_Suc_eq intro!: arg_cong[where f = sum_list])

lemma pending_ok_update:
  assumes ok: "pending_ok sd" and i: "i < bucket_count" and s: "pg_ok s"
    and n: "n + length (pg_entries (sd_pending_merges sd i)) = sd_pending_merge_count sd + length (pg_entries s)"
  shows "pending_ok (with_pending ((sd_pending_merges sd)(i := s)) n sd)"
  using ok s n sum_list_update_one[OF i, of "\<lambda>s. length (pg_entries s)" "sd_pending_merges sd" s]
  by (simp add: pending_ok_def del: upt_Suc)

lemma length_update: "distinct (map fst xs) \<Longrightarrow> length (AList.update k v xs) = (if map_of xs k = None then Suc (length xs) else length xs)"
  by (induction xs) auto

definition fold_stripe :: "externs \<Rightarrow> bytes \<Rightarrow> nat" where
  "fold_stripe e kb = stripe_index_from_hash (hash_key_bytes e kb)"

lemma fold_pending_keeps:
  assumes ok: "pending_ok sd" and room: "pg_next_seq (sd_pending_merges sd (fold_stripe e (ct_key_bytes c))) \<noteq> u64_max"
    and run: "fold_pending e cd key c sd = (r, sd')"
  shows "pending_ok sd'"
    and "r = Inr () \<Longrightarrow> \<exists>p. map_of (pg_entries (sd_pending_merges sd' (fold_stripe e (ct_key_bytes c)))) key = Some p \<and>
      fst (pm_deadline_key p) = (case map_of (pg_entries (sd_pending_merges sd (fold_stripe e (ct_key_bytes c)))) key of
         Some p0 \<Rightarrow> fst (pm_deadline_key p0) | None \<Rightarrow> merge_deadline_ms (sd_now sd) (sd_merge_window sd))"
proof -
  let ?i = "fold_stripe e (ct_key_bytes c)"
  let ?s = "sd_pending_merges sd ?i"
  have i: "?i < bucket_count" by (simp add: fold_stripe_def)
  have s: "pg_ok ?s" using ok by (simp add: pending_ok_def)
  then have d: "distinct (map fst (pg_entries ?s))" by (simp add: pg_ok_def)
  have upd: "sd\<lparr>sd_pending_merges := pm, sd_pending_merge_count := n\<rparr> = with_pending pm n sd"
    "sd\<lparr>sd_pending_merges := pm\<rparr> = with_pending pm (sd_pending_merge_count sd) sd"
    "(with_pending pm n sd)\<lparr>sd_pending_merge_count := n'\<rparr> = with_pending pm n' sd" for pm n n'
    by (simp_all add: with_pending_def)
  have "pending_ok sd' \<and> (r = Inr () \<longrightarrow> (\<exists>p. map_of (pg_entries (sd_pending_merges sd' ?i)) key = Some p \<and>
      fst (pm_deadline_key p) = (case map_of (pg_entries ?s) key of
         Some p0 \<Rightarrow> fst (pm_deadline_key p0) | None \<Rightarrow> merge_deadline_ms (sd_now sd) (sd_merge_window sd))))"
  proof (cases "map_of (pg_entries ?s) key")
    case None
    define p where "p = \<lparr>pm_key_bytes = ct_key_bytes c, pm_value = ct_value c, pm_encoded = ct_encoded c, pm_expires = ct_expires c,
      pm_ver = ct_ver c, pm_deadline_key = (merge_deadline_ms (sd_now sd) (sd_merge_window sd), pg_next_seq ?s)\<rparr>"
    define s' where "s' = ?s\<lparr>pg_entries := AList.update key p (pg_entries ?s), pg_next_seq := pg_next_seq ?s + 1,
      pg_by_deadline := bm_insert (merge_deadline_ms (sd_now sd) (sd_merge_window sd), pg_next_seq ?s) key (pg_by_deadline ?s)\<rparr>"
    have sd': "sd' = with_pending ((sd_pending_merges sd)(?i := s')) (sd_pending_merge_count sd + 1) sd" "r = Inr ()"
      using run None by (simp_all add: fold_pending_def Let_def fold_stripe_def[symmetric] upd s'_def p_def)
    have "pg_ok s'" unfolding s'_def by (rule pg_insert_ok[OF s None room]) (simp add: p_def)
    moreover have "length (pg_entries s') = Suc (length (pg_entries ?s))" using None d by (simp add: s'_def length_update)
    ultimately have "pending_ok sd'" unfolding sd' by (intro pending_ok_update[OF ok i]) simp_all
    then show ?thesis using None by (simp add: sd' s'_def update_conv' p_def)
  next
    case (Some p0)
    show ?thesis
    proof (cases "fold_into_occupied_merge cd c p0 sd")
      case (Inl err)
      then show ?thesis using run Some ok by (auto simp: fold_pending_def Let_def fold_stripe_def[symmetric])
    next
      case (Inr p)
      define s' where "s' = ?s\<lparr>pg_entries := AList.update key p (pg_entries ?s)\<rparr>"
      have row: "pm_deadline_key p = pm_deadline_key p0" using fold_keeps_row[OF Inr] .
      have sd': "sd' = with_pending ((sd_pending_merges sd)(?i := s')) (sd_pending_merge_count sd) sd" "r = Inr ()"
        using run Some Inr by (simp_all add: fold_pending_def Let_def fold_stripe_def[symmetric] upd s'_def)
      have "pg_ok s'" unfolding s'_def by (rule pg_refold_ok[OF s Some row])
      moreover have "length (pg_entries s') = length (pg_entries ?s)" using Some d by (simp add: s'_def length_update)
      ultimately have "pending_ok sd'" unfolding sd' by (intro pending_ok_update[OF ok i]) simp_all
      then show ?thesis using Some row by (simp add: sd' s'_def update_conv')
    qed
  qed
  then show "pending_ok sd'" "r = Inr () \<Longrightarrow> \<exists>p. map_of (pg_entries (sd_pending_merges sd' ?i)) key = Some p \<and>
      fst (pm_deadline_key p) = (case map_of (pg_entries ?s) key of
         Some p0 \<Rightarrow> fst (pm_deadline_key p0) | None \<Rightarrow> merge_deadline_ms (sd_now sd) (sd_merge_window sd))"
    by blast+
qed

section \<open>Properties\<close>

text \<open>
  C16: a merge into a window that is open. On a shard whose folds and deadlines are in step, a merge
  that is accepted with a coalescing window leaves them in step and its fold pending, under the
  deadline of the first contribution: later ones never extend the window. Once the wall clock reaches
  that deadline a flush takes exactly the folds that are due, this one among them, applies or forwards
  each once, keeps every other fold, and leaves folds, deadlines and count in step again.
\<close>

theorem merge_flushed_at_first_deadline:
  assumes "pending_ok sd" and "cd_encode_key cd key = Some kb" and "\<not> window_is_zero (sd_merge_window sd)"
    and "pg_next_seq (sd_pending_merges sd (fold_stripe e kb)) \<noteq> u64_max"
    and "merge_expiring e cd key v ttl sd = (Inr (), sd')"
    and "(case map_of (pg_entries (sd_pending_merges sd (fold_stripe e kb))) key of
           Some p0 \<Rightarrow> fst (pm_deadline_key p0) | None \<Rightarrow> merge_deadline_ms (sd_now sd) (sd_merge_window sd)) \<le> now"
  shows "pending_ok sd' \<and> (\<exists>p. map_of (pg_entries (sd_pending_merges sd' (fold_stripe e kb))) key = Some p \<and> (key, p) \<in> set (due_folds now sd')) \<and>
    set (due_folds now sd') = {x. is_due now x \<and> (\<exists>i < bucket_count. x \<in> set (pg_entries (sd_pending_merges sd' i)))} \<and>
    (\<exists>pm n. flush_due_pending_merges e cd now sd' = with_pending pm n (flush_list e cd (due_folds now sd') sd')) \<and>
    pending_ok (flush_due_pending_merges e cd now sd') \<and>
    (\<forall>i < bucket_count. pg_entries (sd_pending_merges (flush_due_pending_merges e cd now sd') i) =
       filter (\<lambda>x. \<not> is_due now x) (pg_entries (sd_pending_merges sd' i)))"
proof -
  obtain c sd1 where c: "ct_key_bytes c = kb" and f: "fold_pending e cd key c sd1 = (Inr (), sd')"
    and sd1: "sd_pending_merges sd1 = sd_pending_merges sd" "sd_pending_merge_count sd1 = sd_pending_merge_count sd"
      "sd_now sd1 = sd_now sd" "sd_merge_window sd1 = sd_merge_window sd"
  proof -
    obtain clk ver enc where st: "stamp_local sd = (ver, sd\<lparr>sd_clock := clk\<rparr>)" and enc: "cd_encode_value cd v = Some enc"
      using assms(2,5) by (auto simp: merge_expiring_def merge_contribution_def stamp_local_def split: prod.splits option.splits sum.splits)
    show thesis
      by (rule that[of "\<lparr>ct_key_bytes = kb, ct_value = v, ct_encoded = enc, ct_ver = ver, ct_expires = expiry_for (wall_ms ver) ttl (sd\<lparr>sd_clock := clk\<rparr>)\<rparr>"
            "sd\<lparr>sd_clock := clk\<rparr>"])
        (use assms(2,3,5) st enc in \<open>simp_all add: merge_expiring_def merge_contribution_def Let_def split: sum.splits if_splits\<close>)
  qed
  have ok1: "pending_ok sd1" using assms(1) by (simp add: pending_ok_def sd1)
  note kept = fold_pending_keeps[OF ok1 _ f, unfolded c sd1, OF assms(4)]
  obtain p where p: "map_of (pg_entries (sd_pending_merges sd' (fold_stripe e kb))) key = Some p" "is_due now (key, p)"
    using kept(2) assms(6) by (auto simp: is_due_def)
  have ok: "pg_ok (sd_pending_merges sd' i)" for i using kept(1) by (simp add: pending_ok_def)
  have due: "set (due_folds now sd') = {x. is_due now x \<and> (\<exists>i < bucket_count. x \<in> set (pg_entries (sd_pending_merges sd' i)))}"
  proof -
    have "set (fst (due_of now (sd_pending_merges sd' i))) = {x \<in> set (pg_entries (sd_pending_merges sd' i)). is_due now x}" for i
      using due_of_exact[OF ok[of i]] by (metis prod.collapse)
    then show ?thesis by (auto simp: due_folds_def)
  qed
  have left: "pg_entries (snd (due_of now (sd_pending_merges sd' i))) = filter (\<lambda>x. \<not> is_due now x) (pg_entries (sd_pending_merges sd' i))" for i
    using due_of_exact[OF ok[of i]] by (metis prod.collapse)
  have "fold_stripe e kb < bucket_count" by (simp add: fold_stripe_def)
  then have "(key, p) \<in> set (due_folds now sd')" unfolding due using p(2) map_of_SomeD[OF p(1)] by blast
  then show ?thesis using kept(1) p(1) due flush_due_eq[OF kept(1), of e cd now] by (auto simp: left)
qed

definition demo_merging :: "(bytes, bytes) shard" where
  "demo_merging = (demo_shard (NodeId 1))\<lparr>sd_merge_window := \<lparr>secs = 1, nanos = 0\<rparr>\<rparr>"

lemmas demo_merging_defs = demo_merging_def demo_shard_def shard_new_def demo_config_def demo_codec_def pending_stripe_new_def

theorem merge_flushed_at_first_deadline_witness:
  "\<exists>sd'. merge_expiring demo_externs demo_codec [7] [1] None demo_merging = (Inr (), sd') \<and>
     pending_ok (flush_due_pending_merges demo_externs demo_codec 5000 sd')"
proof -
  have ok: "pending_ok demo_merging" by (simp add: pending_ok_def) (simp add: demo_merging_defs pg_ok_def indexed_def)
  have key: "cd_encode_key demo_codec [7] = Some [7]" by (simp add: demo_codec_def)
  have window: "\<not> window_is_zero (sd_merge_window demo_merging)" by (simp add: window_is_zero_def demo_merging_def)
  have seq: "pg_next_seq (sd_pending_merges demo_merging (fold_stripe demo_externs [7])) \<noteq> u64_max" by (simp add: demo_merging_defs)
  obtain clk ver where "hlc_now (sd_clock demo_merging) (sd_now demo_merging) = (clk, ver)" by fastforce
  then have st: "stamp_local demo_merging = (ver, demo_merging\<lparr>sd_clock := clk\<rparr>)" by (simp add: stamp_local_def)
  have room: "check_ceiling demo_merging = Inr ()" by (simp add: demo_merging_defs at_ceiling_def check_ceiling_def)
  have frame: "check_value_frame (length [7 :: 8 word]) (length [1 :: 8 word]) demo_merging = Inr ()"
    by (simp add: check_value_frame_def demo_merging_defs replicate_frame_len_def raw_frame_header_len_def record_header_len_def)
  have val: "cd_encode_value demo_codec [1] = Some [1]" by (simp add: demo_codec_def)
  have none: "pg_entries (sd_pending_merges demo_merging i) = []" for i by (simp add: demo_merging_defs)
  have "fst (merge_expiring demo_externs demo_codec [7] [1] None demo_merging) = Inr ()"
    using room key frame val window none
    by (simp add: merge_expiring_def merge_contribution_def st Let_def fold_pending_def del: length_Cons list.size)
  then obtain sd' where m: "merge_expiring demo_externs demo_codec [7] [1] None demo_merging = (Inr (), sd')"
    by (metis prod.collapse)
  have "(case map_of (pg_entries (sd_pending_merges demo_merging (fold_stripe demo_externs [7]))) [7] of
      Some p0 \<Rightarrow> fst (pm_deadline_key p0) | None \<Rightarrow> merge_deadline_ms (sd_now demo_merging) (sd_merge_window demo_merging)) \<le> 5000"
    by (simp add: demo_merging_defs merge_deadline_ms_def sat_add_def duration_ms_def as_millis_def)
  from merge_flushed_at_first_deadline[OF ok key window seq m this] m show ?thesis by blast
qed

section \<open>Closing\<close>

lemma queue_grows:
  "queue_is_open q \<Longrightarrow> fq_accepting q \<Longrightarrow> fq_pending (snd (queue_push x q)) = fq_pending q @ [x]"
  "queue_is_open (snd (queue_push x q)) = queue_is_open q" "fq_accepting (snd (queue_push x q)) = fq_accepting q"
  "queue_is_open q \<Longrightarrow> fq_accepting q \<Longrightarrow> fq_pending (snd (queue_extend xs q)) = fq_pending q @ xs"
  by (simp_all add: queue_push_def queue_extend_def queue_is_open_def)

definition fold_record :: "'v pending_merge \<Rightarrow> wire_record" where
  "fold_record p = \<lparr>wr_key = pm_key_bytes p, wr_value = Some (pm_encoded p), wr_ver = pm_ver p, wr_expires = pm_expires p\<rparr>"

definition backlog_open :: "('k, 'v) shard \<Rightarrow> bool" where
  "backlog_open sd \<longleftrightarrow> queue_is_open (sd_fan_out sd) \<and> fq_accepting (sd_fan_out sd)"

lemma fan_out_pushed [simp]:
  "sd_fan_out (send_event ev sd) = sd_fan_out sd" "sd_fan_out (snd (push_fan_out item sd)) = snd (queue_push item (sd_fan_out sd))"
  "sd_fan_out (snd (extend_fan_out items sd)) = snd (queue_extend items (sd_fan_out sd))"
  by (simp_all add: send_event_def push_fan_out_def extend_fan_out_def split: prod.split)

lemma local_outcome_queue:
  assumes "backlog_open sd"
  shows "backlog_open (handle_apply_outcome e cd out From_Local True sd) \<and>
    (\<exists>items. fq_pending (sd_fan_out (handle_apply_outcome e cd out From_Local True sd)) = fq_pending (sd_fan_out sd) @ items)"
  using assms by (auto simp: backlog_open_def handle_apply_outcome_def Let_def queue_grows split: apply_outcome.split)

lemma flush_one_queue:
  assumes "backlog_open sd"
  shows "backlog_open (flush_one_pending_merge e cd key p sd) \<and> sd_skew_hold (flush_one_pending_merge e cd key p sd) = sd_skew_hold sd \<and>
    sd_ownership (flush_one_pending_merge e cd key p sd) = sd_ownership sd \<and>
    (\<exists>items. fq_pending (sd_fan_out (flush_one_pending_merge e cd key p sd)) = fq_pending (sd_fan_out sd) @ items \<and>
       (\<not> owns_key e (pm_key_bytes p) sd \<longrightarrow> items = [Forwarded (fold_record p)]))"
proof (cases "owns_key e (pm_key_bytes p) sd")
  case True
  obtain outs g where am: "apply_many e (cd_decode_value cd) arrival.Local (stripe_index_from_hash (hash_key_bytes e (pm_key_bytes p)))
      [(\<lparr>ek_hash = hash_key_bytes e (pm_key_bytes p), ek_key = key, ek_bytes = pm_key_bytes p\<rparr>, pm_ver p, Put (pm_value p) (pm_expires p) (pm_encoded p))]
      (sd_resolver sd) (sd_tombstone_ttl_ms sd) (sd_tombstone_max_ttl_ms sd) (sd_now sd) (sd_engine sd) = (outs, g)"
    by fastforce
  have run: "snd (shard_apply e cd key (pm_key_bytes p) (pm_ver p) (Put (pm_value p) (pm_expires p) (pm_encoded p)) From_Local sd) =
      handle_apply_outcome e cd (last outs) From_Local True (sd\<lparr>sd_engine := g\<rparr>)"
    by (simp add: shard_apply_def Let_def am)
  have open1: "backlog_open (sd\<lparr>sd_engine := g\<rparr>)" using assms by (simp add: backlog_open_def)
  show ?thesis
    using local_outcome_queue[OF open1, of e cd "last outs"] True run core_eq[OF core_outcome[of e cd "last outs" From_Local True "sd\<lparr>sd_engine := g\<rparr>"]]
    by (simp add: flush_one_pending_merge_def apply_or_forward_def)
next
  case False
  let ?sent = "send_event (Created key (pm_value p) From_Local) sd"
  have "flush_one_pending_merge e cd key p sd = snd (push_fan_out (Forwarded (fold_record p)) ?sent)"
    using False by (simp add: flush_one_pending_merge_def apply_or_forward_def forward_write_def fold_record_def split: prod.split)
  moreover have "sd_skew_hold (snd (push_fan_out item (send_event ev sd))) = sd_skew_hold sd"
    "sd_ownership (snd (push_fan_out item (send_event ev sd))) = sd_ownership sd" for item ev
    by (simp_all add: push_fan_out_def send_event_def split: prod.split)
  ultimately show ?thesis using assms by (simp add: backlog_open_def queue_grows)
qed

lemma flush_list_queue:
  assumes "backlog_open sd"
  shows "backlog_open (flush_list e cd folds sd) \<and> sd_skew_hold (flush_list e cd folds sd) = sd_skew_hold sd \<and>
    (\<exists>items. fq_pending (sd_fan_out (flush_list e cd folds sd)) = fq_pending (sd_fan_out sd) @ items \<and>
       (\<forall>(key, p) \<in> set folds. \<not> owns_key e (pm_key_bytes p) sd \<longrightarrow> Forwarded (fold_record p) \<in> set items))"
  using assms
proof (induction folds arbitrary: sd)
  case (Cons x folds)
  obtain key p where x: "x = (key, p)" by fastforce
  let ?sd = "flush_one_pending_merge e cd key p sd"
  note one = flush_one_queue[OF Cons.prems, of e cd key p]
  then obtain i1 where i1: "fq_pending (sd_fan_out ?sd) = fq_pending (sd_fan_out sd) @ i1" "\<not> owns_key e (pm_key_bytes p) sd \<longrightarrow> i1 = [Forwarded (fold_record p)]" by blast
  have own: "owns_key e kb ?sd = owns_key e kb sd" for kb using one by (simp add: owns_key_def)
  obtain i2 where i2: "fq_pending (sd_fan_out (flush_list e cd folds ?sd)) = fq_pending (sd_fan_out ?sd) @ i2"
    "\<forall>(key, p) \<in> set folds. \<not> owns_key e (pm_key_bytes p) sd \<longrightarrow> Forwarded (fold_record p) \<in> set i2"
    using Cons.IH[of ?sd] one by (auto simp: own)
  have step: "flush_list e cd (x # folds) sd = flush_list e cd folds ?sd" by (simp add: flush_list_def x)
  show ?case using Cons.IH[of ?sd] one i1 i2 unfolding step by (intro conjI exI[of _ "i1 @ i2"]) (auto simp: x)
qed (simp add: flush_list_def)

lemma hand_off_queue:
  assumes "backlog_open sd"
  shows "fq_pending (sd_fan_out (hand_off_skew_hold sd)) = fq_pending (sd_fan_out sd) @ map Forwarded (fst (hold_close (sd_skew_hold sd)))"
    and "sd_skew_hold (hand_off_skew_hold sd) = snd (hold_close (sd_skew_hold sd))"
    and "sd_pending_merges (hand_off_skew_hold sd) = sd_pending_merges sd"
    and "sd_engine (hand_off_skew_hold sd) = sd_engine sd"
  using assms
  by (simp_all add: hand_off_skew_hold_def Let_def backlog_open_def extend_fan_out_def queue_extend_def split: prod.split)

definition pending_folds :: "('k, 'v) shard \<Rightarrow> ('k \<times> 'v pending_merge) set" where
  "pending_folds sd = (\<Union>i < bucket_count. set (pg_entries (sd_pending_merges sd i)))"

lemma flush_all_eq:
  "flush_all_pending_merges e cd ord sd =
     with_pending (\<lambda>i. if i < bucket_count then snd (all_of ord (sd_pending_merges sd i)) else sd_pending_merges sd i)
       (sd_pending_merge_count sd - (\<Sum>i\<leftarrow>[0..<bucket_count]. length (ord (pg_entries (sd_pending_merges sd i)))))
       (flush_list e cd (concat (map (\<lambda>i. ord (pg_entries (sd_pending_merges sd i))) [0..<bucket_count])) sd)"
  unfolding flush_all_pending_merges_def by (subst flush_stripes_eq) (simp_all add: all_of_def)

text \<open>The folds of this node's keys, applied one after another as local writes, with no queue in between.\<close>

definition fold_write :: "'v pending_merge \<Rightarrow> 'v incoming" where
  "fold_write p = Put (pm_value p) (pm_expires p) (pm_encoded p)"

definition apply_owned_fold :: "externs \<Rightarrow> ('k, 'v) codec \<Rightarrow> 'k \<times> 'v pending_merge \<Rightarrow> ('k, 'v) shard \<Rightarrow> ('k, 'v) shard" where
  "apply_owned_fold e cd x sd =
     (case x of (key, p) \<Rightarrow>
        if owns_key e (pm_key_bytes p) sd then snd (shard_apply e cd key (pm_key_bytes p) (pm_ver p) (fold_write p) From_Local sd) else sd)"

lemma shard_apply_core:
  assumes "core a = core b"
  shows "core (snd (shard_apply e cd key kb ver incoming From_Local a)) = core (snd (shard_apply e cd key kb ver incoming From_Local b))"
  using core_eq[OF assms] core_resolver[OF assms] core_engine[OF assms] by (simp add: shard_apply_def Let_def split: prod.split)

lemma apply_owned_core: "core a = core b \<Longrightarrow> core (apply_owned_fold e cd x a) = core (apply_owned_fold e cd x b)"
  using core_eq[of a b] shard_apply_core[of a b] by (auto simp: apply_owned_fold_def owns_key_def split: prod.split)

lemma flush_one_core: "core (flush_one_pending_merge e cd key p sd) = core (apply_owned_fold e cd (key, p) sd)"
  by (simp add: flush_one_pending_merge_def apply_or_forward_def apply_owned_fold_def fold_write_def forward_write_def split: prod.split)
    (metis core_bookkeeping(1,2) snd_conv)

lemma flush_list_core: "core (flush_list e cd folds sd) = core (fold (apply_owned_fold e cd) folds sd)"
proof -
  have "core a = core b \<Longrightarrow> core (flush_list e cd folds a) = core (fold (apply_owned_fold e cd) folds b)" for a b
  proof (induction folds arbitrary: a b)
    case (Cons x folds)
    obtain key p where x: "x = (key, p)" by fastforce
    have "core (flush_one_pending_merge e cd key p a) = core (apply_owned_fold e cd x b)"
      using flush_one_core[of e cd key p a] apply_owned_core[OF Cons.prems, of e cd x] by (simp add: x)
    from Cons.IH[OF this] show ?case by (simp add: flush_list_def x)
  qed (simp add: flush_list_def)
  then show ?thesis by blast
qed

lemma owned_fold_lww:
  assumes sd: "engine_inv e (sd_engine sd)" "eg_max_capacity (sd_engine sd) = u64_max" "sd_raw_resolver sd = lww_resolver"
    and key: "externs_ok e" "length (pm_key_bytes p) < 2 ^ 32"
  obtains g where "core (apply_owned_fold e cd (key, p) sd) = core (sd\<lparr>sd_engine := g\<rparr>)" "engine_inv e g" "settings g = settings (sd_engine sd)"
    "registers_of e g = (if owns_key e (pm_key_bytes p) sd then lww_put (rec_write (fold_record p)) (registers_of e (sd_engine sd)) else registers_of e (sd_engine sd))"
proof (cases "owns_key e (pm_key_bytes p) sd")
  case False
  then show thesis using that[of "sd_engine sd"] sd(1) by (simp add: apply_owned_fold_def)
next
  case True
  let ?kb = "pm_key_bytes p" and ?g = "sd_engine sd"
  let ?en = "(entry_of e ?kb key, pm_ver p, fold_write p)" and ?b = "stripe_index_from_hash (hash_key_bytes e ?kb)"
  obtain outs deficit w g where run: "apply_many_in e (cd_decode_value cd) Any arrival.Local ?b [?en] lww_resolver
      (sd_tombstone_ttl_ms sd) (sd_tombstone_max_ttl_ms sd) (sd_now sd) written_default ?g = (outs, deficit, w, g)" by (metis prod_cases4)
  have en: "\<forall>en \<in> set [?en]. entry_ok e ?b (fst en)" using key by (simp add: entry_of_def entry_ok_def key_bucket_def)
  have time: "\<not> lapsed_on_arrival (batch_ctx ?g r cap ttl max_ttl now (is_peer arrival.Local) ho) (snd (snd en)) (fst (snd en))"
    for r cap ttl max_ttl now ho and en :: "('a, 'b) batch_entry"
    by (auto simp: lapsed_on_arrival_def ctx_rule_def batch_ctx_def rule_ignores_def drops_lapsed_tombstone_def is_some_and_iff is_peer_def)
  have b: "?b < bucket_count" by simp
  note batch = lww_batch[OF sd(1) b sd(2) en time run]
  have "core (apply_owned_fold e cd (key, p) sd) = core (sd\<lparr>sd_engine := g\<rparr>)"
    using True run by (auto simp: apply_owned_fold_def shard_apply_def Let_def apply_many_def sd_resolver_lww[OF sd(3)] entry_of_def split: prod.splits)
  moreover have "write_of ?en = rec_write (fold_record p)" by (simp add: write_of_def rec_write_def fold_record_def fold_write_def entry_of_def)
  ultimately show thesis using that batch True by simp
qed

lemma owned_folds_lww:
  assumes "engine_inv e (sd_engine sd)" "eg_max_capacity (sd_engine sd) = u64_max" "sd_raw_resolver sd = lww_resolver" "externs_ok e"
    and "\<forall>(key, p) \<in> set folds. length (pm_key_bytes p) < 2 ^ 32"
  shows "registers_of e (sd_engine (fold (apply_owned_fold e cd) folds sd)) =
    fold lww_put (map (\<lambda>(key, p). rec_write (fold_record p)) (filter (\<lambda>(key, p). owns_key e (pm_key_bytes p) sd) folds)) (registers_of e (sd_engine sd))"
  using assms
proof (induction folds arbitrary: sd)
  case (Cons x folds)
  obtain key p where x: "x = (key, p)" by fastforce
  let ?sd = "apply_owned_fold e cd x sd"
  have "length (pm_key_bytes p) < 2 ^ 32" using Cons.prems(5) by (simp add: x)
  then obtain g where g: "core ?sd = core (sd\<lparr>sd_engine := g\<rparr>)" "engine_inv e g" "settings g = settings (sd_engine sd)"
    "registers_of e g = (if owns_key e (pm_key_bytes p) sd then lww_put (rec_write (fold_record p)) (registers_of e (sd_engine sd)) else registers_of e (sd_engine sd))"
    using owned_fold_lww[OF Cons.prems(1-4), of p cd key] unfolding x by metis
  have same: "sd_engine ?sd = g" "sd_raw_resolver ?sd = lww_resolver" "owns_key e kb ?sd = owns_key e kb sd" for kb
    using core_eq[OF g(1)] Cons.prems(3) by (simp_all add: owns_key_def)
  have "eg_max_capacity g = u64_max" using settings_eq[OF g(3)] Cons.prems(2) by simp
  then show ?case using Cons.IH[of ?sd] Cons.prems(4,5) g(2,4) same by (simp add: x)
qed simp


text \<open>A fold of this node's is queued as a write of its own, unless its key already holds a version as new.\<close>

definition fold_outdone :: "externs \<Rightarrow> ('k, 'v) shard \<Rightarrow> ('k \<times> 'v pending_merge) set \<Rightarrow> 'k \<times> 'v pending_merge \<Rightarrow> bool" where
  "fold_outdone e sd folds x \<longleftrightarrow>
     (\<exists>old. registers_of e (sd_engine sd) (pm_key_bytes (snd x)) = Some old \<and> pm_ver (snd x) \<le> fst old) \<or>
     (\<exists>y \<in> folds. y \<noteq> x \<and> pm_key_bytes (snd y) = pm_key_bytes (snd x) \<and> pm_ver (snd x) \<le> pm_ver (snd y))"

lemma flush_one_applied:
  assumes sd: "engine_inv e (sd_engine sd)" "eg_max_capacity (sd_engine sd) = u64_max" "sd_raw_resolver sd = lww_resolver" "externs_ok e"
    and key: "length (pm_key_bytes p) < 2 ^ 32" and own: "owns_key e (pm_key_bytes p) sd" and backlog: "backlog_open sd"
    and new: "is_none_or (\<lambda>old. fst old < pm_ver p) (registers_of e (sd_engine sd) (pm_key_bytes p))"
  shows "fq_pending (sd_fan_out (flush_one_pending_merge e cd key p sd)) = fq_pending (sd_fan_out sd) @ [Applied key (pm_ver p)]"
proof -
  obtain r sd' where ap: "shard_apply e cd key (pm_key_bytes p) (pm_ver p) (fold_write p) From_Local sd = (r, sd')" by fastforce
  have "sd_fan_out sd' = snd (queue_push (Applied key (pm_ver p)) (sd_fan_out sd))" by (rule shard_apply_lww[OF sd key new ap])
  moreover have "flush_one_pending_merge e cd key p sd = sd'" using own ap by (simp add: flush_one_pending_merge_def apply_or_forward_def fold_write_def)
  ultimately show ?thesis using backlog by (simp add: backlog_open_def queue_grows)
qed

lemma flush_list_applied:
  assumes "engine_inv e (sd_engine sd)" "eg_max_capacity (sd_engine sd) = u64_max" "sd_raw_resolver sd = lww_resolver" "externs_ok e"
    and "\<forall>(key, p) \<in> set folds. length (pm_key_bytes p) < 2 ^ 32" and "backlog_open sd"
    and "x \<in> set folds" and "owns_key e (pm_key_bytes (snd x)) sd" and "\<not> fold_outdone e sd (set folds) x"
  shows "Applied (fst x) (pm_ver (snd x)) \<in> set (fq_pending (sd_fan_out (flush_list e cd folds sd)))"
  using assms
proof (induction folds arbitrary: sd)
  case (Cons y folds)
  obtain key p where y: "y = (key, p)" by fastforce
  let ?sd = "flush_one_pending_merge e cd key p sd"
  have key: "length (pm_key_bytes p) < 2 ^ 32" using Cons.prems(5) by (simp add: y)
  obtain g where g: "core ?sd = core (sd\<lparr>sd_engine := g\<rparr>)" "engine_inv e g" "settings g = settings (sd_engine sd)"
    "registers_of e g = (if owns_key e (pm_key_bytes p) sd then lww_put (rec_write (fold_record p)) (registers_of e (sd_engine sd)) else registers_of e (sd_engine sd))"
    using owned_fold_lww[OF Cons.prems(1-4) key, of cd key] unfolding flush_one_core by metis
  have same: "sd_engine ?sd = g" "sd_raw_resolver ?sd = lww_resolver" "owns_key e kb ?sd = owns_key e kb sd" for kb
    using core_eq[OF g(1)] Cons.prems(3) by (simp_all add: owns_key_def)
  have cap: "eg_max_capacity g = u64_max" using settings_eq[OF g(3)] Cons.prems(2) by simp
  note one = flush_one_queue[OF Cons.prems(6), of e cd key p]
  have step: "flush_list e cd (y # folds) sd = flush_list e cd folds ?sd" by (simp add: flush_list_def y)
  have later: "set (fq_pending (sd_fan_out ?sd)) \<subseteq> set (fq_pending (sd_fan_out (flush_list e cd folds ?sd)))"
    using flush_list_queue[of ?sd e cd folds] one by auto
  show ?case
  proof (cases "x = y")
    case True
    have "is_none_or (\<lambda>old. fst old < pm_ver p) (registers_of e (sd_engine sd) (pm_key_bytes p))"
      using Cons.prems(9) by (cases "registers_of e (sd_engine sd) (pm_key_bytes p)") (auto simp: True y fold_outdone_def not_le)
    from flush_one_applied[OF Cons.prems(1-4) key _ Cons.prems(6) this, of cd key] Cons.prems(8)
    have "Applied key (pm_ver p) \<in> set (fq_pending (sd_fan_out ?sd))" by (simp add: True y)
    then show ?thesis using later unfolding step True by (auto simp: y)
  next
    case False
    have "\<not> fold_outdone e ?sd (set folds) x"
    proof
      assume "fold_outdone e ?sd (set folds) x"
      then have "\<exists>old. registers_of e g (pm_key_bytes (snd x)) = Some old \<and> pm_ver (snd x) \<le> fst old"
        using Cons.prems(9) by (auto simp: fold_outdone_def same)
      then obtain old where old: "registers_of e g (pm_key_bytes (snd x)) = Some old" "pm_ver (snd x) \<le> fst old" by blast
      then have "registers_of e (sd_engine sd) (pm_key_bytes (snd x)) = Some old \<or> pm_key_bytes p = pm_key_bytes (snd x) \<and> old = snd (rec_write (fold_record p))"
        using g(4) by (auto simp: lww_put_def rec_write_def fold_record_def split: if_splits)
      then have "fold_outdone e sd (set (y # folds)) x"
      proof
        assume "registers_of e (sd_engine sd) (pm_key_bytes (snd x)) = Some old"
        then show ?thesis unfolding fold_outdone_def using old(2) by blast
      next
        assume "pm_key_bytes p = pm_key_bytes (snd x) \<and> old = snd (rec_write (fold_record p))"
        then have "pm_key_bytes (snd y) = pm_key_bytes (snd x)" "pm_ver (snd x) \<le> pm_ver (snd y)" using old(2) by (simp_all add: y rec_write_def fold_record_def)
        then show ?thesis unfolding fold_outdone_def using False by auto
      qed
      then show False using Cons.prems(9) by blast
    qed
    then show ?thesis using Cons.IH[of ?sd] Cons.prems g(2) same cap one False by (simp add: step)
  qed
qed simp

text \<open>After the seal a write reaches no peer: one for a key of another node is refused, one of this node's lands here only.\<close>

lemma sealed_write:
  assumes "fq_closed (sd_fan_out sd)"
  shows "sd_fan_out (snd (apply_or_forward e cd key kb ver incoming sd)) = sd_fan_out sd"
    and "\<not> owns_key e kb sd \<Longrightarrow> fst (apply_or_forward e cd key kb ver incoming sd) = Inl Err_Closed"
    and "owns_key e kb sd \<Longrightarrow> core (snd (apply_or_forward e cd key kb ver incoming sd)) = core (snd (shard_apply e cd key kb ver incoming From_Local sd))"
proof -
  have no: "queue_push item (sd_fan_out sd) = (False, sd_fan_out sd)" for item using assms by (simp add: queue_push_def queue_is_open_def)
  have push: "push_fan_out item sd' = (False, sd')" if "sd_fan_out sd' = sd_fan_out sd" for item and sd' :: "('a, 'b) shard"
    using that no[of item] by (simp add: push_fan_out_def)
  show "owns_key e kb sd \<Longrightarrow> core (snd (apply_or_forward e cd key kb ver incoming sd)) = core (snd (shard_apply e cd key kb ver incoming From_Local sd))"
    by (simp add: apply_or_forward_def)
  have fw: "sd_fan_out (snd (forward_write key kb incoming ver sd)) = sd_fan_out sd" by (simp add: forward_write_def split: incoming.split)
  show "\<not> owns_key e kb sd \<Longrightarrow> fst (apply_or_forward e cd key kb ver incoming sd) = Inl Err_Closed"
    using push[OF fw] by (simp add: apply_or_forward_def case_prod_beta)
  have out: "sd_fan_out (handle_apply_outcome e cd out From_Local True (sd\<lparr>sd_engine := g\<rparr>)) = sd_fan_out sd" for out g
    by (auto simp: handle_apply_outcome_def Let_def push split: apply_outcome.split)
  show "sd_fan_out (snd (apply_or_forward e cd key kb ver incoming sd)) = sd_fan_out sd"
    using push[OF fw] fw out by (simp add: apply_or_forward_def shard_apply_def Let_def case_prod_beta)
qed



text \<open>A cache with one pending fold and one held record.\<close>

definition demo_fold :: "bytes pending_merge" where
  "demo_fold = \<lparr>pm_key_bytes = [7], pm_value = [1], pm_encoded = [1], pm_expires = None, pm_ver = Hlc 90 0 (NodeId 1), pm_deadline_key = (1100, 0)\<rparr>"

definition demo_held :: wire_record where
  "demo_held = \<lparr>wr_key = [8], wr_value = Some [5], wr_ver = Hlc 900 0 (NodeId 2), wr_expires = None\<rparr>"

definition demo_closing :: "(bytes, bytes) shard" where
  "demo_closing = demo_merging\<lparr>
     sd_pending_merges := (\<lambda>_. pending_stripe_new)(fold_stripe demo_externs [7] := pending_stripe_new\<lparr>pg_entries := [([7], demo_fold)], pg_by_deadline := bm_insert (1100, 0) [7] bm_empty, pg_next_seq := 1\<rparr>),
     sd_pending_merge_count := 1, sd_skew_hold := snd (hold demo_held 5 False (skew_hold_new 4 1000))\<rparr>"


section \<open>A bulk remove that fails\<close>

lemma prepare_removes_core:
  "core (snd (prepare_removes e cd ks sd)) = core (sd\<lparr>sd_clock := sd_clock (snd (prepare_removes e cd ks sd))\<rparr>) \<and>
   sd_fan_out (snd (prepare_removes e cd ks sd)) = sd_fan_out sd \<and> sd_events (snd (prepare_removes e cd ks sd)) = sd_events sd \<and>
   (fst (prepare_removes e cd ks sd) = None \<longleftrightarrow> (\<exists>key \<in> set ks. cd_encode_key cd key = None))"
proof (induction ks arbitrary: sd)
  case (Cons key ks)
  show ?case
  proof (cases "cd_encode_key cd key")
    case None
    then show ?thesis by simp
  next
    case (Some kb)
    let ?d = "discard_pending_merge e key kb sd"
    obtain ver sd1 where st: "stamp_local ?d = (ver, sd1)" by fastforce
    then obtain c where sd1: "sd1 = ?d\<lparr>sd_clock := c\<rparr>" by (auto simp: stamp_local_def split: prod.splits)
    have ev: "sd_events ?d = sd_events sd"
      by (simp add: discard_pending_merge_def take_pending_merge_if_def Let_def split: option.split prod.split)
    have "core (sd1\<lparr>sd_clock := c'\<rparr>) = core (sd\<lparr>sd_clock := c'\<rparr>)" for c'
      using core_discards(1)[of e key kb sd] by (cases sd; cases ?d) (simp add: sd1 core_def)
    moreover obtain r sd2 where "prepare_removes e cd ks sd1 = (r, sd2)" by fastforce
    ultimately show ?thesis using Cons.IH[of sd1] by (simp add: Some st) (simp add: sd1 ev)
  qed
qed simp

lemma discard_pending:
  assumes ok: "pending_ok sd"
  shows "pending_ok (discard_pending_merge e key kb sd)"
    and "map_of (pg_entries (sd_pending_merges (discard_pending_merge e key kb sd) (fold_stripe e kb))) key = None"
    and "map_of (pg_entries (sd_pending_merges sd i)) k = None \<Longrightarrow>
      map_of (pg_entries (sd_pending_merges (discard_pending_merge e key kb sd) i)) k = None"
proof -
  let ?i = "fold_stripe e kb"
  have i: "?i < bucket_count" by (simp add: fold_stripe_def)
  have s: "pg_ok (sd_pending_merges sd ?i)" using ok by (simp add: pending_ok_def)
  have "pending_ok (discard_pending_merge e key kb sd) \<and>
    map_of (pg_entries (sd_pending_merges (discard_pending_merge e key kb sd) ?i)) key = None \<and>
    (map_of (pg_entries (sd_pending_merges sd i)) k = None \<longrightarrow>
      map_of (pg_entries (sd_pending_merges (discard_pending_merge e key kb sd) i)) k = None)"
  proof (cases "map_of (pg_entries (sd_pending_merges sd ?i)) key")
    case None
    then have "discard_pending_merge e key kb sd = sd"
      by (simp add: discard_pending_merge_def take_pending_merge_if_def fold_stripe_def Let_def)
    then show ?thesis using ok None by simp
  next
    case (Some p)
    obtain taken s' where rm: "pending_remove key (sd_pending_merges sd ?i) = (taken, s')" by fastforce
    note ex = pending_remove_exact[OF s rm]
    have len: "length (pg_entries (sd_pending_merges sd ?i)) = Suc (length (pg_entries s'))" using ex Some by simp
    moreover have "length (pg_entries (sd_pending_merges sd ?i)) \<le> (\<Sum>j\<leftarrow>[0..<bucket_count]. length (pg_entries (sd_pending_merges sd j)))"
      using i by (intro member_le_sum_list) auto
    ultimately have count: "sd_pending_merge_count sd \<noteq> 0" using ok unfolding pending_ok_def by linarith
    have out: "discard_pending_merge e key kb sd = with_pending ((sd_pending_merges sd)(?i := s')) (sd_pending_merge_count sd - 1) sd"
      using Some rm count
      by (simp add: discard_pending_merge_def has_pending_merges_def take_pending_merge_if_def fold_stripe_def Let_def with_pending_def)
    have "pending_ok (discard_pending_merge e key kb sd)"
      unfolding out by (rule pending_ok_update[OF ok i ex[THEN conjunct1]]) (use len count in linarith)
    moreover have "map_of (pg_entries s') key = None" "map_of (pg_entries (sd_pending_merges sd ?i)) k = None \<Longrightarrow> map_of (pg_entries s') k = None"
      using ex by (auto simp: map_of_eq_None_iff)
    ultimately show ?thesis by (auto simp: out)
  qed
  then show "pending_ok (discard_pending_merge e key kb sd)"
    "map_of (pg_entries (sd_pending_merges (discard_pending_merge e key kb sd) ?i)) key = None"
    "map_of (pg_entries (sd_pending_merges sd i)) k = None \<Longrightarrow> map_of (pg_entries (sd_pending_merges (discard_pending_merge e key kb sd) i)) k = None"
    by blast+
qed

lemma prepare_removes_pending:
  assumes "pending_ok sd"
  shows "(map_of (pg_entries (sd_pending_merges sd i)) k = None \<longrightarrow>
      map_of (pg_entries (sd_pending_merges (snd (prepare_removes e cd ks sd)) i)) k = None) \<and>
    (\<forall>kb. ks = pre @ key # post \<longrightarrow> (\<forall>x \<in> set pre. cd_encode_key cd x \<noteq> None) \<longrightarrow> cd_encode_key cd key = Some kb \<longrightarrow>
      map_of (pg_entries (sd_pending_merges (snd (prepare_removes e cd ks sd)) (fold_stripe e kb))) key = None)"
  using assms
proof (induction ks arbitrary: sd pre i k)
  case (Cons x ks)
  show ?case
  proof (cases "cd_encode_key cd x")
    case None
    then show ?thesis by (cases pre) auto
  next
    case (Some xb)
    let ?d = "discard_pending_merge e x xb sd"
    obtain ver sd1 where st: "stamp_local ?d = (ver, sd1)" by fastforce
    then have sd1: "sd_pending_merges sd1 = sd_pending_merges ?d" "pending_ok sd1"
      using discard_pending(1)[OF Cons.prems, of e x xb] by (auto simp: stamp_local_def pending_ok_def split: prod.splits)
    have step: "snd (prepare_removes e cd (x # ks) sd) = snd (prepare_removes e cd ks sd1)" by (simp add: Some st split: prod.split)
    note IH = Cons.IH[OF sd1(2)]
    have later: "ks = tl pre @ key # post" if "x # ks = pre @ key # post" "pre \<noteq> []" using that by (cases pre) auto
    show ?thesis
      unfolding step
      using IH[of i k "tl pre"] IH[of "fold_stripe e xb" x "tl pre"] discard_pending(2)[OF Cons.prems, of e x xb] discard_pending(3)[OF Cons.prems, of i k e x xb] Some later
      by (cases pre) (auto simp: sd1(1))
  qed
qed simp

text \<open>
  C18: a bulk remove in which some key does not encode removes nothing: it returns the codec error with
  the engine, the queue and the events as they were, the keys before that one included. The folds
  that were pending for those earlier keys are gone all the same, and were neither applied nor sent.
\<close>

theorem remove_many_fails_whole:
  assumes "pending_ok sd" and "ks = pre @ bad # post" and "\<forall>x \<in> set pre. cd_encode_key cd x \<noteq> None" and "cd_encode_key cd bad = None"
  shows "fst (remove_many e cd ks sd) = Inl Err_Codec \<and> sd_engine (snd (remove_many e cd ks sd)) = sd_engine sd \<and>
    sd_fan_out (snd (remove_many e cd ks sd)) = sd_fan_out sd \<and> sd_events (snd (remove_many e cd ks sd)) = sd_events sd \<and>
    (\<forall>key \<in> set pre. \<forall>kb. cd_encode_key cd key = Some kb \<longrightarrow>
       map_of (pg_entries (sd_pending_merges (snd (remove_many e cd ks sd)) (fold_stripe e kb))) key = None)"
proof -
  obtain r sd1 where p: "prepare_removes e cd ks sd = (r, sd1)" by fastforce
  have bad: "\<exists>key \<in> set ks. cd_encode_key cd key = None" using assms(2,4) by auto
  have "r = None" "core sd1 = core (sd\<lparr>sd_clock := sd_clock sd1\<rparr>)" "sd_fan_out sd1 = sd_fan_out sd" "sd_events sd1 = sd_events sd"
    using prepare_removes_core[of e cd ks sd] bad by (simp_all add: p)
  then have fails: "fst (remove_many e cd ks sd) = Inl Err_Codec \<and> sd_engine (snd (remove_many e cd ks sd)) = sd_engine sd \<and>
    sd_fan_out (snd (remove_many e cd ks sd)) = sd_fan_out sd \<and> sd_events (snd (remove_many e cd ks sd)) = sd_events sd"
    and out: "snd (remove_many e cd ks sd) = sd1"
    using core_eq[of sd1 "sd\<lparr>sd_clock := sd_clock sd1\<rparr>"] by (simp_all add: remove_many_def p)
  have "map_of (pg_entries (sd_pending_merges sd1 (fold_stripe e kb))) key = None" if k: "key \<in> set pre" "cd_encode_key cd key = Some kb" for key kb
  proof -
    obtain p1 p2 where pre: "pre = p1 @ key # p2" using split_list[OF k(1)] by blast
    with assms(2,3) have split: "ks = p1 @ key # (p2 @ bad # post)" "\<forall>x \<in> set p1. cd_encode_key cd x \<noteq> None" by simp_all
    show ?thesis
      using prepare_removes_pending[OF assms(1), where ks = ks and pre = p1 and key = key and post = "p2 @ bad # post" and e = e and cd = cd, THEN conjunct2]
        split k(2) unfolding p snd_conv by blast
  qed
  with fails show ?thesis unfolding out by blast
qed

theorem remove_many_fails_whole_witness:
  "fst (remove_many demo_externs (demo_codec\<lparr>cd_encode_key := (\<lambda>k. if k = [9] then None else Some k)\<rparr>) [[7], [9]] (demo_shard (NodeId 1))) = Inl Err_Codec"
proof -
  have "pending_ok (demo_shard (NodeId 1))" by (simp add: pending_ok_def) (simp add: demo_merging_defs pg_ok_def indexed_def)
  then show ?thesis
    by (rule remove_many_fails_whole[where pre = "[[7]]" and bad = "[9]" and post = "[]", THEN conjunct1]) simp_all
qed

end
