(* ===== verification/Outbox.thy ===== *)
theory Outbox
  imports Shard_Pending
begin

text \<open>
  Frames and outboxes (\<^verbatim>\<open>sundog/src/net/frames.rs\<close>, \<^verbatim>\<open>outbox.rs\<close>, the non-blocking sends of
  \<^verbatim>\<open>mesh.rs\<close>): the batching of records into messages, the encoded frame with the memory it holds,
  the two queues toward a peer, and the table of peers. The \<open>Invalidate\<close> queue drops its oldest
  entries, the \<open>Replicate\<close> outbox refuses its newest. A byte count is a \<^typ>\<open>nat\<close>; the sizes the
  compiler gives two structs are parameters, as is the postcard encoding of a message that is not a
  record frame. The sends that wait for room are not here: how many frames such a send places is an
  input of the operations that use it.
\<close>

section \<open>Messages and frames\<close>

text \<open>The messages a node takes from its inbound channel, and the rest of the protocol as \<open>'r\<close>.\<close>

datatype 'r control =
    Invalidate bytes bytes hlc
  | RefreshHint bytes bytes hlc
  | Request 'r

type_synonym 'r message = "'r control msg"

record 'r link =
  ln_postcard :: "'r control \<Rightarrow> bytes option"
  ln_size_of_msg :: nat
  ln_size_of_record :: nat

record 'r out_frame =
  of_msg :: "'r message"
  of_frame :: bytes
  of_resident :: nat

definition record_resident :: "'r link \<Rightarrow> wire_record \<Rightarrow> nat" where
  "record_resident ln rec = ln_size_of_record ln + length (wr_key rec) + map_or 0 length (wr_value rec)"

fun msg_resident :: "'r link \<Rightarrow> 'r message \<Rightarrow> nat" where
  "msg_resident ln (Replicate cache rec) = record_resident ln rec"
| "msg_resident ln (ReplicateBatch cache recs) = sum_list (map (record_resident ln) recs)"
| "msg_resident ln (ForwardBatch cache vh hops recs) = sum_list (map (record_resident ln) recs)"
| "msg_resident ln (Control (Invalidate cache key ver)) = length key"
| "msg_resident ln _ = 0"

definition resident_bytes :: "'r link \<Rightarrow> 'r message \<Rightarrow> nat \<Rightarrow> nat" where
  "resident_bytes ln msg encoded = ln_size_of_msg ln + encoded + msg_resident ln msg"

definition out_frame_new :: "'r link \<Rightarrow> 'r message \<Rightarrow> codec_error + 'r out_frame" where
  "out_frame_new ln msg =
     (case encode (ln_postcard ln) msg of
        Inl err \<Rightarrow> Inl err
      | Inr frame \<Rightarrow> Inr \<lparr>of_msg = msg, of_frame = frame, of_resident = resident_bytes ln msg (length frame)\<rparr>)"

section \<open>Batching\<close>

definition replicate_batch_budget :: nat where
  "replicate_batch_budget = 256 * 1024"

definition batched_bytes :: "bytes \<Rightarrow> wire_record \<Rightarrow> nat" where
  "batched_bytes cache_name rec = replicate_frame_len (length cache_name) (length (wr_key rec)) (map_or 0 length (wr_value rec))"

fun chunk_records_loop :: "bytes \<Rightarrow> wire_record list \<Rightarrow> wire_record list list \<Rightarrow> wire_record list \<Rightarrow> nat \<Rightarrow> wire_record list list" where
  "chunk_records_loop cache_name [] chunks current current_bytes = (if current = [] then chunks else chunks @ [current])"
| "chunk_records_loop cache_name (rec # records) chunks current current_bytes =
     (let rec_bytes = batched_bytes cache_name rec
      in if current \<noteq> [] \<and> (replicate_batch_count \<le> length current \<or> replicate_batch_budget < current_bytes + rec_bytes)
         then chunk_records_loop cache_name records (chunks @ [current]) [rec] rec_bytes
         else chunk_records_loop cache_name records chunks (current @ [rec]) (current_bytes + rec_bytes))"

definition chunk_records :: "bytes \<Rightarrow> wire_record list \<Rightarrow> wire_record list list" where
  "chunk_records cache_name records = chunk_records_loop cache_name records [] [] 0"

definition batch_replicate :: "bytes \<Rightarrow> wire_record list \<Rightarrow> 'r message list" where
  "batch_replicate cache_name records =
     map (\<lambda>recs. case recs of [rec] \<Rightarrow> Replicate cache_name rec | _ \<Rightarrow> ReplicateBatch cache_name recs) (chunk_records cache_name records)"

definition batch_forward :: "bytes \<Rightarrow> u64 \<Rightarrow> u8 \<Rightarrow> wire_record list \<Rightarrow> 'r message list" where
  "batch_forward cache_name vh hops records = map (ForwardBatch cache_name vh hops) (chunk_records cache_name records)"

section \<open>The queue that drops its oldest entries\<close>

record 'a drop_oldest_queue =
  dq_entries :: "('a \<times> nat) list"
  dq_bytes :: nat
  dq_capacity :: nat
  dq_budget :: nat

definition drop_oldest_new :: "nat \<Rightarrow> nat \<Rightarrow> 'a drop_oldest_queue" where
  "drop_oldest_new capacity budget = \<lparr>dq_entries = [], dq_bytes = 0, dq_capacity = capacity, dq_budget = budget\<rparr>"

fun drop_front :: "nat \<Rightarrow> nat \<Rightarrow> nat \<Rightarrow> ('a \<times> nat) list \<Rightarrow> nat \<Rightarrow> nat \<Rightarrow> ('a \<times> nat) list \<times> nat \<times> nat" where
  "drop_front capacity budget weight [] bytes evicted = ([], bytes, evicted)"
| "drop_front capacity budget weight ((item, w) # entries) bytes evicted =
     (if capacity \<le> Suc (length entries) \<or> budget < min usize_max (bytes + weight)
      then drop_front capacity budget weight entries (bytes - w) (Suc evicted)
      else ((item, w) # entries, bytes, evicted))"

definition drop_oldest_push :: "('a \<Rightarrow> nat) \<Rightarrow> 'a \<Rightarrow> 'a drop_oldest_queue \<Rightarrow> nat \<times> 'a drop_oldest_queue" where
  "drop_oldest_push weight_of item q =
     (let weight = min (weight_of item) (dq_budget q)
      in case drop_front (dq_capacity q) (dq_budget q) weight (dq_entries q) (dq_bytes q) 0 of
           (entries, bytes, evicted) \<Rightarrow> (evicted, q\<lparr>dq_entries := entries @ [(item, weight)], dq_bytes := bytes + weight\<rparr>))"

definition drop_oldest_try_pop :: "'a drop_oldest_queue \<Rightarrow> 'a option \<times> 'a drop_oldest_queue" where
  "drop_oldest_try_pop q =
     (case dq_entries q of
        [] \<Rightarrow> (None, q)
      | (item, weight) # entries \<Rightarrow> (Some item, q\<lparr>dq_entries := entries, dq_bytes := dq_bytes q - weight\<rparr>))"

section \<open>The outbox that refuses\<close>

datatype outbox_full = Full | Closed

record 'r outbox =
  ob_queue :: "('r out_frame \<times> nat) list"
  ob_slots :: nat
  ob_budget :: nat
  ob_available :: nat
  ob_taken :: u64
  ob_unsettled :: "nat \<times> nat"
  ob_closed :: bool

text \<open>The most permits the semaphore holds: the largest \<open>usize\<close>, shifted by three.\<close>

definition max_permits :: nat where
  "max_permits = usize_max div 8"

definition replicate_outbox :: "nat \<Rightarrow> nat \<Rightarrow> 'r outbox" where
  "replicate_outbox frames bytes =
     (let budget = min (max 1 bytes) max_permits
      in \<lparr>ob_queue = [], ob_slots = frames, ob_budget = budget, ob_available = budget, ob_taken = 0, ob_unsettled = (0, 0), ob_closed = False\<rparr>)"

definition outbox_weight :: "nat \<Rightarrow> 'r outbox \<Rightarrow> nat" where
  "outbox_weight len ob = (if min len (ob_budget ob) < 2 ^ 32 then min len (ob_budget ob) else 2 ^ 32 - 1)"

text \<open>A permit is the bytes it holds; the slot it holds is the one its frame takes.\<close>

definition try_reserve :: "nat \<Rightarrow> 'r outbox \<Rightarrow> outbox_full + (nat \<times> 'r outbox)" where
  "try_reserve len ob =
     (let weight = outbox_weight len ob
      in if ob_closed ob then Inl Closed
         else if ob_available ob < weight then Inl Full
         else if ob_slots ob \<le> length (ob_queue ob) then Inl Full
         else Inr (weight, ob\<lparr>ob_available := ob_available ob - weight\<rparr>))"

definition permit_send :: "'r out_frame \<Rightarrow> nat \<Rightarrow> 'r outbox \<Rightarrow> 'r outbox" where
  "permit_send frame weight ob = ob\<lparr>ob_queue := ob_queue ob @ [(frame, weight)]\<rparr>"

definition try_send :: "'r out_frame \<Rightarrow> 'r outbox \<Rightarrow> outbox_full + 'r outbox" where
  "try_send frame ob =
     (case try_reserve (of_resident frame) ob of
        Inl err \<Rightarrow> Inl err
      | Inr (weight, ob) \<Rightarrow> Inr (permit_send frame weight ob))"

definition take_more :: "'r outbox \<Rightarrow> 'r out_frame option \<times> 'r outbox" where
  "take_more ob =
     (case ob_queue ob of
        [] \<Rightarrow> (None, ob)
      | (frame, weight) # queue \<Rightarrow>
          (Some frame, ob\<lparr>ob_queue := queue, ob_unsettled := (fst (ob_unsettled ob) + weight, snd (ob_unsettled ob) + 1)\<rparr>))"

definition outbox_settle :: "'r outbox \<Rightarrow> 'r outbox" where
  "outbox_settle ob =
     (case ob_unsettled ob of
        (bytes, frames) \<Rightarrow>
          if 0 < frames
          then ob\<lparr>ob_unsettled := (0, 0), ob_available := ob_available ob + bytes, ob_taken := ob_taken ob + of_nat frames\<rparr>
          else ob\<lparr>ob_unsettled := (0, 0)\<rparr>)"

definition outbox_recv :: "'r outbox \<Rightarrow> 'r out_frame option \<times> 'r outbox" where
  "outbox_recv ob = (case take_more ob of (None, ob) \<Rightarrow> (None, ob) | (Some frame, ob) \<Rightarrow> (Some frame, outbox_settle ob))"

definition outbox_drop :: "'r outbox \<Rightarrow> 'r outbox" where
  "outbox_drop ob = ob\<lparr>ob_queue := [], ob_closed := True\<rparr>"

section \<open>The table of peers\<close>

datatype msg_class = Class_Invalidate | Class_Replicate

record 'r peer_handle =
  ph_invalidate :: "'r out_frame drop_oldest_queue"
  ph_replicate :: "'r outbox"
  ph_dirty :: bool
  ph_last_replicate_enqueued :: u64

type_synonym 'r mesh = "node_id \<Rightarrow> 'r peer_handle option"

definition peer_is_live :: "'r mesh \<Rightarrow> node_id \<Rightarrow> bool" where
  "peer_is_live mesh peer \<longleftrightarrow> mesh peer \<noteq> None"

definition note_unsent :: "node_id \<Rightarrow> nat \<Rightarrow> 'r mesh \<Rightarrow> 'r mesh" where
  "note_unsent peer frames mesh =
     (if frames = 0 then mesh
      else case mesh peer of None \<Rightarrow> mesh | Some handle \<Rightarrow> mesh(peer \<mapsto> handle\<lparr>ph_dirty := True\<rparr>))"

definition enqueue_invalidate :: "'r out_frame \<Rightarrow> 'r peer_handle \<Rightarrow> 'r peer_handle" where
  "enqueue_invalidate frame handle =
     (case drop_oldest_push of_resident frame (ph_invalidate handle) of
        (evicted, q) \<Rightarrow> handle\<lparr>ph_invalidate := q, ph_dirty := (ph_dirty handle \<or> 0 < evicted)\<rparr>)"

definition enqueue_replicate :: "'r out_frame \<Rightarrow> bool \<times> 'r peer_handle \<Rightarrow> bool \<times> 'r peer_handle" where
  "enqueue_replicate frame acc =
     (case acc of (enqueued_all, handle) \<Rightarrow>
        case try_send frame (ph_replicate handle) of
          Inl Full \<Rightarrow> (False, handle\<lparr>ph_dirty := True\<rparr>)
        | Inl Closed \<Rightarrow> (enqueued_all, handle)
        | Inr ob \<Rightarrow> (enqueued_all, handle\<lparr>ph_replicate := ob\<rparr>))"

definition send_frames :: "u64 \<Rightarrow> node_id \<Rightarrow> msg_class \<Rightarrow> 'r out_frame list \<Rightarrow> 'r mesh \<Rightarrow> bool \<times> 'r mesh" where
  "send_frames mono_ms peer class frames mesh =
     (case mesh peer of
        None \<Rightarrow> (False, mesh)
      | Some handle \<Rightarrow>
          (case class of
             Class_Invalidate \<Rightarrow> (True, mesh(peer \<mapsto> fold enqueue_invalidate frames handle))
           | Class_Replicate \<Rightarrow>
               (case fold enqueue_replicate frames (True, handle) of
                  (enqueued_all, handle) \<Rightarrow>
                    (enqueued_all,
                     mesh(peer \<mapsto> (if frames = [] then handle else handle\<lparr>ph_last_replicate_enqueued := mono_ms + 1\<rparr>))))))"

text \<open>The frames of the messages that encode, and how many did not.\<close>

definition encode_frames :: "'r link \<Rightarrow> 'r message list \<Rightarrow> 'r out_frame list \<times> nat" where
  "encode_frames ln msgs =
     (List.map_filter (\<lambda>msg. case out_frame_new ln msg of Inl _ \<Rightarrow> None | Inr frame \<Rightarrow> Some frame) msgs,
      length (filter (\<lambda>msg. case out_frame_new ln msg of Inl _ \<Rightarrow> True | Inr _ \<Rightarrow> False) msgs))"

definition send_many_enqueued :: "'r link \<Rightarrow> u64 \<Rightarrow> node_id \<Rightarrow> msg_class \<Rightarrow> 'r message list \<Rightarrow> 'r mesh \<Rightarrow> bool \<times> 'r mesh" where
  "send_many_enqueued ln mono_ms peer class msgs mesh =
     (case encode_frames ln msgs of
        (frames, unencoded) \<Rightarrow>
          case send_frames mono_ms peer class frames mesh of
            (enqueued, mesh) \<Rightarrow> (unencoded = 0 \<and> enqueued, note_unsent peer unencoded mesh))"

definition encode_frames_for :: "'r link \<Rightarrow> node_id list \<Rightarrow> 'r message list \<Rightarrow> 'r mesh \<Rightarrow> 'r out_frame list \<times> 'r mesh" where
  "encode_frames_for ln peers msgs mesh =
     (case encode_frames ln msgs of (frames, unencoded) \<Rightarrow> (frames, fold (\<lambda>peer. note_unsent peer unencoded) peers mesh))"

section \<open>What batching keeps\<close>

definition batch_ok :: "bytes \<Rightarrow> wire_record list \<Rightarrow> bool" where
  "batch_ok cache_name recs \<longleftrightarrow> recs \<noteq> [] \<and> length recs \<le> replicate_batch_count \<and>
     (length recs = 1 \<or> sum_list (map (batched_bytes cache_name) recs) \<le> replicate_batch_budget)"

lemma chunk_records_loop_ok:
  assumes "current_bytes = sum_list (map (batched_bytes cache_name) current)" and "current \<noteq> [] \<Longrightarrow> batch_ok cache_name current"
    and "list_all (batch_ok cache_name) chunks"
  shows "concat (chunk_records_loop cache_name records chunks current current_bytes) = concat chunks @ current @ records \<and>
    list_all (batch_ok cache_name) (chunk_records_loop cache_name records chunks current current_bytes)"
  using assms
proof (induction cache_name records chunks current current_bytes rule: chunk_records_loop.induct)
  case (1 cache_name chunks current current_bytes)
  then show ?case by simp
next
  case (2 cache_name rec records chunks current current_bytes)
  have one: "batch_ok cache_name [rec]" by (simp add: batch_ok_def replicate_batch_count_def)
  show ?case
  proof (cases "current \<noteq> [] \<and> (replicate_batch_count \<le> length current \<or> replicate_batch_budget < current_bytes + batched_bytes cache_name rec)")
    case True
    then show ?thesis using 2 one by (simp add: Let_def)
  next
    case False
    then have "batch_ok cache_name (current @ [rec])" using 2(3) one by (cases "current = []") (auto simp: batch_ok_def)
    then show ?thesis using 2(2)[OF refl False] 2(3,5) False by (subst (1 2) chunk_records_loop.simps) (simp add: Let_def if_not_P)
  qed
qed

lemma chunk_records_exact:
  "concat (chunk_records cache_name records) = records" "list_all (batch_ok cache_name) (chunk_records cache_name records)"
  using chunk_records_loop_ok[of 0 cache_name "[]" "[]" records] by (simp_all add: chunk_records_def)

fun msg_records :: "'r message \<Rightarrow> wire_record list" where
  "msg_records (Replicate cache rec) = [rec]"
| "msg_records (ReplicateBatch cache recs) = recs"
| "msg_records (ForwardBatch cache vh hops recs) = recs"
| "msg_records _ = []"

lemma batch_forward_records [simp]: "concat (map msg_records (batch_forward cache_name vh hops records)) = records"
  by (simp add: batch_forward_def comp_def chunk_records_exact)

lemma batch_replicate_records [simp]: "concat (map msg_records (batch_replicate cache_name records :: 'r message list)) = records"
proof -
  have "(msg_records :: 'r message \<Rightarrow> _) \<circ> (\<lambda>recs. case recs of [rec] \<Rightarrow> Replicate cache_name rec | _ \<Rightarrow> ReplicateBatch cache_name recs) = (\<lambda>recs. recs)"
    by (auto simp: fun_eq_iff split: list.split)
  then show ?thesis by (simp add: batch_replicate_def chunk_records_exact)
qed

section \<open>What the queues keep\<close>

definition within :: "nat \<Rightarrow> nat \<Rightarrow> ('a \<times> nat) list \<Rightarrow> bool" where
  "within capacity budget xs \<longleftrightarrow> length xs \<le> capacity \<and> sum_list (map snd xs) \<le> budget"

text \<open>The longest run of the newest entries that is within the bounds, the newest entry always among them.\<close>

fun newest_within :: "nat \<Rightarrow> nat \<Rightarrow> ('a \<times> nat) list \<Rightarrow> ('a \<times> nat) list" where
  "newest_within capacity budget [] = []"
| "newest_within capacity budget (x # xs) =
     (if xs = [] \<or> within capacity budget (x # xs) then x # xs else newest_within capacity budget xs)"

lemma newest_within_append:
  "ys \<noteq> [] \<Longrightarrow> newest_within capacity budget (newest_within capacity budget xs @ ys) = newest_within capacity budget (xs @ ys)"
  by (induction xs) (auto simp: within_def)

lemma newest_within_idem [simp]: "newest_within capacity budget (newest_within capacity budget xs) = newest_within capacity budget xs"
  by (induction xs) auto

lemma newest_within_fits: "length (newest_within capacity budget xs) \<le> max 1 capacity"
  by (induction xs) (auto simp: within_def)

definition dq_ok :: "'a drop_oldest_queue \<Rightarrow> bool" where
  "dq_ok q \<longleftrightarrow> dq_bytes q = sum_list (map snd (dq_entries q)) \<and> dq_bytes q \<le> dq_budget q \<and> dq_budget q < usize_max \<and>
     newest_within (dq_capacity q) (dq_budget q) (dq_entries q) = dq_entries q"

lemma drop_front_exact:
  assumes "bytes = sum_list (map snd entries)" and "budget < usize_max" and "weight \<le> budget"
    and "drop_front capacity budget weight entries bytes evicted = (entries', bytes', evicted')"
  shows "newest_within capacity budget (entries @ [(item, weight)]) = entries' @ [(item, weight)] \<and>
    bytes' = sum_list (map snd entries') \<and> bytes' + weight \<le> budget \<and> evicted' + length entries' = evicted + length entries"
  using assms
proof (induction capacity budget weight entries bytes evicted rule: drop_front.induct)
  case (2 capacity budget weight x w entries bytes evicted)
  have sat: "budget < min usize_max n \<longleftrightarrow> budget < n" for n using 2(3) by auto
  show ?case
  proof (cases "capacity \<le> Suc (length entries) \<or> budget < min usize_max (bytes + weight)")
    case True
    have "drop_front capacity budget weight entries (bytes - w) (Suc evicted) = (entries', bytes', evicted')" using 2(5) True by simp
    then show ?thesis using 2(1)[OF True] 2(2-4) True by (auto simp: within_def sat)
  next
    case False
    then show ?thesis using 2(2-5) by (auto simp: within_def sat)
  qed
qed simp

lemma push_exact:
  assumes ok: "dq_ok q" and push: "drop_oldest_push weight_of item q = (evicted, q')"
  shows "dq_ok q' \<and> dq_capacity q' = dq_capacity q \<and> dq_budget q' = dq_budget q \<and>
    dq_entries q' = newest_within (dq_capacity q) (dq_budget q) (dq_entries q @ [(item, min (weight_of item) (dq_budget q))]) \<and>
    evicted + length (dq_entries q') = Suc (length (dq_entries q))"
proof -
  let ?w = "min (weight_of item) (dq_budget q)"
  obtain es b where df: "drop_front (dq_capacity q) (dq_budget q) ?w (dq_entries q) (dq_bytes q) 0 = (es, b, evicted)"
    and q': "q' = q\<lparr>dq_entries := es @ [(item, ?w)], dq_bytes := b + ?w\<rparr>"
    using push by (auto simp: drop_oldest_push_def Let_def split: prod.splits)
  have "dq_bytes q = sum_list (map snd (dq_entries q))" "dq_budget q < usize_max" using ok by (simp_all add: dq_ok_def)
  note ex = drop_front_exact[OF this _ df, of item]
  have nw: "newest_within (dq_capacity q) (dq_budget q) (dq_entries q @ [(item, ?w)]) = es @ [(item, ?w)]" using ex by simp
  have "newest_within (dq_capacity q) (dq_budget q) (es @ [(item, ?w)]) = es @ [(item, ?w)]"
    unfolding nw[symmetric] by (rule newest_within_idem)
  then show ?thesis using ex ok nw by (simp add: q' dq_ok_def)
qed

lemma pop_ok: "dq_ok q \<Longrightarrow> dq_ok (snd (drop_oldest_try_pop q))"
proof -
  assume ok: "dq_ok q"
  show ?thesis
  proof (cases "dq_entries q")
    case (Cons x xs)
    then have "newest_within (dq_capacity q) (dq_budget q) xs = xs"
      using ok newest_within_fits[of "dq_capacity q" "dq_budget q" xs] newest_within_idem[of "dq_capacity q" "dq_budget q" xs]
      by (cases xs) (auto simp: dq_ok_def within_def split: if_splits)
    then show ?thesis using ok Cons by (cases x) (auto simp: dq_ok_def drop_oldest_try_pop_def)
  qed (use ok in \<open>simp add: drop_oldest_try_pop_def\<close>)
qed

text \<open>
  C39: the invalidation queue toward a peer. After any run of pushes it holds the longest run of the
  newest entries that is within its bounds on entries and on bytes, in order: nothing is dropped
  that could have stayed, and the newest entry always goes in. What it drops is what it counts, and
  a pop takes the oldest entry left and leaves the queue in the same state.
\<close>

theorem invalidations_keep_newest:
  assumes "dq_ok q"
  shows "let q' = fold (\<lambda>item q. snd (drop_oldest_push weight_of item q)) items q in
    dq_ok q' \<and> length (dq_entries q') \<le> max 1 (dq_capacity q) \<and> sum_list (map snd (dq_entries q')) \<le> dq_budget q \<and>
    dq_entries q' = newest_within (dq_capacity q) (dq_budget q) (dq_entries q @ map (\<lambda>item. (item, min (weight_of item) (dq_budget q))) items) \<and>
    fst (drop_oldest_push weight_of item q') + length (dq_entries (snd (drop_oldest_push weight_of item q'))) = Suc (length (dq_entries q')) \<and>
    fst (drop_oldest_try_pop q') = (case dq_entries q' of [] \<Rightarrow> None | x # _ \<Rightarrow> Some (fst x)) \<and>
    dq_ok (snd (drop_oldest_try_pop q'))"
proof -
  let ?run = "\<lambda>items q. fold (\<lambda>item q. snd (drop_oldest_push weight_of item q)) items q"
  let ?w = "\<lambda>item. (item, min (weight_of item) (dq_budget q))"
  have main: "dq_ok (?run items q) \<and> dq_capacity (?run items q) = dq_capacity q \<and> dq_budget (?run items q) = dq_budget q \<and>
    dq_entries (?run items q) = newest_within (dq_capacity q) (dq_budget q) (dq_entries q @ map ?w items)"
  proof (induction items rule: rev_induct)
    case Nil
    then show ?case using assms by (simp add: dq_ok_def)
  next
    case (snoc item items)
    then have ok: "dq_ok (?run items q)" by blast
    show ?case
      using push_exact[OF ok prod.collapse[symmetric], of weight_of item] snoc newest_within_append[of "[?w item]" "dq_capacity q" "dq_budget q" "dq_entries q @ map ?w items"]
      by simp
  qed
  then have "fst (drop_oldest_push weight_of item (?run items q)) + length (dq_entries (snd (drop_oldest_push weight_of item (?run items q)))) =
      Suc (length (dq_entries (?run items q)))"
    using push_exact[OF _ prod.collapse[symmetric], of "?run items q" weight_of item] by blast
  moreover have "fst (drop_oldest_try_pop (?run items q)) = (case dq_entries (?run items q) of [] \<Rightarrow> None | x # _ \<Rightarrow> Some (fst x))"
    by (auto simp: drop_oldest_try_pop_def split: list.split)
  moreover have "length (dq_entries (?run items q)) \<le> max 1 (dq_capacity q)" using main newest_within_fits by metis
  moreover have "sum_list (map snd (dq_entries (?run items q))) \<le> dq_budget q" using main unfolding dq_ok_def by metis
  ultimately show ?thesis using pop_ok[of "?run items q"] main unfolding Let_def by blast
qed

theorem invalidations_keep_newest_witness:
  "dq_entries (fold (\<lambda>item q. snd (drop_oldest_push (\<lambda>n. n) item q)) [4, 3, 2, 9, 1] (drop_oldest_new 3 (10 :: nat))) = [(9, 9), (1, 1)]"
proof -
  have "dq_ok (drop_oldest_new 3 10 :: nat drop_oldest_queue)" by (simp add: dq_ok_def drop_oldest_new_def usize_max_def)
  from invalidations_keep_newest[OF this, of "\<lambda>n. n" "[4, 3, 2, 9, 1]" 0] show ?thesis
    by (simp add: Let_def drop_oldest_new_def within_def)
qed

text \<open>The outbox that refuses: its slots and its bytes.\<close>

definition ob_ok :: "'r outbox \<Rightarrow> bool" where
  "ob_ok ob \<longleftrightarrow> length (ob_queue ob) \<le> ob_slots ob \<and> ob_budget ob \<le> max_permits \<and>
     ob_available ob + sum_list (map snd (ob_queue ob)) + fst (ob_unsettled ob) \<le> ob_budget ob \<and>
     (snd (ob_unsettled ob) = 0 \<longrightarrow> fst (ob_unsettled ob) = 0) \<and>
     (\<not> ob_closed ob \<longrightarrow> ob_available ob + sum_list (map snd (ob_queue ob)) + fst (ob_unsettled ob) = ob_budget ob)"

datatype 'r outbox_op = Op_Send "'r out_frame" | Op_Take | Op_Settle | Op_Recv | Op_Drop

text \<open>The frames a run of operations accepts and the frames it takes.\<close>

fun outbox_run :: "'r outbox_op list \<Rightarrow> 'r outbox \<Rightarrow> 'r out_frame list \<times> 'r out_frame list \<times> 'r outbox" where
  "outbox_run [] ob = ([], [], ob)"
| "outbox_run (Op_Send frame # ops) ob =
     (case try_send frame ob of
        Inl _ \<Rightarrow> outbox_run ops ob
      | Inr ob \<Rightarrow> (case outbox_run ops ob of (sent, got, ob) \<Rightarrow> (frame # sent, got, ob)))"
| "outbox_run (Op_Take # ops) ob =
     (case take_more ob of (got1, ob) \<Rightarrow> case outbox_run ops ob of (sent, got, ob) \<Rightarrow> (sent, map_or [] (\<lambda>f. [f]) got1 @ got, ob))"
| "outbox_run (Op_Settle # ops) ob = outbox_run ops (outbox_settle ob)"
| "outbox_run (Op_Recv # ops) ob =
     (case outbox_recv ob of (got1, ob) \<Rightarrow> case outbox_run ops ob of (sent, got, ob) \<Rightarrow> (sent, map_or [] (\<lambda>f. [f]) got1 @ got, ob))"
| "outbox_run (Op_Drop # ops) ob = outbox_run ops (outbox_drop ob)"

lemma try_send_Inr:
  assumes "try_send frame ob = Inr ob'" and "ob_ok ob"
  shows "ob_ok ob'" "map fst (ob_queue ob') = map fst (ob_queue ob) @ [frame]" "\<not> ob_closed ob"
  using assms by (auto simp: try_send_def try_reserve_def permit_send_def Let_def ob_ok_def split: sum.splits if_splits)

lemma take_more_ok:
  assumes "take_more ob = (got, ob')" and "ob_ok ob"
  shows "ob_ok ob'" "map fst (ob_queue ob) = map_or [] (\<lambda>f. [f]) got @ map fst (ob_queue ob')" "ob_closed ob' = ob_closed ob"
  using assms by (auto simp: take_more_def ob_ok_def split: list.splits)

lemma settle_ok:
  assumes "ob_ok ob"
  shows "ob_ok (outbox_settle ob)" "ob_queue (outbox_settle ob) = ob_queue ob" "ob_closed (outbox_settle ob) = ob_closed ob"
  using assms by (auto simp: outbox_settle_def ob_ok_def split: prod.splits)

lemma outbox_recv_ok:
  assumes "outbox_recv ob = (got, ob')" and "ob_ok ob"
  shows "ob_ok ob'" "map fst (ob_queue ob) = map_or [] (\<lambda>f. [f]) got @ map fst (ob_queue ob')" "ob_closed ob' = ob_closed ob"
proof -
  obtain g ob1 where t: "take_more ob = (g, ob1)" by fastforce
  note ex = take_more_ok[OF t assms(2)]
  have out: "got = g" "ob' = ob1 \<or> ob' = outbox_settle ob1" using assms(1) by (auto simp: outbox_recv_def t split: option.splits)
  show "ob_ok ob'" "map fst (ob_queue ob) = map_or [] (\<lambda>f. [f]) got @ map fst (ob_queue ob')" "ob_closed ob' = ob_closed ob"
    using out ex settle_ok[OF ex(1)] by auto
qed

text \<open>
  C40: the replication outbox toward a peer. Whatever sends, takes, settles and closes come in
  whatever order, the frames queued stay within the slots and hold, with the bytes the writer has
  not given back, no more than the byte budget; nothing is lost or reordered: what the writer took,
  followed by what is queued, is what was queued and what was accepted since. A frame is refused
  only when the writer is gone, the slots are full or the budget is short, and an outbox with no
  frame queued and every frame settled takes any frame, however large.
\<close>

theorem outbox_bounded_and_lossless:
  assumes "ob_ok ob" and "outbox_run ops ob = (sent, got, ob')"
  shows "ob_ok ob' \<and> length (ob_queue ob') \<le> ob_slots ob' \<and> sum_list (map snd (ob_queue ob')) \<le> ob_budget ob' \<and>
    (\<not> ob_closed ob' \<longrightarrow> got @ map fst (ob_queue ob') = map fst (ob_queue ob) @ sent) \<and>
    (\<not> ob_closed ob' \<longrightarrow> ob_queue ob' = [] \<longrightarrow> ob_unsettled ob' = (0, 0) \<longrightarrow> 0 < ob_slots ob' \<longrightarrow> (\<exists>ob''. try_send frame ob' = Inr ob''))"
proof -
  have run: "ob_ok ob' \<and> (ob_closed ob \<longrightarrow> ob_closed ob') \<and> (\<not> ob_closed ob' \<longrightarrow> got @ map fst (ob_queue ob') = map fst (ob_queue ob) @ sent)"
    using assms
  proof (induction ops ob arbitrary: sent got ob' rule: outbox_run.induct)
    case (2 frame ops ob)
    show ?case
    proof (cases "try_send frame ob")
      case (Inl err)
      then show ?thesis using 2(1)[OF Inl 2(3)] 2(4) by simp
    next
      case (Inr ob1)
      then show ?thesis using 2(2)[OF Inr try_send_Inr(1)[OF Inr 2(3)]] try_send_Inr(2,3)[OF Inr 2(3)] 2(4) by (fastforce split: prod.splits)
    qed
  next
    case (3 ops ob)
    obtain g ob1 where t: "take_more ob = (g, ob1)" by fastforce
    then show ?case using 3(1)[OF t[symmetric] take_more_ok(1)[OF t 3(2)]] take_more_ok(2,3)[OF t 3(2)] 3(3) by (auto split: prod.splits)
  next
    case (4 ops ob)
    then show ?case using settle_ok[OF 4(2)] by simp
  next
    case (5 ops ob)
    obtain g ob1 where t: "outbox_recv ob = (g, ob1)" by fastforce
    then show ?case using 5(1)[OF t[symmetric] outbox_recv_ok(1)[OF t 5(2)]] outbox_recv_ok(2,3)[OF t 5(2)] 5(3) by (auto split: prod.splits)
  next
    case (6 ops ob)
    have "ob_ok (outbox_drop ob)" "ob_closed (outbox_drop ob)" using 6(2) by (simp_all add: outbox_drop_def ob_ok_def)
    then show ?case using 6(1) 6(3) by auto
  qed simp
  have "try_send frame ob' = Inr (permit_send frame (outbox_weight (of_resident frame) ob') (ob'\<lparr>ob_available := ob_available ob' - outbox_weight (of_resident frame) ob'\<rparr>))"
    if "\<not> ob_closed ob'" "ob_queue ob' = []" "ob_unsettled ob' = (0, 0)" "0 < ob_slots ob'"
    using run that by (auto simp: try_send_def try_reserve_def Let_def ob_ok_def outbox_weight_def)
  then show ?thesis using run by (auto simp: ob_ok_def)
qed

definition demo_frame :: "nat \<Rightarrow> unit out_frame" where
  "demo_frame n = \<lparr>of_msg = Control (Invalidate [] [] (Hlc 1 0 (NodeId 1))), of_frame = [], of_resident = n\<rparr>"

theorem outbox_bounded_and_lossless_witness:
  "\<exists>sent ob'. outbox_run [Op_Send (demo_frame 4), Op_Send (demo_frame 8), Op_Recv, Op_Send (demo_frame 100)] (replicate_outbox 2 10) =
     (sent, [demo_frame 4], ob') \<and> ob_ok ob' \<and> sent = [demo_frame 4, demo_frame 100]"
proof -
  have ok: "ob_ok (replicate_outbox 2 10 :: unit outbox)" by (simp add: ob_ok_def replicate_outbox_def Let_def max_permits_def usize_max_def)
  obtain sent got ob' where run: "outbox_run [Op_Send (demo_frame 4), Op_Send (demo_frame 8), Op_Recv, Op_Send (demo_frame 100)] (replicate_outbox 2 10) = (sent, got, ob')"
    by (metis prod_cases3)
  have "sent = [demo_frame 4, demo_frame 100]" "got = [demo_frame 4]"
    using run by (simp_all add: replicate_outbox_def Let_def max_permits_def usize_max_def try_send_def try_reserve_def permit_send_def
        outbox_weight_def outbox_recv_def take_more_def outbox_settle_def demo_frame_def)
  then show ?thesis using outbox_bounded_and_lossless[OF ok run, of "demo_frame 1"] run by blast
qed

text \<open>
  A send to a peer whose writer has ended reports that every frame reached the outbox, and does not
  mark the peer dirty, although no frame was queued.
\<close>

lemma closed_outbox_reports_enqueued:
  assumes "mesh peer = Some handle" and "ob_closed (ph_replicate handle)"
  shows "fst (send_frames mono_ms peer Class_Replicate frames mesh)"
    and "map_option ph_replicate (snd (send_frames mono_ms peer Class_Replicate frames mesh) peer) = Some (ph_replicate handle)"
    and "map_option ph_dirty (snd (send_frames mono_ms peer Class_Replicate frames mesh) peer) = Some (ph_dirty handle)"
proof -
  have "enqueue_replicate frame (b, handle) = (b, handle)" for frame b
    using assms(2) by (simp add: enqueue_replicate_def try_send_def try_reserve_def Let_def)
  then have "fold enqueue_replicate frames (b, handle) = (b, handle)" for b by (induction frames) simp_all
  then show "fst (send_frames mono_ms peer Class_Replicate frames mesh)"
    "map_option ph_replicate (snd (send_frames mono_ms peer Class_Replicate frames mesh) peer) = Some (ph_replicate handle)"
    "map_option ph_dirty (snd (send_frames mono_ms peer Class_Replicate frames mesh) peer) = Some (ph_dirty handle)"
    using assms(1) by (simp_all add: send_frames_def)
qed

end
