(* ===== verification/Cluster_Fan_Out.thy ===== *)
theory Cluster_Fan_Out
  imports Outbox
begin

text \<open>
  Fan-out of local writes (\<^verbatim>\<open>sundog/src/cluster/fan_out.rs\<close>): what one drained burst of the fan-out
  queue sends, and to whom. A \<open>Distributed\<close> cache groups its records by the owners of their part,
  the other modes broadcast. A send that waits for room in an outbox is the parameter
  \<open>send_within\<close>: it answers how many of the frames, from the front, the peer's outbox took and the
  mesh afterwards. The owners' sends run at once in the code and touch one peer each; here they
  run one after another.
\<close>

section \<open>Groups\<close>

fun group_step :: "'k \<times> 'v list \<Rightarrow> ('k \<Rightarrow> nat option) \<times> ('k \<times> 'v list) list \<Rightarrow> ('k \<Rightarrow> nat option) \<times> ('k \<times> 'v list) list" where
  "group_step (key, values) (index, groups) =
     (case (case index key of
              Some at \<Rightarrow> (at, index, groups)
            | None \<Rightarrow> (length groups, index(key \<mapsto> length groups), groups @ [(key, [])])) of
        (at, index, groups) \<Rightarrow> (index, groups[at := (fst (groups ! at), snd (groups ! at) @ values)]))"

definition group_in_order :: "('k \<times> 'v list) list \<Rightarrow> ('k \<times> 'v list) list" where
  "group_in_order items = snd (fold group_step items (Map.empty, []))"

record owner_group =
  og_owners :: "node_id list"
  og_records :: "wire_record list"

definition record_owners :: "externs \<Rightarrow> ownership_view \<Rightarrow> node_id \<Rightarrow> wire_record \<Rightarrow> node_id list" where
  "record_owners e view self_node rec = sort (filter (\<lambda>n. n \<noteq> self_node) (owners_of view (part_of_key e (wr_key rec))))"

definition group_by_owner_set :: "externs \<Rightarrow> ownership_view \<Rightarrow> node_id \<Rightarrow> wire_record list \<Rightarrow> owner_group list" where
  "group_by_owner_set e view self_node records =
     map (\<lambda>(owners, recs). \<lparr>og_owners = owners, og_records = recs\<rparr>)
       (group_in_order (map (\<lambda>rec. (record_owners e view self_node rec, [rec])) records))"

section \<open>Invalidations\<close>

definition protocol_invalidation_fold :: u16 where
  "protocol_invalidation_fold = 8"

definition invalidation_ships_values :: "bool \<Rightarrow> u16 \<Rightarrow> bool" where
  "invalidation_ships_values merges peer_protocol \<longleftrightarrow> merges \<and> peer_supports peer_protocol protocol_invalidation_fold"

definition invalidations :: "bytes \<Rightarrow> wire_record list \<Rightarrow> 'r message list" where
  "invalidations cache_name records = map (\<lambda>rec. Control (Invalidate cache_name (wr_key rec) (wr_ver rec))) records"

definition folds_shipped :: "bytes \<Rightarrow> wire_record \<Rightarrow> bool" where
  "folds_shipped cache_name rec \<longleftrightarrow> wr_value rec \<noteq> None \<and> batched_bytes cache_name rec \<le> max_frame"

definition fold_msgs :: "bytes \<Rightarrow> wire_record list \<Rightarrow> 'r message list" where
  "fold_msgs cache_name records =
     (let (shipped, invalidated) = partition (folds_shipped cache_name) records
      in batch_replicate cache_name shipped @ invalidations cache_name invalidated)"

record 'r invalidation_send =
  is_peers :: "node_id list"
  is_msgs :: "'r message list"

definition invalidation_sends :: "bool \<Rightarrow> (node_id \<times> u16) list \<Rightarrow> bytes \<Rightarrow> wire_record list \<Rightarrow> 'r invalidation_send list" where
  "invalidation_sends merges peers cache_name records =
     (let (folding, dropping) = partition (\<lambda>(_, protocol). invalidation_ships_values merges protocol) peers
      in (if folding = [] then [] else [\<lparr>is_peers = map fst folding, is_msgs = fold_msgs cache_name records\<rparr>])
         @ (if dropping = [] then [] else [\<lparr>is_peers = map fst dropping, is_msgs = invalidations cache_name records\<rparr>]))"

section \<open>Frames to owners\<close>

record 'r owner_frame =
  wf_frame :: "'r out_frame"
  wf_targets :: "node_id list"
  wf_invalidation :: bool

record departed_send =
  ds_targets :: "node_id list"
  ds_records :: "wire_record list"

definition owner_frames :: "node_id list \<Rightarrow> bool \<Rightarrow> 'r out_frame list \<Rightarrow> 'r owner_frame list" where
  "owner_frames targets invalidation frames =
     map (\<lambda>frame. \<lparr>wf_frame = frame, wf_targets = targets, wf_invalidation = invalidation\<rparr>) frames"

text \<open>The frames of the records, group by group, and of the departed writes after them.\<close>

fun record_frames ::
  "'r link \<Rightarrow> bytes \<Rightarrow> u64 \<Rightarrow> owner_group list \<Rightarrow> 'r owner_frame list \<times> 'r mesh \<Rightarrow> 'r owner_frame list \<times> 'r mesh" where
  "record_frames ln cache_name vh [] acc = acc"
| "record_frames ln cache_name vh (grp # groups) (frames, mesh) =
     (if og_owners grp = [] then record_frames ln cache_name vh groups (frames, mesh)
      else case encode_frames_for ln (og_owners grp) (batch_forward cache_name vh 0 (og_records grp)) mesh of
             (encoded, mesh) \<Rightarrow> record_frames ln cache_name vh groups (frames @ owner_frames (og_owners grp) False encoded, mesh))"

fun departed_frames ::
  "'r link \<Rightarrow> bytes \<Rightarrow> departed_send list \<Rightarrow> 'r owner_frame list \<times> 'r mesh \<Rightarrow> 'r owner_frame list \<times> 'r mesh" where
  "departed_frames ln cache_name [] acc = acc"
| "departed_frames ln cache_name (d # departed) (frames, mesh) =
     (case encode_frames_for ln (ds_targets d) (invalidations cache_name (ds_records d)) mesh of
        (encoded, mesh) \<Rightarrow> departed_frames ln cache_name departed (frames @ owner_frames (ds_targets d) True encoded, mesh))"

definition frames_by_owner :: "'r owner_frame list \<Rightarrow> (node_id \<times> nat list) list" where
  "frames_by_owner frames =
     bm_entries (fold (\<lambda>(i, frame) m. fold (\<lambda>owner m. bm_insert owner (map_or [] (\<lambda>is. is) (bm_get m owner) @ [i]) m) (wf_targets frame) m)
       (enumerate 0 frames) bm_empty)"

definition lost_in_frame :: "(wire_record \<Rightarrow> bool) \<Rightarrow> 'r owner_frame \<Rightarrow> nat \<Rightarrow> nat" where
  "lost_in_frame stored frame took =
     (case of_msg (wf_frame frame) of
        Control (Invalidate _ _ _) \<Rightarrow> if wf_invalidation frame \<and> took < length (wf_targets frame) then 1 else 0
      | ForwardBatch _ _ _ recs \<Rightarrow> if \<not> wf_invalidation frame \<and> took = 0 then length (filter (\<lambda>rec. \<not> stored rec) recs) else 0
      | _ \<Rightarrow> 0)"

definition lost_writes :: "'r owner_frame list \<Rightarrow> nat list \<Rightarrow> (wire_record \<Rightarrow> bool) \<Rightarrow> u64" where
  "lost_writes frames delivered stored = sum_list (map (\<lambda>(frame, took). usize_to_u64 (lost_in_frame stored frame took)) (zip frames delivered))"

type_synonym 'r waiting_send = "node_id \<Rightarrow> 'r out_frame list \<Rightarrow> 'r mesh \<Rightarrow> nat \<times> 'r mesh"

fun send_to_owners ::
  "'r waiting_send \<Rightarrow> 'r owner_frame list \<Rightarrow> (node_id \<times> nat list) list \<Rightarrow> nat list \<times> 'r mesh \<Rightarrow> nat list \<times> 'r mesh" where
  "send_to_owners send_within frames [] acc = acc"
| "send_to_owners send_within frames ((peer, is) # by_owner) (delivered, mesh) =
     (case send_within peer (map (\<lambda>i. wf_frame (frames ! i)) is) mesh of
        (placed, mesh) \<Rightarrow>
          send_to_owners send_within frames by_owner
            (fold (\<lambda>i delivered. delivered[i := delivered ! i + 1]) (take placed is) delivered, mesh))"

definition fan_out_to_owners ::
  "externs \<Rightarrow> 'r link \<Rightarrow> 'r waiting_send \<Rightarrow> bytes \<Rightarrow> ownership_view \<Rightarrow> node_id \<Rightarrow> wire_record list \<Rightarrow> departed_send list
     \<Rightarrow> 'r mesh \<Rightarrow> u64 \<times> 'r mesh" where
  "fan_out_to_owners e ln send_within cache_name view self_node records departed mesh =
     (let (frames, mesh) =
            departed_frames ln cache_name departed
              (record_frames ln cache_name (ov_view_hash view) (group_by_owner_set e view self_node records) ([], mesh));
          (delivered, mesh) = send_to_owners send_within frames (frames_by_owner frames) (replicate (length frames) 0, mesh)
      in (lost_writes frames delivered (\<lambda>rec. owns view (part_of_key e (wr_key rec))), mesh))"

section \<open>Departed writes and broadcasts\<close>

definition plan_departed_sends ::
  "externs \<Rightarrow> mode \<Rightarrow> node_id list \<Rightarrow> ownership_view option \<Rightarrow> node_id \<Rightarrow> bool \<Rightarrow> wire_record list \<Rightarrow> departed_send list" where
  "plan_departed_sends e m peers view self_node merges departed =
     (if departed = [] \<or> merges then []
      else case m of
             mode.Local \<Rightarrow> []
           | Distributed _ \<Rightarrow>
               (case view of
                  None \<Rightarrow> []
                | Some view \<Rightarrow>
                    map (\<lambda>g. \<lparr>ds_targets = og_owners g, ds_records = og_records g\<rparr>)
                      (filter (\<lambda>g. og_owners g \<noteq> []) (group_by_owner_set e view self_node departed)))
           | _ \<Rightarrow> if peers = [] then [] else [\<lparr>ds_targets = peers, ds_records = departed\<rparr>])"

definition send_to_each :: "u64 \<Rightarrow> msg_class \<Rightarrow> node_id list \<Rightarrow> 'r out_frame list \<Rightarrow> 'r mesh \<Rightarrow> 'r mesh" where
  "send_to_each mono_ms class peers frames mesh = fold (\<lambda>peer mesh. snd (send_frames mono_ms peer class frames mesh)) peers mesh"

definition encode_and_send :: "'r link \<Rightarrow> u64 \<Rightarrow> msg_class \<Rightarrow> node_id list \<Rightarrow> 'r message list \<Rightarrow> 'r mesh \<Rightarrow> 'r mesh" where
  "encode_and_send ln mono_ms class peers msgs mesh =
     (case encode_frames_for ln peers msgs mesh of (frames, mesh) \<Rightarrow> send_to_each mono_ms class peers frames mesh)"

definition send_departed :: "'r link \<Rightarrow> u64 \<Rightarrow> bytes \<Rightarrow> departed_send list \<Rightarrow> 'r mesh \<Rightarrow> 'r mesh" where
  "send_departed ln mono_ms cache_name plan mesh =
     fold (\<lambda>d. encode_and_send ln mono_ms Class_Invalidate (ds_targets d) (invalidations cache_name (ds_records d))) plan mesh"

definition broadcast_invalidation ::
  "'r link \<Rightarrow> u64 \<Rightarrow> (node_id \<times> u16) list \<Rightarrow> bool \<Rightarrow> bytes \<Rightarrow> wire_record list \<Rightarrow> 'r mesh \<Rightarrow> 'r mesh" where
  "broadcast_invalidation ln mono_ms peers merges cache_name records mesh =
     fold (\<lambda>s. encode_and_send ln mono_ms Class_Invalidate (is_peers s) (is_msgs s)) (invalidation_sends merges peers cache_name records) mesh"

definition broadcast_replicate :: "'r link \<Rightarrow> u64 \<Rightarrow> node_id list \<Rightarrow> bytes \<Rightarrow> wire_record list \<Rightarrow> 'r mesh \<Rightarrow> 'r mesh" where
  "broadcast_replicate ln mono_ms live cache_name records mesh =
     encode_and_send ln mono_ms Class_Replicate live (batch_replicate cache_name records) mesh"

section \<open>One drained burst\<close>

text \<open>What a batch reads of the cluster: this node, the peers with the protocol each speaks, and a monotonic clock.\<close>

record cluster_env =
  ce_node :: node_id
  ce_peers :: "(node_id \<times> u16) list"
  ce_mono_ms :: u64

definition applied_writes :: "'k fan_out_item list \<Rightarrow> ('k \<times> hlc) list" where
  "applied_writes notified = List.map_filter (\<lambda>item. case item of Applied key ver \<Rightarrow> Some (key, ver) | Forwarded _ \<Rightarrow> None) notified"

definition forwarded_records :: "'k fan_out_item list \<Rightarrow> wire_record list" where
  "forwarded_records notified = List.map_filter (\<lambda>item. case item of Applied _ _ \<Rightarrow> None | Forwarded rec \<Rightarrow> Some rec) notified"

definition fan_out_batch ::
  "externs \<Rightarrow> ('k, 'v) codec \<Rightarrow> 'r link \<Rightarrow> 'r waiting_send \<Rightarrow> cluster_env \<Rightarrow> bytes \<Rightarrow> mode \<Rightarrow> 'k fan_out_item list
     \<Rightarrow> 'r mesh \<times> ('k, 'v) shard \<Rightarrow> 'r mesh \<times> ('k, 'v) shard" where
  "fan_out_batch e cd ln send_within cl cache_name m notified st =
     (case st of (mesh, sd) \<Rightarrow>
        let applied = newest_per_key (applied_writes notified);
            forwarded = forwarded_records notified
        in if applied = [] \<and> forwarded = [] then (mesh, sd)
           else
             let fetched = shard_fan_out_records e cd applied sd;
                 records = fr_records fetched @ forwarded;
                 departed = fr_departed fetched;
                 merges = cr_merges (sd_resolver sd)
             in if records = [] \<and> departed = [] then (mesh, sd)
                else case m of
                       Distributed _ \<Rightarrow>
                         (case sd_ownership sd of
                            None \<Rightarrow> (mesh, sd)
                          | Some view \<Rightarrow>
                              let mine = filter (\<lambda>rec. owns view (part_of_key e (wr_key rec))) forwarded;
                                  sd = (if mine = [] then sd else apply_forwarded_batch e cd mine sd);
                                  plan = plan_departed_sends e m [] (Some view) (ce_node cl) merges departed
                              in (snd (fan_out_to_owners e ln send_within cache_name view (ce_node cl) records plan mesh), sd))
                     | _ \<Rightarrow>
                         let mesh =
                               (case m of
                                  Invalidation \<Rightarrow> broadcast_invalidation ln (ce_mono_ms cl) (ce_peers cl) merges cache_name records mesh
                                | Replicated \<Rightarrow> broadcast_replicate ln (ce_mono_ms cl) (map fst (ce_peers cl)) cache_name records mesh
                                | _ \<Rightarrow> mesh);
                             plan = plan_departed_sends e m (map fst (ce_peers cl)) None (ce_node cl) merges departed
                         in (send_departed ln (ce_mono_ms cl) cache_name plan mesh, sd))"

section \<open>Grouping loses nothing\<close>

definition gather :: "'k \<Rightarrow> ('k \<times> 'v list) list \<Rightarrow> 'v list" where
  "gather k items = concat (map snd (filter (\<lambda>x. fst x = k) items))"

definition groups_ok :: "('k \<times> 'v list) list \<Rightarrow> ('k \<Rightarrow> nat option) \<Rightarrow> ('k \<times> 'v list) list \<Rightarrow> bool" where
  "groups_ok items index groups \<longleftrightarrow>
     (\<forall>k i. index k = Some i \<longleftrightarrow> i < length groups \<and> fst (groups ! i) = k) \<and>
     (\<forall>k. index k = None \<longleftrightarrow> k \<notin> fst ` set items) \<and>
     (\<forall>i < length groups. snd (groups ! i) = gather (fst (groups ! i)) items)"

lemma groups_okD:
  assumes "groups_ok items index groups"
  shows "index k = Some i \<longleftrightarrow> i < length groups \<and> fst (groups ! i) = k" and "index k = None \<longleftrightarrow> k \<notin> fst ` set items"
    and "i < length groups \<Longrightarrow> snd (groups ! i) = gather (fst (groups ! i)) items"
  using assms by (simp_all add: groups_ok_def)

lemma gather_snoc: "gather k (items @ [(key, vs)]) = gather k items @ (if key = k then vs else [])"
  by (simp add: gather_def)

lemma gather_absent: "k \<notin> fst ` set items \<Longrightarrow> gather k items = []"
  by (induction items) (auto simp: gather_def)

lemma group_step_ok:
  assumes ok: "groups_ok items index groups" and step: "group_step (key, vs) (index, groups) = (index', groups')"
  shows "groups_ok (items @ [(key, vs)]) index' groups'"
proof (cases "index key")
  case None
  then have new: "key \<notin> fst ` set items" using groups_okD(2)[OF ok] by simp
  have at: "fst (groups ! i) \<noteq> key" if "i < length groups" for i using groups_okD(1)[OF ok, of key i] None that by auto
  have "index' = index(key \<mapsto> length groups)" "groups' = groups @ [(key, vs)]" using step None by auto
  then show ?thesis
    using ok at gather_absent[OF new] unfolding groups_ok_def by (auto simp: nth_append gather_snoc less_Suc_eq)
next
  case (Some j)
  then have j: "j < length groups" "fst (groups ! j) = key" using ok by (auto simp: groups_ok_def)
  then have old: "key \<in> fst ` set items" using ok Some by (metis groups_ok_def option.discI)
  have out: "index' = index" "groups' = groups[j := (key, snd (groups ! j) @ vs)]" using step Some j by auto
  have keys: "fst (groups' ! i) = fst (groups ! i)" if "i < length groups" for i using that j by (auto simp: out nth_list_update)
  have vals: "snd (groups' ! i) = gather (fst (groups ! i)) (items @ [(key, vs)])" if i: "i < length groups" for i
  proof (cases "i = j")
    case True
    then show ?thesis using ok j by (simp add: out groups_ok_def gather_snoc)
  next
    case False
    have "fst (groups ! i) \<noteq> key" using ok i j False unfolding groups_ok_def by (metis option.inject)
    then show ?thesis using ok i False by (simp add: out groups_ok_def gather_snoc)
  qed
  have "length groups' = length groups" by (simp add: out)
  then show ?thesis using ok old keys vals unfolding groups_ok_def out(1) by auto
qed

lemma group_fold_ok: "groups_ok items (fst (fold group_step items (Map.empty, []))) (snd (fold group_step items (Map.empty, [])))"
proof (induction items rule: rev_induct)
  case Nil
  then show ?case by (simp add: groups_ok_def)
next
  case (snoc x items)
  obtain key vs where x: "x = (key, vs)" by fastforce
  show ?case using group_step_ok[OF snoc, of key vs] by (simp add: x)
qed

lemma group_in_order_exact:
  "distinct (map fst (group_in_order items))" "fst ` set (group_in_order items) = fst ` set items"
  "(k, vs) \<in> set (group_in_order items) \<Longrightarrow> vs = gather k items"
proof -
  define index groups where "index = fst (fold group_step items (Map.empty, []))" and "groups = group_in_order items"
  have ok: "groups_ok items index groups" using group_fold_ok[of items] by (simp add: index_def groups_def group_in_order_def)
  have at: "index (fst (groups ! i)) = Some i" if "i < length groups" for i using ok that by (simp add: groups_ok_def)
  show "distinct (map fst (group_in_order items))"
    unfolding groups_def[symmetric] distinct_conv_nth
  proof (intro allI impI)
    fix i j assume "i < length (map fst groups)" "j < length (map fst groups)" "i \<noteq> j"
    then show "map fst groups ! i \<noteq> map fst groups ! j" using at[of i] at[of j] by auto
  qed
  show "fst ` set (group_in_order items) = fst ` set items"
  proof (rule set_eqI)
    fix k
    have "k \<in> fst ` set groups \<longleftrightarrow> (\<exists>i. index k = Some i)" unfolding groups_okD(1)[OF ok] set_conv_nth by force
    also have "\<dots> \<longleftrightarrow> k \<in> fst ` set items" using groups_okD(2)[OF ok, of k] by auto
    finally show "k \<in> fst ` set (group_in_order items) \<longleftrightarrow> k \<in> fst ` set items" by (simp add: groups_def)
  qed
  show "(k, vs) \<in> set (group_in_order items) \<Longrightarrow> vs = gather k items"
    unfolding groups_def[symmetric] in_set_conv_nth using groups_okD(3)[OF ok] by force
qed

lemma gather_singletons: "gather k (map (\<lambda>x. (f x, [x])) xs) = filter (\<lambda>x. f x = k) xs"
  by (induction xs) (auto simp: gather_def)

lemma owner_groups_exact:
  assumes "g \<in> set (group_by_owner_set e view self records)"
  shows "og_records g = filter (\<lambda>rec. record_owners e view self rec = og_owners g) records" and "og_records g \<noteq> []"
proof -
  let ?items = "map (\<lambda>rec. (record_owners e view self rec, [rec])) records"
  have mem: "(og_owners g, og_records g) \<in> set (group_in_order ?items)" using assms by (auto simp: group_by_owner_set_def)
  from group_in_order_exact(3)[OF this] show eq: "og_records g = filter (\<lambda>rec. record_owners e view self rec = og_owners g) records"
    by (simp add: gather_singletons)
  have "og_owners g \<in> fst ` set (group_in_order ?items)" using mem by (rule rev_image_eqI) simp
  then have "og_owners g \<in> fst ` set ?items" unfolding group_in_order_exact(2) .
  then show "og_records g \<noteq> []" unfolding eq by (auto simp: filter_empty_conv)
qed

lemma owner_groups_cover:
  "og_owners ` set (group_by_owner_set e view self records) = record_owners e view self ` set records"
  "distinct (map og_owners (group_by_owner_set e view self records))"
proof -
  let ?items = "map (\<lambda>rec. (record_owners e view self rec, [rec])) records"
  have "map og_owners (group_by_owner_set e view self records) = map fst (group_in_order ?items)"
    by (simp add: group_by_owner_set_def comp_def case_prod_beta)
  then show "og_owners ` set (group_by_owner_set e view self records) = record_owners e view self ` set records"
    "distinct (map og_owners (group_by_owner_set e view self records))"
    using group_in_order_exact(1,2)[of ?items] by (simp_all add: image_image comp_def flip: set_map)
qed

section \<open>Frames reach their owners\<close>

definition frame_ids :: "'r owner_frame list \<Rightarrow> node_id \<Rightarrow> nat list" where
  "frame_ids frames p = filter (\<lambda>i. p \<in> set (wf_targets (frames ! i))) [0..<length frames]"

definition targets_ok :: "'r owner_frame list \<Rightarrow> bool" where
  "targets_ok frames \<longleftrightarrow> list_all (\<lambda>f. distinct (wf_targets f)) frames"

lemma push_targets:
  assumes "distinct owners"
  shows "bm_get (fold (\<lambda>owner m. bm_insert owner (map_or [] (\<lambda>is. is) (bm_get m owner) @ [i]) m) owners m) p =
    (if p \<in> set owners then Some (map_or [] (\<lambda>is. is) (bm_get m p) @ [i]) else bm_get m p)"
  using assms by (induction owners arbitrary: m) auto

lemma frames_by_owner_get:
  assumes "targets_ok frames"
  shows "map_of (frames_by_owner frames) p = (if frame_ids frames p = [] then None else Some (frame_ids frames p))"
proof -
  let ?step = "\<lambda>(i, frame) m. fold (\<lambda>owner m. bm_insert owner (map_or [] (\<lambda>is. is) (bm_get m owner) @ [i]) m) (wf_targets frame) m"
  have "bm_get (fold ?step (enumerate 0 frames) bm_empty) p = (if frame_ids frames p = [] then None else Some (frame_ids frames p))"
    using assms
  proof (induction frames rule: rev_induct)
    case Nil
    then show ?case by (simp add: frame_ids_def)
  next
    case (snoc f frames)
    have ids: "frame_ids (frames @ [f]) p = frame_ids frames p @ (if p \<in> set (wf_targets f) then [length frames] else [])"
      by (auto simp: frame_ids_def nth_append intro: filter_cong)
    have "targets_ok frames" "distinct (wf_targets f)" using snoc.prems by (simp_all add: targets_ok_def)
    then show ?case using snoc.IH by (simp add: enumerate_append_eq ids push_targets)
  qed
  then show ?thesis by (simp add: frames_by_owner_def bm_get_def)
qed

lemma frames_by_owner_entries:
  assumes "targets_ok frames"
  shows "(p, is) \<in> set (frames_by_owner frames) \<longleftrightarrow> is = frame_ids frames p \<and> is \<noteq> []" and "distinct (map fst (frames_by_owner frames))"
proof -
  show d: "distinct (map fst (frames_by_owner frames))" by (simp add: frames_by_owner_def sorted_keys_distinct)
  show "(p, is) \<in> set (frames_by_owner frames) \<longleftrightarrow> is = frame_ids frames p \<and> is \<noteq> []"
    unfolding map_of_eq_Some_iff[OF d, symmetric] frames_by_owner_get[OF assms] by auto
qed

text \<open>The records the frames toward a peer carry, in the order they are sent.\<close>

definition records_to :: "'r owner_frame list \<Rightarrow> node_id \<Rightarrow> wire_record list" where
  "records_to frames p = concat (map (\<lambda>i. msg_records (of_msg (wf_frame (frames ! i)))) (map_or [] (\<lambda>is. is) (map_of (frames_by_owner frames) p)))"

lemma map_nth_filter: "map ((!) xs) (filter (\<lambda>i. P (xs ! i)) [0..<length xs]) = filter P xs"
proof -
  have "filter P (map ((!) xs) [0..<length xs]) = map ((!) xs) (filter (P \<circ> (!) xs) [0..<length xs])" by (simp add: filter_map)
  then show ?thesis by (simp add: map_nth comp_def)
qed

lemma records_to_eq:
  assumes "targets_ok frames"
  shows "records_to frames p = concat (map (\<lambda>f. msg_records (of_msg (wf_frame f))) (filter (\<lambda>f. p \<in> set (wf_targets f)) frames))"
proof -
  have "map_or [] (\<lambda>is. is) (map_of (frames_by_owner frames) p) = frame_ids frames p" by (simp add: frames_by_owner_get[OF assms])
  moreover have "map (\<lambda>i. msg_records (of_msg (wf_frame (frames ! i)))) (frame_ids frames p) =
      map (\<lambda>f. msg_records (of_msg (wf_frame f))) (map ((!) frames) (frame_ids frames p))" by simp
  moreover have "map ((!) frames) (frame_ids frames p) = filter (\<lambda>f. p \<in> set (wf_targets f)) frames"
    unfolding frame_ids_def by (rule map_nth_filter)
  ultimately show ?thesis unfolding records_to_def by simp
qed

section \<open>Encoding a batch\<close>

definition sendable :: "bytes \<Rightarrow> wire_record \<Rightarrow> bool" where
  "sendable cache_name rec \<longleftrightarrow> forward_frame_len (length cache_name) (length (wr_key rec)) (map_or 0 length (wr_value rec)) \<le> max_frame"

lemma batched_bytes_eq: "batched_bytes cache_name rec = 9 + length cache_name + rec_size rec"
  by (simp add: batched_bytes_def replicate_frame_len_def raw_frame_header_len_def record_header_len_def rec_size_bytes length_record_bytes
      value_bytes_def map_or_def split: option.split)

lemma sendable_fits: "sendable cache_name rec \<Longrightarrow> record_fits rec"
  by (auto simp: sendable_def record_fits_def forward_frame_len_def replicate_frame_len_def max_frame_def value_bytes_def map_or_def split: option.splits)

lemma batch_size: "recs \<noteq> [] \<Longrightarrow> 9 + length cache_name + sum_list (map rec_size recs) \<le> sum_list (map (batched_bytes cache_name) recs)"
  by (induction recs rule: list_nonempty_induct) (auto simp: batched_bytes_eq)

lemma forward_batch_encodes:
  assumes "length cache_name < 2 ^ 16" and "batch_ok cache_name recs" and "list_all (sendable cache_name) recs"
  shows "\<exists>frame. out_frame_new ln (ForwardBatch cache_name vh hops recs) = Inr frame \<and> of_msg frame = ForwardBatch cache_name vh hops recs"
proof -
  have fits: "\<forall>r \<in> set recs. record_fits r" using assms(3) sendable_fits by (auto simp: list_all_iff)
  have len: "length (frame_kind_raw_record # frame_body raw_kind_forward_batch cache_name recs (Forward vh hops)) \<le> max_frame"
  proof (cases "length recs = 1")
    case True
    then obtain rec where rec: "recs = [rec]" by (auto simp: length_Suc_conv)
    have "batched_bytes cache_name rec + 9 \<le> max_frame" using assms(3) by (simp add: rec sendable_def forward_frame_len_def forward_header_len_def batched_bytes_def)
    then show ?thesis by (simp add: rec length_frame_of_chunk length_extra_bytes batched_bytes_eq)
  next
    case False
    then have "sum_list (map (batched_bytes cache_name) recs) \<le> 262144" "recs \<noteq> []" using assms(2) by (auto simp: batch_ok_def replicate_batch_budget_def)
    then show ?thesis using batch_size[of recs cache_name] by (simp add: length_frame_of_chunk length_extra_bytes max_frame_def)
  qed
  have "length recs < 2 ^ 32" using assms(2) by (simp add: batch_ok_def replicate_batch_count_def)
  then have "encode (ln_postcard ln) (ForwardBatch cache_name vh hops recs) =
      Inr (frame_kind_raw_record # frame_body raw_kind_forward_batch cache_name recs (Forward vh hops))"
    using assms(1) fits len by (simp add: encode_raw_frame_Inr)
  then show ?thesis by (simp add: out_frame_new_def)
qed

lemma encode_frames_all:
  assumes "\<forall>msg \<in> set msgs. \<exists>frame. out_frame_new ln msg = Inr frame \<and> of_msg frame = msg"
  shows "snd (encode_frames ln msgs) = 0" and "map of_msg (fst (encode_frames ln msgs)) = msgs"
  using assms by (induction msgs) (auto simp: encode_frames_def List.map_filter_def)

lemma encode_forward_frames:
  fixes ln :: "'r link"
  assumes "length cache_name < 2 ^ 16" and "list_all (sendable cache_name) records"
  shows "\<exists>frames. encode_frames_for ln peers (batch_forward cache_name vh hops records) mesh = (frames, mesh) \<and>
    concat (map (\<lambda>f. msg_records (of_msg f)) frames) = records"
proof -
  let ?msgs = "batch_forward cache_name vh hops records :: 'r message list"
  have parts: "set recs \<subseteq> set records" if "recs \<in> set (chunk_records cache_name records)" for recs
    using that chunk_records_exact(1)[of cache_name records] by (metis concat_eq_concat_iff set_concat UN_upper)
  have "\<forall>msg \<in> set ?msgs. \<exists>frame. out_frame_new ln msg = Inr frame \<and> of_msg frame = msg"
  proof
    fix msg assume "msg \<in> set ?msgs"
    then obtain recs where recs: "recs \<in> set (chunk_records cache_name records)" "msg = ForwardBatch cache_name vh hops recs" by (auto simp: batch_forward_def)
    have "batch_ok cache_name recs" using chunk_records_exact(2)[of cache_name records] recs(1) by (simp add: list_all_iff)
    moreover have "list_all (sendable cache_name) recs" using parts[OF recs(1)] assms(2) by (auto simp: list_all_iff)
    ultimately show "\<exists>frame. out_frame_new ln msg = Inr frame \<and> of_msg frame = msg" using forward_batch_encodes[OF assms(1)] by (simp add: recs(2))
  qed
  note all = encode_frames_all[OF this]
  obtain frames n where ef: "encode_frames ln ?msgs = (frames, n)" by fastforce
  have "fold (\<lambda>peer. note_unsent peer 0) peers mesh = mesh" by (induction peers) (simp_all add: note_unsent_def)
  moreover have "concat (map (\<lambda>f. msg_records (of_msg f)) frames) = records"
  proof -
    have "map of_msg frames = ?msgs" using all ef by simp
    then have "concat (map msg_records (map of_msg frames)) = records" by (simp only: batch_forward_records)
    then show ?thesis by (simp add: comp_def)
  qed
  ultimately show ?thesis using all ef by (simp add: encode_frames_for_def)
qed

definition carried :: "'r owner_frame list \<Rightarrow> node_id \<Rightarrow> wire_record list" where
  "carried frames p = concat (map (\<lambda>f. msg_records (of_msg (wf_frame f))) (filter (\<lambda>f. p \<in> set (wf_targets f)) frames))"

lemma carried_append [simp]: "carried (xs @ ys) p = carried xs p @ carried ys p"
  by (simp add: carried_def)

lemma carried_group:
  "carried (owner_frames targets b frames) p = (if p \<in> set targets then concat (map (\<lambda>f. msg_records (of_msg f)) frames) else [])"
  by (simp add: carried_def owner_frames_def comp_def filter_map)

lemma owner_frames_targets: "f \<in> set (owner_frames targets b frames) \<Longrightarrow> wf_targets f = targets"
  by (auto simp: owner_frames_def)

lemma record_frames_exact:
  assumes "length cache_name < 2 ^ 16" and "\<forall>g \<in> set groups. list_all (sendable cache_name) (og_records g)"
  shows "\<exists>new. record_frames ln cache_name vh groups (frames, mesh) = (frames @ new, mesh) \<and>
    (\<forall>f \<in> set new. wf_targets f \<noteq> [] \<and> (\<exists>g \<in> set groups. wf_targets f = og_owners g)) \<and>
    (\<forall>p. carried new p = concat (map og_records (filter (\<lambda>g. p \<in> set (og_owners g)) groups)))"
  using assms(2)
proof (induction groups arbitrary: frames)
  case Nil
  then show ?case by (simp add: carried_def)
next
  case (Cons g groups)
  show ?case
  proof (cases "og_owners g = []")
    case True
    then obtain new where "record_frames ln cache_name vh groups (frames, mesh) = (frames @ new, mesh)"
      "\<forall>f \<in> set new. wf_targets f \<noteq> [] \<and> (\<exists>g \<in> set groups. wf_targets f = og_owners g)"
      "\<forall>p. carried new p = concat (map og_records (filter (\<lambda>g. p \<in> set (og_owners g)) groups))"
      using Cons.IH[of frames] Cons.prems by (meson list.set_intros(2))
    then show ?thesis using True by (intro exI[of _ new]) auto
  next
    case False
    have here: "list_all (sendable cache_name) (og_records g)" using Cons.prems by simp
    obtain fs where fs: "encode_frames_for ln (og_owners g) (batch_forward cache_name vh 0 (og_records g)) mesh = (fs, mesh)"
      "concat (map (\<lambda>f. msg_records (of_msg f)) fs) = og_records g"
      using encode_forward_frames[OF assms(1) here] by metis
    obtain new where new: "record_frames ln cache_name vh groups (frames @ owner_frames (og_owners g) False fs, mesh) =
        ((frames @ owner_frames (og_owners g) False fs) @ new, mesh)"
      "\<forall>f \<in> set new. wf_targets f \<noteq> [] \<and> (\<exists>g \<in> set groups. wf_targets f = og_owners g)"
      "\<forall>p. carried new p = concat (map og_records (filter (\<lambda>g. p \<in> set (og_owners g)) groups))"
      using Cons.IH[of "frames @ owner_frames (og_owners g) False fs"] Cons.prems by (meson list.set_intros(2))
    show ?thesis
      by (rule exI[of _ "owner_frames (og_owners g) False fs @ new"])
        (use False fs new in \<open>auto simp: carried_group dest: owner_frames_targets\<close>)
  qed
qed

lemma one_group:
  assumes "distinct (map og_owners groups)" and "\<And>g. g \<in> set groups \<Longrightarrow> og_owners g \<noteq> ow \<Longrightarrow> h g = []"
    and "\<And>g. g \<in> set groups \<Longrightarrow> og_owners g = ow \<Longrightarrow> h g = xs" and "xs \<noteq> [] \<Longrightarrow> ow \<in> og_owners ` set groups"
  shows "concat (map h (filter (\<lambda>g. P (og_owners g)) groups)) = (if P ow then xs else [])"
  using assms
proof (induction groups)
  case (Cons g groups)
  show ?case
  proof (cases "og_owners g = ow")
    case True
    then have "h g' = []" if g': "g' \<in> set groups" for g'
    proof -
      have "og_owners g' \<noteq> ow" using True g' Cons.prems(1) by (metis distinct.simps(2) imageI list.set_map list.simps(9))
      then show ?thesis using Cons.prems(2)[of g'] g' by simp
    qed
    then have "concat (map h (filter (\<lambda>g. P (og_owners g)) groups)) = []" by simp
    then show ?thesis using True Cons.prems(3)[of g] by simp
  next
    case False
    then show ?thesis using Cons.IH Cons.prems by auto
  qed
qed auto

lemma groups_deliver_key:
  "filter (\<lambda>rec. wr_key rec = kb) (concat (map og_records (filter (\<lambda>g. p \<in> set (og_owners g)) (group_by_owner_set e view self records)))) =
     (if p \<noteq> self \<and> p \<in> set (owners_of view (part_of_key e kb)) then filter (\<lambda>rec. wr_key rec = kb) records else [])"
proof -
  define ow where "ow = sort (filter (\<lambda>n. n \<noteq> self) (owners_of view (part_of_key e kb)))"
  let ?groups = "group_by_owner_set e view self records" and ?h = "\<lambda>g. filter (\<lambda>rec. wr_key rec = kb) (og_records g)"
  have own: "record_owners e view self rec = ow" if "wr_key rec = kb" for rec using that by (simp add: record_owners_def ow_def)
  have h: "?h g = (if og_owners g = ow then filter (\<lambda>rec. wr_key rec = kb) records else [])" if "g \<in> set ?groups" for g
    unfolding owner_groups_exact(1)[OF that] using own by (auto simp: filter_empty_conv intro!: filter_cong)
  have "concat (map ?h (filter (\<lambda>g. p \<in> set (og_owners g)) ?groups)) = (if p \<in> set ow then filter (\<lambda>rec. wr_key rec = kb) records else [])"
  proof (rule one_group[OF owner_groups_cover(2)])
    assume "filter (\<lambda>rec. wr_key rec = kb) records \<noteq> []"
    then obtain rec where "rec \<in> set records" "wr_key rec = kb" by (auto simp: filter_empty_conv)
    then show "ow \<in> og_owners ` set ?groups" unfolding owner_groups_cover(1) using own by auto
  qed (simp_all add: h)
  moreover have "p \<in> set ow \<longleftrightarrow> p \<noteq> self \<and> p \<in> set (owners_of view (part_of_key e kb))" by (auto simp: ow_def)
  ultimately show ?thesis by (simp add: filter_concat comp_def)
qed

section \<open>Delivery\<close>

lemma count_up:
  assumes "\<forall>i \<in> set is. i < length d"
  shows "length (fold (\<lambda>i d. d[i := d ! i + 1]) is d) = length d"
    and "j < length d \<Longrightarrow> fold (\<lambda>i d. d[i := d ! i + (1 :: nat)]) is d ! j = d ! j + count_list is j"
  using assms by (induction "is" arbitrary: d) (auto simp: nth_list_update)

lemma send_to_owners_full:
  assumes "\<And>p fs m. fst (send_within p fs m) = length fs" and "\<forall>(p, is) \<in> set by_owner. \<forall>i \<in> set is. i < length d"
    and "send_to_owners send_within frames by_owner (d, mesh) = (d', mesh')"
  shows "length d' = length d \<and> (\<forall>j < length d. d' ! j = d ! j + (\<Sum>(p, is)\<leftarrow>by_owner. count_list is j))"
  using assms(2,3)
proof (induction by_owner arbitrary: d mesh)
  case (Cons x by_owner)
  obtain p "is" where x: "x = (p, is)" by fastforce
  obtain n m where sw: "send_within p (map (\<lambda>i. wf_frame (frames ! i)) is) mesh = (n, m)" by fastforce
  have n: "n = length is" using assms(1)[of p "map (\<lambda>i. wf_frame (frames ! i)) is" mesh] sw by simp
  let ?d = "fold (\<lambda>i d. d[i := d ! i + 1]) is d"
  have "send_to_owners send_within frames by_owner (?d, m) = (d', mesh')" using Cons.prems(2) by (simp add: x sw n)
  moreover have "\<forall>i \<in> set is. i < length d" using Cons.prems(1) by (simp add: x)
  note up = count_up[OF this]
  ultimately show ?case using Cons.IH[of ?d m] Cons.prems(1) up by (auto simp: x)
qed simp

lemma count_list_distinct: "distinct xs \<Longrightarrow> count_list xs x = (if x \<in> set xs then 1 else 0)"
  by (induction xs) auto

lemma sum_list_indicator: "(\<Sum>(p, is)\<leftarrow>xs. if P p then 1 else (0 :: nat)) = length (filter (\<lambda>(p, _). P p) xs)"
  by (induction xs) auto

lemma owners_counted:
  assumes ok: "targets_ok frames" and j: "j < length frames"
  shows "(\<Sum>(p, is)\<leftarrow>frames_by_owner frames. count_list is j) = length (wf_targets (frames ! j))"
proof -
  let ?bo = "frames_by_owner frames" and ?t = "wf_targets (frames ! j)"
  have d: "distinct (wf_targets (frames ! j))" using ok j by (simp add: targets_ok_def list_all_length)
  have mem: "j \<in> set (frame_ids frames p) \<longleftrightarrow> p \<in> set ?t" for p using j by (simp add: frame_ids_def)
  have "count_list is j = (if p \<in> set ?t then 1 else 0)" if "(p, is) \<in> set ?bo" for p "is"
  proof -
    have "distinct (frame_ids frames p)" by (simp add: frame_ids_def)
    then show ?thesis using frames_by_owner_entries(1)[OF ok, of p "is"] that mem[of p] by (auto simp: count_list_distinct)
  qed
  then have "(\<Sum>(p, is)\<leftarrow>?bo. count_list is j) = (\<Sum>(p, is)\<leftarrow>?bo. if p \<in> set ?t then 1 else 0)"
    by (intro arg_cong[where f = sum_list] map_cong) auto
  also have "\<dots> = length (filter (\<lambda>(p, _). p \<in> set ?t) ?bo)" by (rule sum_list_indicator)
  also have "\<dots> = card (set (map fst (filter (\<lambda>(p, _). p \<in> set ?t) ?bo)))"
    using frames_by_owner_entries(2)[OF ok] by (subst distinct_card) (auto simp: distinct_map_filter)
  also have "set (map fst (filter (\<lambda>(p, _). p \<in> set ?t) ?bo)) = set ?t"
  proof -
    have "p \<in> fst ` set ?bo" if "p \<in> set ?t" for p
    proof -
      have "frame_ids frames p \<noteq> []" using mem[of p] that by auto
      then have "(p, frame_ids frames p) \<in> set ?bo" using frames_by_owner_entries(1)[OF ok] by blast
      then show ?thesis by force
    qed
    then show ?thesis by force
  qed
  finally show ?thesis using d by (simp add: distinct_card)
qed

lemma departed_frames_new:
  "\<exists>new mesh'. departed_frames ln cache_name departed (frames, mesh) = (frames @ new, mesh') \<and>
     (\<forall>f \<in> set new. wf_invalidation f \<and> (\<exists>d \<in> set departed. wf_targets f = ds_targets d))"
proof (induction departed arbitrary: frames mesh)
  case Nil
  show ?case by simp
next
  case (Cons d departed)
  obtain fs m where fs: "encode_frames_for ln (ds_targets d) (invalidations cache_name (ds_records d)) mesh = (fs, m)" by fastforce
  obtain new mesh' where new: "departed_frames ln cache_name departed (frames @ owner_frames (ds_targets d) True fs, m) =
      ((frames @ owner_frames (ds_targets d) True fs) @ new, mesh')"
    "\<forall>f \<in> set new. wf_invalidation f \<and> (\<exists>d \<in> set departed. wf_targets f = ds_targets d)"
    using Cons.IH by blast
  have "\<forall>f \<in> set (owner_frames (ds_targets d) True fs). wf_invalidation f \<and> wf_targets f = ds_targets d" by (auto simp: owner_frames_def)
  then show ?case by (intro exI[of _ "owner_frames (ds_targets d) True fs @ new"] exI[of _ mesh']) (use fs new in auto)
qed

lemma lost_writes_none:
  assumes "length delivered = length frames" and "\<forall>j < length frames. delivered ! j = length (wf_targets (frames ! j))"
    and "\<forall>f \<in> set frames. \<not> wf_invalidation f \<longrightarrow> wf_targets f \<noteq> []"
  shows "lost_writes frames delivered stored = 0"
proof -
  have "lost_in_frame stored frame took = 0" if "(frame, took) \<in> set (zip frames delivered)" for frame took
    using that assms by (auto simp: set_zip lost_in_frame_def split: msg.split control.split)
  then have "\<forall>x \<in> set (zip frames delivered). (case x of (frame, took) \<Rightarrow> usize_to_u64 (lost_in_frame stored frame took)) = 0"
    by (auto simp: usize_to_u64_def)
  then have "map (\<lambda>(frame, took). usize_to_u64 (lost_in_frame stored frame took)) (zip frames delivered) = replicate (length (zip frames delivered)) 0"
    by (intro replicate_eqI) auto
  then show ?thesis unfolding lost_writes_def by (simp only:) (simp add: sum_list_replicate)
qed

lemma owners_distinct: "k \<noteq> 0 \<Longrightarrow> distinct (owners_of (compute_at e self eligible k g) p)"
  by (simp add: owners_of_ranked distinct_ranked)

text \<open>
  C6: a distributed fan-out reaches every owner. Of the records drained from the queue, in whatever
  mix of parts, the frames sent to a peer carry exactly those whose part the peer owns under this
  node's view, each once and the writes of a key in the order they were made, and never one back to this node;
  every batch encodes, so no peer is marked dirty for it. When every outbox takes its frames no write
  is counted lost, whatever invalidations of departed writes go with them.
\<close>

theorem fan_out_reaches_owners:
  fixes ln :: "'r link"
  assumes "view = compute_at e self eligible k g" and "k \<noteq> 0" and "length cache_name < 2 ^ 16" and "list_all (sendable cache_name) records"
    and "list_all (\<lambda>d. distinct (ds_targets d)) departed"
  shows "\<exists>frames. record_frames ln cache_name (ov_view_hash view) (group_by_owner_set e view self records) ([], mesh) = (frames, mesh) \<and>
    (\<forall>p kb. filter (\<lambda>rec. wr_key rec = kb) (records_to frames p) =
       (if p \<noteq> self \<and> p \<in> set (owners_of view (part_of_key e kb)) then filter (\<lambda>rec. wr_key rec = kb) records else [])) \<and>
    ((\<forall>p fs m. fst (send_within p fs m) = length fs) \<longrightarrow>
       fst (fan_out_to_owners e ln send_within cache_name view self records departed mesh) = 0)"
proof -
  let ?groups = "group_by_owner_set e view self records"
  have sendable: "\<forall>grp \<in> set ?groups. list_all (sendable cache_name) (og_records grp)"
    using assms(4) by (auto simp: owner_groups_exact(1) list_all_iff)
  obtain frames where frames: "record_frames ln cache_name (ov_view_hash view) ?groups ([], mesh) = (frames, mesh)"
    and targets: "\<forall>f \<in> set frames. wf_targets f \<noteq> [] \<and> (\<exists>grp \<in> set ?groups. wf_targets f = og_owners grp)"
    and carried: "\<forall>p. carried frames p = concat (map og_records (filter (\<lambda>grp. p \<in> set (og_owners grp)) ?groups))"
    using record_frames_exact[OF assms(3) sendable, of ln "ov_view_hash view" "[]" mesh] by auto
  have dist: "distinct (og_owners grp)" if "grp \<in> set ?groups" for grp
  proof -
    have "og_owners grp \<in> record_owners e view self ` set records" unfolding owner_groups_cover(1)[symmetric] using that by (rule imageI)
    then show ?thesis using owners_distinct[OF assms(2)] by (auto simp: record_owners_def assms(1))
  qed
  then have ok: "targets_ok frames" using targets by (auto simp: targets_ok_def list_all_iff)
  have rec: "records_to frames p = concat (map og_records (filter (\<lambda>grp. p \<in> set (og_owners grp)) ?groups))" for p
    using carried unfolding records_to_eq[OF ok] carried_def by blast
  have "fst (fan_out_to_owners e ln send_within cache_name view self records departed mesh) = 0"
    if full: "\<forall>p fs m. fst (send_within p fs m) = length fs"
  proof -
    obtain new mesh' where new: "departed_frames ln cache_name departed (frames, mesh) = (frames @ new, mesh')"
      "\<forall>f \<in> set new. wf_invalidation f \<and> (\<exists>d \<in> set departed. wf_targets f = ds_targets d)"
      using departed_frames_new by blast
    have ok': "targets_ok (frames @ new)" using ok new(2) assms(5) by (auto simp: targets_ok_def list_all_iff)
    obtain delivered m where sent: "send_to_owners send_within (frames @ new) (frames_by_owner (frames @ new)) (replicate (length (frames @ new)) 0, mesh') = (delivered, m)"
      by fastforce
    have ids: "\<forall>(p, is) \<in> set (frames_by_owner (frames @ new)). \<forall>i \<in> set is. i < length (replicate (length (frames @ new)) (0 :: nat))"
      using frames_by_owner_entries(1)[OF ok'] by (auto simp: frame_ids_def)
    have "\<forall>j < length (frames @ new). delivered ! j = length (wf_targets ((frames @ new) ! j))" "length delivered = length (frames @ new)"
      using send_to_owners_full[OF _ ids sent] full owners_counted[OF ok'] by auto
    then have "lost_writes (frames @ new) delivered stored = 0" for stored using targets new(2) by (intro lost_writes_none) auto
    then show ?thesis using sent by (simp add: fan_out_to_owners_def frames new(1))
  qed
  then show ?thesis using frames rec groups_deliver_key[of _ _ e view self records] by auto
qed

definition demo_fan_out :: "wire_record list" where
  "demo_fan_out = [\<lparr>wr_key = [7], wr_value = Some [1], wr_ver = Hlc 1 0 (NodeId 1), wr_expires = None\<rparr>,
     \<lparr>wr_key = [7], wr_value = Some [2], wr_ver = Hlc 2 0 (NodeId 1), wr_expires = None\<rparr>]"

theorem fan_out_reaches_owners_witness:
  "fst (fan_out_to_owners demo_externs (\<lparr>ln_postcard = (\<lambda>_. None), ln_size_of_msg = 8, ln_size_of_record = 8\<rparr> :: unit link)
     (\<lambda>p fs m. (length fs, m)) [99] (compute_at demo_externs (NodeId 1) [NodeId 2, NodeId 3] 2 By_Part) (NodeId 1) demo_fan_out [] Map.empty) = 0"
proof -
  have "list_all (sendable [99]) demo_fan_out"
    by (simp add: demo_fan_out_def sendable_def forward_frame_len_def replicate_frame_len_def max_frame_def map_or_def raw_frame_header_len_def
        forward_header_len_def record_header_len_def)
  then show ?thesis
    using fan_out_reaches_owners[OF refl, where e = demo_externs and self = "NodeId 1" and eligible = "[NodeId 2, NodeId 3]" and k = 2 and g = By_Part
        and cache_name = "[99]" and records = demo_fan_out and departed = "[]" and send_within = "\<lambda>p fs m. (length fs, m)"] by auto
qed

end
