(* ===== verification/Cluster_Inbound.thy ===== *)
theory Cluster_Inbound
  imports Cluster_Fan_Out
begin

text \<open>
  The consumer of inbound messages (\<^verbatim>\<open>sundog/src/cluster/inbound.rs\<close>): the dispatch of one drained
  burst to the shards it names, with consecutive messages for one cache joined into one apply, and
  the re-forward of a batch that was routed under another ownership view, through a bounded lane per
  peer. The registry is a map from cache names; the code remembers its lookups for the length of a
  burst, during which the registry is fixed here. A lane's worker sends its batches in the background:
  that it takes one is a step of its own, \<open>lane_worker_step\<close>.
\<close>

section \<open>Lanes\<close>

record 'r lane_batch =
  lb_frames :: "'r out_frame list"
  lb_bytes :: nat

record 'r lane =
  la_batches :: "'r lane_batch list"
  la_queued :: nat
  la_dropped_unreported :: u64
  la_last_warn :: "u64 option"
  la_ended :: bool

definition reforward_lane_bytes :: nat where
  "reforward_lane_bytes = 64 * 1024 * 1024"

definition reforward_warn_spacing_ms :: u64 where
  "reforward_warn_spacing_ms = 5000"

definition lane_admits :: "nat \<Rightarrow> nat \<Rightarrow> nat \<Rightarrow> bool" where
  "lane_admits queued batch cap \<longleftrightarrow> queued = 0 \<or> min usize_max (queued + batch) \<le> cap"

definition lane_retired :: "bool \<Rightarrow> bool \<Rightarrow> bool" where
  "lane_retired peer_live worker_ended \<longleftrightarrow> \<not> peer_live \<or> worker_ended"

text \<open>An instant is its milliseconds; the time since a later instant is zero.\<close>

definition warn_due :: "u64 option \<Rightarrow> u64 \<Rightarrow> bool" where
  "warn_due last_warn now = is_none_or (\<lambda>at. reforward_warn_spacing_ms \<le> sat_sub now at) last_warn"

definition frames_bytes :: "'r out_frame list \<Rightarrow> nat" where
  "frames_bytes frames = sum_list (map of_resident frames)"

record 'r reforwarder =
  rw_mesh :: "'r mesh"
  rw_lanes :: "node_id \<Rightarrow> 'r lane option"
  rw_lane_bytes :: nat

definition reforwarder_with_lane_bytes :: "'r mesh \<Rightarrow> nat \<Rightarrow> 'r reforwarder" where
  "reforwarder_with_lane_bytes mesh lane_bytes = \<lparr>rw_mesh = mesh, rw_lanes = Map.empty, rw_lane_bytes = lane_bytes\<rparr>"

definition reforwarder_new :: "'r mesh \<Rightarrow> 'r reforwarder" where
  "reforwarder_new mesh = reforwarder_with_lane_bytes mesh reforward_lane_bytes"

definition lane_new :: "'r lane" where
  "lane_new = \<lparr>la_batches = [], la_queued = 0, la_dropped_unreported = 0, la_last_warn = None, la_ended = False\<rparr>"

definition lane_refuse :: "u64 \<Rightarrow> 'r lane \<Rightarrow> 'r lane" where
  "lane_refuse now lane =
     (if warn_due (la_last_warn lane) now then lane\<lparr>la_last_warn := Some now, la_dropped_unreported := 0\<rparr>
      else lane\<lparr>la_dropped_unreported := la_dropped_unreported lane + 1\<rparr>)"

fun dispatch_attempts :: "nat \<Rightarrow> u64 \<Rightarrow> node_id \<Rightarrow> 'r lane_batch \<Rightarrow> 'r reforwarder \<Rightarrow> 'r reforwarder" where
  "dispatch_attempts 0 now peer batch rw = rw\<lparr>rw_mesh := note_unsent peer (length (lb_frames batch)) (rw_mesh rw)\<rparr>"
| "dispatch_attempts (Suc n) now peer batch rw =
     (let lane = map_or lane_new (\<lambda>lane. lane) (rw_lanes rw peer)
      in if \<not> lane_admits (la_queued lane) (lb_bytes batch) (rw_lane_bytes rw)
         then rw\<lparr>rw_mesh := note_unsent peer (length (lb_frames batch)) (rw_mesh rw), rw_lanes := (rw_lanes rw)(peer \<mapsto> lane_refuse now lane)\<rparr>
         else if la_ended lane then dispatch_attempts n now peer batch (rw\<lparr>rw_lanes := (rw_lanes rw)(peer := None)\<rparr>)
         else rw\<lparr>rw_lanes := (rw_lanes rw)(peer \<mapsto> lane\<lparr>la_batches := la_batches lane @ [batch], la_queued := la_queued lane + lb_bytes batch\<rparr>)\<rparr>)"

definition dispatch :: "u64 \<Rightarrow> node_id \<Rightarrow> 'r out_frame list \<Rightarrow> 'r reforwarder \<Rightarrow> 'r reforwarder" where
  "dispatch now peer frames rw =
     (if frames = [] \<or> \<not> peer_is_live (rw_mesh rw) peer then rw
      else dispatch_attempts 2 now peer \<lparr>lb_frames = frames, lb_bytes = frames_bytes frames\<rparr> rw)"

definition retire_departed :: "'r reforwarder \<Rightarrow> 'r reforwarder" where
  "retire_departed rw =
     rw\<lparr>rw_lanes := (\<lambda>peer. case rw_lanes rw peer of
                         None \<Rightarrow> None
                       | Some lane \<Rightarrow> if lane_retired (peer_is_live (rw_mesh rw) peer) (la_ended lane) then None else Some lane)\<rparr>"

definition lane_worker_step :: "'r waiting_send \<Rightarrow> node_id \<Rightarrow> 'r reforwarder \<Rightarrow> 'r reforwarder" where
  "lane_worker_step send_awaiting peer rw =
     (case rw_lanes rw peer of
        None \<Rightarrow> rw
      | Some lane \<Rightarrow>
          (case la_batches lane of
             [] \<Rightarrow> rw
           | batch # batches \<Rightarrow>
               rw\<lparr>rw_mesh := snd (send_awaiting peer (lb_frames batch) (rw_mesh rw)),
                  rw_lanes := (rw_lanes rw)(peer \<mapsto> lane\<lparr>la_batches := batches, la_queued := la_queued lane - lb_bytes batch\<rparr>)\<rparr>))"

section \<open>Re-forwarding\<close>

definition max_forward_hops :: u8 where
  "max_forward_hops = 1"

definition reforward_groups ::
  "externs \<Rightarrow> ownership_view \<Rightarrow> node_id \<Rightarrow> node_id \<Rightarrow> u64 \<Rightarrow> u8 \<Rightarrow> wire_record list \<Rightarrow> owner_group list option" where
  "reforward_groups e view self_node from sender_view_hash hops records =
     (if max_forward_hops \<le> hops \<or> sender_view_hash = ov_view_hash view then None
      else Some (filter (\<lambda>g. og_owners g \<noteq> [])
             (map (\<lambda>g. g\<lparr>og_owners := filter (\<lambda>n. n \<noteq> from) (og_owners g)\<rparr>) (group_by_owner_set e view self_node records))))"

definition reforward_group :: "'r link \<Rightarrow> u64 \<Rightarrow> bytes \<Rightarrow> u64 \<Rightarrow> u8 \<Rightarrow> owner_group \<Rightarrow> 'r reforwarder \<Rightarrow> 'r reforwarder" where
  "reforward_group ln now cache_name vh hops g rw =
     (case encode_frames_for ln (og_owners g) (batch_forward cache_name vh (hops + 1) (og_records g)) (rw_mesh rw) of
        (frames, mesh) \<Rightarrow> fold (\<lambda>peer. dispatch now peer frames) (og_owners g) (rw\<lparr>rw_mesh := mesh\<rparr>))"

definition reforward_stale_view ::
  "externs \<Rightarrow> 'r link \<Rightarrow> u64 \<Rightarrow> node_id \<Rightarrow> node_id \<Rightarrow> ownership_view option \<Rightarrow> bytes \<Rightarrow> u64 \<Rightarrow> u8 \<Rightarrow> wire_record list
     \<Rightarrow> 'r reforwarder \<Rightarrow> 'r reforwarder" where
  "reforward_stale_view e ln now self_node from view cache_name sender_view_hash hops records rw =
     (case view of
        None \<Rightarrow> rw
      | Some view \<Rightarrow>
          (case reforward_groups e view self_node from sender_view_hash hops records of
             None \<Rightarrow> rw
           | Some groups \<Rightarrow> fold (reforward_group ln now cache_name (ov_view_hash view) hops) groups rw))"

definition writer_kept :: "externs \<Rightarrow> ownership_view \<Rightarrow> node_id \<Rightarrow> u64 \<Rightarrow> wire_record \<Rightarrow> bool" where
  "writer_kept e view from sent_under rec \<longleftrightarrow>
     hlc_node (wr_ver rec) = from \<and> sent_under = ov_view_hash view \<and> from \<in> set (owners_of view (part_of_key e (wr_key rec)))"

section \<open>Runs\<close>

record pending_run =
  pr_cache :: bytes
  pr_forwarded :: bool
  pr_recs :: "wire_record list"
  pr_kept :: "wire_record list"

record ('k, 'v) open_cache =
  oc_codec :: "('k, 'v) codec"
  oc_refresh :: "'k refresh option"
  oc_shard :: "('k, 'v) shard"

type_synonym ('k, 'v) registry = "bytes \<Rightarrow> ('k, 'v) open_cache option"

definition same_run :: "(bytes \<times> bool) option \<Rightarrow> bytes \<Rightarrow> bool \<Rightarrow> bool" where
  "same_run pending cache forwarded = is_some_and (\<lambda>(pending_cache, pending_forwarded). pending_cache = cache \<and> pending_forwarded = forwarded) pending"

definition on_shard :: "bytes \<Rightarrow> (('k, 'v) codec \<Rightarrow> ('k, 'v) shard \<Rightarrow> ('k, 'v) shard) \<Rightarrow> ('k, 'v) registry \<Rightarrow> ('k, 'v) registry" where
  "on_shard cache f shards =
     (case shards cache of None \<Rightarrow> shards | Some oc \<Rightarrow> shards(cache \<mapsto> oc\<lparr>oc_shard := f (oc_codec oc) (oc_shard oc)\<rparr>))"

definition apply_pending_run :: "externs \<Rightarrow> pending_run \<Rightarrow> ('k, 'v) registry \<Rightarrow> ('k, 'v) registry" where
  "apply_pending_run e run shards =
     on_shard (pr_cache run)
       (\<lambda>cd. if pr_forwarded run then apply_forward_run e cd (pr_recs run) (pr_kept run) else apply_remote_batch e cd (pr_recs run)) shards"

definition take_pending :: "externs \<Rightarrow> pending_run option \<Rightarrow> ('k, 'v) registry \<Rightarrow> ('k, 'v) registry" where
  "take_pending e pending shards = (case pending of None \<Rightarrow> shards | Some run \<Rightarrow> apply_pending_run e run shards)"

definition queue_run ::
  "externs \<Rightarrow> bytes \<Rightarrow> bool \<Rightarrow> wire_record list \<times> wire_record list \<Rightarrow> ('k, 'v) registry \<times> pending_run option
     \<Rightarrow> ('k, 'v) registry \<times> pending_run option" where
  "queue_run e cache forwarded split st =
     (case st of (shards, pending) \<Rightarrow>
        case split of (recs, kept) \<Rightarrow>
          let fresh = (take_pending e pending shards, Some \<lparr>pr_cache = cache, pr_forwarded = forwarded, pr_recs = recs, pr_kept = kept\<rparr>)
          in case pending of
               Some run \<Rightarrow>
                 if same_run (Some (pr_cache run, pr_forwarded run)) cache forwarded
                 then (shards, Some (run\<lparr>pr_recs := pr_recs run @ recs, pr_kept := pr_kept run @ kept\<rparr>))
                 else fresh
             | None \<Rightarrow> fresh)"

section \<open>One burst\<close>

record 'r inbound_msg =
  im_from :: node_id
  im_msg :: "'r message"

definition inbound_drain_cap :: nat where
  "inbound_drain_cap = 1024"

definition note_streaming_peers :: "'r inbound_msg list \<Rightarrow> node_id set" where
  "note_streaming_peers drained =
     fold (\<lambda>m from. case im_msg m of
                      Replicate _ _ \<Rightarrow> insert (im_from m) from
                    | ReplicateBatch _ _ \<Rightarrow> insert (im_from m) from
                    | ForwardBatch _ _ _ _ \<Rightarrow> insert (im_from m) from
                    | _ \<Rightarrow> from) drained {}"

record ('k, 'v, 'r) inbound_state =
  ib_shards :: "('k, 'v) registry"
  ib_pending :: "pending_run option"
  ib_reforwarder :: "'r reforwarder"

definition queue_in ::
  "externs \<Rightarrow> bytes \<Rightarrow> bool \<Rightarrow> wire_record list \<times> wire_record list \<Rightarrow> ('k, 'v, 'r) inbound_state \<Rightarrow> ('k, 'v, 'r) inbound_state" where
  "queue_in e cache forwarded split st =
     (case queue_run e cache forwarded split (ib_shards st, ib_pending st) of (shards, pending) \<Rightarrow> st\<lparr>ib_shards := shards, ib_pending := pending\<rparr>)"

definition split_kept :: "externs \<Rightarrow> ownership_view option \<Rightarrow> node_id \<Rightarrow> u64 \<Rightarrow> wire_record list \<Rightarrow> wire_record list \<times> wire_record list" where
  "split_kept e view from vh recs =
     (case view of
        None \<Rightarrow> (recs, [])
      | Some view \<Rightarrow> let (kept, held_recs) = partition (writer_kept e view from vh) recs in (held_recs, kept))"

definition flush_in :: "externs \<Rightarrow> ('k, 'v, 'r) inbound_state \<Rightarrow> ('k, 'v, 'r) inbound_state" where
  "flush_in e st = st\<lparr>ib_shards := take_pending e (ib_pending st) (ib_shards st), ib_pending := None\<rparr>"

fun inbound_step ::
  "externs \<Rightarrow> 'r link \<Rightarrow> u64 \<Rightarrow> node_id \<Rightarrow> node_id \<Rightarrow> 'r message \<Rightarrow> ('k, 'v, 'r) inbound_state \<Rightarrow> ('k, 'v, 'r) inbound_state" where
  "inbound_step e ln now self_node from (Replicate cache rec) st = queue_in e cache False ([rec], []) st"
| "inbound_step e ln now self_node from (ReplicateBatch cache recs) st = queue_in e cache False (recs, []) st"
| "inbound_step e ln now self_node from (ForwardBatch cache vh hops recs) st =
     (case ib_shards st cache of
        None \<Rightarrow> queue_in e cache True (recs, []) st
      | Some oc \<Rightarrow>
          queue_in e cache True (split_kept e (sd_ownership (oc_shard oc)) from vh recs)
            (st\<lparr>ib_reforwarder := reforward_stale_view e ln now self_node from (sd_ownership (oc_shard oc)) cache vh hops recs (ib_reforwarder st)\<rparr>))"
| "inbound_step e ln now self_node from (Control (Invalidate cache key ver)) st =
     (let st = flush_in e st in st\<lparr>ib_shards := on_shard cache (\<lambda>cd. invalidate_key e cd key ver False) (ib_shards st)\<rparr>)"
| "inbound_step e ln now self_node from (Control (RefreshHint cache key ver)) st =
     (case ib_shards st cache of
        None \<Rightarrow> st
      | Some oc \<Rightarrow>
          st\<lparr>ib_shards := (ib_shards st)(cache \<mapsto> oc\<lparr>oc_refresh := take_refresh_hint e (oc_codec oc) key ver (oc_refresh oc, oc_shard oc)\<rparr>)\<rparr>)"
| "inbound_step e ln now self_node from _ st = st"

definition inbound_burst ::
  "externs \<Rightarrow> 'r link \<Rightarrow> u64 \<Rightarrow> node_id \<Rightarrow> 'r inbound_msg list \<Rightarrow> ('k, 'v) registry \<Rightarrow> 'r reforwarder \<Rightarrow> ('k, 'v, 'r) inbound_state" where
  "inbound_burst e ln now self_node drained shards rw =
     flush_in e (fold (\<lambda>m. inbound_step e ln now self_node (im_from m) (im_msg m)) drained
       \<lparr>ib_shards = shards, ib_pending = None, ib_reforwarder = retire_departed rw\<rparr>)"

section \<open>What a burst applies\<close>

lemma lww_fold_tie: "m k = Some (v, c) \<Longrightarrow> fold lww_put ws m k = Some (v, c') \<Longrightarrow> c' = c"
proof (induction ws arbitrary: m v c)
  case (Cons w ws)
  obtain v1 c1 where put: "lww_put w m k = Some (v1, c1)" "v < v1 \<or> (v1 = v \<and> c1 = c)"
  proof (cases "fst w = k \<and> v < fst (snd w)")
    case True
    then show thesis using that[of "fst (snd w)" "snd (snd w)"] Cons.prems(1) by (cases w) (simp add: lww_put_def)
  next
    case False
    then show thesis using that[of v c] Cons.prems(1) by (cases w; cases "fst w = k") (auto simp: lww_put_def)
  qed
  have run: "fold lww_put ws (lww_put w m) k = Some (v, c')" using Cons.prems(2) by simp
  obtain v2 c2 where "fold lww_put ws (lww_put w m) k = Some (v2, c2)" "v1 \<le> v2" using lww_fold_max(2)[of k v1 c1 ws "lww_put w m"] put(1) by auto
  then have "v1 = v" "c1 = c" using run put(2) by auto
  then show ?case using Cons.IH[of "lww_put w m"] put(1) run by simp
qed simp

lemma well_stamped_subset: "well_stamped ws \<Longrightarrow> set ws' \<subseteq> set ws \<Longrightarrow> well_stamped ws'"
  unfolding well_stamped_def split_beta by (meson subsetD)

text \<open>The order of the writes does not matter, whatever the registers held before.\<close>

lemma lww_order_free:
  assumes stamped: "well_stamped ws" and same: "set ws = set ws'"
  shows "fold lww_put ws m = fold lww_put ws' m"
proof
  fix k
  have sub: "fold lww_put ws2 m k = Some (v, c)" if "fold lww_put ws1 m k = Some (v, c)" "set ws1 = set ws2" "well_stamped ws1" for ws1 ws2 v c
  proof -
    have "m k = Some (v, c) \<or> (k, v, c) \<in> set ws2" using lww_fold_max(1)[OF that(1)] that(2) by blast
    then obtain v' c' where other: "fold lww_put ws2 m k = Some (v', c')" "v \<le> v'" using lww_fold_max(2)[of k v c ws2 m] by blast
    then have orig: "m k = Some (v', c') \<or> (k, v', c') \<in> set ws1" using lww_fold_max(1)[OF other(1)] that(2) by blast
    then obtain v1 c1 where "fold lww_put ws1 m k = Some (v1, c1)" "v' \<le> v1" using lww_fold_max(2)[of k v' c' ws1 m] by blast
    then have v: "v' = v" using that(1) other(2) by simp
    have "c' = c"
    proof (cases "m k")
      case None
      then have "(k, v, c) \<in> set ws1" "(k, v, c') \<in> set ws1" using lww_fold_max(1)[OF that(1)] orig v by auto
      then show ?thesis using that(3) by (auto simp: well_stamped_def)
    next
      case (Some x)
      obtain v0 c0 where x: "x = (v0, c0)" by fastforce
      show ?thesis
      proof (cases "v0 = v")
        case True
        then show ?thesis using lww_fold_tie[of m k v c0 ws1 c] lww_fold_tie[of m k v c0 ws2 c'] Some x v that(1) other(1) by simp
      next
        case False
        then have "(k, v, c) \<in> set ws1" "(k, v, c') \<in> set ws1" using lww_fold_max(1)[OF that(1)] orig v Some x by auto
        then show ?thesis using that(3) by (auto simp: well_stamped_def)
      qed
    qed
    then show ?thesis using other(1) v by simp
  qed
  have stamped': "well_stamped ws'" using stamped same by (simp add: well_stamped_def)
  show "fold lww_put ws m k = fold lww_put ws' m k"
  proof (cases "fold lww_put ws m k")
    case (Some x)
    then show ?thesis using sub[of ws "fst x" "snd x" ws'] stamped same by simp
  next
    case None
    show ?thesis
    proof (cases "fold lww_put ws' m k")
      case (Some x)
      then show ?thesis using sub[of ws' "fst x" "snd x" ws] stamped' same None by simp
    qed (use None in simp)
  qed
qed

fun cache_records :: "bytes \<Rightarrow> 'r message \<Rightarrow> wire_record list" where
  "cache_records c (Replicate cache rec) = (if cache = c then [rec] else [])"
| "cache_records c (ReplicateBatch cache recs) = (if cache = c then recs else [])"
| "cache_records c (ForwardBatch cache vh hops recs) = (if cache = c then recs else [])"
| "cache_records c _ = []"

definition burst_records :: "bytes \<Rightarrow> 'r inbound_msg list \<Rightarrow> wire_record list" where
  "burst_records c drained = concat (map (\<lambda>m. cache_records c (im_msg m)) drained)"

fun invalidates :: "'r message \<Rightarrow> bool" where
  "invalidates (Control (Invalidate cache key ver)) = True"
| "invalidates _ = False"

definition run_records :: "bytes \<Rightarrow> pending_run option \<Rightarrow> wire_record list" where
  "run_records c pending = (case pending of None \<Rightarrow> [] | Some run \<Rightarrow> if pr_cache run = c then pr_recs run @ pr_kept run else [])"

definition run_ok :: "pending_run option \<Rightarrow> bool" where
  "run_ok pending \<longleftrightarrow> is_none_or (\<lambda>run. pr_forwarded run \<or> pr_kept run = []) pending"

text \<open>
  A cache in the middle of a burst: its registers hold the records applied so far, which with those
  of the run in progress are the records that have arrived for it.
\<close>

definition caught_up ::
  "externs \<Rightarrow> bytes \<Rightarrow> ('k, 'v) open_cache \<Rightarrow> nat \<Rightarrow> wire_record list \<Rightarrow> ('k, 'v) registry \<Rightarrow> bool" where
  "caught_up e c oc0 L applied shards \<longleftrightarrow>
     (\<exists>oc. shards c = Some oc \<and> oc_codec oc = oc_codec oc0 \<and> lww_shard e (oc_shard oc) \<and> same_terms (oc_shard oc0) (oc_shard oc) \<and>
        registers_of e (sd_engine (oc_shard oc)) =
          fold lww_put (map rec_write (filter (admitted e (oc_codec oc0) (oc_shard oc0)) applied)) (registers_of e (sd_engine (oc_shard oc0))) \<and>
        unat (logical (clock_last (sd_clock (oc_shard oc)))) \<le> L + length applied)"

definition arrivals_ok :: "('k, 'v) shard \<Rightarrow> nat \<Rightarrow> wire_record list \<Rightarrow> bool" where
  "arrivals_ok sd L recs \<longleftrightarrow> (\<forall>rec \<in> set recs. length (wr_key rec) < 2 ^ 32 \<and> unat (logical (wr_ver rec)) \<le> L \<and> arrives_in_time sd rec)"

lemma same_terms_trans: "same_terms a b \<Longrightarrow> same_terms b c \<Longrightarrow> same_terms a c"
  by (simp add: same_terms_def)

lemma run_applies:
  assumes caught: "caught_up e c oc0 L applied shards" and run: "run_ok pending" and ext: "externs_ok e"
    and mode: "sd_mode (oc_shard oc0) \<noteq> Invalidation" and recs: "arrivals_ok (oc_shard oc0) L (run_records c pending)"
    and room: "L + length (applied @ run_records c pending) < 2 ^ 32"
  shows "caught_up e c oc0 L (applied @ run_records c pending) (take_pending e pending shards)"
proof (cases "\<exists>run. pending = Some run \<and> pr_cache run = c")
  case False
  then have "take_pending e pending shards c = shards c" "run_records c pending = []"
    by (auto simp: take_pending_def run_records_def apply_pending_run_def on_shard_def split: option.splits)
  then show ?thesis using caught by (simp add: caught_up_def)
next
  case True
  then obtain run where p: "pending = Some run" "pr_cache run = c" by blast
  let ?sd0 = "oc_shard oc0" and ?cd = "oc_codec oc0" and ?recs = "run_records c pending"
  obtain oc where oc: "shards c = Some oc" "oc_codec oc = ?cd" "lww_shard e (oc_shard oc)" "same_terms ?sd0 (oc_shard oc)"
    "registers_of e (sd_engine (oc_shard oc)) = fold lww_put (map rec_write (filter (admitted e ?cd ?sd0) applied)) (registers_of e (sd_engine ?sd0))"
    "unat (logical (clock_last (sd_clock (oc_shard oc)))) \<le> L + length applied"
    using caught by (auto simp: caught_up_def)
  note terms = same_terms_eq[OF oc(4)]
  obtain inb where inb: "(if pr_forwarded run then apply_forward_run e ?cd (pr_recs run) (pr_kept run) else apply_remote_batch e ?cd (pr_recs run)) (oc_shard oc) =
      apply_inbound e ?cd ?recs inb (oc_shard oc)"
    using run by (cases "pr_forwarded run") (auto simp: p run_records_def run_ok_def apply_forward_run_def apply_remote_batch_def)
  have k: "\<forall>rec \<in> set ?recs. length (wr_key rec) < 2 ^ 32 \<and> unat (logical (wr_ver rec)) \<le> L + length applied \<and> arrives_in_time (oc_shard oc) rec"
    using recs by (auto simp: arrivals_ok_def terms)
  have m: "sd_mode (oc_shard oc) \<noteq> Invalidation" using mode terms(3) by simp
  have "L + length applied + length ?recs < 2 ^ 32" using room by simp
  note ap = apply_inbound_lww[OF oc(3) ext m k oc(6) this, of ?cd inb]
  have at: "take_pending e pending shards c = Some (oc\<lparr>oc_shard := apply_inbound e ?cd ?recs inb (oc_shard oc)\<rparr>)"
    using p oc(1,2) inb by (cases "pr_forwarded run") (simp_all add: take_pending_def apply_pending_run_def on_shard_def)
  have "same_terms ?sd0 (apply_inbound e ?cd ?recs inb (oc_shard oc))" using same_terms_trans[OF oc(4)] ap by blast
  then show ?thesis unfolding caught_up_def at using ap oc(2,5) by (auto simp: terms add.assoc)
qed

lemma queue_applies:
  assumes caught: "caught_up e c oc0 L applied shards" and run: "run_ok pending" and ext: "externs_ok e"
    and mode: "sd_mode (oc_shard oc0) \<noteq> Invalidation" and recs: "arrivals_ok (oc_shard oc0) L (run_records c pending)"
    and room: "L + length (applied @ run_records c pending) < 2 ^ 32" and kept: "forwarded \<or> kept = []"
    and q: "queue_run e cache forwarded (xs, kept) (shards, pending) = (shards', pending')"
  shows "\<exists>applied'. caught_up e c oc0 L applied' shards' \<and> run_ok pending' \<and>
    mset (applied' @ run_records c pending') = mset (applied @ run_records c pending @ (if cache = c then xs @ kept else []))"
proof (cases "\<exists>run. pending = Some run \<and> pr_cache run = cache \<and> pr_forwarded run = forwarded")
  case True
  then obtain run where p: "pending = Some run" "pr_cache run = cache" "pr_forwarded run = forwarded" by blast
  then have out: "shards' = shards" "pending' = Some (run\<lparr>pr_recs := pr_recs run @ xs, pr_kept := pr_kept run @ kept\<rparr>)"
    using q by (auto simp: queue_run_def same_run_def is_some_and_def Let_def)
  show ?thesis
    by (rule exI[of _ applied]) (use caught run kept p in \<open>auto simp: out run_ok_def run_records_def\<close>)
next
  case False
  then have out: "shards' = take_pending e pending shards" "pending' = Some \<lparr>pr_cache = cache, pr_forwarded = forwarded, pr_recs = xs, pr_kept = kept\<rparr>"
    using q by (auto simp: queue_run_def same_run_def is_some_and_def Let_def split: option.splits if_splits)
  show ?thesis
    by (rule exI[of _ "applied @ run_records c pending"])
      (use run_applies[OF caught run ext mode recs room] kept in \<open>auto simp: out run_ok_def run_records_def\<close>)
qed

lemma split_kept_records: "mset (fst (split_kept e view from vh recs) @ snd (split_kept e view from vh recs)) = mset recs"
  by (cases view) (simp_all add: split_kept_def Let_def multiset_partition[symmetric] add.commute mset_filter)

definition mid_burst ::
  "externs \<Rightarrow> bytes \<Rightarrow> ('k, 'v) open_cache \<Rightarrow> nat \<Rightarrow> wire_record list \<Rightarrow> ('k, 'v, 'r) inbound_state \<Rightarrow> bool" where
  "mid_burst e c oc0 L seen st \<longleftrightarrow> run_ok (ib_pending st) \<and>
     (\<exists>applied. caught_up e c oc0 L applied (ib_shards st) \<and> mset (applied @ run_records c (ib_pending st)) = mset seen)"

lemma mid_burst_queue:
  assumes mid: "mid_burst e c oc0 L seen st" and ext: "externs_ok e" and mode: "sd_mode (oc_shard oc0) \<noteq> Invalidation"
    and ok: "arrivals_ok (oc_shard oc0) L seen" and room: "L + length seen < 2 ^ 32" and kept: "forwarded \<or> snd split = []"
  shows "mid_burst e c oc0 L (seen @ (if cache = c then fst split @ snd split else [])) (queue_in e cache forwarded split st)"
proof -
  obtain applied where ap: "run_ok (ib_pending st)" "caught_up e c oc0 L applied (ib_shards st)" "mset (applied @ run_records c (ib_pending st)) = mset seen"
    using mid by (auto simp: mid_burst_def)
  have recs: "arrivals_ok (oc_shard oc0) L (run_records c (ib_pending st))" using ok mset_eq_setD[OF ap(3)] by (auto simp: arrivals_ok_def)
  have len: "L + length (applied @ run_records c (ib_pending st)) < 2 ^ 32" using room mset_eq_length[OF ap(3)] by simp
  obtain xs kp where split: "split = (xs, kp)" by fastforce
  obtain shards' pending' where q: "queue_run e cache forwarded (xs, kp) (ib_shards st, ib_pending st) = (shards', pending')" by fastforce
  have "forwarded \<or> kp = []" using kept split by simp
  from queue_applies[OF ap(2,1) ext mode recs len this q] ap(3) show ?thesis
    by (auto simp: mid_burst_def queue_in_def split q add.assoc[symmetric])
qed

lemma mid_burst_step:
  assumes mid: "mid_burst e c oc0 L seen st" and ext: "externs_ok e" and mode: "sd_mode (oc_shard oc0) \<noteq> Invalidation"
    and ok: "arrivals_ok (oc_shard oc0) L seen" and room: "L + length seen < 2 ^ 32" and msg: "\<not> invalidates msg"
  shows "mid_burst e c oc0 L (seen @ cache_records c msg) (inbound_step e ln now self from msg st)"
proof (cases msg)
  case (Replicate cache rec)
  then show ?thesis using mid_burst_queue[OF mid ext mode ok room, of False "([rec], [])" cache] by (cases "cache = c") simp_all
next
  case (ReplicateBatch cache recs)
  then show ?thesis using mid_burst_queue[OF mid ext mode ok room, of False "(recs, [])" cache] by (cases "cache = c") simp_all
next
  case (ForwardBatch cache vh hops recs)
  show ?thesis
  proof (cases "ib_shards st cache")
    case None
    then show ?thesis using mid_burst_queue[OF mid ext mode ok room, of True "(recs, [])" cache] ForwardBatch by (cases "cache = c") simp_all
  next
    case (Some oc)
    let ?st = "st\<lparr>ib_reforwarder := reforward_stale_view e ln now self from (sd_ownership (oc_shard oc)) cache vh hops recs (ib_reforwarder st)\<rparr>"
    let ?split = "split_kept e (sd_ownership (oc_shard oc)) from vh recs"
    have "mid_burst e c oc0 L seen ?st" using mid by (simp add: mid_burst_def)
    from mid_burst_queue[OF this ext mode ok room, of True ?split cache] split_kept_records[of e "sd_ownership (oc_shard oc)" "from" vh recs]
    show ?thesis using Some ForwardBatch by (auto simp: mid_burst_def)
  qed
next
  case (Control m)
  show ?thesis
  proof (cases m)
    case (RefreshHint cache key ver)
    show ?thesis
    proof (cases "ib_shards st cache")
      case (Some oc)
      then have "caught_up e c oc0 L applied (ib_shards st) \<Longrightarrow>
          caught_up e c oc0 L applied ((ib_shards st)(cache \<mapsto> oc\<lparr>oc_refresh := r\<rparr>))" for applied r
        by (cases "cache = c") (auto simp: caught_up_def)
      then show ?thesis using mid Some Control RefreshHint by (auto simp: mid_burst_def)
    qed (use mid Control RefreshHint in simp)
  qed (use mid msg Control in simp_all)
qed (use mid in simp_all)

lemma burst_registers:
  assumes "shards c = Some oc" and "lww_shard e (oc_shard oc)" and "externs_ok e" and "sd_mode (oc_shard oc) \<noteq> Invalidation"
    and "arrivals_ok (oc_shard oc) L (burst_records c drained)" and "L + length (burst_records c drained) < 2 ^ 32"
    and "unat (logical (clock_last (sd_clock (oc_shard oc)))) \<le> L"
    and "\<forall>m \<in> set drained. \<not> invalidates (im_msg m)" and "well_stamped (map rec_write (burst_records c drained))"
  shows "\<exists>oc'. ib_shards (inbound_burst e ln now self drained shards rw) c = Some oc' \<and> lww_shard e (oc_shard oc') \<and>
    registers_of e (sd_engine (oc_shard oc')) =
      fold lww_put (map rec_write (filter (admitted e (oc_codec oc) (oc_shard oc)) (burst_records c drained))) (registers_of e (sd_engine (oc_shard oc))) \<and>
    ib_pending (inbound_burst e ln now self drained shards rw) = None"
proof -
  let ?st0 = "\<lparr>ib_shards = shards, ib_pending = None, ib_reforwarder = retire_departed rw\<rparr>"
  let ?step = "\<lambda>m. inbound_step e ln now self (im_from m) (im_msg m)"
  have mid: "mid_burst e c oc L (burst_records c drained) (fold ?step drained ?st0)"
    using assms(5,6,8)
  proof (induction drained rule: rev_induct)
    case Nil
    have "caught_up e c oc L [] shards" using assms(1,2,7) by (simp add: caught_up_def same_terms_def)
    then show ?case by (auto simp: mid_burst_def run_ok_def run_records_def burst_records_def)
  next
    case (snoc m drained)
    have all: "burst_records c (drained @ [m]) = burst_records c drained @ cache_records c (im_msg m)" by (simp add: burst_records_def)
    have ok: "arrivals_ok (oc_shard oc) L (burst_records c drained)" "L + length (burst_records c drained) < 2 ^ 32"
      using snoc.prems(1,2) by (auto simp: all arrivals_ok_def)
    have before: "mid_burst e c oc L (burst_records c drained) (fold ?step drained ?st0)" using snoc.IH[OF ok] snoc.prems(3) by simp
    have "\<not> invalidates (im_msg m)" using snoc.prems(3) by simp
    from mid_burst_step[OF before assms(3,4) ok this, of ln now self "im_from m"] show ?case by (simp add: all)
  qed
  define st where "st = fold ?step drained ?st0"
  obtain applied where ap: "run_ok (ib_pending st)" "caught_up e c oc L applied (ib_shards st)"
    "mset (applied @ run_records c (ib_pending st)) = mset (burst_records c drained)"
    using mid by (auto simp: mid_burst_def st_def)
  have recs: "arrivals_ok (oc_shard oc) L (run_records c (ib_pending st))" using assms(5) mset_eq_setD[OF ap(3)] by (auto simp: arrivals_ok_def)
  have "L + length (applied @ run_records c (ib_pending st)) < 2 ^ 32" using assms(6) mset_eq_length[OF ap(3)] by simp
  note final = run_applies[OF ap(2,1) assms(3,4) recs this]
  let ?adm = "admitted e (oc_codec oc) (oc_shard oc)"
  let ?ws = "map rec_write (filter ?adm (applied @ run_records c (ib_pending st)))"
  have "set ?ws = set (map rec_write (filter ?adm (burst_records c drained)))" using mset_eq_setD[OF ap(3)] by auto
  moreover have "well_stamped (map rec_write (filter ?adm (burst_records c drained)))" by (rule well_stamped_subset[OF assms(9)]) auto
  ultimately have same: "fold lww_put ?ws m = fold lww_put (map rec_write (filter ?adm (burst_records c drained))) m" for m
    using lww_order_free by metis
  show ?thesis using final same by (auto simp: inbound_burst_def st_def[symmetric] flush_in_def caught_up_def)
qed

text \<open>
  C7: joining messages into runs is invisible. A burst of record messages for any mix of caches,
  drained in one wake, leaves each open cache with the registers its admitted records write in the
  order they arrived, whatever runs they were applied in, whatever the other caches received in
  between, and although a forward run applies the records it may have to hold before those their
  writer kept. No run is left unapplied.
\<close>

theorem burst_applies_every_record:
  assumes "shards c = Some oc" and "lww_shard e (oc_shard oc)" and "externs_ok e" and "sd_mode (oc_shard oc) \<noteq> Invalidation"
    and "arrivals_ok (oc_shard oc) L (burst_records c drained)" and "L + length (burst_records c drained) < 2 ^ 32"
    and "unat (logical (clock_last (sd_clock (oc_shard oc)))) \<le> L"
    and "\<forall>m \<in> set drained. \<not> invalidates (im_msg m)" and "well_stamped (map rec_write (burst_records c drained))"
  shows "\<exists>oc'. ib_shards (inbound_burst e ln now self drained shards rw) c = Some oc' \<and> lww_shard e (oc_shard oc') \<and>
    registers_of e (sd_engine (oc_shard oc')) =
      fold lww_put (map rec_write (filter (admitted e (oc_codec oc) (oc_shard oc)) (burst_records c drained))) (registers_of e (sd_engine (oc_shard oc))) \<and>
    ib_pending (inbound_burst e ln now self drained shards rw) = None"
  using assms by (rule burst_registers)

definition demo_burst :: "unit inbound_msg list" where
  "demo_burst = [\<lparr>im_from = NodeId 2, im_msg = ReplicateBatch [99] (take 2 demo_recs)\<rparr>,
     \<lparr>im_from = NodeId 3, im_msg = Replicate [98] (demo_recs ! 0)\<rparr>,
     \<lparr>im_from = NodeId 2, im_msg = ForwardBatch [99] 5 0 (drop 2 demo_recs)\<rparr>]"

definition demo_cache :: "(bytes, bytes) open_cache" where
  "demo_cache = \<lparr>oc_codec = demo_codec, oc_refresh = None, oc_shard = demo_shard (NodeId 1)\<rparr>"

theorem burst_applies_every_record_witness:
  "\<exists>oc'. ib_shards (inbound_burst demo_externs \<lparr>ln_postcard = (\<lambda>_. None), ln_size_of_msg = 8, ln_size_of_record = 8\<rparr> 0 (NodeId 1) demo_burst
       [[99] \<mapsto> demo_cache] (reforwarder_new Map.empty)) [99] = Some oc' \<and> lww_shard demo_externs (oc_shard oc')"
proof -
  let ?sd = "demo_shard (NodeId 1)"
  have recs: "burst_records [99] demo_burst = demo_recs" by (simp add: burst_records_def demo_burst_def demo_recs_def)
  have ok: "arrivals_ok (oc_shard demo_cache) 1 (burst_records [99] demo_burst)"
    unfolding recs by (simp add: arrivals_ok_def demo_cache_def demo_recs_def arrives_in_time_def)
  have mode: "sd_mode (oc_shard demo_cache) \<noteq> Invalidation" by (simp add: demo_cache_def demo_shard_def shard_new_def)
  have lww: "lww_shard demo_externs (oc_shard demo_cache)" using demo_shard_facts(1) by (simp add: demo_cache_def)
  have len: "1 + length (burst_records [99] demo_burst) < 2 ^ 32" "unat (logical (clock_last (sd_clock (oc_shard demo_cache)))) \<le> 1"
    unfolding recs by (simp_all add: demo_cache_def demo_shard_facts demo_recs_def)
  have none: "\<forall>m \<in> set demo_burst. \<not> invalidates (im_msg m)" by (simp add: demo_burst_def)
  have stamped: "well_stamped (map rec_write (burst_records [99] demo_burst))" unfolding recs by (simp add: well_stamped_def demo_recs_def rec_write_def)
  have at: "[[99] \<mapsto> demo_cache] [99] = Some demo_cache" by simp
  show ?thesis using burst_applies_every_record[where shards = "[[99] \<mapsto> demo_cache]" and c = "[99]", OF at lww demo_externs_ok mode ok len none stamped] by blast
qed

section \<open>Hops\<close>

text \<open>The frames waiting in the lane toward a peer, and a lane that takes so many bytes more.\<close>

definition lane_frames :: "'r reforwarder \<Rightarrow> node_id \<Rightarrow> 'r out_frame list" where
  "lane_frames rw p = (case rw_lanes rw p of None \<Rightarrow> [] | Some lane \<Rightarrow> concat (map lb_frames (la_batches lane)))"

definition lane_open :: "'r reforwarder \<Rightarrow> node_id \<Rightarrow> nat \<Rightarrow> bool" where
  "lane_open rw p room \<longleftrightarrow> peer_is_live (rw_mesh rw) p \<and>
     (let lane = map_or lane_new (\<lambda>lane. lane) (rw_lanes rw p) in \<not> la_ended lane \<and> la_queued lane + room \<le> rw_lane_bytes rw)"

lemma lane_open_less: "lane_open rw p n \<Longrightarrow> m \<le> n \<Longrightarrow> lane_open rw p m"
  by (auto simp: lane_open_def Let_def)

lemma note_unsent_live [simp]: "peer_is_live (note_unsent q n mesh) p = peer_is_live mesh p"
  by (auto simp: peer_is_live_def note_unsent_def split: option.split)

lemma note_unsents_live [simp]: "peer_is_live (fold (\<lambda>q. note_unsent q n) qs mesh) p = peer_is_live mesh p"
  by (induction qs arbitrary: mesh) simp_all

lemma dispatch_attempts_others:
  "p \<noteq> peer \<Longrightarrow> rw_lanes (dispatch_attempts n now peer batch rw) p = rw_lanes rw p"
  "peer_is_live (rw_mesh (dispatch_attempts n now peer batch rw)) p = peer_is_live (rw_mesh rw) p"
  "rw_lane_bytes (dispatch_attempts n now peer batch rw) = rw_lane_bytes rw"
  by (induction n arbitrary: rw) (simp_all add: Let_def)

lemma dispatch_others:
  "p \<noteq> peer \<Longrightarrow> rw_lanes (dispatch now peer frames rw) p = rw_lanes rw p"
  "peer_is_live (rw_mesh (dispatch now peer frames rw)) p = peer_is_live (rw_mesh rw) p"
  "rw_lane_bytes (dispatch now peer frames rw) = rw_lane_bytes rw"
  by (simp_all add: dispatch_def dispatch_attempts_others)

lemma dispatch_attempts_adds:
  "f \<in> set (lane_frames (dispatch_attempts n now peer batch rw) peer) \<Longrightarrow> f \<in> set (lane_frames rw peer) \<or> f \<in> set (lb_frames batch)"
proof (induction n arbitrary: rw)
  case (Suc n)
  define lane where "lane = map_or lane_new (\<lambda>lane. lane) (rw_lanes rw peer)"
  have old: "concat (map lb_frames (la_batches lane)) = lane_frames rw peer" by (simp add: lane_def lane_frames_def lane_new_def split: option.split)
  have gone: "lane_frames (rw\<lparr>rw_lanes := (rw_lanes rw)(peer := None)\<rparr>) peer = []" by (simp add: lane_frames_def)
  have kept: "la_batches (lane_refuse now lane) = la_batches lane" by (simp add: lane_refuse_def)
  show ?case using Suc.prems Suc.IH[of "rw\<lparr>rw_lanes := (rw_lanes rw)(peer := None)\<rparr>"] unfolding gone
    by (auto simp: Let_def lane_def[symmetric] lane_frames_def kept old[unfolded lane_frames_def, symmetric] split: if_splits)
qed (simp add: lane_frames_def)

lemma fold_dispatch_adds:
  assumes "f \<in> set (lane_frames (fold (\<lambda>q. dispatch now q frames) qs rw) p)"
  shows "f \<in> set (lane_frames rw p) \<or> p \<in> set qs \<and> f \<in> set frames"
  using assms
proof (induction qs arbitrary: rw)
  case (Cons q qs)
  have "f \<in> set (lane_frames (dispatch now q frames rw) p) \<Longrightarrow> f \<in> set (lane_frames rw p) \<or> p = q \<and> f \<in> set frames"
    using dispatch_attempts_adds[of f 2 now q "\<lparr>lb_frames = frames, lb_bytes = frames_bytes frames\<rparr>" rw] dispatch_others(1)[of p q now frames rw]
    by (cases "p = q") (auto simp: dispatch_def lane_frames_def split: if_splits)
  then show ?case using Cons by auto
qed simp

lemma dispatch_lands:
  assumes "lane_open rw p (frames_bytes frames + room)"
  shows "lane_frames (dispatch now p frames rw) p = lane_frames rw p @ frames" and "lane_open (dispatch now p frames rw) p room"
proof -
  have "lane_frames (dispatch now p frames rw) p = lane_frames rw p @ frames \<and> lane_open (dispatch now p frames rw) p room"
  proof (cases "frames = []")
    case True
    then show ?thesis using assms lane_open_less[OF assms, of room] by (simp add: dispatch_def)
  next
    case False
    define lane where "lane = map_or lane_new (\<lambda>lane. lane) (rw_lanes rw p)"
    have lane: "\<not> la_ended lane" "la_queued lane + frames_bytes frames + room \<le> rw_lane_bytes rw" "peer_is_live (rw_mesh rw) p"
      "concat (map lb_frames (la_batches lane)) = lane_frames rw p"
      using assms by (auto simp: lane_def lane_open_def lane_new_def lane_frames_def Let_def split: option.splits)
    then have "lane_admits (la_queued lane) (frames_bytes frames) (rw_lane_bytes rw)" by (simp add: lane_admits_def min_le_iff_disj)
    then have out: "dispatch now p frames rw = rw\<lparr>rw_lanes := (rw_lanes rw)(p \<mapsto> lane\<lparr>la_batches := la_batches lane @ [\<lparr>lb_frames = frames, lb_bytes = frames_bytes frames\<rparr>],
        la_queued := la_queued lane + frames_bytes frames\<rparr>)\<rparr>"
      using False lane by (simp add: dispatch_def numeral_2_eq_2 Let_def lane_def[symmetric])
    show ?thesis unfolding out using lane by (simp add: lane_frames_def lane_open_def)
  qed
  then show "lane_frames (dispatch now p frames rw) p = lane_frames rw p @ frames" "lane_open (dispatch now p frames rw) p room" by blast+
qed

lemma fold_dispatch_others:
  assumes "p \<notin> set qs"
  shows "lane_frames (fold (\<lambda>q. dispatch now q frames) qs rw) p = lane_frames rw p" "lane_open (fold (\<lambda>q. dispatch now q frames) qs rw) p n = lane_open rw p n"
proof -
  let ?rw = "fold (\<lambda>q. dispatch now q frames) qs rw"
  have "rw_lanes ?rw p = rw_lanes rw p \<and> peer_is_live (rw_mesh ?rw) p = peer_is_live (rw_mesh rw) p \<and> rw_lane_bytes ?rw = rw_lane_bytes rw"
    using assms by (induction qs arbitrary: rw) (auto simp: dispatch_others)
  then show "lane_frames ?rw p = lane_frames rw p" "lane_open ?rw p n = lane_open rw p n" by (simp_all add: lane_frames_def lane_open_def)
qed

lemma fold_dispatch_lands:
  assumes "lane_open rw p (frames_bytes frames + room)" and "distinct qs"
  shows "lane_frames (fold (\<lambda>q. dispatch now q frames) qs rw) p = lane_frames rw p @ (if p \<in> set qs then frames else []) \<and>
    lane_open (fold (\<lambda>q. dispatch now q frames) qs rw) p (if p \<in> set qs then room else frames_bytes frames + room)"
  using assms
proof (induction qs arbitrary: rw room)
  case (Cons q qs)
  show ?case
  proof (cases "p = q")
    case True
    then have "p \<notin> set qs" using Cons.prems(2) by simp
    from fold_dispatch_others[OF this, where rw = "dispatch now q frames rw" and frames = frames and now = now] show ?thesis using dispatch_lands[of rw p frames room now] Cons.prems(1) True by simp
  next
    case False
    have "lane_frames (dispatch now q frames rw) p = lane_frames rw p" "lane_open (dispatch now q frames rw) p n = lane_open rw p n" for n
      using False by (simp_all add: lane_frames_def lane_open_def dispatch_others)
    then show ?thesis using Cons.IH[of "dispatch now q frames rw" room] Cons.prems False by simp
  qed
qed simp


text \<open>The frames one group is encoded into, and the bytes of all of them.\<close>

abbreviation group_frames :: "'r link \<Rightarrow> bytes \<Rightarrow> u64 \<Rightarrow> u8 \<Rightarrow> owner_group \<Rightarrow> 'r out_frame list" where
  "group_frames ln cache vh hops g \<equiv> fst (encode_frames ln (batch_forward cache vh (hops + 1) (og_records g)))"

definition reforward_bytes :: "'r link \<Rightarrow> bytes \<Rightarrow> u64 \<Rightarrow> u8 \<Rightarrow> owner_group list \<Rightarrow> nat" where
  "reforward_bytes ln cache vh hops groups = sum_list (map (\<lambda>g. frames_bytes (group_frames ln cache vh hops g)) groups)"

lemma reforward_group_eq:
  "reforward_group ln now cache vh hops g rw =
     fold (\<lambda>p. dispatch now p (group_frames ln cache vh hops g)) (og_owners g)
       (rw\<lparr>rw_mesh := fold (\<lambda>p. note_unsent p (snd (encode_frames ln (batch_forward cache vh (hops + 1) (og_records g))))) (og_owners g) (rw_mesh rw)\<rparr>)"
  by (simp add: reforward_group_def encode_frames_for_def split: prod.split)

lemma lanes_mesh [simp]: "lane_frames (rw\<lparr>rw_mesh := m\<rparr>) p = lane_frames rw p"
  by (simp add: lane_frames_def)

lemma forward_frame_msg:
  assumes "f \<in> set (group_frames ln cache vh hops g)"
  shows "\<exists>recs. of_msg f = ForwardBatch cache vh (hops + 1) recs \<and> set recs \<subseteq> set (og_records g)"
proof -
  have "of_msg f \<in> set (batch_forward cache vh (hops + 1) (og_records g))"
    using assms by (auto simp: encode_frames_def List.map_filter_def out_frame_new_def split: sum.splits)
  then show ?thesis using chunk_records_exact(1)[of cache "og_records g"] by (auto simp: batch_forward_def) (metis concat_eq_concat_iff set_concat UN_upper subset_code(1))
qed

lemma reforward_groups_add:
  assumes "f \<in> set (lane_frames (fold (reforward_group ln now cache vh hops) groups rw) p)"
  shows "f \<in> set (lane_frames rw p) \<or> (\<exists>g \<in> set groups. p \<in> set (og_owners g) \<and> f \<in> set (group_frames ln cache vh hops g))"
  using assms
proof (induction groups arbitrary: rw)
  case (Cons g groups)
  have "f \<in> set (lane_frames (reforward_group ln now cache vh hops g rw) p) \<Longrightarrow>
      f \<in> set (lane_frames rw p) \<or> p \<in> set (og_owners g) \<and> f \<in> set (group_frames ln cache vh hops g)"
    unfolding reforward_group_eq using fold_dispatch_adds by fastforce
  then show ?case using Cons.IH[of "reforward_group ln now cache vh hops g rw"] Cons.prems by auto
qed simp

lemma reforward_groups_land:
  assumes "lane_open rw p (reforward_bytes ln cache vh hops groups)" and "\<forall>g \<in> set groups. distinct (og_owners g)"
  shows "lane_frames (fold (reforward_group ln now cache vh hops) groups rw) p =
    lane_frames rw p @ concat (map (group_frames ln cache vh hops) (filter (\<lambda>g. p \<in> set (og_owners g)) groups))"
  using assms
proof (induction groups arbitrary: rw)
  case (Cons g groups)
  let ?fs = "group_frames ln cache vh hops g" and ?room = "reforward_bytes ln cache vh hops groups"
  let ?start = "rw\<lparr>rw_mesh := fold (\<lambda>p. note_unsent p (snd (encode_frames ln (batch_forward cache vh (hops + 1) (og_records g))))) (og_owners g) (rw_mesh rw)\<rparr>"
  let ?rw = "reforward_group ln now cache vh hops g rw"
  have "lane_open ?start p (frames_bytes ?fs + ?room)" using Cons.prems(1) by (simp add: lane_open_def reforward_bytes_def)
  from fold_dispatch_lands[OF this, of "og_owners g" now] Cons.prems(2)
  have one: "lane_frames ?rw p = lane_frames rw p @ (if p \<in> set (og_owners g) then ?fs else [])"
    "lane_open ?rw p (if p \<in> set (og_owners g) then ?room else frames_bytes ?fs + ?room)" unfolding reforward_group_eq by simp_all
  have "lane_open ?rw p ?room" by (rule lane_open_less[OF one(2)]) simp
  from Cons.IH[OF this] Cons.prems(2) one(1) show ?case by simp
qed simp

lemma forward_frames_carry:
  assumes "length cache < 2 ^ 16" and "list_all (sendable cache) (og_records g)"
  shows "concat (map (\<lambda>f. msg_records (of_msg f)) (group_frames ln cache vh hops g)) = og_records g"
  using encode_forward_frames[OF assms, of ln "[]" vh "hops + 1" Map.empty] by (auto simp: encode_frames_for_def case_prod_beta)

lemma concat_map_groups: "(\<And>x. x \<in> set xs \<Longrightarrow> concat (map h (f x)) = k x) \<Longrightarrow> concat (map h (concat (map f xs))) = concat (map k xs)"
  by (induction xs) simp_all

text \<open>The groups a batch is re-forwarded in: those of a fan-out, less the node it came from.\<close>

definition without :: "node_id \<Rightarrow> owner_group list \<Rightarrow> owner_group list" where
  "without from groups = filter (\<lambda>g. og_owners g \<noteq> []) (map (\<lambda>g. g\<lparr>og_owners := filter (\<lambda>n. n \<noteq> from) (og_owners g)\<rparr>) groups)"

lemma without_to:
  "concat (map h (filter (\<lambda>g. p \<in> set (og_owners g)) (without from groups))) =
     (if p = from then [] else concat (map h (filter (\<lambda>g. p \<in> set (og_owners g)) groups)))"
  if "\<And>g owners. h (g\<lparr>og_owners := owners\<rparr>) = h g"
  by (induction groups) (auto simp: without_def that filter_empty_conv)


lemma without_groups:
  assumes "g \<in> set (without from (group_by_owner_set e view self records))"
  shows "p \<in> set (og_owners g) \<and> rec \<in> set (og_records g) \<Longrightarrow>
      rec \<in> set records \<and> p \<noteq> self \<and> p \<noteq> from \<and> p \<in> set (owners_of view (part_of_key e (wr_key rec)))"
    and "set (og_records g) \<subseteq> set records"
    and "(\<And>part. distinct (owners_of view part)) \<Longrightarrow> distinct (og_owners g)"
proof -
  obtain g0 where g0: "g0 \<in> set (group_by_owner_set e view self records)" "g = g0\<lparr>og_owners := filter (\<lambda>n. n \<noteq> from) (og_owners g0)\<rparr>"
    using assms by (auto simp: without_def)
  note ex = owner_groups_exact(1)[OF g0(1)]
  have "og_owners g0 \<in> record_owners e view self ` set records" unfolding owner_groups_cover(1)[symmetric] using g0(1) by (rule imageI)
  then show "distinct (og_owners g)" if "\<And>part. distinct (owners_of view part)" using that g0(2) by (auto simp: record_owners_def)
  have own: "og_owners g0 = record_owners e view self rec" "rec \<in> set records" if "rec \<in> set (og_records g0)" for rec
    using that unfolding ex by auto
  show "set (og_records g) \<subseteq> set records" using own(2) g0(2) by auto
  show "rec \<in> set records \<and> p \<noteq> self \<and> p \<noteq> from \<and> p \<in> set (owners_of view (part_of_key e (wr_key rec)))"
    if h: "p \<in> set (og_owners g) \<and> rec \<in> set (og_records g)"
  proof -
    have "rec \<in> set (og_records g0)" using h g0(2) by simp
    with own[OF this] h g0(2) show ?thesis by (auto simp: record_owners_def)
  qed
qed

lemma reforward_stale_view_eq:
  "reforward_stale_view e ln now self from (Some view) cache sent_under hops records rw =
     (if max_forward_hops \<le> hops \<or> sent_under = ov_view_hash view then rw
      else fold (reforward_group ln now cache (ov_view_hash view) hops) (without from (group_by_owner_set e view self records)) rw)"
  by (simp add: reforward_stale_view_def reforward_groups_def without_def)

lemma last_hop: "\<not> max_forward_hops \<le> hops \<Longrightarrow> max_forward_hops \<le> hops + 1"
proof -
  assume "\<not> max_forward_hops \<le> hops"
  then have "hops = 0" by (simp add: max_forward_hops_def not_le)
  then show ?thesis by (simp add: max_forward_hops_def)
qed

lemma last_hop_stays: "max_forward_hops \<le> hops \<Longrightarrow> reforward_stale_view e ln now self from view cache sent_under hops records rw = rw"
  by (cases view) (simp_all add: reforward_stale_view_eq, simp add: reforward_stale_view_def)

text \<open>
  C8: two views that disagree cost a write one more hop and never a loop. A batch received under the
  receiver's own view, or one that was already re-forwarded, is sent on to nobody. Whatever else joins the lanes
  is a batch for an owner of its records other than the receiver and the sender, stamped with the
  receiver's view and a hop count at which any node that receives it, under any view, sends nothing
  on. And a batch on its first hop under another view does go on: the lane of a live peer that has
  room for it gains exactly the records whose part the peer owns, in order per key, unless the peer
  is the receiver or the sender.
\<close>

theorem reforward_stops_after_one_hop:
  fixes rw other_rw :: "'r reforwarder"
  assumes "view = compute_at e self eligible k g" and "k \<noteq> 0" and "length cache < 2 ^ 16" and "list_all (sendable cache) records"
    and "reforward_stale_view e ln now self from (Some view) cache sent_under hops records rw = rw'"
  shows "(max_forward_hops \<le> hops \<or> sent_under = ov_view_hash view \<longrightarrow> rw' = rw) \<and>
    (\<forall>p f. f \<in> set (lane_frames rw' p) \<longrightarrow> f \<in> set (lane_frames rw p) \<or>
       (\<exists>sent. of_msg f = ForwardBatch cache (ov_view_hash view) (hops + 1) sent \<and>
          (\<forall>rec \<in> set sent. rec \<in> set records \<and> p \<noteq> self \<and> p \<noteq> from \<and> p \<in> set (owners_of view (part_of_key e (wr_key rec)))) \<and>
          reforward_stale_view e ln later p self other_view cache (ov_view_hash view) (hops + 1) sent other_rw = other_rw)) \<and>
    (hops < max_forward_hops \<and> sent_under \<noteq> ov_view_hash view \<longrightarrow>
       (\<forall>p kb. lane_open rw p (reforward_bytes ln cache (ov_view_hash view) hops (without from (group_by_owner_set e view self records))) \<longrightarrow>
          (\<exists>new. lane_frames rw' p = lane_frames rw p @ new \<and>
             filter (\<lambda>rec. wr_key rec = kb) (concat (map (\<lambda>f. msg_records (of_msg f)) new)) =
               (if p \<noteq> self \<and> p \<noteq> from \<and> p \<in> set (owners_of view (part_of_key e kb)) then filter (\<lambda>rec. wr_key rec = kb) records else []))))"
proof -
  let ?groups = "without from (group_by_owner_set e view self records)" and ?vh = "ov_view_hash view"
  note eq = reforward_stale_view_eq[of e ln now self "from" view cache sent_under hops records rw, unfolded assms(5)]
  have sound: "f \<in> set (lane_frames rw p) \<or>
       (\<exists>sent. of_msg f = ForwardBatch cache ?vh (hops + 1) sent \<and>
          (\<forall>rec \<in> set sent. rec \<in> set records \<and> p \<noteq> self \<and> p \<noteq> from \<and> p \<in> set (owners_of view (part_of_key e (wr_key rec)))) \<and>
          reforward_stale_view e ln later p self other_view cache ?vh (hops + 1) sent other_rw = other_rw)"
    if f: "f \<in> set (lane_frames rw' p)" for p f
  proof (cases "max_forward_hops \<le> hops \<or> sent_under = ?vh \<or> f \<in> set (lane_frames rw p)")
    case False
    then obtain gr where gr: "gr \<in> set ?groups" "p \<in> set (og_owners gr)" "f \<in> set (group_frames ln cache ?vh hops gr)"
      using f reforward_groups_add[of f ln now cache ?vh hops ?groups rw p] by (auto simp: eq)
    obtain sent where sent: "of_msg f = ForwardBatch cache ?vh (hops + 1) sent" "set sent \<subseteq> set (og_records gr)" using forward_frame_msg[OF gr(3)] by blast
    then show ?thesis using without_groups(1)[OF gr(1)] gr(2) last_hop_stays[OF last_hop] False by blast
  qed (use f in \<open>auto simp: eq\<close>)
  have full: "\<exists>new. lane_frames rw' p = lane_frames rw p @ new \<and>
             filter (\<lambda>rec. wr_key rec = kb) (concat (map (\<lambda>f. msg_records (of_msg f)) new)) =
               (if p \<noteq> self \<and> p \<noteq> from \<and> p \<in> set (owners_of view (part_of_key e kb)) then filter (\<lambda>rec. wr_key rec = kb) records else [])"
    if first: "hops < max_forward_hops" "sent_under \<noteq> ?vh" and room: "lane_open rw p (reforward_bytes ln cache ?vh hops ?groups)" for p kb
  proof -
    let ?to = "filter (\<lambda>g. p \<in> set (og_owners g)) ?groups"
    have "\<forall>g \<in> set ?groups. distinct (og_owners g)" using without_groups(3) owners_distinct[OF assms(2)] unfolding assms(1) by blast
    from reforward_groups_land[OF room this, of now] first eq
    have new: "lane_frames rw' p = lane_frames rw p @ concat (map (group_frames ln cache ?vh hops) ?to)" by (simp split: if_splits)
    have carry: "concat (map (\<lambda>f. msg_records (of_msg f)) (group_frames ln cache ?vh hops gr)) = og_records gr" if "gr \<in> set ?to" for gr
      using without_groups(2) that assms(4) by (intro forward_frames_carry[OF assms(3)]) (fastforce simp: list_all_iff)
    have "concat (map (\<lambda>f. msg_records (of_msg f)) (concat (map (group_frames ln cache ?vh hops) ?to))) = concat (map og_records ?to)"
      using carry by (intro concat_map_groups) blast
    then show ?thesis using new without_to[of og_records p "from"] groups_deliver_key[of kb p e view self records] by auto
  qed
  show ?thesis using sound full by (auto simp: eq)
qed


text \<open>Three nodes that own every part; node 1 receives from node 2 a batch sent under another view.\<close>

definition demo_three_view :: ownership_view where
  "demo_three_view = compute_at demo_externs (NodeId 1) [NodeId 2, NodeId 3] 3 By_Part"

definition demo_reforwarder :: "unit link \<Rightarrow> unit reforwarder" where
  "demo_reforwarder ln = reforwarder_with_lane_bytes
     [NodeId 3 \<mapsto> \<lparr>ph_invalidate = drop_oldest_new 1 1, ph_replicate = replicate_outbox 1 1, ph_dirty = False, ph_last_replicate_enqueued = 0\<rparr>]
     (reforward_bytes ln [99] (ov_view_hash demo_three_view) 0 (without (NodeId 2) (group_by_owner_set demo_externs demo_three_view (NodeId 1) demo_fan_out)))"

theorem reforward_stops_after_one_hop_witness:
  "\<exists>ln. filter (\<lambda>rec. wr_key rec = [7]) (concat (map (\<lambda>f. msg_records (of_msg f))
     (lane_frames (reforward_stale_view demo_externs ln 0 (NodeId 1) (NodeId 2) (Some demo_three_view) [99] (ov_view_hash demo_three_view + 1) 0 demo_fan_out
        (demo_reforwarder ln)) (NodeId 3)))) = demo_fan_out"
proof (rule exI)
  let ?ln = "\<lparr>ln_postcard = (\<lambda>_ :: unit control. None), ln_size_of_msg = 8, ln_size_of_record = 8\<rparr>"
  let ?bytes = "reforward_bytes ?ln [99] (ov_view_hash demo_three_view) 0 (without (NodeId 2) (group_by_owner_set demo_externs demo_three_view (NodeId 1) demo_fan_out))"
  have send: "list_all (sendable [99]) demo_fan_out"
    by (simp add: demo_fan_out_def sendable_def forward_frame_len_def replicate_frame_len_def max_frame_def map_or_def raw_frame_header_len_def
        forward_header_len_def record_header_len_def)
  have own: "NodeId 3 \<in> set (owners_of demo_three_view p)" for p
    using ranked_all[of "with_self (NodeId 1) [NodeId 2, NodeId 3]" 3 demo_externs "unit_of By_Part p"]
    by (simp add: demo_three_view_def owners_of_ranked) (simp add: numeral_3_eq_3)
  have "lane_open (demo_reforwarder ?ln) (NodeId 3) ?bytes"
    by (simp add: lane_open_def demo_reforwarder_def reforwarder_with_lane_bytes_def peer_is_live_def lane_new_def)
  moreover have "lane_frames (demo_reforwarder ?ln) (NodeId 3) = []" by (simp add: lane_frames_def demo_reforwarder_def reforwarder_with_lane_bytes_def)
  moreover have "filter (\<lambda>rec. wr_key rec = [7]) demo_fan_out = demo_fan_out" by (simp add: demo_fan_out_def)
  ultimately show "filter (\<lambda>rec. wr_key rec = [7]) (concat (map (\<lambda>f. msg_records (of_msg f))
     (lane_frames (reforward_stale_view demo_externs ?ln 0 (NodeId 1) (NodeId 2) (Some demo_three_view) [99] (ov_view_hash demo_three_view + 1) 0 demo_fan_out
        (demo_reforwarder ?ln)) (NodeId 3)))) = demo_fan_out"
    using reforward_stops_after_one_hop[OF demo_three_view_def _ _ send refl, of 0 "ov_view_hash demo_three_view + 1" ?ln 0 "NodeId 2" "demo_reforwarder ?ln"] own
    by (force simp: max_forward_hops_def)
qed

section \<open>Lanes stay bounded\<close>

definition lane_ok :: "nat \<Rightarrow> 'r lane \<Rightarrow> bool" where
  "lane_ok cap lane \<longleftrightarrow> la_queued lane = sum_list (map lb_bytes (la_batches lane)) \<and>
     (la_queued lane \<le> cap \<or> (\<exists>b \<in> set (la_batches lane). la_queued lane = lb_bytes b))"

definition lanes_ok :: "'r reforwarder \<Rightarrow> bool" where
  "lanes_ok rw \<longleftrightarrow> rw_lane_bytes rw < usize_max \<and> (\<forall>peer lane. rw_lanes rw peer = Some lane \<longrightarrow> lane_ok (rw_lane_bytes rw) lane)"

lemma lane_ok_new [simp]: "lane_ok cap lane_new"
  by (simp add: lane_ok_def lane_new_def)

lemma lane_ok_queue:
  assumes "lane_ok cap lane" and "lane_admits (la_queued lane) (lb_bytes b) cap" and "cap < usize_max"
  shows "lane_ok cap (lane\<lparr>la_batches := la_batches lane @ [b], la_queued := la_queued lane + lb_bytes b\<rparr>)"
proof (cases "la_queued lane = 0")
  case True
  then show ?thesis using assms(1) by (auto simp: lane_ok_def)
next
  case False
  then have "la_queued lane + lb_bytes b \<le> cap" using assms(2,3) by (auto simp: lane_admits_def min_def split: if_splits)
  then show ?thesis using assms(1) by (simp add: lane_ok_def)
qed

lemma lane_ok_take:
  assumes "lane_ok cap lane" and "la_batches lane = b # bs"
  shows "lane_ok cap (lane\<lparr>la_batches := bs, la_queued := la_queued lane - lb_bytes b\<rparr>)"
proof -
  let ?rest = "sum_list (map lb_bytes bs)"
  have q: "la_queued lane = lb_bytes b + ?rest" using assms by (simp add: lane_ok_def)
  have "?rest \<le> cap \<or> (\<exists>x \<in> set bs. ?rest = lb_bytes x)"
  proof (cases "la_queued lane \<le> cap")
    case False
    then obtain x where "x \<in> set (la_batches lane)" "la_queued lane = lb_bytes x" using assms(1) unfolding lane_ok_def by blast
    then have x: "x = b \<or> x \<in> set bs" "lb_bytes b + ?rest = lb_bytes x" using assms(2) q by auto
    have "x \<in> set bs \<Longrightarrow> lb_bytes x \<le> ?rest" by (rule member_le_sum_list) auto
    then have "x \<in> set bs \<Longrightarrow> ?rest = lb_bytes x" using x(2) by linarith
    then show ?thesis using x by auto
  qed (use q in simp)
  then show ?thesis by (simp add: lane_ok_def q)
qed

lemma lane_refuse_ok: "lane_ok cap (lane_refuse now lane) = lane_ok cap lane"
  by (simp add: lane_ok_def lane_refuse_def)

lemma dispatch_attempts_ok: "lanes_ok rw \<Longrightarrow> lanes_ok (dispatch_attempts n now peer batch rw)"
proof (induction n arbitrary: rw)
  case 0
  then show ?case by (simp add: lanes_ok_def)
next
  case (Suc n)
  define lane where "lane = map_or lane_new (\<lambda>lane. lane) (rw_lanes rw peer)"
  have cap: "rw_lane_bytes rw < usize_max" using Suc.prems by (simp add: lanes_ok_def)
  have lane: "lane_ok (rw_lane_bytes rw) lane" using Suc.prems by (cases "rw_lanes rw peer") (auto simp: lane_def lanes_ok_def)
  have gone: "lanes_ok (rw\<lparr>rw_lanes := (rw_lanes rw)(peer := None)\<rparr>)" using Suc.prems by (simp add: lanes_ok_def)
  show ?case
    using Suc.IH[OF gone] Suc.prems lane lane_ok_queue[OF lane _ cap, of batch]
    by (auto simp: Let_def lane_def[symmetric] lanes_ok_def lane_refuse_ok split: if_splits)
qed

datatype 'r reforward_op = Op_Dispatch u64 node_id "'r out_frame list" | Op_Work node_id | Op_Retire | Op_End node_id

text \<open>\<open>Op_End\<close> is the end of a lane's worker.\<close>

fun reforward_op_step :: "'r waiting_send \<Rightarrow> 'r reforward_op \<Rightarrow> 'r reforwarder \<Rightarrow> 'r reforwarder" where
  "reforward_op_step send_awaiting (Op_Dispatch now peer frames) rw = dispatch now peer frames rw"
| "reforward_op_step send_awaiting (Op_Work peer) rw = lane_worker_step send_awaiting peer rw"
| "reforward_op_step send_awaiting Op_Retire rw = retire_departed rw"
| "reforward_op_step send_awaiting (Op_End peer) rw =
     rw\<lparr>rw_lanes := (rw_lanes rw)(peer := map_option (\<lambda>lane. lane\<lparr>la_ended := True\<rparr>) (rw_lanes rw peer))\<rparr>"

text \<open>
  C9: a peer that stops reading costs a bounded amount of memory. Whatever batches are dispatched,
  workers take and end, and peers leave, the bytes a lane counts are the bytes of the batches it
  holds, and they pass the cap only when one batch alone is larger: such a batch is let into an
  empty lane, so that it is not refused forever.
\<close>

theorem reforward_lanes_bounded:
  assumes "lane_bytes < usize_max"
  shows "let rw = fold (reforward_op_step send_awaiting) ops (reforwarder_with_lane_bytes mesh lane_bytes) in
    rw_lane_bytes rw = lane_bytes \<and>
    (\<forall>peer lane. rw_lanes rw peer = Some lane \<longrightarrow> la_queued lane = sum_list (map lb_bytes (la_batches lane)) \<and>
       (la_queued lane \<le> lane_bytes \<or> (\<exists>b \<in> set (la_batches lane). la_queued lane = lb_bytes b \<and> lane_bytes < lb_bytes b)))"
proof -
  have attempts: "rw_lane_bytes (dispatch_attempts n now peer batch rw) = rw_lane_bytes rw" for n now peer batch and rw :: "'a reforwarder"
    by (induction n arbitrary: rw) (simp_all add: Let_def)
  have step: "lanes_ok (reforward_op_step send_awaiting op rw) \<and> rw_lane_bytes (reforward_op_step send_awaiting op rw) = rw_lane_bytes rw"
    if ok: "lanes_ok rw" for op and rw :: "'a reforwarder"
  proof (cases op)
    case (Op_Dispatch now peer frames)
    then show ?thesis using ok dispatch_attempts_ok[OF ok] attempts by (simp add: dispatch_def)
  next
    case (Op_Work peer)
    have take: "lane_ok (rw_lane_bytes rw) (lane\<lparr>la_batches := bs, la_queued := la_queued lane - lb_bytes b\<rparr>)"
      if at: "rw_lanes rw peer = Some lane" "la_batches lane = b # bs" for lane b bs
      by (rule lane_ok_take[OF _ at(2)]) (use ok at(1) in \<open>simp add: lanes_ok_def\<close>)
    show ?thesis using ok take by (auto simp: Op_Work lane_worker_step_def lanes_ok_def split: option.splits list.splits)
  next
    case Op_Retire
    then show ?thesis using ok by (auto simp: retire_departed_def lanes_ok_def split: option.splits if_splits)
  next
    case (Op_End peer)
    have "lane_ok cap (lane\<lparr>la_ended := True\<rparr>) = lane_ok cap lane" for cap and lane :: "'a lane" by (simp add: lane_ok_def)
    then show ?thesis using ok by (auto simp: Op_End lanes_ok_def)
  qed
  define rw where "rw = fold (reforward_op_step send_awaiting) ops (reforwarder_with_lane_bytes mesh lane_bytes)"
  have "lanes_ok rw0 \<Longrightarrow> lanes_ok (fold (reforward_op_step send_awaiting) ops rw0) \<and>
      rw_lane_bytes (fold (reforward_op_step send_awaiting) ops rw0) = rw_lane_bytes rw0" for rw0 :: "'a reforwarder"
    by (induction ops arbitrary: rw0) (simp_all add: step)
  moreover have "lanes_ok (reforwarder_with_lane_bytes mesh lane_bytes :: 'a reforwarder)" using assms by (simp add: lanes_ok_def reforwarder_with_lane_bytes_def)
  ultimately have cap: "rw_lane_bytes rw = lane_bytes" and "lanes_ok rw" by (simp_all add: rw_def reforwarder_with_lane_bytes_def)
  then have lanes: "lane_ok lane_bytes lane" if "rw_lanes rw peer = Some lane" for peer lane
    using that cap by (auto simp: lanes_ok_def)
  have "la_queued lane \<le> lane_bytes \<or> (\<exists>b \<in> set (la_batches lane). la_queued lane = lb_bytes b \<and> lane_bytes < lb_bytes b)"
    if "rw_lanes rw peer = Some lane" for peer lane
    using lanes[OF that] unfolding lane_ok_def by (metis not_le)
  then show ?thesis unfolding rw_def[symmetric] Let_def using lanes cap by (auto simp: lane_ok_def)
qed

theorem reforward_lanes_bounded_witness:
  "rw_lane_bytes (fold (reforward_op_step (\<lambda>p fs m. (length fs, m))) [Op_Dispatch 0 (NodeId 2) [demo_frame 7], Op_Work (NodeId 2)]
     (reforwarder_with_lane_bytes Map.empty 4)) = 4"
  using reforward_lanes_bounded[of 4 "\<lambda>p fs m. (length fs, m)" "[Op_Dispatch 0 (NodeId 2) [demo_frame 7], Op_Work (NodeId 2)]" Map.empty]
  by (simp add: Let_def usize_max_def)

end
