(* ===== verification/Cluster_Path.thy ===== *)
theory Cluster_Path
  imports Cluster_Inbound
begin

text \<open>
  The path of a write from the call on one node to the engine of another: the local call queues it,
  the drain reads it back, the fan-out batches, encodes and enqueues it, the peer decodes it, joins
  it into a run and applies it. Each step is an operation of the theories below; this theory holds
  the lemmas that connect them and the property of the whole path.
\<close>

section \<open>Reading back what was written\<close>

definition register_record :: "bytes \<Rightarrow> hlc \<times> content_core \<Rightarrow> wire_record" where
  "register_record kb x =
     \<lparr>wr_key = kb, wr_value = (case snd x of Inl (enc, _) \<Rightarrow> Some enc | Inr _ \<Rightarrow> None), wr_ver = fst x,
      wr_expires = (case snd x of Inl (_, expires) \<Rightarrow> expires | Inr expires \<Rightarrow> expires)\<rparr>"

lemma register_record_simps [simp]:
  "wr_key (register_record kb x) = kb" "wr_ver (register_record kb x) = fst x" "rec_write (register_record kb x) = (kb, x)"
  by (simp_all add: register_record_def rec_write_def split: sum.split)
    (metis prod.collapse)+

lemma written_record_register:
  assumes "engine_ok e g" and "eg_tti_ms g = None"
  shows "written_record_for e kb now g = map_option (register_record kb) (registers_of e g kb)"
proof -
  let ?s = "eg_stripes g (key_bucket e kb)"
  have b: "stripe_index_from_hash (hash_key_bytes e kb) = key_bucket e kb" by (simp add: key_bucket_def)
  have shown: "\<not> absent_under l kb lt None now Shown" for l lt by (simp add: absent_under_def idle_at_def)
  show ?thesis
    using assms(2) arena_find_Some[of e kb "st_live ?s"] shown
    by (auto simp: written_record_for_def record_scoped_def b Let_def registers_of_def engine_cell_def cell_at_def live_cell_def register_record_def
        live_expires_at_def split: option.split)
qed

text \<open>Every queued write is still stored, at its version or a newer one.\<close>

definition covered_by :: "externs \<Rightarrow> ('k, 'v) codec \<Rightarrow> ('k, 'v) shard \<Rightarrow> ('k \<times> hlc) list \<Rightarrow> bool" where
  "covered_by e cd sd writes \<longleftrightarrow>
     (\<forall>(key, ver) \<in> set writes. \<exists>kb x. cd_encode_key cd key = Some kb \<and> registers_of e (sd_engine sd) kb = Some x \<and> ver \<le> fst x)"

lemma covered_byD:
  assumes "covered_by e cd sd writes" and "(key, ver) \<in> set writes"
  obtains kb x where "cd_encode_key cd key = Some kb" "registers_of e (sd_engine sd) kb = Some x" "ver \<le> fst x"
  using assms by (auto simp: covered_by_def)

lemma finite_queued_versions [simp]: "finite (versions_of items k)"
  unfolding versions_of_def by (rule finite_subset[of _ "snd ` set items"]) force+

lemma newest_mem:
  "fst ` set (newest_per_key items) = fst ` set items" "set (newest_per_key items) \<subseteq> set items" "length (newest_per_key items) \<le> length items"
proof -
  let ?out = "newest_per_key items"
  have inv: "map fst ?out = rev (remdups (rev (map fst items)))" "\<And>i. i < length ?out \<Longrightarrow> snd (?out ! i) = Max (versions_of items (fst (?out ! i)))"
    using newest_inv_fold[of items] by (auto simp: newest_inv_def newest_per_key_def split: prod.splits)
  have "set (map fst ?out) = set (map fst items)" unfolding inv(1) by simp
  then show keys: "fst ` set ?out = fst ` set items" by simp
  have "length (map fst ?out) \<le> length items" unfolding inv(1) using length_remdups_leq[of "rev (map fst items)"] by simp
  then show "length ?out \<le> length items" by simp
  show "set ?out \<subseteq> set items"
  proof
    fix x assume "x \<in> set ?out"
    then obtain i where i: "i < length ?out" "?out ! i = x" by (auto simp: in_set_conv_nth)
    have "fst x \<in> fst ` set items" using keys i nth_mem by fastforce
    then have ne: "versions_of items (fst x) \<noteq> {}" by (auto simp: versions_of_def)
    have "snd x \<in> versions_of items (fst x)" using inv(2)[OF i(1)] Max_in[OF finite_queued_versions ne] i(2) by simp
    then show "x \<in> set items" by (cases x) (simp add: versions_of_def)
  qed
qed

definition key_bytes_of :: "('k, 'v) codec \<Rightarrow> 'k \<Rightarrow> bytes" where
  "key_bytes_of cd key = the (cd_encode_key cd key)"

lemma fan_out_reads_registers:
  assumes "lww_shard e sd" and "eg_tti_ms (sd_engine sd) = None" and "covered_by e cd sd writes"
  shows "shard_fan_out_records e cd writes sd =
    \<lparr>fr_records = map (\<lambda>(key, _). register_record (key_bytes_of cd key) (the (registers_of e (sd_engine sd) (key_bytes_of cd key)))) writes, fr_departed = []\<rparr>"
proof -
  let ?reg = "registers_of e (sd_engine sd)"
  let ?queued = "map (\<lambda>(key, ver). (key_bytes_of cd key, ver)) writes"
  have queued: "List.map_filter (\<lambda>(key, ver). map_option (\<lambda>kb. (kb, ver)) (cd_encode_key cd key)) writes = ?queued"
    using assms(3) by (induction writes) (auto simp: List.map_filter_def covered_by_def key_bytes_of_def)
  have ok: "engine_ok e (sd_engine sd)" using assms(1) by (simp add: lww_shard_def engine_inv_def)
  have stored: "\<exists>x. ?reg (key_bytes_of cd key) = Some x \<and> ver \<le> fst x" if "(key, ver) \<in> set writes" for key ver
    by (rule covered_byD[OF assms(3) that]) (auto simp: key_bytes_of_def)
  have fetched: "written_records e (map fst ?queued) sd = map (\<lambda>(key, _). register_record (key_bytes_of cd key) (the (?reg (key_bytes_of cd key)))) writes"
  proof -
    have "List.map_filter (\<lambda>k. map_option (register_record k) (?reg k)) (map fst ?queued) =
        map (\<lambda>(key, _). register_record (key_bytes_of cd key) (the (?reg (key_bytes_of cd key)))) writes"
      using stored by (induction writes) (fastforce simp: List.map_filter_def)+
    then show ?thesis by (simp add: written_records_def written_record_register[OF ok assms(2)])
  qed
  have old: "\<not> older_refill (written_versions ?queued) b rec"
    if "rec \<in> set (written_records e (map fst ?queued) sd)" for rec b
  proof -
    obtain key ver where w: "(key, ver) \<in> set writes" "rec = register_record (key_bytes_of cd key) (the (?reg (key_bytes_of cd key)))"
      using \<open>rec \<in> _\<close> unfolding fetched by auto
    have "v \<le> wr_ver rec" if v: "(key_bytes_of cd key, v) \<in> set ?queued" for v
    proof -
      obtain key' where k': "(key', v) \<in> set writes" "key_bytes_of cd key' = key_bytes_of cd key" using v by auto
      then show ?thesis using stored[OF k'(1)] w(2) by auto
    qed
    moreover obtain v where "written_versions ?queued (key_bytes_of cd key) = Some v" "(key_bytes_of cd key, v) \<in> set ?queued"
    proof -
      have ne: "versions_of ?queued (key_bytes_of cd key) \<noteq> {}" using w(1) by (force simp: versions_of_def)
      from Max_in[OF finite_queued_versions ne] have "(key_bytes_of cd key, Max (versions_of ?queued (key_bytes_of cd key))) \<in> set ?queued" by (simp add: versions_of_def)
      moreover have "key_bytes_of cd key \<in> fst ` set ?queued" using w(1) by force
      ultimately show thesis by (intro that[of "Max (versions_of ?queued (key_bytes_of cd key))"]) (simp_all add: written_versions_Max)
    qed
    ultimately have "v \<le> wr_ver rec" "written_versions ?queued (wr_key rec) = Some v" using w(2) by auto
    then show ?thesis by (simp add: older_refill_def not_less)
  qed
  have kept: "filter (\<lambda>rec. \<not> older_refill (written_versions ?queued) b rec) (written_records e (map fst ?queued) sd) = written_records e (map fst ?queued) sd" for b
    using old by (simp add: filter_id_conv)
  have none: "filter (\<lambda>k. k \<notin> wr_key ` set (written_records e (map fst ?queued) sd)) (map fst ?queued) = []"
    unfolding fetched by (force simp: filter_empty_conv)
  show ?thesis
    unfolding shard_fan_out_records_def Let_def queued partition_writes_eq kept none unfolding fetched by simp
qed

section \<open>Frames to a peer\<close>

lemma replicate_msg_encodes:
  assumes "length cache_name < 2 ^ 16" and "batch_ok cache_name recs" and "list_all (sendable cache_name) recs"
    and "msg = (case recs of [rec] \<Rightarrow> Replicate cache_name rec | _ \<Rightarrow> ReplicateBatch cache_name recs)"
  shows "\<exists>frame. out_frame_new ln msg = Inr frame \<and> of_msg frame = msg"
proof -
  have fits: "\<forall>r \<in> set recs. record_fits r" using assms(3) sendable_fits by (auto simp: list_all_iff)
  have len: "length (frame_kind_raw_record # frame_body kind cache_name recs No_Extra) \<le> max_frame" for kind
  proof (cases "length recs = 1")
    case True
    then obtain rec where rec: "recs = [rec]" by (auto simp: length_Suc_conv)
    have "batched_bytes cache_name rec \<le> max_frame" using assms(3) by (simp add: rec sendable_def forward_frame_len_def batched_bytes_def)
    then show ?thesis by (simp add: rec length_frame_of_chunk length_extra_bytes batched_bytes_eq)
  next
    case False
    then have "sum_list (map (batched_bytes cache_name) recs) \<le> 262144" "recs \<noteq> []" using assms(2) by (auto simp: batch_ok_def replicate_batch_budget_def)
    then show ?thesis using batch_size[of recs cache_name] by (simp add: length_frame_of_chunk length_extra_bytes max_frame_def)
  qed
  have n: "length recs < 2 ^ 32" using assms(2) by (simp add: batch_ok_def replicate_batch_count_def)
  have raw: "encode_raw_frame kind cache_name recs No_Extra = Inr (frame_kind_raw_record # frame_body kind cache_name recs No_Extra)" for kind
    using assms(1) fits len n by (simp add: encode_raw_frame_Inr)
  obtain kind where "encode (ln_postcard ln) msg = encode_raw_frame kind cache_name recs No_Extra"
    unfolding assms(4) by (cases recs rule: remdups_adj.cases) auto
  then show ?thesis by (simp add: out_frame_new_def raw)
qed

lemma batch_replicate_encodes:
  fixes ln :: "'r link"
  assumes "length cache_name < 2 ^ 16" and "list_all (sendable cache_name) records"
  shows "\<forall>msg \<in> set (batch_replicate cache_name records). \<exists>frame. out_frame_new ln msg = Inr frame \<and> of_msg frame = msg"
proof
  fix msg :: "'r message" assume "msg \<in> set (batch_replicate cache_name records)"
  then obtain recs where recs: "recs \<in> set (chunk_records cache_name records)"
    "msg = (case recs of [rec] \<Rightarrow> Replicate cache_name rec | _ \<Rightarrow> ReplicateBatch cache_name recs)" by (auto simp: batch_replicate_def)
  have "batch_ok cache_name recs" using chunk_records_exact(2)[of cache_name records] recs(1) by (simp add: list_all_iff)
  moreover have "set recs \<subseteq> set records" using recs(1) chunk_records_exact(1)[of cache_name records] by (metis set_concat UN_upper)
  then have "list_all (sendable cache_name) recs" using assms(2) by (auto simp: list_all_iff)
  ultimately show "\<exists>frame. out_frame_new ln msg = Inr frame \<and> of_msg frame = msg" using replicate_msg_encodes[OF assms(1)] recs(2) by blast
qed

lemma enqueue_dirty: "fold enqueue_replicate frames (b, h) = (b', h') \<Longrightarrow> ph_dirty h \<Longrightarrow> ph_dirty h'"
proof (induction frames arbitrary: b h)
  case (Cons f frames)
  obtain b1 h1 where one: "enqueue_replicate f (b, h) = (b1, h1)" by fastforce
  then have "ph_dirty h1" using Cons.prems(2) by (auto simp: enqueue_replicate_def split: sum.splits outbox_full.splits)
  then show ?case using Cons.IH[of b1 h1] Cons.prems(1) one by simp
qed simp

text \<open>Frames sent to an open outbox that leave the peer clean are all queued, in order.\<close>

lemma enqueue_clean:
  assumes "fold enqueue_replicate frames (b, h) = (b', h')" and "\<not> ob_closed (ph_replicate h)" and "\<not> ph_dirty h'"
  shows "map fst (ob_queue (ph_replicate h')) = map fst (ob_queue (ph_replicate h)) @ frames"
  using assms
proof (induction frames arbitrary: b h)
  case (Cons f frames)
  show ?case
  proof (cases "try_send f (ph_replicate h)")
    case (Inl err)
    then have "err = outbox_full.Full" using Cons.prems(2) by (cases err) (auto simp: try_send_def try_reserve_def Let_def split: if_splits sum.splits)
    then have "fold enqueue_replicate frames (False, h\<lparr>ph_dirty := True\<rparr>) = (b', h')" using Cons.prems(1) Inl
      by (simp add: enqueue_replicate_def[of f])
    from enqueue_dirty[OF this] show ?thesis using Cons.prems(3) by simp
  next
    case (Inr ob)
    then have ob: "\<not> ob_closed ob" "map fst (ob_queue ob) = map fst (ob_queue (ph_replicate h)) @ [f]"
      using Cons.prems(2) by (auto simp: try_send_def try_reserve_def permit_send_def Let_def split: if_splits sum.splits)
    have "fold enqueue_replicate frames (b, h\<lparr>ph_replicate := ob\<rparr>) = (b', h')" using Cons.prems(1) Inr by (simp add: enqueue_replicate_def[of f])
    from Cons.IH[OF this] ob Cons.prems(3) show ?thesis by simp
  qed
qed simp

lemma send_to_each_peer:
  assumes "distinct peers" and "peer \<in> set peers" and "mesh peer = Some h" and "\<not> ob_closed (ph_replicate h)"
    and "send_to_each mono_ms Class_Replicate peers frames mesh peer = Some h'" and "\<not> ph_dirty h'"
  shows "map fst (ob_queue (ph_replicate h')) = map fst (ob_queue (ph_replicate h)) @ frames"
  using assms(1-5)
proof (induction peers arbitrary: mesh)
  case (Cons p peers)
  have other: "snd (send_frames mono_ms q Class_Replicate frames m) peer = m peer" if "q \<noteq> peer" for q m
    using that by (simp add: send_frames_def split: option.split prod.split)
  have later: "send_to_each mono_ms Class_Replicate peers frames m peer = m peer" if "peer \<notin> set peers" for m
    using that by (induction peers arbitrary: m) (auto simp: send_to_each_def other)
  show ?case
  proof (cases "p = peer")
    case True
    obtain b1 h1 where en: "fold enqueue_replicate frames (True, h) = (b1, h1)" by fastforce
    have "send_to_each mono_ms Class_Replicate (p # peers) frames mesh peer = snd (send_frames mono_ms peer Class_Replicate frames mesh) peer"
      using later Cons.prems(1) True by (simp add: send_to_each_def)
    then have "h' = h1 \<or> h' = h1\<lparr>ph_last_replicate_enqueued := mono_ms + 1\<rparr>" using Cons.prems(3,5) en by (auto simp: send_frames_def)
    then show ?thesis using enqueue_clean[OF en Cons.prems(4)] assms(6) by auto
  next
    case False
    then show ?thesis using Cons.IH[of "snd (send_frames mono_ms p Class_Replicate frames mesh)"] Cons.prems other[OF False] by (simp add: send_to_each_def)
  qed
qed simp

text \<open>What the peer takes off the wire: the messages that decode.\<close>

definition received :: "(bytes \<Rightarrow> 'r control option) \<Rightarrow> (bytes \<Rightarrow> 'r control option) \<Rightarrow> node_id \<Rightarrow> 'r out_frame list \<Rightarrow> 'r inbound_msg list" where
  "received from_bytes older from frames =
     List.map_filter (\<lambda>f. case decode from_bytes older (of_frame f) of Inl _ \<Rightarrow> None | Inr m \<Rightarrow> Some \<lparr>im_from = from, im_msg = m\<rparr>) frames"

lemma received_frames:
  assumes "valid_utf8 c" and "\<And>m bs. ln_postcard ln m = Some bs \<Longrightarrow> from_bytes bs = Some m"
    and "\<forall>msg \<in> set (batch_replicate c records). \<exists>frame. out_frame_new ln msg = Inr frame \<and> of_msg frame = msg"
  shows "map im_msg (received from_bytes older from (fst (encode_frames ln (batch_replicate c records)))) = batch_replicate c records"
proof -
  have ok: "msg_ok msg" if "msg \<in> set (batch_replicate c records)" for msg :: "'a message"
    using that assms(1) by (auto simp: batch_replicate_def split: list.splits)
  have rt: "decode from_bytes older (of_frame frame) = Inr msg" if "msg \<in> set (batch_replicate c records)" "out_frame_new ln msg = Inr frame" for msg frame
  proof -
    have "encode (ln_postcard ln) msg = Inr (of_frame frame)" using that(2) by (auto simp: out_frame_new_def split: sum.splits)
    then show ?thesis using ok[OF that(1)] assms(2) by (rule decode_encode)
  qed
  have "map im_msg (received from_bytes older from (fst (encode_frames ln msgs))) = msgs" if "set msgs \<subseteq> set (batch_replicate c records)" for msgs
    using that
  proof (induction msgs)
    case (Cons msg msgs)
    then obtain frame where f: "out_frame_new ln msg = Inr frame" using assms(3) by auto
    have "decode from_bytes older (of_frame frame) = Inr msg" using rt[OF _ f] Cons.prems by simp
    then show ?case using Cons f by (simp add: received_def encode_frames_def List.map_filter_def)
  qed (simp add: received_def encode_frames_def List.map_filter_def)
  then show ?thesis by simp
qed

section \<open>Local calls keep the queue covered\<close>

lemma applied_writes_snoc [simp]: "applied_writes (items @ [Applied key ver]) = applied_writes items @ [(key, ver)]"
  by (simp add: applied_writes_def List.map_filter_def)

lemma moved_covered:
  assumes "moved e cd (now, op) sd sd'" and "lww_shard e sd" and "covered_by e cd sd (applied_writes (fq_pending (sd_fan_out sd)))" and "backlog_open sd"
  shows "covered_by e cd sd' (applied_writes (fq_pending (sd_fan_out sd')))" and "backlog_open sd'"
    and "fq_pending (sd_fan_out sd') = fq_pending (sd_fan_out sd) @ [Applied (local_key op) (clock_last (sd_clock sd'))]"
proof -
  obtain kb c where kb: "cd_encode_key cd (local_key op) = Some kb"
    and regs: "registers_of e (sd_engine sd') = (registers_of e (sd_engine sd))(kb \<mapsto> (clock_last (sd_clock sd'), c))"
    and later: "clock_last (sd_clock sd) < clock_last (sd_clock sd')"
    and q: "sd_fan_out sd' = snd (queue_push (Applied (local_key op) (clock_last (sd_clock sd'))) (sd_fan_out sd))"
    using assms(1) by (auto simp: moved_def)
  show pend: "fq_pending (sd_fan_out sd') = fq_pending (sd_fan_out sd) @ [Applied (local_key op) (clock_last (sd_clock sd'))]"
    using assms(4) by (simp add: q backlog_open_def queue_grows)
  show "backlog_open sd'" using assms(4) by (simp add: q backlog_open_def queue_grows)
  have "\<exists>kb' x. cd_encode_key cd key = Some kb' \<and> registers_of e (sd_engine sd') kb' = Some x \<and> ver \<le> fst x"
    if "(key, ver) \<in> set (applied_writes (fq_pending (sd_fan_out sd)))" for key ver
  proof (rule covered_byD[OF assms(3) that])
    fix kb' x assume x: "cd_encode_key cd key = Some kb'" "registers_of e (sd_engine sd) kb' = Some x" "ver \<le> fst x"
    have "fst x \<le> clock_last (sd_clock sd)" using assms(2) x(2) unfolding lww_shard_def by blast
    then show ?thesis using x later by (cases x; cases "kb' = kb") (auto simp: regs)
  qed
  moreover have "\<exists>kb' x. cd_encode_key cd (local_key op) = Some kb' \<and> registers_of e (sd_engine sd') kb' = Some x \<and> clock_last (sd_clock sd') \<le> fst x"
    using kb by (simp add: regs)
  ultimately show "covered_by e cd sd' (applied_writes (fq_pending (sd_fan_out sd')))"
    unfolding covered_by_def pend applied_writes_snoc by auto
qed

lemma local_run_covered:
  assumes "lww_shard e sd" "externs_ok e" "at_ceiling sd = None" "\<forall>(now, op) \<in> set h. op_ok e cd sd op"
    and "unat (logical (clock_last (sd_clock sd))) + length h < 2 ^ 32" and "local_run e cd h sd = (rs, sd')"
    and "covered_by e cd sd (applied_writes (fq_pending (sd_fan_out sd)))" and "backlog_open sd"
  shows "lww_shard e sd' \<and> eg_tti_ms (sd_engine sd') = eg_tti_ms (sd_engine sd) \<and> backlog_open sd' \<and>
    covered_by e cd sd' (applied_writes (fq_pending (sd_fan_out sd'))) \<and>
    (\<exists>vers. length vers = length h \<and>
       fq_pending (sd_fan_out sd') = fq_pending (sd_fan_out sd) @ map2 (\<lambda>(_, op) v. Applied (local_key op) v) h vers)"
  using assms
proof (induction h arbitrary: sd rs)
  case (Cons x h)
  obtain now op where x: "x = (now, op)" by fastforce
  obtain r sd1 where call: "local_call e cd op (sd\<lparr>sd_now := now\<rparr>) = (r, sd1)" by fastforce
  obtain rs1 where run: "local_run e cd h sd1 = (rs1, sd')" using Cons.prems(6) call by (auto simp: x split: prod.splits)
  have room: "now_room (sd_clock sd)" using Cons.prems(5) u32_max_unat by (auto simp: now_room_def)
  have op: "op_ok e cd sd op" using Cons.prems(4) by (simp add: x)
  have mv: "moved e cd (now, op) sd sd1" using local_call_moves[OF Cons.prems(1-3) op room, of now] by (simp add: call)
  then obtain cl g n where core: "core sd1 = core (sd\<lparr>sd_now := n, sd_clock := cl, sd_engine := g\<rparr>)" by (auto simp: moved_def)
  note same = core_reads[OF core]
  have ops: "\<forall>(now, op) \<in> set h. op_ok e cd sd1 op" using Cons.prems(4) by (auto simp: same(1))
  have len: "unat (logical (clock_last (sd_clock sd1))) + length h < 2 ^ 32" using mv Cons.prems(5) by (simp add: moved_def)
  have lww: "lww_shard e sd1" "eg_tti_ms (sd_engine sd1) = eg_tti_ms (sd_engine sd)" using mv by (simp_all add: moved_def)
  have ceil: "at_ceiling sd1 = None" using same(2) Cons.prems(3) by simp
  note cov = moved_covered[OF mv Cons.prems(1,7,8)]
  note IH = Cons.IH[OF lww(1) Cons.prems(2) ceil ops len run cov(1,2)]
  then obtain vers where vers: "length vers = length h"
    "fq_pending (sd_fan_out sd') = fq_pending (sd_fan_out sd1) @ map2 (\<lambda>(_, op) v. Applied (local_key op) v) h vers" by blast
  show ?case
    using IH lww(2) vers cov(3) by (intro conjI exI[of _ "clock_last (sd_clock sd1) # vers"]) (simp_all add: x)
qed simp

lemma fold_lww_same:
  assumes "\<forall>w \<in> set ws. fst w = kb \<longrightarrow> w = (kb, x)" and "(kb, x) \<in> set ws"
  shows "fold lww_put ws m kb = (if is_none_or (\<lambda>old. fst old < fst x) (m kb) then Some x else m kb)"
proof -
  have rep: "filter (\<lambda>w. fst w = kb) ws = replicate (length (filter (\<lambda>w. fst w = kb) ws)) (kb, x)"
    using assms(1) by (intro replicate_length_same[symmetric]) auto
  have "fold lww_put (replicate (Suc n) (kb, x)) m kb = (if is_none_or (\<lambda>old. fst old < fst x) (m kb) then Some x else m kb)" for n
  proof (induction n arbitrary: m)
    case 0
    then show ?case by (cases x) (simp add: lww_put_def)
  next
    case (Suc n)
    show ?case using Suc[of "lww_put (kb, x) m"] by (cases x) (auto simp: lww_put_def)
  qed
  moreover have "length (filter (\<lambda>w. fst w = kb) ws) \<noteq> 0" using assms(2) by (force simp: filter_empty_conv)
  ultimately show ?thesis using fold_lww_key[of m kb m ws] rep by (metis not0_implies_Suc)
qed

section \<open>From a call to a peer's engine\<close>

text \<open>A record that a peer's shard takes: it fits a frame, is of a part the shard owns, and is within its clock's bounds.\<close>

definition deliverable :: "externs \<Rightarrow> ('k, 'v) open_cache \<Rightarrow> bytes \<Rightarrow> nat \<Rightarrow> wire_record \<Rightarrow> bool" where
  "deliverable e oc c L rec \<longleftrightarrow> sendable c rec \<and> arrivals_ok (oc_shard oc) L [rec] \<and> admitted e (oc_codec oc) (oc_shard oc) rec"

text \<open>What a drain sends: the registers of the keys written.\<close>

definition drained_records :: "externs \<Rightarrow> ('k, 'v) codec \<Rightarrow> ('k, 'v) shard \<Rightarrow> 'k fan_out_item list \<Rightarrow> wire_record list" where
  "drained_records e cd sd items =
     map (\<lambda>(key, _). register_record (key_bytes_of cd key) (the (registers_of e (sd_engine sd) (key_bytes_of cd key)))) (newest_per_key (applied_writes items))"

lemma fan_out_replicated:
  fixes ln :: "'r link"
  assumes sd: "lww_shard e sd" "eg_tti_ms (sd_engine sd) = None" "covered_by e cd sd (applied_writes items)" and items: "items \<noteq> []" "forwarded_records items = []" "applied_writes items \<noteq> []"
    and enc: "\<forall>msg \<in> set (batch_replicate c (drained_records e cd sd items)). \<exists>frame. out_frame_new ln msg = Inr frame \<and> of_msg frame = msg"
  shows "fan_out_batch e cd ln send_within cl c Replicated items (mesh, sd) =
    (send_to_each (ce_mono_ms cl) Class_Replicate (map fst (ce_peers cl)) (fst (encode_frames ln (batch_replicate c (drained_records e cd sd items)))) mesh, sd)"
proof -
  let ?new = "newest_per_key (applied_writes items)"
  have ne: "?new \<noteq> []" using newest_mem(1)[of "applied_writes items"] items(3) by auto
  have cov: "covered_by e cd sd ?new" using sd(3) newest_mem(2)[of "applied_writes items"] by (auto simp: covered_by_def)
  have recs: "shard_fan_out_records e cd ?new sd = \<lparr>fr_records = drained_records e cd sd items, fr_departed = []\<rparr>"
    unfolding drained_records_def by (rule fan_out_reads_registers[OF sd(1,2) cov])
  have "drained_records e cd sd items \<noteq> []" using ne by (simp add: drained_records_def)
  moreover have "fold (\<lambda>peer. note_unsent peer 0) peers m = m" for peers and m :: "'r mesh" by (induction peers) (simp_all add: note_unsent_def)
  moreover obtain frames where "encode_frames ln (batch_replicate c (drained_records e cd sd items)) = (frames, 0)"
    using encode_frames_all(1)[OF enc] by (metis prod.collapse)
  ultimately show ?thesis
    using recs ne items(2)
    by (simp add: fan_out_batch_def Let_def broadcast_replicate_def encode_and_send_def encode_frames_for_def plan_departed_sends_def send_departed_def)
qed

text \<open>
  C10: a write made on one node arrives at the other. Any local inserts and removes on a
  last-writer-wins cache, drained from its queue and fanned out in the \<open>Replicated\<close> mode to peers of
  which one keeps its connection and is left clean, reach that peer as frames at the end of its
  outbox; what the peer decodes from them, taken as one burst, leaves its cache with, for
  every key written, the record the writer stores, unless it already holds one at least as new. The
  steps are those of the code: stamp and apply, queue, drain, newest write of each key, read back,
  batches, frames, outbox, decoding, runs, guards, apply.
\<close>

theorem write_reaches_peer:
  fixes ln :: "'r link"
  assumes "lww_shard e sd0" "externs_ok e" "at_ceiling sd0 = None" "eg_tti_ms (sd_engine sd0) = None" "backlog_open sd0" "fq_pending (sd_fan_out sd0) = []"
    and "\<forall>(now, op) \<in> set h. op_ok e cd sd0 op" "unat (logical (clock_last (sd_clock sd0))) + length h < 2 ^ 32" "local_run e cd h sd0 = (rs, sd)" "h \<noteq> []"
    and "valid_utf8 c" "length c < 2 ^ 16" "distinct (map fst (ce_peers cl))" "peer \<in> fst ` set (ce_peers cl)"
    and "\<forall>m bs. ln_postcard ln m = Some bs \<longrightarrow> from_bytes bs = Some m"
    and "mesh peer = Some ph" "\<not> ob_closed (ph_replicate ph)"
    and "fan_out_batch e cd ln send_within cl c Replicated (fst (queue_drain (sd_fan_out sd))) (mesh, sd) = (mesh', sd')" "mesh' peer = Some ph'" "\<not> ph_dirty ph'"
    and "shards c = Some oc" "lww_shard e (oc_shard oc)" "sd_mode (oc_shard oc) \<noteq> Invalidation"
    and "unat (logical (clock_last (sd_clock (oc_shard oc)))) \<le> L" "L + length h < 2 ^ 32"
    and "\<forall>kb x. registers_of e (sd_engine sd) kb = Some x \<longrightarrow> deliverable e oc c L (register_record kb x)"
  shows "\<exists>frames oc'. map fst (ob_queue (ph_replicate ph')) = map fst (ob_queue (ph_replicate ph)) @ frames \<and>
    ib_shards (inbound_burst e ln' now self (received from_bytes older (ce_node cl) frames) shards rw) c = Some oc' \<and> lww_shard e (oc_shard oc') \<and>
    (\<forall>(t, op) \<in> set h. \<exists>kb x. cd_encode_key cd (local_key op) = Some kb \<and> registers_of e (sd_engine sd) kb = Some x \<and>
       registers_of e (sd_engine (oc_shard oc')) kb =
         (if is_none_or (\<lambda>old. fst old < fst x) (registers_of e (sd_engine (oc_shard oc)) kb) then Some x
          else registers_of e (sd_engine (oc_shard oc)) kb))"
proof -
  let ?reg = "registers_of e (sd_engine sd)"
  have none: "covered_by e cd sd0 (applied_writes (fq_pending (sd_fan_out sd0)))" by (simp add: assms(6) covered_by_def applied_writes_def List.map_filter_def)
  obtain vers where run: "lww_shard e sd" "eg_tti_ms (sd_engine sd) = None" "covered_by e cd sd (applied_writes (fq_pending (sd_fan_out sd)))"
    and vers: "length vers = length h" "fq_pending (sd_fan_out sd) = map2 (\<lambda>(_, op) v. Applied (local_key op) v) h vers"
    using local_run_covered[OF assms(1-3,7-9) none assms(5)] assms(4,6) by auto
  define items where "items = fq_pending (sd_fan_out sd)"
  define records where "records = drained_records e cd sd items"
  have app: "applied_writes items = map2 (\<lambda>(_, op) v. (local_key op, v)) h vers" "forwarded_records items = []"
    unfolding items_def vers(2) using vers(1)
    by (induction h vers rule: list_induct2') (auto simp: applied_writes_def forwarded_records_def List.map_filter_def)
  have ne2: "applied_writes items \<noteq> []" unfolding app(1) using assms(10) vers(1) by (cases h; cases vers) auto
  then have ne: "items \<noteq> []" "applied_writes items \<noteq> []" by (auto simp: applied_writes_def List.map_filter_def)
  have in_rec: "\<exists>key kb x. cd_encode_key cd key = Some kb \<and> ?reg kb = Some x \<and> rec = register_record kb x" if r: "rec \<in> set records" for rec
  proof -
    obtain key v where "(key, v) \<in> set (newest_per_key (applied_writes items))" "rec = register_record (key_bytes_of cd key) (the (?reg (key_bytes_of cd key)))"
      using r by (auto simp: records_def drained_records_def)
    then have w: "(key, v) \<in> set (applied_writes items)" "rec = register_record (key_bytes_of cd key) (the (?reg (key_bytes_of cd key)))"
      using newest_mem(2) by blast+
    show ?thesis by (rule covered_byD[OF run(3)[folded items_def] w(1)]) (use w(2) in \<open>auto simp: key_bytes_of_def\<close>)
  qed
  have deliver: "deliverable e oc c L rec" if "rec \<in> set records" for rec using in_rec[OF that] assms(26) by blast
  have sendable: "list_all (sendable c) records" using deliver by (auto simp: list_all_iff deliverable_def)
  note enc = batch_replicate_encodes[OF assms(12) sendable, of ln]
  define frames where "frames = fst (encode_frames ln (batch_replicate c records))"
  have "mesh' = send_to_each (ce_mono_ms cl) Class_Replicate (map fst (ce_peers cl)) frames mesh"
    using assms(18) fan_out_replicated[OF run(1,2) run(3)[folded items_def] ne(1) app(2) ne(2) enc[unfolded records_def], of send_within cl mesh]
    by (simp add: queue_drain_def items_def[symmetric] records_def[symmetric] frames_def)
  then have queued: "map fst (ob_queue (ph_replicate ph')) = map fst (ob_queue (ph_replicate ph)) @ frames"
    using send_to_each_peer[where mesh = mesh and peer = peer and h = ph and h' = ph' and frames = frames and mono_ms = "ce_mono_ms cl", OF assms(13) _ assms(16,17)] assms(14,19,20) by simp
  let ?rcv = "received from_bytes older (ce_node cl) frames"
  have msgs: "map im_msg ?rcv = batch_replicate c records" unfolding frames_def by (rule received_frames[OF assms(11) assms(15)[rule_format] enc])
  have kinds: "cache_records c m = msg_records m \<and> \<not> invalidates m" if "m \<in> set (batch_replicate c records)" for m :: "'r message"
    using that by (auto simp: batch_replicate_def split: list.splits)
  have burst: "burst_records c ?rcv = records"
  proof -
    have "burst_records c ?rcv = concat (map (cache_records c) (map im_msg ?rcv))" by (simp add: burst_records_def comp_def)
    also have "\<dots> = concat (map msg_records (batch_replicate c records :: 'r message list))" unfolding msgs using kinds by (metis map_cong)
    finally show ?thesis by simp
  qed
  have plain: "\<forall>m \<in> set ?rcv. \<not> invalidates (im_msg m)"
  proof
    fix m assume "m \<in> set ?rcv"
    then have "im_msg m \<in> set (batch_replicate c records)" unfolding msgs[symmetric] by simp
    then show "\<not> invalidates (im_msg m)" using kinds by blast
  qed
  have arrive: "arrivals_ok (oc_shard oc) L (burst_records c ?rcv)" using deliver unfolding burst by (auto simp: deliverable_def arrivals_ok_def)
  have "length (applied_writes items) = length h" using app(1) vers(1) by simp
  then have len: "L + length (burst_records c ?rcv) < 2 ^ 32"
    using newest_mem(3)[of "applied_writes items"] assms(25) unfolding burst by (simp add: records_def drained_records_def)
  have held_reg: "?reg (fst w) = Some (snd w)" if w: "w \<in> set (map rec_write records)" for w
    using in_rec w by (fastforce simp del: rec_write_def)
  then have stamped: "well_stamped (map rec_write (burst_records c ?rcv))"
    unfolding burst well_stamped_def split_beta by (metis option.inject prod.collapse)
  have all: "filter (admitted e (oc_codec oc) (oc_shard oc)) records = records" using deliver by (simp add: filter_id_conv deliverable_def)
  obtain oc' where oc': "ib_shards (inbound_burst e ln' now self ?rcv shards rw) c = Some oc'" "lww_shard e (oc_shard oc')"
    "registers_of e (sd_engine (oc_shard oc')) = fold lww_put (map rec_write records) (registers_of e (sd_engine (oc_shard oc)))"
    using burst_registers[where shards = shards and c = c and ln = ln' and now = now and self = self and rw = rw, OF assms(21,22,2,23) arrive len assms(24) plain stamped] by (auto simp: burst all)
  have "\<exists>kb x. cd_encode_key cd (local_key op) = Some kb \<and> ?reg kb = Some x \<and>
      registers_of e (sd_engine (oc_shard oc')) kb =
        (if is_none_or (\<lambda>old. fst old < fst x) (registers_of e (sd_engine (oc_shard oc)) kb) then Some x else registers_of e (sd_engine (oc_shard oc)) kb)"
    if op: "(t, op) \<in> set h" for t op
  proof -
    have "local_key op \<in> fst ` set (applied_writes items)"
    proof -
      obtain i where i: "i < length h" "h ! i = (t, op)" using op by (auto simp: in_set_conv_nth)
      then have "(local_key op, vers ! i) \<in> set (applied_writes items)" unfolding app(1) in_set_conv_nth using vers(1) by (intro exI[of _ i]) simp
      then show ?thesis by (rule rev_image_eqI) simp
    qed
    then have "local_key op \<in> fst ` set (newest_per_key (applied_writes items))" by (simp only: newest_mem(1))
    then obtain v where v: "(local_key op, v) \<in> set (newest_per_key (applied_writes items))" by auto
    then have "(local_key op, v) \<in> set (applied_writes items)" using newest_mem(2) by blast
    then show ?thesis
    proof (rule covered_byD[OF run(3)[folded items_def]])
      fix kb x assume kb: "cd_encode_key cd (local_key op) = Some kb" "?reg kb = Some x"
      have "register_record kb x \<in> set records" using v kb by (force simp: records_def drained_records_def key_bytes_of_def)
      then have mem: "(kb, x) \<in> set (map rec_write records)" by force
      have "\<forall>w \<in> set (map rec_write records). fst w = kb \<longrightarrow> w = (kb, x)" using held_reg kb(2) by (metis option.inject prod.collapse)
      from fold_lww_same[OF this mem] kb show ?thesis unfolding oc'(3) by blast
    qed
  qed
  then show ?thesis using queued oc'(1,2) by blast
qed

lemma few_frames: "length (fst (encode_frames ln (batch_replicate c records))) \<le> length records"
proof -
  have "length (fst (encode_frames ln (batch_replicate c records))) \<le> length (chunk_records c records)"
    by (simp add: encode_frames_def batch_replicate_def List.map_filter_def)
  also have "length (chunk_records c records) \<le> length records"
  proof -
    have "length chunks \<le> length (concat chunks)" if "list_all (batch_ok c) chunks" for chunks
      using that by (induction chunks) (auto simp: batch_ok_def neq_Nil_conv)
    from this[OF chunk_records_exact(2)] show ?thesis by (simp add: chunk_records_exact)
  qed
  finally show ?thesis .
qed

text \<open>An outbox with room for every frame at its greatest weight leaves the peer clean.\<close>

lemma enqueue_roomy:
  assumes "fold enqueue_replicate frames (b, h) = (b', h')" and "\<not> ob_closed (ph_replicate h)" and "\<not> ph_dirty h"
    and "length (ob_queue (ph_replicate h)) + length frames \<le> ob_slots (ph_replicate h)" and "length frames * 2 ^ 32 \<le> ob_available (ph_replicate h)"
  shows "\<not> ph_dirty h'"
  using assms
proof (induction frames arbitrary: h)
  case (Cons f frames)
  let ?ob = "ph_replicate h" and ?w = "outbox_weight (of_resident f) (ph_replicate h)"
  have w: "?w < 2 ^ 32" by (simp add: outbox_weight_def)
  let ?ob' = "permit_send f ?w (?ob\<lparr>ob_available := ob_available ?ob - ?w\<rparr>)"
  have "try_send f ?ob = Inr ?ob'" using Cons.prems(2,4,5) w by (simp add: try_send_def try_reserve_def Let_def)
  then have "fold enqueue_replicate frames (b, h\<lparr>ph_replicate := ?ob'\<rparr>) = (b', h')" using Cons.prems(1) by (simp add: enqueue_replicate_def[of f])
  from Cons.IH[OF this] show ?case using Cons.prems(2-5) w by (simp add: permit_send_def)
qed simp

definition demo_env :: cluster_env where
  "demo_env = \<lparr>ce_node = NodeId 1, ce_peers = [(NodeId 2, 9)], ce_mono_ms = 5\<rparr>"

definition demo_handle :: "unit peer_handle" where
  "demo_handle = \<lparr>ph_invalidate = drop_oldest_new 4 100, ph_replicate = replicate_outbox 4 (2 ^ 40), ph_dirty = False, ph_last_replicate_enqueued = 0\<rparr>"

definition demo_link :: "unit link" where
  "demo_link = \<lparr>ln_postcard = (\<lambda>_. None), ln_size_of_msg = 8, ln_size_of_record = 8\<rparr>"

definition demo_peer :: "(bytes, bytes) open_cache" where
  "demo_peer = \<lparr>oc_codec = demo_codec, oc_refresh = None, oc_shard = demo_shard (NodeId 2)\<rparr>"

lemma demo_registers: "registers_of demo_externs (sd_engine (demo_shard node)) = Map.empty"
  by (simp add: demo_shard_def shard_new_def set_merge_cap_def guarding_pauses_def starting_gc_deferred_def fun_eq_iff registers_of_def
      engine_cell_def engine_new_def cell_at_def stripe_new_def arena_find_def)

lemma demo_written:
  assumes "local_run demo_externs demo_codec [(100, L_Insert [7] [1] None)] (demo_shard (NodeId 1)) = (rs, sd)" and "registers_of demo_externs (sd_engine sd) kb = Some x"
  shows "deliverable demo_externs demo_peer [97] 1 (register_record kb x)"
proof -
  let ?sd = "demo_shard (NodeId 1)" and ?op = "L_Insert [7] [1] None :: (bytes, bytes) local_op"
  have room: "now_room (sd_clock ?sd)" by (simp add: now_room_def demo_shard_facts)
  have mv: "moved demo_externs demo_codec (100, ?op) ?sd sd"
    using local_call_moves[where op = ?op and now = 100, OF demo_shard_facts(1) demo_externs_ok demo_shard_facts(2,4) room] assms(1) by (auto split: prod.splits)
  obtain c where reg: "registers_of demo_externs (sd_engine sd) = [[7] \<mapsto> (clock_last (sd_clock sd), c)]"
    using mv demo_registers by (auto simp: moved_def demo_codec_def)
  have "contents demo_externs sd [7] = Some ([1], None)" using mv by (simp add: moved_def demo_shard_facts) (simp add: demo_codec_def)
  then have "c = Inl ([1], None)" by (auto simp: contents_def reg split: sum.splits)
  then have x: "kb = [7]" "x = (clock_last (sd_clock sd), Inl ([1], None))" using assms(2) by (auto simp: reg split: if_splits)
  have "unat (logical (clock_last (sd_clock sd))) \<le> 1" using mv by (simp add: moved_def demo_shard_facts)
  then show ?thesis
    by (simp add: x deliverable_def sendable_def register_record_def arrivals_ok_def arrives_in_time_def admitted_def owned_record_def owns_key_def within_skew_def
        decodes_def demo_peer_def demo_shard_def shard_new_def demo_codec_def demo_config_def forward_frame_len_def replicate_frame_len_def max_frame_def
        raw_frame_header_len_def forward_header_len_def record_header_len_def)
qed

theorem write_reaches_peer_witness:
  "\<exists>frames oc'. ib_shards (inbound_burst demo_externs demo_link 0 (NodeId 2) (received (\<lambda>_. None) (\<lambda>_. None) (NodeId 1) frames)
       [[97] \<mapsto> demo_peer] (reforwarder_new Map.empty)) [97] = Some oc' \<and> registers_of demo_externs (sd_engine (oc_shard oc')) [7] \<noteq> None"
proof -
  let ?h = "[(100, L_Insert [7] [1] None)] :: (u64 \<times> (bytes, bytes) local_op) list" and ?sd = "demo_shard (NodeId 1)"
  let ?mesh = "[NodeId 2 \<mapsto> demo_handle]"
  obtain rs sd where run: "local_run demo_externs demo_codec ?h ?sd = (rs, sd)" by fastforce
  have h: "\<forall>(now, op) \<in> set ?h. op_ok demo_externs demo_codec ?sd op" "?h \<noteq> []" by (simp_all add: demo_shard_facts)
  have len: "unat (logical (clock_last (sd_clock ?sd))) + length ?h < 2 ^ 32" by (simp add: demo_shard_facts)
  have queue: "backlog_open ?sd" "fq_pending (sd_fan_out ?sd) = []"
    by (simp_all add: backlog_open_def demo_merging_defs fan_out_queue_new_def queue_is_open_def)
  have name: "valid_utf8 [97]" "length [97 :: u8] < 2 ^ 16" by simp_all
  have peers: "distinct (map fst (ce_peers demo_env))" "NodeId 2 \<in> fst ` set (ce_peers demo_env)" by (simp_all add: demo_env_def)
  have none: "\<forall>m bs. ln_postcard demo_link m = Some bs \<longrightarrow> None = Some m" by (simp add: demo_link_def)
  have handle: "?mesh (NodeId 2) = Some demo_handle" "\<not> ob_closed (ph_replicate demo_handle)" by (simp_all add: demo_handle_def replicate_outbox_def Let_def)
  have peer: "[[97] \<mapsto> demo_peer] [97] = Some demo_peer" "lww_shard demo_externs (oc_shard demo_peer)" "sd_mode (oc_shard demo_peer) \<noteq> Invalidation"
    "unat (logical (clock_last (sd_clock (oc_shard demo_peer)))) \<le> 1" "1 + length ?h < 2 ^ 32"
    by (simp_all add: demo_peer_def demo_shard_facts) (simp add: demo_shard_def shard_new_def)
  have del: "\<forall>kb x. registers_of demo_externs (sd_engine sd) kb = Some x \<longrightarrow> deliverable demo_externs demo_peer [97] 1 (register_record kb x)"
    using demo_written[OF run] by blast
  obtain mesh' sd' where batch: "fan_out_batch demo_externs demo_codec demo_link (\<lambda>p fs m. (0, m)) demo_env [97] Replicated (fst (queue_drain (sd_fan_out sd))) (?mesh, sd) = (mesh', sd')"
    by fastforce
  have "covered_by demo_externs demo_codec ?sd (applied_writes (fq_pending (sd_fan_out ?sd)))"
    by (simp add: queue(2) covered_by_def applied_writes_def List.map_filter_def)
  then obtain v where after: "lww_shard demo_externs sd" "eg_tti_ms (sd_engine sd) = None"
    "covered_by demo_externs demo_codec sd (applied_writes (fq_pending (sd_fan_out sd)))" and items: "fq_pending (sd_fan_out sd) = [Applied [7] v]"
    using local_run_covered[OF demo_shard_facts(1) demo_externs_ok demo_shard_facts(2) h(1) len run _ queue(1)] demo_shard_facts(3)
    by (auto simp: queue(2) length_Suc_conv)
  let ?items = "[Applied [7] v]"
  let ?recs = "drained_records demo_externs demo_codec sd ?items"
  define frames where "frames = fst (encode_frames demo_link (batch_replicate [97] ?recs))"
  have "list_all (sendable [97]) ?recs"
    using del after(3) by (auto simp: items drained_records_def applied_writes_def List.map_filter_def newest_per_key_def covered_by_def key_bytes_of_def deliverable_def)
  note enc = batch_replicate_encodes[OF name(2) this, of demo_link]
  have mesh': "mesh' = send_to_each 5 Class_Replicate [NodeId 2] frames ?mesh"
    using batch fan_out_replicated[where items = ?items and mesh = ?mesh and cl = demo_env and send_within = "\<lambda>p fs m. (0, m)", OF after(1,2) after(3)[unfolded items] _ _ _ enc]
    by (simp add: queue_drain_def items demo_env_def frames_def forwarded_records_def applied_writes_def List.map_filter_def)
  have "length frames \<le> 1"
    unfolding frames_def by (rule le_trans[OF few_frames]) (simp add: drained_records_def applied_writes_def List.map_filter_def newest_per_key_def)
  moreover obtain b' h' where en: "fold enqueue_replicate frames (True, demo_handle) = (b', h')" by fastforce
  ultimately have "\<not> ph_dirty h'"
    by (intro enqueue_roomy[OF en]) (simp_all add: demo_handle_def replicate_outbox_def Let_def max_permits_def usize_max_def)
  then have "\<exists>ph'. mesh' (NodeId 2) = Some ph' \<and> \<not> ph_dirty ph'" by (simp add: mesh' send_to_each_def send_frames_def en)
  then obtain ph' where clean: "mesh' (NodeId 2) = Some ph'" "\<not> ph_dirty ph'" by blast
  show ?thesis
    using write_reaches_peer[where ln' = demo_link and now = 0 and self = "NodeId 2" and rw = "reforwarder_new Map.empty" and from_bytes = "\<lambda>_. None" and older = "\<lambda>_. None" and mesh = ?mesh and peer = "NodeId 2"
        and shards = "[[97] \<mapsto> demo_peer]" and c = "[97]", OF demo_shard_facts(1) demo_externs_ok demo_shard_facts(2,3) queue h(1) len run h(2) name peers none handle batch clean peer del]
    by (auto simp: demo_env_def demo_codec_def demo_peer_def demo_registers split: if_splits)
qed

end
