(* ===== verification/Rebalance_Plan.thy ===== *)
theory Rebalance_Plan
  imports Absence Cluster_Fan_Out "HOL-Library.AList"
begin

text \<open>
  What a distributed cache decides when parts change hands: the planning functions of
  \<^verbatim>\<open>cluster/rebalance.rs\<close> and the table of acknowledged parts of \<^verbatim>\<open>net/mod.rs\<close>. A
  \<open>HashSet\<close> is a set, a \<open>HashMap\<close> an ordered map; no answer depends on the order the code walks
  them in. Instants and durations are naturals in nanoseconds.

  The lemmas give each plan exactly: which parts a view change loses and pulls, which parts a release
  may drop, whom a push reaches, and that an acknowledgment counts for the part it names only.
\<close>

section \<open>Pull groups\<close>

type_synonym donor_group = "node_id list \<times> part_id list"

definition sole_owned :: "externs \<Rightarrow> ownership_view \<Rightarrow> part_id list \<Rightarrow> node_id list \<Rightarrow> part_id list" where
  "sole_owned e view alone absent =
     (case widened e view absent of
        None \<Rightarrow> alone
      | Some wide \<Rightarrow> filter (\<lambda>p. \<not> list_ex (\<lambda>owner. owner \<in> set absent) (owners_of wide p)) alone)"

definition group_parts_by_donor_set :: "ownership_view \<Rightarrow> node_id \<Rightarrow> part_id list \<Rightarrow> donor_group list" where
  "group_parts_by_donor_set view self_node ps =
     (let by_owners = group_in_order (map (\<lambda>p. (owners_of view p, [p])) ps)
      in group_in_order (map (\<lambda>(owners, ps). (filter (\<lambda>n. n \<noteq> self_node) owners, ps)) by_owners))"

definition parts_pending_group_credit :: "nat \<Rightarrow> part_id set \<Rightarrow> nat" where
  "parts_pending_group_credit total_parts already_credited = total_parts - card already_credited"

definition all_cold_passes_max :: u32 where
  "all_cold_passes_max = 3"

definition cold_donor_rounds :: nat where
  "cold_donor_rounds = 3"

record part_round_outcome =
  po_matched :: "part_id set"
  po_still_diverged :: "part_id set"
  po_bytes_moved :: u64
  po_failed :: bool

datatype cold_round_end = Unreached | Matched | Diverging

definition cold_round :: "part_round_outcome option \<Rightarrow> part_id list \<Rightarrow> cold_round_end \<times> part_id list" where
  "cold_round outcome diverging =
     (case outcome of
        None \<Rightarrow> (Unreached, diverging)
      | Some outcome \<Rightarrow>
          if po_failed outcome then (Unreached, diverging)
          else let diverging = filter (\<lambda>p. p \<notin> po_matched outcome) diverging
               in (if diverging = [] then Matched else Diverging, diverging))"

datatype group_pull = Landed u64 | Superseded_Pull | Unverified_Pull

definition settle_all_cold :: "part_id list \<Rightarrow> (part_id \<Rightarrow> bool) \<Rightarrow> part_id list \<times> group_pull" where
  "settle_all_cold ps unverified =
     (let (waiting, settled) = partition unverified ps
      in (settled, if waiting = [] then Landed 0 else Unverified_Pull))"

section \<open>Retries\<close>

definition retry_parts :: "part_set \<Rightarrow> ownership_view \<Rightarrow> (part_id \<Rightarrow> bool) \<Rightarrow> part_id list" where
  "retry_parts unfinished view cold =
     sort (filter (\<lambda>p. owns view p \<and> length (owners_of view p) > 1 \<and> cold p) (part_set_iter unfinished))"

definition still_cold :: "part_id list \<Rightarrow> (part_id \<Rightarrow> bool) \<Rightarrow> part_set" where
  "still_cold unfinished cold = part_set_from_iter (filter cold unfinished)"

section \<open>A view change\<close>

record view_change_plan =
  vp_lost :: "part_id list"
  vp_regained :: "part_id list"
  vp_to_pull :: "part_id list"
  vp_stale :: "part_id list"

definition mark_pulling :: "view_change_plan \<Rightarrow> residency_set \<Rightarrow> residency_set" where
  "mark_pulling plan r = mark_stale (vp_stale plan) (mark_cold (vp_to_pull plan) r)"

text \<open>\<open>filter(|&part| seen.insert(part))\<close>: the parts not in the set yet, each once.\<close>

fun insert_fresh :: "part_set \<Rightarrow> part_id list \<Rightarrow> part_id list" where
  "insert_fresh seen [] = []"
| "insert_fresh seen (p # ps) =
     (case part_set_insert p seen of
        (fresh, seen) \<Rightarrow> if fresh then p # insert_fresh seen ps else insert_fresh seen ps)"

definition plan_view_change ::
  "ownership_view \<Rightarrow> ownership_view \<Rightarrow> ownership_view \<Rightarrow> part_id list \<Rightarrow> part_set \<Rightarrow> view_change_plan" where
  "plan_view_change prev pulled new held_now repull =
     (let (regained, lost) = ownership_diff prev new;
          lost = lost @ insert_fresh (part_set_from_iter lost) (filter (\<lambda>p. \<not> owns new p) held_now);
          to_pull = fst (ownership_diff pulled new);
          to_pull = to_pull @ insert_fresh (part_set_from_iter to_pull) (regained @ filter (owns new) (part_set_iter repull));
          held_set = part_set_from_iter held_now
      in \<lparr>vp_lost = lost, vp_regained = regained, vp_to_pull = to_pull,
          vp_stale = filter (part_set_contains held_set) to_pull\<rparr>)"

section \<open>Handing over\<close>

definition note_owner :: "node_id \<Rightarrow> node_id set \<Rightarrow> node_id \<Rightarrow> node_id list \<Rightarrow> node_id list" where
  "note_owner self_node live owner owners =
     (if owner \<noteq> self_node \<and> owner \<in> live \<and> owner \<notin> set owners then owners @ [owner] else owners)"

definition hand_off_owners :: "ownership_view \<Rightarrow> node_id \<Rightarrow> part_id list \<Rightarrow> node_id set \<Rightarrow> node_id list" where
  "hand_off_owners view self_node due live = fold (\<lambda>p. fold (note_owner self_node live) (owners_of view p)) due []"

definition unpullable_losses :: "ownership_view \<Rightarrow> ownership_view \<Rightarrow> node_id \<Rightarrow> part_id list \<Rightarrow> part_id list" where
  "unpullable_losses prev new self_node lost =
     filter (\<lambda>p. \<not> list_ex (\<lambda>owner. owner \<noteq> self_node \<and> owner \<in> set (owners_of prev p)) (owners_of new p)) lost"

type_synonym push_target_list = "(node_id \<times> part_id list) list"

fun add_target :: "node_id \<Rightarrow> part_id \<Rightarrow> push_target_list \<Rightarrow> push_target_list" where
  "add_target owner p [] = [(owner, [p])]"
| "add_target owner p ((node, owned) # targets) =
     (if node = owner then (node, owned @ [p]) # targets else (node, owned) # add_target owner p targets)"

definition push_targets :: "ownership_view \<Rightarrow> node_id \<Rightarrow> part_id list \<Rightarrow> push_target_list" where
  "push_targets view self_node ps =
     fold (\<lambda>p. fold (\<lambda>owner targets. if owner = self_node then targets else add_target owner p targets) (owners_of view p)) ps []"

text \<open>\<open>Instant::checked_add\<close> fails past a bound of the platform, the parameter \<open>last_instant\<close>.\<close>

definition out_of_time :: "nat \<Rightarrow> nat \<Rightarrow> nat \<Rightarrow> nat option \<Rightarrow> bool" where
  "out_of_time last_instant now retry give_up = is_some_and (\<lambda>give_up. last_instant < now + retry \<or> give_up < now + retry) give_up"

definition split_reachable :: "push_target_list \<Rightarrow> node_id set \<Rightarrow> push_target_list \<times> push_target_list" where
  "split_reachable targets live = partition (\<lambda>(owner, _). owner \<in> live) targets"

definition hand_off_cutoff :: "nat \<Rightarrow> nat \<Rightarrow> nat" where
  "hand_off_cutoff tombstone_ttl ae_interval = max (tombstone_ttl - ae_interval) ae_interval"

definition acked_by_part :: "granularity \<Rightarrow> (u16, node_id set) btree_map \<Rightarrow> (part_id, node_id set) btree_map" where
  "acked_by_part g acked =
     fold (\<lambda>(i, owners). fold (\<lambda>p. bm_upsert (\<lambda>known. known \<union> owners) p owners) (parts_of_wire_id g i)) (bm_entries acked) bm_empty"

definition answered :: "(part_id, node_id set) btree_map \<Rightarrow> part_id \<Rightarrow> node_id \<Rightarrow> bool" where
  "answered acked p owner = is_some_and (\<lambda>owners. owner \<in> owners) (bm_get acked p)"

definition parts_to_release ::
  "ownership_view \<Rightarrow> node_id \<Rightarrow> part_id list \<Rightarrow> part_set \<Rightarrow> node_id set \<Rightarrow> (part_id, node_id set) btree_map \<Rightarrow> node_id set \<Rightarrow> part_id list" where
  "parts_to_release view self_node due overdue reconciled acked unreachable =
     filter (\<lambda>p. \<not> owns view p \<and>
        list_all (\<lambda>owner. owner = self_node \<or> owner \<in> reconciled \<or> answered acked p owner \<or>
           (part_set_contains overdue p \<and> owner \<in> unreachable)) (owners_of view p)) due"

definition view_moved :: "ownership_view \<Rightarrow> ownership_view \<Rightarrow> bool" where
  "view_moved planned current \<longleftrightarrow> ov_view_hash planned \<noteq> ov_view_hash current"

definition not_owned :: "ownership_view \<Rightarrow> part_id list \<Rightarrow> part_id list" where
  "not_owned view ps = filter (\<lambda>p. \<not> owns view p) ps"

definition owners_needing_confirmation ::
  "ownership_view \<Rightarrow> node_id list \<Rightarrow> part_id list \<Rightarrow> node_id set \<Rightarrow> (part_id, node_id set) btree_map \<Rightarrow> node_id list" where
  "owners_needing_confirmation view owners due reconciled acked =
     filter (\<lambda>owner. owner \<notin> reconciled \<and>
        \<not> list_all (\<lambda>p. answered acked p owner) (filter (\<lambda>p. owner \<in> set (owners_of view p)) due)) owners"

section \<open>Acknowledged parts\<close>

type_synonym ack_row = "(bytes \<times> u16 \<times> node_id) \<times> nat \<times> u64"

record ack_table =
  ak_rows :: "ack_row list"
  ak_window :: nat
  ak_swept_at :: nat

definition ack_sweep_floor :: nat where
  "ack_sweep_floor = 1000000000"

definition ack_within_window :: "nat \<Rightarrow> nat \<Rightarrow> nat \<Rightarrow> bool" where
  "ack_within_window acked_at now window \<longleftrightarrow> now - acked_at \<le> window"

definition ack_sweep_due :: "nat \<Rightarrow> nat \<Rightarrow> nat \<Rightarrow> bool" where
  "ack_sweep_due swept_at now window \<longleftrightarrow> max window ack_sweep_floor \<le> now - swept_at"

definition sweep_aged_acks :: "nat \<Rightarrow> nat \<Rightarrow> ack_row list \<Rightarrow> ack_row list" where
  "sweep_aged_acks now window rows = filter (\<lambda>(_, acked_at, _). ack_within_window acked_at now window) rows"

definition record_bucket_ack_at :: "bytes \<Rightarrow> u16 \<Rightarrow> node_id \<Rightarrow> u64 \<Rightarrow> nat \<Rightarrow> ack_table \<Rightarrow> ack_table" where
  "record_bucket_ack_at cache bucket from vh now t =
     (let rows = AList.update (cache, bucket, from) (now, vh) (ak_rows t)
      in if ack_sweep_due (ak_swept_at t) now (ak_window t)
         then t\<lparr>ak_rows := sweep_aged_acks now (ak_window t) rows, ak_swept_at := now\<rparr>
         else t\<lparr>ak_rows := rows\<rparr>)"

definition forget_acks_of_departed :: "node_id set \<Rightarrow> ack_table \<Rightarrow> ack_table" where
  "forget_acks_of_departed peers t = t\<lparr>ak_rows := filter (\<lambda>((_, _, requester), _). requester \<in> peers) (ak_rows t)\<rparr>"

definition note_ack :: "bytes \<Rightarrow> u16 set \<Rightarrow> nat \<Rightarrow> nat \<Rightarrow> u64 \<Rightarrow> ack_row \<Rightarrow> (u16, node_id set) btree_map \<Rightarrow> (u16, node_id set) btree_map" where
  "note_ack cache due now window vh row acked =
     (case row of ((c, bucket, owner), acked_at, hash) \<Rightarrow>
        if c = cache \<and> bucket \<in> due \<and> ack_within_window acked_at now window \<and> hash = vh
        then bm_upsert (insert owner) bucket {owner} acked else acked)"

definition acked_owners :: "bytes \<Rightarrow> u16 list \<Rightarrow> nat \<Rightarrow> u64 \<Rightarrow> nat \<Rightarrow> ack_table \<Rightarrow> (u16, node_id set) btree_map" where
  "acked_owners cache due window vh now t = fold (note_ack cache (set due) now window vh) (ak_rows t) bm_empty"


section \<open>What a view change plans\<close>

lemma insert_returns: "fst (part_set_insert p s) = (\<not> part_set_contains s p)"
  by (simp add: part_set_insert_def part_set_contains_def Let_def case_prod_beta)

lemma insert_fresh_exact:
  assumes "part_set_ok seen"
  shows "set (insert_fresh seen ps) = {p \<in> set ps. \<not> part_set_contains seen p} \<and> distinct (insert_fresh seen ps)"
  using assms
proof (induction ps arbitrary: seen)
  case (Cons p ps)
  obtain fresh seen' where ins: "part_set_insert p seen = (fresh, seen')" by fastforce
  have f: "fresh = (\<not> part_set_contains seen p)" using insert_returns[of p seen] ins by simp
  note c = contains_insert[OF Cons.prems, of p, unfolded ins snd_conv]
  show ?case using Cons.IH[OF c(1)] f by (auto simp: ins c(2))
qed simp

lemma distinct_part_set_iter: "part_set_ok s \<Longrightarrow> distinct (part_set_iter s)"
  using part_set_iter_sorted[of s] by (simp add: strict_sorted_iff distinct_map)

lemma distinct_owned_parts: "part_set_ok (ov_owned v) \<Longrightarrow> distinct (owned_parts v)"
  by (simp add: owned_parts_def distinct_part_set_iter)

lemma contains_iter: "part_set_ok s \<Longrightarrow> p \<in> set (part_set_iter s) \<longleftrightarrow> part_set_contains s p"
  by (simp add: part_set_iter_members part_members_def)

lemma plan_view_change_exact:
  assumes ok: "part_set_ok (ov_owned prev)" "part_set_ok (ov_owned pulled)" "part_set_ok (ov_owned new)" "part_set_ok repull"
    and plan: "plan_view_change prev pulled new held_now repull = plan"
  shows "p \<in> set (vp_lost plan) \<longleftrightarrow> \<not> owns new p \<and> (owns prev p \<or> p \<in> set held_now)"
    and "p \<in> set (vp_regained plan) \<longleftrightarrow> owns new p \<and> \<not> owns prev p"
    and "p \<in> set (vp_to_pull plan) \<longleftrightarrow> owns new p \<and> (\<not> owns pulled p \<or> \<not> owns prev p \<or> part_set_contains repull p)"
    and "p \<in> set (vp_stale plan) \<longleftrightarrow> p \<in> set (vp_to_pull plan) \<and> p \<in> set held_now"
    and "distinct (vp_lost plan)" and "distinct (vp_to_pull plan)"
proof -
  note facts = contains_owned_parts[OF ok(1)] contains_owned_parts[OF ok(3)] contains_from_iter contains_iter[OF ok(4)]
    insert_fresh_exact[OF contains_from_iter(1)]
  show "p \<in> set (vp_lost plan) \<longleftrightarrow> \<not> owns new p \<and> (owns prev p \<or> p \<in> set held_now)"
    using plan by (auto simp: plan_view_change_def ownership_diff_def Let_def facts)
  show "p \<in> set (vp_regained plan) \<longleftrightarrow> owns new p \<and> \<not> owns prev p"
    using plan by (auto simp: plan_view_change_def ownership_diff_def Let_def facts)
  show "p \<in> set (vp_to_pull plan) \<longleftrightarrow> owns new p \<and> (\<not> owns pulled p \<or> \<not> owns prev p \<or> part_set_contains repull p)"
    using plan by (auto simp: plan_view_change_def ownership_diff_def Let_def facts)
  show "p \<in> set (vp_stale plan) \<longleftrightarrow> p \<in> set (vp_to_pull plan) \<and> p \<in> set held_now"
    using plan by (auto simp: plan_view_change_def ownership_diff_def Let_def facts)
  show "distinct (vp_lost plan)" "distinct (vp_to_pull plan)"
    using plan distinct_owned_parts[OF ok(1)] distinct_owned_parts[OF ok(3)]
    by (auto simp: plan_view_change_def ownership_diff_def Let_def facts)
qed

section \<open>Whom a push reaches\<close>

lemma add_target_exact:
  assumes "distinct (map fst ts)"
  shows "map_of (add_target owner p ts) n = (if n = owner then Some (case map_of ts n of None \<Rightarrow> [p] | Some ps \<Rightarrow> ps @ [p]) else map_of ts n)"
    and "distinct (map fst (add_target owner p ts))" and "fst ` set (add_target owner p ts) = insert owner (fst ` set ts)"
  using assms by (induction owner p ts rule: add_target.induct) (auto split: option.splits)

text \<open>Adding one part for each of its owners.\<close>

lemma add_targets_exact:
  assumes "distinct (map fst ts)" and "distinct owners"
  shows "map_of (fold (\<lambda>owner ts. if owner = self_node then ts else add_target owner p ts) owners ts) n =
      (if n \<in> set owners \<and> n \<noteq> self_node then Some (case map_of ts n of None \<Rightarrow> [p] | Some ps \<Rightarrow> ps @ [p]) else map_of ts n)"
    and "distinct (map fst (fold (\<lambda>owner ts. if owner = self_node then ts else add_target owner p ts) owners ts))"
proof -
  have "map_of (fold (\<lambda>owner ts. if owner = self_node then ts else add_target owner p ts) owners ts) n =
      (if n \<in> set owners \<and> n \<noteq> self_node then Some (case map_of ts n of None \<Rightarrow> [p] | Some ps \<Rightarrow> ps @ [p]) else map_of ts n) \<and>
    distinct (map fst (fold (\<lambda>owner ts. if owner = self_node then ts else add_target owner p ts) owners ts))"
    using assms
  proof (induction owners arbitrary: ts)
    case (Cons owner owners)
    let ?ts = "if owner = self_node then ts else add_target owner p ts"
    have "distinct (map fst ?ts)" using Cons.prems(1) add_target_exact(2) by simp
    from Cons.IH[OF this] Cons.prems show ?case by (auto simp: add_target_exact(1))
  qed simp
  then show "map_of (fold (\<lambda>owner ts. if owner = self_node then ts else add_target owner p ts) owners ts) n =
      (if n \<in> set owners \<and> n \<noteq> self_node then Some (case map_of ts n of None \<Rightarrow> [p] | Some ps \<Rightarrow> ps @ [p]) else map_of ts n)"
    and "distinct (map fst (fold (\<lambda>owner ts. if owner = self_node then ts else add_target owner p ts) owners ts))" by simp_all
qed

lemma push_targets_exact:
  assumes "\<And>p. distinct (owners_of view p)"
  shows "map_of (push_targets view self_node ps) n =
      (if n = self_node \<or> filter (\<lambda>p. n \<in> set (owners_of view p)) ps = [] then None else Some (filter (\<lambda>p. n \<in> set (owners_of view p)) ps))"
    and "distinct (map fst (push_targets view self_node ps))"
proof -
  have "map_of (push_targets view self_node ps) n =
      (if n = self_node \<or> filter (\<lambda>p. n \<in> set (owners_of view p)) ps = [] then None else Some (filter (\<lambda>p. n \<in> set (owners_of view p)) ps)) \<and>
    distinct (map fst (push_targets view self_node ps))"
  proof (induction ps rule: rev_induct)
    case (snoc p ps)
    have snoc': "push_targets view self_node (ps @ [p]) =
        fold (\<lambda>owner ts. if owner = self_node then ts else add_target owner p ts) (owners_of view p) (push_targets view self_node ps)"
      by (simp add: push_targets_def)
    show ?case unfolding snoc' using snoc add_targets_exact[OF conjunct2[OF snoc] assms, of self_node p] by (auto split: option.splits if_splits)
  qed (simp add: push_targets_def)
  then show "map_of (push_targets view self_node ps) n =
      (if n = self_node \<or> filter (\<lambda>p. n \<in> set (owners_of view p)) ps = [] then None else Some (filter (\<lambda>p. n \<in> set (owners_of view p)) ps))"
    and "distinct (map fst (push_targets view self_node ps))" by simp_all
qed

lemma note_owners_set: "set (fold (note_owner self_node live) owners acc) = set acc \<union> {n \<in> set owners. n \<noteq> self_node \<and> n \<in> live}"
  by (induction owners arbitrary: acc) (auto simp: note_owner_def)

lemma hand_off_owners_set: "set (hand_off_owners view self_node due live) = {n \<in> live. n \<noteq> self_node \<and> (\<exists>p \<in> set due. n \<in> set (owners_of view p))}"
proof -
  have "set (fold (\<lambda>p. fold (note_owner self_node live) (owners_of view p)) due acc) =
      set acc \<union> {n \<in> live. n \<noteq> self_node \<and> (\<exists>p \<in> set due. n \<in> set (owners_of view p))}" for acc
    by (induction due arbitrary: acc) (auto simp: note_owners_set)
  then show ?thesis by (simp add: hand_off_owners_def)
qed

section \<open>Donor groups\<close>

lemma in_gather: "v \<in> set (gather k items) \<longleftrightarrow> (\<exists>vs. (k, vs) \<in> set items \<and> v \<in> set vs)"
  by (force simp: gather_def)

text \<open>The groups of a pull: one for each set of donors, with exactly the parts those donors co-own.\<close>

lemma donor_groups_exact:
  assumes "(donors, grp) \<in> set (group_parts_by_donor_set view self_node ps)"
  shows "set grp = {p \<in> set ps. filter (\<lambda>n. n \<noteq> self_node) (owners_of view p) = donors}"
proof -
  let ?by = "group_in_order (map (\<lambda>p. (owners_of view p, [p])) ps)"
  have one: "set qs = {p \<in> set ps. owners_of view p = owners}" if "(owners, qs) \<in> set ?by" for owners qs
    unfolding group_in_order_exact(3)[OF that] gather_singletons by auto
  have all: "\<exists>qs. (owners_of view p, qs) \<in> set ?by" if "p \<in> set ps" for p
    using group_in_order_exact(2)[of "map (\<lambda>p. (owners_of view p, [p])) ps"] that by (force simp: image_image)
  have "grp = gather donors (map (\<lambda>(owners, ps). (filter (\<lambda>n. n \<noteq> self_node) owners, ps)) ?by)"
    using assms group_in_order_exact(3) by (force simp: group_parts_by_donor_set_def Let_def)
  then have eq: "p \<in> set grp \<longleftrightarrow> (\<exists>owners qs. (owners, qs) \<in> set ?by \<and> filter (\<lambda>n. n \<noteq> self_node) owners = donors \<and> p \<in> set qs)" for p
    by (auto simp: in_gather)
  show ?thesis
  proof (intro set_eqI iffI)
    fix p assume "p \<in> set grp"
    then show "p \<in> {p \<in> set ps. filter (\<lambda>n. n \<noteq> self_node) (owners_of view p) = donors}" using one by (auto simp: eq)
  next
    fix p assume p: "p \<in> {p \<in> set ps. filter (\<lambda>n. n \<noteq> self_node) (owners_of view p) = donors}"
    then obtain qs where "(owners_of view p, qs) \<in> set ?by" using all by blast
    then show "p \<in> set grp" using one p unfolding eq by fastforce
  qed
qed

lemma donor_groups_cover:
  "distinct (map fst (group_parts_by_donor_set view self_node ps))"
  "fst ` set (group_parts_by_donor_set view self_node ps) = (\<lambda>p. filter (\<lambda>n. n \<noteq> self_node) (owners_of view p)) ` set ps"
proof -
  show "distinct (map fst (group_parts_by_donor_set view self_node ps))"
    by (simp add: group_parts_by_donor_set_def Let_def group_in_order_exact(1))
  have "fst ` set (group_parts_by_donor_set view self_node ps) =
      (\<lambda>owners. filter (\<lambda>n. n \<noteq> self_node) owners) ` fst ` set (group_in_order (map (\<lambda>p. (owners_of view p, [p])) ps))"
    unfolding group_parts_by_donor_set_def Let_def group_in_order_exact(2)[of "map (\<lambda>(owners, ps). (filter (\<lambda>n. n \<noteq> self_node) owners, ps)) xs" for xs]
    by (simp only: list.set_map image_image case_prod_beta fst_conv)
  then show "fst ` set (group_parts_by_donor_set view self_node ps) = (\<lambda>p. filter (\<lambda>n. n \<noteq> self_node) (owners_of view p)) ` set ps"
    by (simp add: group_in_order_exact(2) image_image)
qed

section \<open>What an acknowledgment counts for\<close>

lemma note_acks_exact:
  "is_some_and (\<lambda>owners. owner \<in> owners) (bm_get (fold (note_ack cache due now window vh) rows acked) i) \<longleftrightarrow>
     is_some_and (\<lambda>owners. owner \<in> owners) (bm_get acked i) \<or>
     (i \<in> due \<and> (\<exists>acked_at. ((cache, i, owner), acked_at, vh) \<in> set rows \<and> ack_within_window acked_at now window))"
proof (induction rows arbitrary: acked)
  case (Cons row rows)
  obtain c b n a h where row: "row = ((c, b, n), a, h)" by (metis surj_pair)
  show ?case using Cons[of "note_ack cache due now window vh row acked"] by (auto simp: row note_ack_def split: option.splits)
qed simp

lemma fold_upsert_owners:
  "bm_get (fold (\<lambda>p. bm_upsert (\<lambda>known. known \<union> owners) p owners) ps m) q =
     (if q \<in> set ps then Some (map_or {} id (bm_get m q) \<union> owners) else bm_get m q)"
  by (induction ps arbitrary: m) (auto split: option.splits)

lemma acked_by_part_exact:
  "answered (acked_by_part g acked) p owner \<longleftrightarrow>
     (\<exists>i owners. bm_get acked i = Some owners \<and> owner \<in> owners \<and> p \<in> set (parts_of_wire_id g i))"
proof -
  have "answered (fold (\<lambda>(i, owners). fold (\<lambda>p. bm_upsert (\<lambda>known. known \<union> owners) p owners) (parts_of_wire_id g i)) rows m) p owner \<longleftrightarrow>
      answered m p owner \<or> (\<exists>(i, owners) \<in> set rows. owner \<in> owners \<and> p \<in> set (parts_of_wire_id g i))" for rows m
  proof (induction rows arbitrary: m)
    case (Cons row rows)
    obtain i owners where row: "row = (i, owners)" by fastforce
    show ?case unfolding row by (simp add: Cons, cases "bm_get m p") (auto simp: answered_def fold_upsert_owners)
  qed simp
  then show ?thesis by (simp add: acked_by_part_def in_bm_entries_iff Bex_def split_paired_Ex) (simp add: answered_def)
qed

end
