(* ===== verification/Engine_Listing.thy ===== *)
theory Engine_Listing
  imports Replica
begin

text \<open>
  What the listings a peer is served from contain: the key and version listings of a bucket or a part,
  the snapshot and the record of one key agree on the same set of records, those \<open>record_for\<close> answers.
\<close>

section \<open>One stripe\<close>

text \<open>The record a live entry and a tombstone are served as.\<close>

definition live_wire :: "externs \<Rightarrow> 'v stripe \<Rightarrow> live \<Rightarrow> wire_record" where
  "live_wire e s l =
     \<lparr>wr_key = live_key e l, wr_value = Some (record_value e (lv_record l)), wr_ver = live_ver l,
      wr_expires = decode_expiry (lv_wall_ms l) (lv_expiry l) (live_key e l) (st_long_ttl s)\<rparr>"

definition tombstone_wire :: "bytes \<times> tombstone \<Rightarrow> wire_record" where
  "tombstone_wire kt = \<lparr>wr_key = fst kt, wr_value = None, wr_ver = ts_ver (snd kt), wr_expires = ts_expired_at (snd kt)\<rparr>"

definition stripe_records :: "externs \<Rightarrow> u64 \<Rightarrow> ('k, 'v) engine \<Rightarrow> nat \<Rightarrow> wire_record list" where
  "stripe_records e now g b =
     map (live_wire e (eg_stripes g b)) (visible_lives e now g b) @ map tombstone_wire (bm_entries (st_tombstones (eg_stripes g b)))"

lemma live_wire_simps [simp]: "wr_key (live_wire e s l) = live_key e l" "wr_ver (live_wire e s l) = live_ver l"
  by (simp_all add: live_wire_def)

lemma tombstone_wire_simps [simp]: "wr_key (tombstone_wire kt) = fst kt" "wr_ver (tombstone_wire kt) = ts_ver (snd kt)"
  by (simp_all add: tombstone_wire_def)

lemma stripe_listing_records: "stripe_listing e now g b = map (\<lambda>rec. (wr_key rec, wr_ver rec)) (stripe_records e now g b)"
  by (simp add: stripe_listing_def stripe_records_def case_prod_beta)

lemma snapshot_stripe_records: "snapshot_records e now g = concat (map (stripe_records e now g) [0..<bucket_count])"
  unfolding snapshot_records_def by (rule arg_cong[of _ _ concat], rule map_cong)
    (auto simp: stripe_records_def live_wire_def tombstone_wire_def Let_def)

lemma stripe_records_keys:
  assumes "stripe_ok e b (eg_stripes g b)"
  shows "distinct (map wr_key (stripe_records e now g b))" and "rec \<in> set (stripe_records e now g b) \<Longrightarrow> key_bucket e (wr_key rec) = b"
proof -
  let ?s = "eg_stripes g b"
  note ok = stripe_okD[OF assms]
  have lives: "live_key e ` set (visible_lives e now g b) \<subseteq> live_keys e ?s" by (auto simp: visible_lives_def Let_def live_keys_def)
  have "distinct (map (live_key e) (visible_lives e now g b))"
    using ok(1) by (simp add: visible_lives_def Let_def distinct_map inj_on_def)
  moreover have "distinct (map fst (bm_entries (st_tombstones ?s)))" using sorted_keys_distinct[OF sorted_keys_bm_entries] .
  moreover have "live_key e ` set (visible_lives e now g b) \<inter> fst ` set (bm_entries (st_tombstones ?s)) = {}"
    using lives ok(2) by (fastforce simp: in_bm_entries_iff)
  ultimately show "distinct (map wr_key (stripe_records e now g b))" by (simp add: stripe_records_def o_def)
  show "key_bucket e (wr_key rec) = b" if "rec \<in> set (stripe_records e now g b)"
    using that lives ok(2,3) by (force simp: stripe_records_def in_bm_entries_iff)
qed

lemma in_stripe_records:
  assumes "stripe_ok e (key_bucket e k) (eg_stripes g (key_bucket e k))"
  shows "record_for e k now g = Some rec \<longleftrightarrow> rec \<in> set (stripe_records e now g (key_bucket e k)) \<and> wr_key rec = k"
proof -
  let ?s = "eg_stripes g (key_bucket e k)"
  note ok = stripe_okD[OF assms]
  have b: "stripe_index_from_hash (hash_key_bytes e k) = key_bucket e k" by (simp add: key_bucket_def)
  have find: "arena_find e k (st_live ?s) = Some l \<longleftrightarrow> l \<in> set (st_live ?s) \<and> live_key e l = k" for l
    using arena_find_iff[OF ok(1)] .
  have absent: "absent_under l k (st_long_ttl ?s) (eg_tti_ms g) now Hidden = is_absent g l k (st_long_ttl ?s) now" for l
    by (simp add: is_absent_def absent_at_def)
  show ?thesis
  proof (cases "bm_get (st_tombstones ?s) k")
    case None
    have "rec \<in> set (stripe_records e now g (key_bucket e k)) \<and> wr_key rec = k \<longleftrightarrow>
        (\<exists>l \<in> set (st_live ?s). live_key e l = k \<and> \<not> is_absent g l k (st_long_ttl ?s) now \<and> rec = live_wire e ?s l)"
    proof (intro iffI)
      assume "rec \<in> set (stripe_records e now g (key_bucket e k)) \<and> wr_key rec = k"
      then have at: "rec \<in> set (stripe_records e now g (key_bucket e k))" and key: "wr_key rec = k" by simp_all
      have "(k, t) \<notin> set (bm_entries (st_tombstones ?s))" for t using None by (simp add: in_bm_entries_iff)
      then have "rec \<noteq> tombstone_wire kt" if "kt \<in> set (bm_entries (st_tombstones ?s))" for kt
        using that key by (metis prod.collapse tombstone_wire_simps(1))
      then obtain l where l: "l \<in> set (visible_lives e now g (key_bucket e k))" "rec = live_wire e ?s l" using at unfolding stripe_records_def by auto
      then have "live_key e l = k" using key by simp
      with l show "\<exists>l \<in> set (st_live ?s). live_key e l = k \<and> \<not> is_absent g l k (st_long_ttl ?s) now \<and> rec = live_wire e ?s l"
        by (auto simp: visible_lives_def Let_def)
    qed (auto simp: stripe_records_def visible_lives_def Let_def)
    then have "rec \<in> set (stripe_records e now g (key_bucket e k)) \<and> wr_key rec = k \<longleftrightarrow>
        (\<exists>l. arena_find e k (st_live ?s) = Some l \<and> \<not> is_absent g l k (st_long_ttl ?s) now \<and> rec = live_wire e ?s l)"
      by (auto simp: find)
    moreover have "record_for e k now g = Some rec \<longleftrightarrow>
        (\<exists>l. arena_find e k (st_live ?s) = Some l \<and> \<not> is_absent g l k (st_long_ttl ?s) now \<and> rec = live_wire e ?s l)"
    proof (cases "arena_find e k (st_live ?s)")
      case (Some l)
      then have "live_key e l = k" using find by simp
      then show ?thesis using None Some by (auto simp: record_for_def record_scoped_def b Let_def absent live_wire_def)
    qed (simp add: record_for_def record_scoped_def b Let_def None)
    ultimately show ?thesis by simp
  next
    case (Some t)
    then have no: "k \<notin> live_keys e ?s" using ok(2)[of k] by (metis option.distinct(1))
    have "rec \<in> set (stripe_records e now g (key_bucket e k)) \<and> wr_key rec = k \<longleftrightarrow> rec = tombstone_wire (k, t)"
    proof (intro iffI)
      assume "rec \<in> set (stripe_records e now g (key_bucket e k)) \<and> wr_key rec = k"
      then have at: "rec \<in> set (stripe_records e now g (key_bucket e k))" and key: "wr_key rec = k" by simp_all
      have "rec \<noteq> live_wire e ?s l" if "l \<in> set (visible_lives e now g (key_bucket e k))" for l
      proof
        assume "rec = live_wire e ?s l"
        then have "live_key e l = k" using key by simp
        then show False using that no by (auto simp: visible_lives_def Let_def live_keys_def)
      qed
      then obtain kt where kt: "kt \<in> set (bm_entries (st_tombstones ?s))" "rec = tombstone_wire kt" using at unfolding stripe_records_def by auto
      moreover have "fst kt = k" using kt key by simp
      ultimately have "kt = (k, t)" using Some by (metis in_bm_entries_iff option.inject prod.collapse)
      then show "rec = tombstone_wire (k, t)" using kt by simp
    qed (use Some in \<open>auto simp: stripe_records_def in_bm_entries_iff\<close>)
    then show ?thesis using Some by (auto simp: record_for_def record_scoped_def b Let_def tombstone_wire_def)
  qed
qed

lemma record_for_key: "record_for e k now g = Some rec \<Longrightarrow> wr_key rec = k"
  by (auto simp: record_for_def record_scoped_def Let_def split: option.splits if_splits)

section \<open>The whole engine\<close>

lemma engine_stripe_ok: "engine_ok e g \<Longrightarrow> stripe_ok e (key_bucket e k) (eg_stripes g (key_bucket e k))"
  by (simp add: engine_ok_def)

lemma in_stripe_listing:
  assumes "engine_ok e g" and "b < bucket_count"
  shows "(k, ver) \<in> set (stripe_listing e now g b) \<longleftrightarrow> key_bucket e k = b \<and> (\<exists>rec. record_for e k now g = Some rec \<and> wr_ver rec = ver)"
    and "distinct (map fst (stripe_listing e now g b))"
proof -
  have ok: "stripe_ok e b (eg_stripes g b)" using assms by (simp add: engine_ok_def)
  show "distinct (map fst (stripe_listing e now g b))"
    using stripe_records_keys(1)[OF ok, of now] by (simp add: stripe_listing_records o_def)
  show "(k, ver) \<in> set (stripe_listing e now g b) \<longleftrightarrow> key_bucket e k = b \<and> (\<exists>rec. record_for e k now g = Some rec \<and> wr_ver rec = ver)"
    using stripe_records_keys(2)[OF ok] in_stripe_records[OF engine_stripe_ok[OF assms(1)], of k now]
    by (auto simp: stripe_listing_records)
qed

lemma in_snapshot_records:
  assumes "engine_ok e g"
  shows "rec \<in> set (snapshot_records e now g) \<longleftrightarrow> record_for e (wr_key rec) now g = Some rec"
proof -
  have "rec \<in> set (stripe_records e now g b) \<Longrightarrow> b < bucket_count \<Longrightarrow> key_bucket e (wr_key rec) = b" for b
    using assms stripe_records_keys(2)[of e b g rec now] by (simp add: engine_ok_def)
  then have "(\<exists>b < bucket_count. rec \<in> set (stripe_records e now g b)) \<longleftrightarrow> rec \<in> set (stripe_records e now g (key_bucket e (wr_key rec)))"
    using key_bucket_lt[of e "wr_key rec"] by metis
  moreover have "rec \<in> set (snapshot_records e now g) \<longleftrightarrow> (\<exists>b < bucket_count. rec \<in> set (stripe_records e now g b))"
    by (auto simp: snapshot_stripe_records)
  ultimately show ?thesis using in_stripe_records[OF engine_stripe_ok[OF assms], of "wr_key rec" now rec] by simp
qed

end
