(* ===== verification/Shard_Listing.thy ===== *)
theory Shard_Listing
  imports Engine_Listing Shard_Serve
begin

text \<open>
  What a shard lists to its peers. The listings of buckets and of parts come in order, each name once,
  and hold exactly the keys and versions of the records the shard serves; a bucket or part that is not
  resident is listed as empty.
\<close>

section \<open>Order\<close>

definition bp_key :: "bucket_part \<Rightarrow> u16 \<times> u8" where
  "bp_key bp = (bp_bucket bp, bp_part bp)"

lemma bp_key_inj: "inj bp_key"
  by (auto simp: inj_def bp_key_def)

lemma strict_dedup: "sorted_wrt (<) (remdups_adj (sort xs))"
  by (simp add: strict_sorted_iff distinct_dedup)

lemma strict_dedup_key:
  fixes f :: "'a \<Rightarrow> 'b::linorder"
  assumes "inj f"
  shows "sorted_wrt (<) (map f (remdups_adj (sort_key f xs)))" and "set (remdups_adj (sort_key f xs)) = set xs"
proof -
  have "map f (remdups_adj (sort_key f xs)) = remdups_adj (map f (sort_key f xs))" by (rule remdups_adj_map_injective[OF assms, symmetric])
  moreover have "map f (sort_key f xs) = sort (map f xs)" by (rule properties_for_sort[symmetric]) simp_all
  ultimately show "sorted_wrt (<) (map f (remdups_adj (sort_key f xs)))" by (simp add: strict_dedup)
qed simp

lemma length_route: "length (fold (route_entry e slots) kvs pp) = length pp"
  by (induction kvs arbitrary: pp) (simp_all add: route_entry_def Let_def)

text \<open>Rows in the order of their buckets, each with its parts in order.\<close>

lemma strict_rows:
  assumes "sorted_keys rows" and "\<forall>(b, ps) \<in> set rows. sorted_wrt (<) (f ps)"
  shows "sorted_wrt (<) (concat (map (\<lambda>(b, ps). map (\<lambda>p. (b, p)) (f ps)) rows))"
  using assms
proof (induction rows)
  case (Cons row rows)
  obtain b ps where row: "row = (b, ps)" by fastforce
  have one: "sorted_wrt (<) (map (\<lambda>p. (b, p)) (f ps))" using Cons.prems(2) by (auto simp: row sorted_wrt_map)
  have rest: "sorted_wrt (<) (concat (map (\<lambda>(b, ps). map (\<lambda>p. (b, p)) (f ps)) rows))"
    using Cons by (simp add: row)
  have "x < y" if "x \<in> set (map (\<lambda>p. (b, p)) (f ps))" "y \<in> set (concat (map (\<lambda>(b, ps). map (\<lambda>p. (b, p)) (f ps)) rows))" for x y
    using that Cons.prems(1) by (fastforce simp: row)
  then show ?case using one rest by (simp add: row sorted_wrt_append)
qed simp

lemma map_zip_left: "length ys = length xs \<Longrightarrow> map (\<lambda>x. f (fst x)) (zip xs ys) = map f xs"
  by (induction ys xs rule: list_induct2) simp_all

lemma collect_parts_strict: "sorted_wrt (<) (map (bp_key \<circ> fst) (collect_parts e wanted now g))"
proof -
  let ?rows = "bm_entries (parts_by_bucket wanted)" and ?f = "\<lambda>ps. remdups_adj (sort ps)"
  have "map (bp_key \<circ> fst) (collect_parts e wanted now g) = concat (map (\<lambda>(b, ps). map (\<lambda>p. (b, p)) (?f ps)) ?rows)"
    unfolding collect_parts_def map_concat map_map
    by (rule arg_cong[of _ _ concat], rule map_cong)
      (auto simp: Let_def o_def case_prod_beta bp_key_def length_route map_zip_left)
  moreover have "sorted_wrt (<) (concat (map (\<lambda>(b, ps). map (\<lambda>p. (b, p)) (?f ps)) ?rows))"
    by (rule strict_rows) (simp_all add: strict_dedup)
  ultimately show ?thesis by simp
qed

section \<open>Listings\<close>

text \<open>Whether the residency of a shard lets a part, and a bucket, be served.\<close>

definition shard_serves_part :: "('k, 'v) shard \<Rightarrow> part_id \<Rightarrow> bool" where
  "shard_serves_part sd p = is_none_or (\<lambda>r. is_resident_part r p) (residency_check sd)"

definition serves_bucket :: "('k, 'v) shard \<Rightarrow> u16 \<Rightarrow> bool" where
  "serves_bucket sd b = is_none_or (\<lambda>r. is_resident_bucket r b) (residency_check sd)"

lemma resident_backfill_exact:
  fixes by_key :: "'a \<Rightarrow> 'b::linorder"
  assumes inj: "inj by_key" and listed: "\<And>ws. distinct ws \<Longrightarrow> sorted_wrt (<) (map by_key ws) \<Longrightarrow>
      sorted_wrt (<) (map (by_key \<circ> fst) (query ws)) \<and> set (query ws) = {(w, L w) | w. w \<in> set ws \<and> known w}"
  shows "sorted_wrt (<) (map (by_key \<circ> fst) (resident_backfill by_key wanted is_resident query sd))"
    and "(w, l) \<in> set (resident_backfill by_key wanted is_resident query sd) \<longleftrightarrow>
      w \<in> set wanted \<and> (if is_none_or (\<lambda>r. is_resident r w) (residency_check sd) then known w \<and> l = L w else l = [])"
proof -
  let ?ws = "dedup_sorted by_key wanted"
  note ws = strict_dedup_key[OF inj, of wanted]
  have d: "sorted_wrt (<) (map by_key ?ws)" "set ?ws = set wanted" using ws by (simp_all add: dedup_sorted_def)
  have sub: "sorted_wrt (<) (map by_key (filter P ?ws))" for P using d(1) by (simp add: sorted_wrt_map sorted_wrt_filter)
  have dist: "distinct (filter P ?ws)" for P using sub[of P] by (metis distinct_map strict_sorted_iff)
  have "sorted_wrt (<) (map (by_key \<circ> fst) (resident_backfill by_key wanted is_resident query sd)) \<and>
    ((w, l) \<in> set (resident_backfill by_key wanted is_resident query sd) \<longleftrightarrow>
      w \<in> set wanted \<and> (if is_none_or (\<lambda>r. is_resident r w) (residency_check sd) then known w \<and> l = L w else l = []))"
  proof (cases "residency_check sd")
    case None
    have "distinct ?ws" using dist[of "\<lambda>_. True"] by simp
    then show ?thesis using listed[OF _ d(1)] d(2) by (auto simp: resident_backfill_def None Let_def)
  next
    case (Some r)
    let ?here = "filter (is_resident r) ?ws" and ?away = "filter (Not \<circ> is_resident r) ?ws"
    note q = listed[OF dist sub, of "is_resident r"]
    let ?all = "query ?here @ map (\<lambda>t. (t, [])) ?away"
    have out: "resident_backfill by_key wanted is_resident query sd = sort_key (\<lambda>(t, _). by_key t) ?all"
      by (simp add: resident_backfill_def Some Let_def)
    have key: "(\<lambda>(t, _). by_key t) = by_key \<circ> fst" by auto
    have "distinct (map (by_key \<circ> fst) (query ?here))" using q by (simp add: strict_sorted_iff)
    moreover have "distinct (map (by_key \<circ> fst) (map (\<lambda>t. (t, [] :: key_version list)) ?away))"
      using sub[of "Not \<circ> is_resident r"] by (simp add: strict_sorted_iff o_def)
    moreover have "by_key a \<noteq> by_key b" if "(a, la) \<in> set (query ?here)" "b \<in> set ?away" for a la b
      using that q inj_eq[OF inj] by auto
    ultimately have "distinct (map (by_key \<circ> fst) ?all)" by fastforce
    then have "distinct (map (by_key \<circ> fst) (sort_key (by_key \<circ> fst) ?all))"
      by (metis distinct_map distinct_sort set_sort)
    then have "sorted_wrt (<) (map (by_key \<circ> fst) (sort_key (by_key \<circ> fst) ?all))" by (simp add: strict_sorted_iff)
    moreover have "(w, l) \<in> set ?all \<longleftrightarrow> w \<in> set wanted \<and> (if is_resident r w then known w \<and> l = L w else l = [])"
      using q d(2) by auto
    ultimately show ?thesis unfolding out key by (simp add: Some)
  qed
  then show "sorted_wrt (<) (map (by_key \<circ> fst) (resident_backfill by_key wanted is_resident query sd))"
    and "(w, l) \<in> set (resident_backfill by_key wanted is_resident query sd) \<longleftrightarrow>
      w \<in> set wanted \<and> (if is_none_or (\<lambda>r. is_resident r w) (residency_check sd) then known w \<and> l = L w else l = [])" by simp_all
qed

lemma part_in_range: "in_range (part_bucket_part p)"
  by (simp add: in_range_def part_bucket_part_def part_bucket_lt part_part_lt)

lemma part_of_key_split: "part_of_key e k = p \<longleftrightarrow> key_bucket e k = unat (part_bucket p) \<and> key_part e k = unat (part_part p)"
proof -
  have "part_of_key e k = p \<longleftrightarrow> part_bucket (part_of_key e k) = part_bucket p \<and> part_part (part_of_key e k) = part_part p"
    by (metis part_new_split)
  then show ?thesis using part_id_roundtrip[of p e k] by (auto simp: key_bucket_def key_part_def word_unat_eq_iff)
qed

lemma in_entries_for_parts:
  assumes "engine_ok e (sd_engine sd)"
  shows "sorted_wrt (<) (map (bp_key \<circ> fst) (entries_for_parts e wanted sd))"
    and "part_bucket_part p \<in> set wanted \<Longrightarrow> \<exists>l. (part_bucket_part p, l) \<in> set (entries_for_parts e wanted sd)"
    and "(bp, l) \<in> set (entries_for_parts e wanted sd) \<Longrightarrow> bp \<in> set wanted"
    and "(part_bucket_part p, l) \<in> set (entries_for_parts e wanted sd) \<Longrightarrow>
      (k, ver) \<in> set l \<longleftrightarrow> shard_serves_part sd p \<and> part_of_key e k = p \<and> (\<exists>rec. record_for e k (sd_now sd) (sd_engine sd) = Some rec \<and> wr_ver rec = ver)"
proof -
  let ?L = "\<lambda>bp. filter (\<lambda>kv. key_part e (fst kv) = unat (bp_part bp)) (stripe_listing e (sd_now sd) (sd_engine sd) (unat (bp_bucket bp)))"
  have key: "(\<lambda>bp. (bp_bucket bp, bp_part bp)) = bp_key" by (auto simp: bp_key_def)
  have query: "sorted_wrt (<) (map (bp_key \<circ> fst) (collect_parts e ws (sd_now sd) (sd_engine sd))) \<and>
      set (collect_parts e ws (sd_now sd) (sd_engine sd)) = {(w, ?L w) | w. w \<in> set ws \<and> in_range w}" for ws
    using collect_parts_strict collect_parts_listing by blast
  note exact = resident_backfill_exact[OF bp_key_inj query, where wanted = wanted and sd = sd
    and is_resident = "\<lambda>residency bp. is_resident_part residency (part_of_bucket_part bp)"]
  show "sorted_wrt (<) (map (bp_key \<circ> fst) (entries_for_parts e wanted sd))" using exact(1) by (simp add: entries_for_parts_def key)
  have mem: "(bp, l) \<in> set (entries_for_parts e wanted sd) \<longleftrightarrow>
      bp \<in> set wanted \<and> (if shard_serves_part sd (part_of_bucket_part bp) then in_range bp \<and> l = ?L bp else l = [])" for bp l
    using exact(2)[where w = bp and l = l] by (simp add: entries_for_parts_def key shard_serves_part_def)
  show "bp \<in> set wanted" if "(bp, l) \<in> set (entries_for_parts e wanted sd)" using that mem by blast
  show "\<exists>l. (part_bucket_part p, l) \<in> set (entries_for_parts e wanted sd)" if "part_bucket_part p \<in> set wanted"
    using that part_in_range[of p] unfolding mem by auto
  show "(k, ver) \<in> set l \<longleftrightarrow> shard_serves_part sd p \<and> part_of_key e k = p \<and> (\<exists>rec. record_for e k (sd_now sd) (sd_engine sd) = Some rec \<and> wr_ver rec = ver)"
    if "(part_bucket_part p, l) \<in> set (entries_for_parts e wanted sd)"
    using that in_stripe_listing(1)[OF assms part_bucket_lt, of k ver "sd_now sd" p] part_of_key_split[of e k p] part_id_roundtrip[of p e k]
    unfolding mem by (auto simp: part_bucket_part_def split: if_splits)
qed

lemma collect_buckets_exact:
  "map fst (collect_buckets e ws now g) = filter (\<lambda>b. unat b < bucket_count) ws"
  "set (collect_buckets e ws now g) = {(b, stripe_listing e now g (unat b)) | b. b \<in> set ws \<and> unat b < bucket_count}"
  by (auto simp: collect_buckets_def o_def)

lemma in_entries_for_buckets:
  assumes "engine_ok e (sd_engine sd)"
  shows "sorted_wrt (<) (map fst (entries_for_buckets e wanted sd))"
    and "b \<in> set wanted \<Longrightarrow> unat b < bucket_count \<Longrightarrow> \<exists>l. (b, l) \<in> set (entries_for_buckets e wanted sd)"
    and "(b, l) \<in> set (entries_for_buckets e wanted sd) \<Longrightarrow> b \<in> set wanted"
    and "(b, l) \<in> set (entries_for_buckets e wanted sd) \<Longrightarrow>
      (k, ver) \<in> set l \<longleftrightarrow> serves_bucket sd b \<and> key_bucket e k = unat b \<and> (\<exists>rec. record_for e k (sd_now sd) (sd_engine sd) = Some rec \<and> wr_ver rec = ver)"
    and "(b, l) \<in> set (entries_for_buckets e wanted sd) \<Longrightarrow> distinct (map fst l)"
proof -
  let ?L = "\<lambda>b. stripe_listing e (sd_now sd) (sd_engine sd) (unat (b :: u16))"
  have query: "sorted_wrt (<) (map ((\<lambda>b. b) \<circ> fst) (collect_buckets e ws (sd_now sd) (sd_engine sd))) \<and>
      set (collect_buckets e ws (sd_now sd) (sd_engine sd)) = {(w, ?L w) | w. w \<in> set ws \<and> unat w < bucket_count}"
    if "sorted_wrt (<) (map (\<lambda>b. b) ws)" for ws
    using that collect_buckets_exact[of e ws "sd_now sd" "sd_engine sd"] by (simp add: o_def sorted_wrt_filter)
  note exact = resident_backfill_exact[where by_key = "\<lambda>b. b", OF _ query, where wanted = wanted and sd = sd and is_resident = is_resident_bucket, simplified]
  show "sorted_wrt (<) (map fst (entries_for_buckets e wanted sd))" using exact(1) by (simp add: entries_for_buckets_def o_def)
  have mem: "(b, l) \<in> set (entries_for_buckets e wanted sd) \<longleftrightarrow>
      b \<in> set wanted \<and> (if serves_bucket sd b then unat b < bucket_count \<and> l = ?L b else l = [])" for b l
    using exact(2)[where w = b and l = l] by (simp add: entries_for_buckets_def serves_bucket_def)
  show "b \<in> set wanted" if "(b, l) \<in> set (entries_for_buckets e wanted sd)" using that mem by blast
  show "\<exists>l. (b, l) \<in> set (entries_for_buckets e wanted sd)" if "b \<in> set wanted" "unat b < bucket_count" using that unfolding mem by auto
  show "(k, ver) \<in> set l \<longleftrightarrow> serves_bucket sd b \<and> key_bucket e k = unat b \<and> (\<exists>rec. record_for e k (sd_now sd) (sd_engine sd) = Some rec \<and> wr_ver rec = ver)"
    if "(b, l) \<in> set (entries_for_buckets e wanted sd)"
    using that in_stripe_listing(1)[OF assms, of "unat b" k ver "sd_now sd"] unfolding mem by (auto split: if_splits)
  show "distinct (map fst l)" if "(b, l) \<in> set (entries_for_buckets e wanted sd)"
    using that in_stripe_listing(2)[OF assms, of "unat b" "sd_now sd"] unfolding mem by (auto split: if_splits)
qed

section \<open>Records\<close>

definition fits_frame :: "('k, 'v) shard \<Rightarrow> wire_record \<Rightarrow> bool" where
  "fits_frame sd rec \<longleftrightarrow> replicate_frame_len (length (sd_name sd)) (length (wr_key rec)) (map_or 0 length (wr_value rec)) \<le> max_frame"

lemma skip_unframeable_exact: "skip_unframeable recs sd = filter (fits_frame sd) recs"
proof -
  have "fst (fold (split_step (length (sd_name sd))) recs (kept, largest)) = kept @ filter (fits_frame sd) recs" for kept largest
    by (induction recs arbitrary: kept largest) (auto simp: Let_def fits_frame_def)
  then show ?thesis by (simp add: skip_unframeable_def split_unframeable_def)
qed

lemma in_records_for:
  "rec \<in> set (records_for e ks sd) \<longleftrightarrow>
     wr_key rec \<in> set ks \<and> shard_serves_part sd (part_of_key e (wr_key rec)) \<and> record_for e (wr_key rec) (sd_now sd) (sd_engine sd) = Some rec"
proof -
  have "rec \<in> set (List.map_filter (\<lambda>k. record_for e k (sd_now sd) (sd_engine sd)) xs) \<longleftrightarrow>
      wr_key rec \<in> set xs \<and> record_for e (wr_key rec) (sd_now sd) (sd_engine sd) = Some rec" for xs
  proof (intro iffI)
    assume "rec \<in> set (List.map_filter (\<lambda>k. record_for e k (sd_now sd) (sd_engine sd)) xs)"
    then obtain k where k: "k \<in> set xs" "record_for e k (sd_now sd) (sd_engine sd) = Some rec" by (auto simp: List.map_filter_def)
    then show "wr_key rec \<in> set xs \<and> record_for e (wr_key rec) (sd_now sd) (sd_engine sd) = Some rec" using record_for_key[OF k(2)] by simp
  qed (force simp: List.map_filter_def)
  then show ?thesis by (auto simp: records_for_def Let_def shard_serves_part_def split: option.split)
qed

lemma chunk_records_for_snapshot_concat: "concat (chunk_records_for_snapshot recs) = recs"
  using chunk_loop_ok[of "[]" 0 recs] by (simp add: chunk_records_for_snapshot_def)

lemma in_snapshot_chunks:
  assumes "engine_ok e (sd_engine sd)"
  shows "rec \<in> set (concat (snapshot_chunks e sd)) \<longleftrightarrow>
    record_for e (wr_key rec) (sd_now sd) (sd_engine sd) = Some rec \<and> shard_serves_part sd (part_of_key e (wr_key rec)) \<and> fits_frame sd rec"
  by (auto simp: snapshot_chunks_def Let_def chunk_records_for_snapshot_concat skip_unframeable_exact in_snapshot_records[OF assms]
      shard_serves_part_def split: option.split)

end
