(* ===== verification/Cluster_Handler.thy ===== *)
theory Cluster_Handler
  imports Cluster_Inbound Anti_Entropy Shard_Listing "HOL-Library.Sublist"
begin

text \<open>
  What a node answers from its open caches: \<open>ClusterRequestHandler\<close> of \<^verbatim>\<open>cluster/handler.rs\<close>,
  with the defaults it keeps of the trait \<open>RequestHandler\<close> in \<^verbatim>\<open>net/handler.rs\<close>. A stream is the
  list of the items it yields; every item is read from the shard as it is when the request arrives. A
  cache nobody opened answers empty, as in the code. \<open>load\<close> is left out: it runs the application's
  loader.

  The lemmas show that a donor streams every part asked for exactly once and in one run, and that the
  batches it reads keep the keys and their order.
\<close>

record ('k, 'v) cluster_handler =
  ch_shards :: "('k, 'v) registry"
  ch_warm :: "bytes set"
  ch_ae_part_min_bucket :: nat
  ch_ae_sketch_min_bucket :: nat
  ch_ae_sketch_cells :: nat
  ch_rebalance_chunk_bytes :: u64

definition handler_lookup :: "('k, 'v) cluster_handler \<Rightarrow> bytes \<Rightarrow> ('k, 'v) shard option" where
  "handler_lookup h cache = map_option oc_shard (ch_shards h cache)"

section \<open>Listings and records\<close>

definition snapshot_available :: "('k, 'v) cluster_handler \<Rightarrow> bytes \<Rightarrow> bool" where
  "snapshot_available h cache \<longleftrightarrow> cache \<in> ch_warm h"

definition handler_snapshot_chunks :: "externs \<Rightarrow> ('k, 'v) cluster_handler \<Rightarrow> bytes \<Rightarrow> wire_record list list" where
  "handler_snapshot_chunks e h cache = map_or [] (snapshot_chunks e) (handler_lookup h cache)"

definition handler_digests :: "('k, 'v) cluster_handler \<Rightarrow> bytes \<Rightarrow> (u16 \<times> u64) list" where
  "handler_digests h cache = map_or [] shard_digests (handler_lookup h cache)"

definition handler_bucket_entries :: "externs \<Rightarrow> ('k, 'v) cluster_handler \<Rightarrow> bytes \<Rightarrow> u16 \<Rightarrow> key_version list" where
  "handler_bucket_entries e h cache bucket = map_or [] (bucket_entries e bucket) (handler_lookup h cache)"

definition handler_entries_for_buckets :: "externs \<Rightarrow> ('k, 'v) cluster_handler \<Rightarrow> bytes \<Rightarrow> u16 list \<Rightarrow> (u16 \<times> key_version list) list" where
  "handler_entries_for_buckets e h cache buckets = map_or [] (entries_for_buckets e buckets) (handler_lookup h cache)"

definition handler_records_for :: "externs \<Rightarrow> ('k, 'v) cluster_handler \<Rightarrow> bytes \<Rightarrow> bytes list \<Rightarrow> wire_record list" where
  "handler_records_for e h cache ks = map_or [] (\<lambda>sd. skip_unframeable (records_for e ks sd) sd) (handler_lookup h cache)"

definition records_for_hashes :: "externs \<Rightarrow> ('k, 'v) cluster_handler \<Rightarrow> bytes \<Rightarrow> u16 \<Rightarrow> u64 list \<Rightarrow> wire_record list" where
  "records_for_hashes e h cache bucket hashes =
     handler_records_for e h cache
       (map fst (filter (\<lambda>kv. hash_key_bytes e (fst kv) \<in> set hashes) (handler_bucket_entries e h cache bucket)))"

definition handler_bucket_lens :: "('k, 'v) cluster_handler \<Rightarrow> bytes \<Rightarrow> u16 list \<Rightarrow> (u16 \<times> nat) list" where
  "handler_bucket_lens h cache buckets = map_or [] (bucket_lens buckets) (handler_lookup h cache)"

definition handler_part_digests :: "('k, 'v) cluster_handler \<Rightarrow> bytes \<Rightarrow> u16 list \<Rightarrow> (u16 \<times> u64 list) list" where
  "handler_part_digests h cache buckets = map_or [] (shard_part_digests buckets) (handler_lookup h cache)"

definition handler_entries_for_parts ::
  "externs \<Rightarrow> ('k, 'v) cluster_handler \<Rightarrow> bytes \<Rightarrow> bucket_part list \<Rightarrow> (bucket_part \<times> key_version list) list" where
  "handler_entries_for_parts e h cache ps = map_or [] (entries_for_parts e ps) (handler_lookup h cache)"

section \<open>Scoped digests and reads\<close>

datatype 'a ae_serve_outcome = Serve_Digests 'a | Serve_StaleView u64 | Serve_Unavailable

definition handler_view_hash :: "('k, 'v) cluster_handler \<Rightarrow> bytes \<Rightarrow> u64 option" where
  "handler_view_hash h cache = Option.bind (handler_lookup h cache) (\<lambda>sd. map_option ov_view_hash (sd_ownership sd))"

definition matching_view :: "('k, 'v) cluster_handler \<Rightarrow> bytes \<Rightarrow> u64 \<Rightarrow> 'a ae_serve_outcome + ('k, 'v) shard" where
  "matching_view h cache vh =
     (case handler_lookup h cache of
        None \<Rightarrow> Inl Serve_Unavailable
      | Some sd \<Rightarrow>
          (case sd_ownership sd of
             None \<Rightarrow> Inl Serve_Unavailable
           | Some view \<Rightarrow> if ov_view_hash view = vh then Inr sd else Inl (Serve_StaleView (ov_view_hash view))))"

definition ae_digest_scoped :: "('k, 'v) cluster_handler \<Rightarrow> bytes \<Rightarrow> u64 \<Rightarrow> (u16 \<times> u64) list ae_serve_outcome" where
  "ae_digest_scoped h cache vh =
     (case matching_view h cache vh of Inl declined \<Rightarrow> declined | Inr sd \<Rightarrow> Serve_Digests (shard_digests sd))"

definition ae_digest_masked ::
  "('k, 'v) cluster_handler \<Rightarrow> bytes \<Rightarrow> u64 \<Rightarrow> (u16 \<times> u64 \<times> u64) list \<Rightarrow> (u16 \<times> u64 list) list ae_serve_outcome" where
  "ae_digest_masked h cache vh buckets =
     (case matching_view h cache vh of
        Inl declined \<Rightarrow> declined
      | Inr sd \<Rightarrow>
          let remote = hash_map_of buckets; own = shard_part_digests (remdups (map fst buckets)) sd
          in Serve_Digests (filter (\<lambda>(bucket, ds). is_some_and (\<lambda>(m, digest). mask_fold (Part_Mask m) ds \<noteq> digest) (remote bucket)) own))"

datatype fetch_serve = Fetch_Found "wire_record option" | Fetch_StaleView u64 | Fetch_Unavailable

definition serve_reply :: "serve_verdict \<Rightarrow> wire_record option \<Rightarrow> u64 \<Rightarrow> fetch_serve" where
  "serve_reply verdict rec local_hash =
     (case verdict of
        Serve_Record \<Rightarrow> Fetch_Found rec
      | Serve_Miss \<Rightarrow> Fetch_Found None
      | Serve_Stale \<Rightarrow> Fetch_StaleView local_hash
      | Decline_Distrusted \<Rightarrow> Fetch_Unavailable
      | Decline_Cold \<Rightarrow> Fetch_Unavailable)"

definition handler_fetch :: "externs \<Rightarrow> ('k, 'v) cluster_handler \<Rightarrow> bytes \<Rightarrow> bytes \<Rightarrow> u64 \<Rightarrow> fetch_serve" where
  "handler_fetch e h cache key vh =
     (case handler_lookup h cache of
        None \<Rightarrow> Fetch_Unavailable
      | Some sd \<Rightarrow>
          (case sd_ownership sd of
             None \<Rightarrow> Fetch_Unavailable
           | Some view \<Rightarrow>
               let part = part_of_key e key; distrusted = is_unverified_part part sd; cold = is_cold_part part sd;
                   rec = (if distrusted then None else case records_for e [key] sd of [] \<Rightarrow> None | r # _ \<Rightarrow> Some r);
                   verdict = fetch_serve_verdict \<lparr>si_distrusted = distrusted, si_served = rec \<noteq> None,
                     si_views_match = (ov_view_hash view = vh), si_cold = cold\<rparr>
               in serve_reply verdict rec (ov_view_hash view)))"

section \<open>Donating parts\<close>

definition serve_order :: "granularity \<Rightarrow> u16 list \<Rightarrow> u16 list" where
  "serve_order g ids =
     remdups_adj (case g of
        By_Bucket \<Rightarrow> sort ids
      | By_Part \<Rightarrow> sort_key (\<lambda>i. (part_bucket (Part_Id i), part_part (Part_Id i))) ids)"

definition current_granularity :: "('k, 'v) shard \<Rightarrow> granularity" where
  "current_granularity sd = map_or By_Bucket ov_granularity (sd_ownership sd)"

text \<open>\<open>slice::chunk_by\<close>: the maximal runs in which neighbours are related.\<close>

fun chunk_by :: "('a \<Rightarrow> 'a \<Rightarrow> bool) \<Rightarrow> 'a list \<Rightarrow> 'a list list" where
  "chunk_by P [] = []"
| "chunk_by P [x] = [[x]]"
| "chunk_by P (x # y # xs) =
     (if P x y then (case chunk_by P (y # xs) of [] \<Rightarrow> [[x]] | run # runs \<Rightarrow> (x # run) # runs) else [x] # chunk_by P (y # xs))"

definition bucket_runs :: "granularity \<Rightarrow> u16 list \<Rightarrow> u16 list list" where
  "bucket_runs g ids = chunk_by (\<lambda>a b. g = By_Part \<and> part_bucket (Part_Id a) = part_bucket (Part_Id b)) ids"

definition id_keys :: "externs \<Rightarrow> granularity \<Rightarrow> u16 list \<Rightarrow> ('k, 'v) shard \<Rightarrow> (u16 \<times> bytes list) list" where
  "id_keys e g run sd =
     (let listed = (case g of
            By_Bucket \<Rightarrow> entries_for_buckets e run sd
          | By_Part \<Rightarrow> map (\<lambda>(bp, entries). (part_raw (part_of_bucket_part bp), entries))
                        (entries_for_parts e (map (\<lambda>i. part_bucket_part (Part_Id i)) run) sd))
      in map (\<lambda>(i, entries). (i, map fst entries)) (filter (\<lambda>(_, entries). entries \<noteq> []) listed))"

fun sub_batch_loop :: "u64 \<Rightarrow> bytes list \<Rightarrow> bytes list \<Rightarrow> u64 \<Rightarrow> bytes list list" where
  "sub_batch_loop chunk_bytes [] current current_size = (if current = [] then [] else [current])"
| "sub_batch_loop chunk_bytes (key # ks) current current_size =
     (let key_size = of_nat (record_header_len + length key);
          over_budget = chunk_bytes < sat_add current_size key_size
      in if over_budget \<and> current \<noteq> [] then current # sub_batch_loop chunk_bytes ks [key] key_size
         else sub_batch_loop chunk_bytes ks (current @ [key]) (current_size + key_size))"

definition st_bucket_key_sub_batches :: "bytes list \<Rightarrow> u64 \<Rightarrow> bytes list list" where
  "st_bucket_key_sub_batches ks chunk_bytes = sub_batch_loop chunk_bytes ks [] 0"

definition id_chunks :: "externs \<Rightarrow> granularity \<Rightarrow> u16 list \<Rightarrow> u64 \<Rightarrow> ('k, 'v) shard \<Rightarrow> (u16 \<times> wire_record list) list" where
  "id_chunks e g ids chunk_bytes sd =
     concat (map (\<lambda>(i, batch). map (\<lambda>chunk. (i, chunk)) (chunk_records_for_snapshot (skip_unframeable (records_for e batch sd) sd)))
       (concat (map (\<lambda>run. concat (map (\<lambda>(i, ks). map (\<lambda>batch. (i, batch)) (st_bucket_key_sub_batches ks chunk_bytes)) (id_keys e g run sd)))
          (bucket_runs g ids))))"

datatype st_serve_reply = St_Stale u64 | St_Cold | St_Stream "(u16 \<times> wire_record list) list" "u16 list" u64

definition st_serve :: "externs \<Rightarrow> ('k, 'v) cluster_handler \<Rightarrow> bytes \<Rightarrow> u16 list \<Rightarrow> u64 \<Rightarrow> st_serve_reply" where
  "st_serve e h cache ids vh =
     (case Option.bind (handler_lookup h cache) (\<lambda>sd. map_option (\<lambda>view. (sd, view)) (sd_ownership sd)) of
        None \<Rightarrow> St_Stale 0
      | Some (sd, view) \<Rightarrow>
          if ov_view_hash view \<noteq> vh then St_Stale (ov_view_hash view)
          else let g = ov_granularity view; order = serve_order g ids; ps = concat (map (parts_of_wire_id g) order)
               in if list_ex (\<lambda>p. is_cold_part p sd) ps then St_Cold
                  else St_Stream (id_chunks e g order (ch_rebalance_chunk_bytes h) sd) order (of_nat (length ps)))"

definition st_buckets_available :: "('k, 'v) cluster_handler \<Rightarrow> bytes \<Rightarrow> u64 \<Rightarrow> bool" where
  "st_buckets_available h cache vh = is_some_and (\<lambda>own. own = vh) (handler_view_hash h cache)"

definition st_buckets_cold :: "('k, 'v) cluster_handler \<Rightarrow> bytes \<Rightarrow> u16 list \<Rightarrow> bool" where
  "st_buckets_cold h cache buckets =
     is_some_and (\<lambda>sd. list_ex (\<lambda>p. is_cold_part p sd) (concat (map (parts_of_wire_id (current_granularity sd)) buckets))) (handler_lookup h cache)"

definition st_bucket_chunks :: "externs \<Rightarrow> ('k, 'v) cluster_handler \<Rightarrow> bytes \<Rightarrow> u16 list \<Rightarrow> (u16 \<times> wire_record list) list" where
  "st_bucket_chunks e h cache buckets =
     map_or [] (\<lambda>sd. let g = current_granularity sd in id_chunks e g (serve_order g buckets) (ch_rebalance_chunk_bytes h) sd) (handler_lookup h cache)"

section \<open>Batches and runs\<close>

lemma sub_batch_loop_concat: "concat (sub_batch_loop c ks cur sz) = cur @ ks"
  by (induction c ks cur sz rule: sub_batch_loop.induct) (simp_all add: Let_def)

lemma sub_batches_concat: "concat (st_bucket_key_sub_batches ks c) = ks"
  by (simp add: st_bucket_key_sub_batches_def sub_batch_loop_concat)

lemma chunk_by_concat: "concat (chunk_by P xs) = xs"
  by (induction P xs rule: chunk_by.induct) (auto split: list.split)

text \<open>The keys of one id become chunks tagged with it, and nothing else does.\<close>

definition key_chunks :: "externs \<Rightarrow> u64 \<Rightarrow> ('k, 'v) shard \<Rightarrow> bytes list \<Rightarrow> wire_record list list" where
  "key_chunks e c sd ks = concat (map (\<lambda>batch. chunk_records_for_snapshot (skip_unframeable (records_for e batch sd) sd)) (st_bucket_key_sub_batches ks c))"

lemma concat_map_concat: "concat (map f (concat xss)) = concat (map (\<lambda>xs. concat (map f xs)) xss)"
  by (induction xss) simp_all

lemma id_chunks_keyed:
  "id_chunks e g ids c sd = concat (map (\<lambda>(i, ks). map (Pair i) (key_chunks e c sd ks)) (concat (map (\<lambda>run. id_keys e g run sd) (bucket_runs g ids))))"
proof -
  have one: "concat (map (\<lambda>(i, batch). map (Pair i) (f batch)) (concat (map (\<lambda>(i, ks). map (Pair i) (b ks)) keyed))) =
      concat (map (\<lambda>(i, ks). map (Pair i) (concat (map f (b ks)))) keyed)" for f :: "bytes list \<Rightarrow> wire_record list list" and b keyed
    by (induction keyed) (auto simp: map_concat o_def)
  have "concat (map (\<lambda>run. concat (map (\<lambda>(i, ks). map (\<lambda>batch. (i, batch)) (st_bucket_key_sub_batches ks c)) (id_keys e g run sd))) runs) =
      concat (map (\<lambda>(i, ks). map (Pair i) (st_bucket_key_sub_batches ks c)) (concat (map (\<lambda>run. id_keys e g run sd) runs)))" for runs
    by (induction runs) simp_all
  then show ?thesis unfolding id_chunks_def one key_chunks_def by (simp add: one)
qed

lemma in_key_chunks:
  "(\<exists>chunk \<in> set (key_chunks e c sd ks). rec \<in> set chunk) \<longleftrightarrow>
     wr_key rec \<in> set ks \<and> shard_serves_part sd (part_of_key e (wr_key rec)) \<and> record_for e (wr_key rec) (sd_now sd) (sd_engine sd) = Some rec \<and> fits_frame sd rec"
proof -
  have "(\<exists>chunk \<in> set (key_chunks e c sd ks). rec \<in> set chunk) \<longleftrightarrow>
      (\<exists>batch \<in> set (st_bucket_key_sub_batches ks c). rec \<in> set (concat (chunk_records_for_snapshot (skip_unframeable (records_for e batch sd) sd))))"
    by (auto simp: key_chunks_def)
  also have "\<dots> \<longleftrightarrow> (\<exists>batch \<in> set (st_bucket_key_sub_batches ks c). rec \<in> set (records_for e batch sd) \<and> fits_frame sd rec)"
    by (simp add: chunk_records_for_snapshot_concat skip_unframeable_exact)
  also have "\<dots> \<longleftrightarrow> (\<exists>batch \<in> set (st_bucket_key_sub_batches ks c). wr_key rec \<in> set batch) \<and>
      shard_serves_part sd (part_of_key e (wr_key rec)) \<and> record_for e (wr_key rec) (sd_now sd) (sd_engine sd) = Some rec \<and> fits_frame sd rec"
    by (auto simp: in_records_for)
  also have "(\<exists>batch \<in> set (st_bucket_key_sub_batches ks c). wr_key rec \<in> set batch) \<longleftrightarrow> wr_key rec \<in> set ks"
    using sub_batches_concat[of ks c] by (metis (no_types, lifting) UN_iff set_concat)
  finally show ?thesis .
qed

section \<open>The order a donor streams in\<close>

definition unit_key :: "granularity \<Rightarrow> u16 \<Rightarrow> u16 \<times> u8" where
  "unit_key g i = (case g of By_Bucket \<Rightarrow> (i, 0) | By_Part \<Rightarrow> (part_bucket (Part_Id i), part_part (Part_Id i)))"

lemma unit_key_inj: "inj (unit_key g)"
proof (rule injI)
  fix i j assume eq: "unit_key g i = unit_key g j"
  show "i = j"
  proof (cases g)
    case By_Part
    then have "part_new (part_bucket (Part_Id i)) (part_part (Part_Id i)) = part_new (part_bucket (Part_Id j)) (part_part (Part_Id j))"
      using eq by (simp add: unit_key_def)
    then show ?thesis unfolding part_new_split by simp
  qed (use eq in \<open>simp add: unit_key_def\<close>)
qed

lemma serve_order_strict:
  "sorted_wrt (<) (map (unit_key g) (serve_order g ids))" "set (serve_order g ids) = set ids" "distinct (serve_order g ids)"
proof -
  have "serve_order g ids = remdups_adj (sort_key (unit_key g) ids)"
  proof (cases g)
    case By_Bucket
    have "sort ids = sort_key (unit_key g) ids" unfolding By_Bucket
      by (rule sort_key_inj_key_eq[symmetric]) (auto simp: unit_key_def inj_on_def sorted_map sorted_wrt_map intro: sorted_wrt_mono_rel[OF _ sorted_sort])
    then show ?thesis by (simp add: serve_order_def By_Bucket)
  qed (simp add: serve_order_def unit_key_def[abs_def])
  then show "sorted_wrt (<) (map (unit_key g) (serve_order g ids))" "set (serve_order g ids) = set ids"
    using strict_dedup_key[OF unit_key_inj] by auto
  then show "distinct (serve_order g ids)" by (metis distinct_map strict_sorted_iff)
qed

text \<open>A strictly ordered list whose elements another has is a subsequence of it.\<close>

lemma strict_subseq:
  fixes f :: "'a \<Rightarrow> 'b::linorder"
  assumes "inj f" and xs: "sorted_wrt (<) (map f xs)" and ys: "sorted_wrt (<) (map f ys)" and sub: "set xs \<subseteq> set ys"
  shows "subseq xs ys"
proof -
  have zs: "sorted_wrt (<) (map f (filter (\<lambda>y. y \<in> set xs) ys))" using ys by (simp add: sorted_wrt_map sorted_wrt_filter)
  have "set (filter (\<lambda>y. y \<in> set xs) ys) = set xs" using sub by auto
  then have "map f (filter (\<lambda>y. y \<in> set xs) ys) = map f xs" using xs zs by (intro strict_sorted_equal) simp_all
  then have "filter (\<lambda>y. y \<in> set xs) ys = xs" by (rule map_injective[OF _ assms(1)])
  then show ?thesis by (metis subseq_filter_left)
qed

section \<open>What a donor streams\<close>

lemma unit_of_key:
  "unit_of By_Part p = i \<longleftrightarrow> p = Part_Id i" "unit_of By_Bucket p = i \<longleftrightarrow> part_bucket p = i"
  by (cases p, auto simp: unit_of_def)

lemma key_bucket_part: "key_bucket e k = unat b \<longleftrightarrow> part_bucket (part_of_key e k) = b" for b :: u16
  using part_id_roundtrip[of "Part_Id 0" e k] by (simp add: key_bucket_def word_unat_eq_iff)

text \<open>A bucket is resident whenever one of its parts is, as in every computed view.\<close>

definition gate_consistent :: "('k, 'v) shard \<Rightarrow> bool" where
  "gate_consistent sd \<longleftrightarrow> (\<forall>p. shard_serves_part sd p \<longrightarrow> serves_bucket sd (part_bucket p))"

lemma id_keys_parts:
  assumes ok: "engine_ok e (sd_engine sd)" and run: "sorted_wrt (<) (map (unit_key By_Part) run)"
  shows "subseq (map fst (id_keys e By_Part run sd)) run"
    and "(i, ks) \<in> set (id_keys e By_Part run sd) \<Longrightarrow>
      k \<in> set ks \<longleftrightarrow> shard_serves_part sd (part_of_key e k) \<and> part_of_key e k = Part_Id i \<and> record_for e k (sd_now sd) (sd_engine sd) \<noteq> None"
    and "i \<in> set run \<Longrightarrow> shard_serves_part sd (Part_Id i) \<Longrightarrow> part_of_key e k = Part_Id i \<Longrightarrow> record_for e k (sd_now sd) (sd_engine sd) \<noteq> None \<Longrightarrow>
      i \<in> fst ` set (id_keys e By_Part run sd)"
proof -
  let ?bp = "\<lambda>i. part_bucket_part (Part_Id i)" and ?es = "entries_for_parts e (map (\<lambda>i. part_bucket_part (Part_Id i)) run) sd"
  note ls = in_entries_for_parts[OF ok, where wanted = "map ?bp run"]
  have raw: "part_raw (part_of_bucket_part (?bp i)) = i" for i using part_id_roundtrip[of "Part_Id i" e "[]"] by simp
  have from_run: "\<exists>i \<in> set run. bp = ?bp i" if "(bp, l) \<in> set ?es" for bp l using ls(3)[OF that] by auto
  have key: "unit_key By_Part (part_raw (part_of_bucket_part bp)) = bp_key bp" if es: "(bp, l) \<in> set ?es" for bp l
  proof -
    obtain i where "bp = ?bp i" using from_run[OF es] by blast
    then show ?thesis unfolding raw[of i, folded \<open>bp = ?bp i\<close>] by (simp add: unit_key_def bp_key_def part_bucket_part_def)
  qed
  have out: "map fst (id_keys e By_Part run sd) = map (\<lambda>x. part_raw (part_of_bucket_part (fst x))) (filter (\<lambda>x. snd x \<noteq> []) ?es)"
    by (simp add: id_keys_def Let_def filter_map o_def case_prod_beta)
  have "map (unit_key By_Part) (map fst (id_keys e By_Part run sd)) = map (bp_key \<circ> fst) (filter (\<lambda>x. snd x \<noteq> []) ?es)"
    unfolding out using key by auto
  moreover have "sorted_wrt (<) (map (bp_key \<circ> fst) (filter (\<lambda>x. snd x \<noteq> []) ?es))" using ls(1) by (simp add: sorted_wrt_map sorted_wrt_filter)
  moreover have "set (map fst (id_keys e By_Part run sd)) \<subseteq> set run" unfolding out using from_run raw by fastforce
  ultimately show "subseq (map fst (id_keys e By_Part run sd)) run" using run by (intro strict_subseq[OF unit_key_inj[of By_Part]]) simp_all
  have mem: "(i, ks) \<in> set (id_keys e By_Part run sd) \<longleftrightarrow> (\<exists>l. (?bp i, l) \<in> set ?es \<and> l \<noteq> [] \<and> ks = map fst l)" for i ks
  proof -
    have "(i, ks) \<in> set (id_keys e By_Part run sd) \<longleftrightarrow>
        (\<exists>bp l. (bp, l) \<in> set ?es \<and> l \<noteq> [] \<and> i = part_raw (part_of_bucket_part bp) \<and> ks = map fst l)"
      by (force simp: id_keys_def Let_def)
    then show ?thesis using from_run raw by metis
  qed
  show "k \<in> set ks \<longleftrightarrow> shard_serves_part sd (part_of_key e k) \<and> part_of_key e k = Part_Id i \<and> record_for e k (sd_now sd) (sd_engine sd) \<noteq> None"
    if ks: "(i, ks) \<in> set (id_keys e By_Part run sd)"
  proof -
    obtain l where l: "(?bp i, l) \<in> set ?es" "ks = map fst l" using ks mem by blast
    then have "k \<in> set ks \<longleftrightarrow> (\<exists>ver. (k, ver) \<in> set l)" by force
    then show ?thesis unfolding ls(4)[OF l(1)] by auto
  qed
  show "i \<in> fst ` set (id_keys e By_Part run sd)" if h: "i \<in> set run" "shard_serves_part sd (Part_Id i)" "part_of_key e k = Part_Id i"
    "record_for e k (sd_now sd) (sd_engine sd) \<noteq> None"
  proof -
    obtain l where l: "(?bp i, l) \<in> set ?es" using ls(2)[of "Part_Id i"] h(1) by auto
    then have "l \<noteq> []" using ls(4)[OF l] h(2-4) by force
    then show ?thesis using l mem by force
  qed
qed

lemma id_keys_buckets:
  assumes ok: "engine_ok e (sd_engine sd)" and run: "sorted_wrt (<) (map (unit_key By_Bucket) run)"
  shows "subseq (map fst (id_keys e By_Bucket run sd)) run"
    and "(i, ks) \<in> set (id_keys e By_Bucket run sd) \<Longrightarrow>
      k \<in> set ks \<longleftrightarrow> serves_bucket sd i \<and> part_bucket (part_of_key e k) = i \<and> record_for e k (sd_now sd) (sd_engine sd) \<noteq> None"
    and "i \<in> set run \<Longrightarrow> serves_bucket sd i \<Longrightarrow> part_bucket (part_of_key e k) = i \<Longrightarrow> record_for e k (sd_now sd) (sd_engine sd) \<noteq> None \<Longrightarrow>
      i \<in> fst ` set (id_keys e By_Bucket run sd)"
proof -
  let ?es = "entries_for_buckets e run sd"
  note ls = in_entries_for_buckets[OF ok, where wanted = run]
  have mem: "(i, ks) \<in> set (id_keys e By_Bucket run sd) \<longleftrightarrow> (\<exists>l. (i, l) \<in> set ?es \<and> l \<noteq> [] \<and> ks = map fst l)" for i ks
    by (force simp: id_keys_def Let_def)
  have out: "map fst (id_keys e By_Bucket run sd) = map fst (filter (\<lambda>(_, l). l \<noteq> []) ?es)"
    by (simp add: id_keys_def Let_def o_def case_prod_beta)
  have "sorted_wrt (<) (map (\<lambda>i. i) (map fst (id_keys e By_Bucket run sd)))" using ls(1) by (simp add: out sorted_wrt_map sorted_wrt_filter)
  moreover have "set (map fst (id_keys e By_Bucket run sd)) \<subseteq> set run" unfolding out using ls(3) by auto
  moreover have "sorted_wrt (<) (map (\<lambda>i. i) run)" using run by (auto simp: unit_key_def sorted_wrt_map)
  ultimately show "subseq (map fst (id_keys e By_Bucket run sd)) run" by (intro strict_subseq[where f = "\<lambda>i. i"]) simp_all
  show "k \<in> set ks \<longleftrightarrow> serves_bucket sd i \<and> part_bucket (part_of_key e k) = i \<and> record_for e k (sd_now sd) (sd_engine sd) \<noteq> None"
    if ks: "(i, ks) \<in> set (id_keys e By_Bucket run sd)"
  proof -
    obtain l where l: "(i, l) \<in> set ?es" "ks = map fst l" using ks mem by blast
    then have "k \<in> set ks \<longleftrightarrow> (\<exists>ver. (k, ver) \<in> set l)" by force
    then show ?thesis unfolding ls(4)[OF l(1)] key_bucket_part by auto
  qed
  show "i \<in> fst ` set (id_keys e By_Bucket run sd)" if h: "i \<in> set run" "serves_bucket sd i" "part_bucket (part_of_key e k) = i"
    "record_for e k (sd_now sd) (sd_engine sd) \<noteq> None"
  proof -
    have "unat i < bucket_count" using part_bucket_lt[of "part_of_key e k"] h(3) by simp
    then obtain l where l: "(i, l) \<in> set ?es" using ls(2)[of i] h(1) by blast
    then have "l \<noteq> []" using ls(4)[OF l] h(2-4) unfolding key_bucket_part by force
    then show ?thesis using l mem by force
  qed
qed

lemma sorted_wrt_concat_part: "sorted_wrt P (concat xss) \<Longrightarrow> xs \<in> set xss \<Longrightarrow> sorted_wrt P xs"
  by (induction xss) (auto simp: sorted_wrt_append)

lemma subseq_concat: "\<forall>xs \<in> set xss. subseq (f xs) xs \<Longrightarrow> subseq (concat (map f xss)) (concat xss)"
  by (induction xss) (auto intro: list_emb_append_mono)

text \<open>Tagged chunks that come in the order of the ids they are tagged with.\<close>

fun follows :: "('i \<times> 'a) list \<Rightarrow> 'i list \<Rightarrow> bool" where
  "follows [] ids = True"
| "follows ((i, _) # xs) ids = (i \<in> set ids \<and> follows xs (dropWhile (\<lambda>j. j \<noteq> i) ids))"

lemma follows_ids: "follows xs ids \<Longrightarrow> fst ` set xs \<subseteq> set ids"
proof (induction xs ids rule: follows.induct)
  case (2 i x xs ids)
  then show ?case using set_dropWhileD[of _ "\<lambda>j. j \<noteq> i" ids] by auto
qed simp

lemma follows_later: "follows xs ids \<Longrightarrow> follows xs (ids' @ ids)" if "fst ` set xs \<inter> set ids' = {}" for ids'
  using that
proof (induction xs arbitrary: ids ids')
  case (Cons x xs)
  then have "dropWhile (\<lambda>j. j \<noteq> fst x) (ids' @ ids) = dropWhile (\<lambda>j. j \<noteq> fst x) ids" by (subst dropWhile_append2) auto
  then show ?case using Cons.prems by (cases x) simp
qed simp

lemma follows_tagged: "i \<in> set ids \<Longrightarrow> follows xs (dropWhile (\<lambda>j. j \<noteq> i) ids) \<Longrightarrow> follows (map (Pair i) cs @ xs) ids" if "distinct ids"
proof (induction cs)
  case Nil
  have "fst ` set xs \<subseteq> set (dropWhile (\<lambda>j. j \<noteq> i) ids)" using follows_ids[OF Nil(2)] .
  moreover have "set (dropWhile (\<lambda>j. j \<noteq> i) ids) \<inter> set (takeWhile (\<lambda>j. j \<noteq> i) ids) = {}"
    using that by (metis Int_commute distinct_append takeWhile_dropWhile_id)
  ultimately have "follows xs (takeWhile (\<lambda>j. j \<noteq> i) ids @ dropWhile (\<lambda>j. j \<noteq> i) ids)" using Nil(2) by (intro follows_later) auto
  then show ?case by simp
next
  case (Cons c cs)
  let ?d = "dropWhile (\<lambda>j. j \<noteq> i)"
  have "?d (?d ids) = ?d ids" by (induction ids) simp_all
  have "follows (map (Pair i) cs @ xs) (?d ids)"
  proof (induction cs)
    case Nil
    then show ?case using Cons.prems(2) by simp
  next
    case (Cons c cs)
    have "i \<in> set (?d ids)" using \<open>i \<in> set ids\<close> by (induction ids) auto
    then show ?case using Cons \<open>?d (?d ids) = ?d ids\<close> by simp
  qed
  then show ?case using Cons.prems(1) by simp
qed

lemma follows_subseq:
  assumes "distinct ids" and "subseq (map fst keyed) ids"
  shows "follows (concat (map (\<lambda>(i, ks). map (Pair i) (f ks)) keyed)) ids"
  using assms
proof (induction keyed arbitrary: ids)
  case (Cons x keyed)
  obtain i ks where x: "x = (i, ks)" by fastforce
  obtain us vs where ids: "ids = us @ i # vs" "subseq (map fst keyed) vs" using list_emb_ConsD[of "(=)" i "map fst keyed" ids] Cons.prems(2) by (auto simp: x)
  have i: "i \<notin> set us" "i \<notin> set vs" "distinct vs" using Cons.prems(1) by (auto simp: ids)
  have drop: "dropWhile (\<lambda>j. j \<noteq> i) ids = i # vs" unfolding ids using i(1) by (subst dropWhile_append2) auto
  define T where "T = concat (map (\<lambda>(i, ks). map (Pair i) (f ks)) keyed)"
  have T: "follows T vs" using Cons.IH[OF i(3) ids(2)] by (simp add: T_def)
  have "fst ` set T \<inter> set [i] = {}" using follows_ids[OF T] i(2) by auto
  from follows_later[OF this T] have "follows T (dropWhile (\<lambda>j. j \<noteq> i) ids)" by (simp add: drop)
  then show ?case using follows_tagged[OF Cons.prems(1), of i T "f ks"] by (simp add: x T_def ids(1))
qed simp

definition donated :: "externs \<Rightarrow> ('k, 'v) shard \<Rightarrow> wire_record \<Rightarrow> bool" where
  "donated e sd rec \<longleftrightarrow> shard_serves_part sd (part_of_key e (wr_key rec)) \<and> record_for e (wr_key rec) (sd_now sd) (sd_engine sd) = Some rec \<and> fits_frame sd rec"

lemma id_chunks_exact:
  assumes ok: "engine_ok e (sd_engine sd)" and gate: "gate_consistent sd"
  shows "follows (id_chunks e g (serve_order g ids) c sd) (serve_order g ids)"
    and "(\<exists>chunk. (i, chunk) \<in> set (id_chunks e g (serve_order g ids) c sd) \<and> rec \<in> set chunk) \<longleftrightarrow>
      i \<in> set ids \<and> unit_of g (part_of_key e (wr_key rec)) = i \<and> donated e sd rec"
proof -
  let ?order = "serve_order g ids" and ?runs = "bucket_runs g (serve_order g ids)"
  let ?keyed = "concat (map (\<lambda>run. id_keys e g run sd) ?runs)"
  note order = serve_order_strict[of g ids]
  have cat: "concat ?runs = ?order" by (simp add: bucket_runs_def chunk_by_concat)
  have run: "sorted_wrt (<) (map (unit_key g) r)" if "r \<in> set ?runs" for r
    using sorted_wrt_concat_part[of _ "?runs" r] order(1) that by (simp add: sorted_wrt_map cat)
  have sub: "subseq (map fst (id_keys e g r sd)) r" if "r \<in> set ?runs" for r
    using run[OF that] id_keys_parts(1)[OF ok] id_keys_buckets(1)[OF ok] by (cases g) auto
  have "subseq (map fst ?keyed) ?order" using subseq_concat[of ?runs "\<lambda>r. map fst (id_keys e g r sd)"] sub by (simp add: cat map_concat o_def)
  then show "follows (id_chunks e g ?order c sd) ?order" unfolding id_chunks_keyed by (rule follows_subseq[OF order(3)])
  let ?k = "wr_key rec"
  have tagged: "(\<exists>chunk. (i, chunk) \<in> set (id_chunks e g ?order c sd) \<and> rec \<in> set chunk) \<longleftrightarrow> (\<exists>ks. (i, ks) \<in> set ?keyed \<and> ?k \<in> set ks) \<and> donated e sd rec"
  proof -
    have "(\<exists>chunk. (i, chunk) \<in> set (id_chunks e g ?order c sd) \<and> rec \<in> set chunk) \<longleftrightarrow>
        (\<exists>ks. (i, ks) \<in> set ?keyed \<and> (\<exists>chunk \<in> set (key_chunks e c sd ks). rec \<in> set chunk))"
      unfolding id_chunks_keyed by fastforce
    then show ?thesis unfolding in_key_chunks donated_def by auto
  qed
  have unit: "\<exists>r \<in> set ?runs. i \<in> set r" if "i \<in> set ids"
  proof -
    have "i \<in> set (concat ?runs)" unfolding cat order(2) using that .
    then show ?thesis by simp
  qed
  have "(\<exists>ks. (i, ks) \<in> set ?keyed \<and> ?k \<in> set ks) \<longleftrightarrow> i \<in> set ids \<and> unit_of g (part_of_key e ?k) = i" if don: "donated e sd rec"
  proof
    assume "\<exists>ks. (i, ks) \<in> set ?keyed \<and> ?k \<in> set ks"
    then obtain r ks where r: "r \<in> set ?runs" "(i, ks) \<in> set (id_keys e g r sd)" "?k \<in> set ks" by auto
    have "i \<in> set (map fst (id_keys e g r sd))" using r(2) by force
    then have "i \<in> set r" using list_emb_set[OF sub[OF r(1)]] by metis
    then have "i \<in> set (concat ?runs)" using r(1) by auto
    then have "i \<in> set ids" unfolding cat order(2) .
    moreover have "unit_of g (part_of_key e ?k) = i"
      using r run[OF r(1)] id_keys_parts(2)[OF ok, of r i ks ?k] id_keys_buckets(2)[OF ok, of r i ks ?k] by (cases g) (auto simp: unit_of_key)
    ultimately show "i \<in> set ids \<and> unit_of g (part_of_key e ?k) = i" by simp
  next
    assume at: "i \<in> set ids \<and> unit_of g (part_of_key e ?k) = i"
    then obtain r where r: "r \<in> set ?runs" "i \<in> set r" using unit by blast
    have serve: "shard_serves_part sd (part_of_key e ?k)" "record_for e ?k (sd_now sd) (sd_engine sd) \<noteq> None" using don by (simp_all add: donated_def)
    then have bucket: "serves_bucket sd (part_bucket (part_of_key e ?k))" using gate by (simp add: gate_consistent_def)
    have "i \<in> fst ` set (id_keys e g r sd)"
      using at serve bucket run[OF r(1)] r(2) id_keys_parts(3)[OF ok, of r i ?k] id_keys_buckets(3)[OF ok, of r i ?k] by (cases g) (auto simp: unit_of_key)
    then obtain ks where ks: "(i, ks) \<in> set (id_keys e g r sd)" by force
    then have "?k \<in> set ks"
      using at serve bucket run[OF r(1)] id_keys_parts(2)[OF ok, of r i ks ?k] id_keys_buckets(2)[OF ok, of r i ks ?k] by (cases g) (auto simp: unit_of_key)
    then show "\<exists>ks. (i, ks) \<in> set ?keyed \<and> ?k \<in> set ks" using r(1) ks by auto
  qed
  then show "(\<exists>chunk. (i, chunk) \<in> set (id_chunks e g ?order c sd) \<and> rec \<in> set chunk) \<longleftrightarrow>
      i \<in> set ids \<and> unit_of g (part_of_key e ?k) = i \<and> donated e sd rec" unfolding tagged by blast
qed

end
