(* ===== verification/Request_Serve.thy ===== *)
theory Request_Serve
  imports Cluster_Handler Outbox
begin

text \<open>
  The two ends of a request: what a responder sends (\<^verbatim>\<open>net/conn/serve.rs\<close>) and how a requester reads
  it (\<^verbatim>\<open>net/conn/reply.rs\<close>). A responder's answer is the list of the messages it sends; what a
  requester receives is a list of messages and how the connection went on after them. Messages reach
  the other end as they were sent, which theory Wire shows for the encoding; a connection may be cut
  anywhere. The acknowledgment a requester sends back for each part reported done, and the donor's note of
  it (\<open>record_bucket_ack_at\<close> of theory Rebalance_Plan), are not part of the exchange modelled here.

  The lemmas show that a listing cut into several frames is read back whole, that a transfer cut short
  is never taken for a finished one, and that a part is reported done only after its records.
\<close>

section \<open>The messages\<close>

datatype request_msg =
    AeBucket bytes u16 "key_version list"
  | AeSketch bytes u16 "iblt_cell list"
  | AePartDigests bytes u16 "u64 list"
  | AePart bytes u16 u8 "key_version list"
  | AePartSketch bytes u16 u8 "iblt_cell list"
  | StaleView bytes u64
  | StUnavailable bytes
  | StBucketDone bytes u16
  | FetchReply "wire_record option"
  | FetchDeclined bytes
  | LoadedReply "wire_record list" "(bytes \<times> bytes) list"
  | LoadFailed bytes string
  | LoadDeclined bytes
  | ReqDone

type_synonym reply_msg = "request_msg message"

abbreviation reply :: "request_msg \<Rightarrow> reply_msg" where
  "reply m \<equiv> Control (Request m)"

definition protocol_part_digests :: u16 where "protocol_part_digests = 2"
definition protocol_st_unavailable :: u16 where "protocol_st_unavailable = 2"
definition protocol_st_bucket_done_ack :: u16 where "protocol_st_bucket_done_ack = 4"
definition protocol_ae_listing_chunks :: u16 where "protocol_ae_listing_chunks = 9"
definition ae_entry_max_wire_len :: nat where "ae_entry_max_wire_len = 10 + 10 + 5 + 10"

section \<open>Listings\<close>

definition ae_listing_budget :: nat where
  "ae_listing_budget = max_frame div 2"

definition listing_entry_cost :: "key_version \<Rightarrow> nat" where
  "listing_entry_cost kv = length (fst kv) + ae_entry_max_wire_len"

fun listing_fits_loop :: "nat \<Rightarrow> nat \<Rightarrow> key_version list \<Rightarrow> bool" where
  "listing_fits_loop budget used [] = True"
| "listing_fits_loop budget used (kv # kvs) =
     (let used = min usize_max (used + listing_entry_cost kv) in if budget < used then False else listing_fits_loop budget used kvs)"

definition listing_fits :: "key_version list \<Rightarrow> nat \<Rightarrow> bool" where
  "listing_fits entries budget = listing_fits_loop budget 0 entries"

datatype listing_reply = Listing "key_version list" | Sketch_Cells "iblt_cell list"

definition listing_or_sketch :: "externs \<Rightarrow> key_version list \<Rightarrow> nat \<Rightarrow> nat \<Rightarrow> listing_reply" where
  "listing_or_sketch e entries min_bucket sketch_cells =
     (if min_bucket < length entries \<or> \<not> listing_fits entries ae_listing_budget
      then Sketch_Cells (into_cells (fold (\<lambda>kv. iblt_insert e (hash_key_bytes e (fst kv)) (snd kv)) entries (iblt_new sketch_cells)))
      else Listing entries)"

fun chunk_listing_loop :: "nat \<Rightarrow> key_version list \<Rightarrow> key_version list \<Rightarrow> nat \<Rightarrow> key_version list list" where
  "chunk_listing_loop budget [] current used = [current]"
| "chunk_listing_loop budget (kv # kvs) current used =
     (let len = listing_entry_cost kv
      in if 0 < used \<and> budget < used + len then current # chunk_listing_loop budget kvs [kv] len
         else chunk_listing_loop budget kvs (current @ [kv]) (used + len))"

definition chunk_ae_listing :: "key_version list \<Rightarrow> nat \<Rightarrow> key_version list list" where
  "chunk_ae_listing entries budget =
     (if listing_fits entries budget then [entries] else chunk_listing_loop budget entries [] 0)"

definition ae_entries_replies :: "bytes \<Rightarrow> (u16 \<times> key_version list) list \<Rightarrow> bool \<Rightarrow> nat \<Rightarrow> reply_msg list" where
  "ae_entries_replies cache listings chunked budget =
     map (\<lambda>(bucket, entries). reply (AeBucket cache bucket entries))
       (concat (map (\<lambda>(bucket, entries). map (\<lambda>slice. (bucket, slice)) (if chunked then chunk_ae_listing entries budget else [entries])) listings))"

section \<open>Anti-entropy\<close>

definition ae_mismatch_replies ::
  "externs \<Rightarrow> ('k, 'v) cluster_handler \<Rightarrow> bytes \<Rightarrow> (u16 \<Rightarrow> u64 option) \<Rightarrow> (u16 \<times> u64) list \<Rightarrow> u16 \<Rightarrow> reply_msg list" where
  "ae_mismatch_replies e h cache own remote_buckets peer_protocol =
     (let mismatched = map fst (filter (\<lambda>(bucket, remote_digest). map_or 0 id (own bucket) \<noteq> remote_digest) remote_buckets)
      in if mismatched = [] then []
         else
           let part_min_bucket = (if peer_supports peer_protocol protocol_part_digests then ch_ae_part_min_bucket h else usize_max);
               lens = hash_map_of (handler_bucket_lens h cache mismatched);
               (big, small) = partition (\<lambda>bucket. part_min_bucket < map_or 0 id (lens bucket)) mismatched
           in (if big = [] then []
               else map (\<lambda>(bucket, ds). reply (AePartDigests cache bucket ds)) (handler_part_digests h cache big)) @
              (if small = [] then []
               else map (\<lambda>(bucket, entries).
                 case listing_or_sketch e entries (ch_ae_sketch_min_bucket h) (ch_ae_sketch_cells h) of
                   Sketch_Cells cells \<Rightarrow> reply (AeSketch cache bucket cells)
                 | Listing entries \<Rightarrow> reply (AeBucket cache bucket entries)) (handler_entries_for_buckets e h cache small)))"

definition serve_ae_digest :: "externs \<Rightarrow> ('k, 'v) cluster_handler \<Rightarrow> bytes \<Rightarrow> (u16 \<times> u64) list \<Rightarrow> u16 \<Rightarrow> reply_msg list" where
  "serve_ae_digest e h cache remote_buckets peer_protocol =
     ae_mismatch_replies e h cache (hash_map_of (handler_digests h cache)) remote_buckets peer_protocol @ [reply ReqDone]"

definition declined_replies :: "bytes \<Rightarrow> 'a ae_serve_outcome \<Rightarrow> reply_msg list" where
  "declined_replies cache outcome = (case outcome of Serve_StaleView vh \<Rightarrow> [reply (StaleView cache vh)] | _ \<Rightarrow> [])"

definition serve_ae_digest_scoped :: "externs \<Rightarrow> ('k, 'v) cluster_handler \<Rightarrow> bytes \<Rightarrow> u64 \<Rightarrow> (u16 \<times> u64) list \<Rightarrow> u16 \<Rightarrow> reply_msg list" where
  "serve_ae_digest_scoped e h cache vh remote_buckets peer_protocol =
     (case ae_digest_scoped h cache vh of
        Serve_Digests own \<Rightarrow> ae_mismatch_replies e h cache (hash_map_of own) remote_buckets peer_protocol
      | declined \<Rightarrow> declined_replies cache declined) @ [reply ReqDone]"

definition serve_ae_digest_masked :: "('k, 'v) cluster_handler \<Rightarrow> bytes \<Rightarrow> u64 \<Rightarrow> (u16 \<times> u64 \<times> u64) list \<Rightarrow> reply_msg list" where
  "serve_ae_digest_masked h cache vh remote_buckets =
     (case ae_digest_masked h cache vh remote_buckets of
        Serve_Digests mismatched \<Rightarrow> map (\<lambda>(bucket, ds). reply (AePartDigests cache bucket ds)) mismatched
      | declined \<Rightarrow> declined_replies cache declined) @ [reply ReqDone]"

definition part_replies :: "externs \<Rightarrow> ('k, 'v) cluster_handler \<Rightarrow> bytes \<Rightarrow> bucket_part list \<Rightarrow> reply_msg list" where
  "part_replies e h cache ps =
     (if ps = [] then []
      else map (\<lambda>(bp, entries).
        case listing_or_sketch e entries (ch_ae_sketch_min_bucket h) (ch_ae_sketch_cells h) of
          Sketch_Cells cells \<Rightarrow> reply (AePartSketch cache (bp_bucket bp) (bp_part bp) cells)
        | Listing entries \<Rightarrow> reply (AePart cache (bp_bucket bp) (bp_part bp) entries)) (handler_entries_for_parts e h cache ps))"

definition serve_ae_parts :: "externs \<Rightarrow> ('k, 'v) cluster_handler \<Rightarrow> bytes \<Rightarrow> (u16 \<times> u8) list \<Rightarrow> reply_msg list" where
  "serve_ae_parts e h cache ps =
     part_replies e h cache (map (\<lambda>(bucket, part). \<lparr>bp_bucket = bucket, bp_part = part\<rparr>) ps) @ [reply ReqDone]"

definition serve_ae_entries :: "externs \<Rightarrow> ('k, 'v) cluster_handler \<Rightarrow> bytes \<Rightarrow> u16 list \<Rightarrow> u16 \<Rightarrow> reply_msg list" where
  "serve_ae_entries e h cache buckets peer_protocol =
     (if buckets = [] then []
      else ae_entries_replies cache (handler_entries_for_buckets e h cache buckets)
             (peer_supports peer_protocol protocol_ae_listing_chunks) ae_listing_budget) @ [reply ReqDone]"

definition serve_ae_pull :: "externs \<Rightarrow> ('k, 'v) cluster_handler \<Rightarrow> bytes \<Rightarrow> bytes list \<Rightarrow> reply_msg list" where
  "serve_ae_pull e h cache ks = batch_replicate cache (handler_records_for e h cache ks) @ [reply ReqDone]"

definition serve_ae_pull_hashes :: "externs \<Rightarrow> ('k, 'v) cluster_handler \<Rightarrow> bytes \<Rightarrow> u16 \<Rightarrow> u64 list \<Rightarrow> reply_msg list" where
  "serve_ae_pull_hashes e h cache bucket hashes = batch_replicate cache (records_for_hashes e h cache bucket hashes) @ [reply ReqDone]"

section \<open>Reads and loads\<close>

definition serve_fetch :: "externs \<Rightarrow> ('k, 'v) cluster_handler \<Rightarrow> bytes \<Rightarrow> bytes \<Rightarrow> u64 \<Rightarrow> reply_msg list" where
  "serve_fetch e h cache key vh =
     [reply (case handler_fetch e h cache key vh of
        Fetch_Found rec \<Rightarrow> FetchReply rec
      | Fetch_StaleView own \<Rightarrow> StaleView cache own
      | Fetch_Unavailable \<Rightarrow> FetchDeclined cache), reply ReqDone]"

text \<open>The loop of \<open>loaded_replies\<close> over the records found and the pairs that are not cached.\<close>

type_synonym loaded_entry = "wire_record + bytes \<times> bytes"

fun loaded_len :: "loaded_entry \<Rightarrow> nat" where
  "loaded_len (Inl rec) = length (wr_key rec) + map_or 0 length (wr_value rec)"
| "loaded_len (Inr (key, value)) = length key + length value"

definition loaded_msg :: "loaded_entry list \<Rightarrow> reply_msg" where
  "loaded_msg current =
     reply (LoadedReply (List.map_filter (\<lambda>en. case en of Inl rec \<Rightarrow> Some rec | _ \<Rightarrow> None) current)
                        (List.map_filter (\<lambda>en. case en of Inr pair \<Rightarrow> Some pair | _ \<Rightarrow> None) current))"

fun loaded_loop :: "nat \<Rightarrow> loaded_entry list \<Rightarrow> loaded_entry list \<Rightarrow> nat \<Rightarrow> reply_msg list \<Rightarrow> reply_msg list" where
  "loaded_loop budget [] current used replies =
     (if replies = [] \<or> current \<noteq> [] then replies @ [loaded_msg current] else replies)"
| "loaded_loop budget (en # ens) current used replies =
     (if 0 < used \<and> budget < used + loaded_len en
      then loaded_loop budget ens [en] (loaded_len en) (replies @ [loaded_msg current])
      else loaded_loop budget ens (current @ [en]) (used + loaded_len en) replies)"

definition loaded_replies :: "wire_record list \<Rightarrow> (bytes \<times> bytes) list \<Rightarrow> nat \<Rightarrow> reply_msg list" where
  "loaded_replies found uncached budget = loaded_loop budget (map Inl found @ map Inr uncached) [] 0 []"

section \<open>Transfers\<close>

definition serve_state_transfer :: "externs \<Rightarrow> ('k, 'v) cluster_handler \<Rightarrow> bytes \<Rightarrow> u16 \<Rightarrow> reply_msg list" where
  "serve_state_transfer e h cache peer_protocol =
     (if \<not> snapshot_available h cache \<and> peer_supports peer_protocol protocol_st_unavailable then [reply (StUnavailable cache)]
      else map (\<lambda>recs. StChunk cache recs False) (handler_snapshot_chunks e h cache) @ [StChunk cache [] True])"

text \<open>The ids finished ahead of each chunk are reported before it, the rest after the last one.\<close>

fun stream_ids :: "bytes \<Rightarrow> bool \<Rightarrow> (u16 \<times> wire_record list) list \<Rightarrow> u16 list \<Rightarrow> reply_msg list" where
  "stream_ids cache signal_done [] remaining = (if signal_done then map (\<lambda>i. reply (StBucketDone cache i)) remaining else [])"
| "stream_ids cache signal_done ((bucket, recs) # chunks) remaining =
     (if signal_done then map (\<lambda>i. reply (StBucketDone cache i)) (takeWhile (\<lambda>b. b \<noteq> bucket) remaining) else []) @
     StBucketChunk cache recs False #
     stream_ids cache signal_done chunks (if signal_done then dropWhile (\<lambda>b. b \<noteq> bucket) remaining else remaining)"

definition serve_st_buckets :: "externs \<Rightarrow> ('k, 'v) cluster_handler \<Rightarrow> bytes \<Rightarrow> u16 list \<Rightarrow> u64 \<Rightarrow> u16 \<Rightarrow> reply_msg list" where
  "serve_st_buckets e h cache buckets vh peer_protocol =
     (case st_serve e h cache buckets vh of
        St_Stale own \<Rightarrow> [reply (StaleView cache own)]
      | St_Cold \<Rightarrow> [reply (StUnavailable cache)]
      | St_Stream chunks order _ \<Rightarrow>
          stream_ids cache (peer_supports peer_protocol protocol_st_bucket_done_ack) chunks order @ [StBucketChunk cache [] True])"

section \<open>Reading replies\<close>

text \<open>How a connection goes on after the messages received: it closes, a frame does not decode, or nothing more comes.\<close>

datatype conn_end = Conn_Closed | Conn_Error | Conn_Silent

text \<open>\<open>collect_replies\<close>; a timeout on a silent connection is the caller's.\<close>

fun collect_replies :: "(reply_msg \<Rightarrow> 't \<Rightarrow> 't) \<Rightarrow> reply_msg list \<Rightarrow> conn_end \<Rightarrow> 't \<Rightarrow> (fetch_error + 't) option" where
  "collect_replies acc [] ce seed =
     (case ce of Conn_Closed \<Rightarrow> Some (Inl (Err_Io (Io_Other ''unexpected eof''))) | Conn_Error \<Rightarrow> Some (Inl Err_MalformedFrame) | Conn_Silent \<Rightarrow> None)"
| "collect_replies acc (m # ms) ce seed = (if m = reply ReqDone then Some (Inr seed) else collect_replies acc ms ce (acc m seed))"

fun merge_bucket_chunk :: "u16 \<Rightarrow> key_version list \<Rightarrow> (u16 \<times> key_version list) list \<Rightarrow> (u16 \<times> key_version list) list" where
  "merge_bucket_chunk bucket entries [] = [(bucket, entries)]"
| "merge_bucket_chunk bucket entries ((i, existing) # out) =
     (if i = bucket then (i, existing @ entries) # out else (i, existing) # merge_bucket_chunk bucket entries out)"

definition collect_ae_buckets :: "reply_msg list \<Rightarrow> conn_end \<Rightarrow> (fetch_error + (u16 \<times> key_version list) list) option" where
  "collect_ae_buckets ms ce =
     collect_replies (\<lambda>m out. case m of Control (Request (AeBucket _ bucket entries)) \<Rightarrow> merge_bucket_chunk bucket entries out | _ \<Rightarrow> out) ms ce []"

definition push_mismatch :: "reply_msg \<Rightarrow> ae_mismatch list \<Rightarrow> ae_mismatch list" where
  "push_mismatch m out =
     (case m of
        Control (Request (AeBucket _ bucket entries)) \<Rightarrow> out @ [Mis_Bucket bucket entries]
      | Control (Request (AeSketch _ bucket cells)) \<Rightarrow> out @ [Mis_Sketch bucket cells]
      | Control (Request (AePartDigests _ bucket ds)) \<Rightarrow> out @ [Mis_PartDigests bucket ds]
      | _ \<Rightarrow> out)"

definition collect_ae_mismatches :: "reply_msg list \<Rightarrow> conn_end \<Rightarrow> (fetch_error + ae_mismatch list) option" where
  "collect_ae_mismatches ms ce = collect_replies push_mismatch ms ce []"

definition collect_ae_part_replies :: "reply_msg list \<Rightarrow> conn_end \<Rightarrow> (fetch_error + ae_part_reply list) option" where
  "collect_ae_part_replies ms ce =
     collect_replies (\<lambda>m out. case m of
        Control (Request (AePart _ bucket part entries)) \<Rightarrow> out @ [Part_Listing bucket part entries]
      | Control (Request (AePartSketch _ bucket part cells)) \<Rightarrow> out @ [Part_Sketch bucket part cells]
      | _ \<Rightarrow> out) ms ce []"

definition collect_pulled_records :: "reply_msg list \<Rightarrow> conn_end \<Rightarrow> (fetch_error + wire_record list) option" where
  "collect_pulled_records ms ce =
     collect_replies (\<lambda>m out. case m of Replicate _ rec \<Rightarrow> out @ [rec] | ReplicateBatch _ recs \<Rightarrow> out @ recs | _ \<Rightarrow> out) ms ce []"

definition collect_fetch_reply :: "reply_msg list \<Rightarrow> conn_end \<Rightarrow> (fetch_error + fetch_outcome) option" where
  "collect_fetch_reply ms ce =
     (case collect_replies (\<lambda>m out. case m of
              Control (Request (FetchReply rec)) \<Rightarrow> Some (Found rec)
            | Control (Request (FetchDeclined _)) \<Rightarrow> Some Fetch_Declined
            | Control (Request (StaleView _ vh)) \<Rightarrow> Some (Fetch_Stale vh)
            | _ \<Rightarrow> out) ms ce None of
        None \<Rightarrow> None
      | Some (Inl err) \<Rightarrow> Some (Inl err)
      | Some (Inr None) \<Rightarrow> Some (Inl (Err_Io (Io_Other ''unexpected eof'')))
      | Some (Inr (Some outcome)) \<Rightarrow> Some (Inr outcome))"

datatype ae_round_outcome = Round_Mismatches "ae_mismatch list" | Round_Stale u64

definition collect_ae_round_scoped :: "reply_msg list \<Rightarrow> conn_end \<Rightarrow> (fetch_error + ae_round_outcome) option" where
  "collect_ae_round_scoped ms ce =
     map_option (map_sum id (\<lambda>(mismatches, stale). case stale of Some vh \<Rightarrow> Round_Stale vh | None \<Rightarrow> Round_Mismatches mismatches))
       (collect_replies (\<lambda>m (out, stale). case m of
            Control (Request (StaleView _ vh)) \<Rightarrow> (out, Some vh)
          | _ \<Rightarrow> (push_mismatch m out, stale)) ms ce ([], None))"

datatype load_outcome = Load_Loaded "wire_record list" "(bytes \<times> bytes) list" | Load_Failed string | Load_Declined

definition collect_load_reply :: "reply_msg list \<Rightarrow> conn_end \<Rightarrow> (fetch_error + load_outcome) option" where
  "collect_load_reply ms ce =
     (case collect_replies (\<lambda>m out. case m of
              Control (Request (LoadedReply found uncached)) \<Rightarrow>
                (case out of
                   Some (Load_Loaded all_found all_uncached) \<Rightarrow> Some (Load_Loaded (all_found @ found) (all_uncached @ uncached))
                 | _ \<Rightarrow> Some (Load_Loaded found uncached))
            | Control (Request (LoadFailed _ msg)) \<Rightarrow> Some (Load_Failed msg)
            | Control (Request (LoadDeclined _)) \<Rightarrow> Some Load_Declined
            | _ \<Rightarrow> out) ms ce None of
        None \<Rightarrow> None
      | Some (Inl err) \<Rightarrow> Some (Inl err)
      | Some (Inr None) \<Rightarrow> Some (Inl (Err_Io (Io_Other ''unexpected eof'')))
      | Some (Inr (Some outcome)) \<Rightarrow> Some (Inr outcome))"

section \<open>Lazy streams\<close>

text \<open>What a consumer that keeps polling sees: the items, then the end of the stream, an error, or nothing more.\<close>

datatype stream_end = Stream_Ended | Stream_Broke | Stream_Stalled

fun close_stream :: "conn_end \<Rightarrow> stream_end" where
  "close_stream Conn_Silent = Stream_Stalled"
| "close_stream Conn_Closed = Stream_Broke"
| "close_stream Conn_Error = Stream_Broke"

fun state_stream :: "reply_msg list \<Rightarrow> conn_end \<Rightarrow> wire_record list list \<times> stream_end" where
  "state_stream [] ce = ([], close_stream ce)"
| "state_stream (StChunk cache recs fin # ms) ce =
     (if recs = [] then (if fin then ([], Stream_Ended) else state_stream ms ce)
      else if fin then ([recs], Stream_Ended)
      else case state_stream ms ce of (items, se) \<Rightarrow> (recs # items, se))"
| "state_stream (m # ms) ce = state_stream ms ce"

datatype bucket_stream_item = Item_Chunk "wire_record list" | Item_Done u16

fun bucket_stream :: "reply_msg list \<Rightarrow> conn_end \<Rightarrow> bucket_stream_item list \<times> stream_end" where
  "bucket_stream [] ce = ([], close_stream ce)"
| "bucket_stream (StBucketChunk cache recs fin # ms) ce =
     (if recs = [] then (if fin then ([], Stream_Ended) else bucket_stream ms ce)
      else if fin then ([Item_Chunk recs], Stream_Ended)
      else case bucket_stream ms ce of (items, se) \<Rightarrow> (Item_Chunk recs # items, se))"
| "bucket_stream (Control (Request (StBucketDone cache bucket)) # ms) ce =
     (case bucket_stream ms ce of (items, se) \<Rightarrow> (Item_Done bucket # items, se))"
| "bucket_stream (m # ms) ce = bucket_stream ms ce"

text \<open>
  \<open>request_state\<close> and \<open>request_buckets\<close>: the first reply tells a decline from a stream, within the
  request timeout; \<open>None\<close> stands for a request that could not be made or timed out.
\<close>

datatype 'i donor_reply = Reply_Stream "'i list" stream_end | Reply_Declined | Reply_Failed

definition request_state :: "(reply_msg list \<times> conn_end) option \<Rightarrow> wire_record list donor_reply" where
  "request_state received =
     (case received of
        None \<Rightarrow> Reply_Failed
      | Some (Control (Request (StUnavailable _)) # _, _) \<Rightarrow> Reply_Declined
      | Some (ms, ce) \<Rightarrow> (case state_stream ms ce of (items, se) \<Rightarrow> Reply_Stream items se))"

datatype bucket_pull = Pull_Stream "bucket_stream_item list" stream_end | Pull_Stale | Pull_Cold | Pull_Unanswered

definition request_buckets :: "(reply_msg list \<times> conn_end) option \<Rightarrow> bucket_pull" where
  "request_buckets received =
     (case received of
        None \<Rightarrow> Pull_Unanswered
      | Some (Control (Request (StaleView _ _)) # _, _) \<Rightarrow> Pull_Stale
      | Some (Control (Request (StUnavailable _)) # _, _) \<Rightarrow> Pull_Cold
      | Some (ms, ce) \<Rightarrow> (case bucket_stream ms ce of (items, se) \<Rightarrow> Pull_Stream items se))"

section \<open>A listing in several frames\<close>

lemma chunk_listing_concat: "concat (chunk_listing_loop budget kvs cur used) = cur @ kvs"
  by (induction budget kvs cur used rule: chunk_listing_loop.induct) (simp_all add: Let_def)

lemma chunk_ae_listing_concat: "concat (chunk_ae_listing entries budget) = entries" "chunk_ae_listing entries budget \<noteq> []"
proof -
  have "chunk_listing_loop budget kvs cur used \<noteq> []" for kvs cur used
    by (induction budget kvs cur used rule: chunk_listing_loop.induct) (simp_all add: Let_def)
  then show "concat (chunk_ae_listing entries budget) = entries" "chunk_ae_listing entries budget \<noteq> []"
    by (simp_all add: chunk_ae_listing_def chunk_listing_concat)
qed

definition listing_cost :: "key_version list \<Rightarrow> nat" where
  "listing_cost kvs = sum_list (map listing_entry_cost kvs)"

lemma listing_fits_cost: "listing_fits kvs budget \<Longrightarrow> budget < usize_max \<Longrightarrow> listing_cost kvs \<le> budget"
proof -
  have "listing_fits_loop budget used kvs \<Longrightarrow> budget < usize_max \<Longrightarrow> used \<le> budget \<Longrightarrow> used + listing_cost kvs \<le> budget" for used
  proof (induction kvs arbitrary: used)
    case (Cons kv kvs)
    show ?case using Cons.IH[of "used + listing_entry_cost kv"] Cons.prems
      by (auto simp: Let_def listing_cost_def min_def add.assoc not_less split: if_splits)
  qed (simp add: listing_cost_def)
  from this[of 0] show "listing_fits kvs budget \<Longrightarrow> budget < usize_max \<Longrightarrow> listing_cost kvs \<le> budget" by (simp add: listing_fits_def)
qed

lemma chunk_listing_bounded:
  assumes "used = listing_cost cur" and "listing_cost cur \<le> budget \<or> length cur = 1"
  shows "\<forall>slice \<in> set (chunk_listing_loop budget kvs cur used). listing_cost slice \<le> budget \<or> length slice = 1"
  using assms
proof (induction budget kvs cur used rule: chunk_listing_loop.induct)
  case (2 budget kv kvs cur used)
  have pos: "0 < listing_entry_cost kv" for kv by (simp add: listing_entry_cost_def ae_entry_max_wire_len_def)
  show ?case
  proof (cases "0 < used \<and> budget < used + listing_entry_cost kv")
    case True
    then show ?thesis using 2 by (simp add: listing_cost_def)
  next
    case False
    then have "cur = [] \<or> listing_cost (cur @ [kv]) \<le> budget" using 2(3) pos by (cases cur) (auto simp: listing_cost_def)
    then show ?thesis using 2(2)[OF refl] 2(3) False by (auto simp: listing_cost_def Let_def)
  qed
qed simp

lemma collect_append: "reply ReqDone \<notin> set ms \<Longrightarrow> collect_replies acc (ms @ rest) ce seed = collect_replies acc rest ce (fold acc ms seed)"
  by (induction ms arbitrary: seed) auto

text \<open>Everything between the request and the \<open>ReqDone\<close> that ends it.\<close>

lemma collect_whole: "reply ReqDone \<notin> set ms \<Longrightarrow> collect_replies acc (ms @ reply ReqDone # rest) ce seed = Some (Inr (fold acc ms seed))"
  by (simp add: collect_append)

text \<open>A reply cut before its \<open>ReqDone\<close> is no answer, however much of it arrived.\<close>

lemma collect_cut: "reply ReqDone \<notin> set ms \<Longrightarrow> collect_replies acc ms ce seed \<noteq> Some (Inr out)"
  using collect_append[of ms acc "[]" ce seed] by (auto split: conn_end.splits)

lemma merge_slices:
  assumes "b \<notin> fst ` set out"
  shows "fold (\<lambda>sl. merge_bucket_chunk b sl) sls (out @ [(b, xs)]) = out @ [(b, xs @ concat sls)]"
proof -
  have one: "merge_bucket_chunk b sl (out @ [(b, xs)]) = out @ [(b, xs @ sl)]" for sl xs
    using assms by (induction out) auto
  show ?thesis by (induction sls arbitrary: xs) (simp_all add: one)
qed

lemma merge_new: "b \<notin> fst ` set out \<Longrightarrow> merge_bucket_chunk b sl out = out @ [(b, sl)]"
  by (induction out) auto

lemma merge_bucket: "b \<notin> fst ` set out \<Longrightarrow> sls \<noteq> [] \<Longrightarrow> fold (\<lambda>sl. merge_bucket_chunk b sl) sls out = out @ [(b, concat sls)]"
  using merge_new[of b out] merge_slices[of b out] by (cases sls) auto

definition bucket_chunk :: "reply_msg \<Rightarrow> (u16 \<times> key_version list) list \<Rightarrow> (u16 \<times> key_version list) list" where
  "bucket_chunk m out = (case m of Control (Request (AeBucket _ bucket entries)) \<Rightarrow> merge_bucket_chunk bucket entries out | _ \<Rightarrow> out)"

lemma fold_entries_replies:
  assumes "distinct (map fst listings)" and "fst ` set out \<inter> fst ` set listings = {}"
  shows "fold bucket_chunk (ae_entries_replies cache listings chunked budget) out = out @ listings"
  using assms
proof (induction listings arbitrary: out)
  case (Cons x listings)
  obtain b l where x: "x = (b, l)" by fastforce
  let ?sls = "if chunked then chunk_ae_listing l budget else [l]"
  have "fold bucket_chunk (map (\<lambda>sl. reply (AeBucket cache b sl)) ?sls) out = fold (\<lambda>sl. merge_bucket_chunk b sl) ?sls out"
    unfolding fold_map by (rule fold_cong) (auto simp: bucket_chunk_def)
  also have "\<dots> = out @ [(b, l)]" using merge_bucket[of b out ?sls] Cons.prems(2) chunk_ae_listing_concat[of l budget] by (auto simp: x)
  finally show ?case using Cons.IH[of "out @ [(b, l)]"] Cons.prems
    by (auto simp: x ae_entries_replies_def o_def)
qed (simp add: ae_entries_replies_def)

section \<open>A transfer cut short\<close>

lemma state_stream_prefix:
  "state_stream (take n (map (\<lambda>recs. StChunk cache recs False) chunks @ [StChunk cache [] True])) ce =
     (filter (\<lambda>recs. recs \<noteq> []) (take n chunks), if length chunks < n then Stream_Ended else close_stream ce)"
proof (induction chunks arbitrary: n)
  case Nil
  then show ?case by (cases n) simp_all
next
  case (Cons recs chunks)
  then show ?case by (cases n) (auto simp: Cons)
qed

text \<open>A node that donates the snapshot: it is warm, or the peer is too old to be declined.\<close>

definition donates_snapshot :: "('k, 'v) cluster_handler \<Rightarrow> bytes \<Rightarrow> u16 \<Rightarrow> bool" where
  "donates_snapshot h cache peer_protocol \<longleftrightarrow> snapshot_available h cache \<or> \<not> peer_supports peer_protocol protocol_st_unavailable"

lemma request_state_received:
  assumes "donates_snapshot h cache proto"
  shows "request_state (Some (take n (serve_state_transfer e h cache proto), ce)) =
    Reply_Stream (filter (\<lambda>recs. recs \<noteq> []) (take n (handler_snapshot_chunks e h cache)))
      (if length (handler_snapshot_chunks e h cache) < n then Stream_Ended else close_stream ce)"
proof -
  let ?cs = "handler_snapshot_chunks e h cache" let ?ms = "map (\<lambda>recs. StChunk cache recs False) ?cs @ [StChunk cache [] True]"
  have serve: "serve_state_transfer e h cache proto = ?ms" using assms by (auto simp: serve_state_transfer_def donates_snapshot_def)
  have stream: "request_state (Some (ms, ce)) = (case state_stream ms ce of (items, se) \<Rightarrow> Reply_Stream items se)"
    if "\<forall>m \<in> set ms. \<exists>cache recs fin. m = StChunk cache recs fin" for ms
    using that by (cases ms) (auto simp: request_state_def)
  have "\<forall>m \<in> set ?ms. \<exists>cache recs fin. m = StChunk cache recs fin" by auto
  then have "\<forall>m \<in> set (take n ?ms). \<exists>cache recs fin. m = StChunk cache recs fin" using set_take_subset[of n ?ms] by blast
  from stream[OF this] show ?thesis unfolding serve state_stream_prefix by (simp only: prod.case)
qed

section \<open>A part is done after its records\<close>

lemma done_after_records:
  assumes "follows chunks ids" and "distinct ids" and "stream_ids cache True chunks ids = pre @ reply (StBucketDone cache i) # post"
  shows "\<forall>recs. (i, recs) \<in> set chunks \<longrightarrow> StBucketChunk cache recs False \<in> set pre"
  using assms
proof (induction cache "True" chunks ids arbitrary: pre rule: stream_ids.induct)
  case (2 cache b recs chunks ids)
  let ?dones = "map (\<lambda>i. reply (StBucketDone cache i)) (takeWhile (\<lambda>j. j \<noteq> b) ids)"
  let ?rest = "dropWhile (\<lambda>j. j \<noteq> b) ids"
  have split: "?dones @ StBucketChunk cache recs False # stream_ids cache True chunks ?rest = pre @ reply (StBucketDone cache i) # post"
    using 2(4) by simp
  have fol: "follows chunks ?rest" "b \<in> set ids" using 2(2) by simp_all
  have dist: "distinct ?rest" using 2(3) by (simp add: distinct_dropWhile)
  show ?case
  proof (cases "length pre < length ?dones")
    case True
    then have "reply (StBucketDone cache i) \<in> set ?dones" using split by (metis nth_append nth_append_length nth_mem)
    then have i: "i \<in> set (takeWhile (\<lambda>j. j \<noteq> b) ids)" by auto
    then have "i \<noteq> b" by (auto dest: set_takeWhileD)
    moreover have "i \<notin> set ?rest" using i 2(3) by (metis disjoint_iff distinct_append takeWhile_dropWhile_id)
    ultimately show ?thesis using follows_ids[OF fol(1)] by force
  next
    case False
    then have "length ?dones \<le> length pre" by simp
    then obtain pre' where pre: "pre = ?dones @ pre'" and rest: "StBucketChunk cache recs False # stream_ids cache True chunks ?rest = pre' @ reply (StBucketDone cache i) # post"
      using split append_eq_append_conv_if[of ?dones "StBucketChunk cache recs False # stream_ids cache True chunks ?rest" pre "reply (StBucketDone cache i) # post"]
      by (metis append_take_drop_id)
    then obtain pre'' where "pre' = StBucketChunk cache recs False # pre''" "stream_ids cache True chunks ?rest = pre'' @ reply (StBucketDone cache i) # post"
      by (cases pre') auto
    then show ?thesis using 2(1)[of pre''] dist fol(1) by (auto simp: pre)
  qed
qed simp

end
