(* ===== verification/State_Transfer.thy ===== *)
theory State_Transfer
  imports Request_Serve Shard_Contract Absence
begin

text \<open>
  How a replicated cache that opens gets its contents: \<^verbatim>\<open>cluster/state_transfer.rs\<close>. A pull applies
  every chunk a donor streams; a pass asks the live peers one after another; the loop runs passes
  until a donor finishes, nobody is there or everybody declines; the warm-up task runs the loop again
  while the outcome leaves it owed. Durations are naturals in nanoseconds.

  What time brings is data: a run is given the passes its budget leaves room for, and every attempt
  what arrived from the donor, how many chunks were applied when its timer fired, if it did, and the
  readings of the clock. A list of passes that ends stands for the budget's timer; donors the timer kept from
  being asked are attempts cut before anything arrived. The reconciliation after a transfer is a
  parameter here: a round of theory \<open>Ae_Repair\<close>.

  The lemmas show what a pull leaves in the registers, finished or not, and when a cache is warm.
\<close>

section \<open>Budgets\<close>

definition retry_backoff :: nat where
  "retry_backoff = 200 * 1000000"

definition per_donor_budget :: "nat \<Rightarrow> nat" where
  "per_donor_budget whole = min duration_max (whole * 2) div 5"

definition first_peer_grace :: "nat \<Rightarrow> nat" where
  "first_peer_grace whole = whole div 5"

section \<open>Outcomes\<close>

datatype transfer_outcome = Completed | NoPeers | NoDonor | Skipped | TimedOut | Outcome_Superseded | Outcome_Unverified

fun needs_warm_up :: "transfer_outcome \<Rightarrow> bool" where
  "needs_warm_up NoPeers = True"
| "needs_warm_up TimedOut = True"
| "needs_warm_up Outcome_Superseded = True"
| "needs_warm_up Outcome_Unverified = True"
| "needs_warm_up _ = False"

definition max_warm_up_attempts :: u32 where
  "max_warm_up_attempts = 3"

datatype warm_up_step = Step_Done | WaitForPeer | RetryLater | RetryNow | WarmAnyway

fun next_warm_up_step :: "transfer_outcome \<Rightarrow> u32 \<Rightarrow> warm_up_step" where
  "next_warm_up_step Completed attempt = Step_Done"
| "next_warm_up_step NoDonor attempt = Step_Done"
| "next_warm_up_step Skipped attempt = Step_Done"
| "next_warm_up_step NoPeers attempt = WaitForPeer"
| "next_warm_up_step Outcome_Superseded attempt = RetryNow"
| "next_warm_up_step TimedOut attempt = (if max_warm_up_attempts \<le> attempt then WarmAnyway else RetryLater)"
| "next_warm_up_step Outcome_Unverified attempt = (if max_warm_up_attempts \<le> attempt then WarmAnyway else RetryLater)"

record decline_clock =
  dc_set :: "node_id list"
  dc_since :: nat

definition decline_note :: "node_id list \<Rightarrow> nat \<Rightarrow> decline_clock \<Rightarrow> nat \<times> decline_clock" where
  "decline_note nodes now clk =
     (let clk = (if dc_set clk \<noteq> nodes then \<lparr>dc_set = nodes, dc_since = now\<rparr> else clk) in (now - dc_since clk, clk))"

datatype donor_result = Donor_Done | Donor_Declined | Donor_Failed

datatype pass = Pass_Done nat | Pass_AllDeclined | Pass_Retry

fun position_done :: "nat \<Rightarrow> donor_result list \<Rightarrow> nat option" where
  "position_done i [] = None"
| "position_done i (r # rs) = (if r = Donor_Done then Some i else position_done (Suc i) rs)"

definition pass_outcome :: "donor_result list \<Rightarrow> pass" where
  "pass_outcome results =
     (case position_done 0 results of
        Some idx \<Rightarrow> Pass_Done idx
      | None \<Rightarrow> if Donor_Failed \<in> set results then Pass_Retry else Pass_AllDeclined)"

datatype transfer = From node_id | Transfer_NoPeers | Transfer_AllDeclined

section \<open>Pulling from a donor\<close>

text \<open>\<open>clock i\<close> is the reading of the wall clock when the \<open>i\<close>-th chunk is applied.\<close>

fun apply_chunks :: "externs \<Rightarrow> ('k, 'v) codec \<Rightarrow> (nat \<Rightarrow> u64) \<Rightarrow> nat \<Rightarrow> wire_record list list \<Rightarrow> ('k, 'v) shard \<Rightarrow> ('k, 'v) shard" where
  "apply_chunks e cd clock i [] sd = sd"
| "apply_chunks e cd clock i (chunk # chunks) sd =
     apply_chunks e cd clock (Suc i) chunks (apply_remote_batch e cd chunk (sd\<lparr>sd_now := clock i\<rparr>))"

text \<open>A stream on which nothing more comes never lets the pull return: \<^term>\<open>None\<close>.\<close>

fun stream_result :: "stream_end \<Rightarrow> donor_result option" where
  "stream_result Stream_Ended = Some Donor_Done"
| "stream_result Stream_Broke = Some Donor_Failed"
| "stream_result Stream_Stalled = None"

definition count_records :: "wire_record list list \<Rightarrow> u64" where
  "count_records chunks = sum_list (map (\<lambda>chunk. of_nat (length chunk)) chunks)"

fun pull_from_donor ::
  "externs \<Rightarrow> ('k, 'v) codec \<Rightarrow> (nat \<Rightarrow> u64) \<Rightarrow> wire_record list donor_reply \<Rightarrow> ('k, 'v) shard \<Rightarrow> (donor_result option \<times> u64) \<times> ('k, 'v) shard" where
  "pull_from_donor e cd clock Reply_Declined sd = ((Some Donor_Declined, 0), sd)"
| "pull_from_donor e cd clock Reply_Failed sd = ((Some Donor_Failed, 0), sd)"
| "pull_from_donor e cd clock (Reply_Stream chunks se) sd =
     ((stream_result se, count_records chunks), apply_chunks e cd clock 0 chunks sd)"

definition try_donor ::
  "externs \<Rightarrow> ('k, 'v) codec \<Rightarrow> (nat \<Rightarrow> u64) \<Rightarrow> (reply_msg list \<times> conn_end) option \<Rightarrow> ('k, 'v) shard \<Rightarrow> donor_result option \<times> ('k, 'v) shard" where
  "try_donor e cd clock received sd =
     (case pull_from_donor e cd clock (request_state received) sd of ((result, _), sd) \<Rightarrow> (result, sd))"

text \<open>The chunks a part pull applies and the ids reported done to it, in order.\<close>

definition item_chunks :: "bucket_stream_item list \<Rightarrow> wire_record list list" where
  "item_chunks items = List.map_filter (\<lambda>it. case it of Item_Chunk chunk \<Rightarrow> Some chunk | _ \<Rightarrow> None) items"

fun pull_items ::
  "externs \<Rightarrow> ('k, 'v) codec \<Rightarrow> (nat \<Rightarrow> u64) \<Rightarrow> (u16 \<Rightarrow> 'c \<Rightarrow> 'c) \<Rightarrow> nat \<Rightarrow> bucket_stream_item list \<Rightarrow> ('k, 'v) shard \<times> 'c \<Rightarrow> ('k, 'v) shard \<times> 'c" where
  "pull_items e cd clock on_done i [] st = st"
| "pull_items e cd clock on_done i (Item_Chunk chunk # items) (sd, c) =
     pull_items e cd clock on_done (Suc i) items (apply_remote_batch e cd chunk (sd\<lparr>sd_now := clock i\<rparr>), c)"
| "pull_items e cd clock on_done i (Item_Done bucket # items) (sd, c) = pull_items e cd clock on_done i items (sd, on_done bucket c)"

fun pull_buckets_from_donor ::
  "externs \<Rightarrow> ('k, 'v) codec \<Rightarrow> (nat \<Rightarrow> u64) \<Rightarrow> (u16 \<Rightarrow> 'c \<Rightarrow> 'c) \<Rightarrow> bucket_pull \<Rightarrow> ('k, 'v) shard \<times> 'c \<Rightarrow>
   (donor_result option \<times> u64) \<times> ('k, 'v) shard \<times> 'c" where
  "pull_buckets_from_donor e cd clock on_done (Pull_Stream items se) st =
     ((stream_result se, count_records (item_chunks items)), pull_items e cd clock on_done 0 items st)"
| "pull_buckets_from_donor e cd clock on_done Pull_Unanswered st = ((Some Donor_Failed, 0), st)"
| "pull_buckets_from_donor e cd clock on_done _ st = ((Some Donor_Declined, 0), st)"

section \<open>Passes\<close>

text \<open>
  One attempt under its timer. \<open>at_cut = Some n\<close> says that the timer fired when \<open>n\<close> chunks had been
  applied; a pull that would never return is ended by the timer as well.
\<close>

record attempt =
  at_received :: "(reply_msg list \<times> conn_end) option"
  at_cut :: "nat option"
  at_clock :: "nat \<Rightarrow> u64"

fun cut_reply :: "nat option \<Rightarrow> 'i donor_reply \<Rightarrow> 'i donor_reply" where
  "cut_reply None r = r"
| "cut_reply (Some n) (Reply_Stream items se) = Reply_Stream (take n items) Stream_Stalled"
| "cut_reply (Some n) _ = Reply_Stream [] Stream_Stalled"

definition timed_attempt :: "externs \<Rightarrow> ('k, 'v) codec \<Rightarrow> attempt \<Rightarrow> ('k, 'v) shard \<Rightarrow> donor_result \<times> ('k, 'v) shard" where
  "timed_attempt e cd at sd =
     (case pull_from_donor e cd (at_clock at) (cut_reply (at_cut at) (request_state (at_received at))) sd of
        ((result, _), sd) \<Rightarrow> (map_or Donor_Failed (\<lambda>r. r) result, sd))"

record pass_env =
  ps_peers :: "node_id list"
  ps_elapsed :: nat
  ps_peer_came :: bool
  ps_attempt :: "node_id \<Rightarrow> attempt"
  ps_now :: nat

fun try_candidates ::
  "externs \<Rightarrow> ('k, 'v) codec \<Rightarrow> (node_id \<Rightarrow> attempt) \<Rightarrow> node_id list \<Rightarrow> ('k, 'v) shard \<Rightarrow> donor_result list \<times> ('k, 'v) shard" where
  "try_candidates e cd attempts [] sd = ([], sd)"
| "try_candidates e cd attempts (donor # donors) sd =
     (case timed_attempt e cd (attempts donor) sd of
        (result, sd) \<Rightarrow>
          if result = Donor_Done then ([result], sd)
          else case try_candidates e cd attempts donors sd of (results, sd) \<Rightarrow> (result # results, sd))"

fun transfer_loop ::
  "externs \<Rightarrow> ('k, 'v) codec \<Rightarrow> node_id \<Rightarrow> nat \<Rightarrow> decline_clock \<Rightarrow> pass_env list \<Rightarrow> ('k, 'v) shard \<Rightarrow> transfer option \<times> ('k, 'v) shard" where
  "transfer_loop e cd local_node budget declines [] sd = (None, sd)"
| "transfer_loop e cd local_node budget declines (env # envs) sd =
     (let grace = first_peer_grace budget;
          candidates = sort (filter (\<lambda>p. p \<noteq> local_node) (ps_peers env))
      in if candidates = [] then
           (if grace - ps_elapsed env = 0 \<or> \<not> ps_peer_came env then (Some Transfer_NoPeers, sd)
            else transfer_loop e cd local_node budget declines envs sd)
         else
           (case try_candidates e cd (ps_attempt env) candidates sd of
              (results, sd) \<Rightarrow>
                (case pass_outcome results of
                   Pass_Done idx \<Rightarrow> (Some (From (candidates ! idx)), sd)
                 | Pass_AllDeclined \<Rightarrow>
                     (case decline_note candidates (ps_now env) declines of
                        (waited, declines) \<Rightarrow>
                          if grace \<le> waited then (Some Transfer_AllDeclined, sd)
                          else transfer_loop e cd local_node budget declines envs sd)
                 | Pass_Retry \<Rightarrow> transfer_loop e cd local_node budget declines envs sd)))"

section \<open>A run\<close>

definition reconcile_order :: "node_id list \<Rightarrow> node_id \<Rightarrow> node_id list" where
  "reconcile_order live donor = donor # filter (\<lambda>p. p \<noteq> donor) live"

text \<open>\<open>round i p\<close> is the round against \<open>p\<close>, cut short or not; \<open>elapsed i\<close> the time spent when it starts.\<close>

fun reconcile_with_every_peer ::
  "(nat \<Rightarrow> node_id \<Rightarrow> 's \<Rightarrow> 's) \<Rightarrow> (nat \<Rightarrow> nat) \<Rightarrow> nat \<Rightarrow> nat \<Rightarrow> node_id list \<Rightarrow> 's \<Rightarrow> 's" where
  "reconcile_with_every_peer round elapsed budget i [] sd = sd"
| "reconcile_with_every_peer round elapsed budget i (p # peers) sd =
     (if budget - elapsed i = 0 then sd else reconcile_with_every_peer round elapsed budget (Suc i) peers (round i p sd))"

record ('k, 'v) run_env =
  rn_started :: nat
  rn_passes :: "pass_env list"
  rn_live_after :: "node_id list"
  rn_elapsed :: "nat \<Rightarrow> nat"
  rn_round :: "nat \<Rightarrow> node_id \<Rightarrow> ('k, 'v) shard \<Rightarrow> ('k, 'v) shard"

text \<open>\<open>run\<close>; the set is the cluster's table of warm caches.\<close>

definition run_transfer ::
  "externs \<Rightarrow> ('k, 'v) codec \<Rightarrow> node_id \<Rightarrow> nat \<Rightarrow> bytes \<Rightarrow> ('k, 'v) run_env \<Rightarrow> bytes set \<times> ('k, 'v) shard \<Rightarrow>
   transfer_outcome \<times> bytes set \<times> ('k, 'v) shard" where
  "run_transfer e cd local_node budget cache env st =
     (case st of (warm, sd) \<Rightarrow>
        if budget = 0 then (Skipped, insert cache warm, sd)
        else case transfer_loop e cd local_node budget \<lparr>dc_set = [], dc_since = rn_started env\<rparr> (rn_passes env) sd of
          (Some (From donor), sd) \<Rightarrow>
            (Completed, insert cache warm,
             reconcile_with_every_peer (rn_round env) (rn_elapsed env) budget 0 (reconcile_order (rn_live_after env) donor) sd)
        | (Some Transfer_NoPeers, sd) \<Rightarrow> (NoPeers, insert cache warm, sd)
        | (Some Transfer_AllDeclined, sd) \<Rightarrow> (NoDonor, insert cache warm, sd)
        | (None, sd) \<Rightarrow> (TimedOut, warm, sd))"

text \<open>
  \<open>warm_up_task\<close>: one environment per turn of its loop, after the wait for a peer. The flag says
  whether the task ended by itself; a list that ends stands for a cancellation.
\<close>

fun warm_up_task ::
  "externs \<Rightarrow> ('k, 'v) codec \<Rightarrow> node_id \<Rightarrow> nat \<Rightarrow> bytes \<Rightarrow> u32 \<Rightarrow> ('k, 'v) run_env list \<Rightarrow> bytes set \<times> ('k, 'v) shard \<Rightarrow>
   bool \<times> bytes set \<times> ('k, 'v) shard" where
  "warm_up_task e cd local_node budget cache attempt [] st = (False, st)"
| "warm_up_task e cd local_node budget cache attempt (env # envs) st =
     (case run_transfer e cd local_node budget cache env st of
        (outcome, st) \<Rightarrow>
          let attempt = attempt + 1
          in case next_warm_up_step outcome attempt of
               Step_Done \<Rightarrow> (True, st)
             | WarmAnyway \<Rightarrow> (True, insert cache (fst st), snd st)
             | _ \<Rightarrow> warm_up_task e cd local_node budget cache attempt envs st)"

section \<open>What a pull leaves\<close>

lemma budget_within: "whole \<le> duration_max \<Longrightarrow> per_donor_budget whole \<le> whole \<and> (whole * 2 \<le> duration_max \<longrightarrow> per_donor_budget whole = whole * 2 div 5)"
  by (auto simp: per_donor_budget_def min_def)

abbreviation reading :: "u64 \<Rightarrow> ('k, 'v) shard \<Rightarrow> ('k, 'v) shard" where
  "reading t sd \<equiv> sd\<lparr>sd_now := t\<rparr>"

lemma lww_reading [simp]: "lww_shard e (reading t sd) = lww_shard e sd"
  by (simp add: lww_shard_def)

text \<open>The terms a shard admits records on, whatever the clock reads.\<close>

definition timeless :: "('k, 'v) shard \<Rightarrow> ('k, 'v) shard \<Rightarrow> bool" where
  "timeless a b \<longleftrightarrow> same_terms (reading 0 a) (reading 0 b)"

lemma timeless_terms:
  assumes "timeless a b"
  shows "admitted e cd (reading t b) = admitted e cd (reading t a)" "arrives_in_time (reading t b) = arrives_in_time (reading t a)" "sd_mode b = sd_mode a"
proof -
  have "same_terms (reading t a) (reading t b)" using assms by (simp add: timeless_def same_terms_def)
  from same_terms_eq[OF this] show "admitted e cd (reading t b) = admitted e cd (reading t a)"
    "arrives_in_time (reading t b) = arrives_in_time (reading t a)" "sd_mode b = sd_mode a" by simp_all
qed

lemma timeless_trans: "timeless a b \<Longrightarrow> timeless b c \<Longrightarrow> timeless a c"
  by (simp add: timeless_def same_terms_def)

text \<open>Records a shard can take at any reading of the clock a pull makes.\<close>

definition takes :: "('k, 'v) shard \<Rightarrow> (nat \<Rightarrow> u64) \<Rightarrow> nat \<Rightarrow> wire_record list \<Rightarrow> bool" where
  "takes sd clock L recs \<longleftrightarrow> (\<forall>i. \<forall>rec \<in> set recs. length (wr_key rec) < 2 ^ 32 \<and> unat (logical (wr_ver rec)) \<le> L \<and> arrives_in_time (reading (clock i) sd) rec)"

lemma apply_chunks_lww:
  assumes "lww_shard e sd" and "externs_ok e" and "sd_mode sd \<noteq> Invalidation" and "takes sd clock L (concat chunks)"
    and "unat (logical (clock_last (sd_clock sd))) \<le> L" and "L + length (concat chunks) < 2 ^ 32"
  shows "lww_shard e (apply_chunks e cd clock i chunks sd) \<and> timeless sd (apply_chunks e cd clock i chunks sd) \<and>
    (\<exists>ws. registers_of e (sd_engine (apply_chunks e cd clock i chunks sd)) = fold lww_put ws (registers_of e (sd_engine sd)) \<and>
      set ws \<subseteq> rec_write ` set (concat chunks) \<and>
      (\<forall>rec \<in> set (concat chunks). (\<forall>j. admitted e cd (reading (clock j) sd) rec) \<longrightarrow> rec_write rec \<in> set ws))"
  using assms
proof (induction chunks arbitrary: i sd L)
  case Nil
  then show ?case by (auto simp: timeless_def same_terms_def intro!: exI[of _ "[]"])
next
  case (Cons chunk chunks)
  let ?sd = "reading (clock i) sd"
  define sd1 where "sd1 = apply_remote_batch e cd chunk ?sd"
  have recs: "\<forall>rec \<in> set chunk. length (wr_key rec) < 2 ^ 32 \<and> unat (logical (wr_ver rec)) \<le> L \<and> arrives_in_time ?sd rec"
    using Cons.prems(4) by (simp add: takes_def)
  have "L + length chunk < 2 ^ 32" "lww_shard e ?sd" "sd_mode ?sd \<noteq> Invalidation" "unat (logical (clock_last (sd_clock ?sd))) \<le> L"
    using Cons.prems by simp_all
  note ap = apply_inbound_lww[OF this(2) Cons.prems(2) this(3) recs this(4,1), of cd In_Replicated, folded apply_remote_batch_def, folded sd1_def]
  have tl: "timeless sd sd1" using ap by (simp add: timeless_def same_terms_def)
  have "takes sd1 clock (L + length chunk) (concat chunks)" "sd_mode sd1 \<noteq> Invalidation"
    using Cons.prems(3,4) timeless_terms[OF tl] by (auto simp: takes_def intro: trans_le_add1)
  from Cons.IH[OF _ Cons.prems(2) this(2,1), of "Suc i"] ap Cons.prems(6)
  obtain ws where rest: "lww_shard e (apply_chunks e cd clock (Suc i) chunks sd1)" "timeless sd1 (apply_chunks e cd clock (Suc i) chunks sd1)"
    "registers_of e (sd_engine (apply_chunks e cd clock (Suc i) chunks sd1)) = fold lww_put ws (registers_of e (sd_engine sd1))"
    "set ws \<subseteq> rec_write ` set (concat chunks)"
    "\<forall>rec \<in> set (concat chunks). (\<forall>j. admitted e cd (reading (clock j) sd1) rec) \<longrightarrow> rec_write rec \<in> set ws" by auto
  let ?ws = "map rec_write (filter (admitted e cd ?sd) chunk) @ ws"
  have "registers_of e (sd_engine sd1) = fold lww_put (map rec_write (filter (admitted e cd ?sd) chunk)) (registers_of e (sd_engine sd))" using ap by simp
  then have regs: "registers_of e (sd_engine (apply_chunks e cd clock (Suc i) chunks sd1)) = fold lww_put ?ws (registers_of e (sd_engine sd))"
    using rest(3) by simp
  have sub: "set ?ws \<subseteq> rec_write ` set (concat (chunk # chunks))" using rest(4) by (simp add: image_Un) blast
  have whole: "\<forall>rec \<in> set (concat (chunk # chunks)). (\<forall>j. admitted e cd (reading (clock j) sd) rec) \<longrightarrow> rec_write rec \<in> set ?ws"
    using rest(5) by (auto simp: timeless_terms[OF tl])
  have run: "apply_chunks e cd clock i (chunk # chunks) sd = apply_chunks e cd clock (Suc i) chunks sd1" by (simp add: sd1_def)
  show ?case unfolding run using rest(1) timeless_trans[OF tl rest(2)] regs sub whole by blast
qed

text \<open>
  What an attempt applies of a snapshot: a part of its chunks, in order, and all of its records when
  the attempt is done, wherever the connection or the timer cut it.
\<close>

lemma concat_nonempty: "concat (filter (\<lambda>xs. xs \<noteq> []) xss) = concat xss"
  by (induction xss) auto

lemma concat_take_length: "length (concat (take n xss)) \<le> length (concat xss)"
  by (metis append_take_drop_id concat_append le_add1 length_append)

lemma concat_take_set: "set (concat (take n xss)) \<subseteq> set (concat xss)"
  by (auto dest: in_set_takeD)

lemma attempt_applies:
  assumes "donates_snapshot h cache proto" and "at_received at = Some (take n (serve_state_transfer e h cache proto), ce)"
    and "timed_attempt e cd at sd = (result, sd')"
  obtains chunks where "sd' = apply_chunks e cd (at_clock at) 0 chunks sd" "set (concat chunks) \<subseteq> set (concat (handler_snapshot_chunks e h cache))"
    "length (concat chunks) \<le> length (concat (handler_snapshot_chunks e h cache))"
    "result = Donor_Done \<Longrightarrow> concat chunks = concat (handler_snapshot_chunks e h cache)" "result \<noteq> Donor_Declined"
proof -
  let ?cs = "handler_snapshot_chunks e h cache"
  let ?got = "filter (\<lambda>recs. recs \<noteq> []) (take n ?cs)" and ?fin_of = "if length ?cs < n then Stream_Ended else close_stream ce"
  have req: "request_state (at_received at) = Reply_Stream ?got ?fin_of" using request_state_received[OF assms(1)] by (simp add: assms(2))
  have got: "concat ?got = concat (take n ?cs)" by (rule concat_nonempty)
  define chunks where "chunks = (case at_cut at of None \<Rightarrow> ?got | Some m \<Rightarrow> take m ?got)"
  have run: "sd' = apply_chunks e cd (at_clock at) 0 chunks sd"
    "result = (case at_cut at of None \<Rightarrow> map_or Donor_Failed (\<lambda>r. r) (stream_result ?fin_of) | Some m \<Rightarrow> Donor_Failed)"
    using assms(3) by (auto simp: timed_attempt_def req chunks_def split: option.splits)
  have "set (concat chunks) \<subseteq> set (concat ?got)" "length (concat chunks) \<le> length (concat ?got)"
    unfolding chunks_def by (cases "at_cut at"; simp only: option.case concat_take_set concat_take_length order_refl)+
  then have sub: "set (concat chunks) \<subseteq> set (concat ?cs)" "length (concat chunks) \<le> length (concat ?cs)"
    unfolding got using concat_take_length[of n ?cs] concat_take_set[of n ?cs] by (blast, linarith)
  have fin: "concat chunks = concat ?cs" if "result = Donor_Done"
    using that got run(2) by (cases "at_cut at"; cases ce) (auto simp: chunks_def split: if_splits)
  have "result \<noteq> Donor_Declined" using run(2) by (cases "at_cut at"; cases ce) auto
  with run(1) sub fin show ?thesis using that by blast
qed

text \<open>
  What a transfer attempt leaves in a last-writer-wins cache that opens, wherever the connection
  is cut and whenever the timer fires. A key changes only to a record the donor serves, and never to
  an older version; and when the attempt reports that the donor finished, every record the donor
  served and the shard admits has arrived: the cache holds it or a newer one. A connection that ends
  early is never taken for a finished donor.
\<close>

theorem transfer_copies_donor:
  assumes "ch_shards h cache = Some oc" and "engine_ok e (sd_engine (oc_shard oc))" and "donates_snapshot h cache proto"
    and "lww_shard e sd" and "externs_ok e" and "sd_mode sd \<noteq> Invalidation"
    and "takes sd (at_clock at) L (concat (snapshot_chunks e (oc_shard oc)))"
    and "unat (logical (clock_last (sd_clock sd))) \<le> L" and "L + length (concat (snapshot_chunks e (oc_shard oc))) < 2 ^ 32"
    and "at_received at = Some (take n (serve_state_transfer e h cache proto), ce)" and "timed_attempt e cd at sd = (result, sd')"
  shows "lww_shard e sd' \<and>
    (\<forall>k x. registers_of e (sd_engine sd') k = Some x \<longrightarrow>
       registers_of e (sd_engine sd) k = Some x \<or> (\<exists>rec. donated e (oc_shard oc) rec \<and> rec_write rec = (k, x))) \<and>
    (\<forall>k x. registers_of e (sd_engine sd) k = Some x \<longrightarrow> (\<exists>y. registers_of e (sd_engine sd') k = Some y \<and> fst x \<le> fst y)) \<and>
    (result = Donor_Done \<longrightarrow>
       (\<forall>rec. donated e (oc_shard oc) rec \<and> (\<forall>i. admitted e cd (sd\<lparr>sd_now := at_clock at i\<rparr>) rec) \<longrightarrow>
          (\<exists>y. registers_of e (sd_engine sd') (wr_key rec) = Some y \<and> wr_ver rec \<le> fst y)))"
proof -
  let ?reg = "registers_of e (sd_engine sd)" and ?reg' = "registers_of e (sd_engine sd')"
  have cs: "handler_snapshot_chunks e h cache = snapshot_chunks e (oc_shard oc)" by (simp add: handler_snapshot_chunks_def handler_lookup_def assms(1))
  have serves: "rec \<in> set (concat (snapshot_chunks e (oc_shard oc))) \<longleftrightarrow> donated e (oc_shard oc) rec" for rec
    unfolding in_snapshot_chunks[OF assms(2)] by (auto simp: donated_def)
  obtain chunks where ch: "sd' = apply_chunks e cd (at_clock at) 0 chunks sd" "set (concat chunks) \<subseteq> set (concat (snapshot_chunks e (oc_shard oc)))"
    "length (concat chunks) \<le> length (concat (snapshot_chunks e (oc_shard oc)))"
    "result = Donor_Done \<Longrightarrow> concat chunks = concat (snapshot_chunks e (oc_shard oc))"
    by (rule attempt_applies[OF assms(3,10,11), unfolded cs]) blast
  have "takes sd (at_clock at) L (concat chunks)" using assms(7) ch(2) unfolding takes_def by blast
  moreover have "L + length (concat chunks) < 2 ^ 32" using ch(3) assms(9) by linarith
  ultimately obtain ws where ws: "lww_shard e sd'" "?reg' = fold lww_put ws ?reg" "set ws \<subseteq> rec_write ` set (concat chunks)"
    "\<And>rec. rec \<in> set (concat chunks) \<Longrightarrow> \<forall>j. admitted e cd (reading (at_clock at j) sd) rec \<Longrightarrow> rec_write rec \<in> set ws"
    using apply_chunks_lww[OF assms(4-6) _ assms(8), where chunks = chunks and clock = "at_clock at" and cd = cd and i = 0, folded ch(1)] by blast
  have new: "?reg k = Some x \<or> (\<exists>rec. donated e (oc_shard oc) rec \<and> rec_write rec = (k, x))" if "?reg' k = Some x" for k x
  proof -
    have "?reg k = Some x \<or> (k, x) \<in> set ws" using lww_fold_max(1)[of ws ?reg k "fst x" "snd x"] that ws(2) by simp
    then show ?thesis
    proof
      assume "(k, x) \<in> set ws"
      then have "(k, x) \<in> rec_write ` set (concat chunks)" by (rule subsetD[OF ws(3)])
      then obtain rec where "rec \<in> set (concat chunks)" "rec_write rec = (k, x)" by (rule imageE) simp
      then show ?thesis using ch(2) serves by blast
    qed simp
  qed
  have kept: "\<exists>y. ?reg' k = Some y \<and> fst x \<le> fst y" if "?reg k = Some x" for k x
    using lww_fold_max(2)[of k "fst x" "snd x" ws ?reg] that ws(2) by auto
  have all: "\<exists>y. ?reg' (wr_key rec) = Some y \<and> wr_ver rec \<le> fst y"
    if "result = Donor_Done" "donated e (oc_shard oc) rec" "\<forall>i. admitted e cd (reading (at_clock at i) sd) rec" for rec
  proof -
    have "rec_write rec \<in> set ws" using ws(4) ch(4) serves that by simp
    then show ?thesis using lww_fold_max(2)[of "wr_key rec" "wr_ver rec" _ ws ?reg] ws(2) by (auto simp: rec_write_def)
  qed
  show ?thesis using ws(1) new kept all by blast
qed

section \<open>When a cache is warm\<close>

text \<open>
  A run marks the cache warm unless its budget ran out first, and then it leaves the warmth as it
  was; a whole-cache transfer is never superseded or unverified.
\<close>

lemma run_transfer_warm:
  assumes "run_transfer e cd node budget cache env (warm, sd) = (out, warm', sd')"
  shows "warm' = (if out = TimedOut then warm else insert cache warm)" "out \<notin> {Outcome_Superseded, Outcome_Unverified}"
  using assms by (auto simp: run_transfer_def split: if_splits prod.splits option.splits transfer.splits)

text \<open>The warm-up task that ends by itself leaves the cache warm, however its runs went.\<close>

theorem warm_up_ends_warm:
  "warm_up_task e cd node budget cache attempt envs (warm, sd) = (True, warm', sd') \<Longrightarrow> cache \<in> warm'"
proof (induction envs arbitrary: attempt warm sd)
  case (Cons env envs)
  obtain out w1 sd1 where run: "run_transfer e cd node budget cache env (warm, sd) = (out, w1, sd1)" by (metis prod_cases3)
  note w1 = run_transfer_warm[OF run]
  show ?case
  proof (cases "next_warm_up_step out (attempt + 1)")
    case Step_Done
    then have "out \<noteq> TimedOut" by (auto split: if_splits)
    with Step_Done Cons.prems run w1 show ?thesis by (auto simp: Let_def)
  next
    case WarmAnyway
    with Cons.prems run show ?thesis by (auto simp: Let_def)
  qed (use Cons run in \<open>auto simp: Let_def\<close>)
qed simp

text \<open>A third run that is out of budget ends the task.\<close>

lemma warm_up_gives_up:
  assumes "run_transfer e cd node budget cache env st = (TimedOut, st')"
  shows "warm_up_task e cd node budget cache 2 (env # envs) st = (True, insert cache (fst st'), snd st')"
  by (simp add: assms max_warm_up_attempts_def)

end
