(* ===== verification/Spec2Isabelle.thy ===== *)
theory Spec2Isabelle
  imports Pn_Counter Or_Set Engine_Contract Skew_Hold Absence Ae_Repair Cluster_Path Rebalance_Plan State_Transfer
begin

text \<open>
  A verification development for sundog, an embedded replicated cache in Rust. The instances of a
  service form a cluster by gossip and keep named caches coherent. A cache is \<open>Local\<close>,
  \<open>Invalidation\<close> (a write makes the peers forget the key), \<open>Replicated\<close> (every node holds
  everything) or \<open>Distributed\<close> (each of the 65536 parts of the key space has a few owners).
  Paths below are relative to \<^verbatim>\<open>src/sundog/src\<close>.

  \<^bold>\<open>The program.\<close> A call on a cache reaches its \<^emph>\<open>shard\<close>, which stamps a write with the hybrid logical clock, applies
  it to the \<^emph>\<open>engine\<close> (stripes of records with versions, deadlines, tombstones and digests) and
  queues it. The \<^emph>\<open>fan-out\<close> drains the queue, groups the records by owner, batches and encodes them
  and puts the frames into the \<^emph>\<open>outbox\<close> of each peer. The peer's \<^emph>\<open>inbound loop\<close> joins the messages of a
  burst into runs, sends on what it received under an outdated view of the owners and hands the rest to its
  shard, which guards, holds back records from fast clocks and applies. What is lost on the way is
  found by \<^emph>\<open>anti-entropy\<close>: digests, then listings or sketches, then pulls and pushes. A cache that opens
  copies a donor by \<^emph>\<open>state transfer\<close>. Ownership views, residency and read verdicts decide which node may answer for
  a part; absence decides how long tombstones are kept.

  \<^bold>\<open>Foundations.\<close>
  \<^item> \<open>Sundog_Prelude\<close>: machine integers, saturating arithmetic, the parsing of numbers, generic lemmas.
    \<open>Btree_Map\<close>: ordered maps, with the contract \<open>ordered_map\<close>.
  \<^item> \<open>Node_Hlc\<close> (\<^verbatim>\<open>node.rs\<close>, \<^verbatim>\<open>hlc.rs\<close>): identities, stamps and the clock. Stamps increase while counters have
    room; the exact condition under which they do not; the bound on the lead.
  \<^item> \<open>Resolver\<close> (\<^verbatim>\<open>store/resolver.rs\<close>): the trait as a record of functions, its laws as the locales
    \<open>winner_order\<close>, \<open>join_on\<close> and \<open>ranked_join\<close>. \<open>Pn_Counter\<close>, \<open>Or_Set\<close> (\<^verbatim>\<open>store/crdt\<close>): merge, compaction and
    pruning; convergence and the invariant, through these locales. \<open>Conflict\<close> (\<^verbatim>\<open>engine/merge.rs\<close>): minted
    versions dominate; two replicas settle in one exchange (locale \<open>merging_resolver\<close>).
  \<^item> \<open>Store_Types\<close>, \<open>Live_Entry\<close>, \<open>Expiry\<close>, \<open>Slab\<close>, \<open>Part\<close> (\<^verbatim>\<open>store/types.rs\<close>, \<^verbatim>\<open>engine/record.rs\<close>, \<^verbatim>\<open>expiry.rs\<close>,
    \<^verbatim>\<open>slab.rs\<close>, \<^verbatim>\<open>store/part.rs\<close>): stored entries, deadlines, the arena of a stripe, parts and part sets (locale
    \<open>set_impl\<close>). \<open>Wire\<close> (\<^verbatim>\<open>wire.rs\<close>): frames, with the round trip of encoding and decoding.

  \<^bold>\<open>The engine\<close> (\<^verbatim>\<open>store/engine\<close>). \<open>Engine_State\<close> holds the state and the invariant \<open>engine_ok\<close>; \<open>Engine_Apply\<close>,
  \<open>Prefold\<close>, \<open>Engine_Evict\<close>, \<open>Engine_Batch\<close>, \<open>Engine_Removal\<close>, \<open>Engine_Housekeeping\<close>, \<open>Engine_Read\<close> and
  \<open>Engine_Loads\<close> hold one source file each. \<open>Engine_Reach\<close> is the engine as a state machine: every reachable state is
  exact. \<open>Replica\<close> refines it to last-write registers and proves convergence. \<open>Engine_Contract\<close> gives what each operation
  promises, \<open>Engine_Listing\<close> that every listing and snapshot holds the records the engine answers.

  \<^bold>\<open>The shard\<close> (\<^verbatim>\<open>store/shard_*.rs\<close>, \<^verbatim>\<open>store/mod.rs\<close>). \<open>Fan_Out\<close> (the queue) and \<open>Skew_Hold\<close> (records from fast clocks), then
  \<open>Shard_State\<close>, \<open>Shard_Write\<close>, \<open>Shard_Merge\<close>, \<open>Shard_Inbound\<close>, \<open>Shard_Serve\<close> and \<open>Shard_Read\<close>. \<open>Shard_Contract\<close>: local
  calls implement a map; a batch from a peer writes exactly what is admitted. \<open>Shard_Pending\<close>: coalesced merges are flushed at
  their first deadline, a seal loses no write. \<open>Shard_Listing\<close>: what a shard lists, in order and each once.

  \<^bold>\<open>Ownership.\<close> \<open>Ranking\<close> and \<open>Ownership\<close> (\<^verbatim>\<open>ownership.rs\<close>): the view, computed at once or from its predecessor
  (locale \<open>ranking\<close>); agreement and minimal movement. \<open>Residency\<close>, \<open>Verdict\<close> (\<^verbatim>\<open>ownership.rs\<close>, \<^verbatim>\<open>verdict.rs\<close>): a lost
  part answers no miss until a pull serves it. \<open>Absence\<close> (\<^verbatim>\<open>cluster/absence.rs\<close>): deferred collection. \<open>Rebalance_Plan\<close>
  (\<^verbatim>\<open>cluster/rebalance.rs\<close>, \<^verbatim>\<open>net/mod.rs\<close>): what a view change pulls, pushes and releases.

  \<^bold>\<open>The cluster.\<close> \<open>Sketch\<close>, \<open>Anti_Entropy\<close>, \<open>Ae_Repair\<close> (\<^verbatim>\<open>sketch.rs\<close>, \<^verbatim>\<open>cluster/anti_entropy.rs\<close>): decoding a
  difference, one plan whichever way it was found, pulls that end and cover it. \<open>Outbox\<close> (\<^verbatim>\<open>net/frames.rs\<close>, \<^verbatim>\<open>net/outbox.rs\<close>,
  \<^verbatim>\<open>net/mesh.rs\<close>), \<open>Cluster_Fan_Out\<close>, \<open>Cluster_Inbound\<close> (\<^verbatim>\<open>cluster/fan_out.rs\<close>, \<^verbatim>\<open>cluster/inbound.rs\<close>): bounds, losslessness,
  routing, joined runs, re-forwarding. \<open>Cluster_Path\<close> composes them: a write arrives at the peer. \<open>Cluster_Handler\<close>
  (\<^verbatim>\<open>cluster/handler.rs\<close>), \<open>Request_Serve\<close> (\<^verbatim>\<open>net/conn/serve.rs\<close>, \<^verbatim>\<open>reply.rs\<close>): both ends of a request; a cut transfer is never taken for
  a finished one. \<open>State_Transfer\<close> (\<^verbatim>\<open>cluster/state_transfer.rs\<close>): what an attempt leaves, and when a cache is warm.

  \<^bold>\<open>Conventions.\<close> A Rust integer is a word of its width, or a natural where the source cannot reach the
  bound; a release build is modelled, where \<open>+\<close> wraps. A hash map whose order does not matter is an ordered map or a
  function. A call is one step: locks are held for the whole of it in the model, and one reading of
  the wall clock, \<open>sd_now\<close>, serves the whole call. Hashes, the length prefix and UTF-8 are parameters (\<open>externs\<close>),
  postcard is a pair of functions, the application's types come with a \<open>codec\<close>; what is
  assumed of them is a hypothesis of each property. The memory in use
  (\<open>sd_resident_bytes\<close>) is an input. Events go to a list. The flags of a load in
  flight live in the map entry and are copied to the caller, where the source shares one cell. All caches of one model
  have the same key and value type. A stream is the list of its items; a wait for room in an outbox is a
  parameter that says how much went in; the shards do not change under a burst other than by it; a lane
  that is retired loses what it still held.

  \<^bold>\<open>Bounds and termination.\<close> Loops are structural or have a termination proof. Compaction visits each of the
  buckets once, so their number is its fuel and it is never exhausted; eviction ends because each round
  removes an entry. Peeling a sketch and pulling a plan are partial functions: pulling is proved to return
  for every answer of the peer, peeling returns under the condition that identifies a decodable
  sketch, and a sketch from the wire on which it does not is exhibited.

  \<^bold>\<open>Scope of the main properties.\<close> Convergence and the refinements to registers are about the
  last-writer-wins resolver, unbounded capacity (no eviction) and tombstones that arrive within their retention; reads as a map also
  need no idle timeout and a shard below its memory ceiling. Merging resolvers are covered by the properties of the
  counters, the sets and the exchange of two records.

  \<^bold>\<open>Not modelled.\<close> The spill tier (an optional feature that writes cold values to files); sockets, TLS and the connection pool;
  gossip membership and discovery (third-party code; live peers are arguments); the tasks that only wait and call
  modelled operations (rebalancing, compaction, closing); the typed front end of a cache and its
  configuration; the batching of loader calls; telemetry and reports; the tools and demos.
\<close>

end
